(* ===== verification/Prelude.thy ===== *)
theory Prelude
  imports Main "HOL-Library.Word"
begin

text \<open>
  Shared vocabulary of the development: the machine-integer widths of the 64-bit target, the
  \<^verbatim>\<open>io::ErrorKind\<close> values the modelled code constructs or inspects, the result types, and
  the generic lemmas on lists and maps that several components use.

  Conventions of the model.
  \<^item> \<^verbatim>\<open>usize\<close> counters that are bounded by a collection's length are \<open>nat\<close>; \<^verbatim>\<open>usize\<close>
    values that are packed, shifted or compared bitwise are \<open>64 word\<close>; every
    \<^verbatim>\<open>checked_add\<close> is written out against \<open>usize_max\<close>.
  \<^item> \<^verbatim>\<open>io::Result<T>\<close> is \<open>io_error + 'a\<close> with \<open>Inl\<close> for the error.
  \<^item> a panic (a failed \<^verbatim>\<open>assert!\<close>, \<^verbatim>\<open>expect\<close>, \<^verbatim>\<open>unreachable!\<close> or an out-of-range index)
    is the value \<open>None\<close> of an \<open>option\<close>, so a theorem that an operation does not panic says
    that it returns \<open>Some\<close>.
\<close>

section \<open>Machine integers\<close>

type_synonym u8 = "8 word"
type_synonym u16 = "16 word"
type_synonym u32 = "32 word"
type_synonym u64 = "64 word"
type_synonym usize = "64 word"

definition usize_max :: nat where
  "usize_max = 2 ^ 64 - 1"

definition isize_max :: nat where
  "isize_max = 2 ^ 63 - 1"

definition u32_max :: nat where
  "u32_max = 2 ^ 32 - 1"

definition checked_add :: "nat \<Rightarrow> nat \<Rightarrow> nat option" where
  "checked_add a b = (if a + b \<le> usize_max then Some (a + b) else None)"

definition saturating_add :: "nat \<Rightarrow> nat \<Rightarrow> nat" where
  "saturating_add a b = min (a + b) usize_max"

lemma checked_add_Some_iff [simp]:
  "checked_add a b = Some c \<longleftrightarrow> c = a + b \<and> a + b \<le> usize_max"
  by (auto simp: checked_add_def)

lemma checked_add_None_iff [simp]: "checked_add a b = None \<longleftrightarrow> usize_max < a + b"
  by (auto simp: checked_add_def)

section \<open>Errors and results\<close>

datatype io_error =
    InvalidInput | InvalidData | UnexpectedEof | WriteZero | WouldBlock | Interrupted | Unsupported
  | OutOfMemory | BrokenPipe | AlreadyExists | ResourceBusy | Canceled | RawOs int | OtherError

type_synonym 'a io_result = "io_error + 'a"

datatype 'a poll = Ready 'a | Pending

section \<open>Lemma collections\<close>

named_theorems slab_simps "what each slab operation does to the key/value map"
named_theorems inv_intros "preservation of the components' invariants"
named_theorems state_bits "what each flag operation does to the task state word"

section \<open>Lists\<close>

definition list_get :: "'a list \<Rightarrow> nat \<Rightarrow> 'a option" where
  "list_get xs i = (if i < length xs then Some (xs ! i) else None)"

lemma list_get_Some_iff: "list_get xs i = Some x \<longleftrightarrow> i < length xs \<and> xs ! i = x"
  by (auto simp: list_get_def)

lemma list_get_None_iff: "list_get xs i = None \<longleftrightarrow> length xs \<le> i"
  by (auto simp: list_get_def)

lemma list_get_update [simp]:
  "list_get (xs[i := x]) j = (if j = i \<and> i < length xs then Some x else list_get xs j)"
  by (auto simp: list_get_def)

lemma list_get_append:
  "list_get (xs @ ys) i = (if i < length xs then list_get xs i else list_get ys (i - length xs))"
  by (auto simp: list_get_def nth_append)

lemma list_get_Nil [simp]: "list_get [] i = None"
  by (simp add: list_get_def)

text \<open>\<^verbatim>\<open>Vec::resize\<close> used to grow a vector.\<close>

definition resize_to :: "nat \<Rightarrow> 'a \<Rightarrow> 'a list \<Rightarrow> 'a list" where
  "resize_to n x xs = (if length xs \<le> n then xs @ replicate (n - length xs) x else take n xs)"

lemma length_resize_to [simp]: "length (resize_to n x xs) = n"
  by (auto simp: resize_to_def)

lemma list_get_resize_to_grow:
  "length xs \<le> n \<Longrightarrow>
   list_get (resize_to n x xs) i =
     (if i < length xs then list_get xs i else if i < n then Some x else None)"
  by (auto simp: resize_to_def list_get_def nth_append)

lemma length_filter_update:
  assumes "i < length xs"
  shows "length (filter P (xs[i := x])) + (if P (xs ! i) then 1 else 0)
       = length (filter P xs) + (if P x then 1 else 0)"
  using assms
proof (induction xs arbitrary: i)
  case Nil
  then show ?case by simp
next
  case (Cons y ys)
  then show ?case by (cases i) auto
qed

lemma count_list_one: "distinct xs \<Longrightarrow> x \<in> set xs \<Longrightarrow> count_list xs x = 1"
  by (induction xs) (auto simp: count_notin)

end
