(* ===== verification/Task_State.thy ===== *)
theory Task_State
  imports Prelude
begin

text \<open>
  The task state word of \<^verbatim>\<open>karmaio/src/task/state.rs\<close>: six flags and a reference count packed into one
  \<^verbatim>\<open>usize\<close>. Every function of the source is a function on \<open>64 word\<close>; a failed \<^verbatim>\<open>assert!\<close>, an overflow
  check or \<^verbatim>\<open>process::abort\<close> is \<open>None\<close>. The second half gives the word an abstract reading
  (\<open>task_bits\<close>) and proves what each transition does to it; reference counts that would run into the
  top bit are excluded by the source's own overflow check, which shows as the bound \<open>refs_small\<close>.
\<close>

unbundle bit_operations_syntax

section \<open>Constants\<close>

definition RUNNING :: usize where "RUNNING = 0b0001"
definition COMPLETE :: usize where "COMPLETE = 0b0010"
definition LIFECYCLE_MASK :: usize where "LIFECYCLE_MASK = 0b11"
definition NOTIFIED :: usize where "NOTIFIED = 0b100"
definition JOIN_INTEREST :: usize where "JOIN_INTEREST = 0b1000"
definition JOIN_WAKER :: usize where "JOIN_WAKER = 0b10000"
definition CANCELLED :: usize where "CANCELLED = 0b100000"

definition STATE_MASK :: usize where
  "STATE_MASK = LIFECYCLE_MASK OR NOTIFIED OR JOIN_INTEREST OR JOIN_WAKER OR CANCELLED"

definition REF_COUNT_MASK :: usize where "REF_COUNT_MASK = NOT STATE_MASK"

text \<open>\<^verbatim>\<open>REF_COUNT_MASK.count_zeros()\<close>.\<close>

definition REF_COUNT_SHIFT :: nat where
  "REF_COUNT_SHIFT = length (filter (\<lambda>n. \<not> bit REF_COUNT_MASK n) [0..<64])"

definition REF_ONE :: usize where "REF_ONE = push_bit REF_COUNT_SHIFT 1"

definition INITIAL_STATE :: usize where
  "INITIAL_STATE = (REF_ONE * 2) OR JOIN_INTEREST OR NOTIFIED"

section \<open>Snapshots\<close>

definition is_idle :: "usize \<Rightarrow> bool" where "is_idle s \<longleftrightarrow> s AND (RUNNING OR COMPLETE) = 0"
definition is_notified :: "usize \<Rightarrow> bool" where "is_notified s \<longleftrightarrow> s AND NOTIFIED = NOTIFIED"
definition unset_notified :: "usize \<Rightarrow> usize" where "unset_notified s = s AND NOT NOTIFIED"
definition set_notified :: "usize \<Rightarrow> usize" where "set_notified s = s OR NOTIFIED"
definition is_running :: "usize \<Rightarrow> bool" where "is_running s \<longleftrightarrow> s AND RUNNING = RUNNING"
definition set_running :: "usize \<Rightarrow> usize" where "set_running s = s OR RUNNING"
definition unset_running :: "usize \<Rightarrow> usize" where "unset_running s = s AND NOT RUNNING"
definition is_cancelled :: "usize \<Rightarrow> bool" where "is_cancelled s \<longleftrightarrow> s AND CANCELLED = CANCELLED"
definition set_cancelled :: "usize \<Rightarrow> usize" where "set_cancelled s = s OR CANCELLED"
definition is_complete :: "usize \<Rightarrow> bool" where "is_complete s \<longleftrightarrow> s AND COMPLETE = COMPLETE"
definition is_join_interested :: "usize \<Rightarrow> bool" where
  "is_join_interested s \<longleftrightarrow> s AND JOIN_INTEREST = JOIN_INTEREST"
definition unset_join_interested :: "usize \<Rightarrow> usize" where
  "unset_join_interested s = s AND NOT JOIN_INTEREST"
definition is_join_waker_set :: "usize \<Rightarrow> bool" where "is_join_waker_set s \<longleftrightarrow> s AND JOIN_WAKER = JOIN_WAKER"
definition snap_set_join_waker :: "usize \<Rightarrow> usize" where "snap_set_join_waker s = s OR JOIN_WAKER"
definition unset_join_waker :: "usize \<Rightarrow> usize" where "unset_join_waker s = s AND NOT JOIN_WAKER"

definition ref_count :: "usize \<Rightarrow> usize" where
  "ref_count s = drop_bit REF_COUNT_SHIFT (s AND REF_COUNT_MASK)"

definition snap_ref_inc :: "usize \<Rightarrow> usize option" where
  "snap_ref_inc s = (if unat s \<le> isize_max then Some (s + REF_ONE) else None)"

definition snap_ref_dec :: "usize \<Rightarrow> usize option" where
  "snap_ref_dec s = (if ref_count s > 0 then Some (s - REF_ONE) else None)"

section \<open>Atomic operations\<close>

text \<open>
  \<^verbatim>\<open>fetch_update\<close> is a compare-and-exchange loop. \<open>lost\<close> lists the values that other threads had stored
  when an exchange failed; the loop ends at the first exchange that succeeds. The result is the output
  and the value the word had and has at that moment.
\<close>

fun fetch_update ::
  "(usize \<Rightarrow> ('t \<times> usize option) option) \<Rightarrow> usize \<Rightarrow> usize list \<Rightarrow> ('t \<times> usize \<times> usize) option" where
  "fetch_update f cur lost =
     (case f cur of
        None \<Rightarrow> None
      | Some (output, None) \<Rightarrow> Some (output, cur, cur)
      | Some (output, Some next) \<Rightarrow>
          (case lost of
             [] \<Rightarrow> Some (output, cur, next)
           | actual # rest \<Rightarrow> fetch_update f actual rest))"

declare fetch_update.simps [simp del]

text \<open>The same, as one indivisible step on the current value.\<close>

definition atomically :: "(usize \<Rightarrow> ('t \<times> usize option) option) \<Rightarrow> usize \<Rightarrow> ('t \<times> usize) option" where
  "atomically f s =
     map_option (\<lambda>(output, next). (output, case next of Some n \<Rightarrow> n | None \<Rightarrow> s)) (f s)"

datatype transition_to_running = RunSuccess | RunCancelled | RunFailed | RunDealloc
datatype transition_to_idle = IdleOk | IdleOkNotified | IdleOkDealloc | IdleCancelled
datatype transition_to_notified = NotifyDoNothing | NotifySubmit | NotifyDealloc
datatype transition_to_cancelled = CancelDoNothing | CancelSubmit

record transition_to_join_handle_drop =
  drop_waker :: bool
  drop_output :: bool

definition to_running :: "usize \<Rightarrow> (transition_to_running \<times> usize option) option" where
  "to_running state =
     (if \<not> is_notified state then None
      else if \<not> is_idle state then
        (case snap_ref_dec state of
           None \<Rightarrow> None
         | Some state \<Rightarrow> Some (if ref_count state = 0 then RunDealloc else RunFailed, Some state))
      else
        let state = unset_notified (set_running state) in
        Some (if is_cancelled state then RunCancelled else RunSuccess, Some state))"

definition to_idle :: "usize \<Rightarrow> (transition_to_idle \<times> usize option) option" where
  "to_idle state =
     (if \<not> is_running state then None
      else if is_cancelled state then Some (IdleCancelled, None)
      else
        let state = unset_running state in
        if \<not> is_notified state then
          (case snap_ref_dec state of
             None \<Rightarrow> None
           | Some state \<Rightarrow> Some (if ref_count state = 0 then IdleOkDealloc else IdleOk, Some state))
        else
          (case snap_ref_inc state of
             None \<Rightarrow> None
           | Some state \<Rightarrow> Some (IdleOkNotified, Some state)))"

text \<open>\<^verbatim>\<open>transition_to_complete\<close>: one \<^verbatim>\<open>fetch_xor\<close>, then the two assertions on the previous value.\<close>

definition transition_to_complete :: "usize \<Rightarrow> (usize \<times> usize) option" where
  "transition_to_complete s =
     (let delta = RUNNING OR COMPLETE; new = s XOR delta in
      if is_running s \<and> \<not> is_complete s then Some (new, new) else None)"

definition to_notified_by_val :: "usize \<Rightarrow> (transition_to_notified \<times> usize option) option" where
  "to_notified_by_val state =
     (if is_running state then
        (case snap_ref_dec (set_notified state) of
           None \<Rightarrow> None
         | Some state \<Rightarrow> if ref_count state > 0 then Some (NotifyDoNothing, Some state) else None)
      else if is_complete state \<or> is_notified state then
        (case snap_ref_dec state of
           None \<Rightarrow> None
         | Some state \<Rightarrow> Some (if ref_count state = 0 then NotifyDealloc else NotifyDoNothing, Some state))
      else
        (case snap_ref_inc (set_notified state) of
           None \<Rightarrow> None
         | Some state \<Rightarrow> Some (NotifySubmit, Some state)))"

definition to_notified_by_ref :: "usize \<Rightarrow> (transition_to_notified \<times> usize option) option" where
  "to_notified_by_ref state =
     (if is_complete state then Some (NotifyDoNothing, None)
      else if is_notified state then Some (NotifyDoNothing, Some state)
      else if is_running state then Some (NotifyDoNothing, Some (set_notified state))
      else
        (case snap_ref_inc (set_notified state) of
           None \<Rightarrow> None
         | Some state \<Rightarrow> Some (NotifySubmit, Some state)))"

definition to_cancelled :: "usize \<Rightarrow> (transition_to_cancelled \<times> usize option) option" where
  "to_cancelled state =
     (if is_complete state \<or> is_cancelled state then Some (CancelDoNothing, None)
      else
        let state = set_cancelled state in
        if is_idle state \<and> \<not> is_notified state then
          (case snap_ref_inc (set_notified state) of
             None \<Rightarrow> None
           | Some state \<Rightarrow> Some (CancelSubmit, Some state))
        else Some (CancelDoNothing, Some state))"

text \<open>The exchange of \<^verbatim>\<open>drop_join_handle_fast\<close>; \<open>spurious\<close> is the failure a weak exchange may report.\<close>

definition drop_join_handle_fast :: "bool \<Rightarrow> usize \<Rightarrow> bool \<times> usize" where
  "drop_join_handle_fast spurious s =
     (if s = INITIAL_STATE \<and> \<not> spurious
      then (True, (INITIAL_STATE - REF_ONE) AND NOT JOIN_INTEREST) else (False, s))"

definition to_join_handle_dropped ::
  "usize \<Rightarrow> (transition_to_join_handle_drop \<times> usize option) option" where
  "to_join_handle_dropped state =
     (if \<not> is_join_interested state then None
      else
        let state = unset_join_interested state;
            complete = is_complete state;
            state = (if \<not> complete then unset_join_waker state else state)
        in Some (\<lparr>drop_waker = \<not> is_join_waker_set state, drop_output = complete\<rparr>, Some state))"

text \<open>The result of the two bit operations below: \<open>Inr\<close> the previous value, \<open>Inl\<close> the value at failure.\<close>

definition set_join_waker :: "usize \<Rightarrow> ((usize + usize) \<times> usize) option" where
  "set_join_waker s =
     (if \<not> is_join_interested s \<or> is_join_waker_set s then None
      else if is_complete s then Some (Inl s, s)
      else Some (Inr s, snap_set_join_waker s))"

definition unset_waker :: "usize \<Rightarrow> ((usize + usize) \<times> usize) option" where
  "unset_waker s =
     (if \<not> is_join_interested s then None
      else if is_complete s then Some (Inl s, s)
      else if \<not> is_join_waker_set s then None
      else Some (Inr s, unset_join_waker s))"

definition unset_waker_after_complete :: "usize \<Rightarrow> (usize \<times> usize) option" where
  "unset_waker_after_complete s =
     (let new = s AND NOT JOIN_WAKER in
      if is_complete s \<and> is_join_waker_set s then Some (new, new) else None)"

definition state_ref_inc :: "usize \<Rightarrow> usize option" where
  "state_ref_inc s = (if unat s > isize_max then None else Some (s + REF_ONE))"

definition state_ref_dec :: "usize \<Rightarrow> (bool \<times> usize) option" where
  "state_ref_dec s = (if ref_count s \<ge> 1 then Some (ref_count s = 1, s - REF_ONE) else None)"

definition transition_to_running :: "usize \<Rightarrow> (transition_to_running \<times> usize) option" where
  "transition_to_running = atomically to_running"
definition transition_to_idle :: "usize \<Rightarrow> (transition_to_idle \<times> usize) option" where
  "transition_to_idle = atomically to_idle"
definition transition_to_notified_by_val :: "usize \<Rightarrow> (transition_to_notified \<times> usize) option" where
  "transition_to_notified_by_val = atomically to_notified_by_val"
definition transition_to_notified_by_ref :: "usize \<Rightarrow> (transition_to_notified \<times> usize) option" where
  "transition_to_notified_by_ref = atomically to_notified_by_ref"
definition transition_to_cancelled :: "usize \<Rightarrow> (transition_to_cancelled \<times> usize) option" where
  "transition_to_cancelled = atomically to_cancelled"
definition transition_to_join_handle_dropped ::
  "usize \<Rightarrow> (transition_to_join_handle_drop \<times> usize) option" where
  "transition_to_join_handle_dropped = atomically to_join_handle_dropped"

section \<open>The abstract reading of the word\<close>

record task_bits =
  tb_running :: bool
  tb_complete :: bool
  tb_notified :: bool
  tb_join :: bool
  tb_waker :: bool
  tb_cancelled :: bool
  tb_refs :: nat

definition task_bits :: "usize \<Rightarrow> task_bits" where
  "task_bits s =
     \<lparr>tb_running = is_running s, tb_complete = is_complete s, tb_notified = is_notified s,
      tb_join = is_join_interested s, tb_waker = is_join_waker_set s, tb_cancelled = is_cancelled s,
      tb_refs = unat (ref_count s)\<rparr>"

lemmas flag_consts = RUNNING_def COMPLETE_def NOTIFIED_def JOIN_INTEREST_def JOIN_WAKER_def CANCELLED_def

lemma STATE_MASK_eq: "STATE_MASK = mask 6"
  by (simp add: STATE_MASK_def LIFECYCLE_MASK_def flag_consts mask_numeral)

lemma REF_COUNT_SHIFT_eq [simp]: "REF_COUNT_SHIFT = 6"
  by (simp add: REF_COUNT_SHIFT_def REF_COUNT_MASK_def STATE_MASK_eq upt_rec bit_not_iff bit_mask_iff)

lemma REF_ONE_eq: "REF_ONE = 64"
  by (simp add: REF_ONE_def push_bit_eq_mult)

lemma INITIAL_STATE_eq: "INITIAL_STATE = 140"
  by (simp add: INITIAL_STATE_def REF_ONE_eq flag_consts)

lemma flag_bit: "s AND (2 ^ n :: usize) = 2 ^ n \<longleftrightarrow> bit s n" if "n < 64"
proof
  assume "s AND 2 ^ n = 2 ^ n"
  then have "bit (s AND 2 ^ n) n" using that by (simp add: bit_simps)
  then show "bit s n" by (simp add: bit_simps)
next
  assume "bit s n"
  then show "s AND 2 ^ n = 2 ^ n" by (intro bit_word_eqI) (auto simp: bit_simps)
qed

lemma flag_bits [state_bits]:
  "is_running s = bit s 0" "is_complete s = bit s 1" "is_notified s = bit s 2"
  "is_join_interested s = bit s 3" "is_join_waker_set s = bit s 4" "is_cancelled s = bit s 5"
  using flag_bit [of 0 s] flag_bit [of 1 s] flag_bit [of 2 s] flag_bit [of 3 s] flag_bit [of 4 s] flag_bit [of 5 s]
  by (simp_all add: is_running_def is_complete_def is_notified_def is_join_interested_def
      is_join_waker_set_def is_cancelled_def flag_consts)

lemma is_idle_bits [state_bits]: "is_idle s \<longleftrightarrow> \<not> bit s 0 \<and> \<not> bit s 1"
proof -
  have "s AND 3 = 0 \<longleftrightarrow> (\<forall>n < 64. \<not> (bit s n \<and> bit (mask 2 :: usize) n))"
    by (auto simp: bit_eq_iff bit_simps mask_numeral)
  also have "\<dots> \<longleftrightarrow> (\<forall>n < 2. \<not> bit s n)"
  proof (intro iffI allI impI)
    fix n :: nat assume "\<forall>n < 64. \<not> (bit s n \<and> bit (mask 2 :: usize) n)" and "n < 2"
    then show "\<not> bit s n" by (auto simp: bit_mask_iff dest: spec [of _ n])
  qed (auto simp: bit_mask_iff)
  also have "\<dots> \<longleftrightarrow> \<not> bit s 0 \<and> \<not> bit s 1" by (auto simp: less_2_cases_iff)
  finally show ?thesis by (simp add: is_idle_def flag_consts)
qed

lemma unat_drop6: "unat (drop_bit 6 x) = unat (x :: usize) div 64"
  unfolding unat_drop_bit_eq by (simp add: drop_bit_eq_div)

lemma unat_ref_count: "unat (ref_count s) = unat s div 64"
proof -
  have "drop_bit 6 (s AND NOT (mask 6)) = drop_bit 6 s"
    by (rule bit_word_eqI) (auto simp: bit_simps dest: bit_imp_le_length)
  then show ?thesis
    by (simp add: ref_count_def REF_COUNT_MASK_def STATE_MASK_eq unat_drop6)
qed

lemma low_bits_add: "n < 6 \<Longrightarrow> bit (s + 64) n = bit (s :: usize) n"
proof -
  assume n: "n < 6"
  have "unat (s + 64) mod 64 = unat s mod 64" by (simp add: unat_word_ariths mod_mod_cancel)
  then have "take_bit 6 (s + 64) = take_bit 6 s"
    unfolding word_unat_eq_iff unsigned_take_bit_eq by (simp add: take_bit_eq_mod)
  then have "bit (take_bit 6 (s + 64)) n = bit (take_bit 6 s) n" by simp
  then show ?thesis using n by (simp add: bit_take_bit_iff)
qed

lemma low_bits_sub: "n < 6 \<Longrightarrow> bit (s - 64) n = bit (s :: usize) n"
  using low_bits_add [of n "s - 64"] by simp

lemma task_bits_set [state_bits]:
  "task_bits (set_notified s) = (task_bits s)\<lparr>tb_notified := True\<rparr>"
  "task_bits (unset_notified s) = (task_bits s)\<lparr>tb_notified := False\<rparr>"
  "task_bits (set_running s) = (task_bits s)\<lparr>tb_running := True\<rparr>"
  "task_bits (unset_running s) = (task_bits s)\<lparr>tb_running := False\<rparr>"
  "task_bits (set_cancelled s) = (task_bits s)\<lparr>tb_cancelled := True\<rparr>"
  "task_bits (unset_join_interested s) = (task_bits s)\<lparr>tb_join := False\<rparr>"
  "task_bits (snap_set_join_waker s) = (task_bits s)\<lparr>tb_waker := True\<rparr>"
  "task_bits (unset_join_waker s) = (task_bits s)\<lparr>tb_waker := False\<rparr>"
proof -
  have set: "bit (s OR 2 ^ k) n \<longleftrightarrow> bit s n \<or> n = k" "drop_bit 6 (s OR 2 ^ k) = drop_bit 6 s"
    if "k < 6" for k n
  proof -
    show "bit (s OR 2 ^ k) n \<longleftrightarrow> bit s n \<or> n = k" using that by (auto simp: bit_simps)
    show "drop_bit 6 (s OR 2 ^ k) = drop_bit 6 s"
      using that by (intro bit_word_eqI) (auto simp: bit_simps)
  qed
  have unset: "bit (s AND NOT (2 ^ k)) n \<longleftrightarrow> bit s n \<and> n \<noteq> k" "drop_bit 6 (s AND NOT (2 ^ k)) = drop_bit 6 s"
    if "k < 6" for k n
  proof -
    show "bit (s AND NOT (2 ^ k)) n \<longleftrightarrow> bit s n \<and> n \<noteq> k"
      using that by (auto simp: bit_simps dest: bit_imp_le_length)
    show "drop_bit 6 (s AND NOT (2 ^ k)) = drop_bit 6 s"
      using that by (intro bit_word_eqI) (auto simp: bit_simps dest: bit_imp_le_length)
  qed
  have refs: "unat (ref_count x) = unat (drop_bit 6 x)" for x
    by (simp add: unat_ref_count unat_drop6)
  show "task_bits (set_notified s) = (task_bits s)\<lparr>tb_notified := True\<rparr>"
    using set [of 2] by (simp add: task_bits_def flag_bits refs set_notified_def flag_consts)
  show "task_bits (unset_notified s) = (task_bits s)\<lparr>tb_notified := False\<rparr>"
    using unset [of 2] by (simp add: task_bits_def flag_bits refs unset_notified_def flag_consts)
  show "task_bits (set_running s) = (task_bits s)\<lparr>tb_running := True\<rparr>"
    using set [of 0] by (simp add: task_bits_def flag_bits refs set_running_def flag_consts)
  show "task_bits (unset_running s) = (task_bits s)\<lparr>tb_running := False\<rparr>"
    using unset [of 0] by (simp add: task_bits_def flag_bits refs unset_running_def flag_consts)
  show "task_bits (set_cancelled s) = (task_bits s)\<lparr>tb_cancelled := True\<rparr>"
    using set [of 5] by (simp add: task_bits_def flag_bits refs set_cancelled_def flag_consts)
  show "task_bits (unset_join_interested s) = (task_bits s)\<lparr>tb_join := False\<rparr>"
    using unset [of 3] by (simp add: task_bits_def flag_bits refs unset_join_interested_def flag_consts)
  show "task_bits (snap_set_join_waker s) = (task_bits s)\<lparr>tb_waker := True\<rparr>"
    using set [of 4] by (simp add: task_bits_def flag_bits refs snap_set_join_waker_def flag_consts)
  show "task_bits (unset_join_waker s) = (task_bits s)\<lparr>tb_waker := False\<rparr>"
    using unset [of 4] by (simp add: task_bits_def flag_bits refs unset_join_waker_def flag_consts)
qed

lemma task_bits_xor:
  assumes "is_running s" and "\<not> is_complete s"
  shows "task_bits (s XOR (RUNNING OR COMPLETE)) = (task_bits s)\<lparr>tb_running := False, tb_complete := True\<rparr>"
proof -
  have x: "s XOR (RUNNING OR COMPLETE) = s XOR mask 2" by (simp add: flag_consts mask_numeral)
  have "drop_bit 6 (s XOR mask 2) = drop_bit 6 s" by (intro bit_word_eqI) (auto simp: bit_simps)
  then have "unat (ref_count (s XOR mask 2)) = unat (ref_count s)"
    by (metis unat_ref_count unat_drop6)
  then show ?thesis unfolding x using assms by (simp add: task_bits_def flag_bits bit_simps)
qed

lemma tb_refs_eq: "tb_refs (task_bits s) = unat s div 64"
  by (simp add: task_bits_def unat_ref_count)

lemma overflow_check: "unat s \<le> isize_max \<longleftrightarrow> tb_refs (task_bits s) < 2 ^ 57"
  by (auto simp: tb_refs_eq isize_max_def)

lemma task_bits_ref_inc:
  assumes "unat s \<le> isize_max"
  shows "task_bits (s + REF_ONE) = (task_bits s)\<lparr>tb_refs := tb_refs (task_bits s) + 1\<rparr>"
proof -
  have "unat (s + 64) = unat s + 64" using assms by (simp add: isize_max_def unat_word_ariths)
  then have "tb_refs (task_bits (s + 64)) = tb_refs (task_bits s) + 1" by (simp add: tb_refs_eq)
  then show ?thesis
    using low_bits_add [of _ s] by (simp add: task_bits_def flag_bits REF_ONE_eq)
qed

lemma task_bits_ref_dec:
  assumes "ref_count s > 0"
  shows "task_bits (s - REF_ONE) = (task_bits s)\<lparr>tb_refs := tb_refs (task_bits s) - 1\<rparr>"
proof -
  have "0 < unat s div 64" using assms by (simp add: word_less_nat_alt unat_ref_count)
  then have le: "64 \<le> unat s" by simp
  then have "unat (s - 64) = unat s - 64" by (simp add: unat_sub word_le_nat_alt)
  then have "tb_refs (task_bits (s - 64)) = tb_refs (task_bits s) - 1"
    using le by (simp add: tb_refs_eq le_div_geq)
  then show ?thesis
    using low_bits_sub [of _ s] by (simp add: task_bits_def flag_bits REF_ONE_eq)
qed

lemma ref_count_pos [simp]: "ref_count s > 0 \<longleftrightarrow> 0 < tb_refs (task_bits s)"
  by (simp add: task_bits_def word_less_nat_alt)

lemma ref_count_zero [simp]: "ref_count s = 0 \<longleftrightarrow> tb_refs (task_bits s) = 0"
  by (simp add: task_bits_def unat_eq_0)

lemma ref_count_ge_one: "1 \<le> ref_count s \<longleftrightarrow> 0 < tb_refs (task_bits s)"
  by (simp add: task_bits_def word_le_nat_alt Suc_le_eq)

lemma ref_count_one: "ref_count s = 1 \<longleftrightarrow> tb_refs (task_bits s) = 1"
  by (simp add: task_bits_def word_unat_eq_iff)

text \<open>The word is determined by its abstract reading.\<close>

lemma task_bits_inj:
  assumes "task_bits s = task_bits t"
  shows "s = t"
proof -
  have low: "bit s n = bit t n" if "n < 6" for n
  proof -
    have "n = 0 \<or> n = 1 \<or> n = 2 \<or> n = 3 \<or> n = 4 \<or> n = 5" using that by auto
    then show ?thesis using assms by (auto simp: task_bits_def flag_bits)
  qed
  have "drop_bit 6 s = drop_bit 6 t"
    using assms by (metis tb_refs_eq unat_drop6 word_unat_eq_iff)
  then have "bit (drop_bit 6 s) k = bit (drop_bit 6 t) k" for k by simp
  then have "bit s (6 + k) = bit t (6 + k)" for k by (simp add: bit_drop_bit_eq)
  then have "bit s n = bit t n" if "\<not> n < 6" for n using that by (metis le_add_diff_inverse not_less)
  with low show ?thesis by (metis bit_word_eqI)
qed

section \<open>Abstract transitions\<close>

text \<open>
  The task life cycle on \<open>task_bits\<close>: what the transitions mean without the packing. \<open>None\<close> is a
  violated assertion of the source.
\<close>

definition max_refs :: nat where "max_refs = 2 ^ 57"

definition tb_inc :: "task_bits \<Rightarrow> task_bits option" where
  "tb_inc b = (if tb_refs b < max_refs then Some (b\<lparr>tb_refs := tb_refs b + 1\<rparr>) else None)"

definition tb_dec :: "task_bits \<Rightarrow> task_bits option" where
  "tb_dec b = (if 0 < tb_refs b then Some (b\<lparr>tb_refs := tb_refs b - 1\<rparr>) else None)"

definition spec_running :: "task_bits \<Rightarrow> (transition_to_running \<times> task_bits) option" where
  "spec_running b =
     (if \<not> tb_notified b then None
      else if tb_running b \<or> tb_complete b
      then map_option (\<lambda>b. (if tb_refs b = 0 then RunDealloc else RunFailed, b)) (tb_dec b)
      else Some (if tb_cancelled b then RunCancelled else RunSuccess, b\<lparr>tb_running := True, tb_notified := False\<rparr>))"

definition spec_idle :: "task_bits \<Rightarrow> (transition_to_idle \<times> task_bits) option" where
  "spec_idle b =
     (if \<not> tb_running b then None
      else if tb_cancelled b then Some (IdleCancelled, b)
      else if tb_notified b
      then map_option (\<lambda>b. (IdleOkNotified, b)) (tb_inc (b\<lparr>tb_running := False\<rparr>))
      else map_option (\<lambda>b. (if tb_refs b = 0 then IdleOkDealloc else IdleOk, b)) (tb_dec (b\<lparr>tb_running := False\<rparr>)))"

definition spec_complete :: "task_bits \<Rightarrow> task_bits option" where
  "spec_complete b =
     (if tb_running b \<and> \<not> tb_complete b then Some (b\<lparr>tb_running := False, tb_complete := True\<rparr>) else None)"

definition spec_notify_val :: "task_bits \<Rightarrow> (transition_to_notified \<times> task_bits) option" where
  "spec_notify_val b =
     (if tb_running b
      then (case tb_dec (b\<lparr>tb_notified := True\<rparr>) of
              None \<Rightarrow> None | Some b \<Rightarrow> if 0 < tb_refs b then Some (NotifyDoNothing, b) else None)
      else if tb_complete b \<or> tb_notified b
      then map_option (\<lambda>b. (if tb_refs b = 0 then NotifyDealloc else NotifyDoNothing, b)) (tb_dec b)
      else map_option (\<lambda>b. (NotifySubmit, b)) (tb_inc (b\<lparr>tb_notified := True\<rparr>)))"

definition spec_notify_ref :: "task_bits \<Rightarrow> (transition_to_notified \<times> task_bits) option" where
  "spec_notify_ref b =
     (if tb_complete b \<or> tb_notified b then Some (NotifyDoNothing, b)
      else if tb_running b then Some (NotifyDoNothing, b\<lparr>tb_notified := True\<rparr>)
      else map_option (\<lambda>b. (NotifySubmit, b)) (tb_inc (b\<lparr>tb_notified := True\<rparr>)))"

definition spec_cancel :: "task_bits \<Rightarrow> (transition_to_cancelled \<times> task_bits) option" where
  "spec_cancel b =
     (if tb_complete b \<or> tb_cancelled b then Some (CancelDoNothing, b)
      else if \<not> tb_running b \<and> \<not> tb_notified b
      then map_option (\<lambda>b. (CancelSubmit, b)) (tb_inc (b\<lparr>tb_cancelled := True, tb_notified := True\<rparr>))
      else Some (CancelDoNothing, b\<lparr>tb_cancelled := True\<rparr>))"

definition spec_join_drop :: "task_bits \<Rightarrow> (transition_to_join_handle_drop \<times> task_bits) option" where
  "spec_join_drop b =
     (if \<not> tb_join b then None
      else if tb_complete b
      then Some (\<lparr>drop_waker = \<not> tb_waker b, drop_output = True\<rparr>, b\<lparr>tb_join := False\<rparr>)
      else Some (\<lparr>drop_waker = True, drop_output = False\<rparr>, b\<lparr>tb_join := False, tb_waker := False\<rparr>))"

lemma bits_iff [simp]:
  "is_running s = tb_running (task_bits s)" "is_complete s = tb_complete (task_bits s)"
  "is_notified s = tb_notified (task_bits s)" "is_join_interested s = tb_join (task_bits s)"
  "is_join_waker_set s = tb_waker (task_bits s)" "is_cancelled s = tb_cancelled (task_bits s)"
  "is_idle s \<longleftrightarrow> \<not> tb_running (task_bits s) \<and> \<not> tb_complete (task_bits s)"
  by (simp_all add: task_bits_def flag_bits is_idle_bits)

lemma snap_ref_inc_bits: "map_option task_bits (snap_ref_inc s) = tb_inc (task_bits s)"
  by (simp add: snap_ref_inc_def tb_inc_def task_bits_ref_inc overflow_check [symmetric] max_refs_def)
     (simp add: overflow_check)

lemma snap_ref_dec_bits: "map_option task_bits (snap_ref_dec s) = tb_dec (task_bits s)"
  by (simp add: snap_ref_dec_def tb_dec_def task_bits_ref_dec)

lemma ref_inc_cases:
  "snap_ref_inc s = None \<longleftrightarrow> tb_inc (task_bits s) = None"
  "snap_ref_inc s = Some t \<Longrightarrow> tb_inc (task_bits s) = Some (task_bits t)"
  by (metis snap_ref_inc_bits map_option_is_None) (metis snap_ref_inc_bits option.simps(9))

lemma ref_dec_cases:
  "snap_ref_dec s = None \<longleftrightarrow> tb_dec (task_bits s) = None"
  "snap_ref_dec s = Some t \<Longrightarrow> tb_dec (task_bits s) = Some (task_bits t)"
  by (metis snap_ref_dec_bits map_option_is_None) (metis snap_ref_dec_bits option.simps(9))

lemmas refine_split = atomically_def task_bits_set Let_def

lemma running_refines:
  "map_option (map_prod id task_bits) (transition_to_running s) = spec_running (task_bits s)"
  using ref_dec_cases [of s]
  by (auto simp: transition_to_running_def to_running_def spec_running_def refine_split split: option.splits)

lemma idle_refines:
  "map_option (map_prod id task_bits) (transition_to_idle s) = spec_idle (task_bits s)"
  using ref_dec_cases [of "unset_running s"] ref_inc_cases [of "unset_running s"]
  by (auto simp: transition_to_idle_def to_idle_def spec_idle_def refine_split split: option.splits)

lemma complete_refines:
  "map_option (task_bits \<circ> snd) (transition_to_complete s) = spec_complete (task_bits s)"
  using task_bits_xor [of s] by (auto simp: transition_to_complete_def spec_complete_def Let_def)

lemma notify_val_refines:
  "map_option (map_prod id task_bits) (transition_to_notified_by_val s) = spec_notify_val (task_bits s)"
  using ref_dec_cases [of "set_notified s"] ref_inc_cases [of "set_notified s"] ref_dec_cases [of s]
  by (auto simp: transition_to_notified_by_val_def to_notified_by_val_def spec_notify_val_def refine_split
      split: option.splits)

lemma notify_ref_refines:
  "map_option (map_prod id task_bits) (transition_to_notified_by_ref s) = spec_notify_ref (task_bits s)"
  using ref_inc_cases [of "set_notified s"]
  by (auto simp: transition_to_notified_by_ref_def to_notified_by_ref_def spec_notify_ref_def refine_split
      split: option.splits)

lemma cancel_refines:
  "map_option (map_prod id task_bits) (transition_to_cancelled s) = spec_cancel (task_bits s)"
  using ref_inc_cases [of "set_notified (set_cancelled s)"]
  by (auto simp: transition_to_cancelled_def to_cancelled_def spec_cancel_def refine_split split: option.splits)

lemma join_drop_refines:
  "map_option (map_prod id task_bits) (transition_to_join_handle_dropped s) = spec_join_drop (task_bits s)"
  by (auto simp: transition_to_join_handle_dropped_def to_join_handle_dropped_def spec_join_drop_def refine_split)

lemma ref_refines:
  "map_option task_bits (state_ref_inc s) = tb_inc (task_bits s)"
  "map_option (map_prod id task_bits) (state_ref_dec s) =
     map_option (\<lambda>b. (tb_refs b = 0, b)) (tb_dec (task_bits s))"
proof -
  have "state_ref_inc s = snap_ref_inc s" by (simp add: state_ref_inc_def snap_ref_inc_def)
  then show "map_option task_bits (state_ref_inc s) = tb_inc (task_bits s)" by (simp add: snap_ref_inc_bits)
  show "map_option (map_prod id task_bits) (state_ref_dec s) =
     map_option (\<lambda>b. (tb_refs b = 0, b)) (tb_dec (task_bits s))"
    using task_bits_ref_dec [of s] by (auto simp: state_ref_dec_def tb_dec_def ref_count_ge_one ref_count_one)
qed

lemma join_waker_refines:
  "map_option (\<lambda>(r, s'). (r = Inr s, task_bits s')) (set_join_waker s) =
     (if \<not> tb_join (task_bits s) \<or> tb_waker (task_bits s) then None
      else if tb_complete (task_bits s) then Some (False, task_bits s)
      else Some (True, (task_bits s)\<lparr>tb_waker := True\<rparr>))"
  "map_option (\<lambda>(r, s'). (r = Inr s, task_bits s')) (unset_waker s) =
     (if \<not> tb_join (task_bits s) then None
      else if tb_complete (task_bits s) then Some (False, task_bits s)
      else if \<not> tb_waker (task_bits s) then None
      else Some (True, (task_bits s)\<lparr>tb_waker := False\<rparr>))"
  "map_option (task_bits \<circ> snd) (unset_waker_after_complete s) =
     (if tb_complete (task_bits s) \<and> tb_waker (task_bits s)
      then Some ((task_bits s)\<lparr>tb_waker := False\<rparr>) else None)"
  using task_bits_set(8) [of s]
  by (simp_all add: set_join_waker_def unset_waker_def unset_waker_after_complete_def task_bits_set Let_def
      unset_join_waker_def)

section \<open>Properties\<close>

text \<open>
  The compare-and-exchange loop is atomic. However often other threads change the word between the
  load and the exchange, a completed \<^verbatim>\<open>fetch_update\<close> returns what its function says of the value the
  word had when the exchange succeeded (or when the function declined), and stores exactly that
  function's next value.
\<close>

theorem fetch_update_linearizes:
  assumes "fetch_update f cur lost = Some (output, before, after)"
  shows "before \<in> set (cur # lost) \<and> atomically f before = Some (output, after)"
  using assms
proof (induction lost arbitrary: cur)
  case Nil
  then show ?case
    by (auto simp: fetch_update.simps [of f cur "[]"] atomically_def split: option.splits)
next
  case (Cons actual lost)
  have "(\<exists>out. f cur = Some (out, None) \<and> output = out \<and> before = cur \<and> after = cur) \<or>
      fetch_update f actual lost = Some (output, before, after)"
    using Cons.prems by (auto simp: fetch_update.simps [of f cur "actual # lost"] split: option.splits)
  then show ?case using Cons.IH [of actual] by (auto simp: atomically_def)
qed

text \<open>
  A wake-up races with another one: the word was idle (136: two references and a join handle) when it
  was read, and already notified (140) when the exchange was tried.
\<close>

theorem fetch_update_linearizes_witness:
  "fetch_update to_notified_by_ref 136 [140] = Some (NotifyDoNothing, 140, 140) \<and>
   atomically to_notified_by_ref 140 = Some (NotifyDoNothing, 140)"
proof -
  have "fetch_update to_notified_by_ref 136 [140] = Some (NotifyDoNothing, 140, 140)"
    by (simp add: fetch_update.simps [of _ 136 "[140]"] fetch_update.simps [of _ 140 "[]"] to_notified_by_ref_def is_complete_def is_notified_def is_running_def
        flag_consts snap_ref_inc_def isize_max_def set_notified_def del: bits_iff)
  with fetch_update_linearizes [OF this] show ?thesis by simp
qed

text \<open>
  C29. The packed transitions implement the life cycle. On every word, each transition of the source
  gives the action and the flags and reference count that the abstract transition gives, and it
  violates one of its assertions exactly when the abstract one does; no transition lets a carry or
  borrow of the reference count reach a flag.
\<close>

theorem transitions_refine_lifecycle:
  "map_option (map_prod id task_bits) (transition_to_running s) = spec_running (task_bits s) \<and>
   map_option (map_prod id task_bits) (transition_to_idle s) = spec_idle (task_bits s) \<and>
   map_option (task_bits \<circ> snd) (transition_to_complete s) = spec_complete (task_bits s) \<and>
   map_option (map_prod id task_bits) (transition_to_notified_by_val s) = spec_notify_val (task_bits s) \<and>
   map_option (map_prod id task_bits) (transition_to_notified_by_ref s) = spec_notify_ref (task_bits s) \<and>
   map_option (map_prod id task_bits) (transition_to_cancelled s) = spec_cancel (task_bits s) \<and>
   map_option (map_prod id task_bits) (transition_to_join_handle_dropped s) = spec_join_drop (task_bits s) \<and>
   map_option task_bits (state_ref_inc s) = tb_inc (task_bits s) \<and>
   map_option (map_prod id task_bits) (state_ref_dec s) =
     map_option (\<lambda>b. (tb_refs b = 0, b)) (tb_dec (task_bits s))"
  using running_refines idle_refines complete_refines notify_val_refines notify_ref_refines
    cancel_refines join_drop_refines ref_refines by blast

end
