(* ===== verification/Task.thy ===== *)
theory Task
  imports Task_State
begin

text \<open>
  One task allocation and everybody who holds a reference to it: the functions of
  \<^verbatim>\<open>karmaio/src/task/\<close> (\<^verbatim>\<open>vtable.rs\<close>, \<^verbatim>\<open>raw.rs\<close>, \<^verbatim>\<open>internal.rs\<close>, \<^verbatim>\<open>join.rs\<close>, \<^verbatim>\<open>waker.rs\<close>,
  \<^verbatim>\<open>trailer.rs\<close>, \<^verbatim>\<open>task.rs\<close>). The code runs on several threads at once, so it is cut at its atomic
  accesses to the state word: a party (the poller, the join handle, wakers, the scheduler) is in a
  phase, its place in the source, and an action takes it to the next one. Actions of different parties
  interleave freely. The contents of the cell (\<open>tk_word\<close>, \<open>tk_stage\<close>, \<open>tk_trailer\<close>) are the source's
  fields; the other fields say who holds references and where they are in the code.
\<close>

section \<open>The task cell\<close>

datatype 'p join_error = JoinCancelled | JoinPanic 'p

datatype ('f, 'o, 'p) stage =
    StRunning 'f
  | StFinished "'p join_error + 'o"
  | StConsumed

text \<open>Where \<^verbatim>\<open>vtable::poll\<close> is.\<close>

datatype poller =
    PNone        \<comment> \<open>nobody polls\<close>
  | PPoll        \<comment> \<open>in \<^verbatim>\<open>poll_future\<close>, RUNNING is ours\<close>
  | PCancel      \<comment> \<open>before the body of \<^verbatim>\<open>cancel_task\<close>\<close>
  | PFinish      \<comment> \<open>output stored, before \<^verbatim>\<open>transition_to_complete\<close>\<close>
  | PDropOutput  \<comment> \<open>completed without a join handle\<close>
  | PWakeJoin    \<comment> \<open>completed, before \<^verbatim>\<open>wake_join\<close>\<close>
  | PUnset       \<comment> \<open>before \<^verbatim>\<open>unset_waker_after_complete\<close>\<close>
  | PYield       \<comment> \<open>after \<open>OkNotified\<close>, before \<^verbatim>\<open>yield_now\<close>\<close>

text \<open>Where the join handle is; the waker is the argument of the running or last \<^verbatim>\<open>poll\<close>.\<close>

datatype 'w joiner =
    JHeld
  | JPending 'w   \<comment> \<open>the last poll returned \<open>Pending\<close>\<close>
  | JUnset 'w     \<comment> \<open>before \<^verbatim>\<open>unset_waker\<close>\<close>
  | JReset 'w     \<comment> \<open>before the second \<^verbatim>\<open>get_snapshot\<close>\<close>
  | JSet 'w       \<comment> \<open>before writing the waker\<close>
  | JStored 'w    \<comment> \<open>before \<^verbatim>\<open>State::set_join_waker\<close>\<close>
  | JRead         \<comment> \<open>before \<^verbatim>\<open>take_output\<close>\<close>
  | JDone         \<comment> \<open>the output was returned\<close>
  | JDropping transition_to_join_handle_drop
  | JDropRef
  | JGone

text \<open>The join handle is not inside one of its functions.\<close>

fun join_pollable :: "'w joiner \<Rightarrow> bool" where
  "join_pollable JHeld = True"
| "join_pollable (JPending _) = True"
| "join_pollable _ = False"

definition join_droppable :: "'w joiner \<Rightarrow> bool" where
  "join_droppable j \<longleftrightarrow> join_pollable j \<or> (case j of JDone \<Rightarrow> True | _ \<Rightarrow> False)"

record ('f, 'o, 'p, 'w) task =
  tk_word :: usize
  tk_stage :: "('f, 'o, 'p) stage"
  tk_trailer :: "'w option"
  tk_freed :: bool
  tk_queued :: nat      \<comment> \<open>\<^verbatim>\<open>Task\<close> handles in a run queue\<close>
  tk_inflight :: nat    \<comment> \<open>\<^verbatim>\<open>Task\<close> handles between a \<open>Submit\<close> and their \<^verbatim>\<open>schedule\<close>\<close>
  tk_poller :: poller
  tk_releasing :: nat   \<comment> \<open>pollers before their final \<^verbatim>\<open>drop_reference\<close>\<close>
  tk_join :: "'w joiner"
  tk_owned :: bool      \<comment> \<open>the scheduler's \<^verbatim>\<open>OwnedTask\<close>\<close>
  tk_wakers :: nat      \<comment> \<open>owned \<^verbatim>\<open>Waker\<close>s of the task\<close>
  tk_woken :: "'w list" \<comment> \<open>wakers of the join handle that were woken\<close>
  tk_lost :: bool       \<comment> \<open>a queued \<^verbatim>\<open>Task\<close> was dropped by a closed queue\<close>

text \<open>\<open>Bad\<close> is a violated assertion, a panic, or an access to memory the party does not own.\<close>

datatype 's outcome = Disabled | Bad | Next 's

type_synonym ('f, 'o, 'p, 'w) action = "('f, 'o, 'p, 'w) task \<Rightarrow> ('f, 'o, 'p, 'w) task outcome"

definition new_task :: "'f \<Rightarrow> ('f, 'o, 'p, 'w) task" where
  "new_task future =
     \<lparr>tk_word = INITIAL_STATE, tk_stage = StRunning future, tk_trailer = None, tk_freed = False,
      tk_queued = 0, tk_inflight = 1, tk_poller = PNone, tk_releasing = 0, tk_join = JHeld, tk_owned = False,
      tk_wakers = 0, tk_woken = [], tk_lost = False\<rparr>"

definition new_owned_task :: "'f \<Rightarrow> ('f, 'o, 'p, 'w) task option" where
  "new_owned_task future =
     (let t = new_task future in
      map_option (\<lambda>w. t\<lparr>tk_word := w, tk_owned := True\<rparr>) (state_ref_inc (tk_word t)))"

section \<open>References\<close>

text \<open>
  A step of a party on a live allocation: \<open>k\<close> is the new word and what follows. Any access after the
  allocation was freed is \<open>Bad\<close>.
\<close>

definition on_live :: "('f, 'o, 'p, 'w) task \<Rightarrow> 'r option \<Rightarrow> ('r \<Rightarrow> ('f, 'o, 'p, 'w) task outcome)
    \<Rightarrow> ('f, 'o, 'p, 'w) task outcome" where
  "on_live t r k = (if tk_freed t then Bad else case r of None \<Rightarrow> Bad | Some x \<Rightarrow> k x)"

text \<open>\<^verbatim>\<open>dealloc\<close>: the box is dropped.\<close>

definition dealloc :: "('f, 'o, 'p, 'w) task \<Rightarrow> ('f, 'o, 'p, 'w) task" where
  "dealloc t = t\<lparr>tk_freed := True\<rparr>"

text \<open>\<^verbatim>\<open>RawTask::drop_reference\<close>, also the body of \<^verbatim>\<open>Drop for Task\<close>.\<close>

definition drop_reference :: "('f, 'o, 'p, 'w) action" where
  "drop_reference t =
     on_live t (state_ref_dec (tk_word t)) (\<lambda>(last, w).
       Next (if last then dealloc (t\<lparr>tk_word := w\<rparr>) else t\<lparr>tk_word := w\<rparr>))"

definition clone_waker :: "('f, 'o, 'p, 'w) action" where
  "clone_waker t =
     (if tk_wakers t = 0 \<and> tk_poller t \<noteq> PPoll then Disabled
      else on_live t (state_ref_inc (tk_word t)) (\<lambda>w. Next (t\<lparr>tk_word := w, tk_wakers := tk_wakers t + 1\<rparr>)))"

definition drop_waker_ref :: "('f, 'o, 'p, 'w) action" where
  "drop_waker_ref t =
     (if tk_wakers t = 0 then Disabled else drop_reference (t\<lparr>tk_wakers := tk_wakers t - 1\<rparr>))"

text \<open>
  \<^verbatim>\<open>wake_by_val\<close> up to its transition. After \<open>Submit\<close> the new reference is in flight and the caller
  still holds its own, which it drops after \<^verbatim>\<open>schedule\<close>: a later \<open>drop_waker_ref\<close>.
\<close>

definition wake_by_val :: "('f, 'o, 'p, 'w) action" where
  "wake_by_val t =
     (if tk_wakers t = 0 then Disabled
      else on_live t (transition_to_notified_by_val (tk_word t)) (\<lambda>(action, w).
        let t' = t\<lparr>tk_word := w\<rparr> in
        case action of
          NotifySubmit \<Rightarrow> Next (t'\<lparr>tk_inflight := tk_inflight t + 1\<rparr>)
        | NotifyDealloc \<Rightarrow> Next (dealloc (t'\<lparr>tk_wakers := tk_wakers t - 1\<rparr>))
        | NotifyDoNothing \<Rightarrow> Next (t'\<lparr>tk_wakers := tk_wakers t - 1\<rparr>)))"

definition wake_by_ref :: "('f, 'o, 'p, 'w) action" where
  "wake_by_ref t =
     (if tk_wakers t = 0 \<and> tk_poller t \<noteq> PPoll then Disabled
      else on_live t (transition_to_notified_by_ref (tk_word t)) (\<lambda>(action, w).
        let t' = t\<lparr>tk_word := w\<rparr> in
        case action of
          NotifySubmit \<Rightarrow> Next (t'\<lparr>tk_inflight := tk_inflight t + 1\<rparr>)
        | NotifyDoNothing \<Rightarrow> Next t'
        | NotifyDealloc \<Rightarrow> Next t'))"

text \<open>\<^verbatim>\<open>RawTask::cancel\<close>, through the join handle (\<^verbatim>\<open>JoinHandle::abort\<close>) or the owned task.\<close>

definition cancel :: "('f, 'o, 'p, 'w) action" where
  "cancel t =
     (if \<not> tk_owned t \<and> \<not> join_droppable (tk_join t) then Disabled
      else on_live t (transition_to_cancelled (tk_word t)) (\<lambda>(action, w).
        let t' = t\<lparr>tk_word := w\<rparr> in
        case action of
          CancelSubmit \<Rightarrow> Next (t'\<lparr>tk_inflight := tk_inflight t + 1\<rparr>)
        | CancelDoNothing \<Rightarrow> Next t'))"

text \<open>The scheduler accepts an in-flight handle, or, closed, drops it; and drops a queued one at shutdown.\<close>

definition schedule :: "('f, 'o, 'p, 'w) action" where
  "schedule t =
     (if tk_inflight t = 0 then Disabled
      else Next (t\<lparr>tk_inflight := tk_inflight t - 1, tk_queued := tk_queued t + 1\<rparr>))"

definition reject :: "('f, 'o, 'p, 'w) action" where
  "reject t =
     (if tk_inflight t = 0 then Disabled
      else drop_reference (t\<lparr>tk_inflight := tk_inflight t - 1, tk_lost := True\<rparr>))"

definition discard :: "('f, 'o, 'p, 'w) action" where
  "discard t =
     (if tk_queued t = 0 then Disabled
      else drop_reference (t\<lparr>tk_queued := tk_queued t - 1, tk_lost := True\<rparr>))"

definition drop_owned :: "('f, 'o, 'p, 'w) action" where
  "drop_owned t = (if \<not> tk_owned t then Disabled else drop_reference (t\<lparr>tk_owned := False\<rparr>))"

section \<open>Polling\<close>

text \<open>\<^verbatim>\<open>Task::run\<close> and the first match of \<^verbatim>\<open>poll\<close>. Two pollers at once are \<open>Bad\<close>.\<close>

definition run :: "('f, 'o, 'p, 'w) action" where
  "run t =
     (if tk_queued t = 0 then Disabled
      else on_live t (transition_to_running (tk_word t)) (\<lambda>(action, w).
        let t' = t\<lparr>tk_word := w, tk_queued := tk_queued t - 1\<rparr> in
        case action of
          RunSuccess \<Rightarrow> if tk_poller t \<noteq> PNone then Bad else Next (t'\<lparr>tk_poller := PPoll\<rparr>)
        | RunCancelled \<Rightarrow> if tk_poller t \<noteq> PNone then Bad else Next (t'\<lparr>tk_poller := PCancel\<rparr>)
        | RunFailed \<Rightarrow> Next t'
        | RunDealloc \<Rightarrow> Next (dealloc t')))"

text \<open>
  The future's answer. \<open>Ready\<close> and a panic drop the future and store the output; \<open>Pending\<close> leaves the
  future as it is now and goes on to \<^verbatim>\<open>transition_to_idle\<close>.
\<close>

definition poll_ready :: "('p join_error + 'o) \<Rightarrow> ('f, 'o, 'p, 'w) action" where
  "poll_ready output t =
     (if tk_poller t \<noteq> PPoll then Disabled
      else if tk_freed t then Bad
      else case tk_stage t of
             StRunning _ \<Rightarrow> Next (t\<lparr>tk_stage := StFinished output, tk_poller := PFinish\<rparr>)
           | _ \<Rightarrow> Bad)"

definition poll_pending :: "'f \<Rightarrow> ('f, 'o, 'p, 'w) action" where
  "poll_pending future t =
     (if tk_poller t \<noteq> PPoll then Disabled
      else case tk_stage t of
        StRunning _ \<Rightarrow>
          on_live t (transition_to_idle (tk_word t)) (\<lambda>(action, w).
            let t' = t\<lparr>tk_word := w, tk_stage := StRunning future\<rparr> in
            case action of
              IdleOk \<Rightarrow> Next (t'\<lparr>tk_poller := PNone\<rparr>)
            | IdleOkNotified \<Rightarrow> Next (t'\<lparr>tk_poller := PYield\<rparr>)
            | IdleOkDealloc \<Rightarrow> Next (dealloc (t'\<lparr>tk_poller := PNone\<rparr>))
            | IdleCancelled \<Rightarrow> Next (t'\<lparr>tk_poller := PCancel\<rparr>))
      | _ \<Rightarrow> Bad)"

definition yield_now :: "('f, 'o, 'p, 'w) action" where
  "yield_now t =
     (if tk_poller t \<noteq> PYield then Disabled
      else if tk_freed t then Bad
      else Next (t\<lparr>tk_inflight := tk_inflight t + 1, tk_poller := PNone, tk_releasing := tk_releasing t + 1\<rparr>))"

definition cancel_task :: "('f, 'o, 'p, 'w) action" where
  "cancel_task t =
     (if tk_poller t \<noteq> PCancel then Disabled
      else if tk_freed t then Bad
      else Next (t\<lparr>tk_stage := StFinished (Inl JoinCancelled), tk_poller := PFinish\<rparr>))"

definition complete :: "('f, 'o, 'p, 'w) action" where
  "complete t =
     (if tk_poller t \<noteq> PFinish then Disabled
      else on_live t (transition_to_complete (tk_word t)) (\<lambda>(snapshot, w).
        let t' = t\<lparr>tk_word := w\<rparr> in
        Next (if \<not> is_join_interested snapshot then t'\<lparr>tk_poller := PDropOutput\<rparr>
              else if is_join_waker_set snapshot then t'\<lparr>tk_poller := PWakeJoin\<rparr>
              else t'\<lparr>tk_poller := PNone, tk_releasing := tk_releasing t + 1\<rparr>)))"

definition drop_output_unjoined :: "('f, 'o, 'p, 'w) action" where
  "drop_output_unjoined t =
     (if tk_poller t \<noteq> PDropOutput then Disabled
      else if tk_freed t then Bad
      else Next (t\<lparr>tk_stage := StConsumed, tk_poller := PNone, tk_releasing := tk_releasing t + 1\<rparr>))"

definition wake_join :: "('f, 'o, 'p, 'w) action" where
  "wake_join t =
     (if tk_poller t \<noteq> PWakeJoin then Disabled
      else on_live t (tk_trailer t) (\<lambda>waker.
        Next (t\<lparr>tk_woken := tk_woken t @ [waker], tk_poller := PUnset\<rparr>)))"

definition release_join_waker :: "('f, 'o, 'p, 'w) action" where
  "release_join_waker t =
     (if tk_poller t \<noteq> PUnset then Disabled
      else on_live t (unset_waker_after_complete (tk_word t)) (\<lambda>(snapshot, w).
        Next (t\<lparr>tk_word := w,
                tk_trailer := (if is_join_interested snapshot then tk_trailer t else None),
                tk_poller := PNone, tk_releasing := tk_releasing t + 1\<rparr>)))"

definition poller_drop_reference :: "('f, 'o, 'p, 'w) action" where
  "poller_drop_reference t =
     (if tk_releasing t = 0 then Disabled else drop_reference (t\<lparr>tk_releasing := tk_releasing t - 1\<rparr>))"

section \<open>The join handle\<close>

text \<open>\<^verbatim>\<open>JoinHandle::poll\<close>, \<^verbatim>\<open>try_read_output\<close> and \<^verbatim>\<open>can_read_output\<close> up to their first atomic access.\<close>

definition join_poll :: "'w \<Rightarrow> ('f, 'o, 'p, 'w) action" where
  "join_poll waker t =
     (if \<not> join_pollable (tk_join t) then Disabled
      else if tk_freed t then Bad
      else if \<not> is_join_interested (tk_word t) then Bad
      else if is_complete (tk_word t) then Next (t\<lparr>tk_join := JRead\<rparr>)
      else if is_join_waker_set (tk_word t) then
        (case tk_trailer t of
           None \<Rightarrow> Bad
         | Some w \<Rightarrow> Next (t\<lparr>tk_join := (if w = waker then JPending waker else JUnset waker)\<rparr>))
      else Next (t\<lparr>tk_join := JSet waker\<rparr>))"

definition join_unset_waker :: "('f, 'o, 'p, 'w) action" where
  "join_unset_waker t =
     (case tk_join t of
        JUnset waker \<Rightarrow>
          on_live t (unset_waker (tk_word t)) (\<lambda>(r, w).
            case r of
              Inl snapshot \<Rightarrow>
                if is_complete snapshot then Next (t\<lparr>tk_word := w, tk_join := JRead\<rparr>) else Bad
            | Inr prev \<Rightarrow>
                if is_join_waker_set prev then Next (t\<lparr>tk_word := w, tk_join := JReset waker\<rparr>) else Bad)
      | _ \<Rightarrow> Disabled)"

definition join_reload :: "('f, 'o, 'p, 'w) action" where
  "join_reload t =
     (case tk_join t of
        JReset waker \<Rightarrow>
          if tk_freed t \<or> \<not> is_join_interested (tk_word t) \<or> is_join_waker_set (tk_word t) then Bad
          else Next (t\<lparr>tk_join := JSet waker\<rparr>)
      | _ \<Rightarrow> Disabled)"

definition join_store_waker :: "('f, 'o, 'p, 'w) action" where
  "join_store_waker t =
     (case tk_join t of
        JSet waker \<Rightarrow>
          if tk_freed t then Bad else Next (t\<lparr>tk_trailer := Some waker, tk_join := JStored waker\<rparr>)
      | _ \<Rightarrow> Disabled)"

definition join_set_waker :: "('f, 'o, 'p, 'w) action" where
  "join_set_waker t =
     (case tk_join t of
        JStored waker \<Rightarrow>
          on_live t (set_join_waker (tk_word t)) (\<lambda>(r, w).
            case r of
              Inl snapshot \<Rightarrow>
                if is_complete snapshot then Next (t\<lparr>tk_word := w, tk_trailer := None, tk_join := JRead\<rparr>) else Bad
            | Inr _ \<Rightarrow> Next (t\<lparr>tk_word := w, tk_join := JPending waker\<rparr>))
      | _ \<Rightarrow> Disabled)"

definition take_output :: "('f, 'o, 'p, 'w) action" where
  "take_output t =
     (if tk_join t \<noteq> JRead then Disabled
      else if tk_freed t then Bad
      else case tk_stage t of
             StFinished _ \<Rightarrow> Next (t\<lparr>tk_stage := StConsumed, tk_join := JDone\<rparr>)
           | _ \<Rightarrow> Bad)"

text \<open>\<^verbatim>\<open>Drop for JoinHandle\<close>: first the fast exchange, else \<^verbatim>\<open>drop_join_handle\<close>.\<close>

definition join_drop :: "bool \<Rightarrow> ('f, 'o, 'p, 'w) action" where
  "join_drop spurious t =
     (if \<not> join_droppable (tk_join t) then Disabled
      else if tk_freed t then Bad
      else case drop_join_handle_fast spurious (tk_word t) of
             (True, w) \<Rightarrow> Next (t\<lparr>tk_word := w, tk_join := JGone\<rparr>)
           | (False, w) \<Rightarrow>
               on_live t (transition_to_join_handle_dropped w) (\<lambda>(d, w').
                 Next (t\<lparr>tk_word := w', tk_join := JDropping d\<rparr>)))"

definition join_dropping :: "('f, 'o, 'p, 'w) action" where
  "join_dropping t =
     (case tk_join t of
        JDropping d \<Rightarrow>
          if tk_freed t then Bad
          else Next (t\<lparr>tk_stage := (if drop_output d then StConsumed else tk_stage t),
                       tk_trailer := (if drop_waker d then None else tk_trailer t),
                       tk_join := JDropRef\<rparr>)
      | _ \<Rightarrow> Disabled)"

definition join_drop_reference :: "('f, 'o, 'p, 'w) action" where
  "join_drop_reference t =
     (if tk_join t \<noteq> JDropRef then Disabled else drop_reference (t\<lparr>tk_join := JGone\<rparr>))"

section \<open>The invariant\<close>

fun poller_refs :: "poller \<Rightarrow> nat" where
  "poller_refs PNone = 0"
| "poller_refs PYield = 2"
| "poller_refs _ = 1"

fun poller_notes :: "poller \<Rightarrow> nat" where
  "poller_notes PYield = 1"
| "poller_notes _ = 0"

fun poller_running :: "poller \<Rightarrow> bool" where
  "poller_running PPoll = True"
| "poller_running PCancel = True"
| "poller_running PFinish = True"
| "poller_running _ = False"

fun poller_completed :: "poller \<Rightarrow> bool" where
  "poller_completed PDropOutput = True"
| "poller_completed PWakeJoin = True"
| "poller_completed PUnset = True"
| "poller_completed _ = False"

fun poller_waking :: "poller \<Rightarrow> bool" where
  "poller_waking PWakeJoin = True"
| "poller_waking PUnset = True"
| "poller_waking _ = False"

text \<open>\<^verbatim>\<open>Task\<close> handles that are or will be in a run queue.\<close>

definition task_notes :: "('f, 'o, 'p, 'w) task \<Rightarrow> nat" where
  "task_notes t = tk_queued t + tk_inflight t + poller_notes (tk_poller t)"

definition join_refs :: "'w joiner \<Rightarrow> nat" where
  "join_refs j = (if j = JGone then 0 else 1)"

definition task_holders :: "('f, 'o, 'p, 'w) task \<Rightarrow> nat" where
  "task_holders t =
     tk_queued t + tk_inflight t + poller_refs (tk_poller t) + tk_releasing t +
     join_refs (tk_join t) + of_bool (tk_owned t) + tk_wakers t"

text \<open>Idle and notified: exactly then a handle must be on its way to be run.\<close>

definition wants_run :: "task_bits \<Rightarrow> bool" where
  "wants_run b \<longleftrightarrow> tb_notified b \<and> \<not> tb_running b \<and> \<not> tb_complete b"

text \<open>The join handle has not begun to be dropped.\<close>

fun join_present :: "'w joiner \<Rightarrow> bool" where
  "join_present (JDropping _) = False"
| "join_present JDropRef = False"
| "join_present JGone = False"
| "join_present _ = True"

fun join_reads :: "'w joiner \<Rightarrow> bool" where
  "join_reads JRead = True"
| "join_reads JDone = True"
| "join_reads _ = False"

fun join_drops_output :: "'w joiner \<Rightarrow> bool" where
  "join_drops_output (JDropping d) = drop_output d"
| "join_drops_output _ = False"

fun stage_running :: "('f, 'o, 'p) stage \<Rightarrow> bool" where
  "stage_running (StRunning _) = True"
| "stage_running _ = False"

fun stage_finished :: "('f, 'o, 'p) stage \<Rightarrow> bool" where
  "stage_finished (StFinished _) = True"
| "stage_finished _ = False"

text \<open>References, flags and queue.\<close>

definition inv_refs :: "('f, 'o, 'p, 'w) task \<Rightarrow> task_bits \<Rightarrow> bool" where
  "inv_refs t b \<longleftrightarrow>
     tb_refs b = task_holders t \<and> (tk_freed t \<longleftrightarrow> task_holders t = 0) \<and>
     (tb_running b \<longleftrightarrow> poller_running (tk_poller t)) \<and>
     (tb_complete b \<longrightarrow> tk_poller t = PNone \<or> poller_completed (tk_poller t)) \<and>
     (poller_completed (tk_poller t) \<longrightarrow> tb_complete b) \<and>
     task_notes t \<le> 1 \<and> (0 < task_notes t \<longrightarrow> wants_run b) \<and>
     (\<not> tk_lost t \<and> wants_run b \<longrightarrow> task_notes t = 1) \<and>
     (tb_join b \<longleftrightarrow> join_present (tk_join t))"

text \<open>The future or its output.\<close>

definition stage_ok :: "poller \<Rightarrow> 'w joiner \<Rightarrow> ('f, 'o, 'p) stage \<Rightarrow> bool \<Rightarrow> bool" where
  "stage_ok p j st c \<longleftrightarrow>
     (\<not> c \<and> p \<noteq> PFinish \<longrightarrow> stage_running st) \<and>
     (p = PFinish \<longrightarrow> stage_finished st) \<and>
     (c \<and> join_present j \<and> j \<noteq> JDone \<longrightarrow> stage_finished st) \<and>
     (join_reads j \<longrightarrow> c) \<and>
     (join_drops_output j \<longrightarrow> c \<and> p \<noteq> PDropOutput) \<and>
     (p = PDropOutput \<longrightarrow> \<not> join_present j)"

text \<open>
  The waker of the join handle, given its phase, the poller's, the flags COMPLETE and JOIN_WAKER, the
  stored waker and the wakers already woken.
\<close>

fun join_waker_ok :: "'w joiner \<Rightarrow> poller \<Rightarrow> bool \<Rightarrow> bool \<Rightarrow> 'w option \<Rightarrow> 'w list \<Rightarrow> bool" where
  "join_waker_ok (JPending w) p c k stored woken =
     (if c then (p = PWakeJoin \<and> stored = Some w) \<or> w \<in> set woken else k \<and> stored = Some w)"
| "join_waker_ok (JUnset w) p c k stored woken = (c \<or> k)"
| "join_waker_ok (JReset w) p c k stored woken = (\<not> k)"
| "join_waker_ok (JSet w) p c k stored woken = (\<not> k)"
| "join_waker_ok (JStored w) p c k stored woken = (\<not> k \<and> stored = Some w)"
| "join_waker_ok (JDropping d) p c k stored woken = (k \<longrightarrow> c \<and> \<not> drop_waker d)"
| "join_waker_ok _ p c k stored woken = (k \<longrightarrow> c)"

definition waker_ok :: "poller \<Rightarrow> 'w joiner \<Rightarrow> 'w option \<Rightarrow> 'w list \<Rightarrow> bool \<Rightarrow> bool \<Rightarrow> bool" where
  "waker_ok p j stored woken c k \<longleftrightarrow>
     (k \<longrightarrow> stored \<noteq> None) \<and> (k \<and> c \<longrightarrow> poller_waking p) \<and> (poller_waking p \<longrightarrow> k) \<and>
     join_waker_ok j p c k stored woken"

definition task_inv :: "('f, 'o, 'p, 'w) task \<Rightarrow> bool" where
  "task_inv t \<longleftrightarrow>
     (let b = task_bits (tk_word t) in
      inv_refs t b \<and> stage_ok (tk_poller t) (tk_join t) (tk_stage t) (tb_complete b) \<and>
      waker_ok (tk_poller t) (tk_join t) (tk_trailer t) (tk_woken t) (tb_complete b) (tb_waker b))"

lemma on_live_Next:
  "on_live t r k = Next t' \<longleftrightarrow> \<not> tk_freed t \<and> (\<exists>x. r = Some x \<and> k x = Next t')"
  by (auto simp: on_live_def split: option.splits)

lemma on_live_Bad:
  "on_live t r k = Bad \<longleftrightarrow> tk_freed t \<or> r = None \<or> (\<exists>x. r = Some x \<and> k x = Bad)"
  by (auto simp: on_live_def split: option.splits)

text \<open>The packed transitions, read through \<open>task_bits\<close>.\<close>

lemma bits_of_transition:
  "map_option (map_prod id task_bits) x = y \<Longrightarrow> x = Some (a, w) \<Longrightarrow> y = Some (a, task_bits w)"
  "map_option (map_prod id task_bits) x = y \<Longrightarrow> x = None \<longleftrightarrow> y = None"
  by auto

lemmas transition_bits =
  bits_of_transition(1) [OF running_refines] bits_of_transition(1) [OF idle_refines]
  bits_of_transition(1) [OF notify_val_refines] bits_of_transition(1) [OF notify_ref_refines]
  bits_of_transition(1) [OF cancel_refines] bits_of_transition(1) [OF join_drop_refines]
  bits_of_transition(1) [OF ref_refines(2)]

lemmas transition_none =
  bits_of_transition(2) [OF running_refines] bits_of_transition(2) [OF idle_refines]
  bits_of_transition(2) [OF notify_val_refines] bits_of_transition(2) [OF notify_ref_refines]
  bits_of_transition(2) [OF cancel_refines] bits_of_transition(2) [OF join_drop_refines]
  bits_of_transition(2) [OF ref_refines(2)]

section \<open>Preservation\<close>

lemma task_invD:
  assumes "task_inv t"
  shows "inv_refs t (task_bits (tk_word t))"
    and "stage_ok (tk_poller t) (tk_join t) (tk_stage t) (tb_complete (task_bits (tk_word t)))"
    and "waker_ok (tk_poller t) (tk_join t) (tk_trailer t) (tk_woken t) (tb_complete (task_bits (tk_word t)))
          (tb_waker (task_bits (tk_word t)))"
  using assms by (simp_all add: task_inv_def Let_def)

lemma task_invI:
  assumes "task_bits (tk_word t) = b" and "inv_refs t b"
    and "stage_ok (tk_poller t) (tk_join t) (tk_stage t) (tb_complete b)"
    and "waker_ok (tk_poller t) (tk_join t) (tk_trailer t) (tk_woken t) (tb_complete b) (tb_waker b)"
  shows "task_inv t"
  using assms by (simp add: task_inv_def)

lemma field_updates [simp]:
  "task_holders (t\<lparr>tk_word := w\<rparr>) = task_holders t" "task_holders (t\<lparr>tk_freed := f\<rparr>) = task_holders t"
  "task_holders (t\<lparr>tk_stage := st\<rparr>) = task_holders t" "task_holders (t\<lparr>tk_trailer := tr\<rparr>) = task_holders t"
  "task_holders (t\<lparr>tk_woken := ws\<rparr>) = task_holders t" "task_holders (t\<lparr>tk_lost := l\<rparr>) = task_holders t"
  "task_notes (t\<lparr>tk_word := w\<rparr>) = task_notes t" "task_notes (t\<lparr>tk_freed := f\<rparr>) = task_notes t"
  "task_notes (t\<lparr>tk_stage := st\<rparr>) = task_notes t" "task_notes (t\<lparr>tk_trailer := tr\<rparr>) = task_notes t"
  "task_notes (t\<lparr>tk_woken := ws\<rparr>) = task_notes t" "task_notes (t\<lparr>tk_lost := l\<rparr>) = task_notes t"
  "task_notes (t\<lparr>tk_join := j\<rparr>) = task_notes t" "task_notes (t\<lparr>tk_owned := x\<rparr>) = task_notes t"
  "task_notes (t\<lparr>tk_wakers := n\<rparr>) = task_notes t" "task_notes (t\<lparr>tk_releasing := n\<rparr>) = task_notes t"
  by (simp_all add: task_holders_def task_notes_def)

lemma wants_run_refs [simp]: "wants_run (b\<lparr>tb_refs := n\<rparr>) = wants_run b" "wants_run (b\<lparr>tb_join := x\<rparr>) = wants_run b"
  "wants_run (b\<lparr>tb_waker := x\<rparr>) = wants_run b" "wants_run (b\<lparr>tb_cancelled := x\<rparr>) = wants_run b"
  by (simp_all add: wants_run_def)

lemma stage_ok_gone: "stage_ok p (JDropRef :: 'w joiner) st c = stage_ok p (JGone :: 'w joiner) st c"
  and waker_ok_gone: "waker_ok p (JDropRef :: 'w joiner) tr wk c k = waker_ok p (JGone :: 'w joiner) tr wk c k"
  by (simp_all add: stage_ok_def waker_ok_def)

text \<open>
  What an action may do from a state that satisfies the invariant: it is disabled, or it keeps the
  invariant, or it stops the process because the reference count is at its limit.
\<close>

definition good :: "('f, 'o, 'p, 'w) task \<Rightarrow> ('f, 'o, 'p, 'w) task outcome \<Rightarrow> bool" where
  "good t r \<longleftrightarrow> r = Disabled \<or> (\<exists>t'. r = Next t' \<and> task_inv t') \<or> (r = Bad \<and> max_refs \<le> task_holders t)"

lemma good_simps [simp]:
  "good t Disabled" "good t (Next t') = task_inv t'" "good t Bad = (max_refs \<le> task_holders t)"
  by (auto simp: good_def)

lemma good_Next:
  assumes "task_bits w = b" and "tk_word t' = w" and "inv_refs t' b"
    and "stage_ok (tk_poller t') (tk_join t') (tk_stage t') (tb_complete b)"
    and "waker_ok (tk_poller t') (tk_join t') (tk_trailer t') (tk_woken t') (tb_complete b) (tb_waker b)"
  shows "good t (Next t')"
  using assms task_invI by fastforce

lemma drop_reference_cases:
  assumes "\<not> tk_freed t" and "0 < tb_refs (task_bits (tk_word t))"
  obtains w where "drop_reference t = Next (t\<lparr>tk_word := w, tk_freed := (tb_refs (task_bits (tk_word t)) = 1)\<rparr>)"
    "task_bits w = (task_bits (tk_word t))\<lparr>tb_refs := tb_refs (task_bits (tk_word t)) - 1\<rparr>"
proof -
  let ?b = "task_bits (tk_word t)"
  obtain last w where w: "state_ref_dec (tk_word t) = Some (last, w)"
      "task_bits w = ?b\<lparr>tb_refs := tb_refs ?b - 1\<rparr>" "last = (tb_refs ?b - 1 = 0)"
    using ref_refines(2) [of "tk_word t"] assms(2) by (auto simp: tb_dec_def)
  show thesis using that [of w] w assms by (auto simp: drop_reference_def on_live_def dealloc_def)
qed

lemma inv_refsD:
  assumes "inv_refs t b"
  shows "tb_refs b = task_holders t" "tk_freed t \<longleftrightarrow> task_holders t = 0"
    "tb_running b \<longleftrightarrow> poller_running (tk_poller t)"
    "tb_complete b \<Longrightarrow> tk_poller t = PNone \<or> poller_completed (tk_poller t)"
    "poller_completed (tk_poller t) \<Longrightarrow> tb_complete b"
    "task_notes t \<le> 1" "0 < task_notes t \<Longrightarrow> wants_run b"
    "\<not> tk_lost t \<Longrightarrow> wants_run b \<Longrightarrow> task_notes t = 1" "tb_join b \<longleftrightarrow> join_present (tk_join t)"
  using assms by (auto simp: inv_refs_def)

lemma good_drop:
  assumes inv: "task_inv t"
    and same: "tk_word u = tk_word t" "tk_poller u = tk_poller t" "tk_stage u = tk_stage t"
      "tk_trailer u = tk_trailer t" "tk_woken u = tk_woken t" "tk_freed u = tk_freed t"
    and join: "tk_join u = tk_join t \<or> (tk_join t = JDropRef \<and> tk_join u = JGone)"
    and hold: "task_holders t = task_holders u + 1" and nts: "task_notes u \<le> task_notes t"
    and lost: "\<not> tk_lost u \<longrightarrow> \<not> tk_lost t \<and> task_notes u = task_notes t"
  shows "good t (drop_reference u)"
proof -
  let ?b = "task_bits (tk_word t)"
  note r = task_invD [OF inv]
  have "\<not> tk_freed u" "0 < tb_refs (task_bits (tk_word u))"
    using inv_refsD(1,2) [OF r(1)] hold by (simp_all add: same)
  then obtain w where w: "drop_reference u = Next (u\<lparr>tk_word := w, tk_freed := (tb_refs ?b = 1)\<rparr>)"
    "task_bits w = ?b\<lparr>tb_refs := tb_refs ?b - 1\<rparr>"
    by (rule drop_reference_cases) (simp_all add: same(1))
  have j: "join_present (tk_join u) = join_present (tk_join t)"
    "stage_ok p (tk_join u) st c = stage_ok p (tk_join t) st c"
    "waker_ok p (tk_join u) tr wk c k = waker_ok p (tk_join t) tr wk c k" for p st c tr wk k
    using join by (auto simp: stage_ok_gone waker_ok_gone)
  have "inv_refs (u\<lparr>tk_word := w, tk_freed := (tb_refs ?b = 1)\<rparr>) (?b\<lparr>tb_refs := tb_refs ?b - 1\<rparr>)"
    using r(1) hold nts lost unfolding inv_refs_def by (auto simp: same j(1))
  with r(2,3) show ?thesis unfolding w(1) by (intro good_Next [OF w(2)]) (simp_all add: same j(2,3))
qed

lemma good_drops:
  assumes "task_inv t"
  shows "good t (drop_owned t)" "good t (drop_waker_ref t)" "good t (reject t)" "good t (discard t)"
    "good t (poller_drop_reference t)" "good t (join_drop_reference t)"
  using assms
  by (auto simp: drop_owned_def drop_waker_ref_def reject_def discard_def poller_drop_reference_def
      join_drop_reference_def task_holders_def task_notes_def join_refs_def
      intro!: good_drop)

lemma waker_ok_incomplete:
  "\<not> poller_waking p \<Longrightarrow> \<not> poller_waking p' \<Longrightarrow> waker_ok p j tr wk False k = waker_ok p' j tr wk False k"
  by (cases j) (auto simp: waker_ok_def)

lemma good_run:
  assumes inv: "task_inv t"
  shows "good t (run t)"
proof (cases "tk_queued t = 0")
  case False
  let ?b = "task_bits (tk_word t)"
  let ?b' = "?b\<lparr>tb_running := True, tb_notified := False\<rparr>"
  note r = task_invD [OF inv] note rr = inv_refsD [OF r(1)]
  have b: "tb_notified ?b" "\<not> tb_running ?b" "\<not> tb_complete ?b" "poller_notes (tk_poller t) = 0" "\<not> tk_freed t"
    using rr(2,6,7) False by (auto simp: task_notes_def wants_run_def task_holders_def)
  have p: "tk_poller t = PNone" using rr(3,5) b by (cases "tk_poller t") auto
  obtain w where w: "transition_to_running (tk_word t) = Some (if tb_cancelled ?b then RunCancelled else RunSuccess, w)"
    "task_bits w = ?b'"
    using running_refines [of "tk_word t"] b by (auto simp: spec_running_def map_prod_def)
  let ?t = "t\<lparr>tk_word := w, tk_queued := tk_queued t - 1, tk_poller := (if tb_cancelled ?b then PCancel else PPoll)\<rparr>"
  have run: "run t = Next ?t" using w b p False by (auto simp: run_def on_live_def)
  have "inv_refs ?t ?b'"
    using r(1) False b p by (simp add: inv_refs_def task_holders_def task_notes_def wants_run_def)
  moreover have "stage_ok (tk_poller ?t) (tk_join t) (tk_stage t) (tb_complete ?b')"
    using r(2) b p by (simp add: stage_ok_def)
  moreover have "waker_ok (tk_poller ?t) (tk_join t) (tk_trailer t) (tk_woken t) (tb_complete ?b') (tb_waker ?b')"
    using r(3) b p by (simp add: waker_ok_incomplete [of PPoll PNone] waker_ok_incomplete [of PCancel PNone])
  ultimately show ?thesis unfolding run by (intro good_Next [OF w(2)]) simp_all
qed (simp add: run_def)

text \<open>The count of references can be incremented, or is at its limit.\<close>

lemma ref_inc_or_limit:
  obtains w where "state_ref_inc s = Some w" "task_bits w = (task_bits s)\<lparr>tb_refs := tb_refs (task_bits s) + 1\<rparr>"
  | "state_ref_inc s = None" "max_refs \<le> tb_refs (task_bits s)"
  using ref_refines(1) [of s] by (cases "state_ref_inc s") (auto simp: tb_inc_def split: if_splits)

lemma good_clone:
  assumes inv: "task_inv t"
  shows "good t (clone_waker t)"
proof (cases "tk_wakers t = 0 \<and> tk_poller t \<noteq> PPoll")
  case False
  note r = task_invD [OF inv] note rr = inv_refsD [OF r(1)]
  let ?b = "task_bits (tk_word t)"
  have live: "\<not> tk_freed t" using rr(2) False by (auto simp: task_holders_def)
  show ?thesis
  proof (cases rule: ref_inc_or_limit [of "tk_word t"])
    case (1 w)
    let ?t = "t\<lparr>tk_word := w, tk_wakers := tk_wakers t + 1\<rparr>"
    have eq: "clone_waker t = Next ?t" using False live 1(1) by (simp add: clone_waker_def on_live_def)
    have "inv_refs ?t (?b\<lparr>tb_refs := tb_refs ?b + 1\<rparr>)"
      using r(1) live by (simp add: inv_refs_def task_holders_def)
    then show ?thesis using r(2,3) unfolding eq by (intro good_Next [OF 1(2)]) simp_all
  next
    case 2
    then show ?thesis using rr(1) False live by (simp add: clone_waker_def on_live_def)
  qed
qed (simp add: clone_waker_def)

text \<open>
  A transition that keeps the life cycle flags and changes only NOTIFIED, CANCELLED and the count: the
  common case of the wake-ups and of cancellation. \<open>n\<close> handles are added in flight.
\<close>

lemma good_flags:
  assumes inv: "task_inv t" and w: "task_bits w = b'"
    and u: "u = t\<lparr>tk_word := w, tk_inflight := tk_inflight t + n, tk_wakers := k\<rparr>"
    and flags: "tb_running b' = tb_running (task_bits (tk_word t))" "tb_complete b' = tb_complete (task_bits (tk_word t))"
      "tb_join b' = tb_join (task_bits (tk_word t))" "tb_waker b' = tb_waker (task_bits (tk_word t))"
    and refs: "tb_refs b' = task_holders u" "0 < task_holders u" "\<not> tk_freed t"
    and nts: "wants_run (task_bits (tk_word t)) \<Longrightarrow> n = 0 \<and> wants_run b'"
      "\<not> wants_run (task_bits (tk_word t)) \<Longrightarrow> n = of_bool (wants_run b')"
  shows "good t (Next u)"
proof -
  let ?b = "task_bits (tk_word t)"
  note r = task_invD [OF inv] note rr = inv_refsD [OF r(1)]
  have nu: "task_notes u = task_notes t + n" by (simp add: u task_notes_def)
  have zero: "task_notes t = 0" if "\<not> wants_run ?b" using rr(7) that by auto
  have "inv_refs u b'"
    unfolding inv_refs_def
  proof (intro conjI impI)
    show "task_notes u \<le> 1" using rr(6) zero nts nu by (cases "wants_run ?b") auto
    show "wants_run b'" if "0 < task_notes u" using that rr(7) nts nu zero by (cases "wants_run ?b") auto
    show "task_notes u = 1" if "\<not> tk_lost u \<and> wants_run b'"
      using that rr(8) nts nu zero by (cases "wants_run ?b") (auto simp: u)
  qed (use rr refs flags in \<open>auto simp: u\<close>)
  with r(2,3) show ?thesis by (intro good_Next [OF w]) (simp_all add: u flags)
qed

text \<open>The abstract transitions by cases.\<close>

lemma spec_notify_val_Some:
  assumes "spec_notify_val b = Some (a, b')"
  obtains "a = NotifySubmit" "\<not> tb_running b" "\<not> tb_complete b" "\<not> tb_notified b"
      "b' = b\<lparr>tb_notified := True, tb_refs := tb_refs b + 1\<rparr>"
  | "a = (if tb_refs b = 1 then NotifyDealloc else NotifyDoNothing)" "0 < tb_refs b"
      "tb_running b \<or> tb_complete b \<or> tb_notified b"
      "b' = b\<lparr>tb_notified := tb_notified b \<or> tb_running b, tb_refs := tb_refs b - 1\<rparr>"
  using assms by (cases b) (auto simp: spec_notify_val_def tb_dec_def tb_inc_def split: if_splits)

lemma spec_notify_val_None:
  "spec_notify_val b = None \<Longrightarrow> 0 < tb_refs b \<Longrightarrow> (tb_running b \<Longrightarrow> 1 < tb_refs b) \<Longrightarrow> max_refs \<le> tb_refs b"
  by (auto simp: spec_notify_val_def tb_dec_def tb_inc_def split: if_splits)

lemma spec_notify_ref_Some:
  assumes "spec_notify_ref b = Some (a, b')"
  obtains "a = NotifySubmit" "\<not> tb_running b" "\<not> tb_complete b" "\<not> tb_notified b"
      "b' = b\<lparr>tb_notified := True, tb_refs := tb_refs b + 1\<rparr>"
  | "a = NotifyDoNothing" "tb_running b \<or> tb_complete b \<or> tb_notified b"
      "b' = b\<lparr>tb_notified := tb_notified b \<or> (tb_running b \<and> \<not> tb_complete b)\<rparr>"
  using assms by (cases b) (auto simp: spec_notify_ref_def tb_inc_def split: if_splits)

lemma spec_notify_ref_None: "spec_notify_ref b = None \<Longrightarrow> max_refs \<le> tb_refs b"
  by (auto simp: spec_notify_ref_def tb_inc_def split: if_splits)

lemma spec_cancel_Some:
  assumes "spec_cancel b = Some (a, b')"
  obtains "a = CancelSubmit" "\<not> tb_running b" "\<not> tb_complete b" "\<not> tb_notified b"
      "b' = b\<lparr>tb_cancelled := True, tb_notified := True, tb_refs := tb_refs b + 1\<rparr>"
  | "a = CancelDoNothing" "b' = b\<lparr>tb_cancelled := tb_cancelled b \<or> \<not> tb_complete b\<rparr>"
  using assms by (cases b) (auto simp: spec_cancel_def tb_inc_def split: if_splits)

lemma spec_cancel_None: "spec_cancel b = None \<Longrightarrow> max_refs \<le> tb_refs b"
  by (auto simp: spec_cancel_def tb_inc_def split: if_splits)

lemma wants_run_upd:
  "wants_run (b\<lparr>tb_notified := tb_notified b \<or> tb_running b\<rparr>) = wants_run b"
  "wants_run (b\<lparr>tb_notified := tb_notified b \<or> (tb_running b \<and> \<not> tb_complete b)\<rparr>) = wants_run b"
  "\<not> tb_notified b \<Longrightarrow> \<not> wants_run b"
  by (auto simp: wants_run_def)

lemma good_wake_val:
  assumes inv: "task_inv t"
  shows "good t (wake_by_val t)"
proof (cases "tk_wakers t = 0")
  case False
  note r = task_invD [OF inv] note rr = inv_refsD [OF r(1)]
  let ?b = "task_bits (tk_word t)"
  have live: "\<not> tk_freed t" and pos: "0 < tb_refs ?b" using rr(1,2) False by (auto simp: task_holders_def)
  have two: "1 < tb_refs ?b" if "tb_running ?b"
    using that False rr(1,3) by (cases "tk_poller t") (auto simp: task_holders_def)
  note ref = notify_val_refines [of "tk_word t"]
  show ?thesis
  proof (cases "transition_to_notified_by_val (tk_word t)")
    case None
    then have "max_refs \<le> tb_refs ?b" using ref pos two by (intro spec_notify_val_None) simp_all
    then show ?thesis using None False live rr(1) by (simp add: wake_by_val_def on_live_def)
  next
    case (Some aw)
    then obtain a w where tr: "transition_to_notified_by_val (tk_word t) = Some (a, w)" by (cases aw) auto
    then have "spec_notify_val ?b = Some (a, task_bits w)" using ref by simp
    then show ?thesis
    proof (cases rule: spec_notify_val_Some)
      case 1
      have eq: "wake_by_val t = Next (t\<lparr>tk_word := w, tk_inflight := tk_inflight t + 1, tk_wakers := tk_wakers t\<rparr>)"
        using tr 1(1) False live by (simp add: wake_by_val_def on_live_def)
      show ?thesis unfolding eq
        using rr(1) live 1(2-4) by (intro good_flags [OF inv 1(5) refl]) (simp_all add: task_holders_def wants_run_def)
    next
      case 2
      let ?f = "tb_refs ?b = 1"
      let ?u = "t\<lparr>tk_word := w, tk_wakers := tk_wakers t - 1, tk_freed := ?f\<rparr>"
      let ?b' = "?b\<lparr>tb_notified := tb_notified ?b \<or> tb_running ?b, tb_refs := tb_refs ?b - 1\<rparr>"
      have eq: "wake_by_val t = Next ?u"
        using tr 2(1) False live by (auto simp: wake_by_val_def on_live_def dealloc_def)
      have wr: "wants_run ?b' = wants_run ?b" by (simp add: wants_run_upd)
      have "task_holders t = task_holders ?u + 1" using False by (simp add: task_holders_def)
      then have "inv_refs ?u ?b'" using r(1) unfolding inv_refs_def wr by auto
      then show ?thesis using r(2,3) unfolding eq by (intro good_Next [OF 2(4)]) simp_all
    qed
  qed
qed (simp add: wake_by_val_def)

lemma good_wake_ref:
  assumes inv: "task_inv t"
  shows "good t (wake_by_ref t)"
proof (cases "tk_wakers t = 0 \<and> tk_poller t \<noteq> PPoll")
  case False
  note r = task_invD [OF inv] note rr = inv_refsD [OF r(1)]
  let ?b = "task_bits (tk_word t)"
  have live: "\<not> tk_freed t" and pos: "0 < tb_refs ?b" using rr(1,2) False by (auto simp: task_holders_def)
  note ref = notify_ref_refines [of "tk_word t"]
  show ?thesis
  proof (cases "transition_to_notified_by_ref (tk_word t)")
    case None
    then have "max_refs \<le> tb_refs ?b" using ref by (intro spec_notify_ref_None) simp_all
    then show ?thesis using None False live rr(1) by (simp add: wake_by_ref_def on_live_def)
  next
    case (Some aw)
    then obtain a w where tr: "transition_to_notified_by_ref (tk_word t) = Some (a, w)" by (cases aw) auto
    then have "spec_notify_ref ?b = Some (a, task_bits w)" using ref by simp
    then show ?thesis
    proof (cases rule: spec_notify_ref_Some)
      case 1
      have eq: "wake_by_ref t = Next (t\<lparr>tk_word := w, tk_inflight := tk_inflight t + 1, tk_wakers := tk_wakers t\<rparr>)"
        using tr 1(1) False live by (simp add: wake_by_ref_def on_live_def)
      show ?thesis unfolding eq
        using rr(1) live 1(2-4) by (intro good_flags [OF inv 1(5) refl]) (simp_all add: task_holders_def wants_run_def)
    next
      case 2
      have eq: "wake_by_ref t = Next (t\<lparr>tk_word := w, tk_inflight := tk_inflight t + 0, tk_wakers := tk_wakers t\<rparr>)"
        using tr 2(1) False live by (simp add: wake_by_ref_def on_live_def)
      show ?thesis unfolding eq
        using rr(1) live pos by (intro good_flags [OF inv 2(3) refl]) (simp_all add: task_holders_def wants_run_upd)
    qed
  qed
qed (simp add: wake_by_ref_def)

lemma good_cancel:
  assumes inv: "task_inv t"
  shows "good t (cancel t)"
proof (cases "\<not> tk_owned t \<and> \<not> join_droppable (tk_join t)")
  case False
  note r = task_invD [OF inv] note rr = inv_refsD [OF r(1)]
  let ?b = "task_bits (tk_word t)"
  have "join_droppable (tk_join t) \<Longrightarrow> tk_join t \<noteq> JGone" by (auto simp: join_droppable_def)
  then have pos: "0 < task_holders t" using False by (auto simp: task_holders_def join_refs_def)
  then have live: "\<not> tk_freed t" using rr(2) by simp
  note ref = cancel_refines [of "tk_word t"]
  show ?thesis
  proof (cases "transition_to_cancelled (tk_word t)")
    case None
    then have "max_refs \<le> tb_refs ?b" using ref by (intro spec_cancel_None) simp_all
    then show ?thesis using None False live rr(1) by (simp add: cancel_def on_live_def)
  next
    case (Some aw)
    then obtain a w where tr: "transition_to_cancelled (tk_word t) = Some (a, w)" by (cases aw) auto
    then have "spec_cancel ?b = Some (a, task_bits w)" using ref by simp
    then show ?thesis
    proof (cases rule: spec_cancel_Some)
      case 1
      have eq: "cancel t = Next (t\<lparr>tk_word := w, tk_inflight := tk_inflight t + 1, tk_wakers := tk_wakers t\<rparr>)"
        using tr 1(1) False live by (simp add: cancel_def on_live_def)
      show ?thesis unfolding eq
        using rr(1) live 1(2-4) by (intro good_flags [OF inv 1(5) refl]) (simp_all add: task_holders_def wants_run_def)
    next
      case 2
      have eq: "cancel t = Next (t\<lparr>tk_word := w, tk_inflight := tk_inflight t + 0, tk_wakers := tk_wakers t\<rparr>)"
        using tr 2(1) False live by (simp add: cancel_def on_live_def)
      show ?thesis unfolding eq
        using rr(1) live pos by (intro good_flags [OF inv 2(2) refl]) (simp_all add: task_holders_def)
    qed
  qed
qed (simp add: cancel_def)

lemma good_schedule: "task_inv t \<Longrightarrow> good t (schedule t)"
  by (auto simp: schedule_def task_inv_def Let_def inv_refs_def task_holders_def task_notes_def)

lemma good_poll_ready:
  assumes inv: "task_inv t"
  shows "good t (poll_ready output t)"
proof (cases "tk_poller t = PPoll")
  case True
  note r = task_invD [OF inv] note rr = inv_refsD [OF r(1)]
  have live: "\<not> tk_freed t" using rr(2) True by (auto simp: task_holders_def)
  have c: "\<not> tb_complete (task_bits (tk_word t))" using rr(4) True by auto
  have st: "stage_running (tk_stage t)" using r(2) c True by (simp add: stage_ok_def)
  let ?t = "t\<lparr>tk_stage := StFinished output, tk_poller := PFinish\<rparr>"
  have eq: "poll_ready output t = Next ?t"
    using True live st by (cases "tk_stage t") (auto simp: poll_ready_def)
  have "inv_refs ?t (task_bits (tk_word t))"
    using r(1) True by (simp add: inv_refs_def task_holders_def task_notes_def)
  with r(2,3) c True show ?thesis unfolding eq
    by (intro good_Next [OF refl refl]) (simp_all add: stage_ok_def waker_ok_incomplete [of PFinish PPoll])
qed (simp add: poll_ready_def)

lemma spec_idle_Some:
  assumes "spec_idle b = Some (a, b')"
  obtains "a = IdleCancelled" "tb_cancelled b" "b' = b"
  | "a = IdleOkNotified" "tb_notified b" "b' = b\<lparr>tb_running := False, tb_refs := tb_refs b + 1\<rparr>"
  | "a = (if tb_refs b = 1 then IdleOkDealloc else IdleOk)" "\<not> tb_notified b" "0 < tb_refs b"
      "b' = b\<lparr>tb_running := False, tb_refs := tb_refs b - 1\<rparr>"
  using assms by (cases b) (auto simp: spec_idle_def tb_dec_def tb_inc_def split: if_splits)

lemma spec_idle_None: "spec_idle b = None \<Longrightarrow> tb_running b \<Longrightarrow> 0 < tb_refs b \<Longrightarrow> max_refs \<le> tb_refs b"
  by (auto simp: spec_idle_def tb_dec_def tb_inc_def split: if_splits)

lemma good_poll_pending:
  assumes inv: "task_inv t"
  shows "good t (poll_pending future t)"
proof (cases "tk_poller t = PPoll")
  case True
  note r = task_invD [OF inv] note rr = inv_refsD [OF r(1)]
  let ?b = "task_bits (tk_word t)"
  have pos: "0 < task_holders t" using True by (simp add: task_holders_def)
  then have live: "\<not> tk_freed t" using rr(2) by simp
  have c: "\<not> tb_complete ?b" "tb_running ?b" using rr(3,4) True by auto
  have nn: "task_notes t = 0" using rr(7) c(2) by (auto simp: wants_run_def)
  obtain f0 where st: "tk_stage t = StRunning f0" using r(2) c True by (cases "tk_stage t") (auto simp: stage_ok_def)
  note ref = idle_refines [of "tk_word t"]
  show ?thesis
  proof (cases "transition_to_idle (tk_word t)")
    case None
    then have "max_refs \<le> tb_refs ?b" using ref c(2) pos rr(1) by (intro spec_idle_None) simp_all
    then show ?thesis using None True live rr(1) st by (simp add: poll_pending_def on_live_def)
  next
    case (Some aw)
    then obtain a w where tr: "transition_to_idle (tk_word t) = Some (a, w)" by (cases aw) auto
    then have "spec_idle ?b = Some (a, task_bits w)" using ref by simp
    then show ?thesis
    proof (cases rule: spec_idle_Some)
      case 1
      let ?t = "t\<lparr>tk_word := w, tk_stage := StRunning future, tk_poller := PCancel\<rparr>"
      have eq: "poll_pending future t = Next ?t" using tr 1 True live st by (simp add: poll_pending_def on_live_def)
      have "inv_refs ?t ?b" using r(1) True by (simp add: inv_refs_def task_holders_def task_notes_def)
      with r(2,3) c True show ?thesis unfolding eq
        by (intro good_Next [OF 1(3)]) (simp_all add: stage_ok_def waker_ok_incomplete [of PCancel PPoll])
    next
      case 2
      let ?t = "t\<lparr>tk_word := w, tk_stage := StRunning future, tk_poller := PYield\<rparr>"
      have eq: "poll_pending future t = Next ?t" using tr 2 True live st by (simp add: poll_pending_def on_live_def)
      have "inv_refs ?t (?b\<lparr>tb_running := False, tb_refs := tb_refs ?b + 1\<rparr>)"
        using rr(1,9) live True nn c 2(2) by (simp add: inv_refs_def task_holders_def task_notes_def wants_run_def)
      with r(2,3) c True show ?thesis unfolding eq
        by (intro good_Next [OF 2(3)]) (simp_all add: stage_ok_def waker_ok_incomplete [of PYield PPoll])
    next
      case 3
      let ?t = "t\<lparr>tk_word := w, tk_stage := StRunning future, tk_poller := PNone, tk_freed := (tb_refs ?b = 1)\<rparr>"
      have eq: "poll_pending future t = Next ?t"
        using tr 3(1) True live st by (auto simp: poll_pending_def on_live_def dealloc_def)
      have "inv_refs ?t (?b\<lparr>tb_running := False, tb_refs := tb_refs ?b - 1\<rparr>)"
        using rr(1,9) live True nn c 3(2) by (simp add: inv_refs_def task_holders_def task_notes_def wants_run_def)
      with r(2,3) c True show ?thesis unfolding eq
        by (intro good_Next [OF 3(4)]) (simp_all add: stage_ok_def waker_ok_incomplete [of PNone PPoll])
    qed
  qed
qed (simp add: poll_pending_def)

lemma good_yield:
  assumes inv: "task_inv t"
  shows "good t (yield_now t)"
proof (cases "tk_poller t = PYield")
  case True
  note r = task_invD [OF inv] note rr = inv_refsD [OF r(1)]
  have live: "\<not> tk_freed t" using rr(2) True by (simp add: task_holders_def)
  have c: "\<not> tb_complete (task_bits (tk_word t))" using rr(4) True by auto
  let ?t = "t\<lparr>tk_inflight := tk_inflight t + 1, tk_poller := PNone, tk_releasing := tk_releasing t + 1\<rparr>"
  have eq: "yield_now t = Next ?t" using True live by (simp add: yield_now_def)
  have "inv_refs ?t (task_bits (tk_word t))"
    using r(1) True by (simp add: inv_refs_def task_holders_def task_notes_def)
  with r(2,3) c True show ?thesis unfolding eq
    by (intro good_Next [OF refl refl]) (simp_all add: stage_ok_def waker_ok_incomplete [of PNone PYield])
qed (simp add: yield_now_def)

lemma good_cancel_task:
  assumes inv: "task_inv t"
  shows "good t (cancel_task t)"
proof (cases "tk_poller t = PCancel")
  case True
  note r = task_invD [OF inv] note rr = inv_refsD [OF r(1)]
  have live: "\<not> tk_freed t" using rr(2) True by (simp add: task_holders_def)
  have c: "\<not> tb_complete (task_bits (tk_word t))" using rr(4) True by auto
  let ?t = "t\<lparr>tk_stage := StFinished (Inl JoinCancelled), tk_poller := PFinish\<rparr>"
  have eq: "cancel_task t = Next ?t" using True live by (simp add: cancel_task_def)
  have "inv_refs ?t (task_bits (tk_word t))"
    using r(1) True by (simp add: inv_refs_def task_holders_def task_notes_def)
  with r(2,3) c True show ?thesis unfolding eq
    by (intro good_Next [OF refl refl]) (simp_all add: stage_ok_def waker_ok_incomplete [of PFinish PCancel])
qed (simp add: cancel_task_def)

lemma good_complete:
  assumes inv: "task_inv t"
  shows "good t (complete t)"
proof (cases "tk_poller t = PFinish")
  case True
  note r = task_invD [OF inv] note rr = inv_refsD [OF r(1)]
  let ?b = "task_bits (tk_word t)"
  let ?b' = "?b\<lparr>tb_running := False, tb_complete := True\<rparr>"
  have live: "\<not> tk_freed t" using rr(2) True by (simp add: task_holders_def)
  have c: "\<not> tb_complete ?b" "tb_running ?b" using rr(3,4) True by auto
  have nn: "task_notes t = 0" using rr(7) c(2) by (auto simp: wants_run_def)
  obtain w where w: "transition_to_complete (tk_word t) = Some (w, w)" "task_bits w = ?b'"
    using complete_refines [of "tk_word t"] c
    by (cases "transition_to_complete (tk_word t)") (auto simp: spec_complete_def transition_to_complete_def Let_def)
  have fin: "stage_finished (tk_stage t)" using r(2) True by (simp add: stage_ok_def)
  have jr: "\<not> join_reads (tk_join t)" "\<not> join_drops_output (tk_join t)" using r(2) c by (auto simp: stage_ok_def)
  have jw: "join_waker_ok (tk_join t) PFinish False (tb_waker ?b) (tk_trailer t) (tk_woken t)"
    "tb_waker ?b \<longrightarrow> tk_trailer t \<noteq> None"
    using r(3) c True by (auto simp: waker_ok_def)
  let ?p = "if \<not> tb_join ?b then PDropOutput else if tb_waker ?b then PWakeJoin else PNone"
  let ?t = "t\<lparr>tk_word := w, tk_poller := ?p, tk_releasing := tk_releasing t + (if ?p = PNone then 1 else 0)\<rparr>"
  have eq: "complete t = Next ?t"
    using w True live by (auto simp: complete_def on_live_def)
  have refs: "inv_refs ?t ?b'"
    using rr(1,9) live True nn by (simp add: inv_refs_def task_holders_def task_notes_def wants_run_def)
  have "stage_ok ?p (tk_join t) (tk_stage t) True"
    using fin jr rr(9) by (auto simp: stage_ok_def)
  moreover have "waker_ok ?p (tk_join t) (tk_trailer t) (tk_woken t) True (tb_waker ?b)"
    using jw rr(9) by (cases "tk_join t") (auto simp: waker_ok_def)
  ultimately show ?thesis unfolding eq using refs by (intro good_Next [OF w(2)]) simp_all
qed (simp add: complete_def)

lemma good_drop_unjoined:
  assumes inv: "task_inv t"
  shows "good t (drop_output_unjoined t)"
proof (cases "tk_poller t = PDropOutput")
  case True
  note r = task_invD [OF inv] note rr = inv_refsD [OF r(1)]
  let ?b = "task_bits (tk_word t)"
  have live: "\<not> tk_freed t" using rr(2) True by (simp add: task_holders_def)
  have c: "tb_complete ?b" using rr(5) True by auto
  have j: "\<not> join_present (tk_join t)" "\<not> tb_waker ?b"
    using r(2,3) True c by (auto simp: stage_ok_def waker_ok_def)
  let ?t = "t\<lparr>tk_stage := StConsumed, tk_poller := PNone, tk_releasing := tk_releasing t + 1\<rparr>"
  have eq: "drop_output_unjoined t = Next ?t" using True live by (simp add: drop_output_unjoined_def)
  have "inv_refs ?t ?b" using r(1) True by (simp add: inv_refs_def task_holders_def task_notes_def)
  moreover have "waker_ok PNone (tk_join t) (tk_trailer t) (tk_woken t) True False"
    using r(3) True c j by (cases "tk_join t") (auto simp: waker_ok_def)
  ultimately show ?thesis unfolding eq
    using r(2) c j True by (intro good_Next [OF refl refl]) (simp_all add: stage_ok_def)
qed (simp add: drop_output_unjoined_def)

lemma good_wake_join:
  assumes inv: "task_inv t"
  shows "good t (wake_join t)"
proof (cases "tk_poller t = PWakeJoin")
  case True
  note r = task_invD [OF inv] note rr = inv_refsD [OF r(1)]
  let ?b = "task_bits (tk_word t)"
  have live: "\<not> tk_freed t" using rr(2) True by (simp add: task_holders_def)
  have c: "tb_complete ?b" using rr(5) True by auto
  obtain v where v: "tk_trailer t = Some v" "tb_waker ?b" using r(3) True by (auto simp: waker_ok_def)
  let ?t = "t\<lparr>tk_woken := tk_woken t @ [v], tk_poller := PUnset\<rparr>"
  have eq: "wake_join t = Next ?t" using True live v by (simp add: wake_join_def on_live_def)
  have "inv_refs ?t ?b" using r(1) True by (simp add: inv_refs_def task_holders_def task_notes_def)
  moreover have "waker_ok PUnset (tk_join t) (Some v) (tk_woken t @ [v]) True True"
    using r(3) True c v by (cases "tk_join t") (auto simp: waker_ok_def)
  ultimately show ?thesis unfolding eq
    using r(2) c v True by (intro good_Next [OF refl refl]) (simp_all add: stage_ok_def)
qed (simp add: wake_join_def)

lemma good_release_join_waker:
  assumes inv: "task_inv t"
  shows "good t (release_join_waker t)"
proof (cases "tk_poller t = PUnset")
  case True
  note r = task_invD [OF inv] note rr = inv_refsD [OF r(1)]
  let ?b = "task_bits (tk_word t)"
  let ?b' = "?b\<lparr>tb_waker := False\<rparr>"
  have live: "\<not> tk_freed t" using rr(2) True by (simp add: task_holders_def)
  have c: "tb_complete ?b" "tb_waker ?b" using rr(5) r(3) True by (auto simp: waker_ok_def)
  obtain w where w: "unset_waker_after_complete (tk_word t) = Some (w, w)" "task_bits w = ?b'"
    using join_waker_refines(3) [of "tk_word t"] c
    by (cases "unset_waker_after_complete (tk_word t)") (auto simp: unset_waker_after_complete_def Let_def)
  let ?tr = "if tb_join ?b then tk_trailer t else None"
  let ?t = "t\<lparr>tk_word := w, tk_trailer := ?tr, tk_poller := PNone, tk_releasing := tk_releasing t + 1\<rparr>"
  have eq: "release_join_waker t = Next ?t" using True live w by (simp add: release_join_waker_def on_live_def)
  have "inv_refs ?t ?b'" using r(1) True by (simp add: inv_refs_def task_holders_def task_notes_def)
  moreover have "waker_ok PNone (tk_join t) ?tr (tk_woken t) True False"
    using r(3) True c by (cases "tk_join t") (auto simp: waker_ok_def)
  ultimately show ?thesis unfolding eq
    using r(2) c True by (intro good_Next [OF w(2)]) (simp_all add: stage_ok_def)
qed (simp add: release_join_waker_def)

text \<open>A phase change of the join handle that leaves its reference and its presence alone.\<close>

lemma inv_refs_join:
  assumes "inv_refs t b" and "join_present j = join_present (tk_join t)" and "join_refs j = join_refs (tk_join t)"
    and "b' = b\<lparr>tb_waker := k\<rparr>"
  shows "inv_refs (t\<lparr>tk_word := w, tk_join := j, tk_trailer := tr, tk_stage := st\<rparr>) b'"
  using assms by (simp add: inv_refs_def task_holders_def)

lemma good_join:
  assumes inv: "task_inv t" and w: "task_bits w = (task_bits (tk_word t))\<lparr>tb_waker := k\<rparr>"
    and "join_present j = join_present (tk_join t)" and "join_refs j = join_refs (tk_join t)"
    and "stage_ok (tk_poller t) j st (tb_complete (task_bits (tk_word t)))"
    and "waker_ok (tk_poller t) j tr (tk_woken t) (tb_complete (task_bits (tk_word t))) k"
  shows "good t (Next (t\<lparr>tk_word := w, tk_join := j, tk_trailer := tr, tk_stage := st\<rparr>))"
  using assms inv_refs_join [OF task_invD(1) [OF inv]] by (intro good_Next [OF w]) simp_all

lemma task_same_fields: "t\<lparr>tk_join := j\<rparr> = t\<lparr>tk_word := tk_word t, tk_join := j, tk_trailer := tk_trailer t, tk_stage := tk_stage t\<rparr>"
  by simp

lemma join_live: "task_inv t \<Longrightarrow> tk_join t \<noteq> JGone \<Longrightarrow> \<not> tk_freed t"
  using inv_refsD(2) [OF task_invD(1)] by (fastforce simp: task_holders_def join_refs_def)

lemma bits_waker_same [simp]: "(b :: task_bits)\<lparr>tb_waker := tb_waker b\<rparr> = b" by simp

lemma good_join_poll:
  assumes inv: "task_inv t"
  shows "good t (join_poll waker t)"
proof (cases "join_pollable (tk_join t)")
  case True
  note r = task_invD [OF inv] note rr = inv_refsD [OF r(1)]
  let ?b = "task_bits (tk_word t)"
  have j: "join_present (tk_join t)" "tk_join t \<noteq> JDone" "tk_join t \<noteq> JGone" "join_refs (tk_join t) = 1"
    using True by (cases "tk_join t"; simp add: join_refs_def)+
  have live: "\<not> tk_freed t" using join_live [OF inv j(3)] .
  have tr: "tb_waker ?b \<longrightarrow> tk_trailer t \<noteq> None" using r(3) by (simp add: waker_ok_def)
  have go: "good t (Next (t\<lparr>tk_join := j'\<rparr>))"
    if "join_present j'" "join_refs j' = 1" "stage_ok (tk_poller t) j' (tk_stage t) (tb_complete ?b)"
      "waker_ok (tk_poller t) j' (tk_trailer t) (tk_woken t) (tb_complete ?b) (tb_waker ?b)" for j'
    by (subst task_same_fields) (rule good_join [OF inv, of _ "tb_waker ?b"], use that j in simp_all)
  consider (fin) "tb_complete ?b" | (same) v where "\<not> tb_complete ?b" "tb_waker ?b" "tk_trailer t = Some v"
    | (fresh) "\<not> tb_complete ?b" "\<not> tb_waker ?b"
    using tr by auto
  then show ?thesis
  proof cases
    case fin
    have "good t (Next (t\<lparr>tk_join := JRead\<rparr>))"
      using fin r(2,3) j True
      by (intro go) (auto simp: join_refs_def stage_ok_def waker_ok_def)
    then show ?thesis using fin live True j rr(9) by (simp add: join_poll_def)
  next
    case (same v)
    have "good t (Next (t\<lparr>tk_join := (if v = waker then JPending waker else JUnset waker)\<rparr>))"
      using same r(2,3) j
      by (intro go) (auto simp: join_refs_def stage_ok_def waker_ok_def)
    then show ?thesis using same live True j rr(9) by (simp add: join_poll_def)
  next
    case fresh
    have "good t (Next (t\<lparr>tk_join := JSet waker\<rparr>))"
      using fresh r(2,3) j by (intro go) (auto simp: join_refs_def stage_ok_def waker_ok_def)
    then show ?thesis using fresh live True j rr(9) by (simp add: join_poll_def)
  qed
qed (simp add: join_poll_def)

lemma good_join_unset:
  assumes inv: "task_inv t"
  shows "good t (join_unset_waker t)"
proof (cases "tk_join t")
  case (JUnset waker)
  note r = task_invD [OF inv] note rr = inv_refsD [OF r(1)]
  let ?b = "task_bits (tk_word t)"
  have live: "\<not> tk_freed t" using join_live [OF inv] JUnset by simp
  have jn: "tb_join ?b" using rr(9) JUnset by simp
  show ?thesis
  proof (cases "tb_complete ?b")
    case True
    then have "unset_waker (tk_word t) = Some (Inl (tk_word t), tk_word t)" using jn by (simp add: unset_waker_def)
    then have eq: "join_unset_waker t = Next (t\<lparr>tk_word := tk_word t, tk_join := JRead, tk_trailer := tk_trailer t, tk_stage := tk_stage t\<rparr>)"
      using JUnset live True by (simp add: join_unset_waker_def on_live_def)
    show ?thesis unfolding eq
      using True JUnset r(2,3) by (intro good_join [OF inv, of _ "tb_waker ?b"]) (auto simp: join_refs_def stage_ok_def waker_ok_def)
  next
    case False
    have k: "tb_waker ?b" using r(3) JUnset False by (simp add: waker_ok_def)
    have np: "\<not> poller_waking (tk_poller t)" using rr(5) False by (cases "tk_poller t") auto
    obtain w where w: "unset_waker (tk_word t) = Some (Inr (tk_word t), w)" "task_bits w = ?b\<lparr>tb_waker := False\<rparr>"
      using False k jn by (simp add: unset_waker_def task_bits_set)
    have eq: "join_unset_waker t = Next (t\<lparr>tk_word := w, tk_join := JReset waker, tk_trailer := tk_trailer t, tk_stage := tk_stage t\<rparr>)"
      using JUnset live w k by (simp add: join_unset_waker_def on_live_def)
    show ?thesis unfolding eq
      using False JUnset r(2,3) np by (intro good_join [OF inv w(2)]) (auto simp: join_refs_def stage_ok_def waker_ok_def)
  qed
qed (simp_all add: join_unset_waker_def)

lemma good_join_reload:
  assumes inv: "task_inv t"
  shows "good t (join_reload t)"
proof (cases "tk_join t")
  case (JReset waker)
  note r = task_invD [OF inv] note rr = inv_refsD [OF r(1)]
  let ?b = "task_bits (tk_word t)"
  have live: "\<not> tk_freed t" using join_live [OF inv] JReset by simp
  have jn: "tb_join ?b" "\<not> tb_waker ?b" using rr(9) r(3) JReset by (auto simp: waker_ok_def)
  have eq: "join_reload t = Next (t\<lparr>tk_word := tk_word t, tk_join := JSet waker, tk_trailer := tk_trailer t, tk_stage := tk_stage t\<rparr>)"
    using JReset live jn by (simp add: join_reload_def)
  show ?thesis unfolding eq
    using JReset r(2,3) jn by (intro good_join [OF inv, of _ "tb_waker ?b"]) (auto simp: join_refs_def stage_ok_def waker_ok_def)
qed (simp_all add: join_reload_def)

lemma good_join_store:
  assumes inv: "task_inv t"
  shows "good t (join_store_waker t)"
proof (cases "tk_join t")
  case (JSet waker)
  note r = task_invD [OF inv]
  let ?b = "task_bits (tk_word t)"
  have live: "\<not> tk_freed t" using join_live [OF inv] JSet by simp
  have eq: "join_store_waker t = Next (t\<lparr>tk_word := tk_word t, tk_join := JStored waker, tk_trailer := Some waker, tk_stage := tk_stage t\<rparr>)"
    using JSet live by (simp add: join_store_waker_def)
  show ?thesis unfolding eq
    using JSet r(2,3) by (intro good_join [OF inv, of _ "tb_waker ?b"]) (auto simp: join_refs_def stage_ok_def waker_ok_def)
qed (simp_all add: join_store_waker_def)

lemma good_join_set:
  assumes inv: "task_inv t"
  shows "good t (join_set_waker t)"
proof (cases "tk_join t")
  case (JStored waker)
  note r = task_invD [OF inv] note rr = inv_refsD [OF r(1)]
  let ?b = "task_bits (tk_word t)"
  have live: "\<not> tk_freed t" using join_live [OF inv] JStored by simp
  have jn: "tb_join ?b" "\<not> tb_waker ?b" "tk_trailer t = Some waker" "\<not> poller_waking (tk_poller t)"
    using rr(9) r(3) JStored by (auto simp: waker_ok_def)
  show ?thesis
  proof (cases "tb_complete ?b")
    case True
    then have "set_join_waker (tk_word t) = Some (Inl (tk_word t), tk_word t)" using jn by (simp add: set_join_waker_def)
    then have eq: "join_set_waker t = Next (t\<lparr>tk_word := tk_word t, tk_join := JRead, tk_trailer := None, tk_stage := tk_stage t\<rparr>)"
      using JStored live True by (simp add: join_set_waker_def on_live_def)
    show ?thesis unfolding eq
      using True JStored r(2,3) jn by (intro good_join [OF inv, of _ "tb_waker ?b"]) (auto simp: join_refs_def stage_ok_def waker_ok_def)
  next
    case False
    obtain w where w: "set_join_waker (tk_word t) = Some (Inr (tk_word t), w)" "task_bits w = ?b\<lparr>tb_waker := True\<rparr>"
      using False jn by (simp add: set_join_waker_def task_bits_set)
    have eq: "join_set_waker t = Next (t\<lparr>tk_word := w, tk_join := JPending waker, tk_trailer := tk_trailer t, tk_stage := tk_stage t\<rparr>)"
      using JStored live w by (simp add: join_set_waker_def on_live_def)
    show ?thesis unfolding eq
      using False JStored r(2,3) jn by (intro good_join [OF inv w(2)]) (auto simp: join_refs_def stage_ok_def waker_ok_def)
  qed
qed (simp_all add: join_set_waker_def)

lemma good_take_output:
  assumes inv: "task_inv t"
  shows "good t (take_output t)"
proof (cases "tk_join t = JRead")
  case True
  note r = task_invD [OF inv]
  let ?b = "task_bits (tk_word t)"
  have live: "\<not> tk_freed t" using join_live [OF inv] True by simp
  have c: "tb_complete ?b" "stage_finished (tk_stage t)" "tk_poller t \<noteq> PFinish" "tk_poller t \<noteq> PDropOutput"
    using r(2) True inv_refsD(4) [OF r(1)] by (auto simp: stage_ok_def)
  have eq: "take_output t = Next (t\<lparr>tk_word := tk_word t, tk_join := JDone, tk_trailer := tk_trailer t, tk_stage := StConsumed\<rparr>)"
    using True live c by (cases "tk_stage t") (auto simp: take_output_def)
  show ?thesis unfolding eq
    using True r(2,3) c by (intro good_join [OF inv, of _ "tb_waker ?b"]) (auto simp: join_refs_def stage_ok_def waker_ok_def)
qed (simp add: take_output_def)

lemma initial_bits:
  "task_bits INITIAL_STATE = \<lparr>tb_running = False, tb_complete = False, tb_notified = True, tb_join = True,
      tb_waker = False, tb_cancelled = False, tb_refs = 2\<rparr>"
proof -
  have "\<not> bit (140 :: usize) 0" "\<not> bit (140 :: usize) 1" "bit (140 :: usize) 2" "bit (140 :: usize) 3"
    "\<not> bit (140 :: usize) 4" "\<not> bit (140 :: usize) 5"
    by (simp_all add: bit_numeral_rec)
  then show ?thesis
    by (simp add: INITIAL_STATE_eq task_bits_def flag_bits unat_ref_count del: bits_iff)
qed

lemma fast_drop_bits:
  "task_bits ((INITIAL_STATE - REF_ONE) AND NOT JOIN_INTEREST) =
     (task_bits INITIAL_STATE)\<lparr>tb_join := False, tb_refs := 1\<rparr>"
  using task_bits_set(6) [of "INITIAL_STATE - REF_ONE"] task_bits_ref_dec [of INITIAL_STATE]
  by (simp add: unset_join_interested_def initial_bits)

lemma spec_join_drop_Some:
  assumes "spec_join_drop b = Some (d, b')"
  obtains "tb_complete b" "d = \<lparr>drop_waker = \<not> tb_waker b, drop_output = True\<rparr>" "b' = b\<lparr>tb_join := False\<rparr>"
  | "\<not> tb_complete b" "d = \<lparr>drop_waker = True, drop_output = False\<rparr>" "b' = b\<lparr>tb_join := False, tb_waker := False\<rparr>"
  using assms by (auto simp: spec_join_drop_def split: if_splits)

lemma good_join_drop:
  assumes inv: "task_inv t"
  shows "good t (join_drop spurious t)"
proof (cases "join_droppable (tk_join t)")
  case True
  note r = task_invD [OF inv] note rr = inv_refsD [OF r(1)]
  let ?b = "task_bits (tk_word t)"
  have j: "join_present (tk_join t)" "tk_join t \<noteq> JGone" "join_refs (tk_join t) = 1"
    using True by (cases "tk_join t"; simp add: join_refs_def join_droppable_def)+
  have live: "\<not> tk_freed t" using join_live [OF inv j(2)] .
  have np: "\<not> tb_complete ?b \<Longrightarrow> \<not> poller_waking (tk_poller t)" using rr(5) by (cases "tk_poller t") auto
  show ?thesis
  proof (cases "tk_word t = INITIAL_STATE \<and> \<not> spurious")
    case fast: True
    let ?w = "(INITIAL_STATE - REF_ONE) AND NOT JOIN_INTEREST"
    let ?t = "t\<lparr>tk_word := ?w, tk_join := JGone\<rparr>"
    have eq: "join_drop spurious t = Next ?t"
      using fast True live by (simp add: join_drop_def drop_join_handle_fast_def)
    have b: "task_bits ?w = ?b\<lparr>tb_join := False, tb_refs := tb_refs ?b - 1\<rparr>"
      "\<not> tb_complete ?b" "\<not> tb_waker ?b"
      using fast fast_drop_bits by (simp_all add: initial_bits)
    have h: "task_holders t = task_holders ?t + 1" using j by (simp add: task_holders_def join_refs_def)
    have "tb_refs ?b = 2" using fast by (simp add: initial_bits)
    then have "inv_refs ?t (?b\<lparr>tb_join := False, tb_refs := tb_refs ?b - 1\<rparr>)"
      using r(1) h live unfolding inv_refs_def by auto
    with r(2,3) b(2,3) np show ?thesis unfolding eq
      by (intro good_Next [OF b(1)]) (auto simp: stage_ok_def waker_ok_def)
  next
    case slow: False
    have jn: "tb_join ?b" using rr(9) j by simp
    obtain d w where tr: "transition_to_join_handle_dropped (tk_word t) = Some (d, w)"
      "spec_join_drop ?b = Some (d, task_bits w)"
      using join_drop_refines [of "tk_word t"] jn
      by (cases "transition_to_join_handle_dropped (tk_word t)") (auto simp: spec_join_drop_def split: if_splits)
    let ?t = "t\<lparr>tk_word := w, tk_join := JDropping d\<rparr>"
    have eq: "join_drop spurious t = Next ?t"
      using slow True live tr(1) by (auto simp: join_drop_def drop_join_handle_fast_def on_live_def)
    have h: "task_holders ?t = task_holders t" using j by (simp add: task_holders_def join_refs_def)
    from tr(2) show ?thesis
    proof (cases rule: spec_join_drop_Some)
      case 1
      have "inv_refs ?t (?b\<lparr>tb_join := False\<rparr>)" using r(1) h unfolding inv_refs_def by auto
      moreover have "tk_poller t \<noteq> PDropOutput" using r(2) j by (auto simp: stage_ok_def)
      ultimately show ?thesis using r(2,3) 1(1,2) unfolding eq
        by (intro good_Next [OF 1(3)]) (auto simp: stage_ok_def waker_ok_def)
    next
      case 2
      have "inv_refs ?t (?b\<lparr>tb_join := False, tb_waker := False\<rparr>)" using r(1) h unfolding inv_refs_def by auto
      then show ?thesis using r(2,3) 2(1,2) np unfolding eq
        by (intro good_Next [OF 2(3)]) (auto simp: stage_ok_def waker_ok_def)
    qed
  qed
qed (simp add: join_drop_def)

lemma good_join_dropping:
  assumes inv: "task_inv t"
  shows "good t (join_dropping t)"
proof (cases "tk_join t")
  case (JDropping d)
  note r = task_invD [OF inv] note rr = inv_refsD [OF r(1)]
  let ?b = "task_bits (tk_word t)"
  have live: "\<not> tk_freed t" using join_live [OF inv] JDropping by simp
  have eq: "join_dropping t = Next (t\<lparr>tk_word := tk_word t, tk_join := JDropRef,
      tk_trailer := (if drop_waker d then None else tk_trailer t),
      tk_stage := (if drop_output d then StConsumed else tk_stage t)\<rparr>)"
    using JDropping live by (simp add: join_dropping_def)
  have o: "tb_complete ?b" "tk_poller t \<noteq> PFinish" if "drop_output d"
    using r(2) rr(4) JDropping that by (auto simp: stage_ok_def)
  have "stage_ok (tk_poller t) JDropRef (if drop_output d then StConsumed else tk_stage t) (tb_complete ?b)"
    using r(2) o unfolding JDropping by (cases "drop_output d") (simp_all add: stage_ok_def)
  moreover have "waker_ok (tk_poller t) JDropRef (if drop_waker d then None else tk_trailer t) (tk_woken t)
      (tb_complete ?b) (tb_waker ?b)"
    using r(3) unfolding JDropping by (cases "tb_waker ?b"; cases "drop_waker d") (simp_all add: waker_ok_def)
  ultimately show ?thesis unfolding eq
    by (intro good_join [OF inv, of _ "tb_waker ?b"]) (simp_all add: JDropping join_refs_def)
qed (simp_all add: join_dropping_def)

lemma task_inv_new: "task_inv (new_task future)"
  by (simp add: task_inv_def new_task_def initial_bits inv_refs_def stage_ok_def waker_ok_def task_holders_def
      task_notes_def join_refs_def wants_run_def)

lemma task_inv_new_owned: "new_owned_task future = Some t \<Longrightarrow> task_inv t"
proof -
  assume new: "new_owned_task future = Some t"
  let ?b = "task_bits INITIAL_STATE"
  obtain w where w: "state_ref_inc INITIAL_STATE = Some w" "t = (new_task future)\<lparr>tk_word := w, tk_owned := True\<rparr>"
    using new by (auto simp: new_owned_task_def new_task_def)
  have "task_bits w = ?b\<lparr>tb_refs := tb_refs ?b + 1\<rparr>"
    using w(1) by (cases rule: ref_inc_or_limit [of INITIAL_STATE]) auto
  then show "task_inv t"
    by (simp add: w(2) task_inv_def new_task_def initial_bits inv_refs_def stage_ok_def waker_ok_def task_holders_def
        task_notes_def join_refs_def wants_run_def)
qed

lemma run_ok:
  assumes inv: "task_inv t" and q: "0 < tk_queued t"
  shows "\<exists>t'. run t = Next t' \<and> tk_poller t' \<in> {PPoll, PCancel}"
proof -
  let ?b = "task_bits (tk_word t)"
  note rr = inv_refsD [OF task_invD(1) [OF inv]]
  have b: "tb_notified ?b" "\<not> tb_running ?b" "\<not> tb_complete ?b" "poller_notes (tk_poller t) = 0" "\<not> tk_freed t"
    using rr(2,6,7) q by (auto simp: task_notes_def wants_run_def task_holders_def)
  have p: "tk_poller t = PNone" using rr(3,5) b by (cases "tk_poller t") auto
  obtain w where "transition_to_running (tk_word t) = Some (if tb_cancelled ?b then RunCancelled else RunSuccess, w)"
    using running_refines [of "tk_word t"] b by (auto simp: spec_running_def map_prod_def)
  then show ?thesis using b p q by (auto simp: run_def on_live_def)
qed

end
