(* ===== verification/Task_System.thy ===== *)
theory Task_System
  imports Task
begin

text \<open>
  All actions on a task put together: the labelled actions, the states reachable from a spawn by any
  interleaving of them, and the properties of those states. Every fact rests on \<open>task_inv\<close> and on the
  preservation lemmas \<open>good_*\<close> of theory \<open>Task\<close>.
\<close>

section \<open>Actions and reachable states\<close>

datatype ('f, 'o, 'p, 'w) task_action =
    CloneWaker | DropWaker | WakeByVal | WakeByRef | CancelTask | Schedule | Reject | Discard | DropOwned
  | Run | PollReady "'p join_error + 'o" | PollPending 'f | YieldNow | FinishCancelled | Complete
  | DropUnjoined | WakeJoin | ReleaseJoinWaker | PollerDrop
  | JoinPoll 'w | JoinUnsetWaker | JoinReload | JoinStoreWaker | JoinSetWaker | TakeOutput
  | JoinDrop bool | JoinDropping | JoinDropRef

fun task_act :: "('f, 'o, 'p, 'w) task_action \<Rightarrow> ('f, 'o, 'p, 'w) action" where
  "task_act CloneWaker = clone_waker"
| "task_act DropWaker = drop_waker_ref"
| "task_act WakeByVal = wake_by_val"
| "task_act WakeByRef = wake_by_ref"
| "task_act CancelTask = cancel"
| "task_act Schedule = schedule"
| "task_act Reject = reject"
| "task_act Discard = discard"
| "task_act DropOwned = drop_owned"
| "task_act Run = run"
| "task_act (PollReady output) = poll_ready output"
| "task_act (PollPending future) = poll_pending future"
| "task_act YieldNow = yield_now"
| "task_act FinishCancelled = cancel_task"
| "task_act Complete = complete"
| "task_act DropUnjoined = drop_output_unjoined"
| "task_act WakeJoin = wake_join"
| "task_act ReleaseJoinWaker = release_join_waker"
| "task_act PollerDrop = poller_drop_reference"
| "task_act (JoinPoll waker) = join_poll waker"
| "task_act JoinUnsetWaker = join_unset_waker"
| "task_act JoinReload = join_reload"
| "task_act JoinStoreWaker = join_store_waker"
| "task_act JoinSetWaker = join_set_waker"
| "task_act TakeOutput = take_output"
| "task_act (JoinDrop spurious) = join_drop spurious"
| "task_act JoinDropping = join_dropping"
| "task_act JoinDropRef = join_drop_reference"

inductive task_reach :: "('f, 'o, 'p, 'w) task \<Rightarrow> bool" where
  spawn: "task_reach (new_task future)"
| spawn_owned: "new_owned_task future = Some t \<Longrightarrow> task_reach t"
| step: "task_reach t \<Longrightarrow> task_act a t = Next t' \<Longrightarrow> task_reach t'"


lemma task_act_good: "task_inv t \<Longrightarrow> good t (task_act a t)"
  by (cases a) (simp_all add: good_drops good_run good_clone good_wake_val good_wake_ref good_cancel good_schedule
      good_poll_ready good_poll_pending good_yield good_cancel_task good_complete good_drop_unjoined
      good_wake_join good_release_join_waker good_join_poll good_join_unset good_join_reload good_join_store
      good_join_set good_take_output good_join_drop good_join_dropping)

lemma task_reach_inv: "task_reach t \<Longrightarrow> task_inv t"
proof (induction rule: task_reach.induct)
  case (step t a t')
  then show ?case using task_act_good [of t a] by simp
qed (auto intro: task_inv_new task_inv_new_owned)

section \<open>Properties\<close>

text \<open>A concrete run: an owned task is spawned, queued, run and completes.\<close>

definition demo_task :: "(nat, nat, nat, nat) task" where
  "demo_task = (new_task 0)\<lparr>tk_word := 204, tk_owned := True\<rparr>"

lemma demo_task: "new_owned_task 0 = Some demo_task"
  by (simp add: demo_task_def new_owned_task_def new_task_def state_ref_inc_def INITIAL_STATE_eq isize_max_def REF_ONE_eq)

lemma demo_holders: "task_holders demo_task = 3"
  by (simp add: demo_task_def new_task_def task_holders_def join_refs_def)

lemma demo_task_reach: "task_reach demo_task"
  using demo_task by (rule task_reach.spawn_owned)



text \<open>
  C7. Reference counting is exact. In every reachable state the count packed in the state word is the
  number of parties that hold a reference, and the allocation has been freed exactly when there is
  none left: it neither leaks nor is freed early.
\<close>

theorem task_refcount_exact:
  assumes "task_reach t"
  shows "tb_refs (task_bits (tk_word t)) = task_holders t \<and> (tk_freed t \<longleftrightarrow> task_holders t = 0)"
  using inv_refsD(1,2) [OF task_invD(1) [OF task_reach_inv [OF assms]]] by blast

theorem task_refcount_exact_witness: "tb_refs (task_bits (tk_word demo_task)) = 3"
  using task_refcount_exact [OF demo_task_reach] demo_holders by simp

text \<open>
  C30. Notifications are neither lost nor doubled. At most one handle of a task is in or on its way to a
  run queue. Unless a closed queue dropped one, a task whose NOTIFIED flag is set is being run, or
  is complete, or has exactly one such handle; so a wake-up is always followed by a poll. And running
  a queued handle always finds the task idle: the poll begins, or the cancelled task is finished.
\<close>

theorem task_notified_is_scheduled:
  assumes "task_reach t"
  shows "task_notes t \<le> 1 \<and>
    (\<not> tk_lost t \<and> tb_notified (task_bits (tk_word t)) \<longrightarrow>
       poller_running (tk_poller t) \<or> tb_complete (task_bits (tk_word t)) \<or> task_notes t = 1) \<and>
    (0 < tk_queued t \<longrightarrow> (\<exists>t'. run t = Next t' \<and> tk_poller t' \<in> {PPoll, PCancel}))"
proof (intro conjI impI)
  note inv = task_reach_inv [OF assms]
  note rr = inv_refsD [OF task_invD(1) [OF inv]]
  show "task_notes t \<le> 1" by (rule rr(6))
  show "poller_running (tk_poller t) \<or> tb_complete (task_bits (tk_word t)) \<or> task_notes t = 1"
    if "\<not> tk_lost t \<and> tb_notified (task_bits (tk_word t))"
    using that rr(3,8) by (auto simp: wants_run_def)
  show "\<exists>t'. run t = Next t' \<and> tk_poller t' \<in> {PPoll, PCancel}" if "0 < tk_queued t"
    using run_ok [OF inv that] by blast
qed

theorem task_notified_is_scheduled_witness:
  "\<exists>t t'. task_act Schedule demo_task = Next t \<and> run t = Next t' \<and> tk_poller t' \<in> {PPoll, PCancel}"
proof -
  let ?t = "demo_task\<lparr>tk_inflight := 0, tk_queued := 1\<rparr>"
  have s: "task_act Schedule demo_task = Next ?t"
    by (simp add: demo_task_def new_task_def schedule_def)
  then have "task_reach ?t" using demo_task_reach task_reach.step by blast
  from task_notified_is_scheduled [OF this] s show ?thesis by fastforce
qed


definition demo_pending :: "(nat, nat, nat, nat) task" where
  "demo_pending = demo_task\<lparr>tk_word := 220, tk_trailer := Some 5, tk_join := JPending 5\<rparr>"

lemma demo_pending_reach: "task_reach demo_pending"
proof -
  let ?t1 = "demo_task\<lparr>tk_join := JSet 5\<rparr>"
  let ?t2 = "demo_task\<lparr>tk_trailer := Some 5, tk_join := JStored 5\<rparr>"
  have "task_act (JoinPoll 5) demo_task = Next ?t1"
    by (simp add: demo_task_def new_task_def join_poll_def is_join_interested_def is_complete_def is_join_waker_set_def
        flag_consts del: bits_iff)
  moreover have "task_act JoinStoreWaker ?t1 = Next ?t2"
    by (simp add: demo_task_def new_task_def join_store_waker_def)
  moreover have "task_act JoinSetWaker ?t2 = Next demo_pending"
    by (simp add: demo_task_def demo_pending_def new_task_def join_set_waker_def on_live_def set_join_waker_def
        snap_set_join_waker_def is_join_interested_def is_complete_def is_join_waker_set_def flag_consts del: bits_iff)
  ultimately show ?thesis using demo_task_reach task_reach.step by metis
qed


lemma stage_okD:
  assumes "stage_ok p j st c"
  shows "join_reads j \<Longrightarrow> c" and "join_drops_output j \<Longrightarrow> c" and "join_drops_output j \<Longrightarrow> p \<noteq> PDropOutput"
    and "join_present j \<Longrightarrow> p \<noteq> PDropOutput"
  using assms by (auto simp: stage_ok_def)

text \<open>Who may touch the unsynchronised fields of the cell.\<close>

definition poller_owns_stage :: "('f, 'o, 'p, 'w) task \<Rightarrow> bool" where
  "poller_owns_stage t \<longleftrightarrow> poller_running (tk_poller t) \<or> tk_poller t = PDropOutput"

definition join_owns_stage :: "('f, 'o, 'p, 'w) task \<Rightarrow> bool" where
  "join_owns_stage t \<longleftrightarrow> tk_join t = JRead \<or> join_drops_output (tk_join t)"

fun join_owns_waker :: "'w joiner \<Rightarrow> bool" where
  "join_owns_waker (JSet _) = True"
| "join_owns_waker (JStored _) = True"
| "join_owns_waker (JDropping d) = drop_waker d"
| "join_owns_waker _ = False"

lemma join_owner_unset: "join_waker_ok j p c k stored woken \<Longrightarrow> join_owns_waker j \<Longrightarrow> \<not> k"
  by (cases j) auto

lemma waker_ok_owner: "waker_ok p j stored woken c k \<Longrightarrow> join_owns_waker j \<Longrightarrow> \<not> poller_waking p"
  unfolding waker_ok_def using join_owner_unset by blast

text \<open>
  C6. Exclusive access. The poller and the join handle never both have the right to touch the future or
  its output, nor both the right to touch the stored waker.
\<close>

theorem task_exclusive_access:
  assumes "task_reach t"
  shows "\<not> (poller_owns_stage t \<and> join_owns_stage t) \<and>
         \<not> (poller_waking (tk_poller t) \<and> join_owns_waker (tk_join t))"
proof -
  note r = task_invD [OF task_reach_inv [OF assms]]
  note rr = inv_refsD [OF r(1)]
  have "\<not> poller_owns_stage t" if jo: "join_owns_stage t"
  proof -
    consider "tk_join t = JRead" | "join_drops_output (tk_join t)" using jo by (auto simp: join_owns_stage_def)
    then have c: "tb_complete (task_bits (tk_word t)) \<and> tk_poller t \<noteq> PDropOutput"
    proof cases
      case 1
      then show ?thesis using stage_okD(1,4) [OF r(2)] by simp
    next
      case 2
      then show ?thesis using stage_okD(2,3) [OF r(2)] by simp
    qed
    moreover from this have "tk_poller t = PNone \<or> poller_completed (tk_poller t)" using rr(4) by blast
    ultimately show ?thesis by (cases "tk_poller t") (simp_all add: poller_owns_stage_def)
  qed
  moreover have "\<not> poller_waking (tk_poller t)" if "join_owns_waker (tk_join t)"
    using waker_ok_owner [OF r(3) that] .
  ultimately show ?thesis by blast
qed

theorem task_exclusive_access_witness:
  "join_owns_waker (tk_join (demo_task\<lparr>tk_join := JSet 5\<rparr>)) \<and>
   \<not> poller_waking (tk_poller (demo_task\<lparr>tk_join := JSet 5\<rparr>))"
proof -
  have "task_act (JoinPoll 5) demo_task = Next (demo_task\<lparr>tk_join := JSet 5\<rparr>)"
    by (simp add: demo_task_def new_task_def join_poll_def is_join_interested_def is_complete_def is_join_waker_set_def
        flag_consts del: bits_iff)
  then have "task_reach (demo_task\<lparr>tk_join := JSet 5\<rparr>)" using demo_task_reach task_reach.step by blast
  from task_exclusive_access [OF this] show ?thesis by simp
qed

end
