(* ===== verification/Buffers.thy ===== *)
theory Buffers
  imports Prelude
begin

text \<open>
  Completion buffers (\<^verbatim>\<open>karmaio/src/buf/\<close>): the owned byte buffers that operations take and
  return, the owned views into them and the vectored collections.

  A buffer is its whole allocation \<open>ib_mem\<close> (so the length of \<open>ib_mem\<close> is the capacity that
  \<^verbatim>\<open>as_uninit\<close> exposes) together with the length \<open>ib_len\<close> of its initialized prefix, which is
  what \<^verbatim>\<open>as_init\<close> exposes.  Bytes past the prefix have whatever value the memory has; no
  theorem reads them.  The implementations of \<^verbatim>\<open>IoBufMut\<close> differ in two points, both recorded
  in \<open>ib_kind\<close>: whether \<^verbatim>\<open>reserve\<close> can grow the allocation (\<^verbatim>\<open>Vec<u8>\<close>, whose allocator
  refuses capacities above a limit), and whether \<^verbatim>\<open>set_len\<close> moves the prefix (a byte array or
  a memory map is always fully initialized).
\<close>

section \<open>Memory\<close>

definition write_at :: "nat \<Rightarrow> 'a list \<Rightarrow> 'a list \<Rightarrow> 'a list" where
  "write_at off src mem = take off mem @ src @ drop (off + length src) mem"

definition slice_range :: "'a list \<Rightarrow> nat \<Rightarrow> nat \<Rightarrow> 'a list option" where
  "slice_range xs a b = (if a \<le> b \<and> b \<le> length xs then Some (take (b - a) (drop a xs)) else None)"

lemma length_write_at [simp]:
  "off + length src \<le> length mem \<Longrightarrow> length (write_at off src mem) = length mem"
  by (simp add: write_at_def)

lemma take_write_at_before [simp]:
  "n \<le> off \<Longrightarrow> off \<le> length mem \<Longrightarrow> take n (write_at off src mem) = take n mem"
  by (simp add: write_at_def min_def)

lemma take_write_at_end [simp]:
  "off \<le> length mem \<Longrightarrow> take (off + length src) (write_at off src mem) = take off mem @ src"
  by (simp add: write_at_def)

lemma write_at_zero: "write_at 0 src mem = src @ drop (length src) mem"
  by (simp add: write_at_def)

lemma slice_range_Some_iff [simp]:
  "slice_range xs a b = Some ys \<longleftrightarrow> a \<le> b \<and> b \<le> length xs \<and> ys = take (b - a) (drop a xs)"
  by (auto simp: slice_range_def)

section \<open>Buffers\<close>

datatype buf_kind =
    VecBuf nat     \<comment> \<open>\<^verbatim>\<open>Vec<u8>\<close>; the allocator serves capacities up to this bound\<close>
  | FixedBuf       \<comment> \<open>default \<^verbatim>\<open>reserve\<close>, movable prefix\<close>
  | ArrayBuf       \<comment> \<open>default \<^verbatim>\<open>reserve\<close>, always fully initialized\<close>

record iobuf =
  ib_kind :: buf_kind
  ib_mem :: "u8 list"
  ib_len :: nat

definition ib_wf :: "iobuf \<Rightarrow> bool" where
  "ib_wf b \<longleftrightarrow> ib_len b \<le> length (ib_mem b) \<and> length (ib_mem b) \<le> isize_max
     \<and> (ib_kind b = ArrayBuf \<longrightarrow> ib_len b = length (ib_mem b))"

definition vec_with_capacity :: "nat \<Rightarrow> nat \<Rightarrow> iobuf" where
  "vec_with_capacity limit cap = \<lparr>ib_kind = VecBuf limit, ib_mem = replicate cap 0, ib_len = 0\<rparr>"

definition vec_from :: "nat \<Rightarrow> u8 list \<Rightarrow> iobuf" where
  "vec_from limit bytes = \<lparr>ib_kind = VecBuf limit, ib_mem = bytes, ib_len = length bytes\<rparr>"

definition as_init :: "iobuf \<Rightarrow> u8 list" where
  "as_init b = take (ib_len b) (ib_mem b)"

definition as_uninit :: "iobuf \<Rightarrow> u8 list" where
  "as_uninit b = ib_mem b"

definition buf_len :: "iobuf \<Rightarrow> nat" where
  "buf_len b = length (as_init b)"

definition buf_is_empty :: "iobuf \<Rightarrow> bool" where
  "buf_is_empty b = (as_init b = [])"

definition buf_capacity :: "iobuf \<Rightarrow> nat" where
  "buf_capacity b = length (as_uninit b)"

definition set_len :: "iobuf \<Rightarrow> nat \<Rightarrow> iobuf option" where
  "set_len b n =
     (if n \<le> length (ib_mem b)
      then Some (case ib_kind b of ArrayBuf \<Rightarrow> b | _ \<Rightarrow> b\<lparr>ib_len := n\<rparr>)
      else None)"

text \<open>The default of the trait: the spare capacity suffices or the buffer cannot grow.\<close>

definition default_reserve :: "iobuf \<Rightarrow> nat \<Rightarrow> iobuf io_result" where
  "default_reserve b additional =
     (if additional \<le> length (as_uninit b) - length (as_init b) then Inr b else Inl Unsupported)"

text \<open>
  \<^verbatim>\<open>Vec::try_reserve\<close>: nothing happens when the spare capacity suffices; otherwise the
  allocation at least doubles, has at least eight bytes and keeps the initialized prefix.
\<close>

definition grown_capacity :: "nat \<Rightarrow> nat \<Rightarrow> nat" where
  "grown_capacity cap required = max 8 (max (2 * cap) required)"

definition vec_try_reserve :: "nat \<Rightarrow> iobuf \<Rightarrow> nat \<Rightarrow> iobuf io_result" where
  "vec_try_reserve limit b additional =
     (let cap = length (ib_mem b); required = ib_len b + additional;
          cap' = grown_capacity cap required in
      if additional \<le> cap - ib_len b then Inr b
      else if cap' \<le> limit \<and> cap' \<le> isize_max
           then Inr (b\<lparr>ib_mem := ib_mem b @ replicate (cap' - cap) 0\<rparr>)
           else Inl OutOfMemory)"

definition buf_reserve :: "iobuf \<Rightarrow> nat \<Rightarrow> iobuf io_result" where
  "buf_reserve b additional =
     (case ib_kind b of
        VecBuf limit \<Rightarrow> vec_try_reserve limit b additional
      | _ \<Rightarrow> default_reserve b additional)"

subsection \<open>The convenience methods\<close>

definition buf_clear :: "iobuf \<Rightarrow> iobuf option" where
  "buf_clear b = set_len b 0"

definition buf_truncate :: "iobuf \<Rightarrow> nat \<Rightarrow> iobuf option" where
  "buf_truncate b n = (if n \<le> length (as_init b) then set_len b n else None)"

definition ensure_init :: "iobuf \<Rightarrow> iobuf \<times> u8 list" where
  "ensure_init b =
     (let mem = write_at (length (as_init b))
                  (replicate (length (as_uninit b) - length (as_init b)) 0) (as_uninit b)
      in (b\<lparr>ib_mem := mem\<rparr>, mem))"

definition extend_from_slice :: "iobuf \<Rightarrow> u8 list \<Rightarrow> iobuf option" where
  "extend_from_slice b src =
     (let initialized = length (as_init b) in
      case buf_reserve b (length src) of
        Inl e \<Rightarrow> None
      | Inr b1 \<Rightarrow>
          (case checked_add initialized (length src) of
             None \<Rightarrow> None
           | Some end_ \<Rightarrow>
               if end_ \<le> length (as_uninit b1)
               then set_len (b1\<lparr>ib_mem := write_at initialized src (ib_mem b1)\<rparr>) end_
               else None))"

definition copy_within :: "iobuf \<Rightarrow> nat \<Rightarrow> nat \<Rightarrow> nat \<Rightarrow> iobuf option" where
  "copy_within b from to dest =
     (case slice_range (as_uninit b) from to of
        None \<Rightarrow> None
      | Some src \<Rightarrow>
          if dest \<le> length (as_uninit b) - length src
          then Some (b\<lparr>ib_mem := write_at dest src (ib_mem b)\<rparr>) else None)"

definition put_slice :: "iobuf \<Rightarrow> u8 list \<Rightarrow> iobuf option" where
  "put_slice b src =
     (if length src \<le> buf_capacity b
      then set_len (b\<lparr>ib_mem := write_at 0 src (ib_mem b)\<rparr>) (length src) else None)"

text \<open>\<^verbatim>\<open>framed/buffer.rs append\<close>: the fallible form that the framing code uses.\<close>

definition append_bytes :: "iobuf \<Rightarrow> u8 list \<Rightarrow> (iobuf \<times> unit io_result) option" where
  "append_bytes b bytes =
     (let initialized = length (as_init b) in
      case checked_add initialized (length bytes) of
        None \<Rightarrow> Some (b, Inl InvalidInput)
      | Some end_ \<Rightarrow>
          (case buf_reserve b (length bytes) of
             Inl e \<Rightarrow> Some (b, Inl e)
           | Inr b1 \<Rightarrow>
               if length (as_uninit b1) < end_ then Some (b1, Inl OtherError)
               else map_option (\<lambda>b2. (b2, Inr ()))
                      (set_len (b1\<lparr>ib_mem := write_at initialized bytes (ib_mem b1)\<rparr>) end_)))"

section \<open>Owned views\<close>

record 'b slice =
  sl_buf :: 'b
  sl_start :: nat
  sl_end :: "nat option"

datatype bound = Included nat | Excluded nat | Unbounded

definition range_start :: "bound \<Rightarrow> nat option" where
  "range_start r = (case r of Included n \<Rightarrow> Some n | Excluded n \<Rightarrow> checked_add n 1 | Unbounded \<Rightarrow> Some 0)"

definition range_end :: "bound \<Rightarrow> nat option option" where
  "range_end r = (case r of Included n \<Rightarrow> map_option Some (checked_add n 1)
                          | Excluded n \<Rightarrow> Some (Some n) | Unbounded \<Rightarrow> Some None)"

definition new_unchecked :: "'b \<Rightarrow> nat \<Rightarrow> nat option \<Rightarrow> 'b slice" where
  "new_unchecked b s e = \<lparr>sl_buf = b, sl_start = s, sl_end = e\<rparr>"

text \<open>
  The views are used over buffers and over other views.  The operations that only look at the
  initialized bytes of what they wrap take those bytes as an argument, so that one definition
  serves both.
\<close>

definition view_end :: "u8 list \<Rightarrow> nat option \<Rightarrow> nat" where
  "view_end bytes e = min (case e of None \<Rightarrow> length bytes | Some n \<Rightarrow> n) (length bytes)"

definition view_bytes :: "u8 list \<Rightarrow> nat \<Rightarrow> nat option \<Rightarrow> u8 list option" where
  "view_bytes bytes s e = slice_range bytes s (view_end bytes e)"

definition bound_slice :: "u8 list \<Rightarrow> 'b \<Rightarrow> bound \<Rightarrow> bound \<Rightarrow> 'b slice option" where
  "bound_slice bytes b lo hi =
     (case (range_start lo, range_end hi) of
        (Some s, Some e) \<Rightarrow>
          if s \<le> length bytes \<and> (case e of None \<Rightarrow> True | Some n \<Rightarrow> s \<le> n)
          then Some (new_unchecked b s e) else None
      | _ \<Rightarrow> None)"

definition buf_slice :: "iobuf \<Rightarrow> bound \<Rightarrow> bound \<Rightarrow> iobuf slice option" where
  "buf_slice b = bound_slice (as_init b) b"

definition slice_new :: "iobuf \<Rightarrow> nat \<Rightarrow> nat \<Rightarrow> iobuf slice option" where
  "slice_new b s e = (if s \<le> buf_len b \<and> s \<le> e then Some (new_unchecked b s (Some e)) else None)"

definition initialized_end :: "iobuf slice \<Rightarrow> nat" where
  "initialized_end s = view_end (as_init (sl_buf s)) (sl_end s)"

definition slice_as_init :: "iobuf slice \<Rightarrow> u8 list option" where
  "slice_as_init s = slice_range (as_init (sl_buf s)) (sl_start s) (initialized_end s)"

definition nested_as_init :: "iobuf slice slice \<Rightarrow> u8 list option" where
  "nested_as_init s =
     (case slice_as_init (sl_buf s) of
        None \<Rightarrow> None | Some bytes \<Rightarrow> view_bytes bytes (sl_start s) (sl_end s))"

definition set_start :: "iobuf slice \<Rightarrow> nat \<Rightarrow> iobuf slice option" where
  "set_start s n = (if n \<le> buf_len (sl_buf s) then Some (s\<lparr>sl_start := n\<rparr>) else None)"

definition shift_end :: "nat \<Rightarrow> nat option \<Rightarrow> nat option \<Rightarrow> nat option option" where
  "shift_end start rel parent =
     (case rel of
        Some n \<Rightarrow>
          (case checked_add start n of
             None \<Rightarrow> None
           | Some e \<Rightarrow> Some (Some (case parent of None \<Rightarrow> e | Some p \<Rightarrow> min e p)))
      | None \<Rightarrow> Some parent)"

definition slice_slice :: "iobuf slice \<Rightarrow> bound \<Rightarrow> bound \<Rightarrow> iobuf slice option" where
  "slice_slice s lo hi =
     (case (range_start lo, range_end hi, slice_as_init s) of
        (Some rs, Some re, Some bytes) \<Rightarrow>
          if rs \<le> length bytes \<and> (case re of None \<Rightarrow> True | Some n \<Rightarrow> rs \<le> n)
          then (case (checked_add (sl_start s) rs, shift_end (sl_start s) re (sl_end s)) of
                  (Some start, Some e) \<Rightarrow> Some (new_unchecked (sl_buf s) start e)
                | _ \<Rightarrow> None)
          else None
      | _ \<Rightarrow> None)"

definition slice_flatten :: "iobuf slice slice \<Rightarrow> iobuf slice option" where
  "slice_flatten s =
     (let inner = sl_buf s in
      case (checked_add (sl_start inner) (sl_start s),
            shift_end (sl_start inner) (sl_end s) (sl_end inner)) of
        (Some start, Some e) \<Rightarrow> Some (new_unchecked (sl_buf inner) start e)
      | _ \<Rightarrow> None)"

definition capacity_end :: "iobuf slice \<Rightarrow> nat" where
  "capacity_end s =
     (let capacity = buf_capacity (sl_buf s) in
      min (case sl_end s of None \<Rightarrow> capacity | Some e \<Rightarrow> e) capacity)"

definition slice_as_uninit :: "iobuf slice \<Rightarrow> u8 list option" where
  "slice_as_uninit s = slice_range (as_uninit (sl_buf s)) (sl_start s) (capacity_end s)"

definition slice_reserve :: "iobuf slice \<Rightarrow> nat \<Rightarrow> (iobuf slice io_result) option" where
  "slice_reserve s additional =
     (case sl_end s of
        Some _ \<Rightarrow>
          (case (slice_as_init s, slice_as_uninit s) of
             (Some i, Some u) \<Rightarrow>
               Some (if additional \<le> length u - length i then Inr s else Inl Unsupported)
           | _ \<Rightarrow> None)
      | None \<Rightarrow>
          Some (case buf_reserve (sl_buf s) additional of
                  Inl e \<Rightarrow> Inl e | Inr b \<Rightarrow> Inr (s\<lparr>sl_buf := b\<rparr>)))"

definition slice_set_len :: "iobuf slice \<Rightarrow> nat \<Rightarrow> iobuf slice option" where
  "slice_set_len s n =
     (case checked_add (sl_start s) n of
        None \<Rightarrow> None
      | Some absolute \<Rightarrow> map_option (\<lambda>b. s\<lparr>sl_buf := b\<rparr>) (set_len (sl_buf s) absolute))"

text \<open>\<^verbatim>\<open>UninitSlice\<close>: an open-ended view that starts at the initialized length.\<close>

definition uninit_new :: "iobuf \<Rightarrow> iobuf slice" where
  "uninit_new b = new_unchecked b (length (as_init b)) None"

definition slice_wf :: "iobuf slice \<Rightarrow> bool" where
  "slice_wf s \<longleftrightarrow> ib_wf (sl_buf s) \<and> sl_start s \<le> initialized_end s"

section \<open>Vectored collections\<close>

text \<open>
  A collection is the list of its component buffers; the slice, array, vector and tuple
  implementations of the traits all iterate over the components in order.
\<close>

definition iter_slice :: "iobuf list \<Rightarrow> u8 list list" where
  "iter_slice bufs = map as_init bufs"

definition total_len :: "iobuf list \<Rightarrow> nat" where
  "total_len bufs = sum_list (map length (iter_slice bufs))"

definition iter_uninit_slice :: "iobuf list \<Rightarrow> u8 list list" where
  "iter_uninit_slice bufs = map as_uninit bufs"

definition total_capacity :: "iobuf list \<Rightarrow> nat" where
  "total_capacity bufs = sum_list (map length (iter_uninit_slice bufs))"

record vectored_slice =
  vs_buf :: "iobuf list"
  vs_start :: nat
  vs_index :: nat
  vs_offset :: nat

text \<open>The search loop shared by the two constructors: the component that byte
  \<open>remaining\<close> falls into, and the offset in it.\<close>

fun locate :: "'a list list \<Rightarrow> nat \<Rightarrow> nat \<Rightarrow> nat \<times> nat" where
  "locate [] index remaining = (index, remaining)"
| "locate (x # xs) index remaining =
     (if remaining < length x then (index, remaining)
      else locate xs (index + 1) (remaining - length x))"

definition from_initialized :: "iobuf list \<Rightarrow> nat \<Rightarrow> vectored_slice option" where
  "from_initialized bufs start =
     (if start \<le> total_len bufs
      then (case locate (iter_slice bufs) 0 start of (index, offset) \<Rightarrow>
              Some \<lparr>vs_buf = bufs, vs_start = start, vs_index = index, vs_offset = offset\<rparr>)
      else None)"

definition slice_mut :: "iobuf list \<Rightarrow> nat \<Rightarrow> vectored_slice option" where
  "slice_mut bufs start =
     (if start \<le> total_capacity bufs
      then (case locate (iter_uninit_slice bufs) 0 start of (index, offset) \<Rightarrow>
              Some \<lparr>vs_buf = bufs, vs_start = start, vs_index = index, vs_offset = offset\<rparr>)
      else None)"

text \<open>\<^verbatim>\<open>enumerate().skip(index).map(...)\<close>: the first component kept loses \<open>offset\<close> bytes.\<close>

definition skip_into :: "nat \<Rightarrow> nat \<Rightarrow> 'a list list \<Rightarrow> 'a list list" where
  "skip_into index offset xss =
     (case drop index xss of
        [] \<Rightarrow> [] | x # rest \<Rightarrow> drop (min offset (length x)) x # rest)"

definition vs_iter_slice :: "vectored_slice \<Rightarrow> u8 list list" where
  "vs_iter_slice v = skip_into (vs_index v) (vs_offset v) (iter_slice (vs_buf v))"

definition vs_iter_uninit_slice :: "vectored_slice \<Rightarrow> u8 list list" where
  "vs_iter_uninit_slice v = skip_into (vs_index v) (vs_offset v) (iter_uninit_slice (vs_buf v))"

text \<open>\<^verbatim>\<open>SetLen for [B]\<close>: every component takes as much of the aggregate prefix as it holds;
  a remainder is a panic.\<close>

fun vec_set_len :: "iobuf list \<Rightarrow> nat \<Rightarrow> iobuf list option" where
  "vec_set_len [] remaining = (if remaining = 0 then Some [] else None)"
| "vec_set_len (b # bs) remaining =
     (let initialized = min remaining (length (as_uninit b)) in
      case set_len b initialized of
        None \<Rightarrow> None
      | Some b' \<Rightarrow> map_option (Cons b') (vec_set_len bs (remaining - initialized)))"

definition vs_set_len :: "vectored_slice \<Rightarrow> nat \<Rightarrow> vectored_slice option" where
  "vs_set_len v n =
     (case checked_add (vs_start v) n of
        None \<Rightarrow> None
      | Some tot \<Rightarrow> map_option (\<lambda>bs. v\<lparr>vs_buf := bs\<rparr>) (vec_set_len (vs_buf v) tot))"

subsection \<open>The owned scalar cursor\<close>

record vec_iter =
  vi_buf :: "iobuf list"
  vi_total_filled :: nat
  vi_index :: nat
  vi_count :: nat
  vi_filled :: nat

definition owned_iter :: "iobuf list \<Rightarrow> iobuf list + vec_iter" where
  "owned_iter bufs =
     (if length (iter_slice bufs) = 0 then Inl bufs
      else Inr \<lparr>vi_buf = bufs, vi_total_filled = 0, vi_index = 0,
                vi_count = length (iter_slice bufs), vi_filled = 0\<rparr>)"

definition vi_next :: "vec_iter \<Rightarrow> (iobuf list + vec_iter) option" where
  "vi_next it =
     (let index = vi_index it + 1 in
      if index < vi_count it
      then (case checked_add (vi_total_filled it) (vi_filled it) of
              None \<Rightarrow> None
            | Some t \<Rightarrow> Some (Inr (it\<lparr>vi_index := index, vi_total_filled := t, vi_filled := 0\<rparr>)))
      else Some (Inl (vi_buf it)))"

definition vi_as_init :: "vec_iter \<Rightarrow> u8 list option" where
  "vi_as_init it =
     (case list_get (iter_slice (vi_buf it)) (vi_index it) of
        None \<Rightarrow> None
      | Some current \<Rightarrow> slice_range current (vi_filled it) (length current))"

definition vi_as_uninit :: "vec_iter \<Rightarrow> u8 list option" where
  "vi_as_uninit it = list_get (iter_uninit_slice (vi_buf it)) (vi_index it)"

definition vi_set_len :: "vec_iter \<Rightarrow> nat \<Rightarrow> vec_iter option" where
  "vi_set_len it n =
     (case checked_add (vi_total_filled it) n of
        None \<Rightarrow> None
      | Some tot \<Rightarrow>
          map_option (\<lambda>bs. it\<lparr>vi_filled := n, vi_buf := bs\<rparr>) (vec_set_len (vi_buf it) tot))"

section \<open>What the buffer operations keep and do\<close>

lemma ib_wf_len [simp]: "ib_wf b \<Longrightarrow> length (as_init b) = ib_len b"
  by (simp add: ib_wf_def as_init_def)

lemma ib_wf_bounds: "ib_wf b \<Longrightarrow> ib_len b \<le> length (ib_mem b) \<and> length (ib_mem b) \<le> isize_max"
  by (simp add: ib_wf_def)

lemma isize_lt_usize: "a \<le> isize_max \<Longrightarrow> b \<le> isize_max \<Longrightarrow> a + b \<le> usize_max"
  by (simp add: isize_max_def usize_max_def)

lemma checked_add_isize [simp]:
  "a \<le> isize_max \<Longrightarrow> b \<le> isize_max \<Longrightarrow> checked_add a b = Some (a + b)"
  using isize_lt_usize by simp

lemma set_len_wf: "ib_wf b \<Longrightarrow> set_len b n = Some b' \<Longrightarrow> ib_wf b'"
  by (auto simp: set_len_def ib_wf_def split: if_splits buf_kind.splits)

lemma set_len_defined: "n \<le> length (ib_mem b) \<Longrightarrow> \<exists>b'. set_len b n = Some b'"
  by (simp add: set_len_def)

lemma set_len_kind: "set_len b n = Some b' \<Longrightarrow> ib_kind b' = ib_kind b"
  by (auto simp: set_len_def split: if_splits buf_kind.splits)

lemma set_len_mem: "set_len b n = Some b' \<Longrightarrow> ib_mem b' = ib_mem b"
  by (auto simp: set_len_def split: if_splits buf_kind.splits)

lemma set_len_movable:
  "ib_kind b \<noteq> ArrayBuf \<Longrightarrow> n \<le> length (ib_mem b) \<Longrightarrow> set_len b n = Some (b\<lparr>ib_len := n\<rparr>)"
  by (auto simp: set_len_def split: buf_kind.splits)

lemma buf_reserve_spec:
  assumes "ib_wf b" "buf_reserve b n = Inr b'"
  shows "ib_wf b' \<and> ib_kind b' = ib_kind b \<and> ib_len b' = ib_len b
     \<and> take (length (ib_mem b)) (ib_mem b') = ib_mem b
     \<and> length (ib_mem b) \<le> length (ib_mem b') \<and> ib_len b + n \<le> length (ib_mem b')"
  using assms
  by (auto simp: buf_reserve_def vec_try_reserve_def default_reserve_def ib_wf_def Let_def
      grown_capacity_def as_uninit_def as_init_def split: buf_kind.splits if_splits)

lemma buf_reserve_init:
  assumes "ib_wf b" "buf_reserve b n = Inr b'"
  shows "as_init b' = as_init b"
proof -
  have "take (ib_len b) (ib_mem b') = take (ib_len b) (take (length (ib_mem b)) (ib_mem b'))"
    using assms(1) by (simp add: ib_wf_def min_def)
  then show ?thesis using buf_reserve_spec [OF assms] by (simp add: as_init_def)
qed

lemma buf_reserve_vec:
  assumes "ib_wf b" "ib_kind b = VecBuf limit" "limit \<le> isize_max"
    and "2 * length (ib_mem b) \<le> limit" "ib_len b + n \<le> limit" "8 \<le> limit"
  shows "\<exists>b'. buf_reserve b n = Inr b'"
  using assms by (auto simp: buf_reserve_def vec_try_reserve_def Let_def grown_capacity_def)

text \<open>Writing behind the prefix and moving the prefix over it appends.\<close>

lemma extend_prefix:
  assumes "ib_wf b" "ib_kind b \<noteq> ArrayBuf" "ib_len b + length src \<le> length (ib_mem b)"
  shows "\<exists>b'. set_len (b\<lparr>ib_mem := write_at (ib_len b) src (ib_mem b)\<rparr>) (ib_len b + length src)
            = Some b' \<and> ib_wf b' \<and> ib_kind b' = ib_kind b \<and> as_init b' = as_init b @ src
            \<and> length (ib_mem b') = length (ib_mem b)"
  using assms
  by (intro exI [where x = "b\<lparr>ib_mem := write_at (ib_len b) src (ib_mem b),
        ib_len := ib_len b + length src\<rparr>"]) (auto simp: set_len_movable ib_wf_def as_init_def)

lemma append_bytes_spec:
  assumes "ib_wf b"
  obtains b' where "append_bytes b bytes = Some (b', Inr ())" "ib_wf b'" "ib_kind b' = ib_kind b"
      "as_init b' = as_init b @ bytes"
  | b' e where "append_bytes b bytes = Some (b', Inl e)" "ib_wf b'" "ib_kind b' = ib_kind b"
      "as_init b' = as_init b"
proof (cases "buf_reserve b (length bytes)")
  case (Inl e)
  then show thesis
    using assms that(2) [of b "if usize_max < ib_len b + length bytes then InvalidInput else e"]
    by (simp add: append_bytes_def Let_def checked_add_def)
next
  case (Inr b1)
  note r = buf_reserve_spec [OF assms Inr]
  consider "usize_max < ib_len b + length bytes" | "ib_len b + length bytes \<le> usize_max"
    by linarith
  then show thesis
  proof cases
    case 1
    then show thesis using assms that(2) [of b InvalidInput]
      by (simp add: append_bytes_def Let_def checked_add_def)
  next
    case 2
    show thesis
    proof (cases "ib_kind b = ArrayBuf")
      case True
      then have "bytes = []" using Inr assms
        by (auto simp: buf_reserve_def default_reserve_def as_uninit_def ib_wf_def split: if_splits)
      then show thesis using Inr True r 2 assms that(1) [of b1] buf_reserve_init [OF assms Inr]
        by (simp add: append_bytes_def Let_def as_uninit_def set_len_def write_at_def checked_add_def)
    next
      case False
      have "ib_kind b1 \<noteq> ArrayBuf" "ib_len b1 + length bytes \<le> length (ib_mem b1)" "ib_wf b1"
        using r False by auto
      from extend_prefix [OF this(3) this(1) this(2)] obtain b' where
        b': "set_len (b1\<lparr>ib_mem := write_at (ib_len b1) bytes (ib_mem b1)\<rparr>)
              (ib_len b1 + length bytes) = Some b'"
          "ib_wf b'" "ib_kind b' = ib_kind b1" "as_init b' = as_init b1 @ bytes" by blast
      show thesis
        using b' r 2 Inr assms that(1) [of b'] buf_reserve_init [OF assms Inr]
        by (simp add: append_bytes_def Let_def as_uninit_def checked_add_def)
    qed
  qed
qed

lemma append_bytes_vec:
  assumes "ib_wf b" "ib_kind b = VecBuf limit" "limit \<le> isize_max" "8 \<le> limit"
    and "2 * length (ib_mem b) \<le> limit" "ib_len b + length bytes \<le> limit"
  obtains b' where "append_bytes b bytes = Some (b', Inr ())" "ib_wf b'" "ib_kind b' = ib_kind b"
      "as_init b' = as_init b @ bytes"
proof -
  obtain b1 where b1: "buf_reserve b (length bytes) = Inr b1"
    using buf_reserve_vec [OF assms(1-3,5,6,4)] by blast
  have "ib_len b + length bytes \<le> usize_max"
    using assms(3,6) by (simp add: isize_max_def usize_max_def)
  moreover have "ib_len b + length bytes \<le> length (ib_mem b1)"
    using buf_reserve_spec [OF assms(1) b1] by blast
  ultimately have "\<not> (\<exists>b' e. append_bytes b bytes = Some (b', Inl e))"
    using b1 assms(1) by (auto simp: append_bytes_def Let_def as_uninit_def split: option.splits)
  then show thesis by (metis append_bytes_spec [OF assms(1)] that)
qed

text \<open>
  Appending to a completion buffer (\<^verbatim>\<open>framed/buffer.rs append\<close>) never panics.  On success
  the initialized bytes are the old ones followed by exactly the appended bytes; on failure
  they are unchanged; a vector whose allocator can serve the doubled capacity always succeeds.
  In every case the buffer stays well-formed and keeps its kind.
\<close>

theorem append_bytes_correct:
  assumes "ib_wf b"
  shows "(\<exists>b' r. append_bytes b bytes = Some (b', r) \<and> ib_wf b' \<and> ib_kind b' = ib_kind b
            \<and> as_init b' = (case r of Inl e \<Rightarrow> as_init b | Inr _ \<Rightarrow> as_init b @ bytes))
         \<and> (\<forall>limit. ib_kind b = VecBuf limit \<and> 8 \<le> limit \<and> limit \<le> isize_max
              \<and> 2 * buf_capacity b \<le> limit \<and> buf_len b + length bytes \<le> limit
            \<longrightarrow> (\<exists>b'. append_bytes b bytes = Some (b', Inr ())))"
proof (intro conjI allI impI)
  show "\<exists>b' r. append_bytes b bytes = Some (b', r) \<and> ib_wf b' \<and> ib_kind b' = ib_kind b
            \<and> as_init b' = (case r of Inl e \<Rightarrow> as_init b | Inr _ \<Rightarrow> as_init b @ bytes)"
    by (rule append_bytes_spec [OF assms, of bytes]) auto
next
  fix limit
  assume a: "ib_kind b = VecBuf limit \<and> 8 \<le> limit \<and> limit \<le> isize_max
              \<and> 2 * buf_capacity b \<le> limit \<and> buf_len b + length bytes \<le> limit"
  then show "\<exists>b'. append_bytes b bytes = Some (b', Inr ())"
    using assms append_bytes_vec [OF assms, of limit bytes]
    by (auto simp: buf_capacity_def as_uninit_def buf_len_def)
qed

lemma append_bytes_correct_witness:
  "\<exists>b'. append_bytes (vec_with_capacity 64 0) [1, 2, 3] = Some (b', Inr ())
     \<and> as_init b' = [1, 2, 3]"
proof -
  have wf: "ib_wf (vec_with_capacity 64 0)"
    by (simp add: ib_wf_def vec_with_capacity_def isize_max_def)
  have "\<exists>b'. append_bytes (vec_with_capacity 64 0) [1, 2, 3] = Some (b', Inr ())"
    using append_bytes_correct [OF wf, of "[1, 2, 3]", THEN conjunct2]
    by (simp add: vec_with_capacity_def buf_capacity_def buf_len_def as_uninit_def as_init_def
        isize_max_def)
  then show ?thesis
    using append_bytes_correct [OF wf, of "[1, 2, 3]", THEN conjunct1]
    by (auto simp: vec_with_capacity_def as_init_def)
qed

subsection \<open>Views of views\<close>

lemma slice_range_slice_range:
  assumes "a \<le> b" "b \<le> length xs" "c \<le> d" "d \<le> b - a"
  shows "take (d - c) (drop c (take (b - a) (drop a xs))) = take (a + d - (a + c)) (drop (a + c) xs)"
  using assms by (simp add: drop_take min_def add.commute)

lemma min_min_shift:
  "s \<le> min e n \<Longrightarrow> min (min (s + k) e) n = s + min k (min e n - s)" for s e n k :: nat
  by linarith

lemma min_shift: "s \<le> n \<Longrightarrow> min (s + k) n = s + min k (n - s)" for s n k :: nat
  by linarith

text \<open>The absolute end of a view relative to another one.\<close>

lemma shift_end_view_end:
  assumes "slice_as_init inner = Some bytes" "shift_end (sl_start inner) e (sl_end inner) = Some e'"
  shows "view_end (as_init (sl_buf inner)) e' = sl_start inner + view_end bytes e"
proof -
  have "sl_start inner \<le> view_end (as_init (sl_buf inner)) (sl_end inner)"
    "length bytes = view_end (as_init (sl_buf inner)) (sl_end inner) - sl_start inner"
    using assms(1) by (auto simp: slice_as_init_def initialized_end_def view_end_def)
  then show ?thesis using assms(2)
    by (cases "sl_end inner"; cases e)
      (auto simp: view_end_def shift_end_def min_min_shift min_shift split: option.splits)
qed

lemma flatten_view:
  assumes "slice_as_init inner = Some bytes"
    and "shift_end (sl_start inner) e (sl_end inner) = Some e'"
    and "view_bytes bytes s e = Some vs"
  shows "slice_as_init (new_unchecked (sl_buf inner) (sl_start inner + s) e') = Some vs"
proof -
  have *: "view_end (as_init (sl_buf inner)) e' = sl_start inner + view_end bytes e"
    by (rule shift_end_view_end [OF assms(1,2)])
  have "s \<le> view_end bytes e" "view_end bytes e \<le> length bytes" using assms(3)
    by (auto simp: view_bytes_def)
  then show ?thesis using assms *
    by (auto simp: slice_as_init_def initialized_end_def new_unchecked_def view_bytes_def
        slice_range_slice_range)
qed

text \<open>
  Taking a sub-view of a view directly (\<^verbatim>\<open>Slice::slice\<close>) and nesting a view in a view and
  flattening it (\<^verbatim>\<open>IoBufExt::slice\<close>, then \<^verbatim>\<open>Slice::flatten\<close>) give the same view, and that
  view shows exactly the bytes that the nested one shows: a sub-range of the outer view's
  bytes.  Neither panics as long as the requested end is addressable.
\<close>

theorem slice_views_compose:
  assumes wf: "slice_wf s" and nested: "bound_slice (the (slice_as_init s)) s lo hi = Some nested"
    and fits: "\<forall>n. sl_end nested = Some n \<longrightarrow> sl_start s + n \<le> usize_max"
  shows "\<exists>v vs. slice_flatten nested = Some v \<and> slice_slice s lo hi = Some v
     \<and> nested_as_init nested = Some vs \<and> slice_as_init v = Some vs
     \<and> slice_range (the (slice_as_init s)) (sl_start nested)
          (view_end (the (slice_as_init s)) (sl_end nested)) = Some vs"
proof -
  obtain bytes where b: "slice_as_init s = Some bytes" "sl_start s + length bytes \<le> usize_max"
  proof
    show "slice_as_init s = Some (the (slice_as_init s))" using wf
      by (auto simp: slice_as_init_def slice_wf_def initialized_end_def view_end_def slice_range_def)
    show "sl_start s + length (the (slice_as_init s)) \<le> usize_max" using wf
      by (auto simp: slice_as_init_def slice_wf_def initialized_end_def view_end_def
          slice_range_def ib_wf_def isize_max_def usize_max_def)
  qed
  obtain rs re where r: "range_start lo = Some rs" "range_end hi = Some re"
    "nested = new_unchecked s rs re" "rs \<le> length bytes" "\<forall>n. re = Some n \<longrightarrow> rs \<le> n"
    using nested b(1) by (auto simp: bound_slice_def split: option.splits if_splits)
  then have "rs \<le> view_end bytes re" by (auto simp: view_end_def split: option.splits)
  then obtain vs where vs: "view_bytes bytes rs re = Some vs"
    by (auto simp: view_bytes_def view_end_def)
  have "\<exists>e'. shift_end (sl_start s) re (sl_end s) = Some e'"
    using fits r(3) by (auto simp: shift_end_def new_unchecked_def checked_add_def split: option.splits)
  then obtain e' where e': "shift_end (sl_start s) re (sl_end s) = Some e'" ..
  have "sl_start s + rs \<le> usize_max" using b(2) r(4) by linarith
  then have "slice_flatten nested = Some (new_unchecked (sl_buf s) (sl_start s + rs) e')"
    "slice_slice s lo hi = Some (new_unchecked (sl_buf s) (sl_start s + rs) e')"
    using b(1) r e' by (auto simp: slice_flatten_def slice_slice_def new_unchecked_def checked_add_def
        split: option.splits)
  moreover have "nested_as_init nested = Some vs"
    using b(1) vs r(3) by (simp add: nested_as_init_def new_unchecked_def)
  ultimately show ?thesis
    using flatten_view [OF b(1) e' vs] vs b(1) r(3) by (auto simp: view_bytes_def new_unchecked_def)
qed

lemma slice_views_compose_witness:
  "\<exists>v. slice_slice (new_unchecked (vec_from 64 [97, 98, 99, 100, 101, 102]) 1 (Some 5))
         (Included 2) Unbounded = Some v \<and> sl_start v = 3 \<and> slice_as_init v = Some [100, 101]"
proof -
  let ?s = "new_unchecked (vec_from 64 [97, 98, 99, 100, 101, 102]) 1 (Some 5)"
  have wf: "slice_wf ?s"
    by (simp add: slice_wf_def ib_wf_def vec_from_def new_unchecked_def initialized_end_def
        view_end_def as_init_def isize_max_def)
  have bytes: "the (slice_as_init ?s) = [98, 99, 100, 101]"
    by (simp add: slice_as_init_def new_unchecked_def initialized_end_def view_end_def as_init_def
        vec_from_def slice_range_def)
  have n: "bound_slice (the (slice_as_init ?s)) ?s (Included 2) Unbounded
             = Some (new_unchecked ?s 2 None)"
    unfolding bytes by (simp add: bound_slice_def range_start_def range_end_def)
  from slice_views_compose [OF wf n] bytes show ?thesis
    by (auto simp: new_unchecked_def slice_flatten_def shift_end_def view_end_def checked_add_def
        usize_max_def)
qed

subsection \<open>Vectored cursors\<close>

lemma locate_skip:
  "k \<le> length (concat xss) \<Longrightarrow> locate xss i k = (j, off) \<Longrightarrow>
     i \<le> j \<and> concat (skip_into (j - i) off xss) = drop k (concat xss)"
proof (induction xss arbitrary: i k)
  case (Cons x xss)
  show ?case
  proof (cases "k < length x")
    case True
    then show ?thesis using Cons.prems by (auto simp: skip_into_def)
  next
    case False
    then have "i + 1 \<le> j \<and> concat (skip_into (j - (i + 1)) off xss) = drop (k - length x) (concat xss)"
      using Cons.prems by (intro Cons.IH) auto
    moreover have "skip_into (j - i) off (x # xss) = skip_into (j - (i + 1)) off xss" if "i + 1 \<le> j"
      using that by (simp add: skip_into_def drop_Cons' Suc_diff_le)
    ultimately show ?thesis using False by auto
  qed
qed (simp add: skip_into_def)

lemma length_concat_iter: "length (concat xss) = sum_list (map length xss)"
  by (induction xss) auto

definition movable :: "iobuf \<Rightarrow> bool" where
  "movable b \<longleftrightarrow> ib_wf b \<and> ib_kind b \<noteq> ArrayBuf"

lemma vec_set_len_prefix:
  assumes "list_all movable bufs" "n \<le> total_capacity bufs"
  shows "\<exists>bufs'. vec_set_len bufs n = Some bufs' \<and> list_all movable bufs'
     \<and> iter_uninit_slice bufs' = iter_uninit_slice bufs
     \<and> concat (iter_slice bufs') = take n (concat (iter_uninit_slice bufs))"
  using assms
proof (induction bufs arbitrary: n)
  case (Cons b bs)
  let ?m = "min n (length (ib_mem b))"
  have b: "set_len b ?m = Some (b\<lparr>ib_len := ?m\<rparr>)" using Cons.prems
    by (intro set_len_movable) (auto simp: movable_def)
  have "n - ?m \<le> total_capacity bs" using Cons.prems
    by (auto simp: total_capacity_def iter_uninit_slice_def as_uninit_def)
  then obtain bs' where bs': "vec_set_len bs (n - ?m) = Some bs'" "list_all movable bs'"
    "iter_uninit_slice bs' = iter_uninit_slice bs"
    "concat (iter_slice bs') = take (n - ?m) (concat (iter_uninit_slice bs))"
    using Cons.IH [of "n - ?m"] Cons.prems(1) by auto
  have wf: "movable (b\<lparr>ib_len := ?m\<rparr>)" using Cons.prems by (simp add: movable_def ib_wf_def)
  have "vec_set_len (b # bs) n = Some (b\<lparr>ib_len := ?m\<rparr> # bs')"
    using b bs'(1) by (simp add: as_uninit_def)
  moreover have "concat (iter_slice (b\<lparr>ib_len := ?m\<rparr> # bs')) = take n (concat (iter_uninit_slice (b # bs)))"
    using bs'(4) by (simp add: iter_slice_def iter_uninit_slice_def as_init_def as_uninit_def min_def)
  ultimately show ?case
    using wf bs' by (auto simp: iter_uninit_slice_def as_uninit_def)
qed (simp add: total_capacity_def iter_uninit_slice_def iter_slice_def)

text \<open>
  A cursor into a vectored collection addresses the concatenation of its components: the
  initialized view from \<open>start\<close> (\<^verbatim>\<open>IoVectoredBuf::slice\<close>) shows the concatenated initialized
  bytes without the first \<open>start\<close>; the writable view (\<^verbatim>\<open>IoVectoredBufMut::slice_mut\<close>)
  likewise covers the concatenated memory; and setting the length of the writable view to
  \<open>n\<close> makes exactly the first \<open>start + n\<close> bytes of that memory initialized, distributed over
  the components in order, without a panic.
\<close>

theorem vectored_cursor_correct:
  assumes "list_all movable bufs" "total_capacity bufs \<le> usize_max"
  shows "(start \<le> total_len bufs \<longrightarrow>
            (\<exists>v. from_initialized bufs start = Some v
               \<and> concat (vs_iter_slice v) = drop start (concat (iter_slice bufs))))
       \<and> (start + n \<le> total_capacity bufs \<longrightarrow>
            (\<exists>v v'. slice_mut bufs start = Some v
               \<and> concat (vs_iter_uninit_slice v) = drop start (concat (iter_uninit_slice bufs))
               \<and> vs_set_len v n = Some v'
               \<and> concat (iter_slice (vs_buf v')) = take (start + n) (concat (iter_uninit_slice bufs))))"
proof (intro conjI impI)
  assume s: "start \<le> total_len bufs"
  obtain j off where l: "locate (iter_slice bufs) 0 start = (j, off)" by force
  show "\<exists>v. from_initialized bufs start = Some v
               \<and> concat (vs_iter_slice v) = drop start (concat (iter_slice bufs))"
    using locate_skip [OF _ l] s l
    by (simp add: from_initialized_def vs_iter_slice_def total_len_def length_concat_iter)
next
  assume s: "start + n \<le> total_capacity bufs"
  obtain j off where l: "locate (iter_uninit_slice bufs) 0 start = (j, off)" by force
  show "\<exists>v v'. slice_mut bufs start = Some v
               \<and> concat (vs_iter_uninit_slice v) = drop start (concat (iter_uninit_slice bufs))
               \<and> vs_set_len v n = Some v'
               \<and> concat (iter_slice (vs_buf v')) = take (start + n) (concat (iter_uninit_slice bufs))"
    using locate_skip [OF _ l] s l assms(2) vec_set_len_prefix [OF assms(1) s]
    by (auto simp: slice_mut_def vs_iter_uninit_slice_def total_capacity_def length_concat_iter
        vs_set_len_def checked_add_def)
qed

lemma vectored_cursor_correct_witness:
  "\<exists>v. from_initialized [vec_from 64 [97, 98, 99], vec_from 64 [100, 101, 102]] 4 = Some v
     \<and> concat (vs_iter_slice v) = [101, 102]"
  using vectored_cursor_correct [of "[vec_from 64 [97, 98, 99], vec_from 64 [100, 101, 102]]" 4 0]
  by (simp add: movable_def ib_wf_def vec_from_def isize_max_def usize_max_def total_capacity_def
      iter_uninit_slice_def as_uninit_def total_len_def iter_slice_def as_init_def)

end
