(* ===== verification/Framing.thy ===== *)
theory Framing
  imports Buffers "HOL-Library.Sublist"
begin

unbundle bit_operations_syntax

text \<open>
  Frames and framers (\<^verbatim>\<open>karmaio/src/io/framed/frame.rs\<close>).  A framer encloses the initialized
  bytes of a buffer in place and finds the first frame of a stream of bytes.  \<^verbatim>\<open>extract\<close> looks
  only at the initialized bytes of the view it is given, which are the argument \<open>data\<close> here.
  Every framer of the file is modelled: length-delimited, character- and byte-delimited, and
  the one that adds no framing.
\<close>

section \<open>Frames\<close>

record frame =
  fr_prefix :: nat
  fr_payload :: nat
  fr_suffix :: nat

definition frame_new :: "nat \<Rightarrow> nat \<Rightarrow> nat \<Rightarrow> frame" where
  "frame_new p q s = \<lparr>fr_prefix = p, fr_payload = q, fr_suffix = s\<rparr>"

text \<open>The unchecked additions of the two accessors below wrap around at the width of \<^verbatim>\<open>usize\<close>.\<close>

definition frame_len :: "frame \<Rightarrow> nat" where
  "frame_len f = (fr_prefix f + fr_payload f + fr_suffix f) mod 2 ^ 64"

definition frame_is_empty :: "frame \<Rightarrow> bool" where
  "frame_is_empty f = (frame_len f = 0)"

definition checked_bounds :: "frame \<Rightarrow> nat \<Rightarrow> ((nat \<times> nat) \<times> nat) io_result" where
  "checked_bounds f available =
     (case checked_add (fr_prefix f) (fr_payload f) of
        None \<Rightarrow> Inl InvalidData
      | Some payload_end \<Rightarrow>
          (case checked_add payload_end (fr_suffix f) of
             None \<Rightarrow> Inl InvalidData
           | Some frame_end \<Rightarrow>
               if frame_end = 0 \<or> available < frame_end then Inl InvalidData
               else Inr ((fr_prefix f, payload_end), frame_end)))"

definition frame_slice :: "frame \<Rightarrow> iobuf \<Rightarrow> iobuf slice option" where
  "frame_slice f b = buf_slice b (Included (fr_prefix f)) (Excluded ((fr_prefix f + fr_payload f) mod 2 ^ 64))"

section \<open>Length-delimited frames\<close>

definition DEFAULT_MAX_FRAME_LENGTH :: nat where
  "DEFAULT_MAX_FRAME_LENGTH = 8 * 1024 * 1024"

definition MAX_LFL :: nat where "MAX_LFL = 8"

record length_delimited =
  ld_field_len :: nat
  ld_big_endian :: bool
  ld_max :: nat

definition ld_default :: length_delimited where
  "ld_default = \<lparr>ld_field_len = 4, ld_big_endian = True, ld_max = DEFAULT_MAX_FRAME_LENGTH\<rparr>"

definition set_length_field_len :: "length_delimited \<Rightarrow> nat \<Rightarrow> length_delimited option" where
  "set_length_field_len ld n =
     (if 0 < n \<and> n \<le> MAX_LFL then Some (ld\<lparr>ld_field_len := n\<rparr>) else None)"

definition set_length_field_is_big_endian :: "length_delimited \<Rightarrow> bool \<Rightarrow> length_delimited" where
  "set_length_field_is_big_endian ld be = ld\<lparr>ld_big_endian := be\<rparr>"

definition set_max_frame_length :: "length_delimited \<Rightarrow> nat \<Rightarrow> length_delimited" where
  "set_max_frame_length ld n = ld\<lparr>ld_max := n\<rparr>"

text \<open>The field length is private and only the setter changes it.\<close>

definition ld_wf :: "length_delimited \<Rightarrow> bool" where
  "ld_wf ld \<longleftrightarrow> 0 < ld_field_len ld \<and> ld_field_len ld \<le> MAX_LFL \<and> ld_max ld \<le> usize_max"

definition to_le_bytes :: "u64 \<Rightarrow> u8 list" where
  "to_le_bytes w = map (\<lambda>i. ucast (drop_bit (8 * i) w)) [0..<8]"

definition to_be_bytes :: "u64 \<Rightarrow> u8 list" where
  "to_be_bytes w = rev (to_le_bytes w)"

definition from_le_bytes :: "u8 list \<Rightarrow> u64" where
  "from_le_bytes bs = foldr (\<lambda>b acc. ucast b OR push_bit 8 acc) bs 0"

definition from_be_bytes :: "u8 list \<Rightarrow> u64" where
  "from_be_bytes bs = from_le_bytes (rev bs)"

definition max_payload :: "nat \<Rightarrow> nat" where
  "max_payload lfl = (if lfl = MAX_LFL then 2 ^ 64 - 1 else 2 ^ (lfl * 8) - 1)"

definition length_prefix :: "length_delimited \<Rightarrow> nat \<Rightarrow> u8 list" where
  "length_prefix ld len =
     (if ld_big_endian ld then drop (MAX_LFL - ld_field_len ld) (to_be_bytes (of_nat len))
      else take (ld_field_len ld) (to_le_bytes (of_nat len)))"

definition ld_enclose :: "length_delimited \<Rightarrow> iobuf \<Rightarrow> (iobuf \<times> unit io_result) option" where
  "ld_enclose ld b =
     (let len = length (as_init b); lfl = ld_field_len ld in
      if len > ld_max ld then Some (b, Inl InvalidInput)
      else if len > max_payload lfl then Some (b, Inl InvalidInput)
      else case checked_add lfl len of
        None \<Rightarrow> Some (b, Inl InvalidInput)
      | Some enclosed_len \<Rightarrow>
          (case buf_reserve b lfl of
             Inl e \<Rightarrow> Some (b, Inl e)
           | Inr b1 \<Rightarrow>
               if length (as_uninit b1) < enclosed_len then Some (b1, Inl OtherError)
               else case copy_within b1 0 len lfl of
                 None \<Rightarrow> None
               | Some b2 \<Rightarrow>
                   map_option (\<lambda>b3. (b3, Inr ()))
                     (set_len (b2\<lparr>ib_mem := write_at 0 (length_prefix ld len) (ib_mem b2)\<rparr>)
                        enclosed_len)))"

definition decode_length :: "length_delimited \<Rightarrow> u8 list \<Rightarrow> nat" where
  "decode_length ld field =
     unat (if ld_big_endian ld
           then from_be_bytes (write_at (MAX_LFL - ld_field_len ld) field (replicate MAX_LFL 0))
           else from_le_bytes (write_at 0 field (replicate MAX_LFL 0)))"

definition ld_extract :: "length_delimited \<Rightarrow> u8 list \<Rightarrow> frame option io_result" where
  "ld_extract ld data =
     (let lfl = ld_field_len ld in
      if length data < lfl then Inr None
      else let payload_len = decode_length ld (take lfl data) in
        if payload_len > ld_max ld then Inl InvalidData
        else case checked_add lfl payload_len of
          None \<Rightarrow> Inl InvalidData
        | Some flen \<Rightarrow>
            if length data < flen then Inr None else Inr (Some (frame_new lfl payload_len 0)))"

definition ld_extract_eof :: "length_delimited \<Rightarrow> u8 list \<Rightarrow> frame option io_result" where
  "ld_extract_eof ld data =
     (case ld_extract ld data of
        Inl e \<Rightarrow> Inl e
      | Inr (Some f) \<Rightarrow> Inr (Some f)
      | Inr None \<Rightarrow> if data = [] then Inr None else Inl UnexpectedEof)"

section \<open>Delimited frames\<close>

text \<open>\<^verbatim>\<open>windows(n).position(|w| w == delimiter)\<close>; \<open>n\<close> is positive for every delimiter.\<close>

fun find_window :: "u8 list \<Rightarrow> u8 list \<Rightarrow> nat option" where
  "find_window d [] = None"
| "find_window d (x # xs) =
     (if length (x # xs) < length d then None
      else if take (length d) (x # xs) = d then Some 0
      else map_option Suc (find_window d xs))"

definition ends_with :: "u8 list \<Rightarrow> u8 list \<Rightarrow> bool" where
  "ends_with data s \<longleftrightarrow> length s \<le> length data \<and> drop (length data - length s) data = s"

definition possible_delimiter_start :: "u8 list \<Rightarrow> u8 list \<Rightarrow> nat option" where
  "possible_delimiter_start data d =
     map_option (\<lambda>overlap. length data - overlap)
       (List.find (\<lambda>overlap. ends_with data (take overlap d)) (rev [1..<length d]))"

definition extract_delimited ::
  "u8 list \<Rightarrow> u8 list \<Rightarrow> nat \<Rightarrow> nat \<Rightarrow> nat \<times> frame option io_result" where
  "extract_delimited data d next_index max_length =
     (if data = [] then (next_index, Inr None)
      else
        let read_to = min (length data) (saturating_add max_length (length d));
            search_from = min next_index read_to in
        case find_window d (take (read_to - search_from) (drop search_from data)) of
          Some offset \<Rightarrow> (0, Inr (Some (frame_new 0 (search_from + offset) (length d))))
        | None \<Rightarrow>
            if length data > max_length
               \<and> (case possible_delimiter_start data d of
                    None \<Rightarrow> True | Some start \<Rightarrow> start > max_length)
            then (0, Inl InvalidData)
            else (read_to - (length d - 1), Inr None))"

definition delimited_eof ::
  "nat \<times> frame option io_result \<Rightarrow> u8 list \<Rightarrow> nat \<Rightarrow> nat \<times> frame option io_result" where
  "delimited_eof extracted data max_length =
     (case extracted of
        (n, Inl e) \<Rightarrow> (n, Inl e)
      | (n, Inr (Some f)) \<Rightarrow> (n, Inr (Some f))
      | (n, Inr None) \<Rightarrow>
          if data = [] then (0, Inr None)
          else if length data > max_length then (0, Inl InvalidData)
          else (0, Inr (Some (frame_new 0 (length data) 0))))"

subsection \<open>A byte sequence as delimiter\<close>

record any_delimited =
  ad_bytes :: "u8 list"
  ad_next :: nat
  ad_max :: nat

definition any_new :: "u8 list \<Rightarrow> any_delimited option" where
  "any_new bytes =
     (if bytes \<noteq> [] then Some \<lparr>ad_bytes = bytes, ad_next = 0, ad_max = DEFAULT_MAX_FRAME_LENGTH\<rparr>
      else None)"

definition any_new_with_max_length :: "u8 list \<Rightarrow> nat \<Rightarrow> any_delimited option" where
  "any_new_with_max_length bytes max_length =
     map_option (\<lambda>a. a\<lparr>ad_max := max_length\<rparr>) (any_new bytes)"

definition any_set_max_length :: "any_delimited \<Rightarrow> nat \<Rightarrow> any_delimited" where
  "any_set_max_length a max_length = a\<lparr>ad_max := max_length\<rparr>"

definition any_enclose :: "any_delimited \<Rightarrow> iobuf \<Rightarrow> (iobuf \<times> unit io_result) option" where
  "any_enclose a b = append_bytes b (ad_bytes a)"

definition any_extract :: "any_delimited \<Rightarrow> u8 list \<Rightarrow> any_delimited \<times> frame option io_result" where
  "any_extract a data =
     (case extract_delimited data (ad_bytes a) (ad_next a) (ad_max a) of
        (n, r) \<Rightarrow> (a\<lparr>ad_next := n\<rparr>, r))"

definition any_extract_eof :: "any_delimited \<Rightarrow> u8 list \<Rightarrow> any_delimited \<times> frame option io_result" where
  "any_extract_eof a data =
     (case any_extract a data of
        (a', r) \<Rightarrow> (case delimited_eof (ad_next a', r) data (ad_max a') of
                      (n, r') \<Rightarrow> (a'\<lparr>ad_next := n\<rparr>, r')))"

subsection \<open>A character as delimiter\<close>

text \<open>\<^verbatim>\<open>char::encode_utf8\<close> on a code point.\<close>

definition encode_utf8 :: "nat \<Rightarrow> u8 list" where
  "encode_utf8 c =
     (if c < 128 then [of_nat c]
      else if c < 2048 then [192 OR of_nat (c div 64), 128 OR of_nat (c mod 64)]
      else if c < 65536 then
        [224 OR of_nat (c div 4096), 128 OR of_nat (c div 64 mod 64), 128 OR of_nat (c mod 64)]
      else [240 OR of_nat (c div 262144), 128 OR of_nat (c div 4096 mod 64),
            128 OR of_nat (c div 64 mod 64), 128 OR of_nat (c mod 64)])"

record char_delimited =
  cd_char :: nat
  cd_buf :: "u8 list"
  cd_next :: nat
  cd_max :: nat

definition char_new :: "nat \<Rightarrow> char_delimited" where
  "char_new c = \<lparr>cd_char = c, cd_buf = replicate 4 0, cd_next = 0, cd_max = DEFAULT_MAX_FRAME_LENGTH\<rparr>"

definition char_new_with_max_length :: "nat \<Rightarrow> nat \<Rightarrow> char_delimited" where
  "char_new_with_max_length c max_length = (char_new c)\<lparr>cd_max := max_length\<rparr>"

definition char_set_max_length :: "char_delimited \<Rightarrow> nat \<Rightarrow> char_delimited" where
  "char_set_max_length c max_length = c\<lparr>cd_max := max_length\<rparr>"

definition delimiter_bytes :: "char_delimited \<Rightarrow> char_delimited \<times> u8 list" where
  "delimiter_bytes c =
     (let bytes = encode_utf8 (cd_char c) in (c\<lparr>cd_buf := write_at 0 bytes (cd_buf c)\<rparr>, bytes))"

definition char_enclose ::
  "char_delimited \<Rightarrow> iobuf \<Rightarrow> char_delimited \<times> (iobuf \<times> unit io_result) option" where
  "char_enclose c b = (case delimiter_bytes c of (c', d) \<Rightarrow> (c', append_bytes b d))"

definition char_extract :: "char_delimited \<Rightarrow> u8 list \<Rightarrow> char_delimited \<times> frame option io_result" where
  "char_extract c data =
     (case delimiter_bytes c of (c', d) \<Rightarrow>
        (case extract_delimited data d (cd_next c') (cd_max c') of
           (n, r) \<Rightarrow> (c'\<lparr>cd_next := n\<rparr>, r)))"

definition char_extract_eof :: "char_delimited \<Rightarrow> u8 list \<Rightarrow> char_delimited \<times> frame option io_result" where
  "char_extract_eof c data =
     (case char_extract c data of
        (c', r) \<Rightarrow> (case delimited_eof (cd_next c', r) data (cd_max c') of
                      (n, r') \<Rightarrow> (c'\<lparr>cd_next := n\<rparr>, r')))"

section \<open>No framing\<close>

record noop_framer =
  nf_max_size :: nat

definition noop_default :: noop_framer where
  "noop_default = \<lparr>nf_max_size = 4096\<rparr>"

definition noop_set_max_size :: "noop_framer \<Rightarrow> nat \<Rightarrow> noop_framer option" where
  "noop_set_max_size f n = (if n > 0 then Some (f\<lparr>nf_max_size := n\<rparr>) else None)"

definition noop_enclose :: "noop_framer \<Rightarrow> iobuf \<Rightarrow> (iobuf \<times> unit io_result) option" where
  "noop_enclose f b = Some (b, Inr ())"

definition noop_extract :: "noop_framer \<Rightarrow> u8 list \<Rightarrow> frame option io_result" where
  "noop_extract f data =
     (if data = [] then Inr None
      else Inr (Some (frame_new 0 (min (length data) (nf_max_size f)) 0)))"

section \<open>The framer interface\<close>

text \<open>
  The implementations of \<^verbatim>\<open>trait Framer\<close> as one type, and the trait's three methods on it.
  \<open>framer_extract_eof\<close> of the last one is the trait's default, \<^verbatim>\<open>extract\<close>.
\<close>

datatype framer =
    LengthDelimited length_delimited
  | CharDelimited char_delimited
  | AnyDelimited any_delimited
  | NoopFramer noop_framer

fun framer_enclose :: "framer \<Rightarrow> iobuf \<Rightarrow> framer \<times> (iobuf \<times> unit io_result) option" where
  "framer_enclose (LengthDelimited l) b = (LengthDelimited l, ld_enclose l b)"
| "framer_enclose (CharDelimited c) b = map_prod CharDelimited (\<lambda>r. r) (char_enclose c b)"
| "framer_enclose (AnyDelimited a) b = (AnyDelimited a, any_enclose a b)"
| "framer_enclose (NoopFramer n) b = (NoopFramer n, noop_enclose n b)"

fun framer_extract :: "framer \<Rightarrow> u8 list \<Rightarrow> framer \<times> frame option io_result" where
  "framer_extract (LengthDelimited l) data = (LengthDelimited l, ld_extract l data)"
| "framer_extract (CharDelimited c) data = map_prod CharDelimited (\<lambda>r. r) (char_extract c data)"
| "framer_extract (AnyDelimited a) data = map_prod AnyDelimited (\<lambda>r. r) (any_extract a data)"
| "framer_extract (NoopFramer n) data = (NoopFramer n, noop_extract n data)"

fun framer_extract_eof :: "framer \<Rightarrow> u8 list \<Rightarrow> framer \<times> frame option io_result" where
  "framer_extract_eof (LengthDelimited l) data = (LengthDelimited l, ld_extract_eof l data)"
| "framer_extract_eof (CharDelimited c) data =
     map_prod CharDelimited (\<lambda>r. r) (char_extract_eof c data)"
| "framer_extract_eof (AnyDelimited a) data =
     map_prod AnyDelimited (\<lambda>r. r) (any_extract_eof a data)"
| "framer_extract_eof (NoopFramer n) data = (NoopFramer n, noop_extract n data)"

section \<open>Byte order\<close>

lemma from_le_bytes_simps [simp]:
  "from_le_bytes [] = 0" "from_le_bytes (b # bs) = ucast b OR push_bit 8 (from_le_bytes bs)"
  by (simp_all add: from_le_bytes_def)

lemma from_le_bytes_zeros [simp]: "from_le_bytes (replicate n 0) = 0"
  by (induction n) auto

lemma from_le_bytes_pad: "from_le_bytes (bs @ replicate n 0) = from_le_bytes bs"
  by (induction bs) auto

lemma le_byte_step:
  "ucast (ucast w :: u8) OR push_bit 8 (take_bit n (drop_bit 8 w)) = take_bit (n + 8) w" for w :: u64
  by (rule bit_word_eqI) (auto simp: bit_simps)

lemma from_le_bytes_digits:
  "from_le_bytes (map (\<lambda>i. ucast (drop_bit (8 * i) w)) [a..<a + k]) = take_bit (8 * k) (drop_bit (8 * a) w)"
proof (induction k arbitrary: a)
  case (Suc k)
  have "[a..<a + Suc k] = a # [Suc a..<Suc a + k]" by (simp add: upt_rec)
  then show ?case
    using Suc.IH [of "Suc a"] le_byte_step [of "drop_bit (8 * a) w" "8 * k"]
    by (simp add: add.commute)
qed simp

lemma take_le_bytes: "k \<le> 8 \<Longrightarrow> from_le_bytes (take k (to_le_bytes w)) = take_bit (8 * k) w"
  using from_le_bytes_digits [where a = 0 and k = k and w = w]
  by (simp add: to_le_bytes_def take_map)

lemma length_to_le_bytes [simp]: "length (to_le_bytes w) = 8"
  by (simp add: to_le_bytes_def)

lemma unat_take_bit_of_nat:
  assumes "n < 2 ^ (8 * k)" "k \<le> 8"
  shows "unat (take_bit (8 * k) (of_nat n :: u64)) = n"
proof -
  have "(2::nat) ^ (8 * k) \<le> 2 ^ 64" using assms(2) by (intro power_increasing) auto
  then have "n < 2 ^ 64" using assms(1) by linarith
  then have "unat (of_nat n :: u64) = n" by (simp add: unat_of_nat)
  then show ?thesis using assms(1)
    by (simp add: unsigned_take_bit_eq take_bit_nat_eq_self)
qed

lemma length_length_prefix [simp]: "ld_wf ld \<Longrightarrow> length (length_prefix ld n) = ld_field_len ld"
  by (simp add: length_prefix_def ld_wf_def to_be_bytes_def MAX_LFL_def)

lemma decode_length_prefix:
  assumes "ld_wf ld" "n \<le> max_payload (ld_field_len ld)"
  shows "decode_length ld (length_prefix ld n) = n"
proof -
  let ?k = "ld_field_len ld"
  have k: "?k \<le> 8" using assms(1) by (simp add: ld_wf_def MAX_LFL_def)
  have "max_payload ?k = 2 ^ (8 * ?k) - 1"
    by (cases "?k = 8") (simp_all add: max_payload_def MAX_LFL_def mult.commute)
  moreover have "0 < (2::nat) ^ (8 * ?k)" by simp
  ultimately have "n < 2 ^ (8 * ?k)" using assms(2) by linarith
  then have n: "unat (take_bit (8 * ?k) (of_nat n :: u64)) = n" using k by (rule unat_take_bit_of_nat)
  have "rev (drop (8 - ?k) (rev (to_le_bytes (of_nat n)))) = take ?k (to_le_bytes (of_nat n))"
    using k by (simp add: rev_drop)
  then show ?thesis
    using n k take_le_bytes [OF k, of "of_nat n"]
    by (simp add: decode_length_def length_prefix_def MAX_LFL_def to_be_bytes_def from_be_bytes_def
        write_at_def from_le_bytes_pad)
qed

section \<open>Length-delimited frames\<close>

lemma shift_and_prefix:
  assumes "length p = k" "k + length src \<le> length mem"
  shows "write_at 0 p (write_at k src mem) = p @ src @ drop (k + length src) mem"
  using assms by (simp add: write_at_def)

lemma ld_enclose_spec:
  assumes wf: "ib_wf b" "ld_wf ld"
  obtains b' where "ld_enclose ld b = Some (b', Inr ())" "ib_wf b'" "ib_kind b' = ib_kind b"
      "as_init b' = length_prefix ld (buf_len b) @ as_init b"
      "buf_len b \<le> ld_max ld" "buf_len b \<le> max_payload (ld_field_len ld)"
  | b' e where "ld_enclose ld b = Some (b', Inl e)" "ib_wf b'" "ib_kind b' = ib_kind b"
      "as_init b' = as_init b"
proof -
  let ?k = "ld_field_len ld" and ?n = "ib_len b" and ?p = "length_prefix ld (ib_len b)"
  have k: "0 < ?k" "?k \<le> 8" using wf(2) by (auto simp: ld_wf_def MAX_LFL_def)
  have n: "?k + ?n \<le> usize_max" using k wf(1)
    by (auto simp: ib_wf_def isize_max_def usize_max_def)
  consider (big) "ld_max ld < ?n \<or> max_payload ?k < ?n"
    | (fail) e where "?n \<le> ld_max ld" "?n \<le> max_payload ?k" "buf_reserve b ?k = Inl e"
    | (grow) b1 where "?n \<le> ld_max ld" "?n \<le> max_payload ?k" "buf_reserve b ?k = Inr b1"
    by (cases "buf_reserve b ?k"; fastforce simp: not_le)
  then show thesis
  proof cases
    case big
    then show thesis using wf that(2) [of b InvalidInput] by (auto simp: ld_enclose_def Let_def)
  next
    case (fail e)
    then show thesis using wf n that(2) [of b e]
      by (auto simp: ld_enclose_def Let_def checked_add_def)
  next
    case (grow b1)
    note r = buf_reserve_spec [OF wf(1) grow(3)]
    have kind: "ib_kind b \<noteq> ArrayBuf" using grow(3) k(1) wf(1)
      by (auto simp: buf_reserve_def default_reserve_def as_uninit_def ib_wf_def split: if_splits)
    have init: "take ?n (ib_mem b1) = as_init b"
      using buf_reserve_init [OF wf(1) grow(3)] r by (simp add: as_init_def)
    let ?m = "?p @ as_init b @ drop (?k + ?n) (ib_mem b1)"
    let ?b' = "b1\<lparr>ib_mem := ?m, ib_len := ?k + ?n\<rparr>"
    have m: "write_at 0 ?p (write_at ?k (as_init b) (ib_mem b1)) = ?m"
      using shift_and_prefix [of ?p ?k "as_init b" "ib_mem b1"] wf r by simp
    have "copy_within b1 0 ?n ?k = Some (b1\<lparr>ib_mem := write_at ?k (as_init b) (ib_mem b1)\<rparr>)"
      using r init wf(1) by (auto simp: copy_within_def as_uninit_def slice_range_def)
    moreover have "length ?m = length (ib_mem b1)" using r wf by simp
    ultimately have "ld_enclose ld b = Some (?b', Inr ())"
      using grow wf n r kind m
      by (auto simp: ld_enclose_def Let_def checked_add_def as_uninit_def set_len_movable)
    moreover have "ib_wf ?b'" "as_init ?b' = ?p @ as_init b"
      using r wf kind \<open>length ?m = length (ib_mem b1)\<close> by (auto simp: ib_wf_def as_init_def)
    ultimately show thesis using that(1) [of ?b'] r wf grow by (simp add: buf_len_def)
  qed
qed

lemma ld_extract_enclosed:
  assumes "ld_wf ld" "n = length payload" "n \<le> ld_max ld" "n \<le> max_payload (ld_field_len ld)"
    "n \<le> isize_max"
  shows "ld_extract ld (length_prefix ld n @ payload @ rest) = Inr (Some (frame_new (ld_field_len ld) n 0))"
proof -
  have "ld_field_len ld + n \<le> usize_max" using assms(1,5)
    by (simp add: ld_wf_def MAX_LFL_def isize_max_def usize_max_def)
  then show ?thesis using assms decode_length_prefix [OF assms(1,4)]
    by (simp add: ld_extract_def Let_def checked_add_def)
qed

text \<open>
  Length-delimited framing round trip: enclosing a buffer never panics; when it succeeds,
  the buffer holds the length prefix followed by the old payload, and extracting from it - with
  any further bytes behind it - yields the frame whose payload is exactly the original bytes
  and whose end is exactly the end of the enclosed buffer.  This holds for every length-field
  width from one to eight bytes and both byte orders.  On failure the payload is untouched, and
  enclosing fails for a payload exactly when it is longer than the configured maximum, does not
  fit the length field, or the buffer cannot grow by the length field.
\<close>

theorem length_delimited_roundtrip:
  assumes "ib_wf b" "ld_wf ld"
  shows "(\<exists>b'. ld_enclose ld b = Some (b', Inr ()) \<and> ib_wf b'
            \<and> length (as_init b') = ld_field_len ld + buf_len b
            \<and> (\<forall>rest. ld_extract ld (as_init b' @ rest) = Inr (Some (frame_new (ld_field_len ld) (buf_len b) 0)))
            \<and> slice_range (as_init b') (ld_field_len ld) (ld_field_len ld + buf_len b) = Some (as_init b))
       \<or> (\<exists>b' e. ld_enclose ld b = Some (b', Inl e) \<and> ib_wf b' \<and> as_init b' = as_init b
            \<and> (ld_max ld < buf_len b \<or> max_payload (ld_field_len ld) < buf_len b
               \<or> buf_reserve b (ld_field_len ld) = Inl e))"
proof (rule ld_enclose_spec [OF assms])
  fix b'
  assume b': "ld_enclose ld b = Some (b', Inr ())" "ib_wf b'"
    "as_init b' = length_prefix ld (buf_len b) @ as_init b"
    "buf_len b \<le> ld_max ld" "buf_len b \<le> max_payload (ld_field_len ld)"
  have "buf_len b \<le> isize_max" using assms(1) by (simp add: buf_len_def ib_wf_def as_init_def)
  then have "ld_extract ld (as_init b' @ rest) = Inr (Some (frame_new (ld_field_len ld) (buf_len b) 0))"
    for rest
    using ld_extract_enclosed [OF assms(2), of "buf_len b" "as_init b" rest] b' by (simp add: buf_len_def)
  then show ?thesis using b' assms by (simp add: slice_range_def buf_len_def)
next
  fix b' e
  assume e: "ld_enclose ld b = Some (b', Inl e)" "ib_wf b'" "as_init b' = as_init b"
  have "ld_max ld < buf_len b \<or> max_payload (ld_field_len ld) < buf_len b
               \<or> buf_reserve b (ld_field_len ld) = Inl e"
  proof (cases "buf_reserve b (ld_field_len ld)")
    case (Inr b1)
    then have "ib_len b + ld_field_len ld \<le> length (ib_mem b1)" "length (ib_mem b1) \<le> isize_max"
      using buf_reserve_spec [OF assms(1) Inr] by (auto simp: ib_wf_def)
    then show ?thesis using e(1) Inr assms(1)
      by (auto simp: ld_enclose_def Let_def buf_len_def checked_add_def as_uninit_def isize_max_def
          usize_max_def split: if_splits option.splits)
  qed (use e assms in \<open>auto simp: ld_enclose_def Let_def buf_len_def checked_add_def isize_max_def
          usize_max_def ib_wf_def ld_wf_def MAX_LFL_def split: if_splits option.splits\<close>)
  then show ?thesis using e by blast
qed

lemma length_delimited_roundtrip_witness:
  "ld_enclose ld_default (vec_from 64 [104, 105]) = Some (
      \<lparr>ib_kind = VecBuf 64, ib_mem = [0, 0, 0, 2, 104, 105] @ replicate 2 0, ib_len = 6\<rparr>, Inr ())
   \<and> ld_extract ld_default ([0, 0, 0, 2, 104, 105] @ [9]) = Inr (Some (frame_new 4 2 0))"
proof -
  have wf: "ib_wf (vec_from 64 [104, 105])" "ld_wf ld_default"
    by (simp_all add: ib_wf_def vec_from_def isize_max_def ld_wf_def ld_default_def MAX_LFL_def
        DEFAULT_MAX_FRAME_LENGTH_def usize_max_def)
  have e: "ld_enclose ld_default (vec_from 64 [104, 105]) = Some (
      \<lparr>ib_kind = VecBuf 64, ib_mem = [0, 0, 0, 2, 104, 105] @ replicate 2 0, ib_len = 6\<rparr>, Inr ())"
    by (simp add: ld_enclose_def vec_from_def as_init_def as_uninit_def ld_default_def Let_def
        DEFAULT_MAX_FRAME_LENGTH_def max_payload_def MAX_LFL_def checked_add_def usize_max_def
        buf_reserve_def vec_try_reserve_def grown_capacity_def isize_max_def copy_within_def
        slice_range_def write_at_def length_prefix_def to_be_bytes_def to_le_bytes_def upt_rec
        set_len_def)
  from length_delimited_roundtrip [OF wf] e show ?thesis
    by (auto simp: vec_from_def buf_len_def as_init_def ld_default_def numeral_2_eq_2)
qed

section \<open>Delimited frames\<close>

text \<open>\<open>occurs d p xs\<close>: the delimiter \<open>d\<close> stands at position \<open>p\<close> of \<open>xs\<close>.\<close>

definition occurs :: "u8 list \<Rightarrow> nat \<Rightarrow> u8 list \<Rightarrow> bool" where
  "occurs d p xs \<longleftrightarrow> p + length d \<le> length xs \<and> take (length d) (drop p xs) = d"

lemma occurs_iff_nth:
  "occurs d p xs \<longleftrightarrow> p + length d \<le> length xs \<and> (\<forall>i < length d. xs ! (p + i) = d ! i)"
  by (auto simp: occurs_def list_eq_iff_nth_eq min_def)

lemma occurs_append: "occurs d p xs \<Longrightarrow> occurs d p (xs @ ys)"
  by (auto simp: occurs_iff_nth nth_append)

lemma occurs_prefix: "p + length d \<le> length xs \<Longrightarrow> occurs d p (xs @ ys) \<longleftrightarrow> occurs d p xs"
  by (auto simp: occurs_iff_nth nth_append)

lemma occurs_take: "occurs d p (take n xs) \<longleftrightarrow> p + length d \<le> n \<and> occurs d p xs"
  by (auto simp: occurs_iff_nth)

lemma occurs_drop: "k \<le> length xs \<Longrightarrow> occurs d p (drop k xs) \<longleftrightarrow> occurs d (k + p) xs"
  by (auto simp: occurs_iff_nth add.assoc)

lemma occurs_Cons_Suc: "occurs d (Suc p) (x # xs) \<longleftrightarrow> occurs d p xs"
  by (simp add: occurs_def)

lemma find_window_None: "d \<noteq> [] \<Longrightarrow> find_window d xs = None \<longleftrightarrow> (\<forall>p. \<not> occurs d p xs)"
proof (induction xs)
  case (Cons x xs)
  show ?case
  proof (cases "length (x # xs) < length d")
    case True
    then show ?thesis by (auto simp: occurs_def)
  next
    case False
    have "(\<forall>p. \<not> occurs d p (x # xs)) \<longleftrightarrow> \<not> occurs d 0 (x # xs) \<and> (\<forall>p. \<not> occurs d p xs)"
      by (metis not0_implies_Suc occurs_Cons_Suc)
    then show ?thesis using Cons False by (auto simp: occurs_def)
  qed
qed (simp add: occurs_def)

lemma find_window_Some:
  "d \<noteq> [] \<Longrightarrow> find_window d xs = Some p \<longleftrightarrow> occurs d p xs \<and> (\<forall>q < p. \<not> occurs d q xs)"
proof (induction xs arbitrary: p)
  case (Cons x xs)
  show ?case
  proof (cases p)
    case 0
    then show ?thesis by (auto simp: occurs_def)
  next
    case (Suc q)
    have "(\<forall>r < Suc q. \<not> occurs d r (x # xs)) \<longleftrightarrow> \<not> occurs d 0 (x # xs) \<and> (\<forall>r < q. \<not> occurs d r xs)"
      by (metis less_Suc_eq_0_disj occurs_Cons_Suc)
    then show ?thesis using Cons Suc by (auto simp: occurs_Cons_Suc) (auto simp: occurs_def)
  qed
qed (simp add: occurs_def)

text \<open>A partial delimiter at the end of the data, and what it can become.\<close>

lemma occurs_across_end:
  assumes "p + length d > length data" "p < length data"
  shows "(\<exists>ext. occurs d p (data @ ext)) \<longleftrightarrow> ends_with data (take (length data - p) d)"
proof
  let ?k = "length data - p"
  assume "\<exists>ext. occurs d p (data @ ext)"
  then obtain ext where "occurs d p (data @ ext)" ..
  then have "take (length d) (drop p data @ ext) = d" using assms by (auto simp: occurs_def)
  moreover have "?k \<le> length d" using assms by linarith
  ultimately have "take ?k d = take ?k (drop p data @ ext)" by (metis min_absorb1 take_take)
  then have "take ?k d = drop p data" by simp
  then show "ends_with data (take ?k d)" using assms by (simp add: ends_with_def)
next
  let ?k = "length data - p"
  assume "ends_with data (take ?k d)"
  moreover have "length (take ?k d) = ?k" using assms by simp
  ultimately have "drop p data = take ?k d" using assms by (simp add: ends_with_def)
  then have "drop p (data @ drop ?k d) = d" using assms by simp
  then have "occurs d p (data @ drop ?k d)" using assms
    by (simp add: occurs_def)
  then show "\<exists>ext. occurs d p (data @ ext)" ..
qed

lemma occurs_past_end:
  assumes "length data \<le> p"
  shows "\<exists>ext. occurs d p (data @ ext)"
proof
  show "occurs d p (data @ replicate (p - length data) 0 @ d)" using assms by (simp add: occurs_def)
qed

text \<open>
  The outcome of a search that starts from scratch: the first delimiter at a position within
  the limit; otherwise an error when no continuation of the data can place one there.
\<close>

definition completable :: "u8 list \<Rightarrow> nat \<Rightarrow> u8 list \<Rightarrow> bool" where
  "completable d max_length data \<longleftrightarrow> (\<exists>ext p. p \<le> max_length \<and> occurs d p (data @ ext))"

definition first_delimiter :: "u8 list \<Rightarrow> nat \<Rightarrow> u8 list \<Rightarrow> nat \<Rightarrow> bool" where
  "first_delimiter d max_length data p \<longleftrightarrow>
     p \<le> max_length \<and> occurs d p data \<and> (\<forall>q < p. \<not> occurs d q data)"

text \<open>The resume position is sound: whatever follows the data, no delimiter starts before it.\<close>

definition resume_ok :: "u8 list \<Rightarrow> nat \<Rightarrow> u8 list \<Rightarrow> bool" where
  "resume_ok d n data \<longleftrightarrow> (\<forall>ext. \<forall>q < n. \<not> occurs d q (data @ ext))"

lemma find_Some_rev_upt:
  "List.find P (rev [1..<n]) = Some k \<longleftrightarrow> 1 \<le> k \<and> k < n \<and> P k \<and> (\<forall>j. k < j \<and> j < n \<longrightarrow> \<not> P j)"
proof (induction n)
  case (Suc n)
  then show ?case by (cases "1 \<le> n") (auto simp: less_Suc_eq)
qed simp

lemma find_None_rev_upt:
  "List.find P (rev [1..<n]) = None \<longleftrightarrow> (\<forall>j. 1 \<le> j \<and> j < n \<longrightarrow> \<not> P j)"
  by (auto simp: find_None_iff)

text \<open>The guard of the size check: some partial delimiter starts within the limit.\<close>

lemma possible_start_iff:
  assumes "max_length < length data" "d \<noteq> []"
  shows "(case possible_delimiter_start data d of None \<Rightarrow> True | Some s \<Rightarrow> s > max_length)
     \<longleftrightarrow> \<not> (\<exists>p \<le> max_length. p + length d > length data \<and> ends_with data (take (length data - p) d))"
    (is "?L = (\<not> ?R)")
proof (cases "List.find (\<lambda>k. ends_with data (take k d)) (rev [1..<length d])")
  case None
  then have "\<not> ends_with data (take k d)" if "1 \<le> k" "k < length d" for k
    using None [unfolded find_None_rev_upt] that by blast
  then have "\<not> ?R" using assms by (auto simp: less_diff_conv2)
  then show ?thesis using None by (simp add: possible_delimiter_start_def)
next
  case (Some k)
  note k = Some [unfolded find_Some_rev_upt]
  have kl: "k \<le> length data" using k by (auto simp: ends_with_def)
  have "?R \<longleftrightarrow> length data - k \<le> max_length"
  proof
    assume ?R
    then obtain p where p: "p \<le> max_length" "p + length d > length data"
      "ends_with data (take (length data - p) d)" by blast
    have "length data - p \<le> k"
    proof (rule ccontr)
      assume "\<not> length data - p \<le> k"
      moreover have "length data - p < length d" using p(1,2) assms(1) by linarith
      ultimately show False using k p(3) by auto
    qed
    then show "length data - k \<le> max_length" using p(1) by linarith
  next
    assume "length data - k \<le> max_length"
    then show ?R using k kl by (intro exI [of _ "length data - k"]) auto
  qed
  then show ?thesis using Some by (auto simp: possible_delimiter_start_def)
qed

lemma completable_decide:
  assumes "max_length < length data" "d \<noteq> []" "\<forall>p \<le> max_length. \<not> occurs d p data"
  shows "completable d max_length data \<longleftrightarrow>
     (\<exists>p \<le> max_length. p + length d > length data \<and> ends_with data (take (length data - p) d))"
    (is "?L = ?R")
proof
  assume ?L
  then obtain ext p where p: "p \<le> max_length" "occurs d p (data @ ext)"
    by (auto simp: completable_def)
  have "p + length d > length data"
    using assms(3) p occurs_prefix by (metis not_le)
  then show ?R using p assms(1) occurs_across_end [of data p d] by (meson le_less_trans)
next
  assume ?R
  then show ?L using assms(1) occurs_across_end [of data _ d]
    by (meson completable_def le_less_trans)
qed

lemma saturating_add_exact: "a + b \<le> usize_max \<Longrightarrow> saturating_add a b = a + b"
  by (simp add: saturating_add_def)

text \<open>The region searched: from the resume position up to the last place a delimiter may start.\<close>

lemma window_in_data:
  fixes m n p :: nat
  assumes "d \<noteq> []" "length data \<le> usize_max"
  defines "to \<equiv> min (length data) (saturating_add m (length d))"
  shows "occurs d p (take (to - min n to) (drop (min n to) data))
     \<longleftrightarrow> min n to + p \<le> m \<and> occurs d (min n to + p) data" (is "?L = ?R")
proof -
  have to: "to \<le> length data" by (simp add: to_def)
  have upper: "to \<le> m + length d" by (simp add: to_def saturating_add_def)
  have below: "x \<le> to" if "x \<le> length data" "x \<le> m + length d" for x
    using that assms(2) by (simp add: to_def saturating_add_def)
  have "?L \<longleftrightarrow> p + length d \<le> to - min n to \<and> occurs d (min n to + p) data"
    using to by (simp add: occurs_take occurs_drop)
  also have "\<dots> \<longleftrightarrow> min n to + p \<le> m \<and> occurs d (min n to + p) data"
    using upper below [of "min n to + p + length d"] by (auto simp: occurs_def)
  finally show ?thesis .
qed

lemma resume_ok_zero [simp]: "resume_ok d 0 data"
  by (simp add: resume_ok_def)

lemma resume_ok_append: "resume_ok d n data \<Longrightarrow> resume_ok d n (data @ ext)"
  by (simp add: resume_ok_def)

lemma resume_okD: "resume_ok d n data \<Longrightarrow> occurs d q data \<Longrightarrow> n \<le> q"
  unfolding resume_ok_def by (metis append_Nil2 not_le)

lemma resume_ok_next:
  assumes "\<forall>p \<le> m. \<not> occurs d p data" "d \<noteq> []"
  shows "resume_ok d (min (length data) (saturating_add m (length d)) - (length d - 1)) data"
  unfolding resume_ok_def
proof (intro allI impI)
  fix ext q
  assume q: "q < min (length data) (saturating_add m (length d)) - (length d - 1)"
  then have "q + length d \<le> length data" "q \<le> m" using assms(2)
    by (auto simp: saturating_add_def less_diff_conv Suc_leI min_def split: if_splits)
  then show "\<not> occurs d q (data @ ext)" using assms(1) by (simp add: occurs_prefix)
qed

lemma extract_delimited_cases:
  assumes "d \<noteq> []" "length data \<le> usize_max" "resume_ok d n data"
  obtains (frame) p where "first_delimiter d m data p"
      "extract_delimited data d n m = (0, Inr (Some (frame_new 0 p (length d))))"
  | (too_large) "\<not> completable d m data" "extract_delimited data d n m = (0, Inl InvalidData)"
  | (more) n' where "\<forall>p \<le> m. \<not> occurs d p data" "completable d m data" "resume_ok d n' data"
      "extract_delimited data d n m = (n', Inr None)"
proof (cases "data = []")
  case True
  then have "completable d m data"
    unfolding completable_def by (intro exI [of _ d] exI [of _ 0]) (simp add: occurs_def)
  then show thesis using True assms(1,3) more [of n]
    by (simp add: extract_delimited_def occurs_def)
next
  case False
  define to where "to = min (length data) (saturating_add m (length d))"
  define s where "s = min n to"
  have w: "occurs d q (take (to - s) (drop s data)) \<longleftrightarrow> s + q \<le> m \<and> occurs d (s + q) data" for q
    unfolding s_def to_def by (rule window_in_data [OF assms(1,2)])
  have s: "s \<le> q" if "occurs d q data" for q
    using resume_okD [OF assms(3) that] by (simp add: s_def)
  show thesis
  proof (cases "find_window d (take (to - s) (drop s data))")
    case (Some p)
    note f = find_window_Some [OF assms(1), THEN iffD1, OF Some]
    have p: "s + p \<le> m" "occurs d (s + p) data" using f w [of p] by simp_all
    have before: "\<not> occurs d (s + q) data" if "q < p" for q using f w [of q] p(1) that by simp
    have "\<not> occurs d q data" if "q < s + p" for q
      using before [of "q - s"] s [of q] that by force
    then have "first_delimiter d m data (s + p)" using p by (simp add: first_delimiter_def)
    then show thesis using frame [of "s + p"] Some False
      by (simp add: extract_delimited_def Let_def flip: to_def s_def)
  next
    case None
    then have none': "\<not> occurs d p (take (to - s) (drop s data))" for p
      using find_window_None [OF assms(1)] by blast
    have none: "\<forall>p \<le> m. \<not> occurs d p data"
    proof (intro allI impI notI)
      fix p assume "p \<le> m" "occurs d p data"
      then show False using none' [of "p - s"] w [of "p - s"] s [of p] by simp
    qed
    have guard: "(case possible_delimiter_start data d of None \<Rightarrow> True | Some s \<Rightarrow> s > m)
        \<longleftrightarrow> \<not> completable d m data" if "m < length data"
      using possible_start_iff [OF that assms(1)] completable_decide [OF that assms(1) none] by blast
    show thesis
    proof (cases "m < length data \<and> \<not> completable d m data")
      case True
      then show thesis using too_large None False guard
        by (simp add: extract_delimited_def Let_def flip: to_def s_def)
    next
      case more': False
      have "completable d m data"
        using more' occurs_past_end [of data "length data" d] by (auto simp: completable_def not_less)
      moreover have "extract_delimited data d n m = (to - (length d - 1), Inr None)"
        using more' None False guard
        by (auto simp: extract_delimited_def Let_def simp flip: to_def s_def)
      ultimately show thesis
        using more [of "to - (length d - 1)"] none resume_ok_next [OF none assms(1)]
        by (simp add: to_def)
    qed
  qed
qed

lemma first_delimiter_unique:
  "first_delimiter d m data p \<Longrightarrow> first_delimiter d m data q \<Longrightarrow> p = q"
  unfolding first_delimiter_def by (metis nat_neq_iff)

lemma first_delimiter_completable: "first_delimiter d m data p \<Longrightarrow> completable d m data"
  unfolding first_delimiter_def completable_def by (metis append_Nil2)

lemma first_delimiter_None:
  "(\<forall>p \<le> m. \<not> occurs d p data) \<longleftrightarrow> (\<nexists>p. first_delimiter d m data p)"
proof
  assume none: "\<nexists>p. first_delimiter d m data p"
  show "\<forall>p \<le> m. \<not> occurs d p data"
  proof (intro allI impI)
    fix p show "p \<le> m \<Longrightarrow> \<not> occurs d p data"
      using none by (induction p rule: less_induct) (auto simp: first_delimiter_def)
  qed
qed (auto simp: first_delimiter_def)

lemma first_delimiter_append:
  "first_delimiter d m data p \<Longrightarrow> first_delimiter d m (data @ ext) p"
proof -
  assume f: "first_delimiter d m data p"
  have "\<not> occurs d q (data @ ext)" if "q < p" for q
    using f that occurs_prefix [of q d data ext] by (auto simp: first_delimiter_def occurs_def)
  then show ?thesis using f by (auto simp: first_delimiter_def occurs_append)
qed

text \<open>
  The delimiter search decides its data.  Started from any sound resume position
  (\<open>next_index\<close>), \<^verbatim>\<open>extract_delimited\<close> returns the frame that ends at the first delimiter when
  that delimiter starts within the maximum payload length; it reports an oversized frame
  exactly when no continuation of the data whatsoever could place a delimiter within the
  limit; and it asks for more data exactly when there is no such delimiter yet but some
  continuation has one.  The resume position it leaves is sound for every continuation, so
  resuming never differs from searching again from the start.
\<close>

theorem delimited_extract_decides:
  assumes "d \<noteq> []" "length data \<le> usize_max" "resume_ok d n data"
  shows "\<exists>n' r. extract_delimited data d n m = (n', r)
     \<and> (\<forall>p. r = Inr (Some (frame_new 0 p (length d))) \<longleftrightarrow> first_delimiter d m data p)
     \<and> (r = Inl InvalidData \<longleftrightarrow> \<not> completable d m data)
     \<and> (r = Inr None \<longleftrightarrow> completable d m data \<and> (\<nexists>p. first_delimiter d m data p))
     \<and> (\<forall>ext. resume_ok d n' (data @ ext))
     \<and> snd (extract_delimited data d 0 m) = r"
proof -
  have scratch: "snd (extract_delimited data d 0 m) = r" if
    "\<And>p. r = Inr (Some (frame_new 0 p (length d))) \<longleftrightarrow> first_delimiter d m data p"
    "r = Inl InvalidData \<longleftrightarrow> \<not> completable d m data"
    "r = Inr None \<longleftrightarrow> completable d m data \<and> (\<nexists>p. first_delimiter d m data p)" for r
    using that(1) that(2) that(3)
    by (rule_tac extract_delimited_cases [OF assms(1,2) resume_ok_zero, of m])
      (metis snd_conv, metis snd_conv, metis snd_conv first_delimiter_None)
  show ?thesis
  proof (rule extract_delimited_cases [OF assms, of m])
    fix p assume "first_delimiter d m data p"
      "extract_delimited data d n m = (0, Inr (Some (frame_new 0 p (length d))))"
    then show ?thesis using scratch [of "Inr (Some (frame_new 0 p (length d)))"]
      by (auto simp: frame_new_def dest: first_delimiter_unique first_delimiter_completable)
  next
    assume "\<not> completable d m data" "extract_delimited data d n m = (0, Inl InvalidData)"
    then show ?thesis using scratch [of "Inl InvalidData"]
      by (auto dest: first_delimiter_completable)
  next
    fix n' assume "\<forall>p \<le> m. \<not> occurs d p data" "completable d m data" "resume_ok d n' data"
      "extract_delimited data d n m = (n', Inr None)"
    then show ?thesis using scratch [of "Inr None"]
      by (auto simp: first_delimiter_None resume_ok_append)
  qed
qed

lemma delimited_extract_decides_witness:
  "snd (extract_delimited [97, 98, 99, 69] [69, 78, 68] 0 3) = Inr None
   \<and> completable [69, 78, 68] 3 [97, 98, 99, 69]"
proof -
  have e: "extract_delimited [97, 98, 99, 69] [69, 78, 68] 0 3 = (2, Inr None)"
    by (simp add: extract_delimited_def Let_def saturating_add_def usize_max_def upt_rec
        possible_delimiter_start_def ends_with_def)
  then show ?thesis
    using delimited_extract_decides [of "[69, 78, 68]" "[97, 98, 99, 69]" 0 3]
    by (auto simp: usize_max_def)
qed

section \<open>The contract of a streaming framer\<close>

text \<open>
  What the framed reader relies on: extraction is a function \<open>spec\<close> of the pending bytes alone
  as long as the framer's private state is related to them, its answer cannot be changed by
  bytes that arrive later, and a frame it reports lies inside the data and is not empty.
  \<open>total\<close> bounds the bytes that a buffer can hold.
\<close>

locale streaming_framer =
  fixes extr :: "'f \<Rightarrow> u8 list \<Rightarrow> 'f \<times> frame option io_result"
    and rel :: "'f \<Rightarrow> u8 list \<Rightarrow> bool"
    and spec :: "u8 list \<Rightarrow> frame option io_result"
  assumes extract_spec: "rel f data \<Longrightarrow> length data \<le> isize_max \<Longrightarrow> snd (extr f data) = spec data"
    and rel_more: "rel f data \<Longrightarrow> length data \<le> isize_max \<Longrightarrow> spec data = Inr None \<Longrightarrow>
        rel (fst (extr f data)) (data @ ext)"
    and rel_frame: "rel f data \<Longrightarrow> length data \<le> isize_max \<Longrightarrow> spec data = Inr (Some fr) \<Longrightarrow>
        rel (fst (extr f data)) rest"
    and spec_stable: "spec data \<noteq> Inr None \<Longrightarrow> length (data @ ext) \<le> isize_max \<Longrightarrow>
        spec (data @ ext) = spec data"
    and spec_bounds: "spec data = Inr (Some fr) \<Longrightarrow> length data \<le> isize_max \<Longrightarrow>
        0 < fr_prefix fr + fr_payload fr + fr_suffix fr
        \<and> fr_prefix fr + fr_payload fr + fr_suffix fr \<le> length data"
begin

lemma bounds_checked:
  assumes "spec data = Inr (Some fr)" "length data \<le> isize_max"
  shows "checked_bounds fr (length data) = Inr ((fr_prefix fr, fr_prefix fr + fr_payload fr),
           fr_prefix fr + fr_payload fr + fr_suffix fr)"
  using spec_bounds [OF assms] assms(2)
  by (simp add: checked_bounds_def checked_add_def isize_max_def usize_max_def)

end

text \<open>Length-delimited framing keeps no state between calls.\<close>

lemma ld_extract_bounds:
  "ld_wf ld \<Longrightarrow> ld_extract ld data = Inr (Some fr) \<Longrightarrow>
     0 < fr_prefix fr + fr_payload fr + fr_suffix fr \<and>
     fr_prefix fr + fr_payload fr + fr_suffix fr \<le> length data"
  by (auto simp: ld_extract_def ld_wf_def Let_def frame_new_def split: if_splits option.splits)

lemma ld_extract_stable:
  "ld_extract ld data \<noteq> Inr None \<Longrightarrow> ld_extract ld (data @ ext) = ld_extract ld data"
  by (auto simp: ld_extract_def Let_def split: if_splits option.splits)

interpretation ld_stream: streaming_framer "\<lambda>ld data. (ld, ld_extract ld data)"
  "\<lambda>ld' data. ld' = ld \<and> ld_wf ld" "\<lambda>data. if ld_wf ld then ld_extract ld data else Inr None" for ld
  by unfold_locales (auto simp: ld_extract_stable dest: ld_extract_bounds split: if_splits)

text \<open>Delimiter framing keeps the resume position, related to the data by \<open>resume_ok\<close>.\<close>

lemma extract_delimited_stable:
  assumes "d \<noteq> []" "length (data @ ext) \<le> usize_max" "snd (extract_delimited data d 0 m) \<noteq> Inr None"
  shows "snd (extract_delimited (data @ ext) d 0 m) = snd (extract_delimited data d 0 m)"
proof -
  have l: "length data \<le> usize_max" using assms(2) by simp
  show ?thesis
  proof (rule extract_delimited_cases [OF assms(1) l resume_ok_zero, of m])
    fix p assume p: "first_delimiter d m data p"
      "extract_delimited data d 0 m = (0, Inr (Some (frame_new 0 p (length d))))"
    have "first_delimiter d m (data @ ext) p" by (rule first_delimiter_append [OF p(1)])
    then show ?thesis
      by (rule_tac extract_delimited_cases [OF assms(1,2) resume_ok_zero, of m])
        (use p in \<open>auto simp: first_delimiter_None dest: first_delimiter_unique first_delimiter_completable\<close>)
  next
    assume c: "\<not> completable d m data" "extract_delimited data d 0 m = (0, Inl InvalidData)"
    then have "\<not> completable d m (data @ ext)" by (auto simp: completable_def)
    then show ?thesis
      by (rule_tac extract_delimited_cases [OF assms(1,2) resume_ok_zero, of m])
        (use c in \<open>auto dest: first_delimiter_completable\<close>)
  next
    fix n' assume "extract_delimited data d 0 m = (n', Inr None)"
    then show ?thesis using assms(3) by simp
  qed
qed

text \<open>
  The three streaming framers behind the trait.  \<open>framer_fresh\<close> forgets the resume position,
  \<open>framer_rel f0\<close> relates the states that a framer configured as \<open>f0\<close> goes through to the
  pending bytes.  The framer that adds no framing is not a streaming one: what it returns
  depends on how the bytes arrived.
\<close>

fun framer_fresh :: "framer \<Rightarrow> framer" where
  "framer_fresh (LengthDelimited l) = LengthDelimited l"
| "framer_fresh (CharDelimited c) = CharDelimited (c\<lparr>cd_buf := replicate 4 0, cd_next := 0\<rparr>)"
| "framer_fresh (AnyDelimited a) = AnyDelimited (a\<lparr>ad_next := 0\<rparr>)"
| "framer_fresh (NoopFramer n) = NoopFramer n"

fun framer_streaming :: "framer \<Rightarrow> bool" where
  "framer_streaming (LengthDelimited l) = ld_wf l"
| "framer_streaming (CharDelimited c) = True"
| "framer_streaming (AnyDelimited a) = (ad_bytes a \<noteq> [])"
| "framer_streaming (NoopFramer n) = False"

fun framer_resume_ok :: "framer \<Rightarrow> u8 list \<Rightarrow> bool" where
  "framer_resume_ok (CharDelimited c) data = resume_ok (encode_utf8 (cd_char c)) (cd_next c) data"
| "framer_resume_ok (AnyDelimited a) data = resume_ok (ad_bytes a) (ad_next a) data"
| "framer_resume_ok _ data = True"

definition framer_rel :: "framer \<Rightarrow> framer \<Rightarrow> u8 list \<Rightarrow> bool" where
  "framer_rel f0 f data \<longleftrightarrow>
     framer_streaming f0 \<and> framer_fresh f = framer_fresh f0 \<and> framer_resume_ok f data"

definition framer_spec :: "framer \<Rightarrow> u8 list \<Rightarrow> frame option io_result" where
  "framer_spec f0 data =
     (if framer_streaming f0 then snd (framer_extract (framer_fresh f0) data) else Inr None)"

lemma encode_utf8_nonempty [simp]: "encode_utf8 c \<noteq> []"
  by (simp add: encode_utf8_def)

lemma isize_usize: "n \<le> isize_max \<Longrightarrow> n \<le> usize_max"
  by (simp add: isize_max_def usize_max_def)

lemma framer_fresh_extract [simp]: "framer_fresh (fst (framer_extract f data)) = framer_fresh f"
  by (cases f) (auto simp: char_extract_def any_extract_def delimiter_bytes_def Let_def split: prod.splits)

lemma framer_fresh_streaming: "framer_fresh f = framer_fresh f0 \<Longrightarrow> framer_streaming f = framer_streaming f0"
  by (cases f; cases f0) (auto, (metis any_delimited.select_convs(1) any_delimited.surjective any_delimited.update_convs(2))+)

text \<open>The delimiter, the limit and the resume position of a delimiter framer.\<close>

lemma delimiter_framer_cases:
  assumes "framer_streaming f"
  obtains (length_field) ld where "f = LengthDelimited ld" "ld_wf ld"
  | (delimiter) d n m where "d \<noteq> []" "\<And>data. framer_resume_ok f data = resume_ok d n data"
      "\<And>data. snd (framer_extract f data) = snd (extract_delimited data d n m)"
      "\<And>data ext. framer_resume_ok (fst (framer_extract f data)) ext
          = resume_ok d (fst (extract_delimited data d n m)) ext"
      "\<And>data. snd (framer_extract (framer_fresh f) data) = snd (extract_delimited data d 0 m)"
  using assms
proof (cases f)
  case (CharDelimited c)
  show thesis
    by (rule delimiter [of "encode_utf8 (cd_char c)" "cd_next c" "cd_max c"])
      (auto simp: CharDelimited char_extract_def delimiter_bytes_def Let_def split: prod.splits)
next
  case (AnyDelimited a)
  show thesis
    using assms AnyDelimited
    by (intro delimiter [of "ad_bytes a" "ad_next a" "ad_max a"])
      (auto simp: any_extract_def split: prod.splits)
qed auto

lemma framer_spec_eq:
  assumes "framer_rel f0 f data" "length data \<le> isize_max"
  shows "snd (framer_extract f data) = framer_spec f0 data
     \<and> (framer_spec f0 data = Inr None \<longrightarrow> framer_rel f0 (fst (framer_extract f data)) (data @ ext))
     \<and> (framer_spec f0 data = Inr (Some fr) \<longrightarrow> framer_rel f0 (fst (framer_extract f data)) rest)"
proof -
  have f: "framer_streaming f" "framer_fresh f = framer_fresh f0" "framer_streaming f0" "framer_resume_ok f data"
    using assms(1) framer_fresh_streaming [of f f0] by (auto simp: framer_rel_def)
  from f(1) show ?thesis
  proof (cases rule: delimiter_framer_cases)
    case (length_field ld)
    then have "framer_fresh f0 = LengthDelimited ld" using f(2) by simp
    then show ?thesis using length_field f(3) by (simp add: framer_rel_def framer_spec_def)
  next
    case (delimiter d n m)
    have l: "length data \<le> usize_max" using assms(2) by (rule isize_usize)
    have spec: "framer_spec f0 data = snd (extract_delimited data d 0 m)"
      using delimiter(5) f(2,3) by (simp add: framer_spec_def)
    have r: "resume_ok d n data" using delimiter(2) f(4) by simp
    have same: "snd (extract_delimited data d n m) = snd (extract_delimited data d 0 m)"
    proof (rule extract_delimited_cases [OF delimiter(1) l r, of m])
      fix p assume "first_delimiter d m data p"
        "extract_delimited data d n m = (0, Inr (Some (frame_new 0 p (length d))))"
      then show ?thesis
        by (rule_tac extract_delimited_cases [OF delimiter(1) l resume_ok_zero, of m])
          (auto simp: first_delimiter_None dest: first_delimiter_unique first_delimiter_completable)
    next
      assume "\<not> completable d m data" "extract_delimited data d n m = (0, Inl InvalidData)"
      then show ?thesis
        by (rule_tac extract_delimited_cases [OF delimiter(1) l resume_ok_zero, of m])
          (auto dest: first_delimiter_completable)
    next
      fix n' assume "\<forall>p \<le> m. \<not> occurs d p data" "completable d m data"
        "extract_delimited data d n m = (n', Inr None)"
      then show ?thesis
        by (rule_tac extract_delimited_cases [OF delimiter(1) l resume_ok_zero, of m])
          (auto simp: first_delimiter_None)
    qed
    have next_ok: "resume_ok d (fst (extract_delimited data d n m)) data"
      by (rule extract_delimited_cases [OF delimiter(1) l r, of m]) auto
    have reset: "fst (extract_delimited data d n m) = 0" if "framer_spec f0 data = Inr (Some fr)"
      by (rule extract_delimited_cases [OF delimiter(1) l r, of m]) (use that spec same in auto)
    show ?thesis
      using spec same delimiter(3,4) next_ok reset f(2,3)
      by (auto simp: framer_rel_def resume_ok_append)
  qed
qed

lemma framer_spec_props:
  assumes "length (data @ ext) \<le> isize_max"
  shows "framer_spec f0 data \<noteq> Inr None \<longrightarrow> framer_spec f0 (data @ ext) = framer_spec f0 data"
    and "framer_spec f0 data = Inr (Some fr) \<longrightarrow>
      0 < fr_prefix fr + fr_payload fr + fr_suffix fr \<and>
      fr_prefix fr + fr_payload fr + fr_suffix fr \<le> length data"
proof -
  have "(framer_spec f0 data \<noteq> Inr None \<longrightarrow> framer_spec f0 (data @ ext) = framer_spec f0 data)
    \<and> (framer_spec f0 data = Inr (Some fr) \<longrightarrow>
      0 < fr_prefix fr + fr_payload fr + fr_suffix fr \<and>
      fr_prefix fr + fr_payload fr + fr_suffix fr \<le> length data)"
  proof (cases "framer_streaming f0")
    case True
    then show ?thesis
    proof (cases rule: delimiter_framer_cases)
      case (length_field ld)
      then show ?thesis using True ld_extract_bounds [of ld data fr]
        by (auto simp: framer_spec_def ld_extract_stable)
    next
      case (delimiter d n m)
      have l: "length data \<le> usize_max" "length (data @ ext) \<le> usize_max"
        using assms by (auto intro: isize_usize)
      have spec: "framer_spec f0 xs = snd (extract_delimited xs d 0 m)" for xs
        using delimiter(5) True by (simp add: framer_spec_def)
      have "framer_spec f0 data = Inr (Some fr) \<longrightarrow>
          0 < fr_prefix fr + fr_payload fr + fr_suffix fr \<and>
          fr_prefix fr + fr_payload fr + fr_suffix fr \<le> length data"
        by (rule extract_delimited_cases [OF delimiter(1) l(1) resume_ok_zero, of m])
          (use delimiter(1) in \<open>auto simp: spec first_delimiter_def occurs_def frame_new_def\<close>)
      then show ?thesis
        using extract_delimited_stable [OF delimiter(1) l(2)] spec by auto
    qed
  qed (simp add: framer_spec_def)
  then show "framer_spec f0 data \<noteq> Inr None \<longrightarrow> framer_spec f0 (data @ ext) = framer_spec f0 data"
    "framer_spec f0 data = Inr (Some fr) \<longrightarrow>
      0 < fr_prefix fr + fr_payload fr + fr_suffix fr \<and>
      fr_prefix fr + fr_payload fr + fr_suffix fr \<le> length data"
    by (rule conjunct1, rule conjunct2)
qed

interpretation framer_stream: streaming_framer framer_extract "framer_rel f0" "framer_spec f0" for f0
proof
  fix f data ext fr rest
  assume r: "framer_rel f0 f data" "length data \<le> isize_max"
  show "snd (framer_extract f data) = framer_spec f0 data"
    using framer_spec_eq [OF r] by blast
  show "framer_rel f0 (fst (framer_extract f data)) (data @ ext)" if "framer_spec f0 data = Inr None"
    using framer_spec_eq [OF r] that by blast
  show "framer_rel f0 (fst (framer_extract f data)) rest" if "framer_spec f0 data = Inr (Some fr)"
    using framer_spec_eq [OF r] that by blast
next
  fix data ext
  show "framer_spec f0 (data @ ext) = framer_spec f0 data"
    if "framer_spec f0 data \<noteq> Inr None" "length (data @ ext) \<le> isize_max"
    using framer_spec_props(1) that by blast
next
  fix data fr
  assume "framer_spec f0 data = Inr (Some fr)" "length data \<le> isize_max"
  then show "0 < fr_prefix fr + fr_payload fr + fr_suffix fr
    \<and> fr_prefix fr + fr_payload fr + fr_suffix fr \<le> length data"
    using framer_spec_props(2) [of data "[]"] by simp
qed

end
