(* ===== verification/Transport.thy ===== *)
theory Transport
  imports Buffers "HOL-Library.Monad_Syntax"
begin

text \<open>
  Byte transports (the traits of \<^verbatim>\<open>karmaio/src/io/read/async_read.rs\<close> and
  \<^verbatim>\<open>io/write/async_write.rs\<close>) as the environment sees them, and the loops over them in
  \<^verbatim>\<open>async_read_ext.rs\<close> and \<^verbatim>\<open>async_write_ext.rs\<close>.

  An I/O object is a parameter of that code.  Here it is the list of what its operations will
  return: a read of \<open>cap\<close> bytes takes at most \<open>cap\<close> bytes of the next chunk and an empty chunk is
  the end of the stream; a write reports a count and the sink receives that many of the bytes
  offered; \<open>Blocked\<close> and \<open>WBlocked\<close> are polls that find no completion.  Every behaviour of a
  reader or writer, also of one that breaks its contract by over-reporting, is such a list.
\<close>

section \<open>Reading\<close>

datatype read_event = Got "u8 list" | Failed io_error | Blocked

fun poll_read :: "read_event list \<Rightarrow> nat \<Rightarrow> read_event list \<times> u8 list io_result poll" where
  "poll_read [] cap = ([], Pending)"
| "poll_read (Blocked # es) cap = (es, Pending)"
| "poll_read (Failed e # es) cap = (es, Ready (Inl e))"
| "poll_read (Got bs # es) cap =
     (if length bs \<le> cap then (es, Ready (Inr bs))
      else (Got (drop cap bs) # es, Ready (Inr (take cap bs))))"

text \<open>A completed read puts its bytes at the start of the view and sets the view's length.\<close>

definition complete_read :: "iobuf slice \<Rightarrow> u8 list \<Rightarrow> iobuf slice option" where
  "complete_read fill bs =
     slice_set_len
       (fill\<lparr>sl_buf := (sl_buf fill)\<lparr>ib_mem := write_at (sl_start fill) bs (ib_mem (sl_buf fill))\<rparr>\<rparr>)
       (length bs)"

section \<open>Writing\<close>

text \<open>\<open>Took n\<close> accepts up to \<open>n\<close> of the bytes offered; \<open>Overreports k\<close> accepts them all and, against
  its contract, reports \<open>Suc k\<close> more.\<close>

datatype write_event = Took nat | Overreports nat | WFailed io_error | WBlocked

record writer =
  wr_events :: "write_event list"
  wr_out :: "u8 list"
  wr_flushes :: nat
  wr_shut :: bool

definition poll_write :: "writer \<Rightarrow> u8 list \<Rightarrow> writer \<times> nat io_result poll" where
  "poll_write w data =
     (case wr_events w of
        [] \<Rightarrow> (w, Pending)
      | WBlocked # es \<Rightarrow> (w\<lparr>wr_events := es\<rparr>, Pending)
      | WFailed e # es \<Rightarrow> (w\<lparr>wr_events := es\<rparr>, Ready (Inl e))
      | Took n # es \<Rightarrow>
          (w\<lparr>wr_events := es, wr_out := wr_out w @ take n data\<rparr>, Ready (Inr (min n (length data))))
      | Overreports k # es \<Rightarrow>
          (w\<lparr>wr_events := es, wr_out := wr_out w @ data\<rparr>, Ready (Inr (length data + Suc k))))"

definition poll_flush :: "writer \<Rightarrow> writer \<times> unit io_result poll" where
  "poll_flush w =
     (case wr_events w of
        [] \<Rightarrow> (w, Pending)
      | WBlocked # es \<Rightarrow> (w\<lparr>wr_events := es\<rparr>, Pending)
      | WFailed e # es \<Rightarrow> (w\<lparr>wr_events := es\<rparr>, Ready (Inl e))
      | _ # es \<Rightarrow> (w\<lparr>wr_events := es, wr_flushes := Suc (wr_flushes w)\<rparr>, Ready (Inr ())))"

definition poll_shutdown :: "writer \<Rightarrow> writer \<times> unit io_result poll" where
  "poll_shutdown w =
     (case wr_events w of
        [] \<Rightarrow> (w, Pending)
      | WBlocked # es \<Rightarrow> (w\<lparr>wr_events := es\<rparr>, Pending)
      | WFailed e # es \<Rightarrow> (w\<lparr>wr_events := es\<rparr>, Ready (Inl e))
      | _ # es \<Rightarrow> (w\<lparr>wr_events := es, wr_shut := True\<rparr>, Ready (Inr ())))"

lemma poll_write_events: "poll_write w data = (w', Ready r) \<Longrightarrow> length (wr_events w') < length (wr_events w)"
  by (auto simp: poll_write_def split: list.splits write_event.splits)

section \<open>Writing everything\<close>

text \<open>
  One poll of the \<^verbatim>\<open>write_all\<close> future; its state across polls is the buffer and the count
  \<open>written\<close>.  The loop asks the writer again until everything was taken, an error other than an
  interruption is returned, or the writer has nothing to report.
\<close>

function write_all_poll :: "writer \<Rightarrow> u8 list \<Rightarrow> nat \<Rightarrow> writer \<times> nat \<times> nat io_result poll" where
  "write_all_poll w data written =
     (if written < length data then
        (case poll_write w (drop written data) of
           (w', Pending) \<Rightarrow> (w', written, Pending)
         | (w', Ready (Inr n)) \<Rightarrow>
             if n = 0 then (w', written, Ready (Inl UnexpectedEof))
             else write_all_poll w' data (written + n)
         | (w', Ready (Inl e)) \<Rightarrow>
             if e = Interrupted then write_all_poll w' data written
             else (w', written, Ready (Inl e)))
      else (w, written, Ready (Inr written)))"
  by pat_completeness auto
termination
  by (relation "measure (\<lambda>(w, data, written). length (wr_events w))")
    (auto dest: poll_write_events [OF sym])

declare write_all_poll.simps [simp del]

text \<open>\<^verbatim>\<open>write_vectored_all\<close>: the same loop over the components, with the over-reporting check.\<close>

definition sum_lengths :: "u8 list list \<Rightarrow> nat io_result" where
  "sum_lengths slices =
     foldl (\<lambda>acc x. case acc of Inl e \<Rightarrow> Inl e
              | Inr n \<Rightarrow> (case checked_add n (length x) of None \<Rightarrow> Inl InvalidInput | Some m \<Rightarrow> Inr m))
       (Inr 0) slices"

text \<open>The default \<^verbatim>\<open>write_vectored\<close> offers the first non-empty component; a native one offers
  all of them.  \<open>native\<close> says which one the writer has.\<close>

definition offered :: "bool \<Rightarrow> u8 list list \<Rightarrow> u8 list" where
  "offered native slices =
     (if native then concat slices
      else case dropWhile (\<lambda>x. x = []) slices of [] \<Rightarrow> [] | x # _ \<Rightarrow> x)"

definition poll_write_vectored ::
  "bool \<Rightarrow> writer \<Rightarrow> u8 list list \<Rightarrow> writer \<times> nat io_result poll" where
  "poll_write_vectored native w slices =
     (if \<not> native \<and> concat slices = [] then (w, Ready (Inr 0))
      else poll_write w (offered native slices))"

lemma poll_write_vectored_events:
  "concat slices \<noteq> [] \<Longrightarrow> poll_write_vectored native w slices = (w', Ready r) \<Longrightarrow>
     length (wr_events w') < length (wr_events w)"
  by (auto simp: poll_write_vectored_def dest: poll_write_events split: if_splits)

lemma from_initialized_view:
  assumes "start \<le> total_len bufs"
  shows "\<exists>v. from_initialized bufs start = Some v \<and> vs_buf v = bufs
     \<and> concat (vs_iter_slice v) = drop start (concat (iter_slice bufs))"
proof -
  obtain j off where l: "locate (iter_slice bufs) 0 start = (j, off)" by force
  show ?thesis using locate_skip [OF _ l] assms l
    by (simp add: from_initialized_def vs_iter_slice_def total_len_def length_concat_iter)
qed

lemma from_initialized_SomeD:
  "from_initialized bufs start = Some v \<Longrightarrow>
     start \<le> total_len bufs \<and> vs_buf v = bufs \<and> concat (vs_iter_slice v) = drop start (concat (iter_slice bufs))"
  using from_initialized_view [of start bufs] by (auto simp: from_initialized_def split: if_splits)

lemma view_events:
  assumes "from_initialized bufs written = Some v" "written < total_len bufs"
    "poll_write_vectored native w (vs_iter_slice v) = (w', Ready r)"
  shows "length (wr_events w') < length (wr_events w)"
proof (rule poll_write_vectored_events [OF _ assms(3)])
  show "concat (vs_iter_slice v) \<noteq> []"
    using from_initialized_SomeD [OF assms(1)] assms(2)
    by (simp add: total_len_def length_concat_iter [symmetric] del: concat_eq_Nil_conv)
qed

text \<open>The result is \<open>None\<close> for the panic of an out-of-range view.  The collection does not
  change, so the length computed before the loop is \<open>total_len bufs\<close> throughout.\<close>

function write_vectored_all_loop ::
  "bool \<Rightarrow> writer \<Rightarrow> iobuf list \<Rightarrow> nat \<Rightarrow> (writer \<times> nat \<times> nat io_result poll) option" where
  "write_vectored_all_loop native w bufs written =
     (if written < total_len bufs then
        (case from_initialized bufs written of
           None \<Rightarrow> None
         | Some v \<Rightarrow>
             (case poll_write_vectored native w (vs_iter_slice v) of
                (w', Pending) \<Rightarrow> Some (w', written, Pending)
              | (w', Ready (Inr n)) \<Rightarrow>
                  if n > total_len bufs - written then Some (w', written, Ready (Inl InvalidData))
                  else if n = 0 then Some (w', written, Ready (Inl WriteZero))
                  else write_vectored_all_loop native w' bufs (written + n)
              | (w', Ready (Inl e)) \<Rightarrow>
                  if e = Interrupted then write_vectored_all_loop native w' bufs written
                  else Some (w', written, Ready (Inl e))))
      else Some (w, written, Ready (Inr written)))"
  by pat_completeness auto
termination
  by (relation "measure (\<lambda>(native, w, bufs, written). length (wr_events w))")
    (auto dest: view_events [OF _ _ sym])

declare write_vectored_all_loop.simps [simp del]

definition write_vectored_all_poll ::
  "bool \<Rightarrow> writer \<Rightarrow> iobuf list \<Rightarrow> nat \<Rightarrow> (writer \<times> nat \<times> nat io_result poll) option" where
  "write_vectored_all_poll native w bufs written =
     (case sum_lengths (iter_slice bufs) of
        Inl e \<Rightarrow> Some (w, written, Ready (Inl e))
      | Inr len \<Rightarrow> write_vectored_all_loop native w bufs written)"

section \<open>Reading exactly\<close>

text \<open>One poll of \<^verbatim>\<open>read_exact\<close>: the views it hands out start at the count read so far.\<close>

definition event_bytes :: "read_event \<Rightarrow> nat" where
  "event_bytes e = (case e of Got bs \<Rightarrow> Suc (length bs) | _ \<Rightarrow> 1)"

definition reader_size :: "read_event list \<Rightarrow> nat" where
  "reader_size es = sum_list (map event_bytes es)"

lemma poll_read_decreases:
  "poll_read es cap = (es', Ready r) \<Longrightarrow> 0 < cap \<Longrightarrow> reader_size es' < reader_size es"
  by (cases "(es, cap)" rule: poll_read.cases) (auto simp: reader_size_def event_bytes_def split: if_splits)

function read_exact_poll ::
  "read_event list \<Rightarrow> iobuf \<Rightarrow> nat \<Rightarrow> (read_event list \<times> iobuf \<times> nat \<times> nat io_result poll) option" where
  "read_exact_poll es b got =
     (let cap = length (as_uninit b) in
      if got < cap then
        (case slice_new b got cap of
           None \<Rightarrow> None
         | Some s \<Rightarrow>
             (case poll_read es (cap - got) of
                (es', Pending) \<Rightarrow> Some (es', b, got, Pending)
              | (es', Ready (Inl e)) \<Rightarrow>
                  if e = Interrupted then read_exact_poll es' b got
                  else Some (es', b, got, Ready (Inl e))
              | (es', Ready (Inr bs)) \<Rightarrow>
                  (case complete_read s bs of
                     None \<Rightarrow> None
                   | Some s' \<Rightarrow>
                       if bs = [] then Some (es', sl_buf s', got, Ready (Inl UnexpectedEof))
                       else case set_len (sl_buf s') (got + length bs) of
                              None \<Rightarrow> None
                            | Some b' \<Rightarrow> read_exact_poll es' b' (got + length bs))))
      else Some (es, b, got, Ready (Inr got)))"
  by pat_completeness auto
termination
  by (relation "measure (\<lambda>(es, b, got). reader_size es)") (auto dest: poll_read_decreases [OF sym])

declare read_exact_poll.simps [simp del]

text \<open>\<^verbatim>\<open>append\<close>: one read into the uninitialized tail.\<close>

definition append_poll ::
  "read_event list \<Rightarrow> iobuf \<Rightarrow> (read_event list \<times> iobuf \<times> nat io_result poll) option" where
  "append_poll es b =
     (if length (as_init b) \<ge> length (as_uninit b) then Some (es, b, Ready (Inr 0))
      else do { spare \<leftarrow> slice_as_uninit (uninit_new b);
                case poll_read es (length spare) of
                  (es', Pending) \<Rightarrow> Some (es', b, Pending)
                | (es', Ready (Inl e)) \<Rightarrow> Some (es', b, Ready (Inl e))
                | (es', Ready (Inr bs)) \<Rightarrow>
                    do { s \<leftarrow> complete_read (uninit_new b) bs;
                         Some (es', sl_buf s, Ready (Inr (length bs))) } })"

section \<open>Typed reads and writes\<close>

text \<open>
  The macro-generated \<^verbatim>\<open>read_u16\<close>, \<^verbatim>\<open>read_u16_le\<close>, ... read exactly the size of the type.  The
  generated \<^verbatim>\<open>write_u16\<close>, \<^verbatim>\<open>write_u16_le\<close>, ... have no value parameter: they write that many zeros.
\<close>

definition read_typed_poll ::
  "read_event list \<Rightarrow> nat \<Rightarrow> (read_event list \<times> u8 list io_result poll) option" where
  "read_typed_poll es size_of =
     (case read_exact_poll es \<lparr>ib_kind = ArrayBuf, ib_mem = replicate size_of 0, ib_len = size_of\<rparr> 0 of
        None \<Rightarrow> None
      | Some (es', b, got, Pending) \<Rightarrow> Some (es', Pending)
      | Some (es', b, got, Ready (Inl e)) \<Rightarrow> Some (es', Ready (Inl e))
      | Some (es', b, got, Ready (Inr n)) \<Rightarrow> Some (es', Ready (Inr (as_init b))))"

definition write_typed_poll :: "writer \<Rightarrow> nat \<Rightarrow> nat \<Rightarrow> writer \<times> nat \<times> nat io_result poll" where
  "write_typed_poll w size_of written = write_all_poll w (replicate size_of 0) written"

section \<open>What the loops guarantee\<close>

fun honest_event :: "write_event \<Rightarrow> bool" where
  "honest_event (Overreports k) = False"
| "honest_event _ = True"

definition honest :: "writer \<Rightarrow> bool" where
  "honest w \<longleftrightarrow> list_all honest_event (wr_events w)"

lemma take_min_length [simp]: "take (min n (length xs)) xs = take n xs"
  by (simp add: min_def)

lemma poll_write_honest:
  assumes "honest w" "poll_write w data = (w', r)"
  shows "honest w' \<and> (\<exists>n. n \<le> length data \<and> wr_out w' = wr_out w @ take n data
      \<and> (case r of Ready (Inr k) \<Rightarrow> k = n | _ \<Rightarrow> n = 0))"
  using assms by (auto simp: honest_def poll_write_def split: list.splits write_event.splits
      intro: exI [of _ 0] exI [of _ "min n (length data)" for n])

lemma take_drop_more:
  assumes "a \<le> b" "b \<le> c"
  shows "take (b - a) (drop a xs) @ take (c - b) (drop b xs) = take (c - a) (drop a xs)"
proof -
  have "take (c - a) (drop a xs) = take ((b - a) + (c - b)) (drop a xs)" using assms by simp
  also have "\<dots> = take (b - a) (drop a xs) @ take (c - b) (drop (b - a) (drop a xs))"
    by (rule take_add)
  finally show ?thesis using assms by simp
qed

lemma write_all_poll_correct:
  "honest w \<Longrightarrow> written \<le> length data \<Longrightarrow> write_all_poll w data written = (w', n, r) \<Longrightarrow>
     honest w' \<and> written \<le> n \<and> n \<le> length data
     \<and> wr_out w' = wr_out w @ take (n - written) (drop written data)
     \<and> (\<forall>k. r = Ready (Inr k) \<longrightarrow> k = length data \<and> n = length data)"
proof (induction w data written rule: write_all_poll.induct)
  case (1 w data written)
  show ?case
  proof (cases "written < length data")
    case False
    then show ?thesis using 1(3-5) by (auto simp: write_all_poll.simps [of w])
  next
    case True
    obtain w1 p where p: "poll_write w (drop written data) = (w1, p)" by force
    note h = poll_write_honest [OF 1(3) p]
    show ?thesis
    proof (cases p)
      case Pending
      then show ?thesis using 1(4,5) True p h by (auto simp: write_all_poll.simps [of w])
    next
      case (Ready x)
      show ?thesis
      proof (cases x)
        case (Inl e)
        show ?thesis
        proof (cases "e = Interrupted")
          case again: True
          then have "write_all_poll w1 data written = (w', n, r)"
            using 1(5) True p Ready Inl by (simp add: write_all_poll.simps [of w])
          then show ?thesis using 1(1) [OF True p [symmetric] Ready Inl again _ 1(4)] h Ready Inl by auto
        next
          case False
          then show ?thesis using 1(4,5) True p h Ready Inl by (auto simp: write_all_poll.simps [of w])
        qed
      next
        case (Inr k)
        have k: "k \<le> length data - written" "wr_out w1 = wr_out w @ take k (drop written data)" "honest w1"
          using h Ready Inr by auto
        show ?thesis
        proof (cases "k = 0")
          case True': True
          then show ?thesis using 1(4,5) True p k Ready Inr by (auto simp: write_all_poll.simps [of w])
        next
          case False
          then have rec: "write_all_poll w1 data (written + k) = (w', n, r)"
            using 1(5) True p Ready Inr by (simp add: write_all_poll.simps [of w])
          have "written + k \<le> length data" using k(1) True by simp
          note ih = 1(2) [OF True p [symmetric] Ready Inr False k(3) this rec]
          then have "wr_out w' = wr_out w @ take (n - written) (drop written data)"
            using k(2) take_drop_more [of written "written + k" n data] by simp
          then show ?thesis using ih by auto
        qed
      qed
    qed
  qed
qed

text \<open>
  \<^verbatim>\<open>write_all\<close> neither loses, repeats nor reorders bytes: after any poll of the future, with
  any pattern of partial writes, interruptions and waits, the sink has received exactly the
  bytes between the old and the new position, and the position never passes the end.  When the
  future succeeds, it reports the full length and the sink has received the whole buffer.
\<close>

theorem write_all_exact:
  assumes "honest w" "written \<le> length data" "write_all_poll w data written = (w', n, r)"
  shows "written \<le> n \<and> n \<le> length data
     \<and> wr_out w' = wr_out w @ take (n - written) (drop written data)
     \<and> (\<forall>k. r = Ready (Inr k) \<longrightarrow> k = length data \<and> wr_out w' = wr_out w @ drop written data)"
  using write_all_poll_correct [OF assms] by auto

lemma write_all_exact_witness:
  "wr_out (fst (write_all_poll \<lparr>wr_events = [Took 2, WFailed Interrupted, Took 5], wr_out = [],
       wr_flushes = 0, wr_shut = False\<rparr> [1, 2, 3] 0)) = [1, 2, 3]"
proof -
  let ?w = "\<lparr>wr_events = [Took 2, WFailed Interrupted, Took 5], wr_out = [], wr_flushes = 0, wr_shut = False\<rparr>"
  have h: "honest ?w" by (simp add: honest_def)
  obtain w' n r where e: "write_all_poll ?w [1, 2, 3] 0 = (w', n, r)" by (metis prod_cases3)
  have "r = Ready (Inr (Suc (Suc (Suc 0))))" using e
    by (auto simp: write_all_poll.simps poll_write_def numeral_2_eq_2)
  then have "wr_out w' = wr_out ?w @ drop 0 [1, 2, 3]" using write_all_exact [OF h le0 e] by blast
  then show ?thesis using e by simp
qed

lemma sum_lengths_acc:
  "foldl (\<lambda>acc x. case acc of Inl e \<Rightarrow> Inl e
              | Inr n \<Rightarrow> (case checked_add n (length x) of None \<Rightarrow> Inl InvalidInput | Some m \<Rightarrow> Inr m))
       (Inr n) (slices :: u8 list list)
     = (if n + length (concat slices) \<le> usize_max \<or> slices = [] then Inr (n + length (concat slices))
        else Inl InvalidInput)"
proof (induction slices arbitrary: n)
  case (Cons x xs)
  have stuck: "foldl (\<lambda>acc x. case acc of Inl e \<Rightarrow> Inl e
      | Inr n \<Rightarrow> (case checked_add n (length x) of None \<Rightarrow> Inl InvalidInput | Some m \<Rightarrow> Inr m))
      (Inl e) ys = Inl e" for e :: io_error and ys :: "u8 list list"
    by (induction ys) auto
  show ?case using Cons [of "n + length x"] stuck [of InvalidInput xs]
    by (auto simp: checked_add_def add.assoc)
qed simp

lemma sum_lengths_total:
  "sum_lengths (iter_slice bufs) =
     (if total_len bufs \<le> usize_max then Inr (total_len bufs) else Inl InvalidInput)"
  unfolding sum_lengths_def sum_lengths_acc [of 0] total_len_def length_concat_iter [symmetric]
  by (cases bufs) (auto simp: iter_slice_def usize_max_def)

lemma offered_prefix: "offered native slices = take (length (offered native slices)) (concat slices)"
proof (cases native)
  case False
  then show ?thesis
  proof (induction slices)
    case (Cons x xs)
    then show ?case by (cases x) (auto simp: offered_def)
  qed (simp add: offered_def)
qed (simp add: offered_def)

lemma poll_write_vectored_honest:
  assumes "honest w" "poll_write_vectored native w slices = (w', r)"
  shows "honest w' \<and> (\<exists>n. n \<le> length (concat slices) \<and> wr_out w' = wr_out w @ take n (concat slices)
      \<and> (case r of Ready (Inr k) \<Rightarrow> k = n | _ \<Rightarrow> n = 0))"
proof (cases "\<not> native \<and> concat slices = []")
  case True
  then show ?thesis using assms by (auto simp: poll_write_vectored_def intro!: exI [of _ 0])
next
  case False
  then have "poll_write w (offered native slices) = (w', r)"
    using assms(2) by (simp add: poll_write_vectored_def del: concat_eq_Nil_conv split: if_splits)
  from poll_write_honest [OF assms(1) this] obtain n where n: "honest w'" "n \<le> length (offered native slices)"
    "wr_out w' = wr_out w @ take n (offered native slices)" "case r of Ready (Inr k) \<Rightarrow> k = n | _ \<Rightarrow> n = 0" by blast
  have len: "length (offered native slices) \<le> length (concat slices)"
    using arg_cong [OF offered_prefix, of length native slices] by (simp add: min_def split: if_splits)
  have "take n (offered native slices) = take n (concat slices)"
    using n(2) by (subst offered_prefix) (simp add: min_def)
  then show ?thesis using n len by (metis order.trans)
qed

lemma write_vectored_all_loop_correct:
  "honest w \<Longrightarrow> written \<le> total_len bufs \<Longrightarrow>
     \<exists>w' n r. write_vectored_all_loop native w bufs written = Some (w', n, r)
       \<and> written \<le> n \<and> n \<le> total_len bufs
       \<and> wr_out w' = wr_out w @ take (n - written) (drop written (concat (iter_slice bufs)))
       \<and> (\<forall>k. r = Ready (Inr k) \<longrightarrow> k = total_len bufs \<and> n = total_len bufs)"
proof (induction native w bufs written rule: write_vectored_all_loop.induct)
  case (1 native w bufs written)
  let ?data = "concat (iter_slice bufs)"
  have total: "length ?data = total_len bufs" by (simp add: total_len_def length_concat_iter)
  show ?case
  proof (cases "written < total_len bufs")
    case False
    then show ?thesis using 1(4) by (subst write_vectored_all_loop.simps) simp
  next
    case True
    obtain v where v: "from_initialized bufs written = Some v" "concat (vs_iter_slice v) = drop written ?data"
      using from_initialized_view [of written bufs] True by auto
    obtain w1 p where p: "poll_write_vectored native w (vs_iter_slice v) = (w1, p)" by force
    have h: "honest w1 \<and> (\<exists>n. n \<le> total_len bufs - written \<and> wr_out w1 = wr_out w @ take n (drop written ?data)
        \<and> (case p of Ready (Inr k) \<Rightarrow> k = n | _ \<Rightarrow> n = 0))"
      using poll_write_vectored_honest [OF 1(3) p] v(2) total by simp
    note unfold = write_vectored_all_loop.simps [of native w bufs written]
    show ?thesis
    proof (cases p)
      case Pending
      then show ?thesis using True v(1) p h by (simp add: unfold)
    next
      case (Ready x)
      show ?thesis
      proof (cases x)
        case (Inl e)
        then show ?thesis using 1(1) [OF True v(1) p [symmetric] Ready Inl] 1(4) True v(1) p h Ready
          by (cases "e = Interrupted") (simp_all add: unfold)
      next
        case (Inr k)
        have k: "k \<le> total_len bufs - written" "wr_out w1 = wr_out w @ take k (drop written ?data)" "honest w1"
          using h Ready Inr by auto
        show ?thesis
        proof (cases "k = 0")
          case zero: True
          then show ?thesis using True v(1) p k Ready Inr by (simp add: unfold)
        next
          case False
          have bound: "written + k \<le> total_len bufs" using k(1) True by simp
          obtain w' n r where ih: "write_vectored_all_loop native w1 bufs (written + k) = Some (w', n, r)"
            "written + k \<le> n" "n \<le> total_len bufs"
            "wr_out w' = wr_out w1 @ take (n - (written + k)) (drop (written + k) ?data)"
            "\<forall>k. r = Ready (Inr k) \<longrightarrow> k = total_len bufs \<and> n = total_len bufs"
            using 1(2) [OF True v(1) p [symmetric] Ready Inr _ False k(3) bound] k(1) by auto
          have "wr_out w' = wr_out w @ take (n - written) (drop written ?data)"
            using ih(2,4) k(2) take_drop_more [of written "written + k" n ?data] by simp
          then show ?thesis using ih True v(1) p k(1) Ready Inr False by (simp add: unfold)
        qed
      qed
    qed
  qed
qed

text \<open>
  \<^verbatim>\<open>write_vectored_all\<close> writes the concatenation of its components: over a writer that keeps
  its contract it never panics, whether the writer gathers natively or falls back to the first
  non-empty component; after every poll the sink has received exactly the bytes up to the new
  position, across component boundaries; success reports the total length with every byte
  written.  A collection longer than the address space is refused before anything is written.
\<close>

theorem write_vectored_all_exact:
  assumes "honest w" "written \<le> total_len bufs"
  shows "\<exists>w' n r. write_vectored_all_poll native w bufs written = Some (w', n, r)
     \<and> (if total_len bufs \<le> usize_max
        then written \<le> n \<and> n \<le> total_len bufs
          \<and> wr_out w' = wr_out w @ take (n - written) (drop written (concat (iter_slice bufs)))
          \<and> (\<forall>k. r = Ready (Inr k) \<longrightarrow> k = total_len bufs
               \<and> wr_out w' = wr_out w @ drop written (concat (iter_slice bufs)))
        else r = Ready (Inl InvalidInput) \<and> w' = w)"
proof (cases "total_len bufs \<le> usize_max")
  case True
  have "length (concat (iter_slice bufs)) = total_len bufs" by (simp add: total_len_def length_concat_iter)
  then show ?thesis
    using True write_vectored_all_loop_correct [OF assms, of native]
    by (auto simp: write_vectored_all_poll_def sum_lengths_total)
qed (simp add: write_vectored_all_poll_def sum_lengths_total)

lemma write_vectored_all_exact_witness:
  "\<exists>w' n r. write_vectored_all_poll False
      \<lparr>wr_events = [Took 1, Took 9, Took 9], wr_out = [], wr_flushes = 0, wr_shut = False\<rparr>
      [vec_from 64 [1, 2], vec_from 64 [3]] 0 = Some (w', n, r) \<and> n \<le> 3"
  using write_vectored_all_exact [of "\<lparr>wr_events = [Took 1, Took 9, Took 9], wr_out = [], wr_flushes = 0,
      wr_shut = False\<rparr>" 0 "[vec_from 64 [1, 2], vec_from 64 [3]]" False]
  by (auto simp: honest_def total_len_def iter_slice_def as_init_def vec_from_def usize_max_def)

fun script_bytes :: "read_event list \<Rightarrow> u8 list" where
  "script_bytes [] = []"
| "script_bytes (Got bs # es) = bs @ script_bytes es"
| "script_bytes (_ # es) = script_bytes es"

lemma poll_read_bytes:
  "poll_read es cap = (es', r) \<Longrightarrow>
     (case r of Ready (Inr bs) \<Rightarrow> length bs \<le> cap \<and> script_bytes es = bs @ script_bytes es'
      | _ \<Rightarrow> script_bytes es = script_bytes es')"
  by (cases "(es, cap)" rule: poll_read.cases) (auto split: if_splits)

lemma complete_read_at_len:
  assumes "movable b" "ib_len b + length bs \<le> length (ib_mem b)"
  shows "\<exists>b'. complete_read (new_unchecked b (ib_len b) e) bs = Some (new_unchecked b' (ib_len b) e)
    \<and> movable b' \<and> as_init b' = as_init b @ bs \<and> ib_len b' = ib_len b + length bs
    \<and> length (ib_mem b') = length (ib_mem b) \<and> set_len b' (ib_len b') = Some b'"
proof -
  have wf: "ib_wf b" "ib_kind b \<noteq> ArrayBuf" using assms(1) by (simp_all add: movable_def)
  let ?b = "b\<lparr>ib_mem := write_at (ib_len b) bs (ib_mem b), ib_len := ib_len b + length bs\<rparr>"
  have "ib_len b + length bs \<le> usize_max" using wf(1) assms(2)
    by (simp add: ib_wf_def isize_max_def usize_max_def)
  moreover have "set_len (b\<lparr>ib_mem := write_at (ib_len b) bs (ib_mem b)\<rparr>) (ib_len b + length bs) = Some ?b"
    using wf assms(2) by (subst set_len_movable) simp_all
  ultimately have c: "complete_read (new_unchecked b (ib_len b) e) bs = Some (new_unchecked ?b (ib_len b) e)"
    by (simp add: complete_read_def slice_set_len_def new_unchecked_def checked_add_def)
  have "movable ?b" "as_init ?b = as_init b @ bs" "length (ib_mem ?b) = length (ib_mem b)"
    using wf assms(2) ib_wf_bounds [OF wf(1)] by (auto simp: movable_def ib_wf_def as_init_def)
  moreover have "set_len ?b (ib_len ?b) = Some ?b"
    using wf assms(2) by (subst set_len_movable) simp_all
  ultimately show ?thesis using c by (intro exI [of _ ?b]) auto
qed

lemma read_exact_poll_correct:
  "movable b \<Longrightarrow> ib_len b = got \<Longrightarrow>
     \<exists>es' b' n r bs. read_exact_poll es b got = Some (es', b', n, r) \<and> movable b'
       \<and> length (ib_mem b') = length (ib_mem b) \<and> script_bytes es = bs @ script_bytes es'
       \<and> as_init b' = as_init b @ bs \<and> n = got + length bs \<and> ib_len b' = n
       \<and> (\<forall>k. r = Ready (Inr k) \<longrightarrow> k = length (ib_mem b) \<and> n = k)"
proof (induction es b got rule: read_exact_poll.induct)
  case (1 es b got)
  have wf: "ib_wf b" "ib_len b \<le> length (ib_mem b)" using 1(3) by (auto simp: movable_def ib_wf_def)
  note unfold = read_exact_poll.simps [of es b got]
  let ?cap = "length (as_uninit b)"
  have cap: "?cap = length (ib_mem b)" by (simp add: as_uninit_def)
  show ?case
  proof (cases "got < ?cap")
    case False
    then have "read_exact_poll es b got = Some (es, b, got, Ready (Inr got))"
      by (simp add: unfold Let_def)
    moreover have "got = length (ib_mem b)" using False wf(2) cap 1(4) by simp
    ultimately show ?thesis using 1(3,4) by auto
  next
    case True
    let ?s = "new_unchecked b got (Some ?cap)"
    have s: "slice_new b got ?cap = Some ?s"
      using True 1(4) wf by (simp add: slice_new_def buf_len_def)
    obtain es1 p where p: "poll_read es (?cap - got) = (es1, p)" by force
    note pb = poll_read_bytes [OF p]
    show ?thesis
    proof (cases p)
      case Pending
      then show ?thesis using 1(3,4) True s p pb by (simp add: unfold Let_def)
    next
      case (Ready x)
      show ?thesis
      proof (cases x)
        case (Inl e)
        then show ?thesis using 1(1) [OF refl True s p [symmetric] Ready Inl] 1(3,4) True s p pb Ready
          by (cases "e = Interrupted") (simp_all add: unfold Let_def)
      next
        case (Inr bs)
        have fit: "ib_len b + length bs \<le> length (ib_mem b)" using pb Ready Inr 1(4) True cap by auto
        obtain b' where b': "complete_read ?s bs = Some (new_unchecked b' got (Some ?cap))" "movable b'"
          "as_init b' = as_init b @ bs" "ib_len b' = got + length bs" "length (ib_mem b') = length (ib_mem b)"
          "set_len b' (got + length bs) = Some b'"
          using complete_read_at_len [OF 1(3) fit, of "Some ?cap"] 1(4) by auto
        show ?thesis
        proof (cases "bs = []")
          case eof: True
          then show ?thesis using True s p pb Ready Inr b' by (simp add: unfold Let_def new_unchecked_def)
        next
          case False
          have set: "set_len (sl_buf (new_unchecked b' got (Some ?cap))) (got + length bs) = Some b'"
            using b'(6) by (simp add: new_unchecked_def)
          obtain es' b'' n r bs' where ih: "read_exact_poll es1 b' (got + length bs) = Some (es', b'', n, r)"
            "movable b''" "length (ib_mem b'') = length (ib_mem b')" "script_bytes es1 = bs' @ script_bytes es'"
            "as_init b'' = as_init b' @ bs'" "n = got + length bs + length bs'" "ib_len b'' = n"
            "\<forall>k. r = Ready (Inr k) \<longrightarrow> k = length (ib_mem b') \<and> n = k"
            using 1(2) [OF refl True s p [symmetric] Ready Inr b'(1) False set b'(2,4)] by blast
          have "read_exact_poll es b got = Some (es', b'', n, r)"
            using True s p Ready Inr b'(1) False set ih(1) by (simp add: unfold Let_def)
          then show ?thesis using ih b' pb Ready Inr by auto
        qed
      qed
    qed
  qed
qed

text \<open>
  \<^verbatim>\<open>read_exact\<close> into an empty buffer: every poll leaves in the buffer exactly the bytes taken
  from the stream, in order; success means that the buffer is full to its capacity; and when it
  stops early - a wait, an error, or \<^verbatim>\<open>UnexpectedEof\<close> at the end of the stream - no byte taken
  from the stream is lost.
\<close>

theorem read_exact_exact:
  assumes "movable b" "ib_len b = 0"
  shows "\<exists>es' b' n r. read_exact_poll es b 0 = Some (es', b', n, r)
     \<and> script_bytes es = as_init b' @ script_bytes es'
     \<and> (\<forall>k. r = Ready (Inr k) \<longrightarrow> k = buf_capacity b \<and> buf_len b' = k)"
proof -
  obtain es' b' n r bs where r: "read_exact_poll es b 0 = Some (es', b', n, r)" "movable b'"
    "length (ib_mem b') = length (ib_mem b)" "script_bytes es = bs @ script_bytes es'"
    "as_init b' = as_init b @ bs" "ib_len b' = n"
    "\<forall>k. r = Ready (Inr k) \<longrightarrow> k = length (ib_mem b) \<and> n = k"
    using read_exact_poll_correct [OF assms, of es] by blast
  have "as_init b' = bs" using assms(2) r(5) by (simp add: as_init_def)
  moreover have "buf_len b' = n" using r(2,6) by (simp add: buf_len_def movable_def)
  ultimately have "script_bytes es = as_init b' @ script_bytes es'
      \<and> (\<forall>k. r = Ready (Inr k) \<longrightarrow> k = buf_capacity b \<and> buf_len b' = k)"
    using r(4,7) by (simp add: buf_capacity_def as_uninit_def)
  then show ?thesis using r(1) by blast
qed

lemma read_exact_exact_witness:
  "\<exists>es' b' n r. read_exact_poll [Got [1], Blocked, Got [2, 3]] (vec_with_capacity 64 2) 0 = Some (es', b', n, r)"
  using read_exact_exact [of "vec_with_capacity 64 2" "[Got [1], Blocked, Got [2, 3]]"]
  by (auto simp: movable_def ib_wf_def vec_with_capacity_def isize_max_def)

text \<open>
  The typed writers carry no value.  Whatever number the caller has in mind, \<^verbatim>\<open>write_u16\<close>
  and its siblings in both byte orders can only put zero bytes on the wire: a successful call
  has written exactly \<open>size_of\<close> zeros.
\<close>

theorem write_typed_writes_zeros:
  assumes "honest w" "write_typed_poll w size_of 0 = (w', n, Ready (Inr k))"
  shows "k = size_of \<and> wr_out w' = wr_out w @ replicate size_of 0"
  using write_all_poll_correct [OF assms(1), of 0 "replicate size_of 0" w' n "Ready (Inr k)"] assms(2)
  by (simp add: write_typed_poll_def)

lemma write_typed_writes_zeros_witness:
  "\<exists>w'. write_typed_poll \<lparr>wr_events = [Took 2], wr_out = [], wr_flushes = 0, wr_shut = False\<rparr> 2 0
      = (w', 2, Ready (Inr 2)) \<and> wr_out w' = [0, 0]"
proof -
  let ?w = "\<lparr>wr_events = [Took 2], wr_out = [], wr_flushes = 0, wr_shut = False\<rparr>"
  obtain w' n r where e: "write_typed_poll ?w 2 0 = (w', n, r)" by (metis prod_cases3)
  then have "r = Ready (Inr 2)" "n = 2"
    by (auto simp: write_typed_poll_def write_all_poll.simps poll_write_def)
  then show ?thesis
    using write_typed_writes_zeros [of ?w 2 w' 2 2] e by (simp add: honest_def numeral_2_eq_2)
qed

end
