(* ===== verification/Framed_Read.thy ===== *)
theory Framed_Read
  imports Framing Transport
begin

text \<open>
  The framed reader (\<^verbatim>\<open>karmaio/src/io/framed/buffer.rs\<close>, \<^verbatim>\<open>framed_read.rs\<close>, \<^verbatim>\<open>codec.rs\<close>): the
  cursor over the read buffer, the retained read and the decoding state machine.

  The transport is the environment's script of theory \<^verbatim>\<open>Transport\<close>.  Since the in-flight read
  lives in the adapter, polling a suspended \<^verbatim>\<open>next\<close> again and dropping it and calling \<^verbatim>\<open>next\<close>
  anew run the same code from the same state, so both are one more call of \<open>next_item\<close> here.
\<close>

section \<open>The read buffer\<close>

definition DEFAULT_RESERVE :: nat where "DEFAULT_RESERVE = 16"

type_synonym read_buffer = "iobuf slice option"

definition rb_new_with :: "iobuf \<Rightarrow> read_buffer option" where
  "rb_new_with b = map_option Some (slice_new b 0 (max (length (as_uninit b)) (length (as_init b))))"

definition rb_new :: "nat \<Rightarrow> read_buffer option" where
  "rb_new limit = rb_new_with (vec_with_capacity limit 0)"

definition rb_with_capacity :: "nat \<Rightarrow> nat \<Rightarrow> read_buffer option" where
  "rb_with_capacity limit cap = rb_new_with (vec_with_capacity limit cap)"

definition rb_pending :: "read_buffer \<Rightarrow> iobuf slice option" where
  "rb_pending rb = rb"

definition rb_is_empty :: "read_buffer \<Rightarrow> bool option" where
  "rb_is_empty rb = do { s \<leftarrow> rb_pending rb; bytes \<leftarrow> slice_as_init s; Some (bytes = []) }"

definition rb_take_inner :: "read_buffer \<Rightarrow> (iobuf slice \<times> read_buffer) option" where
  "rb_take_inner rb = map_option (\<lambda>s. (s, None)) rb"

definition rb_restore_inner :: "read_buffer \<Rightarrow> iobuf slice \<Rightarrow> read_buffer option" where
  "rb_restore_inner rb s = (if rb = None then Some (Some s) else None)"

definition rb_restore_from_parts :: "read_buffer \<Rightarrow> iobuf \<Rightarrow> nat \<Rightarrow> read_buffer option" where
  "rb_restore_from_parts rb b start =
     (let init = length (as_init b) in
      do { s \<leftarrow> slice_new b (min start init) (max (length (as_uninit b)) init);
           rb_restore_inner rb s })"

definition rb_reserve :: "read_buffer \<Rightarrow> nat \<Rightarrow> (read_buffer \<times> unit io_result) option" where
  "rb_reserve rb additional =
     do { (s, rb) \<leftarrow> rb_take_inner rb;
          let start = sl_start s; b = sl_buf s;
              spare = length (as_uninit b) - length (as_init b) in
          case (if spare < additional then buf_reserve b additional else Inr b) of
            Inl e \<Rightarrow> do { rb \<leftarrow> rb_restore_from_parts rb b start; Some (rb, Inl e) }
          | Inr b \<Rightarrow> do { rb \<leftarrow> rb_restore_from_parts rb b start; Some (rb, Inr ()) } }"

definition rb_compact :: "iobuf \<Rightarrow> nat \<Rightarrow> (iobuf \<times> nat) option" where
  "rb_compact b pending_start =
     (let init = length (as_init b) in
      if pending_start > 0 \<and> pending_start \<ge> init div 2 then
        if pending_start < init then
          do { b \<leftarrow> copy_within b pending_start init 0;
               b \<leftarrow> buf_truncate b (init - pending_start);
               Some (b, 0) }
        else do { b \<leftarrow> buf_clear b; Some (b, 0) }
      else Some (b, pending_start))"

definition rb_prepare_fill :: "read_buffer \<Rightarrow> (read_buffer \<times> (nat \<times> iobuf slice) io_result) option" where
  "rb_prepare_fill rb =
     do { (s, rb) \<leftarrow> rb_take_inner rb;
          (b, pending_start) \<leftarrow> rb_compact (sl_buf s) (sl_start s);
          rb \<leftarrow> rb_restore_from_parts rb b pending_start;
          (rb, r) \<leftarrow> rb_reserve rb DEFAULT_RESERVE;
          case r of
            Inl e \<Rightarrow> Some (rb, Inl e)
          | Inr _ \<Rightarrow>
              do { (s, rb) \<leftarrow> rb_take_inner rb;
                   let b = sl_buf s; init = length (as_init b) in
                   do { fill \<leftarrow> slice_new b init (max (length (as_uninit b)) init);
                        Some (rb, Inr (sl_start s, fill)) } } }"

definition rb_finish_fill :: "read_buffer \<Rightarrow> iobuf slice \<Rightarrow> nat \<Rightarrow> read_buffer option" where
  "rb_finish_fill rb fill pending_start = rb_restore_from_parts rb (sl_buf fill) pending_start"

definition rb_into_parts :: "read_buffer \<Rightarrow> (iobuf \<times> nat \<times> nat) option" where
  "rb_into_parts rb =
     do { (s, rb) \<leftarrow> rb_take_inner rb; Some (sl_buf s, sl_start s, length (as_init (sl_buf s))) }"

definition rb_from_parts :: "iobuf \<Rightarrow> nat \<Rightarrow> nat \<Rightarrow> (read_buffer io_result) option" where
  "rb_from_parts b start stop =
     (let initialized = length (as_init b) in
      if start > stop \<or> stop \<noteq> initialized then Some (Inl InvalidInput)
      else do { s \<leftarrow> slice_new b start (max (length (as_uninit b)) initialized);
                Some (Inr (Some s)) })"

section \<open>Codecs\<close>

record ('c, 'i, 'e) decoder =
  decode :: "'c \<Rightarrow> u8 list \<Rightarrow> 'c \<times> ('e + 'i)"
  decode_eof :: "'c \<Rightarrow> u8 list \<Rightarrow> 'c \<times> ('e + 'i option)"
  from_io :: "io_error \<Rightarrow> 'e"

definition default_decode_eof ::
  "('c \<Rightarrow> u8 list \<Rightarrow> 'c \<times> ('e + 'i)) \<Rightarrow> 'c \<Rightarrow> u8 list \<Rightarrow> 'c \<times> ('e + 'i option)" where
  "default_decode_eof dec c bytes =
     (if bytes = [] then (c, Inr None)
      else case dec c bytes of (c', Inl e) \<Rightarrow> (c', Inl e) | (c', Inr i) \<Rightarrow> (c', Inr (Some i)))"

definition bytes_decode :: "unit \<Rightarrow> u8 list \<Rightarrow> unit \<times> (io_error + u8 list)" where
  "bytes_decode c bytes = (c, Inr bytes)"

definition bytes_codec :: "(unit, u8 list, io_error) decoder" where
  "bytes_codec = \<lparr>decode = bytes_decode, decode_eof = default_decode_eof bytes_decode, from_io = (\<lambda>e. e)\<rparr>"

definition bytes_encode :: "iobuf \<Rightarrow> u8 list \<Rightarrow> (iobuf \<times> unit io_result) option" where
  "bytes_encode b item = append_bytes b item"

section \<open>The reader\<close>

text \<open>\<open>Reading\<close> is the retained future: it owns the transport, the view being filled, the emptied
  read buffer and the cursor to restore.\<close>

datatype read_io_state =
    RIdle "read_event list" read_buffer
  | Reading "read_event list" "iobuf slice" read_buffer nat
  | RTransitioning

fun is_reading :: "read_io_state \<Rightarrow> bool" where
  "is_reading (Reading _ _ _ _) = True"
| "is_reading _ = False"

fun rio_buffer :: "read_io_state \<Rightarrow> read_buffer option" where
  "rio_buffer (RIdle _ rb) = Some rb"
| "rio_buffer _ = None"

fun rio_io :: "read_io_state \<Rightarrow> read_event list option" where
  "rio_io (RIdle io _) = Some io"
| "rio_io _ = None"

datatype decode_state = Framing | Pausing | Paused | Errored

record 'c framed_read =
  fd_codec :: 'c
  fd_framer :: framer
  fd_read :: read_io_state
  fd_state :: decode_state

definition framed_read_with_buffer ::
  "read_event list \<Rightarrow> 'c \<Rightarrow> framer \<Rightarrow> iobuf \<Rightarrow> 'c framed_read option" where
  "framed_read_with_buffer io c f b =
     do { rb \<leftarrow> rb_new_with b;
          Some \<lparr>fd_codec = c, fd_framer = f, fd_read = RIdle io rb, fd_state = Framing\<rparr> }"

definition settle_read :: "read_io_state \<Rightarrow> (read_io_state \<times> nat io_result option poll) option" where
  "settle_read st =
     (case st of
        Reading io fill rb pending_start \<Rightarrow>
          do { spare \<leftarrow> slice_as_uninit fill;
               case poll_read io (length spare) of
                 (io', Pending) \<Rightarrow> Some (Reading io' fill rb pending_start, Pending)
               | (io', Ready (Inl e)) \<Rightarrow>
                   do { rb' \<leftarrow> rb_finish_fill rb fill pending_start;
                        Some (RIdle io' rb', Ready (Some (Inl e))) }
               | (io', Ready (Inr bs)) \<Rightarrow>
                   do { fill' \<leftarrow> complete_read fill bs;
                        rb' \<leftarrow> rb_finish_fill rb fill' pending_start;
                        Some (RIdle io' rb', Ready (Some (Inr (length bs)))) } }
      | RIdle _ _ \<Rightarrow> Some (st, Ready None)
      | RTransitioning \<Rightarrow> None)"

definition fill_read :: "read_io_state \<Rightarrow> (read_io_state \<times> nat io_result poll) option" where
  "fill_read st =
     do { (st, settled) \<leftarrow> settle_read st;
          case settled of
            Pending \<Rightarrow> Some (st, Pending)
          | Ready (Some r) \<Rightarrow> Some (st, Ready r)
          | Ready None \<Rightarrow>
              (case st of
                 RIdle io rb \<Rightarrow>
                   do { (rb, r) \<leftarrow> rb_prepare_fill rb;
                        case r of
                          Inl e \<Rightarrow> Some (RIdle io rb, Ready (Inl e))
                        | Inr (pending_start, fill) \<Rightarrow>
                            do { (st, settled) \<leftarrow> settle_read (Reading io fill rb pending_start);
                                 case settled of
                                   Pending \<Rightarrow> Some (st, Pending)
                                 | Ready (Some r) \<Rightarrow> Some (st, Ready r)
                                 | Ready None \<Rightarrow> None } }
               | _ \<Rightarrow> None) }"

definition decode_frame ::
  "('c, 'i, 'e) decoder \<Rightarrow> 'c framed_read \<Rightarrow> frame option \<Rightarrow> bool
     \<Rightarrow> ('c framed_read \<times> ('e + 'i option)) option" where
  "decode_frame D fd fr at_eof =
     (case fr of
        None \<Rightarrow> Some (fd, Inr None)
      | Some fr \<Rightarrow>
          (case fd_read fd of
             RIdle io rb \<Rightarrow>
               do { s \<leftarrow> rb_pending rb;
                    bytes \<leftarrow> slice_as_init s;
                    case checked_bounds fr (length bytes) of
                      Inl e \<Rightarrow> Some (fd, Inl (from_io D e))
                    | Inr ((p_start, p_end), flen) \<Rightarrow>
                        (case (checked_add (sl_start s) p_start, checked_add (sl_start s) p_end,
                               checked_add (sl_start s) flen) of
                           (Some abs_prefix, Some abs_payload_end, Some frame_end) \<Rightarrow>
                             do { (s, rb) \<leftarrow> rb_take_inner rb;
                                  payload \<leftarrow> slice_new (sl_buf s) abs_prefix abs_payload_end;
                                  view \<leftarrow> slice_as_init payload;
                                  let (c', decoded) =
                                    (if at_eof then decode_eof D (fd_codec fd) view
                                     else case decode D (fd_codec fd) view of
                                            (c, Inl e) \<Rightarrow> (c, Inl e) | (c, Inr i) \<Rightarrow> (c, Inr (Some i)));
                                  rb \<leftarrow> rb_restore_from_parts rb (sl_buf payload) frame_end;
                                  Some (fd\<lparr>fd_codec := c', fd_read := RIdle io rb\<rparr>, decoded) }
                         | _ \<Rightarrow> Some (fd, Inl (from_io D InvalidData))) }
           | _ \<Rightarrow> None))"

definition pending_bytes :: "'c framed_read \<Rightarrow> u8 list option" where
  "pending_bytes fd = do { rb \<leftarrow> rio_buffer (fd_read fd); s \<leftarrow> rb_pending rb; slice_as_init s }"

definition try_decode ::
  "('c, 'i, 'e) decoder \<Rightarrow> 'c framed_read \<Rightarrow> ('c framed_read \<times> ('e + 'i option)) option" where
  "try_decode D fd =
     do { bytes \<leftarrow> pending_bytes fd;
          let (f', r) = framer_extract (fd_framer fd) bytes; let fd = fd\<lparr>fd_framer := f'\<rparr>;
          case r of
            Inl e \<Rightarrow> Some (fd, Inl (from_io D e))
          | Inr fr \<Rightarrow> decode_frame D fd fr False }"

definition buffer_non_empty :: "'c framed_read \<Rightarrow> bool option" where
  "buffer_non_empty fd =
     (case rio_buffer (fd_read fd) of
        None \<Rightarrow> Some False
      | Some rb \<Rightarrow> map_option Not (rb_is_empty rb))"

definition try_decode_eof ::
  "('c, 'i, 'e) decoder \<Rightarrow> 'c framed_read \<Rightarrow> ('c framed_read \<times> ('e + 'i option)) option" where
  "try_decode_eof D fd =
     do { ne \<leftarrow> buffer_non_empty fd;
          (fd, r) \<leftarrow> (if ne then try_decode D fd else Some (fd, Inr None));
          case r of
            Inl e \<Rightarrow> Some (fd, Inl e)
          | Inr (Some i) \<Rightarrow> Some (fd, Inr (Some i))
          | Inr None \<Rightarrow>
              do { bytes \<leftarrow> pending_bytes fd;
                   let (f', r) = framer_extract_eof (fd_framer fd) bytes; let fd = fd\<lparr>fd_framer := f'\<rparr>;
                   case r of
                     Inl e \<Rightarrow> Some (fd, Inl (from_io D e))
                   | Inr fr \<Rightarrow> decode_frame D fd fr True } }"

subsection \<open>The decoding loop\<close>

text \<open>One iteration of the loop in \<^verbatim>\<open>next_item\<close>: \<open>None\<close> in the second component goes round again.\<close>

type_synonym ('i, 'e) next_result = "('e + 'i) option poll"

definition next_fill ::
  "('c, 'i, 'e) decoder \<Rightarrow> decode_state \<Rightarrow> decode_state \<Rightarrow> ('i, 'e) next_result option \<Rightarrow> 'c framed_read
     \<Rightarrow> ('c framed_read \<times> ('i, 'e) next_result option) option" where
  "next_fill D on_eof on_data eof_result fd =
     do { (rd, filled) \<leftarrow> fill_read (fd_read fd);
          let fd = fd\<lparr>fd_read := rd\<rparr>;
          Some (case filled of
                  Pending \<Rightarrow> (fd, Some Pending)
                | Ready (Inr n) \<Rightarrow>
                    if n = 0 then (fd\<lparr>fd_state := on_eof\<rparr>, eof_result)
                    else (fd\<lparr>fd_state := on_data\<rparr>, None)
                | Ready (Inl e) \<Rightarrow>
                    (fd\<lparr>fd_state := Errored\<rparr>, Some (Ready (Some (Inl (from_io D e)))))) }"

definition next_step ::
  "('c, 'i, 'e) decoder \<Rightarrow> 'c framed_read
     \<Rightarrow> ('c framed_read \<times> ('i, 'e) next_result option) option" where
  "next_step D fd =
     (case fd_state fd of
        Errored \<Rightarrow> Some (fd, Some (Ready None))
      | Paused \<Rightarrow> next_fill D Paused Framing (Some (Ready None)) fd
      | Pausing \<Rightarrow>
          do { (fd, r) \<leftarrow> try_decode_eof D fd;
               Some (case r of
                       Inr (Some i) \<Rightarrow> (fd, Some (Ready (Some (Inr i))))
                     | Inr None \<Rightarrow> (fd\<lparr>fd_state := Paused\<rparr>, Some (Ready None))
                     | Inl e \<Rightarrow> (fd\<lparr>fd_state := Errored\<rparr>, Some (Ready (Some (Inl e))))) }
      | Framing \<Rightarrow>
          do { ne \<leftarrow> buffer_non_empty fd;
               (fd, r) \<leftarrow> (if ne then try_decode D fd else Some (fd, Inr None));
               case r of
                 Inr (Some i) \<Rightarrow> Some (fd, Some (Ready (Some (Inr i))))
               | Inl e \<Rightarrow> Some (fd\<lparr>fd_state := Errored\<rparr>, Some (Ready (Some (Inl e))))
               | Inr None \<Rightarrow> next_fill D Pausing Framing None fd })"

fun event_size :: "read_event \<Rightarrow> nat" where
  "event_size (Got bs) = Suc (length bs)"
| "event_size _ = 1"

fun rio_script :: "read_io_state \<Rightarrow> read_event list" where
  "rio_script (RIdle io rb) = io"
| "rio_script (Reading io fill rb n) = io"
| "rio_script RTransitioning = []"

definition rio_size :: "read_io_state \<Rightarrow> nat" where
  "rio_size st = sum_list (map event_size (rio_script st))"

lemma poll_read_size:
  "poll_read es cap = (es', r) \<Longrightarrow>
     sum_list (map event_size es') \<le> sum_list (map event_size es)
     \<and> (\<forall>bs. r = Ready (Inr bs) \<and> bs \<noteq> [] \<longrightarrow>
           sum_list (map event_size es') < sum_list (map event_size es))"
  by (cases "(es, cap)" rule: poll_read.cases) (auto split: if_splits)

lemma settle_read_size:
  assumes "settle_read st = Some (st', r)"
  shows "rio_size st' \<le> rio_size st \<and> (\<forall>n. r = Ready (Some (Inr n)) \<and> 0 < n \<longrightarrow> rio_size st' < rio_size st)"
proof (cases st)
  case (Reading io fill rb ps)
  obtain u where u: "slice_as_uninit fill = Some u"
    using assms Reading by (cases "slice_as_uninit fill") (auto simp: settle_read_def)
  obtain io' p where p: "poll_read io (length u) = (io', p)" by force
  have "rio_script st' = io'" using assms Reading u p
    by (auto simp: settle_read_def split: poll.splits sum.splits bind_splits)
  moreover have "\<exists>bs. p = Ready (Inr bs) \<and> length bs = n" if "r = Ready (Some (Inr n))" for n
    using assms Reading u p that
    by (auto simp: settle_read_def split: poll.splits sum.splits bind_splits)
  ultimately show ?thesis using poll_read_size [OF p] Reading by (fastforce simp: rio_size_def)
qed (use assms in \<open>auto simp: settle_read_def\<close>)

lemma fill_read_size:
  assumes "fill_read st = Some (st', r)"
  shows "rio_size st' \<le> rio_size st \<and> (\<forall>n. r = Ready (Inr n) \<and> 0 < n \<longrightarrow> rio_size st' < rio_size st)"
proof -
  obtain st1 r1 where s1: "settle_read st = Some (st1, r1)"
    using assms by (cases "settle_read st") (auto simp: fill_read_def)
  note z = settle_read_size [OF s1]
  show ?thesis
  proof (cases "r1 = Ready None")
    case False
    then consider "r1 = Pending" | q where "r1 = Ready (Some q)" by (metis option.exhaust poll.exhaust)
    then have "st' = st1 \<and> (\<forall>n. r = Ready (Inr n) \<longrightarrow> r1 = Ready (Some (Inr n)))"
      using assms s1 by cases (auto simp: fill_read_def)
    then show ?thesis using z by simp
  next
    case True
    then obtain io rb where st1: "st1 = RIdle io rb"
      using assms s1 by (cases st1) (auto simp: fill_read_def)
    obtain rb' pr where pr: "rb_prepare_fill rb = Some (rb', pr)"
      using assms s1 True st1 by (cases "rb_prepare_fill rb") (auto simp: fill_read_def)
    show ?thesis
    proof (cases pr)
      case (Inl e)
      then show ?thesis using assms s1 True st1 pr z by (auto simp: fill_read_def rio_size_def)
    next
      case (Inr q)
      obtain ps fill where q: "q = (ps, fill)" by force
      obtain st2 r2 where s2: "settle_read (Reading io fill rb' ps) = Some (st2, r2)"
        using assms s1 True st1 pr Inr q
        by (cases "settle_read (Reading io fill rb' ps)") (auto simp: fill_read_def)
      consider "r2 = Pending" | "r2 = Ready None" | q where "r2 = Ready (Some q)"
        by (metis option.exhaust poll.exhaust)
      then have "st' = st2 \<and> (\<forall>n. r = Ready (Inr n) \<longrightarrow> r2 = Ready (Some (Inr n)))"
        using assms s1 True st1 pr Inr q s2 by cases (auto simp: fill_read_def)
      moreover have "rio_size (Reading io fill rb' ps) \<le> rio_size st"
        using conjunct1 [OF z] st1 by (simp add: rio_size_def)
      ultimately show ?thesis using settle_read_size [OF s2] by (metis le_trans less_le_trans)
    qed
  qed
qed

lemma decode_frame_frame:
  "decode_frame D fd fr eof = Some (fd', r) \<Longrightarrow>
     rio_size (fd_read fd') = rio_size (fd_read fd) \<and> fd_state fd' = fd_state fd \<and> fd_framer fd' = fd_framer fd"
  by (auto simp: decode_frame_def rio_size_def Let_def
      split: option.splits read_io_state.splits sum.splits bind_splits prod.splits)

lemma try_decode_frame:
  "try_decode D fd = Some (fd', r) \<Longrightarrow>
     rio_size (fd_read fd') = rio_size (fd_read fd) \<and> fd_state fd' = fd_state fd"
  by (auto simp: try_decode_def Let_def split: bind_splits prod.splits sum.splits dest!: decode_frame_frame)

definition loop_measure :: "'c framed_read \<Rightarrow> nat" where
  "loop_measure fd = 2 * rio_size (fd_read fd) + (if fd_state fd = Framing then 1 else 0)"

lemma next_fill_decreases:
  assumes "next_fill D on_eof Framing er fd = Some (fd', None)" "er = None \<Longrightarrow> on_eof = Pausing"
    "fd_state fd = Framing \<or> er \<noteq> None"
  shows "loop_measure fd' < loop_measure fd"
proof -
  obtain rd filled where f: "fill_read (fd_read fd) = Some (rd, filled)"
    using assms(1) by (cases "fill_read (fd_read fd)") (auto simp: next_fill_def)
  then show ?thesis
    using fill_read_size [OF f] assms
    by (auto simp: next_fill_def loop_measure_def Let_def split: poll.splits sum.splits if_splits)
qed

lemma next_step_decreases:
  assumes "next_step D fd = Some (fd', None)"
  shows "loop_measure fd' < loop_measure fd"
proof (cases "fd_state fd")
  case Framing
  show ?thesis
  proof (cases "buffer_non_empty fd")
    case None
    then show ?thesis using assms Framing by (simp add: next_step_def)
  next
    case (Some ne)
    then obtain fd1 r where t: "(if ne then try_decode D fd else Some (fd, Inr None)) = Some (fd1, r)"
      using assms Framing by (auto simp: next_step_def split: bind_splits)
    then have "loop_measure fd1 = loop_measure fd \<and> fd_state fd1 = Framing"
      using Framing try_decode_frame [of D fd fd1 r] by (auto simp: loop_measure_def split: if_splits)
    moreover have "next_fill D Pausing Framing None fd1 = Some (fd', None)"
      using assms Framing Some t by (auto simp: next_step_def split: sum.splits option.splits)
    ultimately show ?thesis using next_fill_decreases [of D Pausing None fd1 fd'] by auto
  qed
next
  case Paused
  then show ?thesis using assms next_fill_decreases [of D Paused "Some (Ready None)" fd fd']
    by (auto simp: next_step_def)
qed (use assms in \<open>auto simp: next_step_def split: bind_splits sum.splits option.splits\<close>)

function next_item ::
  "('c, 'i, 'e) decoder \<Rightarrow> 'c framed_read \<Rightarrow> ('c framed_read \<times> ('i, 'e) next_result) option" where
  "next_item D fd =
     (case next_step D fd of
        None \<Rightarrow> None
      | Some (fd', Some r) \<Rightarrow> Some (fd', r)
      | Some (fd', None) \<Rightarrow> next_item D fd')"
  by pat_completeness auto
termination
  by (relation "measure (\<lambda>(D, fd). loop_measure fd)") (auto dest: next_step_decreases)

declare next_item.simps [simp del]

section \<open>The read buffer keeps its pending bytes\<close>

text \<open>The canonical form of a settled read buffer: a view that starts at the first unread byte
  and ends at the capacity.\<close>

definition rb_at :: "iobuf \<Rightarrow> nat \<Rightarrow> read_buffer" where
  "rb_at b start = Some (new_unchecked b start (Some (length (ib_mem b))))"

definition rb_holds :: "read_buffer \<Rightarrow> iobuf \<Rightarrow> nat \<Rightarrow> u8 list \<Rightarrow> bool" where
  "rb_holds rb b start bytes \<longleftrightarrow>
     movable b \<and> start \<le> ib_len b \<and> rb = rb_at b start \<and> bytes = drop start (as_init b)"

lemma movable_wf: "movable b \<Longrightarrow> ib_wf b"
  by (simp add: movable_def)

lemma ib_wf_le: "ib_wf b \<Longrightarrow> ib_len b \<le> length (ib_mem b)"
  by (simp add: ib_wf_def)

lemma slice_new_full:
  assumes "ib_wf b" "start \<le> ib_len b"
  shows "slice_new b start (max (length (as_uninit b)) (length (as_init b)))
           = Some (new_unchecked b start (Some (length (ib_mem b))))"
  using assms ib_wf_le [OF assms(1)] by (simp add: slice_new_def buf_len_def as_uninit_def max_def)

lemma rb_restore_from_parts_None [simp]:
  "ib_wf b \<Longrightarrow> rb_restore_from_parts None b start = Some (rb_at b (min start (ib_len b)))"
  using slice_new_full [of b "min start (ib_len b)"]
  by (simp add: rb_restore_from_parts_def Let_def rb_restore_inner_def rb_at_def)

lemma rb_at_view:
  "ib_wf b \<Longrightarrow> start \<le> ib_len b \<Longrightarrow>
     slice_as_init (new_unchecked b start (Some (length (ib_mem b)))) = Some (drop start (as_init b))"
  using ib_wf_le [of b]
  by (simp add: slice_as_init_def new_unchecked_def initialized_end_def view_end_def slice_range_def)

lemma rb_take_inner_at [simp]:
  "rb_take_inner (rb_at b start) = Some (new_unchecked b start (Some (length (ib_mem b))), None)"
  by (simp add: rb_take_inner_def rb_at_def)

lemma rb_compact_spec:
  assumes "movable b" "start \<le> ib_len b"
  obtains b' start' where "rb_compact b start = Some (b', start')" "movable b'" "start' \<le> ib_len b'"
    "drop start' (as_init b') = drop start (as_init b)" "ib_kind b' = ib_kind b"
    "length (ib_mem b') = length (ib_mem b)" "ib_len b' \<le> ib_len b"
proof -
  have wf: "ib_wf b" "ib_len b \<le> length (ib_mem b)" using assms(1) by (auto simp: movable_def ib_wf_def)
  let ?n = "ib_len b - start"
  let ?src = "take ?n (drop start (ib_mem b))"
  consider "start = 0 \<or> start < ib_len b div 2" | "start > 0" "start \<ge> ib_len b div 2" "start < ib_len b"
    | "start > 0" "start = ib_len b" using assms(2) by linarith
  then show thesis
  proof cases
    case 1
    then show thesis using that [of b start] assms wf by (auto simp: rb_compact_def Let_def)
  next
    case 2
    let ?b = "b\<lparr>ib_mem := write_at 0 ?src (ib_mem b)\<rparr>"
    have l: "length (write_at 0 ?src (ib_mem b)) = length (ib_mem b)" using wf(2) by simp
    have c: "copy_within b start (ib_len b) 0 = Some ?b"
      using 2 wf by (simp add: copy_within_def as_uninit_def slice_range_def)
    have "ib_wf ?b" using wf l by (simp add: ib_wf_def)
    moreover have "ib_kind ?b \<noteq> ArrayBuf" using assms(1) by (simp add: movable_def)
    ultimately have t: "buf_truncate ?b ?n = Some (?b\<lparr>ib_len := ?n\<rparr>)"
      using wf l by (simp add: buf_truncate_def set_len_movable)
    have "rb_compact b start = Some (?b\<lparr>ib_len := ?n\<rparr>, 0)"
      using 2 wf(1) c t by (simp add: rb_compact_def Let_def)
    moreover have "movable (?b\<lparr>ib_len := ?n\<rparr>)"
      using assms(1) wf l by (auto simp: movable_def ib_wf_def)
    moreover have "as_init (?b\<lparr>ib_len := ?n\<rparr>) = drop start (as_init b)"
      using wf(2) by (simp add: as_init_def write_at_zero drop_take)
    ultimately show thesis using that [of "?b\<lparr>ib_len := ?n\<rparr>" 0] l by simp
  next
    case 3
    have "buf_clear b = Some (b\<lparr>ib_len := 0\<rparr>)"
      using assms(1) by (simp add: buf_clear_def set_len_movable movable_def)
    then have "rb_compact b start = Some (b\<lparr>ib_len := 0\<rparr>, 0)"
      using 3 wf(1) by (simp add: rb_compact_def Let_def)
    moreover have "movable (b\<lparr>ib_len := 0\<rparr>)" using assms(1) by (simp add: movable_def ib_wf_def)
    ultimately show thesis using that [of "b\<lparr>ib_len := 0\<rparr>" 0] 3 wf(1) by (simp add: as_init_def)
  qed
qed

lemma rb_reserve_at:
  assumes "movable b" "start \<le> ib_len b"
  obtains e where "rb_reserve (rb_at b start) n = Some (rb_at b start, Inl e)" "buf_reserve b n = Inl e"
      "length (ib_mem b) < ib_len b + n"
  | b' where "rb_reserve (rb_at b start) n = Some (rb_at b' start, Inr ())" "movable b'"
      "ib_kind b' = ib_kind b" "ib_len b' = ib_len b" "as_init b' = as_init b"
      "ib_len b' + n \<le> length (ib_mem b')"
proof -
  have wf: "ib_wf b" using assms(1) by (rule movable_wf)
  show thesis
  proof (cases "length (ib_mem b) - ib_len b < n")
    case False
    then show thesis using that(2) [of b] assms wf ib_wf_le [OF wf]
      by (simp add: rb_reserve_def as_uninit_def new_unchecked_def)
  next
    case True
    show thesis
    proof (cases "buf_reserve b n")
      case (Inl e)
      then show thesis using that(1) [of e] True assms wf ib_wf_le [OF wf]
        by (simp add: rb_reserve_def as_uninit_def new_unchecked_def)
    next
      case (Inr b')
      note r = buf_reserve_spec [OF wf Inr] buf_reserve_init [OF wf Inr]
      then have "movable b'" using assms(1) by (simp add: movable_def)
      then show thesis using that(2) [of b'] True assms wf r Inr
        by (simp add: rb_reserve_def as_uninit_def new_unchecked_def)
    qed
  qed
qed

lemma complete_read_spec:
  assumes "movable b" "ib_len b + length bs \<le> length (ib_mem b)"
  obtains b' where "complete_read (new_unchecked b (ib_len b) e) bs = Some (new_unchecked b' (ib_len b) e)"
    "movable b'" "ib_kind b' = ib_kind b" "as_init b' = as_init b @ bs"
    "ib_len b' = ib_len b + length bs" "length (ib_mem b') = length (ib_mem b)"
proof -
  have wf: "ib_wf b" using assms(1) by (rule movable_wf)
  from extend_prefix [OF wf _ assms(2)] obtain b' where b':
    "set_len (b\<lparr>ib_mem := write_at (ib_len b) bs (ib_mem b)\<rparr>) (ib_len b + length bs) = Some b'"
    "ib_wf b'" "ib_kind b' = ib_kind b" "as_init b' = as_init b @ bs"
    "length (ib_mem b') = length (ib_mem b)"
    using assms(1) by (auto simp: movable_def)
  have "ib_len b + length bs \<le> usize_max" using wf assms(2)
    by (simp add: ib_wf_def isize_max_def usize_max_def)
  then have "complete_read (new_unchecked b (ib_len b) e) bs = Some (new_unchecked b' (ib_len b) e)"
    using b'(1) by (simp add: complete_read_def slice_set_len_def new_unchecked_def checked_add_def)
  moreover have "ib_len b' = ib_len b + length bs"
    using arg_cong [OF b'(4), of length] b'(2) wf by simp
  ultimately show thesis using that b' assms(1) by (simp add: movable_def)
qed

lemma rb_prepare_fill_at:
  assumes "movable b" "start \<le> ib_len b"
  obtains (failed) e b' start' where
      "rb_prepare_fill (rb_at b start) = Some (rb_at b' start', Inl e)"
      "movable b'" "start' \<le> ib_len b'" "drop start' (as_init b') = drop start (as_init b)"
      "ib_kind b' = ib_kind b" "ib_len b' \<le> ib_len b" "buf_reserve b' DEFAULT_RESERVE = Inl e"
      "length (ib_mem b') < ib_len b' + DEFAULT_RESERVE"
  | (ready) b' start' where
      "rb_prepare_fill (rb_at b start)
         = Some (None, Inr (start', new_unchecked b' (ib_len b') (Some (length (ib_mem b')))))"
      "movable b'" "start' \<le> ib_len b'" "drop start' (as_init b') = drop start (as_init b)"
      "ib_kind b' = ib_kind b" "ib_len b' \<le> ib_len b" "ib_len b' + DEFAULT_RESERVE \<le> length (ib_mem b')"
proof -
  obtain b1 s1 where c: "rb_compact b start = Some (b1, s1)" "movable b1" "s1 \<le> ib_len b1"
    "drop s1 (as_init b1) = drop start (as_init b)" "ib_kind b1 = ib_kind b" "ib_len b1 \<le> ib_len b"
    using rb_compact_spec [OF assms] by metis
  have restored: "rb_restore_from_parts None b1 s1 = Some (rb_at b1 s1)"
    using c(2,3) movable_wf by simp
  show thesis
  proof (rule rb_reserve_at [OF c(2,3), of DEFAULT_RESERVE])
    fix e
    assume "rb_reserve (rb_at b1 s1) DEFAULT_RESERVE = Some (rb_at b1 s1, Inl e)"
      "buf_reserve b1 DEFAULT_RESERVE = Inl e" "length (ib_mem b1) < ib_len b1 + DEFAULT_RESERVE"
    then show thesis using failed [of b1 s1 e] c restored
      by (simp add: rb_prepare_fill_def new_unchecked_def)
  next
    fix b2
    assume r: "rb_reserve (rb_at b1 s1) DEFAULT_RESERVE = Some (rb_at b2 s1, Inr ())" "movable b2"
      "ib_kind b2 = ib_kind b1" "ib_len b2 = ib_len b1" "as_init b2 = as_init b1"
      "ib_len b2 + DEFAULT_RESERVE \<le> length (ib_mem b2)"
    have "slice_new b2 (ib_len b2) (max (length (as_uninit b2)) (ib_len b2))
        = Some (new_unchecked b2 (ib_len b2) (Some (length (ib_mem b2))))"
      using slice_new_full [of b2 "ib_len b2"] r(2) movable_wf by simp
    then show thesis using ready [of s1 b2] c restored r movable_wf [OF r(2)] movable_wf [OF c(2)]
      by (simp add: rb_prepare_fill_def new_unchecked_def Let_def)
  qed
qed

lemma fill_spare:
  assumes "ib_wf b"
  shows "slice_as_uninit (new_unchecked b (ib_len b) (Some (length (ib_mem b)))) = Some (drop (ib_len b) (ib_mem b))"
  using ib_wf_le [OF assms]
  by (simp add: slice_as_uninit_def new_unchecked_def capacity_end_def buf_capacity_def as_uninit_def
      slice_range_def)

lemma rb_finish_fill_at:
  "movable b \<Longrightarrow> start \<le> ib_len b \<Longrightarrow>
     rb_finish_fill None (new_unchecked b n e) start = Some (rb_at b start)"
  using movable_wf by (simp add: rb_finish_fill_def new_unchecked_def)

text \<open>
  Filling the read buffer loses and invents nothing.  Preparing a fill - compacting the
  consumed prefix when it is at least half of the initialized bytes, then reserving - does not
  panic; when the buffer cannot grow, it stays in place with the same unread bytes; otherwise
  the window handed to the transport starts behind the unread bytes and has room for at least
  \<open>DEFAULT_RESERVE\<close> more, and after a read of any bytes that fit the unread bytes are exactly
  the old ones followed by the new ones.
\<close>

theorem read_buffer_fill_correct:
  assumes "rb_holds rb b start unread"
  shows "\<exists>rb' r. rb_prepare_fill rb = Some (rb', r)
     \<and> (case r of
          Inl e \<Rightarrow> \<exists>b' start'. rb_holds rb' b' start' unread
        | Inr (start', fill) \<Rightarrow>
            rb' = None \<and>
            (\<exists>spare. slice_as_uninit fill = Some spare \<and> DEFAULT_RESERVE \<le> length spare
               \<and> (\<forall>bs. length bs \<le> length spare \<longrightarrow>
                    (\<exists>fill' rb'' b' s'. complete_read fill bs = Some fill'
                       \<and> rb_finish_fill None fill' start' = Some rb''
                       \<and> rb_holds rb'' b' s' (unread @ bs)))))"
proof -
  from assms have a: "movable b" "start \<le> ib_len b" "rb = rb_at b start" "unread = drop start (as_init b)"
    by (auto simp: rb_holds_def)
  show ?thesis
  proof (rule rb_prepare_fill_at [OF a(1,2)])
    fix e b' start'
    assume p: "rb_prepare_fill (rb_at b start) = Some (rb_at b' start', Inl e)" "movable b'"
      "start' \<le> ib_len b'" "drop start' (as_init b') = drop start (as_init b)"
    then have "rb_holds (rb_at b' start') b' start' unread" using a(4) by (simp add: rb_holds_def)
    then show ?thesis using p(1) a(3) by auto
  next
    fix b' :: iobuf and start'
    let ?fill = "new_unchecked b' (ib_len b') (Some (length (ib_mem b')))"
    assume p: "rb_prepare_fill (rb_at b start) = Some (None, Inr (start', ?fill))" "movable b'"
      "start' \<le> ib_len b'" "drop start' (as_init b') = drop start (as_init b)"
      "ib_len b' + DEFAULT_RESERVE \<le> length (ib_mem b')"
    have step: "\<exists>fill' rb'' b'' s'. complete_read ?fill bs = Some fill'
        \<and> rb_finish_fill None fill' start' = Some rb'' \<and> rb_holds rb'' b'' s' (unread @ bs)"
      if bs: "ib_len b' + length bs \<le> length (ib_mem b')" for bs
    proof (rule complete_read_spec [OF p(2) bs, of "Some (length (ib_mem b'))"])
      fix b''
      assume b'': "complete_read ?fill bs = Some (new_unchecked b'' (ib_len b') (Some (length (ib_mem b'))))"
        "movable b''" "as_init b'' = as_init b' @ bs" "ib_len b'' = ib_len b' + length bs"
      have "drop start' (as_init b'') = unread @ bs"
        using b''(3) p(2,3,4) a(4) movable_wf by simp
      then have "rb_holds (rb_at b'' start') b'' start' (unread @ bs)"
        using b''(2,4) p(3) by (simp add: rb_holds_def)
      moreover have "rb_finish_fill None (new_unchecked b'' (ib_len b') (Some (length (ib_mem b')))) start'
          = Some (rb_at b'' start')" using rb_finish_fill_at [OF b''(2)] p(3) b''(4) by simp
      ultimately show ?thesis using b''(1) by blast
    qed
    show ?thesis using p a(3) step fill_spare [OF movable_wf [OF p(2)]] by auto
  qed
qed

lemma read_buffer_fill_correct_witness:
  "rb_holds (rb_at (vec_from 64 [1, 2, 3, 4]) 3) (vec_from 64 [1, 2, 3, 4]) 3 [4]
     \<and> (\<exists>rb' r. rb_prepare_fill (rb_at (vec_from 64 [1, 2, 3, 4]) 3) = Some (rb', r))"
proof -
  have h: "rb_holds (rb_at (vec_from 64 [1, 2, 3, 4]) 3) (vec_from 64 [1, 2, 3, 4]) 3 [4]"
    by (simp add: rb_holds_def movable_def ib_wf_def vec_from_def isize_max_def as_init_def)
  then show ?thesis using read_buffer_fill_correct [OF h] by blast
qed

section \<open>What the transport delivers\<close>

text \<open>\<open>delivers es W\<close>: the script hands over exactly the bytes \<open>W\<close>, in any chunks and with any
  number of empty polls in between, and then the end of the stream.\<close>

fun delivers :: "read_event list \<Rightarrow> u8 list \<Rightarrow> bool" where
  "delivers [] W = False"
| "delivers (Failed e # es) W = False"
| "delivers (Blocked # es) W = delivers es W"
| "delivers (Got bs # es) W =
     (if bs = [] then W = [] else take (length bs) W = bs \<and> delivers es (drop (length bs) W))"

definition script_size :: "read_event list \<Rightarrow> nat" where
  "script_size es = sum_list (map event_size es)"

lemma poll_delivers:
  assumes "delivers es W" "0 < cap"
  obtains (pending) es' where "poll_read es cap = (es', Pending)" "delivers es' W"
      "script_size es' < script_size es"
  | (eof) es' where "poll_read es cap = (es', Ready (Inr []))" "W = []"
  | (chunk) es' bs where "poll_read es cap = (es', Ready (Inr bs))" "bs \<noteq> []" "length bs \<le> cap"
      "W = bs @ drop (length bs) W" "delivers es' (drop (length bs) W)"
      "script_size es' < script_size es"
proof (cases es)
  case (Cons e es1)
  show thesis
  proof (cases e)
    case (Got bs)
    show thesis
    proof (cases "bs = []")
      case True
      then show thesis using eof assms Cons Got by simp
    next
      case False
      then obtain V where w: "W = bs @ V" "delivers es1 V"
        using assms(1) Cons Got append_take_drop_id [of "length bs" W] by (auto, metis)
      show thesis
      proof (cases "length bs \<le> cap")
        case True
        then show thesis using chunk [of es1 bs] w Cons Got \<open>bs \<noteq> []\<close> by (simp add: script_size_def)
      next
        case longer: False
        then show thesis
          using chunk [of "Got (drop cap bs) # es1" "take cap bs"] w assms(2) Cons Got False
          by (simp add: script_size_def min_def)
      qed
    qed
  next
    case Blocked
    then show thesis using pending [of es1] assms Cons by (simp add: script_size_def)
  qed (use assms Cons in simp)
qed (use assms in simp)

section \<open>One fill\<close>

text \<open>
  The reader's buffer holds the unread bytes \<open>P\<close>, at rest or lent to a read, and has seen at
  most \<open>T - k\<close> bytes of the stream; \<open>T\<close> bounds the stream and the allocator can serve twice
  that plus the reserve.
\<close>

definition fill_view :: "iobuf \<Rightarrow> iobuf slice" where
  "fill_view b = new_unchecked b (ib_len b) (Some (length (ib_mem b)))"

definition rd_inv :: "nat \<Rightarrow> nat \<Rightarrow> read_io_state \<Rightarrow> u8 list \<Rightarrow> nat \<Rightarrow> bool" where
  "rd_inv limit T st P k \<longleftrightarrow>
     (\<exists>b start es. movable b \<and> ib_kind b = VecBuf limit \<and> start \<le> ib_len b
        \<and> P = drop start (as_init b) \<and> ib_len b + k \<le> T
        \<and> (st = RIdle es (rb_at b start)
           \<or> st = Reading es (fill_view b) None start
             \<and> ib_len b + DEFAULT_RESERVE \<le> length (ib_mem b)))"

definition roomy :: "nat \<Rightarrow> nat \<Rightarrow> bool" where
  "roomy limit T \<longleftrightarrow> 2 * (T + DEFAULT_RESERVE) \<le> limit \<and> limit \<le> isize_max"

lemma rd_inv_length: "rd_inv limit T st P k \<Longrightarrow> length P + k \<le> T"
  by (auto simp: rd_inv_def dest!: movable_wf)

lemma roomy_reserve:
  assumes "roomy limit T" "ib_wf b" "ib_kind b = VecBuf limit" "ib_len b \<le> T"
    "length (ib_mem b) < ib_len b + DEFAULT_RESERVE"
  shows "buf_reserve b DEFAULT_RESERVE \<noteq> Inl e"
  using assms
  by (auto simp: roomy_def buf_reserve_def vec_try_reserve_def Let_def grown_capacity_def DEFAULT_RESERVE_def)

lemma settle_delivers:
  assumes b: "movable b" "ib_kind b = VecBuf limit" "start \<le> ib_len b" "ib_len b + length W \<le> T"
    "ib_len b + DEFAULT_RESERVE \<le> length (ib_mem b)"
    and "delivers es W" and P: "P = drop start (as_init b)"
  obtains (pending) st' where
      "settle_read (Reading es (fill_view b) None start) = Some (st', Pending)"
      "rd_inv limit T st' P (length W)" "delivers (rio_script st') W"
      "script_size (rio_script st') < script_size es"
  | (eof) es' rb where
      "settle_read (Reading es (fill_view b) None start) = Some (RIdle es' rb, Ready (Some (Inr 0)))"
      "rd_inv limit T (RIdle es' rb) P 0" "W = []"
  | (chunk) es' rb n where
      "settle_read (Reading es (fill_view b) None start) = Some (RIdle es' rb, Ready (Some (Inr n)))"
      "0 < n" "rd_inv limit T (RIdle es' rb) (P @ take n W) (length (drop n W))"
      "delivers es' (drop n W)" "script_size es' < script_size es"
proof -
  let ?spare = "drop (ib_len b) (ib_mem b)"
  have wf: "ib_wf b" using b(1) by (rule movable_wf)
  have spare: "slice_as_uninit (fill_view b) = Some ?spare"
    using fill_spare [OF wf] by (simp add: fill_view_def)
  have pos: "0 < length ?spare" using b(5) by (simp add: DEFAULT_RESERVE_def)
  from assms(6) pos show thesis
  proof (cases rule: poll_delivers)
    case (pending es')
    have "rd_inv limit T (Reading es' (fill_view b) None start) P (length W)"
      using b P unfolding rd_inv_def by blast
    then show thesis using that(1) [of "Reading es' (fill_view b) None start"] pending spare
      by (simp add: settle_read_def)
  next
    case (eof es')
    have "ib_len b + length ([] :: u8 list) \<le> length (ib_mem b)" using ib_wf_le [OF wf] by simp
    from complete_read_spec [OF b(1) this, of "Some (length (ib_mem b))"] obtain b' where b':
      "complete_read (fill_view b) [] = Some (new_unchecked b' (ib_len b) (Some (length (ib_mem b))))"
      "movable b'" "ib_kind b' = ib_kind b" "as_init b' = as_init b" "ib_len b' = ib_len b"
      by (auto simp: fill_view_def)
    have "rd_inv limit T (RIdle es' (rb_at b' start)) P 0"
      unfolding rd_inv_def using b b'(2-5) P
      by (intro exI [of _ b'] exI [of _ start] exI [of _ es']) simp
    then show thesis using that(2) [of es' "rb_at b' start"] eof spare b' b(3) rb_finish_fill_at [OF b'(2)]
      by (simp add: settle_read_def)
  next
    case (chunk es' bs)
    have "ib_len b + length bs \<le> length (ib_mem b)" using chunk(3) pos by simp
    from complete_read_spec [OF b(1) this, of "Some (length (ib_mem b))"] obtain b' where b':
      "complete_read (fill_view b) bs = Some (new_unchecked b' (ib_len b) (Some (length (ib_mem b))))"
      "movable b'" "ib_kind b' = ib_kind b" "as_init b' = as_init b @ bs" "ib_len b' = ib_len b + length bs"
      by (auto simp: fill_view_def)
    have l: "length bs \<le> length W" by (subst chunk(4)) simp
    have t: "take (length bs) W = bs" by (subst chunk(4)) simp
    have "drop start (as_init b') = P @ take (length bs) W" using b'(4) b(3) P wf t by simp
    then have "rd_inv limit T (RIdle es' (rb_at b' start)) (P @ take (length bs) W) (length (drop (length bs) W))"
      unfolding rd_inv_def using b b'(2,3,5) l by (intro exI [of _ b'] exI [of _ start] exI [of _ es']) simp
    then show thesis
      using that(3) [of es' "rb_at b' start" "length bs"] chunk(1,2,5,6) spare b'(1,5) b(3)
        rb_finish_fill_at [OF b'(2)]
      by (simp add: settle_read_def)
  qed
qed

lemma fill_delivers:
  assumes "roomy limit T" "rd_inv limit T st P (length W)" "delivers (rio_script st) W"
  obtains (pending) st' where "fill_read st = Some (st', Pending)"
      "rd_inv limit T st' P (length W)" "delivers (rio_script st') W"
      "script_size (rio_script st') < script_size (rio_script st)"
  | (eof) es' rb where "fill_read st = Some (RIdle es' rb, Ready (Inr 0))"
      "rd_inv limit T (RIdle es' rb) P 0" "W = []"
  | (chunk) es' rb n where "fill_read st = Some (RIdle es' rb, Ready (Inr n))" "0 < n"
      "rd_inv limit T (RIdle es' rb) (P @ take n W) (length (drop n W))"
      "delivers es' (drop n W)" "script_size es' < script_size (rio_script st)"
proof -
  obtain b start es where b: "movable b" "ib_kind b = VecBuf limit" "start \<le> ib_len b"
    "P = drop start (as_init b)" "ib_len b + length W \<le> T"
    and st: "st = RIdle es (rb_at b start)
           \<or> st = Reading es (fill_view b) None start \<and> ib_len b + DEFAULT_RESERVE \<le> length (ib_mem b)"
    using assms(2) unfolding rd_inv_def by blast
  obtain b1 s1 where s1: "movable b1" "ib_kind b1 = VecBuf limit" "s1 \<le> ib_len b1"
    "P = drop s1 (as_init b1)" "ib_len b1 + length W \<le> T"
    "ib_len b1 + DEFAULT_RESERVE \<le> length (ib_mem b1)"
    and f: "\<And>st' r. settle_read (Reading es (fill_view b1) None s1) = Some (st', r) \<Longrightarrow> r \<noteq> Ready None \<Longrightarrow>
        fill_read st = Some (st', case r of Pending \<Rightarrow> Pending | Ready q \<Rightarrow> Ready (the q))"
  proof -
    consider "st = Reading es (fill_view b) None start" "ib_len b + DEFAULT_RESERVE \<le> length (ib_mem b)"
      | "st = RIdle es (rb_at b start)" using st by blast
    then show thesis
    proof cases
      case 1
      then show thesis using that [of b start] b
        by (auto simp: fill_read_def split: poll.splits option.splits)
    next
      case 2
      show thesis
      proof (rule rb_prepare_fill_at [OF b(1,3)])
        fix e b' start'
        assume "movable b'" "ib_kind b' = ib_kind b" "ib_len b' \<le> ib_len b"
          "buf_reserve b' DEFAULT_RESERVE = Inl e" "length (ib_mem b') < ib_len b' + DEFAULT_RESERVE"
        then show thesis using roomy_reserve [OF assms(1), of b'] b movable_wf [of b'] by simp
      next
        fix b' :: iobuf and start'
        assume p: "rb_prepare_fill (rb_at b start)
            = Some (None, Inr (start', new_unchecked b' (ib_len b') (Some (length (ib_mem b')))))"
          "movable b'" "start' \<le> ib_len b'" "drop start' (as_init b') = drop start (as_init b)"
          "ib_kind b' = ib_kind b" "ib_len b' \<le> ib_len b"
          "ib_len b' + DEFAULT_RESERVE \<le> length (ib_mem b')"
        have "settle_read st = Some (st, Ready None)" using 2 by (simp add: settle_read_def)
        then have "fill_read st = Some (st', case r of Pending \<Rightarrow> Pending | Ready q \<Rightarrow> Ready (the q))"
          if "settle_read (Reading es (fill_view b') None start') = Some (st', r)" "r \<noteq> Ready None" for st' r
          using 2 p(1) that
          by (cases r; cases "case r of Ready q \<Rightarrow> q") (auto simp: fill_read_def fill_view_def)
        then show thesis using that [of b' start'] p b by simp
      qed
    qed
  qed
  have es: "rio_script st = es" using st by auto
  show thesis
  proof (rule settle_delivers [OF s1(1,2,3,5,6) assms(3) [unfolded es] s1(4)])
    fix st' assume "settle_read (Reading es (fill_view b1) None s1) = Some (st', Pending)"
      "rd_inv limit T st' P (length W)" "delivers (rio_script st') W"
      "script_size (rio_script st') < script_size es"
    then show thesis using pending [of st'] f es by fastforce
  next
    fix es' rb assume "settle_read (Reading es (fill_view b1) None s1) = Some (RIdle es' rb, Ready (Some (Inr 0)))"
      "rd_inv limit T (RIdle es' rb) P 0" "W = []"
    then show thesis using eof [of es' rb] f by fastforce
  next
    fix es' rb n
    assume "settle_read (Reading es (fill_view b1) None s1) = Some (RIdle es' rb, Ready (Some (Inr n)))"
      "0 < n" "rd_inv limit T (RIdle es' rb) (P @ take n W) (length (drop n W))"
      "delivers es' (drop n W)" "script_size es' < script_size es"
    then show thesis using chunk [of es' rb n] f es by fastforce
  qed
qed

section \<open>One decode\<close>

definition frame_payload :: "frame \<Rightarrow> u8 list \<Rightarrow> u8 list" where
  "frame_payload fr data = take (fr_payload fr) (drop (fr_prefix fr) data)"

definition frame_extent :: "frame \<Rightarrow> nat" where
  "frame_extent fr = fr_prefix fr + fr_payload fr + fr_suffix fr"

definition decoded_as ::
  "('c, 'i, 'e) decoder \<Rightarrow> bool \<Rightarrow> 'c \<Rightarrow> u8 list \<Rightarrow> 'c \<times> ('e + 'i option)" where
  "decoded_as D at_eof c view =
     (if at_eof then decode_eof D c view
      else case decode D c view of (c, Inl e) \<Rightarrow> (c, Inl e) | (c, Inr i) \<Rightarrow> (c, Inr (Some i)))"

lemma new_unchecked_sel [simp]:
  "sl_buf (new_unchecked b s e) = b" "sl_start (new_unchecked b s e) = s" "sl_end (new_unchecked b s e) = e"
  by (simp_all add: new_unchecked_def)

lemma decode_frame_at:
  assumes fd: "fd_read fd = RIdle es (rb_at b start)" and b: "movable b" "start \<le> ib_len b"
    and P: "P = drop start (as_init b)"
    and fr: "0 < frame_extent fr" "frame_extent fr \<le> length P"
    and dec: "decoded_as D at_eof (fd_codec fd) (frame_payload fr P) = (c', r)"
  shows "decode_frame D fd (Some fr) at_eof
     = Some (fd\<lparr>fd_codec := c', fd_read := RIdle es (rb_at b (start + frame_extent fr))\<rparr>, r)"
proof -
  have wf: "ib_wf b" using b(1) by (rule movable_wf)
  have len: "length P = ib_len b - start" using P wf by simp
  have max: "ib_len b \<le> isize_max" using wf by (simp add: ib_wf_def)
  then have max': "ib_len b \<le> usize_max" by (rule isize_usize)
  have view: "slice_as_init (new_unchecked b start (Some (length (ib_mem b)))) = Some P"
    using rb_at_view [OF wf b(2)] P by simp
  have bounds: "checked_bounds fr (length P)
      = Inr ((fr_prefix fr, fr_prefix fr + fr_payload fr), frame_extent fr)"
    using fr max' len unfolding checked_bounds_def frame_extent_def by (simp add: checked_add_def)
  have adds: "checked_add start (fr_prefix fr) = Some (start + fr_prefix fr)"
    "checked_add start (fr_prefix fr + fr_payload fr) = Some (start + (fr_prefix fr + fr_payload fr))"
    "checked_add start (frame_extent fr) = Some (start + frame_extent fr)"
    using fr max' len b(2) by (simp_all add: checked_add_def frame_extent_def)
  have pend: "rb_pending (rb_at b start) = Some (new_unchecked b start (Some (length (ib_mem b))))"
    by (simp add: rb_pending_def rb_at_def)
  let ?payload = "new_unchecked b (start + fr_prefix fr) (Some (start + (fr_prefix fr + fr_payload fr)))"
  have le: "start + (fr_prefix fr + fr_payload fr) \<le> ib_len b" "start + frame_extent fr \<le> ib_len b"
    using fr len b(2) by (simp_all add: frame_extent_def)
  have payload: "slice_new b (start + fr_prefix fr) (start + (fr_prefix fr + fr_payload fr)) = Some ?payload"
    using le wf by (simp add: slice_new_def buf_len_def)
  have "slice_as_init ?payload = Some (frame_payload fr P)"
    using le wf P by (simp add: slice_as_init_def new_unchecked_def initialized_end_def view_end_def
        slice_range_def frame_payload_def add.commute)
  then show ?thesis
    using fd view bounds adds payload dec le wf
    by (simp add: decode_frame_def pend del: checked_add_Some_iff flip: decoded_as_def)
qed

text \<open>What a framer answers at the end of the stream, once it has no more frame.\<close>

definition framer_eof :: "framer \<Rightarrow> u8 list \<Rightarrow> frame option io_result" where
  "framer_eof f0 data = snd (framer_extract_eof (framer_fresh f0) data)"

lemma framer_spec_Nil: "framer_spec f0 [] = Inr None"
proof (cases "framer_streaming f0")
  case True
  then show ?thesis
    by (cases rule: delimiter_framer_cases)
      (auto simp: framer_spec_def ld_extract_def ld_wf_def Let_def extract_delimited_def)
qed (simp add: framer_spec_def)

lemma framer_eof_Nil: "framer_streaming f0 \<Longrightarrow> framer_eof f0 [] = Inr None"
  by (cases f0) (auto simp: framer_eof_def ld_extract_eof_def ld_extract_def ld_wf_def Let_def
      char_extract_eof_def char_extract_def any_extract_eof_def any_extract_def delimiter_bytes_def
      extract_delimited_def delimited_eof_def)

lemma delimited_eof_None:
  "delimited_eof (n, Inr None) data m = (0, if data = [] then Inr None
     else if length data > m then Inl InvalidData else Inr (Some (frame_new 0 (length data) 0)))"
  by (simp add: delimited_eof_def)

lemma framer_eof_eq:
  assumes "framer_rel f0 f data" "length data \<le> isize_max" "framer_spec f0 data = Inr None"
  shows "snd (framer_extract_eof f data) = framer_eof f0 data
     \<and> framer_rel f0 (fst (framer_extract_eof f data)) rest
     \<and> (\<forall>fr. framer_eof f0 data = Inr (Some fr) \<longrightarrow> 0 < frame_extent fr \<and> frame_extent fr \<le> length data)"
proof -
  have none: "snd (framer_extract f data) = Inr None" "snd (framer_extract (framer_fresh f0) data) = Inr None"
    using framer_spec_eq [OF assms(1,2)] assms by (auto simp: framer_spec_def framer_rel_def)
  have f: "framer_fresh f = framer_fresh f0" "framer_streaming f0" using assms(1) by (auto simp: framer_rel_def)
  show ?thesis
  proof (cases f)
    case (LengthDelimited ld)
    then have "framer_fresh f0 = LengthDelimited ld" using f(1) by simp
    then show ?thesis using LengthDelimited f(2) none
      by (simp add: framer_eof_def framer_rel_def ld_extract_eof_def)
  next
    case (CharDelimited c)
    obtain c1 c2 where c: "char_extract c data = (c1, Inr None)"
      "char_extract (c\<lparr>cd_buf := replicate 4 0, cd_next := 0\<rparr>) data = (c2, Inr None)"
      using none f(1) [symmetric] CharDelimited
      by (cases "char_extract c data"; cases "char_extract (c\<lparr>cd_buf := replicate 4 0, cd_next := 0\<rparr>) data") simp
    have "cd_max c1 = cd_max c" "cd_max c2 = cd_max c" "cd_char c1 = cd_char c"
      "framer_fresh (CharDelimited c1) = framer_fresh f"
      using c CharDelimited by (auto simp: char_extract_def delimiter_bytes_def Let_def split: prod.splits)
    then show ?thesis using f c CharDelimited f(1) [symmetric]
      by (auto simp: framer_eof_def framer_rel_def char_extract_eof_def delimited_eof_None frame_new_def
          frame_extent_def)
  next
    case (AnyDelimited a)
    obtain a1 a2 where a: "any_extract a data = (a1, Inr None)"
      "any_extract (a\<lparr>ad_next := 0\<rparr>) data = (a2, Inr None)"
      using none f(1) [symmetric] AnyDelimited
      by (cases "any_extract a data"; cases "any_extract (a\<lparr>ad_next := 0\<rparr>) data") simp
    have "ad_max a1 = ad_max a" "ad_max a2 = ad_max a" "ad_bytes a1 = ad_bytes a"
      "framer_fresh (AnyDelimited a1) = framer_fresh f"
      using a AnyDelimited by (auto simp: any_extract_def split: prod.splits)
    then show ?thesis using f a AnyDelimited f(1) [symmetric]
      by (auto simp: framer_eof_def framer_rel_def any_extract_eof_def delimited_eof_None frame_new_def
          frame_extent_def)
  next
    case (NoopFramer n)
    then show ?thesis using f by (cases f0) auto
  qed
qed

section \<open>The reader against a reference decoder\<close>

text \<open>
  The reference: the items and the final error, if any, of a complete stream of bytes, computed
  from the stream alone.  A frame of a streaming framer is never empty, so \<open>max 1\<close> changes
  nothing; it lets the recursion be seen to end.
\<close>

function decode_stream ::
  "framer \<Rightarrow> ('c, 'i, 'e) decoder \<Rightarrow> 'c \<Rightarrow> u8 list \<Rightarrow> ('e + 'i) list" where
  "decode_stream f0 D c V =
     (if V = [] then []
      else case framer_spec f0 V of
        Inl e \<Rightarrow> [Inl (from_io D e)]
      | Inr (Some fr) \<Rightarrow>
          (case decode D c (frame_payload fr V) of
             (c', Inl e) \<Rightarrow> [Inl e]
           | (c', Inr i) \<Rightarrow> Inr i # decode_stream f0 D c' (drop (max 1 (frame_extent fr)) V))
      | Inr None \<Rightarrow>
          (case framer_eof f0 V of
             Inl e \<Rightarrow> [Inl (from_io D e)]
           | Inr None \<Rightarrow> []
           | Inr (Some fr) \<Rightarrow>
               (case decode_eof D c (frame_payload fr V) of
                  (c', Inl e) \<Rightarrow> [Inl e]
                | (c', Inr None) \<Rightarrow> []
                | (c', Inr (Some i)) \<Rightarrow>
                    Inr i # decode_stream f0 D c' (drop (max 1 (frame_extent fr)) V))))"
  by pat_completeness auto
termination
  by (relation "measure (\<lambda>(f0, D, c, V). length V)") auto

declare decode_stream.simps [simp del]

text \<open>Polling the reader until the end of the stream; \<open>None\<close> when \<open>n\<close> polls were not enough.\<close>

fun collect :: "('c, 'i, 'e) decoder \<Rightarrow> nat \<Rightarrow> 'c framed_read \<Rightarrow> ('e + 'i) list option" where
  "collect D 0 fd = None"
| "collect D (Suc n) fd =
     (case next_item D fd of
        None \<Rightarrow> None
      | Some (fd', Pending) \<Rightarrow> collect D n fd'
      | Some (fd', Ready None) \<Rightarrow> Some []
      | Some (fd', Ready (Some x)) \<Rightarrow> map_option (Cons x) (collect D n fd'))"

definition attempt ::
  "('c, 'i, 'e) decoder \<Rightarrow> 'c framed_read \<Rightarrow> ('c framed_read \<times> ('e + 'i option)) option" where
  "attempt D fd = do { ne \<leftarrow> buffer_non_empty fd; if ne then try_decode D fd else Some (fd, Inr None) }"

lemma rd_inv_idle_cases:
  assumes "rd_inv limit T (RIdle es rb) P k"
  obtains b start where "movable b" "ib_kind b = VecBuf limit" "start \<le> ib_len b" "rb = rb_at b start"
    "P = drop start (as_init b)" "ib_len b + k \<le> T"
  using assms by (auto simp: rd_inv_def)

lemma pending_at:
  assumes "rd_inv limit T (RIdle es rb) P k" "fd_read fd = RIdle es rb"
  shows "pending_bytes fd = Some P" "buffer_non_empty fd = Some (P \<noteq> [])"
proof -
  obtain b start where b: "movable b" "start \<le> ib_len b" "rb = rb_at b start" "P = drop start (as_init b)"
    using rd_inv_idle_cases [OF assms(1)] by metis
  have "slice_as_init (new_unchecked b start (Some (length (ib_mem b)))) = Some P"
    using rb_at_view [OF movable_wf [OF b(1)] b(2)] b(4) by simp
  then show "pending_bytes fd = Some P" "buffer_non_empty fd = Some (P \<noteq> [])"
    using assms(2) b(3)
    by (simp_all add: pending_bytes_def buffer_non_empty_def rb_is_empty_def rb_pending_def rb_at_def)
qed

lemma rd_inv_consume:
  assumes "movable b" "ib_kind b = VecBuf limit" "start + n \<le> ib_len b" "ib_len b + k \<le> T"
  shows "rd_inv limit T (RIdle es (rb_at b (start + n))) (drop n (drop start (as_init b))) k"
  unfolding rd_inv_def using assms
  by (intro exI [of _ b] exI [of _ "start + n"] exI [of _ es]) (simp add: add.commute)

lemma decode_frame_inv:
  assumes "rd_inv limit T (RIdle es rb) P k" "fd_read fd = RIdle es rb"
    "0 < frame_extent fr" "frame_extent fr \<le> length P"
    "decoded_as D at_eof (fd_codec fd) (frame_payload fr P) = (c', r)"
  obtains rb' where "decode_frame D fd (Some fr) at_eof = Some (fd\<lparr>fd_codec := c', fd_read := RIdle es rb'\<rparr>, r)"
    "rd_inv limit T (RIdle es rb') (drop (frame_extent fr) P) k"
proof -
  obtain b start where b: "movable b" "ib_kind b = VecBuf limit" "start \<le> ib_len b" "rb = rb_at b start"
    "P = drop start (as_init b)" "ib_len b + k \<le> T"
    by (rule rd_inv_idle_cases [OF assms(1)])
  have "start + frame_extent fr \<le> ib_len b" using assms(4) b(3,5) movable_wf [OF b(1)] by simp
  then show thesis
    using decode_frame_at [OF assms(2) [unfolded b(4)] b(1,3,5) assms(3,4,5)]
      rd_inv_consume [OF b(1,2) _ b(6)] b(5) that [of "rb_at b (start + frame_extent fr)"] by simp
qed

lemma framer_rel_append: "framer_rel f0 f data \<Longrightarrow> framer_rel f0 f (data @ ext)"
proof -
  have "framer_resume_ok f data \<Longrightarrow> framer_resume_ok f (data @ ext)"
    by (cases f) (auto simp: resume_ok_append)
  then show "framer_rel f0 f data \<Longrightarrow> ?thesis" by (simp add: framer_rel_def)
qed

lemma attempt_cases:
  assumes inv: "rd_inv limit T (RIdle es rb) P k" "fd_read fd = RIdle es rb"
    and rel: "framer_rel f0 (fd_framer fd) P" and T: "T \<le> isize_max"
  obtains (broken) e f' where "framer_spec f0 P = Inl e"
      "attempt D fd = Some (fd\<lparr>fd_framer := f'\<rparr>, Inl (from_io D e))"
  | (more) f' where "framer_spec f0 P = Inr None" "attempt D fd = Some (fd\<lparr>fd_framer := f'\<rparr>, Inr None)"
      "\<And>ext. framer_rel f0 f' (P @ ext)"
  | (frame) fr f' c' r rb' where "framer_spec f0 P = Inr (Some fr)"
      "decoded_as D False (fd_codec fd) (frame_payload fr P) = (c', r)"
      "attempt D fd = Some (fd\<lparr>fd_framer := f', fd_codec := c', fd_read := RIdle es rb'\<rparr>, r)"
      "\<And>rest. framer_rel f0 f' rest" "rd_inv limit T (RIdle es rb') (drop (frame_extent fr) P) k"
      "0 < frame_extent fr" "frame_extent fr \<le> length P"
proof -
  have len: "length P \<le> isize_max" using rd_inv_length [OF inv(1)] T by simp
  note eq = framer_spec_eq [OF rel len]
  obtain f' x where ex: "framer_extract (fd_framer fd) P = (f', x)" by force
  have x: "x = framer_spec f0 P" using eq ex by simp
  show thesis
  proof (cases "P = []")
    case True
    then have "attempt D fd = Some (fd, Inr None)" "framer_spec f0 P = Inr None"
      using pending_at [OF inv] by (simp_all add: attempt_def framer_spec_Nil)
    moreover have "framer_rel f0 (fd_framer fd) (P @ ext)" for ext
      by (rule framer_rel_append [OF rel])
    ultimately show thesis using more [of "fd_framer fd"] by simp
  next
    case False
    then have att: "attempt D fd = (case x of Inl e \<Rightarrow> Some (fd\<lparr>fd_framer := f'\<rparr>, Inl (from_io D e))
        | Inr fr \<Rightarrow> decode_frame D (fd\<lparr>fd_framer := f'\<rparr>) fr False)"
      using pending_at [OF inv] ex by (simp add: attempt_def try_decode_def Let_def)
    show thesis
    proof (cases x)
      case (Inl e)
      then show thesis using broken [of e f'] att x by simp
    next
      case (Inr o')
      show thesis
      proof (cases o')
        case None
        then show thesis using more [of f'] att x Inr eq ex by (simp add: decode_frame_def)
      next
        case (Some fr)
        have b: "0 < frame_extent fr" "frame_extent fr \<le> length P"
          using framer_stream.spec_bounds [of f0 P fr] x Inr Some len by (auto simp: frame_extent_def)
        obtain c' r where d: "decoded_as D False (fd_codec fd) (frame_payload fr P) = (c', r)" by force
        obtain rb' where "decode_frame D (fd\<lparr>fd_framer := f'\<rparr>) (Some fr) False
            = Some (fd\<lparr>fd_framer := f', fd_codec := c', fd_read := RIdle es rb'\<rparr>, r)"
          "rd_inv limit T (RIdle es rb') (drop (frame_extent fr) P) k"
          using decode_frame_inv [OF inv(1), of "fd\<lparr>fd_framer := f'\<rparr>" fr D False c' r] inv(2) b d by auto
        moreover have "framer_rel f0 f' rest" for rest using eq [of _ fr rest] ex x Inr Some by simp
        ultimately show thesis using frame [of fr c' r rb' f'] x Inr Some d b att by simp
      qed
    qed
  qed
qed

definition reader_at :: "nat \<Rightarrow> nat \<Rightarrow> framer \<Rightarrow> 'c framed_read \<Rightarrow> 'c \<Rightarrow> u8 list \<Rightarrow> bool" where
  "reader_at limit T f0 fd c V \<longleftrightarrow> fd_codec fd = c \<and>
     (fd_state fd = Framing \<and>
        (\<exists>P W. V = P @ W \<and> rd_inv limit T (fd_read fd) P (length W)
           \<and> delivers (rio_script (fd_read fd)) W \<and> framer_rel f0 (fd_framer fd) P)
      \<or> fd_state fd = Pausing \<and>
        (\<exists>es rb. fd_read fd = RIdle es rb \<and> rd_inv limit T (RIdle es rb) V 0
           \<and> framer_rel f0 (fd_framer fd) V))"

definition outcome_ok ::
  "('c, 'i, 'e) decoder \<Rightarrow> nat \<Rightarrow> nat \<Rightarrow> framer \<Rightarrow> 'c \<Rightarrow> u8 list \<Rightarrow> nat
     \<Rightarrow> 'c framed_read \<Rightarrow> ('i, 'e) next_result \<Rightarrow> bool" where
  "outcome_ok D limit T f0 c V sz fd' r =
     (case r of
        Pending \<Rightarrow> reader_at limit T f0 fd' c V \<and> script_size (rio_script (fd_read fd')) < sz
      | Ready None \<Rightarrow> decode_stream f0 D c V = []
      | Ready (Some (Inl e)) \<Rightarrow> decode_stream f0 D c V = [Inl e] \<and> fd_state fd' = Errored
      | Ready (Some (Inr i)) \<Rightarrow>
          (\<exists>c' V'. decode_stream f0 D c V = Inr i # decode_stream f0 D c' V'
             \<and> reader_at limit T f0 fd' c' V' \<and> length V' < length V))"

lemma try_decode_eof_attempt:
  "try_decode_eof D fd =
     do { (fd, r) \<leftarrow> attempt D fd;
          case r of
            Inl e \<Rightarrow> Some (fd, Inl e)
          | Inr (Some i) \<Rightarrow> Some (fd, Inr (Some i))
          | Inr None \<Rightarrow>
              do { bytes \<leftarrow> pending_bytes fd;
                   let (f', r) = framer_extract_eof (fd_framer fd) bytes; let fd = fd\<lparr>fd_framer := f'\<rparr>;
                   case r of
                     Inl e \<Rightarrow> Some (fd, Inl (from_io D e))
                   | Inr fr \<Rightarrow> decode_frame D fd fr True } }"
  by (simp add: try_decode_eof_def attempt_def)

lemma next_step_Framing:
  "fd_state fd = Framing \<Longrightarrow> next_step D fd =
     do { (fd, r) \<leftarrow> attempt D fd;
          case r of
            Inr (Some i) \<Rightarrow> Some (fd, Some (Ready (Some (Inr i))))
          | Inl e \<Rightarrow> Some (fd\<lparr>fd_state := Errored\<rparr>, Some (Ready (Some (Inl e))))
          | Inr None \<Rightarrow> next_fill D Pausing Framing None fd }"
  by (simp add: next_step_def attempt_def)

lemma decoded_as_False: "decoded_as D False c v = (c', r) \<Longrightarrow>
    (\<exists>e. decode D c v = (c', Inl e) \<and> r = Inl e) \<or> (\<exists>i. decode D c v = (c', Inr i) \<and> r = Inr (Some i))"
  by (auto simp: decoded_as_def split: prod.splits sum.splits)

lemma decode_stream_frame:
  assumes "framer_spec f0 V = Inr (Some fr)" "0 < frame_extent fr" "frame_extent fr \<le> length V"
    "decode D c (frame_payload fr V) = (c', x)"
  shows "decode_stream f0 D c V = (case x of Inl e \<Rightarrow> [Inl e]
     | Inr i \<Rightarrow> Inr i # decode_stream f0 D c' (drop (frame_extent fr) V))"
proof -
  have "V \<noteq> []" "max 1 (frame_extent fr) = frame_extent fr" using assms(2,3) by auto
  then show ?thesis using assms(1,4) by (subst decode_stream.simps) simp
qed

lemma next_item_pausing:
  assumes T: "T \<le> isize_max" and st: "fd_state fd = Pausing" "fd_read fd = RIdle es rb"
    and inv: "rd_inv limit T (RIdle es rb) V 0" and rel: "framer_rel f0 (fd_framer fd) V"
    and c: "fd_codec fd = c"
  shows "\<exists>fd' r. next_item D fd = Some (fd', r) \<and> outcome_ok D limit T f0 c V sz fd' r
     \<and> r \<noteq> Pending"
proof -
  have len: "length V \<le> isize_max" using rd_inv_length [OF inv] T by simp
  note item = next_item.simps [of D fd] next_step_def [of D fd]
  show ?thesis
  proof (rule attempt_cases [OF inv st(2) rel T, where D = D])
    fix e f' assume "framer_spec f0 V = Inl e" "attempt D fd = Some (fd\<lparr>fd_framer := f'\<rparr>, Inl (from_io D e))"
    moreover have "V \<noteq> []" using framer_spec_Nil calculation(1) by auto
    ultimately show ?thesis using st(1)
      by (simp add: item try_decode_eof_attempt outcome_ok_def decode_stream.simps [of f0 D c V])
  next
    fix fr f' c' r rb'
    assume fr: "framer_spec f0 V = Inr (Some fr)"
      "decoded_as D False (fd_codec fd) (frame_payload fr V) = (c', r)"
      "attempt D fd = Some (fd\<lparr>fd_framer := f', fd_codec := c', fd_read := RIdle es rb'\<rparr>, r)"
      "\<And>rest. framer_rel f0 f' rest" "rd_inv limit T (RIdle es rb') (drop (frame_extent fr) V) 0"
      "0 < frame_extent fr" "frame_extent fr \<le> length V"
    let ?fd = "fd\<lparr>fd_framer := f', fd_codec := c', fd_read := RIdle es rb'\<rparr>"
    have at: "reader_at limit T f0 ?fd c' (drop (frame_extent fr) V)"
      using fr(4,5) st(1) by (auto simp: reader_at_def)
    from decoded_as_False [OF fr(2) [unfolded c]] show ?thesis
    proof (elim disjE exE conjE)
      fix e assume d: "decode D c (frame_payload fr V) = (c', Inl e)" "r = Inl e"
      then show ?thesis using fr(3) st(1) decode_stream_frame [OF fr(1,6,7) d(1)]
        by (simp add: item try_decode_eof_attempt outcome_ok_def)
    next
      fix i assume d: "decode D c (frame_payload fr V) = (c', Inr i)" "r = Inr (Some i)"
      then show ?thesis using fr(3,6,7) st(1) decode_stream_frame [OF fr(1,6,7) d(1)] at
        by (auto simp: item try_decode_eof_attempt outcome_ok_def
            intro!: exI [of _ c'] exI [of _ "drop (frame_extent fr) V"])
    qed
  next
    fix f' assume m: "framer_spec f0 V = Inr None" "attempt D fd = Some (fd\<lparr>fd_framer := f'\<rparr>, Inr None)"
      "\<And>ext. framer_rel f0 f' (V @ ext)"
    have rel': "framer_rel f0 f' V" using m(3) [of "[]"] by simp
    obtain f2 x where ex: "framer_extract_eof f' V = (f2, x)" by force
    note eof = framer_eof_eq [OF rel' len m(1)]
    have x: "framer_eof f0 V = x" using eof ex by simp
    have pend: "pending_bytes (fd\<lparr>fd_framer := f'\<rparr>) = Some V"
      using pending_at(1) [OF inv, of "fd\<lparr>fd_framer := f'\<rparr>"] st(2) by simp
    have step: "try_decode_eof D fd = (case x of Inl e \<Rightarrow> Some (fd\<lparr>fd_framer := f2\<rparr>, Inl (from_io D e))
        | Inr fr \<Rightarrow> decode_frame D (fd\<lparr>fd_framer := f2\<rparr>) fr True)"
      using m(2) pend ex by (simp add: try_decode_eof_attempt Let_def)
    have eof_nil: "V = [] \<Longrightarrow> x = Inr None" using x framer_eof_Nil rel by (auto simp: framer_rel_def)
    show ?thesis
    proof (cases x)
      case (Inl e)
      then show ?thesis using step m(1) x st(1) eof_nil
        by (auto simp: item outcome_ok_def decode_stream.simps [of f0 D c V])
    next
      case (Inr o')
      show ?thesis
      proof (cases o')
        case None
        then show ?thesis using step m(1) x st(1) Inr
          by (simp add: item outcome_ok_def decode_stream.simps [of f0 D c V] decode_frame_def)
      next
        case (Some fr)
        have b: "0 < frame_extent fr" "frame_extent fr \<le> length V" using eof x Inr Some by auto
        then have V: "V \<noteq> []" "max 1 (frame_extent fr) = frame_extent fr" by auto
        obtain c' r where d: "decode_eof D c (frame_payload fr V) = (c', r)" by force
        then have d': "decoded_as D True (fd_codec (fd\<lparr>fd_framer := f2\<rparr>)) (frame_payload fr V) = (c', r)"
          using c by (simp add: decoded_as_def)
        obtain rb' where df: "decode_frame D (fd\<lparr>fd_framer := f2\<rparr>) (Some fr) True
            = Some (fd\<lparr>fd_framer := f2, fd_codec := c', fd_read := RIdle es rb'\<rparr>, r)"
          "rd_inv limit T (RIdle es rb') (drop (frame_extent fr) V) 0"
          using decode_frame_inv [OF inv _ b d'] st(2) by auto
        have "framer_rel f0 f2 rest" for rest using framer_eof_eq [OF rel' len m(1), of rest] ex by simp
        then have at: "reader_at limit T f0 (fd\<lparr>fd_framer := f2, fd_codec := c', fd_read := RIdle es rb'\<rparr>)
            c' (drop (frame_extent fr) V)" using df(2) st(1) by (auto simp: reader_at_def)
        have "decode_stream f0 D c V = (case r of Inl e \<Rightarrow> [Inl e] | Inr None \<Rightarrow> []
            | Inr (Some i) \<Rightarrow> Inr i # decode_stream f0 D c' (drop (frame_extent fr) V))"
          using V m(1) x Inr Some d by (subst decode_stream.simps) simp
        then show ?thesis using step Inr Some df(1) st(1) b at
          by (cases r; cases "projr r")
            (auto simp: item outcome_ok_def intro!: exI [of _ c'] exI [of _ "drop (frame_extent fr) V"])
      qed
    qed
  qed
qed

lemma attempt_reading: "fd_read fd = Reading es fill rb n \<Longrightarrow> attempt D fd = Some (fd, Inr None)"
  by (simp add: attempt_def buffer_non_empty_def)

lemma framer_spec_prefix:
  assumes "framer_spec f0 P = x" "x \<noteq> Inr None" "length (P @ W) \<le> isize_max"
  shows "framer_spec f0 (P @ W) = x"
  using framer_stream.spec_stable [of f0 P W] assms by simp

lemma frame_payload_prefix:
  "frame_extent fr \<le> length P \<Longrightarrow> frame_payload fr (P @ W) = frame_payload fr P"
  by (simp add: frame_payload_def frame_extent_def)

text \<open>The fill that follows when there is no frame yet, and the rest of the loop.\<close>

lemma next_item_filling:
  assumes room: "roomy limit T" "T \<le> isize_max"
    and step: "\<And>fd' r. next_fill D Pausing Framing None fd1 = Some (fd', r) \<Longrightarrow> next_step D fd = Some (fd', r)"
    and fd1: "fd_state fd1 = Framing" "rd_inv limit T (fd_read fd1) P (length W)"
      "delivers (rio_script (fd_read fd1)) W" "\<And>ext. framer_rel f0 (fd_framer fd1) (P @ ext)" "fd_codec fd1 = c"
    and size: "script_size (rio_script (fd_read fd1)) = sz"
    and IH: "\<And>fd2 P2 W2. script_size (rio_script (fd_read fd2)) < sz \<Longrightarrow> fd_state fd2 = Framing \<Longrightarrow>
        rd_inv limit T (fd_read fd2) P2 (length W2) \<Longrightarrow> delivers (rio_script (fd_read fd2)) W2 \<Longrightarrow>
        framer_rel f0 (fd_framer fd2) P2 \<Longrightarrow> fd_codec fd2 = c \<Longrightarrow>
        \<exists>fd' r. next_item D fd2 = Some (fd', r) \<and> outcome_ok D limit T f0 c (P2 @ W2) sz fd' r"
  shows "\<exists>fd' r. next_item D fd = Some (fd', r) \<and> outcome_ok D limit T f0 c (P @ W) sz fd' r"
proof (rule fill_delivers [OF room(1) fd1(2,3)])
  fix st' assume f: "fill_read (fd_read fd1) = Some (st', Pending)" "rd_inv limit T st' P (length W)"
    "delivers (rio_script st') W" "script_size (rio_script st') < script_size (rio_script (fd_read fd1))"
  have "reader_at limit T f0 (fd1\<lparr>fd_read := st'\<rparr>) c (P @ W)"
    using f fd1(1,5) fd1(4) [of "[]"] by (auto simp: reader_at_def)
  moreover have "next_step D fd = Some (fd1\<lparr>fd_read := st'\<rparr>, Some Pending)"
    by (rule step) (simp add: next_fill_def f(1))
  ultimately show ?thesis using f(4) size by (simp add: next_item.simps [of D fd] outcome_ok_def)
next
  fix es' rb assume f: "fill_read (fd_read fd1) = Some (RIdle es' rb, Ready (Inr 0))"
    "rd_inv limit T (RIdle es' rb) P 0" "W = []"
  let ?fd = "fd1\<lparr>fd_read := RIdle es' rb, fd_state := Pausing\<rparr>"
  have "next_step D fd = Some (?fd, None)" by (rule step) (simp add: next_fill_def f(1))
  then have "next_item D fd = next_item D ?fd" by (simp add: next_item.simps [of D fd])
  moreover have "\<exists>fd' r. next_item D ?fd = Some (fd', r) \<and> outcome_ok D limit T f0 c P sz fd' r \<and> r \<noteq> Pending"
    by (rule next_item_pausing [OF room(2) _ _ f(2)]) (use fd1(5) fd1(4) [of "[]"] in simp_all)
  ultimately show ?thesis using f(3) by auto
next
  fix es' rb n assume f: "fill_read (fd_read fd1) = Some (RIdle es' rb, Ready (Inr n))" "0 < n"
    "rd_inv limit T (RIdle es' rb) (P @ take n W) (length (drop n W))" "delivers es' (drop n W)"
    "script_size es' < script_size (rio_script (fd_read fd1))"
  let ?fd = "fd1\<lparr>fd_read := RIdle es' rb, fd_state := Framing\<rparr>"
  have "next_step D fd = Some (?fd, None)" by (rule step) (use f(2) in \<open>simp add: next_fill_def f(1)\<close>)
  then have "next_item D fd = next_item D ?fd" by (simp add: next_item.simps [of D fd])
  moreover have "\<exists>fd' r. next_item D ?fd = Some (fd', r)
      \<and> outcome_ok D limit T f0 c ((P @ take n W) @ drop n W) sz fd' r"
    by (rule IH) (use f size fd1 in simp_all)
  ultimately show ?thesis by simp
qed

lemma outcome_ok_mono: "outcome_ok D limit T f0 c V m fd' r \<Longrightarrow> m \<le> n \<Longrightarrow> outcome_ok D limit T f0 c V n fd' r"
  by (cases r) (auto simp: outcome_ok_def)

lemma next_item_framing:
  assumes room: "roomy limit T" "T \<le> isize_max"
  shows "fd_state fd = Framing \<Longrightarrow> rd_inv limit T (fd_read fd) P (length W) \<Longrightarrow>
     delivers (rio_script (fd_read fd)) W \<Longrightarrow> framer_rel f0 (fd_framer fd) P \<Longrightarrow> fd_codec fd = c \<Longrightarrow>
     \<exists>fd' r. next_item D fd = Some (fd', r)
       \<and> outcome_ok D limit T f0 c (P @ W) (script_size (rio_script (fd_read fd))) fd' r"
proof (induction "script_size (rio_script (fd_read fd))" arbitrary: fd P W rule: less_induct)
  case less
  let ?sz = "script_size (rio_script (fd_read fd))"
  have len: "length (P @ W) \<le> isize_max" using rd_inv_length [OF less.prems(2)] room(2) by simp
  have IH: "\<exists>fd' r. next_item D fd2 = Some (fd', r) \<and> outcome_ok D limit T f0 c (P2 @ W2) ?sz fd' r"
    if "script_size (rio_script (fd_read fd2)) < ?sz" "fd_state fd2 = Framing"
      "rd_inv limit T (fd_read fd2) P2 (length W2)" "delivers (rio_script (fd_read fd2)) W2"
      "framer_rel f0 (fd_framer fd2) P2" "fd_codec fd2 = c" for fd2 P2 W2
    using less.hyps [OF that] that(1) outcome_ok_mono by (metis less_imp_le_nat)
  note step = next_step_Framing [OF less.prems(1), of D]
  obtain b start es where st: "fd_read fd = RIdle es (rb_at b start)
      \<or> fd_read fd = Reading es (fill_view b) None start" using less.prems(2) by (auto simp: rd_inv_def)
  then show ?case
  proof
    assume rd: "fd_read fd = Reading es (fill_view b) None start"
    show ?case
      by (rule next_item_filling [OF room _ less.prems(1,2,3) framer_rel_append [OF less.prems(4)]
            less.prems(5) refl IH]) (simp_all add: step attempt_reading [OF rd])
  next
    assume rd: "fd_read fd = RIdle es (rb_at b start)"
    show ?case
    proof (rule attempt_cases [OF less.prems(2) [unfolded rd] rd less.prems(4) room(2), where D = D])
      fix e f' assume e: "framer_spec f0 P = Inl e" "attempt D fd = Some (fd\<lparr>fd_framer := f'\<rparr>, Inl (from_io D e))"
      have "framer_spec f0 (P @ W) = Inl e" by (rule framer_spec_prefix [OF e(1) _ len]) simp
      moreover have "P @ W \<noteq> []" using framer_spec_Nil calculation by auto
      ultimately have "decode_stream f0 D c (P @ W) = [Inl (from_io D e)]"
        by (subst decode_stream.simps) simp
      then show ?case by (simp add: next_item.simps [of D fd] step e(2) outcome_ok_def)
    next
      fix f' assume m: "attempt D fd = Some (fd\<lparr>fd_framer := f'\<rparr>, Inr None)" "\<And>ext. framer_rel f0 f' (P @ ext)"
      show ?case
        by (rule next_item_filling [OF room, of D "fd\<lparr>fd_framer := f'\<rparr>"])
          (use m less.prems IH in \<open>simp_all add: step\<close>)
    next
      fix fr f' c' r rb'
      assume fr: "framer_spec f0 P = Inr (Some fr)"
        "decoded_as D False (fd_codec fd) (frame_payload fr P) = (c', r)"
        "attempt D fd = Some (fd\<lparr>fd_framer := f', fd_codec := c', fd_read := RIdle es rb'\<rparr>, r)"
        "\<And>rest. framer_rel f0 f' rest"
        "rd_inv limit T (RIdle es rb') (drop (frame_extent fr) P) (length W)"
        "0 < frame_extent fr" "frame_extent fr \<le> length P"
      let ?fd = "fd\<lparr>fd_framer := f', fd_codec := c', fd_read := RIdle es rb'\<rparr>"
      let ?V = "drop (frame_extent fr) P @ W"
      have at: "reader_at limit T f0 ?fd c' ?V" unfolding reader_at_def
        using fr(4,5) less.prems(1,3) rd by auto
      have V: "framer_spec f0 (P @ W) = Inr (Some fr)" "frame_extent fr \<le> length (P @ W)"
        using framer_spec_prefix [OF fr(1) _ len] fr(7) by simp_all
      from decoded_as_False [OF fr(2) [unfolded less.prems(5)]] show ?case
      proof (elim disjE exE conjE)
        fix e assume "decode D c (frame_payload fr P) = (c', Inl e)" and r: "r = Inl e"
        then have d: "decode D c (frame_payload fr (P @ W)) = (c', Inl e)"
          using frame_payload_prefix [OF fr(7)] by simp
        show ?case using decode_stream_frame [OF V(1) fr(6) V(2) d] r
          by (simp add: next_item.simps [of D fd] step fr(3) outcome_ok_def)
      next
        fix i assume "decode D c (frame_payload fr P) = (c', Inr i)" and r: "r = Inr (Some i)"
        then have d: "decode D c (frame_payload fr (P @ W)) = (c', Inr i)"
          using frame_payload_prefix [OF fr(7)] by simp
        have "length ?V < length (P @ W)" using fr(6,7) by simp
        then show ?case using decode_stream_frame [OF V(1) fr(6) V(2) d] r at fr(7)
          by (auto simp: next_item.simps [of D fd] step fr(3) outcome_ok_def intro!: exI [of _ c'] exI [of _ ?V])
      qed
    qed
  qed
qed

lemma next_item_reader_at:
  assumes "roomy limit T" "T \<le> isize_max" "reader_at limit T f0 fd c V"
  shows "\<exists>fd' r. next_item D fd = Some (fd', r)
     \<and> outcome_ok D limit T f0 c V (script_size (rio_script (fd_read fd))) fd' r"
proof -
  from assms(3) consider P W where "fd_state fd = Framing" "V = P @ W" "rd_inv limit T (fd_read fd) P (length W)"
      "delivers (rio_script (fd_read fd)) W" "framer_rel f0 (fd_framer fd) P" "fd_codec fd = c"
    | es rb where "fd_state fd = Pausing" "fd_read fd = RIdle es rb" "rd_inv limit T (RIdle es rb) V 0"
      "framer_rel f0 (fd_framer fd) V" "fd_codec fd = c"
    by (auto simp: reader_at_def)
  then show ?thesis
  proof cases
    case (1 P W)
    then show ?thesis using next_item_framing [OF assms(1,2) 1(1,3-6), of D] by simp
  next
    case (2 es rb)
    then show ?thesis using next_item_pausing [OF assms(2) 2, of D] by blast
  qed
qed

lemma collect_errored:
  assumes "fd_state fd = Errored"
  shows "collect D 1 fd = Some []"
proof -
  have "next_item D fd = Some (fd, Ready None)"
    using assms by (subst next_item.simps) (simp add: next_step_def)
  then show ?thesis by simp
qed

lemma collect_reader_at:
  assumes "roomy limit T" "T \<le> isize_max"
  shows "reader_at limit T f0 fd c V \<Longrightarrow> length V = k \<Longrightarrow> script_size (rio_script (fd_read fd)) = m \<Longrightarrow>
     \<exists>n. collect D n fd = Some (decode_stream f0 D c V)"
proof (induction k arbitrary: m fd c V rule: less_induct)
  case (less k)
  note shorter = less.IH
  from less.prems show ?case
  proof (induction m arbitrary: fd rule: less_induct)
    case (less m)
    obtain fd' r where item: "next_item D fd = Some (fd', r)"
      and ok: "outcome_ok D limit T f0 c V (script_size (rio_script (fd_read fd))) fd' r"
      using next_item_reader_at [OF assms less.prems(1)] by blast
    consider "r = Pending" | "r = Ready None" | e where "r = Ready (Some (Inl e))"
      | i where "r = Ready (Some (Inr i))"
      by (cases r; cases "case r of Ready q \<Rightarrow> q"; cases "case r of Ready q \<Rightarrow> the q") auto
    then show ?case
    proof cases
      case 1
      then obtain n where "collect D n fd' = Some (decode_stream f0 D c V)"
        using less.IH [of _ fd'] ok less.prems by (auto simp: outcome_ok_def)
      then show ?thesis using item 1 by (intro exI [of _ "Suc n"]) simp
    next
      case 2
      then show ?thesis using item ok by (intro exI [of _ 1]) (simp add: outcome_ok_def)
    next
      case (3 e)
      then have "collect D 2 fd = Some (decode_stream f0 D c V)"
        using item ok collect_errored [of fd' D] by (simp add: outcome_ok_def numeral_2_eq_2)
      then show ?thesis ..
    next
      case (4 i)
      then obtain c' V' where v: "decode_stream f0 D c V = Inr i # decode_stream f0 D c' V'"
        "reader_at limit T f0 fd' c' V'" "length V' < k" using ok less.prems(2) by (auto simp: outcome_ok_def)
      then obtain n where "collect D n fd' = Some (decode_stream f0 D c' V')"
        using shorter [OF v(3) v(2) refl refl] by blast
      then show ?thesis using item 4 v(1) by (intro exI [of _ "Suc n"]) simp
    qed
  qed
qed

lemma framer_rel_fresh:
  "framer_streaming f0 \<Longrightarrow> framer_fresh f0 = f0 \<Longrightarrow> framer_rel f0 f0 data"
proof -
  have "framer_resume_ok (framer_fresh f0) data" by (cases f0) simp_all
  then show "framer_streaming f0 \<Longrightarrow> framer_fresh f0 = f0 \<Longrightarrow> ?thesis" by (simp add: framer_rel_def)
qed

lemma collect_fresh_reader:
  assumes "framer_streaming f0" "framer_fresh f0 = f0" "delivers es W" "roomy limit (length W)"
    and "cap \<le> isize_max"
  shows "\<exists>fd n. framed_read_with_buffer es c f0 (vec_with_capacity limit cap) = Some fd
     \<and> collect D n fd = Some (decode_stream f0 D c W)"
proof -
  let ?b = "vec_with_capacity limit cap"
  have wf: "ib_wf ?b" "movable ?b" using assms(5)
    by (simp_all add: ib_wf_def movable_def vec_with_capacity_def)
  let ?fd = "\<lparr>fd_codec = c, fd_framer = f0, fd_read = RIdle es (rb_at ?b 0), fd_state = Framing\<rparr>"
  have "slice_new ?b 0 (max (length (as_uninit ?b)) (length (as_init ?b)))
      = Some (new_unchecked ?b 0 (Some (length (ib_mem ?b))))"
    by (rule slice_new_full) (simp_all add: wf)
  then have new: "framed_read_with_buffer es c f0 ?b = Some ?fd"
    by (simp add: framed_read_with_buffer_def rb_new_with_def rb_at_def)
  have "rd_inv limit (length W) (RIdle es (rb_at ?b 0)) [] (length W)"
    unfolding rd_inv_def using wf
    by (intro exI [of _ ?b] exI [of _ 0] exI [of _ es]) (simp add: vec_with_capacity_def as_init_def)
  then have "reader_at limit (length W) f0 ?fd c W"
    using assms(3) framer_rel_fresh [OF assms(1,2)] unfolding reader_at_def
    by (intro conjI disjI1 exI [of _ "[]"] exI [of _ W]) simp_all
  moreover have "length W \<le> isize_max" using assms(4) by (simp add: roomy_def)
  ultimately obtain n where "collect D n ?fd = Some (decode_stream f0 D c W)"
    using collect_reader_at [OF assms(4) _ _ refl refl, of f0 ?fd c W D] by blast
  then show ?thesis using new by (intro exI conjI)
qed

text \<open>
  C19. Decoding does not depend on how the bytes arrive.  Take any transport that delivers the
  bytes \<open>W\<close> and then the end of the stream - in chunks of any sizes, split anywhere, with any
  number of polls that find nothing, and with every suspended \<^verbatim>\<open>next\<close> either resumed or dropped
  and called again - a reader with a fresh length-, character- or byte-delimited framer, any
  codec, and a vector that can grow to twice the stream.  Polling the reader often enough ends
  the stream, and the items (and the final error, if any) it yields are exactly those of the
  reference decoder on \<open>W\<close>: no frame is lost, duplicated, split or reordered, and compaction
  and growth of the buffer cannot be seen.
\<close>

theorem framed_read_chunk_independent:
  assumes "framer_streaming f0" "framer_fresh f0 = f0" "delivers es W" "roomy limit (length W)"
    and "cap \<le> isize_max"
  shows "\<exists>fd n. framed_read_with_buffer es c f0 (vec_with_capacity limit cap) = Some fd
     \<and> collect D n fd = Some (decode_stream f0 D c W)"
  by (rule collect_fresh_reader [OF assms])

lemma framed_read_chunk_independent_witness:
  "\<exists>fd n. framed_read_with_buffer [Got [97], Blocked, Got [10, 98], Got [10], Got []] ()
       (CharDelimited (char_new 10)) (vec_with_capacity 64 0) = Some fd
     \<and> collect bytes_codec n fd
       = Some (decode_stream (CharDelimited (char_new 10)) bytes_codec () [97, 10, 98, 10])"
  by (rule framed_read_chunk_independent)
    (simp_all add: char_new_def roomy_def DEFAULT_RESERVE_def isize_max_def)

end
