(* ===== verification/Framed_Write.thy ===== *)
theory Framed_Write
  imports Framed_Read
begin

text \<open>
  The framed writer (\<^verbatim>\<open>karmaio/src/io/framed/framed_write.rs\<close>) and the duplex adapter
  (\<^verbatim>\<open>framed_rw.rs\<close>), which pairs the reader's and the writer's state.

  A \<^verbatim>\<open>send\<close> future is polled in two phases: it settles a write that an earlier, dropped send left
  behind, then encodes, frames and starts its own write, which the adapter retains.  The future's
  own state is therefore whether it still holds its item (\<open>SendStart\<close>) or has handed it over
  (\<open>SendInFlight\<close>).
\<close>

section \<open>The retained write\<close>

datatype write_io_state =
    WIdle writer iobuf
  | Writing writer iobuf nat
  | WTransitioning

fun wio_io :: "write_io_state \<Rightarrow> writer option" where
  "wio_io (WIdle w b) = Some w"
| "wio_io _ = None"

fun wio_buffer :: "write_io_state \<Rightarrow> iobuf option" where
  "wio_buffer (WIdle w b) = Some b"
| "wio_buffer _ = None"

fun is_writing :: "write_io_state \<Rightarrow> bool" where
  "is_writing (Writing _ _ _) = True"
| "is_writing _ = False"

definition settle_write :: "write_io_state \<Rightarrow> (write_io_state \<times> unit io_result option poll) option" where
  "settle_write st =
     (case st of
        Writing w b n \<Rightarrow>
          (case write_all_poll w (as_init b) n of
             (w', n', Pending) \<Rightarrow> Some (Writing w' b n', Pending)
           | (w', n', Ready (Inr _)) \<Rightarrow>
               do { b' \<leftarrow> buf_clear b; Some (WIdle w' b', Ready (Some (Inr ()))) }
           | (w', n', Ready (Inl e)) \<Rightarrow> Some (WIdle w' b, Ready (Some (Inl e))))
      | WIdle _ _ \<Rightarrow> Some (st, Ready None)
      | WTransitioning \<Rightarrow> None)"

section \<open>Sending\<close>

record ('c, 'i, 'e) encoder =
  encode :: "'c \<Rightarrow> 'i \<Rightarrow> iobuf \<Rightarrow> ('c \<times> iobuf \<times> ('e + unit)) option"
  enc_from_io :: "io_error \<Rightarrow> 'e"

definition bytes_encoder :: "(unit, u8 list, io_error) encoder" where
  "bytes_encoder = \<lparr>encode = (\<lambda>c item b. map_option (\<lambda>(b', r). (c, b', r)) (bytes_encode b item)),
                    enc_from_io = (\<lambda>e. e)\<rparr>"

record 'c framed_write =
  fw_codec :: 'c
  fw_framer :: framer
  fw_state :: write_io_state

datatype 'i send_future = SendStart 'i | SendInFlight

text \<open>The synchronous middle part: clear, encode and frame in the scratch buffer.\<close>

definition prepare_frame ::
  "('c, 'i, 'e) encoder \<Rightarrow> 'c framed_write \<Rightarrow> iobuf \<Rightarrow> 'i \<Rightarrow> ('c framed_write \<times> iobuf \<times> ('e + unit)) option" where
  "prepare_frame E fw b item =
     do { b0 \<leftarrow> buf_clear b;
          if as_init b0 \<noteq> [] then Some (fw, b0, Inl (enc_from_io E InvalidInput))
          else
            do { (c, b1, r) \<leftarrow> encode E (fw_codec fw) item b0;
                 let fw = fw\<lparr>fw_codec := c\<rparr>;
                 case r of
                   Inl e \<Rightarrow> do { b2 \<leftarrow> buf_clear b1; Some (fw, b2, Inl e) }
                 | Inr _ \<Rightarrow>
                     (case framer_enclose (fw_framer fw) b1 of
                        (f, None) \<Rightarrow> None
                      | (f, Some (b2, Inl e)) \<Rightarrow>
                          do { b3 \<leftarrow> buf_clear b2;
                               Some (fw\<lparr>fw_framer := f\<rparr>, b3, Inl (enc_from_io E e)) }
                      | (f, Some (b2, Inr _)) \<Rightarrow> Some (fw\<lparr>fw_framer := f\<rparr>, b2, Inr ())) } }"

definition send_poll ::
  "('c, 'i, 'e) encoder \<Rightarrow> 'c framed_write \<Rightarrow> 'i send_future
     \<Rightarrow> ('c framed_write \<times> 'i send_future \<times> ('e + unit) poll) option" where
  "send_poll E fw fut =
     (case fut of
        SendInFlight \<Rightarrow>
          do { (st, r) \<leftarrow> settle_write (fw_state fw);
               let fw = fw\<lparr>fw_state := st\<rparr>;
               case r of
                 Pending \<Rightarrow> Some (fw, SendInFlight, Pending)
               | Ready (Some (Inr _)) \<Rightarrow> Some (fw, SendInFlight, Ready (Inr ()))
               | Ready (Some (Inl e)) \<Rightarrow> Some (fw, SendInFlight, Ready (Inl (enc_from_io E e)))
               | Ready None \<Rightarrow> None }
      | SendStart item \<Rightarrow>
          do { (st, r) \<leftarrow> settle_write (fw_state fw);
               let fw = fw\<lparr>fw_state := st\<rparr>;
               case r of
                 Pending \<Rightarrow> Some (fw, SendStart item, Pending)
               | Ready (Some (Inl e)) \<Rightarrow> Some (fw, SendStart item, Ready (Inl (enc_from_io E e)))
               | Ready _ \<Rightarrow>
                   (case st of
                      WIdle w b \<Rightarrow>
                        do { (fw, b, r) \<leftarrow> prepare_frame E fw b item;
                             case r of
                               Inl e \<Rightarrow> Some (fw\<lparr>fw_state := WIdle w b\<rparr>, SendStart item, Ready (Inl e))
                             | Inr _ \<Rightarrow>
                                 do { (st, r) \<leftarrow> settle_write (Writing w b 0);
                                      let fw = fw\<lparr>fw_state := st\<rparr>;
                                      case r of
                                        Pending \<Rightarrow> Some (fw, SendInFlight, Pending)
                                      | Ready (Some (Inr _)) \<Rightarrow> Some (fw, SendInFlight, Ready (Inr ()))
                                      | Ready (Some (Inl e)) \<Rightarrow>
                                          Some (fw, SendInFlight, Ready (Inl (enc_from_io E e)))
                                      | Ready None \<Rightarrow> None } }
                    | _ \<Rightarrow> None) })"

section \<open>Flushing and closing\<close>

definition flush_write :: "write_io_state \<Rightarrow> (write_io_state \<times> unit io_result poll) option" where
  "flush_write st =
     do { (st, r) \<leftarrow> settle_write st;
          case r of
            Pending \<Rightarrow> Some (st, Pending)
          | Ready (Some (Inl e)) \<Rightarrow> Some (st, Ready (Inl e))
          | Ready _ \<Rightarrow>
              (case st of
                 WIdle w b \<Rightarrow> (case poll_flush w of (w', p) \<Rightarrow> Some (WIdle w' b, p))
               | _ \<Rightarrow> None) }"

text \<open>\<^verbatim>\<open>close\<close> flushes and then shuts the transport down; \<open>flushed\<close> says which await it is at.\<close>

definition close_write :: "write_io_state \<Rightarrow> bool \<Rightarrow> (write_io_state \<times> bool \<times> unit io_result poll) option" where
  "close_write st flushed =
     do { (st, r) \<leftarrow> (if flushed then Some (st, Ready (Inr ())) else flush_write st);
          case r of
            Pending \<Rightarrow> Some (st, flushed, Pending)
          | Ready (Inl e) \<Rightarrow> Some (st, flushed, Ready (Inl e))
          | Ready (Inr _) \<Rightarrow>
              (case st of
                 WIdle w b \<Rightarrow> (case poll_shutdown w of (w', p) \<Rightarrow> Some (WIdle w' b, True, p))
               | _ \<Rightarrow> None) }"

section \<open>Taking the adapters apart\<close>

record 'c framed_read_parts =
  frp_io :: "read_event list"
  frp_codec :: 'c
  frp_framer :: framer
  frp_buf :: iobuf
  frp_unread :: "nat \<times> nat"

definition read_into_parts_unchecked :: "'c framed_read \<Rightarrow> 'c framed_read_parts option" where
  "read_into_parts_unchecked fd =
     (case fd_read fd of
        RIdle io rb \<Rightarrow>
          do { (b, start, stop) \<leftarrow> rb_into_parts rb;
               Some \<lparr>frp_io = io, frp_codec = fd_codec fd, frp_framer = fd_framer fd, frp_buf = b,
                     frp_unread = (start, stop)\<rparr> }
      | _ \<Rightarrow> None)"

definition read_try_into_parts :: "'c framed_read \<Rightarrow> ('c framed_read + 'c framed_read_parts) option" where
  "read_try_into_parts fd =
     (if is_reading (fd_read fd) then Some (Inl fd)
      else map_option Inr (read_into_parts_unchecked fd))"

definition read_from_parts :: "'c framed_read_parts \<Rightarrow> ('c framed_read_parts + 'c framed_read) option" where
  "read_from_parts p =
     (let (start, stop) = frp_unread p in
      if start \<le> stop \<and> stop = length (as_init (frp_buf p)) then
        (case rb_from_parts (frp_buf p) start stop of
           Some (Inr rb) \<Rightarrow>
             Some (Inr \<lparr>fd_codec = frp_codec p, fd_framer = frp_framer p, fd_read = RIdle (frp_io p) rb,
                        fd_state = Framing\<rparr>)
         | _ \<Rightarrow> None)
      else Some (Inl p))"

text \<open>One poll of \<^verbatim>\<open>into_parts\<close>: settle the retained read, then decompose.\<close>

definition read_into_parts ::
  "'c framed_read \<Rightarrow> ('c framed_read \<times> ('c framed_read_parts \<times> unit io_result) poll) option" where
  "read_into_parts fd =
     do { (st, r) \<leftarrow> settle_read (fd_read fd);
          let fd = fd\<lparr>fd_read := st\<rparr>;
          case r of
            Pending \<Rightarrow> Some (fd, Pending)
          | Ready x \<Rightarrow>
              do { parts \<leftarrow> read_into_parts_unchecked fd;
                   Some (fd, Ready (parts, case x of Some (Inl e) \<Rightarrow> Inl e | _ \<Rightarrow> Inr ())) } }"

definition write_into_parts ::
  "'c framed_write \<Rightarrow> ('c framed_write \<times> ((writer \<times> 'c \<times> framer \<times> iobuf) \<times> unit io_result) poll) option" where
  "write_into_parts fw =
     do { (st, r) \<leftarrow> settle_write (fw_state fw);
          let fw = fw\<lparr>fw_state := st\<rparr>;
          case r of
            Pending \<Rightarrow> Some (fw, Pending)
          | Ready x \<Rightarrow>
              (case st of
                 WIdle w b \<Rightarrow>
                   Some (fw, Ready ((w, fw_codec fw, fw_framer fw, b),
                                    case x of None \<Rightarrow> Inr () | Some q \<Rightarrow> q))
               | _ \<Rightarrow> None) }"

section \<open>The duplex adapter\<close>

text \<open>Both directions share codec and framer; each keeps its own retained operation.\<close>

record 'c framed =
  fx_codec :: 'c
  fx_framer :: framer
  fx_read :: read_io_state
  fx_write :: write_io_state
  fx_state :: decode_state

definition framed_with_buffer ::
  "read_event list \<Rightarrow> writer \<Rightarrow> 'c \<Rightarrow> framer \<Rightarrow> iobuf \<Rightarrow> iobuf \<Rightarrow> 'c framed option" where
  "framed_with_buffer r w c f read_buf write_buf =
     do { rb \<leftarrow> rb_new_with read_buf;
          Some \<lparr>fx_codec = c, fx_framer = f, fx_read = RIdle r rb, fx_write = WIdle w write_buf,
                fx_state = Framing\<rparr> }"

definition framed_next ::
  "('c, 'i, 'e) decoder \<Rightarrow> 'c framed \<Rightarrow> ('c framed \<times> ('i, 'e) next_result) option" where
  "framed_next D fx =
     do { (fd, r) \<leftarrow> next_item D \<lparr>fd_codec = fx_codec fx, fd_framer = fx_framer fx,
                                   fd_read = fx_read fx, fd_state = fx_state fx\<rparr>;
          Some (fx\<lparr>fx_codec := fd_codec fd, fx_framer := fd_framer fd, fx_read := fd_read fd,
                   fx_state := fd_state fd\<rparr>, r) }"

definition framed_send ::
  "('c, 'i, 'e) encoder \<Rightarrow> 'c framed \<Rightarrow> 'i send_future
     \<Rightarrow> ('c framed \<times> 'i send_future \<times> ('e + unit) poll) option" where
  "framed_send E fx fut =
     do { (fw, fut, r) \<leftarrow> send_poll E \<lparr>fw_codec = fx_codec fx, fw_framer = fx_framer fx,
                                        fw_state = fx_write fx\<rparr> fut;
          Some (fx\<lparr>fx_codec := fw_codec fw, fx_framer := fw_framer fw, fx_write := fw_state fw\<rparr>, fut, r) }"

section \<open>Framing a payload\<close>

fun enclosed_bytes :: "framer \<Rightarrow> u8 list \<Rightarrow> u8 list" where
  "enclosed_bytes (LengthDelimited l) p = length_prefix l (length p) @ p"
| "enclosed_bytes (CharDelimited c) p = p @ encode_utf8 (cd_char c)"
| "enclosed_bytes (AnyDelimited a) p = p @ ad_bytes a"
| "enclosed_bytes (NoopFramer n) p = p"

fun framer_accepts :: "framer \<Rightarrow> u8 list \<Rightarrow> bool" where
  "framer_accepts (LengthDelimited l) p \<longleftrightarrow> length p \<le> ld_max l \<and> length p \<le> max_payload (ld_field_len l)"
| "framer_accepts _ p = True"

fun framer_wf :: "framer \<Rightarrow> bool" where
  "framer_wf (LengthDelimited l) = ld_wf l"
| "framer_wf _ = True"

lemma framer_enclose_spec:
  assumes "movable b" "framer_wf f"
  shows "\<exists>f' b' r. framer_enclose f b = (f', Some (b', r)) \<and> movable b' \<and> framer_wf f'
    \<and> framer_fresh f' = framer_fresh f \<and> enclosed_bytes f' = enclosed_bytes f
    \<and> (case r of Inl e \<Rightarrow> as_init b' = as_init b
       | Inr _ \<Rightarrow> as_init b' = enclosed_bytes f (as_init b) \<and> framer_accepts f (as_init b))"
proof -
  have wf: "ib_wf b" "ib_kind b \<noteq> ArrayBuf" using assms(1) by (simp_all add: movable_def)
  have app: "\<exists>b' r. append_bytes b d = Some (b', r) \<and> movable b'
      \<and> (case r of Inl e \<Rightarrow> as_init b' = as_init b | Inr _ \<Rightarrow> as_init b' = as_init b @ d)" for d
    by (rule append_bytes_spec [OF wf(1), of d]) (use wf(2) in \<open>auto simp: movable_def\<close>)
  show ?thesis
  proof (cases f)
    case (LengthDelimited l)
    then have l: "ld_wf l" using assms(2) by simp
    show ?thesis
      by (rule ld_enclose_spec [OF wf(1) l])
        (use LengthDelimited l wf(2) in \<open>auto simp: movable_def buf_len_def\<close>)
  next
    case (CharDelimited c)
    then show ?thesis using app [of "encode_utf8 (cd_char c)"]
      by (fastforce simp: char_enclose_def delimiter_bytes_def Let_def fun_eq_iff split: sum.splits)
  next
    case (AnyDelimited a)
    then show ?thesis using app [of "ad_bytes a"] by (fastforce simp: any_enclose_def split: sum.splits)
  next
    case (NoopFramer n)
    then show ?thesis using assms by (simp add: noop_enclose_def)
  qed
qed

section \<open>The written stream\<close>

text \<open>What the sink has received together with what the retained write still owes it.\<close>

fun wio_stream :: "write_io_state \<Rightarrow> u8 list" where
  "wio_stream (WIdle w b) = wr_out w"
| "wio_stream (Writing w b n) = wr_out w @ drop n (as_init b)"
| "wio_stream WTransitioning = []"

fun wio_ok :: "write_io_state \<Rightarrow> bool" where
  "wio_ok (WIdle w b) \<longleftrightarrow> honest w \<and> movable b"
| "wio_ok (Writing w b n) \<longleftrightarrow> honest w \<and> movable b \<and> n \<le> length (as_init b)"
| "wio_ok WTransitioning = False"

lemma buf_clear_movable:
  assumes "movable b"
  shows "\<exists>b'. buf_clear b = Some b' \<and> movable b' \<and> as_init b' = []"
proof -
  have "buf_clear b = Some (b\<lparr>ib_len := 0\<rparr>)"
    using assms by (simp add: buf_clear_def movable_def set_len_movable)
  then show ?thesis using assms by (auto simp: movable_def ib_wf_def as_init_def)
qed

lemma settle_writing:
  assumes "honest w" "movable b" "n \<le> length (as_init b)"
  shows "\<exists>st' r. settle_write (Writing w b n) = Some (st', r) \<and> wio_ok st'
     \<and> (case r of
          Pending \<Rightarrow> wio_stream st' = wr_out w @ drop n (as_init b)
        | Ready (Some (Inr _)) \<Rightarrow> wio_stream st' = wr_out w @ drop n (as_init b) \<and> \<not> is_writing st'
        | Ready (Some (Inl e)) \<Rightarrow> prefix (wio_stream st') (wr_out w @ drop n (as_init b)) \<and> \<not> is_writing st'
        | Ready None \<Rightarrow> False)"
proof -
  obtain w' n' r where e: "write_all_poll w (as_init b) n = (w', n', r)" by (metis prod_cases3)
  note ok = write_all_poll_correct [OF assms(1,3) e]
  have split: "wr_out w @ drop n (as_init b) = wr_out w' @ drop n' (as_init b)"
    using ok append_take_drop_id [of "n' - n" "drop n (as_init b)"] by simp
  obtain b' where b': "buf_clear b = Some b'" "movable b'" using buf_clear_movable [OF assms(2)] by blast
  consider "r = Pending" | k where "r = Ready (Inr k)" | x where "r = Ready (Inl x)"
    by (cases r; cases "case r of Ready q \<Rightarrow> q") auto
  then show ?thesis
  proof cases
    case 1
    then show ?thesis using e ok split assms(2) by (simp add: settle_write_def)
  next
    case (2 k)
    then show ?thesis using e ok split b' by (simp add: settle_write_def)
  next
    case (3 x)
    then show ?thesis using e ok split assms(2) take_is_prefix by (simp add: settle_write_def)
  qed
qed

lemma settle_write_spec:
  assumes "wio_ok st"
  shows "\<exists>st' r. settle_write st = Some (st', r) \<and> wio_ok st'
     \<and> (case r of
          Pending \<Rightarrow> wio_stream st' = wio_stream st
        | Ready None \<Rightarrow> wio_stream st' = wio_stream st \<and> \<not> is_writing st'
        | Ready (Some (Inr _)) \<Rightarrow> wio_stream st' = wio_stream st \<and> \<not> is_writing st'
        | Ready (Some (Inl e)) \<Rightarrow> prefix (wio_stream st') (wio_stream st) \<and> \<not> is_writing st')"
proof (cases st)
  case (Writing w b n)
  then obtain st' r where "settle_write st = Some (st', r)" "wio_ok st'"
    "case r of
          Pending \<Rightarrow> wio_stream st' = wr_out w @ drop n (as_init b)
        | Ready (Some (Inr _)) \<Rightarrow> wio_stream st' = wr_out w @ drop n (as_init b) \<and> \<not> is_writing st'
        | Ready (Some (Inl e)) \<Rightarrow> prefix (wio_stream st') (wr_out w @ drop n (as_init b)) \<and> \<not> is_writing st'
        | Ready None \<Rightarrow> False"
    using settle_writing [of w b n] assms by auto
  then show ?thesis using Writing by (auto split: poll.splits option.splits sum.splits)
qed (use assms in \<open>auto simp: settle_write_def\<close>)

lemma prepare_frame_spec:
  assumes "movable b" "framer_wf (fw_framer fw)"
  shows "\<exists>fw' b' r. prepare_frame bytes_encoder fw b item = Some (fw', b', r) \<and> movable b'
    \<and> framer_wf (fw_framer fw') \<and> fw_state fw' = fw_state fw
    \<and> framer_fresh (fw_framer fw') = framer_fresh (fw_framer fw)
    \<and> enclosed_bytes (fw_framer fw') = enclosed_bytes (fw_framer fw)
    \<and> (case r of Inl e \<Rightarrow> as_init b' = []
       | Inr _ \<Rightarrow> as_init b' = enclosed_bytes (fw_framer fw) item \<and> framer_accepts (fw_framer fw) item)"
proof -
  obtain b0 where b0: "buf_clear b = Some b0" "movable b0" "as_init b0 = []"
    using buf_clear_movable [OF assms(1)] by blast
  have wf: "ib_wf b0" "ib_kind b0 \<noteq> ArrayBuf" using b0(2) by (simp_all add: movable_def)
  show ?thesis
  proof (rule append_bytes_spec [OF wf(1), of item])
    fix b1 e assume a: "append_bytes b0 item = Some (b1, Inl e)" "ib_wf b1" "ib_kind b1 = ib_kind b0"
    obtain b2 where "buf_clear b1 = Some b2" "movable b2" "as_init b2 = []"
      using buf_clear_movable [of b1] a wf(2) by (auto simp: movable_def)
    then show ?thesis using b0 a assms(2)
      by (simp add: prepare_frame_def bytes_encoder_def bytes_encode_def Let_def)
  next
    fix b1 assume a: "append_bytes b0 item = Some (b1, Inr ())" "ib_wf b1" "ib_kind b1 = ib_kind b0"
      "as_init b1 = as_init b0 @ item"
    have m1: "movable b1" using a wf(2) by (simp add: movable_def)
    obtain f' b2 r where f: "framer_enclose (fw_framer fw) b1 = (f', Some (b2, r))" "movable b2" "framer_wf f'"
      "framer_fresh f' = framer_fresh (fw_framer fw)" "enclosed_bytes f' = enclosed_bytes (fw_framer fw)"
      "case r of Inl e \<Rightarrow> as_init b2 = as_init b1
       | Inr _ \<Rightarrow> as_init b2 = enclosed_bytes (fw_framer fw) (as_init b1) \<and> framer_accepts (fw_framer fw) (as_init b1)"
      using framer_enclose_spec [OF m1 assms(2)] by blast
    obtain b3 where b3: "buf_clear b2 = Some b3" "movable b3" "as_init b3 = []"
      using buf_clear_movable [OF f(2)] by blast
    have enc: "prepare_frame bytes_encoder fw b item =
        (case r of Inl e \<Rightarrow> Some (fw\<lparr>fw_codec := fw_codec fw, fw_framer := f'\<rparr>, b3, Inl e)
         | Inr _ \<Rightarrow> Some (fw\<lparr>fw_codec := fw_codec fw, fw_framer := f'\<rparr>, b2, Inr ()))"
      using b0 a(1) f(1) b3(1)
      by (simp add: prepare_frame_def bytes_encoder_def bytes_encode_def Let_def split: sum.splits)
    show ?thesis using enc f a(4) b0(3) b3 by (cases r) simp_all
  qed
qed

definition fw_ok :: "'c framed_write \<Rightarrow> bool" where
  "fw_ok fw \<longleftrightarrow> wio_ok (fw_state fw) \<and> framer_wf (fw_framer fw)"

lemma send_start_spec:
  assumes "fw_ok fw"
  shows "\<exists>fw' fut r. send_poll bytes_encoder fw (SendStart item) = Some (fw', fut, r) \<and> fw_ok fw'
     \<and> enclosed_bytes (fw_framer fw') = enclosed_bytes (fw_framer fw)
     \<and> (let old = wio_stream (fw_state fw); new = wio_stream (fw_state fw');
             frame = enclosed_bytes (fw_framer fw) item in
        case r of
          Pending \<Rightarrow> (case fut of SendStart i \<Rightarrow> i = item \<and> new = old | SendInFlight \<Rightarrow> new = old @ frame)
        | Ready (Inr _) \<Rightarrow> new = old @ frame \<and> \<not> is_writing (fw_state fw') \<and> framer_accepts (fw_framer fw) item
        | Ready (Inl e) \<Rightarrow> prefix new (old @ frame) \<and> \<not> is_writing (fw_state fw'))"
proof -
  let ?old = "wio_stream (fw_state fw)" and ?frame = "enclosed_bytes (fw_framer fw) item"
  have ok: "wio_ok (fw_state fw)" "framer_wf (fw_framer fw)" using assms by (simp_all add: fw_ok_def)
  obtain st r where s: "settle_write (fw_state fw) = Some (st, r)" "wio_ok st"
    "case r of
          Pending \<Rightarrow> wio_stream st = ?old
        | Ready None \<Rightarrow> wio_stream st = ?old \<and> \<not> is_writing st
        | Ready (Some (Inr _)) \<Rightarrow> wio_stream st = ?old \<and> \<not> is_writing st
        | Ready (Some (Inl e)) \<Rightarrow> prefix (wio_stream st) ?old \<and> \<not> is_writing st"
    using settle_write_spec [OF ok(1)] by blast
  consider (pending) "r = Pending" | (failed) e where "r = Ready (Some (Inl e))"
    | (idle) "r = Ready None \<or> (\<exists>u. r = Ready (Some (Inr u)))"
    by (cases r; cases "case r of Ready q \<Rightarrow> q"; cases "case r of Ready q \<Rightarrow> the q") auto
  then show ?thesis
  proof cases
    case pending
    then show ?thesis using s ok by (simp add: send_poll_def fw_ok_def Let_def)
  next
    case (failed e)
    then show ?thesis using s ok by (simp add: send_poll_def fw_ok_def Let_def)
  next
    case idle
    then have st: "wio_stream st = ?old" "\<not> is_writing st" using s(3) by auto
    obtain w b where wb: "st = WIdle w b" using st(2) s(2) by (cases st) auto
    have m: "movable b" "honest w" using s(2) wb by simp_all
    let ?fw = "fw\<lparr>fw_state := st\<rparr>"
    have wf': "framer_wf (fw_framer ?fw)" using ok(2) by simp
    obtain fw' b' q where p: "prepare_frame bytes_encoder ?fw b item = Some (fw', b', q)" "movable b'"
      "framer_wf (fw_framer fw')" "enclosed_bytes (fw_framer fw') = enclosed_bytes (fw_framer ?fw)"
      "case q of Inl e \<Rightarrow> as_init b' = []
       | Inr _ \<Rightarrow> as_init b' = enclosed_bytes (fw_framer ?fw) item \<and> framer_accepts (fw_framer ?fw) item"
      using prepare_frame_spec [OF m(1) wf', of item] by blast
    have send: "send_poll bytes_encoder fw (SendStart item) =
       (case q of
          Inl e \<Rightarrow> Some (fw'\<lparr>fw_state := WIdle w b'\<rparr>, SendStart item, Ready (Inl e))
        | Inr _ \<Rightarrow>
            do { (st, r) \<leftarrow> settle_write (Writing w b' 0);
                 let fw = fw'\<lparr>fw_state := st\<rparr>;
                 case r of
                   Pending \<Rightarrow> Some (fw, SendInFlight, Pending)
                 | Ready (Some (Inr _)) \<Rightarrow> Some (fw, SendInFlight, Ready (Inr ()))
                 | Ready (Some (Inl e)) \<Rightarrow> Some (fw, SendInFlight, Ready (Inl (enc_from_io bytes_encoder e)))
                 | Ready None \<Rightarrow> None })"
      using idle s(1) wb p(1) by (auto simp: send_poll_def Let_def split: sum.splits)
    show ?thesis
    proof (cases q)
      case (Inl e)
      then show ?thesis using send p m(2) st wb by (simp add: fw_ok_def Let_def)
    next
      case (Inr u)
      have frame: "as_init b' = ?frame" "framer_accepts (fw_framer fw) item" using p(5) Inr by simp_all
      obtain st2 r2 where s2: "settle_write (Writing w b' 0) = Some (st2, r2)" "wio_ok st2"
        "case r2 of
          Pending \<Rightarrow> wio_stream st2 = wr_out w @ ?frame
        | Ready (Some (Inr _)) \<Rightarrow> wio_stream st2 = wr_out w @ ?frame \<and> \<not> is_writing st2
        | Ready (Some (Inl e)) \<Rightarrow> prefix (wio_stream st2) (wr_out w @ ?frame) \<and> \<not> is_writing st2
        | Ready None \<Rightarrow> False"
        using settle_writing [OF m(2) p(2) le0] unfolding frame(1) drop_0 by blast
      have old: "?old = wr_out w" using st(1) wb by simp
      consider "r2 = Pending" | u where "r2 = Ready (Some (Inr u))" | e where "r2 = Ready (Some (Inl e))"
        using s2(3) by (cases r2; cases "case r2 of Ready q \<Rightarrow> q"; cases "case r2 of Ready q \<Rightarrow> the q") auto
      then show ?thesis
        using send Inr s2 p(3,4) frame old by cases (simp_all add: fw_ok_def Let_def)
    qed
  qed
qed

text \<open>
  A frame is sent whole or not at all, also when sends are dropped half-way.  Consider the
  stream made of what the sink has received and what the retained write still owes it.  A poll
  of a \<^verbatim>\<open>send\<close> of a byte vector never panics.  While the future is still settling an earlier
  write, the stream does not change; once it has handed its item over, and when it succeeds,
  the stream has grown by exactly the framed payload - so a send that is dropped at any later
  point still delivers exactly its frame, before anything sent afterwards; on success nothing
  is owed any more.  On an error the sink holds a prefix of that stream.
\<close>

theorem framed_send_atomic:
  assumes "fw_ok fw"
  shows "\<exists>fw' fut r. send_poll bytes_encoder fw (SendStart item) = Some (fw', fut, r) \<and> fw_ok fw'
     \<and> enclosed_bytes (fw_framer fw') = enclosed_bytes (fw_framer fw)
     \<and> (let old = wio_stream (fw_state fw); new = wio_stream (fw_state fw');
             frame = enclosed_bytes (fw_framer fw) item in
        case r of
          Pending \<Rightarrow> (case fut of SendStart i \<Rightarrow> i = item \<and> new = old | SendInFlight \<Rightarrow> new = old @ frame)
        | Ready (Inr _) \<Rightarrow> new = old @ frame \<and> \<not> is_writing (fw_state fw') \<and> framer_accepts (fw_framer fw) item
        | Ready (Inl e) \<Rightarrow> prefix new (old @ frame) \<and> \<not> is_writing (fw_state fw'))"
  by (rule send_start_spec [OF assms])

lemma framed_send_atomic_witness:
  "\<exists>fw' fut r. send_poll bytes_encoder
       \<lparr>fw_codec = (), fw_framer = LengthDelimited ld_default,
        fw_state = WIdle \<lparr>wr_events = [Took 3, WBlocked, Took 9], wr_out = [], wr_flushes = 0, wr_shut = False\<rparr>
                     (vec_with_capacity 64 0)\<rparr> (SendStart [104, 105]) = Some (fw', fut, r)"
proof -
  have "fw_ok \<lparr>fw_codec = (), fw_framer = LengthDelimited ld_default,
        fw_state = WIdle \<lparr>wr_events = [Took 3, WBlocked, Took 9], wr_out = [], wr_flushes = 0, wr_shut = False\<rparr>
                     (vec_with_capacity 64 0)\<rparr>"
    by (simp add: fw_ok_def honest_def movable_def ib_wf_def vec_with_capacity_def isize_max_def ld_wf_def
        ld_default_def MAX_LFL_def DEFAULT_MAX_FRAME_LENGTH_def usize_max_def)
  from framed_send_atomic [OF this] show ?thesis by blast
qed

section \<open>From sender to receiver\<close>

text \<open>A poll of a send that has handed its item over keeps the stream.\<close>

lemma send_in_flight_spec:
  assumes "fw_ok fw" "is_writing (fw_state fw)"
  shows "\<exists>fw' r. send_poll E fw SendInFlight = Some (fw', SendInFlight, r) \<and> fw_ok fw'
     \<and> fw_framer fw' = fw_framer fw
     \<and> (case r of
          Ready (Inl e) \<Rightarrow> prefix (wio_stream (fw_state fw')) (wio_stream (fw_state fw))
        | _ \<Rightarrow> wio_stream (fw_state fw') = wio_stream (fw_state fw))"
proof -
  obtain w b n where st: "fw_state fw = Writing w b n" using assms(2) by (cases "fw_state fw") auto
  then have ok: "honest w" "movable b" "n \<le> length (as_init b)" "framer_wf (fw_framer fw)"
    using assms(1) by (simp_all add: fw_ok_def)
  obtain st' r where s: "settle_write (Writing w b n) = Some (st', r)" "wio_ok st'"
    "case r of
          Pending \<Rightarrow> wio_stream st' = wr_out w @ drop n (as_init b)
        | Ready (Some (Inr _)) \<Rightarrow> wio_stream st' = wr_out w @ drop n (as_init b) \<and> \<not> is_writing st'
        | Ready (Some (Inl e)) \<Rightarrow> prefix (wio_stream st') (wr_out w @ drop n (as_init b)) \<and> \<not> is_writing st'
        | Ready None \<Rightarrow> False"
    using settle_writing [OF ok(1-3)] by blast
  consider "r = Pending" | u where "r = Ready (Some (Inr u))" | e where "r = Ready (Some (Inl e))"
    using s(3) by (cases r; cases "case r of Ready q \<Rightarrow> q"; cases "case r of Ready q \<Rightarrow> the q") auto
  then show ?thesis
    using s ok st by cases (simp_all add: send_poll_def fw_ok_def Let_def)
qed

text \<open>
  Everything a task can do with the sending half that does not fail: start a send and poll it,
  poll it again, drop it at any suspension point (which is simply never polling it again) and
  start the next one.  \<open>sent fw ps fw'\<close> says that the payloads \<open>ps\<close> have been handed over.
\<close>

inductive sent :: "unit framed_write \<Rightarrow> u8 list list \<Rightarrow> unit framed_write \<Rightarrow> bool" for fw where
  sent_start: "sent fw [] fw"
| sent_waiting: "sent fw ps fw1 \<Longrightarrow> send_poll bytes_encoder fw1 (SendStart p) = Some (fw2, SendStart q, Pending)
    \<Longrightarrow> sent fw ps fw2"
| sent_handed: "sent fw ps fw1 \<Longrightarrow> send_poll bytes_encoder fw1 (SendStart p) = Some (fw2, SendInFlight, Pending)
    \<Longrightarrow> sent fw (ps @ [p]) fw2"
| sent_done: "sent fw ps fw1 \<Longrightarrow> send_poll bytes_encoder fw1 (SendStart p) = Some (fw2, fut, Ready (Inr u))
    \<Longrightarrow> sent fw (ps @ [p]) fw2"
| sent_resumed: "sent fw ps fw1 \<Longrightarrow> is_writing (fw_state fw1)
    \<Longrightarrow> send_poll bytes_encoder fw1 SendInFlight = Some (fw2, fut, r) \<Longrightarrow> \<nexists>e. r = Ready (Inl e)
    \<Longrightarrow> sent fw ps fw2"

lemma sent_stream:
  assumes "sent fw ps fw'" "fw_ok fw"
  shows "fw_ok fw' \<and> enclosed_bytes (fw_framer fw') = enclosed_bytes (fw_framer fw)
    \<and> wio_stream (fw_state fw') = wio_stream (fw_state fw) @ concat (map (enclosed_bytes (fw_framer fw)) ps)"
  using assms
proof (induction rule: sent.induct)
  case sent_start
  then show ?case by simp
next
  case (sent_waiting ps fw1 p fw2 q)
  then have "fw_ok fw1" by simp
  from send_start_spec [OF this, of p] show ?case using sent_waiting by (auto simp: Let_def)
next
  case (sent_handed ps fw1 p fw2)
  then have "fw_ok fw1" by simp
  from send_start_spec [OF this, of p] show ?case using sent_handed by (auto simp: Let_def)
next
  case (sent_done ps fw1 p fw2 fut u)
  then have "fw_ok fw1" by simp
  from send_start_spec [OF this, of p] show ?case using sent_done by (auto simp: Let_def)
next
  case (sent_resumed ps fw1 fw2 fut r)
  then have "fw_ok fw1" by simp
  from send_in_flight_spec [OF this sent_resumed(2), of bytes_encoder]
  obtain fw3 r' where x: "send_poll bytes_encoder fw1 SendInFlight = Some (fw3, SendInFlight, r')" "fw_ok fw3"
    "fw_framer fw3 = fw_framer fw1"
    "case r' of
          Ready (Inl e) \<Rightarrow> prefix (wio_stream (fw_state fw3)) (wio_stream (fw_state fw1))
        | _ \<Rightarrow> wio_stream (fw_state fw3) = wio_stream (fw_state fw1)" by blast
  have "wio_stream (fw_state fw3) = wio_stream (fw_state fw1)"
    using x(1,4) sent_resumed(3,4) by (auto split: poll.splits sum.splits)
  then show ?case using x sent_resumed by auto
qed

fun framer_carries :: "framer \<Rightarrow> u8 list \<Rightarrow> bool" where
  "framer_carries (LengthDelimited l) p \<longleftrightarrow> length p \<le> ld_max l \<and> length p \<le> max_payload (ld_field_len l)"
| "framer_carries (CharDelimited c) p \<longleftrightarrow>
     first_delimiter (encode_utf8 (cd_char c)) (cd_max c) (p @ encode_utf8 (cd_char c)) (length p)"
| "framer_carries (AnyDelimited a) p \<longleftrightarrow> first_delimiter (ad_bytes a) (ad_max a) (p @ ad_bytes a) (length p)"
| "framer_carries (NoopFramer n) p \<longleftrightarrow> False"

lemma delimited_spec_enclosed:
  assumes "d \<noteq> []" "first_delimiter d m (p @ d) (length p)" "length (p @ d) \<le> isize_max"
  shows "snd (extract_delimited (p @ d) d 0 m) = Inr (Some (frame_new 0 (length p) (length d)))"
proof (rule extract_delimited_cases [OF assms(1) isize_usize [OF assms(3)] resume_ok_zero, of m])
  fix q assume "first_delimiter d m (p @ d) q"
    "extract_delimited (p @ d) d 0 m = (0, Inr (Some (frame_new 0 q (length d))))"
  then show ?thesis using first_delimiter_unique [OF assms(2)] by auto
next
  assume "\<not> completable d m (p @ d)"
  then show ?thesis using first_delimiter_completable [OF assms(2)] by blast
next
  fix n' assume "\<forall>q \<le> m. \<not> occurs d q (p @ d)"
  then show ?thesis using assms(2) by (auto simp: first_delimiter_def)
qed

lemma framer_spec_enclosed:
  assumes "framer_streaming f" "framer_carries f p" "length (enclosed_bytes f p @ rest) \<le> isize_max"
  shows "\<exists>fr. framer_spec f (enclosed_bytes f p @ rest) = Inr (Some fr)
    \<and> frame_payload fr (enclosed_bytes f p @ rest) = p \<and> frame_extent fr = length (enclosed_bytes f p)
    \<and> 0 < frame_extent fr"
proof -
  have "\<exists>fr. framer_spec f (enclosed_bytes f p) = Inr (Some fr)
    \<and> frame_payload fr (enclosed_bytes f p) = p \<and> frame_extent fr = length (enclosed_bytes f p)
    \<and> 0 < frame_extent fr"
  proof (cases f)
    case (LengthDelimited l)
    then have "ld_wf l" "length p \<le> isize_max" using assms by simp_all
    then show ?thesis
      using assms LengthDelimited ld_extract_enclosed [OF _ refl, of l p "[]"]
      by (auto simp: framer_spec_def frame_new_def frame_payload_def frame_extent_def ld_wf_def)
  next
    case (CharDelimited c)
    then show ?thesis
      using assms delimited_spec_enclosed [of "encode_utf8 (cd_char c)" "cd_max c" p]
      by (auto simp: framer_spec_def frame_new_def frame_payload_def frame_extent_def char_extract_def
          delimiter_bytes_def Let_def split: prod.splits)
  next
    case (AnyDelimited a)
    then show ?thesis
      using assms delimited_spec_enclosed [of "ad_bytes a" "ad_max a" p]
      by (auto simp: framer_spec_def frame_new_def frame_payload_def frame_extent_def any_extract_def
          split: prod.splits)
  qed (use assms in simp)
  then obtain fr where fr: "framer_spec f (enclosed_bytes f p) = Inr (Some fr)"
    "frame_payload fr (enclosed_bytes f p) = p" "frame_extent fr = length (enclosed_bytes f p)"
    "0 < frame_extent fr" by blast
  then show ?thesis
    using framer_spec_prefix [OF fr(1) _ assms(3)] frame_payload_prefix [of fr "enclosed_bytes f p" rest] by simp
qed

lemma decode_enclosed:
  assumes "framer_streaming f"
  shows "\<forall>p \<in> set ps. framer_carries f p \<Longrightarrow> length (concat (map (enclosed_bytes f) ps)) \<le> isize_max \<Longrightarrow>
    decode_stream f bytes_codec () (concat (map (enclosed_bytes f) ps)) = map Inr ps"
proof (induction ps)
  case Nil
  then show ?case by (simp add: decode_stream.simps)
next
  case (Cons p ps)
  let ?rest = "concat (map (enclosed_bytes f) ps)"
  have len: "length (enclosed_bytes f p @ ?rest) \<le> isize_max" "framer_carries f p" using Cons.prems by simp_all
  obtain fr where fr: "framer_spec f (enclosed_bytes f p @ ?rest) = Inr (Some fr)"
    "frame_payload fr (enclosed_bytes f p @ ?rest) = p" "frame_extent fr = length (enclosed_bytes f p)"
    "0 < frame_extent fr"
    using framer_spec_enclosed [OF assms len(2,1)] by blast
  have "decode bytes_codec () (frame_payload fr (enclosed_bytes f p @ ?rest)) = ((), Inr p)"
    using fr(2) by (simp add: bytes_codec_def bytes_decode_def)
  from decode_stream_frame [OF fr(1,4) _ this] show ?case using Cons fr(3) by simp
qed

text \<open>
  C18. What is sent is what is received.  A sender with an empty sink hands over payloads - with
  sends that suspend, are resumed, or are dropped in favour of the next one, in any order of
  polls without an error - until its retained write is settled.  A receiver configured with the
  same framer, reading those bytes from a transport that may cut them anywhere and find nothing
  any number of times, yields exactly the payloads, in order, and then the end of the stream.
  Length-delimited framing carries every payload within its limits; delimiter framing carries
  the payloads in front of which no earlier delimiter appears.
\<close>

theorem framed_end_to_end:
  assumes "fw_ok fw" "fw_state fw = WIdle w b" "wr_out w = []"
    and "sent fw ps fw'" "fw_state fw' = WIdle w' b'"
    and "framer_streaming (fw_framer fw)" "framer_fresh (fw_framer fw) = fw_framer fw"
    and "\<forall>p \<in> set ps. framer_carries (fw_framer fw) p"
    and "delivers es (wr_out w')" "roomy limit (length (wr_out w'))" "cap \<le> isize_max"
  shows "\<exists>fd n. framed_read_with_buffer es () (fw_framer fw) (vec_with_capacity limit cap) = Some fd
     \<and> collect bytes_codec n fd = Some (map Inr ps)"
proof -
  have out: "wr_out w' = concat (map (enclosed_bytes (fw_framer fw)) ps)"
    using sent_stream [OF assms(4,1)] assms(2,3,5) by simp
  have "length (wr_out w') \<le> isize_max" using assms(10) by (simp add: roomy_def)
  then have "decode_stream (fw_framer fw) bytes_codec () (wr_out w') = map Inr ps"
    using decode_enclosed [OF assms(6,8)] out by simp
  then show ?thesis
    using collect_fresh_reader [OF assms(6,7,9,10,11), of "()" bytes_codec] by simp
qed

lemma framed_end_to_end_witness:
  "\<exists>fd n. framed_read_with_buffer [Got [104], Blocked, Got [105, 10], Got []] ()
       (CharDelimited (char_new 10)) (vec_with_capacity 64 0) = Some fd
     \<and> collect bytes_codec n fd = Some [Inr [104, 105]]"
proof -
  let ?w = "\<lambda>es out. \<lparr>wr_events = es, wr_out = out, wr_flushes = 0, wr_shut = False\<rparr>"
  let ?fw = "\<lambda>st. \<lparr>fw_codec = (), fw_framer = CharDelimited (char_new 10), fw_state = st\<rparr>"
  let ?f1 = "\<lambda>st. \<lparr>fw_codec = (), fw_framer = CharDelimited ((char_new 10)\<lparr>cd_buf := [10, 0, 0, 0]\<rparr>), fw_state = st\<rparr>"
  let ?fw0 = "?fw (WIdle (?w [Took 2, WBlocked, Took 9] []) (vec_with_capacity 64 0))"
  have d: "encode_utf8 10 = [10]" by (simp add: encode_utf8_def)
  have zeros: "replicate 3 (0 :: u8) = [0, 0, 0]" "replicate 5 (0 :: u8) = [0, 0, 0, 0, 0]"
    by (simp_all add: numeral_eq_Suc)
  have ok: "fw_ok ?fw0"
    by (simp add: fw_ok_def honest_def movable_def ib_wf_def vec_with_capacity_def isize_max_def)
  let ?b = "\<lambda>n. \<lparr>ib_kind = VecBuf 64, ib_mem = [104, 105, 10, 0, 0, 0, 0, 0], ib_len = n\<rparr>"
  let ?fw1 = "?f1 (Writing (?w [Took 9] [104, 105]) (?b 3) 2)"
  let ?fw2 = "?f1 (WIdle (?w [] [104, 105, 10]) (?b 0))"
  note run = send_poll_def settle_write_def prepare_frame_def bytes_encoder_def bytes_encode_def
    buf_clear_def vec_with_capacity_def set_len_def as_init_def as_uninit_def append_bytes_def extend_from_slice_def
    checked_add_def usize_max_def buf_reserve_def vec_try_reserve_def grown_capacity_def isize_max_def
    char_enclose_def delimiter_bytes_def d char_new_def write_at_def write_all_poll.simps poll_write_def Let_def
  have "send_poll bytes_encoder ?fw0 (SendStart [104, 105]) = Some (?fw1, SendInFlight, Pending)"
    using zeros by (simp add: run)
  from sent_handed [OF sent_start this] have s1: "sent ?fw0 [[104, 105]] ?fw1" by simp
  have s2: "send_poll bytes_encoder ?fw1 SendInFlight = Some (?fw2, SendInFlight, Ready (Inr ()))"
    by (simp add: run)
  have s3: "sent ?fw0 [[104, 105]] ?fw2" by (rule sent_resumed [OF s1 _ s2]) simp_all
  have "\<not> occurs [10] q [104, 105, 10]" if "q < 2" for q
  proof -
    have "q = 0 \<or> q = 1" using that by auto
    then show ?thesis by (auto simp: occurs_def)
  qed
  then have carries: "\<forall>p \<in> set [[104, 105]]. framer_carries (fw_framer ?fw0) p"
    by (simp add: char_new_def d first_delimiter_def DEFAULT_MAX_FRAME_LENGTH_def) (simp add: occurs_def)
  have room: "roomy 64 (Suc (Suc (Suc 0)))" by (simp add: roomy_def DEFAULT_RESERVE_def isize_max_def)
  have "\<exists>fd n. framed_read_with_buffer [Got [104], Blocked, Got [105, 10], Got []] ()
       (fw_framer ?fw0) (vec_with_capacity 64 0) = Some fd \<and> collect bytes_codec n fd = Some (map Inr [[104, 105]])"
    by (rule framed_end_to_end [OF ok _ _ s3 _ _ _ carries]) (simp add: room char_new_def)+
  then show ?thesis by simp
qed

end
