(* ===== verification/Timer.thy ===== *)
theory Timer
  imports Prelude
begin

text \<open>
  Timers (\<^verbatim>\<open>karmaio/src/time/\<close>): the ordered map of registered deadlines of \<^verbatim>\<open>driver.rs\<close>, the
  sleep, timeout and interval futures of \<^verbatim>\<open>sleep.rs\<close>, \<^verbatim>\<open>timeout.rs\<close> and \<^verbatim>\<open>interval.rs\<close>.

  An \<^verbatim>\<open>Instant\<close> is its distance in nanoseconds from the clock's origin and a \<^verbatim>\<open>Duration\<close> its length
  in nanoseconds.  The value of \<^verbatim>\<open>Instant::now()\<close> is an argument \<open>now\<close> of every operation that reads
  the clock.  \<^verbatim>\<open>CURRENT_TIMER\<close> is an argument of type \<open>timer option\<close>, \<open>None\<close> outside a runtime.
\<close>

section \<open>Keys\<close>

datatype timer_key = TimerKey (tk_deadline: nat) (tk_serial: u64)

instantiation timer_key :: linorder
begin

definition less_eq_timer_key :: "timer_key \<Rightarrow> timer_key \<Rightarrow> bool" where
  "a \<le> b \<longleftrightarrow> tk_deadline a < tk_deadline b \<or> tk_deadline a = tk_deadline b \<and> tk_serial a \<le> tk_serial b"

definition less_timer_key :: "timer_key \<Rightarrow> timer_key \<Rightarrow> bool" where
  "a < b \<longleftrightarrow> tk_deadline a < tk_deadline b \<or> tk_deadline a = tk_deadline b \<and> tk_serial a < tk_serial b"

instance
  by standard (auto simp: less_eq_timer_key_def less_timer_key_def timer_key.expand)

end

section \<open>The ordered map\<close>

text \<open>A \<^verbatim>\<open>BTreeMap\<close> is the list of its entries in ascending order of their keys.\<close>

type_synonym ('k, 'v) btree = "('k \<times> 'v) list"

fun bt_insert :: "'k :: linorder \<Rightarrow> 'v \<Rightarrow> ('k, 'v) btree \<Rightarrow> ('k, 'v) btree" where
  "bt_insert k v [] = [(k, v)]"
| "bt_insert k v ((k', v') # m) =
     (if k < k' then (k, v) # (k', v') # m
      else if k = k' then (k, v) # m
      else (k', v') # bt_insert k v m)"

definition bt_remove :: "'k \<Rightarrow> ('k, 'v) btree \<Rightarrow> ('k, 'v) btree" where
  "bt_remove k m = filter (\<lambda>e. fst e \<noteq> k) m"

definition bt_sorted :: "('k :: linorder, 'v) btree \<Rightarrow> bool" where
  "bt_sorted m \<longleftrightarrow> sorted_wrt (<) (map fst m)"

lemma bt_sorted_simps [simp]:
  "bt_sorted []"
  "bt_sorted ((k, v) # m) \<longleftrightarrow> (\<forall>k' \<in> fst ` set m. k < k') \<and> bt_sorted m"
  by (auto simp: bt_sorted_def)

lemma keys_bt_insert [simp]: "fst ` set (bt_insert k v m) = insert k (fst ` set m)"
  by (induction k v m rule: bt_insert.induct) auto

lemma bt_sorted_insert [simp]: "bt_sorted m \<Longrightarrow> bt_sorted (bt_insert k v m)"
  by (induction k v m rule: bt_insert.induct) auto

lemma map_of_bt_insert [simp]: "bt_sorted m \<Longrightarrow> map_of (bt_insert k v m) = (map_of m)(k \<mapsto> v)"
proof (induction k v m rule: bt_insert.induct)
  case (2 k v k' v' m)
  have "map_of m k = None" if "k < k'"
    using that 2 by (auto simp: map_of_eq_None_iff)
  then show ?case using 2 by (auto simp: fun_eq_iff)
qed auto

lemma map_of_bt_remove [simp]: "map_of (bt_remove k m) = (map_of m)(k := None)"
  by (induction m) (auto simp: bt_remove_def fun_eq_iff)

lemma bt_sorted_filter [simp]: "bt_sorted m \<Longrightarrow> bt_sorted (filter P m)"
  by (induction m) auto

lemma bt_sorted_remove [simp]: "bt_sorted m \<Longrightarrow> bt_sorted (bt_remove k m)"
  by (simp add: bt_remove_def)

lemma bt_sorted_distinct: "bt_sorted m \<Longrightarrow> distinct (map fst m)"
  by (induction m) fastforce+

section \<open>The timer\<close>

text \<open>\<^verbatim>\<open>will_wake\<close> is equality of the model's wakers.\<close>

datatype waker = NoopWaker | TaskWaker nat

record timer =
  tm_key :: u64
  tm_wheel :: "(timer_key, waker) btree"

definition timer_new :: timer where
  "timer_new = \<lparr>tm_key = 0, tm_wheel = []\<rparr>"

definition is_completed :: "timer \<Rightarrow> timer_key \<Rightarrow> bool" where
  "is_completed t k \<longleftrightarrow> map_of (tm_wheel t) k = None"

definition timer_insert :: "timer \<Rightarrow> nat \<Rightarrow> nat \<Rightarrow> timer \<times> timer_key option" where
  "timer_insert t now deadline =
     (if deadline \<le> now then (t, None)
      else let key = TimerKey deadline (tm_key t) in
        (t\<lparr>tm_wheel := bt_insert key NoopWaker (tm_wheel t), tm_key := tm_key t + 1\<rparr>, Some key))"

definition update_waker :: "timer \<Rightarrow> timer_key \<Rightarrow> waker \<Rightarrow> timer" where
  "update_waker t k w =
     (case map_of (tm_wheel t) k of
        Some w' \<Rightarrow> if w \<noteq> w' then t\<lparr>tm_wheel := bt_insert k w (tm_wheel t)\<rparr> else t
      | None \<Rightarrow> t)"

definition timer_cancel :: "timer \<Rightarrow> timer_key \<Rightarrow> timer" where
  "timer_cancel t k = t\<lparr>tm_wheel := bt_remove k (tm_wheel t)\<rparr>"

definition min_timeout :: "timer \<Rightarrow> nat \<Rightarrow> nat option" where
  "min_timeout t now =
     (case tm_wheel t of [] \<Rightarrow> None | (k, _) # _ \<Rightarrow> Some (tk_deadline k - now))"

text \<open>The loop of \<^verbatim>\<open>wake\<close> pops expired entries from the front; the wakers are woken in that order.\<close>

fun wake_loop :: "nat \<Rightarrow> (timer_key, waker) btree \<Rightarrow> (timer_key, waker) btree \<times> waker list" where
  "wake_loop now [] = ([], [])"
| "wake_loop now ((k, w) # m) =
     (if tk_deadline k \<le> now then (case wake_loop now m of (m', ws) \<Rightarrow> (m', w # ws))
      else ((k, w) # m, []))"

definition timer_wake :: "timer \<Rightarrow> nat \<Rightarrow> timer \<times> waker list" where
  "timer_wake t now = (case wake_loop now (tm_wheel t) of (m, ws) \<Rightarrow> (t\<lparr>tm_wheel := m\<rparr>, ws))"

definition timer_clear :: "timer \<Rightarrow> timer" where
  "timer_clear t = t\<lparr>tm_wheel := []\<rparr>"

definition poll_timer :: "timer \<Rightarrow> waker \<Rightarrow> timer_key \<Rightarrow> timer \<times> unit poll" where
  "poll_timer t w k =
     (if is_completed t k then (t, Ready ()) else (update_waker t k w, Pending))"

section \<open>Futures\<close>

text \<open>
  The \<^verbatim>\<open>sleep_until\<close> future before its first poll, while it holds a \<^verbatim>\<open>TimerFuture\<close>, and when done.
  Completion drops the \<^verbatim>\<open>TimerFuture\<close>, whose destructor cancels its key.
\<close>

datatype sleep_future = SleepUntil nat | Sleeping timer_key | SleepDone

fun sleep_poll :: "timer option \<Rightarrow> nat \<Rightarrow> waker \<Rightarrow> sleep_future \<Rightarrow> (timer \<times> sleep_future \<times> unit poll) option" where
  "sleep_poll None now w f = None"
| "sleep_poll (Some t) now w (SleepUntil deadline) =
     (case timer_insert t now deadline of
        (t, None) \<Rightarrow> Some (t, SleepDone, Ready ())
      | (t, Some k) \<Rightarrow>
          (case poll_timer t w k of
             (t, Ready _) \<Rightarrow> Some (timer_cancel t k, SleepDone, Ready ())
           | (t, Pending) \<Rightarrow> Some (t, Sleeping k, Pending)))"
| "sleep_poll (Some t) now w (Sleeping k) =
     (case poll_timer t w k of
        (t, Ready _) \<Rightarrow> Some (timer_cancel t k, SleepDone, Ready ())
      | (t, Pending) \<Rightarrow> Some (t, Sleeping k, Pending))"
| "sleep_poll (Some t) now w SleepDone = None"

fun sleep_drop :: "timer option \<Rightarrow> sleep_future \<Rightarrow> timer option" where
  "sleep_drop (Some t) (Sleeping k) = Some (timer_cancel t k)"
| "sleep_drop t _ = t"

text \<open>\<^verbatim>\<open>Instant + Duration\<close> panics past the largest representable instant (64-bit signed seconds).\<close>

definition INSTANT_MAX :: nat where
  "INSTANT_MAX = (2 ^ 63 - 1) * 1000000000 + 999999999"

definition instant_add :: "nat \<Rightarrow> nat \<Rightarrow> nat option" where
  "instant_add t d = (if t + d \<le> INSTANT_MAX then Some (t + d) else None)"

definition sleep_for :: "nat \<Rightarrow> nat \<Rightarrow> sleep_future option" where
  "sleep_for now duration = map_option SleepUntil (instant_add now duration)"

text \<open>
  \<^verbatim>\<open>timeout\<close> and \<^verbatim>\<open>timeout_at\<close>: the inner future is polled first, then the delay.  \<open>inner\<close> is the
  inner future's poll, which may itself use the timer.  \<open>Inl ()\<close> is \<^verbatim>\<open>Elapsed\<close>.
\<close>

definition timeout_poll ::
  "(timer option \<Rightarrow> 'f \<Rightarrow> (timer option \<times> 'f \<times> 'a poll) option)
     \<Rightarrow> timer option \<Rightarrow> nat \<Rightarrow> waker \<Rightarrow> 'f \<times> sleep_future
     \<Rightarrow> (timer option \<times> ('f \<times> sleep_future) \<times> (unit + 'a) poll) option" where
  "timeout_poll inner cur now w fut =
     (case inner cur (fst fut) of
        None \<Rightarrow> None
      | Some (cur, f, Ready output) \<Rightarrow> Some (cur, (f, snd fut), Ready (Inr output))
      | Some (cur, f, Pending) \<Rightarrow>
          (case sleep_poll cur now w (snd fut) of
             None \<Rightarrow> None
           | Some (t, d, Ready _) \<Rightarrow> Some (Some t, (f, d), Ready (Inl ()))
           | Some (t, d, Pending) \<Rightarrow> Some (Some t, (f, d), Pending)))"

section \<open>Intervals\<close>

record interval =
  iv_first_ticked :: bool
  iv_start :: nat
  iv_period :: nat

definition interval_at :: "nat \<Rightarrow> nat \<Rightarrow> interval option" where
  "interval_at start period =
     (if period > 0 then Some \<lparr>iv_first_ticked = False, iv_start = start, iv_period = period\<rparr> else None)"

definition interval_new :: "nat \<Rightarrow> nat \<Rightarrow> interval option" where
  "interval_new now period = interval_at now period"

definition interval_reset :: "interval \<Rightarrow> nat \<Rightarrow> nat option \<Rightarrow> interval" where
  "interval_reset iv now start =
     iv\<lparr>iv_start := (case start of Some s \<Rightarrow> s | None \<Rightarrow> now), iv_first_ticked := False\<rparr>"

text \<open>
  The instant a \<^verbatim>\<open>tick\<close> sleeps until, computed at its first poll.  Subtraction of instants
  saturates at zero; the remainder is narrowed to 64 bits; both additions to an instant are
  checked.
\<close>

definition tick_target :: "interval \<Rightarrow> nat \<Rightarrow> nat option" where
  "tick_target iv now =
     (if \<not> iv_first_ticked iv then Some (iv_start iv)
      else
        let elapsed_ns = now - iv_start iv;
            drift_ns = (elapsed_ns mod iv_period iv) mod 2 ^ 64 in
        case instant_add now (iv_period iv) of
          None \<Rightarrow> None
        | Some i \<Rightarrow> if drift_ns \<le> i then Some (i - drift_ns) else None)"

datatype tick_future = TickStart | TickSleep nat sleep_future

definition tick_await ::
  "timer option \<Rightarrow> nat \<Rightarrow> waker \<Rightarrow> interval \<Rightarrow> nat \<Rightarrow> sleep_future
     \<Rightarrow> (timer \<times> interval \<times> tick_future \<times> nat poll) option" where
  "tick_await cur now w iv target s =
     (case sleep_poll cur now w s of
        None \<Rightarrow> None
      | Some (t, s', Pending) \<Rightarrow> Some (t, iv, TickSleep target s', Pending)
      | Some (t, s', Ready _) \<Rightarrow>
          Some (t, iv\<lparr>iv_first_ticked := True\<rparr>, TickSleep target s', Ready target))"

fun tick_poll ::
  "timer option \<Rightarrow> nat \<Rightarrow> waker \<Rightarrow> interval \<Rightarrow> tick_future
     \<Rightarrow> (timer \<times> interval \<times> tick_future \<times> nat poll) option" where
  "tick_poll cur now w iv TickStart =
     (case tick_target iv now of
        None \<Rightarrow> None
      | Some target \<Rightarrow> tick_await cur now w iv target (SleepUntil target))"
| "tick_poll cur now w iv (TickSleep target s) = tick_await cur now w iv target s"

section \<open>Expiry\<close>

definition timer_wf :: "timer \<Rightarrow> bool" where
  "timer_wf t \<longleftrightarrow> bt_sorted (tm_wheel t) \<and> (\<forall>k w. map_of (tm_wheel t) k = Some w \<longrightarrow> tk_serial k < tm_key t)"

lemma wake_loop_spec:
  "bt_sorted m \<Longrightarrow> wake_loop now m =
     (filter (\<lambda>e. now < tk_deadline (fst e)) m, map snd (filter (\<lambda>e. tk_deadline (fst e) \<le> now) m))"
proof (induction now m rule: wake_loop.induct)
  case (2 now k w m)
  show ?case
  proof (cases "tk_deadline k \<le> now")
    case False
    then have "\<forall>e \<in> set m. now < tk_deadline (fst e)" using 2(2) by (fastforce simp: less_timer_key_def)
    then have "filter (\<lambda>e. now < tk_deadline (fst e)) m = m" "filter (\<lambda>e. tk_deadline (fst e) \<le> now) m = []"
      by (auto simp: filter_empty_conv filter_id_conv)
    then show ?thesis using False by simp
  qed (use 2 in auto)
qed simp

lemma map_of_filter_fst: "map_of (filter (\<lambda>e. P (fst e)) m) k = (if P k then map_of m k else None)"
  by (induction m) auto

lemma timer_wf_new [simp]: "timer_wf timer_new"
  by (simp add: timer_wf_def timer_new_def)

lemma word_less_Suc:
  assumes "(k :: u64) < - 1" "j \<le> k"
  shows "j < k + 1"
proof -
  have "1 + k \<noteq> 0" using assms(1) by (metis add.commute eq_neg_iff_add_eq_0 order_less_irrefl)
  then show ?thesis using assms(2) unatSuc [of k] by (simp add: word_less_nat_alt word_le_nat_alt add.commute)
qed

lemma timer_wf_insert:
  "timer_wf t \<Longrightarrow> tm_key t < - 1 \<Longrightarrow> timer_wf (fst (timer_insert t now d))"
  by (auto simp: timer_wf_def timer_insert_def Let_def intro: word_less_Suc less_imp_le)

lemma timer_wf_update: "timer_wf t \<Longrightarrow> timer_wf (update_waker t k w)"
  by (auto simp: timer_wf_def update_waker_def split: option.splits)

lemma timer_wf_poll: "timer_wf t \<Longrightarrow> timer_wf (fst (poll_timer t w k))"
  by (simp add: poll_timer_def timer_wf_update)

lemma timer_wf_cancel: "timer_wf t \<Longrightarrow> timer_wf (timer_cancel t k)"
  by (auto simp: timer_wf_def timer_cancel_def)

lemma timer_wf_wake: "timer_wf t \<Longrightarrow> timer_wf (fst (timer_wake t now))"
  using map_of_filter_fst [of "\<lambda>k. now < tk_deadline k" "tm_wheel t"]
  by (auto simp: timer_wf_def timer_wake_def wake_loop_spec split: if_splits)

text \<open>
  Expiry is exact.  On a well-formed timer, \<^verbatim>\<open>wake\<close> wakes the wakers of precisely the entries
  whose deadline has been reached, each once, ordered by deadline and, among equal deadlines, by
  registration; all other entries stay, and none of them is due.  \<^verbatim>\<open>min_timeout\<close> is the time to
  the earliest deadline: waiting that long and no less makes some entry due, and when it is
  absent no timer is registered.
\<close>

theorem timer_wake_exact:
  assumes "timer_wf t"
  shows "snd (timer_wake t now) = map snd (filter (\<lambda>e. tk_deadline (fst e) \<le> now) (tm_wheel t))
    \<and> tm_wheel (fst (timer_wake t now)) = filter (\<lambda>e. now < tk_deadline (fst e)) (tm_wheel t)
    \<and> sorted (map fst (tm_wheel t))
    \<and> (case min_timeout t now of
         None \<Rightarrow> tm_wheel t = []
       | Some d \<Rightarrow> (\<exists>e \<in> set (tm_wheel t). tk_deadline (fst e) - now = d)
                  \<and> (\<forall>e \<in> set (tm_wheel t). d \<le> tk_deadline (fst e) - now))"
proof -
  have srt: "bt_sorted (tm_wheel t)" using assms by (simp add: timer_wf_def)
  have "sorted (map fst (tm_wheel t))" using srt by (simp add: bt_sorted_def strict_sorted_imp_sorted)
  moreover have "d \<le> tk_deadline (fst e) - now" if "min_timeout t now = Some d" "e \<in> set (tm_wheel t)" for d e
  proof -
    from that obtain k w m where m: "tm_wheel t = (k, w) # m" "d = tk_deadline k - now"
      by (auto simp: min_timeout_def split: list.splits)
    have "e = (k, w) \<or> k < fst e" using that(2) m(1) srt by auto
    then show ?thesis using m(2) by (auto simp: less_timer_key_def)
  qed
  moreover have "\<exists>e \<in> set (tm_wheel t). tk_deadline (fst e) - now = d" if "min_timeout t now = Some d" for d
    using that by (fastforce simp: min_timeout_def split: list.splits)
  moreover have "min_timeout t now = None \<Longrightarrow> tm_wheel t = []" by (auto simp: min_timeout_def split: list.splits)
  ultimately show ?thesis using srt
    by (auto simp: timer_wake_def wake_loop_spec split: option.splits)
qed

definition demo_timer :: timer where
  "demo_timer = fst (timer_insert (fst (timer_insert timer_new 0 10)) 0 5)"

lemma demo_timer_wf: "timer_wf demo_timer"
proof -
  have "timer_wf (fst (timer_insert timer_new 0 10))" by (rule timer_wf_insert [OF timer_wf_new]) (simp add: timer_new_def word_gt_0)
  then show ?thesis unfolding demo_timer_def
    by (rule timer_wf_insert) (simp add: timer_insert_def timer_new_def Let_def word_less_nat_alt unsigned_minus_1_eq_mask mask_eq_exp_minus_1)
qed

lemma timer_wake_exact_witness:
  "snd (timer_wake demo_timer 7) = [NoopWaker]
   \<and> tm_wheel (fst (timer_wake demo_timer 7)) = [(TimerKey 10 0, NoopWaker)]"
  using timer_wake_exact [OF demo_timer_wf, of 7]
  by (simp add: demo_timer_def timer_insert_def timer_new_def less_timer_key_def Let_def)

section \<open>Sleeping\<close>

text \<open>What a runtime does with its timer between two polls of one sleep, in any order.\<close>

datatype timer_op =
    TInsert nat nat
  | TPoll waker timer_key
  | TCancel timer_key
  | TWake nat
  | TClear

fun timer_act :: "timer \<Rightarrow> timer_op \<Rightarrow> timer \<times> waker list" where
  "timer_act t (TInsert now d) = (fst (timer_insert t now d), [])"
| "timer_act t (TPoll w k) = (fst (poll_timer t w k), [])"
| "timer_act t (TCancel k) = (timer_cancel t k, [])"
| "timer_act t (TWake now) = timer_wake t now"
| "timer_act t TClear = (timer_clear t, [])"

fun run_timer :: "timer \<Rightarrow> timer_op list \<Rightarrow> timer \<times> waker list" where
  "run_timer t [] = (t, [])"
| "run_timer t (x # xs) =
     (case timer_act t x of (t1, ws) \<Rightarrow> (case run_timer t1 xs of (t2, ws') \<Rightarrow> (t2, ws @ ws')))"

fun ends_timer :: "timer_key \<Rightarrow> timer_op \<Rightarrow> bool" where
  "ends_timer k (TCancel k') \<longleftrightarrow> k' = k"
| "ends_timer k TClear \<longleftrightarrow> True"
| "ends_timer k (TWake now) \<longleftrightarrow> tk_deadline k \<le> now"
| "ends_timer k _ \<longleftrightarrow> False"

fun disturbs :: "timer_key \<Rightarrow> timer_op \<Rightarrow> bool" where
  "disturbs k (TCancel k') \<longleftrightarrow> k' = k"
| "disturbs k TClear \<longleftrightarrow> True"
| "disturbs k (TPoll w k') \<longleftrightarrow> k' = k"
| "disturbs k _ \<longleftrightarrow> False"

fun is_insert :: "timer_op \<Rightarrow> bool" where
  "is_insert (TInsert _ _) = True"
| "is_insert _ = False"

definition key_room :: "timer \<Rightarrow> timer_op list \<Rightarrow> bool" where
  "key_room t ops \<longleftrightarrow> unat (tm_key t) + length (filter is_insert ops) < 2 ^ 64"

lemma timer_key_wake [simp]: "tm_key (fst (timer_wake t now)) = tm_key t"
  by (simp add: timer_wake_def split: prod.splits)

lemma timer_key_poll [simp]: "tm_key (fst (poll_timer t w k)) = tm_key t"
  by (simp add: poll_timer_def update_waker_def split: option.splits)

lemma timer_key_insert:
  assumes "unat (tm_key t) + n < 2 ^ 64" "0 < n"
  shows "unat (tm_key (fst (timer_insert t now d))) + (n - 1) < 2 ^ 64" "tm_key t < - 1"
    "tm_key t \<le> tm_key (fst (timer_insert t now d))"
proof -
  have lt: "unat (tm_key t) < 2 ^ 64 - 1" using assms by simp
  then show small: "tm_key t < - 1"
    by (simp add: word_less_nat_alt unsigned_minus_1_eq_mask mask_eq_exp_minus_1)
  have "unat (tm_key t + 1) \<le> Suc (unat (tm_key t))"
    by (metis add.commute le_refl unatSuc unat_0 add.right_neutral eq_iff le0)
  then show "unat (tm_key (fst (timer_insert t now d))) + (n - 1) < 2 ^ 64"
    using assms by (auto simp: timer_insert_def Let_def)
  show "tm_key t \<le> tm_key (fst (timer_insert t now d))"
    using word_less_Suc [OF small order_refl] by (auto simp: timer_insert_def Let_def)
qed

lemma timer_act_keeps:
  assumes "timer_wf t" "key_room t (x # ops)"
  shows "timer_wf (fst (timer_act t x))" "key_room (fst (timer_act t x)) ops" "tm_key t \<le> tm_key (fst (timer_act t x))"
proof -
  have "timer_wf (fst (timer_act t x)) \<and> key_room (fst (timer_act t x)) ops
      \<and> tm_key t \<le> tm_key (fst (timer_act t x))"
  proof (cases x)
    case (TInsert now d)
    then show ?thesis
      using assms timer_wf_insert [OF assms(1)] 
        timer_key_insert(1,3) [where t = t and n = "Suc (length (filter is_insert ops))" and now = now and d = d]
        timer_key_insert(2) [where t = t and n = "Suc (length (filter is_insert ops))"]
      by (simp add: key_room_def)
  next
    case (TPoll w k)
    then show ?thesis using assms timer_wf_poll by (simp add: key_room_def)
  next
    case (TCancel k)
    then show ?thesis using assms timer_wf_cancel by (simp add: key_room_def timer_cancel_def)
  next
    case (TWake now)
    then show ?thesis using assms timer_wf_wake by (simp add: key_room_def)
  next
    case TClear
    then show ?thesis using assms by (simp add: key_room_def timer_clear_def timer_wf_def)
  qed
  then show "timer_wf (fst (timer_act t x))" "key_room (fst (timer_act t x)) ops"
    "tm_key t \<le> tm_key (fst (timer_act t x))" by simp_all
qed

lemma lookup_wake:
  "timer_wf t \<Longrightarrow> map_of (tm_wheel (fst (timer_wake t now))) k =
     (if now < tk_deadline k then map_of (tm_wheel t) k else None)"
  using map_of_filter_fst [of "\<lambda>k. now < tk_deadline k" "tm_wheel t" k]
  by (simp add: timer_wf_def timer_wake_def wake_loop_spec)

lemma lookup_insert:
  "timer_wf t \<Longrightarrow> tk_serial k < tm_key t \<Longrightarrow>
     map_of (tm_wheel (fst (timer_insert t now d))) k = map_of (tm_wheel t) k"
  by (auto simp: timer_insert_def Let_def timer_wf_def)

lemma lookup_poll:
  "timer_wf t \<Longrightarrow> map_of (tm_wheel (fst (poll_timer t w k'))) k =
     (if k' = k then map_option (\<lambda>_. w) (map_of (tm_wheel t) k) else map_of (tm_wheel t) k)"
  by (auto simp: poll_timer_def is_completed_def update_waker_def timer_wf_def split: option.splits)

lemma timer_act_completes:
  assumes "timer_wf t" "tk_serial k < tm_key t"
  shows "is_completed (fst (timer_act t x)) k \<longleftrightarrow> is_completed t k \<or> ends_timer k x"
  using assms
  by (cases x) (auto simp: is_completed_def lookup_insert lookup_poll lookup_wake timer_cancel_def timer_clear_def)

lemma run_timer_completes:
  assumes "timer_wf t" "tk_serial k < tm_key t" "key_room t ops"
  shows "is_completed (fst (run_timer t ops)) k \<longleftrightarrow> is_completed t k \<or> (\<exists>x \<in> set ops. ends_timer k x)"
  using assms
proof (induction ops arbitrary: t)
  case (Cons x xs)
  obtain t1 ws where op: "timer_act t x = (t1, ws)" by force
  note keep = timer_act_keeps [OF Cons.prems(1,3), unfolded op fst_conv]
  have "tk_serial k < tm_key t1" using keep(3) Cons.prems(2) by simp
  from Cons.IH [OF keep(1) this keep(2)] show ?case
    using timer_act_completes [OF Cons.prems(1,2), of x] op by (auto split: prod.splits)
qed simp

lemma run_timer_wakes:
  assumes "timer_wf t" "tk_serial k < tm_key t" "key_room t ops" "map_of (tm_wheel t) k = Some w"
    "\<forall>x \<in> set ops. \<not> disturbs k x" "TWake n \<in> set ops" "tk_deadline k \<le> n"
  shows "w \<in> set (snd (run_timer t ops))"
  using assms
proof (induction ops arbitrary: t)
  case (Cons x xs)
  obtain t1 ws where op: "timer_act t x = (t1, ws)" by force
  note keep = timer_act_keeps [OF Cons.prems(1,3), unfolded op fst_conv]
  have ser: "tk_serial k < tm_key t1" using keep(3) Cons.prems(2) by simp
  show ?case
  proof (cases "ends_timer k x")
    case True
    then obtain m where x: "x = TWake m" "tk_deadline k \<le> m" using Cons.prems(5) by (cases x) auto
    have "(k, w) \<in> set (tm_wheel t)" using Cons.prems(4) by (rule map_of_SomeD)
    then have "w \<in> set ws"
      using x op Cons.prems(1) by (force simp: timer_wake_def timer_wf_def wake_loop_spec)
    then show ?thesis using op by (auto split: prod.splits)
  next
    case False
    then have "map_of (tm_wheel t1) k = Some w"
      using Cons.prems op by (cases x) (auto simp: lookup_insert lookup_poll lookup_wake timer_cancel_def
          dest!: arg_cong [where f = fst])
    moreover have "TWake n \<in> set xs" using False Cons.prems(6,7) by auto
    ultimately show ?thesis
      using Cons.IH [OF keep(1) ser keep(2)] Cons.prems(5,7) op by (auto split: prod.splits)
  qed
qed simp

lemma sleep_first_poll:
  assumes "timer_wf t" "tm_key t < - 1"
  shows "sleep_poll (Some t) now w (SleepUntil d) =
    (if d \<le> now then Some (t, SleepDone, Ready ())
     else Some (update_waker (fst (timer_insert t now d)) (TimerKey d (tm_key t)) w,
                Sleeping (TimerKey d (tm_key t)), Pending))"
  using assms by (auto simp: timer_insert_def poll_timer_def is_completed_def Let_def timer_wf_def)

text \<open>
  C31. A sleep ends on time and is never forgotten.  A \<^verbatim>\<open>sleep_until\<close> completes at its first poll
  exactly when its deadline has passed.  Otherwise it stays pending, whatever else happens on
  the timer - other sleeps being created, polled, cancelled or expiring, in any order - until
  a \<^verbatim>\<open>wake\<close> at or after its deadline (or until its own key is cancelled or the runtime clears the
  timer): at its next poll it is ready in exactly that case.  And the first such \<^verbatim>\<open>wake\<close> wakes
  the task that polled it.  (Keys are 64-bit serial numbers; there is room for \<open>2^64\<close> timers.)
\<close>

theorem sleep_until_exact:
  assumes "timer_wf t" "key_room t (TInsert now d # ops)"
    and "sleep_poll (Some t) now w (SleepUntil d) = Some (t1, f, r)"
  shows "(r = Ready () \<longleftrightarrow> d \<le> now)
    \<and> (r = Pending \<longrightarrow> (\<exists>k. f = Sleeping k \<and> tk_deadline k = d
        \<and> (\<forall>now' w'. \<exists>t2 f'. sleep_poll (Some (fst (run_timer t1 ops))) now' w' f
              = Some (t2, f', if \<exists>x \<in> set ops. ends_timer k x then Ready () else Pending))
        \<and> ((\<forall>x \<in> set ops. \<not> disturbs k x) \<longrightarrow> (\<exists>n. TWake n \<in> set ops \<and> d \<le> n)
             \<longrightarrow> w \<in> set (snd (run_timer t1 ops)))))"
proof (cases "d \<le> now")
  case True
  then show ?thesis using assms by (auto simp: timer_insert_def)
next
  case False
  let ?k = "TimerKey d (tm_key t)" and ?t = "fst (timer_insert t now d)"
  have small: "tm_key t < - 1"
    by (rule timer_key_insert(2) [where n = 1]) (use assms(2) in \<open>simp_all add: key_room_def\<close>)
  have t1: "t1 = update_waker ?t ?k w" "f = Sleeping ?k" "r = Pending"
    using sleep_first_poll [OF assms(1) small] assms(3) False by auto
  have ins: "timer_wf ?t" "key_room ?t ops" "tm_key ?t = tm_key t + 1" "map_of (tm_wheel ?t) ?k = Some NoopWaker"
    using timer_act_keeps [OF assms(1,2)] False assms(1)
    by (simp_all add: timer_insert_def Let_def timer_wf_def)
  have up: "timer_wf t1" "key_room t1 ops" "map_of (tm_wheel t1) ?k = Some w" "tk_serial ?k < tm_key t1"
    using ins timer_wf_update [OF ins(1)] word_less_Suc [OF small order_refl] unfolding t1(1)
    by (simp_all add: update_waker_def key_room_def timer_wf_def)
  have "is_completed (fst (run_timer t1 ops)) ?k \<longleftrightarrow> (\<exists>x \<in> set ops. ends_timer ?k x)"
    using run_timer_completes [OF up(1,4,2)] up(3) by (simp add: is_completed_def)
  then have "\<exists>t2 f'. sleep_poll (Some (fst (run_timer t1 ops))) now' w' f
      = Some (t2, f', if \<exists>x \<in> set ops. ends_timer ?k x then Ready () else Pending)" for now' w'
    by (auto simp: t1(2) poll_timer_def)
  moreover have "w \<in> set (snd (run_timer t1 ops))"
    if "\<forall>x \<in> set ops. \<not> disturbs ?k x" "TWake n \<in> set ops" "d \<le> n" for n
    using run_timer_wakes [OF up(1,4,2,3) that(1,2)] that(3) by simp
  ultimately show ?thesis using False t1(2,3) by auto
qed

lemma sleep_until_exact_witness:
  "\<exists>t2 f'. sleep_poll (Some (fst (run_timer (update_waker (fst (timer_insert timer_new 3 10))
       (TimerKey 10 0) (TaskWaker 1)) [TWake 9, TInsert 9 20, TWake 10]))) 10 (TaskWaker 1) (Sleeping (TimerKey 10 0))
     = Some (t2, f', Ready ())"
proof -
  have room: "key_room timer_new (TInsert 3 10 # [TWake 9, TInsert 9 20, TWake 10])"
    by (simp add: key_room_def timer_new_def)
  have "sleep_poll (Some timer_new) 3 (TaskWaker 1) (SleepUntil 10) =
      Some (update_waker (fst (timer_insert timer_new 3 10)) (TimerKey 10 0) (TaskWaker 1),
            Sleeping (TimerKey 10 0), Pending)"
    using sleep_first_poll [OF timer_wf_new, of 3 "TaskWaker 1" 10] by (simp add: timer_new_def word_gt_0)
  from sleep_until_exact [OF timer_wf_new room this] show ?thesis by auto
qed

section \<open>Ticking\<close>

text \<open>
  C32. Ticks stay on the grid.  Once an interval has ticked first, a tick polled at \<open>now\<close> (not
  before the start) aims at the least instant after \<open>now\<close> of the form start plus a multiple of
  the period - so time lost between ticks never accumulates, and missed ticks are skipped.  This
  holds for every period below \<open>2^64\<close> nanoseconds, the bound the narrowing of the remainder
  needs, and fails only by a panic when the instant would overflow.
\<close>

theorem tick_target_on_grid:
  assumes "iv_first_ticked iv" "0 < iv_period iv" "iv_period iv < 2 ^ 64" "iv_start iv \<le> now"
  shows "case tick_target iv now of
      None \<Rightarrow> INSTANT_MAX < now + iv_period iv
    | Some next \<Rightarrow> now < next \<and> next \<le> now + iv_period iv
        \<and> next = iv_start iv + ((now - iv_start iv) div iv_period iv + 1) * iv_period iv"
proof -
  let ?e = "now - iv_start iv" and ?p = "iv_period iv"
  have m: "?e mod ?p < ?p" using assms(2) by simp
  then have trunc: "(?e mod ?p) mod 2 ^ 64 = ?e mod ?p" using assms(3) by simp
  have split: "?e = ?e div ?p * ?p + ?e mod ?p" by simp
  have "now = iv_start iv + ?e div ?p * ?p + ?e mod ?p" using split assms(4) by linarith
  then have "now + ?p - ?e mod ?p = iv_start iv + ?e div ?p * ?p + ?p" by linarith
  then have "now + ?p - ?e mod ?p = iv_start iv + (?e div ?p + 1) * ?p" by simp
  moreover have "now < now + ?p - ?e mod ?p" "now + ?p - ?e mod ?p \<le> now + ?p" "?e mod ?p \<le> now + ?p" using m by auto
  ultimately show ?thesis using assms(1) unfolding tick_target_def Let_def trunc
    by (auto simp: instant_add_def)
qed

lemma tick_target_on_grid_witness:
  "tick_target \<lparr>iv_first_ticked = True, iv_start = 5, iv_period = 10\<rparr> 38 = Some 45"
proof -
  have "tick_target \<lparr>iv_first_ticked = True, iv_start = 5, iv_period = 10\<rparr> 38 \<noteq> None"
    by (simp add: tick_target_def instant_add_def INSTANT_MAX_def)
  then show ?thesis
    using tick_target_on_grid [of "\<lparr>iv_first_ticked = True, iv_start = 5, iv_period = 10\<rparr>" 38] by auto
qed

text \<open>
  Resetting an interval without a start makes its next tick immediate: at the very next poll it
  is ready, and it yields the instant of the reset, not one period later.
\<close>

lemma interval_reset_ticks_at_once:
  "\<exists>iv'. tick_poll (Some t) now w (interval_reset iv now None) TickStart
     = Some (t, iv', TickSleep now SleepDone, Ready now)"
  by (simp add: interval_reset_def tick_target_def tick_await_def timer_insert_def)

end
