(* ===== verification/Blocking.thy ===== *)
theory Blocking
  imports Prelude "HOL-Library.Multiset"
begin

text \<open>
  The blocking thread pool (\<^verbatim>\<open>karmaio/src/runtime/blocking.rs\<close>).

  The fields under the pool's mutex are the record \<open>shared\<close>.  Every stretch of code that runs
  between acquiring and releasing the mutex is one function on it: \<open>dispatch_with\<close>, the worker's
  \<open>worker_top\<close> (the drain loop and the decision to wait or exit) and \<open>worker_woken\<close> (what follows the
  condition variable), the owner's \<open>shutdown_begin\<close>, \<open>owner_drain\<close> and \<open>owner_check\<close>.  Threads and their positions
  are the record \<open>pool\<close>, and \<open>pool_act\<close> is one step of one thread, so a run of the pool is any
  interleaving of such steps.  A waiting thread may be resumed at any time, signalled or not.

  A job is its serial number and its \<^verbatim>\<open>mandatory\<close> flag; the lists \<open>accepted\<close>, \<open>ran\<close> and \<open>dropped\<close> of the
  pool record what became of the jobs and are read by no operation.
\<close>

section \<open>The shared state\<close>

datatype job = Job (job_work: nat) (job_mandatory: bool)

record shared =
  sh_queue :: "job list"
  sh_num_notify :: nat
  sh_num_threads :: nat
  sh_num_idle :: nat
  sh_shutdown :: bool
  sh_complete :: bool
  sh_worker_threads :: "nat list"
  sh_next_thread_id :: nat

definition shared_new :: shared where
  "shared_new = \<lparr>sh_queue = [], sh_num_notify = 0, sh_num_threads = 0, sh_num_idle = 0, sh_shutdown = False,
                 sh_complete = False, sh_worker_threads = [], sh_next_thread_id = 0\<rparr>"

section \<open>Dispatching\<close>

datatype dispatch_effect = NoEffect | NotifyOne | Spawned

text \<open>\<open>spawn\<close> is what \<^verbatim>\<open>thread::Builder::spawn\<close> returns for a worker of the given number.\<close>

definition dispatch_with ::
  "nat \<Rightarrow> (nat \<Rightarrow> nat io_result) \<Rightarrow> job \<Rightarrow> shared \<Rightarrow> shared \<times> dispatch_effect \<times> unit io_result" where
  "dispatch_with thread_cap spawn job sh =
     (if sh_shutdown sh then (sh, NoEffect, Inl BrokenPipe)
      else
        let sh1 = sh\<lparr>sh_queue := sh_queue sh @ [job]\<rparr> in
        if sh_num_idle sh1 > 0 then
          (sh1\<lparr>sh_num_idle := sh_num_idle sh1 - 1, sh_num_notify := min (sh_num_notify sh1 + 1) u32_max\<rparr>,
           NotifyOne, Inr ())
        else if sh_num_threads sh1 < thread_cap then
          let id = sh_next_thread_id sh1;
              sh2 = sh1\<lparr>sh_next_thread_id := (id + 1) mod 2 ^ 64\<rparr> in
          case spawn id of
            Inr handle \<Rightarrow>
              (sh2\<lparr>sh_num_threads := sh_num_threads sh2 + 1,
                   sh_worker_threads := sh_worker_threads sh2 @ [handle]\<rparr>, Spawned, Inr ())
          | Inl err \<Rightarrow>
              if sh_num_threads sh2 > 0 then (sh2, NoEffect, Inr ())
              else (sh2\<lparr>sh_queue := butlast (sh_queue sh2)\<rparr>, NoEffect, Inl err)
        else (sh1, NoEffect, Inr ()))"

definition try_dispatch ::
  "nat \<Rightarrow> (nat \<Rightarrow> nat io_result) \<Rightarrow> nat \<Rightarrow> shared \<Rightarrow> shared \<times> dispatch_effect \<times> unit io_result" where
  "try_dispatch thread_cap spawn work = dispatch_with thread_cap spawn (Job work False)"

definition try_dispatch_mandatory ::
  "nat \<Rightarrow> (nat \<Rightarrow> nat io_result) \<Rightarrow> nat \<Rightarrow> shared \<Rightarrow> shared \<times> dispatch_effect \<times> unit io_result" where
  "try_dispatch_mandatory thread_cap spawn work = dispatch_with thread_cap spawn (Job work True)"

text \<open>The public \<^verbatim>\<open>dispatch\<close> panics when the job was not taken.\<close>

definition dispatch ::
  "nat \<Rightarrow> (nat \<Rightarrow> nat io_result) \<Rightarrow> nat \<Rightarrow> shared \<Rightarrow> (shared \<times> dispatch_effect) option" where
  "dispatch thread_cap spawn work sh =
     (case try_dispatch thread_cap spawn work sh of
        (sh', eff, Inr _) \<Rightarrow> Some (sh', eff)
      | (sh', eff, Inl _) \<Rightarrow> None)"

text \<open>The future behind \<^verbatim>\<open>spawn_blocking\<close>: its only poll takes the closure and runs it.\<close>

definition blocking_task_poll :: "('f \<Rightarrow> 'r) \<Rightarrow> 'f option \<Rightarrow> ('f option \<times> 'r poll) option" where
  "blocking_task_poll call func = map_option (\<lambda>f. (None, Ready (call f))) func"

section \<open>Workers\<close>

text \<open>Popping until a job is to be run: optional jobs are dropped once the pool shuts down.\<close>

fun drain_queue :: "bool \<Rightarrow> job list \<Rightarrow> job list \<times> job list \<times> job option" where
  "drain_queue shutdown [] = ([], [], None)"
| "drain_queue shutdown (j # q) =
     (if shutdown \<and> \<not> job_mandatory j
      then (case drain_queue shutdown q of (q', dropped, r) \<Rightarrow> (q', j # dropped, r))
      else (q, [], Some j))"

datatype worker = AtLock | Running job | Waiting bool | Exited

definition worker_exit :: "shared \<Rightarrow> shared" where
  "worker_exit sh = sh\<lparr>sh_num_threads := sh_num_threads sh - 1\<rparr>"

text \<open>From the top of the loop, the mutex held: the new state, what was dropped, where the worker is.\<close>

definition worker_top :: "shared \<Rightarrow> shared \<times> job list \<times> worker" where
  "worker_top sh =
     (case drain_queue (sh_shutdown sh) (sh_queue sh) of
        (q, dropped, Some j) \<Rightarrow> (sh\<lparr>sh_queue := q\<rparr>, dropped, Running j)
      | (q, dropped, None) \<Rightarrow>
          let sh = sh\<lparr>sh_queue := q\<rparr> in
          if sh_shutdown sh then (worker_exit sh, dropped, Exited)
          else (sh\<lparr>sh_num_idle := sh_num_idle sh + 1\<rparr>, dropped, Waiting False))"

text \<open>After \<^verbatim>\<open>wait_timeout\<close> has returned and the mutex is held again.\<close>

definition worker_woken :: "bool \<Rightarrow> shared \<Rightarrow> shared \<times> job list \<times> worker" where
  "worker_woken timed_out sh =
     (if sh_num_notify sh > 0 then worker_top (sh\<lparr>sh_num_notify := sh_num_notify sh - 1\<rparr>)
      else
        let sh = sh\<lparr>sh_num_idle := sh_num_idle sh - 1\<rparr> in
        if sh_shutdown sh then (worker_exit sh, [], Exited)
        else if timed_out \<and> sh_queue sh = [] then (worker_exit sh, [], Exited)
        else worker_top sh)"

section \<open>Shutting down\<close>

datatype owner = NotShutting | Draining | OwnerRunning job | Joining | Done bool

definition shutdown_begin :: "shared \<Rightarrow> shared" where
  "shutdown_begin sh = sh\<lparr>sh_shutdown := True\<rparr>"

text \<open>One pass of the owner's drain loop, up to the next job to run or the end of the queue.\<close>

definition owner_drain :: "shared \<Rightarrow> shared \<times> job list \<times> owner" where
  "owner_drain sh =
     (case drain_queue True (sh_queue sh) of
        (q, dropped, Some j) \<Rightarrow> (sh\<lparr>sh_queue := q\<rparr>, dropped, OwnerRunning j)
      | (q, dropped, None) \<Rightarrow> (sh\<lparr>sh_queue := q, sh_worker_threads := []\<rparr>, dropped, Joining))"

text \<open>One pass of the join loop; \<open>timed_out\<close> when the caller's deadline has passed.\<close>

definition owner_check :: "bool \<Rightarrow> shared \<Rightarrow> shared \<times> owner" where
  "owner_check timed_out sh =
     (if sh_num_threads sh > 0 \<and> \<not> timed_out then (sh, Joining)
      else (sh\<lparr>sh_complete := True\<rparr>, Done (sh_num_threads sh = 0)))"

text \<open>A later caller of \<^verbatim>\<open>shutdown\<close> only waits; the value says whether it returns now.\<close>

definition shutdown_again :: "bool \<Rightarrow> shared \<Rightarrow> bool" where
  "shutdown_again timed_out sh = (sh_complete sh \<or> timed_out)"

section \<open>The pool\<close>

record pool =
  p_shared :: shared
  p_workers :: "worker list"
  p_owner :: owner
  p_accepted :: "job list"
  p_ran :: "job list"
  p_dropped :: "job list"

definition pool_new :: "nat \<Rightarrow> pool option" where
  "pool_new thread_cap =
     (if thread_cap > 0
      then Some \<lparr>p_shared = shared_new, p_workers = [], p_owner = NotShutting, p_accepted = [], p_ran = [], p_dropped = []\<rparr>
      else None)"

fun signal :: "worker \<Rightarrow> worker" where
  "signal (Waiting s) = Waiting True"
| "signal w = w"

text \<open>
  \<^verbatim>\<open>notify_one\<close> resumes one waiting thread that is not resumed yet, if there is one; \<open>i\<close> is the
  scheduler's choice.
\<close>

definition notify_one :: "nat \<Rightarrow> worker list \<Rightarrow> worker list option" where
  "notify_one i ws =
     (if Waiting False \<notin> set ws then Some ws
      else if i < length ws \<and> ws ! i = Waiting False then Some (ws[i := Waiting True])
      else None)"

datatype pool_action =
    Dispatch job "nat io_result" nat
  | WorkerLock nat
  | WorkerFinish nat
  | WorkerWake nat bool
  | ShutdownCall
  | OwnerDrain
  | OwnerFinish
  | OwnerCheck bool

definition pool_dispatch :: "nat \<Rightarrow> job \<Rightarrow> nat io_result \<Rightarrow> nat \<Rightarrow> pool \<Rightarrow> pool option" where
  "pool_dispatch cap job spawned i p =
     (case dispatch_with cap (\<lambda>_. spawned) job (p_shared p) of
        (sh, eff, r) \<Rightarrow>
          map_option (\<lambda>ws. p\<lparr>p_shared := sh, p_workers := ws,
                             p_accepted := (case r of Inr _ \<Rightarrow> p_accepted p @ [job] | Inl _ \<Rightarrow> p_accepted p)\<rparr>)
            (case eff of
               NoEffect \<Rightarrow> Some (p_workers p)
             | NotifyOne \<Rightarrow> notify_one i (p_workers p)
             | Spawned \<Rightarrow> Some (p_workers p @ [AtLock])))"

text \<open>A worker's exit notifies every waiting thread.\<close>

definition worker_done :: "nat \<Rightarrow> pool \<Rightarrow> shared \<times> job list \<times> worker \<Rightarrow> pool" where
  "worker_done i p r =
     (case r of (sh, dropped, w) \<Rightarrow>
        p\<lparr>p_shared := sh, p_dropped := p_dropped p @ dropped,
          p_workers := (if w = Exited then map signal ((p_workers p)[i := w]) else (p_workers p)[i := w])\<rparr>)"

fun pool_act :: "nat \<Rightarrow> pool_action \<Rightarrow> pool \<Rightarrow> pool option" where
  "pool_act cap (Dispatch job spawned i) p = pool_dispatch cap job spawned i p"
| "pool_act cap (WorkerLock i) p =
     (if i < length (p_workers p) \<and> p_workers p ! i = AtLock
      then Some (worker_done i p (worker_top (p_shared p))) else None)"
| "pool_act cap (WorkerFinish i) p =
     (if i < length (p_workers p)
      then (case p_workers p ! i of
              Running j \<Rightarrow> Some (p\<lparr>p_ran := p_ran p @ [j], p_workers := (p_workers p)[i := AtLock]\<rparr>)
            | _ \<Rightarrow> None)
      else None)"
| "pool_act cap (WorkerWake i timed_out) p =
     (if i < length (p_workers p)
      then (case p_workers p ! i of
              Waiting s \<Rightarrow> Some (worker_done i p (worker_woken timed_out (p_shared p)))
            | _ \<Rightarrow> None)
      else None)"
| "pool_act cap ShutdownCall p =
     (if p_owner p = NotShutting \<and> \<not> sh_shutdown (p_shared p)
      then Some (p\<lparr>p_shared := shutdown_begin (p_shared p), p_workers := map signal (p_workers p),
                   p_owner := Draining\<rparr>)
      else None)"
| "pool_act cap OwnerDrain p =
     (if p_owner p = Draining
      then (case owner_drain (p_shared p) of
              (sh, dropped, ow) \<Rightarrow> Some (p\<lparr>p_shared := sh, p_dropped := p_dropped p @ dropped, p_owner := ow\<rparr>))
      else None)"
| "pool_act cap OwnerFinish p =
     (case p_owner p of
        OwnerRunning j \<Rightarrow> Some (p\<lparr>p_ran := p_ran p @ [j], p_owner := Draining\<rparr>)
      | _ \<Rightarrow> None)"
| "pool_act cap (OwnerCheck timed_out) p =
     (if p_owner p = Joining
      then (case owner_check timed_out (p_shared p) of
              (sh, ow) \<Rightarrow> Some (p\<lparr>p_shared := sh, p_owner := ow\<rparr>))
      else None)"

inductive pool_reach :: "nat \<Rightarrow> pool \<Rightarrow> bool" for cap where
  pool_start: "pool_new cap = Some p \<Longrightarrow> pool_reach cap p"
| pool_step: "pool_reach cap p \<Longrightarrow> pool_act cap a p = Some p' \<Longrightarrow> pool_reach cap p'"

section \<open>Counting workers\<close>

fun is_live :: "worker \<Rightarrow> bool" where
  "is_live Exited = False"
| "is_live _ = True"

fun is_waiting :: "worker \<Rightarrow> bool" where
  "is_waiting (Waiting _) = True"
| "is_waiting _ = False"

fun is_signalled :: "worker \<Rightarrow> bool" where
  "is_signalled (Waiting s) = s"
| "is_signalled _ = False"

fun is_active :: "worker \<Rightarrow> bool" where
  "is_active AtLock = True"
| "is_active (Running _) = True"
| "is_active _ = False"

definition wcount :: "(worker \<Rightarrow> bool) \<Rightarrow> worker list \<Rightarrow> nat" where
  "wcount P ws = length (filter P ws)"

lemma wcount_simps [simp]:
  "wcount P [] = 0"
  "wcount P (ws @ [w]) = wcount P ws + (if P w then 1 else 0)"
  by (simp_all add: wcount_def)

lemma wcount_update:
  "i < length ws \<Longrightarrow> wcount P (ws[i := w]) + (if P (ws ! i) then 1 else 0) = wcount P ws + (if P w then 1 else 0)"
  unfolding wcount_def by (rule length_filter_update)

lemma wcount_pos: "i < length ws \<Longrightarrow> P (ws ! i) \<Longrightarrow> 0 < wcount P ws"
  unfolding wcount_def using nth_mem by (force simp: filter_empty_conv)

lemma wcount_live: "wcount is_live ws = wcount is_active ws + wcount is_waiting ws"
  unfolding wcount_def
proof (induction ws)
  case (Cons w ws)
  then show ?case by (cases w) auto
qed simp

lemma wcount_signalled_le: "wcount is_signalled ws \<le> wcount is_waiting ws"
  unfolding wcount_def
proof (induction ws)
  case (Cons w ws)
  then show ?case by (cases w) auto
qed simp

lemma wcount_all_signalled: "Waiting False \<notin> set ws \<Longrightarrow> wcount is_signalled ws = wcount is_waiting ws"
  unfolding wcount_def
proof (induction ws)
  case (Cons w ws)
  then show ?case by (cases w) auto
qed simp

lemma wcount_signal [simp]:
  "wcount is_live (map signal ws) = wcount is_live ws"
  "wcount is_waiting (map signal ws) = wcount is_waiting ws"
  "wcount is_active (map signal ws) = wcount is_active ws"
  "wcount is_signalled (map signal ws) = wcount is_waiting ws"
proof (induction ws)
  case (Cons w ws)
  case 1 then show ?case using Cons by (cases w) (auto simp: wcount_def)
  case 2 then show ?case using Cons by (cases w) (auto simp: wcount_def)
  case 3 then show ?case using Cons by (cases w) (auto simp: wcount_def)
  case 4 then show ?case using Cons by (cases w) (auto simp: wcount_def)
qed (simp_all add: wcount_def)

lemma signal_all_signalled: "Waiting False \<notin> set (map signal ws)"
proof -
  have "signal w \<noteq> Waiting False" for w by (cases w) auto
  then show ?thesis by (metis in_set_conv_nth length_map nth_map)
qed

lemma drain_queue_spec:
  "drain_queue s q = (q', d, r) \<Longrightarrow>
     q = d @ (case r of None \<Rightarrow> [] | Some j \<Rightarrow> [j]) @ q' \<and> (\<forall>j \<in> set d. \<not> job_mandatory j)
     \<and> (\<not> s \<longrightarrow> d = []) \<and> (r = None \<longrightarrow> q' = [])"
  by (induction s q arbitrary: q' d r rule: drain_queue.induct) (auto split: if_splits prod.splits)

section \<open>The counters are exact\<close>

definition counts_ok :: "nat \<Rightarrow> shared \<Rightarrow> worker list \<Rightarrow> bool" where
  "counts_ok cap sh ws \<longleftrightarrow>
     sh_num_threads sh = wcount is_live ws \<and> wcount is_live ws \<le> cap
     \<and> sh_num_idle sh + sh_num_notify sh = wcount is_waiting ws
     \<and> sh_num_notify sh \<le> wcount is_signalled ws
     \<and> (sh_shutdown sh \<longrightarrow> Waiting False \<notin> set ws)
     \<and> (\<not> sh_shutdown sh \<and> sh_queue sh \<noteq> [] \<longrightarrow> 0 < sh_num_notify sh \<or> 0 < wcount is_active ws)"

text \<open>The worker's step, from a state in which it has been taken out of the waiting ones.\<close>

definition settled :: "nat \<Rightarrow> shared \<Rightarrow> worker list \<Rightarrow> nat \<Rightarrow> bool" where
  "settled cap sh ws i \<longleftrightarrow>
     sh_num_threads sh = wcount is_live ws \<and> wcount is_live ws \<le> cap
     \<and> sh_num_idle sh + sh_num_notify sh + (if is_waiting (ws ! i) then 1 else 0) = wcount is_waiting ws
     \<and> sh_num_notify sh + (if is_signalled (ws ! i) then 1 else 0) \<le> wcount is_signalled ws
     \<and> (sh_shutdown sh \<longrightarrow> Waiting False \<notin> set ws)"

lemma settled_result:
  assumes "settled cap sh ws i" "i < length ws" "is_live (ws ! i)"
  shows "counts_ok cap (sh\<lparr>sh_queue := q\<rparr>) (ws[i := Running j])"
    and "counts_ok cap (worker_exit (sh\<lparr>sh_queue := q\<rparr>)) (map signal (ws[i := Exited])) \<or> q \<noteq> [] \<and> \<not> sh_shutdown sh"
    and "\<not> sh_shutdown sh \<Longrightarrow> q = [] \<Longrightarrow>
      counts_ok cap (sh\<lparr>sh_queue := q, sh_num_idle := sh_num_idle sh + 1\<rparr>) (ws[i := Waiting False])"
proof -
  note u = wcount_update [OF assms(2)]
  have mem: "Waiting False \<in> set (ws[i := w]) \<Longrightarrow> w \<noteq> Waiting False \<Longrightarrow> Waiting False \<in> set ws" for w
    using set_update_subset_insert [of ws i w] by auto
  have "0 < wcount is_active (ws[i := Running j])" by (rule wcount_pos [of i]) (use assms(2) in auto)
  then show "counts_ok cap (sh\<lparr>sh_queue := q\<rparr>) (ws[i := Running j])"
    using assms u [of is_live "Running j"] u [of is_waiting "Running j"] u [of is_signalled "Running j"]
      mem [of "Running j"]
    unfolding counts_ok_def settled_def by (cases "ws ! i") auto
  show "counts_ok cap (worker_exit (sh\<lparr>sh_queue := q\<rparr>)) (map signal (ws[i := Exited])) \<or> q \<noteq> [] \<and> \<not> sh_shutdown sh"
    using assms u [of is_live Exited] u [of is_waiting Exited] u [of is_signalled Exited]
      signal_all_signalled [of "ws[i := Exited]"] wcount_signalled_le [of "ws[i := Exited]"]
    unfolding counts_ok_def settled_def worker_exit_def by (cases "ws ! i") auto
  show "\<not> sh_shutdown sh \<Longrightarrow> q = [] \<Longrightarrow>
      counts_ok cap (sh\<lparr>sh_queue := q, sh_num_idle := sh_num_idle sh + 1\<rparr>) (ws[i := Waiting False])"
    using assms u [of is_live "Waiting False"] u [of is_waiting "Waiting False"] u [of is_signalled "Waiting False"]
    unfolding counts_ok_def settled_def by (cases "ws ! i") auto
qed

lemma worker_top_counts:
  assumes "settled cap sh (p_workers p) i" "i < length (p_workers p)" "is_live (p_workers p ! i)"
  shows "counts_ok cap (p_shared (worker_done i p (worker_top sh))) (p_workers (worker_done i p (worker_top sh)))"
proof -
  obtain q d r where dr: "drain_queue (sh_shutdown sh) (sh_queue sh) = (q, d, r)" by (metis prod_cases3)
  have q: "r = None \<Longrightarrow> q = []" using drain_queue_spec [OF dr] by blast
  show ?thesis
    using settled_result [OF assms, of q] q
    by (cases r) (auto simp: worker_top_def dr worker_done_def Let_def)
qed

lemma worker_woken_counts:
  assumes "counts_ok cap sh (p_workers p)" "i < length (p_workers p)" "p_workers p ! i = Waiting s"
  shows "counts_ok cap (p_shared (worker_done i p (worker_woken t sh))) (p_workers (worker_done i p (worker_woken t sh)))"
proof -
  have pos: "0 < wcount is_waiting (p_workers p)" "s \<Longrightarrow> 0 < wcount is_signalled (p_workers p)"
    using wcount_pos [OF assms(2), of is_waiting] wcount_pos [OF assms(2), of is_signalled] assms(3) by auto
  have live: "is_live (p_workers p ! i)" using assms(3) by simp
  show ?thesis
  proof (cases "sh_num_notify sh > 0")
    case True
    then have "settled cap (sh\<lparr>sh_num_notify := sh_num_notify sh - 1\<rparr>) (p_workers p) i"
      using assms(1,3) unfolding counts_ok_def settled_def by auto
    from worker_top_counts [OF this assms(2) live] True show ?thesis by (simp add: worker_woken_def)
  next
    case False
    let ?sh = "sh\<lparr>sh_num_idle := sh_num_idle sh - 1\<rparr>"
    have s: "settled cap ?sh (p_workers p) i"
      using False assms(1,3) pos unfolding counts_ok_def settled_def by auto
    have ex: "counts_ok cap (worker_exit ?sh) (map signal ((p_workers p)[i := Exited]))"
      if "sh_shutdown sh \<or> sh_queue sh = []"
      using settled_result(2) [OF s assms(2) live, of "sh_queue sh"] that by auto
    show ?thesis using False ex worker_top_counts [OF s assms(2) live]
      by (auto simp: worker_woken_def worker_done_def Let_def)
  qed
qed

lemma dispatch_counts:
  assumes ok: "counts_ok cap (p_shared p) (p_workers p)" and cap: "0 < cap" "cap \<le> u32_max"
    and act: "pool_dispatch cap job spawned i p = Some p'"
  shows "counts_ok cap (p_shared p') (p_workers p')"
proof -
  let ?sh = "p_shared p" and ?ws = "p_workers p"
  have sig: "wcount is_signalled ?ws \<le> wcount is_waiting ?ws" "wcount is_live ?ws = wcount is_active ?ws + wcount is_waiting ?ws"
    by (rule wcount_signalled_le, rule wcount_live)
  show ?thesis
  proof (cases "sh_shutdown ?sh")
    case True
    then show ?thesis using act ok by (auto simp: pool_dispatch_def dispatch_with_def)
  next
    case up: False
    show ?thesis
    proof (cases "sh_num_idle ?sh > 0")
      case idle: True
      then have small: "sh_num_notify ?sh + 1 \<le> u32_max" using ok sig cap by (auto simp: counts_ok_def)
      from act idle up obtain ws where ws: "notify_one i ?ws = Some ws" "p_workers p' = ws"
        "p_shared p' = ?sh\<lparr>sh_queue := sh_queue ?sh @ [job], sh_num_idle := sh_num_idle ?sh - 1,
           sh_num_notify := sh_num_notify ?sh + 1\<rparr>"
        using small by (auto simp: pool_dispatch_def dispatch_with_def Let_def min_def)
      show ?thesis
      proof (cases "Waiting False \<in> set ?ws")
        case True
        then have w: "ws = ?ws[i := Waiting True]" "i < length ?ws" "?ws ! i = Waiting False"
          using ws(1) by (auto simp: notify_one_def split: if_splits)
        note u = wcount_update [OF w(2), where w = "Waiting True"]
        show ?thesis using ok up idle ws(2,3) w u [of is_live] u [of is_waiting] u [of is_signalled]
          by (auto simp: counts_ok_def)
      next
        case False
        then have "ws = ?ws" using ws(1) by (simp add: notify_one_def)
        then show ?thesis using ok up idle ws(2,3) wcount_all_signalled [OF False] by (auto simp: counts_ok_def)
      qed
    next
      case busy: False
      then show ?thesis using act up ok cap sig
        by (auto simp: pool_dispatch_def dispatch_with_def Let_def counts_ok_def split: sum.splits if_splits)
    qed
  qed
qed

lemma pool_act_counts:
  assumes ok: "counts_ok cap (p_shared p) (p_workers p)" and cap: "0 < cap" "cap \<le> u32_max"
    and act: "pool_act cap a p = Some p'"
  shows "counts_ok cap (p_shared p') (p_workers p')"
proof (cases a)
  case (Dispatch job spawned i)
  then show ?thesis using dispatch_counts [OF ok cap] act by simp
next
  case (WorkerLock i)
  then have i: "i < length (p_workers p)" "p_workers p ! i = AtLock"
    "p' = worker_done i p (worker_top (p_shared p))" using act by (auto split: if_splits)
  have "settled cap (p_shared p) (p_workers p) i" using ok i(2) by (auto simp: counts_ok_def settled_def)
  then show ?thesis using worker_top_counts i by simp
next
  case (WorkerFinish i)
  then obtain j where i: "i < length (p_workers p)" "p_workers p ! i = Running j"
    "p' = p\<lparr>p_ran := p_ran p @ [j], p_workers := (p_workers p)[i := AtLock]\<rparr>"
    using act by (auto split: if_splits worker.splits)
  note u = wcount_update [OF i(1), where w = AtLock]
  have "Waiting False \<in> set ((p_workers p)[i := AtLock]) \<Longrightarrow> Waiting False \<in> set (p_workers p)"
    using set_update_subset_insert [of "p_workers p" i AtLock] by auto
  moreover have "0 < wcount is_active ((p_workers p)[i := AtLock])" by (rule wcount_pos [of i]) (use i(1) in auto)
  ultimately show ?thesis using ok i(2,3) u [of is_live] u [of is_waiting] u [of is_signalled]
    by (auto simp: counts_ok_def)
next
  case (WorkerWake i t)
  then obtain s where "i < length (p_workers p)" "p_workers p ! i = Waiting s"
    "p' = worker_done i p (worker_woken t (p_shared p))" using act by (auto split: if_splits worker.splits)
  then show ?thesis using worker_woken_counts [OF ok] by simp
next
  case ShutdownCall
  then have p': "p' = p\<lparr>p_shared := shutdown_begin (p_shared p), p_workers := map signal (p_workers p),
      p_owner := Draining\<rparr>" using act by (auto split: if_splits)
  show ?thesis using ok wcount_signalled_le [of "p_workers p"] signal_all_signalled [of "p_workers p"]
    unfolding p' by (auto simp: counts_ok_def shutdown_begin_def)
next
  case OwnerDrain
  then show ?thesis using act ok drain_queue_spec
    by (fastforce simp: owner_drain_def counts_ok_def split: if_splits prod.splits option.splits)
next
  case OwnerFinish
  then show ?thesis using act ok by (auto split: owner.splits)
next
  case (OwnerCheck t)
  then show ?thesis using act ok by (auto simp: owner_check_def counts_ok_def split: if_splits)
qed

lemma pool_reach_counts:
  assumes "pool_reach cap p" "cap \<le> u32_max"
  shows "0 < cap \<and> counts_ok cap (p_shared p) (p_workers p)"
  using assms
proof (induction rule: pool_reach.induct)
  case (pool_start p)
  then show ?case by (auto simp: pool_new_def counts_ok_def shared_new_def split: if_splits)
next
  case (pool_step p a p')
  then show ?case using pool_act_counts [of cap p a p'] by blast
qed

section \<open>What becomes of the jobs\<close>

fun job_of :: "worker \<Rightarrow> job list" where
  "job_of (Running j) = [j]"
| "job_of _ = []"

fun owner_job :: "owner \<Rightarrow> job list" where
  "owner_job (OwnerRunning j) = [j]"
| "owner_job _ = []"

definition running_jobs :: "worker list \<Rightarrow> job multiset" where
  "running_jobs ws = mset (concat (map job_of ws))"

lemma running_jobs_update:
  "i < length ws \<Longrightarrow> running_jobs (ws[i := w]) + mset (job_of (ws ! i)) = running_jobs ws + mset (job_of w)"
  unfolding running_jobs_def
proof (induction ws arbitrary: i)
  case (Cons x xs)
  then show ?case by (cases i) (auto simp: union_ac)
qed simp

lemma running_jobs_signal [simp]: "running_jobs (map signal ws) = running_jobs ws"
proof -
  have "job_of (signal w) = job_of w" for w by (cases w) auto
  then show ?thesis by (simp add: running_jobs_def comp_def)
qed

lemma running_jobs_snoc [simp]: "running_jobs (ws @ [w]) = running_jobs ws + mset (job_of w)"
  by (simp add: running_jobs_def)

definition jobs_ok :: "pool \<Rightarrow> bool" where
  "jobs_ok p \<longleftrightarrow>
     mset (p_accepted p) = mset (sh_queue (p_shared p)) + running_jobs (p_workers p)
        + mset (owner_job (p_owner p)) + mset (p_ran p) + mset (p_dropped p)
     \<and> (\<forall>j \<in> set (p_dropped p). \<not> job_mandatory j)
     \<and> (p_owner p = NotShutting \<longleftrightarrow> \<not> sh_shutdown (p_shared p))
     \<and> (\<not> sh_shutdown (p_shared p) \<longrightarrow> p_dropped p = [])
     \<and> (p_owner p = Joining \<or> (\<exists>b. p_owner p = Done b) \<longrightarrow> sh_queue (p_shared p) = [])
     \<and> (p_owner p = Done True \<longrightarrow> sh_num_threads (p_shared p) = 0)
     \<and> (sh_complete (p_shared p) \<longleftrightarrow> (\<exists>b. p_owner p = Done b))"

lemma worker_top_jobs:
  assumes "worker_top sh = (sh', d, w)"
  shows "mset (sh_queue sh) = mset (sh_queue sh') + mset (job_of w) + mset d
    \<and> (\<forall>j \<in> set d. \<not> job_mandatory j) \<and> (\<not> sh_shutdown sh \<longrightarrow> d = [])
    \<and> (sh_queue sh = [] \<longrightarrow> sh_queue sh' = []) \<and> sh_shutdown sh' = sh_shutdown sh \<and> sh_complete sh' = sh_complete sh
    \<and> sh_num_threads sh' \<le> sh_num_threads sh"
proof -
  obtain q e r where dr: "drain_queue (sh_shutdown sh) (sh_queue sh) = (q, e, r)" by (metis prod_cases3)
  from drain_queue_spec [OF dr] show ?thesis using assms dr
    by (cases r) (auto simp: worker_top_def worker_exit_def Let_def split: if_splits)
qed

lemma worker_woken_jobs:
  assumes "worker_woken t sh = (sh', d, w)"
  shows "mset (sh_queue sh) = mset (sh_queue sh') + mset (job_of w) + mset d
    \<and> (\<forall>j \<in> set d. \<not> job_mandatory j) \<and> (\<not> sh_shutdown sh \<longrightarrow> d = [])
    \<and> (sh_queue sh = [] \<longrightarrow> sh_queue sh' = []) \<and> sh_shutdown sh' = sh_shutdown sh \<and> sh_complete sh' = sh_complete sh
    \<and> sh_num_threads sh' \<le> sh_num_threads sh"
  using assms worker_top_jobs [of "sh\<lparr>sh_num_notify := sh_num_notify sh - 1\<rparr>" sh' d w]
    worker_top_jobs [of "sh\<lparr>sh_num_idle := sh_num_idle sh - 1\<rparr>" sh' d w]
  by (auto simp: worker_woken_def worker_exit_def Let_def split: if_splits)

lemma worker_done_jobs:
  assumes "jobs_ok p" "i < length (p_workers p)" "job_of (p_workers p ! i) = []"
    and "mset (sh_queue (p_shared p)) = mset (sh_queue sh') + mset (job_of w) + mset d
    \<and> (\<forall>j \<in> set d. \<not> job_mandatory j) \<and> (\<not> sh_shutdown (p_shared p) \<longrightarrow> d = [])
    \<and> (sh_queue (p_shared p) = [] \<longrightarrow> sh_queue sh' = []) \<and> sh_shutdown sh' = sh_shutdown (p_shared p)
    \<and> sh_complete sh' = sh_complete (p_shared p) \<and> sh_num_threads sh' \<le> sh_num_threads (p_shared p)"
  shows "jobs_ok (worker_done i p (sh', d, w))"
proof -
  have "running_jobs ((p_workers p)[i := w]) = running_jobs (p_workers p) + mset (job_of w)"
    using running_jobs_update [OF assms(2), of w] assms(3) by simp
  then show ?thesis using assms(1,4)
    by (auto simp: jobs_ok_def worker_done_def union_ac)
qed

lemma dispatch_jobs:
  assumes "jobs_ok p" "pool_dispatch cap job spawned i p = Some p'"
  shows "jobs_ok p'"
proof (cases "sh_shutdown (p_shared p)")
  case True
  then show ?thesis using assms by (auto simp: pool_dispatch_def dispatch_with_def jobs_ok_def)
next
  case False
  have "running_jobs ws = running_jobs (p_workers p)" if "notify_one i (p_workers p) = Some ws" for ws
    using that running_jobs_update [of i "p_workers p" "Waiting True"]
    by (auto simp: notify_one_def split: if_splits)
  then show ?thesis using assms False
    by (auto simp: pool_dispatch_def dispatch_with_def Let_def jobs_ok_def split: sum.splits if_splits)
qed

lemma pool_act_jobs:
  assumes ok: "jobs_ok p" and act: "pool_act cap a p = Some p'"
  shows "jobs_ok p'"
proof (cases a)
  case (Dispatch job spawned i)
  then show ?thesis using dispatch_jobs [OF ok] act by simp
next
  case (WorkerLock i)
  then have i: "i < length (p_workers p)" "p_workers p ! i = AtLock"
    "p' = worker_done i p (worker_top (p_shared p))" using act by (auto split: if_splits)
  obtain sh' d w where "worker_top (p_shared p) = (sh', d, w)" by (metis prod_cases3)
  then show ?thesis using worker_done_jobs [OF ok i(1) _ worker_top_jobs] i by simp
next
  case (WorkerFinish i)
  then obtain j where i: "i < length (p_workers p)" "p_workers p ! i = Running j"
    "p' = p\<lparr>p_ran := p_ran p @ [j], p_workers := (p_workers p)[i := AtLock]\<rparr>"
    using act by (auto split: if_splits worker.splits)
  have "running_jobs (p_workers p) = running_jobs ((p_workers p)[i := AtLock]) + {#j#}"
    using running_jobs_update [OF i(1), of AtLock] i(2) by simp
  then show ?thesis using ok i(3) by (auto simp: jobs_ok_def union_ac)
next
  case (WorkerWake i t)
  then obtain s where i: "i < length (p_workers p)" "p_workers p ! i = Waiting s"
    "p' = worker_done i p (worker_woken t (p_shared p))" using act by (auto split: if_splits worker.splits)
  obtain sh' d w where "worker_woken t (p_shared p) = (sh', d, w)" by (metis prod_cases3)
  then show ?thesis using worker_done_jobs [OF ok i(1) _ worker_woken_jobs] i by simp
next
  case ShutdownCall
  then show ?thesis using act ok by (auto simp: jobs_ok_def shutdown_begin_def split: if_splits)
next
  case OwnerDrain
  obtain q d r where dr: "drain_queue True (sh_queue (p_shared p)) = (q, d, r)" by (metis prod_cases3)
  from drain_queue_spec [OF dr] show ?thesis using act ok OwnerDrain dr
    by (cases r) (auto simp: owner_drain_def jobs_ok_def union_ac split: if_splits)
next
  case OwnerFinish
  then show ?thesis using act ok by (auto simp: jobs_ok_def union_ac split: owner.splits)
next
  case (OwnerCheck t)
  then show ?thesis using act ok by (auto simp: owner_check_def jobs_ok_def split: if_splits)
qed

lemma pool_reach_jobs: "pool_reach cap p \<Longrightarrow> jobs_ok p"
proof (induction rule: pool_reach.induct)
  case (pool_start p)
  then show ?case by (auto simp: pool_new_def jobs_ok_def shared_new_def running_jobs_def split: if_splits)
qed (rule pool_act_jobs)

text \<open>
  C33. The pool never strands a job.  In every state reachable by any interleaving of dispatches,
  workers, time-outs, spurious wake-ups and a shutdown: the thread counter is the number of live
  workers and never exceeds the cap; idle and outstanding notifications together are the
  workers that wait; every outstanding notification has a resumed waiter to take it; and while
  the pool is open, a non-empty queue always has a worker that is running, on its way to the
  queue or resumed from its wait - a queued job never depends on a time-out.
\<close>

theorem pool_no_stranded_job:
  assumes "pool_reach cap p" "cap \<le> u32_max"
  shows "let sh = p_shared p; ws = p_workers p in
     sh_num_threads sh = length (filter is_live ws) \<and> sh_num_threads sh \<le> cap
     \<and> sh_num_idle sh + sh_num_notify sh = length (filter is_waiting ws)
     \<and> sh_num_notify sh \<le> length (filter is_signalled ws)
     \<and> (\<not> sh_shutdown sh \<and> sh_queue sh \<noteq> [] \<longrightarrow> (\<exists>w \<in> set ws. is_active w \<or> is_signalled w))"
proof -
  have c: "counts_ok cap (p_shared p) (p_workers p)" using pool_reach_counts [OF assms] by blast
  moreover have "\<exists>w \<in> set (p_workers p). P w" if "0 < wcount P (p_workers p)" for P
    using that by (auto simp: wcount_def filter_empty_conv)
  ultimately show ?thesis unfolding counts_ok_def wcount_def [symmetric] Let_def
    by (metis gr0I le_zero_eq)
qed

definition demo_pool :: pool where
  "demo_pool = \<lparr>p_shared = shared_new\<lparr>sh_queue := [Job 7 True], sh_num_threads := 1,
       sh_worker_threads := [0], sh_next_thread_id := 1\<rparr>, p_workers = [AtLock], p_owner = NotShutting,
     p_accepted = [Job 7 True], p_ran = [], p_dropped = []\<rparr>"

lemma demo_pool_reach: "pool_reach 2 demo_pool"
  by (rule pool_step [of _ "the (pool_new 2)" "Dispatch (Job 7 True) (Inr 0) 0"], rule pool_start)
    (simp_all add: pool_new_def pool_dispatch_def dispatch_with_def shared_new_def demo_pool_def Let_def)

lemma pool_no_stranded_job_witness:
  "sh_queue (p_shared demo_pool) \<noteq> [] \<and> (\<exists>w \<in> set (p_workers demo_pool). is_active w \<or> is_signalled w)"
  using pool_no_stranded_job [OF demo_pool_reach]
  by (simp add: u32_max_def demo_pool_def shared_new_def Let_def)



section \<open>Shutdown ends\<close>

fun worker_work :: "worker \<Rightarrow> nat" where
  "worker_work Exited = 0"
| "worker_work (Running _) = 2"
| "worker_work _ = 1"

fun owner_work :: "owner \<Rightarrow> nat" where
  "owner_work (Done _) = 0"
| "owner_work Joining = 1"
| "owner_work (OwnerRunning _) = 3"
| "owner_work _ = 2"

definition shutdown_work :: "pool \<Rightarrow> nat" where
  "shutdown_work p = 2 * length (sh_queue (p_shared p)) + sum_list (map worker_work (p_workers p)) + owner_work (p_owner p)"

lemma sum_list_update_work:
  "i < length ws \<Longrightarrow> sum_list (map worker_work (ws[i := w])) + worker_work (ws ! i)
     = sum_list (map worker_work ws) + worker_work w"
proof (induction ws arbitrary: i)
  case (Cons x xs)
  then show ?case by (cases i) auto
qed simp

lemma worker_work_signal [simp]: "sum_list (map (worker_work \<circ> signal) ws) = sum_list (map worker_work ws)"
proof -
  have "worker_work (signal w) = worker_work w" for w by (cases w) auto
  then show ?thesis by (simp add: comp_def)
qed

lemma drain_queue_work:
  "drain_queue s q = (q', d, r) \<Longrightarrow> length q' + (if r = None then 0 else 1) \<le> length q"
  using drain_queue_spec [of s q q' d r] by (auto split: option.splits)

lemma worker_top_work:
  assumes "sh_shutdown sh" "worker_top sh = (sh', d, w)"
  shows "2 * length (sh_queue sh') + worker_work w < 2 * length (sh_queue sh) + 1"
proof -
  obtain q e r where dr: "drain_queue (sh_shutdown sh) (sh_queue sh) = (q, e, r)" by (metis prod_cases3)
  from drain_queue_work [OF dr] drain_queue_spec [OF dr] assms dr show ?thesis
    by (cases r) (auto simp: worker_top_def worker_exit_def Let_def split: if_splits)
qed

lemma worker_woken_work:
  assumes "sh_shutdown sh" "worker_woken t sh = (sh', d, w)"
  shows "2 * length (sh_queue sh') + worker_work w < 2 * length (sh_queue sh) + 1"
  using assms worker_top_work [of "sh\<lparr>sh_num_notify := sh_num_notify sh - 1\<rparr>" sh' d w]
  by (auto simp: worker_woken_def worker_exit_def Let_def split: if_splits)

lemma worker_done_work:
  assumes "i < length (p_workers p)" "worker_work (p_workers p ! i) = 1"
    "2 * length (sh_queue sh') + worker_work w < 2 * length (sh_queue (p_shared p)) + 1"
  shows "shutdown_work (worker_done i p (sh', d, w)) < shutdown_work p"
  using sum_list_update_work [OF assms(1), of w] assms(2,3)
  by (auto simp: shutdown_work_def worker_done_def)

fun idle_step :: "pool \<Rightarrow> pool_action \<Rightarrow> bool" where
  "idle_step p (Dispatch _ _ _) = True"
| "idle_step p (OwnerCheck t) = (0 < sh_num_threads (p_shared p) \<and> \<not> t)"
| "idle_step p _ = False"

lemma pool_act_works:
  assumes "sh_shutdown (p_shared p)" "pool_act cap a p = Some p'" "\<not> idle_step p a"
  shows "shutdown_work p' < shutdown_work p"
proof (cases a)
  case (Dispatch job spawned i)
  then show ?thesis using assms(3) by simp
next
  case (WorkerLock i)
  then have i: "i < length (p_workers p)" "p_workers p ! i = AtLock"
    "p' = worker_done i p (worker_top (p_shared p))" using assms by (auto split: if_splits)
  obtain sh' d w where "worker_top (p_shared p) = (sh', d, w)" by (metis prod_cases3)
  then show ?thesis using worker_done_work [OF i(1) _ worker_top_work] i assms(1) by simp
next
  case (WorkerFinish i)
  then obtain j where i: "i < length (p_workers p)" "p_workers p ! i = Running j"
    "p' = p\<lparr>p_ran := p_ran p @ [j], p_workers := (p_workers p)[i := AtLock]\<rparr>"
    using assms by (auto split: if_splits worker.splits)
  then show ?thesis using sum_list_update_work [OF i(1), of AtLock] by (simp add: shutdown_work_def)
next
  case (WorkerWake i t)
  then obtain s where i: "i < length (p_workers p)" "p_workers p ! i = Waiting s"
    "p' = worker_done i p (worker_woken t (p_shared p))" using assms by (auto split: if_splits worker.splits)
  obtain sh' d w where "worker_woken t (p_shared p) = (sh', d, w)" by (metis prod_cases3)
  then show ?thesis using worker_done_work [OF i(1) _ worker_woken_work] i assms(1) by simp
next
  case ShutdownCall
  then show ?thesis using assms by simp
next
  case OwnerDrain
  obtain q d r where dr: "drain_queue True (sh_queue (p_shared p)) = (q, d, r)" by (metis prod_cases3)
  from drain_queue_work [OF dr] drain_queue_spec [OF dr] show ?thesis using assms OwnerDrain dr
    by (cases r) (auto simp: owner_drain_def shutdown_work_def split: if_splits)
next
  case OwnerFinish
  then show ?thesis using assms by (auto simp: shutdown_work_def split: owner.splits)
next
  case (OwnerCheck t)
  then show ?thesis using assms by (auto simp: owner_check_def shutdown_work_def split: if_splits)
qed

text \<open>A step the system takes on its own: no time-out, and only a resumed waiter wakes.\<close>

fun unforced :: "pool \<Rightarrow> pool_action \<Rightarrow> bool" where
  "unforced p (Dispatch _ _ _) = False"
| "unforced p (WorkerWake i t) = (\<not> t \<and> p_workers p ! i = Waiting True)"
| "unforced p (OwnerCheck t) = (\<not> t)"
| "unforced p _ = True"

lemma sum_list_zero: "sum_list (map worker_work ws) = 0 \<longleftrightarrow> (\<forall>w \<in> set ws. w = Exited)"
proof -
  have "worker_work w = 0 \<longleftrightarrow> w = Exited" for w by (cases w) auto
  then show ?thesis by simp
qed

lemma shutdown_work_zero:
  assumes "jobs_ok p"
  shows "shutdown_work p = 0 \<longleftrightarrow> (\<forall>w \<in> set (p_workers p). w = Exited) \<and> (\<exists>b. p_owner p = Done b)"
proof -
  have "owner_work (p_owner p) = 0 \<longleftrightarrow> (\<exists>b. p_owner p = Done b)" by (cases "p_owner p") auto
  then show ?thesis using assms sum_list_zero by (auto simp: shutdown_work_def jobs_ok_def)
qed

lemma pool_act_work:
  assumes "sh_shutdown (p_shared p)" "pool_act cap a p = Some p'"
  shows "p' = p \<or> shutdown_work p' < shutdown_work p"
proof (cases "idle_step p a")
  case True
  then show ?thesis using assms
    by (cases a) (auto simp: pool_dispatch_def dispatch_with_def owner_check_def split: if_splits)
qed (use pool_act_works [OF assms] in blast)

lemma shutdown_progress:
  assumes j: "jobs_ok p" and c: "counts_ok cap (p_shared p) (p_workers p)" and sd: "sh_shutdown (p_shared p)"
    and w: "shutdown_work p \<noteq> 0"
  shows "\<exists>a p'. unforced p a \<and> \<not> idle_step p a \<and> pool_act cap a p = Some p'"
proof (cases "\<forall>w \<in> set (p_workers p). w = Exited")
  case False
  then obtain i where i: "i < length (p_workers p)" "p_workers p ! i \<noteq> Exited" by (auto simp: in_set_conv_nth)
  have "p_workers p ! i \<noteq> Waiting False" using c sd i(1) nth_mem by (force simp: counts_ok_def)
  then consider "p_workers p ! i = AtLock" | j where "p_workers p ! i = Running j" | "p_workers p ! i = Waiting True"
    using i(2) by (cases "p_workers p ! i") auto
  then show ?thesis
  proof cases
    case 1 then show ?thesis using i(1) by (intro exI [of _ "WorkerLock i"]) simp
  next
    case 2 then show ?thesis using i(1) by (intro exI [of _ "WorkerFinish i"]) simp
  next
    case 3 then show ?thesis using i(1) by (intro exI [of _ "WorkerWake i False"]) simp
  qed
next
  case True
  then have threads: "sh_num_threads (p_shared p) = 0"
    using c by (auto simp: counts_ok_def wcount_def filter_empty_conv)
  have "\<nexists>b. p_owner p = Done b" "p_owner p \<noteq> NotShutting"
    using w True shutdown_work_zero [OF j] j sd by (auto simp: jobs_ok_def)
  then consider "p_owner p = Draining" | j where "p_owner p = OwnerRunning j" | "p_owner p = Joining"
    by (cases "p_owner p") auto
  then show ?thesis
  proof cases
    case 1 then show ?thesis by (intro exI [of _ OwnerDrain]) (simp split: prod.splits)
  next
    case 2 then show ?thesis by (intro exI [of _ OwnerFinish]) simp
  next
    case 3 then show ?thesis using threads by (intro exI [of _ "OwnerCheck False"]) (simp split: prod.splits)
  qed
qed

text \<open>
  C17. Shutting the pool down terminates.  From any reachable state in which the shutdown has
  begun, every step that changes the state at all - a worker's, the owner's, or a time-out -
  strictly decreases a bound computed from the state, and until the bound is zero some step is
  enabled that needs no time-out and no spurious wake-up.  So, provided the jobs themselves
  return, every run reaches the state with bound zero, which is exactly the one in which all
  workers have exited and the shutdown has returned.
\<close>

theorem pool_shutdown_terminates:
  assumes "pool_reach cap p" "cap \<le> u32_max" "sh_shutdown (p_shared p)"
  shows "(\<forall>a p'. pool_act cap a p = Some p' \<longrightarrow> p' = p \<or> shutdown_work p' < shutdown_work p)
    \<and> (shutdown_work p = 0 \<longleftrightarrow> (\<forall>w \<in> set (p_workers p). w = Exited) \<and> (\<exists>b. p_owner p = Done b))
    \<and> (shutdown_work p \<noteq> 0 \<longrightarrow>
         (\<exists>a p'. unforced p a \<and> pool_act cap a p = Some p' \<and> shutdown_work p' < shutdown_work p))"
proof -
  have j: "jobs_ok p" by (rule pool_reach_jobs [OF assms(1)])
  have c: "counts_ok cap (p_shared p) (p_workers p)" using pool_reach_counts [OF assms(1,2)] by blast
  show ?thesis
  proof (intro conjI allI impI)
    show "p' = p \<or> shutdown_work p' < shutdown_work p" if "pool_act cap a p = Some p'" for a p'
      by (rule pool_act_work [OF assms(3) that])
    show "shutdown_work p = 0 \<longleftrightarrow> (\<forall>w \<in> set (p_workers p). w = Exited) \<and> (\<exists>b. p_owner p = Done b)"
      by (rule shutdown_work_zero [OF j])
    assume "shutdown_work p \<noteq> 0"
    then obtain a p' where a: "unforced p a" "\<not> idle_step p a" "pool_act cap a p = Some p'"
      using shutdown_progress [OF j c assms(3)] by blast
    then show "\<exists>a p'. unforced p a \<and> pool_act cap a p = Some p' \<and> shutdown_work p' < shutdown_work p"
      using pool_act_works [OF assms(3) a(3,2)] by blast
  qed
qed

lemma pool_shutdown_terminates_witness:
  "let p = the (pool_act 2 ShutdownCall demo_pool) in
     shutdown_work p = 5 \<and> (\<exists>a p'. unforced p a \<and> pool_act 2 a p = Some p' \<and> shutdown_work p' < shutdown_work p)"
proof -
  let ?p = "the (pool_act 2 ShutdownCall demo_pool)"
  have s: "pool_act 2 ShutdownCall demo_pool = Some ?p" by (simp add: demo_pool_def shared_new_def)
  have "pool_reach 2 ?p" by (rule pool_step [OF demo_pool_reach s])
  moreover have "sh_shutdown (p_shared ?p)" "shutdown_work ?p = 5"
    by (simp_all add: demo_pool_def shared_new_def shutdown_begin_def shutdown_work_def)
  ultimately show ?thesis
    using pool_shutdown_terminates [of 2 ?p] unfolding Let_def by (simp add: u32_max_def)
qed

end
