(* ===== verification/Buffered_IO.thy ===== *)
theory Buffered_IO
  imports Transport
begin

text \<open>
  The buffering adapters (\<^verbatim>\<open>karmaio/src/io/read/buf_reader.rs\<close> and \<^verbatim>\<open>io/write/buf_writer.rs\<close>).

  Their operations await the inner transport; here each such await is followed through to its
  completion, over every poll that finds nothing.  \<open>None\<close> is an await that never completes.
\<close>

section \<open>Awaiting the transport\<close>

fun await_read :: "read_event list \<Rightarrow> nat \<Rightarrow> (read_event list \<times> u8 list io_result) option" where
  "await_read [] cap = None"
| "await_read (Blocked # es) cap = await_read es cap"
| "await_read es cap = (case poll_read es cap of (es', Ready r) \<Rightarrow> Some (es', r) | _ \<Rightarrow> None)"

text \<open>\<open>poll\<close> is the future's poll; every pending poll of a writer with events consumes one.\<close>

fun await_writer :: "nat \<Rightarrow> (writer \<Rightarrow> 's \<Rightarrow> writer \<times> 's \<times> 'a poll) \<Rightarrow> writer \<Rightarrow> 's \<Rightarrow> (writer \<times> 'a) option" where
  "await_writer 0 poll w s = None"
| "await_writer (Suc n) poll w s =
     (case poll w s of
        (w', s', Ready r) \<Rightarrow> Some (w', r)
      | (w', s', Pending) \<Rightarrow> await_writer n poll w' s')"

definition await_write_all :: "writer \<Rightarrow> u8 list \<Rightarrow> (writer \<times> nat io_result) option" where
  "await_write_all w data =
     await_writer (Suc (length (wr_events w))) (\<lambda>w n. write_all_poll w data n) w 0"

definition await_write :: "writer \<Rightarrow> u8 list \<Rightarrow> (writer \<times> nat io_result) option" where
  "await_write w data =
     await_writer (Suc (length (wr_events w))) (\<lambda>w u. case poll_write w data of (w', p) \<Rightarrow> (w', u, p)) w ()"

definition await_write_vectored :: "bool \<Rightarrow> writer \<Rightarrow> u8 list list \<Rightarrow> (writer \<times> nat io_result) option" where
  "await_write_vectored native w bufs =
     await_writer (Suc (length (wr_events w)))
       (\<lambda>w u. case poll_write_vectored native w bufs of (w', p) \<Rightarrow> (w', u, p)) w ()"

definition await_flush :: "writer \<Rightarrow> (writer \<times> unit io_result) option" where
  "await_flush w =
     await_writer (Suc (length (wr_events w))) (\<lambda>w u. case poll_flush w of (w', p) \<Rightarrow> (w', u, p)) w ()"

definition await_shutdown :: "writer \<Rightarrow> (writer \<times> unit io_result) option" where
  "await_shutdown w =
     await_writer (Suc (length (wr_events w))) (\<lambda>w u. case poll_shutdown w of (w', p) \<Rightarrow> (w', u, p)) w ()"

section \<open>The buffered writer\<close>

record buf_writer =
  bw_writer :: writer
  bw_buf :: "u8 list"
  bw_written :: nat

definition bw_with_capacity :: "nat \<Rightarrow> writer \<Rightarrow> buf_writer" where
  "bw_with_capacity cap w = \<lparr>bw_writer = w, bw_buf = replicate cap 0, bw_written = 0\<rparr>"

definition bw_new :: "writer \<Rightarrow> buf_writer" where
  "bw_new w = bw_with_capacity (8 * 1024) w"

definition bw_buffer :: "buf_writer \<Rightarrow> u8 list" where
  "bw_buffer bw = take (bw_written bw) (bw_buf bw)"

definition bw_discard :: "buf_writer \<Rightarrow> buf_writer" where
  "bw_discard bw = bw\<lparr>bw_written := 0\<rparr>"

definition flush_buf :: "buf_writer \<Rightarrow> (buf_writer \<times> unit io_result) option" where
  "flush_buf bw =
     (if bw_written bw \<noteq> 0 then
        do { (w, r) \<leftarrow> await_write_all (bw_writer bw) (bw_buf bw);
             let bw = bw\<lparr>bw_writer := w\<rparr>;
             Some (case r of
                     Inl e \<Rightarrow> (bw, Inl e)
                   | Inr _ \<Rightarrow> (bw_discard bw, Inr ())) }
      else Some (bw, Inr ()))"

definition bw_write :: "buf_writer \<Rightarrow> u8 list \<Rightarrow> (buf_writer \<times> nat io_result) option" where
  "bw_write bw data =
     (let cap = length (bw_buf bw) in
      do { (bw, r) \<leftarrow> (if bw_written bw + length data > cap then flush_buf bw else Some (bw, Inr ()));
           case r of
             Inl e \<Rightarrow> Some (bw, Inl e)
           | Inr _ \<Rightarrow>
               if length data > cap then
                 do { (w, r) \<leftarrow> await_write (bw_writer bw) data; Some (bw\<lparr>bw_writer := w\<rparr>, r) }
               else
                 Some (bw\<lparr>bw_buf := write_at (bw_written bw) data (bw_buf bw),
                          bw_written := bw_written bw + length data\<rparr>, Inr (length data)) })"

definition bw_write_vectored :: "bool \<Rightarrow> buf_writer \<Rightarrow> u8 list list \<Rightarrow> (buf_writer \<times> nat io_result) option" where
  "bw_write_vectored native bw bufs =
     do { (bw, r) \<leftarrow> flush_buf bw;
          case r of
            Inl e \<Rightarrow> Some (bw, Inl e)
          | Inr _ \<Rightarrow>
              do { (w, r) \<leftarrow> await_write_vectored native (bw_writer bw) bufs; Some (bw\<lparr>bw_writer := w\<rparr>, r) } }"

definition bw_flush :: "buf_writer \<Rightarrow> (buf_writer \<times> unit io_result) option" where
  "bw_flush bw =
     do { (bw, r) \<leftarrow> flush_buf bw;
          case r of
            Inl e \<Rightarrow> Some (bw, Inl e)
          | Inr _ \<Rightarrow> do { (w, r) \<leftarrow> await_flush (bw_writer bw); Some (bw\<lparr>bw_writer := w\<rparr>, r) } }"

definition bw_shutdown :: "buf_writer \<Rightarrow> (buf_writer \<times> unit io_result) option" where
  "bw_shutdown bw =
     do { (bw, r) \<leftarrow> flush_buf bw;
          case r of
            Inl e \<Rightarrow> Some (bw, Inl e)
          | Inr _ \<Rightarrow> do { (w, r) \<leftarrow> await_shutdown (bw_writer bw); Some (bw\<lparr>bw_writer := w\<rparr>, r) } }"

section \<open>The buffered reader\<close>

record buf_reader =
  br_reader :: "read_event list"
  br_buf :: "u8 list"
  br_pos :: nat
  br_cap :: nat

definition br_with_capacity :: "nat \<Rightarrow> read_event list \<Rightarrow> buf_reader" where
  "br_with_capacity cap r = \<lparr>br_reader = r, br_buf = replicate cap 0, br_pos = 0, br_cap = 0\<rparr>"

definition br_new :: "read_event list \<Rightarrow> buf_reader" where
  "br_new r = br_with_capacity (8 * 1024) r"

text \<open>Indexing \<^verbatim>\<open>self.buf[self.pos..self.cap]\<close> panics unless \<open>pos \<le> cap \<le> len\<close>.\<close>

definition br_buffer :: "buf_reader \<Rightarrow> u8 list option" where
  "br_buffer br = slice_range (br_buf br) (br_pos br) (br_cap br)"

definition br_discard :: "buf_reader \<Rightarrow> buf_reader" where
  "br_discard br = br\<lparr>br_pos := 0, br_cap := 0\<rparr>"

definition consume :: "buf_reader \<Rightarrow> nat \<Rightarrow> buf_reader" where
  "consume br amount = br\<lparr>br_pos := min (br_cap br) (br_pos br + amount)\<rparr>"

text \<open>
  The internal buffer is a boxed slice, whose initialized length cannot change, so a read of \<open>n\<close>
  bytes overwrites its first \<open>n\<close> bytes.
\<close>

definition fill_buf :: "buf_reader \<Rightarrow> (buf_reader \<times> u8 list io_result) option" where
  "fill_buf br =
     (if br_pos br = br_cap br then
        do { (es, r) \<leftarrow> await_read (br_reader br) (length (br_buf br));
             case r of
               Inl e \<Rightarrow> Some (br\<lparr>br_reader := es\<rparr>, Inl e)
             | Inr bs \<Rightarrow>
                 (let br = br\<lparr>br_reader := es, br_buf := write_at 0 bs (br_buf br), br_pos := 0, br_cap := length bs\<rparr> in
                  map_option (\<lambda>view. (br, Inr view)) (slice_range (br_buf br) (br_pos br) (br_cap br))) }
      else Some (br, Inr (br_buf br)))"

text \<open>\<open>cap\<close> is the capacity of the caller's buffer; the result is what the call puts into it.\<close>

definition br_read :: "buf_reader \<Rightarrow> nat \<Rightarrow> (buf_reader \<times> u8 list io_result) option" where
  "br_read br cap =
     (if br_pos br = br_cap br \<and> cap \<ge> length (br_buf br) then
        do { (es, r) \<leftarrow> await_read (br_reader br) cap; Some ((br_discard br)\<lparr>br_reader := es\<rparr>, r) }
      else
        do { (br, r) \<leftarrow> fill_buf br;
             case r of
               Inl e \<Rightarrow> Some (br, Inl e)
             | Inr rem \<Rightarrow>
                 let amt = min (length rem) cap in
                 Some (consume br amt, Inr (take amt rem)) })"

text \<open>The inner reader's vectored read fills the components in order, up to \<open>cap\<close> bytes in all.\<close>

definition br_read_vectored :: "buf_reader \<Rightarrow> nat \<Rightarrow> (buf_reader \<times> u8 list io_result) option" where
  "br_read_vectored br cap =
     do { (es, r) \<leftarrow> await_read (br_reader br) cap; Some ((br_discard br)\<lparr>br_reader := es\<rparr>, r) }"

section \<open>What the writer sends\<close>

lemma await_writer_all:
  assumes "honest w" "n \<le> length data" "await_writer k (\<lambda>w n. write_all_poll w data n) w n = Some (w', r)"
  shows "honest w' \<and> (case r of
      Inr _ \<Rightarrow> wr_out w' = wr_out w @ drop n data
    | Inl _ \<Rightarrow> \<exists>m. wr_out w' = wr_out w @ take m (drop n data))"
  using assms
proof (induction k arbitrary: w n)
  case (Suc k)
  obtain w1 n1 p where p: "write_all_poll w data n = (w1, n1, p)" by (metis prod_cases3)
  note ok = write_all_poll_correct [OF Suc.prems(1,2) p]
  show ?case
  proof (cases p)
    case (Ready q)
    then have "q = r" "w1 = w'" using Suc.prems(3) p by simp_all
    then show ?thesis using ok Ready by (cases r) auto
  next
    case Pending
    then have "await_writer k (\<lambda>w n. write_all_poll w data n) w1 n1 = Some (w', r)" using Suc.prems(3) p by simp
    from Suc.IH [OF _ _ this] have ih: "honest w' \<and> (case r of Inr _ \<Rightarrow> wr_out w' = wr_out w1 @ drop n1 data
        | Inl _ \<Rightarrow> \<exists>m. wr_out w' = wr_out w1 @ take m (drop n1 data))" using ok by blast
    have d: "drop n data = take (n1 - n) (drop n data) @ drop n1 data"
      using ok append_take_drop_id [of "n1 - n" "drop n data"] by simp
    show ?thesis
    proof (cases r)
      case (Inr x)
      then show ?thesis using ih ok d by simp
    next
      case (Inl e)
      then obtain m where m: "wr_out w' = wr_out w @ take (n1 - n) (drop n data) @ take m (drop n1 data)" using ih ok by auto
      have "take (n1 - n + m) (drop n data) = take (n1 - n) (drop n data) @ take m (drop n1 data)"
        using ok take_add [of "n1 - n" m "drop n data"] by simp
      then show ?thesis using ih Inl m by (auto intro: exI [of _ "n1 - n + m"])
    qed
  qed
qed simp

lemma flush_buf_sends:
  assumes "honest (bw_writer bw)" "bw_written bw \<noteq> 0" "flush_buf bw = Some (bw', Inr ())"
  shows "wr_out (bw_writer bw') = wr_out (bw_writer bw) @ bw_buf bw \<and> honest (bw_writer bw')"
proof -
  obtain w r where w: "await_write_all (bw_writer bw) (bw_buf bw) = Some (w, r)" "bw_writer bw' = w" "\<exists>n. r = Inr n"
    using assms(2,3) by (auto simp: flush_buf_def bw_discard_def Let_def split: bind_splits sum.splits)
  then show ?thesis
    using await_writer_all [OF assms(1) le0 w(1) [unfolded await_write_all_def]] by auto
qed

lemma await_writer_flush_out:
  "await_writer k (\<lambda>w u. case poll_flush w of (w', p) \<Rightarrow> (w', u, p)) w () = Some (w', r) \<Longrightarrow> wr_out w' = wr_out w"
proof (induction k arbitrary: w)
  case (Suc k)
  obtain w1 p where p: "poll_flush w = (w1, p)" by force
  have "wr_out w1 = wr_out w" using p by (auto simp: poll_flush_def split: list.splits write_event.splits)
  then show ?case using Suc p by (cases p) auto
qed simp

lemma await_flush_out: "await_flush w = Some (w', r) \<Longrightarrow> wr_out w' = wr_out w"
  unfolding await_flush_def by (rule await_writer_flush_out)

text \<open>
  Flushing a buffered writer sends its whole internal buffer.  After \<open>data\<close> that fits the
  buffer was written to a fresh \<^verbatim>\<open>BufWriter\<close> and flushed with success, the sink has received \<open>data\<close>
  followed by the unused rest of the buffer - zero bytes that nobody wrote - up to the buffer's
  capacity.
\<close>

theorem buf_writer_flush_pads:
  assumes "honest w" "data \<noteq> []" "length data \<le> cap"
    and "bw_write (bw_with_capacity cap w) data = Some (bw1, r)" "bw_flush bw1 = Some (bw2, Inr ())"
  shows "r = Inr (length data) \<and> bw_buffer bw1 = data
    \<and> wr_out (bw_writer bw2) = wr_out w @ data @ replicate (cap - length data) 0"
proof -
  have bw1: "bw1 = \<lparr>bw_writer = w, bw_buf = data @ replicate (cap - length data) 0, bw_written = length data\<rparr>"
    "r = Inr (length data)"
    using assms(3,4) by (auto simp: bw_write_def bw_with_capacity_def Let_def write_at_def)
  from assms(5) obtain bw where bw: "flush_buf bw1 = Some (bw, Inr ())"
    "wr_out (bw_writer bw2) = wr_out (bw_writer bw)"
    by (auto simp: bw_flush_def split: bind_splits sum.splits dest!: await_flush_out)
  show ?thesis using flush_buf_sends [OF _ _ bw(1)] bw(2) bw1 assms(1,2) by (simp add: bw_buffer_def)
qed

lemma buf_writer_flush_pads_witness:
  "let w = \<lparr>wr_events = [Took 9, Took 0], wr_out = [], wr_flushes = 0, wr_shut = False\<rparr> in
   \<exists>bw1 bw2. bw_write (bw_with_capacity 4 w) [104, 105] = Some (bw1, Inr 2) \<and> bw_flush bw1 = Some (bw2, Inr ())
     \<and> wr_out (bw_writer bw2) = [104, 105, 0, 0]"
proof -
  let ?w = "\<lparr>wr_events = [Took 9, Took 0], wr_out = [], wr_flushes = 0, wr_shut = False\<rparr>"
  let ?bw = "\<lparr>bw_writer = ?w, bw_buf = [104, 105, 0, 0], bw_written = 2\<rparr>"
  have z: "replicate 4 (0 :: u8) = [0, 0, 0, 0]" by (simp add: numeral_eq_Suc)
  have w1: "bw_write (bw_with_capacity 4 ?w) [104, 105] = Some (?bw, Inr 2)"
    by (simp add: bw_write_def bw_with_capacity_def Let_def write_at_def z)
  have w2: "\<exists>bw2. bw_flush ?bw = Some (bw2, Inr ())"
    by (simp add: bw_flush_def flush_buf_def await_write_all_def await_flush_def write_all_poll.simps poll_write_def
        poll_flush_def bw_discard_def Let_def)
  then obtain bw2 where "bw_flush ?bw = Some (bw2, Inr ())" ..
  from buf_writer_flush_pads [OF _ _ _ w1 this] w1 this show ?thesis
    unfolding Let_def by (auto simp: honest_def z numeral_2_eq_2 intro!: exI)
qed

section \<open>What the reader returns\<close>

text \<open>
  A buffered reader repeats itself.  When a \<^verbatim>\<open>BufReader\<close> has filled its buffer with \<open>bs\<close> and the
  caller reads it in pieces of \<open>k\<close> bytes, smaller than what is buffered, the second read returns
  the same first \<open>k\<close> bytes as the first one, not the next ones; and a vectored read instead of
  it drops the bytes that are buffered and not yet consumed.
\<close>

theorem buf_reader_repeats:
  assumes "0 < k" "k < length bs" "length bs \<le> cap"
  shows "\<exists>br1. br_read (br_with_capacity cap (Got bs # es)) k = Some (br1, Inr (take k bs))
    \<and> br_buffer br1 = Some (drop k bs)
    \<and> (\<exists>br2. br_read br1 k = Some (br2, Inr (take k bs)))
    \<and> (\<forall>n. br_read_vectored br1 n = map_option (\<lambda>(es', r). ((br_discard br1)\<lparr>br_reader := es'\<rparr>, r)) (await_read es n))"
proof -
  let ?br = "\<lparr>br_reader = es, br_buf = bs @ replicate (cap - length bs) 0, br_pos = k, br_cap = length bs\<rparr>"
  have "br_read (br_with_capacity cap (Got bs # es)) k = Some (?br, Inr (take k bs))"
    using assms by (simp add: br_read_def br_with_capacity_def fill_buf_def slice_range_def write_at_def consume_def Let_def min_def)
  moreover have "br_buffer ?br = Some (drop k bs)" using assms by (simp add: br_buffer_def slice_range_def)
  moreover have "\<exists>br2. br_read ?br k = Some (br2, Inr (take k bs))"
    using assms by (simp add: br_read_def fill_buf_def Let_def min_def)
  moreover have "br_read_vectored ?br n = map_option (\<lambda>(es', r). ((br_discard ?br)\<lparr>br_reader := es'\<rparr>, r)) (await_read es n)" for n
    by (cases "await_read es n") (auto simp: br_read_vectored_def)
  ultimately show ?thesis by blast
qed

lemma buf_reader_repeats_witness:
  "\<exists>br1. br_read (br_with_capacity 8 [Got [1, 2, 3, 4]]) 2 = Some (br1, Inr [1, 2])
    \<and> (\<exists>br2. br_read br1 2 = Some (br2, Inr [1, 2]))"
  using buf_reader_repeats [of 2 "[1, 2, 3, 4]" 8 "[]"] by auto

end
