(* ===== verification/Scheduler.thy ===== *)
theory Scheduler
  imports Prelude "HOL-Library.Multiset"
begin

text \<open>
  The current-thread scheduler (\<^verbatim>\<open>karmaio/src/runtime/local/scheduler.rs\<close>, \<^verbatim>\<open>queue.rs\<close>) and the loop
  of \<^verbatim>\<open>Runtime::block_on\<close> (\<^verbatim>\<open>runtime/local.rs\<close>).

  A task is its number; \<open>sc_phase\<close> is what its state word says (theory \<open>Task_State\<close> has the word
  itself).  A task handle in a queue is the task's number there.  \<open>sc_transit\<close> holds the handles
  that other threads have obtained by waking an idle task and have not pushed yet: waking and
  pushing are two steps of the source.  What a future does while it is polled, when a destructor
  runs or when the driver delivers completions is a list of effects.
\<close>

section \<open>State\<close>

datatype phase = Idle | Queued | Active | ActiveNotified | Complete

record scheduler =
  sc_local :: "nat list"
  sc_remote :: "nat list option"
  sc_owned :: "nat list"
  sc_phase :: "nat \<Rightarrow> phase"
  sc_next :: nat
  sc_transit :: "nat list"

definition scheduler_new :: scheduler where
  "scheduler_new = \<lparr>sc_local = [], sc_remote = Some [], sc_owned = [], sc_phase = (\<lambda>_. Complete), sc_next = 0,
                    sc_transit = []\<rparr>"

definition set_phase :: "nat \<Rightarrow> phase \<Rightarrow> scheduler \<Rightarrow> scheduler" where
  "set_phase t ph s = s\<lparr>sc_phase := (sc_phase s)(t := ph)\<rparr>"

definition local_push :: "nat \<Rightarrow> scheduler \<Rightarrow> scheduler" where
  "local_push t s = s\<lparr>sc_local := sc_local s @ [t]\<rparr>"

text \<open>\<^verbatim>\<open>RemoteTaskQueue\<close>: a closed queue drops what is pushed.\<close>

definition remote_push :: "nat \<Rightarrow> scheduler \<Rightarrow> scheduler" where
  "remote_push t s = (case sc_remote s of Some q \<Rightarrow> s\<lparr>sc_remote := Some (q @ [t])\<rparr> | None \<Rightarrow> s)"

definition drain_into :: "scheduler \<Rightarrow> scheduler" where
  "drain_into s =
     (case sc_remote s of
        Some q \<Rightarrow> s\<lparr>sc_local := sc_local s @ q, sc_remote := Some []\<rparr>
      | None \<Rightarrow> s)"

definition remote_shutdown :: "scheduler \<Rightarrow> scheduler" where
  "remote_shutdown s = s\<lparr>sc_remote := None\<rparr>"

section \<open>Waking and spawning\<close>

text \<open>\<open>ScheduleHandle::schedule\<close> on the owner thread inside the runtime, and outside of it.\<close>

definition schedule :: "bool \<Rightarrow> nat \<Rightarrow> scheduler \<Rightarrow> scheduler" where
  "schedule is_current t s = (if is_current then local_push t s else remote_push t s)"

definition wake_task :: "bool \<Rightarrow> nat \<Rightarrow> scheduler \<Rightarrow> scheduler" where
  "wake_task is_current t s =
     (case sc_phase s t of
        Idle \<Rightarrow> schedule is_current t (set_phase t Queued s)
      | Active \<Rightarrow> set_phase t ActiveNotified s
      | _ \<Rightarrow> s)"

definition foreign_wake :: "nat \<Rightarrow> scheduler \<Rightarrow> scheduler" where
  "foreign_wake t s =
     (case sc_phase s t of
        Idle \<Rightarrow> (set_phase t Queued s)\<lparr>sc_transit := sc_transit s @ [t]\<rparr>
      | Active \<Rightarrow> set_phase t ActiveNotified s
      | _ \<Rightarrow> s)"

definition foreign_push :: "nat \<Rightarrow> scheduler \<Rightarrow> scheduler option" where
  "foreign_push t s =
     (if t \<in> set (sc_transit s) then Some (remote_push t (s\<lparr>sc_transit := remove1 t (sc_transit s)\<rparr>)) else None)"

definition spawn :: "scheduler \<Rightarrow> scheduler" where
  "spawn s =
     (let t = sc_next s in
      local_push t (set_phase t Queued (s\<lparr>sc_owned := sc_owned s @ [t], sc_next := Suc t\<rparr>)))"

text \<open>
  Effects: the owner thread wakes or spawns a task; meanwhile other threads wake tasks and push
  the handles they hold.
\<close>

datatype effect = WakeTask nat | SpawnTask | OtherWakes nat | OtherPushes nat

fun effect_on :: "effect \<Rightarrow> scheduler \<Rightarrow> scheduler" where
  "effect_on (WakeTask t) s = wake_task True t s"
| "effect_on SpawnTask s = spawn s"
| "effect_on (OtherWakes t) s = foreign_wake t s"
| "effect_on (OtherPushes t) s = (case foreign_push t s of Some s' \<Rightarrow> s' | None \<Rightarrow> s)"

definition effects :: "effect list \<Rightarrow> scheduler \<Rightarrow> scheduler" where
  "effects es s = fold effect_on es s"

section \<open>Running\<close>

text \<open>
  \<^verbatim>\<open>run_task\<close> for a handle popped from the local queue: the poll's effects, then the task goes
  idle, is put back when it was woken meanwhile, or is complete and disowned.
\<close>

definition run_task :: "nat \<Rightarrow> effect list \<times> bool \<Rightarrow> scheduler \<Rightarrow> scheduler" where
  "run_task t r s =
     (let s = effects (fst r) (set_phase t Active s) in
      if snd r then (set_phase t Complete s)\<lparr>sc_owned := removeAll t (sc_owned s)\<rparr>
      else if sc_phase s t = ActiveNotified then schedule True t (set_phase t Queued s)
      else set_phase t Idle s)"

definition tick :: "scheduler \<Rightarrow> scheduler" where
  "tick s = drain_into s"

text \<open>
  At most \<open>n\<close> tasks from the front; \<open>rs\<close> are the results of the polls in order.  The value lists the
  tasks run and the results left over.
\<close>

fun run_batch :: "nat \<Rightarrow> (effect list \<times> bool) list \<Rightarrow> scheduler \<Rightarrow> scheduler \<times> nat list \<times> (effect list \<times> bool) list" where
  "run_batch 0 rs s = (s, [], rs)"
| "run_batch (Suc n) rs s =
     (case sc_local s of
        [] \<Rightarrow> (s, [], rs)
      | t # q \<Rightarrow>
          (case rs of
             [] \<Rightarrow> (s, [], [])
           | r # rs' \<Rightarrow>
               (case run_batch n rs' (run_task t r (s\<lparr>sc_local := q\<rparr>)) of
                  (s', ts, left) \<Rightarrow> (s', t # ts, left))))"

text \<open>
  One pass of the inner loop of \<^verbatim>\<open>block_on\<close> that does not finish the root future, with the driver
  turn that follows it (the non-blocking one, or the parking one when no task is left, after
  which expired timers are woken once more).  The environment of a pass: what expiring timers
  wake, the poll results, the effects of polling the root future, of the driver's completions
  and of the timers after parking.
\<close>

record pass_env =
  pe_timers :: "effect list"
  pe_polls :: "(effect list \<times> bool) list"
  pe_root :: "effect list"
  pe_driver :: "effect list"
  pe_late_timers :: "effect list"

definition block_on_pass :: "nat \<Rightarrow> pass_env \<Rightarrow> scheduler \<Rightarrow> scheduler \<times> nat list" where
  "block_on_pass event_interval env s =
     (let s = effects (pe_timers env) (tick s);
          (s, ts, _) = run_batch event_interval (pe_polls env) s;
          s = effects (pe_root env) s in
      if sc_local s = [] then (effects (pe_late_timers env) (effects (pe_driver env) s), ts)
      else (effects (pe_driver env) s, ts))"

fun block_on_passes :: "nat \<Rightarrow> pass_env list \<Rightarrow> scheduler \<Rightarrow> scheduler \<times> nat list" where
  "block_on_passes n [] s = (s, [])"
| "block_on_passes n (e # es) s =
     (case block_on_pass n e s of (s1, ts) \<Rightarrow>
       (case block_on_passes n es s1 of (s2, ts') \<Rightarrow> (s2, ts @ ts')))"

section \<open>Shutting down\<close>

text \<open>
  \<^verbatim>\<open>abort\<close> marks a task cancelled and, when it is idle, notifies it; outside the runtime that goes
  to the remote queue.
\<close>

definition abort_owned :: "scheduler \<Rightarrow> scheduler" where
  "abort_owned s = fold (wake_task False) (sc_owned s) s"

text \<open>
  The drive loop: \<open>ds\<close> are, per cancelled task, the tasks that its future's destructor wakes.  The
  outer \<open>None\<close> is the failed \<^verbatim>\<open>expect\<close>; the number of \<open>ds\<close> bounds the iterations.
\<close>

fun shutdown_loop :: "nat list list \<Rightarrow> scheduler \<Rightarrow> scheduler option option" where
  "shutdown_loop ds s =
     (if sc_owned s = [] then Some (Some s)
      else case ds of
        [] \<Rightarrow> Some None
      | d # ds' \<Rightarrow>
          (let s = drain_into s in
           case sc_local s of
             [] \<Rightarrow> None
           | t # q \<Rightarrow>
               (let s = fold (wake_task False) d (set_phase t Active (s\<lparr>sc_local := q\<rparr>)) in
                shutdown_loop ds'
                  ((set_phase t Complete s)\<lparr>sc_owned := removeAll t (sc_owned s)\<rparr>))))"

definition close_queues :: "scheduler \<Rightarrow> scheduler" where
  "close_queues s = (remote_shutdown s)\<lparr>sc_local := []\<rparr>"

definition shutdown :: "nat list list \<Rightarrow> scheduler \<Rightarrow> scheduler option option" where
  "shutdown ds s =
     (if sc_owned s = [] then Some (Some (close_queues s))
      else map_option (map_option close_queues) (shutdown_loop ds (abort_owned s)))"

section \<open>Reachable states\<close>

text \<open>Outside of \<^verbatim>\<open>block_on\<close> a wake on the owner thread also goes through the remote queue.\<close>

datatype sched_action = Outside effect | Pass nat pass_env

fun sched_act :: "sched_action \<Rightarrow> scheduler \<Rightarrow> scheduler" where
  "sched_act (Outside (WakeTask t)) s = wake_task False t s"
| "sched_act (Outside e) s = effect_on e s"
| "sched_act (Pass n env) s = fst (block_on_pass n env s)"

inductive sched_reach :: "scheduler \<Rightarrow> bool" where
  sched_start: "sched_reach scheduler_new"
| sched_step: "sched_reach s \<Longrightarrow> sched_reach (sched_act a s)"

section \<open>Every notified task has one handle\<close>

definition handles :: "scheduler \<Rightarrow> nat list" where
  "handles s = sc_local s @ (case sc_remote s of Some q \<Rightarrow> q | None \<Rightarrow> []) @ sc_transit s"

definition is_running :: "phase \<Rightarrow> bool" where
  "is_running ph \<longleftrightarrow> ph = Active \<or> ph = ActiveNotified"

lemma is_running_simps [simp]:
  "\<not> is_running Idle" "\<not> is_running Queued" "is_running Active" "is_running ActiveNotified" "\<not> is_running Complete"
  by (simp_all add: is_running_def)

text \<open>\<open>sched_inv r s\<close>: the invariant while the task \<open>r\<close> is being polled, or between polls.\<close>

definition sched_inv :: "nat option \<Rightarrow> scheduler \<Rightarrow> bool" where
  "sched_inv r s \<longleftrightarrow>
     distinct (handles s) \<and> (\<forall>t. t \<in> set (handles s) \<longleftrightarrow> sc_phase s t = Queued)
     \<and> distinct (sc_owned s) \<and> (\<forall>t. t \<in> set (sc_owned s) \<longleftrightarrow> sc_phase s t \<noteq> Complete)
     \<and> (\<forall>t. is_running (sc_phase s t) \<longleftrightarrow> r = Some t)
     \<and> (\<forall>t \<ge> sc_next s. sc_phase s t = Complete)
     \<and> sc_remote s \<noteq> None"

lemma sched_invD:
  assumes "sched_inv r s"
  shows "distinct (handles s)" "t \<in> set (handles s) \<longleftrightarrow> sc_phase s t = Queued" "distinct (sc_owned s)"
    "t \<in> set (sc_owned s) \<longleftrightarrow> sc_phase s t \<noteq> Complete" "is_running (sc_phase s t) \<longleftrightarrow> r = Some t"
    "sc_next s \<le> t \<Longrightarrow> sc_phase s t = Complete" "sc_remote s \<noteq> None"
  using assms by (auto simp: sched_inv_def)

lemma set_phase_fields [simp]:
  "handles (set_phase t ph s) = handles s" "sc_owned (set_phase t ph s) = sc_owned s"
  "sc_next (set_phase t ph s) = sc_next s" "sc_remote (set_phase t ph s) = sc_remote s"
  "sc_local (set_phase t ph s) = sc_local s" "sc_transit (set_phase t ph s) = sc_transit s"
  "sc_phase (set_phase t ph s) u = (if u = t then ph else sc_phase s u)"
  by (simp_all add: set_phase_def handles_def)

lemma handles_fields [simp]:
  "handles (s\<lparr>sc_owned := ow\<rparr>) = handles s" "handles (s\<lparr>sc_next := n\<rparr>) = handles s"
  "handles (s\<lparr>sc_owned := ow, sc_next := n\<rparr>) = handles s"
  by (simp_all add: handles_def)

lemma schedule_fields [simp]:
  "sc_phase (schedule c t s) = sc_phase s" "sc_owned (schedule c t s) = sc_owned s"
  "sc_next (schedule c t s) = sc_next s" "sc_remote (schedule c t s) = None \<longleftrightarrow> sc_remote s = None"
  by (auto simp: schedule_def local_push_def remote_push_def split: option.splits)

lemma handles_schedule:
  assumes "sc_remote s \<noteq> None"
  shows "set (handles (schedule c t s)) = insert t (set (handles s))"
    "distinct (handles (schedule c t s)) \<longleftrightarrow> t \<notin> set (handles s) \<and> distinct (handles s)"
  using assms by (auto simp: handles_def schedule_def local_push_def remote_push_def)

lemma not_queued: "sched_inv r s \<Longrightarrow> sc_phase s t \<noteq> Queued \<Longrightarrow> t \<notin> set (handles s)"
  using sched_invD(2) by blast

lemma sched_inv_schedule:
  assumes "sched_inv r s" "sc_phase s t = Idle \<or> r = Some t"
  shows "sched_inv (if r = Some t then None else r) (schedule c t (set_phase t Queued s))"
proof -
  have ph: "sc_phase s t \<noteq> Queued" "sc_phase s t \<noteq> Complete" using assms sched_invD(5) [OF assms(1), of t] by auto
  have n: "sc_next s \<le> u \<Longrightarrow> u \<noteq> t" for u using sched_invD(6) [OF assms(1)] ph by blast
  have run: "is_running (sc_phase (set_phase t Queued s) u) \<longleftrightarrow> (if r = Some t then None else r) = Some u" for u
    using sched_invD(5) [OF assms(1), of u] assms(2) by auto
  have "sc_remote (set_phase t Queued s) \<noteq> None" using sched_invD(7) [OF assms(1)] by simp
  note h = handles_schedule [OF this, of c t]
  show ?thesis unfolding sched_inv_def
    using sched_invD(1-4,6,7) [OF assms(1)] h run ph not_queued [OF assms(1) ph(1)] n by auto
qed

lemma sched_inv_mark: "sched_inv r s \<Longrightarrow> sc_phase s t = Active \<Longrightarrow> sched_inv r (set_phase t ActiveNotified s)"
  using sched_invD(5) [of r s t] unfolding sched_inv_def by auto

lemma sched_inv_wake:
  assumes "sched_inv r s"
  shows "sched_inv r (wake_task c t s)"
proof (cases "sc_phase s t")
  case Idle
  then have "r \<noteq> Some t" using sched_invD(5) [OF assms, of t] by auto
  then show ?thesis using sched_inv_schedule [OF assms, of t c] Idle by (simp add: wake_task_def)
qed (use assms sched_inv_mark in \<open>auto simp: wake_task_def\<close>)

lemma sched_inv_foreign_wake:
  assumes "sched_inv r s"
  shows "sched_inv r (foreign_wake t s)"
proof (cases "sc_phase s t")
  case Idle
  let ?s = "(set_phase t Queued s)\<lparr>sc_transit := sc_transit s @ [t]\<rparr>"
  have h: "set (handles ?s) = insert t (set (handles s))" "distinct (handles ?s) \<longleftrightarrow> t \<notin> set (handles s) \<and> distinct (handles s)"
    by (auto simp: handles_def)
  have "r \<noteq> Some t" "\<And>u. sc_next s \<le> u \<Longrightarrow> u \<noteq> t"
    using sched_invD(5) [OF assms, of t] sched_invD(6) [OF assms] Idle by auto
  then have "sched_inv r ?s" unfolding sched_inv_def
    using sched_invD [OF assms] h not_queued [OF assms, of t] Idle by auto
  then show ?thesis by (simp add: foreign_wake_def Idle)
qed (use assms sched_inv_mark in \<open>auto simp: foreign_wake_def\<close>)

lemma sched_inv_handles_perm:
  "sched_inv r s \<Longrightarrow> mset (handles s') = mset (handles s) \<Longrightarrow> sc_owned s' = sc_owned s \<Longrightarrow> sc_phase s' = sc_phase s
     \<Longrightarrow> sc_next s' = sc_next s \<Longrightarrow> sc_remote s' \<noteq> None \<Longrightarrow> sched_inv r s'"
  using mset_eq_imp_distinct_iff [of "handles s'" "handles s"] mset_eq_setD [of "handles s'" "handles s"]
  by (simp add: sched_inv_def)

lemma sched_inv_foreign_push:
  assumes "sched_inv r s" "foreign_push t s = Some s'"
  shows "sched_inv r s'"
proof -
  obtain q where q: "sc_remote s = Some q" using sched_invD(7) [OF assms(1)] by auto
  have t: "t \<in> set (sc_transit s)" "s' = s\<lparr>sc_transit := remove1 t (sc_transit s), sc_remote := Some (q @ [t])\<rparr>"
    using assms(2) q by (auto simp: foreign_push_def remote_push_def split: if_splits)
  have "mset (handles s') = mset (handles s)" using q t by (simp add: handles_def)
  from sched_inv_handles_perm [OF assms(1) this] t(2) show ?thesis by simp
qed

lemma sched_inv_spawn:
  assumes "sched_inv r s"
  shows "sched_inv r (spawn s)"
proof -
  let ?n = "sc_next s"
  have n: "sc_phase s ?n = Complete" using sched_invD(6) [OF assms] by simp
  have r: "r \<noteq> Some ?n" "?n \<notin> set (handles s)" "?n \<notin> set (sc_owned s)"
    using n sched_invD(2,4,5) [OF assms, of ?n] by auto
  have h: "set (handles (spawn s)) = insert ?n (set (handles s))"
    "distinct (handles (spawn s)) \<longleftrightarrow> ?n \<notin> set (handles s) \<and> distinct (handles s)"
    by (auto simp: handles_def spawn_def local_push_def Let_def)
  have f: "sc_phase (spawn s) u = (if u = ?n then Queued else sc_phase s u)" "sc_owned (spawn s) = sc_owned s @ [?n]"
    "sc_next (spawn s) = Suc ?n" "sc_remote (spawn s) = sc_remote s" for u
    by (simp_all add: spawn_def local_push_def Let_def set_phase_def)
  show ?thesis unfolding sched_inv_def h f using sched_invD [OF assms] r n by auto
qed

lemma sched_inv_effects: "sched_inv r s \<Longrightarrow> sched_inv r (effects es s)"
proof (induction es arbitrary: s)
  case (Cons e es)
  have "sched_inv r (effect_on e s)" using Cons.prems
    by (cases e) (auto simp: sched_inv_wake sched_inv_spawn sched_inv_foreign_wake
        split: option.splits intro: sched_inv_foreign_push)
  then show ?case using Cons.IH by (simp add: effects_def)
qed (simp add: effects_def)

lemma sched_inv_pop:
  assumes "sched_inv None s" "sc_local s = t # q"
  shows "sched_inv (Some t) (set_phase t Active (s\<lparr>sc_local := q\<rparr>))"
proof -
  have h: "distinct (handles s)" "set (handles s) = insert t (set (handles (s\<lparr>sc_local := q\<rparr>)))"
    "t \<notin> set (handles (s\<lparr>sc_local := q\<rparr>))" "distinct (handles (s\<lparr>sc_local := q\<rparr>))"
    using sched_invD(1) [OF assms(1)] assms(2) by (auto simp: handles_def)
  have "t \<in> set (handles s)" using assms(2) by (simp add: handles_def)
  then have t: "sc_phase s t = Queued" using sched_invD(2) [OF assms(1)] by blast
  then have n: "sc_next s \<le> u \<Longrightarrow> u \<noteq> t" for u using sched_invD(6) [OF assms(1), of u] by auto
  show ?thesis unfolding sched_inv_def using sched_invD [OF assms(1)] h t n by auto
qed

lemma sched_inv_complete:
  assumes "sched_inv (Some t) s"
  shows "sched_inv None ((set_phase t Complete s)\<lparr>sc_owned := removeAll t (sc_owned s)\<rparr>)"
proof -
  have "t \<notin> set (handles s)" using sched_invD(2,5) [OF assms, of t] by auto
  then show ?thesis unfolding sched_inv_def using sched_invD [OF assms] by (auto simp: distinct_removeAll)
qed

lemma sched_inv_idle:
  assumes "sched_inv (Some t) s"
  shows "sched_inv None (set_phase t Idle s)"
proof -
  have "t \<notin> set (handles s)" "\<And>u. sc_next s \<le> u \<Longrightarrow> u \<noteq> t" "sc_phase s t \<noteq> Complete"
    using sched_invD(2,5) [OF assms, of t] sched_invD(6) [OF assms] by auto
  then show ?thesis unfolding sched_inv_def using sched_invD [OF assms] by auto
qed

lemma sched_inv_run:
  assumes "sched_inv None s" "sc_local s = t # q"
  shows "sched_inv None (run_task t r (s\<lparr>sc_local := q\<rparr>))"
proof -
  have inv: "sched_inv (Some t) (effects (fst r) (set_phase t Active (s\<lparr>sc_local := q\<rparr>)))"
    by (rule sched_inv_effects [OF sched_inv_pop [OF assms]])
  then show ?thesis
    using sched_inv_schedule [OF inv, of t True] sched_inv_complete [OF inv] sched_inv_idle [OF inv]
    by (simp add: run_task_def Let_def)
qed

lemma sched_inv_batch: "sched_inv None s \<Longrightarrow> sched_inv None (fst (run_batch n rs s))"
proof (induction n rs s rule: run_batch.induct)
  case (2 n rs s)
  then show ?case using sched_inv_run [OF 2(2)] by (fastforce split: list.splits prod.splits)
qed simp

lemma sched_inv_tick:
  assumes "sched_inv r s"
  shows "sched_inv r (tick s)"
proof -
  obtain q where q: "sc_remote s = Some q" using sched_invD(7) [OF assms] by auto
  show ?thesis
    by (rule sched_inv_handles_perm [OF assms]) (simp_all add: q tick_def drain_into_def handles_def)
qed

lemma sched_inv_pass: "sched_inv None s \<Longrightarrow> sched_inv None (fst (block_on_pass n env s))"
  using sched_inv_batch [OF sched_inv_effects [OF sched_inv_tick], of s n "pe_polls env" "pe_timers env"]
  by (auto simp: block_on_pass_def Let_def sched_inv_effects split: prod.splits)

lemma sched_reach_inv: "sched_reach s \<Longrightarrow> sched_inv None s"
proof (induction rule: sched_reach.induct)
  case sched_start
  then show ?case by (auto simp: scheduler_new_def sched_inv_def handles_def is_running_def)
next
  case (sched_step s a)
  have e: "sched_inv None (effect_on e s)" for e using sched_inv_effects [OF sched_step(2), of "[e]"] by (simp add: effects_def)
  show ?case
  proof (cases a)
    case (Outside x)
    then show ?thesis using e [of x] sched_inv_wake [OF sched_step(2)] by (cases x) simp_all
  next
    case (Pass n env)
    then show ?thesis using sched_inv_pass [OF sched_step(2)] by simp
  qed
qed

section \<open>Fairness\<close>

lemma wake_appends: "\<exists>zs. sc_local (wake_task c t s) = sc_local s @ zs"
  by (auto simp: wake_task_def schedule_def local_push_def remote_push_def split: phase.splits option.splits)

lemma effect_appends: "\<exists>zs. sc_local (effect_on e s) = sc_local s @ zs"
proof (cases e)
  case (OtherPushes t)
  then show ?thesis by (auto simp: foreign_push_def remote_push_def split: option.splits if_splits)
qed (auto simp: wake_appends spawn_def local_push_def foreign_wake_def Let_def split: phase.splits)

lemma effects_append: "\<exists>zs. sc_local (effects es s) = sc_local s @ zs"
proof (induction es arbitrary: s)
  case (Cons e es)
  obtain z1 where "sc_local (effect_on e s) = sc_local s @ z1" using effect_appends by blast
  moreover obtain z2 where "sc_local (effects es (effect_on e s)) = sc_local (effect_on e s) @ z2" using Cons.IH by blast
  ultimately show ?case by (simp add: effects_def)
qed (simp add: effects_def)

lemma run_task_appends: "\<exists>zs. sc_local (run_task t r s) = sc_local s @ zs"
proof -
  obtain zs where "sc_local (effects (fst r) (set_phase t Active s)) = sc_local s @ zs"
    using effects_append [of "fst r" "set_phase t Active s"] by auto
  then show ?thesis by (auto simp: run_task_def Let_def schedule_def local_push_def)
qed

lemma run_batch_fair:
  assumes "sc_local s = xs @ t # ys" "n \<le> length rs" "run_batch n rs s = (s', ts, left)"
  shows "if length xs < n then t \<in> set ts else \<exists>zs. sc_local s' = drop n xs @ t # ys @ zs"
  using assms
proof (induction n rs s arbitrary: xs ys s' ts left rule: run_batch.induct)
  case (2 n rs s)
  obtain r rs' where rs: "rs = r # rs'" using 2(3) by (cases rs) auto
  show ?case
  proof (cases xs)
    case Nil
    then show ?thesis using 2(2,4) rs by (auto split: prod.splits)
  next
    case (Cons x xs')
    obtain zs where z: "sc_local (run_task x r (s\<lparr>sc_local := xs' @ t # ys\<rparr>)) = xs' @ t # ys @ zs"
      using run_task_appends [of x r "s\<lparr>sc_local := xs' @ t # ys\<rparr>"] by auto
    obtain s1 ts1 left1 where b: "run_batch n rs' (run_task x r (s\<lparr>sc_local := xs' @ t # ys\<rparr>)) = (s1, ts1, left1)"
      by (metis prod_cases3)
    have out: "s' = s1" "ts = x # ts1" using 2(2,4) rs Cons b by simp_all
    have "if length xs' < n then t \<in> set ts1 else \<exists>zs'. sc_local s1 = drop n xs' @ t # (ys @ zs) @ zs'"
      by (rule 2(1) [OF _ rs z _ b]) (use 2(2,3) rs Cons in auto)
    then show ?thesis using out Cons by (auto split: if_splits)
  qed
qed simp

lemma pass_fair:
  assumes "sc_local (tick s) = xs @ t # ys" "n \<le> length (pe_polls env)" "block_on_pass n env s = (s', ts)"
  shows "if length xs < n then t \<in> set ts else \<exists>zs. sc_local s' = drop n xs @ t # zs"
proof -
  obtain z where z: "sc_local (effects (pe_timers env) (tick s)) = xs @ t # ys @ z"
    using effects_append [of "pe_timers env" "tick s"] assms(1) by auto
  obtain s1 ts1 left where b: "run_batch n (pe_polls env) (effects (pe_timers env) (tick s)) = (s1, ts1, left)"
    by (metis prod_cases3)
  note fair = run_batch_fair [OF z assms(2) b]
  obtain z2 where r: "sc_local (effects (pe_root env) s1) = sc_local s1 @ z2" using effects_append by blast
  obtain z3 where d: "sc_local (effects (pe_driver env) (effects (pe_root env) s1)) = sc_local s1 @ z2 @ z3"
    using effects_append [of "pe_driver env" "effects (pe_root env) s1"] r by auto
  show ?thesis
  proof (cases "length xs < n")
    case True
    then show ?thesis using fair assms(3) b by (auto simp: block_on_pass_def Let_def split: if_splits)
  next
    case False
    then show ?thesis using fair assms(3) b r d by (auto simp: block_on_pass_def Let_def split: if_splits)
  qed
qed

lemma passes_fair:
  assumes "0 < n" "\<forall>e \<in> set envs. n \<le> length (pe_polls e)"
  shows "sc_local (tick s) = xs @ t # ys \<Longrightarrow> length xs < length envs * n \<Longrightarrow> t \<in> set (snd (block_on_passes n envs s))"
  using assms
proof (induction envs arbitrary: s xs ys)
  case (Cons e es)
  obtain s1 ts where p: "block_on_pass n e s = (s1, ts)" by force
  have "n \<le> length (pe_polls e)" using Cons.prems(4) by simp
  note f = pass_fair [OF Cons.prems(1) this p]
  show ?case
  proof (cases "length xs < n")
    case True
    then show ?thesis using f p by (auto split: prod.splits)
  next
    case False
    then obtain zs where z: "sc_local s1 = drop n xs @ t # zs" using f by auto
    have "\<exists>ws. sc_local (tick s1) = drop n xs @ t # ws"
      using z by (auto simp: tick_def drain_into_def split: option.splits)
    then obtain ws where w: "sc_local (tick s1) = drop n xs @ t # ws" ..
    have "length (drop n xs) < length es * n" using Cons.prems(2) False by simp
    from Cons.IH [OF w this Cons.prems(3)] Cons.prems(4) show ?thesis using p by (auto split: prod.splits)
  qed
qed simp

lemma run_batch_bounded: "length (fst (snd (run_batch n rs s))) \<le> n"
  by (induction n rs s rule: run_batch.induct) (fastforce split: list.splits prod.splits)+


text \<open>A task that wakes itself at every poll, and a second task behind it.\<close>

definition spinner_env :: pass_env where
  "spinner_env = \<lparr>pe_timers = [], pe_polls = [([WakeTask 0], False)], pe_root = [], pe_driver = [], pe_late_timers = []\<rparr>"

definition two_tasks :: scheduler where
  "two_tasks = spawn (spawn scheduler_new)"

lemma two_tasks_reach: "sched_reach two_tasks"
  using sched_step [OF sched_step [OF sched_start], of "Outside SpawnTask" "Outside SpawnTask"] by (simp add: two_tasks_def)


section \<open>Shutdown\<close>

declare shutdown_loop.simps [simp del]

definition all_notified :: "scheduler \<Rightarrow> bool" where
  "all_notified s \<longleftrightarrow> (\<forall>t. sc_phase s t = Queued \<or> sc_phase s t = Complete)"

lemma wake_transit [simp]: "sc_transit (wake_task c t s) = sc_transit s"
  by (auto simp: wake_task_def schedule_def local_push_def remote_push_def split: phase.splits option.splits)

lemma fold_wake_inv:
  "sched_inv r s \<Longrightarrow> sched_inv r (fold (wake_task c) ts s) \<and> sc_transit (fold (wake_task c) ts s) = sc_transit s"
  by (induction ts arbitrary: s) (auto simp: sched_inv_wake)

lemma wake_phase: "sc_phase (wake_task c t s) u =
    (if u = t then (case sc_phase s t of Idle \<Rightarrow> Queued | Active \<Rightarrow> ActiveNotified | ph \<Rightarrow> ph) else sc_phase s u)"
  by (auto simp: wake_task_def split: phase.splits)

lemma fold_wake_phase:
  "sc_phase s u \<noteq> Idle \<Longrightarrow> \<not> is_running (sc_phase s u) \<Longrightarrow> sc_phase (fold (wake_task c) ts s) u = sc_phase s u"
proof (induction ts arbitrary: s)
  case (Cons t ts)
  have "sc_phase (wake_task c t s) u = sc_phase s u"
    using Cons.prems by (auto simp: wake_phase split: phase.splits)
  then show ?case using Cons by simp
qed simp

lemma fold_wake_not_idle:
  "sc_phase s u \<noteq> Idle \<or> u \<in> set ts \<Longrightarrow> sc_phase (fold (wake_task c) ts s) u \<noteq> Idle"
proof (induction ts arbitrary: s)
  case (Cons t ts)
  have "sc_phase (wake_task c t s) u \<noteq> Idle \<or> u \<in> set ts"
    using Cons.prems by (auto simp: wake_phase split: phase.splits)
  then show ?case using Cons.IH by simp
qed simp

lemma abort_owned_notifies:
  assumes "sched_inv None s"
  shows "sched_inv None (abort_owned s)" "all_notified (abort_owned s)" "sc_transit (abort_owned s) = sc_transit s"
    "set (sc_owned (abort_owned s)) = set (sc_owned s)"
proof -
  let ?s = "abort_owned s"
  show inv: "sched_inv None ?s" and "sc_transit ?s = sc_transit s"
    using fold_wake_inv [OF assms] by (simp_all add: abort_owned_def)
  have "sc_phase ?s t \<noteq> Idle" for t
    using fold_wake_not_idle [of s t "sc_owned s" False] sched_invD(4) [OF assms, of t] by (auto simp: abort_owned_def)
  then show "all_notified ?s" using sched_invD(5) [OF inv] unfolding all_notified_def is_running_def
    by (metis option.distinct(1) phase.exhaust)
  have "sc_owned (fold (wake_task False) ts s) = sc_owned s" for ts s
    by (induction ts arbitrary: s) (auto simp: wake_task_def split: phase.splits)
  then show "set (sc_owned ?s) = set (sc_owned s)" by (simp add: abort_owned_def)
qed

lemma fold_wake_owned [simp]: "sc_owned (fold (wake_task c) ts s) = sc_owned s"
  by (induction ts arbitrary: s) (auto simp: wake_task_def split: phase.splits)

text \<open>One iteration: the popped task is consumed, everything else stays notified.\<close>

lemma shutdown_iteration:
  assumes inv: "sched_inv None s" and all: "all_notified s" and local: "sc_local s = t # q"
    and s1: "s1 = fold (wake_task False) d (set_phase t Active (s\<lparr>sc_local := q\<rparr>))"
    and s2: "s2 = (set_phase t Complete s1)\<lparr>sc_owned := removeAll t (sc_owned s1)\<rparr>"
  shows "sched_inv None s2" "all_notified s2" "sc_transit s2 = sc_transit s" "sc_owned s2 = removeAll t (sc_owned s)"
    "t \<in> set (sc_owned s)"
proof -
  have run: "sched_inv (Some t) s1" "sc_transit s1 = sc_transit s"
    using fold_wake_inv [OF sched_inv_pop [OF inv local], of False d] by (simp_all add: s1)
  show "sched_inv None s2" unfolding s2 by (rule sched_inv_complete [OF run(1)])
  show "sc_transit s2 = sc_transit s" "sc_owned s2 = removeAll t (sc_owned s)" using run(2) by (simp_all add: s1 s2)
  have "sc_phase s1 u = sc_phase s u" if "u \<noteq> t" for u
  proof -
    have "sc_phase s u \<noteq> Idle" "\<not> is_running (sc_phase s u)" using all unfolding all_notified_def
      by (metis is_running_simps(2,5) phase.distinct(1) phase.distinct(7))+
    then show ?thesis using fold_wake_phase [of "set_phase t Active (s\<lparr>sc_local := q\<rparr>)" u False d] that by (simp add: s1)
  qed
  then show "all_notified s2" using all by (auto simp: all_notified_def s2)
  have "t \<in> set (handles s)" using local by (simp add: handles_def)
  then show "t \<in> set (sc_owned s)" using sched_invD(2,4) [OF inv, of t] by simp
qed

lemma drain_into_all:
  assumes "sched_inv None s" "all_notified s" "sc_transit s = []"
  shows "set (sc_local (drain_into s)) = set (sc_owned s)" "sched_inv None (drain_into s)"
    "all_notified (drain_into s)" "sc_transit (drain_into s) = []" "sc_owned (drain_into s) = sc_owned s"
proof -
  obtain q where q: "sc_remote s = Some q" using sched_invD(7) [OF assms(1)] by auto
  show "sched_inv None (drain_into s)" using sched_inv_tick [OF assms(1)] by (simp add: tick_def)
  show "all_notified (drain_into s)" "sc_transit (drain_into s) = []" "sc_owned (drain_into s) = sc_owned s"
    using assms(2,3) q by (simp_all add: drain_into_def all_notified_def)
  have "set (sc_local (drain_into s)) = set (handles s)" using q assms(3) by (auto simp: drain_into_def handles_def)
  also have "\<dots> = set (sc_owned s)"
    using sched_invD(2,4) [OF assms(1)] assms(2) unfolding all_notified_def by (metis phase.distinct(13) set_eqI subsetI)
  finally show "set (sc_local (drain_into s)) = set (sc_owned s)" .
qed

lemma shutdown_loop_clean:
  assumes "sched_inv None s" "all_notified s" "sc_transit s = []" "length (sc_owned s) \<le> length ds"
  shows "\<exists>s'. shutdown_loop ds s = Some (Some s') \<and> sched_inv None s' \<and> sc_owned s' = [] \<and> sc_transit s' = []"
  using assms
proof (induction ds arbitrary: s)
  case Nil
  then show ?case by (simp add: shutdown_loop.simps)
next
  case (Cons d ds)
  show ?case
  proof (cases "sc_owned s = []")
    case False
    note dr = drain_into_all [OF Cons.prems(1-3)]
    obtain t q where tq: "sc_local (drain_into s) = t # q" using dr(1) False by (cases "sc_local (drain_into s)") auto
    let ?s1 = "fold (wake_task False) d (set_phase t Active ((drain_into s)\<lparr>sc_local := q\<rparr>))"
    let ?s2 = "(set_phase t Complete ?s1)\<lparr>sc_owned := removeAll t (sc_owned ?s1)\<rparr>"
    note it = shutdown_iteration [OF dr(2,3) tq refl [of ?s1] refl [of ?s2]]
    have ow: "length (sc_owned ?s2) < length (sc_owned s)"
      using it(4,5) dr(5) by (metis length_removeAll_less)
    then have "length (sc_owned ?s2) \<le> length ds" using Cons.prems(4) by simp
    moreover have "shutdown_loop (d # ds) s = shutdown_loop ds ?s2"
      using False tq by (subst shutdown_loop.simps) (simp add: Let_def)
    moreover have "sc_transit ?s2 = []" using it(3) dr(4) by metis
    ultimately show ?thesis using Cons.IH [OF it(1,2)] by metis
  qed (use Cons.prems in \<open>simp add: shutdown_loop.simps\<close>)
qed

text \<open>
  Shutting the scheduler down.  From every reachable state in which no other thread is in the
  middle of waking a task, shutdown never runs out of notifications: within one iteration per
  unfinished task, whatever the futures' destructors wake, every task has been completed and
  released on the owner thread, and both queues are closed and empty.  If, however, every
  unfinished task has been woken by other threads that have not pushed its handle yet, the
  first iteration finds no notification and shutdown panics.
\<close>

theorem scheduler_shutdown:
  assumes "sched_reach s" "length (sc_owned s) \<le> length ds"
  shows "(sc_transit s = [] \<longrightarrow>
      (\<exists>s'. shutdown ds s = Some (Some s') \<and> sc_owned s' = [] \<and> handles s' = [] \<and> sc_remote s' = None
         \<and> (\<forall>t. sc_phase s' t = Complete)))
    \<and> (sc_owned s \<noteq> [] \<and> set (sc_owned s) \<subseteq> set (sc_transit s) \<longrightarrow> shutdown ds s = None)"
proof (intro conjI impI)
  have inv: "sched_inv None s" by (rule sched_reach_inv [OF assms(1)])
  note ab = abort_owned_notifies [OF inv]
  assume tr: "sc_transit s = []"
  have len: "length (sc_owned (abort_owned s)) \<le> length ds"
    using ab(4) sched_invD(3) [OF inv] sched_invD(3) [OF ab(1)] assms(2) by (metis distinct_card)
  have "\<exists>s'. (if sc_owned s = [] then Some (Some s) else shutdown_loop ds (abort_owned s)) = Some (Some s')
      \<and> sched_inv None s' \<and> sc_owned s' = [] \<and> sc_transit s' = []"
    using shutdown_loop_clean [OF ab(1,2) _ len] tr ab(3) inv by auto
  then obtain s' where s': "shutdown ds s = Some (Some (close_queues s'))" "sched_inv None s'" "sc_owned s' = []"
    "sc_transit s' = []" by (auto simp: shutdown_def split: if_splits)
  have "sc_phase s' t = Complete" for t using sched_invD(4) [OF s'(2), of t] s'(3) by simp
  then show "\<exists>s'. shutdown ds s = Some (Some s') \<and> sc_owned s' = [] \<and> handles s' = [] \<and> sc_remote s' = None
         \<and> (\<forall>t. sc_phase s' t = Complete)"
    using s' by (auto simp: close_queues_def remote_shutdown_def handles_def)
next
  have inv: "sched_inv None s" by (rule sched_reach_inv [OF assms(1)])
  note ab = abort_owned_notifies [OF inv]
  assume ow: "sc_owned s \<noteq> [] \<and> set (sc_owned s) \<subseteq> set (sc_transit s)"
  then obtain d ds' where ds: "ds = d # ds'" using assms(2) by (cases ds) auto
  have "set (handles (abort_owned s)) \<subseteq> set (sc_transit (abort_owned s))"
    using ow ab(3,4) sched_invD(2,4) [OF ab(1)] by (metis phase.distinct(13) subset_iff)
  moreover have "distinct (handles (abort_owned s))" using sched_invD(1) [OF ab(1)] .
  moreover obtain q where q: "sc_remote (abort_owned s) = Some q" using sched_invD(7) [OF ab(1)] by auto
  ultimately have "set (sc_local (abort_owned s)) \<inter> set (sc_transit (abort_owned s)) = {}"
    "set q \<inter> set (sc_transit (abort_owned s)) = {}"
    "set (sc_local (abort_owned s)) \<subseteq> set (sc_transit (abort_owned s))" "set q \<subseteq> set (sc_transit (abort_owned s))"
    by (auto simp: handles_def)
  then have "set (sc_local (abort_owned s)) = {}" "set q = {}" by (metis inf.absorb1)+
  then have "sc_local (abort_owned s) = []" "sc_remote (abort_owned s) = Some []" using q by auto
  moreover have "sc_owned (abort_owned s) \<noteq> []" using ow ab(4) by auto
  ultimately show "shutdown ds s = None" using ow by (simp add: shutdown_def shutdown_loop.simps ds drain_into_def)
qed

text \<open>A task that went idle and whose waker another thread has just invoked.\<close>

definition racing :: scheduler where
  "racing = foreign_wake 0 (fst (block_on_pass 1
     \<lparr>pe_timers = [], pe_polls = [([], False)], pe_root = [], pe_driver = [], pe_late_timers = []\<rparr> (spawn scheduler_new)))"

lemma racing_reach: "sched_reach racing"
proof -
  have "sched_reach (spawn scheduler_new)" using sched_step [OF sched_start, of "Outside SpawnTask"] by simp
  from sched_step [OF sched_step [OF this, of "Pass 1 \<lparr>pe_timers = [], pe_polls = [([], False)], pe_root = [],
      pe_driver = [], pe_late_timers = []\<rparr>"], of "Outside (OtherWakes 0)"]
  show ?thesis by (simp add: racing_def)
qed

lemma scheduler_shutdown_witness:
  "shutdown [[]] racing = None
   \<and> (\<exists>s'. shutdown [[], [0]] two_tasks = Some (Some s') \<and> sc_owned s' = [])"
proof -
  have "sc_owned racing = [0]" "sc_transit racing = [0]"
    by (simp_all add: racing_def block_on_pass_def spawn_def scheduler_new_def effects_def tick_def drain_into_def
        run_task_def foreign_wake_def local_push_def Let_def set_phase_def)
  then have "shutdown [[]] racing = None" using scheduler_shutdown [OF racing_reach, of "[[]]"] by simp
  moreover have "sc_owned two_tasks = [0, 1]" "sc_transit two_tasks = []"
    by (simp_all add: two_tasks_def spawn_def scheduler_new_def local_push_def Let_def set_phase_def)
  then have "\<exists>s'. shutdown [[], [0]] two_tasks = Some (Some s') \<and> sc_owned s' = []"
    using scheduler_shutdown [OF two_tasks_reach, of "[[], [0]]"] by auto
  ultimately show ?thesis by blast
qed

end
