(* ===== verification/Half_Lock.thy ===== *)
theory Half_Lock
  imports Prelude
begin

text \<open>
  The half-lock behind signal delivery (\<^verbatim>\<open>karmaio/src/signal/half_lock.rs\<close>): readers, which may be
  signal handlers, only touch atomics; a writer publishes a new value and spins until no reader
  can still hold the old one, then frees it.

  Every atomic access in the source is sequentially consistent, so a run is an interleaving of
  the accesses, each of them one step here.  Values live at addresses; \<open>hl_freed\<close> says which have
  been freed.  The writers' mutex admits one writer, whose position is \<open>hl_writer\<close>; reader \<open>i\<close>'s
  position is \<open>hl_readers ! i\<close>.  A slot of the lock is the parity of a generation.
\<close>

section \<open>State\<close>

text \<open>The points between two atomic accesses of \<^verbatim>\<open>read\<close>, and while the guard is held.\<close>

datatype reader = Outside | GotGeneration bool | Locked bool | Holding bool nat

text \<open>
  Of \<^verbatim>\<open>store\<close> and \<^verbatim>\<open>write_barrier\<close>: the mutex is held; the pointer was swapped; \<open>Checking\<close> is about to
  load one slot of \<^verbatim>\<open>update_seen\<close>; \<open>Switching\<close> is about to advance the generation; \<open>Freeing\<close> has left
  the loop.  \<open>old\<close> is the previous pointer, \<open>seen\<close> the array of slots seen at zero.
\<close>

datatype half_writer =
    NoWriter
  | HasMutex
  | Checking (hw_old: nat) (hw_seen: "bool \<Rightarrow> bool") (hw_switched: bool) (hw_slot: bool)
  | Switching (hw_old: nat) (hw_seen: "bool \<Rightarrow> bool")
  | Freeing (hw_old: nat)

record half_lock =
  hl_data :: nat
  hl_generation :: usize
  hl_lock :: "bool \<Rightarrow> nat"
  hl_next :: nat
  hl_freed :: "nat set"
  hl_readers :: "reader list"
  hl_writer :: half_writer

definition half_lock_new :: "nat \<Rightarrow> half_lock" where
  "half_lock_new readers =
     \<lparr>hl_data = 0, hl_generation = 0, hl_lock = (\<lambda>_. 0), hl_next = 1, hl_freed = {},
      hl_readers = replicate readers Outside, hl_writer = NoWriter\<rparr>"

definition MAX_GUARDS :: nat where
  "MAX_GUARDS = isize_max"

definition generation_slot :: "usize \<Rightarrow> bool" where
  "generation_slot g = (g mod 2 = 1)"

section \<open>Reading\<close>

text \<open>
  The result of a step: \<open>Aborted\<close> is the process's abort on too many guards, \<open>Violation\<close> the use of
  freed memory.
\<close>

datatype 's step = Blocked | Aborted | Violation | To 's

definition read_step :: "nat \<Rightarrow> half_lock \<Rightarrow> half_lock step" where
  "read_step i h =
     (if i \<ge> length (hl_readers h) then Blocked
      else case hl_readers h ! i of
        Outside \<Rightarrow> To (h\<lparr>hl_readers := (hl_readers h)[i := GotGeneration (generation_slot (hl_generation h))]\<rparr>)
      | GotGeneration s \<Rightarrow>
          if hl_lock h s > MAX_GUARDS then Aborted
          else To (h\<lparr>hl_lock := (hl_lock h)(s := hl_lock h s + 1), hl_readers := (hl_readers h)[i := Locked s]\<rparr>)
      | Locked s \<Rightarrow> To (h\<lparr>hl_readers := (hl_readers h)[i := Holding s (hl_data h)]\<rparr>)
      | Holding s p \<Rightarrow> if p \<in> hl_freed h then Violation else To h)"

text \<open>Dropping the guard.\<close>

definition read_drop :: "nat \<Rightarrow> half_lock \<Rightarrow> half_lock step" where
  "read_drop i h =
     (if i \<ge> length (hl_readers h) then Blocked
      else case hl_readers h ! i of
        Holding s p \<Rightarrow>
          To (h\<lparr>hl_lock := (hl_lock h)(s := hl_lock h s - 1), hl_readers := (hl_readers h)[i := Outside]\<rparr>)
      | _ \<Rightarrow> Blocked)"

section \<open>Writing\<close>

definition write_step :: "half_lock \<Rightarrow> half_lock step" where
  "write_step h =
     (case hl_writer h of
        NoWriter \<Rightarrow> if hl_data h \<in> hl_freed h then Violation else To (h\<lparr>hl_writer := HasMutex\<rparr>)
      | HasMutex \<Rightarrow>
          To (h\<lparr>hl_data := hl_next h, hl_next := hl_next h + 1,
                hl_writer := Checking (hl_data h) (\<lambda>_. False) False False\<rparr>)
      | Checking old seen switched slot \<Rightarrow>
          (let seen = seen(slot := seen slot \<or> hl_lock h slot = 0) in
           To (h\<lparr>hl_writer :=
                   (if \<not> slot then Checking old seen switched True
                    else if \<not> switched then Switching old seen
                    else if seen False \<and> seen True then Freeing old
                    else Checking old seen True False)\<rparr>))
      | Switching old seen \<Rightarrow>
          To (h\<lparr>hl_generation := hl_generation h + 1,
                hl_writer := (if seen False \<and> seen True then Freeing old else Checking old seen True False)\<rparr>)
      | Freeing old \<Rightarrow>
          if old \<in> hl_freed h then Violation
          else To (h\<lparr>hl_freed := insert old (hl_freed h), hl_writer := HasMutex\<rparr>))"

text \<open>Dropping the write guard releases the mutex.\<close>

definition write_drop :: "half_lock \<Rightarrow> half_lock step" where
  "write_drop h = (if hl_writer h = HasMutex then To (h\<lparr>hl_writer := NoWriter\<rparr>) else Blocked)"

datatype half_action = ReadStep nat | ReadDrop nat | WriteStep | WriteDrop

fun half_act :: "half_action \<Rightarrow> half_lock \<Rightarrow> half_lock step" where
  "half_act (ReadStep i) = read_step i"
| "half_act (ReadDrop i) = read_drop i"
| "half_act WriteStep = write_step"
| "half_act WriteDrop = write_drop"

inductive half_reach :: "nat \<Rightarrow> half_lock \<Rightarrow> bool" for n where
  half_start: "half_reach n (half_lock_new n)"
| half_step: "half_reach n h \<Longrightarrow> half_act a h = To h' \<Longrightarrow> half_reach n h'"

section \<open>Safety\<close>

fun locks :: "bool \<Rightarrow> reader \<Rightarrow> bool" where
  "locks s (Locked s') = (s' = s)"
| "locks s (Holding s' p) = (s' = s)"
| "locks s _ = False"

text \<open>Addresses the writer still has to free, and which slots have been seen empty since the swap.\<close>

fun pending_old :: "half_writer \<Rightarrow> (nat \<times> (bool \<Rightarrow> bool)) option" where
  "pending_old (Checking old seen _ _) = Some (old, seen)"
| "pending_old (Switching old seen) = Some (old, seen)"
| "pending_old (Freeing old) = Some (old, \<lambda>_. True)"
| "pending_old _ = None"

definition half_inv :: "half_lock \<Rightarrow> bool" where
  "half_inv h \<longleftrightarrow>
     (\<forall>s. hl_lock h s = length (filter (locks s) (hl_readers h)))
     \<and> hl_data h \<notin> hl_freed h \<and> hl_data h < hl_next h \<and> (\<forall>p \<in> hl_freed h. p < hl_next h)
     \<and> (\<forall>old seen. pending_old (hl_writer h) = Some (old, seen) \<longrightarrow>
          old \<noteq> hl_data h \<and> old \<notin> hl_freed h \<and> old < hl_next h)
     \<and> (\<forall>i s p. i < length (hl_readers h) \<longrightarrow> hl_readers h ! i = Holding s p \<longrightarrow>
          p = hl_data h \<or> (\<exists>old seen. pending_old (hl_writer h) = Some (old, seen) \<and> p = old \<and> \<not> seen s))"

lemma half_inv_new: "half_inv (half_lock_new n)"
  by (auto simp: half_inv_def half_lock_new_def)

lemma half_invD:
  assumes "half_inv h"
  shows "hl_lock h s = length (filter (locks s) (hl_readers h))" "hl_data h \<notin> hl_freed h" "hl_data h < hl_next h"
    "p \<in> hl_freed h \<Longrightarrow> p < hl_next h"
    "pending_old (hl_writer h) = Some (old, seen) \<Longrightarrow> old \<noteq> hl_data h \<and> old \<notin> hl_freed h \<and> old < hl_next h"
    "i < length (hl_readers h) \<Longrightarrow> hl_readers h ! i = Holding s p \<Longrightarrow>
       p = hl_data h \<or> (\<exists>old seen. pending_old (hl_writer h) = Some (old, seen) \<and> p = old \<and> \<not> seen s)"
  using assms unfolding half_inv_def by blast+

text \<open>What a reader holds has not been freed.\<close>

lemma holding_alive:
  assumes "half_inv h" "i < length (hl_readers h)" "hl_readers h ! i = Holding s p"
  shows "p \<notin> hl_freed h"
  using half_invD(2) [OF assms(1)] half_invD(5) [OF assms(1)] half_invD(6) [OF assms] by blast

text \<open>Changing one reader.\<close>

lemma half_inv_reader:
  assumes inv: "half_inv h" and i: "i < length (hl_readers h)"
    and lock: "\<And>s. lk s + (if locks s (hl_readers h ! i) then 1 else 0) = hl_lock h s + (if locks s r then 1 else 0)"
    and hold: "\<And>s p. r = Holding s p \<Longrightarrow> p = hl_data h"
  shows "half_inv (h\<lparr>hl_lock := lk, hl_readers := (hl_readers h)[i := r]\<rparr>)"
proof -
  have "lk s = length (filter (locks s) ((hl_readers h)[i := r]))" for s
    using length_filter_update [OF i, of "locks s" r] lock [of s] half_invD(1) [OF inv, of s] by simp
  moreover have "p = hl_data h \<or> (\<exists>old seen. pending_old (hl_writer h) = Some (old, seen) \<and> p = old \<and> \<not> seen s)"
    if "j < length (hl_readers h)" "(hl_readers h)[i := r] ! j = Holding s p" for j s p
    using that hold half_invD(6) [OF inv, of j s p] by (cases "j = i") auto
  ultimately show ?thesis using half_invD(2-5) [OF inv] by (auto simp: half_inv_def)
qed

lemma half_inv_read:
  assumes "half_inv h" "read_step i h = To h'"
  shows "half_inv h'"
proof -
  have i: "i < length (hl_readers h)" using assms(2) by (auto simp: read_step_def split: if_splits)
  show ?thesis
  proof (cases "hl_readers h ! i")
    case Outside
    then show ?thesis
      using assms(2) i half_inv_reader [OF assms(1) i, of "hl_lock h" "GotGeneration (generation_slot (hl_generation h))"]
      by (simp add: read_step_def)
  next
    case (GotGeneration s)
    then show ?thesis
      using assms(2) i half_inv_reader [OF assms(1) i, of "(hl_lock h)(s := hl_lock h s + 1)" "Locked s"]
      by (auto simp: read_step_def split: if_splits)
  next
    case (Locked s)
    then show ?thesis
      using assms(2) i half_inv_reader [OF assms(1) i, of "hl_lock h" "Holding s (hl_data h)"]
      by (auto simp: read_step_def)
  next
    case (Holding s p)
    then show ?thesis using assms i by (auto simp: read_step_def split: if_splits)
  qed
qed

lemma locked_pos:
  assumes "half_inv h" "i < length (hl_readers h)" "locks s (hl_readers h ! i)"
  shows "0 < hl_lock h s"
proof -
  have "hl_readers h ! i \<in> set (filter (locks s) (hl_readers h))" using assms(2,3) by simp
  then show ?thesis using half_invD(1) [OF assms(1), of s] by (metis length_pos_if_in_set)
qed

lemma half_inv_drop:
  assumes "half_inv h" "read_drop i h = To h'"
  shows "half_inv h'"
proof -
  obtain s p where i: "i < length (hl_readers h)" "hl_readers h ! i = Holding s p"
    "h' = h\<lparr>hl_lock := (hl_lock h)(s := hl_lock h s - 1), hl_readers := (hl_readers h)[i := Outside]\<rparr>"
    using assms(2) by (auto simp: read_drop_def split: if_splits reader.splits)
  have pos: "0 < hl_lock h s" using locked_pos [OF assms(1) i(1), of s] i(2) by simp
  show ?thesis unfolding i(3)
    by (rule half_inv_reader [OF assms(1) i(1)]) (use pos i(2) in auto)
qed

text \<open>Changing the writer: the readers that hold the old value keep a slot that is not seen empty.\<close>

lemma half_inv_writer:
  assumes inv: "half_inv h" and pend: "pending_old (hl_writer h) = Some (old, seen)"
    and new: "pending_old w = Some (old, seen')" and seen: "\<And>s. seen' s \<Longrightarrow> seen s \<or> hl_lock h s = 0"
  shows "half_inv (h\<lparr>hl_writer := w\<rparr>)"
proof -
  have "p = hl_data h \<or> p = old \<and> \<not> seen' s" if "i < length (hl_readers h)" "hl_readers h ! i = Holding s p" for i s p
  proof (cases "p = hl_data h")
    case False
    then have "p = old" "\<not> seen s" using half_invD(6) [OF inv that] pend by auto
    moreover have "0 < hl_lock h s" using locked_pos [OF inv that(1), of s] that(2) by simp
    ultimately show ?thesis using seen [of s] by auto
  qed blast
  then show ?thesis using half_invD(1-4) [OF inv] half_invD(5) [OF inv pend] new by (auto simp: half_inv_def)
qed

lemma half_inv_generation [simp]: "half_inv (h\<lparr>hl_generation := g, hl_writer := w\<rparr>) = half_inv (h\<lparr>hl_writer := w\<rparr>)"
  by (simp add: half_inv_def)

lemma half_inv_write:
  assumes inv: "half_inv h" and act: "write_step h = To h'"
  shows "half_inv h'"
proof (cases "hl_writer h")
  case NoWriter
  then show ?thesis using assms by (auto simp: write_step_def half_inv_def split: if_splits)
next
  case HasMutex
  have "h' = h\<lparr>hl_data := hl_next h, hl_next := hl_next h + 1,
                hl_writer := Checking (hl_data h) (\<lambda>_. False) False False\<rparr>"
    using act HasMutex by (simp add: write_step_def)
  moreover have "p = hl_data h" if "i < length (hl_readers h)" "hl_readers h ! i = Holding s p" for i s p
    using half_invD(6) [OF inv that] HasMutex by simp
  moreover have "hl_next h \<notin> hl_freed h" using half_invD(4) [OF inv, of "hl_next h"] by auto
  ultimately show ?thesis using half_invD(1-4) [OF inv] by (auto simp: half_inv_def less_Suc_eq)
next
  case (Checking old seen switched slot)
  define sn where "sn = seen(slot := seen slot \<or> hl_lock h slot = 0)"
  let ?ok = "\<lambda>seen'. \<forall>s. seen' s \<longrightarrow> seen s \<or> hl_lock h s = 0"
  let ?w = "if \<not> slot then Checking old sn switched True else if \<not> switched then Switching old sn
          else if sn False \<and> sn True then Freeing old else Checking old sn True False"
  have seen: "?ok sn" by (simp add: sn_def)
  have all: "?ok (\<lambda>_. True)" if "sn False" "sn True"
  proof (intro allI impI)
    fix s
    have "sn s" using that by (cases s) simp_all
    then show "seen s \<or> hl_lock h s = 0" by (rule seen [rule_format])
  qed
  have h': "h' = h\<lparr>hl_writer := ?w\<rparr>" using act unfolding write_step_def Checking Let_def sn_def by simp
  have "\<exists>seen'. pending_old ?w = Some (old, seen') \<and> ?ok seen'"
  proof (cases "slot \<and> switched \<and> sn False \<and> sn True")
    case True
    then have "pending_old ?w = Some (old, \<lambda>_. True)" by simp
    moreover have "?ok (\<lambda>_. True)" using True by (intro all) simp_all
    ultimately show ?thesis by blast
  next
    case False
    then have "pending_old ?w = Some (old, sn)" by auto
    then show ?thesis using seen by blast
  qed
  then obtain seen' where n: "pending_old ?w = Some (old, seen')" "?ok seen'" by blast
  have p: "pending_old (hl_writer h) = Some (old, seen)" using Checking by simp
  show ?thesis unfolding h' by (rule half_inv_writer [OF inv p n(1)]) (rule n(2) [rule_format])
next
  case (Switching old seen)
  let ?w = "if seen False \<and> seen True then Freeing old else Checking old seen True False"
  have h': "h' = h\<lparr>hl_generation := hl_generation h + 1, hl_writer := ?w\<rparr>" using act Switching by (simp add: write_step_def)
  have p: "pending_old (hl_writer h) = Some (old, seen)" using Switching by simp
  have "seen s" if "seen False" "seen True" for s using that by (cases s) simp_all
  then have "half_inv (h\<lparr>hl_writer := ?w\<rparr>)"
    using half_inv_writer [OF inv p, of "Freeing old" "\<lambda>_. True"] half_inv_writer [OF inv p, of "Checking old seen True False" seen]
    by simp
  then show ?thesis unfolding h' by simp
next
  case (Freeing old)
  then have "h' = h\<lparr>hl_freed := insert old (hl_freed h), hl_writer := HasMutex\<rparr>"
    using act by (auto simp: write_step_def split: if_splits)
  moreover have "p = hl_data h" if "i < length (hl_readers h)" "hl_readers h ! i = Holding s p" for i s p
    using half_invD(6) [OF inv that] Freeing by auto
  moreover have "old \<noteq> hl_data h" "old < hl_next h" using half_invD(5) [OF inv] Freeing by simp_all
  ultimately show ?thesis using half_invD(1-4) [OF inv] by (auto simp: half_inv_def)
qed

lemma half_act_inv:
  assumes "half_inv h" "half_act a h = To h'"
  shows "half_inv h'"
proof (cases a)
  case (ReadStep i)
  then show ?thesis using half_inv_read [OF assms(1), of i] assms(2) by simp
next
  case (ReadDrop i)
  then show ?thesis using half_inv_drop [OF assms(1), of i] assms(2) by simp
next
  case WriteStep
  then show ?thesis using half_inv_write [OF assms(1)] assms(2) by simp
next
  case WriteDrop
  then have "hl_writer h = HasMutex" "h' = h\<lparr>hl_writer := NoWriter\<rparr>"
    using assms(2) by (auto simp: write_drop_def split: if_splits)
  then show ?thesis using assms(1) by (simp add: half_inv_def)
qed

lemma half_reach_inv: "half_reach n h \<Longrightarrow> half_inv h"
  by (induction rule: half_reach.induct) (auto simp: half_inv_new intro: half_act_inv)

text \<open>
  C36. The half-lock never frees what a reader uses.  In any interleaving of the atomic accesses of
  any number of readers - signal handlers included - with a writer that stores any number of
  values, no step ever touches a freed value, neither a reader's use of its guard nor the
  writer's; and no value is freed twice.
\<close>

theorem half_lock_safe:
  assumes "half_reach n h"
  shows "half_act a h \<noteq> Violation"
proof -
  have inv: "half_inv h" by (rule half_reach_inv [OF assms])
  show ?thesis
  proof (cases a)
    case (ReadStep i)
    then show ?thesis using holding_alive [OF inv, of i] by (cases "hl_readers h ! i") (auto simp: read_step_def)
  next
    case (ReadDrop i)
    then show ?thesis by (auto simp: read_drop_def split: reader.splits)
  next
    case WriteStep
    then show ?thesis using half_invD(2,5) [OF inv]
      by (auto simp: write_step_def Let_def split: half_writer.splits)
  qed (simp add: write_drop_def)
qed

text \<open>A reader holds the first value while a writer has already published the second.\<close>

definition overtaken :: half_lock where
  "overtaken = \<lparr>hl_data = 1, hl_generation = 0, hl_lock = (\<lambda>_. 0)(False := 1), hl_next = 2, hl_freed = {},
      hl_readers = [Holding False 0], hl_writer = Checking 0 (\<lambda>_. False) False False\<rparr>"

lemma overtaken_reach: "half_reach 1 overtaken"
proof -
  let ?h = "half_lock_new 1"
  let ?h1 = "?h\<lparr>hl_readers := [GotGeneration False]\<rparr>"
  let ?h2 = "?h\<lparr>hl_lock := (\<lambda>_. 0)(False := 1), hl_readers := [Locked False]\<rparr>"
  let ?h3 = "?h\<lparr>hl_lock := (\<lambda>_. 0)(False := 1), hl_readers := [Holding False 0]\<rparr>"
  have "half_reach 1 ?h" by (rule half_start)
  then have "half_reach 1 ?h1" by (rule half_step [of _ _ "ReadStep 0"])
      (simp add: read_step_def half_lock_new_def generation_slot_def)
  then have "half_reach 1 ?h2" by (rule half_step [of _ _ "ReadStep 0"]) (simp add: read_step_def half_lock_new_def)
  then have "half_reach 1 ?h3" by (rule half_step [of _ _ "ReadStep 0"]) (simp add: read_step_def half_lock_new_def)
  then have "half_reach 1 (?h3\<lparr>hl_writer := HasMutex\<rparr>)" by (rule half_step [of _ _ WriteStep])
      (simp add: write_step_def half_lock_new_def)
  then show ?thesis by (rule half_step [of _ _ WriteStep]) (simp add: write_step_def half_lock_new_def overtaken_def)
qed

lemma half_lock_safe_witness: "half_act (ReadStep 0) overtaken \<noteq> Violation \<and> hl_readers overtaken = [Holding False 0]"
  using half_lock_safe [OF overtaken_reach, of "ReadStep 0"] by (simp add: overtaken_def)

section \<open>Draining\<close>

text \<open>
  Once the generation has moved on, no reader enters the old slot any more: the readers that are
  in it, or have chosen it, only become fewer.
\<close>

fun claims :: "bool \<Rightarrow> reader \<Rightarrow> bool" where
  "claims s Outside = False"
| "claims s (GotGeneration s') = (s' = s)"
| "claims s (Locked s') = (s' = s)"
| "claims s (Holding s' p) = (s' = s)"

lemma old_slot_drains:
  assumes "half_act a h = To h'" "generation_slot (hl_generation h) \<noteq> s"
  shows "length (filter (claims s) (hl_readers h')) \<le> length (filter (claims s) (hl_readers h))"
proof -
  have upd: "length (filter (claims s) ((hl_readers h)[i := r])) \<le> length (filter (claims s) (hl_readers h))"
    if "i < length (hl_readers h)" "claims s r \<longrightarrow> claims s (hl_readers h ! i)" for i r
    using length_filter_update [OF that(1), of "claims s" r] that(2) by (auto split: if_splits)
  show ?thesis
  proof (cases a)
    case (ReadStep i)
    then show ?thesis using assms upd [of i] by (auto simp: read_step_def split: if_splits reader.splits)
  next
    case (ReadDrop i)
    then show ?thesis using assms upd [of i] by (auto simp: read_drop_def split: if_splits reader.splits)
  next
    case WriteStep
    then show ?thesis using assms by (auto simp: write_step_def Let_def split: if_splits half_writer.splits)
  next
    case WriteDrop
    then show ?thesis using assms by (auto simp: write_drop_def split: if_splits)
  qed
qed

end
