(* ===== verification/Slab.thy ===== *)
theory Slab
  imports Prelude
begin

text \<open>
  The slab of \<^verbatim>\<open>karmaio/src/slab.rs\<close>: a vector of slots, the vacant ones linked into a free list
  whose head is \<^verbatim>\<open>next\<close>. The record \<open>slab\<close> has the three fields of the struct; each operation is
  one definition; \<open>slab_inv\<close> is the representation invariant (the free list threads every vacant
  slot exactly once and ends at the length of the vector, and \<^verbatim>\<open>len\<close> counts the occupied slots);
  \<open>slab_map\<close> is the finite map a slab implements. The allocation capacity of the vector is not
  part of the state: no operation of the slab branches on it.
\<close>

section \<open>State\<close>

datatype 'a entry = Vacant nat | Occupied 'a

record 'a slab =
  sl_entries :: "'a entry list"
  sl_len :: nat
  sl_next :: nat

section \<open>Operations\<close>

definition slab_new :: "'a slab" where
  "slab_new = \<lparr>sl_entries = [], sl_len = 0, sl_next = 0\<rparr>"

definition slab_with_capacity :: "nat \<Rightarrow> 'a slab" where
  "slab_with_capacity capacity = \<lparr>sl_entries = [], sl_len = 0, sl_next = 0\<rparr>"

definition slab_clear :: "'a slab \<Rightarrow> 'a slab" where
  "slab_clear s = s\<lparr>sl_entries := [], sl_len := 0, sl_next := 0\<rparr>"

definition slab_len :: "'a slab \<Rightarrow> nat" where
  "slab_len s = sl_len s"

definition slab_is_empty :: "'a slab \<Rightarrow> bool" where
  "slab_is_empty s \<longleftrightarrow> sl_len s = 0"

definition slab_get :: "'a slab \<Rightarrow> nat \<Rightarrow> 'a option" where
  "slab_get s key = (case list_get (sl_entries s) key of Some (Occupied v) \<Rightarrow> Some v | _ \<Rightarrow> None)"

text \<open>
  \<^verbatim>\<open>get_mut\<close> hands out a mutable reference; what the caller does through it is the function \<open>f\<close>.
\<close>

definition slab_get_mut :: "'a slab \<Rightarrow> nat \<Rightarrow> ('a \<Rightarrow> 'a) \<Rightarrow> 'a slab" where
  "slab_get_mut s key f =
     (case list_get (sl_entries s) key of
        Some (Occupied v) \<Rightarrow> s\<lparr>sl_entries := (sl_entries s)[key := Occupied (f v)]\<rparr>
      | _ \<Rightarrow> s)"

definition slab_vacant_key :: "'a slab \<Rightarrow> nat" where
  "slab_vacant_key s = sl_next s"

text \<open>\<^verbatim>\<open>insert_at\<close>: \<open>None\<close> is the \<^verbatim>\<open>unreachable!()\<close> of a key that is not the free-list head.\<close>

definition slab_insert_at :: "'a slab \<Rightarrow> nat \<Rightarrow> 'a \<Rightarrow> 'a slab option" where
  "slab_insert_at s key val =
     (if key = length (sl_entries s) then
        Some (s\<lparr>sl_entries := sl_entries s @ [Occupied val], sl_len := sl_len s + 1, sl_next := key + 1\<rparr>)
      else case list_get (sl_entries s) key of
        Some (Vacant nxt) \<Rightarrow>
          Some (s\<lparr>sl_entries := (sl_entries s)[key := Occupied val], sl_len := sl_len s + 1, sl_next := nxt\<rparr>)
      | _ \<Rightarrow> None)"

definition slab_insert :: "'a slab \<Rightarrow> 'a \<Rightarrow> (nat \<times> 'a slab) option" where
  "slab_insert s val =
     (let key = sl_next s in map_option (\<lambda>s'. (key, s')) (slab_insert_at s key val))"

text \<open>\<^verbatim>\<open>vacant_entry().insert(create(key))\<close>: the value may depend on the key it will get.\<close>

definition slab_vacant_entry_insert :: "'a slab \<Rightarrow> (nat \<Rightarrow> 'a) \<Rightarrow> (nat \<times> 'a slab) option" where
  "slab_vacant_entry_insert s create =
     (let key = sl_next s in
      case slab_insert_at s key (create key) of
        None \<Rightarrow> None
      | Some s' \<Rightarrow> (case slab_get s' key of Some _ \<Rightarrow> Some (key, s') | None \<Rightarrow> None))"

definition slab_try_remove :: "'a slab \<Rightarrow> nat \<Rightarrow> 'a option \<times> 'a slab" where
  "slab_try_remove s key =
     (case list_get (sl_entries s) key of
        Some (Occupied val) \<Rightarrow>
          (Some val,
           s\<lparr>sl_entries := (sl_entries s)[key := Vacant (sl_next s)], sl_len := sl_len s - 1, sl_next := key\<rparr>)
      | _ \<Rightarrow> (None, s))"

text \<open>\<^verbatim>\<open>remove\<close> panics on a key without a value.\<close>

definition slab_remove :: "'a slab \<Rightarrow> nat \<Rightarrow> ('a \<times> 'a slab) option" where
  "slab_remove s key =
     (case slab_try_remove s key of (Some v, s') \<Rightarrow> Some (v, s') | (None, _) \<Rightarrow> None)"

definition slab_contains :: "'a slab \<Rightarrow> nat \<Rightarrow> bool" where
  "slab_contains s key =
     (case list_get (sl_entries s) key of Some (Occupied _) \<Rightarrow> True | _ \<Rightarrow> False)"

subsection \<open>Iterators\<close>

text \<open>
  \<^verbatim>\<open>Iter\<close> and \<^verbatim>\<open>IterMut\<close> hold the not yet visited slots with their indices, and the number of
  values still to come. Both ends of the range can be consumed.
\<close>

record 'a slab_iter =
  it_entries :: "(nat \<times> 'a entry) list"
  it_len :: nat

definition slab_iter :: "'a slab \<Rightarrow> 'a slab_iter" where
  "slab_iter s = \<lparr>it_entries = enumerate 0 (sl_entries s), it_len = sl_len s\<rparr>"

fun iter_scan :: "(nat \<times> 'a entry) list \<Rightarrow> ((nat \<times> 'a) \<times> (nat \<times> 'a entry) list) option" where
  "iter_scan [] = None"
| "iter_scan ((key, Occupied v) # es) = Some ((key, v), es)"
| "iter_scan ((key, Vacant _) # es) = iter_scan es"

definition iter_next :: "'a slab_iter \<Rightarrow> (nat \<times> 'a) option \<times> 'a slab_iter" where
  "iter_next it =
     (case iter_scan (it_entries it) of
        Some (kv, es) \<Rightarrow> (Some kv, it\<lparr>it_entries := es, it_len := it_len it - 1\<rparr>)
      | None \<Rightarrow> (None, it\<lparr>it_entries := []\<rparr>))"

definition iter_next_back :: "'a slab_iter \<Rightarrow> (nat \<times> 'a) option \<times> 'a slab_iter" where
  "iter_next_back it =
     (case iter_scan (rev (it_entries it)) of
        Some (kv, es) \<Rightarrow> (Some kv, it\<lparr>it_entries := rev es, it_len := it_len it - 1\<rparr>)
      | None \<Rightarrow> (None, it\<lparr>it_entries := []\<rparr>))"

text \<open>Everything the iterator still yields, front to back.\<close>

fun occupied_pairs :: "(nat \<times> 'a entry) list \<Rightarrow> (nat \<times> 'a) list" where
  "occupied_pairs [] = []"
| "occupied_pairs ((key, Occupied v) # es) = (key, v) # occupied_pairs es"
| "occupied_pairs ((key, Vacant _) # es) = occupied_pairs es"

definition slab_pairs :: "'a slab \<Rightarrow> (nat \<times> 'a) list" where
  "slab_pairs s = occupied_pairs (enumerate 0 (sl_entries s))"

section \<open>Invariant and abstraction\<close>

definition slab_map :: "'a slab \<Rightarrow> nat \<rightharpoonup> 'a" where
  "slab_map s = slab_get s"

fun is_occupied :: "'a entry \<Rightarrow> bool" where
  "is_occupied (Occupied _) = True"
| "is_occupied (Vacant _) = False"

text \<open>\<open>chain es n ks\<close>: from head \<open>n\<close> the free list visits exactly \<open>ks\<close> and ends at the length.\<close>

fun chain :: "'a entry list \<Rightarrow> nat \<Rightarrow> nat list \<Rightarrow> bool" where
  "chain es n [] \<longleftrightarrow> n = length es"
| "chain es n (k # ks) \<longleftrightarrow>
     n = k \<and> (case list_get es k of Some (Vacant m) \<Rightarrow> chain es m ks | _ \<Rightarrow> False)"

definition free_list_ok :: "'a slab \<Rightarrow> nat list \<Rightarrow> bool" where
  "free_list_ok s ks \<longleftrightarrow>
     chain (sl_entries s) (sl_next s) ks \<and> distinct ks \<and>
     (\<forall>i < length (sl_entries s). i \<in> set ks \<longleftrightarrow> \<not> is_occupied (sl_entries s ! i))"

definition slab_inv :: "'a slab \<Rightarrow> bool" where
  "slab_inv s \<longleftrightarrow> sl_len s = length (filter is_occupied (sl_entries s)) \<and> (\<exists>ks. free_list_ok s ks)"


section \<open>Lookup after each operation\<close>

definition slab_slots :: "'a slab \<Rightarrow> nat" where
  "slab_slots s = length (sl_entries s)"

lemma slab_get_Some_iff:
  "slab_get s k = Some v \<longleftrightarrow> list_get (sl_entries s) k = Some (Occupied v)"
  by (auto simp: slab_get_def split: option.splits entry.splits)

lemma slab_get_None_iff:
  "slab_get s k = None \<longleftrightarrow> (\<forall>v. list_get (sl_entries s) k \<noteq> Some (Occupied v))"
  by (auto simp: slab_get_def split: option.splits entry.splits)

lemma slab_get_bound: "slab_get s k = Some v \<Longrightarrow> k < slab_slots s"
  by (auto simp: slab_get_Some_iff list_get_Some_iff slab_slots_def)

lemma slab_contains_iff: "slab_contains s k \<longleftrightarrow> slab_get s k \<noteq> None"
  by (auto simp: slab_contains_def slab_get_def split: option.splits entry.splits)

lemma slab_get_new [slab_simps, simp]: "slab_get slab_new k = None"
  by (simp add: slab_get_def slab_new_def)

lemma slab_get_clear [slab_simps, simp]: "slab_get (slab_clear s) k = None"
  by (simp add: slab_get_def slab_clear_def)

lemma slab_get_get_mut [slab_simps, simp]:
  "slab_get (slab_get_mut s k f) j =
     (if j = k then map_option f (slab_get s k) else slab_get s j)"
  by (auto simp: slab_get_def slab_get_mut_def list_get_def nth_list_update
           split: option.splits entry.splits if_splits)

lemma slab_slots_get_mut [slab_simps, simp]: "slab_slots (slab_get_mut s k f) = slab_slots s"
  by (auto simp: slab_slots_def slab_get_mut_def split: option.splits entry.splits)

lemma slab_next_get_mut [slab_simps, simp]: "slab_vacant_key (slab_get_mut s k f) = slab_vacant_key s"
  by (auto simp: slab_vacant_key_def slab_get_mut_def split: option.splits entry.splits)

lemma slab_get_insert_at:
  "slab_insert_at s k v = Some s' \<Longrightarrow>
   slab_get s' = (slab_get s)(k \<mapsto> v) \<and> slab_slots s' = max (slab_slots s) (k + 1)"
  by (auto simp: slab_insert_at_def slab_get_def slab_slots_def fun_eq_iff list_get_append
           list_get_def max_def nth_list_update nth_append split: option.splits entry.splits if_splits)

lemma slab_get_try_remove:
  "slab_try_remove s k = (r, s') \<Longrightarrow>
   r = slab_get s k \<and> slab_get s' = (slab_get s)(k := None) \<and> slab_slots s' = slab_slots s"
  by (auto simp: slab_try_remove_def slab_get_def slab_slots_def fun_eq_iff list_get_def
           nth_list_update split: option.splits entry.splits if_splits)

section \<open>The representation invariant is kept\<close>

lemma chain_cong:
  assumes "\<And>k. k \<in> set ks \<Longrightarrow> list_get es' k = list_get es k" and "length es' = length es"
  shows "chain es' n ks = chain es n ks"
  using assms by (induction ks arbitrary: n) (auto split: option.splits entry.splits)

lemma chain_bound: "chain es n ks \<Longrightarrow> set ks \<subseteq> {..<length es}"
  by (induction ks arbitrary: n) (auto simp: list_get_Some_iff split: option.splits entry.splits)

lemma filter_occupied_update:
  assumes "k < length es"
  shows "\<not> is_occupied (es ! k) \<Longrightarrow>
           length (filter is_occupied (es[k := Occupied v])) = Suc (length (filter is_occupied es))"
    and "is_occupied (es ! k) \<Longrightarrow>
           length (filter is_occupied (es[k := Occupied v])) = length (filter is_occupied es)"
    and "is_occupied (es ! k) \<Longrightarrow>
           Suc (length (filter is_occupied (es[k := Vacant n]))) = length (filter is_occupied es)"
  using length_filter_update [OF assms, of is_occupied "Occupied v"]
    length_filter_update [OF assms, of is_occupied "Vacant n"] by auto

lemma slab_inv_new [inv_intros]: "slab_inv slab_new"
  by (auto simp: slab_inv_def slab_new_def free_list_ok_def intro!: exI [of _ "[]"])

lemma slab_inv_with_capacity [inv_intros]: "slab_inv (slab_with_capacity c)"
  by (auto simp: slab_inv_def slab_with_capacity_def free_list_ok_def intro!: exI [of _ "[]"])

lemma slab_inv_clear [inv_intros]: "slab_inv (slab_clear s)"
  by (auto simp: slab_inv_def slab_clear_def free_list_ok_def intro!: exI [of _ "[]"])

text \<open>The head of the free list is a slot without a value.\<close>

lemma vacant_key_cases:
  assumes "free_list_ok s ks"
  obtains "ks = []" "sl_next s = length (sl_entries s)"
  | nxt ks' where "ks = sl_next s # ks'" "sl_next s < length (sl_entries s)"
      "sl_entries s ! sl_next s = Vacant nxt" "chain (sl_entries s) nxt ks'"
proof (cases ks)
  case Nil
  with assms that(1) show ?thesis by (auto simp: free_list_ok_def)
next
  case (Cons k ks')
  with assms that(2) show ?thesis
    by (auto simp: free_list_ok_def list_get_Some_iff split: option.splits entry.splits)
qed

lemma slab_inv_vacant: "slab_inv s \<Longrightarrow> slab_get s (slab_vacant_key s) = None"
  by (auto simp: slab_inv_def slab_get_None_iff list_get_Some_iff slab_vacant_key_def
           elim: vacant_key_cases)

lemma slab_inv_vacant_le: "slab_inv s \<Longrightarrow> slab_vacant_key s \<le> slab_slots s"
  by (auto simp: slab_inv_def slab_vacant_key_def slab_slots_def elim: vacant_key_cases)

lemma free_list_ok_pop:
  assumes "free_list_ok s (k # ks)" and "sl_entries s ! k = Vacant nxt"
  shows "free_list_ok (s\<lparr>sl_entries := (sl_entries s)[k := Occupied v], sl_len := n, sl_next := nxt\<rparr>) ks"
proof -
  from assms have k: "k < length (sl_entries s)" and c: "chain (sl_entries s) nxt ks"
    and d: "distinct (k # ks)"
    by (auto simp: free_list_ok_def list_get_Some_iff split: option.splits entry.splits)
  from d have "chain ((sl_entries s)[k := Occupied v]) nxt ks = chain (sl_entries s) nxt ks"
    by (intro chain_cong) auto
  with assms c d k show ?thesis by (auto simp: free_list_ok_def nth_list_update)
qed

lemma free_list_ok_push:
  assumes ok: "free_list_ok s ks" and k: "k < length (sl_entries s)"
    and occ: "is_occupied (sl_entries s ! k)"
  shows "free_list_ok
           (s\<lparr>sl_entries := (sl_entries s)[k := Vacant (sl_next s)], sl_len := n, sl_next := k\<rparr>)
           (k # ks)"
proof -
  from ok k occ have notin: "k \<notin> set ks" by (auto simp: free_list_ok_def)
  then have "chain ((sl_entries s)[k := Vacant (sl_next s)]) (sl_next s) ks
           = chain (sl_entries s) (sl_next s) ks"
    by (intro chain_cong) auto
  with ok k notin show ?thesis by (auto simp: free_list_ok_def nth_list_update)
qed

lemma slab_insert_at_next:
  assumes "slab_inv s"
  obtains s' where "slab_insert_at s (sl_next s) v = Some s'" "slab_inv s'"
proof -
  from assms obtain ks where ok: "free_list_ok s ks"
    and n: "sl_len s = length (filter is_occupied (sl_entries s))"
    by (auto simp: slab_inv_def)
  from ok show ?thesis
  proof (cases rule: vacant_key_cases)
    case 1
    let ?s = "s\<lparr>sl_entries := sl_entries s @ [Occupied v], sl_len := sl_len s + 1,
      sl_next := sl_next s + 1\<rparr>"
    from ok 1 have "free_list_ok ?s []" by (auto simp: free_list_ok_def nth_append less_Suc_eq)
    with n have "slab_inv ?s" by (auto simp: slab_inv_def)
    with 1 show ?thesis by (intro that [of ?s]) (auto simp: slab_insert_at_def)
  next
    case (2 nxt ks')
    let ?s = "s\<lparr>sl_entries := (sl_entries s)[sl_next s := Occupied v], sl_len := sl_len s + 1,
      sl_next := nxt\<rparr>"
    from ok 2 have "free_list_ok ?s ks'" by (intro free_list_ok_pop) auto
    with n 2 have "slab_inv ?s"
      by (auto simp: slab_inv_def filter_occupied_update)
    with 2 show ?thesis by (intro that [of ?s]) (auto simp: slab_insert_at_def list_get_def)
  qed
qed

lemma slab_inv_try_remove [inv_intros]:
  assumes "slab_inv s" and "slab_try_remove s k = (r, s')"
  shows "slab_inv s'"
proof (cases "slab_get s k")
  case None
  with assms show ?thesis
    by (auto simp: slab_try_remove_def slab_get_def split: option.splits entry.splits)
next
  case (Some v)
  then have k: "k < length (sl_entries s)" "sl_entries s ! k = Occupied v"
    by (auto simp: slab_get_Some_iff list_get_Some_iff)
  from assms obtain ks where ok: "free_list_ok s ks" by (auto simp: slab_inv_def)
  have "Suc (length (filter is_occupied ((sl_entries s)[k := Vacant (sl_next s)])))
      = length (filter is_occupied (sl_entries s))"
    using k by (intro filter_occupied_update(3)) auto
  with assms k free_list_ok_push [OF ok k(1), of "sl_len s - 1"] show ?thesis
    by (auto simp: slab_inv_def slab_try_remove_def list_get_def)
qed

lemma free_list_ok_get_mut:
  assumes ok: "free_list_ok s ks"
  shows "free_list_ok (slab_get_mut s k f) ks"
proof (cases "slab_get s k")
  case None
  with ok show ?thesis
    by (auto simp: slab_get_mut_def slab_get_def split: option.splits entry.splits)
next
  case (Some v)
  then have k: "list_get (sl_entries s) k = Some (Occupied v)" by (simp add: slab_get_Some_iff)
  with ok have "k \<notin> set ks" by (auto simp: free_list_ok_def list_get_Some_iff)
  then have "chain ((sl_entries s)[k := Occupied (f v)]) (sl_next s) ks
           = chain (sl_entries s) (sl_next s) ks"
    by (intro chain_cong) auto
  moreover from k have "slab_get_mut s k f = s\<lparr>sl_entries := (sl_entries s)[k := Occupied (f v)]\<rparr>"
    by (simp add: slab_get_mut_def)
  ultimately show ?thesis
    using ok k by (auto simp: free_list_ok_def list_get_Some_iff nth_list_update)
qed

lemma slab_inv_get_mut [inv_intros]:
  assumes "slab_inv s"
  shows "slab_inv (slab_get_mut s k f)"
proof -
  have "length (filter is_occupied (sl_entries (slab_get_mut s k f)))
      = length (filter is_occupied (sl_entries s))" and "sl_len (slab_get_mut s k f) = sl_len s"
    by (auto simp: slab_get_mut_def list_get_Some_iff filter_occupied_update
        split: option.splits entry.splits)
  with assms free_list_ok_get_mut show ?thesis by (fastforce simp: slab_inv_def)
qed

section \<open>The interface other components rely on\<close>

text \<open>
  What a client of the slab may assume: a finite key/value map with keys chosen by the store, where
  the key of the next insertion is known in advance and is the last key released.
\<close>

locale key_store =
  fixes inv :: "'s \<Rightarrow> bool"
    and look :: "'s \<Rightarrow> nat \<Rightarrow> 'a option"
    and slots :: "'s \<Rightarrow> nat"
    and vacant :: "'s \<Rightarrow> nat"
    and ins :: "'s \<Rightarrow> 'a \<Rightarrow> (nat \<times> 's) option"
    and rem :: "'s \<Rightarrow> nat \<Rightarrow> 'a option \<times> 's"
    and upd :: "'s \<Rightarrow> nat \<Rightarrow> ('a \<Rightarrow> 'a) \<Rightarrow> 's"
  assumes look_bound: "look s k = Some v \<Longrightarrow> k < slots s"
    and vacant_free: "inv s \<Longrightarrow> look s (vacant s) = None"
    and vacant_le: "inv s \<Longrightarrow> vacant s \<le> slots s"
    and ins_spec: "inv s \<Longrightarrow> \<exists>s'. ins s v = Some (vacant s, s') \<and> inv s' \<and>
          look s' = (look s)(vacant s \<mapsto> v) \<and> slots s' = max (slots s) (vacant s + 1)"
    and rem_spec: "inv s \<Longrightarrow> rem s k = (r, s') \<Longrightarrow>
          r = look s k \<and> inv s' \<and> look s' = (look s)(k := None) \<and> slots s' = slots s"
    and rem_vacant: "inv s \<Longrightarrow> look s k \<noteq> None \<Longrightarrow> vacant (snd (rem s k)) = k"
    and upd_spec: "inv s \<Longrightarrow> inv (upd s k f) \<and> slots (upd s k f) = slots s \<and>
          vacant (upd s k f) = vacant s \<and>
          look (upd s k f) = (look s)(k := map_option f (look s k))"
begin

lemma ins_elim:
  assumes "inv s" and "ins s v = Some (k, s')"
  shows "k = vacant s" and "inv s'" and "look s' = (look s)(k \<mapsto> v)"
    and "slots s' = max (slots s) (k + 1)" and "look s k = None"
  using ins_spec [OF assms(1), of v] assms vacant_free by auto

lemma ins_total: "inv s \<Longrightarrow> ins s v \<noteq> None"
  using ins_spec by fastforce

text \<open>Inserting and removing again leaves the map as it was.\<close>

lemma ins_rem:
  assumes "inv s" and "ins s v = Some (k, s')" and "rem s' k = (r, s'')"
  shows "r = Some v" and "look s'' = look s"
  using ins_elim [OF assms(1,2)] rem_spec [OF _ assms(3)] by (auto simp: fun_eq_iff)

text \<open>Keys are reused last released, first reused.\<close>

lemma rem_ins_reuse:
  assumes "inv s" and "look s k \<noteq> None" and "rem s k = (r, s')" and "ins s' v = Some (k', s'')"
  shows "k' = k"
  using rem_vacant [OF assms(1,2)] rem_spec [OF assms(1,3)] ins_elim(1) [OF _ assms(4)] assms(3)
  by simp

lemma rem_rem_ins_ins:
  assumes "inv s" and "look s a \<noteq> None" and "look s b \<noteq> None" and "a \<noteq> b"
    and "rem s a = (ra, s1)" and "rem s1 b = (rb, s2)" and "ins s2 v = Some (k, s3)"
  shows "k = b" and "look s3 a = None"
proof -
  have 1: "inv s1" "look s1 = (look s)(a := None)" using rem_spec [OF assms(1,5)] by auto
  with assms(3,4) have "look s1 b \<noteq> None" by auto
  then show "k = b" using rem_ins_reuse [OF 1(1) _ assms(6,7)] by simp
  have 2: "inv s2" "look s2 = (look s1)(b := None)" using rem_spec [OF 1(1) assms(6)] by auto
  show "look s3 a = None" using ins_elim [OF 2(1) assms(7)] 1 2 assms(4) \<open>k = b\<close> by auto
qed

end

interpretation slab: key_store slab_inv slab_get slab_slots slab_vacant_key slab_insert
  slab_try_remove slab_get_mut
proof
  fix s :: "'a slab" and v :: 'a
  assume inv: "slab_inv s"
  obtain s' where ins: "slab_insert_at s (sl_next s) v = Some s'" and inv': "slab_inv s'"
    using slab_insert_at_next [OF inv] .
  from slab_get_insert_at [OF ins] ins inv'
  show "\<exists>s'. slab_insert s v = Some (slab_vacant_key s, s') \<and> slab_inv s' \<and>
    slab_get s' = (slab_get s)(slab_vacant_key s \<mapsto> v) \<and>
    slab_slots s' = max (slab_slots s) (slab_vacant_key s + 1)"
    by (simp add: slab_insert_def slab_vacant_key_def)
next
  fix s :: "'a slab" and k
  assume "slab_inv s" "slab_get s k \<noteq> None"
  then show "slab_vacant_key (snd (slab_try_remove s k)) = k"
    by (auto simp: slab_try_remove_def slab_vacant_key_def slab_get_def
          split: option.splits entry.splits)
next
  fix s :: "'a slab" and k r s'
  assume "slab_inv s" "slab_try_remove s k = (r, s')"
  then show "r = slab_get s k \<and> slab_inv s' \<and> slab_get s' = (slab_get s)(k := None) \<and>
    slab_slots s' = slab_slots s"
    using slab_get_try_remove slab_inv_try_remove by blast
qed (simp_all add: slab_get_bound slab_inv_vacant slab_inv_vacant_le slab_inv_get_mut fun_eq_iff)

text \<open>The vacant-entry form of insertion is \<^verbatim>\<open>insert\<close> with the value built from the key.\<close>

lemma slab_vacant_entry_insert_eq:
  assumes "slab_inv s"
  shows "slab_vacant_entry_insert s create = slab_insert s (create (slab_vacant_key s))"
proof -
  obtain s' where s': "slab_insert_at s (sl_next s) (create (sl_next s)) = Some s'"
    using slab_insert_at_next [OF assms] .
  then have "slab_get s' (sl_next s) = Some (create (sl_next s))"
    using slab_get_insert_at by fastforce
  with s' show ?thesis
    by (simp add: slab_vacant_entry_insert_def slab_insert_def slab_vacant_key_def)
qed

lemma slab_remove_eq:
  "slab_get s k = Some v \<Longrightarrow> \<exists>s'. slab_try_remove s k = (Some v, s') \<and> slab_remove s k = Some (v, s')"
  by (auto simp: slab_remove_def slab_try_remove_def slab_get_def
        split: option.splits entry.splits)

section \<open>Iteration\<close>

lemma occupied_pairs_scan:
  "occupied_pairs es = (case iter_scan es of None \<Rightarrow> [] | Some (kv, es') \<Rightarrow> kv # occupied_pairs es')"
  by (induction es rule: occupied_pairs.induct) auto

lemma occupied_pairs_append [simp]:
  "occupied_pairs (xs @ ys) = occupied_pairs xs @ occupied_pairs ys"
  by (induction xs rule: occupied_pairs.induct) auto

lemma occupied_pairs_rev [simp]: "occupied_pairs (rev es) = rev (occupied_pairs es)"
  by (induction es rule: occupied_pairs.induct) auto

lemma length_occupied_pairs:
  "length (occupied_pairs (enumerate n es)) = length (filter is_occupied es)"
proof (induction es arbitrary: n)
  case (Cons e es)
  then show ?case by (cases e) auto
qed simp

lemma set_occupied_pairs:
  "(k, v) \<in> set (occupied_pairs (enumerate n es)) \<longleftrightarrow> n \<le> k \<and> list_get es (k - n) = Some (Occupied v)"
proof (induction es arbitrary: n)
  case (Cons e es)
  have step: "(k, v) \<in> set (occupied_pairs (enumerate n (e # es))) \<longleftrightarrow>
      k = n \<and> e = Occupied v \<or> Suc n \<le> k \<and> list_get es (k - Suc n) = Some (Occupied v)"
    using Cons.IH [of "Suc n"] by (cases e) auto
  consider "k < n" | "k = n" | m where "k = Suc n + m"
    by (metis le_iff_add linorder_neqE_nat not_less_eq_eq Suc_leI)
  then show ?case
    unfolding step by cases (auto simp: list_get_def)
qed simp

lemma occupied_pairs_sorted:
  "sorted_wrt (<) (map fst (occupied_pairs (enumerate n es))) \<and>
   (\<forall>x \<in> fst ` set (occupied_pairs (enumerate n es)). n \<le> x)"
proof (induction es arbitrary: n)
  case (Cons e es)
  from Cons.IH [of "Suc n"] show ?case by (cases e) (auto simp: Suc_le_eq less_imp_le)
qed simp

lemma slab_pairs_sorted: "sorted_wrt (<) (map fst (slab_pairs s))"
  using occupied_pairs_sorted by (auto simp: slab_pairs_def)

text \<open>
  The iterator's remaining-count is exact when it starts, and both ends keep it exact: so the
  subtraction in \<^verbatim>\<open>next\<close> never underflows and \<^verbatim>\<open>size_hint\<close> is right at every moment.
\<close>

definition iter_ok :: "'a slab_iter \<Rightarrow> bool" where
  "iter_ok it \<longleftrightarrow> it_len it = length (occupied_pairs (it_entries it))"

lemma iter_ok_start: "slab_inv s \<Longrightarrow> iter_ok (slab_iter s)"
  by (simp add: iter_ok_def slab_iter_def slab_inv_def length_occupied_pairs)

lemma iter_next_spec:
  "iter_next it = (r, it') \<Longrightarrow>
   (case r of None \<Rightarrow> occupied_pairs (it_entries it) = [] \<and> it_entries it' = []
    | Some kv \<Rightarrow> occupied_pairs (it_entries it) = kv # occupied_pairs (it_entries it') \<and>
                it_len it' = it_len it - 1)"
  using occupied_pairs_scan [of "it_entries it"]
  by (auto simp: iter_next_def split: option.splits prod.splits)

lemma iter_next_back_spec:
  "iter_next_back it = (r, it') \<Longrightarrow>
   (case r of None \<Rightarrow> occupied_pairs (it_entries it) = [] \<and> it_entries it' = []
    | Some kv \<Rightarrow> occupied_pairs (it_entries it) = occupied_pairs (it_entries it') @ [kv] \<and>
                it_len it' = it_len it - 1)"
  using occupied_pairs_scan [of "rev (it_entries it)"]
  by (auto simp: iter_next_back_def rev_eq_Cons_iff split: option.splits prod.splits)

section \<open>Refinement: a slab is a map with a stack of released keys\<close>

text \<open>
  The abstract store: the map, the released keys (most recently released first) and the number of
  keys ever created. Requests and replies are data, so that whole histories can be compared.
\<close>

record 'a store =
  st_map :: "nat \<rightharpoonup> 'a"
  st_free :: "nat list"
  st_count :: nat

datatype 'a request = ReqInsert 'a | ReqTryRemove nat | ReqGet nat | ReqSet nat 'a | ReqClear
datatype 'a reply = RepKey nat | RepVal "'a option" | RepUnit

definition store_empty :: "'a store" where
  "store_empty = \<lparr>st_map = Map.empty, st_free = [], st_count = 0\<rparr>"

fun store_step :: "'a store \<Rightarrow> 'a request \<Rightarrow> 'a reply \<times> 'a store" where
  "store_step st (ReqInsert v) =
     (case st_free st of
        [] \<Rightarrow> (RepKey (st_count st),
               st\<lparr>st_map := (st_map st)(st_count st \<mapsto> v), st_count := st_count st + 1\<rparr>)
      | k # ks \<Rightarrow> (RepKey k, st\<lparr>st_map := (st_map st)(k \<mapsto> v), st_free := ks\<rparr>))"
| "store_step st (ReqTryRemove k) =
     (case st_map st k of
        None \<Rightarrow> (RepVal None, st)
      | Some v \<Rightarrow> (RepVal (Some v),
                   st\<lparr>st_map := (st_map st)(k := None), st_free := k # st_free st\<rparr>))"
| "store_step st (ReqGet k) = (RepVal (st_map st k), st)"
| "store_step st (ReqSet k v) =
     (RepUnit, st\<lparr>st_map := (st_map st)(k := map_option (\<lambda>_. v) (st_map st k))\<rparr>)"
| "store_step st ReqClear = (RepUnit, store_empty)"

fun slab_step :: "'a slab \<Rightarrow> 'a request \<Rightarrow> ('a reply \<times> 'a slab) option" where
  "slab_step s (ReqInsert v) = map_option (\<lambda>(k, s'). (RepKey k, s')) (slab_insert s v)"
| "slab_step s (ReqTryRemove k) = (case slab_try_remove s k of (r, s') \<Rightarrow> Some (RepVal r, s'))"
| "slab_step s (ReqGet k) = Some (RepVal (slab_get s k), s)"
| "slab_step s (ReqSet k v) = Some (RepUnit, slab_get_mut s k (\<lambda>_. v))"
| "slab_step s ReqClear = Some (RepUnit, slab_clear s)"

fun store_run :: "'a store \<Rightarrow> 'a request list \<Rightarrow> 'a reply list" where
  "store_run st [] = []"
| "store_run st (r # rs) = (case store_step st r of (out, st') \<Rightarrow> out # store_run st' rs)"

fun slab_run :: "'a slab \<Rightarrow> 'a request list \<Rightarrow> 'a reply list option" where
  "slab_run s [] = Some []"
| "slab_run s (r # rs) =
     (case slab_step s r of
        None \<Rightarrow> None
      | Some (out, s') \<Rightarrow> map_option (\<lambda>outs. out # outs) (slab_run s' rs))"

definition slab_rel :: "'a slab \<Rightarrow> 'a store \<Rightarrow> bool" where
  "slab_rel s st \<longleftrightarrow> slab_inv s \<and> free_list_ok s (st_free st) \<and> st_map st = slab_get s \<and>
     st_count st = slab_slots s"

lemma slab_rel_insert:
  assumes "slab_rel s st"
  shows "\<exists>k s'. slab_insert s v = Some (k, s') \<and> fst (store_step st (ReqInsert v)) = RepKey k \<and>
           slab_rel s' (snd (store_step st (ReqInsert v)))"
proof -
  from assms have inv: "slab_inv s" and ok: "free_list_ok s (st_free st)"
    and m: "st_map st = slab_get s" "st_count st = slab_slots s"
    by (auto simp: slab_rel_def)
  obtain s' where ins: "slab_insert_at s (sl_next s) v = Some s'" and inv': "slab_inv s'"
    using slab_insert_at_next [OF inv] .
  note get = slab_get_insert_at [OF ins]
  from ok show ?thesis
  proof (cases rule: vacant_key_cases)
    case 1
    with ins have "s' = s\<lparr>sl_entries := sl_entries s @ [Occupied v], sl_len := sl_len s + 1,
        sl_next := sl_next s + 1\<rparr>"
      by (simp add: slab_insert_at_def)
    with ok 1 have "free_list_ok s' []"
      by (auto simp: free_list_ok_def nth_append less_Suc_eq)
    with 1 m ins inv' get show ?thesis
      by (auto simp: slab_insert_def slab_rel_def slab_slots_def max_def)
  next
    case (2 nxt ks)
    with ins have "s' = s\<lparr>sl_entries := (sl_entries s)[sl_next s := Occupied v],
        sl_len := sl_len s + 1, sl_next := nxt\<rparr>"
      by (simp add: slab_insert_at_def list_get_def)
    with ok 2 have "free_list_ok s' ks" by (simp add: free_list_ok_pop)
    with 2 m ins inv' get show ?thesis
      by (auto simp: slab_insert_def slab_rel_def slab_slots_def max_def)
  qed
qed

lemma slab_rel_try_remove:
  assumes rel: "slab_rel s st" and rem: "slab_try_remove s k = (r, s')"
  shows "fst (store_step st (ReqTryRemove k)) = RepVal r \<and>
         slab_rel s' (snd (store_step st (ReqTryRemove k)))"
proof (cases "slab_get s k")
  case None
  with rem have "r = None \<and> s' = s"
    by (auto simp: slab_try_remove_def slab_get_def split: option.splits entry.splits)
  with rel None show ?thesis by (auto simp: slab_rel_def)
next
  case (Some v)
  then have k: "k < length (sl_entries s)" "sl_entries s ! k = Occupied v"
    by (auto simp: slab_get_Some_iff list_get_Some_iff)
  with rem have s': "r = Some v" "s' = s\<lparr>sl_entries := (sl_entries s)[k := Vacant (sl_next s)],
      sl_len := sl_len s - 1, sl_next := k\<rparr>"
    by (auto simp: slab_try_remove_def list_get_def)
  from rel have "free_list_ok s (st_free st)" by (simp add: slab_rel_def)
  with k have "free_list_ok s' (k # st_free st)"
    unfolding s' by (intro free_list_ok_push) auto
  with rel Some s' slab_inv_try_remove [OF _ rem] slab_get_try_remove [OF rem] show ?thesis
    by (auto simp: slab_rel_def)
qed

lemma slab_rel_get_mut:
  assumes "slab_rel s st"
  shows "slab_rel (slab_get_mut s k f) (st\<lparr>st_map := (st_map st)(k := map_option f (st_map st k))\<rparr>)"
  using assms free_list_ok_get_mut
  by (auto simp: slab_rel_def fun_eq_iff slab_inv_get_mut)

lemma slab_rel_clear: "slab_rel (slab_clear s) store_empty"
  using slab_inv_clear [of s]
  by (auto simp: slab_rel_def store_empty_def free_list_ok_def slab_slots_def fun_eq_iff
      slab_clear_def slab_get_def)

lemma slab_rel_step:
  assumes "slab_rel s st"
  shows "\<exists>s'. slab_step s r = Some (fst (store_step st r), s') \<and> slab_rel s' (snd (store_step st r))"
proof (cases r)
  case (ReqInsert v)
  with slab_rel_insert [OF assms, of v] show ?thesis by fastforce
next
  case (ReqTryRemove k)
  with slab_rel_try_remove [OF assms, of k] show ?thesis
    by (cases "slab_try_remove s k") auto
next
  case (ReqSet k v)
  with slab_rel_get_mut [OF assms, of k "\<lambda>_. v"] show ?thesis by simp
next
  case ReqClear
  with slab_rel_clear [of s] show ?thesis by simp
qed (use assms in \<open>auto simp: slab_rel_def\<close>)

lemma slab_run_refines: "slab_rel s st \<Longrightarrow> slab_run s rs = Some (store_run st rs)"
proof (induction rs arbitrary: s st)
  case (Cons r rs)
  from slab_rel_step [OF Cons.prems, of r] obtain s'
    where "slab_step s r = Some (fst (store_step st r), s')"
      and "slab_rel s' (snd (store_step st r))"
    by blast
  with Cons.IH show ?case by (auto split: prod.splits)
qed simp

section \<open>Properties\<close>


text \<open>
  Reuse is last released, first reused: after removing the values of two distinct keys \<open>a\<close> and
  then \<open>b\<close>, the next insertion gets \<open>b\<close> and the one after it gets \<open>a\<close>, whichever is smaller.
\<close>

theorem slab_reuse_lifo:
  assumes "slab_inv s" and "slab_get s a \<noteq> None" and "slab_get s b \<noteq> None" and "a \<noteq> b"
    and "slab_try_remove s a = (ra, s1)" and "slab_try_remove s1 b = (rb, s2)"
    and "slab_insert s2 v = Some (k, s3)" and "slab_insert s3 w = Some (k', s4)"
  shows "k = b \<and> k' = a"
proof -
  have 1: "slab_inv s1" "slab_get s1 = (slab_get s)(a := None)"
    using slab.rem_spec [OF assms(1,5)] by auto
  have kb: "k = b" using slab.rem_rem_ins_ins(1) [OF assms(1-7)] .
  have b: "b < length (sl_entries s1)" "is_occupied (sl_entries s1 ! b)"
    using slab_get_Some_iff [of s1 b] 1(2) assms(3,4) by (auto simp: list_get_Some_iff)
  then have s2: "s2 = s1\<lparr>sl_entries := (sl_entries s1)[b := Vacant (sl_next s1)],
      sl_len := sl_len s1 - 1, sl_next := b\<rparr>"
    using assms(6) by (cases "sl_entries s1 ! b") (auto simp: slab_try_remove_def list_get_def)
  with b assms(7) have "sl_next s3 = sl_next s1"
    by (auto simp: slab_insert_def slab_insert_at_def list_get_def)
  moreover have "sl_next s1 = a"
    using slab.rem_vacant [OF assms(1,2)] assms(5) by (simp add: slab_vacant_key_def)
  ultimately show ?thesis
    using kb assms(8) by (auto simp: slab_insert_def)
qed

theorem slab_reuse_lifo_witness:
  "fst (the (slab_insert (snd (slab_try_remove (snd (slab_try_remove
      (snd (the (slab_insert (snd (the (slab_insert slab_new ''x''))) ''y''))) 0)) 1)) ''z'')) = 1"
proof -
  define s where "s = snd (the (slab_insert (snd (the (slab_insert slab_new ''x''))) ''y''))"
  define s1 where "s1 = snd (slab_try_remove s 0)"
  define s2 where "s2 = snd (slab_try_remove s1 1)"
  define s3 where "s3 = snd (the (slab_insert s2 ''z''))"
  note defs = s_def s1_def s2_def s3_def slab_insert_def slab_insert_at_def slab_new_def
    slab_try_remove_def list_get_def slab_get_def
  have inv: "slab_inv s"
    by (auto simp: defs slab_inv_def free_list_ok_def less_Suc_eq intro!: exI [of _ "[]"])
  have pre: "slab_get s 0 \<noteq> None" "slab_get s 1 \<noteq> None"
    "slab_try_remove s 0 = (Some ''x'', s1)" "slab_try_remove s1 1 = (Some ''y'', s2)"
    "slab_insert s2 ''z'' = Some (1, s3)" "slab_insert s3 ''w'' = Some (0, snd (the (slab_insert s3 ''w'')))"
    by (simp_all add: defs)
  have "fst (the (slab_insert s2 ''z'')) = 1"
    using slab_reuse_lifo [OF inv pre(1,2) _ pre(3-6)] pre(5) by simp
  then show ?thesis unfolding s2_def s1_def s_def .
qed

text \<open>
  Iterating a slab yields its key/value pairs in strictly increasing key order, each stored pair
  exactly once, and as many as \<^verbatim>\<open>len\<close> reports.
\<close>

theorem slab_pairs_complete:
  assumes "slab_inv s"
  shows "((k, v) \<in> set (slab_pairs s) \<longleftrightarrow> slab_get s k = Some v) \<and>
         sorted_wrt (<) (map fst (slab_pairs s)) \<and> length (slab_pairs s) = slab_len s"
proof (intro conjI)
  show "(k, v) \<in> set (slab_pairs s) \<longleftrightarrow> slab_get s k = Some v"
    by (simp add: slab_pairs_def set_occupied_pairs slab_get_Some_iff)
  show "length (slab_pairs s) = slab_len s"
    using assms by (simp add: slab_pairs_def length_occupied_pairs slab_len_def slab_inv_def)
  show "sorted_wrt (<) (map fst (slab_pairs s))" by (rule slab_pairs_sorted)
qed

theorem slab_pairs_complete_witness:
  "slab_inv (snd (the (slab_insert slab_new True))) \<and>
   ((0, True) \<in> set (slab_pairs (snd (the (slab_insert slab_new True)))) \<longleftrightarrow>
      slab_get (snd (the (slab_insert slab_new True))) 0 = Some True) \<and>
   sorted_wrt (<) (map fst (slab_pairs (snd (the (slab_insert slab_new True))))) \<and>
   length (slab_pairs (snd (the (slab_insert slab_new True)))) = 1"
proof -
  obtain s where s: "slab_insert slab_new True = Some (0, s)" "slab_inv s"
    using slab.ins_spec [OF slab_inv_new, of True] by (auto simp: slab_vacant_key_def slab_new_def)
  then have "slab_len s = 1"
    by (auto simp: slab_insert_def slab_insert_at_def slab_new_def slab_len_def)
  with s slab_pairs_complete [OF s(2), of 0 True] show ?thesis by simp
qed

end
