(* ===== verification/Signals.thy ===== *)
theory Signals
  imports Slab
begin

text \<open>
  Signal listeners on Unix (\<^verbatim>\<open>karmaio/src/signal/unix.rs\<close>): the registry of listeners with the handlers installed for them, and the
  notification of a listener by signal handlers that run on any thread while the listener is polled.

  The registry is changed only under the write lock of the half-lock, so its operations are functions.  Between a handler and a poll every access to the
  counter, the mutex and the waker's slot is a step of its own.
\<close>

section \<open>The registry\<close>

text \<open>A signal's action: the library's handler, or any other.  \<open>en_state\<close> is the address of the shared \<^verbatim>\<open>SignalState\<close>.\<close>

datatype sigaction = SignalHandler | OtherAction nat

record signal_entry =
  se_signum :: nat
  se_state :: nat

record registry =
  rg_entries :: "signal_entry slab"
  rg_saved :: "nat \<rightharpoonup> sigaction"
  rg_actions :: "nat \<Rightarrow> sigaction"
  rg_next :: nat

record listener =
  ln_kind :: nat
  ln_state :: nat
  ln_key :: nat

definition listening :: "nat \<Rightarrow> signal_entry slab \<Rightarrow> bool" where
  "listening signum entries \<longleftrightarrow> (\<exists>e \<in> snd ` set (slab_pairs entries). se_signum e = signum)"

text \<open>The system call answers with an error, or sets the action and returns the previous one.\<close>

definition install_handler :: "nat \<Rightarrow> io_error option \<Rightarrow> registry \<Rightarrow> sigaction io_result \<times> registry" where
  "install_handler signum answer r =
     (case answer of
        Some err \<Rightarrow> (Inl err, r)
      | None \<Rightarrow> (Inr (rg_actions r signum), r\<lparr>rg_actions := (rg_actions r)(signum := SignalHandler)\<rparr>))"

definition restore_handler :: "nat \<Rightarrow> sigaction \<Rightarrow> io_error option \<Rightarrow> registry \<Rightarrow> unit io_result \<times> registry" where
  "restore_handler signum prev answer r =
     (case answer of Some err \<Rightarrow> (Inl err, r) | None \<Rightarrow> (Inr (), r\<lparr>rg_actions := (rg_actions r)(signum := prev)\<rparr>))"

text \<open>The rest of \<^verbatim>\<open>register\<close> with the handler in place; \<open>None\<close> is a panic of the slab.\<close>

definition publish :: "nat \<Rightarrow> registry \<Rightarrow> (listener \<times> registry) option" where
  "publish signum r =
     (let state = rg_next r in
      map_option (\<lambda>(key, new). (\<lparr>ln_kind = signum, ln_state = state, ln_key = key\<rparr>, r\<lparr>rg_entries := new, rg_next := Suc state\<rparr>))
        (slab_insert (rg_entries r) \<lparr>se_signum = signum, se_state = state\<rparr>))"

definition register :: "nat \<Rightarrow> io_error option \<Rightarrow> registry \<Rightarrow> (listener io_result \<times> registry) option" where
  "register signum answer r =
     (if listening signum (rg_entries r) then map_option (\<lambda>(l, r). (Inr l, r)) (publish signum r)
      else
        (case install_handler signum answer r of
           (Inl err, r) \<Rightarrow> Some (Inl err, r)
         | (Inr prev, r) \<Rightarrow> map_option (\<lambda>(l, r). (Inr l, r)) (publish signum (r\<lparr>rg_saved := (rg_saved r)(signum \<mapsto> prev)\<rparr>))))"

definition unregister :: "listener \<Rightarrow> io_error option \<Rightarrow> registry \<Rightarrow> registry option" where
  "unregister l answer r =
     (case (if slab_contains (rg_entries r) (ln_key l) then map_option snd (slab_remove (rg_entries r) (ln_key l)) else Some (rg_entries r)) of
        None \<Rightarrow> None
      | Some new \<Rightarrow>
          (let r =
             (if listening (ln_kind l) new then r
              else
                (case rg_saved r (ln_kind l) of
                   None \<Rightarrow> r
                 | Some prev \<Rightarrow> snd (restore_handler (ln_kind l) prev answer (r\<lparr>rg_saved := (rg_saved r)(ln_kind l := None)\<rparr>))))
           in Some (r\<lparr>rg_entries := new\<rparr>)))"

text \<open>Which listeners' states \<^verbatim>\<open>signal_handler\<close> notifies, in order.\<close>

definition notified_states :: "nat \<Rightarrow> registry \<Rightarrow> nat list" where
  "notified_states signum r = map se_state (filter (\<lambda>e. se_signum e = signum) (map snd (slab_pairs (rg_entries r))))"

text \<open>\<open>signals_reach actions kept r ls\<close>: from a process with these actions, \<open>ls\<close> are the live listeners; \<open>kept\<close> says that no restoring call has failed.\<close>

inductive signals_reach :: "(nat \<Rightarrow> sigaction) \<Rightarrow> bool \<Rightarrow> registry \<Rightarrow> listener list \<Rightarrow> bool" for actions where
  signals_start: "signals_reach actions True \<lparr>rg_entries = slab_new, rg_saved = Map.empty, rg_actions = actions, rg_next = 0\<rparr> []"
| signals_register: "signals_reach actions kept r ls \<Longrightarrow> register signum answer r = Some (res, r') \<Longrightarrow>
    signals_reach actions kept r' (case res of Inr l \<Rightarrow> ls @ [l] | Inl _ \<Rightarrow> ls)"
| signals_drop: "signals_reach actions kept r (before @ l # after) \<Longrightarrow> unregister l answer r = Some r' \<Longrightarrow>
    signals_reach actions (kept \<and> answer = None) r' (before @ after)"

section \<open>One listener\<close>

text \<open>
  Where a poll with waker \<open>w\<close> is: before the lock, holding it, after storing the waker, after unlocking.  \<open>Parked\<close> has returned \<^verbatim>\<open>Pending\<close>.
\<close>

datatype poll_pc = NotPolled | PollLoaded nat | PollLocked nat | PollStored nat | PollUnlocked nat | Parked nat

text \<open>The handler that holds the mutex: before taking the waker, before waking it, before unlocking.\<close>

datatype handler_pc = HandlerAway | HandlerLocked | HandlerTook "nat option" | HandlerWoke

text \<open>
  \<open>sg_bumped\<close> counts the handlers between the counter and the mutex.  Not in the code: \<open>sg_missed\<close> counts the deliveries since the poll that set
  \<^verbatim>\<open>last_seen\<close>, \<open>sg_checked\<close> is its value when the parked poll last looked, and \<open>sg_woken\<close> lists the wakers called since one was stored.
\<close>

record signal_state =
  sg_counter :: usize
  sg_waker :: "nat option"
  sg_last :: usize
  sg_poll :: poll_pc
  sg_bumped :: nat
  sg_handler :: handler_pc
  sg_missed :: nat
  sg_checked :: nat
  sg_woken :: "nat list"

definition signal_new :: signal_state where
  "signal_new = \<lparr>sg_counter = 0, sg_waker = None, sg_last = 0, sg_poll = NotPolled, sg_bumped = 0, sg_handler = HandlerAway,
     sg_missed = 0, sg_checked = 0, sg_woken = []\<rparr>"

definition lock_free :: "signal_state \<Rightarrow> bool" where
  "lock_free s \<longleftrightarrow> sg_handler s = HandlerAway \<and> (case sg_poll s of PollLocked _ \<Rightarrow> False | PollStored _ \<Rightarrow> False | _ \<Rightarrow> True)"

text \<open>Loading the counter, at the start and at the end of \<^verbatim>\<open>poll_recv\<close>.\<close>

definition observe :: "poll_pc \<Rightarrow> signal_state \<Rightarrow> unit poll \<times> signal_state" where
  "observe pc s =
     (if sg_counter s \<noteq> sg_last s then (Ready (), s\<lparr>sg_last := sg_counter s, sg_poll := NotPolled, sg_missed := 0\<rparr>)
      else (Pending, s\<lparr>sg_poll := pc, sg_checked := sg_missed s\<rparr>))"

text \<open>The body of the handler's loop for one entry; \<^verbatim>\<open>try_lock\<close> fails when anybody holds the mutex.\<close>

inductive handler_step :: "signal_state \<Rightarrow> signal_state \<Rightarrow> bool" where
  handler_try_lock: "sg_bumped s = Suc n \<Longrightarrow> lock_free s \<Longrightarrow> handler_step s (s\<lparr>sg_bumped := n, sg_handler := HandlerLocked\<rparr>)"
| handler_gives_up: "sg_bumped s = Suc n \<Longrightarrow> \<not> lock_free s \<Longrightarrow> handler_step s (s\<lparr>sg_bumped := n\<rparr>)"
| handler_take: "sg_handler s = HandlerLocked \<Longrightarrow> handler_step s (s\<lparr>sg_waker := None, sg_handler := HandlerTook (sg_waker s)\<rparr>)"
| handler_wake: "sg_handler s = HandlerTook w \<Longrightarrow>
    handler_step s (s\<lparr>sg_handler := HandlerWoke, sg_woken := sg_woken s @ (case w of Some w \<Rightarrow> [w] | None \<Rightarrow> [])\<rparr>)"
| handler_unlock: "sg_handler s = HandlerWoke \<Longrightarrow> handler_step s (s\<lparr>sg_handler := HandlerAway\<rparr>)"

definition signal_arrives :: "signal_state \<Rightarrow> signal_state" where
  "signal_arrives s = s\<lparr>sg_counter := sg_counter s + 1, sg_bumped := Suc (sg_bumped s), sg_missed := Suc (sg_missed s)\<rparr>"

text \<open>\<^verbatim>\<open>poll_recv\<close>, which a waiting task may also repeat without having been woken, and dropping the future that waits.\<close>

inductive poll_step :: "signal_state \<Rightarrow> signal_state \<Rightarrow> bool" where
  poll_load: "sg_poll s = NotPolled \<or> sg_poll s = Parked w' \<Longrightarrow> poll_step s (snd (observe (PollLoaded w) s))"
| poll_lock: "sg_poll s = PollLoaded w \<Longrightarrow> lock_free s \<Longrightarrow> poll_step s (s\<lparr>sg_poll := PollLocked w\<rparr>)"
| poll_store: "sg_poll s = PollLocked w \<Longrightarrow>
    poll_step s (s\<lparr>sg_waker := (if sg_waker s = Some w then sg_waker s else Some w), sg_poll := PollStored w, sg_woken := []\<rparr>)"
| poll_unlock: "sg_poll s = PollStored w \<Longrightarrow> poll_step s (s\<lparr>sg_poll := PollUnlocked w\<rparr>)"
| poll_recheck: "sg_poll s = PollUnlocked w \<Longrightarrow> poll_step s (snd (observe (Parked w) s))"
| poll_forget: "sg_poll s = Parked w \<Longrightarrow> poll_step s (s\<lparr>sg_poll := NotPolled\<rparr>)"

inductive signal_reach :: "signal_state \<Rightarrow> bool" where
  reach_new: "signal_reach signal_new"
| reach_poll: "signal_reach s \<Longrightarrow> poll_step s s' \<Longrightarrow> signal_reach s'"
| reach_arrival: "signal_reach s \<Longrightarrow> signal_reach (signal_arrives s)"
| reach_handler: "signal_reach s \<Longrightarrow> handler_step s s' \<Longrightarrow> signal_reach s'"

definition handlers_away :: "signal_state \<Rightarrow> bool" where
  "handlers_away s \<longleftrightarrow> sg_bumped s = 0 \<and> sg_handler s = HandlerAway"

definition handler_work :: "signal_state \<Rightarrow> nat" where
  "handler_work s = 4 * sg_bumped s + (case sg_handler s of HandlerAway \<Rightarrow> 0 | HandlerWoke \<Rightarrow> 1 | HandlerTook _ \<Rightarrow> 2 | HandlerLocked \<Rightarrow> 3)"

section \<open>No signal is lost\<close>

text \<open>The waker \<open>w\<close> was called, is about to be, or is in the slot, where \<open>b\<close> demands a handler on its way to it.\<close>

definition covered :: "bool \<Rightarrow> nat \<Rightarrow> signal_state \<Rightarrow> bool" where
  "covered b w s \<longleftrightarrow> w \<in> set (sg_woken s) \<or> sg_handler s = HandlerTook (Some w) \<or>
     (sg_waker s = Some w \<and> (sg_handler s = HandlerAway \<or> sg_handler s = HandlerLocked) \<and> (b \<longrightarrow> 0 < sg_bumped s \<or> sg_handler s = HandlerLocked))"

definition signal_inv :: "signal_state \<Rightarrow> bool" where
  "signal_inv s \<longleftrightarrow> sg_counter s = sg_last s + of_nat (sg_missed s) \<and>
     (case sg_poll s of
        NotPolled \<Rightarrow> True
      | PollLoaded w \<Rightarrow> True
      | PollLocked w \<Rightarrow> sg_handler s = HandlerAway
      | PollStored w \<Rightarrow> sg_handler s = HandlerAway \<and> sg_waker s = Some w
      | PollUnlocked w \<Rightarrow> covered False w s
      | Parked w \<Rightarrow> of_nat (sg_checked s) = (0 :: usize) \<and> sg_checked s \<le> sg_missed s \<and> covered (sg_checked s < sg_missed s) w s)"

lemma arrival_inv: "signal_inv s \<Longrightarrow> signal_inv (signal_arrives s)"
  by (auto simp: signal_inv_def signal_arrives_def covered_def split: poll_pc.splits)

lemma handler_inv: "handler_step s s' \<Longrightarrow> signal_inv s \<Longrightarrow> signal_inv s'"
  by (induction rule: handler_step.induct)
    (auto simp: signal_inv_def covered_def lock_free_def split: poll_pc.splits option.splits handler_pc.splits)

lemma listener_poll_inv: "poll_step s s' \<Longrightarrow> signal_inv s \<Longrightarrow> signal_inv s'"
  by (induction rule: poll_step.induct)
    (auto simp: signal_inv_def covered_def observe_def lock_free_def split: poll_pc.splits handler_pc.splits)

lemma signal_reach_inv: "signal_reach s \<Longrightarrow> signal_inv s"
  by (induction rule: signal_reach.induct) (auto simp: arrival_inv handler_inv listener_poll_inv, simp add: signal_inv_def signal_new_def)

section \<open>The registry and its handlers\<close>

definition entry_of :: "listener \<Rightarrow> signal_entry" where
  "entry_of l = \<lparr>se_signum = ln_kind l, se_state = ln_state l\<rparr>"

definition registry_inv :: "(nat \<Rightarrow> sigaction) \<Rightarrow> bool \<Rightarrow> registry \<Rightarrow> listener list \<Rightarrow> bool" where
  "registry_inv actions kept r ls \<longleftrightarrow> slab_inv (rg_entries r) \<and>
     (\<forall>k e. slab_get (rg_entries r) k = Some e \<longleftrightarrow> (\<exists>l \<in> set ls. ln_key l = k \<and> e = entry_of l)) \<and>
     distinct (map ln_key ls) \<and> distinct (map ln_state ls) \<and> (\<forall>l \<in> set ls. ln_state l < rg_next r) \<and>
     (\<forall>n. rg_saved r n \<noteq> None \<longleftrightarrow> (\<exists>l \<in> set ls. ln_kind l = n)) \<and>
     (\<forall>l \<in> set ls. rg_actions r (ln_kind l) = SignalHandler) \<and>
     (kept \<longrightarrow> (\<forall>n. rg_saved r n = Some (actions n) \<or> rg_saved r n = None \<and> rg_actions r n = actions n))"

lemma slab_pairs_iff: "(k, e) \<in> set (slab_pairs s) \<longleftrightarrow> slab_get s k = Some e"
  by (simp add: slab_pairs_def set_occupied_pairs slab_get_Some_iff)

lemma listening_iff: "listening n s \<longleftrightarrow> (\<exists>k e. slab_get s k = Some e \<and> se_signum e = n)"
  unfolding listening_def slab_pairs_iff [symmetric] by force

lemma listening_inv:
  assumes "\<And>k e. slab_get s k = Some e \<longleftrightarrow> (\<exists>l \<in> set ls. ln_key l = k \<and> e = entry_of l)"
  shows "listening n s \<longleftrightarrow> (\<exists>l \<in> set ls. ln_kind l = n)"
  unfolding listening_iff assms by (force simp: entry_of_def)

lemma registry_get: "registry_inv actions kept r ls \<Longrightarrow> slab_get (rg_entries r) k = Some e \<longleftrightarrow> (\<exists>l \<in> set ls. ln_key l = k \<and> e = entry_of l)"
  by (simp add: registry_inv_def)

lemma registryD:
  assumes "registry_inv actions kept r ls"
  shows "slab_inv (rg_entries r)" "distinct (map ln_key ls)" "distinct (map ln_state ls)" "l \<in> set ls \<Longrightarrow> ln_state l < rg_next r"
    "rg_saved r n \<noteq> None \<longleftrightarrow> (\<exists>l \<in> set ls. ln_kind l = n)" "l \<in> set ls \<Longrightarrow> rg_actions r (ln_kind l) = SignalHandler"
    "kept \<Longrightarrow> rg_saved r n = Some (actions n) \<or> rg_saved r n = None \<and> rg_actions r n = actions n"
  using assms unfolding registry_inv_def by blast+

lemmas registry_listening = listening_inv [OF registry_get]

lemma publish_inv:
  assumes inv: "registry_inv actions kept r ls"
    and r': "rg_entries r' = rg_entries r" "rg_next r' = rg_next r" "rg_actions r' n = SignalHandler" "rg_saved r' n \<noteq> None"
    and other: "\<And>m. m \<noteq> n \<Longrightarrow> rg_actions r' m = rg_actions r m \<and> rg_saved r' m = rg_saved r m"
    and same: "kept \<Longrightarrow> rg_saved r' n = Some (actions n)"
  obtains l r2 where "publish n r' = Some (l, r2)" "registry_inv actions kept r2 (ls @ [l])"
proof -
  let ?e = "\<lparr>se_signum = n, se_state = rg_next r\<rparr>" and ?k = "slab_vacant_key (rg_entries r)"
  let ?l = "\<lparr>ln_kind = n, ln_state = rg_next r, ln_key = ?k\<rparr>"
  have slab: "slab_inv (rg_entries r)" using inv by (simp add: registry_inv_def)
  obtain new where new: "slab_insert (rg_entries r) ?e = Some (?k, new)" "slab_inv new" "slab_get new = (slab_get (rg_entries r))(?k \<mapsto> ?e)"
    using slab.ins_spec [OF slab, of ?e] by blast
  have free: "ln_key l \<noteq> ?k" if "l \<in> set ls" for l using registry_get [OF inv, of "ln_key l" "entry_of l"] slab_inv_vacant [OF slab] that by auto
  have saved: "(\<exists>l \<in> set (ls @ [?l]). ln_kind l = m) = (rg_saved r' m \<noteq> None)" for m
    using registryD(5) [OF inv, of m] r'(4) other [of m] by (cases "m = n") auto
  have acts: "rg_saved r' m = Some (actions m) \<or> rg_saved r' m = None \<and> rg_actions r' m = actions m" if kept for m
    using registryD(7) [OF inv that, of m] same [OF that] other [of m] by (cases "m = n") auto
  let ?r = "r'\<lparr>rg_entries := new, rg_next := Suc (rg_next r)\<rparr>"
  have get: "slab_get new k = Some e \<longleftrightarrow> (\<exists>l \<in> set (ls @ [?l]). ln_key l = k \<and> e = entry_of l)" for k e
    using registry_get [OF inv, of k e] new(3) free by (auto simp: entry_of_def)
  have handler: "rg_actions r' (ln_kind l) = SignalHandler" if "l \<in> set (ls @ [?l])" for l
    using registryD(6) [OF inv, of l] that r'(3) other [of "ln_kind l"] by (cases "ln_kind l = n") auto
  have "distinct (map ln_key (ls @ [?l]))" "distinct (map ln_state (ls @ [?l]))" "\<forall>l \<in> set (ls @ [?l]). ln_state l < Suc (rg_next r)"
    using registryD(2,3) [OF inv] registryD(4) [OF inv] free by (fastforce simp: less_Suc_eq)+
  then have "registry_inv actions kept ?r (ls @ [?l])" using new(2) get saved acts handler by (simp add: registry_inv_def)
  moreover have "publish n r' = Some (?l, ?r)" using new(1) r' by (simp add: publish_def Let_def)
  ultimately show ?thesis using that by blast
qed

lemma register_inv:
  assumes inv: "registry_inv actions kept r ls"
  shows "\<exists>res r'. register n answer r = Some (res, r') \<and> registry_inv actions kept r' (case res of Inr l \<Rightarrow> ls @ [l] | Inl _ \<Rightarrow> ls)"
proof (cases "listening n (rg_entries r)")
  case True
  then obtain l where "l \<in> set ls" "ln_kind l = n" using registry_listening [OF inv] by blast
  then have r: "rg_actions r n = SignalHandler" "rg_saved r n \<noteq> None" using registryD(5,6) [OF inv] by blast+
  then have same: "kept \<Longrightarrow> rg_saved r n = Some (actions n)" using registryD(7) [OF inv, of n] by auto
  obtain l r2 where "publish n r = Some (l, r2)" "registry_inv actions kept r2 (ls @ [l])"
    by (rule publish_inv [OF inv, of r n]) (use r same in auto)
  then show ?thesis using True by (simp add: register_def)
next
  case False
  then have "rg_saved r n = None" using registry_listening [OF inv] registryD(5) [OF inv] by blast
  then have prev: "kept \<Longrightarrow> rg_actions r n = actions n" using registryD(7) [OF inv, of n] by simp
  let ?r = "r\<lparr>rg_actions := (rg_actions r)(n := SignalHandler), rg_saved := (rg_saved r)(n \<mapsto> rg_actions r n)\<rparr>"
  obtain l r2 where "publish n ?r = Some (l, r2)" "registry_inv actions kept r2 (ls @ [l])"
    by (rule publish_inv [OF inv, of ?r n]) (use prev in auto)
  then show ?thesis using False inv by (cases answer) (auto simp: register_def install_handler_def)
qed

lemma unregister_inv:
  assumes inv: "registry_inv actions kept r (before @ l # after)"
  shows "\<exists>r'. unregister l answer r = Some r' \<and> registry_inv actions (kept \<and> answer = None) r' (before @ after)"
proof -
  let ?ls = "before @ l # after" and ?rest = "before @ after"
  have slab: "slab_inv (rg_entries r)" and keys: "distinct (map ln_key ?ls)" "distinct (map ln_state ?rest)"
    using registryD(1,2,3) [OF inv] by auto
  have here: "slab_get (rg_entries r) (ln_key l) = Some (entry_of l)" using registry_get [OF inv] by auto
  then obtain new where rem: "slab_try_remove (rg_entries r) (ln_key l) = (Some (entry_of l), new)" "slab_inv new"
      "slab_get new = (slab_get (rg_entries r))(ln_key l := None)"
    using slab.rem_spec [OF slab] by (cases "slab_try_remove (rg_entries r) (ln_key l)") fastforce
  have get: "slab_get new k = Some e \<longleftrightarrow> (\<exists>l' \<in> set ?rest. ln_key l' = k \<and> e = entry_of l')" for k e
    using registry_get [OF inv, of k e] keys rem(3) by (auto simp: image_iff)
  have left: "listening n new \<longleftrightarrow> (\<exists>l' \<in> set ?rest. ln_kind l' = n)" for n
    by (rule listening_inv [OF get])
  have common: "slab_contains (rg_entries r) (ln_key l)" "slab_remove (rg_entries r) (ln_key l) = Some (entry_of l, new)"
    using here rem(1) by (auto simp: slab_contains_iff slab_remove_def)
  have base: "registry_inv actions (kept \<and> answer = None) (r'\<lparr>rg_entries := new\<rparr>) ?rest"
    if "rg_next r' = rg_next r" "\<And>n. rg_saved r' n \<noteq> None \<longleftrightarrow> (\<exists>l' \<in> set ?rest. ln_kind l' = n)"
      "\<And>l'. l' \<in> set ?rest \<Longrightarrow> rg_actions r' (ln_kind l') = SignalHandler"
      "\<And>n. kept \<Longrightarrow> answer = None \<Longrightarrow> rg_saved r' n = Some (actions n) \<or> rg_saved r' n = None \<and> rg_actions r' n = actions n" for r'
    using registryD(4) [OF inv] keys rem(2) get that by (auto simp: registry_inv_def)
  show ?thesis
  proof (cases "listening (ln_kind l) new")
    case True
    have "registry_inv actions (kept \<and> answer = None) (r\<lparr>rg_entries := new\<rparr>) ?rest"
      by (rule base) (use True [unfolded left] registryD(5,6,7) [OF inv] in auto)
    then show ?thesis using True common by (simp add: unregister_def)
  next
    case False
    then have none: "ln_kind l' \<noteq> ln_kind l" if "l' \<in> set ?rest" for l' using that left by blast
    obtain prev where prev: "rg_saved r (ln_kind l) = Some prev" using registryD(5) [OF inv, of "ln_kind l"] by auto
    let ?r = "snd (restore_handler (ln_kind l) prev answer (r\<lparr>rg_saved := (rg_saved r)(ln_kind l := None)\<rparr>))"
    have "registry_inv actions (kept \<and> answer = None) (?r\<lparr>rg_entries := new\<rparr>) ?rest"
    proof (rule base)
      show "rg_saved ?r n \<noteq> None \<longleftrightarrow> (\<exists>l' \<in> set ?rest. ln_kind l' = n)" for n
        using registryD(5) [OF inv, of n] none by (cases answer) (auto simp: restore_handler_def)
      show "rg_actions ?r (ln_kind l') = SignalHandler" if "l' \<in> set ?rest" for l'
        using registryD(6) [OF inv, of l'] none [OF that] that by (cases answer) (auto simp: restore_handler_def)
      show "rg_saved ?r n = Some (actions n) \<or> rg_saved ?r n = None \<and> rg_actions ?r n = actions n" if kept "answer = None" for n
        using registryD(7) [OF inv that(1), of n] that prev by (auto simp: restore_handler_def)
    qed (simp add: restore_handler_def split: option.splits)
    then show ?thesis using False common prev by (simp add: unregister_def)
  qed
qed

lemma signals_reach_inv: "signals_reach actions kept r ls \<Longrightarrow> registry_inv actions kept r ls"
proof (induction rule: signals_reach.induct)
  case signals_start
  then show ?case by (simp add: registry_inv_def slab_inv_new)
next
  case (signals_register kept r ls signum answer res r')
  then show ?case using register_inv [of actions kept r ls signum answer] by auto
next
  case (signals_drop kept r before l "after" answer r')
  then show ?case using unregister_inv [of actions kept r before l "after" answer] by auto
qed

section \<open>Properties\<close>

text \<open>
  C35. A signal reaches exactly its listeners.  After any registrations and drops, with failing system calls: a delivery notifies each live listener of its signal once and
  no other; the handler is installed while there is one, and when the last is gone the action that the process had before is back, unless a restoring call failed.
  Registering and dropping never panic.
\<close>

theorem signal_reaches_listeners:
  assumes "signals_reach actions kept r ls"
  shows "distinct (notified_states n r) \<and> set (notified_states n r) = ln_state ` {l \<in> set ls. ln_kind l = n} \<and>
    ((\<exists>l \<in> set ls. ln_kind l = n) \<longrightarrow> rg_actions r n = SignalHandler) \<and> (\<not> (\<exists>l \<in> set ls. ln_kind l = n) \<and> kept \<longrightarrow> rg_actions r n = actions n) \<and>
    register m answer r \<noteq> None \<and> (l \<in> set ls \<longrightarrow> unregister l answer r \<noteq> None)"
proof -
  have inv: "registry_inv actions kept r ls" by (rule signals_reach_inv [OF assms])
  let ?ps = "slab_pairs (rg_entries r)"
  have get: "(k, e) \<in> set ?ps \<longleftrightarrow> (\<exists>l \<in> set ls. ln_key l = k \<and> e = entry_of l)" for k e
    using registry_get [OF inv] by (simp add: slab_pairs_iff)
  have keys: "distinct (map fst ?ps)" using slab_pairs_sorted [of "rg_entries r"] by (simp add: strict_sorted_iff)
  have "inj_on ln_state (set ls)" using registryD(3) [OF inv] by (simp add: distinct_map)
  then have "inj_on (\<lambda>x. se_state (snd x)) (set ?ps)"
    using get by (fastforce intro!: inj_onI simp: entry_of_def dest: inj_onD)
  then have "distinct (map (\<lambda>x. se_state (snd x)) ?ps)" using keys by (simp add: distinct_map)
  then have "distinct (notified_states n r)"
    using distinct_map_filter [of "\<lambda>x. se_state (snd x)" ?ps "\<lambda>x. se_signum (snd x) = n"] by (simp add: notified_states_def filter_map o_def case_prod_beta)
  moreover have "set (notified_states n r) = ln_state ` {l \<in> set ls. ln_kind l = n}"
    using get by (fastforce simp: notified_states_def entry_of_def image_iff)
  moreover have "rg_actions r n = SignalHandler" if "\<exists>l \<in> set ls. ln_kind l = n" using registryD(6) [OF inv] that by blast
  moreover have "rg_actions r n = actions n" if no: "\<not> (\<exists>l \<in> set ls. ln_kind l = n)" and kept
  proof -
    have "rg_saved r n = None" using registryD(5) [OF inv, of n] no by blast
    then show ?thesis using registryD(7) [OF inv \<open>kept\<close>, of n] by simp
  qed
  moreover have "unregister l answer r \<noteq> None" if "l \<in> set ls"
    using unregister_inv [of actions kept r _ l _ answer] inv split_list [OF that] by fastforce
  ultimately show ?thesis using register_inv [OF inv, of m answer] by auto
qed


subsection \<open>Concrete signals\<close>

text \<open>Two listeners of signal 10 and one of signal 15, of which one of the former is dropped.\<close>

theorem signal_reaches_listeners_witness:
  "\<exists>r ls. signals_reach OtherAction True r ls \<and> length ls = 2 \<and> set (notified_states 10 r) = {1} \<and> rg_actions r 10 = SignalHandler \<and> rg_actions r 12 = OtherAction 12"
proof -
  let ?r0 = "\<lparr>rg_entries = slab_new, rg_saved = Map.empty, rg_actions = OtherAction, rg_next = 0\<rparr>"
  let ?l0 = "\<lparr>ln_kind = 10, ln_state = 0, ln_key = 0\<rparr>" and ?l1 = "\<lparr>ln_kind = 10, ln_state = 1, ln_key = 1\<rparr>" and ?l2 = "\<lparr>ln_kind = 15, ln_state = 2, ln_key = 2\<rparr>"
  let ?e0 = "Occupied \<lparr>se_signum = 10, se_state = 0\<rparr>" and ?e1 = "Occupied \<lparr>se_signum = 10, se_state = 1\<rparr>" and ?e2 = "Occupied \<lparr>se_signum = 15, se_state = 2\<rparr>"
  let ?r1 = "\<lparr>rg_entries = \<lparr>sl_entries = [?e0], sl_len = 1, sl_next = 1\<rparr>, rg_saved = [10 \<mapsto> OtherAction 10], rg_actions = OtherAction(10 := SignalHandler), rg_next = 1\<rparr>"
  let ?r2 = "?r1\<lparr>rg_entries := \<lparr>sl_entries = [?e0, ?e1], sl_len = 2, sl_next = 2\<rparr>, rg_next := 2\<rparr>"
  let ?r3 = "\<lparr>rg_entries = \<lparr>sl_entries = [?e0, ?e1, ?e2], sl_len = 3, sl_next = 3\<rparr>, rg_saved = [10 \<mapsto> OtherAction 10, 15 \<mapsto> OtherAction 15],
    rg_actions = OtherAction(10 := SignalHandler, 15 := SignalHandler), rg_next = 3\<rparr>"
  let ?r4 = "?r3\<lparr>rg_entries := \<lparr>sl_entries = [Vacant 3, ?e1, ?e2], sl_len = 2, sl_next = 0\<rparr>\<rparr>"
  note defs = register_def publish_def listening_def slab_pairs_def slab_insert_def slab_insert_at_def install_handler_def slab_new_def list_get_def
  have "register 10 None ?r0 = Some (Inr ?l0, ?r1)" by (simp add: defs)
  from signals_register [OF signals_start this] have a: "signals_reach OtherAction True ?r1 [?l0]" by simp
  have "register 10 None ?r1 = Some (Inr ?l1, ?r2)" by (simp add: defs)
  from signals_register [OF a this] have b: "signals_reach OtherAction True ?r2 [?l0, ?l1]" by simp
  have "register 15 None ?r2 = Some (Inr ?l2, ?r3)" by (simp add: defs)
  from signals_register [OF b this] have c: "signals_reach OtherAction True ?r3 ([] @ ?l0 # [?l1, ?l2])" by simp
  have "unregister ?l0 None ?r3 = Some ?r4"
    by (simp add: unregister_def listening_def slab_pairs_def slab_contains_def slab_remove_def slab_try_remove_def list_get_def)
  from signals_drop [OF c this] have d: "signals_reach OtherAction True ?r4 [?l1, ?l2]" by simp
  have "{l \<in> set [?l1, ?l2]. ln_kind l = 10} = {?l1}" by auto
  then have "set (notified_states 10 ?r4) = {1}" "rg_actions ?r4 10 = SignalHandler" using signal_reaches_listeners [OF d, of 10] by simp_all
  moreover have "rg_actions ?r4 12 = OtherAction 12" using signal_reaches_listeners [OF d, of 12] by simp
  ultimately have "set (notified_states 10 ?r4) = {1} \<and> rg_actions ?r4 10 = SignalHandler \<and> rg_actions ?r4 12 = OtherAction 12" by blast
  then show ?thesis using d by (intro exI [of _ ?r4] exI [of _ "[?l1, ?l2]"]) simp
qed

end
