(* ===== verification/Io_Handle.thy ===== *)
theory Io_Handle
  imports Prelude
begin

text \<open>
  Shared ownership of an operating-system resource (\<^verbatim>\<open>karmaio/src/driver/helpers/io_handle.rs\<close>).

  The allocation behind all clones of one handle is the record \<open>io_inner\<close>; the strong count of the
  \<^verbatim>\<open>Rc\<close> is the number of live holders.  Holder \<open>i\<close> is the owner of one clone: it uses the resource
  (\<open>Plain\<close>), or has consumed its clone in a pending \<^verbatim>\<open>take\<close> or \<^verbatim>\<open>close\<close> (\<open>Taking\<close>, with whether its task
  has been woken since its last poll), or is gone.  The waker of holder \<open>i\<close>'s task is \<open>i\<close>.
  \<open>ih_taken\<close> and \<open>ih_closed\<close> count how often the resource was handed out and closed.
\<close>

section \<open>State\<close>

datatype handle_state = HInit | HWaiting nat | HClosed

datatype holder = Plain | Taking bool | Gone

record io_inner =
  ih_resource :: bool
  ih_state :: handle_state
  ih_holders :: "holder list"
  ih_taken :: nat
  ih_closed :: nat

definition io_new :: io_inner where
  "io_new = \<lparr>ih_resource = True, ih_state = HInit, ih_holders = [Plain], ih_taken = 0, ih_closed = 0\<rparr>"

definition is_held :: "holder \<Rightarrow> bool" where
  "is_held x \<longleftrightarrow> x \<noteq> Gone"

definition strong_count :: "io_inner \<Rightarrow> nat" where
  "strong_count h = length (filter is_held (ih_holders h))"

definition holds :: "io_inner \<Rightarrow> nat \<Rightarrow> bool" where
  "holds h i \<longleftrightarrow> i < length (ih_holders h) \<and> ih_holders h ! i = Plain"

definition taking :: "io_inner \<Rightarrow> nat \<Rightarrow> bool" where
  "taking h i \<longleftrightarrow> i < length (ih_holders h) \<and> (\<exists>n. ih_holders h ! i = Taking n)"

section \<open>Operations\<close>

text \<open>The outcome of an operation; \<open>Panic\<close> is the failed \<^verbatim>\<open>expect\<close> on a resource that is gone.\<close>

datatype 's result = NotEnabled | Panic | Next 's

definition io_clone :: "nat \<Rightarrow> io_inner \<Rightarrow> io_inner result" where
  "io_clone i h = (if holds h i then Next (h\<lparr>ih_holders := ih_holders h @ [Plain]\<rparr>) else NotEnabled)"

definition with_resource :: "nat \<Rightarrow> io_inner \<Rightarrow> io_inner result" where
  "with_resource i h = (if holds h i then if ih_resource h then Next h else Panic else NotEnabled)"

text \<open>\<^verbatim>\<open>Drop for SharedIoHandle\<close>: wake a waiter, then release the reference; the last one drops the resource.\<close>

definition wake_holder :: "nat \<Rightarrow> holder list \<Rightarrow> holder list" where
  "wake_holder w hs =
     (if w < length hs then (case hs ! w of Taking _ \<Rightarrow> hs[w := Taking True] | _ \<Rightarrow> hs) else hs)"

definition drop_wakes :: "io_inner \<Rightarrow> io_inner" where
  "drop_wakes h =
     (case ih_state h of
        HWaiting w \<Rightarrow> h\<lparr>ih_state := HInit, ih_holders := wake_holder w (ih_holders h)\<rparr>
      | _ \<Rightarrow> h)"

definition release_ref :: "nat \<Rightarrow> io_inner \<Rightarrow> io_inner" where
  "release_ref i h =
     (let h = h\<lparr>ih_holders := (ih_holders h)[i := Gone]\<rparr> in
      if strong_count h = 0 \<and> ih_resource h then h\<lparr>ih_resource := False, ih_closed := ih_closed h + 1\<rparr> else h)"

definition io_drop :: "nat \<Rightarrow> io_inner \<Rightarrow> io_inner result" where
  "io_drop i h = (if holds h i \<or> taking h i then Next (release_ref i (drop_wakes h)) else NotEnabled)"

text \<open>
  One poll of \<^verbatim>\<open>take\<close>.  When the reference is unique, the resource leaves (\<open>Inr (Some ())\<close>, or \<open>None\<close> when
  it was gone already) and the holder's own reference is dropped; otherwise \<^verbatim>\<open>is_unique\<close> registers
  the waker.  A closed state with other references would make the loop spin for ever.
\<close>

definition take_owned :: "io_inner \<Rightarrow> io_inner \<times> bool" where
  "take_owned h =
     (if ih_state h = HClosed then (h, False)
      else (h\<lparr>ih_state := HClosed, ih_resource := False\<rparr>, ih_resource h))"

definition take_poll :: "nat \<Rightarrow> io_inner \<Rightarrow> (io_inner \<times> bool option) result" where
  "take_poll i h =
     (if \<not> (holds h i \<or> taking h i) then NotEnabled
      else if strong_count h = 1 then
        (case take_owned h of (h, got) \<Rightarrow>
          Next (release_ref i (drop_wakes (h\<lparr>ih_taken := ih_taken h + (if got then 1 else 0)\<rparr>)), Some got))
      else case ih_state h of
        HClosed \<Rightarrow> Panic
      | _ \<Rightarrow> Next (h\<lparr>ih_state := HWaiting i, ih_holders := (ih_holders h)[i := Taking False]\<rparr>, None))"

text \<open>
  The rest of \<^verbatim>\<open>close\<close> after \<^verbatim>\<open>take\<close> returned: submit the close operation, or close synchronously when
  the submission fails.  \<open>submitted\<close> is the submission's result, \<open>completed\<close> the operation's.
\<close>

definition close_taken :: "bool \<Rightarrow> unit io_result \<Rightarrow> unit io_result \<Rightarrow> io_inner \<Rightarrow> io_inner \<times> unit io_result" where
  "close_taken got submitted completed h =
     (if \<not> got then (h, Inr ())
      else (h\<lparr>ih_closed := ih_closed h + 1\<rparr>, case submitted of Inr _ \<Rightarrow> completed | Inl e \<Rightarrow> Inl e))"

text \<open>\<^verbatim>\<open>try_unwrap\<close>: the resource when this is the only reference, otherwise the handle again.\<close>

definition try_unwrap :: "nat \<Rightarrow> io_inner \<Rightarrow> (io_inner \<times> bool) result" where
  "try_unwrap i h =
     (if \<not> holds h i then NotEnabled
      else if strong_count h = 1 then
        if ih_resource h
        then Next (h\<lparr>ih_resource := False, ih_taken := ih_taken h + 1, ih_holders := (ih_holders h)[i := Gone]\<rparr>, True)
        else Panic
      else Next (h, False))"

text \<open>
  \<^verbatim>\<open>HandleRegistration::associate\<close> (Windows): a handle is associated with one completion port once.
  \<open>register\<close> is the result of the registration call, which only happens when it is not associated.
\<close>

datatype association_state = Unassociated | Associated usize

definition associate :: "usize \<Rightarrow> unit io_result \<Rightarrow> association_state \<Rightarrow> association_state \<times> unit io_result" where
  "associate registrar register st =
     (case st of
        Associated current \<Rightarrow> (st, if current = registrar then Inr () else Inl AlreadyExists)
      | Unassociated \<Rightarrow> (case register of Inl e \<Rightarrow> (st, Inl e) | Inr _ \<Rightarrow> (Associated registrar, Inr ())))"

section \<open>Reachable states\<close>

datatype handle_action = IoClone nat | IoUse nat | IoDrop nat | IoTake nat | IoUnwrap nat

fun handle_act :: "handle_action \<Rightarrow> io_inner \<Rightarrow> io_inner result" where
  "handle_act (IoClone i) h = io_clone i h"
| "handle_act (IoUse i) h = with_resource i h"
| "handle_act (IoDrop i) h = io_drop i h"
| "handle_act (IoTake i) h = (case take_poll i h of Next (h', _) \<Rightarrow> Next h' | Panic \<Rightarrow> Panic | NotEnabled \<Rightarrow> NotEnabled)"
| "handle_act (IoUnwrap i) h = (case try_unwrap i h of Next (h', _) \<Rightarrow> Next h' | Panic \<Rightarrow> Panic | NotEnabled \<Rightarrow> NotEnabled)"

text \<open>\<open>handle_reach solo\<close>: all runs, or those in which no second \<^verbatim>\<open>take\<close> starts while one is pending.\<close>

inductive handle_reach :: "bool \<Rightarrow> io_inner \<Rightarrow> bool" for solo where
  handle_start: "handle_reach solo io_new"
| handle_step: "handle_reach solo h \<Longrightarrow> handle_act a h = Next h' \<Longrightarrow>
     (solo \<Longrightarrow> \<forall>i. a = IoTake i \<longrightarrow> (\<forall>j. taking h j \<longrightarrow> j = i)) \<Longrightarrow> handle_reach solo h'"

section \<open>Invariants\<close>

definition handle_inv :: "io_inner \<Rightarrow> bool" where
  "handle_inv h \<longleftrightarrow>
     (ih_resource h \<longleftrightarrow> strong_count h > 0)
     \<and> (ih_state h = HClosed \<longrightarrow> strong_count h = 0)
     \<and> (\<forall>w. ih_state h = HWaiting w \<longrightarrow> strong_count h > 1)
     \<and> ih_taken h + ih_closed h = (if ih_resource h then 0 else 1)"

definition waiter_inv :: "io_inner \<Rightarrow> bool" where
  "waiter_inv h \<longleftrightarrow>
     (\<forall>i j. taking h i \<longrightarrow> taking h j \<longrightarrow> i = j)
     \<and> (\<forall>i. taking h i \<longrightarrow> ih_holders h ! i = Taking True \<or> ih_state h = HWaiting i)"

lemma held_count:
  "i < length hs \<Longrightarrow> is_held (hs ! i) \<Longrightarrow>
     length (filter is_held (hs[i := x])) = (if is_held x then length (filter is_held hs) else length (filter is_held hs) - 1)"
  using length_filter_update [of i hs is_held x] by auto

lemma held_pos: "i < length hs \<Longrightarrow> is_held (hs ! i) \<Longrightarrow> 0 < length (filter is_held hs)"
  using nth_mem [of i hs] by (auto simp: filter_empty_conv)

lemma is_held_simps [simp]: "is_held Plain" "is_held (Taking n)" "\<not> is_held Gone"
  by (simp_all add: is_held_def)

lemma wake_holder_count [simp]: "length (filter is_held (wake_holder w hs)) = length (filter is_held hs)"
  by (auto simp: wake_holder_def held_count split: holder.splits)

lemma wake_holder_length [simp]: "length (wake_holder w hs) = length hs"
  by (auto simp: wake_holder_def split: holder.splits)

lemma wake_holder_held [simp]: "i < length hs \<Longrightarrow> is_held (wake_holder w hs ! i) = is_held (hs ! i)"
  by (auto simp: wake_holder_def nth_list_update split: holder.splits)

lemma live_holder: "holds h i \<or> taking h i \<Longrightarrow> i < length (ih_holders h) \<and> is_held (ih_holders h ! i)"
  by (auto simp: holds_def taking_def)

lemma strong_pos: "holds h i \<or> taking h i \<Longrightarrow> 0 < strong_count h"
  using live_holder held_pos unfolding strong_count_def by blast

lemma drop_wakes_fields [simp]:
  "strong_count (drop_wakes h) = strong_count h" "ih_resource (drop_wakes h) = ih_resource h"
  "ih_taken (drop_wakes h) = ih_taken h" "ih_closed (drop_wakes h) = ih_closed h"
  "length (ih_holders (drop_wakes h)) = length (ih_holders h)" "ih_state (drop_wakes h) = HClosed \<longleftrightarrow> ih_state h = HClosed"
  "ih_state (drop_wakes h) \<noteq> HWaiting w"
  by (auto simp: drop_wakes_def strong_count_def split: handle_state.splits)

lemma drop_wakes_held: "i < length (ih_holders h) \<Longrightarrow> is_held (ih_holders (drop_wakes h) ! i) = is_held (ih_holders h ! i)"
  by (auto simp: drop_wakes_def split: handle_state.splits)

lemma release_ref_count:
  assumes "i < length (ih_holders h)" "is_held (ih_holders h ! i)"
  shows "strong_count (release_ref i h) = strong_count h - 1"
    "ih_resource (release_ref i h) = (ih_resource h \<and> strong_count h \<noteq> 1)"
    "ih_closed (release_ref i h) = ih_closed h + (if ih_resource h \<and> strong_count h = 1 then 1 else 0)"
    "ih_taken (release_ref i h) = ih_taken h" "ih_state (release_ref i h) = ih_state h"
proof -
  have c: "strong_count (h\<lparr>ih_holders := (ih_holders h)[i := Gone]\<rparr>) = strong_count h - 1" "0 < strong_count h"
    using held_count [OF assms, of Gone] held_pos [OF assms] by (simp_all add: strong_count_def)
  have "strong_count (h\<lparr>ih_holders := hs, ih_resource := b, ih_closed := n\<rparr>) = strong_count (h\<lparr>ih_holders := hs\<rparr>)" for hs b n
    by (simp add: strong_count_def)
  then show "strong_count (release_ref i h) = strong_count h - 1"
    "ih_resource (release_ref i h) = (ih_resource h \<and> strong_count h \<noteq> 1)"
    "ih_closed (release_ref i h) = ih_closed h + (if ih_resource h \<and> strong_count h = 1 then 1 else 0)"
    "ih_taken (release_ref i h) = ih_taken h" "ih_state (release_ref i h) = ih_state h"
    using c by (auto simp: release_ref_def Let_def)
qed

lemma handle_inv_drop:
  assumes "handle_inv h" "io_drop i h = Next h'"
  shows "handle_inv h'"
proof -
  have i: "holds h i \<or> taking h i" "h' = release_ref i (drop_wakes h)"
    using assms(2) by (auto simp: io_drop_def split: if_splits)
  have j: "i < length (ih_holders (drop_wakes h))" "is_held (ih_holders (drop_wakes h) ! i)"
    using live_holder [OF i(1)] drop_wakes_held by auto
  show ?thesis using assms(1) strong_pos [OF i(1)] unfolding i(2) handle_inv_def
    by (auto simp: release_ref_count [OF j])
qed

lemma handle_inv_take:
  assumes "handle_inv h" "take_poll i h = Next (h', r)"
  shows "handle_inv h'"
proof -
  have i: "holds h i \<or> taking h i" using assms(2) by (auto simp: take_poll_def split: if_splits)
  note live = live_holder [OF i]
  show ?thesis
  proof (cases "strong_count h = 1")
    case True
    have res: "ih_state h \<noteq> HClosed" "ih_resource h" "ih_taken h + ih_closed h = 0"
      using assms(1) True by (auto simp: handle_inv_def)
    let ?h = "h\<lparr>ih_state := HClosed, ih_resource := False, ih_taken := ih_taken h + 1\<rparr>"
    have h': "h' = release_ref i ?h" using assms(2) True i res(1,2)
      by (auto simp: take_poll_def take_owned_def drop_wakes_def)
    have j: "i < length (ih_holders ?h)" "is_held (ih_holders ?h ! i)" "strong_count ?h = 1"
      using live True by (simp_all add: strong_count_def)
    show ?thesis unfolding h' handle_inv_def release_ref_count [OF j(1,2)] j(3) using res(3) by simp
  next
    case False
    then have "h' = h\<lparr>ih_state := HWaiting i, ih_holders := (ih_holders h)[i := Taking False]\<rparr>" "strong_count h > 1"
      using assms(2) i strong_pos [OF i] by (auto simp: take_poll_def split: handle_state.splits)
    then show ?thesis using assms(1) held_count [of i "ih_holders h" "Taking False"] live
      by (auto simp: handle_inv_def strong_count_def)
  qed
qed

lemma handle_inv_unwrap:
  assumes "handle_inv h" "try_unwrap i h = Next (h', r)"
  shows "handle_inv h'"
proof -
  have i: "holds h i" using assms(2) by (auto simp: try_unwrap_def split: if_splits)
  then show ?thesis using assms held_count [of i "ih_holders h" Gone] live_holder [of h i]
    by (auto simp: try_unwrap_def handle_inv_def strong_count_def split: if_splits)
qed

lemma handle_act_inv:
  assumes "handle_inv h" "handle_act a h = Next h'"
  shows "handle_inv h'"
proof (cases a)
  case (IoClone i)
  then have "holds h i" "h' = h\<lparr>ih_holders := ih_holders h @ [Plain]\<rparr>"
    using assms(2) by (auto simp: io_clone_def split: if_splits)
  then show ?thesis using assms(1) strong_pos [of h i] by (auto simp: handle_inv_def strong_count_def)
next
  case (IoUse i)
  then show ?thesis using assms by (auto simp: with_resource_def split: if_splits)
next
  case (IoDrop i)
  then show ?thesis using assms handle_inv_drop by auto
next
  case (IoTake i)
  then show ?thesis using assms handle_inv_take [OF assms(1), of i] by (auto split: result.splits)
next
  case (IoUnwrap i)
  then show ?thesis using assms handle_inv_unwrap [OF assms(1), of i] by (auto split: result.splits)
qed

lemma handle_reach_inv: "handle_reach solo h \<Longrightarrow> handle_inv h"
proof (induction rule: handle_reach.induct)
  case handle_start
  then show ?case by (simp add: io_new_def handle_inv_def strong_count_def)
qed (rule handle_act_inv)

text \<open>
  C37. A resource is released exactly once and never used afterwards.  In every state that any
  sequence of clones, uses, drops, takes and unwraps reaches: the resource is present exactly
  while a reference is left; it has been handed out or closed exactly once when it is gone and
  not at all before; and no operation panics on a missing resource or spins on a closed handle.
  Closing what was taken closes it exactly when \<^verbatim>\<open>take\<close> returned it, also when the submission of
  the close operation fails.
\<close>

theorem io_handle_released_once:
  assumes "handle_reach False h"
  shows "(ih_resource h \<longleftrightarrow> strong_count h > 0)
    \<and> ih_taken h + ih_closed h = (if strong_count h > 0 then 0 else 1)
    \<and> handle_act a h \<noteq> Panic
    \<and> ih_closed (fst (close_taken got submitted completed h)) = ih_closed h + (if got then 1 else 0)"
proof -
  have inv: "handle_inv h" by (rule handle_reach_inv [OF assms])
  have "handle_act a h \<noteq> Panic"
  proof (cases a)
    case (IoUse i)
    then show ?thesis using inv strong_pos [of h i] by (auto simp: with_resource_def handle_inv_def)
  next
    case (IoTake i)
    then show ?thesis using inv strong_pos [of h i]
      by (auto simp: take_poll_def handle_inv_def split: handle_state.splits prod.splits)
  next
    case (IoUnwrap i)
    then show ?thesis using inv by (auto simp: try_unwrap_def handle_inv_def)
  qed (auto simp: io_clone_def io_drop_def)
  then show ?thesis using inv by (auto simp: handle_inv_def close_taken_def)
qed

lemma shared_handle_reach:
  "handle_reach solo (io_new\<lparr>ih_holders := [Plain, Plain]\<rparr>)"
  by (rule handle_step [OF handle_start, of "IoClone 0"]) (auto simp: io_clone_def io_new_def holds_def)

lemma io_handle_released_once_witness:
  "ih_resource (io_new\<lparr>ih_holders := [Plain, Plain]\<rparr>)
   \<and> handle_act (IoTake 1) (io_new\<lparr>ih_holders := [Plain, Plain]\<rparr>) \<noteq> Panic"
  using io_handle_released_once [OF shared_handle_reach, of "IoTake 1"] by (simp add: io_new_def strong_count_def)

section \<open>Waiting for uniqueness\<close>

lemma takingI: "i < length (ih_holders h) \<Longrightarrow> ih_holders h ! i = Taking n \<Longrightarrow> taking h i"
  by (auto simp: taking_def)

lemma taking_update:
  "taking (h\<lparr>ih_holders := (ih_holders h)[i := x]\<rparr>) j \<longleftrightarrow>
     (if j = i \<and> i < length (ih_holders h) then \<exists>n. x = Taking n else taking h j)"
  by (auto simp: taking_def)

lemma taking_fields [simp]:
  "taking (h\<lparr>ih_state := st\<rparr>) = taking h" "taking (h\<lparr>ih_resource := b\<rparr>) = taking h"
  "taking (h\<lparr>ih_resource := b, ih_closed := n\<rparr>) = taking h" "taking (h\<lparr>ih_taken := n\<rparr>) = taking h"
  by (auto simp: taking_def fun_eq_iff)

lemma wake_holder_nth:
  "wake_holder w hs ! j = (if w = j \<and> j < length hs \<and> (\<exists>n. hs ! j = Taking n) then Taking True else hs ! j)"
  by (cases "w = j"; cases "hs ! w") (auto simp: wake_holder_def)

lemma nth_update: "j < length hs \<Longrightarrow> hs[i := x] ! j = (if i = j then x else hs ! j)"
  by auto

lemma waiter_inv_drop:
  assumes "waiter_inv h"
  shows "waiter_inv (release_ref i (drop_wakes h))"
proof -
  have t: "taking (release_ref i (drop_wakes h)) j \<longleftrightarrow> taking h j \<and> j \<noteq> i" for j
    by (cases "ih_state h") (auto simp: release_ref_def drop_wakes_def taking_def Let_def wake_holder_nth nth_update split: if_splits)
  have "ih_holders (release_ref i (drop_wakes h)) ! j = Taking True" if "taking h j" "j \<noteq> i" for j
  proof -
    have "ih_holders h ! j = Taking True \<or> ih_state h = HWaiting j" using assms that(1) by (simp add: waiter_inv_def)
    then show ?thesis using that
      by (cases "ih_state h") (auto simp: release_ref_def drop_wakes_def taking_def Let_def wake_holder_nth nth_update)
  qed
  then show ?thesis using assms t by (auto simp: waiter_inv_def)
qed

lemma waiter_inv_act:
  assumes inv: "waiter_inv h" and act: "handle_act a h = Next h'"
    and solo: "\<forall>i. a = IoTake i \<longrightarrow> (\<forall>j. taking h j \<longrightarrow> j = i)"
  shows "waiter_inv h'"
proof (cases a)
  case (IoClone i)
  then have "h' = h\<lparr>ih_holders := ih_holders h @ [Plain]\<rparr>" using act by (auto simp: io_clone_def split: if_splits)
  then show ?thesis using inv by (auto simp: waiter_inv_def taking_def nth_append split: if_splits)
next
  case (IoUse i)
  then show ?thesis using act inv by (auto simp: with_resource_def split: if_splits)
next
  case (IoDrop i)
  then show ?thesis using act waiter_inv_drop [OF inv] by (auto simp: io_drop_def split: if_splits)
next
  case (IoUnwrap i)
  have "taking (h\<lparr>ih_resource := False, ih_taken := n, ih_holders := (ih_holders h)[i := Gone]\<rparr>) j \<longleftrightarrow> taking h j \<and> j \<noteq> i" for j n
    by (auto simp: taking_def nth_update split: if_splits)
  then show ?thesis using act inv IoUnwrap
    by (auto simp: try_unwrap_def waiter_inv_def nth_update split: if_splits result.splits)
next
  case (IoTake i)
  obtain r where p: "take_poll i h = Next (h', r)" using act IoTake by (auto split: result.splits)
  then have i: "holds h i \<or> taking h i" by (auto simp: take_poll_def split: if_splits)
  have only: "taking h j \<Longrightarrow> j = i" for j using solo IoTake by blast
  show ?thesis
  proof (cases "strong_count h = 1")
    case True
    then obtain h1 where h1: "h' = release_ref i (drop_wakes h1)" "ih_holders h1 = ih_holders h"
      using p i by (auto simp: take_poll_def take_owned_def split: if_splits)
    have "\<not> taking h' j" for j
    proof -
      have "taking h1 j \<Longrightarrow> j = i" using only h1(2) by (simp add: taking_def)
      then show ?thesis unfolding h1(1)
        by (cases "ih_state h1") (auto simp: release_ref_def drop_wakes_def taking_def Let_def wake_holder_nth nth_update split: if_splits)
    qed
    then show ?thesis by (simp add: waiter_inv_def)
  next
    case False
    then have h': "h' = h\<lparr>ih_state := HWaiting i, ih_holders := (ih_holders h)[i := Taking False]\<rparr>"
      using p i by (auto simp: take_poll_def split: handle_state.splits)
    have "taking h' j \<longleftrightarrow> j = i" for j
      using only [of j] live_holder [OF i] unfolding h' by (cases "j = i") (auto simp: taking_def)
    then show ?thesis unfolding waiter_inv_def h' by simp
  qed
qed

lemma handle_reach_waiter: "handle_reach True h \<Longrightarrow> waiter_inv h"
proof (induction rule: handle_reach.induct)
  case handle_start
  then show ?case by (auto simp: waiter_inv_def io_new_def taking_def)
next
  case (handle_step h a h')
  then show ?case using waiter_inv_act [of h a h'] by blast
qed

text \<open>
  Waiting to become the only owner.  In runs in which at most one \<^verbatim>\<open>take\<close> or \<^verbatim>\<open>close\<close> is pending at
  a time, a pending one is never forgotten: when it is the last holder, its task has been woken
  since its last poll (and that poll then succeeds).  With two pending at a time this fails: a
  run exists in which the one that registered last is dropped, and the other one is left as the
  only holder, pending, with neither its task woken nor its waker registered - it waits for
  ever.
\<close>

theorem io_handle_take_woken:
  "(\<forall>h i. handle_reach True h \<and> taking h i \<and> strong_count h = 1 \<longrightarrow>
      ih_holders h ! i = Taking True \<and> (\<exists>h'. take_poll i h = Next (h', Some True)))
   \<and> (\<exists>h i. handle_reach False h \<and> taking h i \<and> strong_count h = 1 \<and> ih_holders h ! i = Taking False \<and> ih_state h = HInit)"
proof (intro conjI allI impI)
  fix h i assume a: "handle_reach True h \<and> taking h i \<and> strong_count h = 1"
  then have inv: "handle_inv h" "waiter_inv h" using handle_reach_inv handle_reach_waiter by blast+
  have "ih_state h \<noteq> HWaiting i" "ih_state h \<noteq> HClosed" "ih_resource h"
    using inv(1) a by (auto simp: handle_inv_def)
  then show "ih_holders h ! i = Taking True" "\<exists>h'. take_poll i h = Next (h', Some True)"
    using inv(2) a by (auto simp: waiter_inv_def take_poll_def take_owned_def)
next
  let ?h = "io_new\<lparr>ih_holders := [Plain, Plain]\<rparr>"
  let ?h1 = "io_new\<lparr>ih_holders := [Taking False, Plain], ih_state := HWaiting 0\<rparr>"
  let ?h2 = "io_new\<lparr>ih_holders := [Taking False, Taking False], ih_state := HWaiting 1\<rparr>"
  let ?h3 = "io_new\<lparr>ih_holders := [Taking False, Gone]\<rparr>"
  have "handle_reach False ?h" by (rule shared_handle_reach)
  then have "handle_reach False ?h1" by (rule handle_step [of _ _ "IoTake 0"])
      (simp_all add: take_poll_def holds_def strong_count_def io_new_def)
  then have "handle_reach False ?h2" by (rule handle_step [of _ _ "IoTake 1"])
      (simp_all add: take_poll_def holds_def strong_count_def io_new_def)
  moreover have "handle_act (IoDrop 1) ?h2 = Next ?h3"
  proof -
    have "taking ?h2 1" by (rule takingI [of _ _ False]) (simp_all add: io_new_def)
    then show ?thesis unfolding handle_act.simps io_drop_def
      by (simp add: release_ref_def drop_wakes_def wake_holder_def strong_count_def io_new_def)
  qed
  ultimately have "handle_reach False ?h3" by (rule handle_step) simp
  moreover have "taking ?h3 0 \<and> strong_count ?h3 = 1 \<and> ih_holders ?h3 ! 0 = Taking False \<and> ih_state ?h3 = HInit"
    using takingI [of 0 ?h3 False] by (simp add: strong_count_def io_new_def)
  ultimately show "\<exists>h i. handle_reach False h \<and> taking h i \<and> strong_count h = 1 \<and> ih_holders h ! i = Taking False \<and> ih_state h = HInit"
    by blast
qed

lemma io_handle_take_woken_witness:
  "\<exists>h'. take_poll 0 (io_new\<lparr>ih_holders := [Taking True, Gone]\<rparr>) = Next (h', Some True)"
proof -
  have "handle_reach True (io_new\<lparr>ih_holders := [Taking False, Plain], ih_state := HWaiting 0\<rparr>)"
    by (rule handle_step [OF shared_handle_reach, of "IoTake 0"])
      (auto simp: take_poll_def holds_def taking_def strong_count_def io_new_def less_Suc_eq numeral_2_eq_2)
  then have "handle_reach True (io_new\<lparr>ih_holders := [Taking True, Gone]\<rparr>)"
    by (rule handle_step [of _ _ "IoDrop 1"])
      (simp_all add: io_drop_def holds_def release_ref_def drop_wakes_def wake_holder_def strong_count_def io_new_def)
  moreover have "taking (io_new\<lparr>ih_holders := [Taking True, Gone]\<rparr>) 0 \<and> strong_count (io_new\<lparr>ih_holders := [Taking True, Gone]\<rparr>) = 1"
    by (auto simp: taking_def strong_count_def)
  ultimately show ?thesis using io_handle_take_woken by blast
qed

section \<open>Association\<close>

text \<open>
  A sequence of association attempts registers at most once; every later attempt by the same
  driver succeeds and one by another driver is refused, without a registration call.
\<close>

fun associate_all :: "(usize \<times> unit io_result) list \<Rightarrow> association_state \<Rightarrow> association_state \<times> unit io_result list" where
  "associate_all [] st = (st, [])"
| "associate_all ((g, r) # rs) st =
     (case associate g r st of (st, o1) \<Rightarrow> case associate_all rs st of (st, os) \<Rightarrow> (st, o1 # os))"

lemma associate_fixed:
  "associate_all rs (Associated g) = (Associated g, map (\<lambda>(g', _). if g = g' then Inr () else Inl AlreadyExists) rs)"
  by (induction rs) (auto simp: associate_def)

lemma associate_once:
  assumes "list_all (\<lambda>(_, r). isl r) pre"
  shows "associate_all (pre @ (g, Inr ()) # rs) Unassociated =
     (Associated g, map snd pre @ Inr () # map (\<lambda>(g', _). if g = g' then Inr () else Inl AlreadyExists) rs)"
  using assms
proof (induction pre)
  case Nil
  then show ?case by (simp add: associate_def associate_fixed)
next
  case (Cons p pre)
  then show ?case by (cases p; cases "snd p") (auto simp: associate_def)
qed

end
