(* ===== verification/Generational.thy ===== *)
theory Generational
  imports Main
begin

text \<open>
  The contract that the operation table (\<^verbatim>\<open>driver/op_table.rs\<close>) and the cancellation-scope table
  (\<^verbatim>\<open>driver/helpers/scopes.rs\<close>) share: slots are reused, but a handle carries the generation of its
  slot, generations only grow, and a slot whose last generation is used up is retired. The locale
  proves once, from those laws, that a handle that stopped being valid stays invalid for ever.
\<close>

locale generational =
  fixes inv :: "'s \<Rightarrow> bool"
    and gen :: "'s \<Rightarrow> nat \<Rightarrow> nat"
    and live :: "'s \<Rightarrow> nat \<Rightarrow> bool"
    and retired :: "'s \<Rightarrow> nat \<Rightarrow> bool"
    and step :: "'s \<Rightarrow> 's \<Rightarrow> bool"
  assumes step_inv: "step s t \<Longrightarrow> inv s \<Longrightarrow> inv t"
    and gen_mono: "step s t \<Longrightarrow> inv s \<Longrightarrow> gen s i \<le> gen t i"
    and retired_not_live: "inv s \<Longrightarrow> retired s i \<Longrightarrow> \<not> live s i"
    and retired_stable: "step s t \<Longrightarrow> inv s \<Longrightarrow> retired s i \<Longrightarrow> retired t i"
    and released: "step s t \<Longrightarrow> inv s \<Longrightarrow> live s i \<Longrightarrow> \<not> live t i \<Longrightarrow>
          gen s i < gen t i \<or> retired t i"
begin

definition current :: "'s \<Rightarrow> nat \<Rightarrow> nat \<Rightarrow> bool" where
  "current s i g \<longleftrightarrow> live s i \<and> gen s i = g"

definition spent :: "'s \<Rightarrow> nat \<Rightarrow> nat \<Rightarrow> bool" where
  "spent s i g \<longleftrightarrow> g < gen s i \<or> retired s i"

lemma steps_inv: "step\<^sup>*\<^sup>* s t \<Longrightarrow> inv s \<Longrightarrow> inv t"
  by (induction rule: rtranclp_induct) (auto intro: step_inv)

lemma spent_not_current: "inv s \<Longrightarrow> spent s i g \<Longrightarrow> \<not> current s i g"
  using retired_not_live by (auto simp: spent_def current_def)

lemma spent_step: "step s t \<Longrightarrow> inv s \<Longrightarrow> spent s i g \<Longrightarrow> spent t i g"
  using gen_mono [of s t i] retired_stable by (auto simp: spent_def)

lemma spent_steps: "step\<^sup>*\<^sup>* s t \<Longrightarrow> inv s \<Longrightarrow> spent s i g \<Longrightarrow> spent t i g"
  by (induction rule: rtranclp_induct) (blast intro: spent_step steps_inv)+

lemma invalidated_spent:
  "step s t \<Longrightarrow> inv s \<Longrightarrow> current s i g \<Longrightarrow> \<not> current t i g \<Longrightarrow> spent t i g"
  using gen_mono [of s t i] released [of s t i] by (auto simp: spent_def current_def)

lemma current_or_spent:
  "step\<^sup>*\<^sup>* s t \<Longrightarrow> inv s \<Longrightarrow> current s i g \<Longrightarrow> current t i g \<or> spent t i g"
  by (induction rule: rtranclp_induct) (blast intro: invalidated_spent spent_step steps_inv)+

theorem never_resurrected:
  assumes "inv s" and "current s i g" and "step\<^sup>*\<^sup>* s t" and "\<not> current t i g" and "step\<^sup>*\<^sup>* t u"
  shows "\<not> current u i g"
  using current_or_spent [OF assms(3,1,2)] assms steps_inv spent_steps spent_not_current by meson

end

end
