(* ===== verification/Op_Table.thy ===== *)
theory Op_Table
  imports Slab Generational
begin

unbundle bit_operations_syntax

text \<open>
  The generational operation table of \<^verbatim>\<open>karmaio/src/driver/op_table.rs\<close>: 64-bit keys packing a slot
  and a generation (\<open>op_key\<close>), the reserved control values (\<open>completion_key\<close>) and the table itself
  (\<open>op_table\<close>, a slab of optional values with one generation per slot). The table's proofs use the
  slab only through the facts of the interpretation \<open>slab\<close>, and staleness of keys comes from the
  locale \<open>generational\<close>.
\<close>

section \<open>Keys\<close>

datatype op_key = OpKey (key_raw: usize)

definition INDEX_BITS :: nat where "INDEX_BITS = 64 div 2"
definition INDEX_MASK :: nat where "INDEX_MASK = 2 ^ INDEX_BITS - 1"
definition GENERATION_MAX :: nat where "GENERATION_MAX = INDEX_MASK - 1"
definition MAX_CAPACITY :: nat where "MAX_CAPACITY = INDEX_MASK"
definition INVALID :: op_key where "INVALID = OpKey 0"

definition slot_is_representable :: "nat \<Rightarrow> bool" where
  "slot_is_representable slot \<longleftrightarrow> slot < MAX_CAPACITY"

definition from_components :: "nat \<Rightarrow> nat \<Rightarrow> op_key option" where
  "from_components slot generation =
     (if \<not> slot_is_representable slot \<or> \<not> (1 \<le> generation \<and> generation \<le> GENERATION_MAX)
      then None
      else Some (OpKey (push_bit INDEX_BITS (of_nat generation) OR of_nat (slot + 1))))"

definition from_raw :: "usize \<Rightarrow> op_key option" where
  "from_raw raw =
     (let slot = raw AND of_nat INDEX_MASK; generation = drop_bit INDEX_BITS raw
      in if slot = 0 \<or> generation = 0 \<or> generation > of_nat GENERATION_MAX then None
         else Some (OpKey raw))"

definition components :: "op_key \<Rightarrow> (nat \<times> nat) option" where
  "components key =
     (let one_based_slot = key_raw key AND of_nat INDEX_MASK;
          generation = drop_bit INDEX_BITS (key_raw key)
      in if one_based_slot = 0 \<or> generation = 0 \<or> generation > of_nat GENERATION_MAX then None
         else Some (unat one_based_slot - 1, unat generation))"

datatype completion_key = Operation op_key | Wake | Cancel | WakeCancel

definition WAKE_RAW :: usize where "WAKE_RAW = - 1"
definition CANCEL_RAW :: usize where "CANCEL_RAW = WAKE_RAW - 1"
definition WAKE_CANCEL_RAW :: usize where "WAKE_CANCEL_RAW = WAKE_RAW - 2"

definition decode :: "u64 \<Rightarrow> completion_key option" where
  "decode raw =
     (if raw = WAKE_RAW then Some Wake
      else if raw = CANCEL_RAW then Some Cancel
      else if raw = WAKE_CANCEL_RAW then Some WakeCancel
      else map_option Operation (from_raw raw))"

section \<open>The table\<close>

record 'a op_table =
  ot_entries :: "'a option slab"
  ot_generations :: "nat list"
  ot_generation_limit :: nat
  ot_active_len :: nat

definition op_new_with_generation_limit :: "nat \<Rightarrow> nat \<Rightarrow> 'a op_table io_result" where
  "op_new_with_generation_limit capacity generation_limit =
     (if \<not> (1 \<le> generation_limit \<and> generation_limit \<le> GENERATION_MAX) then Inl InvalidInput
      else Inr \<lparr>ot_entries = slab_with_capacity capacity, ot_generations = [],
                ot_generation_limit = generation_limit, ot_active_len = 0\<rparr>)"

definition op_new :: "nat \<Rightarrow> 'a op_table io_result" where
  "op_new capacity =
     (if capacity = 0 \<or> capacity > MAX_CAPACITY then Inl InvalidInput
      else op_new_with_generation_limit capacity GENERATION_MAX)"

text \<open>The outer \<open>option\<close> is the panic of an index out of range or of the slab's \<^verbatim>\<open>unreachable!\<close>.\<close>

definition op_insert_with_key ::
  "'a op_table \<Rightarrow> (op_key \<Rightarrow> 'a) \<Rightarrow> (op_key io_result \<times> 'a op_table) option" where
  "op_insert_with_key t create =
     (let slot = slab_vacant_key (ot_entries t) in
      if \<not> slot_is_representable slot then Some (Inl Unsupported, t)
      else
        let gens = (if length (ot_generations t) \<le> slot
                    then resize_to (slot + 1) 1 (ot_generations t) else ot_generations t);
            t1 = t\<lparr>ot_generations := gens\<rparr>
        in case list_get gens slot of
             None \<Rightarrow> None
           | Some g \<Rightarrow>
               (case from_components slot g of
                  None \<Rightarrow> Some (Inl Unsupported, t1)
                | Some key \<Rightarrow>
                    (case slab_vacant_entry_insert (ot_entries t1) (\<lambda>_. Some (create key)) of
                       None \<Rightarrow> None
                     | Some (_, es) \<Rightarrow>
                         Some (Inr key, t1\<lparr>ot_entries := es, ot_active_len := ot_active_len t1 + 1\<rparr>))))"

definition op_insert :: "'a op_table \<Rightarrow> 'a \<Rightarrow> (op_key io_result \<times> 'a op_table) option" where
  "op_insert t value = op_insert_with_key t (\<lambda>_. value)"

definition op_get :: "'a op_table \<Rightarrow> op_key \<Rightarrow> 'a option" where
  "op_get t key =
     (case components key of
        None \<Rightarrow> None
      | Some (slot, generation) \<Rightarrow>
          if list_get (ot_generations t) slot = Some generation
          then (case slab_get (ot_entries t) slot of Some (Some v) \<Rightarrow> Some v | _ \<Rightarrow> None)
          else None)"

text \<open>\<^verbatim>\<open>get_mut\<close> followed by an assignment through the reference.\<close>

definition op_get_mut :: "'a op_table \<Rightarrow> op_key \<Rightarrow> ('a \<Rightarrow> 'a) \<Rightarrow> 'a op_table" where
  "op_get_mut t key f =
     (case components key of
        None \<Rightarrow> t
      | Some (slot, generation) \<Rightarrow>
          if list_get (ot_generations t) slot = Some generation
          then t\<lparr>ot_entries := slab_get_mut (ot_entries t) slot (map_option f)\<rparr>
          else t)"

definition op_remove :: "'a op_table \<Rightarrow> op_key \<Rightarrow> ('a option \<times> 'a op_table) option" where
  "op_remove t key =
     (case components key of
        None \<Rightarrow> Some (None, t)
      | Some (slot, generation) \<Rightarrow>
          if list_get (ot_generations t) slot \<noteq> Some generation then Some (None, t)
          else
            (case slab_get (ot_entries t) slot of
               None \<Rightarrow> Some (None, t)
             | Some None \<Rightarrow> Some (None, t)
             | Some (Some value) \<Rightarrow>
                 let t1 = t\<lparr>ot_entries := slab_get_mut (ot_entries t) slot (\<lambda>_. None),
                            ot_active_len := ot_active_len t - 1\<rparr>
                 in if generation \<ge> ot_generation_limit t then Some (Some value, t1)
                    else
                      (case slab_remove (ot_entries t1) slot of
                         None \<Rightarrow> None
                       | Some (_, es) \<Rightarrow>
                           Some (Some value,
                             t1\<lparr>ot_generations := (ot_generations t1)[slot := generation + 1],
                                ot_entries := es\<rparr>))))"

definition op_is_empty :: "'a op_table \<Rightarrow> bool" where
  "op_is_empty t \<longleftrightarrow> ot_active_len t = 0"

text \<open>\<^verbatim>\<open>iter\<close>: an index panic of \<^verbatim>\<open>generations[slot]\<close> is \<open>None\<close>.\<close>

fun op_iter_pairs :: "nat list \<Rightarrow> (nat \<times> 'a option) list \<Rightarrow> (op_key \<times> 'a) list option" where
  "op_iter_pairs gens [] = Some []"
| "op_iter_pairs gens ((slot, value) # rest) =
     (case list_get gens slot of
        None \<Rightarrow> None
      | Some g \<Rightarrow>
          map_option
            (\<lambda>tail. (case (from_components slot g, value) of
                       (Some key, Some v) \<Rightarrow> (key, v) # tail
                     | _ \<Rightarrow> tail))
            (op_iter_pairs gens rest))"

definition op_iter :: "'a op_table \<Rightarrow> (op_key \<times> 'a) list option" where
  "op_iter t = op_iter_pairs (ot_generations t) (slab_pairs (ot_entries t))"

text \<open>\<^verbatim>\<open>clear\<close>: the slots active at the start, then one pass over them.\<close>

fun op_active :: "nat list \<Rightarrow> (nat \<times> 'a option) list \<Rightarrow> (nat \<times> nat) list option" where
  "op_active gens [] = Some []"
| "op_active gens ((slot, None) # rest) = op_active gens rest"
| "op_active gens ((slot, Some _) # rest) =
     (case list_get gens slot of
        None \<Rightarrow> None
      | Some g \<Rightarrow> map_option (\<lambda>tail. (slot, g) # tail) (op_active gens rest))"

definition op_clear_slot :: "'a op_table \<Rightarrow> nat \<Rightarrow> nat \<Rightarrow> 'a op_table option" where
  "op_clear_slot t slot generation =
     (let t1 = t\<lparr>ot_entries := slab_get_mut (ot_entries t) slot (\<lambda>_. None)\<rparr>
      in if generation < ot_generation_limit t then
           (case slab_remove (ot_entries t1) slot of
              None \<Rightarrow> None
            | Some (_, es) \<Rightarrow>
                Some (t1\<lparr>ot_generations := (ot_generations t1)[slot := generation + 1],
                         ot_entries := es\<rparr>))
         else Some t1)"

fun op_clear_loop :: "'a op_table \<Rightarrow> (nat \<times> nat) list \<Rightarrow> 'a op_table option" where
  "op_clear_loop t [] = Some t"
| "op_clear_loop t ((slot, g) # rest) =
     (case op_clear_slot t slot g of None \<Rightarrow> None | Some t' \<Rightarrow> op_clear_loop t' rest)"

definition op_clear :: "'a op_table \<Rightarrow> 'a op_table option" where
  "op_clear t =
     (case op_active (ot_generations t) (slab_pairs (ot_entries t)) of
        None \<Rightarrow> None
      | Some active \<Rightarrow>
          map_option (\<lambda>t'. t'\<lparr>ot_active_len := 0\<rparr>) (op_clear_loop t active))"

section \<open>Key encoding\<close>

lemma INDEX_BITS_eq [simp]: "INDEX_BITS = 32"
  by (simp add: INDEX_BITS_def)

lemmas key_consts = INDEX_MASK_def GENERATION_MAX_def MAX_CAPACITY_def slot_is_representable_def

lemma and_index_mask: "w AND of_nat INDEX_MASK = take_bit 32 (w :: usize)"
  by (simp add: INDEX_MASK_def take_bit_eq_mask mask_numeral)

lemma pack_low:
  assumes "unat S < 2 ^ 32"
  shows "take_bit 32 (push_bit 32 G OR S) = (S :: usize)"
  using assms
  by (simp add: take_bit_push_bit take_bit_nat_eq_self_iff unsigned_take_bit_eq word_unat_eq_iff)

lemma pack_high:
  assumes "unat S < 2 ^ 32" and "unat G < 2 ^ 32"
  shows "drop_bit 32 (push_bit 32 G OR S) = (G :: usize)"
proof -
  have "take_bit 64 (push_bit 32 (unat G)) = push_bit 32 (unat G)"
    using assms(2) by (simp add: take_bit_nat_eq_self_iff push_bit_eq_mult)
  moreover have "drop_bit 32 (unat S) = 0" using assms(1) by (simp add: drop_bit_eq_div)
  moreover have "drop_bit 32 (push_bit 32 (unat G)) = unat G"
    by (simp add: drop_bit_eq_div push_bit_eq_mult)
  ultimately show ?thesis
    by (simp add: word_unat_eq_iff unat_drop_bit_eq unsigned_or_eq unsigned_push_bit_eq)
qed

lemma unat_of_nat_small: "n < 2 ^ 32 \<Longrightarrow> unat (of_nat n :: usize) = n"
  by (simp add: unsigned_of_nat take_bit_nat_eq_self_iff)

lemma generation_word_le:
  "(of_nat GENERATION_MAX :: usize) < g \<longleftrightarrow> GENERATION_MAX < unat g"
  by (simp add: word_less_nat_alt unat_of_nat_small key_consts)

lemma from_components_Some_iff:
  "from_components slot g = Some key \<longleftrightarrow>
     slot < MAX_CAPACITY \<and> 1 \<le> g \<and> g \<le> GENERATION_MAX \<and>
     key = OpKey (push_bit 32 (of_nat g) OR of_nat (slot + 1))"
  by (auto simp: from_components_def slot_is_representable_def)

lemma components_from_components:
  assumes "from_components slot g = Some key"
  shows "components key = Some (slot, g)" and "from_raw (key_raw key) = Some key"
proof -
  from assms have b: "slot + 1 < 2 ^ 32" "g < 2 ^ 32" "1 \<le> g" "g \<le> GENERATION_MAX"
    and key: "key = OpKey (push_bit 32 (of_nat g) OR of_nat (slot + 1))"
    by (auto simp: from_components_Some_iff key_consts)
  have low: "take_bit 32 (key_raw key) = of_nat (slot + 1)"
    and high: "drop_bit 32 (key_raw key) = of_nat g"
    using pack_low [of "of_nat (slot + 1)" "of_nat g"] pack_high [of "of_nat (slot + 1)" "of_nat g"]
      unat_of_nat_small [OF b(1)] unat_of_nat_small [OF b(2)] b(1,2)
    by (simp_all only: key op_key.sel)
  have nz: "(of_nat (slot + 1) :: usize) \<noteq> 0" "(of_nat g :: usize) \<noteq> 0"
    using b unat_of_nat_small [of "slot + 1"] unat_of_nat_small [of g] by (metis One_nat_def add_is_0
        nat.simps(3) unsigned_0, metis not_one_le_zero unsigned_0)
  have "\<not> of_nat GENERATION_MAX < (of_nat g :: usize)"
    using b by (simp add: generation_word_le unat_of_nat_small)
  with low high nz b show "components key = Some (slot, g)" "from_raw (key_raw key) = Some key"
    by (simp_all add: components_def from_raw_def and_index_mask unat_of_nat_small
        del: of_nat_Suc of_nat_add)
qed

lemma components_inj:
  assumes "components k = Some (slot, g)"
  shows "from_components slot g = Some k"
proof -
  let ?w = "key_raw k"
  from assms have nz: "take_bit 32 ?w \<noteq> 0" "drop_bit 32 ?w \<noteq> 0"
    and g: "unat (drop_bit 32 ?w) = g" "g \<le> GENERATION_MAX"
    and s: "slot = unat (take_bit 32 ?w) - 1"
    by (auto simp: components_def Let_def and_index_mask generation_word_le split: if_splits)
  have lt: "unat (take_bit 32 ?w) < 2 ^ 32"
    using take_bit_nat_less_exp [of 32 "unat ?w"] by (simp add: unsigned_take_bit_eq)
  have pos: "0 < unat (take_bit 32 ?w)" "0 < g"
    using nz g by (auto simp: unat_gt_0)
  have "slot + 1 = unat (take_bit 32 ?w)" using s pos by simp
  then have low: "(of_nat (slot + 1) :: usize) = take_bit 32 ?w" by simp
  have high: "(of_nat g :: usize) = drop_bit 32 ?w" unfolding g(1) [symmetric] by simp
  have "push_bit 32 (drop_bit 32 ?w) OR take_bit 32 ?w = ?w"
    by (rule bit_eqI) (auto simp: bit_simps)
  with low high lt pos g s show ?thesis
    by (cases k) (auto simp: from_components_Some_iff key_consts)
qed

section \<open>The table's invariant\<close>

definition op_live :: "'a op_table \<Rightarrow> nat \<Rightarrow> bool" where
  "op_live t slot \<longleftrightarrow> (\<exists>v. slab_get (ot_entries t) slot = Some (Some v))"

definition op_retired :: "'a op_table \<Rightarrow> nat \<Rightarrow> bool" where
  "op_retired t slot \<longleftrightarrow> slab_get (ot_entries t) slot = Some None"

definition op_gen :: "'a op_table \<Rightarrow> nat \<Rightarrow> nat" where
  "op_gen t slot = (case list_get (ot_generations t) slot of Some g \<Rightarrow> g | None \<Rightarrow> 1)"

text \<open>Everything but the count of active entries, which \<^verbatim>\<open>clear\<close> adjusts only at the end.\<close>

definition op_core :: "'a op_table \<Rightarrow> bool" where
  "op_core t \<longleftrightarrow>
     slab_inv (ot_entries t) \<and> length (ot_generations t) = slab_slots (ot_entries t) \<and>
     slab_slots (ot_entries t) \<le> MAX_CAPACITY \<and>
     1 \<le> ot_generation_limit t \<and> ot_generation_limit t \<le> GENERATION_MAX \<and>
     (\<forall>slot. 1 \<le> op_gen t slot \<and> op_gen t slot \<le> ot_generation_limit t) \<and>
     (\<forall>slot. op_retired t slot \<longrightarrow> op_gen t slot = ot_generation_limit t)"

definition op_inv :: "'a op_table \<Rightarrow> bool" where
  "op_inv t \<longleftrightarrow> op_core t \<and> ot_active_len t = card {slot. op_live t slot}"

lemma op_coreD:
  assumes "op_core t"
  shows "slab_inv (ot_entries t)" and "length (ot_generations t) = slab_slots (ot_entries t)"
    and "slab_slots (ot_entries t) \<le> MAX_CAPACITY"
    and "1 \<le> op_gen t slot" and "op_gen t slot \<le> ot_generation_limit t"
    and "ot_generation_limit t \<le> GENERATION_MAX"
    and "op_retired t slot \<Longrightarrow> op_gen t slot = ot_generation_limit t"
    and "1 \<le> ot_generation_limit t"
  using assms by (auto simp: op_core_def)

lemma op_inv_core [dest]: "op_inv t \<Longrightarrow> op_core t"
  by (simp add: op_inv_def)

lemma op_view_active_len [simp]:
  "op_gen (t\<lparr>ot_active_len := n\<rparr>) = op_gen t" "op_live (t\<lparr>ot_active_len := n\<rparr>) = op_live t"
  "op_retired (t\<lparr>ot_active_len := n\<rparr>) = op_retired t" "op_core (t\<lparr>ot_active_len := n\<rparr>) = op_core t"
  by (auto simp: op_gen_def op_live_def op_retired_def op_core_def fun_eq_iff)

lemma op_live_bound: "op_live t slot \<Longrightarrow> slot < slab_slots (ot_entries t)"
  by (auto simp: op_live_def slab_get_bound)

lemma finite_op_live [simp]: "finite {slot. op_live t slot}"
  by (rule finite_subset [of _ "{..<slab_slots (ot_entries t)}"]) (auto dest: op_live_bound)

lemma list_get_gen:
  "op_core t \<Longrightarrow> slot < slab_slots (ot_entries t) \<Longrightarrow>
   list_get (ot_generations t) slot = Some (op_gen t slot)"
  by (auto simp: op_gen_def op_core_def list_get_def)

lemma op_get_live_iff:
  assumes "op_inv t" and "components key = Some (slot, g)"
  shows "op_get t key = Some v \<longleftrightarrow>
           slab_get (ot_entries t) slot = Some (Some v) \<and> op_gen t slot = g"
proof (cases "slot < slab_slots (ot_entries t)")
  case True
  with list_get_gen [OF op_inv_core [OF assms(1)]] assms(2) show ?thesis
    by (auto simp: op_get_def split: option.splits)
next
  case False
  then have "slab_get (ot_entries t) slot = None" using slab_get_bound by fastforce
  with assms(2) show ?thesis by (auto simp: op_get_def)
qed

lemma op_get_not_None_iff:
  assumes "op_inv t" and "components key = Some (slot, g)"
  shows "op_get t key \<noteq> None \<longleftrightarrow> op_live t slot \<and> op_gen t slot = g"
  using op_get_live_iff [OF assms] by (auto simp: op_live_def)

lemma op_inv_new [inv_intros]:
  "op_new_with_generation_limit c l = Inr t \<Longrightarrow> op_inv t"
  by (auto simp: op_new_with_generation_limit_def op_inv_def op_core_def op_live_def op_retired_def op_gen_def
      slab_with_capacity_def slab_slots_def slab_get_def slab_inv_def free_list_ok_def
      intro!: exI [of _ "[]"] split: if_splits)

subsection \<open>Insertion\<close>

text \<open>What an insertion does when it succeeds: the key encodes the vacant slot and its generation.\<close>

lemma op_insert_cases:
  assumes inv: "op_inv t"
  obtains (full) "op_insert_with_key t create = Some (Inl Unsupported, t)"
      "slab_vacant_key (ot_entries t) = MAX_CAPACITY"
  | (ok) slot key t' where "op_insert_with_key t create = Some (Inr key, t')"
      "slot = slab_vacant_key (ot_entries t)" "components key = Some (slot, op_gen t slot)"
      "from_components slot (op_gen t slot) = Some key"
      "op_inv t'" "op_gen t' = op_gen t"
      "slab_get (ot_entries t') = (slab_get (ot_entries t))(slot \<mapsto> Some (create key))"
      "ot_generation_limit t' = ot_generation_limit t"
      "slab_get (ot_entries t) slot = None" "slot < MAX_CAPACITY"
proof -
  let ?slot = "slab_vacant_key (ot_entries t)"
  note d = op_coreD [OF op_inv_core [OF inv]]
  have free: "slab_get (ot_entries t) ?slot = None" using slab.vacant_free [OF d(1)] .
  have le: "?slot \<le> slab_slots (ot_entries t)" using slab.vacant_le [OF d(1)] .
  show thesis
  proof (cases "slot_is_representable ?slot")
    case False
    with le d(3) have "?slot = MAX_CAPACITY" by (auto simp: slot_is_representable_def)
    with False show thesis by (intro full) (auto simp: op_insert_with_key_def Let_def)
  next
    case True
    define gens where "gens = (if length (ot_generations t) \<le> ?slot
        then resize_to (?slot + 1) 1 (ot_generations t) else ot_generations t)"
    have gens: "(case list_get gens i of Some g \<Rightarrow> g | None \<Rightarrow> 1) = op_gen t i" for i
      using list_get_resize_to_grow [of "ot_generations t" "?slot + 1" 1 i]
      by (auto simp: gens_def op_gen_def list_get_def)
    have "?slot < length gens" by (auto simp: gens_def)
    with gens [of ?slot] have g: "list_get gens ?slot = Some (op_gen t ?slot)"
      by (simp add: list_get_def)
    from True d(4,5) [of ?slot] d(6) obtain key where key: "from_components ?slot (op_gen t ?slot) = Some key"
      by (auto simp: from_components_def dest: le_trans)
    obtain es where es: "slab_insert (ot_entries t) (Some (create key)) = Some (?slot, es)"
      "slab_inv es" "slab_get es = (slab_get (ot_entries t))(?slot \<mapsto> Some (create key))"
      "slab_slots es = max (slab_slots (ot_entries t)) (?slot + 1)"
      using slab.ins_spec [OF d(1)] by blast
    define t' where "t' = t\<lparr>ot_generations := gens, ot_entries := es,
      ot_active_len := ot_active_len t + 1\<rparr>"
    have eq: "op_insert_with_key t create = Some (Inr key, t')"
      using True g key es(1) d(1)
      by (simp add: op_insert_with_key_def Let_def gens_def [symmetric]
          slab_vacant_entry_insert_eq t'_def)
    have gen': "op_gen t' = op_gen t" using gens by (simp add: op_gen_def t'_def fun_eq_iff)
    have live': "{i. op_live t' i} = insert ?slot {i. op_live t i}"
      using es(3) by (auto simp: op_live_def t'_def)
    have "?slot \<notin> {i. op_live t i}" using free by (simp add: op_live_def)
    then have card: "card {i. op_live t' i} = Suc (card {i. op_live t i})"
      unfolding live' by simp
    have ret: "op_retired t' i \<longleftrightarrow> op_retired t i" for i
      using es(3) free by (auto simp: op_retired_def t'_def)
    have "length gens = slab_slots es"
      using d(2) es(4) le by (auto simp: gens_def max_def)
    moreover have "slab_slots es \<le> MAX_CAPACITY"
      using True d(3) es(4) by (simp add: slot_is_representable_def)
    ultimately have "op_inv t'"
      using d es(2) card gen' ret inv by (simp add: op_inv_def op_core_def) (simp add: t'_def)
    with eq key components_from_components(1) [OF key] gen' es(3) free True show thesis
      by (intro ok [of key t' ?slot]) (auto simp: t'_def slot_is_representable_def)
  qed
qed

subsection \<open>Releasing a slot\<close>

text \<open>
  The common part of \<^verbatim>\<open>remove\<close> and \<^verbatim>\<open>clear\<close>: the value is taken out; the slot is given back with the
  next generation, or kept empty for ever when its generations are used up.
\<close>

lemma op_clear_slot_spec:
  assumes core: "op_core t" and live: "op_live t slot" and g: "op_gen t slot = g"
  obtains t' where "op_clear_slot t slot g = Some t'" "op_core t'"
    "{i. op_live t' i} = {i. op_live t i} - {slot}"
    "ot_generation_limit t' = ot_generation_limit t" "ot_active_len t' = ot_active_len t"
    "\<And>i. i \<noteq> slot \<Longrightarrow> slab_get (ot_entries t') i = slab_get (ot_entries t) i"
    "\<And>i. i \<noteq> slot \<Longrightarrow> op_gen t' i = op_gen t i"
    "if g < ot_generation_limit t
     then slab_get (ot_entries t') slot = None \<and> op_gen t' slot = g + 1
     else op_retired t' slot \<and> op_gen t' slot = g"
proof -
  note d = op_coreD [OF core]
  let ?es = "slab_get_mut (ot_entries t) slot (\<lambda>_. None)"
  have es: "slab_inv ?es" "slab_slots ?es = slab_slots (ot_entries t)"
    "slab_get ?es = (slab_get (ot_entries t))(slot \<mapsto> None)"
    using slab.upd_spec [OF d(1), of slot "\<lambda>_. None"] live by (auto simp: op_live_def)
  have sb: "slot < slab_slots (ot_entries t)" using op_live_bound [OF live] .
  show thesis
  proof (cases "g < ot_generation_limit t")
    case False
    with d(5) [of slot] g have gl: "g = ot_generation_limit t" by simp
    let ?t = "t\<lparr>ot_entries := ?es\<rparr>"
    have gen: "op_gen ?t = op_gen t" by (simp add: op_gen_def fun_eq_iff)
    have ret: "op_retired ?t i \<longleftrightarrow> i = slot \<or> op_retired t i" for i
      using es(3) by (auto simp: op_retired_def)
    have "op_core ?t"
      using d es(1,2) gen ret gl g by (auto simp: op_core_def)
    moreover have "{i. op_live ?t i} = {i. op_live t i} - {slot}"
      using es(3) by (auto simp: op_live_def)
    ultimately show thesis
      using False gen g ret es(3)
      by (intro that [of ?t]) (auto simp: op_clear_slot_def Let_def)
  next
    case True
    obtain es' where rem: "slab_remove ?es slot = Some (None, es')"
      "slab_try_remove ?es slot = (Some None, es')"
      using slab_remove_eq [of ?es slot None] es(3) by auto
    have es': "slab_inv es'" "slab_slots es' = slab_slots (ot_entries t)"
      "slab_get es' = (slab_get (ot_entries t))(slot := None)"
      using slab.rem_spec [OF es(1) rem(2)] es by auto
    let ?t = "t\<lparr>ot_entries := es', ot_generations := (ot_generations t)[slot := g + 1]\<rparr>"
    have gen: "op_gen ?t = (op_gen t)(slot := g + 1)"
      using sb d(2) by (auto simp: op_gen_def fun_eq_iff)
    have ret: "op_retired ?t i \<longleftrightarrow> i \<noteq> slot \<and> op_retired t i" for i
      using es'(3) by (auto simp: op_retired_def)
    have "op_core ?t"
      using d es'(1,2) gen ret True by (auto simp: op_core_def)
    moreover have "{i. op_live ?t i} = {i. op_live t i} - {slot}"
      using es'(3) by (auto simp: op_live_def)
    ultimately show thesis
      using True gen rem(1) es'(3)
      by (intro that [of ?t]) (auto simp: op_clear_slot_def Let_def)
  qed
qed

lemma op_remove_clear_slot:
  assumes "op_inv t" and "components key = Some (slot, g)" and "op_get t key = Some v"
  shows "op_remove t key =
           map_option (\<lambda>t'. (Some v, t'\<lparr>ot_active_len := ot_active_len t - 1\<rparr>)) (op_clear_slot t slot g)"
proof -
  have "list_get (ot_generations t) slot = Some g" "slab_get (ot_entries t) slot = Some (Some v)"
    using assms(2,3) by (auto simp: op_get_def split: option.splits if_splits)
  with assms(2) show ?thesis
    by (auto simp: op_remove_def op_clear_slot_def Let_def split: option.splits)
qed

lemma op_remove_miss: "op_get t key = None \<Longrightarrow> op_remove t key = Some (None, t)"
  by (auto simp: op_get_def op_remove_def split: option.splits if_splits)

lemma op_remove_hit:
  assumes inv: "op_inv t" and key: "components key = Some (slot, g)" and hit: "op_get t key = Some v"
  obtains t' where "op_remove t key = Some (Some v, t')" "op_inv t'"
    "{i. op_live t' i} = {i. op_live t i} - {slot}"
    "ot_generation_limit t' = ot_generation_limit t"
    "\<And>i. i \<noteq> slot \<Longrightarrow> slab_get (ot_entries t') i = slab_get (ot_entries t) i"
    "\<And>i. i \<noteq> slot \<Longrightarrow> op_gen t' i = op_gen t i"
    "if g < ot_generation_limit t
     then slab_get (ot_entries t') slot = None \<and> op_gen t' slot = g + 1
     else op_retired t' slot \<and> op_gen t' slot = g"
proof -
  have live: "op_live t slot" and g: "op_gen t slot = g"
    using op_get_live_iff [OF inv key] hit by (auto simp: op_live_def)
  obtain t1 where t1: "op_clear_slot t slot g = Some t1" "op_core t1"
    "{i. op_live t1 i} = {i. op_live t i} - {slot}"
    "ot_generation_limit t1 = ot_generation_limit t"
    "\<And>i. i \<noteq> slot \<Longrightarrow> slab_get (ot_entries t1) i = slab_get (ot_entries t) i"
    "\<And>i. i \<noteq> slot \<Longrightarrow> op_gen t1 i = op_gen t i"
    "if g < ot_generation_limit t
     then slab_get (ot_entries t1) slot = None \<and> op_gen t1 slot = g + 1
     else op_retired t1 slot \<and> op_gen t1 slot = g"
    using op_clear_slot_spec [OF op_inv_core [OF inv] live g] by metis
  let ?t = "t1\<lparr>ot_active_len := ot_active_len t - 1\<rparr>"
  have "card {i. op_live t1 i} = card {i. op_live t i} - 1"
    unfolding t1(3) using live by (simp add: card_Diff_singleton)
  then have "op_inv ?t" using inv t1(2) by (simp add: op_inv_def)
  with t1 op_remove_clear_slot [OF inv key hit] show thesis
    by (intro that [of ?t]) auto
qed

subsection \<open>Assignment through a key\<close>

lemma op_get_mut_spec:
  assumes "op_inv t"
  shows "op_inv (op_get_mut t key f)" and "op_gen (op_get_mut t key f) = op_gen t"
    and "op_live (op_get_mut t key f) = op_live t"
    and "op_retired (op_get_mut t key f) = op_retired t"
    and "op_get (op_get_mut t key f) key = map_option f (op_get t key)"
proof -
  let ?t = "op_get_mut t key f"
  note d = op_coreD [OF op_inv_core [OF assms]]
  have gens: "ot_generations ?t = ot_generations t" "ot_generation_limit ?t = ot_generation_limit t"
    "ot_active_len ?t = ot_active_len t"
    by (auto simp: op_get_mut_def split: option.splits)
  have es: "slab_inv (ot_entries ?t)" "slab_slots (ot_entries ?t) = slab_slots (ot_entries t)"
    using d(1) by (auto simp: op_get_mut_def slab_inv_get_mut split: option.splits)
  show g: "op_gen ?t = op_gen t" by (simp add: op_gen_def gens fun_eq_iff)
  show l: "op_live ?t = op_live t" and r: "op_retired ?t = op_retired t"
    by (auto simp: op_live_def op_retired_def op_get_mut_def fun_eq_iff split: option.splits)
  show "op_inv ?t"
    using d es assms by (simp add: op_inv_def op_core_def g l r gens)
  show "op_get ?t key = map_option f (op_get t key)"
    by (auto simp: op_get_def op_get_mut_def split: option.splits)
qed

subsection \<open>Clearing and iterating\<close>

lemma op_active_spec:
  "\<forall>(i, v) \<in> set ps. list_get gens i = Some (G i) \<Longrightarrow>
   op_active gens ps = Some (map (\<lambda>(i, v). (i, G i)) (filter (\<lambda>(i, v). v \<noteq> None) ps))"
  by (induction gens ps rule: op_active.induct) auto

lemma op_clear_loop_spec:
  assumes "op_core t" and "distinct (map fst as)"
    and "\<And>i g. (i, g) \<in> set as \<Longrightarrow> op_live t i \<and> op_gen t i = g"
  shows "\<exists>t'. op_clear_loop t as = Some t' \<and> op_core t' \<and>
    {i. op_live t' i} = {i. op_live t i} - fst ` set as \<and>
    (\<forall>i. i \<notin> fst ` set as \<longrightarrow> op_gen t' i = op_gen t i \<and>
        slab_get (ot_entries t') i = slab_get (ot_entries t) i) \<and>
    (\<forall>i \<in> fst ` set as. op_gen t i < op_gen t' i \<or> op_gen t i = op_gen t' i \<and> op_retired t' i)"
  using assms
proof (induction as arbitrary: t)
  case (Cons a as)
  obtain slot g where a: "a = (slot, g)" by (cases a)
  have live: "op_live t slot" "op_gen t slot = g" using Cons.prems(3) [of slot g] a by auto
  obtain t1 where t1: "op_clear_slot t slot g = Some t1" "op_core t1"
    "{i. op_live t1 i} = {i. op_live t i} - {slot}"
    "\<And>i. i \<noteq> slot \<Longrightarrow> slab_get (ot_entries t1) i = slab_get (ot_entries t) i"
    "\<And>i. i \<noteq> slot \<Longrightarrow> op_gen t1 i = op_gen t i"
    "if g < ot_generation_limit t
     then slab_get (ot_entries t1) slot = None \<and> op_gen t1 slot = g + 1
     else op_retired t1 slot \<and> op_gen t1 slot = g"
    using op_clear_slot_spec [OF Cons.prems(1) live] by metis
  have notin: "slot \<notin> fst ` set as" "distinct (map fst as)" using Cons.prems(2) a by auto
  have pre: "op_live t1 i \<and> op_gen t1 i = h" if m: "(i, h) \<in> set as" for i h
  proof -
    have "i \<noteq> slot" using m notin(1) by force
    moreover have "op_live t i \<and> op_gen t i = h" using Cons.prems(3) [of i h] m by auto
    ultimately show ?thesis using t1(3,5) by auto
  qed
  from Cons.IH [OF t1(2) notin(2) pre] obtain t' where t': "op_clear_loop t1 as = Some t'" "op_core t'"
    "{i. op_live t' i} = {i. op_live t1 i} - fst ` set as"
    "\<forall>i. i \<notin> fst ` set as \<longrightarrow> op_gen t' i = op_gen t1 i \<and>
        slab_get (ot_entries t') i = slab_get (ot_entries t1) i"
    "\<forall>i \<in> fst ` set as. op_gen t1 i < op_gen t' i \<or> op_gen t1 i = op_gen t' i \<and> op_retired t' i"
    by blast
  have "op_gen t slot < op_gen t' slot \<or> op_gen t slot = op_gen t' slot \<and> op_retired t' slot"
    using t1(6) t'(4) notin(1) live(2) by (auto simp: op_retired_def split: if_splits)
  moreover have "\<forall>i \<in> fst ` set as. op_gen t1 i = op_gen t i" using t1(5) notin(1) by metis
  ultimately show ?case
    using a t1 t' notin(1) by (intro exI [of _ t']) (auto simp: image_iff)
qed auto

lemma slab_pairs_gens:
  assumes "op_core t"
  shows "\<forall>(i, v) \<in> set (slab_pairs (ot_entries t)). list_get (ot_generations t) i = Some (op_gen t i)"
  using list_get_gen [OF assms] slab_get_bound
  by (force simp: slab_pairs_def set_occupied_pairs slab_get_Some_iff)

lemma distinct_slab_pairs: "slab_inv s \<Longrightarrow> distinct (map fst (slab_pairs s))"
  using slab_pairs_sorted [of s] by (simp add: strict_sorted_iff)

lemma op_clear_spec:
  assumes inv: "op_inv t"
  obtains t' where "op_clear t = Some t'" "op_inv t'" "\<And>i. \<not> op_live t' i"
    "\<And>i. op_retired t i \<Longrightarrow> op_retired t' i" "\<And>i. op_gen t i \<le> op_gen t' i"
    "\<And>i. op_live t i \<Longrightarrow> op_gen t i < op_gen t' i \<or> op_retired t' i"
proof -
  let ?ps = "slab_pairs (ot_entries t)"
  define as where "as = map (\<lambda>(i, v). (i, op_gen t i)) (filter (\<lambda>(i, v). v \<noteq> None) ?ps)"
  note core = op_inv_core [OF inv]
  have mem: "(i, v) \<in> set ?ps \<longleftrightarrow> slab_get (ot_entries t) i = Some v" for i v
    by (simp add: slab_pairs_def set_occupied_pairs slab_get_Some_iff)
  have act: "op_active (ot_generations t) ?ps = Some as"
    unfolding as_def by (rule op_active_spec [OF slab_pairs_gens [OF core]])
  have "map fst as = map fst (filter (\<lambda>(i, v). v \<noteq> None) ?ps)"
    by (simp add: as_def case_prod_beta)
  then have dist: "distinct (map fst as)"
    using distinct_slab_pairs [OF op_coreD(1) [OF core]] by (simp add: distinct_map_filter)
  have livepre: "op_live t i \<and> op_gen t i = g" if "(i, g) \<in> set as" for i g
    using that mem by (force simp: as_def op_live_def)
  have slots: "fst ` set as = {i. op_live t i}"
    using mem by (force simp: as_def op_live_def image_iff)
  from op_clear_loop_spec [OF core dist livepre] obtain t1 where
    t1: "op_clear_loop t as = Some t1" "op_core t1" "{i. op_live t1 i} = {}"
    "\<forall>i. \<not> op_live t i \<longrightarrow> op_gen t1 i = op_gen t i \<and>
        slab_get (ot_entries t1) i = slab_get (ot_entries t) i"
    "\<forall>i. op_live t i \<longrightarrow> op_gen t i < op_gen t1 i \<or> op_gen t i = op_gen t1 i \<and> op_retired t1 i"
    unfolding slots by (auto simp: set_eq_iff)
  let ?t = "t1\<lparr>ot_active_len := 0\<rparr>"
  have "op_clear t = Some ?t" using act t1(1) by (simp add: op_clear_def)
  moreover have "op_inv ?t" using t1(2,3) by (simp add: op_inv_def)
  moreover have "op_retired t i \<Longrightarrow> op_retired t1 i" for i
    using t1(4) by (auto simp: op_retired_def op_live_def)
  moreover have "op_gen t i \<le> op_gen t1 i" for i
    using t1(4,5) by (cases "op_live t i") (auto dest!: spec [of _ i])
  ultimately show thesis using t1(3,5) by (intro that [of ?t]) auto
qed

section \<open>Steps of the table\<close>

inductive op_step :: "'a op_table \<Rightarrow> 'a op_table \<Rightarrow> bool" where
  step_insert: "op_insert_with_key t create = Some (r, t') \<Longrightarrow> op_step t t'"
| step_mutate: "op_step t (op_get_mut t key f)"
| step_remove: "op_remove t key = Some (v, t') \<Longrightarrow> op_step t t'"
| step_clear: "op_clear t = Some t' \<Longrightarrow> op_step t t'"

text \<open>One step, seen through the four views of the table.\<close>

lemma op_step_views:
  assumes "op_step t t'" and inv: "op_inv t"
  shows "op_inv t' \<and> op_gen t i \<le> op_gen t' i \<and> (op_retired t i \<longrightarrow> op_retired t' i) \<and>
         (op_live t i \<longrightarrow> op_live t' i \<or> op_gen t i < op_gen t' i \<or> op_retired t' i)"
  using assms(1)
proof cases
  case (step_insert create r)
  from inv show ?thesis
  proof (cases rule: op_insert_cases [where create = create])
    case full
    with step_insert inv show ?thesis by simp
  next
    case (ok slot key t1)
    with step_insert show ?thesis by (auto simp: op_live_def op_retired_def)
  qed
next
  case (step_mutate key f)
  with op_get_mut_spec [OF inv, of key f] show ?thesis by simp
next
  case (step_remove key v)
  show ?thesis
  proof (cases "op_get t key")
    case None
    with op_remove_miss step_remove inv show ?thesis by fastforce
  next
    case (Some w)
    then obtain slot g where key: "components key = Some (slot, g)"
      by (auto simp: op_get_def split: option.splits)
    have live: "op_live t slot" and g: "op_gen t slot = g"
      using op_get_live_iff [OF inv key] Some by (auto simp: op_live_def)
    obtain t1 where t1: "op_remove t key = Some (Some w, t1)" "op_inv t1"
      "\<And>i. i \<noteq> slot \<Longrightarrow> slab_get (ot_entries t1) i = slab_get (ot_entries t) i"
      "\<And>i. i \<noteq> slot \<Longrightarrow> op_gen t1 i = op_gen t i"
      "if g < ot_generation_limit t
       then slab_get (ot_entries t1) slot = None \<and> op_gen t1 slot = g + 1
       else op_retired t1 slot \<and> op_gen t1 slot = g"
      using op_remove_hit [OF inv key Some] by metis
    have "t1 = t'" using step_remove t1(1) by simp
    with t1 live g show ?thesis
      by (cases "i = slot") (auto simp: op_live_def op_retired_def split: if_splits)
  qed
next
  case step_clear
  obtain t1 where "op_clear t = Some t1" "op_inv t1"
    "\<And>i. op_retired t i \<Longrightarrow> op_retired t1 i" "\<And>i. op_gen t i \<le> op_gen t1 i"
    "\<And>i. op_live t i \<Longrightarrow> op_gen t i < op_gen t1 i \<or> op_retired t1 i"
    using op_clear_spec [OF inv] by metis
  with step_clear show ?thesis by auto
qed

interpretation optab: generational op_inv op_gen op_live op_retired op_step
proof
  show "op_inv s \<Longrightarrow> op_retired s i \<Longrightarrow> \<not> op_live s i" for s :: "'a op_table" and i
    by (simp add: op_retired_def op_live_def)
qed (use op_step_views in blast)+

lemma op_get_current:
  "op_inv t \<Longrightarrow> components key = Some (slot, g) \<Longrightarrow> op_get t key \<noteq> None \<longleftrightarrow> optab.current t slot g"
  by (subst op_get_not_None_iff) (auto simp: optab.current_def)


lemma op_get_keyed:
  assumes "op_get t key \<noteq> None" obtains slot g where "components key = Some (slot, g)"
  using assms by (auto simp: op_get_def split: option.splits)

lemma components_eq_imp: "components k = Some (slot, g) \<Longrightarrow> components k' = Some (slot, g) \<Longrightarrow> k = k'"
  by (drule components_inj)+ simp

text \<open>Two tables with the same entry and generation at a key's slot answer alike for the key.\<close>

lemma op_get_local:
  assumes "op_inv t" and "op_inv t'" and "components key = Some (slot, g)"
    and "slab_get (ot_entries t') slot = slab_get (ot_entries t) slot" and "op_gen t' slot = op_gen t slot"
  shows "op_get t' key = op_get t key"
proof -
  have "op_get t' key = Some v \<longleftrightarrow> op_get t key = Some v" for v
    by (simp only: op_get_live_iff [OF assms(1,3)] op_get_live_iff [OF assms(2,3)] assms(4,5))
  then show ?thesis by (metis option.exhaust)
qed

lemma op_iter_pairs_spec:
  "\<forall>(i, v) \<in> set ps. list_get gens i = Some (G i) \<and> from_components i (G i) \<noteq> None \<Longrightarrow>
   op_iter_pairs gens ps =
     Some (map (\<lambda>(i, v). (the (from_components i (G i)), the v)) (filter (\<lambda>(i, v). v \<noteq> None) ps))"
  by (induction gens ps rule: op_iter_pairs.induct) (auto split: option.splits)

lemma from_components_gen:
  assumes "op_core t" and "slot < slab_slots (ot_entries t)"
  shows "\<exists>key. from_components slot (op_gen t slot) = Some key"
  using op_coreD [OF assms(1)] assms(2) by (auto simp: from_components_Some_iff intro: le_trans less_le_trans)

text \<open>The highest generation is kept unused, so the control values are no keys.\<close>

lemma from_raw_not_control:
  assumes "from_raw raw = Some key"
  shows "raw \<noteq> WAKE_RAW" and "raw \<noteq> CANCEL_RAW" and "raw \<noteq> WAKE_CANCEL_RAW"
proof -
  have top: "from_raw w = None" if "unat w div 2 ^ 32 = 2 ^ 32 - 1" for w
  proof -
    have "GENERATION_MAX < unat (drop_bit 32 w)"
      unfolding unat_drop_bit_eq using that by (simp add: drop_bit_eq_div key_consts)
    then show ?thesis by (simp add: from_raw_def Let_def generation_word_le)
  qed
  have "from_raw WAKE_RAW = None" "from_raw CANCEL_RAW = None" "from_raw WAKE_CANCEL_RAW = None"
    by (rule top, simp add: WAKE_RAW_def CANCEL_RAW_def WAKE_CANCEL_RAW_def unsigned_minus_1_eq_mask
        mask_numeral)+
  with assms show "raw \<noteq> WAKE_RAW" "raw \<noteq> CANCEL_RAW" "raw \<noteq> WAKE_CANCEL_RAW" by auto
qed

lemma op_insert_spec:
  assumes "op_inv t"
  shows "(op_insert_with_key t create = Some (Inl Unsupported, t) \<and>
          slab_vacant_key (ot_entries t) = MAX_CAPACITY) \<or>
         (\<exists>key t'. op_insert_with_key t create = Some (Inr key, t') \<and> op_inv t' \<and>
            op_get t key = None \<and> op_get t' = (op_get t)(key \<mapsto> create key) \<and>
            ot_active_len t' = ot_active_len t + 1)"
  using assms
proof (cases rule: op_insert_cases [where create = create])
  case (ok slot key t')
  have old: "op_get t key = None"
    using op_get_live_iff [OF assms ok(3)] ok(9) by (cases "op_get t key") auto
  have new: "op_get t' key = Some (create key)"
    using op_get_live_iff [OF ok(5,3)] ok(6,7) by simp
  have "op_get t' k = op_get t k" if "k \<noteq> key" for k
  proof (cases "components k")
    case None
    then show ?thesis by (simp add: op_get_def)
  next
    case (Some sg)
    obtain s h where sg: "components k = Some (s, h)" using Some by (cases sg) auto
    show ?thesis
    proof (cases "s = slot")
      case True
      then have "h \<noteq> op_gen t slot" using components_eq_imp sg ok(3) that by blast
      with True op_get_live_iff [OF assms sg] op_get_live_iff [OF ok(5) sg] ok(6) show ?thesis
        by (cases "op_get t k"; cases "op_get t' k") auto
    qed (use op_get_local [OF assms ok(5) sg] ok(6,7) in simp)
  qed
  then have "op_get t' = (op_get t)(key \<mapsto> create key)" using new by auto
  moreover have "ot_active_len t' = ot_active_len t + 1"
    using ok(1) by (auto simp: op_insert_with_key_def Let_def split: option.splits if_splits)
  ultimately show ?thesis using ok(1,5) old by blast
qed simp

section \<open>Properties\<close>

text \<open>
  Key encoding. Every key built from a representable slot and generation decodes back to that
  slot and generation, is accepted by \<^verbatim>\<open>from_raw\<close>, and arrives from the kernel's 64-bit user data as
  an operation: it is never mistaken for one of the three reserved control values.
\<close>

theorem op_key_roundtrip:
  assumes "from_components slot generation = Some key"
  shows "components key = Some (slot, generation) \<and> from_raw (key_raw key) = Some key \<and>
         decode (key_raw key) = Some (Operation key)"
  using components_from_components [OF assms] from_raw_not_control by (auto simp: decode_def)

theorem op_key_roundtrip_witness:
  "from_components 6 9 = Some (OpKey 0x900000007) \<and>
   decode 0x900000007 = Some (Operation (OpKey 0x900000007))"
proof -
  have k: "from_components 6 9 = Some (OpKey 0x900000007)"
    by (simp add: from_components_Some_iff key_consts push_bit_eq_mult)
  with op_key_roundtrip [OF k] show ?thesis by simp
qed

text \<open>
  Insertion. On a well-formed table an insertion never panics. Either all \<^verbatim>\<open>MAX_CAPACITY\<close> slots
  are taken and the table is unchanged, or the returned key was not valid before, resolves to the
  value built from that very key, every other key resolves as before, and the number of active
  entries grows by one.
\<close>

theorem op_insert_correct:
  assumes "op_inv t"
  shows "(op_insert_with_key t create = Some (Inl Unsupported, t) \<and>
          slab_vacant_key (ot_entries t) = MAX_CAPACITY) \<or>
         (\<exists>key t'. op_insert_with_key t create = Some (Inr key, t') \<and> op_inv t' \<and>
            op_get t key = None \<and> op_get t' = (op_get t)(key \<mapsto> create key) \<and>
            ot_active_len t' = ot_active_len t + 1)"
  by (rule op_insert_spec [OF assms])

theorem op_insert_correct_witness:
  "\<exists>t key t'. op_new 4 = Inr t \<and> op_insert_with_key t (\<lambda>k. (k, ''read'')) = Some (Inr key, t') \<and>
     op_get t' key = Some (key, ''read'')"
proof -
  define t :: "(op_key \<times> string) op_table" where
    "t = \<lparr>ot_entries = slab_new, ot_generations = [], ot_generation_limit = GENERATION_MAX, ot_active_len = 0\<rparr>"
  have new: "op_new 4 = Inr t" by (simp add: op_new_def op_new_with_generation_limit_def
        key_consts t_def slab_with_capacity_def slab_new_def)
  then have inv: "op_inv t" by (auto simp: op_new_def intro: op_inv_new split: if_splits)
  have "slab_vacant_key (ot_entries t) \<noteq> MAX_CAPACITY"
    by (simp add: t_def slab_new_def slab_vacant_key_def key_consts)
  with new op_insert_correct [OF inv, of "\<lambda>k. (k, ''read'')"] show ?thesis by fastforce
qed

text \<open>
  Removal. On a well-formed table a removal never panics, returns exactly what the key resolved to
  (nothing for a stale key), and afterwards that key resolves to nothing while every other key
  resolves as before.
\<close>

theorem op_remove_correct:
  assumes inv: "op_inv t"
  shows "\<exists>t'. op_remove t key = Some (op_get t key, t') \<and> op_inv t' \<and> op_get t' = (op_get t)(key := None)"
proof (cases "op_get t key")
  case None
  then show ?thesis using inv op_remove_miss by fastforce
next
  case (Some v)
  then obtain slot g where key: "components key = Some (slot, g)" by (metis op_get_keyed option.simps(3))
  obtain t' where t': "op_remove t key = Some (Some v, t')" "op_inv t'"
    "\<And>i. i \<noteq> slot \<Longrightarrow> slab_get (ot_entries t') i = slab_get (ot_entries t) i"
    "\<And>i. i \<noteq> slot \<Longrightarrow> op_gen t' i = op_gen t i"
    "if g < ot_generation_limit t
     then slab_get (ot_entries t') slot = None \<and> op_gen t' slot = g + 1
     else op_retired t' slot \<and> op_gen t' slot = g"
    using op_remove_hit [OF inv key Some] by metis
  have g: "op_gen t slot = g" using op_get_live_iff [OF inv key] Some by blast
  have dead: "op_get t' k = None" if "components k = Some (slot, h)" for k h
    using op_get_live_iff [OF t'(2) that] t'(5)
    by (cases "op_get t' k") (auto simp: op_retired_def split: if_splits)
  have "op_get t' k = op_get t k" if "k \<noteq> key" for k
  proof (cases "components k")
    case None
    then show ?thesis by (simp add: op_get_def)
  next
    case (Some sg)
    obtain s h where sg: "components k = Some (s, h)" using Some by (cases sg) auto
    show ?thesis
    proof (cases "s = slot")
      case True
      then have "h \<noteq> g" using components_eq_imp sg key that by blast
      then have "op_get t k = None"
        using op_get_live_iff [OF inv sg] True g by (cases "op_get t k") auto
      then show ?thesis using dead sg True by simp
    qed (use op_get_local [OF inv t'(2) sg] t'(3,4) in simp)
  qed
  then have "op_get t' = (op_get t)(key := None)" using dead [OF key] by auto
  then show ?thesis using t'(1,2) Some by auto
qed

text \<open>
  C5. Stale completions. A key that was once valid and stopped resolving (its operation was removed or
  the table was cleared) never resolves again, whatever insertions, removals, assignments and
  clears follow; and no later insertion ever hands the same key out a second time.
\<close>

theorem op_key_never_reused:
  assumes "op_new_with_generation_limit capacity limit = Inr t0" and "op_step\<^sup>*\<^sup>* t0 s"
    and valid: "op_get s key \<noteq> None" and st: "op_step\<^sup>*\<^sup>* s t"
  shows "(op_get t key = None \<longrightarrow> op_step\<^sup>*\<^sup>* t u \<longrightarrow> op_get u key = None) \<and>
         (op_insert_with_key t create = Some (Inr key', t') \<longrightarrow> key' \<noteq> key)"
proof (intro conjI impI)
  have inv: "op_inv s" using assms(1,2) op_inv_new optab.steps_inv by blast
  have invt: "op_inv t" using optab.steps_inv [OF st inv] .
  obtain slot g where key: "components key = Some (slot, g)" using valid by (rule op_get_keyed)
  have cur: "optab.current s slot g" using op_get_current [OF inv key] valid by simp
  show "op_get u key = None" if "op_get t key = None" "op_step\<^sup>*\<^sup>* t u"
  proof -
    have "op_inv u" using optab.steps_inv [OF that(2) invt] .
    moreover have "\<not> optab.current t slot g" using op_get_current [OF invt key] that(1) by simp
    ultimately show ?thesis
      using optab.never_resurrected [OF inv cur st _ that(2)] op_get_current [OF _ key, of u] by blast
  qed
  show "key' \<noteq> key" if ins: "op_insert_with_key t create = Some (Inr key', t')"
  proof
    assume "key' = key"
    with invt ins have new: "slab_get (ot_entries t) slot = None" "op_inv t'" "op_get t' key \<noteq> None"
      using key op_insert_spec [OF invt, of create]
      by (cases rule: op_insert_cases [where create = create]; simp)+
    have "\<not> optab.current t slot g" using new(1) by (simp add: optab.current_def op_live_def)
    then have "\<not> optab.current t' slot g"
      using optab.never_resurrected [OF inv cur st] step_insert [OF ins] by blast
    then show False using op_get_current [OF new(2) key] new(3) by simp
  qed
qed

text \<open>
  A concrete history: a table with two generations per slot, an insertion, a removal and a second
  insertion, which reuses slot 0 under the next generation.
\<close>

definition demo0 :: "nat op_table" where
  "demo0 = \<lparr>ot_entries = slab_new, ot_generations = [], ot_generation_limit = 2, ot_active_len = 0\<rparr>"

definition demo1 :: "nat op_table" where
  "demo1 = \<lparr>ot_entries = \<lparr>sl_entries = [Occupied (Some 7)], sl_len = 1, sl_next = 1\<rparr>,
            ot_generations = [1], ot_generation_limit = 2, ot_active_len = 1\<rparr>"

definition demo2 :: "nat op_table" where
  "demo2 = \<lparr>ot_entries = \<lparr>sl_entries = [Vacant 1], sl_len = 0, sl_next = 0\<rparr>,
            ot_generations = [2], ot_generation_limit = 2, ot_active_len = 0\<rparr>"

definition demo3 :: "nat op_table" where
  "demo3 = \<lparr>ot_entries = \<lparr>sl_entries = [Occupied (Some 8)], sl_len = 1, sl_next = 1\<rparr>,
            ot_generations = [2], ot_generation_limit = 2, ot_active_len = 1\<rparr>"

lemmas demo_defs = demo0_def demo1_def demo2_def demo3_def slab_new_def

lemma demo_keys:
  "from_components 0 (Suc 0) = Some (OpKey 0x100000001)" "from_components 0 2 = Some (OpKey 0x200000001)"
  by (simp_all add: from_components_Some_iff key_consts push_bit_eq_mult)

lemma demo_components:
  "components (OpKey 0x100000001) = Some (0, Suc 0)" "components (OpKey 0x200000001) = Some (0, 2)"
  using demo_keys [THEN components_from_components(1)] by auto

lemma demo_history:
  "op_new_with_generation_limit 4 2 = Inr demo0"
  "op_insert_with_key demo0 (\<lambda>_. 7) = Some (Inr (OpKey 0x100000001), demo1)"
  "op_remove demo1 (OpKey 0x100000001) = Some (Some 7, demo2)"
  "op_insert_with_key demo2 (\<lambda>_. 8) = Some (Inr (OpKey 0x200000001), demo3)"
  by (simp_all add: demo_defs demo_keys demo_components op_new_with_generation_limit_def op_insert_with_key_def
      op_remove_def slab_with_capacity_def key_consts slab_vacant_key_def list_get_def resize_to_def
      slab_vacant_entry_insert_def slab_insert_at_def slab_get_def slab_get_mut_def slab_remove_def
      slab_try_remove_def)

theorem op_remove_correct_witness:
  "op_get demo1 (OpKey 0x100000001) = Some 7 \<and>
   (\<exists>t'. op_remove demo1 (OpKey 0x100000001) = Some (Some 7, t') \<and> op_get t' (OpKey 0x100000001) = None)"
proof -
  have "op_inv demo1"
    using demo_history(1,2) optab.step_inv [OF step_insert] op_inv_new by blast
  moreover have "op_get demo1 (OpKey 0x100000001) = Some 7"
    by (simp add: op_get_def demo_components demo_defs list_get_def slab_get_def)
  ultimately show ?thesis
    using op_remove_correct [of demo1 "OpKey 0x100000001"] by fastforce
qed

theorem op_key_never_reused_witness:
  "op_get demo1 (OpKey 0x100000001) = Some 7 \<and> op_get demo2 (OpKey 0x100000001) = None \<and>
   op_get demo3 (OpKey 0x200000001) = Some 8 \<and> op_get demo3 (OpKey 0x100000001) = None"
proof -
  have steps: "op_step demo0 demo1" "op_step demo1 demo2" "op_step demo2 demo3"
    using demo_history op_step.intros by blast+
  have gets: "op_get demo1 (OpKey 0x100000001) = Some 7" "op_get demo2 (OpKey 0x100000001) = None"
    "op_get demo3 (OpKey 0x200000001) = Some 8"
    by (simp_all add: op_get_def demo_components demo_defs list_get_def slab_get_def)
  have "op_get demo3 (OpKey 0x100000001) = None"
    using op_key_never_reused [OF demo_history(1), of demo1 "OpKey 0x100000001" demo2 demo3] steps gets
    by (simp add: r_into_rtranclp)
  with gets show ?thesis by simp
qed

text \<open>
  Iteration. On a well-formed table \<^verbatim>\<open>iter\<close> never panics and lists exactly the pairs of a valid key and
  its value, each once; and \<^verbatim>\<open>is_empty\<close> holds exactly when no key at all is valid.
\<close>

theorem op_iter_complete:
  assumes inv: "op_inv t"
  shows "\<exists>kvs. op_iter t = Some kvs \<and> set kvs = {(key, v). op_get t key = Some v} \<and>
           distinct (map fst kvs) \<and> length kvs = ot_active_len t \<and>
           (op_is_empty t \<longleftrightarrow> (\<forall>key. op_get t key = None))"
proof -
  note core = op_inv_core [OF inv]
  let ?ps = "filter (\<lambda>(i, v). v \<noteq> None) (slab_pairs (ot_entries t))"
  define K where "K i = the (from_components i (op_gen t i))" for i
  define kvs where "kvs = map (\<lambda>(i, v). (K i, the v)) ?ps"
  have mem: "(i, v) \<in> set (slab_pairs (ot_entries t)) \<longleftrightarrow> slab_get (ot_entries t) i = Some v" for i v
    by (simp add: slab_pairs_def set_occupied_pairs slab_get_Some_iff)
  have K: "from_components i (op_gen t i) = Some (K i)" if "slab_get (ot_entries t) i = Some v" for i v
    using from_components_gen [OF core slab_get_bound] that unfolding K_def by fastforce
  have K': "slab_get (ot_entries t) i = Some v \<Longrightarrow> \<exists>k. from_components i (op_gen t i) = Some k" for i v
    using K by blast
  have it: "op_iter t = Some kvs"
    unfolding op_iter_def kvs_def K_def using slab_pairs_gens [OF core] mem
    by (intro op_iter_pairs_spec) (auto intro: K')
  have set: "set kvs = {(key, v). op_get t key = Some v}"
  proof (intro equalityI subsetI; clarify)
    fix key v assume "(key, v) \<in> set kvs"
    then obtain i where i: "slab_get (ot_entries t) i = Some (Some v)" "key = K i"
      using mem by (auto simp: kvs_def)
    then show "op_get t key = Some v"
      using op_get_live_iff [OF inv components_from_components(1) [OF K]] by blast
  next
    fix key v assume g: "op_get t key = Some v"
    then obtain slot h where key: "components key = Some (slot, h)" by (metis op_get_keyed option.simps(3))
    with g have "slab_get (ot_entries t) slot = Some (Some v)" "op_gen t slot = h"
      using op_get_live_iff [OF inv key] by auto
    moreover from this have "K slot = key" using components_inj [OF key] by (simp add: K_def)
    ultimately show "(key, v) \<in> set kvs" using mem by (force simp: kvs_def)
  qed
  have KK: "slab_get (ot_entries t) i = Some v \<Longrightarrow> components (K i) = Some (i, op_gen t i)" for i v
    using components_from_components(1) [OF K] .
  have "inj_on K (fst ` set ?ps)"
    using mem by (intro inj_onI) (auto, metis KK Pair_inject option.inject)
  moreover have dps: "distinct (map fst ?ps)"
    using distinct_slab_pairs [OF op_coreD(1) [OF core]] by (simp add: distinct_map_filter)
  moreover have "map fst kvs = map K (map fst ?ps)" by (simp add: kvs_def case_prod_beta)
  ultimately have "distinct (map fst kvs)" using distinct_map [of K "map fst ?ps"] by simp
  moreover have "length kvs = ot_active_len t"
  proof -
    have "length ?ps = card (fst ` set ?ps)" using distinct_card [OF dps] by simp
    moreover have "fst ` set ?ps = {i. op_live t i}" using mem by (force simp: op_live_def)
    ultimately show ?thesis using inv by (simp add: kvs_def op_inv_def)
  qed
  moreover have "(\<forall>key. op_get t key = None) \<longleftrightarrow> set kvs = {}" unfolding set by (auto simp: set_eq_iff)
  ultimately show ?thesis using it set by (auto simp: op_is_empty_def)
qed

theorem op_iter_complete_witness:
  "\<exists>kvs. op_iter demo1 = Some kvs \<and> (OpKey 0x100000001, 7) \<in> set kvs \<and> length kvs = 1"
proof -
  have "op_inv demo1"
    using demo_history(1,2) optab.step_inv [OF step_insert] op_inv_new by blast
  moreover have "op_get demo1 (OpKey 0x100000001) = Some 7"
    by (simp add: op_get_def demo_components demo_defs list_get_def slab_get_def)
  ultimately show ?thesis
    using op_iter_complete [of demo1] by (fastforce simp: demo1_def)
qed

text \<open>
  C25. The operation table stays well formed.  Whatever insertions, assignments, removals and clears were made on a new table, no further
  insertion, removal, iteration or clear panics; every slot has a generation between 1 and the limit, and their number
  is at most the capacity that a key can encode; the count of active operations is exact, and \<^verbatim>\<open>iter\<close> lists that many different keys.
\<close>

theorem op_table_well_formed:
  assumes "op_new_with_generation_limit capacity limit = Inr t0" and "op_step\<^sup>*\<^sup>* t0 t"
  shows "op_insert_with_key t create \<noteq> None \<and> op_remove t key \<noteq> None \<and> op_clear t \<noteq> None \<and>
    length (ot_generations t) = slab_slots (ot_entries t) \<and> slab_slots (ot_entries t) \<le> MAX_CAPACITY \<and>
    1 \<le> op_gen t slot \<and> op_gen t slot \<le> ot_generation_limit t \<and> ot_generation_limit t \<le> GENERATION_MAX \<and>
    ot_active_len t = card {slot. op_live t slot} \<and>
    (\<exists>kvs. op_iter t = Some kvs \<and> distinct (map fst kvs) \<and> length kvs = ot_active_len t)"
proof -
  have inv: "op_inv t" using assms op_inv_new optab.steps_inv by blast
  have "op_insert_with_key t create \<noteq> None" using op_insert_spec [OF inv, of create] by auto
  moreover have "op_remove t key \<noteq> None"
  proof (cases "op_get t key")
    case None
    then show ?thesis using op_remove_miss by fastforce
  next
    case (Some v)
    then obtain slot g where "components key = Some (slot, g)" by (metis op_get_keyed option.distinct(1))
    then show ?thesis using op_remove_hit [OF inv _ Some] by fastforce
  qed
  moreover have "op_clear t \<noteq> None" using op_clear_spec [OF inv] by (metis option.distinct(1))
  moreover have "ot_active_len t = card {slot. op_live t slot}" using inv by (simp add: op_inv_def)
  ultimately show ?thesis using op_coreD [OF op_inv_core [OF inv]] op_iter_complete [OF inv] by auto
qed

theorem op_table_well_formed_witness:
  "ot_active_len demo3 = card {slot. op_live demo3 slot} \<and> (\<exists>kvs. op_iter demo3 = Some kvs \<and> length kvs = ot_active_len demo3)"
proof -
  have "op_step demo0 demo1" "op_step demo1 demo2" "op_step demo2 demo3" using demo_history op_step.intros by blast+
  then have "op_step\<^sup>*\<^sup>* demo0 demo3" by simp
  from op_table_well_formed [OF demo_history(1) this] show ?thesis by blast
qed

end
