(* ===== verification/Op_Map.thy ===== *)
theory Op_Map
  imports Op_Table
begin

text \<open>
  What the backends rely on from the operation table: it is a finite map from keys to values, whose
  insertion picks an unused key.  The locale states it; the interpretation \<open>ops\<close> discharges it for
  \<^verbatim>\<open>driver/op_table.rs\<close>, and the backends' proofs use the table only through its facts.
\<close>

locale keyed_map =
  fixes inv :: "'t \<Rightarrow> bool"
    and get :: "'t \<Rightarrow> 'k \<Rightarrow> 'v option"
    and ins :: "'t \<Rightarrow> 'v \<Rightarrow> ((io_error + 'k) \<times> 't) option"
    and rem :: "'t \<Rightarrow> 'k \<Rightarrow> ('v option \<times> 't) option"
    and upd :: "'t \<Rightarrow> 'k \<Rightarrow> ('v \<Rightarrow> 'v) \<Rightarrow> 't"
    and iter :: "'t \<Rightarrow> ('k \<times> 'v) list option"
    and is_empty :: "'t \<Rightarrow> bool"
  assumes ins_cases: "inv t \<Longrightarrow> (\<exists>e. ins t v = Some (Inl e, t)) \<or>
      (\<exists>k t'. ins t v = Some (Inr k, t') \<and> inv t' \<and> get t k = None \<and> get t' = (get t)(k \<mapsto> v))"
    and rem_total: "inv t \<Longrightarrow> \<exists>t'. rem t k = Some (get t k, t') \<and> inv t' \<and> get t' = (get t)(k := None)"
    and upd_inv: "inv t \<Longrightarrow> inv (upd t k f)"
    and get_upd: "inv t \<Longrightarrow> get (upd t k f) = (get t)(k := map_option f (get t k))"
    and iter_total: "inv t \<Longrightarrow> \<exists>kvs. iter t = Some kvs \<and> set kvs = {(k, v). get t k = Some v} \<and> distinct (map fst kvs)"
    and empty_iff: "inv t \<Longrightarrow> is_empty t \<longleftrightarrow> (\<forall>k. get t k = None)"
begin

lemma remE:
  assumes "inv t"
  obtains t' where "rem t k = Some (get t k, t')" "inv t'" "get t' = (get t)(k := None)"
  using rem_total [OF assms] by blast

lemma insE:
  assumes "inv t"
  obtains (full) e where "ins t v = Some (Inl e, t)"
  | (fresh) k t' where "ins t v = Some (Inr k, t')" "inv t'" "get t k = None" "get t' = (get t)(k \<mapsto> v)"
  using ins_cases [OF assms] by blast

lemma iterE:
  assumes "inv t"
  obtains kvs where "iter t = Some kvs" "\<And>k v. (k, v) \<in> set kvs \<longleftrightarrow> get t k = Some v" "distinct (map fst kvs)"
  using iter_total [OF assms] by auto

lemma upd_some: "inv t \<Longrightarrow> get t k = Some v \<Longrightarrow> get (upd t k f) = (get t)(k \<mapsto> f v)"
  by (simp add: get_upd)

lemma upd_none: "inv t \<Longrightarrow> get t k = None \<Longrightarrow> get (upd t k f) = get t"
  by (simp add: get_upd fun_upd_idem)

end

section \<open>The operation table is such a map\<close>

lemma op_get_other:
  assumes inv: "op_inv t" "op_inv t'" and key: "components key = Some (slot, g)" and "k \<noteq> key"
    and local: "\<And>i. i \<noteq> slot \<Longrightarrow> slab_get (ot_entries t') i = slab_get (ot_entries t) i"
      "\<And>i. i \<noteq> slot \<Longrightarrow> op_gen t' i = op_gen t i"
    and here: "\<And>h. h \<noteq> g \<Longrightarrow> components k = Some (slot, h) \<Longrightarrow> op_get t' k = op_get t k"
  shows "op_get t' k = op_get t k"
proof (cases "components k")
  case None
  then show ?thesis by (simp add: op_get_def)
next
  case (Some sg)
  then obtain s h where sg: "components k = Some (s, h)" by (cases sg) auto
  show ?thesis
  proof (cases "s = slot")
    case True
    then have "h \<noteq> g" using components_eq_imp [of k s h key] sg key assms(4) by blast
    then show ?thesis using here sg True by blast
  next
    case False
    then show ?thesis using op_get_local [OF inv sg] local by simp
  qed
qed

lemma op_get_get_mut:
  assumes inv: "op_inv t"
  shows "op_get (op_get_mut t key f) = (op_get t)(key := map_option f (op_get t key))"
proof
  fix k
  show "op_get (op_get_mut t key f) k = ((op_get t)(key := map_option f (op_get t key))) k"
  proof (cases "k = key")
    case True
    then show ?thesis using op_get_mut_spec(5) [OF inv] by simp
  next
    case False
    show ?thesis
    proof (cases "components key")
      case None
      then show ?thesis using False by (simp add: op_get_mut_def)
    next
      case (Some sg)
      then obtain slot g where key: "components key = Some (slot, g)" by (cases sg) auto
      have "op_get (op_get_mut t key f) k = op_get t k"
      proof (rule op_get_other [OF inv op_get_mut_spec(1) [OF inv] key False])
        show "op_get (op_get_mut t key f) k = op_get t k" if "h \<noteq> g" "components k = Some (slot, h)" for h
          using that key by (auto simp: op_get_def op_get_mut_def split: option.splits)
      qed (use key in \<open>auto simp: op_get_mut_def op_gen_def split: option.splits\<close>)
      then show ?thesis using False by simp
    qed
  qed
qed

interpretation ops: keyed_map op_inv op_get op_insert op_remove op_get_mut op_iter op_is_empty
proof
  fix t :: "'a op_table" and v k f
  assume inv: "op_inv t"
  show "(\<exists>e. op_insert t v = Some (Inl e, t)) \<or>
      (\<exists>k t'. op_insert t v = Some (Inr k, t') \<and> op_inv t' \<and> op_get t k = None \<and> op_get t' = (op_get t)(k \<mapsto> v))"
    using op_insert_spec [OF inv, of "\<lambda>_. v"] unfolding op_insert_def by blast
  show "\<exists>t'. op_remove t k = Some (op_get t k, t') \<and> op_inv t' \<and> op_get t' = (op_get t)(k := None)"
    by (rule op_remove_correct [OF inv])
  show "op_inv (op_get_mut t k f)" by (rule op_get_mut_spec(1) [OF inv])
  show "op_get (op_get_mut t k f) = (op_get t)(k := map_option f (op_get t k))" by (rule op_get_get_mut [OF inv])
  show "\<exists>kvs. op_iter t = Some kvs \<and> set kvs = {(k, v). op_get t k = Some v} \<and> distinct (map fst kvs)"
    using op_iter_complete [OF inv] by blast
  show "op_is_empty t \<longleftrightarrow> (\<forall>k. op_get t k = None)" using op_iter_complete [OF inv] by blast
qed

end
