(* ===== verification/Uring.thy ===== *)
theory Uring
  imports Op_Map
begin

text \<open>
  The io_uring backend (\<^verbatim>\<open>karmaio/src/driver/backends/iouring.rs\<close>): the life cycle of one-shot and
  multishot requests, the submission queue with its flush loops, the dispatch of completions,
  cancellation and shutdown.

  The kernel is not part of the program.  It is a script of the results of the system calls
  (\<open>ring_event\<close>): how many queued entries a call consumes, which completions it makes visible and
  what it returns; a call with no event left has not returned (\<open>Blocked\<close>).  All the code relies on is
  \<open>kernel_accepts\<close>: a completion names a request that was consumed and is not finished, and only a
  multishot request has more than one.  An event that breaks it is not a behaviour of the kernel,
  and a call with such an event next is \<open>Blocked\<close> too; so is one that reports \<^verbatim>\<open>ETIME\<close> though it was
  given no timeout.  How flags encode \<^verbatim>\<open>MORE\<close> and the buffer id is
  the argument \<open>abi\<close>.

  Wakers are identified by the task they wake, so replacing a waker by one that would wake the same
  task changes nothing.  A deferred action that has run is logged in \<open>ur_ran\<close>, and a resource
  that cleanup reclaims in \<open>ur_released\<close>.
\<close>

section \<open>Completions\<close>

record completion =
  cp_result :: "u32 io_result"
  cp_flags :: u32

definition completion_new :: "u32 io_result \<Rightarrow> completion" where
  "completion_new r = \<lparr>cp_result = r, cp_flags = 0\<rparr>"

definition bytes_transferred :: "nat \<Rightarrow> completion \<Rightarrow> nat io_result" where
  "bytes_transferred capacity c =
     (case cp_result c of
        Inl e \<Rightarrow> Inl e
      | Inr n \<Rightarrow> if unat n > capacity then Inl InvalidData else Inr (unat n))"

record cqe_abi =
  abi_more :: "u32 \<Rightarrow> bool"
  abi_select :: "u32 \<Rightarrow> u16 option"

text \<open>A payload kept for cleanup: an operation, or the stand-in installed by shutdown.\<close>

datatype 'd ignored = Payload 'd | Placeholder

datatype ('w, 'd) deferred = WakeTask 'w | RunCleanup "'d ignored" completion

datatype released = ClosedFd u32 | RecycledBuffer u16

datatype cleanup = NoCleanup | AcceptedFd | ProvidedBuffer

definition discard :: "cqe_abi \<Rightarrow> cleanup \<Rightarrow> completion \<Rightarrow> released list" where
  "discard abi cl c =
     (case cl of
        NoCleanup \<Rightarrow> []
      | AcceptedFd \<Rightarrow> (case cp_result c of Inr fd \<Rightarrow> [ClosedFd fd] | Inl _ \<Rightarrow> [])
      | ProvidedBuffer \<Rightarrow> (case abi_select abi (cp_flags c) of Some b \<Rightarrow> [RecycledBuffer b] | None \<Rightarrow> []))"

definition discard_all :: "cqe_abi \<Rightarrow> cleanup \<Rightarrow> completion list \<Rightarrow> released list" where
  "discard_all abi cl cs = concat (map (discard abi cl) cs)"

section \<open>Request states\<close>

datatype ('w, 'd) cancel_observer = ObserverPending | ObserverWaiting 'w | ObserverDetached "'d ignored"

datatype cancel_sqe = NeedPush | InFlight

datatype ('w, 'd) oneshot =
    Submitted
  | Waiting 'w
  | Completed completion
  | Detached "'d ignored"
  | Canceling "('w, 'd) cancel_observer" cancel_sqe

datatype ('w, 'd) multishot =
    Active "'w option" "completion list" cleanup "nat option"
  | Stopping "'w option" "completion list" cleanup
  | Finished "completion list" cleanup
  | Cancelled "completion list" cleanup "'d option"

datatype ('w, 'd) uring_state = Oneshot "('w, 'd) oneshot" | Multishot "('w, 'd) multishot"

text \<open>\<^verbatim>\<open>OneshotState::complete\<close>: whether the slot is to be removed, the waker, the cleanup, the new state.\<close>

fun oneshot_complete ::
  "completion \<Rightarrow> ('w, 'd) oneshot \<Rightarrow> bool \<times> 'w option \<times> ('w, 'd) deferred option \<times> ('w, 'd) oneshot" where
  "oneshot_complete c Submitted = (False, None, None, Completed c)"
| "oneshot_complete c (Waiting w) = (False, Some w, None, Completed c)"
| "oneshot_complete c (Detached p) = (True, None, Some (RunCleanup p c), Submitted)"
| "oneshot_complete c (Canceling ObserverPending _) = (False, None, None, Completed c)"
| "oneshot_complete c (Canceling (ObserverWaiting w) _) = (False, Some w, None, Completed c)"
| "oneshot_complete c (Canceling (ObserverDetached p) _) = (True, None, Some (RunCleanup p c), Submitted)"
| "oneshot_complete c (Completed c0) = (False, None, None, Completed c0)"

fun request_cancel :: "('w, 'd) oneshot \<Rightarrow> bool \<times> ('w, 'd) oneshot" where
  "request_cancel Submitted = (True, Canceling ObserverPending NeedPush)"
| "request_cancel (Waiting w) = (True, Canceling (ObserverWaiting w) NeedPush)"
| "request_cancel (Detached p) = (True, Canceling (ObserverDetached p) NeedPush)"
| "request_cancel (Canceling ob NeedPush) = (True, Canceling ob NeedPush)"
| "request_cancel (Canceling ob InFlight) = (False, Canceling ob InFlight)"
| "request_cancel (Completed c) = (False, Completed c)"

fun mark_cancel_in_flight :: "('w, 'd) uring_state \<Rightarrow> ('w, 'd) uring_state" where
  "mark_cancel_in_flight (Oneshot (Canceling ob _)) = Oneshot (Canceling ob InFlight)"
| "mark_cancel_in_flight st = st"

text \<open>
  \<^verbatim>\<open>MultishotState::push\<close>: slot removal, waker, whether to request cancellation, the new state and the
  resources its cleanup released.
\<close>

fun multishot_push ::
  "cqe_abi \<Rightarrow> completion \<Rightarrow> bool \<Rightarrow> ('w, 'd) multishot \<Rightarrow>
     bool \<times> 'w option \<times> bool \<times> ('w, 'd) multishot \<times> released list" where
  "multishot_push abi c mr (Active wk pending cl limit) =
     (if (case limit of Some l \<Rightarrow> length pending \<ge> l | None \<Rightarrow> False) then
        (let pending' = pending @ [completion_new (Inl ResourceBusy)] in
         (False, wk, mr, if mr then Stopping None pending' cl else Finished pending' cl, discard abi cl c))
      else
        (False, wk, False,
         if mr then Active None (pending @ [c]) cl limit else Finished (pending @ [c]) cl, []))"
| "multishot_push abi c mr (Stopping wk pending cl) =
     (False, wk, False, if mr then Stopping None pending cl else Finished pending cl, discard abi cl c)"
| "multishot_push abi c mr (Cancelled pending cl p) =
     (if mr then (False, None, False, Cancelled pending cl p, discard abi cl c)
      else (True, None, False, Cancelled [] cl p, discard abi cl c @ discard_all abi cl pending))"
| "multishot_push abi c mr (Finished pending cl) = (False, None, False, Finished pending cl, [])"

definition is_multishot :: "('w, 'd) uring_state \<Rightarrow> bool" where
  "is_multishot st = (case st of Multishot _ \<Rightarrow> True | Oneshot _ \<Rightarrow> False)"

definition needs_cancel_push :: "('w, 'd) uring_state \<Rightarrow> bool" where
  "needs_cancel_push st = (case st of Oneshot (Canceling _ NeedPush) \<Rightarrow> True | _ \<Rightarrow> False)"

section \<open>The backend\<close>

text \<open>Submission entries; an operation's entry says whether it is multishot.\<close>

datatype sqe = OpSqe op_key bool | CancelSqe op_key | WakeReadSqe | WakeCancelSqe

record cqe =
  cq_user :: u64
  cq_res :: "32 word"
  cq_flags :: u32

text \<open>One system call: entries consumed, completions posted, and the error number if it failed.\<close>

datatype ring_event = Enter nat "cqe list" "int option"

record ('w, 'd) uring =
  ur_ops :: "('w, 'd) uring_state op_table"
  ur_sq :: "sqe list"
  ur_sq_capacity :: nat
  ur_cq :: "cqe list"
  ur_kernel :: "(op_key \<times> bool) list"
  ur_script :: "ring_event list"
  ur_wakeup_armed :: bool
  ur_closed :: bool
  ur_shutting_down :: bool
  ur_pool :: bool
  ur_ran :: "('w, 'd) deferred list"
  ur_released :: "released list"

datatype 'a outcome = Panic | Blocked | Done 'a

text \<open>Sequencing, and sequencing with \<^verbatim>\<open>?\<close>, which returns the first error.\<close>

definition obind :: "'a outcome \<Rightarrow> ('a \<Rightarrow> 'b outcome) \<Rightarrow> 'b outcome" where
  "obind m f = (case m of Panic \<Rightarrow> Panic | Blocked \<Rightarrow> Blocked | Done a \<Rightarrow> f a)"

definition otry ::
  "('a io_result \<times> 's) outcome \<Rightarrow> ('a \<Rightarrow> 's \<Rightarrow> ('b io_result \<times> 's) outcome) \<Rightarrow> ('b io_result \<times> 's) outcome" where
  "otry m f = obind m (\<lambda>(r, s). case r of Inl e \<Rightarrow> Done (Inl e, s) | Inr a \<Rightarrow> f a s)"

definition ounwrap :: "'a option \<Rightarrow> ('a \<Rightarrow> 'b outcome) \<Rightarrow> 'b outcome" where
  "ounwrap m f = (case m of None \<Rightarrow> Panic | Some a \<Rightarrow> f a)"

text \<open>
  What the kernel may post: \<open>kn\<close> lists the requests it has consumed and that are not finished, with
  whether they are multishot.  A completion without \<^verbatim>\<open>MORE\<close> finishes its request.
\<close>

definition kernel_post :: "cqe_abi \<Rightarrow> cqe \<Rightarrow> (op_key \<times> bool) list \<Rightarrow> (op_key \<times> bool) list option" where
  "kernel_post abi c kn =
     (case decode (cq_user c) of
        Some (Operation k) \<Rightarrow>
          (case map_of kn k of
             None \<Rightarrow> None
           | Some multi \<Rightarrow>
               if abi_more abi (cq_flags c) then (if multi then Some kn else None)
               else Some (filter (\<lambda>e. fst e \<noteq> k) kn))
      | _ \<Rightarrow> Some kn)"

fun kernel_accepts :: "cqe_abi \<Rightarrow> cqe list \<Rightarrow> (op_key \<times> bool) list \<Rightarrow> bool" where
  "kernel_accepts abi [] kn = True"
| "kernel_accepts abi (c # cs) kn =
     (case kernel_post abi c kn of None \<Rightarrow> False | Some kn2 \<Rightarrow> kernel_accepts abi cs kn2)"

fun sqe_requests :: "sqe list \<Rightarrow> (op_key \<times> bool) list" where
  "sqe_requests [] = []"
| "sqe_requests (OpSqe k m # es) = (k, m) # sqe_requests es"
| "sqe_requests (_ # es) = sqe_requests es"

definition EINTR :: int where "EINTR = 4"
definition EBUSY :: int where "EBUSY = 16"
definition ETIME :: int where "ETIME = 62"

definition enter :: "cqe_abi \<Rightarrow> bool \<Rightarrow> ('w, 'd) uring \<Rightarrow> (int option \<times> ('w, 'd) uring) outcome" where
  "enter abi timed u =
     (case ur_script u of
        [] \<Rightarrow> Blocked
      | Enter n posts err # rest \<Rightarrow>
          let kn = ur_kernel u @ sqe_requests (take n (ur_sq u)); cq = ur_cq u @ posts in
          if kernel_accepts abi cq kn \<and> (timed \<or> err \<noteq> Some ETIME)
          then Done (err, u\<lparr>ur_script := rest, ur_sq := drop n (ur_sq u), ur_kernel := kn, ur_cq := cq\<rparr>)
          else Blocked)"

section \<open>Dispatching completions\<close>

definition cqe_completion :: "cqe \<Rightarrow> completion" where
  "cqe_completion c =
     \<lparr>cp_result = (if 0 \<le> sint (cq_res c) then Inr (cq_res c) else Inl (RawOs (- sint (cq_res c)))),
      cp_flags = cq_flags c\<rparr>"

text \<open>What one pass over the queue collects: deferred actions, keys to cancel, whether to re-arm the wake-up read.\<close>

record ('w, 'd) collected =
  co_deferred :: "('w, 'd) deferred list"
  co_cancel :: "op_key list"
  co_rearm :: bool

definition option_list :: "'a option \<Rightarrow> 'a list" where
  "option_list x = (case x of Some a \<Rightarrow> [a] | None \<Rightarrow> [])"

text \<open>A slot's part of one completion; \<open>None\<close> is a panic.\<close>

definition apply_state ::
  "cqe_abi \<Rightarrow> cqe \<Rightarrow> ('w, 'd) uring_state \<Rightarrow>
     bool \<times> 'w option \<times> ('w, 'd) deferred option \<times> bool \<times> ('w, 'd) uring_state \<times> released list" where
  "apply_state abi c st =
     (case st of
        Multishot m \<Rightarrow>
          (case multishot_push abi (cqe_completion c) (abi_more abi (cq_flags c)) m of
             (remove, waker, rc, m', rel) \<Rightarrow> (remove, waker, None, rc, Multishot m', rel))
      | Oneshot o1 \<Rightarrow>
          (case oneshot_complete (cqe_completion c) o1 of
             (remove, waker, cl, o2) \<Rightarrow> (remove, waker, cl, False, Oneshot o2, [])))"

definition process_op ::
  "cqe_abi \<Rightarrow> cqe \<Rightarrow> op_key \<Rightarrow> ('w, 'd) collected \<Rightarrow> ('w, 'd) uring \<Rightarrow>
     (('w, 'd) collected \<times> ('w, 'd) uring) option" where
  "process_op abi c key co u =
     (case op_get (ur_ops u) key of
        None \<Rightarrow> Some (co, u)
      | Some st \<Rightarrow>
          (case apply_state abi c st of (remove, waker, cl, rc, st', rel) \<Rightarrow>
             let co = co\<lparr>co_cancel := co_cancel co @ (if rc then [key] else []),
                         co_deferred := co_deferred co @ option_list (map_option WakeTask waker) @ option_list cl\<rparr>;
                 u = u\<lparr>ur_ops := op_get_mut (ur_ops u) key (\<lambda>_. st'), ur_released := ur_released u @ rel\<rparr>
             in if remove
                then (case op_remove (ur_ops u) key of None \<Rightarrow> None | Some (_, ops) \<Rightarrow> Some (co, u\<lparr>ur_ops := ops\<rparr>))
                else Some (co, u)))"

definition process_cqe ::
  "cqe_abi \<Rightarrow> cqe \<Rightarrow> ('w, 'd) collected \<Rightarrow> ('w, 'd) uring \<Rightarrow> (('w, 'd) collected \<times> ('w, 'd) uring) option" where
  "process_cqe abi c co u =
     (case decode (cq_user c) of
        None \<Rightarrow> Some (co, u)
      | Some Cancel \<Rightarrow> Some (co, u)
      | Some WakeCancel \<Rightarrow> Some (co, u)
      | Some Wake \<Rightarrow> Some (co\<lparr>co_rearm := \<not> ur_shutting_down u\<rparr>, u\<lparr>ur_wakeup_armed := False\<rparr>)
      | Some (Operation key) \<Rightarrow> process_op abi c key co u)"

text \<open>All visible completions, with the kernel's list of unfinished requests kept in step.\<close>

fun process_cqes ::
  "cqe_abi \<Rightarrow> cqe list \<Rightarrow> ('w, 'd) collected \<Rightarrow> ('w, 'd) uring \<Rightarrow> (('w, 'd) collected \<times> ('w, 'd) uring) option" where
  "process_cqes abi [] co u = Some (co, u)"
| "process_cqes abi (c # cs) co u =
     (case process_cqe abi c co u of
        None \<Rightarrow> None
      | Some (co, u) \<Rightarrow>
          process_cqes abi cs co
            (u\<lparr>ur_kernel := (case kernel_post abi c (ur_kernel u) of Some k \<Rightarrow> k | None \<Rightarrow> ur_kernel u)\<rparr>))"

text \<open>
  \<^verbatim>\<open>submit\<close>, the loops that push an entry (\<^verbatim>\<open>push_cancel\<close>, \<^verbatim>\<open>arm_wakeup_read\<close>) and \<^verbatim>\<open>dispatch_completions\<close> call
  each other: a full queue is flushed by \<open>submit\<close>, a flush that finds the completion queue backed up
  dispatches it, and dispatching pushes cancellations.  The functions below take the flush they call
  as their argument \<open>sub\<close>; \<open>submit_n\<close> ties the knot.  Every flush takes an event from the script, so the
  script's length bounds the number of rounds (\<open>submit_fuel\<close>).
\<close>

type_synonym ('w, 'd) ring_call = "('w, 'd) uring \<Rightarrow> (unit io_result \<times> ('w, 'd) uring) outcome"

definition has_room :: "('w, 'd) uring \<Rightarrow> bool" where
  "has_room u \<longleftrightarrow> length (ur_sq u) < ur_sq_capacity u"

primrec push_loop :: "nat \<Rightarrow> ('w, 'd) ring_call \<Rightarrow> sqe \<Rightarrow> ('w, 'd) ring_call" where
  "push_loop 0 sub e u = (if has_room u then Done (Inr (), u\<lparr>ur_sq := ur_sq u @ [e]\<rparr>) else Blocked)"
| "push_loop (Suc n) sub e u =
     (if has_room u then Done (Inr (), u\<lparr>ur_sq := ur_sq u @ [e]\<rparr>)
      else otry (sub u) (\<lambda>_ u. push_loop n sub e u))"

definition push_with :: "('w, 'd) ring_call \<Rightarrow> sqe \<Rightarrow> ('w, 'd) ring_call" where
  "push_with sub e u = push_loop (length (ur_script u)) sub e u"

definition push_cancel_with :: "('w, 'd) ring_call \<Rightarrow> op_key \<Rightarrow> ('w, 'd) ring_call" where
  "push_cancel_with sub k = push_with sub (CancelSqe k)"

definition arm_wakeup_read_with :: "('w, 'd) ring_call \<Rightarrow> ('w, 'd) ring_call" where
  "arm_wakeup_read_with sub u =
     otry (push_with sub WakeReadSqe u) (\<lambda>_ u. Done (Inr (), u\<lparr>ur_wakeup_armed := True\<rparr>))"

primrec cancel_all :: "('w, 'd) ring_call \<Rightarrow> op_key list \<Rightarrow> ('w, 'd) ring_call" where
  "cancel_all sub [] u = Done (Inr (), u)"
| "cancel_all sub (k # ks) u = otry (push_cancel_with sub k u) (\<lambda>_ u. cancel_all sub ks u)"

definition mark_key :: "op_key \<Rightarrow> ('w, 'd) uring \<Rightarrow> ('w, 'd) uring" where
  "mark_key k u = u\<lparr>ur_ops := op_get_mut (ur_ops u) k mark_cancel_in_flight\<rparr>"

primrec retry_all :: "('w, 'd) ring_call \<Rightarrow> op_key list \<Rightarrow> ('w, 'd) ring_call" where
  "retry_all sub [] u = Done (Inr (), u)"
| "retry_all sub (k # ks) u =
     obind (push_cancel_with sub k u) (\<lambda>(r, u). retry_all sub ks (if isl r then u else mark_key k u))"

definition retry_keys :: "(op_key \<times> ('w, 'd) uring_state) list \<Rightarrow> op_key list" where
  "retry_keys pairs = map fst (filter (needs_cancel_push \<circ> snd) pairs)"

definition collected_none :: "('w, 'd) collected" where
  "collected_none = \<lparr>co_deferred = [], co_cancel = [], co_rearm = False\<rparr>"

definition dispatch_with ::
  "cqe_abi \<Rightarrow> ('w, 'd) ring_call \<Rightarrow> ('w, 'd) uring \<Rightarrow> (('w, 'd) deferred list io_result \<times> ('w, 'd) uring) outcome" where
  "dispatch_with abi sub u =
     ounwrap (process_cqes abi (ur_cq u) collected_none (u\<lparr>ur_cq := []\<rparr>)) (\<lambda>(co, u).
     otry (cancel_all sub (co_cancel co) u) (\<lambda>_ u.
     ounwrap (op_iter (ur_ops u)) (\<lambda>pairs.
     otry (retry_all sub (retry_keys pairs) u) (\<lambda>_ u.
     otry (if co_rearm co then arm_wakeup_read_with sub u else Done (Inr (), u)) (\<lambda>_ u.
     Done (Inr (co_deferred co), u))))))"

definition run_all :: "('w, 'd) deferred list \<Rightarrow> ('w, 'd) uring \<Rightarrow> ('w, 'd) uring" where
  "run_all ds u = u\<lparr>ur_ran := ur_ran u @ ds\<rparr>"

text \<open>One round of \<^verbatim>\<open>submit\<close>'s loop; \<open>again\<close> is the rest of the loop.\<close>

definition submit_round :: "cqe_abi \<Rightarrow> ('w, 'd) ring_call \<Rightarrow> ('w, 'd) ring_call" where
  "submit_round abi again u =
     obind (enter abi False u) (\<lambda>(err, u).
       case err of
         None \<Rightarrow> Done (Inr (), u)
       | Some e \<Rightarrow>
           if e = EBUSY then otry (dispatch_with abi again u) (\<lambda>ds u. again (run_all ds u))
           else if e \<noteq> EINTR then Done (Inl (RawOs e), u)
           else again u)"

primrec submit_n :: "cqe_abi \<Rightarrow> nat \<Rightarrow> ('w, 'd) ring_call" where
  "submit_n abi 0 u = Blocked"
| "submit_n abi (Suc n) u = submit_round abi (submit_n abi n) u"

definition submit :: "cqe_abi \<Rightarrow> ('w, 'd) ring_call" where
  "submit abi u = submit_n abi (length (ur_script u)) u"

definition push :: "cqe_abi \<Rightarrow> sqe \<Rightarrow> ('w, 'd) ring_call" where
  "push abi = push_with (submit abi)"

definition push_cancel :: "cqe_abi \<Rightarrow> op_key \<Rightarrow> ('w, 'd) ring_call" where
  "push_cancel abi k = push abi (CancelSqe k)"

definition arm_wakeup_read :: "cqe_abi \<Rightarrow> ('w, 'd) ring_call" where
  "arm_wakeup_read abi = arm_wakeup_read_with (submit abi)"

definition dispatch_completions ::
  "cqe_abi \<Rightarrow> ('w, 'd) uring \<Rightarrow> (('w, 'd) deferred list io_result \<times> ('w, 'd) uring) outcome" where
  "dispatch_completions abi = dispatch_with abi (submit abi)"

section \<open>Operations\<close>

text \<open>
  \<^verbatim>\<open>IoUringBackend::new\<close>: \<open>fd\<close> is the result of creating the eventfd and \<open>ring\<close> that of creating the ring, with
  the size of its submission queue; \<open>script\<close> are the later system calls.
\<close>

definition uring_new ::
  "cqe_abi \<Rightarrow> nat \<Rightarrow> unit io_result \<Rightarrow> nat io_result \<Rightarrow> ring_event list \<Rightarrow> ('w, 'd) uring io_result outcome" where
  "uring_new abi capacity fd ring script =
     (case fd of
        Inl e \<Rightarrow> Done (Inl e)
      | Inr _ \<Rightarrow>
          (case ring of
             Inl e \<Rightarrow> Done (Inl e)
           | Inr entries \<Rightarrow>
               (case op_new capacity of
                  Inl e \<Rightarrow> Done (Inl e)
                | Inr ops \<Rightarrow>
                    obind (arm_wakeup_read abi
                        \<lparr>ur_ops = ops, ur_sq = [], ur_sq_capacity = entries, ur_cq = [], ur_kernel = [], ur_script = script,
                         ur_wakeup_armed = False, ur_closed = False, ur_shutting_down = False, ur_pool = False,
                         ur_ran = [], ur_released = []\<rparr>)
                      (\<lambda>(r, u). case r of Inl e \<Rightarrow> Done (Inl e) | Inr _ \<Rightarrow> Done (Inr u)))))"

text \<open>A future of the program: the key of its slot and, until it is taken, its payload.\<close>

record 'd op =
  op_id :: op_key
  op_data :: "'d option"

definition uring_submit_op ::
  "cqe_abi \<Rightarrow> 'd \<Rightarrow> ('w, 'd) uring \<Rightarrow> (((io_error \<times> 'd) + 'd op) \<times> ('w, 'd) uring) outcome" where
  "uring_submit_op abi data u =
     (if ur_shutting_down u then Done (Inl (BrokenPipe, data), u)
      else
        ounwrap (op_insert (ur_ops u) (Oneshot Submitted)) (\<lambda>(r, ops).
        let u = u\<lparr>ur_ops := ops\<rparr> in
        case r of
          Inl e \<Rightarrow> Done (Inl (e, data), u)
        | Inr key \<Rightarrow>
            obind (push abi (OpSqe key False) u) (\<lambda>(r, u).
              case r of
                Inl e \<Rightarrow> ounwrap (op_remove (ur_ops u) key) (\<lambda>(_, ops). Done (Inl (e, data), u\<lparr>ur_ops := ops\<rparr>))
              | Inr _ \<Rightarrow> Done (Inr \<lparr>op_id = key, op_data = Some data\<rparr>, u))))"

definition submit_multi_op ::
  "cqe_abi \<Rightarrow> cleanup \<Rightarrow> nat option \<Rightarrow> ('w, 'd) uring \<Rightarrow> (op_key io_result \<times> ('w, 'd) uring) outcome" where
  "submit_multi_op abi cl limit u =
     (if ur_shutting_down u then Done (Inl BrokenPipe, u)
      else
        ounwrap (op_insert (ur_ops u) (Multishot (Active None [] cl limit))) (\<lambda>(r, ops).
        let u = u\<lparr>ur_ops := ops\<rparr> in
        case r of
          Inl e \<Rightarrow> Done (Inl e, u)
        | Inr key \<Rightarrow>
            obind (push abi (OpSqe key True) u) (\<lambda>(r, u).
              case r of
                Inl e \<Rightarrow> ounwrap (op_remove (ur_ops u) key) (\<lambda>(_, ops). Done (Inl e, u\<lparr>ur_ops := ops\<rparr>))
              | Inr _ \<Rightarrow> Done (Inr key, u))))"

text \<open>\<^verbatim>\<open>remove_op\<close>: the unread completion, if there is one; the payload stays in the future or moves into the slot.\<close>

definition set_state :: "op_key \<Rightarrow> ('w, 'd) uring_state \<Rightarrow> ('w, 'd) uring \<Rightarrow> ('w, 'd) uring" where
  "set_state key st u = u\<lparr>ur_ops := op_get_mut (ur_ops u) key (\<lambda>_. st)\<rparr>"

definition remove_op :: "'d op \<Rightarrow> ('w, 'd) uring \<Rightarrow> (completion option \<times> 'd op \<times> ('w, 'd) uring) option" where
  "remove_op f u =
     (case op_get (ur_ops u) (op_id f) of
        None \<Rightarrow> Some (None, f, u)
      | Some (Multishot _) \<Rightarrow> None
      | Some (Oneshot (Completed c)) \<Rightarrow>
          map_option (\<lambda>(_, ops). (Some c, f, u\<lparr>ur_ops := ops\<rparr>)) (op_remove (ur_ops u) (op_id f))
      | Some (Oneshot (Detached _)) \<Rightarrow> None
      | Some (Oneshot (Canceling (ObserverDetached _) _)) \<Rightarrow> None
      | Some (Oneshot (Canceling _ sqe)) \<Rightarrow>
          (case op_data f of
             None \<Rightarrow> None
           | Some d \<Rightarrow> Some (None, f\<lparr>op_data := None\<rparr>,
               set_state (op_id f) (Oneshot (Canceling (ObserverDetached (Payload d)) sqe)) u))
      | Some (Oneshot _) \<Rightarrow>
          (case op_data f of
             None \<Rightarrow> None
           | Some d \<Rightarrow> Some (None, f\<lparr>op_data := None\<rparr>, set_state (op_id f) (Oneshot (Detached (Payload d))) u)))"

definition push_and_mark :: "cqe_abi \<Rightarrow> op_key \<Rightarrow> ('w, 'd) uring \<Rightarrow> ('w, 'd) uring outcome" where
  "push_and_mark abi key u = obind (push_cancel abi key u) (\<lambda>(r, u). Done (if isl r then u else mark_key key u))"

definition cancel_op :: "cqe_abi \<Rightarrow> op_key \<Rightarrow> ('w, 'd) uring \<Rightarrow> ('w, 'd) uring outcome" where
  "cancel_op abi key u =
     (case op_get (ur_ops u) key of
        None \<Rightarrow> Done u
      | Some (Oneshot o1) \<Rightarrow>
          (case request_cancel o1 of (req, o2) \<Rightarrow>
             let u = set_state key (Oneshot o2) u in
             if req then push_and_mark abi key u else Done u)
      | Some (Multishot (Active _ _ _ _)) \<Rightarrow> push_and_mark abi key u
      | Some (Multishot (Stopping _ _ _)) \<Rightarrow> push_and_mark abi key u
      | Some (Multishot _) \<Rightarrow> Done u)"

definition cancel_stream ::
  "cqe_abi \<Rightarrow> op_key \<Rightarrow> 'd \<Rightarrow> completion list \<Rightarrow> cleanup \<Rightarrow> ('w, 'd) uring \<Rightarrow> ('w, 'd) uring outcome" where
  "cancel_stream abi key data pending cl u =
     (let u = (set_state key (Multishot (Cancelled [] cl (Some data))) u)\<lparr>ur_released := ur_released u @ discard_all abi cl pending\<rparr> in
      obind (push_cancel abi key u) (\<lambda>(_, u). Done u))"

definition remove_multi_op :: "cqe_abi \<Rightarrow> op_key \<Rightarrow> 'd \<Rightarrow> ('w, 'd) uring \<Rightarrow> ('w, 'd) uring outcome" where
  "remove_multi_op abi key data u =
     (case op_get (ur_ops u) key of
        None \<Rightarrow> Done u
      | Some (Oneshot _) \<Rightarrow> Panic
      | Some (Multishot (Active _ pending cl _)) \<Rightarrow> cancel_stream abi key data pending cl u
      | Some (Multishot (Stopping _ pending cl)) \<Rightarrow> cancel_stream abi key data pending cl u
      | Some (Multishot (Finished pending cl)) \<Rightarrow>
          ounwrap (op_remove (ur_ops u) key) (\<lambda>(_, ops).
            Done (u\<lparr>ur_ops := ops, ur_released := ur_released u @ discard_all abi cl pending\<rparr>))
      | Some (Multishot (Cancelled pending cl retained)) \<Rightarrow>
          Done ((set_state key (Multishot (Cancelled [] cl (if retained = None then Some data else retained))) u)
                  \<lparr>ur_released := ur_released u @ discard_all abi cl pending\<rparr>))"

definition poll_op :: "'w \<Rightarrow> 'd op \<Rightarrow> ('w, 'd) uring \<Rightarrow> (completion poll \<times> ('w, 'd) uring) option" where
  "poll_op w f u =
     (case op_get (ur_ops u) (op_id f) of
        None \<Rightarrow> None
      | Some (Oneshot Submitted) \<Rightarrow> Some (Pending, set_state (op_id f) (Oneshot (Waiting w)) u)
      | Some (Oneshot (Waiting _)) \<Rightarrow> Some (Pending, set_state (op_id f) (Oneshot (Waiting w)) u)
      | Some (Oneshot (Canceling ObserverPending sqe)) \<Rightarrow>
          Some (Pending, set_state (op_id f) (Oneshot (Canceling (ObserverWaiting w) sqe)) u)
      | Some (Oneshot (Canceling (ObserverWaiting _) sqe)) \<Rightarrow>
          Some (Pending, set_state (op_id f) (Oneshot (Canceling (ObserverWaiting w) sqe)) u)
      | Some (Oneshot (Completed c)) \<Rightarrow>
          map_option (\<lambda>(_, ops). (Ready c, u\<lparr>ur_ops := ops\<rparr>)) (op_remove (ur_ops u) (op_id f))
      | Some _ \<Rightarrow> None)"

definition poll_multi_op ::
  "'w \<Rightarrow> op_key \<Rightarrow> ('w, 'd) uring \<Rightarrow> (completion option poll \<times> ('w, 'd) uring) option" where
  "poll_multi_op w key u =
     (case op_get (ur_ops u) key of
        None \<Rightarrow> None
      | Some (Oneshot _) \<Rightarrow> None
      | Some (Multishot (Active wk (c # cs) cl limit)) \<Rightarrow>
          Some (Ready (Some c), set_state key (Multishot (Active wk cs cl limit)) u)
      | Some (Multishot (Active _ [] cl limit)) \<Rightarrow>
          Some (Pending, set_state key (Multishot (Active (Some w) [] cl limit)) u)
      | Some (Multishot (Stopping wk (c # cs) cl)) \<Rightarrow> Some (Ready (Some c), set_state key (Multishot (Stopping wk cs cl)) u)
      | Some (Multishot (Stopping _ [] cl)) \<Rightarrow> Some (Pending, set_state key (Multishot (Stopping (Some w) [] cl)) u)
      | Some (Multishot (Finished (c # cs) cl)) \<Rightarrow> Some (Ready (Some c), set_state key (Multishot (Finished cs cl)) u)
      | Some (Multishot (Finished [] cl)) \<Rightarrow>
          map_option (\<lambda>(_, ops). (Ready None, u\<lparr>ur_ops := ops\<rparr>)) (op_remove (ur_ops u) key)
      | Some (Multishot (Cancelled _ _ _)) \<Rightarrow> Some (Ready None, u))"

section \<open>Waiting\<close>

definition wait :: "cqe_abi \<Rightarrow> ('w, 'd) ring_call" where
  "wait abi u = obind (enter abi False u) (\<lambda>(err, u). Done (case err of None \<Rightarrow> Inr () | Some e \<Rightarrow> Inl (RawOs e), u))"

primrec wait_timed_n :: "cqe_abi \<Rightarrow> nat \<Rightarrow> ('w, 'd) ring_call" where
  "wait_timed_n abi 0 u = Blocked"
| "wait_timed_n abi (Suc n) u =
     obind (enter abi True u) (\<lambda>(err, u).
       case err of
         None \<Rightarrow> Done (Inr (), u)
       | Some e \<Rightarrow>
           if e = ETIME then Done (Inr (), u)
           else if e = EINTR then wait_timed_n abi n u
           else Done (Inl (RawOs e), u))"

definition wait_with_duration :: "cqe_abi \<Rightarrow> ('w, 'd) ring_call" where
  "wait_with_duration abi u = wait_timed_n abi (length (ur_script u)) u"

text \<open>\<^verbatim>\<open>Driver::turn\<close>: wait, then apply the completions and run the deferred actions.\<close>

definition turn :: "cqe_abi \<Rightarrow> bool \<Rightarrow> ('w, 'd) ring_call" where
  "turn abi timed u =
     otry ((if timed then wait_with_duration abi else wait abi) u) (\<lambda>_ u.
     otry (dispatch_completions abi u) (\<lambda>ds u. Done (Inr (), run_all ds u)))"

section \<open>Shutdown\<close>

definition shutdown_state :: "cqe_abi \<Rightarrow> ('w, 'd) uring_state \<Rightarrow> ('w, 'd) uring_state \<times> released list" where
  "shutdown_state abi st =
     (case st of
        Oneshot (Completed c) \<Rightarrow> (st, [])
      | Multishot (Finished pending cl) \<Rightarrow> (Oneshot (Completed (completion_new (Inr 0))), discard_all abi cl pending)
      | Oneshot (Detached p) \<Rightarrow> (st, [])
      | Oneshot (Canceling ob sqe) \<Rightarrow>
          (Oneshot (Canceling (case ob of ObserverDetached p \<Rightarrow> ObserverDetached p | _ \<Rightarrow> ObserverDetached Placeholder) sqe), [])
      | Multishot (Cancelled pending cl p) \<Rightarrow> (Multishot (Cancelled [] cl p), discard_all abi cl pending)
      | Multishot (Active _ pending cl _) \<Rightarrow> (Multishot (Cancelled [] cl None), discard_all abi cl pending)
      | Multishot (Stopping _ pending cl) \<Rightarrow> (Multishot (Cancelled [] cl None), discard_all abi cl pending)
      | Oneshot _ \<Rightarrow> (Oneshot (Detached Placeholder), []))"

primrec shutdown_states :: "cqe_abi \<Rightarrow> (op_key \<times> ('w, 'd) uring_state) list \<Rightarrow> ('w, 'd) uring \<Rightarrow> ('w, 'd) uring" where
  "shutdown_states abi [] u = u"
| "shutdown_states abi (p # ps) u =
     (case shutdown_state abi (snd p) of (st, rel) \<Rightarrow>
        shutdown_states abi ps ((set_state (fst p) st u)\<lparr>ur_released := ur_released u @ rel\<rparr>))"

definition awaits_cqe :: "('w, 'd) uring_state \<Rightarrow> bool" where
  "awaits_cqe st =
     (case st of
        Oneshot (Detached _) \<Rightarrow> True
      | Oneshot (Canceling _ _) \<Rightarrow> True
      | Multishot (Cancelled _ _ _) \<Rightarrow> True
      | _ \<Rightarrow> False)"

primrec flush_n :: "cqe_abi \<Rightarrow> nat \<Rightarrow> ('w, 'd) ring_call" where
  "flush_n abi 0 u = (if ur_sq u = [] then Done (Inr (), u) else Blocked)"
| "flush_n abi (Suc n) u =
     (if ur_sq u = [] then Done (Inr (), u) else otry (submit abi u) (\<lambda>_ u. flush_n abi n u))"

primrec cancel_marked :: "cqe_abi \<Rightarrow> op_key list \<Rightarrow> ('w, 'd) ring_call" where
  "cancel_marked abi [] u = Done (Inr (), u)"
| "cancel_marked abi (k # ks) u = otry (push_cancel abi k u) (\<lambda>_ u. cancel_marked abi ks (mark_key k u))"

text \<open>Cancel the read on the eventfd and wait until it is finished.\<close>

definition wait_dispatch :: "cqe_abi \<Rightarrow> ('w, 'd) ring_call" where
  "wait_dispatch abi u = otry (wait abi u) (\<lambda>_ u. otry (dispatch_completions abi u) (\<lambda>ds u. Done (Inr (), run_all ds u)))"

primrec disarm_n :: "cqe_abi \<Rightarrow> nat \<Rightarrow> ('w, 'd) ring_call" where
  "disarm_n abi 0 u = (if ur_wakeup_armed u then Blocked else Done (Inr (), u))"
| "disarm_n abi (Suc n) u =
     (if ur_wakeup_armed u then otry (wait_dispatch abi u) (\<lambda>_ u. disarm_n abi n u) else Done (Inr (), u))"

definition cancel_wakeup_read :: "cqe_abi \<Rightarrow> ('w, 'd) ring_call" where
  "cancel_wakeup_read abi u =
     (if ur_wakeup_armed u then
        otry (push_with (wait abi) WakeCancelSqe u) (\<lambda>_ u.
        otry (submit abi u) (\<lambda>_ u.
        disarm_n abi (length (ur_script u)) u))
      else Done (Inr (), u))"

primrec drain_n :: "cqe_abi \<Rightarrow> nat \<Rightarrow> ('w, 'd) ring_call" where
  "drain_n abi 0 u = (if op_is_empty (ur_ops u) then Done (Inr (), u) else Blocked)"
| "drain_n abi (Suc n) u =
     (if op_is_empty (ur_ops u) then Done (Inr (), u)
      else
        ounwrap (op_iter (ur_ops u)) (\<lambda>pairs.
          case pairs of
            [] \<Rightarrow> Done (Inr (), u)
          | (key, st) # _ \<Rightarrow>
              if awaits_cqe st then otry (wait_dispatch abi u) (\<lambda>_ u. drain_n abi n u)
              else ounwrap (op_remove (ur_ops u) key) (\<lambda>(_, ops). drain_n abi n (u\<lparr>ur_ops := ops\<rparr>))))"

definition shutdown_inner :: "cqe_abi \<Rightarrow> ('w, 'd) ring_call" where
  "shutdown_inner abi u =
     otry (flush_n abi (length (ur_script u)) u) (\<lambda>_ u.
     ounwrap (op_iter (ur_ops u)) (\<lambda>pairs.
     let u = shutdown_states abi pairs u in
     ounwrap (op_iter (ur_ops u)) (\<lambda>pairs.
     otry (cancel_marked abi (map fst (filter (awaits_cqe \<circ> snd) pairs)) u) (\<lambda>_ u.
     otry (cancel_wakeup_read abi u) (\<lambda>_ u.
     otry (drain_n abi (length (ur_script u) + ot_active_len (ur_ops u)) u) (\<lambda>_ u.
     Done (Inr (), u\<lparr>ur_pool := False\<rparr>)))))))"

definition shutdown :: "cqe_abi \<Rightarrow> ('w, 'd) uring \<Rightarrow> ('w, 'd) uring outcome" where
  "shutdown abi u =
     (if ur_shutting_down u then Done u
      else obind (shutdown_inner abi (u\<lparr>ur_shutting_down := True, ur_closed := True\<rparr>)) (\<lambda>(_, u). Done u))"

section \<open>Reasoning about calls\<close>

text \<open>\<open>yields m Q\<close>: \<open>m\<close> does not panic, and if it returns, its value satisfies \<open>Q\<close>.\<close>

definition yields :: "'a outcome \<Rightarrow> ('a \<Rightarrow> bool) \<Rightarrow> bool" where
  "yields m Q = (case m of Panic \<Rightarrow> False | Blocked \<Rightarrow> True | Done a \<Rightarrow> Q a)"

lemma yields_simps [simp]: "\<not> yields Panic Q" "yields Blocked Q" "yields (Done a) Q = Q a"
  by (simp_all add: yields_def)

lemma yields_mono: "yields m Q \<Longrightarrow> (\<And>a. m = Done a \<Longrightarrow> Q a \<Longrightarrow> R a) \<Longrightarrow> yields m R"
  by (cases m) auto

lemma yieldsD: "yields m Q \<Longrightarrow> m \<noteq> Panic" "yields m Q \<Longrightarrow> m = Done a \<Longrightarrow> Q a"
  by auto

lemma yields_obind: "yields m Q \<Longrightarrow> (\<And>a. m = Done a \<Longrightarrow> Q a \<Longrightarrow> yields (f a) R) \<Longrightarrow> yields (obind m f) R"
  by (cases m) (auto simp: obind_def)

lemma yields_otry:
  assumes "yields m (\<lambda>(r, s). case r of Inl e \<Rightarrow> E e s | Inr a \<Rightarrow> Q a s)"
    and "\<And>e s. E e s \<Longrightarrow> R (Inl e, s)" and "\<And>a s. m = Done (Inr a, s) \<Longrightarrow> Q a s \<Longrightarrow> yields (f a s) R"
  shows "yields (otry m f) R"
  using assms unfolding otry_def by (cases m) (auto simp: obind_def split: sum.splits)

lemma yields_ounwrap: "(\<exists>a. m = Some a \<and> yields (f a) R) \<Longrightarrow> yields (ounwrap m f) R"
  by (auto simp: ounwrap_def)

lemma enter_returns: "enter abi timed u \<noteq> Panic"
  by (auto simp: enter_def Let_def split: list.splits ring_event.splits)

section \<open>What the ring's functions keep\<close>

text \<open>
  A property \<open>P ds u\<close> of the backend, where \<open>ds\<close> are the deferred actions that have been collected and
  not yet run.  If the single steps keep it, then so do the loops built from them.  \<open>err\<close> says
  whether a system call may fail with anything but a retry; actions that were collected before
  such a failure are lost.
\<close>

definition retried :: "int option \<Rightarrow> bool" where
  "retried err \<longleftrightarrow> err = None \<or> err = Some EBUSY \<or> err = Some EINTR"

definition is_control :: "sqe \<Rightarrow> bool" where
  "is_control e = (case e of OpSqe _ _ \<Rightarrow> False | _ \<Rightarrow> True)"

locale ring_property =
  fixes abi :: cqe_abi
    and P :: "('w, 'd) deferred list \<Rightarrow> ('w, 'd) uring \<Rightarrow> bool"
    and err :: bool
  assumes enter_keeps: "P ds u \<Longrightarrow> enter abi timed u = Done (r, u') \<Longrightarrow> P ds u' \<and> (\<not> retried r \<longrightarrow> err \<or> timed \<and> r = Some ETIME)"
    and push_keeps: "P ds u \<Longrightarrow> is_control e \<Longrightarrow> has_room u \<Longrightarrow> P ds (u\<lparr>ur_sq := ur_sq u @ [e]\<rparr>)"
    and mark_keeps: "P ds u \<Longrightarrow> P ds (mark_key k u)"
    and arm_keeps: "P ds u \<Longrightarrow> P ds (u\<lparr>ur_wakeup_armed := True\<rparr>)"
    and iter_total: "P ds u \<Longrightarrow> op_iter (ur_ops u) \<noteq> None"
    and run_keeps: "P (ds @ ds') u \<Longrightarrow> P ds (run_all ds' u)"
    and lose_keeps: "err \<Longrightarrow> P (ds @ ds') u \<Longrightarrow> P ds u"
    and process_keeps: "P ds u \<Longrightarrow> \<exists>co u'. process_cqes abi (ur_cq u) collected_none (u\<lparr>ur_cq := []\<rparr>) = Some (co, u')
          \<and> P (ds @ co_deferred co) u'"
begin

definition keeps :: "('w, 'd) ring_call \<Rightarrow> bool" where
  "keeps call \<longleftrightarrow> (\<forall>ds u. P ds u \<longrightarrow> yields (call u) (\<lambda>(r, u'). P ds u' \<and> (isl r \<longrightarrow> err)))"

lemma keepsD: "keeps call \<Longrightarrow> P ds u \<Longrightarrow> yields (call u) (\<lambda>(r, u'). P ds u' \<and> (isl r \<longrightarrow> err))"
  by (simp add: keeps_def)

lemma keeps_try:
  assumes "keeps call" "P ds u" and "\<And>a u'. call u = Done (Inr a, u') \<Longrightarrow> P ds u' \<Longrightarrow> yields (f a u') R"
    and "\<And>e u'. err \<Longrightarrow> P ds u' \<Longrightarrow> R (Inl e, u')"
  shows "yields (otry (call u) f) R"
  by (rule yields_otry [where E = "\<lambda>_ u'. err \<and> P ds u'" and Q = "\<lambda>_ u'. P ds u'"])
     (use keepsD [OF assms(1,2)] assms(3,4) in \<open>auto elim!: yields_mono split: sum.splits\<close>)

lemma push_with_keeps:
  assumes sub: "keeps sub" and "is_control e"
  shows "keeps (push_with sub e)"
proof -
  have "yields (push_loop n sub e u) (\<lambda>(r, u'). P ds u' \<and> (isl r \<longrightarrow> err))" if "P ds u" for n ds u
    using that
  proof (induction n arbitrary: u)
    case 0
    then show ?case using push_keeps assms(2) by simp
  next
    case (Suc n)
    show ?case
    proof (cases "has_room u")
      case True
      then show ?thesis using push_keeps [OF Suc.prems assms(2)] by simp
    next
      case False
      then show ?thesis using Suc by (auto intro!: keeps_try [OF sub Suc.prems])
    qed
  qed
  then show ?thesis by (simp add: keeps_def push_with_def)
qed

lemma push_cancel_with_keeps: "keeps sub \<Longrightarrow> keeps (push_cancel_with sub k)"
  unfolding push_cancel_with_def by (rule push_with_keeps) (simp_all add: is_control_def)

lemma arm_with_keeps:
  assumes "keeps sub"
  shows "keeps (arm_wakeup_read_with sub)"
  unfolding keeps_def arm_wakeup_read_with_def
  by (auto intro!: keeps_try [OF push_with_keeps [OF assms]] arm_keeps simp: is_control_def)

lemma cancel_all_keeps:
  assumes "keeps sub"
  shows "keeps (cancel_all sub ks)"
proof (induction ks)
  case Nil
  then show ?case by (simp add: keeps_def)
next
  case (Cons k ks)
  have "yields (cancel_all sub (k # ks) u) (\<lambda>(r, u'). P ds u' \<and> (isl r \<longrightarrow> err))" if "P ds u" for ds u
    unfolding cancel_all.simps
    by (rule keeps_try [OF push_cancel_with_keeps [OF assms] that]) (auto intro: keepsD [OF Cons.IH])
  then show ?case by (simp add: keeps_def)
qed

lemma retry_all_keeps:
  assumes "keeps sub"
  shows "keeps (retry_all sub ks)"
proof (induction ks)
  case Nil
  then show ?case by (simp add: keeps_def)
next
  case (Cons k ks)
  have "yields (retry_all sub (k # ks) u) (\<lambda>(r, u'). P ds u' \<and> (isl r \<longrightarrow> err))" if "P ds u" for ds u
    unfolding retry_all.simps
    by (rule yields_obind [OF keepsD [OF push_cancel_with_keeps [OF assms] that]])
       (auto intro!: keepsD [OF Cons.IH] mark_keeps)
  then show ?case by (simp add: keeps_def)
qed

lemma dispatch_with_yields:
  assumes sub: "keeps sub" and "P ds u"
  shows "yields (dispatch_with abi sub u)
           (\<lambda>(r, u'). case r of Inl _ \<Rightarrow> err \<and> P ds u' | Inr ds' \<Rightarrow> P (ds @ ds') u')"
proof -
  obtain co u1 where p: "process_cqes abi (ur_cq u) collected_none (u\<lparr>ur_cq := []\<rparr>) = Some (co, u1)"
    "P (ds @ co_deferred co) u1" using process_keeps [OF assms(2)] by blast
  have last: "keeps (\<lambda>u. if co_rearm co then arm_wakeup_read_with sub u else Done (Inr (), u))"
    using arm_with_keeps [OF sub] by (simp add: keeps_def)
  show ?thesis
    unfolding dispatch_with_def p(1) ounwrap_def option.case prod.case
  proof (rule keeps_try [OF cancel_all_keeps [OF sub] p(2)], goal_cases)
    case (1 a u2)
    then obtain pairs where pairs: "op_iter (ur_ops u2) = Some pairs" using iter_total by blast
    show ?case unfolding pairs option.case
    proof (rule keeps_try [OF retry_all_keeps [OF sub] 1(2)], goal_cases)
      case (1 a u3)
      show ?case
        by (rule keeps_try [OF last 1(2)]) (auto dest: lose_keeps)
    qed (auto dest: lose_keeps)
  qed (auto dest: lose_keeps)
qed

lemma enter_yields: "P ds u \<Longrightarrow> yields (enter abi timed u) (\<lambda>(r, u'). P ds u' \<and> (\<not> retried r \<longrightarrow> err \<or> timed \<and> r = Some ETIME))"
  using enter_keeps [of ds u timed] enter_returns [of abi timed u] by (cases "enter abi timed u") auto

lemma submit_round_keeps:
  assumes "keeps again"
  shows "keeps (submit_round abi again)"
proof -
  have "yields (submit_round abi again u) (\<lambda>(r, u'). P ds u' \<and> (isl r \<longrightarrow> err))" if "P ds u" for ds u
    unfolding submit_round_def
  proof (rule yields_obind [OF enter_yields [OF that]], clarify)
    fix r u1
    assume e: "P ds u1" "\<not> retried r \<longrightarrow> err \<or> False \<and> r = Some ETIME"
    have "yields (otry (dispatch_with abi again u1) (\<lambda>ds u. again (run_all ds u))) (\<lambda>(r, u'). P ds u' \<and> (isl r \<longrightarrow> err))"
      by (rule yields_otry [OF dispatch_with_yields [OF assms e(1)]])
         (auto intro!: keepsD [OF assms] run_keeps)
    then show "yields (case r of None \<Rightarrow> Done (Inr (), u1)
         | Some e \<Rightarrow> if e = EBUSY then otry (dispatch_with abi again u1) (\<lambda>ds u. again (run_all ds u))
           else if e \<noteq> EINTR then Done (Inl (RawOs e), u1) else again u1) (\<lambda>(r, u'). P ds u' \<and> (isl r \<longrightarrow> err))"
      using e keepsD [OF assms e(1)] by (auto simp: retried_def split: option.splits)
  qed
  then show ?thesis by (simp add: keeps_def)
qed

lemma submit_n_keeps: "keeps (submit_n abi n)"
proof (induction n)
  case 0
  then show ?case by (simp add: keeps_def)
next
  case (Suc n)
  then show ?case using submit_round_keeps [OF Suc] by (simp add: keeps_def)
qed

lemma submit_keeps: "keeps (submit abi)"
  unfolding keeps_def submit_def using keepsD [OF submit_n_keeps] by blast

text \<open>Pushing any entry: the property holds until the entry is added.\<close>

lemma push_yields:
  assumes "P ds u"
  shows "yields (push abi e u) (\<lambda>(r, u'). (isl r \<longrightarrow> P ds u' \<and> err)
           \<and> (\<not> isl r \<longrightarrow> (\<exists>v. P ds v \<and> has_room v \<and> u' = v\<lparr>ur_sq := ur_sq v @ [e]\<rparr>)))"
proof -
  have "yields (push_loop n (submit abi) e u) (\<lambda>(r, u'). (isl r \<longrightarrow> P ds u' \<and> err)
           \<and> (\<not> isl r \<longrightarrow> (\<exists>v. P ds v \<and> has_room v \<and> u' = v\<lparr>ur_sq := ur_sq v @ [e]\<rparr>)))" if "P ds u" for n u
    using that
  proof (induction n arbitrary: u)
    case 0
    then show ?case by auto
  next
    case (Suc n)
    then show ?case by (cases "has_room u") (auto intro!: keeps_try [OF submit_keeps Suc.prems])
  qed
  then show ?thesis using assms by (simp add: push_def push_with_def)
qed

lemma push_control_keeps: "is_control e \<Longrightarrow> keeps (push abi e)"
  unfolding push_def by (rule push_with_keeps [OF submit_keeps])

lemma push_cancel_keeps: "keeps (push_cancel abi k)"
  unfolding push_cancel_def by (rule push_control_keeps) (simp add: is_control_def)

lemma dispatch_keeps:
  "P ds u \<Longrightarrow> yields (dispatch_completions abi u)
     (\<lambda>(r, u'). case r of Inl _ \<Rightarrow> err \<and> P ds u' | Inr ds' \<Rightarrow> P (ds @ ds') u')"
  unfolding dispatch_completions_def by (rule dispatch_with_yields [OF submit_keeps])

end

text \<open>One completion on the table of slots, and what all completions keep.\<close>

lemma process_op_cases:
  fixes u :: "('w, 'd) uring"
  assumes op: "op_inv (ur_ops u)"
  obtains (absent) "op_get (ur_ops u) k = None" "process_op abi c k co u = Some (co, u)"
  | (present) st rm wk cl rc st' rel co' and u' :: "('w, 'd) uring" where "op_get (ur_ops u) k = Some st"
      "apply_state abi c st = (rm, wk, cl, rc, st', rel)" "process_op abi c k co u = Some (co', u')" "op_inv (ur_ops u')"
      "op_get (ur_ops u') = (op_get (ur_ops u))(k := if rm then None else Some st')"
      "co_deferred co' = co_deferred co @ option_list (map_option WakeTask wk) @ option_list cl"
proof (cases "op_get (ur_ops u) k")
  case None
  then show thesis by (intro absent) (simp_all add: process_op_def)
next
  case (Some st)
  obtain rm wk cl rc st' rel where ap: "apply_state abi c st = (rm, wk, cl, rc, st', rel)" by (cases "apply_state abi c st") auto
  let ?t = "op_get_mut (ur_ops u) k (\<lambda>_. st')"
  have t: "op_inv ?t" "op_get ?t = (op_get (ur_ops u))(k \<mapsto> st')" using ops.upd_inv [OF op] ops.upd_some [OF op Some] by auto
  obtain t' where t': "op_remove ?t k = Some (op_get ?t k, t')" "op_inv t'" "op_get t' = (op_get ?t)(k := None)"
    by (rule ops.remE [OF t(1)])
  obtain co' u' where p: "process_op abi c k co u = Some (co', u')" "ur_ops u' = (if rm then t' else ?t)"
    "co_deferred co' = co_deferred co @ option_list (map_option WakeTask wk) @ option_list cl"
    using Some ap t'(1) by (cases rm) (auto simp: process_op_def Let_def)
  show thesis by (rule present [OF Some ap p(1) _ _ p(3)]) (use p(2) t t' in auto)
qed

lemma process_cqes_keep:
  assumes op: "\<And>c k co u. Q co u \<Longrightarrow> \<exists>co' u'. process_op abi c k co u = Some (co', u') \<and> Q co' u'"
    and wake: "\<And>b co u. Q co u \<Longrightarrow> Q (co\<lparr>co_rearm := b\<rparr>) (u\<lparr>ur_wakeup_armed := False\<rparr>)"
    and kernel: "\<And>kn co u. Q co u \<Longrightarrow> Q co (u\<lparr>ur_kernel := kn\<rparr>)"
  shows "Q co u \<Longrightarrow> \<exists>co' u'. process_cqes abi cs co u = Some (co', u') \<and> Q co' u'"
proof (induction cs arbitrary: co u)
  case (Cons c cs)
  have "\<exists>co' u'. process_cqe abi c co u = Some (co', u') \<and> Q co' u'"
    using op [OF Cons.prems] wake [OF Cons.prems] Cons.prems
    by (cases "decode (cq_user c)") (auto simp: process_cqe_def split: completion_key.splits)
  then obtain co1 u1 where 1: "process_cqe abi c co u = Some (co1, u1)" "Q co1 u1" by blast
  then show ?case using Cons.IH kernel by simp
qed simp

section \<open>The loops end\<close>

text \<open>Every call returns with a script that is no longer, and a flush that returns has used up an event.\<close>

lemma process_op_fields:
  "process_op abi c key co u = Some (co', u') \<Longrightarrow>
     ur_script u' = ur_script u \<and> ur_sq u' = ur_sq u \<and> ur_cq u' = ur_cq u \<and> ur_kernel u' = ur_kernel u \<and>
     ur_sq_capacity u' = ur_sq_capacity u \<and> ur_shutting_down u' = ur_shutting_down u \<and> ur_ran u' = ur_ran u"
  by (auto simp: process_op_def Let_def split: option.splits prod.splits if_splits)

lemma process_cqe_fields:
  "process_cqe abi c co u = Some (co', u') \<Longrightarrow>
     ur_script u' = ur_script u \<and> ur_sq u' = ur_sq u \<and> ur_cq u' = ur_cq u \<and> ur_kernel u' = ur_kernel u \<and>
     ur_sq_capacity u' = ur_sq_capacity u \<and> ur_shutting_down u' = ur_shutting_down u \<and> ur_ran u' = ur_ran u"
  by (auto simp: process_cqe_def dest: process_op_fields split: option.splits completion_key.splits)

lemma process_cqes_fields:
  "process_cqes abi cs co u = Some (co', u') \<Longrightarrow>
     ur_script u' = ur_script u \<and> ur_sq u' = ur_sq u \<and> ur_cq u' = ur_cq u \<and>
     ur_sq_capacity u' = ur_sq_capacity u \<and> ur_shutting_down u' = ur_shutting_down u \<and> ur_ran u' = ur_ran u"
proof (induction cs arbitrary: co u)
  case (Cons c cs)
  obtain co1 u1 where c: "process_cqe abi c co u = Some (co1, u1)" using Cons.prems by (auto split: option.splits)
  show ?case using Cons.IH [of co1] Cons.prems c process_cqe_fields [OF c] by fastforce
qed simp

text \<open>No step lengthens the script.\<close>

definition shrinks :: "('w, 'd) ring_call \<Rightarrow> bool" where
  "shrinks call \<longleftrightarrow> (\<forall>u r u'. call u = Done (r, u') \<longrightarrow> length (ur_script u') \<le> length (ur_script u))"

lemma enter_shrinks: "enter abi timed u = Done (r, u') \<Longrightarrow> length (ur_script u') < length (ur_script u)"
  by (auto simp: enter_def Let_def split: list.splits ring_event.splits if_splits)

lemma obind_Done: "obind m f = Done b \<longleftrightarrow> (\<exists>a. m = Done a \<and> f a = Done b)"
  by (cases m) (auto simp: obind_def)

lemma otry_Done:
  "otry m f = Done (r, s') \<longleftrightarrow>
     (\<exists>e. m = Done (Inl e, s') \<and> r = Inl e) \<or> (\<exists>a s. m = Done (Inr a, s) \<and> f a s = Done (r, s'))"
  by (cases m) (auto simp: otry_def obind_def split: sum.splits prod.splits)

lemma ounwrap_Done: "ounwrap m f = Done b \<longleftrightarrow> (\<exists>a. m = Some a \<and> f a = Done b)"
  by (cases m) (auto simp: ounwrap_def)

lemmas Done_iffs = obind_Done otry_Done ounwrap_Done

lemma shrinksD: "shrinks call \<Longrightarrow> call u = Done (r, u') \<Longrightarrow> length (ur_script u') \<le> length (ur_script u)"
  by (simp add: shrinks_def)

lemma push_with_shrinks:
  assumes "shrinks sub"
  shows "shrinks (push_with sub e)"
proof -
  have "length (ur_script u') \<le> length (ur_script u)" if "push_loop n sub e u = Done (r, u')" for n u r u'
    using that
  proof (induction n arbitrary: u)
    case (Suc n)
    then show ?case using shrinksD [OF assms] by (auto simp: Done_iffs split: if_splits) (meson le_trans)
  qed (auto split: if_splits)
  then show ?thesis by (simp add: shrinks_def push_with_def)
qed

lemma arm_with_shrinks: "shrinks sub \<Longrightarrow> shrinks (arm_wakeup_read_with sub)"
  using shrinksD [OF push_with_shrinks [of sub WakeReadSqe]]
  by (auto simp: shrinks_def arm_wakeup_read_with_def Done_iffs)

lemma cancel_all_shrinks:
  assumes "shrinks sub"
  shows "shrinks (cancel_all sub ks)"
proof (induction ks)
  case (Cons k ks)
  then show ?case using shrinksD [OF push_with_shrinks [OF assms]]
    by (auto simp: shrinks_def push_cancel_with_def Done_iffs) (meson le_trans)
qed (simp add: shrinks_def)

lemma retry_all_shrinks:
  assumes "shrinks sub"
  shows "shrinks (retry_all sub ks)"
proof (induction ks)
  case (Cons k ks)
  have m: "ur_script (mark_key k u) = ur_script u" for u :: "('a, 'b) uring" by (simp add: mark_key_def)
  show ?case unfolding shrinks_def
  proof (intro allI impI)
    fix u r u' assume "retry_all sub (k # ks) u = Done (r, u')"
    then obtain r1 u1 where 1: "push_with sub (CancelSqe k) u = Done (r1, u1)"
      "retry_all sub ks (if isl r1 then u1 else mark_key k u1) = Done (r, u')"
      by (auto simp: push_cancel_with_def Done_iffs)
    show "length (ur_script u') \<le> length (ur_script u)"
      using shrinksD [OF push_with_shrinks [OF assms] 1(1)] shrinksD [OF Cons.IH 1(2)] m [of u1] by (cases "isl r1") auto
  qed
qed (simp add: shrinks_def)

lemma dispatch_with_shrinks:
  assumes "shrinks sub" "dispatch_with abi sub u = Done (r, u')"
  shows "length (ur_script u') \<le> length (ur_script u)"
proof -
  obtain co u1 where 1: "process_cqes abi (ur_cq u) collected_none (u\<lparr>ur_cq := []\<rparr>) = Some (co, u1)"
    using assms(2) by (auto simp: dispatch_with_def Done_iffs)
  have s1: "ur_script u1 = ur_script u" using process_cqes_fields [OF 1] by simp
  have "length (ur_script u') \<le> length (ur_script u1)"
    using assms(2) 1 shrinksD [OF cancel_all_shrinks [OF assms(1)]] shrinksD [OF retry_all_shrinks [OF assms(1)]]
      shrinksD [OF arm_with_shrinks [OF assms(1)]]
    by (fastforce simp: dispatch_with_def Done_iffs split: if_splits intro: le_trans)
  then show ?thesis using s1 by simp
qed

lemma submit_round_shrinks:
  assumes "shrinks again" "submit_round abi again u = Done (r, u')"
  shows "length (ur_script u') < length (ur_script u)"
proof -
  obtain e u1 where e: "enter abi False u = Done (e, u1)" using assms(2) by (auto simp: submit_round_def Done_iffs)
  have "length (ur_script u') \<le> length (ur_script u1)"
    using assms(2) e shrinksD [OF assms(1)] dispatch_with_shrinks [OF assms(1)]
    by (fastforce simp: submit_round_def obind_def otry_Done run_all_def split: option.splits if_splits intro: le_trans)
  then show ?thesis using enter_shrinks [OF e] by simp
qed

lemma submit_n_shrinks: "shrinks (submit_n abi n)"
proof (induction n)
  case (Suc n)
  then show ?case using submit_round_shrinks [OF Suc] by (fastforce simp: shrinks_def intro: less_imp_le)
qed (simp add: shrinks_def)

text \<open>Two flushes that agree on short scripts give the same calls on short scripts.\<close>

definition agree :: "nat \<Rightarrow> ('w, 'd) ring_call \<Rightarrow> ('w, 'd) ring_call \<Rightarrow> bool" where
  "agree n f g \<longleftrightarrow> (\<forall>u. length (ur_script u) \<le> n \<longrightarrow> f u = g u)"

lemma otry_eq: "m = m' \<Longrightarrow> (\<And>a s. m' = Done (Inr a, s) \<Longrightarrow> f a s = g a s) \<Longrightarrow> otry m f = otry m' g"
  by (cases m') (auto simp: otry_def obind_def split: sum.splits)

lemma obind_eq: "m = m' \<Longrightarrow> (\<And>a. m' = Done a \<Longrightarrow> f a = g a) \<Longrightarrow> obind m f = obind m' g"
  by (cases m') (auto simp: obind_def)

lemma agreeD: "agree n f g \<Longrightarrow> length (ur_script u) \<le> n \<Longrightarrow> f u = g u"
  by (simp add: agree_def)

lemma push_with_agree:
  assumes "agree n f g" "shrinks g"
  shows "agree n (push_with f e) (push_with g e)"
proof -
  have "push_loop l f e u = push_loop l g e u" if "length (ur_script u) \<le> n" for l u
    using that
  proof (induction l arbitrary: u)
    case (Suc l)
    then show ?case using agreeD [OF assms(1) Suc.prems] shrinksD [OF assms(2)]
      by (auto intro!: otry_eq Suc.IH) (meson le_trans)
  qed simp
  then show ?thesis by (simp add: agree_def push_with_def)
qed

lemma cancel_all_agree:
  assumes "agree n f g" "shrinks g"
  shows "agree n (cancel_all f ks) (cancel_all g ks)"
proof (induction ks)
  case (Cons k ks)
  have "cancel_all f (k # ks) u = cancel_all g (k # ks) u" if "length (ur_script u) \<le> n" for u
    unfolding cancel_all.simps push_cancel_with_def
    by (rule otry_eq [OF agreeD [OF push_with_agree [OF assms] that]])
       (use shrinksD [OF push_with_shrinks [OF assms(2)]] that in \<open>fastforce intro: agreeD [OF Cons.IH]\<close>)
  then show ?case by (simp add: agree_def)
qed (simp add: agree_def)

lemma retry_all_agree:
  assumes "agree n f g" "shrinks g"
  shows "agree n (retry_all f ks) (retry_all g ks)"
proof (induction ks)
  case (Cons k ks)
  have "retry_all f (k # ks) u = retry_all g (k # ks) u" if "length (ur_script u) \<le> n" for u
    unfolding retry_all.simps push_cancel_with_def
  proof (rule obind_eq [OF agreeD [OF push_with_agree [OF assms] that]], clarify)
    fix r u1 assume "push_with g (CancelSqe k) u = Done (r, u1)"
    then have "length (ur_script u1) \<le> n" using shrinksD [OF push_with_shrinks [OF assms(2)]] that le_trans by blast
    then show "retry_all f ks (if isl r then u1 else mark_key k u1) = retry_all g ks (if isl r then u1 else mark_key k u1)"
      by (intro agreeD [OF Cons.IH]) (simp add: mark_key_def)
  qed
  then show ?case by (simp add: agree_def)
qed (simp add: agree_def)

lemma dispatch_with_agree:
  assumes "agree n f g" "shrinks g" "length (ur_script u) \<le> n"
  shows "dispatch_with abi f u = dispatch_with abi g u"
proof (cases "process_cqes abi (ur_cq u) collected_none (u\<lparr>ur_cq := []\<rparr>)")
  case None
  then show ?thesis by (simp add: dispatch_with_def ounwrap_def)
next
  case (Some cu)
  obtain co u1 where cu: "cu = (co, u1)" by (cases cu)
  have s1: "length (ur_script u1) \<le> n" using process_cqes_fields Some assms(3) unfolding cu by fastforce
  show ?thesis unfolding dispatch_with_def Some cu ounwrap_def option.case prod.case
  proof (rule otry_eq [OF agreeD [OF cancel_all_agree [OF assms(1,2)] s1]], goal_cases)
    case (1 a u2)
    have s2: "length (ur_script u2) \<le> n" using shrinksD [OF cancel_all_shrinks [OF assms(2)] 1] s1 by simp
    show ?case
    proof (cases "op_iter (ur_ops u2)")
      case (Some pairs)
      have "(if co_rearm co then arm_wakeup_read_with f u3 else Done (Inr (), u3))
          = (if co_rearm co then arm_wakeup_read_with g u3 else Done (Inr (), u3))"
        if "retry_all g (retry_keys pairs) u2 = Done (Inr b, u3)" for b u3
        using shrinksD [OF retry_all_shrinks [OF assms(2)] that] s2 agreeD [OF push_with_agree [OF assms(1,2)], of u3]
        by (simp add: arm_wakeup_read_with_def)
      then show ?thesis unfolding Some option.case
        by (intro otry_eq [OF agreeD [OF retry_all_agree [OF assms(1,2)] s2]]) auto
    qed simp
  qed
qed

lemma submit_round_agree:
  assumes "agree n f g" "shrinks g" "length (ur_script u) \<le> Suc n"
  shows "submit_round abi f u = submit_round abi g u"
  unfolding submit_round_def
proof (rule obind_eq [OF refl], clarify)
  fix r u1 assume e: "enter abi False u = Done (r, u1)"
  have s: "length (ur_script u1) \<le> n" using enter_shrinks [OF e] assms(3) by simp
  have "otry (dispatch_with abi f u1) (\<lambda>ds u. f (run_all ds u)) = otry (dispatch_with abi g u1) (\<lambda>ds u. g (run_all ds u))"
  proof (rule otry_eq [OF dispatch_with_agree [OF assms(1,2) s]])
    fix ds u2 assume "dispatch_with abi g u1 = Done (Inr ds, u2)"
    then have "length (ur_script u2) \<le> n" using dispatch_with_shrinks [OF assms(2)] s le_trans by blast
    then show "f (run_all ds u2) = g (run_all ds u2)" by (intro agreeD [OF assms(1)]) (simp add: run_all_def)
  qed
  then show "(case r of None \<Rightarrow> Done (Inr (), u1)
         | Some e \<Rightarrow> if e = EBUSY then otry (dispatch_with abi f u1) (\<lambda>ds u. f (run_all ds u))
           else if e \<noteq> EINTR then Done (Inl (RawOs e), u1) else f u1)
       = (case r of None \<Rightarrow> Done (Inr (), u1)
         | Some e \<Rightarrow> if e = EBUSY then otry (dispatch_with abi g u1) (\<lambda>ds u. g (run_all ds u))
           else if e \<noteq> EINTR then Done (Inl (RawOs e), u1) else g u1)"
    using agreeD [OF assms(1) s] by (simp split: option.splits)
qed

lemma submit_fuel:
  "length (ur_script u) \<le> n \<Longrightarrow> length (ur_script u) \<le> m \<Longrightarrow> submit_n abi n u = submit_n abi m u"
proof (induction n arbitrary: m u)
  case 0
  then show ?case by (cases m) (auto simp: submit_round_def enter_def obind_def)
next
  case (Suc n)
  show ?case
  proof (cases m)
    case 0
    then show ?thesis using Suc.prems by (auto simp: submit_round_def enter_def obind_def)
  next
    case (Suc m')
    have "agree (min n m') (submit_n abi n) (submit_n abi m' :: ('a, 'b) ring_call)"
      unfolding agree_def using Suc.IH by auto
    moreover have "length (ur_script u) \<le> Suc (min n m')" using Suc.prems Suc by simp
    ultimately have "submit_round abi (submit_n abi n) u = submit_round abi (submit_n abi m') u"
      by (rule submit_round_agree [OF _ submit_n_shrinks])
    then show ?thesis unfolding Suc submit_n.simps .
  qed
qed

lemma submit_shrinks: "submit abi u = Done (r, u') \<Longrightarrow> length (ur_script u') < length (ur_script u)"
  unfolding submit_def by (cases "length (ur_script u)") (auto dest: submit_round_shrinks [OF submit_n_shrinks])

lemma submit_shrinks': "shrinks (submit abi)"
  by (auto simp: shrinks_def dest: submit_shrinks)

lemma submit_agree: "agree n (submit_n abi n) (submit abi)"
  unfolding agree_def submit_def by (auto intro: submit_fuel)

lemma submit_unfold: "submit abi u = submit_round abi (submit abi) u"
proof (cases "length (ur_script u)")
  case 0
  then show ?thesis by (simp add: submit_def submit_round_def enter_def obind_def)
next
  case (Suc n)
  then show ?thesis using submit_round_agree [OF submit_agree submit_shrinks', of u n] by (simp add: submit_def)
qed

lemma push_loop_fuel:
  "length (ur_script u) \<le> n \<Longrightarrow> length (ur_script u) \<le> m \<Longrightarrow> push_loop n (submit abi) e u = push_loop m (submit abi) e u"
proof (induction n arbitrary: m u)
  case 0
  then show ?case by (cases m) (auto simp: submit_def otry_def obind_def)
next
  case (Suc n)
  show ?case
  proof (cases m)
    case 0
    then show ?thesis using Suc.prems by (auto simp: submit_def otry_def obind_def)
  next
    case (Suc m')
    have "push_loop n (submit abi) e u' = push_loop m' (submit abi) e u'" if "submit abi u = Done (r, u')" for r u'
      using submit_shrinks [OF that] Suc.prems Suc by (intro Suc.IH) simp_all
    then show ?thesis using Suc by (auto intro!: otry_eq)
  qed
qed

lemma push_unfold:
  "push abi e u = (if has_room u then Done (Inr (), u\<lparr>ur_sq := ur_sq u @ [e]\<rparr>)
                   else otry (submit abi u) (\<lambda>_ u. push abi e u))"
proof (cases "length (ur_script u)")
  case 0
  then show ?thesis by (simp add: push_def push_with_def submit_def otry_def obind_def)
next
  case (Suc n)
  have "push_loop n (submit abi) e u' = push_loop (length (ur_script u')) (submit abi) e u'" if "submit abi u = Done (r, u')" for r u'
    using submit_shrinks [OF that] Suc by (intro push_loop_fuel) simp_all
  then show ?thesis using Suc by (auto simp: push_def push_with_def intro!: otry_eq)
qed

text \<open>
  The flush loops of the ring end.  Flushing, pushing and dispatching call each other, as in the
  source: a flush is one system call, followed, when the completion queue is backed up, by a
  dispatch and another flush, and after an interruption by another flush; a push flushes while
  the queue is full.  The bounded functions of the model satisfy these equations without any
  bound, every flush that returns has made at least one system call, and when the next system
  call succeeds, a flush returns, and so does a push if that call made room.
\<close>

theorem ring_loops_terminate:
  "submit abi u = submit_round abi (submit abi) u
   \<and> push abi e u = (if has_room u then Done (Inr (), u\<lparr>ur_sq := ur_sq u @ [e]\<rparr>)
                     else otry (submit abi u) (\<lambda>_ u. push abi e u))
   \<and> (submit abi u = Done (r, u') \<longrightarrow> length (ur_script u') < length (ur_script u))
   \<and> (enter abi False u = Done (None, v) \<longrightarrow> submit abi u = Done (Inr (), v)
        \<and> (\<not> has_room u \<and> has_room v \<longrightarrow> push abi e u = Done (Inr (), v\<lparr>ur_sq := ur_sq v @ [e]\<rparr>)))"
proof (intro conjI impI)
  show "submit abi u = submit_round abi (submit abi) u" by (rule submit_unfold)
  then show sub: "submit abi u = Done (Inr (), v)" if "enter abi False u = Done (None, v)"
    using that by (simp add: submit_round_def obind_def)
  show "push abi e u = Done (Inr (), v\<lparr>ur_sq := ur_sq v @ [e]\<rparr>)"
    if "enter abi False u = Done (None, v)" "\<not> has_room u \<and> has_room v"
    using sub [OF that(1)] that(2) push_unfold [of abi e u] push_unfold [of abi e v] by (simp add: otry_def obind_def)
  show "push abi e u = (if has_room u then Done (Inr (), u\<lparr>ur_sq := ur_sq u @ [e]\<rparr>)
                     else otry (submit abi u) (\<lambda>_ u. push abi e u))" by (rule push_unfold)
  show "submit abi u = Done (r, u') \<Longrightarrow> length (ur_script u') < length (ur_script u)" by (rule submit_shrinks)
qed

text \<open>A ring with one submission entry, filled, whose next system call consumes it.\<close>

definition plain_abi :: cqe_abi where
  "plain_abi = \<lparr>abi_more = (\<lambda>f. bit f 1), abi_select = (\<lambda>f. if bit f 0 then Some (ucast (drop_bit 16 f)) else None)\<rparr>"

definition full_ring :: "(nat, nat) uring" where
  "full_ring = \<lparr>ur_ops = \<lparr>ot_entries = slab_new, ot_generations = [], ot_generation_limit = 1, ot_active_len = 0\<rparr>,
     ur_sq = [WakeReadSqe], ur_sq_capacity = 1, ur_cq = [], ur_kernel = [], ur_script = [Enter 1 [] None],
     ur_wakeup_armed = True, ur_closed = False, ur_shutting_down = False, ur_pool = False, ur_ran = [], ur_released = []\<rparr>"

lemma ring_loops_terminate_witness:
  "push plain_abi WakeReadSqe full_ring = Done (Inr (), full_ring\<lparr>ur_script := []\<rparr>)"
proof -
  let ?v = "full_ring\<lparr>ur_script := [], ur_sq := []\<rparr>"
  have "enter plain_abi False full_ring = Done (None, ?v)" "\<not> has_room full_ring \<and> has_room ?v"
    by (simp_all add: enter_def full_ring_def has_room_def)
  then have "push plain_abi WakeReadSqe full_ring = Done (Inr (), ?v\<lparr>ur_sq := ur_sq ?v @ [WakeReadSqe]\<rparr>)"
    using ring_loops_terminate by blast
  then show ?thesis by (simp add: full_ring_def)
qed

end
