(* ===== verification/Uring_Safety.thy ===== *)
theory Uring_Safety
  imports Uring
begin

text \<open>
  Who owns the memory of an io_uring request.  The kernel reads and writes the payload of a request from the
  moment its entry is in the submission queue until its last completion has been dispatched
  (\<open>requests\<close>).  During that time the payload has to stay allocated: it is owned by the program's future or
  stream, or by the backend's slot.  \<open>ring_inv\<close> says so for every request, together with what each slot
  state means; every function of the backend keeps it.
\<close>

section \<open>The invariant\<close>

definition requests :: "('w, 'd) uring \<Rightarrow> (op_key \<times> bool) list" where
  "requests u = ur_kernel u @ sqe_requests (ur_sq u)"

text \<open>
  The owners outside the backend: the payloads of the live one-shot futures and of the live streams,
  the payload each request was submitted with, and the requests whose submission is under way (with
  whether they are multishot); and whether shutdown has begun.
\<close>

record 'd owners =
  ow_ops :: "op_key \<rightharpoonup> 'd"
  ow_streams :: "op_key \<rightharpoonup> 'd"
  ow_payload :: "op_key \<Rightarrow> 'd"
  ow_building :: "op_key \<rightharpoonup> bool"
  ow_shut :: bool

text \<open>\<open>sh\<close> is whether the backend is shutting down; only then do stand-ins replace payloads.\<close>

definition kept :: "bool \<Rightarrow> 'd option \<Rightarrow> 'd \<Rightarrow> 'd ignored \<Rightarrow> bool" where
  "kept sh f g p = (case p of Payload d \<Rightarrow> d = g \<and> f = None | Placeholder \<Rightarrow> sh \<and> f = Some g)"

fun oneshot_ok :: "bool \<Rightarrow> bool option \<Rightarrow> 'd option \<Rightarrow> 'd option \<Rightarrow> 'd \<Rightarrow> ('w, 'd) oneshot \<Rightarrow> bool" where
  "oneshot_ok sh r f s g Submitted \<longleftrightarrow> r = Some False \<and> f = Some g \<and> s = None"
| "oneshot_ok sh r f s g (Waiting w) \<longleftrightarrow> r = Some False \<and> f = Some g \<and> s = None"
| "oneshot_ok sh r f s g (Completed c) \<longleftrightarrow> r = None \<and> (sh \<or> f = Some g \<and> s = None)"
| "oneshot_ok sh r f s g (Detached p) \<longleftrightarrow> r = Some False \<and> s = None \<and> kept sh f g p"
| "oneshot_ok sh r f s g (Canceling ob sqe) \<longleftrightarrow> r = Some False \<and> s = None \<and>
     (case ob of ObserverDetached p \<Rightarrow> kept sh f g p | _ \<Rightarrow> f = Some g)"

fun multishot_ok :: "bool \<Rightarrow> bool option \<Rightarrow> 'd option \<Rightarrow> 'd option \<Rightarrow> 'd \<Rightarrow> ('w, 'd) multishot \<Rightarrow> bool" where
  "multishot_ok sh r f s g (Active wk pending cl limit) \<longleftrightarrow> r = Some True \<and> f = None \<and> s = Some g"
| "multishot_ok sh r f s g (Stopping wk pending cl) \<longleftrightarrow> r = Some True \<and> f = None \<and> s = Some g"
| "multishot_ok sh r f s g (Finished pending cl) \<longleftrightarrow> r = None \<and> f = None \<and> s = Some g"
| "multishot_ok sh r f s g (Cancelled pending cl p) \<longleftrightarrow> r = Some True \<and> f = None \<and>
     (case p of Some d \<Rightarrow> d = g \<and> s = None | None \<Rightarrow> sh \<and> s = Some g)"

definition state_ok :: "bool \<Rightarrow> bool option \<Rightarrow> 'd option \<Rightarrow> 'd option \<Rightarrow> 'd \<Rightarrow> ('w, 'd) uring_state \<Rightarrow> bool" where
  "state_ok sh r f s g st = (case st of Oneshot x \<Rightarrow> oneshot_ok sh r f s g x | Multishot m \<Rightarrow> multishot_ok sh r f s g m)"

fun fresh_state :: "bool \<Rightarrow> ('w, 'd) uring_state \<Rightarrow> bool" where
  "fresh_state m (Oneshot Submitted) = (\<not> m)"
| "fresh_state m (Multishot (Active None [] _ _)) = m"
| "fresh_state m _ = False"

definition slot_ok :: "bool \<Rightarrow> 'd owners \<Rightarrow> bool option \<Rightarrow> op_key \<Rightarrow> ('w, 'd) uring_state option \<Rightarrow> bool" where
  "slot_ok sh W r k slot =
     (case slot of
        None \<Rightarrow> r = None \<and> ow_building W k = None \<and> (sh \<or> ow_ops W k = None \<and> ow_streams W k = None)
      | Some st \<Rightarrow>
          (case ow_building W k of
             Some m \<Rightarrow> r = None \<and> fresh_state m st \<and> ow_ops W k = None \<and> ow_streams W k = None
           | None \<Rightarrow> state_ok sh r (ow_ops W k) (ow_streams W k) (ow_payload W k) st))"

text \<open>Two sets of owners that agree on a key.\<close>

definition same_at :: "op_key \<Rightarrow> 'd owners \<Rightarrow> 'd owners \<Rightarrow> bool" where
  "same_at k W W' \<longleftrightarrow> ow_ops W' k = ow_ops W k \<and> ow_streams W' k = ow_streams W k \<and>
     ow_payload W' k = ow_payload W k \<and> ow_building W' k = ow_building W k \<and> ow_shut W' = ow_shut W"

definition ring_core :: "'d owners \<Rightarrow> ('w, 'd) uring \<Rightarrow> bool" where
  "ring_core W u \<longleftrightarrow> op_inv (ur_ops u) \<and> ur_shutting_down u = ow_shut W \<and> distinct (map fst (requests u)) \<and>
     (\<forall>k. slot_ok (ur_shutting_down u) W (map_of (requests u) k) k (op_get (ur_ops u) k))"

definition ring_inv :: "cqe_abi \<Rightarrow> 'd owners \<Rightarrow> ('w, 'd) uring \<Rightarrow> bool" where
  "ring_inv abi W u \<longleftrightarrow> ring_core W u \<and> kernel_accepts abi (ur_cq u) (ur_kernel u)"

section \<open>The steps keep it\<close>

lemma ring_coreD:
  assumes "ring_core W u"
  shows "op_inv (ur_ops u)" "distinct (map fst (requests u))"
    "slot_ok (ur_shutting_down u) W (map_of (requests u) k) k (op_get (ur_ops u) k)" "ur_shutting_down u = ow_shut W"
  using assms by (auto simp: ring_core_def)

lemma map_of_drop_key: "map_of (filter (\<lambda>e. fst e \<noteq> k) xs) = (map_of xs)(k := None)"
  by (induction xs) (auto simp: fun_eq_iff)

lemma sqe_requests_append [simp]: "sqe_requests (xs @ ys) = sqe_requests xs @ sqe_requests ys"
  by (induction xs rule: sqe_requests.induct) auto

lemma sqe_requests_control: "is_control e \<Longrightarrow> sqe_requests [e] = []"
  by (cases e) (auto simp: is_control_def)

lemma requests_push_control [simp]: "is_control e \<Longrightarrow> requests (u\<lparr>ur_sq := ur_sq u @ [e]\<rparr>) = requests u"
  by (simp add: requests_def sqe_requests_control)

lemma requests_fields [simp]:
  "requests (u\<lparr>ur_ops := t\<rparr>) = requests u" "requests (u\<lparr>ur_wakeup_armed := b\<rparr>) = requests u"
  "requests (u\<lparr>ur_ran := ds\<rparr>) = requests u" "requests (u\<lparr>ur_released := rs\<rparr>) = requests u"
  "requests (u\<lparr>ur_cq := cs\<rparr>) = requests u" "requests (u\<lparr>ur_script := es\<rparr>) = requests u"
  "requests (u\<lparr>ur_shutting_down := b\<rparr>) = requests u" "requests (u\<lparr>ur_closed := b\<rparr>) = requests u"
  "requests (u\<lparr>ur_pool := b\<rparr>) = requests u"
  by (simp_all add: requests_def)

lemma ring_core_fields [simp]:
  "ring_core W (u\<lparr>ur_wakeup_armed := b\<rparr>) = ring_core W u" "ring_core W (u\<lparr>ur_ran := ds\<rparr>) = ring_core W u"
  "ring_core W (u\<lparr>ur_released := rs\<rparr>) = ring_core W u" "ring_core W (u\<lparr>ur_cq := cs\<rparr>) = ring_core W u"
  "ring_core W (u\<lparr>ur_script := es\<rparr>) = ring_core W u" "ring_core W (u\<lparr>ur_closed := b\<rparr>) = ring_core W u"
  "ring_core W (u\<lparr>ur_pool := b\<rparr>) = ring_core W u"
  by (simp_all add: ring_core_def)

text \<open>Changing one slot, while the request of its key is changed in step.\<close>

lemma same_at_refl [simp]: "same_at k W W"
  by (simp add: same_at_def)

lemma same_at_slot: "same_at k W W' \<Longrightarrow> slot_ok sh W' r k slot = slot_ok sh W r k slot"
  by (auto simp: same_at_def slot_ok_def split: option.splits)

lemma ring_core_slot:
  assumes core: "ring_core W u" and t: "op_inv t" "op_get t = (op_get (ur_ops u))(k := slot)"
    and rq: "distinct (map fst (requests v))" "map_of (requests v) = (map_of (requests u))(k := r)"
    and v: "ur_ops v = t" "ur_shutting_down v = ur_shutting_down u" and k: "slot_ok (ur_shutting_down u) W' r k slot"
    and W': "\<And>j. j \<noteq> k \<Longrightarrow> same_at j W W'"
  shows "ring_core W' v"
proof -
  have "slot_ok (ur_shutting_down u) W' (map_of (requests v) j) j (op_get t j)" for j
    using k same_at_slot [OF W' [of j], where slot = "op_get (ur_ops u) j"] ring_coreD(3) [OF core, of j] unfolding t(2) rq(2) by (cases "j = k") simp_all
  moreover have "ow_shut W' = ow_shut W"
    using W' [of "OpKey 0"] W' [of "OpKey 1"] by (cases "k = OpKey 0") (auto simp: same_at_def)
  ultimately show ?thesis unfolding ring_core_def v using t(1) rq(1) ring_coreD(4) [OF core] by metis
qed

lemma ring_core_set:
  assumes core: "ring_core W u" and st: "op_get (ur_ops u) k = Some st"
    and k: "slot_ok (ur_shutting_down u) W' (map_of (requests u) k) k (Some st')"
    and W': "\<And>j. j \<noteq> k \<Longrightarrow> same_at j W W'"
  shows "ring_core W' (set_state k st' u)"
proof (rule ring_core_slot [OF core])
  show "op_inv (op_get_mut (ur_ops u) k (\<lambda>_. st'))" by (rule ops.upd_inv [OF ring_coreD(1) [OF core]])
  show "op_get (op_get_mut (ur_ops u) k (\<lambda>_. st')) = (op_get (ur_ops u))(k := Some st')"
    by (rule ops.upd_some [OF ring_coreD(1) [OF core] st])
  show "map_of (requests (set_state k st' u)) = (map_of (requests u))(k := map_of (requests u) k)"
    by (simp add: set_state_def)
qed (use k W' ring_coreD(2) [OF core] in \<open>simp_all add: set_state_def\<close>)

lemma ring_core_removed:
  fixes u :: "('w, 'd) uring"
  assumes core: "ring_core W u" and t: "op_inv t" "op_get t = (op_get (ur_ops u))(k := None)"
    and k: "slot_ok (ur_shutting_down u) W' (map_of (requests u) k) k (None :: ('w, 'd) uring_state option)"
    and W': "\<And>j. j \<noteq> k \<Longrightarrow> same_at j W W'"
  shows "ring_core W' (u\<lparr>ur_ops := t\<rparr>)"
  by (rule ring_core_slot [OF core t, where r = "map_of (requests u) k"]) (use k W' ring_coreD(2) [OF core] in simp_all)

lemma mark_state_ok [simp]: "state_ok sh r f s g (mark_cancel_in_flight st) = state_ok sh r f s g st"
  by (cases st rule: mark_cancel_in_flight.cases) (auto simp: state_ok_def)

lemma mark_fresh [simp]: "fresh_state m (mark_cancel_in_flight st) = fresh_state m st"
  by (cases st rule: mark_cancel_in_flight.cases) auto

lemma ring_core_mark:
  assumes core: "ring_core W u"
  shows "ring_core W (mark_key k u)"
proof (cases "op_get (ur_ops u) k")
  case None
  have "op_get (op_get_mut (ur_ops u) k mark_cancel_in_flight) = op_get (ur_ops u)"
    by (rule ops.upd_none [OF ring_coreD(1) [OF core] None])
  then show ?thesis using core ops.upd_inv [OF ring_coreD(1) [OF core]] by (auto simp: ring_core_def mark_key_def)
next
  case (Some st)
  show ?thesis
  proof (rule ring_core_slot [OF core])
    show "op_inv (op_get_mut (ur_ops u) k mark_cancel_in_flight)" by (rule ops.upd_inv [OF ring_coreD(1) [OF core]])
    show "op_get (op_get_mut (ur_ops u) k mark_cancel_in_flight) = (op_get (ur_ops u))(k := Some (mark_cancel_in_flight st))"
      by (rule ops.upd_some [OF ring_coreD(1) [OF core] Some])
    show "map_of (requests (mark_key k u)) = (map_of (requests u))(k := map_of (requests u) k)"
      by (simp add: mark_key_def)
    show "slot_ok (ur_shutting_down u) W (map_of (requests u) k) k (Some (mark_cancel_in_flight st))"
      using ring_coreD(3) [OF core, of k] Some by (simp add: slot_ok_def split: option.splits)
  qed (use ring_coreD(2) [OF core] in \<open>simp_all add: mark_key_def\<close>)
qed

text \<open>What a completion does to the slot it names.\<close>

lemma apply_state_ok:
  assumes ok: "state_ok sh (Some multi) f s g st" and mr: "abi_more abi (cq_flags c) \<longrightarrow> multi"
    and ap: "apply_state abi c st = (rm, wk, cl, rc, st', rel)"
  shows "if rm then \<not> abi_more abi (cq_flags c) \<and> (sh \<or> f = None \<and> s = None)
         else state_ok sh (if abi_more abi (cq_flags c) then Some multi else None) f s g st'"
proof (cases st)
  case (Oneshot x)
  then have "\<not> multi" using ok by (cases x) (auto simp: state_ok_def)
  then show ?thesis using Oneshot ok ap mr
    by (cases "(cqe_completion c, x)" rule: oneshot_complete.cases)
       (auto simp: state_ok_def apply_state_def kept_def split: ignored.splits)
next
  case (Multishot m)
  then have "multi" using ok by (cases m) (auto simp: state_ok_def)
  then show ?thesis using Multishot ok ap mr
    by (cases m) (auto simp: state_ok_def apply_state_def Let_def split: option.splits if_splits)
qed

lemma process_op_core:
  assumes core: "ring_core W u" and kn: "map_of (ur_kernel u) key = Some multi"
    and mr: "abi_more abi (cq_flags c) \<longrightarrow> multi"
    and kn': "kn' = (if abi_more abi (cq_flags c) then ur_kernel u else filter (\<lambda>e. fst e \<noteq> key) (ur_kernel u))"
  shows "\<exists>co' u'. process_op abi c key co u = Some (co', u') \<and> ring_core W (u'\<lparr>ur_kernel := kn'\<rparr>)"
proof -
  let ?mr = "abi_more abi (cq_flags c)"
  note inv = ring_coreD(1) [OF core] and dst = ring_coreD(2) [OF core]
  have rq: "map_of (requests u) key = Some multi" using kn by (simp add: requests_def)
  have nsq: "map_of (sqe_requests (ur_sq u)) key = None"
    using dst kn by (force simp: requests_def map_of_eq_None_iff dest: map_of_SomeD)
  obtain st where st: "op_get (ur_ops u) key = Some st"
    and ok: "state_ok (ur_shutting_down u) (Some multi) (ow_ops W key) (ow_streams W key) (ow_payload W key) st"
    and nb: "ow_building W key = None"
    using ring_coreD(3) [OF core, of key] rq by (auto simp: slot_ok_def split: option.splits if_splits)
  have dst': "distinct (map fst (kn' @ sqe_requests (ur_sq u)))"
    using dst unfolding kn' requests_def by (auto simp: distinct_map_filter)
  have map': "map_of (kn' @ sqe_requests (ur_sq u)) = (map_of (requests u))(key := (if ?mr then Some multi else None))"
    using rq nsq unfolding kn' by (auto simp: requests_def map_of_drop_key fun_eq_iff map_add_def split: option.splits)
  from inv show ?thesis
  proof (cases rule: process_op_cases [where k = key and c = c and co = co and abi = abi])
    case (present st1 rm wk cl rc st' rel co' u')
    have ap: "apply_state abi c st = (rm, wk, cl, rc, st', rel)" using present(1,2) st by simp
    note ok' = apply_state_ok [OF ok mr ap] and f = process_op_fields [OF present(3)]
    have "ring_core W (u'\<lparr>ur_kernel := kn'\<rparr>)"
    proof (rule ring_core_slot [OF core present(4,5)])
      show "map_of (requests (u'\<lparr>ur_kernel := kn'\<rparr>)) = (map_of (requests u))(key := (if ?mr then Some multi else None))"
        using map' f by (simp add: requests_def)
      show "slot_ok (ur_shutting_down u) W (if ?mr then Some multi else None) key (if rm then None else Some st')"
        using ok' nb by (auto simp: slot_ok_def)
    qed (use f dst' in \<open>simp_all add: requests_def\<close>)
    then show ?thesis using present(3) by blast
  qed (use st in simp)
qed

lemma process_cqe_core:
  assumes core: "ring_core W u" and post: "kernel_post abi c (ur_kernel u) = Some kn'"
  shows "\<exists>co' u'. process_cqe abi c co u = Some (co', u') \<and> ring_core W (u'\<lparr>ur_kernel := kn'\<rparr>)"
proof (cases "\<exists>k. decode (cq_user c) = Some (Operation k)")
  case True
  then obtain k where k: "decode (cq_user c) = Some (Operation k)" by blast
  obtain multi where m: "map_of (ur_kernel u) k = Some multi" using post k by (auto simp: kernel_post_def split: option.splits)
  have "\<exists>co' u'. process_op abi c k co u = Some (co', u') \<and> ring_core W (u'\<lparr>ur_kernel := kn'\<rparr>)"
    by (rule process_op_core [OF core m]) (use post k m in \<open>auto simp: kernel_post_def split: if_splits\<close>)
  then show ?thesis using k by (simp add: process_cqe_def)
next
  case False
  then have kn': "kn' = ur_kernel u" using post by (auto simp: kernel_post_def split: option.splits completion_key.splits)
  have "\<exists>co' u'. process_cqe abi c co u = Some (co', u') \<and> (u' = u \<or> u' = u\<lparr>ur_wakeup_armed := False\<rparr>)"
    using False by (cases "decode (cq_user c)") (auto simp: process_cqe_def split: completion_key.splits)
  then obtain co' u' where "process_cqe abi c co u = Some (co', u')" "u' = u \<or> u' = u\<lparr>ur_wakeup_armed := False\<rparr>" by blast
  moreover from this have "ring_core W (u'\<lparr>ur_kernel := kn'\<rparr>)"
    using core unfolding kn' ring_core_def requests_def by (elim disjE conjE) simp_all
  ultimately show ?thesis by blast
qed

lemma process_cqes_core:
  "ring_core W u \<Longrightarrow> kernel_accepts abi cs (ur_kernel u) \<Longrightarrow>
     \<exists>co' u'. process_cqes abi cs co u = Some (co', u') \<and> ring_core W u'"
proof (induction cs arbitrary: co u)
  case (Cons c cs)
  obtain kn' where kn': "kernel_post abi c (ur_kernel u) = Some kn'" "kernel_accepts abi cs kn'"
    using Cons.prems(2) by (auto split: option.splits)
  obtain co1 u1 where 1: "process_cqe abi c co u = Some (co1, u1)" "ring_core W (u1\<lparr>ur_kernel := kn'\<rparr>)"
    using process_cqe_core [OF Cons.prems(1) kn'(1)] by blast
  then show ?case using Cons.IH [OF 1(2), of co1] kn' process_cqe_fields [OF 1(1)] by simp
qed simp

lemma enter_inv: "ring_inv abi W u \<Longrightarrow> enter abi timed u = Done (r, u') \<Longrightarrow> ring_inv abi W u'"
proof -
  assume inv: "ring_inv abi W u" and e: "enter abi timed u = Done (r, u')"
  then obtain n posts where u': "ur_kernel u' = ur_kernel u @ sqe_requests (take n (ur_sq u))" "ur_sq u' = drop n (ur_sq u)"
    "ur_ops u' = ur_ops u" "ur_shutting_down u' = ur_shutting_down u" "kernel_accepts abi (ur_cq u') (ur_kernel u')"
    by (auto simp: enter_def Let_def split: list.splits ring_event.splits if_splits)
  have "requests u' = requests u"
    unfolding requests_def u' append_assoc sqe_requests_append [symmetric] by simp
  then show ?thesis using inv u' by (auto simp: ring_inv_def ring_core_def)
qed

text \<open>So the invariant is a property that all the ring's functions keep.\<close>

interpretation inv: ring_property abi "\<lambda>_. ring_inv abi W" True for abi W
proof
  fix ds ds' u u' r e k timed
  assume inv: "ring_inv abi W u"
  show "enter abi timed u = Done (r, u') \<Longrightarrow> ring_inv abi W u' \<and> (\<not> retried r \<longrightarrow> True \<or> timed \<and> r = Some ETIME)" using enter_inv [OF inv] by blast
  show "is_control e \<Longrightarrow> has_room u \<Longrightarrow> ring_inv abi W (u\<lparr>ur_sq := ur_sq u @ [e]\<rparr>)"
    using inv by (auto simp: ring_inv_def ring_core_def)
  show "ring_inv abi W (mark_key k u)"
    using inv ring_core_mark [of W u k] by (simp add: ring_inv_def mark_key_def)
  show "ring_inv abi W (u\<lparr>ur_wakeup_armed := True\<rparr>)" using inv by (simp add: ring_inv_def)
  show "op_iter (ur_ops u) \<noteq> None" using inv ops.iter_total [of "ur_ops u"] by (auto simp: ring_inv_def ring_core_def)
  show "ring_inv abi W (run_all ds' u)" using inv by (simp add: ring_inv_def run_all_def)
  have "\<exists>co u'. process_cqes abi (ur_cq u) collected_none (u\<lparr>ur_cq := []\<rparr>) = Some (co, u') \<and> ring_core W u'"
    using inv by (intro process_cqes_core) (simp_all add: ring_inv_def)
  then show "\<exists>co u'. process_cqes abi (ur_cq u) collected_none (u\<lparr>ur_cq := []\<rparr>) = Some (co, u') \<and> ring_inv abi W u'"
    using process_cqes_fields by (fastforce simp: ring_inv_def)
qed

section \<open>The operations keep it\<close>

definition no_building :: "'d owners \<Rightarrow> bool" where
  "no_building W \<longleftrightarrow> ow_building W = (\<lambda>_. None)"

lemma ring_invD:
  assumes "ring_inv abi W u"
  shows "ring_core W u" "op_inv (ur_ops u)" "kernel_accepts abi (ur_cq u) (ur_kernel u)"
  using assms by (auto simp: ring_inv_def ring_core_def)

text \<open>A slot of a key that is not being built.\<close>

lemma inv_slot:
  assumes "ring_inv abi W u" "no_building W"
  shows "case op_get (ur_ops u) k of
      None \<Rightarrow> map_of (requests u) k = None \<and> (ur_shutting_down u \<or> ow_ops W k = None \<and> ow_streams W k = None)
    | Some st \<Rightarrow> state_ok (ur_shutting_down u) (map_of (requests u) k) (ow_ops W k) (ow_streams W k) (ow_payload W k) st"
  using ring_coreD(3) [OF ring_invD(1) [OF assms(1)], of k] assms(2)
  by (auto simp: slot_ok_def no_building_def split: option.splits)

lemma inv_set:
  assumes "ring_inv abi W u" "op_get (ur_ops u) k = Some st"
    and "slot_ok (ur_shutting_down u) W' (map_of (requests u) k) k (Some st')" and "\<And>j. j \<noteq> k \<Longrightarrow> same_at j W W'"
  shows "ring_inv abi W' (set_state k st' u)"
  using ring_core_set [OF ring_invD(1) [OF assms(1)] assms(2-4)] ring_invD(3) [OF assms(1)]
  by (simp add: ring_inv_def set_state_def)

lemma inv_removed:
  fixes u :: "('w, 'd) uring"
  assumes "ring_inv abi W u" "op_inv t" "op_get t = (op_get (ur_ops u))(k := None)"
    and "slot_ok (ur_shutting_down u) W' (map_of (requests u) k) k (None :: ('w, 'd) uring_state option)"
    and "\<And>j. j \<noteq> k \<Longrightarrow> same_at j W W'"
  shows "ring_inv abi W' (u\<lparr>ur_ops := t\<rparr>)"
  using ring_core_removed [OF ring_invD(1) [OF assms(1)] assms(2-5)] ring_invD(3) [OF assms(1)]
  by (simp add: ring_inv_def)

lemma inv_released [simp]: "ring_inv abi W (u\<lparr>ur_released := rs\<rparr>) = ring_inv abi W u"
  by (simp add: ring_inv_def)

lemma inv_removed_released:
  fixes u :: "('w, 'd) uring"
  assumes "ring_inv abi W u" "op_inv t" "op_get t = (op_get (ur_ops u))(k := None)"
    and "slot_ok (ur_shutting_down u) W' (map_of (requests u) k) k (None :: ('w, 'd) uring_state option)"
    and "\<And>j. j \<noteq> k \<Longrightarrow> same_at j W W'"
  shows "ring_inv abi W' (u\<lparr>ur_ops := t, ur_released := rs\<rparr>)"
  using inv_removed [OF assms] by (simp add: ring_inv_def)

subsection \<open>Submission\<close>

text \<open>The owners while request \<open>k\<close> is being built, and after its entry was pushed.\<close>

definition building :: "op_key \<Rightarrow> bool \<Rightarrow> 'd \<Rightarrow> 'd owners \<Rightarrow> 'd owners" where
  "building k m d W = W\<lparr>ow_building := (\<lambda>_. None)(k \<mapsto> m), ow_payload := (ow_payload W)(k := d)\<rparr>"

definition built :: "op_key \<Rightarrow> bool \<Rightarrow> 'd \<Rightarrow> 'd owners \<Rightarrow> 'd owners" where
  "built k m d W =
     (if m then W\<lparr>ow_streams := (ow_streams W)(k \<mapsto> d), ow_payload := (ow_payload W)(k := d)\<rparr>
      else W\<lparr>ow_ops := (ow_ops W)(k \<mapsto> d), ow_payload := (ow_payload W)(k := d)\<rparr>)"

lemma inv_insert:
  assumes inv: "ring_inv abi W u" and nb: "no_building W" and sh: "\<not> ur_shutting_down u"
    and t: "op_inv t" "op_get (ur_ops u) k = None" "op_get t = (op_get (ur_ops u))(k \<mapsto> st)" and st: "fresh_state m st"
  shows "ring_inv abi (building k m d W) (u\<lparr>ur_ops := t\<rparr>)"
proof -
  have k: "map_of (requests u) k = None" "ow_ops W k = None" "ow_streams W k = None"
    using inv_slot [OF inv nb, of k] t(2) sh by auto
  have "ring_core (building k m d W) (u\<lparr>ur_ops := t\<rparr>)"
    by (rule ring_core_slot [OF ring_invD(1) [OF inv] t(1,3), where r = None])
       (use k st nb ring_coreD(2) [OF ring_invD(1) [OF inv]]
        in \<open>auto simp: slot_ok_def building_def same_at_def no_building_def fun_eq_iff\<close>)
  then show ?thesis using ring_invD(3) [OF inv] by (simp add: ring_inv_def)
qed

lemma inv_push_op:
  assumes inv: "ring_inv abi (building k m d W) v" and nb: "no_building W" and st: "op_get (ur_ops v) k \<noteq> None"
  shows "ring_inv abi (built k m d W) (v\<lparr>ur_sq := ur_sq v @ [OpSqe k m]\<rparr>)"
proof -
  note core = ring_invD(1) [OF inv]
  obtain x where x: "op_get (ur_ops v) k = Some x" using st by blast
  have k: "map_of (requests v) k = None" "fresh_state m x" "ow_ops W k = None" "ow_streams W k = None"
    using ring_coreD(3) [OF core, of k] x by (auto simp: slot_ok_def building_def split: option.splits)
  have rq: "requests (v\<lparr>ur_sq := ur_sq v @ [OpSqe k m]\<rparr>) = requests v @ [(k, m)]" by (simp add: requests_def)
  have "ring_core (built k m d W) (v\<lparr>ur_sq := ur_sq v @ [OpSqe k m]\<rparr>)"
  proof (rule ring_core_slot [OF core, where k = k and r = "Some m" and slot = "Some x"])
    show "distinct (map fst (requests (v\<lparr>ur_sq := ur_sq v @ [OpSqe k m]\<rparr>)))"
      using ring_coreD(2) [OF core] k(1) unfolding rq by (auto simp: map_of_eq_None_iff)
    show "map_of (requests (v\<lparr>ur_sq := ur_sq v @ [OpSqe k m]\<rparr>)) = (map_of (requests v))(k := Some m)"
      using k(1) unfolding rq by (auto simp: fun_eq_iff map_add_def split: option.splits)
    show "slot_ok (ur_shutting_down v) (built k m d W) (Some m) k (Some x)"
      using k nb by (cases "(m, x)" rule: fresh_state.cases) (auto simp: slot_ok_def built_def state_ok_def no_building_def)
    show "op_get (ur_ops v) = (op_get (ur_ops v))(k := Some x)" using x by (simp add: fun_upd_idem)
    show "\<And>j. j \<noteq> k \<Longrightarrow> same_at j (building k m d W) (built k m d W)"
      using nb by (auto simp: same_at_def building_def built_def no_building_def)
  qed (use ring_coreD(1) [OF core] in simp_all)
  then show ?thesis using ring_invD(3) [OF inv] by (simp add: ring_inv_def)
qed

lemma inv_unbuild:
  assumes inv: "ring_inv abi (building k m d W) u" and nb: "no_building W"
    and t: "op_inv t" "op_get t = (op_get (ur_ops u))(k := None)"
  shows "ring_inv abi W (u\<lparr>ur_ops := t\<rparr>)"
proof (rule inv_removed [OF inv t])
  show "slot_ok (ur_shutting_down u) W (map_of (requests u) k) k None"
    using ring_coreD(3) [OF ring_invD(1) [OF inv], of k] nb
    by (auto simp: slot_ok_def building_def no_building_def split: option.splits)
qed (use nb in \<open>auto simp: same_at_def building_def no_building_def\<close>)

text \<open>The common part of \<^verbatim>\<open>submit_op\<close> and \<^verbatim>\<open>submit_multi_op\<close>.\<close>

lemma push_request_inv:
  fixes u :: "('w, 'd) uring"
  assumes inv: "ring_inv abi (building k m d W) u" and nb: "no_building W" and sh: "\<not> ur_shutting_down u"
    and E: "\<And>e u t. ring_inv abi W (u\<lparr>ur_ops := t\<rparr>) \<Longrightarrow> R (fail e, u\<lparr>ur_ops := t\<rparr>)"
    and I: "\<And>u. ring_inv abi (built k m d W) u \<Longrightarrow> R (ok, u)"
  shows "yields (obind (push abi (OpSqe k m) u) (\<lambda>(r, u).
              case r of
                Inl e \<Rightarrow> ounwrap (op_remove (ur_ops u) k) (\<lambda>(_, ops). Done (fail e, u\<lparr>ur_ops := ops\<rparr>))
              | Inr _ \<Rightarrow> Done (ok, u))) R"
proof (rule yields_obind [OF inv.push_yields [OF inv]], clarify)
  fix r :: "unit io_result" and u1 :: "('w, 'd) uring"
  assume l: "isl r \<longrightarrow> ring_inv abi (building k m d W) u1 \<and> True"
    and n: "\<not> isl r \<longrightarrow> (\<exists>v. ring_inv abi (building k m d W) v \<and> has_room v \<and> u1 = v\<lparr>ur_sq := ur_sq v @ [OpSqe k m]\<rparr>)"
  show "yields (case r of
                Inl e \<Rightarrow> ounwrap (op_remove (ur_ops u1) k) (\<lambda>(_, ops). Done (fail e, u1\<lparr>ur_ops := ops\<rparr>))
              | Inr _ \<Rightarrow> Done (ok, u1)) R"
  proof (cases r)
    case (Inl e)
    then have inv1: "ring_inv abi (building k m d W) u1" using l by simp
    obtain t where t: "op_remove (ur_ops u1) k = Some (op_get (ur_ops u1) k, t)" "op_inv t" "op_get t = (op_get (ur_ops u1))(k := None)"
      by (rule ops.remE [OF ring_invD(2) [OF inv1]])
    show ?thesis using E [OF inv_unbuild [OF inv1 nb t(2,3)]] t(1) Inl by (simp add: ounwrap_def)
  next
    case (Inr x)
    then obtain v where v: "ring_inv abi (building k m d W) v" "u1 = v\<lparr>ur_sq := ur_sq v @ [OpSqe k m]\<rparr>" using n by auto
    have "op_get (ur_ops v) k \<noteq> None"
      using ring_coreD(3) [OF ring_invD(1) [OF v(1)], of k] by (auto simp: slot_ok_def building_def split: option.splits)
    then show ?thesis using I [OF inv_push_op [OF v(1) nb]] v(2) Inr by simp
  qed
qed

lemma submit_op_inv:
  assumes inv: "ring_inv abi W u" and nb: "no_building W"
  shows "yields (uring_submit_op abi d u) (\<lambda>(r, u').
      (case r of
         Inl (e, d') \<Rightarrow> d' = d \<and> ring_inv abi W u'
       | Inr f \<Rightarrow> op_data f = Some d \<and> ring_inv abi (built (op_id f) False d W) u'))"
proof (cases "ur_shutting_down u")
  case True
  then show ?thesis using inv by (simp add: uring_submit_op_def)
next
  case False
  from ring_invD(2) [OF inv] show ?thesis
  proof (cases rule: ops.insE [where v = "Oneshot Submitted"])
    case (full e)
    have "u\<lparr>ur_ops := ur_ops u\<rparr> = u" by simp
    then show ?thesis using False full inv by (simp add: uring_submit_op_def ounwrap_def Let_def)
  next
    case (fresh k t)
    let ?u = "u\<lparr>ur_ops := t\<rparr>"
    have b: "ring_inv abi (building k False d W) ?u" by (rule inv_insert [OF inv nb False fresh(2-4)]) simp
    show ?thesis using False fresh(1)
      by (auto simp: uring_submit_op_def ounwrap_def Let_def intro!: push_request_inv [OF b nb])
  qed
qed

lemma submit_multi_inv:
  assumes inv: "ring_inv abi W u" and nb: "no_building W"
  shows "yields (submit_multi_op abi cl limit u) (\<lambda>(r, u').
      (case r of
         Inl e \<Rightarrow> ring_inv abi W u'
       | Inr k \<Rightarrow> ring_inv abi (built k True d W) u'))"
proof (cases "ur_shutting_down u")
  case True
  then show ?thesis using inv by (simp add: submit_multi_op_def)
next
  case False
  from ring_invD(2) [OF inv] show ?thesis
  proof (cases rule: ops.insE [where v = "Multishot (Active None [] cl limit)"])
    case (full e)
    have "u\<lparr>ur_ops := ur_ops u\<rparr> = u" by simp
    then show ?thesis using False full inv by (simp add: submit_multi_op_def ounwrap_def Let_def)
  next
    case (fresh k t)
    let ?u = "u\<lparr>ur_ops := t\<rparr>"
    have b: "ring_inv abi (building k True d W) ?u" by (rule inv_insert [OF inv nb False fresh(2-4)]) simp
    show ?thesis using False fresh(1)
      by (auto simp: submit_multi_op_def ounwrap_def Let_def intro!: push_request_inv [OF b nb])
  qed
qed

subsection \<open>Cancellation\<close>

lemma push_cancel_inv: "ring_inv abi W u \<Longrightarrow> yields (push_cancel abi k u) (\<lambda>(r, u'). ring_inv abi W u')"
  by (rule yields_mono [OF inv.keepsD [OF inv.push_cancel_keeps]]) auto

lemma push_and_mark_inv: "ring_inv abi W u \<Longrightarrow> yields (push_and_mark abi k u) (\<lambda>u'. ring_inv abi W u')"
  unfolding push_and_mark_def
  by (rule yields_obind [OF push_cancel_inv]) (auto intro: inv.mark_keeps)

lemma request_cancel_ok:
  "oneshot_ok sh r f s g x \<Longrightarrow> oneshot_ok sh r f s g (snd (request_cancel x))"
  by (cases x rule: request_cancel.cases) auto

lemma cancel_op_inv:
  assumes inv: "ring_inv abi W u" and nb: "no_building W"
  shows "yields (cancel_op abi k u) (\<lambda>u'. ring_inv abi W u')"
proof (cases "op_get (ur_ops u) k")
  case None
  then show ?thesis using inv by (simp add: cancel_op_def)
next
  case (Some st)
  note slot = inv_slot [OF inv nb, of k, unfolded Some option.case]
  show ?thesis
  proof (cases st)
    case (Oneshot x)
    have "slot_ok (ur_shutting_down u) W (map_of (requests u) k) k (Some (Oneshot (snd (request_cancel x))))"
      using slot request_cancel_ok [of _ _ _ _ _ x] nb Oneshot by (simp add: slot_ok_def no_building_def state_ok_def)
    then have "ring_inv abi W (set_state k (Oneshot (snd (request_cancel x))) u)"
      by (intro inv_set [OF inv Some]) simp_all
    then show ?thesis using Some Oneshot by (auto simp: cancel_op_def Let_def case_prod_beta intro: push_and_mark_inv)
  next
    case (Multishot m)
    then show ?thesis using Some inv by (cases m) (auto simp: cancel_op_def intro: push_and_mark_inv)
  qed
qed

subsection \<open>Polling and dropping a future\<close>

definition drop_owner :: "op_key \<Rightarrow> 'd owners \<Rightarrow> 'd owners" where
  "drop_owner k W = W\<lparr>ow_ops := (ow_ops W)(k := None), ow_streams := (ow_streams W)(k := None)\<rparr>"

lemma same_at_drop: "j \<noteq> k \<Longrightarrow> same_at j W (drop_owner k W)"
  by (simp add: same_at_def drop_owner_def)

lemma drop_owner_simps [simp]:
  "ow_ops (drop_owner k W) k = None" "ow_streams (drop_owner k W) k = None"
  "ow_payload (drop_owner k W) = ow_payload W" "ow_building (drop_owner k W) = ow_building W"
  "ow_shut (drop_owner k W) = ow_shut W"
  by (simp_all add: drop_owner_def)

lemma inv_taken:
  assumes inv: "ring_inv abi W u" and nb: "no_building W" and slot: "op_get (ur_ops u) k = Some (Oneshot (Completed c))"
  obtains t where "op_remove (ur_ops u) k = Some (Some (Oneshot (Completed c)), t)"
    "ring_inv abi (drop_owner k W) (u\<lparr>ur_ops := t\<rparr>)"
proof -
  obtain t where t: "op_remove (ur_ops u) k = Some (op_get (ur_ops u) k, t)" "op_inv t" "op_get t = (op_get (ur_ops u))(k := None)"
    by (rule ops.remE [OF ring_invD(2) [OF inv]])
  have "map_of (requests u) k = None" using inv_slot [OF inv nb, of k] slot by (simp add: state_ok_def)
  then have "ring_inv abi (drop_owner k W) (u\<lparr>ur_ops := t\<rparr>)"
    using nb same_at_drop by (intro inv_removed [OF inv t(2,3)]) (auto simp: slot_ok_def no_building_def)
  then show thesis using that t(1) slot by simp
qed

lemma poll_op_inv:
  assumes inv: "ring_inv abi W u" and nb: "no_building W" and sh: "\<not> ur_shutting_down u" and f: "ow_ops W (op_id f) = Some d"
  shows "\<exists>r u'. poll_op w f u = Some (r, u') \<and>
     ring_inv abi (case r of Pending \<Rightarrow> W | Ready _ \<Rightarrow> drop_owner (op_id f) W) u'"
proof -
  let ?k = "op_id f"
  obtain x where x: "op_get (ur_ops u) ?k = Some (Oneshot x)"
    and ok: "oneshot_ok False (map_of (requests u) ?k) (Some d) (ow_streams W ?k) (ow_payload W ?k) x"
    using inv_slot [OF inv nb, of ?k] f sh
    by (cases "op_get (ur_ops u) ?k") (auto simp: state_ok_def split: uring_state.splits elim: multishot_ok.elims)
  have set: "ring_inv abi W (set_state ?k (Oneshot y) u)"
    if "oneshot_ok False (map_of (requests u) ?k) (Some d) (ow_streams W ?k) (ow_payload W ?k) y" for y
    using that nb f sh by (intro inv_set [OF inv x]) (auto simp: slot_ok_def no_building_def state_ok_def)
  show ?thesis
  proof (cases x)
    case (Completed c)
    with x have "op_get (ur_ops u) ?k = Some (Oneshot (Completed c))" by simp
    from inv_taken [OF inv nb this] obtain t where t: "op_remove (ur_ops u) ?k = Some (Some (Oneshot (Completed c)), t)"
      "ring_inv abi (drop_owner ?k W) (u\<lparr>ur_ops := t\<rparr>)" by blast
    then show ?thesis using x Completed by (auto simp: poll_op_def)
  next
    case (Canceling ob sqe)
    then show ?thesis using x ok set [of "Canceling (ObserverWaiting w) sqe"]
      by (cases ob) (auto simp: poll_op_def kept_def split: ignored.splits)
  qed (use x ok set [of "Waiting w"] in \<open>auto simp: poll_op_def kept_def split: ignored.splits\<close>)
qed

lemma remove_op_inv:
  assumes inv: "ring_inv abi W u" and nb: "no_building W" and sh: "\<not> ur_shutting_down u"
    and f: "ow_ops W (op_id f) = Some d" "op_data f = Some d"
  shows "\<exists>r f' u'. remove_op f u = Some (r, f', u') \<and> ring_inv abi (drop_owner (op_id f) W) u' \<and>
     (r \<noteq> None \<longrightarrow> op_data f' = Some d)"
proof -
  let ?k = "op_id f"
  obtain x where x: "op_get (ur_ops u) ?k = Some (Oneshot x)"
    and ok: "oneshot_ok False (map_of (requests u) ?k) (Some d) (ow_streams W ?k) (ow_payload W ?k) x"
    using inv_slot [OF inv nb, of ?k] f sh
    by (cases "op_get (ur_ops u) ?k") (auto simp: state_ok_def split: uring_state.splits elim: multishot_ok.elims)
  have set: "ring_inv abi (drop_owner ?k W) (set_state ?k (Oneshot y) u)"
    if "oneshot_ok False (map_of (requests u) ?k) None None (ow_payload W ?k) y" for y
    using that nb sh same_at_drop by (intro inv_set [OF inv x]) (auto simp: slot_ok_def no_building_def state_ok_def)
  show ?thesis
  proof (cases x)
    case (Completed c)
    with x have "op_get (ur_ops u) ?k = Some (Oneshot (Completed c))" by simp
    from inv_taken [OF inv nb this] obtain t where t: "op_remove (ur_ops u) ?k = Some (Some (Oneshot (Completed c)), t)"
      "ring_inv abi (drop_owner ?k W) (u\<lparr>ur_ops := t\<rparr>)" by blast
    then show ?thesis using x Completed f by (auto simp: remove_op_def)
  next
    case (Canceling ob sqe)
    then show ?thesis using x ok f set [of "Canceling (ObserverDetached (Payload d)) sqe"]
      by (cases ob) (auto simp: remove_op_def kept_def split: ignored.splits)
  qed (use x ok f set [of "Detached (Payload d)"] in \<open>auto simp: remove_op_def kept_def split: ignored.splits\<close>)
qed

subsection \<open>Streams\<close>

lemma stream_slot:
  assumes inv: "ring_inv abi W u" and nb: "no_building W" and sh: "\<not> ur_shutting_down u" and s: "ow_streams W k = Some d"
  obtains m where "op_get (ur_ops u) k = Some (Multishot m)" "ow_ops W k = None" "ow_payload W k = d"
    "map_of (requests u) k = (case m of Finished _ _ \<Rightarrow> None | _ \<Rightarrow> Some True)" "\<And>p cl x. m \<noteq> Cancelled p cl x"
proof -
  obtain st where st: "op_get (ur_ops u) k = Some st" using inv_slot [OF inv nb, of k] s sh by (cases "op_get (ur_ops u) k") auto
  note ok = inv_slot [OF inv nb, of k, unfolded st option.case]
  show thesis
  proof (cases st)
    case (Oneshot x)
    then show thesis using ok s sh by (cases x) (auto simp: state_ok_def)
  next
    case (Multishot m)
    then show thesis using ok s sh st by (intro that [of m]; cases m) (auto simp: state_ok_def split: option.splits)
  qed
qed

lemma stream_removed:
  assumes inv: "ring_inv abi W u" and nb: "no_building W" and r: "map_of (requests u) k = None"
  obtains t where "op_remove (ur_ops u) k = Some (op_get (ur_ops u) k, t)" "ring_inv abi (drop_owner k W) (u\<lparr>ur_ops := t\<rparr>)"
proof -
  obtain t where t: "op_remove (ur_ops u) k = Some (op_get (ur_ops u) k, t)" "op_inv t" "op_get t = (op_get (ur_ops u))(k := None)"
    by (rule ops.remE [OF ring_invD(2) [OF inv]])
  have "ring_inv abi (drop_owner k W) (u\<lparr>ur_ops := t\<rparr>)"
    using nb r same_at_drop by (intro inv_removed [OF inv t(2,3)]) (auto simp: slot_ok_def no_building_def)
  then show thesis using that t(1) by blast
qed

lemma poll_multi_inv:
  assumes inv: "ring_inv abi W u" and nb: "no_building W" and sh: "\<not> ur_shutting_down u" and s: "ow_streams W k = Some d"
  shows "\<exists>r u'. poll_multi_op w k u = Some (r, u') \<and>
     ring_inv abi (if r = Ready None then drop_owner k W else W) u'"
proof -
  obtain m where m: "op_get (ur_ops u) k = Some (Multishot m)" "ow_ops W k = None" "ow_payload W k = d"
    "map_of (requests u) k = (case m of Finished _ _ \<Rightarrow> None | _ \<Rightarrow> Some True)" "\<And>p cl x. m \<noteq> Cancelled p cl x"
    by (rule stream_slot [OF assms]) blast
  have set: "ring_inv abi W (set_state k (Multishot y) u)"
    if "multishot_ok False (map_of (requests u) k) None (Some d) d y" for y
    using that nb s sh m by (intro inv_set [OF inv m(1)]) (auto simp: slot_ok_def no_building_def state_ok_def)
  show ?thesis
  proof (cases m)
    case (Active wk pending cl limit)
    then show ?thesis using m set [of "Active wk (tl pending) cl limit"] set [of "Active (Some w) [] cl limit"]
      by (cases pending) (auto simp: poll_multi_op_def)
  next
    case (Stopping wk pending cl)
    then show ?thesis using m set [of "Stopping wk (tl pending) cl"] set [of "Stopping (Some w) [] cl"]
      by (cases pending) (auto simp: poll_multi_op_def)
  next
    case (Finished pending cl)
    then have "map_of (requests u) k = None" using m(4) by simp
    from stream_removed [OF inv nb this] obtain t where t: "op_remove (ur_ops u) k = Some (op_get (ur_ops u) k, t)"
      "ring_inv abi (drop_owner k W) (u\<lparr>ur_ops := t\<rparr>)" by blast
    then show ?thesis using m Finished set [of "Finished (tl pending) cl"] by (cases pending) (auto simp: poll_multi_op_def)
  qed (use m(5) in blast)
qed

lemma cancel_stream_inv:
  assumes inv: "ring_inv abi W u" and nb: "no_building W" and k: "op_get (ur_ops u) k = Some st"
    "map_of (requests u) k = Some True" "ow_ops W k = None" "ow_payload W k = d"
  shows "yields (cancel_stream abi k d pending cl u) (\<lambda>u'. ring_inv abi (drop_owner k W) u')"
proof -
  have "ring_inv abi (drop_owner k W) (set_state k (Multishot (Cancelled [] cl (Some d))) u)"
    using nb k same_at_drop by (intro inv_set [OF inv k(1)]) (auto simp: slot_ok_def no_building_def state_ok_def)
  then show ?thesis unfolding cancel_stream_def Let_def by (intro yields_obind [OF push_cancel_inv]) auto
qed

lemma remove_multi_inv:
  assumes inv: "ring_inv abi W u" and nb: "no_building W" and sh: "\<not> ur_shutting_down u" and s: "ow_streams W k = Some d"
  shows "yields (remove_multi_op abi k d u) (\<lambda>u'. ring_inv abi (drop_owner k W) u')"
proof -
  obtain m where m: "op_get (ur_ops u) k = Some (Multishot m)" "ow_ops W k = None" "ow_payload W k = d"
    "map_of (requests u) k = (case m of Finished _ _ \<Rightarrow> None | _ \<Rightarrow> Some True)" "\<And>p cl x. m \<noteq> Cancelled p cl x"
    by (rule stream_slot [OF assms]) blast
  show ?thesis
  proof (cases m)
    case (Finished pending cl)
    then have r: "map_of (requests u) k = None" using m(4) by simp
    obtain t where t: "op_remove (ur_ops u) k = Some (op_get (ur_ops u) k, t)" "op_inv t" "op_get t = (op_get (ur_ops u))(k := None)"
      by (rule ops.remE [OF ring_invD(2) [OF inv]])
    have "ring_inv abi (drop_owner k W) (u\<lparr>ur_ops := t, ur_released := rs\<rparr>)" for rs
      using nb r same_at_drop by (intro inv_removed_released [OF inv t(2,3)]) (auto simp: slot_ok_def no_building_def)
    then show ?thesis using m Finished t(1) by (simp add: remove_multi_op_def ounwrap_def)
  qed (use m cancel_stream_inv [OF inv nb m(1)] in \<open>auto simp: remove_multi_op_def\<close>)
qed

subsection \<open>Waiting\<close>

lemma wait_inv: "ring_inv abi W u \<Longrightarrow> yields (wait abi u) (\<lambda>(r, u'). ring_inv abi W u')"
  unfolding wait_def by (rule yields_obind [OF inv.enter_yields]) auto

lemma wait_timed_inv: "ring_inv abi W u \<Longrightarrow> yields (wait_timed_n abi n u) (\<lambda>(r, u'). ring_inv abi W u')"
proof (induction n arbitrary: u)
  case (Suc n)
  show ?case unfolding wait_timed_n.simps
    by (rule yields_obind [OF inv.enter_yields [OF Suc.prems]]) (auto intro: Suc.IH split: option.splits)
qed simp

lemma dispatch_run_inv:
  "ring_inv abi W u \<Longrightarrow> yields (otry (dispatch_completions abi u) (\<lambda>ds u. Done (Inr (), run_all ds u))) (\<lambda>(r, u'). ring_inv abi W u')"
  by (rule yields_otry [OF inv.dispatch_keeps]) (auto simp: run_all_def ring_inv_def)

lemma turn_inv:
  assumes "ring_inv abi W u"
  shows "yields (turn abi timed u) (\<lambda>(r, u'). ring_inv abi W u')"
proof -
  have "yields ((if timed then wait_with_duration abi else wait abi) u) (\<lambda>(r, u'). ring_inv abi W u')"
    using wait_inv [OF assms] wait_timed_inv [OF assms] by (simp add: wait_with_duration_def)
  then have "yields ((if timed then wait_with_duration abi else wait abi) u)
      (\<lambda>(r, u'). case r of Inl e \<Rightarrow> ring_inv abi W u' | Inr a \<Rightarrow> ring_inv abi W u')"
    by (rule yields_mono) (auto split: sum.splits)
  then show ?thesis unfolding turn_def by (rule yields_otry) (auto intro: dispatch_run_inv)
qed

end
