(* ===== verification/Scopes.thy ===== *)
theory Scopes
  imports Op_Table "HOL-Library.AList"
begin

text \<open>
  The cancellation scopes of \<^verbatim>\<open>karmaio/src/driver/helpers/scopes.rs\<close>: generational scope identities
  packed into 64 bits, the compact list of the scopes of one operation with its iterator, and the
  scope table, whose attachments are stored twice: on the scope and in an inverse map from operations
  to scopes. Hash sets and hash maps whose iteration order is unspecified are lists in insertion
  order; the properties speak of them as sets. A waker is a value of the type \<open>'w\<close>, and
  \<^verbatim>\<open>will_wake\<close> is its equality.
\<close>

unbundle bit_operations_syntax

section \<open>Scope identities\<close>

record scope_id =
  sid_table :: u64
  sid_entry :: u64

definition scope_from_parts :: "u64 \<Rightarrow> nat \<Rightarrow> u32 \<Rightarrow> scope_id option" where
  "scope_from_parts table slot generation =
     (if slot > u32_max then None
      else if generation = 0 then None
      else Some \<lparr>sid_table = table,
                 sid_entry = push_bit 32 (ucast generation) OR of_nat slot\<rparr>)"

definition scope_slot :: "scope_id \<Rightarrow> nat" where
  "scope_slot sid = unat (ucast (sid_entry sid) :: u32)"

definition scope_generation :: "scope_id \<Rightarrow> u32" where
  "scope_generation sid = ucast (drop_bit 32 (sid_entry sid))"

section \<open>Scopes attached to one operation\<close>

datatype attached_scopes = ASEmpty | ASOne scope_id | ASTwo scope_id scope_id | ASMore "scope_id list"

definition attached_contains :: "attached_scopes \<Rightarrow> scope_id \<Rightarrow> bool" where
  "attached_contains s sid =
     (case s of ASEmpty \<Rightarrow> False | ASOne a \<Rightarrow> a = sid | ASTwo a b \<Rightarrow> a = sid \<or> b = sid | ASMore ids \<Rightarrow> sid \<in> set ids)"

definition attached_insert :: "attached_scopes \<Rightarrow> scope_id \<Rightarrow> attached_scopes" where
  "attached_insert s sid =
     (if attached_contains s sid then s
      else case s of
             ASEmpty \<Rightarrow> ASOne sid
           | ASOne a \<Rightarrow> ASTwo a sid
           | ASTwo a b \<Rightarrow> ASMore [a, b, sid]
           | ASMore ids \<Rightarrow> ASMore (ids @ [sid]))"

datatype attached_iter = AIZero | AIOne scope_id | AITwo scope_id scope_id nat | AIMore "scope_id list"

definition attached_iter :: "attached_scopes \<Rightarrow> attached_iter" where
  "attached_iter s =
     (case s of ASEmpty \<Rightarrow> AIZero | ASOne a \<Rightarrow> AIOne a | ASTwo a b \<Rightarrow> AITwo a b 0 | ASMore ids \<Rightarrow> AIMore ids)"

fun attached_next :: "attached_iter \<Rightarrow> (scope_id \<times> attached_iter) option" where
  "attached_next AIZero = None"
| "attached_next (AIOne a) = Some (a, AIZero)"
| "attached_next (AITwo a b index) =
     (if index = 0 then Some (a, AITwo a b (index + 1))
      else if index = 1 then Some (b, AITwo a b (index + 1))
      else None)"
| "attached_next (AIMore []) = None"
| "attached_next (AIMore (x # xs)) = Some (x, AIMore xs)"

fun attached_left :: "attached_iter \<Rightarrow> nat" where
  "attached_left AIZero = 0"
| "attached_left (AIOne a) = 1"
| "attached_left (AITwo a b index) = 2 - index"
| "attached_left (AIMore xs) = length xs"

lemma attached_next_left: "attached_next it = Some (x, it') \<Longrightarrow> attached_left it' < attached_left it"
  by (induction it rule: attached_next.induct) (auto split: if_splits)

text \<open>The \<^verbatim>\<open>for\<close> loop over the iterator, as the list of what it yields.\<close>

function attached_drain :: "attached_iter \<Rightarrow> scope_id list" where
  "attached_drain it = (case attached_next it of None \<Rightarrow> [] | Some (x, it') \<Rightarrow> x # attached_drain it')"
  by pat_completeness auto
termination
  by (relation "measure attached_left") (auto dest: attached_next_left)

declare attached_drain.simps [simp del]

section \<open>The scope table\<close>

datatype 'w scope =
    Active (sc_ops: "op_key list") (sc_waiters: "(nat \<times> 'w) list")
  | Cancelled

datatype subscribe_result = SubReady | SubPending nat

record 'w scope_subscribe =
  ss_result :: subscribe_result
  ss_deferred_drop :: "'w option"

datatype attach_result = Attached | AttachCancelled

record 'w scope_cancelled =
  sx_ops :: "op_key list"
  sx_waiters :: "'w list"

record 'w scope_table =
  st_id :: u64
  st_entries :: "'w scope slab"
  st_generations :: "u32 list"
  st_attachments :: "op_key \<rightharpoonup> attached_scopes"
  st_next_waiter :: nat

definition scope_new :: "u64 \<Rightarrow> 'w scope_table" where
  "scope_new table_id =
     \<lparr>st_id = table_id, st_entries = slab_new, st_generations = [], st_attachments = Map.empty,
      st_next_waiter = 1\<rparr>"

text \<open>\<^verbatim>\<open>next_table_id\<close>: the thread's counter, with the panic when it is exhausted.\<close>

definition next_table_id :: "u64 \<Rightarrow> (u64 \<times> u64) option" where
  "next_table_id next = (if next = - 1 then None else Some (next, next + 1))"

definition scope_get :: "'w scope_table \<Rightarrow> scope_id \<Rightarrow> 'w scope option" where
  "scope_get t sid =
     (if sid_table sid \<noteq> st_id t then None
      else if list_get (st_generations t) (scope_slot sid) \<noteq> Some (scope_generation sid) then None
      else slab_get (st_entries t) (scope_slot sid))"

text \<open>\<^verbatim>\<open>get_mut\<close> followed by an assignment through the reference.\<close>

definition scope_get_mut :: "'w scope_table \<Rightarrow> scope_id \<Rightarrow> ('w scope \<Rightarrow> 'w scope) \<Rightarrow> 'w scope_table" where
  "scope_get_mut t sid f =
     (if sid_table sid \<noteq> st_id t then t
      else if list_get (st_generations t) (scope_slot sid) \<noteq> Some (scope_generation sid) then t
      else t\<lparr>st_entries := slab_get_mut (st_entries t) (scope_slot sid) f\<rparr>)"

definition scope_insert :: "'w scope_table \<Rightarrow> (scope_id \<times> 'w scope_table) option" where
  "scope_insert t =
     (let slot = slab_vacant_key (st_entries t);
          gens = (if length (st_generations t) \<le> slot
                  then resize_to (slot + 1) 1 (st_generations t) else st_generations t)
      in case list_get gens slot of
           None \<Rightarrow> None
         | Some generation \<Rightarrow>
             (case scope_from_parts (st_id t) slot generation of
                None \<Rightarrow> None
              | Some sid \<Rightarrow>
                  (case slab_insert (st_entries t) (Active [] []) of
                     None \<Rightarrow> None
                   | Some (_, es) \<Rightarrow> Some (sid, t\<lparr>st_generations := gens, st_entries := es\<rparr>))))"

definition scope_cancel :: "'w scope_table \<Rightarrow> scope_id \<Rightarrow> 'w scope_cancelled \<times> 'w scope_table" where
  "scope_cancel t sid =
     (case scope_get t sid of
        None \<Rightarrow> (\<lparr>sx_ops = [], sx_waiters = []\<rparr>, t)
      | Some scope \<Rightarrow>
          let t' = scope_get_mut t sid (\<lambda>_. Cancelled) in
          (case scope of
             Active ops waiters \<Rightarrow> (\<lparr>sx_ops = ops, sx_waiters = map snd waiters\<rparr>, t')
           | Cancelled \<Rightarrow> (\<lparr>sx_ops = [], sx_waiters = []\<rparr>, t')))"

definition scope_remove :: "'w scope_table \<Rightarrow> scope_id \<Rightarrow> ('w scope_cancelled \<times> 'w scope_table) option" where
  "scope_remove t sid =
     (let (pending, t1) = scope_cancel t sid in
      if scope_get t1 sid = None then Some (pending, t1)
      else
        let slot = scope_slot sid; generation = scope_generation sid in
        if generation < - 1 then
          let t2 = t1\<lparr>st_entries := snd (slab_try_remove (st_entries t1) slot)\<rparr> in
          (if slot < length (st_generations t2)
           then Some (pending, t2\<lparr>st_generations := (st_generations t2)[slot := generation + 1]\<rparr>)
           else None)
        else Some (pending, t1))"

definition scope_is_cancelled :: "'w scope_table \<Rightarrow> scope_id \<Rightarrow> bool" where
  "scope_is_cancelled t sid =
     (case scope_get t sid of Some Cancelled \<Rightarrow> True | None \<Rightarrow> True | Some (Active _ _) \<Rightarrow> False)"

definition scope_attach :: "'w scope_table \<Rightarrow> scope_id \<Rightarrow> op_key \<Rightarrow> attach_result \<times> 'w scope_table" where
  "scope_attach t sid key =
     (case scope_get t sid of
        Some (Active ops waiters) \<Rightarrow>
          let t1 = scope_get_mut t sid (\<lambda>_. Active (if key \<in> set ops then ops else ops @ [key]) waiters);
              attached = (case st_attachments t1 key of None \<Rightarrow> ASEmpty | Some a \<Rightarrow> a)
          in (Attached, t1\<lparr>st_attachments := (st_attachments t1)(key \<mapsto> attached_insert attached sid)\<rparr>)
      | Some Cancelled \<Rightarrow> (AttachCancelled, t)
      | None \<Rightarrow> (AttachCancelled, t))"

fun detach_loop :: "'w scope_table \<Rightarrow> op_key \<Rightarrow> scope_id list \<Rightarrow> 'w scope_table" where
  "detach_loop t key [] = t"
| "detach_loop t key (sid # ids) =
     (case scope_get t sid of
        Some (Active ops waiters) \<Rightarrow>
          detach_loop (scope_get_mut t sid (\<lambda>_. Active (filter (\<lambda>k. k \<noteq> key) ops) waiters)) key ids
      | _ \<Rightarrow> detach_loop t key ids)"

definition scope_detach :: "'w scope_table \<Rightarrow> op_key \<Rightarrow> 'w scope_table" where
  "scope_detach t key =
     (case st_attachments t key of
        None \<Rightarrow> t
      | Some attached \<Rightarrow>
          detach_loop (t\<lparr>st_attachments := (st_attachments t)(key := None)\<rparr>) key
            (attached_drain (attached_iter attached)))"

text \<open>The second half of \<^verbatim>\<open>subscribe\<close>, reached when there is no registration to update.\<close>

definition subscribe_fresh :: "'w scope_table \<Rightarrow> scope_id \<Rightarrow> 'w \<Rightarrow> ('w scope_subscribe \<times> 'w scope_table) option" where
  "subscribe_fresh t sid waker =
     (case checked_add (st_next_waiter t) 1 of
        None \<Rightarrow> None
      | Some n \<Rightarrow>
          let registration = st_next_waiter t; t1 = t\<lparr>st_next_waiter := n\<rparr> in
          (case scope_get t1 sid of
             Some (Active ops waiters) \<Rightarrow>
               Some (\<lparr>ss_result = SubPending registration, ss_deferred_drop = None\<rparr>,
                     scope_get_mut t1 sid (\<lambda>_. Active ops (AList.update registration waker waiters)))
           | _ \<Rightarrow> Some (\<lparr>ss_result = SubReady, ss_deferred_drop = Some waker\<rparr>, t1)))"

definition scope_subscribe ::
  "'w scope_table \<Rightarrow> scope_id \<Rightarrow> nat option \<Rightarrow> 'w \<Rightarrow> ('w scope_subscribe \<times> 'w scope_table) option" where
  "scope_subscribe t sid registration waker =
     (case registration of
        None \<Rightarrow> subscribe_fresh t sid waker
      | Some r \<Rightarrow>
          (case scope_get t sid of
             Some (Active ops waiters) \<Rightarrow>
               (case map_of waiters r of
                  Some registered \<Rightarrow>
                    if registered = waker
                    then Some (\<lparr>ss_result = SubPending r, ss_deferred_drop = Some waker\<rparr>, t)
                    else Some (\<lparr>ss_result = SubPending r, ss_deferred_drop = Some registered\<rparr>,
                               scope_get_mut t sid (\<lambda>_. Active ops (AList.update r waker waiters)))
                | None \<Rightarrow> subscribe_fresh t sid waker)
           | _ \<Rightarrow> Some (\<lparr>ss_result = SubReady, ss_deferred_drop = Some waker\<rparr>, t)))"

definition scope_unsubscribe :: "'w scope_table \<Rightarrow> scope_id \<Rightarrow> nat \<Rightarrow> 'w option \<times> 'w scope_table" where
  "scope_unsubscribe t sid registration =
     (case scope_get t sid of
        Some (Active ops waiters) \<Rightarrow>
          (map_of waiters registration,
           scope_get_mut t sid (\<lambda>_. Active ops (AList.delete registration waiters)))
      | _ \<Rightarrow> (None, t))"

section \<open>Identities and iteration\<close>

lemma scope_id_parts:
  assumes "scope_from_parts table slot g = Some sid"
  shows "scope_slot sid = slot" and "scope_generation sid = g" and "sid_table sid = table"
proof -
  from assms have s: "slot < 2 ^ 32" and e: "sid_entry sid = push_bit 32 (ucast g) OR of_nat slot"
    by (auto simp: scope_from_parts_def u32_max_def split: if_splits)
  have ug: "unat g < 2 ^ 32" using unsigned_less [of g, where ?'a = nat] by simp
  then have "take_bit 64 (unat g) = unat g" by (simp add: take_bit_nat_eq_self_iff)
  with ug have g: "unat (ucast g :: u64) < 2 ^ 32" by (simp add: unsigned_ucast_eq)
  have su: "unat (of_nat slot :: u64) = slot" using s by (rule unat_of_nat_small)
  have "take_bit 32 (sid_entry sid) = of_nat slot"
    unfolding e using pack_low [of "of_nat slot" "ucast g"] s su by simp
  moreover have "unat (ucast (sid_entry sid) :: u32) = unat (take_bit 32 (sid_entry sid))"
    by (simp add: unsigned_ucast_eq unsigned_take_bit_eq)
  ultimately have "unat (ucast (sid_entry sid) :: u32) = slot" using su by simp
  then show "scope_slot sid = slot" by (simp add: scope_slot_def)
  have "drop_bit 32 (sid_entry sid) = ucast g"
    unfolding e using pack_high [of "of_nat slot" "ucast g"] s su g by simp
  moreover have "(ucast (ucast g :: u64) :: u32) = g" by (rule bit_word_eqI) (simp add: bit_simps)
  ultimately show "scope_generation sid = g" by (simp add: scope_generation_def)
  show "sid_table sid = table" using assms by (auto simp: scope_from_parts_def split: if_splits)
qed

lemma scope_id_eqI:
  assumes "sid_table a = sid_table b" "scope_slot a = scope_slot b" "scope_generation a = scope_generation b"
  shows "a = (b :: scope_id)"
proof -
  have lo: "(ucast (sid_entry a) :: u32) = ucast (sid_entry b)"
    using assms(2) unfolding scope_slot_def word_unat_eq_iff .
  have "bit (sid_entry a) n \<longleftrightarrow> bit (sid_entry b) n" if "n < 64" for n
  proof (cases "n < 32")
    case True
    then show ?thesis using arg_cong [OF lo, of "\<lambda>w. bit w n"] by (simp add: bit_ucast_iff)
  next
    case False
    with that have "n - 32 < 32" by simp
    with False show ?thesis
      using assms(3) [unfolded scope_generation_def, THEN arg_cong, of "\<lambda>w. bit w (n - 32)"] that
      by (simp add: bit_simps)
  qed
  then have "sid_entry a = sid_entry b" by (intro bit_word_eqI) simp
  with assms(1) show ?thesis by simp
qed

lemma drain_simps:
  "attached_drain AIZero = []" "attached_drain (AIOne a) = [a]" "attached_drain (AITwo a b 0) = [a, b]"
  "attached_drain (AIMore []) = []" "attached_drain (AIMore (x # xs)) = x # attached_drain (AIMore xs)"
  by (simp_all add: attached_drain.simps [of AIZero] attached_drain.simps [of "AIOne a"]
      attached_drain.simps [of "AITwo a b _"] attached_drain.simps [of "AIMore []"]
      attached_drain.simps [of "AIMore (x # xs)"])

lemma drain_more [simp]: "attached_drain (AIMore xs) = xs"
  by (induction xs) (simp_all add: drain_simps)

lemma attached_drain_set:
  "set (attached_drain (attached_iter a)) = {sid. attached_contains a sid}"
  by (cases a) (auto simp: attached_iter_def attached_contains_def drain_simps(1-3) split: attached_scopes.splits)

lemma attached_contains_insert [simp]:
  "attached_contains (attached_insert a sid) sid' \<longleftrightarrow> sid' = sid \<or> attached_contains a sid'"
  by (auto simp: attached_insert_def attached_contains_def split: attached_scopes.splits)

section \<open>What each operation does to the scopes\<close>

lemma scope_get_get_mut [simp]:
  "scope_get (scope_get_mut t sid f) sid' =
     (if sid' = sid then map_option f (scope_get t sid) else scope_get t sid')"
  using scope_id_eqI by (auto simp: scope_get_def scope_get_mut_def)

lemma scope_get_mut_fields [simp]:
  "st_id (scope_get_mut t sid f) = st_id t" "st_generations (scope_get_mut t sid f) = st_generations t"
  "st_attachments (scope_get_mut t sid f) = st_attachments t"
  "st_next_waiter (scope_get_mut t sid f) = st_next_waiter t"
  "slab_slots (st_entries (scope_get_mut t sid f)) = slab_slots (st_entries t)"
  by (auto simp: scope_get_mut_def)

lemma scope_get_fields [simp]:
  "scope_get (t\<lparr>st_attachments := m\<rparr>) = scope_get t" "scope_get (t\<lparr>st_next_waiter := n\<rparr>) = scope_get t"
  by (auto simp: scope_get_def fun_eq_iff)

lemma scope_get_mut_entry:
  "slab_get (st_entries (scope_get_mut t sid f)) i =
     (if i = scope_slot sid \<and> scope_get t sid \<noteq> None then map_option f (scope_get t sid)
      else slab_get (st_entries t) i)"
  by (auto simp: scope_get_mut_def scope_get_def)

definition scope_shape :: "'w scope_table \<Rightarrow> bool" where
  "scope_shape t \<longleftrightarrow>
     slab_inv (st_entries t) \<and> length (st_generations t) = slab_slots (st_entries t) \<and>
     (\<forall>g \<in> set (st_generations t). g \<noteq> 0)"

definition scope_inv :: "'w scope_table \<Rightarrow> bool" where
  "scope_inv t \<longleftrightarrow> scope_shape t \<and>
     (\<forall>sid ops ws. scope_get t sid = Some (Active ops ws) \<longrightarrow>
        distinct ops \<and> distinct (map fst ws) \<and> fst ` set ws \<subseteq> {..<st_next_waiter t} \<and>
        (\<forall>key \<in> set ops. \<exists>a. st_attachments t key = Some a \<and> attached_contains a sid))"

lemma scope_shape_get_mut [simp, intro]: "scope_shape t \<Longrightarrow> scope_shape (scope_get_mut t sid f)"
  by (simp add: scope_shape_def) (auto simp: scope_get_mut_def slab_inv_get_mut)

lemma scope_shape_fields [simp]:
  "scope_shape (t\<lparr>st_attachments := m\<rparr>) = scope_shape t" "scope_shape (t\<lparr>st_next_waiter := n\<rparr>) = scope_shape t"
  by (simp_all add: scope_shape_def)

lemma scope_invD:
  assumes "scope_inv t"
  shows "scope_shape t"
    and "scope_get t sid = Some (Active ops ws) \<Longrightarrow> distinct ops"
    and "scope_get t sid = Some (Active ops ws) \<Longrightarrow> distinct (map fst ws)"
    and "scope_get t sid = Some (Active ops ws) \<Longrightarrow> fst ` set ws \<subseteq> {..<st_next_waiter t}"
    and "scope_get t sid = Some (Active ops ws) \<Longrightarrow> key \<in> set ops \<Longrightarrow>
         \<exists>a. st_attachments t key = Some a \<and> attached_contains a sid"
  using assms by (auto simp: scope_inv_def)

lemma scope_insert_spec:
  assumes sh: "scope_shape t" and ins: "scope_insert t = Some (sid, t')"
  shows "scope_shape t'" and "scope_get t sid = None" and "scope_get t' = (scope_get t)(sid \<mapsto> Active [] [])"
    and "st_attachments t' = st_attachments t" and "st_next_waiter t' = st_next_waiter t"
    and "scope_slot sid = slab_vacant_key (st_entries t)"
    and "slab_get (st_entries t) (scope_slot sid) = None"
    and "slab_get (st_entries t') = (slab_get (st_entries t))(scope_slot sid \<mapsto> Active [] [])"
    and "(case list_get (st_generations t') i of Some g \<Rightarrow> g | None \<Rightarrow> 1) =
         (case list_get (st_generations t) i of Some g \<Rightarrow> g | None \<Rightarrow> 1)"
proof -
  let ?slot = "slab_vacant_key (st_entries t)"
  have d: "slab_inv (st_entries t)" "length (st_generations t) = slab_slots (st_entries t)"
    "\<forall>g \<in> set (st_generations t). g \<noteq> 0"
    using sh by (auto simp: scope_shape_def)
  define gens where "gens = (if length (st_generations t) \<le> ?slot
      then resize_to (?slot + 1) 1 (st_generations t) else st_generations t)"
  obtain g es k where g: "list_get gens ?slot = Some g"
    and sid: "scope_from_parts (st_id t) ?slot g = Some sid"
    and es: "slab_insert (st_entries t) (Active [] []) = Some (k, es)"
    and t': "t' = t\<lparr>st_generations := gens, st_entries := es\<rparr>"
    using ins by (auto simp: scope_insert_def Let_def gens_def [symmetric] split: option.splits)
  note e = slab.ins_elim [OF d(1) es]
  note parts = scope_id_parts [OF sid]
  have le: "?slot \<le> slab_slots (st_entries t)" using slab.vacant_le [OF d(1)] .
  have get: "list_get gens i = (if i < length (st_generations t) then list_get (st_generations t) i
      else if i \<le> ?slot then Some 1 else None)" for i
    using list_get_resize_to_grow [of "st_generations t" "?slot + 1" 1 i]
    by (auto simp: gens_def list_get_def)
  show "scope_shape t'"
    using d e(1,2,4) le by (auto simp: scope_shape_def t' gens_def max_def resize_to_def)
  show slot: "scope_slot sid = ?slot" and none: "slab_get (st_entries t) (scope_slot sid) = None"
    using parts e(1,5) by simp_all
  show ent: "slab_get (st_entries t') = (slab_get (st_entries t))(scope_slot sid \<mapsto> Active [] [])"
    using e(1,3) slot by (simp add: t')
  show "scope_get t sid = None" using none by (simp add: scope_get_def)
  show "scope_get t' = (scope_get t)(sid \<mapsto> Active [] [])"
  proof
    fix x
    have "slab_get (st_entries t) i = None" if "length (st_generations t) \<le> i" for i
      using slab_get_bound [of "st_entries t" i] that d(2) by (cases "slab_get (st_entries t) i") auto
    note out = this
    show "scope_get t' x = ((scope_get t)(sid \<mapsto> Active [] [])) x"
    proof (cases "sid_table x = st_id t \<and> scope_slot x = ?slot")
      case True
      then have "x = sid \<longleftrightarrow> scope_generation x = g"
        using parts slot scope_id_eqI [of x sid] by auto
      then show ?thesis
        using True parts slot none ent g by (auto simp: scope_get_def t')
    next
      case False
      then have "x \<noteq> sid" using parts slot by auto
      then show ?thesis
        using False slot ent get [of "scope_slot x"] out [of "scope_slot x"]
        by (auto simp: scope_get_def t')
    qed
  qed
  show "st_attachments t' = st_attachments t" "st_next_waiter t' = st_next_waiter t" by (simp_all add: t')
  show "(case list_get (st_generations t') i of Some g \<Rightarrow> g | None \<Rightarrow> 1) =
         (case list_get (st_generations t) i of Some g \<Rightarrow> g | None \<Rightarrow> 1)"
    using get by (auto simp: t' list_get_def)
qed

lemma scope_cancel_get:
  "scope_get (snd (scope_cancel t sid)) =
     (if scope_get t sid = None then scope_get t else (scope_get t)(sid \<mapsto> Cancelled))"
  by (auto simp: scope_cancel_def Let_def fun_eq_iff split: option.splits scope.splits)

lemma scope_cancel_table:
  "snd (scope_cancel t sid) = (if scope_get t sid = None then t else scope_get_mut t sid (\<lambda>_. Cancelled))"
  by (auto simp: scope_cancel_def Let_def split: option.splits scope.splits)

lemma scope_get_generation:
  "scope_get t sid = Some s \<Longrightarrow>
   list_get (st_generations t) (scope_slot sid) = Some (scope_generation sid) \<and>
   slab_get (st_entries t) (scope_slot sid) = Some s \<and> sid_table sid = st_id t"
  by (auto simp: scope_get_def split: if_splits)

lemma scope_remove_spec:
  assumes sh: "scope_shape t"
  obtains t' where "scope_remove t sid = Some (fst (scope_cancel t sid), t')" "scope_shape t'"
    "\<And>x. x \<noteq> sid \<Longrightarrow> scope_get t' x = scope_get t x"
    "scope_get t' sid = None \<or> scope_get t' sid = Some Cancelled"
    "st_attachments t' = st_attachments t" "st_next_waiter t' = st_next_waiter t"
    "scope_get t sid = None \<Longrightarrow> t' = t"
    "\<And>i. i \<noteq> scope_slot sid \<Longrightarrow> slab_get (st_entries t') i = slab_get (st_entries t) i \<and>
        list_get (st_generations t') i = list_get (st_generations t) i"
    "scope_get t sid \<noteq> None \<Longrightarrow>
        (slab_get (st_entries t') (scope_slot sid) = None \<and> scope_generation sid < - 1 \<and>
         list_get (st_generations t') (scope_slot sid) = Some (scope_generation sid + 1)) \<or>
        (slab_get (st_entries t') (scope_slot sid) = Some Cancelled \<and>
         list_get (st_generations t') (scope_slot sid) = Some (scope_generation sid))"
proof (cases "scope_get t sid")
  case None
  then show thesis
    using sh by (intro that [of t]) (auto simp: scope_remove_def scope_cancel_def Let_def)
next
  case (Some s)
  let ?t1 = "scope_get_mut t sid (\<lambda>_. Cancelled)"
  let ?slot = "scope_slot sid"
  note gen = scope_get_generation [OF Some]
  have t1: "snd (scope_cancel t sid) = ?t1" using Some by (simp add: scope_cancel_table)
  have sh1: "scope_shape ?t1" using sh by simp
  then have inv1: "slab_inv (st_entries ?t1)" by (simp add: scope_shape_def)
  show thesis
  proof (cases "scope_generation sid < - 1")
    case True
    let ?es = "snd (slab_try_remove (st_entries ?t1) ?slot)"
    obtain r where r: "slab_try_remove (st_entries ?t1) ?slot = (r, ?es)" by (metis prod.collapse)
    note rem = slab.rem_spec [OF inv1 r]
    let ?t2 = "?t1\<lparr>st_entries := ?es, st_generations := (st_generations t)[?slot := scope_generation sid + 1]\<rparr>"
    have bound: "?slot < length (st_generations t)" using gen by (auto simp: list_get_Some_iff)
    have nz: "scope_generation sid + 1 \<noteq> 0" using True by (metis add_eq_0_iff2 less_irrefl)
    have shape: "scope_shape ?t2"
      using sh rem nz set_update_subset_insert [of "st_generations t" ?slot "scope_generation sid + 1"]
      by (auto simp: scope_shape_def)
    have ent: "slab_get ?es i = (if i = ?slot then None else slab_get (st_entries t) i)" for i
      using rem by (simp add: scope_get_mut_entry)
    have "scope_remove t sid = Some (fst (scope_cancel t sid), ?t2)"
      using True Some t1 bound
      by (simp add: scope_remove_def Let_def case_prod_beta)
    moreover have "scope_get ?t2 x = scope_get t x" if "x \<noteq> sid" for x
    proof (cases "sid_table x = st_id t \<and> ?slot = scope_slot x")
      case True
      then have "scope_generation x \<noteq> scope_generation sid"
        using that gen scope_id_eqI by metis
      with True gen bound ent show ?thesis by (auto simp: scope_get_def)
    qed (use ent bound in \<open>auto simp: scope_get_def\<close>)
    moreover have "scope_get ?t2 sid = None" using ent by (simp add: scope_get_def)
    ultimately show thesis using shape ent bound True Some by (intro that [of ?t2]) auto
  next
    case False
    then have "scope_remove t sid = Some (fst (scope_cancel t sid), ?t1)"
      using Some t1 by (simp add: scope_remove_def Let_def case_prod_beta)
    then show thesis using Some sh1 gen by (intro that [of ?t1]) (auto simp: scope_get_mut_entry)
  qed
qed

lemma scope_attach_get:
  assumes "scope_attach t sid key = (r, t')"
  shows "scope_get t' =
     (case scope_get t sid of
        Some (Active ops ws) \<Rightarrow>
          (scope_get t)(sid \<mapsto> Active (if key \<in> set ops then ops else ops @ [key]) ws)
      | _ \<Rightarrow> scope_get t)"
    and "r = Attached \<longleftrightarrow> \<not> scope_is_cancelled t sid"
    and "scope_shape t \<Longrightarrow> scope_shape t'"
  using assms
  by (auto simp: scope_attach_def scope_is_cancelled_def Let_def fun_eq_iff split: option.splits scope.splits)

fun scope_drop_op :: "op_key \<Rightarrow> 'w scope \<Rightarrow> 'w scope" where
  "scope_drop_op key (Active ops ws) = Active (filter (\<lambda>k. k \<noteq> key) ops) ws"
| "scope_drop_op key Cancelled = Cancelled"

lemma scope_drop_op_idem [simp]: "scope_drop_op key (scope_drop_op key s) = scope_drop_op key s"
  by (cases s) auto

lemma detach_loop_get:
  "scope_get (detach_loop t key ids) sid =
     (if sid \<in> set ids then map_option (scope_drop_op key) (scope_get t sid) else scope_get t sid)"
  by (induction t key ids rule: detach_loop.induct)
     (auto simp: option.map_comp comp_def split: option.splits scope.splits)

lemma detach_loop_fields [simp]:
  "st_attachments (detach_loop t key ids) = st_attachments t"
  "st_next_waiter (detach_loop t key ids) = st_next_waiter t"
  "st_generations (detach_loop t key ids) = st_generations t"
  by (induction t key ids rule: detach_loop.induct) (auto split: option.splits scope.splits)

lemma detach_loop_shape: "scope_shape t \<Longrightarrow> scope_shape (detach_loop t key ids)"
  by (induction t key ids rule: detach_loop.induct) (auto split: option.splits scope.splits)

text \<open>Because the inverse map is complete, \<^verbatim>\<open>detach\<close> reaches every scope that holds the operation.\<close>

lemma scope_detach_get:
  assumes "scope_inv t"
  shows "scope_get (scope_detach t key) sid = map_option (scope_drop_op key) (scope_get t sid)"
proof -
  have id: "map_option (scope_drop_op key) (scope_get t sid) = scope_get t sid"
    if "\<And>ops ws. scope_get t sid = Some (Active ops ws) \<Longrightarrow> key \<notin> set ops"
  proof (cases "scope_get t sid")
    case (Some s)
    with that show ?thesis by (cases s) (auto simp: filter_id_conv)
  qed simp
  show ?thesis
  proof (cases "st_attachments t key")
    case None
    then show ?thesis using id scope_invD(5) [OF assms] by (fastforce simp: scope_detach_def)
  next
    case (Some a)
    then show ?thesis
      using id scope_invD(5) [OF assms]
      by (fastforce simp: scope_detach_def detach_loop_get attached_drain_set)
  qed
qed

section \<open>The invariant\<close>

text \<open>
  The consistency of the two attachment maps and of the waiter identities, for one scope. An operation
  preserves the invariant when every scope active afterwards is consistent.
\<close>

definition scope_ok :: "'w scope_table \<Rightarrow> scope_id \<Rightarrow> op_key list \<Rightarrow> (nat \<times> 'w) list \<Rightarrow> bool" where
  "scope_ok t sid ops ws \<longleftrightarrow>
     distinct ops \<and> distinct (map fst ws) \<and> fst ` set ws \<subseteq> {..<st_next_waiter t} \<and>
     (\<forall>key \<in> set ops. \<exists>a. st_attachments t key = Some a \<and> attached_contains a sid)"

lemma scope_inv_alt:
  "scope_inv t \<longleftrightarrow> scope_shape t \<and> (\<forall>sid ops ws. scope_get t sid = Some (Active ops ws) \<longrightarrow> scope_ok t sid ops ws)"
  by (auto simp: scope_inv_def scope_ok_def)

lemma scope_ok_cong:
  "st_attachments t' = st_attachments t \<Longrightarrow> st_next_waiter t' = st_next_waiter t \<Longrightarrow> scope_ok t' = scope_ok t"
  by (auto simp: scope_ok_def fun_eq_iff)

lemma scope_inv_get_mut:
  assumes "scope_inv t"
    and "\<And>s ops ws. scope_get t sid = Some s \<Longrightarrow> f s = Active ops ws \<Longrightarrow> scope_ok t sid ops ws"
  shows "scope_inv (scope_get_mut t sid f)"
  using assms scope_ok_cong [of "scope_get_mut t sid f" t]
  by (auto simp: scope_inv_alt split: if_splits)

lemma scope_inv_new [inv_intros]: "scope_inv (scope_new n)"
  using slab_inv_new
  by (auto simp: scope_inv_def scope_shape_def scope_new_def slab_slots_def slab_new_def scope_get_def)

lemma scope_inv_insert [inv_intros]:
  assumes "scope_inv t" and "scope_insert t = Some (sid, t')"
  shows "scope_inv t'"
proof -
  note spec = scope_insert_spec [OF scope_invD(1) [OF assms(1)] assms(2)]
  have "scope_ok t' = scope_ok t" using spec(4,5) by (rule scope_ok_cong)
  then show ?thesis
    using assms(1) spec(1,3) by (auto simp: scope_inv_alt scope_ok_def)
qed

lemma scope_inv_cancel [inv_intros]: "scope_inv t \<Longrightarrow> scope_inv (snd (scope_cancel t sid))"
  by (auto simp: scope_cancel_table intro: scope_inv_get_mut)

lemma scope_inv_remove [inv_intros]:
  assumes "scope_inv t" and "scope_remove t sid = Some (c, t')"
  shows "scope_inv t'"
proof -
  obtain t1 where t1: "scope_remove t sid = Some (fst (scope_cancel t sid), t1)" "scope_shape t1"
    "\<And>x. x \<noteq> sid \<Longrightarrow> scope_get t1 x = scope_get t x"
    "scope_get t1 sid = None \<or> scope_get t1 sid = Some Cancelled"
    "st_attachments t1 = st_attachments t" "st_next_waiter t1 = st_next_waiter t"
    using scope_remove_spec [OF scope_invD(1) [OF assms(1)], of sid] by metis
  have eq: "t1 = t'" using t1(1) assms(2) by simp
  have ok: "scope_ok t1 = scope_ok t" using t1(5,6) by (rule scope_ok_cong)
  have "scope_ok t1 x ops ws" if "scope_get t1 x = Some (Active ops ws)" for x ops ws
    using that t1(3) [of x] t1(4) assms(1) by (cases "x = sid") (auto simp: ok scope_inv_alt)
  with t1(2) eq show ?thesis by (auto simp: scope_inv_alt)
qed

lemma scope_inv_attach [inv_intros]:
  assumes "scope_inv t"
  shows "scope_inv (snd (scope_attach t sid key))"
proof (cases "scope_is_cancelled t sid")
  case True
  then have "snd (scope_attach t sid key) = t"
    by (auto simp: scope_attach_def scope_is_cancelled_def split: option.splits scope.splits)
  with assms show ?thesis by simp
next
  case False
  then obtain ops ws where g: "scope_get t sid = Some (Active ops ws)"
    by (auto simp: scope_is_cancelled_def split: option.splits scope.splits)
  let ?t = "snd (scope_attach t sid key)"
  let ?a = "case st_attachments t key of None \<Rightarrow> ASEmpty | Some a \<Rightarrow> a"
  have att: "st_attachments ?t = (st_attachments t)(key \<mapsto> attached_insert ?a sid)"
    and nw: "st_next_waiter ?t = st_next_waiter t"
    using g by (simp_all add: scope_attach_def Let_def)
  have get: "scope_get ?t = (scope_get t)(sid \<mapsto> Active (if key \<in> set ops then ops else ops @ [key]) ws)"
    using scope_attach_get(1) [of t sid key "fst (scope_attach t sid key)" ?t] g by simp
  have "scope_shape ?t"
    using scope_attach_get(3) [of t sid key "fst (scope_attach t sid key)" ?t] scope_invD(1) [OF assms] by simp
  moreover have "scope_ok ?t x ops' ws'" if h: "scope_get ?t x = Some (Active ops' ws')" for x ops' ws'
  proof -
    have keep: "\<exists>b. st_attachments ?t k = Some b \<and> attached_contains b y"
      if "\<exists>b. st_attachments t k = Some b \<and> attached_contains b y" for k y
      using that by (auto simp: att)
    have new: "\<exists>b. st_attachments ?t key = Some b \<and> attached_contains b sid" by (simp add: att)
    show ?thesis
    proof (cases "x = sid")
      case True
      have "scope_ok t sid ops ws" using assms g by (auto simp: scope_inv_alt)
      moreover have "ops' = (if key \<in> set ops then ops else ops @ [key])" "ws' = ws"
        using h True by (simp_all add: get)
      ultimately show ?thesis using True keep new by (auto simp: scope_ok_def nw)
    next
      case False
      then have "scope_ok t x ops' ws'" using assms h by (auto simp: scope_inv_alt get)
      then show ?thesis using keep by (auto simp: scope_ok_def nw)
    qed
  qed
  ultimately show ?thesis by (auto simp: scope_inv_alt)
qed

lemma scope_inv_detach [inv_intros]:
  assumes "scope_inv t"
  shows "scope_inv (scope_detach t key)"
proof -
  let ?t = "scope_detach t key"
  have sh: "scope_shape ?t"
    using scope_invD(1) [OF assms] by (auto simp: scope_detach_def detach_loop_shape split: option.splits)
  have nw: "st_next_waiter ?t = st_next_waiter t" and att: "st_attachments ?t = (st_attachments t)(key := None)"
    by (auto simp: scope_detach_def split: option.splits)
  have "scope_ok ?t x ops ws" if h: "scope_get ?t x = Some (Active ops ws)" for x ops ws
  proof -
    obtain s where s: "scope_get t x = Some s" "scope_drop_op key s = Active ops ws"
      using h scope_detach_get [OF assms, of key x] by (auto simp: map_option_eq_Some)
    then obtain ops0 where "s = Active ops0 ws" "ops = filter (\<lambda>k. k \<noteq> key) ops0" by (cases s) auto
    then show ?thesis using s(1) assms by (auto simp: scope_inv_alt scope_ok_def nw att)
  qed
  with sh show ?thesis by (auto simp: scope_inv_alt)
qed

lemma scope_inv_next_waiter:
  "scope_inv t \<Longrightarrow> st_next_waiter t \<le> n \<Longrightarrow> scope_inv (t\<lparr>st_next_waiter := n\<rparr>)"
  by (fastforce simp: scope_inv_def)

lemma scope_ok_update:
  "scope_ok t sid ops ws \<Longrightarrow> r < st_next_waiter t \<Longrightarrow> scope_ok t sid ops (AList.update r w ws)"
  by (simp add: scope_ok_def distinct_update dom_update)

lemma scope_ok_delete: "scope_ok t sid ops ws \<Longrightarrow> scope_ok t sid ops (AList.delete r ws)"
  using dom_delete_subset [of r ws] by (auto simp: scope_ok_def distinct_delete)

lemma scope_ok_registered: "scope_ok t sid ops ws \<Longrightarrow> map_of ws r = Some w \<Longrightarrow> r < st_next_waiter t"
  by (force simp: scope_ok_def dest: map_of_SomeD)

lemma scope_inv_subscribe_fresh:
  assumes inv: "scope_inv t" and "subscribe_fresh t sid w = Some (x, t')"
  shows "scope_inv t'"
proof -
  let ?n = "st_next_waiter t"
  let ?t1 = "t\<lparr>st_next_waiter := ?n + 1\<rparr>"
  have inv1: "scope_inv ?t1" using scope_inv_next_waiter [OF inv] by simp
  have "scope_inv (scope_get_mut ?t1 sid (\<lambda>_. Active ops (AList.update ?n w ws)))"
    if "scope_get t sid = Some (Active ops ws)" for ops ws
    using inv1 that by (intro scope_inv_get_mut) (auto simp: scope_inv_alt intro!: scope_ok_update)
  with inv1 assms(2) show ?thesis
    by (auto simp: subscribe_fresh_def Let_def split: option.splits scope.splits if_splits)
qed

lemma scope_inv_subscribe [inv_intros]:
  assumes inv: "scope_inv t" and "scope_subscribe t sid reg w = Some (x, t')"
  shows "scope_inv t'"
proof -
  have "scope_inv (scope_get_mut t sid (\<lambda>_. Active ops (AList.update r w ws)))"
    if "scope_get t sid = Some (Active ops ws)" "map_of ws r = Some w'" for ops ws r w'
    using inv that
    by (intro scope_inv_get_mut) (auto simp: scope_inv_alt intro!: scope_ok_update dest: scope_ok_registered)
  with inv assms(2) show ?thesis
    by (auto simp: scope_subscribe_def intro: scope_inv_subscribe_fresh
        split: option.splits scope.splits if_splits)
qed

lemma scope_inv_unsubscribe [inv_intros]:
  assumes "scope_inv t"
  shows "scope_inv (snd (scope_unsubscribe t sid r))"
proof -
  have "scope_inv (scope_get_mut t sid (\<lambda>_. Active ops (AList.delete r ws)))"
    if "scope_get t sid = Some (Active ops ws)" for ops ws
    using assms that by (intro scope_inv_get_mut) (auto simp: scope_inv_alt intro!: scope_ok_delete)
  with assms show ?thesis by (auto simp: scope_unsubscribe_def split: option.splits scope.splits)
qed

section \<open>Steps of the table\<close>

inductive scope_step :: "'w scope_table \<Rightarrow> 'w scope_table \<Rightarrow> bool" where
  step_insert: "scope_insert t = Some (sid, t') \<Longrightarrow> scope_step t t'"
| step_remove: "scope_remove t sid = Some (c, t') \<Longrightarrow> scope_step t t'"
| step_cancel: "scope_step t (snd (scope_cancel t sid))"
| step_attach: "scope_step t (snd (scope_attach t sid key))"
| step_detach: "scope_step t (scope_detach t key)"
| step_subscribe: "scope_subscribe t sid reg w = Some (x, t') \<Longrightarrow> scope_step t t'"
| step_unsubscribe: "scope_step t (snd (scope_unsubscribe t sid r))"

text \<open>
  A slot goes through two phases per generation, active and cancelled. The phase number of a slot only
  grows, and grows when its active scope ends; so the laws of \<open>generational\<close> hold with the phase in
  the place of the generation.
\<close>

definition sc_gen :: "'w scope_table \<Rightarrow> nat \<Rightarrow> nat" where
  "sc_gen t i = unat (case list_get (st_generations t) i of Some g \<Rightarrow> g | None \<Rightarrow> 1)"

definition sc_phase :: "'w scope_table \<Rightarrow> nat \<Rightarrow> nat" where
  "sc_phase t i = 2 * sc_gen t i + (if slab_get (st_entries t) i = Some Cancelled then 1 else 0)"

definition sc_live :: "'w scope_table \<Rightarrow> nat \<Rightarrow> bool" where
  "sc_live t i \<longleftrightarrow> (\<exists>ops ws. slab_get (st_entries t) i = Some (Active ops ws))"

definition sc_same :: "'w scope_table \<Rightarrow> 'w scope_table \<Rightarrow> bool" where
  "sc_same t t' \<longleftrightarrow> sc_phase t' = sc_phase t \<and> sc_live t' = sc_live t"

lemma sc_same_get_mut:
  assumes "scope_get t sid = Some (Active ops ws)"
  shows "sc_same t (scope_get_mut t sid (\<lambda>_. Active ops' ws'))"
  using scope_get_generation [OF assms]
  by (auto simp: sc_same_def sc_phase_def sc_gen_def sc_live_def scope_get_mut_entry fun_eq_iff)

lemma sc_same_trans: "sc_same a b \<Longrightarrow> sc_same b c \<Longrightarrow> sc_same a c"
  by (simp add: sc_same_def)

lemma sc_same_fields [simp]:
  "sc_same t (t'\<lparr>st_attachments := m\<rparr>) = sc_same t t'" "sc_same (t\<lparr>st_attachments := m\<rparr>) t' = sc_same t t'"
  "sc_same t (t'\<lparr>st_next_waiter := n\<rparr>) = sc_same t t'" "sc_same (t\<lparr>st_next_waiter := n\<rparr>) t' = sc_same t t'"
  "sc_same t t"
  by (auto simp: sc_same_def sc_phase_def sc_gen_def sc_live_def fun_eq_iff)

lemma sc_same_detach_loop: "sc_same t (detach_loop t key ids)"
  by (induction t key ids rule: detach_loop.induct)
     (auto split: option.splits scope.splits intro: sc_same_trans sc_same_get_mut)

lemma sc_same_attach: "sc_same t (snd (scope_attach t sid key))"
  by (auto simp: scope_attach_def Let_def sc_same_get_mut split: option.splits scope.splits)

lemma sc_same_detach: "sc_same t (scope_detach t key)"
  using sc_same_detach_loop [of "t\<lparr>st_attachments := (st_attachments t)(key := None)\<rparr>"]
  by (auto simp: scope_detach_def split: option.splits)

lemma sc_same_subscribe_fresh: "subscribe_fresh t sid w = Some (x, t') \<Longrightarrow> sc_same t t'"
  using sc_same_get_mut [of "t\<lparr>st_next_waiter := st_next_waiter t + 1\<rparr>" sid]
  by (auto simp: subscribe_fresh_def Let_def split: option.splits scope.splits if_splits)

lemma sc_same_subscribe: "scope_subscribe t sid reg w = Some (x, t') \<Longrightarrow> sc_same t t'"
  using sc_same_subscribe_fresh
  by (auto simp: scope_subscribe_def sc_same_get_mut split: option.splits scope.splits if_splits)

lemma sc_same_unsubscribe: "sc_same t (snd (scope_unsubscribe t sid r))"
  by (auto simp: scope_unsubscribe_def sc_same_get_mut split: option.splits scope.splits)

lemma scope_step_inv: "scope_step t t' \<Longrightarrow> scope_inv t \<Longrightarrow> scope_inv t'"
  by (induction rule: scope_step.induct) (auto intro: inv_intros)

lemma scope_step_phase:
  assumes "scope_step t t'" and inv: "scope_inv t"
  shows "sc_phase t i \<le> sc_phase t' i \<and> (sc_live t i \<longrightarrow> sc_live t' i \<or> sc_phase t i < sc_phase t' i)"
  using assms(1)
proof cases
  case (step_insert sid)
  note spec = scope_insert_spec [OF scope_invD(1) [OF inv] step_insert]
  show ?thesis
    using spec(7,8,9) by (cases "i = scope_slot sid") (auto simp: sc_phase_def sc_gen_def sc_live_def)
next
  case (step_remove sid c)
  show ?thesis
  proof (cases "scope_get t sid")
    case None
    then have "t' = t" using step_remove by (simp add: scope_remove_def scope_cancel_def)
    then show ?thesis by simp
  next
    case (Some s)
    obtain t1 where t1: "scope_remove t sid = Some (fst (scope_cancel t sid), t1)"
      "\<And>i. i \<noteq> scope_slot sid \<Longrightarrow> slab_get (st_entries t1) i = slab_get (st_entries t) i \<and>
        list_get (st_generations t1) i = list_get (st_generations t) i"
      "(slab_get (st_entries t1) (scope_slot sid) = None \<and> scope_generation sid < - 1 \<and>
         list_get (st_generations t1) (scope_slot sid) = Some (scope_generation sid + 1)) \<or>
        (slab_get (st_entries t1) (scope_slot sid) = Some Cancelled \<and>
         list_get (st_generations t1) (scope_slot sid) = Some (scope_generation sid))"
      using scope_remove_spec [OF scope_invD(1) [OF inv], of sid] Some by (metis option.distinct(1))
    have t': "t1 = t'" using t1(1) step_remove by simp
    have grow: "unat (scope_generation sid + 1) = unat (scope_generation sid) + 1"
      if "scope_generation sid < - 1" using that by (metis Suc_eq_plus1 add.commute
        add_eq_0_iff2 less_irrefl unatSuc)
    show ?thesis
      using t1(2,3) scope_get_generation [OF Some] grow unfolding t'
      by (cases "i = scope_slot sid") (auto simp: sc_phase_def sc_gen_def sc_live_def)
  qed
next
  case (step_cancel sid)
  show ?thesis
  proof (cases "scope_get t sid")
    case None
    then show ?thesis using step_cancel by (simp add: scope_cancel_table)
  next
    case (Some s)
    with step_cancel scope_get_generation [OF Some] show ?thesis
      by (auto simp: scope_cancel_table sc_phase_def sc_gen_def sc_live_def scope_get_mut_entry)
  qed
next
  case (step_attach sid key)
  then show ?thesis using sc_same_attach [of t sid key] by (simp add: sc_same_def)
next
  case (step_detach key)
  then show ?thesis using sc_same_detach [of t key] by (simp add: sc_same_def)
next
  case (step_subscribe sid reg w x)
  then show ?thesis using sc_same_subscribe [OF step_subscribe] by (simp add: sc_same_def)
next
  case (step_unsubscribe sid r)
  then show ?thesis using sc_same_unsubscribe [of t sid r] by (simp add: sc_same_def)
qed

interpretation scopes: generational scope_inv sc_phase sc_live "\<lambda>_ _. False" scope_step
  by unfold_locales (use scope_step_inv scope_step_phase in blast)+

lemma scope_active_current:
  assumes "scope_inv t" and "sid_table sid = st_id t"
  shows "\<not> scope_is_cancelled t sid \<longleftrightarrow>
           scopes.current t (scope_slot sid) (2 * unat (scope_generation sid))"
proof -
  have len: "length (st_generations t) = slab_slots (st_entries t)"
    using assms(1) by (simp add: scope_inv_def scope_shape_def)
  have "\<not> scope_is_cancelled t sid \<longleftrightarrow>
      sc_live t (scope_slot sid) \<and> list_get (st_generations t) (scope_slot sid) = Some (scope_generation sid)"
    using assms(2)
    by (auto simp: scope_is_cancelled_def scope_get_def sc_live_def split: option.splits scope.splits)
  also have "\<dots> \<longleftrightarrow> sc_live t (scope_slot sid) \<and> sc_gen t (scope_slot sid) = unat (scope_generation sid)"
    using len slab_get_bound [of "st_entries t" "scope_slot sid"]
    by (auto simp: sc_live_def sc_gen_def list_get_def word_unat_eq_iff)
  also have "\<dots> \<longleftrightarrow> scopes.current t (scope_slot sid) (2 * unat (scope_generation sid))"
    by (auto simp: scopes.current_def sc_phase_def sc_live_def)
  finally show ?thesis .
qed

lemma scope_step_id: "scope_step t t' \<Longrightarrow> st_id t' = st_id t"
proof (induction rule: scope_step.induct)
  case (step_detach t key)
  have "st_id (detach_loop t' key ids) = st_id t'" for t' :: "'a scope_table" and ids
    by (induction t' key ids rule: detach_loop.induct) (auto split: option.splits scope.splits)
  then show ?case by (auto simp: scope_detach_def split: option.splits)
qed (auto simp: scope_insert_def scope_remove_def scope_cancel_table scope_attach_def scope_subscribe_def
    subscribe_fresh_def scope_unsubscribe_def Let_def case_prod_beta
    split: option.splits scope.splits if_splits)

lemma scope_steps_id: "scope_step\<^sup>*\<^sup>* t t' \<Longrightarrow> st_id t' = st_id t"
  by (induction rule: rtranclp_induct) (auto dest: scope_step_id)

section \<open>Abstract view and properties\<close>

text \<open>
  What a client sees of the table: for every active scope the set of operations attached to it and its
  waiters. Neither slots, generations, the inverse map nor the order inside the hash tables show.
\<close>

definition scope_view :: "'w scope_table \<Rightarrow> scope_id \<rightharpoonup> op_key set \<times> (nat \<rightharpoonup> 'w)" where
  "scope_view t sid =
     (case scope_get t sid of Some (Active ops ws) \<Rightarrow> Some (set ops, map_of ws) | _ \<Rightarrow> None)"

lemma scope_view_get: "scope_view t sid = Some (Ops, W) \<Longrightarrow>
    \<exists>ops ws. scope_get t sid = Some (Active ops ws) \<and> Ops = set ops \<and> W = map_of ws"
  by (auto simp: scope_view_def split: option.splits scope.splits)

lemma scope_view_get_mut:
  "scope_view (scope_get_mut t sid f) x =
     (if x = sid then (case map_option f (scope_get t sid) of
         Some (Active ops ws) \<Rightarrow> Some (set ops, map_of ws) | _ \<Rightarrow> None) else scope_view t x)"
  by (simp add: scope_view_def)

lemma scope_view_cancel:
  assumes "scope_inv t"
  shows "scope_view (snd (scope_cancel t sid)) = (scope_view t)(sid := None)"
    and "set (sx_ops (fst (scope_cancel t sid))) = (case scope_view t sid of Some (Ops, W) \<Rightarrow> Ops | None \<Rightarrow> {})"
    and "set (sx_waiters (fst (scope_cancel t sid))) = (case scope_view t sid of Some (Ops, W) \<Rightarrow> ran W | None \<Rightarrow> {})"
proof -
  show "scope_view (snd (scope_cancel t sid)) = (scope_view t)(sid := None)"
    by (auto simp: scope_cancel_table scope_view_get_mut fun_eq_iff scope_view_def split: option.splits)
  show "set (sx_ops (fst (scope_cancel t sid))) = (case scope_view t sid of Some (Ops, W) \<Rightarrow> Ops | None \<Rightarrow> {})"
    by (auto simp: scope_cancel_def Let_def scope_view_def split: option.splits scope.splits)
  show "set (sx_waiters (fst (scope_cancel t sid))) = (case scope_view t sid of Some (Ops, W) \<Rightarrow> ran W | None \<Rightarrow> {})"
    using scope_invD(3) [OF assms, of sid]
    by (auto simp: scope_cancel_def Let_def scope_view_def ran_distinct split: option.splits scope.splits)
qed

lemma scope_view_attach:
  "scope_view (snd (scope_attach t sid key)) =
     (case scope_view t sid of None \<Rightarrow> scope_view t
      | Some (Ops, W) \<Rightarrow> (scope_view t)(sid \<mapsto> (insert key Ops, W)))"
  "fst (scope_attach t sid key) = Attached \<longleftrightarrow> scope_view t sid \<noteq> None"
  by (auto simp: scope_attach_def Let_def scope_view_def fun_eq_iff insert_absorb
      split: option.splits scope.splits)

lemma scope_view_detach:
  assumes "scope_inv t"
  shows "scope_view (scope_detach t key) = (\<lambda>x. map_option (\<lambda>(Ops, W). (Ops - {key}, W)) (scope_view t x))"
proof
  fix x
  have "scope_view (scope_detach t key) x = (case map_option (scope_drop_op key) (scope_get t x) of
      Some (Active ops ws) \<Rightarrow> Some (set ops, map_of ws) | _ \<Rightarrow> None)"
    unfolding scope_view_def scope_detach_get [OF assms] ..
  then show "scope_view (scope_detach t key) x = map_option (\<lambda>(Ops, W). (Ops - {key}, W)) (scope_view t x)"
    by (auto simp: scope_view_def split: option.splits scope.splits)
qed

text \<open>
  C26. The scope table refines its abstract view. Creating a scope adds an empty one under an unused
  identity; cancelling or removing a scope ends it and hands out exactly its attached operations and
  its registered wakers, and touches no other scope; attaching succeeds exactly on active scopes and
  records the operation there; detaching removes the operation from every scope at once, although
  only the inverse map is consulted; removal never panics.
\<close>

theorem scope_table_refines_view:
  assumes inv: "scope_inv t"
  shows "(scope_insert t = Some (new, t1) \<longrightarrow> scope_get t new = None \<and> scope_view t1 = (scope_view t)(new \<mapsto> ({}, Map.empty))) \<and>
    (let (c, t2) = scope_cancel t sid in
       scope_view t2 = (scope_view t)(sid := None) \<and>
       set (sx_ops c) = (case scope_view t sid of Some (Ops, W) \<Rightarrow> Ops | None \<Rightarrow> {}) \<and>
       set (sx_waiters c) = (case scope_view t sid of Some (Ops, W) \<Rightarrow> ran W | None \<Rightarrow> {}) \<and>
       (\<exists>t3. scope_remove t sid = Some (c, t3) \<and> scope_view t3 = (scope_view t)(sid := None))) \<and>
    (let (r, t4) = scope_attach t sid key in
       (r = Attached \<longleftrightarrow> scope_view t sid \<noteq> None) \<and>
       scope_view t4 = (case scope_view t sid of None \<Rightarrow> scope_view t
                        | Some (Ops, W) \<Rightarrow> (scope_view t)(sid \<mapsto> (insert key Ops, W)))) \<and>
    scope_view (scope_detach t key) = (\<lambda>x. map_option (\<lambda>(Ops, W). (Ops - {key}, W)) (scope_view t x))"
proof (intro conjI)
  show "scope_insert t = Some (new, t1) \<longrightarrow>
      scope_get t new = None \<and> scope_view t1 = (scope_view t)(new \<mapsto> ({}, Map.empty))"
    using scope_insert_spec(2,3) [OF scope_invD(1) [OF inv]] by (auto simp: scope_view_def fun_eq_iff)
  obtain t3 where "scope_remove t sid = Some (fst (scope_cancel t sid), t3)"
    "\<And>x. x \<noteq> sid \<Longrightarrow> scope_get t3 x = scope_get t x" "scope_get t3 sid = None \<or> scope_get t3 sid = Some Cancelled"
    using scope_remove_spec [OF scope_invD(1) [OF inv], of sid] by metis
  then have "\<exists>t3. scope_remove t sid = Some (fst (scope_cancel t sid), t3) \<and> scope_view t3 = (scope_view t)(sid := None)"
    by (auto simp: scope_view_def fun_eq_iff)
  then show "let (c, t2) = scope_cancel t sid in
       scope_view t2 = (scope_view t)(sid := None) \<and>
       set (sx_ops c) = (case scope_view t sid of Some (Ops, W) \<Rightarrow> Ops | None \<Rightarrow> {}) \<and>
       set (sx_waiters c) = (case scope_view t sid of Some (Ops, W) \<Rightarrow> ran W | None \<Rightarrow> {}) \<and>
       (\<exists>t3. scope_remove t sid = Some (c, t3) \<and> scope_view t3 = (scope_view t)(sid := None))"
    using scope_view_cancel [OF inv, of sid] by (simp add: case_prod_beta)
  show "let (r, t4) = scope_attach t sid key in
       (r = Attached \<longleftrightarrow> scope_view t sid \<noteq> None) \<and>
       scope_view t4 = (case scope_view t sid of None \<Rightarrow> scope_view t
                        | Some (Ops, W) \<Rightarrow> (scope_view t)(sid \<mapsto> (insert key Ops, W)))"
    using scope_view_attach [of t sid key] by (simp add: case_prod_beta)
qed (rule scope_view_detach [OF inv])

text \<open>A table with one scope, for the concrete histories.\<close>

definition scope_demo :: "nat scope_table" where
  "scope_demo = snd (the (scope_insert (scope_new 1)))"

definition demo_sid :: scope_id where
  "demo_sid = \<lparr>sid_table = 1, sid_entry = 0x100000000\<rparr>"

lemma demo_scope_insert: "scope_insert (scope_new 1 :: nat scope_table) = Some (demo_sid, scope_demo)"
proof -
  have "scope_insert (scope_new 1 :: nat scope_table) \<noteq> None"
    "map_option fst (scope_insert (scope_new 1 :: nat scope_table)) = Some demo_sid"
    by (simp_all add: scope_insert_def scope_new_def slab_new_def slab_vacant_key_def resize_to_def list_get_def
        scope_from_parts_def u32_max_def slab_insert_def slab_insert_at_def demo_sid_def push_bit_eq_mult)
  then show ?thesis by (auto simp: scope_demo_def)
qed

theorem scope_table_refines_view_witness:
  "\<exists>t. scope_attach scope_demo demo_sid (OpKey 5) = (Attached, t) \<and>
       scope_view t demo_sid = Some ({OpKey 5}, Map.empty) \<and>
       scope_view (scope_detach t (OpKey 5)) demo_sid = Some ({}, Map.empty)"
proof -
  let ?t = "snd (scope_attach scope_demo demo_sid (OpKey 5))"
  have inv: "scope_inv scope_demo" using scope_inv_insert [OF scope_inv_new demo_scope_insert] .
  have v: "scope_view scope_demo demo_sid = Some ({}, Map.empty)"
    using scope_table_refines_view [OF scope_inv_new, of 1 demo_sid scope_demo] demo_scope_insert by simp
  have a: "scope_attach scope_demo demo_sid (OpKey 5) = (Attached, ?t)"
    "scope_view ?t demo_sid = Some ({OpKey 5}, Map.empty)"
    using scope_table_refines_view [OF inv, of demo_sid scope_demo demo_sid "OpKey 5"] v
    by (auto simp: case_prod_beta prod_eq_iff)
  have "scope_view (scope_detach ?t (OpKey 5)) demo_sid = Some ({}, Map.empty)"
    using scope_table_refines_view [OF scope_inv_attach [OF inv], of demo_sid "OpKey 5" demo_sid ?t demo_sid "OpKey 5"] a(2)
    by simp
  with a show ?thesis by blast
qed

text \<open>
  Cancellation is final. A scope that was active and has since been cancelled or removed stays
  cancelled whatever happens to the table afterwards, also when its slot is reused by later scopes; and
  no later scope ever gets the same identity.
\<close>

theorem scope_cancel_is_final:
  assumes "scope_step\<^sup>*\<^sup>* (scope_new table_id) s" and act: "\<not> scope_is_cancelled s sid"
    and st: "scope_step\<^sup>*\<^sup>* s t" and can: "scope_is_cancelled t sid" and tu: "scope_step\<^sup>*\<^sup>* t u"
  shows "scope_is_cancelled u sid \<and> (\<forall>t'. scope_insert u \<noteq> Some (sid, t'))"
proof -
  have inv: "scope_inv s" using scopes.steps_inv [OF assms(1) scope_inv_new] .
  have invt: "scope_inv t" using scopes.steps_inv [OF st inv] .
  have invu: "scope_inv u" using scopes.steps_inv [OF tu invt] .
  have tab: "sid_table sid = st_id s"
    using act by (auto simp: scope_is_cancelled_def scope_get_def split: if_splits)
  have ids: "st_id t = st_id s" "st_id u = st_id s" using scope_steps_id [OF st] scope_steps_id [OF tu] by auto
  let ?i = "scope_slot sid" and ?p = "2 * unat (scope_generation sid)"
  have cur: "scopes.current s ?i ?p" using scope_active_current [OF inv tab] act by simp
  have dead: "\<not> scopes.current t ?i ?p" using scope_active_current [OF invt, of sid] tab ids can by simp
  have never: "scope_is_cancelled v sid" if v: "scope_step\<^sup>*\<^sup>* t v" for v
    using scopes.never_resurrected [OF inv cur st dead v] scope_active_current [OF scopes.steps_inv [OF v invt]]
      tab ids scope_steps_id [OF v] by auto
  have "scope_insert u \<noteq> Some (sid, t')" for t'
  proof
    assume ins: "scope_insert u = Some (sid, t')"
    have "scope_get t' sid = Some (Active [] [])"
      using scope_insert_spec(3) [OF scope_invD(1) [OF invu] ins] by simp
    moreover have "scope_is_cancelled t' sid"
      using never [OF rtranclp.rtrancl_into_rtrancl [OF tu scope_step.step_insert [OF ins]]] .
    ultimately show False by (simp add: scope_is_cancelled_def)
  qed
  with never [OF tu] show ?thesis by blast
qed

definition scope_demo2 :: "nat scope_table" where
  "scope_demo2 = \<lparr>st_id = 1, st_entries = \<lparr>sl_entries = [Vacant 1], sl_len = 0, sl_next = 0\<rparr>,
      st_generations = [2], st_attachments = Map.empty, st_next_waiter = 1\<rparr>"

definition scope_demo3 :: "nat scope_table" where
  "scope_demo3 = snd (the (scope_insert scope_demo2))"

lemma demo_scope_remove: "scope_remove scope_demo demo_sid = Some (\<lparr>sx_ops = [], sx_waiters = []\<rparr>, scope_demo2)"
  and demo_scope_status: "\<not> scope_is_cancelled scope_demo demo_sid" "scope_is_cancelled scope_demo2 demo_sid"
proof -
  have ent: "scope_demo = \<lparr>st_id = 1, st_entries = \<lparr>sl_entries = [Occupied (Active [] [])], sl_len = 1, sl_next = 1\<rparr>,
      st_generations = [1], st_attachments = Map.empty, st_next_waiter = 1\<rparr>"
    by (simp add: scope_demo_def scope_insert_def scope_new_def slab_new_def slab_vacant_key_def resize_to_def
        list_get_def scope_from_parts_def u32_max_def slab_insert_def slab_insert_at_def)
  have parts: "scope_slot demo_sid = 0" "scope_generation demo_sid = 1" "sid_table demo_sid = 1"
    by (simp_all add: demo_sid_def scope_slot_def scope_generation_def drop_bit_eq_div)
  have lt: "(1 :: u32) < - 1" by (simp add: word_less_nat_alt unsigned_minus_1_eq_mask mask_numeral)
  show "scope_remove scope_demo demo_sid = Some (\<lparr>sx_ops = [], sx_waiters = []\<rparr>, scope_demo2)"
    "\<not> scope_is_cancelled scope_demo demo_sid" "scope_is_cancelled scope_demo2 demo_sid"
    by (simp_all add: ent parts lt scope_demo2_def scope_remove_def scope_cancel_def scope_get_def scope_get_mut_def
        list_get_def slab_get_def slab_get_mut_def slab_try_remove_def scope_is_cancelled_def)
qed

lemma demo_scope_reinsert: "\<exists>sid'. scope_insert scope_demo2 = Some (sid', scope_demo3)"
  by (simp add: scope_demo3_def scope_demo2_def scope_insert_def slab_vacant_key_def list_get_def
      scope_from_parts_def u32_max_def slab_insert_def slab_insert_at_def)

theorem scope_cancel_is_final_witness:
  "\<exists>sid'. scope_insert scope_demo2 = Some (sid', scope_demo3) \<and> scope_is_cancelled scope_demo3 demo_sid"
proof -
  obtain sid' where ins: "scope_insert scope_demo2 = Some (sid', scope_demo3)"
    using demo_scope_reinsert by blast
  have steps: "scope_step\<^sup>*\<^sup>* (scope_new 1) scope_demo" "scope_step\<^sup>*\<^sup>* scope_demo scope_demo2"
    "scope_step\<^sup>*\<^sup>* scope_demo2 scope_demo3"
    using scope_step.step_insert [OF demo_scope_insert] scope_step.step_remove [OF demo_scope_remove]
      scope_step.step_insert [OF ins] by blast+
  have "scope_is_cancelled scope_demo3 demo_sid"
    using scope_cancel_is_final [OF steps(1) demo_scope_status(1) steps(2) demo_scope_status(2) steps(3)] by simp
  with ins show ?thesis by blast
qed

end
