(* ===== verification/Driver_Scopes.thy ===== *)
theory Driver_Scopes
  imports Scopes
begin

text \<open>
  The driver's side of cancellation: the scope functions of \<^verbatim>\<open>karmaio/src/driver.rs\<close> and the public
  sources, tokens and waiting futures of \<^verbatim>\<open>karmaio/src/runtime/cancel.rs\<close>. The platform backend is a
  parameter (\<open>backend\<close>): the driver only calls its \<^verbatim>\<open>submit_op\<close> and \<^verbatim>\<open>cancel_op\<close>. The scopes wrapping the
  current poll are a list, innermost first, the linked \<^verbatim>\<open>ScopeFrame\<close>s of the source; waking a waker is
  recorded in \<open>dr_wakes\<close>.
\<close>

record ('b, 'd) backend =
  be_submit :: "'d \<Rightarrow> 'b \<Rightarrow> ((io_error \<times> 'd) + op_key) \<times> 'b"
  be_cancel :: "op_key \<Rightarrow> 'b \<Rightarrow> 'b"

record ('b, 'w) driver =
  dr_backend :: 'b
  dr_scopes :: "'w scope_table"
  dr_wakes :: "'w list"

section \<open>Operation errors at the I/O boundary\<close>

definition ECANCELED :: int where "ECANCELED = 125"

definition operation_canceled :: io_error where "operation_canceled = Canceled"

definition is_raw_canceled :: "io_error \<Rightarrow> bool" where
  "is_raw_canceled err \<longleftrightarrow> err = RawOs ECANCELED"

definition is_operation_canceled :: "io_error \<Rightarrow> bool" where
  "is_operation_canceled err \<longleftrightarrow> err = Canceled \<or> is_raw_canceled err"

definition map_cancel_result :: "'a io_result \<Rightarrow> 'a io_result" where
  "map_cancel_result result =
     (case result of
        Inr v \<Rightarrow> Inr v
      | Inl e \<Rightarrow> if is_raw_canceled e then Inl operation_canceled else Inl e)"

section \<open>Driver functions\<close>

definition with_scope :: "scope_id \<Rightarrow> (scope_id list \<Rightarrow> 'r) \<Rightarrow> scope_id list \<Rightarrow> 'r" where
  "with_scope sid f stack = f (sid # stack)"

definition for_each_current_scope :: "(scope_id \<Rightarrow> 's \<Rightarrow> 's) \<Rightarrow> scope_id list \<Rightarrow> 's \<Rightarrow> 's" where
  "for_each_current_scope f stack s = fold f stack s"

definition dr_cancel_op :: "('b, 'd) backend \<Rightarrow> op_key \<Rightarrow> ('b, 'w) driver \<Rightarrow> ('b, 'w) driver" where
  "dr_cancel_op be key d = d\<lparr>dr_backend := be_cancel be key (dr_backend d)\<rparr>"

definition insert_scope :: "('b, 'w) driver \<Rightarrow> (scope_id \<times> ('b, 'w) driver) option" where
  "insert_scope d = map_option (\<lambda>(sid, t). (sid, d\<lparr>dr_scopes := t\<rparr>)) (scope_insert (dr_scopes d))"

definition apply_scope_cancel ::
  "('b, 'd) backend \<Rightarrow> 'w scope_cancelled \<Rightarrow> ('b, 'w) driver \<Rightarrow> ('b, 'w) driver" where
  "apply_scope_cancel be cancelled d =
     fold (dr_cancel_op be) (sx_ops cancelled) (d\<lparr>dr_wakes := dr_wakes d @ sx_waiters cancelled\<rparr>)"

definition remove_scope :: "('b, 'd) backend \<Rightarrow> scope_id \<Rightarrow> ('b, 'w) driver \<Rightarrow> ('b, 'w) driver option" where
  "remove_scope be sid d =
     (case scope_remove (dr_scopes d) sid of
        None \<Rightarrow> None
      | Some (cancelled, t) \<Rightarrow> Some (apply_scope_cancel be cancelled (d\<lparr>dr_scopes := t\<rparr>)))"

definition cancel_scope :: "('b, 'd) backend \<Rightarrow> scope_id \<Rightarrow> ('b, 'w) driver \<Rightarrow> ('b, 'w) driver" where
  "cancel_scope be sid d =
     (let (cancelled, t) = scope_cancel (dr_scopes d) sid
      in apply_scope_cancel be cancelled (d\<lparr>dr_scopes := t\<rparr>))"

definition dr_is_cancelled :: "('b, 'w) driver \<Rightarrow> scope_id \<Rightarrow> bool" where
  "dr_is_cancelled d sid = scope_is_cancelled (dr_scopes d) sid"

definition subscribe_scope ::
  "scope_id \<Rightarrow> nat option \<Rightarrow> 'w \<Rightarrow> ('b, 'w) driver \<Rightarrow> (subscribe_result \<times> ('b, 'w) driver) option" where
  "subscribe_scope sid registration waker d =
     map_option (\<lambda>(s, t). (ss_result s, d\<lparr>dr_scopes := t\<rparr>)) (scope_subscribe (dr_scopes d) sid registration waker)"

definition unsubscribe_scope :: "scope_id \<Rightarrow> nat \<Rightarrow> ('b, 'w) driver \<Rightarrow> ('b, 'w) driver" where
  "unsubscribe_scope sid registration d =
     d\<lparr>dr_scopes := snd (scope_unsubscribe (dr_scopes d) sid registration)\<rparr>"

definition attach_scope :: "scope_id \<Rightarrow> op_key \<Rightarrow> ('b, 'w) driver \<Rightarrow> attach_result \<times> ('b, 'w) driver" where
  "attach_scope sid key d =
     (let (r, t) = scope_attach (dr_scopes d) sid key in (r, d\<lparr>dr_scopes := t\<rparr>))"

definition detach_scope_op :: "op_key \<Rightarrow> ('b, 'w) driver \<Rightarrow> ('b, 'w) driver" where
  "detach_scope_op key d = d\<lparr>dr_scopes := scope_detach (dr_scopes d) key\<rparr>"

definition current_scopes_block_submit :: "scope_id list \<Rightarrow> ('b, 'w) driver \<Rightarrow> bool" where
  "current_scopes_block_submit stack d =
     for_each_current_scope (\<lambda>sid cancelled. if dr_is_cancelled d sid then True else cancelled) stack False"

definition bind_key_to_current_scopes ::
  "('b, 'd) backend \<Rightarrow> scope_id list \<Rightarrow> op_key \<Rightarrow> ('b, 'w) driver \<Rightarrow> ('b, 'w) driver" where
  "bind_key_to_current_scopes be stack key d =
     for_each_current_scope
       (\<lambda>sid d. let (r, d') = attach_scope sid key d
                in if r = AttachCancelled then dr_cancel_op be key d' else d') stack d"

definition try_submit_op ::
  "('b, 'd) backend \<Rightarrow> scope_id list \<Rightarrow> 'd \<Rightarrow> ('b, 'w) driver \<Rightarrow> ((io_error \<times> 'd) + op_key) \<times> ('b, 'w) driver" where
  "try_submit_op be stack data d =
     (if current_scopes_block_submit stack d then (Inl (operation_canceled, data), d)
      else
        let (r, b) = be_submit be data (dr_backend d); d1 = d\<lparr>dr_backend := b\<rparr> in
        (case r of
           Inl e \<Rightarrow> (Inl e, d1)
         | Inr key \<Rightarrow> (Inr key, bind_key_to_current_scopes be stack key d1)))"

definition submit_op ::
  "('b, 'd) backend \<Rightarrow> scope_id list \<Rightarrow> 'd \<Rightarrow> ('b, 'w) driver \<Rightarrow> op_key io_result \<times> ('b, 'w) driver" where
  "submit_op be stack data d =
     (case try_submit_op be stack data d of
        (Inr key, d') \<Rightarrow> (Inr key, d')
      | (Inl (error, _), d') \<Rightarrow> (Inl error, d'))"

section \<open>Sources, tokens and waiting futures\<close>

text \<open>
  A \<^verbatim>\<open>Handle\<close> holds weak references: its operations fall back to a default when the driver is gone,
  which is \<open>None\<close> below.
\<close>

definition handle_cancel_scope ::
  "('b, 'd) backend \<Rightarrow> scope_id \<Rightarrow> ('b, 'w) driver option \<Rightarrow> ('b, 'w) driver option" where
  "handle_cancel_scope be sid h = map_option (cancel_scope be sid) h"

definition handle_is_cancelled :: "('b, 'w) driver option \<Rightarrow> scope_id \<Rightarrow> bool" where
  "handle_is_cancelled h sid = (case h of Some d \<Rightarrow> dr_is_cancelled d sid | None \<Rightarrow> True)"

definition handle_subscribe ::
  "scope_id \<Rightarrow> nat option \<Rightarrow> 'w \<Rightarrow> ('b, 'w) driver option \<Rightarrow> (subscribe_result \<times> ('b, 'w) driver option) option" where
  "handle_subscribe sid registration waker h =
     (case h of
        None \<Rightarrow> Some (SubReady, None)
      | Some d \<Rightarrow> map_option (\<lambda>(r, d'). (r, Some d')) (subscribe_scope sid registration waker d))"

definition handle_unsubscribe :: "scope_id \<Rightarrow> nat \<Rightarrow> ('b, 'w) driver option \<Rightarrow> ('b, 'w) driver option" where
  "handle_unsubscribe sid registration h = map_option (unsubscribe_scope sid registration) h"

record wait_future =
  wf_id :: scope_id
  wf_driver :: bool
  wf_registration :: "nat option"

definition cancelled_future :: "scope_id \<Rightarrow> wait_future" where
  "cancelled_future sid = \<lparr>wf_id = sid, wf_driver = False, wf_registration = None\<rparr>"

text \<open>
  \<^verbatim>\<open>WaitFuture::poll\<close>: \<open>in_runtime\<close> says whether a runtime is current on the thread, needed by the first poll
  only, which keeps its handle.
\<close>

definition wait_poll ::
  "bool \<Rightarrow> 'w \<Rightarrow> wait_future \<Rightarrow> ('b, 'w) driver option \<Rightarrow> (unit poll \<times> wait_future \<times> ('b, 'w) driver option) option" where
  "wait_poll in_runtime waker f h =
     (if \<not> wf_driver f \<and> \<not> in_runtime then None
      else
        let f1 = f\<lparr>wf_driver := True\<rparr> in
        (case handle_subscribe (wf_id f1) (wf_registration f1) waker h of
           None \<Rightarrow> None
         | Some (SubReady, h') \<Rightarrow> Some (Ready (), f1\<lparr>wf_registration := None\<rparr>, h')
         | Some (SubPending r, h') \<Rightarrow> Some (Pending, f1\<lparr>wf_registration := Some r\<rparr>, h')))"

definition wait_drop :: "wait_future \<Rightarrow> ('b, 'w) driver option \<Rightarrow> ('b, 'w) driver option" where
  "wait_drop f h =
     (case (wf_driver f, wf_registration f) of
        (True, Some registration) \<Rightarrow> handle_unsubscribe (wf_id f) registration h
      | _ \<Rightarrow> h)"

definition with_cancellation_poll :: "scope_id \<Rightarrow> (scope_id list \<Rightarrow> 'r) \<Rightarrow> scope_id list \<Rightarrow> 'r" where
  "with_cancellation_poll token poll stack = with_scope token poll stack"

section \<open>Lemmas\<close>

lemma block_submit_iff:
  "current_scopes_block_submit stack d \<longleftrightarrow> (\<exists>sid \<in> set stack. dr_is_cancelled d sid)"
proof -
  have "fold (\<lambda>sid c. if dr_is_cancelled d sid then True else c) xs b \<longleftrightarrow>
      b \<or> (\<exists>sid \<in> set xs. dr_is_cancelled d sid)" for xs b
    by (induction xs arbitrary: b) auto
  then show ?thesis by (simp add: current_scopes_block_submit_def for_each_current_scope_def)
qed

lemma is_cancelled_view: "scope_is_cancelled t sid \<longleftrightarrow> scope_view t sid = None"
  by (auto simp: scope_is_cancelled_def scope_view_def split: option.splits scope.splits)

text \<open>Binding a key to scopes that are all active attaches it everywhere and cancels nothing.\<close>

lemma bind_active:
  assumes "\<forall>sid \<in> set stack. \<not> dr_is_cancelled d sid" and "scope_inv (dr_scopes d)"
  shows "\<exists>t. bind_key_to_current_scopes be stack key d = d\<lparr>dr_scopes := t\<rparr> \<and> scope_inv t \<and>
           (\<forall>sid. scope_view t sid = map_option (\<lambda>(Ops, W). (if sid \<in> set stack then insert key Ops else Ops, W))
                                       (scope_view (dr_scopes d) sid))"
  using assms
proof (induction stack arbitrary: d)
  case Nil
  have "d = d\<lparr>dr_scopes := dr_scopes d\<rparr>" by simp
  with Nil show ?case
    by (intro exI [of _ "dr_scopes d"])
       (auto simp: bind_key_to_current_scopes_def for_each_current_scope_def option.map_ident case_prod_beta)
next
  case (Cons sid stack)
  let ?t = "snd (scope_attach (dr_scopes d) sid key)"
  let ?d = "d\<lparr>dr_scopes := ?t\<rparr>"
  obtain Ops W where v: "scope_view (dr_scopes d) sid = Some (Ops, W)"
    using Cons.prems(1) by (auto simp: dr_is_cancelled_def is_cancelled_view)
  have att: "fst (scope_attach (dr_scopes d) sid key) = Attached"
    and v': "scope_view ?t = (scope_view (dr_scopes d))(sid \<mapsto> (insert key Ops, W))"
    using scope_view_attach [of "dr_scopes d" sid key] v by simp_all
  have step: "bind_key_to_current_scopes be (sid # stack) key d = bind_key_to_current_scopes be stack key ?d"
    using att by (simp add: bind_key_to_current_scopes_def for_each_current_scope_def attach_scope_def case_prod_beta)
  have "\<forall>s \<in> set stack. \<not> dr_is_cancelled ?d s"
    using Cons.prems(1) v' by (auto simp: dr_is_cancelled_def is_cancelled_view)
  moreover have "scope_inv (dr_scopes ?d)" using scope_inv_attach [OF Cons.prems(2)] by simp
  ultimately obtain t where t: "bind_key_to_current_scopes be stack key ?d = ?d\<lparr>dr_scopes := t\<rparr>" "scope_inv t"
    "\<forall>s. scope_view t s = map_option (\<lambda>(Ops, W). (if s \<in> set stack then insert key Ops else Ops, W)) (scope_view ?t s)"
    using Cons.IH [of ?d] by auto
  show ?case
    using t v v' step by (intro exI [of _ t]) (auto simp: insert_absorb)
qed

lemma cancel_ops_backend:
  "fold (dr_cancel_op be) ops d = d\<lparr>dr_backend := fold (be_cancel be) ops (dr_backend d)\<rparr>"
  by (induction ops arbitrary: d) (simp_all add: dr_cancel_op_def)

lemma cancel_scope_effect:
  "cancel_scope be sid d =
     d\<lparr>dr_scopes := snd (scope_cancel (dr_scopes d) sid),
       dr_wakes := dr_wakes d @ sx_waiters (fst (scope_cancel (dr_scopes d) sid)),
       dr_backend := fold (be_cancel be) (sx_ops (fst (scope_cancel (dr_scopes d) sid))) (dr_backend d)\<rparr>"
  by (simp add: cancel_scope_def apply_scope_cancel_def cancel_ops_backend case_prod_beta)

lemma subscribe_pending_view:
  assumes "scope_subscribe t sid reg w = Some (s, t')" and "ss_result s = SubPending r"
  shows "\<exists>Ops W. scope_view t' sid = Some (Ops, W) \<and> W r = Some w"
proof -
  have fresh: "\<exists>Ops W. scope_view t' sid = Some (Ops, W) \<and> W r = Some w"
    if "subscribe_fresh t sid w = Some (s, t')"
    using that assms(2)
    by (auto simp: subscribe_fresh_def Let_def scope_view_get_mut update_conv'
        split: option.splits scope.splits if_splits)
  show ?thesis
    using assms fresh
    by (auto simp: scope_subscribe_def scope_view_get_mut update_conv' scope_view_def
        split: option.splits scope.splits if_splits)
qed

lemma subscribe_ready_iff:
  assumes "scope_subscribe t sid reg w = Some (s, t')"
  shows "ss_result s = SubReady \<longleftrightarrow> scope_is_cancelled t sid"
  using assms
  by (auto simp: scope_subscribe_def subscribe_fresh_def Let_def scope_is_cancelled_def
      split: option.splits scope.splits if_splits)

section \<open>Properties\<close>


definition log_backend :: "(op_key list, nat) backend" where
  "log_backend = \<lparr>be_submit = (\<lambda>n b. (Inr (OpKey 0x100000001), b)), be_cancel = (\<lambda>k b. b @ [k])\<rparr>"

definition demo_driver :: "(op_key list, nat) driver" where
  "demo_driver = \<lparr>dr_backend = [], dr_scopes = scope_demo, dr_wakes = []\<rparr>"




end
