(* ===== verification/Uring_Ops.thy ===== *)
theory Uring_Ops
  imports Uring_Safety Driver_Scopes
begin

text \<open>
  The futures and streams of operations on the io_uring backend (\<^verbatim>\<open>karmaio/src/driver/ops.rs\<close> and the Linux half
  of \<^verbatim>\<open>karmaio/src/driver.rs\<close>), and a program made of any number of them: a run is any sequence of
  submissions, polls, drops, cancellations and driver turns.  Cancellation scopes are the
  subject of \<^verbatim>\<open>Driver_Scopes\<close>; here a cancellation of any key may come at any time.
\<close>

section \<open>Futures\<close>

text \<open>\<^verbatim>\<open>Driver::poll_op\<close>: when ready, the payload leaves the future together with its completion.\<close>

definition driver_poll_op ::
  "'w \<Rightarrow> 'd op \<Rightarrow> ('w, 'd) uring \<Rightarrow> (('d \<times> completion) poll \<times> 'd op \<times> ('w, 'd) uring) option" where
  "driver_poll_op w f u =
     (case poll_op w f u of
        None \<Rightarrow> None
      | Some (Pending, u) \<Rightarrow> Some (Pending, f, u)
      | Some (Ready c, u) \<Rightarrow>
          (case op_data f of
             None \<Rightarrow> None
           | Some d \<Rightarrow>
               Some (Ready (d, c\<lparr>cp_result := map_cancel_result (cp_result c)\<rparr>), f\<lparr>op_data := None\<rparr>, u)))"

text \<open>\<^verbatim>\<open>Drop for Op\<close>: request cancellation, then detach; an unread completion is consumed with its payload.\<close>

definition op_drop :: "cqe_abi \<Rightarrow> 'd op \<Rightarrow> ('w, 'd) uring \<Rightarrow> (('d \<times> completion) option \<times> ('w, 'd) uring) outcome" where
  "op_drop abi f u =
     obind (cancel_op abi (op_id f) u) (\<lambda>u.
     ounwrap (remove_op f u) (\<lambda>(c, f, u).
     Done (case c of None \<Rightarrow> None | Some c \<Rightarrow> map_option (\<lambda>d. (d, c)) (op_data f), u)))"

section \<open>Streams\<close>

datatype 'd multi_op = MultiPending 'd | MultiActive op_key 'd | MultiTerminated

text \<open>What an operation's type provides: its items, its submission error, its cleanup and its limit.\<close>

record ('d, 'i) stream_proto =
  sp_item :: "'d \<Rightarrow> completion \<Rightarrow> 'i option"
  sp_error :: "io_error \<Rightarrow> 'i"
  sp_cleanup :: "'d \<Rightarrow> cleanup"
  sp_limit :: "'d \<Rightarrow> nat option"

definition multi_active_next ::
  "cqe_abi \<Rightarrow> ('d, 'i) stream_proto \<Rightarrow> 'w \<Rightarrow> op_key \<Rightarrow> 'd \<Rightarrow> ('w, 'd) uring \<Rightarrow>
     ('i option poll \<times> 'd multi_op \<times> ('w, 'd) uring) outcome" where
  "multi_active_next abi sp w k d u =
     ounwrap (poll_multi_op w k u) (\<lambda>(r, u).
       case r of
         Pending \<Rightarrow> Done (Pending, MultiActive k d, u)
       | Ready None \<Rightarrow> Done (Ready None, MultiTerminated, u)
       | Ready (Some c) \<Rightarrow>
           if sp_item sp d c = None
           then obind (remove_multi_op abi k d u) (\<lambda>u. Done (Ready None, MultiTerminated, u))
           else Done (Ready (sp_item sp d c), MultiActive k d, u))"

definition multi_next ::
  "cqe_abi \<Rightarrow> ('d, 'i) stream_proto \<Rightarrow> 'w \<Rightarrow> 'd multi_op \<Rightarrow> ('w, 'd) uring \<Rightarrow>
     ('i option poll \<times> 'd multi_op \<times> ('w, 'd) uring) outcome" where
  "multi_next abi sp w m u =
     (case m of
        MultiTerminated \<Rightarrow> Done (Ready None, MultiTerminated, u)
      | MultiPending d \<Rightarrow>
          obind (submit_multi_op abi (sp_cleanup sp d) (sp_limit sp d) u) (\<lambda>(r, u).
            case r of
              Inl e \<Rightarrow> Done (Ready (Some (sp_error sp e)), MultiTerminated, u)
            | Inr k \<Rightarrow> multi_active_next abi sp w k d u)
      | MultiActive k d \<Rightarrow> multi_active_next abi sp w k d u)"

definition multi_drop :: "cqe_abi \<Rightarrow> 'd multi_op \<Rightarrow> ('w, 'd) uring \<Rightarrow> ('w, 'd) uring outcome" where
  "multi_drop abi m u = (case m of MultiActive k d \<Rightarrow> remove_multi_op abi k d u | _ \<Rightarrow> Done u)"

section \<open>A program\<close>

text \<open>\<open>pg_outputs\<close> logs what \<^verbatim>\<open>complete\<close> was called with, \<open>pg_items\<close> what the streams yielded.\<close>

record ('w, 'd, 'i) program =
  pg_ring :: "('w, 'd) uring"
  pg_owners :: "'d owners"
  pg_outputs :: "(op_key \<times> 'd \<times> completion) list"
  pg_items :: "'i list"

datatype ('w, 'd) uring_action =
    DoSubmit 'd
  | DoPoll op_key 'w
  | DoDrop op_key
  | DoStart 'd 'w
  | DoNext op_key 'w
  | DoEnd op_key
  | DoCancel op_key
  | DoTurn bool

text \<open>The owners after one poll of an active stream: a terminated stream has given its payload up.\<close>

definition after_next ::
  "op_key \<Rightarrow> 'i option poll \<Rightarrow> 'd multi_op \<Rightarrow> ('w, 'd) uring \<Rightarrow> ('w, 'd, 'i) program \<Rightarrow> ('w, 'd, 'i) program" where
  "after_next k r m u p =
     p\<lparr>pg_ring := u,
       pg_owners := (case m of MultiTerminated \<Rightarrow> drop_owner k (pg_owners p) | _ \<Rightarrow> pg_owners p),
       pg_items := pg_items p @ (case r of Ready (Some i) \<Rightarrow> [i] | _ \<Rightarrow> [])\<rparr>"

text \<open>\<open>DoStart\<close> is the first poll of a stream, which submits its request (\<open>start_is_next\<close>).\<close>

fun uring_act ::
  "cqe_abi \<Rightarrow> ('d, 'i) stream_proto \<Rightarrow> ('w, 'd) uring_action \<Rightarrow> ('w, 'd, 'i) program \<Rightarrow> ('w, 'd, 'i) program outcome" where
  "uring_act abi sp (DoSubmit d) p =
     obind (uring_submit_op abi d (pg_ring p)) (\<lambda>(r, u).
       Done (p\<lparr>pg_ring := u, pg_owners := (case r of Inl _ \<Rightarrow> pg_owners p | Inr f \<Rightarrow> built (op_id f) False d (pg_owners p))\<rparr>))"
| "uring_act abi sp (DoPoll k w) p =
     (case ow_ops (pg_owners p) k of
        None \<Rightarrow> Blocked
      | Some d \<Rightarrow>
          ounwrap (driver_poll_op w \<lparr>op_id = k, op_data = Some d\<rparr> (pg_ring p)) (\<lambda>(r, f, u).
            Done (case r of
                Pending \<Rightarrow> p\<lparr>pg_ring := u\<rparr>
              | Ready out \<Rightarrow> p\<lparr>pg_ring := u, pg_owners := drop_owner k (pg_owners p), pg_outputs := pg_outputs p @ [(k, out)]\<rparr>)))"
| "uring_act abi sp (DoDrop k) p =
     (case ow_ops (pg_owners p) k of
        None \<Rightarrow> Blocked
      | Some d \<Rightarrow>
          obind (op_drop abi \<lparr>op_id = k, op_data = Some d\<rparr> (pg_ring p)) (\<lambda>(out, u).
            Done (p\<lparr>pg_ring := u, pg_owners := drop_owner k (pg_owners p),
                    pg_outputs := pg_outputs p @ map (Pair k) (option_list out)\<rparr>)))"
| "uring_act abi sp (DoStart d w) p =
     obind (submit_multi_op abi (sp_cleanup sp d) (sp_limit sp d) (pg_ring p)) (\<lambda>(r, u).
       case r of
         Inl e \<Rightarrow> Done (p\<lparr>pg_ring := u, pg_items := pg_items p @ [sp_error sp e]\<rparr>)
       | Inr k \<Rightarrow>
           obind (multi_active_next abi sp w k d u) (\<lambda>(r, m, u).
             Done (after_next k r m u (p\<lparr>pg_owners := built k True d (pg_owners p)\<rparr>))))"
| "uring_act abi sp (DoNext k w) p =
     (case ow_streams (pg_owners p) k of
        None \<Rightarrow> Blocked
      | Some d \<Rightarrow>
          obind (multi_next abi sp w (MultiActive k d) (pg_ring p)) (\<lambda>(r, m, u). Done (after_next k r m u p)))"
| "uring_act abi sp (DoEnd k) p =
     (case ow_streams (pg_owners p) k of
        None \<Rightarrow> Blocked
      | Some d \<Rightarrow>
          obind (multi_drop abi (MultiActive k d) (pg_ring p)) (\<lambda>u.
            Done (p\<lparr>pg_ring := u, pg_owners := drop_owner k (pg_owners p)\<rparr>)))"
| "uring_act abi sp (DoCancel k) p = obind (cancel_op abi k (pg_ring p)) (\<lambda>u. Done (p\<lparr>pg_ring := u\<rparr>))"
| "uring_act abi sp (DoTurn timed) p = obind (turn abi timed (pg_ring p)) (\<lambda>(r, u). Done (p\<lparr>pg_ring := u\<rparr>))"

definition no_owners :: "(op_key \<Rightarrow> 'd) \<Rightarrow> 'd owners" where
  "no_owners g = \<lparr>ow_ops = (\<lambda>_. None), ow_streams = (\<lambda>_. None), ow_payload = g, ow_building = (\<lambda>_. None), ow_shut = False\<rparr>"

inductive uring_reach :: "cqe_abi \<Rightarrow> ('d, 'i) stream_proto \<Rightarrow> ('w, 'd, 'i) program \<Rightarrow> bool" for abi sp where
  uring_start: "uring_new abi capacity fd ring script = Done (Inr u) \<Longrightarrow>
     uring_reach abi sp \<lparr>pg_ring = u, pg_owners = no_owners g, pg_outputs = [], pg_items = []\<rparr>"
| uring_step: "uring_reach abi sp p \<Longrightarrow> uring_act abi sp a p = Done p' \<Longrightarrow> uring_reach abi sp p'"

section \<open>Invariant\<close>

definition program_inv :: "cqe_abi \<Rightarrow> ('w, 'd, 'i) program \<Rightarrow> bool" where
  "program_inv abi p \<longleftrightarrow> ring_inv abi (pg_owners p) (pg_ring p) \<and> no_building (pg_owners p) \<and> \<not> ow_shut (pg_owners p)"

lemma program_invD:
  assumes "program_inv abi p"
  shows "ring_inv abi (pg_owners p) (pg_ring p)" "no_building (pg_owners p)" "\<not> ur_shutting_down (pg_ring p)"
  using assms ring_coreD(4) [OF ring_invD(1)] by (auto simp: program_inv_def)

lemma no_building_owners [simp]:
  "no_building (built k m d W) = no_building W" "no_building (drop_owner k W) = no_building W"
  "ow_shut (built k m d W) = ow_shut W"
  by (simp_all add: no_building_def built_def drop_owner_def)

lemma uring_new_inv:
  assumes "uring_new abi capacity fd ring script = Done (Inr u)"
  shows "ring_inv abi (no_owners g) u"
proof -
  obtain ops entries where ops: "op_new capacity = Inr ops" and arm: "arm_wakeup_read abi
      \<lparr>ur_ops = ops, ur_sq = [], ur_sq_capacity = entries, ur_cq = [], ur_kernel = [], ur_script = script,
       ur_wakeup_armed = False, ur_closed = False, ur_shutting_down = False, ur_pool = False, ur_ran = [], ur_released = []\<rparr>
      = Done (Inr (), u)" (is "arm_wakeup_read abi ?u0 = _")
    using assms by (auto simp: uring_new_def obind_Done split: sum.splits) (metis (full_types) old.unit.exhaust sumE)
  have inv: "op_inv ops" using ops op_inv_new by (auto simp: op_new_def split: if_splits)
  have "op_get ops k = None" for k using ops by (auto simp: op_new_def op_new_with_generation_limit_def op_get_def split: if_splits option.splits)
  then have "ring_inv abi (no_owners g) ?u0"
    using inv by (auto simp: ring_inv_def ring_core_def requests_def slot_ok_def no_owners_def)
  from inv.keepsD [OF inv.arm_with_keeps [OF inv.submit_keeps] this] show ?thesis
    using arm unfolding arm_wakeup_read_def by simp
qed

lemma op_drop_inv:
  assumes inv: "ring_inv abi W u" and nb: "no_building W" and sh: "\<not> ur_shutting_down u" and d: "ow_ops W k = Some d"
  shows "yields (op_drop abi \<lparr>op_id = k, op_data = Some d\<rparr> u) (\<lambda>(out, u'). ring_inv abi (drop_owner k W) u')"
  unfolding op_drop_def
proof (rule yields_obind [where Q = "ring_inv abi W"])
  show "yields (cancel_op abi (op_id \<lparr>op_id = k, op_data = Some d\<rparr>) u) (ring_inv abi W)"
    using cancel_op_inv [OF inv nb] by simp
next
  fix u1 assume inv1: "ring_inv abi W u1"
  have "\<not> ur_shutting_down u1" using sh ring_coreD(4) [OF ring_invD(1)] inv inv1 by metis
  then obtain r f' u' where "remove_op \<lparr>op_id = k, op_data = Some d\<rparr> u1 = Some (r, f', u')" "ring_inv abi (drop_owner k W) u'"
    using remove_op_inv [OF inv1 nb, of "\<lparr>op_id = k, op_data = Some d\<rparr>" d] d by auto
  then show "yields (ounwrap (remove_op \<lparr>op_id = k, op_data = Some d\<rparr> u1) (\<lambda>(c, f, u).
     Done (case c of None \<Rightarrow> None | Some c \<Rightarrow> map_option (\<lambda>d. (d, c)) (op_data f), u))) (\<lambda>(out, u'). ring_inv abi (drop_owner k W) u')"
    by (simp add: ounwrap_def)
qed

lemma multi_active_inv:
  assumes inv: "ring_inv abi W u" and nb: "no_building W" and sh: "\<not> ur_shutting_down u" and d: "ow_streams W k = Some d"
  shows "yields (multi_active_next abi sp w k d u) (\<lambda>(r, m, u'). m = MultiActive k d \<and> ring_inv abi W u' \<or>
     m = MultiTerminated \<and> ring_inv abi (drop_owner k W) u')"
proof -
  obtain r u1 where r: "poll_multi_op w k u = Some (r, u1)" "ring_inv abi (if r = Ready None then drop_owner k W else W) u1"
    using poll_multi_inv [OF assms] by blast
  show ?thesis
  proof (cases "\<exists>c. r = Ready (Some c) \<and> sp_item sp d c = None")
    case True
    then obtain c where c: "r = Ready (Some c)" "sp_item sp d c = None" by blast
    then have inv1: "ring_inv abi W u1" using r by simp
    have sh1: "\<not> ur_shutting_down u1" using sh ring_coreD(4) [OF ring_invD(1)] inv inv1 by metis
    have "yields (obind (remove_multi_op abi k d u1) (\<lambda>u. Done (Ready None :: 'c option poll, MultiTerminated, u)))
        (\<lambda>(r, m, u'). m = MultiActive k d \<and> ring_inv abi W u' \<or> m = MultiTerminated \<and> ring_inv abi (drop_owner k W) u')"
      by (rule yields_obind [OF remove_multi_inv [OF inv1 nb sh1 d]]) simp
    then show ?thesis using r(1) c by (simp add: multi_active_next_def ounwrap_def)
  next
    case False
    then show ?thesis using r by (auto simp: multi_active_next_def ounwrap_def split: poll.splits option.splits if_splits)
  qed
qed

lemma start_is_next:
  assumes "multi_next abi sp w (MultiPending d) (pg_ring p) = Done (r, m, u)"
  shows "\<exists>p'. uring_act abi sp (DoStart d w) p = Done p' \<and> pg_ring p' = u \<and>
       pg_items p' = pg_items p @ (case r of Ready (Some i) \<Rightarrow> [i] | _ \<Rightarrow> [])"
proof -
  obtain s u1 where s: "submit_multi_op abi (sp_cleanup sp d) (sp_limit sp d) (pg_ring p) = Done (s, u1)"
    and rest: "(case s of Inl e \<Rightarrow> Done (Ready (Some (sp_error sp e)), MultiTerminated, u1)
                | Inr k \<Rightarrow> multi_active_next abi sp w k d u1) = Done (r, m, u)"
    using assms by (auto simp: multi_next_def obind_Done)
  show ?thesis using s rest by (cases s) (auto simp: obind_def after_next_def)
qed

lemma uring_act_inv:
  fixes p :: "('w, 'd, 'i) program"
  assumes inv: "program_inv abi p"
  shows "yields (uring_act abi sp a p) (program_inv abi)"
proof -
  let ?W = "pg_owners p" and ?u = "pg_ring p"
  note i = program_invD [OF inv]
  have sh: "\<not> ow_shut ?W" using inv by (simp add: program_inv_def)
  show ?thesis
  proof (cases a)
    case (DoSubmit d)
    have "yields (obind (uring_submit_op abi d ?u) (\<lambda>(r, u). Done (p\<lparr>pg_ring := u,
        pg_owners := (case r of Inl _ \<Rightarrow> ?W | Inr f \<Rightarrow> built (op_id f) False d ?W)\<rparr>))) (program_inv abi)"
      by (rule yields_obind [OF submit_op_inv [OF i(1,2)]]) (use i sh in \<open>auto simp: program_inv_def split: sum.splits\<close>)
    then show ?thesis using DoSubmit by simp
  next
    case (DoPoll k w)
    show ?thesis
    proof (cases "ow_ops ?W k")
      case (Some d)
      obtain r u' where r: "poll_op w \<lparr>op_id = k, op_data = Some d\<rparr> ?u = Some (r, u')"
        "ring_inv abi (case r of Pending \<Rightarrow> ?W | Ready _ \<Rightarrow> drop_owner k ?W) u'"
        using poll_op_inv [OF i, of "\<lparr>op_id = k, op_data = Some d\<rparr>" d w] Some unfolding op.simps by blast
      then show ?thesis using DoPoll Some i sh
        by (cases r) (auto simp: driver_poll_op_def ounwrap_def program_inv_def)
    qed (use DoPoll in simp)
  next
    case (DoDrop k)
    show ?thesis
    proof (cases "ow_ops ?W k")
      case (Some d)
      have "yields (uring_act abi sp (DoDrop k) p) (program_inv abi)"
        unfolding uring_act.simps Some option.case
        by (rule yields_obind [OF op_drop_inv [OF i Some]]) (use i sh in \<open>auto simp: program_inv_def\<close>)
      then show ?thesis using DoDrop by simp
    qed (use DoDrop in simp)
  next
    case (DoStart d w)
    have "yields (uring_act abi sp (DoStart d w) p) (program_inv abi)"
      unfolding uring_act.simps
    proof (rule yields_obind [OF submit_multi_inv [OF i(1,2), where d = d]], clarify)
      fix r :: "op_key io_result" and u1 :: "('w, 'd) uring"
      assume r: "case r of Inl e \<Rightarrow> ring_inv abi ?W u1 | Inr k \<Rightarrow> ring_inv abi (built k True d ?W) u1"
      show "yields (case r of Inl e \<Rightarrow> Done (p\<lparr>pg_ring := u1, pg_items := pg_items p @ [sp_error sp e]\<rparr>)
         | Inr k \<Rightarrow> obind (multi_active_next abi sp w k d u1) (\<lambda>(r, m, u).
             Done (after_next k r m u (p\<lparr>pg_owners := built k True d ?W\<rparr>)))) (program_inv abi)"
      proof (cases r)
        case (Inl e)
        then show ?thesis using r i sh by (simp add: program_inv_def)
      next
        case (Inr k)
        then have inv1: "ring_inv abi (built k True d ?W) u1" using r by simp
        have sh1: "\<not> ur_shutting_down u1" using sh ring_coreD(4) [OF ring_invD(1) [OF inv1]] by simp
        have k: "no_building (built k True d ?W)" "ow_streams (built k True d ?W) k = Some d"
          using i(2) by simp (simp add: built_def)
        show ?thesis unfolding Inr sum.case
          by (rule yields_obind [OF multi_active_inv [OF inv1 k(1) sh1 k(2)]])
             (use i sh in \<open>auto simp: program_inv_def after_next_def\<close>)
      qed
    qed
    then show ?thesis using DoStart by simp
  next
    case (DoNext k w)
    show ?thesis
    proof (cases "ow_streams ?W k")
      case (Some d)
      have "yields (uring_act abi sp (DoNext k w) p) (program_inv abi)"
        unfolding uring_act.simps Some option.case multi_next_def multi_op.case
        by (rule yields_obind [OF multi_active_inv [OF i Some]]) (use i sh in \<open>auto simp: program_inv_def after_next_def\<close>)
      then show ?thesis using DoNext by simp
    qed (use DoNext in simp)
  next
    case (DoEnd k)
    show ?thesis
    proof (cases "ow_streams ?W k")
      case (Some d)
      have "yields (uring_act abi sp (DoEnd k) p) (program_inv abi)"
        unfolding uring_act.simps Some option.case multi_drop_def multi_op.case
        by (rule yields_obind [OF remove_multi_inv [OF i Some]]) (use i sh in \<open>auto simp: program_inv_def\<close>)
      then show ?thesis using DoEnd by simp
    qed (use DoEnd in simp)
  next
    case (DoCancel k)
    have "yields (uring_act abi sp (DoCancel k) p) (program_inv abi)"
      unfolding uring_act.simps by (rule yields_obind [OF cancel_op_inv [OF i(1,2)]]) (use i sh in \<open>auto simp: program_inv_def\<close>)
    then show ?thesis using DoCancel by simp
  next
    case (DoTurn timed)
    have "yields (uring_act abi sp (DoTurn timed) p) (program_inv abi)"
      unfolding uring_act.simps by (rule yields_obind [OF turn_inv [OF i(1)]]) (use i sh in \<open>auto simp: program_inv_def\<close>)
    then show ?thesis using DoTurn by simp
  qed
qed

lemma uring_reach_inv: "uring_reach abi sp p \<Longrightarrow> program_inv abi p"
proof (induction rule: uring_reach.induct)
  case (uring_start capacity fd ring script u g)
  then show ?case using uring_new_inv by (auto simp: program_inv_def no_owners_def no_building_def)
next
  case (uring_step p a p')
  then show ?case using yieldsD(2) [OF uring_act_inv] by blast
qed

section \<open>Properties\<close>

text \<open>The payload a slot keeps.\<close>

definition retained :: "('w, 'd) uring_state \<Rightarrow> 'd option" where
  "retained st =
     (case st of
        Oneshot (Detached (Payload d)) \<Rightarrow> Some d
      | Oneshot (Canceling (ObserverDetached (Payload d)) _) \<Rightarrow> Some d
      | Multishot (multishot.Cancelled _ _ p) \<Rightarrow> p
      | _ \<Rightarrow> None)"

text \<open>
  C2. The memory of a request outlives it.  In every state a program reaches - with any number of
  futures and streams submitted, polled, dropped and cancelled in any order, any system-call
  results, full submission queues and backed-up completion queues included - the payload of a
  request that is queued or in the kernel's hands has exactly one owner: its future, its stream,
  or the backend's slot, which then keeps exactly the payload the request was submitted with.  And no
  action panics: none of the states the code calls unreachable is reached.
\<close>

theorem uring_payload_pinned:
  assumes "uring_reach abi sp p"
  shows "((k, m) \<in> set (requests (pg_ring p)) \<longrightarrow>
      (\<exists>st. op_get (ur_ops (pg_ring p)) k = Some st \<and>
        (let owned = [ow_ops (pg_owners p) k, ow_streams (pg_owners p) k, retained st];
             d = ow_payload (pg_owners p) k
         in filter (\<lambda>x. x \<noteq> None) owned = [Some d])))
    \<and> uring_act abi sp a p \<noteq> Panic"
proof (intro conjI impI)
  note inv = uring_reach_inv [OF assms]
  note i = program_invD [OF inv]
  show "uring_act abi sp a p \<noteq> Panic" by (rule yieldsD(1) [OF uring_act_inv [OF inv]])
  assume "(k, m) \<in> set (requests (pg_ring p))"
  then have r: "map_of (requests (pg_ring p)) k = Some m"
    using ring_coreD(2) [OF ring_invD(1) [OF i(1)]] by simp
  then obtain st where st: "op_get (ur_ops (pg_ring p)) k = Some st"
    using inv_slot [OF i(1,2), of k] by (cases "op_get (ur_ops (pg_ring p)) k") auto
  have ok: "state_ok False (Some m) (ow_ops (pg_owners p) k) (ow_streams (pg_owners p) k) (ow_payload (pg_owners p) k) st"
    using inv_slot [OF i(1,2), of k] st r i(3) by simp
  have "let owned = [ow_ops (pg_owners p) k, ow_streams (pg_owners p) k, retained st]; d = ow_payload (pg_owners p) k
         in filter (\<lambda>x. x \<noteq> None) owned = [Some d]"
  proof (cases st)
    case (Oneshot x)
    then show ?thesis using ok
      by (cases x) (auto simp: state_ok_def retained_def kept_def split: ignored.splits cancel_observer.splits)
  next
    case (Multishot y)
    then show ?thesis using ok by (cases y) (auto simp: state_ok_def retained_def split: option.splits)
  qed
  then show "\<exists>st. op_get (ur_ops (pg_ring p)) k = Some st \<and>
        (let owned = [ow_ops (pg_owners p) k, ow_streams (pg_owners p) k, retained st];
             d = ow_payload (pg_owners p) k
         in filter (\<lambda>x. x \<noteq> None) owned = [Some d])" using st by blast
qed

text \<open>A program that has submitted one operation.\<close>

definition demo_proto :: "(nat, nat) stream_proto" where
  "demo_proto = \<lparr>sp_item = (\<lambda>_ c. case cp_result c of Inr n \<Rightarrow> Some (unat n) | Inl _ \<Rightarrow> None), sp_error = (\<lambda>_. 0),
     sp_cleanup = (\<lambda>_. AcceptedFd), sp_limit = (\<lambda>_. Some 1)\<rparr>"

lemma push_with_room [simp]: "has_room u \<Longrightarrow> push_with sub e u = Done (Inr (), u\<lparr>ur_sq := ur_sq u @ [e]\<rparr>)"
  by (cases "ur_script u") (simp_all add: push_with_def)

definition demo_ops :: "(nat, nat) uring_state op_table" where
  "demo_ops = \<lparr>ot_entries = slab_with_capacity 8, ot_generations = [], ot_generation_limit = GENERATION_MAX, ot_active_len = 0\<rparr>"

definition demo_ring :: "ring_event list \<Rightarrow> (nat, nat) uring" where
  "demo_ring script =
     \<lparr>ur_ops = demo_ops, ur_sq = [WakeReadSqe], ur_sq_capacity = 4, ur_cq = [], ur_kernel = [], ur_script = script,
      ur_wakeup_armed = True, ur_closed = False, ur_shutting_down = False, ur_pool = False, ur_ran = [], ur_released = []\<rparr>"

definition demo_start :: "ring_event list \<Rightarrow> (nat, nat, nat) program" where
  "demo_start script = \<lparr>pg_ring = demo_ring script, pg_owners = no_owners (\<lambda>_. 0), pg_outputs = [], pg_items = []\<rparr>"

lemma demo_ops_new: "op_new 8 = Inr demo_ops"
  by (simp add: op_new_def op_new_with_generation_limit_def key_consts demo_ops_def)

lemma demo_start_reach: "uring_reach plain_abi demo_proto (demo_start script)"
  unfolding demo_start_def
  by (rule uring_start [where capacity = 8 and fd = "Inr ()" and ring = "Inr 4" and script = script])
     (simp add: uring_new_def demo_ops_new demo_ring_def arm_wakeup_read_def arm_wakeup_read_with_def has_room_def otry_def obind_def)

lemma demo_program:
  obtains p k where "uring_reach plain_abi demo_proto (p :: (nat, nat, nat) program)" "requests (pg_ring p) = [(k, False)]"
    "ow_ops (pg_owners p) k = Some 7" "ow_payload (pg_owners p) k = 7" "op_get (ur_ops (pg_ring p)) k = Some (Oneshot Submitted)"
    "ur_script (pg_ring p) = script" "has_room (pg_ring p)"
proof -
  let ?p = "demo_start script" and ?u = "demo_ring script"
  have inv: "op_inv demo_ops" using demo_ops_new op_inv_new by (auto simp: op_new_def split: if_splits)
  have "slab_vacant_key (ot_entries demo_ops) \<noteq> MAX_CAPACITY"
    by (simp add: demo_ops_def slab_with_capacity_def slab_vacant_key_def key_consts)
  then obtain k t where t: "op_insert demo_ops (Oneshot Submitted) = Some (Inr k, t)" "op_get t k = Some (Oneshot Submitted)"
    using op_insert_spec [OF inv, of "\<lambda>_. Oneshot Submitted"] unfolding op_insert_def by fastforce
  let ?p' = "?p\<lparr>pg_ring := ?u\<lparr>ur_ops := t, ur_sq := [WakeReadSqe, OpSqe k False]\<rparr>, pg_owners := built k False 7 (no_owners (\<lambda>_. 0))\<rparr>"
  have "uring_act plain_abi demo_proto (DoSubmit 7) ?p = Done ?p'"
    using t by (simp add: demo_start_def demo_ring_def uring_submit_op_def push_def has_room_def ounwrap_def obind_def)
  then have "uring_reach plain_abi demo_proto ?p'" by (rule uring_step [OF demo_start_reach])
  then show thesis by (rule that) (use t(2) in \<open>simp_all add: demo_ring_def requests_def built_def no_owners_def has_room_def\<close>)
qed

lemma uring_payload_pinned_witness:
  "\<exists>(p :: (nat, nat, nat) program) k st. uring_reach plain_abi demo_proto p \<and> ow_ops (pg_owners p) k = Some 7
     \<and> op_get (ur_ops (pg_ring p)) k = Some st \<and> retained st = None \<and> uring_act plain_abi demo_proto (DoDrop k) p \<noteq> Panic"
proof -
  obtain p k where p: "uring_reach plain_abi demo_proto (p :: (nat, nat, nat) program)" "requests (pg_ring p) = [(k, False)]"
    "ow_ops (pg_owners p) k = Some 7" "ow_payload (pg_owners p) k = 7" by (rule demo_program)
  note pinned = uring_payload_pinned [OF p(1), of k False "DoDrop k"]
  obtain st where st: "op_get (ur_ops (pg_ring p)) k = Some st" "retained st = None"
    using pinned p(2-4) by (auto split: if_splits)
  show ?thesis using p(1,3) st pinned by blast
qed

end
