(* ===== verification/Uring_Wakes.thy ===== *)
theory Uring_Wakes
  imports Uring_Ops
begin

text \<open>
  Waking the task that waits for an io_uring operation: from a poll that was told to wait until the
  operation's completion, no wake-up is lost, as long as no system call fails for good; when one does,
  it can be.
\<close>

section \<open>Waiting\<close>

definition waits :: "'w \<Rightarrow> ('w, 'd) uring_state \<Rightarrow> bool" where
  "waits w st \<longleftrightarrow> st = Oneshot (Waiting w) \<or> (\<exists>sqe. st = Oneshot (Canceling (ObserverWaiting w) sqe))"

text \<open>
  Operation \<open>k\<close> still waits for waker \<open>w\<close>, or it has completed and \<open>w\<close> is among the actions collected (\<open>ds\<close>)
  or run since the log was \<open>ran0\<close>.
\<close>

definition told :: "op_key \<Rightarrow> 'w \<Rightarrow> ('w, 'd) deferred list \<Rightarrow> ('w, 'd) deferred list \<Rightarrow> ('w, 'd) uring \<Rightarrow> bool" where
  "told k w ran0 ds u \<longleftrightarrow>
     (\<exists>since. ur_ran u = ran0 @ since \<and>
        ((\<exists>st. op_get (ur_ops u) k = Some st \<and> waits w st) \<or>
         (\<exists>c. op_get (ur_ops u) k = Some (Oneshot (Completed c)) \<and> WakeTask w \<in> set (ds @ since))))"

definition calm :: "ring_event list \<Rightarrow> bool" where
  "calm script = (\<forall>e \<in> set script. case e of Enter _ _ err \<Rightarrow> retried err \<or> err = Some ETIME)"

lemma calm_Cons [simp]: "calm (Enter n posts err # es) \<longleftrightarrow> (retried err \<or> err = Some ETIME) \<and> calm es"
  by (simp add: calm_def)

definition wake_inv :: "op_key \<Rightarrow> 'w \<Rightarrow> ('w, 'd) deferred list \<Rightarrow> ('w, 'd) deferred list \<Rightarrow> ('w, 'd) uring \<Rightarrow> bool" where
  "wake_inv k w ran0 ds u \<longleftrightarrow> op_inv (ur_ops u) \<and> calm (ur_script u) \<and> told k w ran0 ds u"

lemma told_slot:
  assumes "told k w ran0 ds u" "op_get (ur_ops v) k = op_get (ur_ops u) k" "ur_ran v = ur_ran u"
  shows "told k w ran0 ds v"
  using assms by (simp add: told_def)

lemma told_more: "told k w ran0 ds u \<Longrightarrow> told k w ran0 (ds @ ds') u"
  by (auto simp: told_def)

lemma wake_inv_slot:
  assumes "wake_inv k w ran0 ds u" "op_inv (ur_ops v)" "op_get (ur_ops v) k = op_get (ur_ops u) k"
    "ur_ran v = ur_ran u" "ur_script v = ur_script u"
  shows "wake_inv k w ran0 ds v"
  using assms told_slot [of k w ran0 ds u v] by (simp add: wake_inv_def)

lemma wake_inv_fields [simp]:
  "wake_inv k w ran0 ds (u\<lparr>ur_sq := x1\<rparr>) = wake_inv k w ran0 ds u" "wake_inv k w ran0 ds (u\<lparr>ur_cq := x2\<rparr>) = wake_inv k w ran0 ds u"
  "wake_inv k w ran0 ds (u\<lparr>ur_kernel := x3\<rparr>) = wake_inv k w ran0 ds u"
  "wake_inv k w ran0 ds (u\<lparr>ur_wakeup_armed := b\<rparr>) = wake_inv k w ran0 ds u"
  "wake_inv k w ran0 ds (u\<lparr>ur_released := x4\<rparr>) = wake_inv k w ran0 ds u"
  by (simp_all add: wake_inv_def told_def)

text \<open>A change of one slot: another one, or the same with \<open>w\<close> still waiting.\<close>

lemma wake_inv_set:
  assumes inv: "wake_inv k w ran0 ds u" and st: "op_get (ur_ops u) j = Some st"
    and same: "j = k \<Longrightarrow> waits w st \<Longrightarrow> waits w st'" "j = k \<Longrightarrow> \<not> waits w st \<Longrightarrow> st' = st"
  shows "wake_inv k w ran0 ds (set_state j st' u)"
proof -
  have op: "op_inv (ur_ops u)" using inv by (simp add: wake_inv_def)
  have get: "op_get (op_get_mut (ur_ops u) j (\<lambda>_. st')) = (op_get (ur_ops u))(j \<mapsto> st')" by (rule ops.upd_some [OF op st])
  show ?thesis
  proof (cases "j = k \<and> waits w st")
    case True
    then show ?thesis using inv same(1) get ops.upd_inv [OF op] by (auto simp: wake_inv_def told_def set_state_def)
  next
    case False
    then have "op_get (ur_ops (set_state j st' u)) k = op_get (ur_ops u) k" using get st same(2) by (auto simp: set_state_def)
    then show ?thesis using ops.upd_inv [OF op] by (intro wake_inv_slot [OF inv]) (simp_all add: set_state_def)
  qed
qed

lemma wake_inv_mark: "wake_inv k w ran0 ds u \<Longrightarrow> wake_inv k w ran0 ds (mark_key j u)"
proof (cases "op_get (ur_ops u) j")
  case None
  assume inv: "wake_inv k w ran0 ds u"
  then have op: "op_inv (ur_ops u)" by (simp add: wake_inv_def)
  show ?thesis using ops.upd_none [OF op None, of mark_cancel_in_flight] ops.upd_inv [OF op]
    by (intro wake_inv_slot [OF inv]) (simp_all add: mark_key_def)
next
  case (Some st)
  assume inv: "wake_inv k w ran0 ds u"
  then have op: "op_inv (ur_ops u)" by (simp add: wake_inv_def)
  have get: "op_get (ur_ops (mark_key j u)) = (op_get (ur_ops u))(j \<mapsto> mark_cancel_in_flight st)"
    unfolding mark_key_def by (simp add: ops.upd_some [OF op Some])
  have "waits w (mark_cancel_in_flight st) = waits w st" "\<And>c. (mark_cancel_in_flight st = Oneshot (Completed c)) = (st = Oneshot (Completed c))"
    by (cases st rule: mark_cancel_in_flight.cases; auto simp: waits_def)+
  then have "told k w ran0 ds (mark_key j u)"
    using inv Some get by (cases "j = k") (auto simp: wake_inv_def told_def mark_key_def)
  then show ?thesis using inv ops.upd_inv [OF op] by (simp add: wake_inv_def mark_key_def)
qed

lemma complete_waiting:
  "waits w (Oneshot x) \<Longrightarrow> oneshot_complete c x = (rm, wk, cl, y) \<Longrightarrow> \<not> rm \<and> wk = Some w \<and> y = Completed c"
  by (auto simp: waits_def)

lemma process_op_wake:
  assumes inv: "wake_inv k w ran0 (ds @ co_deferred co) u"
  shows "\<exists>co' u'. process_op abi c j co u = Some (co', u') \<and> wake_inv k w ran0 (ds @ co_deferred co') u'"
proof -
  have op: "op_inv (ur_ops u)" using inv by (simp add: wake_inv_def)
  then show ?thesis
  proof (cases rule: process_op_cases [where k = j and c = c and co = co and abi = abi])
    case absent
    then show ?thesis using inv by simp
  next
    case (present st rm wk cl rc st' rel co' u')
    note f = process_op_fields [OF present(3)]
    have "told k w ran0 (ds @ co_deferred co') u'"
    proof (cases "j = k")
      case False
      have "told k w ran0 (ds @ co_deferred co') u"
        using inv told_more [of k w ran0 "ds @ co_deferred co" u] by (simp add: wake_inv_def present(6))
      then show ?thesis by (rule told_slot) (use f present(5) False in auto)
    next
      case True
      obtain since where since: "ur_ran u' = ran0 @ since"
        "waits w st \<or> (\<exists>c. st = Oneshot (Completed c) \<and> WakeTask w \<in> set (ds @ co_deferred co @ since))"
        using inv present(1) True f by (auto simp: wake_inv_def told_def)
      show ?thesis
      proof (cases "waits w st")
        case w: True
        then obtain x where x: "st = Oneshot x" by (auto simp: waits_def)
        have "\<not> rm \<and> wk = Some w \<and> st' = Oneshot (Completed (cqe_completion c))"
          using complete_waiting [of w x "cqe_completion c"] w present(2) unfolding x by (auto simp: apply_state_def split: prod.splits)
        then show ?thesis using True present(5,6) since(1) by (auto simp: told_def option_list_def)
      next
        case False
        then obtain c0 where c0: "st = Oneshot (Completed c0)" "WakeTask w \<in> set (ds @ co_deferred co @ since)" using since(2) by blast
        then have "\<not> rm \<and> st' = st" using present(2) by (auto simp: apply_state_def)
        then show ?thesis using True present(5,6) since(1) c0 by (auto simp: told_def)
      qed
    qed
    then show ?thesis using inv present(3,4) f by (auto simp: wake_inv_def)
  qed
qed

lemma process_cqes_wake:
  "wake_inv k w ran0 (ds @ co_deferred co) u \<Longrightarrow>
     \<exists>co' u'. process_cqes abi cs co u = Some (co', u') \<and> wake_inv k w ran0 (ds @ co_deferred co') u'"
  by (rule process_cqes_keep [where Q = "\<lambda>co u. wake_inv k w ran0 (ds @ co_deferred co) u"]) (auto intro: process_op_wake)

interpretation wake: ring_property abi "wake_inv k w ran0" False for abi k w ran0
proof
  fix ds ds' u u' r e j timed
  show "enter abi timed u = Done (r, u') \<Longrightarrow> wake_inv k w ran0 ds u' \<and> (\<not> retried r \<longrightarrow> False \<or> timed \<and> r = Some ETIME)" if "wake_inv k w ran0 ds u"
    using that by (auto simp: enter_def Let_def wake_inv_def told_def split: list.splits ring_event.splits if_splits)
  show "wake_inv k w ran0 ds (mark_key j u)" if "wake_inv k w ran0 ds u" using that by (rule wake_inv_mark)
  show "op_iter (ur_ops u) \<noteq> None" if "wake_inv k w ran0 ds u" using that ops.iter_total [of "ur_ops u"] by (auto simp: wake_inv_def)
  show "wake_inv k w ran0 ds (run_all ds' u)" if "wake_inv k w ran0 (ds @ ds') u"
    using that by (auto simp: wake_inv_def told_def run_all_def)
  show "\<exists>co u'. process_cqes abi (ur_cq u) collected_none (u\<lparr>ur_cq := []\<rparr>) = Some (co, u') \<and> wake_inv k w ran0 (ds @ co_deferred co) u'"
    if "wake_inv k w ran0 ds u"
    using that by (intro process_cqes_wake) (simp add: collected_none_def)
qed simp_all

section \<open>The operations\<close>

text \<open>Each of them keeps \<open>wake_inv\<close>, unless it is a poll or drop of operation \<open>k\<close> itself.\<close>

lemma wake_removed:
  assumes inv: "wake_inv k w ran0 ds u" and t: "op_remove (ur_ops u) j = Some (x, t)" and "j \<noteq> k"
  shows "wake_inv k w ran0 ds (u\<lparr>ur_ops := t\<rparr>)"
proof -
  obtain t' where "op_remove (ur_ops u) j = Some (op_get (ur_ops u) j, t')" "op_inv t'" "op_get t' = (op_get (ur_ops u))(j := None)"
    using inv by (auto simp: wake_inv_def elim: ops.remE)
  then show ?thesis using t assms(3) by (intro wake_inv_slot [OF inv]) auto
qed

lemma wake_inserted:
  assumes inv: "wake_inv k w ran0 ds u" and t: "op_insert (ur_ops u) st = Some (r, t)"
  shows "wake_inv k w ran0 ds (u\<lparr>ur_ops := t\<rparr>) \<and> r \<noteq> Inr k"
proof -
  have op: "op_inv (ur_ops u)" using inv by (simp add: wake_inv_def)
  have k: "op_get (ur_ops u) k \<noteq> None" using inv by (auto simp: wake_inv_def told_def)
  from op show ?thesis
  proof (cases rule: ops.insE [where v = st])
    case (full e)
    then show ?thesis using t inv by simp
  next
    case (fresh j t')
    then have "j \<noteq> k" using k by auto
    then show ?thesis using t fresh wake_inv_slot [OF inv, of "u\<lparr>ur_ops := t\<rparr>"] by auto
  qed
qed

lemma wake_push: "wake_inv k w ran0 ds u \<Longrightarrow> push abi e u = Done (r, u') \<Longrightarrow> \<not> isl r \<and> wake_inv k w ran0 ds u'"
  using yieldsD(2) [OF wake.push_yields [of k w ran0 ds u abi e]] by (cases "isl r") auto

lemma wake_push_cancel: "wake_inv k w ran0 ds u \<Longrightarrow> push_cancel abi j u = Done (r, u') \<Longrightarrow> wake_inv k w ran0 ds u'"
  unfolding push_cancel_def by (drule (1) wake_push) simp

text \<open>The common part of the two submissions.\<close>

lemma wake_push_request:
  assumes inv: "wake_inv k w ran0 ds u" and ins: "op_insert (ur_ops u) st = Some (Inr j, t)"
    and push: "obind (push abi e (u\<lparr>ur_ops := t\<rparr>)) (\<lambda>(r, u).
              case r of
                Inl e \<Rightarrow> ounwrap (op_remove (ur_ops u) j) (\<lambda>(_, ops). Done (fail e, u\<lparr>ur_ops := ops\<rparr>))
              | Inr _ \<Rightarrow> Done (ok, u)) = Done (x, u')"
  shows "wake_inv k w ran0 ds u'"
proof -
  obtain r u1 where r: "push abi e (u\<lparr>ur_ops := t\<rparr>) = Done (r, u1)" using push by (auto simp: obind_Done)
  have "\<not> isl r \<and> wake_inv k w ran0 ds u1" using wake_push [OF _ r] wake_inserted [OF inv ins] by blast
  then show ?thesis using push r by (cases r) (auto simp: obind_def)
qed

lemma wake_submit:
  assumes "wake_inv k w ran0 ds u" "uring_submit_op abi d u = Done (r, u')"
  shows "wake_inv k w ran0 ds u'"
proof (cases "ur_shutting_down u")
  case False
  then obtain q t where q: "op_insert (ur_ops u) (Oneshot Submitted) = Some (q, t)"
    using assms(2) by (auto simp: uring_submit_op_def ounwrap_Done)
  show ?thesis
  proof (cases q)
    case (Inl e)
    then show ?thesis using assms q False wake_inserted [OF assms(1) q] by (simp add: uring_submit_op_def ounwrap_def)
  next
    case (Inr j)
    then show ?thesis using assms(2) q False
      by (intro wake_push_request [OF assms(1) q [unfolded Inr]]) (simp add: uring_submit_op_def ounwrap_def)
  qed
qed (use assms in \<open>simp add: uring_submit_op_def\<close>)

lemma wake_submit_multi:
  assumes "wake_inv k w ran0 ds u" "submit_multi_op abi cl limit u = Done (r, u')"
  shows "wake_inv k w ran0 ds u'"
proof (cases "ur_shutting_down u")
  case False
  then obtain q t where q: "op_insert (ur_ops u) (Multishot (multishot.Active None [] cl limit)) = Some (q, t)"
    using assms(2) by (auto simp: submit_multi_op_def ounwrap_Done)
  show ?thesis
  proof (cases q)
    case (Inl e)
    then show ?thesis using assms q False wake_inserted [OF assms(1) q] by (simp add: submit_multi_op_def ounwrap_def)
  next
    case (Inr j)
    then show ?thesis using assms(2) q False
      by (intro wake_push_request [OF assms(1) q [unfolded Inr]]) (simp add: submit_multi_op_def ounwrap_def)
  qed
qed (use assms in \<open>simp add: submit_multi_op_def\<close>)

lemma wake_push_mark:
  assumes "wake_inv k w ran0 ds u" "push_and_mark abi j u = Done u'"
  shows "wake_inv k w ran0 ds u'"
proof -
  obtain r u1 where r: "push_cancel abi j u = Done (r, u1)" "u' = (if isl r then u1 else mark_key j u1)"
    using assms(2) by (auto simp: push_and_mark_def obind_Done)
  then show ?thesis using wake_push_cancel [OF assms(1) r(1)] by (auto intro: wake_inv_mark)
qed

lemma wake_cancel:
  assumes inv: "wake_inv k w ran0 ds u" and c: "cancel_op abi j u = Done u'"
  shows "wake_inv k w ran0 ds u'"
proof (cases "op_get (ur_ops u) j")
  case None
  then show ?thesis using inv c by (simp add: cancel_op_def)
next
  case (Some st)
  show ?thesis
  proof (cases st)
    case (Oneshot x)
    have "j = k \<Longrightarrow> waits w st \<or> (\<exists>c. st = Oneshot (Completed c))" using inv Some by (auto simp: wake_inv_def told_def)
    then have "wake_inv k w ran0 ds (set_state j (Oneshot (snd (request_cancel x))) u)"
      using Oneshot by (intro wake_inv_set [OF inv Some]) (cases x rule: request_cancel.cases; auto simp: waits_def)+
    then show ?thesis using c Some Oneshot
      by (auto simp: cancel_op_def Let_def case_prod_beta split: if_splits dest: wake_push_mark)
  next
    case (Multishot m)
    then show ?thesis using inv c Some by (cases m) (auto simp: cancel_op_def dest: wake_push_mark)
  qed
qed

lemma wake_set_other: "wake_inv k w ran0 ds u \<Longrightarrow> op_get (ur_ops u) j = Some st \<Longrightarrow> j \<noteq> k \<Longrightarrow> wake_inv k w ran0 ds (set_state j st' u)"
  by (rule wake_inv_set) auto

lemma wake_remove:
  assumes "wake_inv k w ran0 ds u" "op_id f \<noteq> k" "remove_op f u = Some (r, f', u')"
  shows "wake_inv k w ran0 ds u'"
  using assms wake_set_other [OF assms(1) _ assms(2)] wake_removed [OF assms(1) _ assms(2)]
  by (auto simp: remove_op_def split: option.splits uring_state.splits oneshot.splits cancel_observer.splits)

lemma wake_poll:
  assumes "wake_inv k w ran0 ds u" "op_id f \<noteq> k" "poll_op w' f u = Some (r, u')"
  shows "wake_inv k w ran0 ds u'"
  using assms wake_set_other [OF assms(1) _ assms(2)] wake_removed [OF assms(1) _ assms(2)]
  by (auto simp: poll_op_def split: option.splits uring_state.splits oneshot.splits cancel_observer.splits)

lemma wake_oneshot_slot: "wake_inv k w ran0 ds u \<Longrightarrow> \<exists>x. op_get (ur_ops u) k = Some (Oneshot x)"
  by (auto simp: wake_inv_def told_def waits_def)

lemma wake_poll_multi:
  assumes "wake_inv k w ran0 ds u" "poll_multi_op w' j u = Some (r, u')"
  shows "wake_inv k w ran0 ds u'"
proof -
  have "j \<noteq> k" using assms wake_oneshot_slot [OF assms(1)] by (auto simp: poll_multi_op_def)
  then show ?thesis using assms wake_set_other [OF assms(1)] wake_removed [OF assms(1)]
    by (auto simp: poll_multi_op_def split: option.splits uring_state.splits multishot.splits list.splits)
qed

lemma wake_remove_multi:
  assumes "wake_inv k w ran0 ds u" "remove_multi_op abi j d u = Done u'"
  shows "wake_inv k w ran0 ds u'"
proof -
  have j: "j \<noteq> k" using assms wake_oneshot_slot [OF assms(1)] by (auto simp: remove_multi_op_def)
  have cs: "wake_inv k w ran0 ds u'" if cs: "cancel_stream abi j d p cl u = Done u'" and st: "op_get (ur_ops u) j = Some st" for p cl st
  proof -
    let ?v = "(set_state j (Multishot (multishot.Cancelled [] cl (Some d))) u)\<lparr>ur_released := ur_released u @ discard_all abi cl p\<rparr>"
    have "wake_inv k w ran0 ds ?v" using wake_set_other [OF assms(1) st j] by simp
    moreover obtain r where "push_cancel abi j ?v = Done (r, u')" using cs by (auto simp: cancel_stream_def Let_def obind_Done)
    ultimately show ?thesis by (rule wake_push_cancel)
  qed
  have rm: "wake_inv k w ran0 ds (u\<lparr>ur_ops := t, ur_released := rs\<rparr>)" if "op_remove (ur_ops u) j = Some (x, t)" for x t rs
    using wake_removed [OF assms(1) that j] by (simp add: wake_inv_def told_def)
  show ?thesis using assms(1,2) cs rm wake_set_other [OF assms(1) _ j]
    by (auto simp: remove_multi_op_def Done_iffs split: option.splits uring_state.splits multishot.splits)
qed

lemma wake_wait: "wake_inv k w ran0 ds u \<Longrightarrow> wait abi u = Done (r, u') \<Longrightarrow> wake_inv k w ran0 ds u'"
  by (auto simp: wait_def Done_iffs dest: wake.enter_keeps)

lemma wake_wait_timed: "wake_inv k w ran0 ds u \<Longrightarrow> wait_timed_n abi n u = Done (r, u') \<Longrightarrow> wake_inv k w ran0 ds u'"
proof (induction n arbitrary: u)
  case (Suc n)
  then obtain e u1 where e: "enter abi True u = Done (e, u1)" by (auto simp: Done_iffs)
  then have "wake_inv k w ran0 ds u1" using wake.enter_keeps [OF Suc.prems(1)] by blast
  then show ?case using Suc e by (auto simp: obind_def split: option.splits if_splits)
qed simp

lemma wake_turn:
  assumes "wake_inv k w ran0 [] u" "turn abi timed u = Done (r, u')"
  shows "wake_inv k w ran0 [] u'"
proof -
  have w: "wake_inv k w ran0 [] v" if "(if timed then wait_with_duration abi else wait abi) u = Done (r1, v)" for r1 v
    using that wake_wait [OF assms(1)] wake_wait_timed [OF assms(1)] by (auto simp: wait_with_duration_def split: if_splits)
  have d: "wake_inv k w ran0 [] (run_all ds v')" if "wake_inv k w ran0 [] v" "dispatch_completions abi v = Done (Inr ds, v')" for v ds v'
    using yieldsD(2) [OF wake.dispatch_keeps [OF that(1)] that(2)] by (intro wake.run_keeps) simp
  have "dispatch_completions abi v \<noteq> Done (Inl e, v')" if "wake_inv k w ran0 [] v" for v e v'
    using yieldsD(2) [OF wake.dispatch_keeps [OF that]] by fastforce
  then show ?thesis using assms(2) w d by (auto simp: turn_def otry_Done)
qed

lemma wake_active_next:
  assumes "wake_inv k w ran0 ds u" "multi_active_next abi sp w' j d u = Done (r, m, u')"
  shows "wake_inv k w ran0 ds u'"
proof -
  obtain q u1 where q: "poll_multi_op w' j u = Some (q, u1)" using assms(2) by (auto simp: multi_active_next_def ounwrap_Done)
  have inv1: "wake_inv k w ran0 ds u1" by (rule wake_poll_multi [OF assms(1) q])
  show ?thesis using assms(2) q inv1 wake_remove_multi [OF inv1]
    by (auto simp: multi_active_next_def ounwrap_def obind_Done split: poll.splits option.splits if_splits)
qed

lemma wake_op_drop:
  assumes "wake_inv k w ran0 ds u" "op_id f \<noteq> k" "op_drop abi f u = Done (out, u')"
  shows "wake_inv k w ran0 ds u'"
proof -
  obtain u1 where u1: "cancel_op abi (op_id f) u = Done u1" using assms(3) by (auto simp: op_drop_def obind_Done)
  then obtain c f' where "remove_op f u1 = Some (c, f', u')" using assms(3) by (auto simp: op_drop_def obind_def ounwrap_Done)
  then show ?thesis by (rule wake_remove [OF wake_cancel [OF assms(1) u1] assms(2)])
qed

lemma wake_driver_poll:
  assumes "wake_inv k w ran0 ds u" "op_id f \<noteq> k" "driver_poll_op w' f u = Some (r, f', u')"
  shows "wake_inv k w ran0 ds u'"
proof -
  obtain q where "poll_op w' f u = Some (q, u')" using assms(3)
    by (auto simp: driver_poll_op_def split: option.splits poll.splits)
  then show ?thesis by (rule wake_poll [OF assms(1,2)])
qed

lemma wake_act:
  assumes inv: "wake_inv k w ran0 [] (pg_ring p)" and act: "uring_act abi sp a p = Done p'"
    and a: "a \<noteq> DoDrop k" "\<And>w'. a \<noteq> DoPoll k w'"
  shows "wake_inv k w ran0 [] (pg_ring p')"
proof (cases a)
  case (DoSubmit d)
  then show ?thesis using act wake_submit [OF inv] by (auto simp: obind_Done)
next
  case (DoPoll j w')
  have j: "j \<noteq> k" using a(2) DoPoll by blast
  from DoPoll obtain d x where d: "ow_ops (pg_owners p) j = Some d" "driver_poll_op w' \<lparr>op_id = j, op_data = Some d\<rparr> (pg_ring p) = Some x"
    using act by (auto simp: ounwrap_Done split: option.splits)
  obtain r f' u' where x: "x = (r, f', u')" by (cases x)
  have "pg_ring p' = u'" using act DoPoll d x by (auto simp: ounwrap_def split: poll.splits)
  then show ?thesis using d x wake_driver_poll [OF inv, of "\<lparr>op_id = j, op_data = Some d\<rparr>"] j by auto
next
  case (DoDrop j)
  then obtain d out u' where "ow_ops (pg_owners p) j = Some d" "pg_ring p' = u'"
    "op_drop abi \<lparr>op_id = j, op_data = Some d\<rparr> (pg_ring p) = Done (out, u')"
    using act by (auto simp: obind_Done split: option.splits)
  then show ?thesis using wake_op_drop [OF inv, of "\<lparr>op_id = j, op_data = Some d\<rparr>"] a(1) DoDrop by auto
next
  case (DoStart d w')
  then obtain r u1 where s: "submit_multi_op abi (sp_cleanup sp d) (sp_limit sp d) (pg_ring p) = Done (r, u1)"
    using act by (auto simp: obind_Done)
  have inv1: "wake_inv k w ran0 [] u1" by (rule wake_submit_multi [OF inv s])
  show ?thesis
  proof (cases r)
    case (Inl e)
    then show ?thesis using act DoStart s inv1 by (auto simp: obind_def)
  next
    case (Inr j)
    then obtain q m u2 where "multi_active_next abi sp w' j d u1 = Done (q, m, u2)" "pg_ring p' = u2"
      using act DoStart s by (auto simp: obind_def after_next_def split: outcome.splits)
    then show ?thesis using wake_active_next [OF inv1] by simp
  qed
next
  case (DoNext j w')
  then obtain d q m u2 where "multi_active_next abi sp w' j d (pg_ring p) = Done (q, m, u2)" "pg_ring p' = u2"
    using act by (auto simp: obind_Done multi_next_def after_next_def split: option.splits)
  then show ?thesis using wake_active_next [OF inv] by simp
next
  case (DoEnd j)
  then show ?thesis using act wake_remove_multi [OF inv] by (auto simp: obind_Done multi_drop_def split: option.splits)
next
  case (DoCancel j)
  then show ?thesis using act wake_cancel [OF inv] by (auto simp: obind_Done)
next
  case (DoTurn timed)
  then show ?thesis using act wake_turn [OF inv] by (auto simp: obind_Done)
qed

section \<open>No wake-up is lost\<close>

text \<open>A run in which operation \<open>k\<close> is neither polled nor dropped.\<close>

inductive others ::
  "cqe_abi \<Rightarrow> ('d, 'i) stream_proto \<Rightarrow> op_key \<Rightarrow> ('w, 'd, 'i) program \<Rightarrow> ('w, 'd, 'i) program \<Rightarrow> bool" for abi sp k where
  others_refl: "others abi sp k p p"
| others_step: "others abi sp k p p' \<Longrightarrow> uring_act abi sp a p' = Done p'' \<Longrightarrow>
     a \<noteq> DoDrop k \<Longrightarrow> (\<And>w. a \<noteq> DoPoll k w) \<Longrightarrow> others abi sp k p p''"

lemma others_reach: "others abi sp k p p' \<Longrightarrow> uring_reach abi sp p \<Longrightarrow> uring_reach abi sp p'"
  by (induction rule: others.induct) (auto intro: uring_step)

lemma others_wake:
  "others abi sp k p p' \<Longrightarrow> wake_inv k w ran0 [] (pg_ring p) \<Longrightarrow> wake_inv k w ran0 [] (pg_ring p')"
  by (induction rule: others.induct) (auto intro: wake_act)

lemma pending_poll_waits:
  assumes inv: "program_inv abi p" and calm: "calm (ur_script (pg_ring p))"
    and act: "uring_act abi sp (DoPoll k w) p = Done p1" and own: "ow_ops (pg_owners p1) k \<noteq> None"
  shows "wake_inv k w (ur_ran (pg_ring p1)) [] (pg_ring p1)"
proof -
  note i = program_invD [OF inv]
  obtain d where d: "ow_ops (pg_owners p) k = Some d" using act by (auto split: option.splits)
  obtain r u' where r: "poll_op w \<lparr>op_id = k, op_data = Some d\<rparr> (pg_ring p) = Some (r, u')"
    using poll_op_inv [OF i, of "\<lparr>op_id = k, op_data = Some d\<rparr>" d w] d unfolding op.simps by blast
  have pend: "r = Pending" "pg_ring p1 = u'"
    using r act d own by (auto simp: driver_poll_op_def ounwrap_def drop_owner_def split: poll.splits)
  have op: "op_inv (ur_ops (pg_ring p))" by (rule ring_coreD(1) [OF ring_invD(1) [OF i(1)]])
  obtain st st' where st: "op_get (ur_ops (pg_ring p)) k = Some st" "u' = set_state k st' (pg_ring p)" "waits w st'"
    using r unfolding pend
    by (auto simp: poll_op_def waits_def split: option.splits uring_state.splits oneshot.splits cancel_observer.splits)
  then show ?thesis using pend calm ops.upd_inv [OF op] ops.upd_some [OF op st(1)]
    by (auto simp: wake_inv_def told_def set_state_def)
qed



section \<open>When a wake-up is lost\<close>

text \<open>
  \<^verbatim>\<open>calm\<close> is needed.  The submission queue is full, so a push enters the kernel; the call reports \<^verbatim>\<open>EBUSY\<close> and
  makes visible the completion of \<open>k\<close> and of the eventfd read.  The nested \<^verbatim>\<open>dispatch_completions\<close> completes \<open>k\<close>,
  collects the wake-up of \<open>w\<close> and, re-arming the eventfd, enters the kernel again, which now fails:
  \<^verbatim>\<open>arm_wakeup_read()?\<close> returns the error and drops the collected wake-up.
\<close>

lemma failed_rearm_loses_wakeup:
  assumes op: "op_inv (ur_ops u)" and slot: "op_get (ur_ops u) = [k \<mapsto> Oneshot (Waiting w)]"
    and full: "\<not> has_room u" and state: "ur_cq u = []" "ur_kernel u = [(k, False)]" "\<not> ur_shutting_down u"
    and cqe: "decode (cq_user c) = Some (Operation k)" "\<not> abi_more abi (cq_flags c)"
    and wake: "decode (cq_user cw) = Some Wake"
    and err: "err \<notin> {EBUSY, EINTR, ETIME}"
    and script: "ur_script u = [Enter 0 [c, cw] (Some EBUSY), Enter 0 [] (Some err)]"
  obtains u' where "push abi e u = Done (Inl (RawOs err), u')" "ur_ran u' = ur_ran u"
    "op_get (ur_ops u') k = Some (Oneshot (Completed (cqe_completion c)))" "requests u' = sqe_requests (ur_sq u)"
proof -
  let ?t = "op_get_mut (ur_ops u) k (\<lambda>_. Oneshot (Completed (cqe_completion c)))"
  let ?v = "u\<lparr>ur_ops := ?t, ur_cq := [], ur_kernel := [], ur_wakeup_armed := False, ur_script := [Enter 0 [] (Some err)]\<rparr>"
  have t: "op_inv ?t" "op_get ?t = [k \<mapsto> Oneshot (Completed (cqe_completion c))]"
    using ops.upd_inv [OF op] ops.upd_some [OF op, of k] slot by auto
  obtain kvs where kvs: "op_iter ?t = Some kvs" "set kvs = {(k, v). op_get ?t k = Some v}"
    using ops.iter_total [OF t(1)] by blast
  then have none: "retry_keys kvs = []" using t(2) by (auto simp: retry_keys_def filter_empty_conv needs_cancel_push_def split: if_splits)
  have proc: "process_cqes abi [c, cw] collected_none (u\<lparr>ur_script := [Enter 0 [] (Some err)], ur_cq := []\<rparr>) =
      Some (\<lparr>co_deferred = [WakeTask w], co_cancel = [], co_rearm = True\<rparr>, ?v)"
    using cqe wake slot state
    by (simp add: process_cqe_def process_op_def apply_state_def collected_none_def kernel_post_def Let_def option_list_def)
  have room: "\<not> has_room ?v" using full by (simp add: has_room_def)
  have fail: "submit_n abi (Suc 0) ?v = Done (Inl (RawOs err), ?v\<lparr>ur_script := []\<rparr>)"
    using err by (simp add: submit_round_def enter_def obind_def)
  have arm: "arm_wakeup_read_with (submit_n abi (Suc 0)) ?v = Done (Inl (RawOs err), ?v\<lparr>ur_script := []\<rparr>)"
    using room fail by (simp add: arm_wakeup_read_with_def push_with_def otry_def obind_def)
  have disp: "dispatch_with abi (submit_n abi (Suc 0)) (u\<lparr>ur_script := [Enter 0 [] (Some err)], ur_cq := [c, cw]\<rparr>) =
      Done (Inl (RawOs err), ?v\<lparr>ur_script := []\<rparr>)"
    using proc kvs none arm by (simp add: dispatch_with_def ounwrap_def otry_def obind_def del: submit_n.simps process_cqes.simps)
  have "kernel_accepts abi [c, cw] [(k, False)]" using cqe wake by (simp add: kernel_post_def)
  then have "enter abi False u = Done (Some EBUSY, u\<lparr>ur_script := [Enter 0 [] (Some err)], ur_cq := [c, cw]\<rparr>)"
    using script state by (cases u) (simp add: enter_def EBUSY_def ETIME_def)
  then have "submit abi u = Done (Inl (RawOs err), ?v\<lparr>ur_script := []\<rparr>)"
    using script disp by (simp add: submit_def submit_round_def obind_def otry_def)
  then have "push abi e u = Done (Inl (RawOs err), ?v\<lparr>ur_script := []\<rparr>)"
    using full script by (simp add: push_def push_with_def otry_def obind_def)
  then show thesis by (rule that) (use t in \<open>simp_all add: requests_def\<close>)
qed

end
