(* ===== verification/Uring_Shutdown.thy ===== *)
theory Uring_Shutdown
  imports Uring_Ops
begin

text \<open>
  Shutting the io_uring backend down (\<^verbatim>\<open>shutdown\<close> and \<^verbatim>\<open>shutdown_inner\<close> in \<^verbatim>\<open>driver/backends/iouring.rs\<close>): it
  flushes the submission queue, replaces what the slots hold for late completions, cancels every
  request and drains the completions.
\<close>

section \<open>The steps\<close>

lemma inv_closed [simp]:
  "ring_inv abi W (u\<lparr>ur_closed := b\<rparr>) = ring_inv abi W u" "ring_inv abi W (u\<lparr>ur_pool := b\<rparr>) = ring_inv abi W u"
  "ring_inv abi W (u\<lparr>ur_wakeup_armed := b\<rparr>) = ring_inv abi W u"
  by (simp_all add: ring_inv_def)

text \<open>Shutdown begins: nothing else changes.\<close>

lemma kept_shut: "kept False f g p \<Longrightarrow> kept True f g p"
  by (auto simp: kept_def split: ignored.splits)

lemma state_ok_shut: "state_ok False r f s g st \<Longrightarrow> state_ok True r f s g st"
proof (cases st)
  case (Oneshot x)
  then show "state_ok False r f s g st \<Longrightarrow> ?thesis"
    by (cases x) (auto simp: state_ok_def kept_shut split: cancel_observer.splits)
next
  case (Multishot m)
  then show "state_ok False r f s g st \<Longrightarrow> ?thesis" by (cases m) (auto simp: state_ok_def split: option.splits)
qed

lemma shut_begins:
  assumes inv: "ring_inv abi W u" and nb: "no_building W" and sh: "\<not> ur_shutting_down u"
  shows "ring_inv abi (W\<lparr>ow_shut := True\<rparr>) (u\<lparr>ur_shutting_down := True, ur_closed := True\<rparr>)"
proof -
  have "slot_ok True (W\<lparr>ow_shut := True\<rparr>) (map_of (requests u) k) k (op_get (ur_ops u) k)" for k
    using inv_slot [OF inv nb, of k] nb sh by (auto simp: slot_ok_def no_building_def state_ok_shut split: option.splits)
  then show ?thesis using inv by (auto simp: ring_inv_def ring_core_def)
qed

lemma shutdown_state_ok: "state_ok True r f s g st \<Longrightarrow> state_ok True r f s g (fst (shutdown_state abi st))"
  by (auto simp: state_ok_def shutdown_state_def kept_def
      split: uring_state.splits oneshot.splits multishot.splits cancel_observer.splits option.splits)

text \<open>Whatever the ring's functions keep, the loops of the shutdown keep too.\<close>

context ring_property
begin

lemma flush_keeps: "keeps (flush_n abi n)"
proof (induction n)
  case (Suc n)
  have "yields (otry (submit abi u) (\<lambda>_ u. flush_n abi n u)) (\<lambda>(r, u'). P ds u' \<and> (isl r \<longrightarrow> err))" if "P ds u" for ds u
    by (rule keeps_try [OF submit_keeps that]) (auto intro: keepsD [OF Suc.IH])
  then show ?case by (simp add: keeps_def)
qed (simp add: keeps_def)

lemma cancel_marked_keeps: "keeps (cancel_marked abi ks)"
proof (induction ks)
  case (Cons k ks)
  have "yields (cancel_marked abi (k # ks) u) (\<lambda>(r, u'). P ds u' \<and> (isl r \<longrightarrow> err))" if "P ds u" for ds u
    unfolding cancel_marked.simps
    by (rule keeps_try [OF push_cancel_keeps that]) (auto intro: keepsD [OF Cons.IH] mark_keeps)
  then show ?case by (simp add: keeps_def)
qed (simp add: keeps_def)

lemma wait_keeps: "err \<Longrightarrow> keeps (wait abi)"
  unfolding keeps_def wait_def by (auto intro!: yields_obind [OF enter_yields])

lemma wait_dispatch_keeps:
  assumes err
  shows "keeps (wait_dispatch abi)"
proof -
  have "yields (wait_dispatch abi u) (\<lambda>(r, u'). P ds u' \<and> (isl r \<longrightarrow> err))" if "P ds u" for ds u
    unfolding wait_dispatch_def
  proof (rule keeps_try [OF wait_keeps [OF assms] that])
    fix a u' assume "P ds u'"
    then show "yields (otry (dispatch_completions abi u') (\<lambda>ds u. Done (Inr (), run_all ds u))) (\<lambda>(r, u'). P ds u' \<and> (isl r \<longrightarrow> err))"
      by (rule yields_otry [OF dispatch_keeps]) (auto intro: run_keeps)
  qed auto
  then show ?thesis by (simp add: keeps_def)
qed

lemma disarm_keeps:
  assumes err
  shows "keeps (disarm_n abi n)"
proof (induction n)
  case (Suc n)
  have "yields (otry (wait_dispatch abi u) (\<lambda>_ u. disarm_n abi n u)) (\<lambda>(r, u'). P ds u' \<and> (isl r \<longrightarrow> err))" if "P ds u" for ds u
    by (rule keeps_try [OF wait_dispatch_keeps [OF assms] that]) (auto intro: keepsD [OF Suc.IH])
  then show ?case by (simp add: keeps_def)
qed (simp add: keeps_def)

lemma cancel_wakeup_keeps:
  assumes err
  shows "keeps (cancel_wakeup_read abi)"
proof -
  have "yields (otry (push_with (wait abi) WakeCancelSqe u) (\<lambda>_ u. otry (submit abi u) (\<lambda>_ u. disarm_n abi (length (ur_script u)) u)))
      (\<lambda>(r, u'). P ds u' \<and> (isl r \<longrightarrow> err))" if "P ds u" for ds u
    by (rule keeps_try [OF push_with_keeps [OF wait_keeps [OF assms]] that], simp add: is_control_def)
       (auto intro!: keeps_try [OF submit_keeps] intro: keepsD [OF disarm_keeps [OF assms]])
  then show ?thesis by (simp add: keeps_def cancel_wakeup_read_def)
qed

end

section \<open>Stopped slots\<close>

text \<open>After the pass over the slots each of them waits for a completion or holds one.\<close>

definition stopped :: "('w, 'd) uring \<Rightarrow> bool" where
  "stopped u \<longleftrightarrow> (\<forall>k st. op_get (ur_ops u) k = Some st \<longrightarrow> awaits_cqe st \<or> (\<exists>c. st = Oneshot (Completed c)))"

lemma stopped_fields [simp]:
  "stopped (u\<lparr>ur_wakeup_armed := b\<rparr>) = stopped u" "stopped (u\<lparr>ur_kernel := kn\<rparr>) = stopped u" "stopped (u\<lparr>ur_sq := es\<rparr>) = stopped u"
  "stopped (u\<lparr>ur_cq := cs\<rparr>) = stopped u" "stopped (u\<lparr>ur_ran := ds\<rparr>) = stopped u"
  by (simp_all add: stopped_def)

lemma enter_ops: "enter abi timed u = Done (r, u') \<Longrightarrow> ur_ops u' = ur_ops u"
  by (auto simp: enter_def Let_def split: list.splits ring_event.splits if_splits)

lemma shutdown_state_stops: "awaits_cqe (fst (shutdown_state abi st)) \<or> (\<exists>c. fst (shutdown_state abi st) = Oneshot (Completed c))"
  by (auto simp: shutdown_state_def awaits_cqe_def split: uring_state.splits oneshot.splits multishot.splits)

lemma shutdown_states_inv:
  assumes "ring_inv abi W u" "no_building W" "ow_shut W" "distinct (map fst ps)"
    "\<And>k st. (k, st) \<in> set ps \<Longrightarrow> op_get (ur_ops u) k = Some st"
  shows "ring_inv abi W (shutdown_states abi ps u) \<and>
    (\<forall>k. op_get (ur_ops (shutdown_states abi ps u)) k =
       (case map_of ps k of None \<Rightarrow> op_get (ur_ops u) k | Some st \<Rightarrow> Some (fst (shutdown_state abi st))))"
  using assms
proof (induction ps arbitrary: u)
  case (Cons p ps)
  obtain k st where p: "p = (k, st)" by (cases p)
  obtain st' rel where st': "shutdown_state abi st = (st', rel)" by (cases "shutdown_state abi st")
  let ?u = "(set_state k st' u)\<lparr>ur_released := ur_released u @ rel\<rparr>"
  have st: "op_get (ur_ops u) k = Some st" using Cons.prems(5) p by simp
  have sh: "ur_shutting_down u" using ring_coreD(4) [OF ring_invD(1) [OF Cons.prems(1)]] Cons.prems(3) by simp
  have "slot_ok True W (map_of (requests u) k) k (Some st')"
    using inv_slot [OF Cons.prems(1,2), of k] st st' sh Cons.prems(2) shutdown_state_ok [where st = st and abi = abi]
    by (fastforce simp: slot_ok_def no_building_def)
  then have inv: "ring_inv abi W ?u" using inv_set [OF Cons.prems(1) st, of W st'] sh by simp
  have get: "op_get (ur_ops ?u) = (op_get (ur_ops u))(k \<mapsto> st')"
    using ops.upd_some [OF ring_coreD(1) [OF ring_invD(1) [OF Cons.prems(1)]] st] by (simp add: set_state_def)
  have k: "k \<notin> fst ` set ps" using Cons.prems(4) p by simp
  have "\<And>j st. (j, st) \<in> set ps \<Longrightarrow> op_get (ur_ops ?u) j = Some st" using Cons.prems(5) k unfolding get by (auto simp: image_iff)
  note IH = Cons.IH [OF inv Cons.prems(2,3) _ this]
  have "map_of ps k = None" using k by (simp add: map_of_eq_None_iff)
  then have "op_get (ur_ops (shutdown_states abi ps ?u)) j =
      (case map_of (p # ps) j of None \<Rightarrow> op_get (ur_ops u) j | Some st \<Rightarrow> Some (fst (shutdown_state abi st)))" for j
    using IH Cons.prems(4) p st' get by (cases "j = k") (auto split: option.split)
  then show ?case using IH Cons.prems(4) p st' by simp
qed simp

lemma stopped_mark: "op_inv (ur_ops u) \<Longrightarrow> stopped u \<Longrightarrow> stopped (mark_key k u)"
proof -
  assume op: "op_inv (ur_ops u)" and st: "stopped u"
  have m: "awaits_cqe (mark_cancel_in_flight s) = awaits_cqe s"
    "\<And>c. (mark_cancel_in_flight s = Oneshot (Completed c)) = (s = Oneshot (Completed c))" for s :: "('a, 'b) uring_state"
    by (cases s rule: mark_cancel_in_flight.cases; simp add: awaits_cqe_def)+
  show ?thesis
  proof (cases "op_get (ur_ops u) k")
    case None
    then show ?thesis using st ops.upd_none [OF op None, of mark_cancel_in_flight] by (simp add: stopped_def mark_key_def)
  next
    case (Some s)
    then show ?thesis using st ops.upd_some [OF op Some, of mark_cancel_in_flight] by (auto simp: stopped_def mark_key_def m)
  qed
qed

lemma apply_state_stops:
  assumes "apply_state abi c st = (rm, wk, cl, rc, st', rel)" "\<not> rm" "awaits_cqe st \<or> (\<exists>c. st = Oneshot (Completed c))"
  shows "awaits_cqe st' \<or> (\<exists>c. st' = Oneshot (Completed c))"
proof (cases st)
  case (Oneshot x)
  then show ?thesis using assms by (cases "(cqe_completion c, x)" rule: oneshot_complete.cases) (auto simp: apply_state_def awaits_cqe_def)
next
  case (Multishot m)
  then show ?thesis using assms by (cases m) (auto simp: apply_state_def awaits_cqe_def split: if_splits)
qed

lemma process_op_stops:
  assumes "op_inv (ur_ops u) \<and> stopped u"
  shows "\<exists>co' u'. process_op abi c k co u = Some (co', u') \<and> op_inv (ur_ops u') \<and> stopped u'"
proof -
  have "op_inv (ur_ops u)" using assms by simp
  then show ?thesis
  proof (cases rule: process_op_cases [where k = k and c = c and co = co and abi = abi])
    case (present st rm wk cl rc st' rel co' u')
    then show ?thesis using assms apply_state_stops [OF present(2)] by (auto simp: stopped_def)
  qed (use assms in auto)
qed

lemma process_cqes_stops:
  "op_inv (ur_ops u) \<and> stopped u \<Longrightarrow> \<exists>co' u'. process_cqes abi cs co u = Some (co', u') \<and> op_inv (ur_ops u') \<and> stopped u'"
  by (rule process_cqes_keep [where Q = "\<lambda>_ u. op_inv (ur_ops u) \<and> stopped u"]) (auto intro: process_op_stops)

interpretation stop: ring_property abi "\<lambda>_ u. ring_inv abi W u \<and> stopped u" True for abi W
proof
  fix ds ds' u u' r e k timed
  assume P: "ring_inv abi W u \<and> stopped u"
  show "enter abi timed u = Done (r, u') \<Longrightarrow> (ring_inv abi W u' \<and> stopped u') \<and> (\<not> retried r \<longrightarrow> True \<or> timed \<and> r = Some ETIME)"
    using P enter_inv [of abi W u timed r u'] enter_ops [of abi timed u r u'] by (auto simp: stopped_def)
  show "is_control e \<Longrightarrow> has_room u \<Longrightarrow> ring_inv abi W (u\<lparr>ur_sq := ur_sq u @ [e]\<rparr>) \<and> stopped (u\<lparr>ur_sq := ur_sq u @ [e]\<rparr>)"
    using P inv.push_keeps [of abi W u e] by simp
  show "ring_inv abi W (mark_key k u) \<and> stopped (mark_key k u)" using P inv.mark_keeps stopped_mark [of u k] ring_invD(2) by blast
  show "ring_inv abi W (u\<lparr>ur_wakeup_armed := True\<rparr>) \<and> stopped (u\<lparr>ur_wakeup_armed := True\<rparr>)" using P by simp
  show "op_iter (ur_ops u) \<noteq> None" using P inv.iter_total by blast
  show "ring_inv abi W (run_all ds' u) \<and> stopped (run_all ds' u)" using P inv.run_keeps [of abi W u ds'] by (simp add: run_all_def)
  show "\<exists>co u'. process_cqes abi (ur_cq u) collected_none (u\<lparr>ur_cq := []\<rparr>) = Some (co, u') \<and> ring_inv abi W u' \<and> stopped u'"
    using P inv.process_keeps [of abi W u] process_cqes_stops [of "u\<lparr>ur_cq := []\<rparr>" abi "ur_cq u" collected_none] ring_invD(2) [of abi W u]
    by auto
qed simp_all

section \<open>Draining\<close>

lemma drain_inv:
  assumes nb: "no_building W" and sh: "ow_shut W"
  shows "ring_inv abi W u \<Longrightarrow> stopped u \<Longrightarrow>
    yields (drain_n abi n u) (\<lambda>(r, u'). ring_inv abi W u' \<and> (\<not> isl r \<longrightarrow> op_is_empty (ur_ops u')))"
proof (induction n arbitrary: u)
  case (Suc n)
  have op: "op_inv (ur_ops u)" by (rule ring_invD(2) [OF Suc.prems(1)])
  obtain kvs where kvs: "op_iter (ur_ops u) = Some kvs" "set kvs = {(k, v). op_get (ur_ops u) k = Some v}"
    using ops.iter_total [OF op] by blast
  show ?case
  proof (cases kvs)
    case Nil
    then have "op_is_empty (ur_ops u)" using kvs(2) ops.empty_iff [OF op] by auto
    then show ?thesis using Suc.prems by simp
  next
    case (Cons p ps)
    obtain k st where p: "p = (k, st)" by (cases p)
    have st: "op_get (ur_ops u) k = Some st" using kvs(2) Cons p by auto
    have wait: "yields (otry (wait_dispatch abi u) (\<lambda>_ u. drain_n abi n u)) (\<lambda>(r, u'). ring_inv abi W u' \<and> (\<not> isl r \<longrightarrow> op_is_empty (ur_ops u')))"
      by (rule stop.keeps_try [OF stop.wait_dispatch_keeps]) (use Suc in auto)
    obtain t where t: "op_remove (ur_ops u) k = Some (Some st, t)" "op_inv t" "op_get t = (op_get (ur_ops u))(k := None)"
      using ops.remE [OF op, of k] st by metis
    have rest: "yields (drain_n abi n (u\<lparr>ur_ops := t\<rparr>)) (\<lambda>(r, u'). ring_inv abi W u' \<and> (\<not> isl r \<longrightarrow> op_is_empty (ur_ops u')))"
      if na: "\<not> awaits_cqe st"
    proof (rule Suc.IH)
      obtain c where "st = Oneshot (Completed c)" using na Suc.prems(2) st by (auto simp: stopped_def)
      then have "map_of (requests u) k = None" "ur_shutting_down u"
        using inv_slot [OF Suc.prems(1) nb, of k] st ring_coreD(4) [OF ring_invD(1) [OF Suc.prems(1)]] sh by (auto simp: state_ok_def)
      then show "ring_inv abi W (u\<lparr>ur_ops := t\<rparr>)" using nb by (intro inv_removed [OF Suc.prems(1) t(2,3)]) (auto simp: slot_ok_def no_building_def)
      show "stopped (u\<lparr>ur_ops := t\<rparr>)" using Suc.prems(2) t(3) by (auto simp: stopped_def)
    qed
    show ?thesis using wait rest kvs(1) Cons p t(1) Suc.prems by (auto simp: ounwrap_def)
  qed
qed simp

section \<open>The fuel is enough\<close>

text \<open>A round of a loop consumes a system call or a slot, so more fuel than there are of them changes nothing.\<close>

lemma wait_blocked [simp]: "ur_script u = [] \<Longrightarrow> wait_dispatch abi u = Blocked" "ur_script u = [] \<Longrightarrow> submit abi u = Blocked"
  by (simp_all add: wait_dispatch_def wait_def enter_def obind_def otry_def submit_def)

lemma wait_dispatch_shrinks: "wait_dispatch abi u = Done (r, u') \<Longrightarrow> length (ur_script u') < length (ur_script u)"
  using dispatch_with_shrinks [OF submit_shrinks']
  by (fastforce simp: wait_dispatch_def wait_def Done_iffs dispatch_completions_def run_all_def dest: enter_shrinks split: option.splits)

lemma flush_fuel: "length (ur_script u) \<le> n \<Longrightarrow> flush_n abi (n + m) u = flush_n abi n u"
proof (induction n arbitrary: u)
  case 0
  then show ?case by (cases m) (auto simp: otry_def obind_def)
next
  case (Suc n)
  then show ?case by (auto intro!: otry_eq dest!: submit_shrinks)
qed

lemma disarm_fuel: "length (ur_script u) \<le> n \<Longrightarrow> disarm_n abi (n + m) u = disarm_n abi n u"
proof (induction n arbitrary: u)
  case 0
  then show ?case by (cases m) (auto simp: otry_def obind_def)
next
  case (Suc n)
  then show ?case by (auto intro!: otry_eq dest!: wait_dispatch_shrinks)
qed

lemma active_len_dom:
  assumes "op_inv t"
  shows "ot_active_len t = card (dom (op_get t))" "finite (dom (op_get t))"
proof -
  obtain kvs where kvs: "set kvs = {(key, v). op_get t key = Some v}" "distinct (map fst kvs)" "length kvs = ot_active_len t"
    using op_iter_complete [OF assms] by blast
  have "dom (op_get t) = fst ` set kvs" unfolding kvs(1) by force
  then show "ot_active_len t = card (dom (op_get t))" "finite (dom (op_get t))"
    using distinct_card [OF kvs(2)] kvs(3) by simp_all
qed

definition within :: "op_key set \<Rightarrow> ('w, 'd) uring \<Rightarrow> bool" where
  "within D u \<longleftrightarrow> op_inv (ur_ops u) \<and> dom (op_get (ur_ops u)) \<subseteq> D"

lemma process_op_within:
  assumes "within D u"
  shows "\<exists>co' u'. process_op abi c k co u = Some (co', u') \<and> within D u'"
proof -
  have "op_inv (ur_ops u)" using assms by (simp add: within_def)
  then show ?thesis
  proof (cases rule: process_op_cases [where k = k and c = c and co = co and abi = abi])
    case (present st rm wk cl rc st' rel co' u')
    then show ?thesis using assms by (auto simp: within_def dom_def split: if_splits)
  qed (use assms in auto)
qed

interpretation dom: ring_property abi "\<lambda>_. within D" True for abi D
proof
  fix ds ds' u u' r e k timed
  assume P: "within D u"
  show "enter abi timed u = Done (r, u') \<Longrightarrow> within D u' \<and> (\<not> retried r \<longrightarrow> True \<or> timed \<and> r = Some ETIME)"
    using P enter_ops [of abi timed u r u'] by (auto simp: within_def)
  show "within D (mark_key k u)"
    using P ops.upd_inv [of "ur_ops u"] ops.upd_some [of "ur_ops u" k] ops.upd_none [of "ur_ops u" k]
    by (cases "op_get (ur_ops u) k") (auto simp: within_def mark_key_def)
  show "op_iter (ur_ops u) \<noteq> None" using P ops.iter_total [of "ur_ops u"] by (auto simp: within_def)
  show "\<exists>co u'. process_cqes abi (ur_cq u) collected_none (u\<lparr>ur_cq := []\<rparr>) = Some (co, u') \<and> within D u'"
    using P by (intro process_cqes_keep [where Q = "\<lambda>_. within D"]) (auto intro: process_op_within, simp_all add: within_def)
qed (simp_all add: within_def run_all_def)

lemma drain_fuel:
  assumes "op_inv (ur_ops u)" "length (ur_script u) + ot_active_len (ur_ops u) \<le> n"
  shows "drain_n abi (n + m) u = drain_n abi n u"
  using assms
proof (induction n arbitrary: u)
  case 0
  then show ?case by (cases m) (auto simp: op_is_empty_def)
next
  case (Suc n)
  note len = active_len_dom [OF Suc.prems(1)]
  obtain kvs where kvs: "op_iter (ur_ops u) = Some kvs" "set kvs = {(k, v). op_get (ur_ops u) k = Some v}"
    using ops.iter_total [OF Suc.prems(1)] by blast
  have kv: "\<And>k st. (k, st) \<in> set kvs \<Longrightarrow> op_get (ur_ops u) k = Some st" using kvs(2) by simp
  have wait: "drain_n abi (n + m) v = drain_n abi n v" if "wait_dispatch abi u = Done (r, v)" for r v
  proof (rule Suc.IH)
    have "within (dom (op_get (ur_ops u))) v"
      using yieldsD(2) [OF dom.keepsD [OF dom.wait_dispatch_keeps, of "dom (op_get (ur_ops u))"] that] Suc.prems(1) by (auto simp: within_def)
    then have v: "op_inv (ur_ops v)" "dom (op_get (ur_ops v)) \<subseteq> dom (op_get (ur_ops u))" by (simp_all add: within_def)
    have "ot_active_len (ur_ops v) \<le> ot_active_len (ur_ops u)"
      using card_mono [OF len(2) v(2)] active_len_dom(1) [OF v(1)] len(1) by simp
    then show "length (ur_script v) + ot_active_len (ur_ops v) \<le> n" using wait_dispatch_shrinks [OF that] Suc.prems(2) by simp
    show "op_inv (ur_ops v)" by (rule v(1))
  qed
  have rem: "drain_n abi (n + m) (u\<lparr>ur_ops := t\<rparr>) = drain_n abi n (u\<lparr>ur_ops := t\<rparr>)"
    if k: "op_get (ur_ops u) k = Some st" and t: "op_remove (ur_ops u) k = Some (x, t)" for k st x t
  proof (rule Suc.IH)
    obtain t' where t': "op_remove (ur_ops u) k = Some (op_get (ur_ops u) k, t')" "op_inv t'" "op_get t' = (op_get (ur_ops u))(k := None)"
      by (rule ops.remE [OF Suc.prems(1)])
    then have "t' = t" using t by simp
    then have "op_inv t" and d: "dom (op_get t) = dom (op_get (ur_ops u)) - {k}" using t' by auto
    have "Suc (card (dom (op_get (ur_ops u)) - {k})) = card (dom (op_get (ur_ops u)))"
      by (rule card_Suc_Diff1 [OF len(2)]) (use k in blast)
    then have "Suc (ot_active_len t) = ot_active_len (ur_ops u)"
      unfolding len(1) active_len_dom(1) [OF \<open>op_inv t\<close>] d .
    then show "length (ur_script (u\<lparr>ur_ops := t\<rparr>)) + ot_active_len (ur_ops (u\<lparr>ur_ops := t\<rparr>)) \<le> n" using Suc.prems(2) by simp
    show "op_inv (ur_ops (u\<lparr>ur_ops := t\<rparr>))" using \<open>op_inv t\<close> by simp
  qed
  have "drain_n abi (Suc n + m) u = drain_n abi (Suc n) u"
  proof (cases kvs)
    case (Cons p ps)
    obtain k st where p: "p = (k, st)" by (cases p)
    then have "op_get (ur_ops u) k = Some st" using kv Cons by simp
    note r = rem [OF this]
    show ?thesis using kvs(1) Cons p wait r by (auto simp: ounwrap_def intro!: otry_eq split: option.splits)
  qed (use kvs(1) in \<open>simp add: ounwrap_def\<close>)
  then show ?case .
qed

section \<open>Shutdown\<close>

lemma requests_none: "(\<And>k. map_of xs k = None) \<Longrightarrow> xs = []"
  using map_of_eq_empty_iff [of xs] by (simp add: fun_eq_iff)

lemma shutdown_inner_inv:
  assumes inv: "ring_inv abi W u" and nb: "no_building W" and sh: "ow_shut W"
  shows "yields (shutdown_inner abi u) (\<lambda>(r, u'). ring_inv abi W u' \<and> (\<not> isl r \<longrightarrow> op_is_empty (ur_ops u')))"
  unfolding shutdown_inner_def
proof (rule inv.keeps_try [OF inv.flush_keeps inv])
  fix a u1
  assume inv1: "ring_inv abi W u1"
  obtain kvs where kvs: "op_iter (ur_ops u1) = Some kvs" "set kvs = {(k, v). op_get (ur_ops u1) k = Some v}" "distinct (map fst kvs)"
    using ops.iter_total [OF ring_invD(2) [OF inv1]] by blast
  let ?u2 = "shutdown_states abi kvs u1"
  have inv2: "ring_inv abi W ?u2" and get: "op_get (ur_ops ?u2) k =
      (case map_of kvs k of None \<Rightarrow> op_get (ur_ops u1) k | Some st \<Rightarrow> Some (fst (shutdown_state abi st)))" for k
    using shutdown_states_inv [OF inv1 nb sh kvs(3)] kvs(2) by auto
  have "op_get (ur_ops u1) k = None" if "map_of kvs k = None" for k
    using that kvs(2) by (cases "op_get (ur_ops u1) k") (force simp: map_of_eq_None_iff)+
  then have stop: "stopped ?u2"
    using get shutdown_state_stops by (fastforce simp: stopped_def split: option.splits)
  obtain kvs2 where kvs2: "op_iter (ur_ops ?u2) = Some kvs2" using ops.iter_total [OF ring_invD(2) [OF inv2]] by blast
  have P2: "ring_inv abi W ?u2 \<and> stopped ?u2" using inv2 stop by simp
  show "yields (ounwrap (op_iter (ur_ops u1)) (\<lambda>pairs. let u = shutdown_states abi pairs u1 in
      ounwrap (op_iter (ur_ops u)) (\<lambda>pairs.
      otry (cancel_marked abi (map fst (filter (awaits_cqe \<circ> snd) pairs)) u) (\<lambda>_ u.
      otry (cancel_wakeup_read abi u) (\<lambda>_ u.
      otry (drain_n abi (length (ur_script u) + ot_active_len (ur_ops u)) u) (\<lambda>_ u.
      Done (Inr (), u\<lparr>ur_pool := False\<rparr>)))))))
     (\<lambda>(r, u'). ring_inv abi W u' \<and> (\<not> isl r \<longrightarrow> op_is_empty (ur_ops u')))"
    unfolding kvs(1) ounwrap_def option.case Let_def kvs2
  proof (rule stop.keeps_try [OF stop.cancel_marked_keeps P2], goal_cases)
    case (1 a u3)
    show ?case
    proof (rule stop.keeps_try [OF stop.cancel_wakeup_keeps 1(2)], goal_cases)
      case (2 a u4)
      show ?case
        by (rule yields_otry [OF yields_mono [OF drain_inv [OF nb sh]]])
           (use 2 in \<open>auto split: sum.splits\<close>)
    qed auto
  qed auto
qed auto


text \<open>A fresh backend: the eventfd read is submitted, cancelled and completes, all in three system calls.\<close>

definition calls :: "ring_event list" where
  "calls = [Enter 1 [] None,
            Enter 1 [\<lparr>cq_user = WAKE_RAW, cq_res = 0, cq_flags = 0\<rparr>, \<lparr>cq_user = WAKE_CANCEL_RAW, cq_res = 0, cq_flags = 0\<rparr>] None,
            Enter 0 [] None]"


end
