(* ===== verification/Buffer_Pool.thy ===== *)
theory Buffer_Pool
  imports Prelude "HOL-Library.Multiset"
begin

text \<open>
  The provided-buffer pool of the io_uring backend (\<^verbatim>\<open>karmaio/src/buf/pool.rs\<close>): a ring of buffers shared with the
  kernel, the table of buffers that are not leased, and leases (\<^verbatim>\<open>PooledBuf\<close>) with their views.

  The ring's tail is a 16-bit counter that wraps around; its entries are indexed modulo the ring's size.
  The kernel's side is its head, which is not visible to the program: it selects the entry at its head for a
  receive, posts the buffer's id in a completion and moves on (\<open>KSelect\<close>).  Allocations are identified by
  their addresses; \<open>alloc i\<close> is the result of the \<open>i\<close>-th allocation, and two live allocations have different
  addresses.  \<open>None\<close> is a panic.
\<close>

section \<open>The ring\<close>

type_synonym addr = u64

record ring_entry =
  re_addr :: addr
  re_len :: u32
  re_bid :: u16

record buf_ring =
  br_entries :: "ring_entry list"
  br_tail :: u16
  br_len :: u16

definition add_buffer :: "u16 \<Rightarrow> addr \<Rightarrow> u32 \<Rightarrow> u16 \<Rightarrow> buf_ring \<Rightarrow> buf_ring option" where
  "add_buffer bid ptr len off r =
     (let idx = unat ((br_tail r + off) mod br_len r) in
      if idx < length (br_entries r)
      then Some (r\<lparr>br_entries := (br_entries r)[idx := \<lparr>re_addr = ptr, re_len = len, re_bid = bid\<rparr>]\<rparr>)
      else None)"

definition ring_commit :: "u16 \<Rightarrow> buf_ring \<Rightarrow> buf_ring" where
  "ring_commit n r = r\<lparr>br_tail := br_tail r + n\<rparr>"

definition reset_buffer :: "u16 \<Rightarrow> addr \<Rightarrow> u32 \<Rightarrow> buf_ring \<Rightarrow> buf_ring option" where
  "reset_buffer bid ptr len r = map_option (ring_commit 1) (add_buffer bid ptr len 0 r)"

fun add_all :: "nat \<Rightarrow> addr option list \<Rightarrow> u32 \<Rightarrow> buf_ring \<Rightarrow> buf_ring option" where
  "add_all i [] len r = Some r"
| "add_all i (None # bufs) len r = None"
| "add_all i (Some a # bufs) len r =
     (case add_buffer (of_nat i) a len (of_nat i) r of None \<Rightarrow> None | Some r \<Rightarrow> add_all (Suc i) bufs len r)"

text \<open>\<^verbatim>\<open>BufRing::register\<close>; \<open>mmap\<close> and \<open>reg\<close> are the results of mapping and registering the ring.  The mapping is zero-filled.\<close>

definition empty_entry :: ring_entry where
  "empty_entry = \<lparr>re_addr = 0, re_len = 0, re_bid = 0\<rparr>"

definition ring_register ::
  "addr option list \<Rightarrow> u32 \<Rightarrow> unit io_result \<Rightarrow> unit io_result \<Rightarrow> buf_ring io_result option" where
  "ring_register bufs len mmap reg =
     (if length bufs > 65535 then Some (Inl InvalidInput)
      else if bufs = [] then Some (Inl InvalidInput)
      else
        (case (mmap, reg) of
           (Inl e, _) \<Rightarrow> Some (Inl e)
         | (Inr _, Inl e) \<Rightarrow> Some (Inl e)
         | (Inr _, Inr _) \<Rightarrow>
             map_option (Inr \<circ> ring_commit (of_nat (length bufs)))
               (add_all 0 bufs len
                  \<lparr>br_entries = replicate (length bufs) empty_entry, br_tail = 0, br_len = of_nat (length bufs)\<rparr>)))"

section \<open>The pool\<close>

record buffer_pool =
  bp_ring :: buf_ring
  bp_bufs :: "addr option list"
  bp_size :: u32

function next_pow2 :: "nat \<Rightarrow> nat \<Rightarrow> nat" where
  "next_pow2 p n = (if p = 0 \<or> n \<le> p then p else next_pow2 (2 * p) n)"
  by auto
termination by (relation "measure (\<lambda>(p, n). n - p)") auto

declare next_pow2.simps [simp del]

definition next_power_of_two :: "nat \<Rightarrow> nat" where
  "next_power_of_two n = next_pow2 1 n"

text \<open>The allocation loop: the buffers, or an error and what was freed again.\<close>

fun alloc_all :: "(nat \<Rightarrow> addr option) \<Rightarrow> nat \<Rightarrow> addr list \<Rightarrow> addr list io_result \<times> addr list" where
  "alloc_all alloc 0 bufs = (Inr bufs, [])"
| "alloc_all alloc (Suc n) bufs =
     (case alloc (length bufs) of
        None \<Rightarrow> (Inl OutOfMemory, bufs)
      | Some a \<Rightarrow> alloc_all alloc n (bufs @ [a]))"

definition MAX_BUFFER_RING_ENTRIES :: nat where "MAX_BUFFER_RING_ENTRIES = 2 ^ 15"

definition pool_root_new ::
  "nat \<Rightarrow> nat \<Rightarrow> (nat \<Rightarrow> addr option) \<Rightarrow> unit io_result \<Rightarrow> unit io_result \<Rightarrow> (buffer_pool io_result \<times> addr list) option" where
  "pool_root_new num_bufs buffer_len alloc mmap reg =
     (if buffer_len > u32_max then Some (Inl InvalidInput, [])
      else if buffer_len = 0 then Some (Inl InvalidInput, [])
      else
        let requested = max num_bufs 1 in
        if requested > MAX_BUFFER_RING_ENTRIES then Some (Inl InvalidInput, [])
        else
          (case alloc_all alloc (next_power_of_two requested) [] of
             (Inl e, freed) \<Rightarrow> Some (Inl e, freed)
           | (Inr bufs, _) \<Rightarrow>
               (case ring_register (map Some bufs) (of_nat buffer_len) mmap reg of
                  None \<Rightarrow> None
                | Some (Inl e) \<Rightarrow> Some (Inl e, bufs)
                | Some (Inr r) \<Rightarrow> Some (Inr \<lparr>bp_ring = r, bp_bufs = map Some bufs, bp_size = of_nat buffer_len\<rparr>, []))))"

text \<open>\<^verbatim>\<open>Shared::take\<close> and \<^verbatim>\<open>Shared::reset\<close>; the latter also yields what it freed.\<close>

definition shared_take :: "u16 \<Rightarrow> buffer_pool \<Rightarrow> addr option \<times> buffer_pool" where
  "shared_take bid p =
     (case list_get (bp_bufs p) (unat bid) of
        Some (Some a) \<Rightarrow> (Some a, p\<lparr>bp_bufs := (bp_bufs p)[unat bid := None]\<rparr>)
      | _ \<Rightarrow> (None, p))"

definition shared_reset :: "u16 \<Rightarrow> addr \<Rightarrow> buffer_pool \<Rightarrow> (buffer_pool \<times> addr list) option" where
  "shared_reset bid ptr p =
     (if unat bid < length (bp_bufs p)
      then map_option (\<lambda>r. (p\<lparr>bp_bufs := (bp_bufs p)[unat bid := Some ptr], bp_ring := r\<rparr>, []))
             (reset_buffer bid ptr (bp_size p) (bp_ring p))
      else Some (p, [ptr]))"

text \<open>A lease, and what the handle \<^verbatim>\<open>BufferPool\<close> offers; the pool is \<open>None\<close> once its root is released.\<close>

record pooled_buf =
  pb_ptr :: addr
  pb_offset :: u32
  pb_len :: u32
  pb_cap :: u32
  pb_full_cap :: u32
  pb_id :: u16

definition pool_take :: "u16 \<Rightarrow> buffer_pool option \<Rightarrow> pooled_buf option io_result \<times> buffer_pool option" where
  "pool_take bid pool =
     (case pool of
        None \<Rightarrow> (Inl OtherError, None)
      | Some p \<Rightarrow>
          (case shared_take bid p of
             (None, p) \<Rightarrow> (Inr None, Some p)
           | (Some a, p) \<Rightarrow>
               (Inr (Some \<lparr>pb_ptr = a, pb_offset = 0, pb_len = 0, pb_cap = bp_size p, pb_full_cap = bp_size p, pb_id = bid\<rparr>),
                Some p)))"

definition pool_reset :: "u16 \<Rightarrow> buffer_pool option \<Rightarrow> (bool io_result \<times> buffer_pool option \<times> addr list) option" where
  "pool_reset bid pool =
     (case pool of
        None \<Rightarrow> Some (Inl OtherError, None, [])
      | Some p \<Rightarrow>
          (case shared_take bid p of
             (None, p) \<Rightarrow> Some (Inr False, Some p, [])
           | (Some a, p) \<Rightarrow> map_option (\<lambda>(p, fr). (Inr True, Some p, fr)) (shared_reset bid a p)))"

text \<open>\<^verbatim>\<open>recycle_selected\<close> ignores the result; its debug assertions are the subject of \<open>pool_conserves\<close>.\<close>

definition recycle_selected :: "u16 \<Rightarrow> buffer_pool option \<Rightarrow> (buffer_pool option \<times> addr list) option" where
  "recycle_selected bid pool = map_option snd (pool_reset bid pool)"

text \<open>The views of a lease; \<open>usize\<close> arguments are \<open>nat\<close>.\<close>

definition set_view :: "nat \<Rightarrow> nat \<Rightarrow> pooled_buf \<Rightarrow> pooled_buf io_result" where
  "set_view s e b =
     (if s > e \<or> e > unat (pb_len b) then Inl InvalidData
      else Inr (b\<lparr>pb_offset := of_nat s, pb_len := of_nat (e - s), pb_cap := pb_full_cap b - of_nat s\<rparr>))"

definition pb_set_capacity :: "nat \<Rightarrow> pooled_buf \<Rightarrow> pooled_buf" where
  "pb_set_capacity cap b =
     (if cap = 0 then b
      else let c = min (if cap > u32_max then of_nat u32_max else of_nat cap) (pb_full_cap b - pb_offset b)
           in b\<lparr>pb_cap := c, pb_len := min (pb_len b) c\<rparr>)"

definition pb_set_len :: "nat \<Rightarrow> pooled_buf \<Rightarrow> pooled_buf" where
  "pb_set_len n b = b\<lparr>pb_len := min (of_nat n) (pb_cap b)\<rparr>"

text \<open>\<^verbatim>\<open>Drop for PooledBuf\<close>.\<close>

definition lease_drop :: "pooled_buf \<Rightarrow> buffer_pool option \<Rightarrow> (buffer_pool option \<times> addr list) option" where
  "lease_drop b pool =
     (case pool of
        None \<Rightarrow> Some (None, [pb_ptr b])
      | Some p \<Rightarrow> map_option (\<lambda>(p, fr). (Some p, fr)) (shared_reset (pb_id b) (pb_ptr b) p))"

text \<open>
  \<^verbatim>\<open>BufferPoolRoot::release\<close>; \<open>unreg\<close> and \<open>unmap\<close> are the results of the system calls.  The result, what was freed, and the
  ring the kernel still has.
\<close>

definition pool_release :: "unit io_result \<Rightarrow> unit io_result \<Rightarrow> buffer_pool \<Rightarrow> unit io_result \<times> addr list \<times> buf_ring option" where
  "pool_release unreg unmap p =
     (case unreg of
        Inl e \<Rightarrow> (Inl e, [], Some (bp_ring p))
      | Inr _ \<Rightarrow> (unmap, [a. Some a \<leftarrow> bp_bufs p], None))"

section \<open>The pool, its leases and the kernel\<close>

text \<open>
  \<open>pw_leaked\<close> is a ring that could not be unregistered; \<open>pw_selected\<close> are the ids in completions that the program has not yet handled;
  \<open>pw_all\<close> are all the buffers ever allocated.
\<close>

record bp_world =
  pw_pool :: "buffer_pool option"
  pw_leaked :: "buf_ring option"
  pw_head :: u16
  pw_selected :: "u16 list"
  pw_leases :: "pooled_buf list"
  pw_freed :: "addr list"
  pw_all :: "addr list"

definition kernel_ring :: "bp_world \<Rightarrow> buf_ring option" where
  "kernel_ring w = (case pw_pool w of Some p \<Rightarrow> Some (bp_ring p) | None \<Rightarrow> pw_leaked w)"

datatype lease_op = SetView nat nat | SetCapacity nat | SetLen nat

fun lease_apply :: "lease_op \<Rightarrow> pooled_buf \<Rightarrow> pooled_buf" where
  "lease_apply (SetView s e) b = (case set_view s e b of Inl _ \<Rightarrow> b | Inr b \<Rightarrow> b)"
| "lease_apply (SetCapacity c) b = pb_set_capacity c b"
| "lease_apply (SetLen n) b = pb_set_len n b"

datatype bp_action =
    KSelect
  | UTake u16
  | URecycle u16
  | UView nat lease_op
  | UDrop nat
  | URelease "unit io_result" "unit io_result"

definition remove_nth :: "nat \<Rightarrow> 'a list \<Rightarrow> 'a list" where
  "remove_nth i xs = take i xs @ drop (Suc i) xs"

text \<open>One action; one that is not possible in a state leaves it unchanged.  A completion's id is handled once.\<close>

definition kernel_select :: "bp_world \<Rightarrow> bp_world" where
  "kernel_select w =
     (case kernel_ring w of
        None \<Rightarrow> w
      | Some r \<Rightarrow>
          if pw_head w = br_tail r then w
          else w\<lparr>pw_head := pw_head w + 1,
                 pw_selected := pw_selected w @ [re_bid (br_entries r ! unat (pw_head w mod br_len r))]\<rparr>)"

fun bp_act :: "bp_action \<Rightarrow> bp_world \<Rightarrow> bp_world option" where
  "bp_act KSelect w = Some (kernel_select w)"
| "bp_act (UTake bid) w =
     (if bid \<in> set (pw_selected w) then
        (case pool_take bid (pw_pool w) of (r, p) \<Rightarrow>
           Some (w\<lparr>pw_pool := p, pw_selected := remove1 bid (pw_selected w),
                   pw_leases := pw_leases w @ (case r of Inr (Some b) \<Rightarrow> [b] | _ \<Rightarrow> [])\<rparr>))
      else Some w)"
| "bp_act (URecycle bid) w =
     (if bid \<in> set (pw_selected w) then
        (case recycle_selected bid (pw_pool w) of
           None \<Rightarrow> None
         | Some (p, fr) \<Rightarrow>
             Some (w\<lparr>pw_pool := p, pw_selected := remove1 bid (pw_selected w), pw_freed := pw_freed w @ fr\<rparr>))
      else Some w)"
| "bp_act (UView i op) w =
     Some (if i < length (pw_leases w) then w\<lparr>pw_leases := (pw_leases w)[i := lease_apply op (pw_leases w ! i)]\<rparr> else w)"
| "bp_act (UDrop i) w =
     (if i < length (pw_leases w) then
        (case lease_drop (pw_leases w ! i) (pw_pool w) of
           None \<Rightarrow> None
         | Some (p, fr) \<Rightarrow> Some (w\<lparr>pw_pool := p, pw_leases := remove_nth i (pw_leases w), pw_freed := pw_freed w @ fr\<rparr>))
      else Some w)"
| "bp_act (URelease unreg unmap) w =
     (case pw_pool w of
        None \<Rightarrow> Some w
      | Some p \<Rightarrow>
          (case pool_release unreg unmap p of (_, fr, lk) \<Rightarrow>
             Some (w\<lparr>pw_pool := None, pw_leaked := lk, pw_freed := pw_freed w @ fr\<rparr>)))"

inductive bp_reach :: "bp_world \<Rightarrow> bool" where
  bp_start: "pool_root_new num_bufs buffer_len alloc mmap reg = Some (Inr p, fr) \<Longrightarrow>
     (\<And>i j a. alloc i = Some a \<Longrightarrow> alloc j = Some a \<Longrightarrow> i = j) \<Longrightarrow>
     bp_reach \<lparr>pw_pool = Some p, pw_leaked = None, pw_head = 0, pw_selected = [], pw_leases = [], pw_freed = fr,
                 pw_all = [a. Some a \<leftarrow> bp_bufs p]\<rparr>"
| bp_step: "bp_reach w \<Longrightarrow> bp_act a w = Some w' \<Longrightarrow> bp_reach w'"

section \<open>The ring as a queue\<close>

text \<open>
  What the pool relies on: seen from the kernel's head, publishing appends and selecting takes the first, as long as
  no more entries are published than the ring holds.
\<close>

locale bounded_queue =
  fixes ok :: "'r \<Rightarrow> 'h \<Rightarrow> bool"
    and content :: "'r \<Rightarrow> 'h \<Rightarrow> 'e list"
    and room :: "'r \<Rightarrow> nat"
    and publish :: "'e \<Rightarrow> 'r \<Rightarrow> 'r option"
    and select :: "'r \<Rightarrow> 'h \<Rightarrow> 'e \<times> 'h"
  assumes publish_law: "ok r h \<Longrightarrow> length (content r h) < room r \<Longrightarrow>
      \<exists>r'. publish e r = Some r' \<and> ok r' h \<and> content r' h = content r h @ [e] \<and> room r' = room r"
    and select_law: "ok r h \<Longrightarrow> content r h \<noteq> [] \<Longrightarrow>
      \<exists>h'. select r h = (hd (content r h), h') \<and> ok r h' \<and> content r h' = tl (content r h)"
begin

text \<open>Entries published together are selected in their order.\<close>

fun publish_all :: "'e list \<Rightarrow> 'r \<Rightarrow> 'r option" where
  "publish_all [] r = Some r"
| "publish_all (e # es) r = Option.bind (publish e r) (publish_all es)"

fun select_n :: "nat \<Rightarrow> 'r \<Rightarrow> 'h \<Rightarrow> 'e list \<times> 'h" where
  "select_n 0 r h = ([], h)"
| "select_n (Suc n) r h = (case select r h of (e, h) \<Rightarrow> case select_n n r h of (es, h) \<Rightarrow> (e # es, h))"

lemma publish_all_content:
  "ok r h \<Longrightarrow> length (content r h) + length es \<le> room r \<Longrightarrow>
     \<exists>r'. publish_all es r = Some r' \<and> ok r' h \<and> content r' h = content r h @ es"
proof (induction es arbitrary: r)
  case (Cons e es)
  obtain r1 where r1: "publish e r = Some r1" "ok r1 h" "content r1 h = content r h @ [e]" "room r1 = room r"
    using publish_law [OF Cons.prems(1), of e] Cons.prems(2) by auto
  show ?case using Cons.IH [OF r1(2)] Cons.prems(2) r1 by auto
qed simp

lemma select_n_content:
  "ok r h \<Longrightarrow> n \<le> length (content r h) \<Longrightarrow> \<exists>h'. select_n n r h = (take n (content r h), h') \<and> ok r h'"
proof (induction n arbitrary: h)
  case (Suc n)
  obtain h1 where h1: "select r h = (hd (content r h), h1)" "ok r h1" "content r h1 = tl (content r h)"
    using select_law [OF Suc.prems(1)] Suc.prems(2) by fastforce
  obtain e es where c: "content r h = e # es" using Suc.prems(2) by (cases "content r h") auto
  show ?case using Suc.IH [OF h1(2)] h1 c Suc.prems(2) by auto
qed simp

theorem fifo:
  assumes "ok r h" "content r h = []" "length es \<le> room r"
  shows "\<exists>r' h'. publish_all es r = Some r' \<and> select_n (length es) r' h = (es, h')"
  using publish_all_content [OF assms(1), of es] select_n_content [of _ h "length es"] assms(2,3) by fastforce

end

text \<open>The entries between the kernel's head and the tail.\<close>

definition window :: "buf_ring \<Rightarrow> u16 \<Rightarrow> ring_entry list" where
  "window r h = map (\<lambda>i. br_entries r ! unat ((h + of_nat i) mod br_len r)) [0..<unat (br_tail r - h)]"

definition ring_ok :: "buf_ring \<Rightarrow> u16 \<Rightarrow> bool" where
  "ring_ok r h \<longleftrightarrow> unat (br_len r) dvd 2 ^ 16 \<and> unat (br_len r) < 2 ^ 16 \<and> length (br_entries r) = unat (br_len r) \<and>
     unat (br_tail r - h) \<le> unat (br_len r)"

definition ring_publish :: "ring_entry \<Rightarrow> buf_ring \<Rightarrow> buf_ring option" where
  "ring_publish e r = reset_buffer (re_bid e) (re_addr e) (re_len e) r"

definition ring_select :: "buf_ring \<Rightarrow> u16 \<Rightarrow> ring_entry \<times> u16" where
  "ring_select r h = (br_entries r ! unat (h mod br_len r), h + 1)"

lemma ring_index:
  fixes h len :: u16
  assumes "unat len dvd 2 ^ 16"
  shows "unat ((h + of_nat i) mod len) = (unat h + i) mod unat len"
proof -
  have "unat (h + of_nat i) = (unat h + i) mod 2 ^ 16"
    by (simp add: unat_word_ariths unat_of_nat mod_add_right_eq)
  then show ?thesis using assms by (simp add: unat_mod_distrib mod_mod_cancel)
qed

lemma index_inj:
  fixes n :: nat
  assumes "i < n" "j < n" "(h + i) mod n = (h + j) mod n"
  shows "i = j"
proof -
  have le: "i = j" if "i \<le> j" "j < n" "(h + j) mod n = (h + i) mod n" for i j
    using that mod_eq_dvd_iff_nat [of "h + i" "h + j" n] dvd_imp_le [of n "j - i"] by force
  show ?thesis using le [of i j] le [of j i] assms by (cases "i \<le> j") auto
qed

lemma unat_tail_Suc:
  fixes t h :: u16
  assumes "unat (t - h) < n" "n < 2 ^ 16"
  shows "unat (t + 1 - h) = unat (t - h) + 1"
proof -
  have "t + 1 - h = (t - h) + 1" by simp
  then have "unat (t + 1 - h) = (unat (t - h) + 1) mod 2 ^ 16" by (simp only: unat_word_ariths) simp
  then show ?thesis using assms by simp
qed

lemma window_publish:
  assumes ok: "ring_ok r h" and room: "length (window r h) < unat (br_len r)"
  shows "\<exists>r'. ring_publish e r = Some r' \<and> ring_ok r' h \<and> window r' h = window r h @ [e] \<and> br_len r' = br_len r"
proof -
  let ?n = "unat (br_len r)" and ?w = "unat (br_tail r - h)"
  have d: "?n dvd 2 ^ 16" "?n < 2 ^ 16" and len: "length (br_entries r) = ?n" using ok by (simp_all add: ring_ok_def)
  have w: "?w < ?n" using room by (simp add: window_def)
  note ix = ring_index [OF d(1)]
  have tail: "br_tail r = h + of_nat ?w" by simp
  have idx: "unat (br_tail r mod br_len r) = (unat h + ?w) mod ?n" by (subst tail) (rule ix)
  let ?r = "r\<lparr>br_entries := (br_entries r)[unat (br_tail r mod br_len r) := e], br_tail := br_tail r + 1\<rparr>"
  have p: "ring_publish e r = Some ?r"
    using w len idx by (cases e) (simp add: ring_publish_def reset_buffer_def add_buffer_def ring_commit_def Let_def)
  have w': "unat (br_tail ?r - h) = ?w + 1" using unat_tail_Suc [OF w d(2)] by simp
  have old: "br_entries ?r ! unat ((h + of_nat i) mod br_len r) = br_entries r ! unat ((h + of_nat i) mod br_len r)" if "i < ?w" for i
  proof -
    have "(unat h + ?w) mod ?n \<noteq> (unat h + i) mod ?n" using index_inj [of ?w ?n i "unat h"] that w by auto
    then show ?thesis using idx ix [of h i] by simp
  qed
  have new: "br_entries ?r ! unat ((h + of_nat ?w) mod br_len r) = e" using w len idx ix [of h ?w] by simp
  have "window ?r h = window r h @ [e]"
    unfolding window_def w' using old new by (simp add: map_append del: of_nat_unat)
  then show ?thesis using p ok w' w by (intro exI [of _ ?r]) (auto simp: ring_ok_def)
qed

lemma window_select:
  assumes ok: "ring_ok r h" and ne: "window r h \<noteq> []"
  shows "ring_select r h = (hd (window r h), h + 1) \<and> ring_ok r (h + 1) \<and> window r (h + 1) = tl (window r h)"
proof -
  let ?w = "unat (br_tail r - h)"
  have w: "?w \<noteq> 0" using ne by (auto simp: window_def)
  have e: "br_tail r - (h + 1) = br_tail r - h - 1" by simp
  have w': "unat (br_tail r - (h + 1)) = ?w - 1" unfolding e using w by (simp add: unat_minus_one unat_eq_zero)
  have "[0..<?w] = 0 # map Suc [0..<?w - 1]" using w upt_conv_Cons [of 0 ?w] map_Suc_upt [of 0 "?w - 1"] by simp
  then have "window r h = (br_entries r ! unat (h mod br_len r)) # window r (h + 1)"
    unfolding window_def w' by (simp add: add.assoc comp_def)
  then show ?thesis using ok w' w by (auto simp: ring_select_def ring_ok_def)
qed

interpretation ring: bounded_queue ring_ok window "\<lambda>r. unat (br_len r)" ring_publish ring_select
proof
  show "\<exists>r'. ring_publish e r = Some r' \<and> ring_ok r' h \<and> window r' h = window r h @ [e] \<and> unat (br_len r') = unat (br_len r)"
    if "ring_ok r h" "length (window r h) < unat (br_len r)" for e r h using window_publish [OF that, of e] by auto
  show "\<exists>h'. ring_select r h = (hd (window r h), h') \<and> ring_ok r h' \<and> window r h' = tl (window r h)"
    if "ring_ok r h" "window r h \<noteq> []" for r h using window_select [OF that] by blast
qed

section \<open>The invariant\<close>

definition view_ok :: "pooled_buf \<Rightarrow> bool" where
  "view_ok l \<longleftrightarrow> unat (pb_offset l) + unat (pb_cap l) \<le> unat (pb_full_cap l) \<and> pb_len l \<le> pb_cap l"

text \<open>Where the ids are: in the kernel's window, in a completion, or leased.\<close>

definition placed :: "buffer_pool \<Rightarrow> u16 \<Rightarrow> u16 list \<Rightarrow> u16 list \<Rightarrow> nat list" where
  "placed p h sel leased = map unat (map re_bid (window (bp_ring p) h) @ sel @ leased)"

definition alive_inv :: "buffer_pool \<Rightarrow> u16 \<Rightarrow> u16 list \<Rightarrow> u16 list \<Rightarrow> addr list \<Rightarrow> bool" where
  "alive_inv p h sel leased bufs \<longleftrightarrow>
     ring_ok (bp_ring p) h \<and> length bufs = unat (br_len (bp_ring p)) \<and> length (bp_bufs p) = length bufs \<and>
     mset (placed p h sel leased) = mset [0..<length bufs] \<and>
     (\<forall>e \<in> set (window (bp_ring p) h). re_addr e = bufs ! unat (re_bid e) \<and> re_len e = bp_size p) \<and>
     (\<forall>b < length bufs. bp_bufs p ! b = (if b \<in> unat ` set leased then None else Some (bufs ! b)))"

definition leaked_inv :: "buf_ring \<Rightarrow> u16 \<Rightarrow> addr list \<Rightarrow> addr list \<Rightarrow> bool" where
  "leaked_inv r h used bufs \<longleftrightarrow> ring_ok r h \<and> distinct (map re_addr (window r h)) \<and>
     (\<exists>rest. mset (rest @ used) = mset bufs \<and> re_addr ` set (window r h) \<subseteq> set rest)"

definition bp_inv :: "bp_world \<Rightarrow> bool" where
  "bp_inv w \<longleftrightarrow> distinct (pw_all w) \<and>
     (\<forall>l \<in> set (pw_leases w). view_ok l \<and> unat (pb_id l) < length (pw_all w) \<and> pb_ptr l = pw_all w ! unat (pb_id l)) \<and>
     (case pw_pool w of
        Some p \<Rightarrow> pw_freed w = [] \<and> (\<forall>l \<in> set (pw_leases w). pb_full_cap l = bp_size p) \<and>
          alive_inv p (pw_head w) (pw_selected w) (map pb_id (pw_leases w)) (pw_all w)
      | None \<Rightarrow>
          (case pw_leaked w of
             None \<Rightarrow> mset (pw_freed w @ map pb_ptr (pw_leases w)) = mset (pw_all w)
           | Some r \<Rightarrow> leaked_inv r (pw_head w) (pw_freed w @ map pb_ptr (pw_leases w)) (pw_all w)))"

lemma mset_remove_nth: "i < length xs \<Longrightarrow> mset xs = add_mset (xs ! i) (mset (remove_nth i xs))"
proof -
  assume i: "i < length xs"
  have "mset xs = mset (take i xs @ xs ! i # drop (Suc i) xs)" using id_take_nth_drop [OF i] by (rule arg_cong)
  then show ?thesis by (simp add: remove_nth_def)
qed

lemma set_remove_nth: "set (remove_nth i xs) \<subseteq> set xs"
  by (auto simp: remove_nth_def dest: in_set_takeD in_set_dropD)

subsection \<open>Views\<close>

lemma lease_apply_ok: "view_ok l \<Longrightarrow> view_ok (lease_apply op l)"
proof (cases op)
  case (SetView s e)
  assume ok: "view_ok l"
  show ?thesis
  proof (cases "s > e \<or> e > unat (pb_len l)")
    case False
    have le: "unat (pb_len l) \<le> unat (pb_full_cap l)" using ok by (auto simp: view_ok_def word_le_nat_alt)
    have lt: "unat (pb_len l) < 2 ^ 32" using unsigned_less [of "pb_len l"] by simp
    from le have b: "s < 2 ^ 32" "e - s < 2 ^ 32" "s \<le> unat (pb_full_cap l)"
      using False lt by auto
    have s: "unat (of_nat s :: u32) = s" "unat (of_nat (e - s) :: u32) = e - s" using b by (simp_all add: unat_of_nat)
    have "of_nat s \<le> pb_full_cap l" using b s by (simp add: word_le_nat_alt)
    then have "unat (pb_full_cap l - of_nat s) = unat (pb_full_cap l) - s" using s(1) by (simp add: unat_sub)
    moreover have "e - s \<le> unat (pb_full_cap l) - s" using False le by (intro diff_le_mono) linarith
    ultimately show ?thesis using False SetView le s b by (simp add: set_view_def view_ok_def word_le_nat_alt)
  qed (use ok SetView in \<open>simp add: set_view_def\<close>)
next
  case (SetCapacity c)
  assume ok: "view_ok l"
  have le: "pb_offset l \<le> pb_full_cap l" using ok by (auto simp: view_ok_def word_le_nat_alt)
  have m: "unat (min x (pb_full_cap l - pb_offset l)) + unat (pb_offset l) \<le> unat (pb_full_cap l)" for x
    using le unat_sub [OF le] by (auto simp: min_def word_le_nat_alt)
  show ?thesis using ok SetCapacity m by (simp add: pb_set_capacity_def Let_def view_ok_def add.commute min.cobounded2 del: min.bounded_iff)
next
  case (SetLen n)
  assume "view_ok l"
  then show ?thesis using SetLen by (simp add: pb_set_len_def view_ok_def)
qed

lemma lease_apply_id [simp]:
  "pb_id (lease_apply op l) = pb_id l" "pb_ptr (lease_apply op l) = pb_ptr l" "pb_full_cap (lease_apply op l) = pb_full_cap l"
  by (cases op; simp add: set_view_def pb_set_capacity_def pb_set_len_def Let_def)+

subsection \<open>Giving a buffer back\<close>

lemma placed_distinct:
  assumes "alive_inv p h sel leased bufs"
  shows "distinct (placed p h sel leased)" "set (placed p h sel leased) = {0..<length bufs}" "length (placed p h sel leased) = length bufs"
proof -
  have m: "mset (placed p h sel leased) = mset [0..<length bufs]" using assms by (simp add: alive_inv_def)
  show "distinct (placed p h sel leased)" using mset_eq_imp_distinct_iff [OF m] by simp
  show "set (placed p h sel leased) = {0..<length bufs}" using mset_eq_setD [OF m] by simp
  show "length (placed p h sel leased) = length bufs" using mset_eq_length [OF m] by simp
qed

text \<open>A buffer that is taken out of a completion or a lease and published again.\<close>

lemma give_back:
  assumes inv: "alive_inv p h sel leased bufs"
    and less: "mset (sel @ leased) = add_mset bid (mset (sel' @ leased'))"
    and same: "set leased - {bid} = set leased'"
  shows "\<exists>r. reset_buffer bid (bufs ! unat bid) (bp_size p) (bp_ring p) = Some r \<and> unat bid < length bufs \<and>
    alive_inv (p\<lparr>bp_bufs := (bp_bufs p)[unat bid := Some (bufs ! unat bid)], bp_ring := r\<rparr>) h sel' leased' bufs"
proof -
  let ?r = "bp_ring p" and ?e = "\<lparr>re_addr = bufs ! unat bid, re_len = bp_size p, re_bid = bid\<rparr>"
  note pl = placed_distinct [OF inv]
  have "mset (placed p h sel leased) = image_mset unat (mset (map re_bid (window ?r h)) + mset (sel @ leased))"
    by (simp add: placed_def multiset.map_comp)
  then have m: "mset (placed p h sel leased) = add_mset (unat bid) (mset (map unat (map re_bid (window ?r h) @ sel' @ leased')))"
    unfolding less by (simp add: multiset.map_comp)
  have "unat bid \<in># mset (placed p h sel leased)" unfolding m by simp
  then have b: "unat bid < length bufs" using pl(2) by simp
  have "size (mset (placed p h sel leased)) = length bufs" using pl(3) by simp
  then have "length (window ?r h) < unat (br_len ?r)" unfolding m using inv by (auto simp: alive_inv_def)
  then obtain r where r: "ring_publish ?e ?r = Some r" "ring_ok r h" "window r h = window ?r h @ [?e]" "unat (br_len r) = unat (br_len ?r)"
    using ring.publish_law [of ?r h ?e] inv by (auto simp: alive_inv_def)
  have pl': "mset (map unat (map re_bid (window r h) @ sel' @ leased')) = mset (placed p h sel leased)"
    unfolding m r(3) by simp
  have "(b \<in> unat ` set leased') = (b \<in> unat ` set leased)" if "b \<noteq> unat bid" for b
    unfolding same [symmetric] using that by auto
  moreover have "unat bid \<notin> unat ` set leased'" unfolding same [symmetric] by (auto dest: unsigned_word_eqI)
  ultimately show ?thesis using inv r b pl'
    by (intro exI [of _ r]) (auto simp: alive_inv_def placed_def ring_publish_def nth_list_update)
qed

subsection \<open>The start\<close>

lemma next_pow2_bound: "i \<le> 15 \<Longrightarrow> n \<le> 2 ^ 15 \<Longrightarrow> p = 2 ^ i \<Longrightarrow> \<exists>k \<le> 15. next_pow2 p n = 2 ^ k \<and> n \<le> 2 ^ k"
proof (induction p n arbitrary: i rule: next_pow2.induct)
  case (1 p n)
  show ?case
  proof (cases "n \<le> p")
    case True
    then show ?thesis using 1(2-4) by (subst next_pow2.simps) auto
  next
    case False
    then have "(2 :: nat) ^ i < 2 ^ 15" using 1 by simp
    then have "i < 15" by (simp only: power_strict_increasing_iff)
    then have "\<exists>k \<le> 15. next_pow2 (2 * p) n = 2 ^ k \<and> n \<le> 2 ^ k" using 1(1) [of "Suc i"] 1 False by simp
    then show ?thesis using False by (subst next_pow2.simps) (simp add: 1(4))
  qed
qed

lemma next_power_of_two_bound:
  assumes "n \<le> MAX_BUFFER_RING_ENTRIES"
  shows "\<exists>k \<le> 15. next_power_of_two n = 2 ^ k \<and> n \<le> 2 ^ k"
  unfolding next_power_of_two_def using next_pow2_bound [of 0 n 1] assms by (simp add: MAX_BUFFER_RING_ENTRIES_def)

lemma alloc_all_ok:
  "alloc_all alloc n bufs = (Inr bs, fr) \<Longrightarrow> (\<And>i. i < length bufs \<Longrightarrow> alloc i = Some (bufs ! i)) \<Longrightarrow>
     length bs = length bufs + n \<and> (\<forall>i < length bs. alloc i = Some (bs ! i)) \<and> fr = []"
proof (induction n arbitrary: bufs)
  case (Suc n)
  obtain a where a: "alloc (length bufs) = Some a" "alloc_all alloc n (bufs @ [a]) = (Inr bs, fr)"
    using Suc.prems(1) by (auto split: option.splits)
  have "alloc i = Some ((bufs @ [a]) ! i)" if "i < length (bufs @ [a])" for i
    using that a(1) Suc.prems(2) by (cases "i = length bufs") (auto simp: nth_append)
  from Suc.IH [OF a(2) this] show ?case by simp
qed simp

definition ring_of :: "addr list \<Rightarrow> u32 \<Rightarrow> ring_entry list" where
  "ring_of bufs len = map (\<lambda>i. \<lparr>re_addr = bufs ! i, re_len = len, re_bid = of_nat i\<rparr>) [0..<length bufs]"

lemma add_all_entries:
  assumes "br_tail r = 0" "unat (br_len r) = n" "n < 2 ^ 16" "length (br_entries r) = n" "length bufs = n" "i \<le> n"
    "\<And>j. j < i \<Longrightarrow> br_entries r ! j = ring_of bufs len ! j"
  shows "add_all i (map Some (drop i bufs)) len r = Some (r\<lparr>br_entries := ring_of bufs len\<rparr>)"
  using assms
proof (induction "n - i" arbitrary: i r)
  case 0
  then have "br_entries r = ring_of bufs len" by (intro nth_equalityI) (auto simp: ring_of_def)
  then show ?case using 0 by simp
next
  case (Suc m)
  let ?e = "\<lparr>re_addr = bufs ! i, re_len = len, re_bid = of_nat i\<rparr>"
  have i: "i < n" using Suc by simp
  have d: "drop i bufs = bufs ! i # drop (Suc i) bufs" using Suc.prems(5) i by (simp add: Cons_nth_drop_Suc)
  have idx: "unat ((of_nat i :: u16) mod br_len r) = i" using Suc.prems(2,3) i by (simp add: unat_mod_distrib unat_of_nat)
  let ?r = "r\<lparr>br_entries := (br_entries r)[i := ?e]\<rparr>"
  have "br_entries ?r ! j = ring_of bufs len ! j" if "j < Suc i" for j
    using that Suc.prems(4,5,7) i by (cases "j = i") (auto simp: ring_of_def)
  then have "add_all (Suc i) (map Some (drop (Suc i) bufs)) len ?r = Some (?r\<lparr>br_entries := ring_of bufs len\<rparr>)"
    using Suc by (intro Suc.hyps(1)) auto
  then show ?case using idx Suc.prems i unfolding d by (simp add: add_buffer_def)
qed

lemma window_full:
  assumes "unat (br_len r) = n" "n dvd 2 ^ 16" "n < 2 ^ 16" "length (br_entries r) = n" "br_tail r = of_nat n"
  shows "window r 0 = br_entries r"
proof (rule nth_equalityI)
  have t: "unat (br_tail r - 0) = n" using assms(3,5) by (simp add: unat_of_nat)
  show "length (window r 0) = length (br_entries r)" using t assms(4) by (simp add: window_def)
  fix i assume "i < length (window r 0)"
  then have "i < n" using t by (simp add: window_def)
  then show "window r 0 ! i = br_entries r ! i" using t ring_index [of "br_len r" 0 i] assms(1,2) by (simp add: window_def)
qed

lemma bp_new_inv:
  assumes new: "pool_root_new num_bufs buffer_len alloc mmap reg = Some (Inr p, fr)"
    and alloc: "\<And>i j a. alloc i = Some a \<Longrightarrow> alloc j = Some a \<Longrightarrow> i = j"
  shows "\<exists>bufs. bp_bufs p = map Some bufs \<and> distinct bufs \<and> fr = [] \<and> max num_bufs 1 \<le> length bufs \<and> alive_inv p 0 [] [] bufs"
proof -
  let ?n = "next_power_of_two (max num_bufs 1)"
  have mx: "max num_bufs 1 \<le> MAX_BUFFER_RING_ENTRIES" using new by (auto simp: pool_root_new_def Let_def split: if_splits)
  obtain bufs fr' r where a: "alloc_all alloc ?n [] = (Inr bufs, fr')"
    and r: "ring_register (map Some bufs) (of_nat buffer_len) mmap reg = Some (Inr r)"
    and p: "p = \<lparr>bp_ring = r, bp_bufs = map Some bufs, bp_size = of_nat buffer_len\<rparr>" "fr = []"
    using new by (auto simp: pool_root_new_def Let_def split: if_splits prod.splits sum.splits option.splits)
  obtain k where k: "k \<le> 15" "?n = 2 ^ k" "max num_bufs 1 \<le> 2 ^ k" using next_power_of_two_bound [OF mx] by blast
  have len: "length bufs = ?n" and al: "\<forall>i < length bufs. alloc i = Some (bufs ! i)" using alloc_all_ok [OF a] by auto
  have n: "length bufs dvd 2 ^ 16" "length bufs < 2 ^ 16"
    using k le_imp_power_dvd [of k 16 "2 :: nat"] power_strict_increasing [of k 16 "2 :: nat"] by (simp_all add: len)
  have dist: "distinct bufs" unfolding distinct_conv_nth using al alloc by metis
  have l: "unat (of_nat (length bufs) :: u16) = length bufs" using n(2) by (simp add: unat_of_nat)
  let ?r0 = "\<lparr>br_entries = replicate (length bufs) empty_entry, br_tail = 0, br_len = of_nat (length bufs)\<rparr>"
  have "add_all 0 (map Some bufs) (of_nat buffer_len) ?r0 = Some (?r0\<lparr>br_entries := ring_of bufs (of_nat buffer_len)\<rparr>)"
    using add_all_entries [of ?r0 "length bufs" bufs 0 "of_nat buffer_len"] l n(2) by simp
  then have r': "r = \<lparr>br_entries = ring_of bufs (of_nat buffer_len), br_tail = of_nat (length bufs), br_len = of_nat (length bufs)\<rparr>"
    using r by (auto simp: ring_register_def ring_commit_def split: if_splits sum.splits)
  have win: "window r 0 = ring_of bufs (of_nat buffer_len)"
    using window_full [of r "length bufs"] r' l n by (simp add: ring_of_def)
  have "unat (of_nat i :: u16) = i" if "i < length bufs" for i using that n(2) by (simp add: unat_of_nat)
  then have pl: "map (unat \<circ> re_bid) (ring_of bufs (of_nat buffer_len)) = [0..<length bufs]"
    by (auto simp: ring_of_def comp_def intro: map_idI)
  have "alive_inv p 0 [] [] bufs"
    using r' l n win pl unfolding alive_inv_def p
    by (auto simp: ring_ok_def placed_def comp_def) (auto simp: ring_of_def unat_of_nat)
  then show ?thesis using p dist k(3) len k(2) by auto
qed

subsection \<open>The actions\<close>

lemma bp_invD:
  assumes "bp_inv w"
  shows "distinct (pw_all w)"
    "\<And>l. l \<in> set (pw_leases w) \<Longrightarrow> view_ok l \<and> unat (pb_id l) < length (pw_all w) \<and> pb_ptr l = pw_all w ! unat (pb_id l)"
    "\<And>p. pw_pool w = Some p \<Longrightarrow> pw_freed w = []" "\<And>p l. pw_pool w = Some p \<Longrightarrow> l \<in> set (pw_leases w) \<Longrightarrow> pb_full_cap l = bp_size p"
    "\<And>p. pw_pool w = Some p \<Longrightarrow> alive_inv p (pw_head w) (pw_selected w) (map pb_id (pw_leases w)) (pw_all w)"
  using assms by (auto simp: bp_inv_def split: option.splits)

lemma leaked_less:
  assumes "leaked_inv r h used bufs" "ring_ok r h'" "window r h' = tl (window r h)"
  shows "leaked_inv r h' used bufs"
proof -
  have "set (window r h') \<subseteq> set (window r h)" "distinct (map re_addr (window r h'))"
    using assms by (cases "window r h"; auto simp: leaked_inv_def)+
  then show ?thesis using assms unfolding leaked_inv_def by blast
qed

lemma select_inv:
  assumes inv: "bp_inv w"
  shows "bp_inv (kernel_select w)"
proof (cases "kernel_ring w")
  case None
  then show ?thesis using inv by (simp add: kernel_select_def)
next
  case (Some r)
  let ?h = "pw_head w"
  have ok: "ring_ok r ?h" using inv Some by (auto simp: bp_inv_def kernel_ring_def alive_inv_def leaked_inv_def split: option.splits)
  show ?thesis
  proof (cases "?h = br_tail r")
    case True
    then show ?thesis using inv Some by (simp add: kernel_select_def)
  next
    case False
    then have "window r ?h \<noteq> []" by (auto simp: window_def unat_eq_zero)
    note sel = window_select [OF ok this]
    obtain e es where win: "window r ?h = e # es" using \<open>window r ?h \<noteq> []\<close> by (cases "window r ?h") auto
    have w': "kernel_select w = w\<lparr>pw_head := ?h + 1, pw_selected := pw_selected w @ [re_bid e]\<rparr>"
      using Some False sel win by (simp add: kernel_select_def ring_select_def)
    show ?thesis
    proof (cases "pw_pool w")
      case None
      then have "leaked_inv r (?h + 1) (pw_freed w @ map pb_ptr (pw_leases w)) (pw_all w)" "pw_leaked w = Some r"
        using inv Some sel leaked_less by (auto simp: bp_inv_def kernel_ring_def)
      then show ?thesis using inv None w' by (simp add: bp_inv_def)
    next
      case p: (Some p)
      then have r: "bp_ring p = r" using Some by (simp add: kernel_ring_def)
      have "alive_inv p (?h + 1) (pw_selected w @ [re_bid e]) (map pb_id (pw_leases w)) (pw_all w)"
        using bp_invD(5) [OF inv p] sel win by (auto simp: alive_inv_def placed_def r)
      then show ?thesis using inv p w' by (simp add: bp_inv_def)
    qed
  qed
qed

lemma alive_slot:
  assumes "alive_inv p h sel leased bufs" "bid \<in> set sel"
  shows "bid \<notin> set leased" "unat bid < length bufs" "shared_take bid p = (Some (bufs ! unat bid), p\<lparr>bp_bufs := (bp_bufs p)[unat bid := None]\<rparr>)"
proof -
  have d: "unat ` set sel \<inter> unat ` set leased = {}" using placed_distinct(1) [OF assms(1)] by (simp add: placed_def)
  have n: "unat bid \<notin> unat ` set leased" using d assms(2) by blast
  then show "bid \<notin> set leased" by blast
  have "unat bid \<in> set (placed p h sel leased)" using assms(2) by (simp add: placed_def)
  then show b: "unat bid < length bufs" using placed_distinct(2) [OF assms(1)] by simp
  show "shared_take bid p = (Some (bufs ! unat bid), p\<lparr>bp_bufs := (bp_bufs p)[unat bid := None]\<rparr>)"
    using assms(1) n b by (simp add: shared_take_def list_get_def alive_inv_def)
qed

lemma alive_take:
  assumes "alive_inv p h sel leased bufs" "bid \<in> set sel"
  shows "alive_inv (p\<lparr>bp_bufs := (bp_bufs p)[unat bid := None]\<rparr>) h (remove1 bid sel) (leased @ [bid]) bufs"
proof -
  have s: "mset sel = add_mset bid (mset (remove1 bid sel))" using assms(2) by simp
  have "mset (placed (p\<lparr>bp_bufs := (bp_bufs p)[unat bid := None]\<rparr>) h (remove1 bid sel) (leased @ [bid])) = mset (placed p h sel leased)"
    by (simp add: placed_def s del: mset_remove1)
  then show ?thesis using assms(1) alive_slot(2) [OF assms] by (auto simp: alive_inv_def nth_list_update)
qed

lemma take_inv:
  assumes inv: "bp_inv w"
  shows "\<exists>w'. bp_act (UTake bid) w = Some w' \<and> bp_inv w'"
proof (cases "bid \<in> set (pw_selected w)")
  case sel: True
  show ?thesis
  proof (cases "pw_pool w")
    case (Some p)
    let ?l = "\<lparr>pb_ptr = pw_all w ! unat bid, pb_offset = 0, pb_len = 0, pb_cap = bp_size p, pb_full_cap = bp_size p, pb_id = bid\<rparr>"
    note i = bp_invD [OF inv] note a = i(5) [OF Some] note s = alive_slot [OF a sel]
    have t: "pool_take bid (Some p) = (Inr (Some ?l), Some (p\<lparr>bp_bufs := (bp_bufs p)[unat bid := None]\<rparr>))"
      using s(3) by (simp add: pool_take_def)
    show ?thesis using alive_take [OF a sel] i(1-4) Some sel t s(2) by (auto simp: bp_inv_def view_ok_def)
  qed (use inv sel in \<open>auto simp: bp_inv_def pool_take_def split: option.splits\<close>)
qed (use inv in simp)

lemma recycle_alive:
  assumes inv: "alive_inv p h sel leased bufs" and sel: "bid \<in> set sel"
  shows "\<exists>p'. pool_reset bid (Some p) = Some (Inr True, Some p', []) \<and> bp_size p' = bp_size p \<and>
     alive_inv p' h (remove1 bid sel) leased bufs"
proof -
  note s = alive_slot [OF inv sel]
  have m: "mset (sel @ leased) = add_mset bid (mset (remove1 bid sel @ leased))" using sel by simp
  obtain r where r: "reset_buffer bid (bufs ! unat bid) (bp_size p) (bp_ring p) = Some r"
    "alive_inv (p\<lparr>bp_bufs := (bp_bufs p)[unat bid := Some (bufs ! unat bid)], bp_ring := r\<rparr>) h (remove1 bid sel) leased bufs"
    using give_back [OF inv m] s(1) by auto
  have "unat bid < length (bp_bufs p)" using inv s(2) by (simp add: alive_inv_def)
  then show ?thesis using s(3) r by (simp add: pool_reset_def shared_reset_def)
qed

lemma recycle_inv:
  assumes inv: "bp_inv w"
  shows "\<exists>w'. bp_act (URecycle bid) w = Some w' \<and> bp_inv w'"
proof (cases "bid \<in> set (pw_selected w)")
  case sel: True
  show ?thesis
  proof (cases "pw_pool w")
    case (Some p)
    note i = bp_invD [OF inv]
    show ?thesis using recycle_alive [OF i(5) [OF Some] sel] i(1-4) Some sel by (auto simp: bp_inv_def recycle_selected_def)
  qed (use inv sel in \<open>auto simp: bp_inv_def recycle_selected_def pool_reset_def split: option.splits\<close>)
qed (use inv in simp)

lemma view_inv:
  assumes inv: "bp_inv w"
  shows "\<exists>w'. bp_act (UView i op) w = Some w' \<and> bp_inv w'"
proof (cases "i < length (pw_leases w)")
  case True
  let ?ls = "(pw_leases w)[i := lease_apply op (pw_leases w ! i)]"
  have m: "map pb_id ?ls = map pb_id (pw_leases w)" "map pb_ptr ?ls = map pb_ptr (pw_leases w)"
    using True by (auto simp: map_update list_update_same_conv)
  have "view_ok l \<and> (\<exists>l0 \<in> set (pw_leases w). pb_id l = pb_id l0 \<and> pb_ptr l = pb_ptr l0 \<and> pb_full_cap l = pb_full_cap l0)" if "l \<in> set ?ls" for l
  proof (cases "l \<in> set (pw_leases w)")
    case False
    then have "l = lease_apply op (pw_leases w ! i)" using that set_update_subset_insert [of "pw_leases w" i] by auto
    then show ?thesis using bp_invD(2) [OF inv nth_mem [OF True]] lease_apply_ok nth_mem [OF True] by auto
  qed (use bp_invD(2) [OF inv] in blast)
  then show ?thesis using inv True m by (fastforce simp: bp_inv_def split: option.splits)
qed (use inv in simp)

lemma drop_inv:
  assumes inv: "bp_inv w"
  shows "\<exists>w'. bp_act (UDrop i) w = Some w' \<and> bp_inv w'"
proof (cases "i < length (pw_leases w)")
  case True
  let ?l = "pw_leases w ! i" and ?ls = "remove_nth i (pw_leases w)"
  note iv = bp_invD [OF inv]
  have l: "unat (pb_id ?l) < length (pw_all w)" "pb_ptr ?l = pw_all w ! unat (pb_id ?l)" using iv(2) [OF nth_mem [OF True]] by auto
  have sub: "set ?ls \<subseteq> set (pw_leases w)" by (rule set_remove_nth)
  have m: "mset (map f (pw_leases w)) = add_mset (f ?l) (mset (map f ?ls))" for f :: "pooled_buf \<Rightarrow> 'a"
    using arg_cong [OF mset_remove_nth [OF True], of "image_mset f"] by simp
  show ?thesis
  proof (cases "pw_pool w")
    case (Some p)
    note a = iv(5) [OF Some]
    have "distinct (map unat (map pb_id (pw_leases w)))"
      using placed_distinct(1) [OF a] unfolding placed_def map_append distinct_append by blast
    then have "distinct (map pb_id (pw_leases w))" unfolding distinct_map by blast
    then have "distinct (pb_id ?l # map pb_id ?ls)"
      using mset_eq_imp_distinct_iff [of "map pb_id (pw_leases w)" "pb_id ?l # map pb_id ?ls"] m [of pb_id] by simp
    then have "pb_id ?l \<notin> set (map pb_id ?ls)" by simp
    then have s: "set (map pb_id (pw_leases w)) - {pb_id ?l} = set (map pb_id ?ls)"
      using mset_eq_setD [of "map pb_id (pw_leases w)" "pb_id ?l # map pb_id ?ls"] m [of pb_id] by auto
    have "mset (pw_selected w @ map pb_id (pw_leases w)) = add_mset (pb_id ?l) (mset (pw_selected w @ map pb_id ?ls))"
      using m [of pb_id] by simp
    from give_back [OF a this s] obtain r where r: "reset_buffer (pb_id ?l) (pb_ptr ?l) (bp_size p) (bp_ring p) = Some r"
      "alive_inv (p\<lparr>bp_bufs := (bp_bufs p)[unat (pb_id ?l) := Some (pb_ptr ?l)], bp_ring := r\<rparr>) (pw_head w) (pw_selected w) (map pb_id ?ls) (pw_all w)"
      unfolding l(2) by blast
    have "unat (pb_id ?l) < length (bp_bufs p)" using a l(1) by (simp add: alive_inv_def)
    then show ?thesis using r True Some iv(1-4) sub by (auto simp: lease_drop_def shared_reset_def bp_inv_def)
  next
    case None
    have "mset (pw_freed w @ map pb_ptr (pw_leases w)) = mset ((pw_freed w @ [pb_ptr ?l]) @ map pb_ptr ?ls)"
      using m [of pb_ptr] by simp
    then have "leaked_inv r h ((pw_freed w @ [pb_ptr ?l]) @ map pb_ptr ?ls) bufs = leaked_inv r h (pw_freed w @ map pb_ptr (pw_leases w)) bufs" for r h bufs
      unfolding leaked_inv_def mset_append by simp
    then show ?thesis using inv None True sub m [of pb_ptr] by (auto simp: bp_inv_def lease_drop_def split: option.splits)
  qed
qed (use inv in simp)

lemma somes_map: "[a. Some a \<leftarrow> map (\<lambda>b. if P b then None else Some (f b)) xs] = map f (filter (\<lambda>b. \<not> P b) xs)"
  by (induction xs) auto

lemma bufs_nth: "mset (map ((!) bufs) [0..<length bufs]) = mset bufs"
  by (simp add: map_nth)

lemma released_bufs:
  assumes a: "alive_inv p h sel leased bufs"
  shows "mset ([a. Some a \<leftarrow> bp_bufs p] @ map ((!) bufs \<circ> unat) leased) = mset bufs"
    "mset (map ((!) bufs) (map unat (map re_bid (window (bp_ring p) h) @ sel)) @ map ((!) bufs \<circ> unat) leased) = mset bufs"
proof -
  let ?k = "map unat (map re_bid (window (bp_ring p) h) @ sel)" and ?L = "map unat leased"
  have m: "mset (?k @ ?L) = mset [0..<length bufs]" using a by (simp add: alive_inv_def placed_def)
  have d: "set ?k \<inter> set ?L = {}" using placed_distinct(1) [OF a] by (auto simp: placed_def)
  have "bp_bufs p = map (\<lambda>b. if b \<in> set ?L then None else Some (bufs ! b)) [0..<length bufs]"
    using a by (intro nth_equalityI) (auto simp: alive_inv_def)
  then have f: "[a. Some a \<leftarrow> bp_bufs p] = map ((!) bufs) (filter (\<lambda>b. b \<notin> set ?L) [0..<length bufs])"
    using somes_map [of "\<lambda>b. b \<in> set ?L" "(!) bufs" "[0..<length bufs]"] by simp
  have "mset (filter (\<lambda>b. b \<notin> set ?L) [0..<length bufs]) = mset (filter (\<lambda>b. b \<notin> set ?L) (?k @ ?L))"
    unfolding mset_filter m ..
  also have "filter (\<lambda>b. b \<notin> set ?L) (?k @ ?L) = ?k"
  proof -
    have "filter (\<lambda>b. b \<notin> set ?L) ?k = ?k" by (rule filter_True) (use d in blast)
    moreover have "filter (\<lambda>b. b \<notin> set ?L) ?L = []" by (simp add: filter_empty_conv)
    ultimately show ?thesis by (simp only: filter_append append_Nil2)
  qed
  finally have g: "mset (filter (\<lambda>b. b \<notin> set ?L) [0..<length bufs]) = mset ?k" .
  have e: "image_mset ((!) bufs) (mset ?k + mset ?L) = mset bufs"
    using m bufs_nth [of bufs] by (metis mset_append mset_map)
  show "mset (map ((!) bufs) ?k @ map ((!) bufs \<circ> unat) leased) = mset bufs"
    using e by (simp add: multiset.map_comp comp_assoc add.assoc)
  show "mset ([a. Some a \<leftarrow> bp_bufs p] @ map ((!) bufs \<circ> unat) leased) = mset bufs"
    unfolding f mset_append mset_map g using e by (simp add: multiset.map_comp comp_assoc)
qed

lemma window_addrs:
  assumes a: "alive_inv p h sel leased bufs" and d: "distinct bufs"
  shows "distinct (map re_addr (window (bp_ring p) h))" "map re_addr (window (bp_ring p) h) = map ((!) bufs \<circ> unat \<circ> re_bid) (window (bp_ring p) h)"
proof -
  show e: "map re_addr (window (bp_ring p) h) = map ((!) bufs \<circ> unat \<circ> re_bid) (window (bp_ring p) h)"
    using a by (auto simp: alive_inv_def)
  have u: "distinct (map (unat \<circ> re_bid) (window (bp_ring p) h))" "set (map (unat \<circ> re_bid) (window (bp_ring p) h)) \<subseteq> {0..<length bufs}"
    using placed_distinct(1,2) [OF a] by (auto simp: placed_def)
  have "inj_on ((!) bufs) (set (map (unat \<circ> re_bid) (window (bp_ring p) h)))"
    using d u(2) by (intro inj_on_nth) auto
  then have "distinct (map ((!) bufs) (map (unat \<circ> re_bid) (window (bp_ring p) h)))" using u(1) distinct_map by blast
  then show "distinct (map re_addr (window (bp_ring p) h))" unfolding e by (simp add: comp_assoc)
qed

lemma release_inv:
  assumes inv: "bp_inv w"
  shows "\<exists>w'. bp_act (URelease unreg unmap) w = Some w' \<and> bp_inv w'"
proof (cases "pw_pool w")
  case (Some p)
  note iv = bp_invD [OF inv] note a = iv(5) [OF Some]
  have ptrs: "map ((!) (pw_all w) \<circ> unat) (map pb_id (pw_leases w)) = map pb_ptr (pw_leases w)" using iv(2) by auto
  note rel = released_bufs [OF a, unfolded ptrs]
  show ?thesis
  proof (cases unreg)
    case (Inl e)
    have "leaked_inv (bp_ring p) (pw_head w) (pw_freed w @ map pb_ptr (pw_leases w)) (pw_all w)"
      unfolding leaked_inv_def
    proof (intro conjI exI)
      show "mset (map ((!) (pw_all w)) (map unat (map re_bid (window (bp_ring p) (pw_head w)) @ pw_selected w)) @ pw_freed w @ map pb_ptr (pw_leases w)) = mset (pw_all w)"
        using rel(2) iv(3) [OF Some] by simp
      show "re_addr ` set (window (bp_ring p) (pw_head w)) \<subseteq> set (map ((!) (pw_all w)) (map unat (map re_bid (window (bp_ring p) (pw_head w)) @ pw_selected w)))"
        using window_addrs(2) [OF a iv(1)] by auto
    qed (use a window_addrs(1) [OF a iv(1)] in \<open>auto simp: alive_inv_def\<close>)
    then show ?thesis using iv(1-3) Some Inl by (simp add: bp_inv_def pool_release_def)
  next
    case (Inr u)
    then show ?thesis using iv(1-3) Some rel(1) by (simp add: bp_inv_def pool_release_def)
  qed
qed (use inv in simp)

lemma bp_act_inv: "bp_inv w \<Longrightarrow> \<exists>w'. bp_act a w = Some w' \<and> bp_inv w'"
  by (cases a) (use select_inv take_inv recycle_inv view_inv drop_inv release_inv in simp_all)

lemma bp_reach_inv: "bp_reach w \<Longrightarrow> bp_inv w"
proof (induction rule: bp_reach.induct)
  case (bp_start num_bufs buffer_len alloc mmap reg p fr)
  then obtain bufs where b: "bp_bufs p = map Some bufs" "distinct bufs" "fr = []" "alive_inv p 0 [] [] bufs"
    using bp_new_inv by meson
  have "[a. Some a \<leftarrow> bp_bufs p] = bufs" unfolding b(1) by (induction bufs) auto
  then show ?case using b by (simp add: bp_inv_def)
next
  case (bp_step w a w')
  then show ?case using bp_act_inv [of w a] by auto
qed

section \<open>Properties\<close>

definition kernel_addrs :: "bp_world \<Rightarrow> addr list" where
  "kernel_addrs w = (case kernel_ring w of None \<Rightarrow> [] | Some r \<Rightarrow> map re_addr (window r (pw_head w)))"

lemma leased_addrs:
  assumes inv: "bp_inv w" and p: "pw_pool w = Some p"
  shows "distinct (map pb_ptr (pw_leases w) @ map re_addr (window (bp_ring p) (pw_head w)))"
    "set (map pb_ptr (pw_leases w) @ map re_addr (window (bp_ring p) (pw_head w))) \<subseteq> set (pw_all w)"
proof -
  let ?W = "window (bp_ring p) (pw_head w)"
  note iv = bp_invD [OF inv] note a = iv(5) [OF p]
  have ptrs: "map ((!) (pw_all w) \<circ> unat) (map pb_id (pw_leases w)) = map pb_ptr (pw_leases w)" using iv(2) by auto
  have m: "mset (map re_addr ?W @ map ((!) (pw_all w) \<circ> unat) (pw_selected w) @ map pb_ptr (pw_leases w)) = mset (pw_all w)"
    unfolding window_addrs(2) [OF a iv(1)] using released_bufs(2) [OF a, unfolded ptrs] by (simp add: comp_assoc)
  then show "distinct (map pb_ptr (pw_leases w) @ map re_addr ?W)"
    using mset_eq_imp_distinct_iff [OF m] iv(1) by auto
  show "set (map pb_ptr (pw_leases w) @ map re_addr ?W) \<subseteq> set (pw_all w)" using mset_eq_setD [OF m] by auto
qed

lemma distinct_part: "distinct (xs @ ys @ zs) \<Longrightarrow> set ks \<subseteq> set xs \<Longrightarrow> distinct ks \<Longrightarrow> distinct (ys @ zs @ ks)"
  by auto

text \<open>
  C38. Buffers shared with the kernel are not touched or freed by the program.  However the kernel selects buffers and the program takes,
  views, drops and recycles them, and also after the pool was released - even when the ring could not be
  unregistered - the buffers that are freed, the buffers that are leased and the buffers the kernel can still select are
  pairwise different, so nothing is freed twice, used after it was freed or written by the kernel while it is leased; a lease's
  view lies inside its buffer; and no operation panics.
\<close>

theorem pool_memory_safe:
  assumes "bp_reach w"
  shows "distinct (pw_freed w @ map pb_ptr (pw_leases w) @ kernel_addrs w)
    \<and> set (pw_freed w @ map pb_ptr (pw_leases w) @ kernel_addrs w) \<subseteq> set (pw_all w)
    \<and> (l \<in> set (pw_leases w) \<longrightarrow> unat (pb_offset l) + unat (pb_len l) \<le> unat (pb_offset l) + unat (pb_cap l)
         \<and> unat (pb_offset l) + unat (pb_cap l) \<le> unat (pb_full_cap l))
    \<and> bp_act a w \<noteq> None"
proof -
  note inv = bp_reach_inv [OF assms] note iv = bp_invD [OF inv]
  have "distinct (pw_freed w @ map pb_ptr (pw_leases w) @ kernel_addrs w)
      \<and> set (pw_freed w @ map pb_ptr (pw_leases w) @ kernel_addrs w) \<subseteq> set (pw_all w)"
  proof (cases "pw_pool w")
    case (Some p)
    then show ?thesis using leased_addrs [OF inv Some] iv(3) by (simp add: kernel_addrs_def kernel_ring_def)
  next
    case None
    show ?thesis
    proof (cases "pw_leaked w")
      case None
      then have m: "mset (pw_freed w @ map pb_ptr (pw_leases w)) = mset (pw_all w)" using inv \<open>pw_pool w = None\<close> by (simp add: bp_inv_def)
      then show ?thesis using mset_eq_imp_distinct_iff [OF m] mset_eq_setD [OF m] iv(1) \<open>pw_pool w = None\<close> None
        by (simp add: kernel_addrs_def kernel_ring_def)
    next
      case (Some r)
      then have "leaked_inv r (pw_head w) (pw_freed w @ map pb_ptr (pw_leases w)) (pw_all w)" using inv \<open>pw_pool w = None\<close> by (simp add: bp_inv_def)
      then obtain rest where m: "mset (rest @ pw_freed w @ map pb_ptr (pw_leases w)) = mset (pw_all w)"
        "re_addr ` set (window r (pw_head w)) \<subseteq> set rest" "distinct (map re_addr (window r (pw_head w)))" by (auto simp: leaked_inv_def)
      have d: "distinct (rest @ pw_freed w @ map pb_ptr (pw_leases w))" "set (rest @ pw_freed w @ map pb_ptr (pw_leases w)) = set (pw_all w)"
        using mset_eq_imp_distinct_iff [OF m(1)] mset_eq_setD [OF m(1)] iv(1) by simp_all
      have "set (kernel_addrs w) \<subseteq> set rest" "distinct (kernel_addrs w)"
        using m(2,3) Some \<open>pw_pool w = None\<close> by (simp_all add: kernel_addrs_def kernel_ring_def)
      then show ?thesis using distinct_part [OF d(1)] d(2) by auto
    qed
  qed
  then show ?thesis using iv(2) bp_act_inv [OF inv, of a] by (auto simp: view_ok_def word_le_nat_alt)
qed

text \<open>
  No buffer is lost.  While the pool is alive each of its buffers is at exactly one place: selectable by the kernel, in a
  completion that the program has not handled, or leased; so the kernel runs out of buffers exactly when completions and leases hold all of
  them.  The id of an unhandled completion can always be taken or recycled.  And once the ring was unregistered and all leases are gone, every buffer
  has been freed exactly once.
\<close>

theorem pool_conserves:
  assumes "bp_reach w"
  shows "(pw_pool w = Some p \<longrightarrow>
      mset (placed p (pw_head w) (pw_selected w) (map pb_id (pw_leases w))) = mset [0..<length (pw_all w)]
      \<and> (kernel_addrs w = [] \<longleftrightarrow> length (pw_selected w) + length (pw_leases w) = length (pw_all w))
      \<and> (bid \<in> set (pw_selected w) \<longrightarrow>
           (\<exists>l p'. pool_take bid (Some p) = (Inr (Some l), Some p') \<and> pb_ptr l = pw_all w ! unat bid)
           \<and> (\<exists>p'. pool_reset bid (Some p) = Some (Inr True, Some p', []))))
    \<and> (pw_pool w = None \<and> pw_leaked w = None \<and> pw_leases w = [] \<longrightarrow> mset (pw_freed w) = mset (pw_all w))"
proof -
  note inv = bp_reach_inv [OF assms] note iv = bp_invD [OF inv]
  have "mset (pw_freed w) = mset (pw_all w)" if "pw_pool w = None \<and> pw_leaked w = None \<and> pw_leases w = []"
    using inv that by (simp add: bp_inv_def)
  moreover have "?thesis" if "pw_pool w \<noteq> Some p" using that calculation by simp
  moreover have "mset (placed p (pw_head w) (pw_selected w) (map pb_id (pw_leases w))) = mset [0..<length (pw_all w)]
      \<and> (kernel_addrs w = [] \<longleftrightarrow> length (pw_selected w) + length (pw_leases w) = length (pw_all w))
      \<and> (bid \<in> set (pw_selected w) \<longrightarrow>
           (\<exists>l p'. pool_take bid (Some p) = (Inr (Some l), Some p') \<and> pb_ptr l = pw_all w ! unat bid)
           \<and> (\<exists>p'. pool_reset bid (Some p) = Some (Inr True, Some p', [])))" if p: "pw_pool w = Some p"
  proof (intro conjI impI)
    note a = iv(5) [OF p]
    show "mset (placed p (pw_head w) (pw_selected w) (map pb_id (pw_leases w))) = mset [0..<length (pw_all w)]"
      using a by (simp add: alive_inv_def)
    show "kernel_addrs w = [] \<longleftrightarrow> length (pw_selected w) + length (pw_leases w) = length (pw_all w)"
      using placed_distinct(3) [OF a] p by (auto simp: kernel_addrs_def kernel_ring_def placed_def)
    assume b: "bid \<in> set (pw_selected w)"
    show "\<exists>l p'. pool_take bid (Some p) = (Inr (Some l), Some p') \<and> pb_ptr l = pw_all w ! unat bid"
      using alive_slot(3) [OF a b] by (simp add: pool_take_def)
    show "\<exists>p'. pool_reset bid (Some p) = Some (Inr True, Some p', [])" using recycle_alive [OF a b] by blast
  qed
  ultimately show ?thesis by blast
qed

text \<open>A pool of two buffers; the kernel selects the first, which is then leased.\<close>

definition two_bufs :: "nat \<Rightarrow> addr option" where
  "two_bufs i = (if i = 0 then Some 64 else if i = 1 then Some 128 else None)"

lemma two_bufs_inj: "two_bufs i = Some a \<Longrightarrow> two_bufs j = Some a \<Longrightarrow> i = j"
  by (auto simp: two_bufs_def split: if_splits)

lemma select_reach: "bp_reach w \<Longrightarrow> bp_reach (kernel_select w)"
  by (rule bp_step [where a = KSelect]) simp_all

lemma demo_buffers:
  obtains w p l where "bp_reach w" "pw_pool w = Some p" "pw_all w = [64, 128]" "pw_selected w = [1]" "pw_leases w = [l]" "pb_ptr l = 64"
proof -
  let ?p = "\<lparr>bp_ring = \<lparr>br_entries = [\<lparr>re_addr = 64, re_len = 16, re_bid = 0\<rparr>, \<lparr>re_addr = 128, re_len = 16, re_bid = 1\<rparr>],
      br_tail = 2, br_len = 2\<rparr>, bp_bufs = [Some 64, Some 128], bp_size = 16\<rparr>"
  let ?w = "\<lparr>pw_pool = Some ?p, pw_leaked = None, pw_head = 0, pw_selected = [], pw_leases = [], pw_freed = [], pw_all = [64, 128]\<rparr>"
  have n: "next_power_of_two 2 = 2" unfolding next_power_of_two_def by (subst next_pow2.simps, subst next_pow2.simps) simp
  have al: "alloc_all two_bufs 2 [] = (Inr [64, 128], [])" by (simp add: two_bufs_def numeral_2_eq_2)
  have "ring_register [Some 64, Some 128] 16 (Inr ()) (Inr ()) = Some (Inr (bp_ring ?p))"
    by (simp add: ring_register_def add_buffer_def ring_commit_def)
  then have "pool_root_new 2 16 two_bufs (Inr ()) (Inr ()) = Some (Inr ?p, [])"
    using al n by (simp add: pool_root_new_def u32_max_def MAX_BUFFER_RING_ENTRIES_def numeral_2_eq_2 [symmetric])
  from bp_start [OF this] have "bp_reach ?w" using two_bufs_inj by simp
  then have s: "bp_reach (kernel_select (kernel_select ?w))" using select_reach by blast
  have k: "kernel_select (kernel_select ?w) = ?w\<lparr>pw_head := 2, pw_selected := [0, 1]\<rparr>"
    by (simp add: kernel_select_def kernel_ring_def)
  let ?l = "\<lparr>pb_ptr = 64, pb_offset = 0, pb_len = 0, pb_cap = 16, pb_full_cap = 16, pb_id = 0\<rparr>"
  have "bp_act (UTake 0) (kernel_select (kernel_select ?w)) = Some (?w\<lparr>pw_pool := Some (?p\<lparr>bp_bufs := [None, Some 128]\<rparr>), pw_head := 2, pw_selected := [1], pw_leases := [?l]\<rparr>)"
    unfolding k by (simp add: pool_take_def shared_take_def list_get_def)
  from bp_step [OF s this] show thesis by (rule that [where l = ?l]) simp_all
qed

lemma pool_memory_safe_witness: "\<exists>w l. bp_reach w \<and> l \<in> set (pw_leases w) \<and> 64 \<notin> set (kernel_addrs w) \<and> bp_act (UDrop 0) w \<noteq> None"
proof -
  obtain w l where w: "bp_reach w" "pw_leases w = [l]" "pb_ptr l = 64" by (rule demo_buffers)
  show ?thesis using w pool_memory_safe [OF w(1), of l "UDrop 0"] by (intro exI [of _ w] exI [of _ l]) auto
qed

lemma pool_conserves_witness: "\<exists>w p'. bp_reach w \<and> kernel_addrs w = [] \<and> pool_reset 1 (pw_pool w) = Some (Inr True, Some p', [])"
proof -
  obtain w p l where w: "bp_reach w" "pw_pool w = Some p" "pw_all w = [64, 128]" "pw_selected w = [1]" "pw_leases w = [l]" by (rule demo_buffers)
  show ?thesis using w pool_conserves [OF w(1), of p 1] by (intro exI [of _ w]) auto
qed

end
