(* ===== verification/Kqueue.thy ===== *)
theory Kqueue
  imports Uring
begin

text \<open>
  The kqueue backend (\<^verbatim>\<open>karmaio/src/driver/backends/kqueue.rs\<close>), for macOS and the BSDs: slots that are attempted when polled,
  wait for a one-shot readiness filter or for a job of the blocking pool, and are cancelled, detached and
  shut down; and the completion guard of blocking jobs (\<^verbatim>\<open>BlockingCompletionGuard\<close> in \<^verbatim>\<open>driver/ops.rs\<close>).

  What the operating system and the operation's own code answer are arguments: the outcome of
  an attempt, whether a filter could be armed, whether the pool took the job, and which filters fired.  The
  kernel's side is \<open>kq_filters\<close>: the armed one-shot filters, each with the key in its \<^verbatim>\<open>udata\<close>.  Adding a filter for a
  descriptor and direction replaces the one there, delivering an event removes it, and deleting it is
  synchronous.  \<open>kq_jobs\<close> are the jobs that the pool has accepted and whose guard has not delivered yet.  \<open>None\<close> is a panic.
\<close>

section \<open>Data\<close>

datatype direction = DirRead | DirWrite

record interest =
  in_fd :: int
  in_dir :: direction

datatype ready_action = Retry | CompleteSocketError

datatype kqueue_attempt =
    AttemptReady completion
  | AttemptRegister interest ready_action
  | AttemptBlocking

datatype ('w, 'd) kq_observer = KWaitingObserver 'w | KDetachedObserver 'd

datatype ('w, 'd) kq_state =
    KSubmitted
  | KReady
  | KWaiting 'w
  | KCompleted completion
  | KDetached 'd
  | KCanceling "('w, 'd) kq_observer"

datatype ('w, 'd) kq_deferred = KWake 'w | KCleanup 'd completion

text \<open>\<^verbatim>\<open>State::complete\<close> and \<^verbatim>\<open>State::ready\<close>: whether the slot is to be removed, the waker, the cleanup, the new state.\<close>

fun kq_complete ::
  "completion \<Rightarrow> ('w, 'd) kq_state \<Rightarrow> bool \<times> 'w option \<times> ('w, 'd) kq_deferred option \<times> ('w, 'd) kq_state" where
  "kq_complete c KSubmitted = (False, None, None, KCompleted c)"
| "kq_complete c KReady = (False, None, None, KCompleted c)"
| "kq_complete c (KWaiting w) = (False, Some w, None, KCompleted c)"
| "kq_complete c (KDetached d) = (True, None, Some (KCleanup d c), KSubmitted)"
| "kq_complete c (KCanceling (KWaitingObserver w)) = (False, Some w, None, KCompleted c)"
| "kq_complete c (KCanceling (KDetachedObserver d)) = (True, None, Some (KCleanup d c), KSubmitted)"
| "kq_complete c (KCompleted c0) = (False, None, None, KCompleted c0)"

fun kq_ready :: "('w, 'd) kq_state \<Rightarrow> bool \<times> 'w option \<times> ('w, 'd) kq_state" where
  "kq_ready KSubmitted = (False, None, KReady)"
| "kq_ready (KWaiting w) = (False, Some w, KReady)"
| "kq_ready (KDetached d) = (True, None, KDetached d)"
| "kq_ready (KCanceling (KDetachedObserver d)) = (True, None, KCanceling (KDetachedObserver d))"
| "kq_ready st = (False, None, st)"

record registration =
  rg_interest :: interest
  rg_on_ready :: ready_action

record ('w, 'd) kq_slot =
  ks_state :: "('w, 'd) kq_state"
  ks_registration :: "registration option"

record kq_event =
  ke_key :: op_key
  ke_fd :: int
  ke_dir :: direction
  ke_readable :: bool
  ke_writable :: bool

record ('w, 'd) kqueue =
  kq_ops :: "('w, 'd) kq_slot op_table"
  kq_interests :: "interest \<rightharpoonup> op_key"
  kq_done :: "(op_key \<times> completion) list"
  kq_shutting_down :: bool
  kq_filters :: "interest \<rightharpoonup> op_key"
  kq_events :: "kq_event list"
  kq_jobs :: "op_key list"
  kq_ran :: "('w, 'd) kq_deferred list"

section \<open>Registrations\<close>

definition kq_set :: "op_key \<Rightarrow> ('w, 'd) kq_slot \<Rightarrow> ('w, 'd) kqueue \<Rightarrow> ('w, 'd) kqueue" where
  "kq_set key s q = q\<lparr>kq_ops := op_get_mut (kq_ops q) key (\<lambda>_. s)\<rparr>"

definition kq_set_state :: "op_key \<Rightarrow> ('w, 'd) kq_state \<Rightarrow> ('w, 'd) kqueue \<Rightarrow> ('w, 'd) kqueue" where
  "kq_set_state key st q = q\<lparr>kq_ops := op_get_mut (kq_ops q) key (\<lambda>s. s\<lparr>ks_state := st\<rparr>)\<rparr>"

definition kq_remove :: "op_key \<Rightarrow> ('w, 'd) kqueue \<Rightarrow> ('w, 'd) kqueue option" where
  "kq_remove key q = map_option (\<lambda>(_, t). q\<lparr>kq_ops := t\<rparr>) (op_remove (kq_ops q) key)"

definition has_interest :: "interest \<Rightarrow> ('w, 'd) kqueue \<Rightarrow> bool" where
  "has_interest i q = (kq_interests q i \<noteq> None)"

definition install_registration :: "op_key \<Rightarrow> registration \<Rightarrow> ('w, 'd) kqueue \<Rightarrow> ('w, 'd) kqueue option" where
  "install_registration key r q =
     (case op_get (kq_ops q) key of
        None \<Rightarrow> None
      | Some s \<Rightarrow> Some (kq_set key (s\<lparr>ks_registration := Some r\<rparr>)
                           (q\<lparr>kq_interests := (kq_interests q)(rg_interest r \<mapsto> key)\<rparr>)))"

definition take_registration :: "op_key \<Rightarrow> ('w, 'd) kqueue \<Rightarrow> registration option \<times> ('w, 'd) kqueue" where
  "take_registration key q =
     (case op_get (kq_ops q) key of
        None \<Rightarrow> (None, q)
      | Some s \<Rightarrow>
          (case ks_registration s of
             None \<Rightarrow> (None, q)
           | Some r \<Rightarrow>
               (Some r, kq_set key (s\<lparr>ks_registration := None\<rparr>)
                  (if kq_interests q (rg_interest r) = Some key
                   then q\<lparr>kq_interests := (kq_interests q)(rg_interest r := None)\<rparr> else q))))"

text \<open>\<^verbatim>\<open>Kqueue::arm\<close> when the system call succeeds, and \<^verbatim>\<open>Kqueue::delete\<close>.\<close>

definition kernel_arm :: "interest \<Rightarrow> op_key \<Rightarrow> ('w, 'd) kqueue \<Rightarrow> ('w, 'd) kqueue" where
  "kernel_arm i key q = q\<lparr>kq_filters := (kq_filters q)(i \<mapsto> key)\<rparr>"

definition kernel_delete :: "interest \<Rightarrow> ('w, 'd) kqueue \<Rightarrow> ('w, 'd) kqueue" where
  "kernel_delete i q = q\<lparr>kq_filters := (kq_filters q)(i := None)\<rparr>"

section \<open>Operations\<close>

definition kq_new :: "nat \<Rightarrow> ('w, 'd) kqueue io_result" where
  "kq_new capacity =
     (if capacity = 0 then Inl InvalidInput
      else
        (case op_new capacity of
           Inl e \<Rightarrow> Inl e
         | Inr t \<Rightarrow> Inr \<lparr>kq_ops = t, kq_interests = (\<lambda>_. None), kq_done = [], kq_shutting_down = False,
                         kq_filters = (\<lambda>_. None), kq_events = [], kq_jobs = [], kq_ran = []\<rparr>))"

definition kq_submit_op :: "('w, 'd) kqueue \<Rightarrow> (op_key io_result \<times> ('w, 'd) kqueue) option" where
  "kq_submit_op q =
     (if kq_shutting_down q then Some (Inl BrokenPipe, q)
      else
        (case op_insert (kq_ops q) \<lparr>ks_state = KSubmitted, ks_registration = None\<rparr> of
           None \<Rightarrow> None
         | Some (Inl e, t) \<Rightarrow> Some (Inl e, q\<lparr>kq_ops := t\<rparr>)
         | Some (Inr k, t) \<Rightarrow> Some (Inr k, q\<lparr>kq_ops := t\<rparr>)))"

text \<open>\<^verbatim>\<open>remove_op\<close>: an unread completion if there is one, the payload left in the future, the backend.\<close>

definition kq_remove_op ::
  "op_key \<Rightarrow> 'd option \<Rightarrow> ('w, 'd) kqueue \<Rightarrow> (completion option \<times> 'd option \<times> ('w, 'd) kqueue) option" where
  "kq_remove_op key data q =
     (case op_get (kq_ops q) key of
        None \<Rightarrow> Some (None, data, q)
      | Some s \<Rightarrow>
          (case ks_state s of
             KSubmitted \<Rightarrow> map_option (\<lambda>q. (None, None, q)) (kq_remove key q)
           | KReady \<Rightarrow> map_option (\<lambda>q. (None, None, q)) (kq_remove key q)
           | KWaiting w \<Rightarrow>
               (case take_registration key q of
                  (Some r, q) \<Rightarrow> map_option (\<lambda>q. (None, None, q)) (kq_remove key (kernel_delete (rg_interest r) q))
                | (None, q) \<Rightarrow> map_option (\<lambda>d. (None, None, kq_set_state key (KDetached d) q)) data)
           | KCanceling (KWaitingObserver w) \<Rightarrow>
               (case take_registration key q of
                  (Some r, q) \<Rightarrow> map_option (\<lambda>q. (None, None, q)) (kq_remove key (kernel_delete (rg_interest r) q))
                | (None, q) \<Rightarrow> map_option (\<lambda>d. (None, None, kq_set_state key (KCanceling (KDetachedObserver d)) q)) data)
           | KCompleted c \<Rightarrow> map_option (\<lambda>q. (Some c, data, q)) (kq_remove key q)
           | KDetached _ \<Rightarrow> None
           | KCanceling (KDetachedObserver _) \<Rightarrow> None))"

text \<open>\<^verbatim>\<open>canceled_completion\<close>; 89 is \<^verbatim>\<open>ECANCELED\<close> on macOS, its value does not matter here.\<close>

definition canceled_completion :: completion where
  "canceled_completion = completion_new (Inl (RawOs 89))"

text \<open>A cancelled readiness wait wakes its task at once.\<close>

definition kq_cancel_op :: "op_key \<Rightarrow> ('w, 'd) kqueue \<Rightarrow> ('w, 'd) kqueue" where
  "kq_cancel_op key q =
     (case op_get (kq_ops q) key of
        None \<Rightarrow> q
      | Some s \<Rightarrow>
          (case ks_state s of
             KSubmitted \<Rightarrow> kq_set_state key (KCompleted canceled_completion) q
           | KReady \<Rightarrow> kq_set_state key (KCompleted canceled_completion) q
           | KWaiting w \<Rightarrow>
               (case take_registration key (kq_set_state key KSubmitted q) of
                  (Some r, q) \<Rightarrow>
                    (let q = kq_set_state key (KCompleted canceled_completion) (kernel_delete (rg_interest r) q)
                     in q\<lparr>kq_ran := kq_ran q @ [KWake w]\<rparr>)
                | (None, q) \<Rightarrow> kq_set_state key (KCanceling (KWaitingObserver w)) q)
           | KDetached d \<Rightarrow> kq_set_state key (KCanceling (KDetachedObserver d)) q
           | _ \<Rightarrow> q))"

text \<open>
  \<^verbatim>\<open>poll_op\<close>: \<open>att\<close> is the outcome of \<^verbatim>\<open>attempt\<close>, \<open>arm\<close> that of arming the filter, \<open>pushed\<close> that of
  \<^verbatim>\<open>push_blocking\<close>, whose job is then the pool's.
\<close>

definition kq_poll_op ::
  "kqueue_attempt \<Rightarrow> unit io_result \<Rightarrow> unit io_result \<Rightarrow> 'w \<Rightarrow> op_key \<Rightarrow> ('w, 'd) kqueue \<Rightarrow>
     (completion poll \<times> ('w, 'd) kqueue) option" where
  "kq_poll_op att arm pushed w key q =
     (let attempt =
        (case att of
           AttemptReady c \<Rightarrow> map_option (Pair (Ready c)) (kq_remove key q)
         | AttemptRegister i a \<Rightarrow>
             if has_interest i q
             then map_option (Pair (Ready (completion_new (Inl AlreadyExists)))) (kq_remove key q)
             else
               (case arm of
                  Inl e \<Rightarrow> map_option (Pair (Ready (completion_new (Inl e)))) (kq_remove key q)
                | Inr _ \<Rightarrow>
                    map_option (\<lambda>q. (Pending, kq_set_state key (KWaiting w) q))
                      (install_registration key \<lparr>rg_interest = i, rg_on_ready = a\<rparr> (kernel_arm i key q)))
         | AttemptBlocking \<Rightarrow>
             (case pushed of
                Inl e \<Rightarrow> map_option (Pair (Ready (completion_new (Inl e)))) (kq_remove key (kq_set_state key (KWaiting w) q))
              | Inr _ \<Rightarrow> Some (Pending, (kq_set_state key (KWaiting w) q)\<lparr>kq_jobs := kq_jobs q @ [key]\<rparr>)))
      in
        case op_get (kq_ops q) key of
          None \<Rightarrow> None
        | Some s \<Rightarrow>
            (case ks_state s of
               KCompleted c \<Rightarrow> map_option (Pair (Ready c)) (kq_remove key q)
             | KReady \<Rightarrow> attempt
             | KSubmitted \<Rightarrow> attempt
             | KWaiting _ \<Rightarrow> Some (Pending, kq_set_state key (KWaiting w) q)
             | KCanceling (KWaitingObserver _) \<Rightarrow> Some (Pending, kq_set_state key (KCanceling (KWaitingObserver w)) q)
             | KDetached _ \<Rightarrow> None
             | KCanceling (KDetachedObserver _) \<Rightarrow> None))"

section \<open>Completions and readiness\<close>

text \<open>\<^verbatim>\<open>BlockingCompletionGuard::send\<close>: a job's guard delivers once, whether the job ran, panicked or was discarded.\<close>

definition guard_send :: "op_key \<Rightarrow> completion \<Rightarrow> ('w, 'd) kqueue \<Rightarrow> ('w, 'd) kqueue" where
  "guard_send key c q =
     (if key \<in> set (kq_jobs q)
      then q\<lparr>kq_jobs := remove1 key (kq_jobs q), kq_done := kq_done q @ [(key, c)]\<rparr> else q)"

definition wakes :: "'w option \<Rightarrow> ('w, 'd) kq_deferred option \<Rightarrow> ('w, 'd) kq_deferred list" where
  "wakes wk cl = (case wk of None \<Rightarrow> [] | Some w \<Rightarrow> [KWake w]) @ (case cl of None \<Rightarrow> [] | Some a \<Rightarrow> [a])"

definition finish_slot ::
  "op_key \<Rightarrow> bool \<times> 'w option \<times> ('w, 'd) kq_deferred option \<times> ('w, 'd) kq_state \<Rightarrow> ('w, 'd) kqueue \<Rightarrow>
     (('w, 'd) kq_deferred list \<times> ('w, 'd) kqueue) option" where
  "finish_slot key x q =
     (case x of (remove, wk, cl, st) \<Rightarrow>
        let q = kq_set_state key st q in
        if remove then map_option (Pair (wakes wk cl)) (kq_remove key q) else Some (wakes wk cl, q))"

fun drain_done ::
  "(op_key \<times> completion) list \<Rightarrow> ('w, 'd) kqueue \<Rightarrow> (('w, 'd) kq_deferred list \<times> ('w, 'd) kqueue) option" where
  "drain_done [] q = Some ([], q)"
| "drain_done ((key, c) # rest) q =
     (case (case op_get (kq_ops q) key of
              None \<Rightarrow> Some ([], q)
            | Some s \<Rightarrow> finish_slot key (kq_complete c (ks_state s)) q) of
        None \<Rightarrow> None
      | Some (ds, q) \<Rightarrow> map_option (\<lambda>(ds', q). (ds @ ds', q)) (drain_done rest q))"

definition drain_blocking_completions :: "('w, 'd) kqueue \<Rightarrow> (('w, 'd) kq_deferred list \<times> ('w, 'd) kqueue) option" where
  "drain_blocking_completions q = drain_done (kq_done q) (q\<lparr>kq_done := []\<rparr>)"

definition is_current_interest :: "op_key \<Rightarrow> interest \<Rightarrow> ('w, 'd) kqueue \<Rightarrow> bool" where
  "is_current_interest key i q =
     (case op_get (kq_ops q) key of
        None \<Rightarrow> False
      | Some s \<Rightarrow> (case ks_registration s of None \<Rightarrow> False | Some r \<Rightarrow> rg_interest r = i))"

text \<open>\<open>err fd\<close> is the completion read from the socket's \<^verbatim>\<open>SO_ERROR\<close>.\<close>

definition mark_ready ::
  "(int \<Rightarrow> completion) \<Rightarrow> op_key \<Rightarrow> interest \<Rightarrow> ('w, 'd) kqueue \<Rightarrow> (('w, 'd) kq_deferred list \<times> ('w, 'd) kqueue) option" where
  "mark_ready err key i q =
     (case take_registration key q of
        (None, q) \<Rightarrow> Some ([], q)
      | (Some r, q) \<Rightarrow>
          if rg_interest r \<noteq> i then map_option (Pair []) (install_registration key r q)
          else
            (case op_get (kq_ops q) key of
               None \<Rightarrow> Some ([], q)
             | Some s \<Rightarrow>
                 finish_slot key
                   (case rg_on_ready r of
                      Retry \<Rightarrow> (case kq_ready (ks_state s) of (rm, wk, st) \<Rightarrow> (rm, wk, None, st))
                    | CompleteSocketError \<Rightarrow> kq_complete (err (in_fd i)) (ks_state s)) q))"

fun dispatch_events ::
  "(int \<Rightarrow> completion) \<Rightarrow> kq_event list \<Rightarrow> ('w, 'd) kqueue \<Rightarrow> (('w, 'd) kq_deferred list \<times> ('w, 'd) kqueue) option" where
  "dispatch_events err [] q = Some ([], q)"
| "dispatch_events err (e # es) q =
     (let i = \<lparr>in_fd = ke_fd e, in_dir = ke_dir e\<rparr>; wr = \<lparr>in_fd = ke_fd e, in_dir = DirWrite\<rparr> in
      if \<not> is_current_interest (ke_key e) i q then dispatch_events err es q
      else
        (case mark_ready err (ke_key e) i q of
           None \<Rightarrow> None
         | Some (ds1, q) \<Rightarrow>
             (case (if ke_readable e \<and> ke_writable e
                    then (case kq_interests q wr of None \<Rightarrow> Some ([], q) | Some k \<Rightarrow> mark_ready err k wr q)
                    else Some ([], q)) of
                None \<Rightarrow> None
              | Some (ds2, q) \<Rightarrow> map_option (\<lambda>(ds, q). (ds1 @ ds2 @ ds, q)) (dispatch_events err es q))))"

definition kq_dispatch ::
  "(int \<Rightarrow> completion) \<Rightarrow> ('w, 'd) kqueue \<Rightarrow> (('w, 'd) kq_deferred list \<times> ('w, 'd) kqueue) option" where
  "kq_dispatch err q = map_option (\<lambda>(ds, q). (ds, q\<lparr>kq_events := []\<rparr>)) (dispatch_events err (kq_events q) q)"

text \<open>
  \<^verbatim>\<open>Kqueue::wait\<close>: the armed filters among \<open>fired\<close> (with whether the descriptor is at its end) are delivered and removed; \<^verbatim>\<open>decode_event\<close> gives
  a read event at the end of the stream both readiness flags.
\<close>

definition fire :: "interest \<times> bool \<Rightarrow> ('w, 'd) kqueue \<Rightarrow> ('w, 'd) kqueue" where
  "fire x q =
     (case x of (i, eof) \<Rightarrow>
        case kq_filters q i of
          None \<Rightarrow> q
        | Some key \<Rightarrow>
            q\<lparr>kq_filters := (kq_filters q)(i := None),
              kq_events := kq_events q @
                [\<lparr>ke_key = key, ke_fd = in_fd i, ke_dir = in_dir i, ke_readable = (in_dir i = DirRead),
                  ke_writable = (in_dir i = DirWrite \<or> eof)\<rparr>]\<rparr>)"

definition kq_wait :: "(interest \<times> bool) list \<Rightarrow> ('w, 'd) kqueue \<Rightarrow> ('w, 'd) kqueue" where
  "kq_wait fired q = foldl (\<lambda>q x. fire x q) (q\<lparr>kq_events := []\<rparr>) fired"

definition kq_run :: "('w, 'd) kq_deferred list \<Rightarrow> ('w, 'd) kqueue \<Rightarrow> ('w, 'd) kqueue" where
  "kq_run ds q = q\<lparr>kq_ran := kq_ran q @ ds\<rparr>"

text \<open>\<^verbatim>\<open>Driver::turn\<close>: \<open>Inl\<close> is a failed wait.\<close>

definition kq_turn ::
  "(int \<Rightarrow> completion) \<Rightarrow> (interest \<times> bool) list io_result \<Rightarrow> ('w, 'd) kqueue \<Rightarrow> (unit io_result \<times> ('w, 'd) kqueue) option" where
  "kq_turn err fired q =
     (case fired of
        Inl e \<Rightarrow> Some (Inl e, q)
      | Inr fs \<Rightarrow>
          (case drain_blocking_completions (kq_wait fs q) of
             None \<Rightarrow> None
           | Some (ds, q) \<Rightarrow>
               map_option (\<lambda>(ds, q). (Inr (), kq_run ds q)) (kq_dispatch err (kq_run ds q))))"

section \<open>Shutdown\<close>

fun delete_all :: "(op_key \<times> ('w, 'd) kq_slot) list \<Rightarrow> ('w, 'd) kqueue \<Rightarrow> ('w, 'd) kqueue" where
  "delete_all [] q = q"
| "delete_all ((key, s) # rest) q =
     (case ks_registration s of
        None \<Rightarrow> delete_all rest q
      | Some r \<Rightarrow> delete_all rest (kernel_delete (rg_interest r) (snd (take_registration key q))))"

definition shutdown_completion :: completion where
  "shutdown_completion = completion_new (Inl OtherError)"

fun remove_leftovers ::
  "op_key list \<Rightarrow> ('w, 'd) kqueue \<Rightarrow> (('w, 'd) kq_deferred list \<times> ('w, 'd) kqueue) option" where
  "remove_leftovers [] q = Some ([], q)"
| "remove_leftovers (key # rest) q =
     (case op_remove (kq_ops q) key of
        None \<Rightarrow> None
      | Some (slot, t) \<Rightarrow>
          map_option (\<lambda>(ds, q). ((case slot of
                Some s \<Rightarrow> (case ks_state s of
                    KDetached d \<Rightarrow> [KCleanup d shutdown_completion]
                  | KCanceling (KDetachedObserver d) \<Rightarrow> [KCleanup d shutdown_completion]
                  | _ \<Rightarrow> [])
              | None \<Rightarrow> []) @ ds, q))
            (remove_leftovers rest (q\<lparr>kq_ops := t\<rparr>)))"

definition kq_shutdown :: "('w, 'd) kqueue \<Rightarrow> (('w, 'd) kq_deferred list \<times> ('w, 'd) kqueue) option" where
  "kq_shutdown q =
     (if kq_shutting_down q then Some ([], q)
      else
        (case op_iter (kq_ops q) of
           None \<Rightarrow> None
         | Some pairs \<Rightarrow>
             (case drain_blocking_completions
                     ((delete_all pairs (q\<lparr>kq_shutting_down := True\<rparr>))\<lparr>kq_interests := (\<lambda>_. None)\<rparr>) of
                None \<Rightarrow> None
              | Some (ds, q) \<Rightarrow>
                  (case op_iter (kq_ops q) of
                     None \<Rightarrow> None
                   | Some pairs \<Rightarrow>
                       (case remove_leftovers (map fst pairs) q of
                          None \<Rightarrow> None
                        | Some (ds', q) \<Rightarrow>
                            map_option (\<lambda>t. (ds @ ds', q\<lparr>kq_ops := t\<rparr>)) (op_clear (kq_ops q)))))))"

end
