(* ===== verification/Kqueue_Safety.thy ===== *)
theory Kqueue_Safety
  imports Kqueue
begin

text \<open>
  A program of futures on the kqueue backend, and what always holds of it: who owns each payload, which filter or
  job each waiting operation waits for, and whether its last waker was woken.
\<close>

section \<open>A program\<close>

text \<open>
  \<open>kp_payload\<close> is the payload each operation was submitted with; \<open>kp_waker\<close> the waker of the operation's last pending poll, with how
  many deferred actions had run by then.  \<open>kp_outputs\<close> logs what \<^verbatim>\<open>complete\<close> was called with.
\<close>

record ('w, 'd) kq_program =
  kp_kq :: "('w, 'd) kqueue"
  kp_ops :: "op_key \<rightharpoonup> 'd"
  kp_payload :: "op_key \<Rightarrow> 'd"
  kp_waker :: "op_key \<rightharpoonup> 'w \<times> nat"
  kp_outputs :: "(op_key \<times> 'd \<times> completion) list"

datatype 'w kq_action =
    KPoll op_key 'w kqueue_attempt "unit io_result" "unit io_result"
  | KDrop op_key
  | KCancel op_key
  | KJobDone op_key completion
  | KTurn "int \<Rightarrow> completion" "(interest \<times> bool) list io_result"

text \<open>\<^verbatim>\<open>Drop for Op\<close>: request cancellation, then detach.\<close>

definition kq_op_drop ::
  "op_key \<Rightarrow> 'd option \<Rightarrow> ('w, 'd) kqueue \<Rightarrow> (('d \<times> completion) option \<times> ('w, 'd) kqueue) option" where
  "kq_op_drop key data q =
     map_option (\<lambda>(c, data, q). (case (c, data) of (Some c, Some d) \<Rightarrow> Some (d, c) | _ \<Rightarrow> None, q))
       (kq_remove_op key data (kq_cancel_op key q))"

definition kq_submit_act :: "'d \<Rightarrow> ('w, 'd) kq_program \<Rightarrow> ('w, 'd) kq_program option" where
  "kq_submit_act d p =
     map_option (\<lambda>(r, q).
       case r of
         Inl _ \<Rightarrow> p\<lparr>kp_kq := q\<rparr>
       | Inr k \<Rightarrow> p\<lparr>kp_kq := q, kp_ops := (kp_ops p)(k \<mapsto> d), kp_payload := (kp_payload p)(k := d),
                    kp_waker := (kp_waker p)(k := None)\<rparr>)
       (kq_submit_op (kp_kq p))"

fun kq_act :: "'w kq_action \<Rightarrow> ('w, 'd) kq_program \<Rightarrow> ('w, 'd) kq_program option" where
  "kq_act (KPoll k w att arm pushed) p =
     (case kp_ops p k of
        None \<Rightarrow> Some p
      | Some d \<Rightarrow>
          map_option (\<lambda>(r, q).
            case r of
              Pending \<Rightarrow> p\<lparr>kp_kq := q, kp_waker := (kp_waker p)(k \<mapsto> (w, length (kq_ran q)))\<rparr>
            | Ready c \<Rightarrow> p\<lparr>kp_kq := q, kp_ops := (kp_ops p)(k := None), kp_outputs := kp_outputs p @ [(k, d, c)]\<rparr>)
            (kq_poll_op att arm pushed w k (kp_kq p)))"
| "kq_act (KDrop k) p =
     (case kp_ops p k of
        None \<Rightarrow> Some p
      | Some d \<Rightarrow>
          map_option (\<lambda>(out, q).
            p\<lparr>kp_kq := q, kp_ops := (kp_ops p)(k := None),
              kp_outputs := kp_outputs p @ (case out of None \<Rightarrow> [] | Some x \<Rightarrow> [(k, x)])\<rparr>)
            (kq_op_drop k (Some d) (kp_kq p)))"
| "kq_act (KCancel k) p = Some (p\<lparr>kp_kq := kq_cancel_op k (kp_kq p)\<rparr>)"
| "kq_act (KJobDone k c) p = Some (p\<lparr>kp_kq := guard_send k c (kp_kq p)\<rparr>)"
| "kq_act (KTurn err fired) p = map_option (\<lambda>(_, q). p\<lparr>kp_kq := q\<rparr>) (kq_turn err fired (kp_kq p))"

inductive kq_reach :: "('w, 'd) kq_program \<Rightarrow> bool" where
  kq_start: "kq_new capacity = Inr q \<Longrightarrow>
     kq_reach \<lparr>kp_kq = q, kp_ops = (\<lambda>_. None), kp_payload = g, kp_waker = (\<lambda>_. None), kp_outputs = []\<rparr>"
| kq_submit: "kq_reach p \<Longrightarrow> kq_submit_act d p = Some p' \<Longrightarrow> kq_reach p'"
| kq_step: "kq_reach p \<Longrightarrow> kq_act a p = Some p' \<Longrightarrow> kq_reach p'"

section \<open>The invariant\<close>

text \<open>What a state means: is a filter registered, is a job under way, who owns the payload, was the last waker woken.\<close>

fun kq_state_ok :: "bool \<Rightarrow> bool \<Rightarrow> 'd option \<Rightarrow> 'd \<Rightarrow> ('w \<times> bool) option \<Rightarrow> ('w, 'd) kq_state \<Rightarrow> bool" where
  "kq_state_ok reg job f g wk KSubmitted \<longleftrightarrow> \<not> reg \<and> \<not> job \<and> f = Some g \<and> wk = None"
| "kq_state_ok reg job f g wk KReady \<longleftrightarrow> \<not> reg \<and> \<not> job \<and> f = Some g \<and> (\<exists>w. wk = Some (w, True))"
| "kq_state_ok reg job f g wk (KWaiting w) \<longleftrightarrow> reg = (\<not> job) \<and> f = Some g \<and> (\<exists>b. wk = Some (w, b))"
| "kq_state_ok reg job f g wk (KCompleted c) \<longleftrightarrow> \<not> reg \<and> \<not> job \<and> f = Some g \<and> (\<forall>w b. wk = Some (w, b) \<longrightarrow> b)"
| "kq_state_ok reg job f g wk (KDetached d) \<longleftrightarrow> \<not> reg \<and> job \<and> f = None \<and> d = g"
| "kq_state_ok reg job f g wk (KCanceling (KWaitingObserver w)) \<longleftrightarrow> \<not> reg \<and> job \<and> f = Some g \<and> (\<exists>b. wk = Some (w, b))"
| "kq_state_ok reg job f g wk (KCanceling (KDetachedObserver d)) \<longleftrightarrow> \<not> reg \<and> job \<and> f = None \<and> d = g"

definition kq_slot_ok :: "bool \<Rightarrow> 'd option \<Rightarrow> 'd \<Rightarrow> ('w \<times> bool) option \<Rightarrow> ('w, 'd) kq_slot option \<Rightarrow> bool" where
  "kq_slot_ok job f g wk slot =
     (case slot of
        None \<Rightarrow> \<not> job \<and> f = None
      | Some s \<Rightarrow> kq_state_ok (ks_registration s \<noteq> None) job f g wk (ks_state s))"

text \<open>The table of interests is the inverse of the registrations.\<close>

definition regs_ok :: "(op_key \<rightharpoonup> ('w, 'd) kq_slot) \<Rightarrow> (interest \<rightharpoonup> op_key) \<Rightarrow> bool" where
  "regs_ok V I \<longleftrightarrow> (\<forall>i k. I i = Some k \<longleftrightarrow> (\<exists>s r. V k = Some s \<and> ks_registration s = Some r \<and> rg_interest r = i))"

text \<open>A registered interest has its filter armed, or its event is among the fetched ones.\<close>

definition armed :: "(interest \<rightharpoonup> op_key) \<Rightarrow> (interest \<rightharpoonup> op_key) \<Rightarrow> kq_event list \<Rightarrow> bool" where
  "armed I F es \<longleftrightarrow> (\<forall>i k. I i = Some k \<longrightarrow> F i = Some k \<or> (\<exists>e \<in> set es. ke_key e = k \<and> i = \<lparr>in_fd = ke_fd e, in_dir = ke_dir e\<rparr>))"

definition woken :: "('w, 'd) kq_deferred list \<Rightarrow> ('w \<times> nat) option \<Rightarrow> ('w \<times> bool) option" where
  "woken L x = map_option (\<lambda>(w, n). (w, KWake w \<in> set (drop n L))) x"

definition slots_ok ::
  "(op_key \<rightharpoonup> ('w, 'd) kq_slot) \<Rightarrow> op_key set \<Rightarrow> (op_key \<rightharpoonup> 'd) \<Rightarrow> (op_key \<Rightarrow> 'd) \<Rightarrow> (op_key \<rightharpoonup> 'w \<times> nat) \<Rightarrow> ('w, 'd) kq_deferred list \<Rightarrow> bool" where
  "slots_ok V J F g wk L \<longleftrightarrow> (\<forall>k. kq_slot_ok (k \<in> J) (F k) (g k) (woken L (wk k)) (V k))"

definition under_way :: "('w, 'd) kqueue \<Rightarrow> (op_key \<times> completion) list \<Rightarrow> op_key list" where
  "under_way q done = kq_jobs q @ map fst done"

text \<open>\<open>done\<close>, \<open>es\<close> and \<open>ds\<close> are completions, events and actions that are being processed.\<close>

definition kq_inv ::
  "(op_key \<rightharpoonup> 'd) \<Rightarrow> (op_key \<Rightarrow> 'd) \<Rightarrow> (op_key \<rightharpoonup> 'w \<times> nat) \<Rightarrow> (op_key \<times> completion) list \<Rightarrow> kq_event list \<Rightarrow> ('w, 'd) kq_deferred list \<Rightarrow>
     ('w, 'd) kqueue \<Rightarrow> bool" where
  "kq_inv F g wk done es ds q \<longleftrightarrow>
     op_inv (kq_ops q) \<and> distinct (under_way q (kq_done q @ done)) \<and>
     regs_ok (op_get (kq_ops q)) (kq_interests q) \<and> armed (kq_interests q) (kq_filters q) es \<and>
     slots_ok (op_get (kq_ops q)) (set (under_way q (kq_done q @ done))) F g wk (kq_ran q @ ds) \<and>
     (\<forall>k w n. wk k = Some (w, n) \<longrightarrow> n \<le> length (kq_ran q))"

lemma kq_invD:
  assumes "kq_inv F g wk done es ds q"
  shows "op_inv (kq_ops q)" "distinct (under_way q (kq_done q @ done))" "regs_ok (op_get (kq_ops q)) (kq_interests q)"
    "armed (kq_interests q) (kq_filters q) es"
    "\<And>k. kq_slot_ok (k \<in> set (under_way q (kq_done q @ done))) (F k) (g k) (woken (kq_ran q @ ds) (wk k)) (op_get (kq_ops q) k)"
    "\<And>k w n. wk k = Some (w, n) \<Longrightarrow> n \<le> length (kq_ran q)"
  using assms by (auto simp: kq_inv_def slots_ok_def)

subsection \<open>Registrations\<close>

lemma regs_state: "regs_ok V I \<Longrightarrow> V k = Some s \<Longrightarrow> ks_registration s' = ks_registration s \<Longrightarrow> regs_ok (V(k \<mapsto> s')) I"
  by (auto simp: regs_ok_def)

lemma regs_gone: "regs_ok V I \<Longrightarrow> (\<And>s. V k = Some s \<Longrightarrow> ks_registration s = None) \<Longrightarrow> regs_ok (V(k := None)) I"
  by (fastforce simp: regs_ok_def)

lemma regs_fresh: "regs_ok V I \<Longrightarrow> V k = None \<Longrightarrow> ks_registration s = None \<Longrightarrow> regs_ok (V(k \<mapsto> s)) I"
  by (auto simp: regs_ok_def)

lemma regs_taken:
  assumes "regs_ok V I" "V k = Some s" "ks_registration s = Some r"
  shows "I (rg_interest r) = Some k" "ks_registration s' = None \<Longrightarrow> regs_ok (V(k \<mapsto> s')) (I(rg_interest r := None))"
    "regs_ok (V(k := None)) (I(rg_interest r := None))"
proof -
  have iff: "I i = Some j \<longleftrightarrow> (\<exists>s r. V j = Some s \<and> ks_registration s = Some r \<and> rg_interest r = i)" for i j
    using assms(1) by (simp add: regs_ok_def)
  show k: "I (rg_interest r) = Some k" unfolding iff using assms(2,3) by auto
  have other: "rg_interest r' \<noteq> rg_interest r" if "V j = Some s'" "ks_registration s' = Some r'" "j \<noteq> k" for j s' r'
  proof
    assume "rg_interest r' = rg_interest r"
    then have "I (rg_interest r) = Some j" unfolding iff using that by auto
    then show False using k that(3) by simp
  qed
  have own: "i = rg_interest r" if "I i = Some k" for i using that assms(2,3) unfolding iff by auto
  show "regs_ok (V(k \<mapsto> s')) (I(rg_interest r := None))" if "ks_registration s' = None"
    using that other own unfolding regs_ok_def by (auto simp: iff)
  show "regs_ok (V(k := None)) (I(rg_interest r := None))"
    using other own unfolding regs_ok_def by (auto simp: iff)
qed

lemma regs_installed:
  assumes "regs_ok V I" "V k = Some s" "ks_registration s = None" "I (rg_interest r) = None" "ks_registration s' = Some r"
  shows "regs_ok (V(k \<mapsto> s')) (I(rg_interest r \<mapsto> k))"
proof -
  have iff: "I i = Some j \<longleftrightarrow> (\<exists>s r. V j = Some s \<and> ks_registration s = Some r \<and> rg_interest r = i)" for i j
    using assms(1) by (simp add: regs_ok_def)
  have "rg_interest r' \<noteq> rg_interest r" if "V j = Some s0" "ks_registration s0 = Some r'" for j s0 r'
  proof
    assume "rg_interest r' = rg_interest r"
    then have "I (rg_interest r) = Some j" unfolding iff using that by auto
    then show False using assms(4) by simp
  qed
  moreover have "I i \<noteq> Some k" for i using assms(2,3) unfolding iff by auto
  ultimately show ?thesis using assms(5) unfolding regs_ok_def by (auto simp: iff)
qed

lemma armed_less: "armed I F es \<Longrightarrow> armed (I(i := None)) F es"
  by (auto simp: armed_def)

lemma armed_delete: "armed I F es \<Longrightarrow> armed (I(i := None)) (F(i := None)) es"
  by (auto simp: armed_def)

lemma armed_install: "armed I F es \<Longrightarrow> armed (I(i \<mapsto> k)) (F(i \<mapsto> k)) es"
  by (auto simp: armed_def)

subsection \<open>Changing one slot\<close>

lemma state_ok_more: "kq_state_ok reg job f g (Some (w, b)) st \<Longrightarrow> (b \<longrightarrow> b') \<Longrightarrow> kq_state_ok reg job f g (Some (w, b')) st"
  by (induction reg job f g "Some (w, b)" st rule: kq_state_ok.induct) auto

lemma slot_ok_more:
  assumes "\<And>w n. x = Some (w, n) \<Longrightarrow> n \<le> length L" "kq_slot_ok job f g (woken L x) slot"
  shows "kq_slot_ok job f g (woken (L @ X) x) slot"
proof (cases x)
  case None
  then show ?thesis using assms(2) by (simp add: woken_def)
next
  case (Some wn)
  obtain w n where x: "x = Some (w, n)" using Some by (cases wn) auto
  show ?thesis
  proof (cases slot)
    case (Some s)
    have "kq_state_ok (ks_registration s \<noteq> None) job f g (Some (w, KWake w \<in> set (drop n L))) (ks_state s)"
      using assms(2) x Some by (simp add: kq_slot_ok_def woken_def)
    then have "kq_state_ok (ks_registration s \<noteq> None) job f g (Some (w, KWake w \<in> set (drop n (L @ X)))) (ks_state s)"
      by (rule state_ok_more) simp
    then show ?thesis using x Some by (simp add: kq_slot_ok_def woken_def)
  qed (use assms(2) in \<open>simp add: kq_slot_ok_def\<close>)
qed

lemma kq_update:
  assumes inv: "kq_inv F g wk done es ds q" and t: "op_inv (kq_ops q')" "op_get (kq_ops q') = (op_get (kq_ops q))(k := slot)"
    and regs: "regs_ok ((op_get (kq_ops q))(k := slot)) (kq_interests q')" "armed (kq_interests q') (kq_filters q') es'"
    and jobs: "distinct (under_way q' (kq_done q' @ done'))"
      "\<And>j. j \<noteq> k \<Longrightarrow> (j \<in> set (under_way q' (kq_done q' @ done'))) = (j \<in> set (under_way q (kq_done q @ done)))"
    and slot: "kq_slot_ok (k \<in> set (under_way q' (kq_done q' @ done'))) (F' k) (g' k) (woken (kq_ran q' @ ds') (wk' k)) slot"
    and same: "\<And>j. j \<noteq> k \<Longrightarrow> F' j = F j \<and> g' j = g j \<and> wk' j = wk j"
    and log: "kq_ran q' @ ds' = kq_ran q @ ds @ extra" "length (kq_ran q) \<le> length (kq_ran q')"
    and wkk: "\<And>w n. wk' k = Some (w, n) \<Longrightarrow> n \<le> length (kq_ran q')"
  shows "kq_inv F' g' wk' done' es' ds' q'"
proof -
  note i = kq_invD [OF inv]
  have "kq_slot_ok (j \<in> set (under_way q' (kq_done q' @ done'))) (F' j) (g' j) (woken (kq_ran q' @ ds') (wk' j)) (op_get (kq_ops q') j)" for j
  proof (cases "j = k")
    case False
    have "\<And>w n. wk j = Some (w, n) \<Longrightarrow> n \<le> length (kq_ran q @ ds)" using i(6) by fastforce
    from slot_ok_more [OF this i(5), where X = extra] show ?thesis using False same jobs(2) log(1) t(2) by simp
  qed (use slot t in simp)
  moreover have "n \<le> length (kq_ran q')" if "wk' j = Some (w, n)" for j w n
    using that wkk same i(6) [of j w n] log(2) by (cases "j = k") auto
  ultimately show ?thesis using t regs jobs(1) by (simp add: kq_inv_def slots_ok_def)
qed

lemma kq_fields [simp]:
  "kq_interests (kq_set k s q) = kq_interests q" "kq_done (kq_set k s q) = kq_done q" "kq_filters (kq_set k s q) = kq_filters q"
  "kq_jobs (kq_set k s q) = kq_jobs q" "kq_ran (kq_set k s q) = kq_ran q" "kq_events (kq_set k s q) = kq_events q"
  "kq_shutting_down (kq_set k s q) = kq_shutting_down q"
  "kq_interests (kq_set_state k st q) = kq_interests q" "kq_done (kq_set_state k st q) = kq_done q" "kq_filters (kq_set_state k st q) = kq_filters q"
  "kq_jobs (kq_set_state k st q) = kq_jobs q" "kq_ran (kq_set_state k st q) = kq_ran q" "kq_events (kq_set_state k st q) = kq_events q"
  "kq_shutting_down (kq_set_state k st q) = kq_shutting_down q"
  by (simp_all add: kq_set_def kq_set_state_def)

lemma under_way_same: "kq_jobs q' = kq_jobs q \<Longrightarrow> under_way q' ds = under_way q ds"
  by (simp add: under_way_def)

lemma kq_set_get:
  assumes "op_inv (kq_ops q)" "op_get (kq_ops q) k = Some s"
  shows "op_inv (kq_ops (kq_set k s' q))" "op_get (kq_ops (kq_set k s' q)) = (op_get (kq_ops q))(k \<mapsto> s')"
    "op_inv (kq_ops (kq_set_state k st q))" "op_get (kq_ops (kq_set_state k st q)) = (op_get (kq_ops q))(k \<mapsto> s\<lparr>ks_state := st\<rparr>)"
  using ops.upd_inv [OF assms(1)] ops.upd_some [OF assms] by (auto simp: kq_set_def kq_set_state_def)

lemma kq_remove_get:
  assumes "op_inv (kq_ops q)"
  obtains t where "kq_remove k q = Some (q\<lparr>kq_ops := t\<rparr>)" "op_inv t" "op_get t = (op_get (kq_ops q))(k := None)"
proof -
  obtain t where "op_remove (kq_ops q) k = Some (op_get (kq_ops q) k, t)" "op_inv t" "op_get t = (op_get (kq_ops q))(k := None)"
    by (rule ops.remE [OF assms])
  then show thesis by (intro that) (simp_all add: kq_remove_def)
qed

text \<open>A slot whose registration does not change.\<close>

lemma inv_change:
  assumes inv: "kq_inv F g wk done es ds q" and s: "op_get (kq_ops q) k = Some s"
    and t: "op_inv (kq_ops q')" "op_get (kq_ops q') = (op_get (kq_ops q))(k \<mapsto> s\<lparr>ks_state := st\<rparr>)"
    and same: "kq_interests q' = kq_interests q" "kq_filters q' = kq_filters q" "kq_jobs q' = kq_jobs q" "kq_done q' = kq_done q" "kq_ran q' = kq_ran q"
    and ok: "kq_state_ok (ks_registration s \<noteq> None) (k \<in> set (under_way q (kq_done q @ done))) (F k) (g k) (woken (kq_ran q @ ds) (wk k)) st"
  shows "kq_inv F g wk done es ds q'"
proof -
  note i = kq_invD [OF inv]
  show ?thesis
    by (rule kq_update [OF inv t(1,2), where extra = "[]"])
       (use ok i same under_way_same [OF same(3)] regs_state [OF i(3) s] in \<open>simp_all add: kq_slot_ok_def\<close>)
qed

lemma inv_set_state:
  assumes inv: "kq_inv F g wk done es ds q" and s: "op_get (kq_ops q) k = Some s"
    and ok: "kq_state_ok (ks_registration s \<noteq> None) (k \<in> set (under_way q (kq_done q @ done))) (F k) (g k) (woken (kq_ran q @ ds) (wk k)) st"
  shows "kq_inv F g wk done es ds (kq_set_state k st q)"
  by (rule inv_change [OF inv s kq_set_get(3,4) [OF kq_invD(1) [OF inv] s]]) (use ok in simp_all)

lemma kq_inv_removed:
  assumes inv: "kq_inv F g wk done es ds q" and t: "op_inv t" "op_get t = (op_get (kq_ops q))(k := None)"
    and free: "\<And>s. op_get (kq_ops q) k = Some s \<Longrightarrow> ks_registration s = None" and job: "k \<notin> set (under_way q (kq_done q @ done))"
  shows "kq_inv (F(k := None)) g wk done es ds (q\<lparr>kq_ops := t\<rparr>)"
  by (rule kq_update [OF inv, of "q\<lparr>kq_ops := t\<rparr>" k None, where extra = "[]"])
     (use t job kq_invD [OF inv] regs_gone [OF kq_invD(3) [OF inv] free] in \<open>auto simp: kq_slot_ok_def under_way_def\<close>)

text \<open>\<^verbatim>\<open>take_registration\<close> of a waiting operation, together with deleting its filter.\<close>

lemma take_none: "op_get (kq_ops q) k = Some s \<Longrightarrow> ks_registration s = None \<Longrightarrow> take_registration k q = (None, q)"
  by (simp add: take_registration_def)

lemma take_some:
  assumes "regs_ok (op_get (kq_ops q)) (kq_interests q)" "op_get (kq_ops q) k = Some s" "ks_registration s = Some r"
  shows "take_registration k q = (Some r, kq_set k (s\<lparr>ks_registration := None\<rparr>) (q\<lparr>kq_interests := (kq_interests q)(rg_interest r := None)\<rparr>))"
  using regs_taken(1) [OF assms] assms(2,3) by (simp add: take_registration_def)

subsection \<open>Cancellation\<close>

lemma cancel_inv:
  assumes inv: "kq_inv F g wk [] [] [] q"
  shows "kq_inv F g wk [] [] [] (kq_cancel_op k q)"
proof (cases "op_get (kq_ops q) k")
  case None
  then show ?thesis using inv by (simp add: kq_cancel_op_def)
next
  case (Some s)
  note i = kq_invD [OF inv]
  have ok: "kq_state_ok (ks_registration s \<noteq> None) (k \<in> set (under_way q (kq_done q))) (F k) (g k) (woken (kq_ran q) (wk k)) (ks_state s)"
    using i(5) [of k] Some by (simp add: kq_slot_ok_def)
  show ?thesis
  proof (cases "\<exists>w r. ks_state s = KWaiting w \<and> ks_registration s = Some r")
    case True
    then obtain w r where w: "ks_state s = KWaiting w" "ks_registration s = Some r" by blast
    let ?s = "s\<lparr>ks_state := KCompleted canceled_completion, ks_registration := None\<rparr>"
    let ?q0 = "kq_set_state k KSubmitted q"
    note g0 = kq_set_get(3,4) [OF i(1) Some, of KSubmitted]
    have g0k: "op_get (kq_ops ?q0) k = Some (s\<lparr>ks_state := KSubmitted\<rparr>)" using g0 by simp
    have r0: "regs_ok (op_get (kq_ops ?q0)) (kq_interests ?q0)" using regs_state [OF i(3) Some] g0(2) by simp
    let ?q1 = "kq_set k (s\<lparr>ks_state := KSubmitted, ks_registration := None\<rparr>) (?q0\<lparr>kq_interests := (kq_interests q)(rg_interest r := None)\<rparr>)"
    have t: "take_registration k ?q0 = (Some r, ?q1)" using take_some [OF r0 g0k] w(2) by simp
    let ?q2 = "kq_set_state k (KCompleted canceled_completion) (kernel_delete (rg_interest r) ?q1)"
    have g1: "op_inv (kq_ops ?q1)" "op_get (kq_ops ?q1) = (op_get (kq_ops q))(k \<mapsto> s\<lparr>ks_state := KSubmitted, ks_registration := None\<rparr>)"
      using kq_set_get(1,2) [of "?q0\<lparr>kq_interests := (kq_interests q)(rg_interest r := None)\<rparr>" k] g0 by auto
    have g2: "op_inv (kq_ops ?q2)" "op_get (kq_ops ?q2) = (op_get (kq_ops q))(k \<mapsto> ?s)"
      using kq_set_get(3,4) [of "kernel_delete (rg_interest r) ?q1" k] g1 by (auto simp: kernel_delete_def)
    obtain n where n: "wk k = Some (w, n)" using ok w by (auto simp: woken_def)
    have nle: "n \<le> length (kq_ran q)" "n \<le> Suc (length (kq_ran q))" using i(6) [OF n] by simp_all
    have "kq_inv F g wk [] [] [] (?q2\<lparr>kq_ran := kq_ran q @ [KWake w]\<rparr>)"
      by (rule kq_update [OF inv, of _ k "Some ?s" "[]" "[]" F g "[]" wk "[KWake w]"])
         (use g2 i(1,2) ok w n nle regs_taken(2) [OF i(3) Some w(2), of ?s] armed_delete [OF i(4)]
          in \<open>auto simp: kq_slot_ok_def under_way_def kernel_delete_def woken_def\<close>)
    then show ?thesis using Some w t by (simp add: kq_cancel_op_def kernel_delete_def)
  next
    case False
    show ?thesis
    proof (cases "ks_state s")
      case (KWaiting w)
      then have r: "ks_registration s = None" using False by auto
      note g0 = kq_set_get(3,4) [OF i(1) Some, of KSubmitted]
      have t: "take_registration k (kq_set_state k KSubmitted q) = (None, kq_set_state k KSubmitted q)"
        using take_none [of "kq_set_state k KSubmitted q" k] g0 r by simp
      have "kq_inv F g wk [] [] [] (kq_set_state k (KCanceling (KWaitingObserver w)) (kq_set_state k KSubmitted q))"
        by (rule inv_change [OF inv Some, where st = "KCanceling (KWaitingObserver w)"])
           (use kq_set_get(3,4) [OF g0(1), of k] g0(2) ok KWaiting r in auto)
      then show ?thesis using KWaiting t Some by (simp add: kq_cancel_op_def)
    qed (use inv_set_state [OF inv Some] ok inv Some in \<open>auto simp: kq_cancel_op_def split: kq_observer.splits\<close>)
  qed
qed

subsection \<open>Submission\<close>

lemma submit_inv:
  assumes inv: "kq_inv (kp_ops p) (kp_payload p) (kp_waker p) [] [] [] (kp_kq p)"
  shows "\<exists>p'. kq_submit_act d p = Some p' \<and> kq_inv (kp_ops p') (kp_payload p') (kp_waker p') [] [] [] (kp_kq p')"
proof (cases "kq_shutting_down (kp_kq p)")
  case True
  then show ?thesis using inv by (simp add: kq_submit_act_def kq_submit_op_def)
next
  case False
  let ?q = "kp_kq p" and ?s = "\<lparr>ks_state = KSubmitted, ks_registration = None\<rparr>"
  note i = kq_invD [OF inv]
  from i(1) show ?thesis
  proof (cases rule: ops.insE [where v = ?s])
    case (full e)
    then show ?thesis using inv False by (simp add: kq_submit_act_def kq_submit_op_def)
  next
    case (fresh k t)
    have "k \<notin> set (under_way ?q (kq_done ?q))" using i(5) [of k] fresh by (simp add: kq_slot_ok_def)
    then have "kq_inv ((kp_ops p)(k \<mapsto> d)) ((kp_payload p)(k := d)) ((kp_waker p)(k := None)) [] [] [] (?q\<lparr>kq_ops := t\<rparr>)"
      by (intro kq_update [OF inv, of "?q\<lparr>kq_ops := t\<rparr>" k "Some ?s" "[]" "[]" _ _ "[]" _ "[]"])
         (use fresh i regs_fresh [OF i(3) fresh(3), of ?s] in \<open>auto simp: kq_slot_ok_def under_way_def woken_def\<close>)
    then show ?thesis using fresh False by (simp add: kq_submit_act_def kq_submit_op_def)
  qed
qed

subsection \<open>Polling\<close>

lemma poll_pending:
  assumes inv: "kq_inv F g wk [] [] [] q" and s: "op_get (kq_ops q) k = Some s" and reg: "ks_registration s' = ks_registration s"
    and t: "op_inv (kq_ops q')" "op_get (kq_ops q') = (op_get (kq_ops q))(k \<mapsto> s')"
    and same: "kq_interests q' = kq_interests q" "kq_filters q' = kq_filters q" "kq_done q' = kq_done q" "kq_ran q' = kq_ran q"
    and jobs: "kq_jobs q' = kq_jobs q @ new" "new \<noteq> [] \<Longrightarrow> new = [k] \<and> k \<notin> set (under_way q (kq_done q))"
    and ok: "kq_state_ok (ks_registration s \<noteq> None) (k \<in> set (under_way q' (kq_done q))) (F k) (g k) (Some (w, False)) (ks_state s')"
  shows "kq_inv F g (wk(k \<mapsto> (w, length (kq_ran q)))) [] [] [] q'"
proof -
  note i = kq_invD [OF inv]
  have "distinct (under_way q' (kq_done q'))" using i(2) jobs same by (cases "new = []") (auto simp: under_way_def)
  moreover have "j \<noteq> k \<Longrightarrow> (j \<in> set (under_way q' (kq_done q'))) = (j \<in> set (under_way q (kq_done q)))" for j
    using jobs same by (cases "new = []") (auto simp: under_way_def)
  ultimately show ?thesis
    by (intro kq_update [OF inv t, where extra = "[]"])
       (use i(3,4,6) ok reg same regs_state [OF i(3) s reg] in \<open>simp_all add: kq_slot_ok_def woken_def\<close>)
qed

lemma poll_register:
  assumes inv: "kq_inv F g wk [] [] [] q" and s: "op_get (kq_ops q) k = Some s" "ks_registration s = None" "k \<notin> set (under_way q (kq_done q))"
    and f: "F k = Some (g k)" and free: "kq_interests q (rg_interest r) = None"
  shows "\<exists>q1. install_registration k r (kernel_arm (rg_interest r) k q) = Some q1 \<and> kq_ran q1 = kq_ran q \<and>
    kq_inv F g (wk(k \<mapsto> (w, length (kq_ran q)))) [] [] [] (kq_set_state k (KWaiting w) q1)"
proof -
  note i = kq_invD [OF inv]
  let ?s = "s\<lparr>ks_registration := Some r\<rparr>"
  let ?q0 = "(kernel_arm (rg_interest r) k q)\<lparr>kq_interests := (kq_interests q)(rg_interest r \<mapsto> k)\<rparr>"
  let ?q1 = "kq_set k ?s ?q0"
  have ins: "install_registration k r (kernel_arm (rg_interest r) k q) = Some ?q1"
    using s by (simp add: install_registration_def kernel_arm_def)
  have g1: "op_inv (kq_ops ?q1)" "op_get (kq_ops ?q1) = (op_get (kq_ops q))(k \<mapsto> ?s)"
    using kq_set_get(1,2) [of ?q0 k s ?s] i(1) s by (simp_all add: kernel_arm_def)
  have g2: "op_inv (kq_ops (kq_set_state k (KWaiting w) ?q1))"
    "op_get (kq_ops (kq_set_state k (KWaiting w) ?q1)) = (op_get (kq_ops q))(k \<mapsto> ?s\<lparr>ks_state := KWaiting w\<rparr>)"
    using kq_set_get(3,4) [of ?q1 k ?s] g1 by simp_all
  have "kq_inv F g (wk(k \<mapsto> (w, length (kq_ran q)))) [] [] [] (kq_set_state k (KWaiting w) ?q1)"
    by (rule kq_update [OF inv g2, where extra = "[]"])
       (use i(2,4,6) s f regs_installed [OF i(3) s(1,2) free, of "?s\<lparr>ks_state := KWaiting w\<rparr>"] armed_install [OF i(4)]
        in \<open>auto simp: kq_slot_ok_def under_way_def kernel_arm_def woken_def\<close>)
  then show ?thesis using ins by (simp add: kernel_arm_def)
qed

lemma poll_inv:
  assumes inv: "kq_inv F g wk [] [] [] q" and f: "F k = Some d"
  shows "\<exists>r q'. kq_poll_op att arm pushed w k q = Some (r, q') \<and>
    (case r of Pending \<Rightarrow> kq_inv F g (wk(k \<mapsto> (w, length (kq_ran q')))) [] [] [] q' | Ready c \<Rightarrow> kq_inv (F(k := None)) g wk [] [] [] q')"
proof -
  note i = kq_invD [OF inv]
  obtain s where s: "op_get (kq_ops q) k = Some s" using i(5) [of k] f by (cases "op_get (kq_ops q) k") (auto simp: kq_slot_ok_def)
  have ok: "kq_state_ok (ks_registration s \<noteq> None) (k \<in> set (under_way q (kq_done q))) (F k) (g k) (woken (kq_ran q) (wk k)) (ks_state s)"
    using i(5) [of k] s by (simp add: kq_slot_ok_def)
  have gone: "\<exists>q'. kq_remove k q = Some q' \<and> kq_inv (F(k := None)) g wk [] [] [] q'"
    if r: "ks_registration s = None" "k \<notin> set (under_way q (kq_done q))"
  proof -
    obtain t where "kq_remove k q = Some (q\<lparr>kq_ops := t\<rparr>)" "op_inv t" "op_get t = (op_get (kq_ops q))(k := None)"
      by (rule kq_remove_get [OF i(1)])
    then show ?thesis using r s kq_inv_removed [OF inv, of t k] by simp
  qed
  have set: "kq_inv F g (wk(k \<mapsto> (w, length (kq_ran q)))) [] [] [] (kq_set_state k st q)"
    if "kq_state_ok (ks_registration s \<noteq> None) (k \<in> set (under_way q (kq_done q))) (F k) (g k) (Some (w, False)) st" for st
    by (rule poll_pending [OF inv s, of "s\<lparr>ks_state := st\<rparr>", where new = "[]"])
       (use that kq_set_get(3,4) [OF i(1) s] in \<open>auto simp: under_way_def\<close>)
  show ?thesis
  proof (cases "ks_state s = KSubmitted \<or> ks_state s = KReady")
    case True
    then have free: "ks_registration s = None" "k \<notin> set (under_way q (kq_done q))" "F k = Some (g k)" using ok by auto
    show ?thesis
    proof (cases att)
      case (AttemptReady c)
      then show ?thesis using True s gone [OF free(1,2)] by (auto simp: kq_poll_op_def)
    next
      case (AttemptRegister ii a)
      then show ?thesis using True s gone [OF free(1,2)] poll_register [OF inv s free, of "\<lparr>rg_interest = ii, rg_on_ready = a\<rparr>" w]
        by (auto simp: kq_poll_op_def has_interest_def split: sum.splits)
    next
      case AttemptBlocking
      let ?q = "(kq_set_state k (KWaiting w) q)\<lparr>kq_jobs := kq_jobs q @ [k]\<rparr>"
      have job: "kq_inv F g (wk(k \<mapsto> (w, length (kq_ran q)))) [] [] [] ?q"
        by (rule poll_pending [OF inv s, of "s\<lparr>ks_state := KWaiting w\<rparr>", where new = "[k]"])
           (use free kq_set_get(3,4) [OF i(1) s] in \<open>auto simp: under_way_def\<close>)
      have q1: "op_inv (kq_ops (kq_set_state k (KWaiting w) q))" "op_get (kq_ops (kq_set_state k (KWaiting w) q)) = (op_get (kq_ops q))(k \<mapsto> s\<lparr>ks_state := KWaiting w\<rparr>)"
        using kq_set_get(3,4) [OF i(1) s] by auto
      obtain t where t: "kq_remove k (kq_set_state k (KWaiting w) q) = Some ((kq_set_state k (KWaiting w) q)\<lparr>kq_ops := t\<rparr>)" "op_inv t"
        "op_get t = (op_get (kq_ops q))(k := None)" using kq_remove_get [OF q1(1), of k] q1(2) by auto
      have eq: "(kq_set_state k (KWaiting w) q)\<lparr>kq_ops := t\<rparr> = q\<lparr>kq_ops := t\<rparr>" by (simp add: kq_set_state_def)
      have rm: "kq_inv (F(k := None)) g wk [] [] [] ((kq_set_state k (KWaiting w) q)\<lparr>kq_ops := t\<rparr>)"
        unfolding eq using kq_inv_removed [OF inv t(2,3)] free s by simp
      show ?thesis using True s AttemptBlocking job t(1) rm by (cases pushed) (auto simp: kq_poll_op_def)
    qed
  next
    case False
    show ?thesis
    proof (cases "ks_state s")
      case (KCompleted c)
      then show ?thesis using s ok gone by (auto simp: kq_poll_op_def Let_def)
    next
      case (KCanceling ob)
      then show ?thesis using s ok f set [of "KCanceling (KWaitingObserver w)"] by (cases ob) (auto simp: kq_poll_op_def Let_def)
    qed (use False s ok f set [of "KWaiting w"] in \<open>auto simp: kq_poll_op_def Let_def\<close>)
  qed
qed

subsection \<open>Dropping\<close>

lemma remove_inv:
  assumes inv: "kq_inv F g wk [] [] [] q" and f: "F k = Some d"
    and canc: "\<And>s. op_get (kq_ops q) k = Some s \<Longrightarrow> ks_registration s = None"
  shows "\<exists>c data q'. kq_remove_op k (Some d) q = Some (c, data, q') \<and> (c \<noteq> None \<longrightarrow> data = Some d) \<and> kq_inv (F(k := None)) g wk [] [] [] q'"
proof -
  note i = kq_invD [OF inv]
  obtain s where s: "op_get (kq_ops q) k = Some s" using i(5) [of k] f by (cases "op_get (kq_ops q) k") (auto simp: kq_slot_ok_def)
  have reg: "ks_registration s = None" by (rule canc [OF s])
  have ok: "kq_state_ok False (k \<in> set (under_way q (kq_done q))) (F k) (g k) (woken (kq_ran q) (wk k)) (ks_state s)"
    using i(5) [of k] s reg by (simp add: kq_slot_ok_def)
  obtain t where t: "kq_remove k q = Some (q\<lparr>kq_ops := t\<rparr>)" "op_inv t" "op_get t = (op_get (kq_ops q))(k := None)"
    by (rule kq_remove_get [OF i(1)])
  have gone: "kq_inv (F(k := None)) g wk [] [] [] (q\<lparr>kq_ops := t\<rparr>)" if "k \<notin> set (under_way q (kq_done q))"
    using that reg s kq_inv_removed [OF inv t(2,3)] by simp
  have det: "kq_inv (F(k := None)) g wk [] [] [] (kq_set_state k st q)"
    if "kq_state_ok False (k \<in> set (under_way q (kq_done q))) None (g k) (woken (kq_ran q) (wk k)) st" for st
    by (rule kq_update [OF inv kq_set_get(3,4) [OF i(1) s], where extra = "[]"])
       (use that reg i regs_state [OF i(3) s] in \<open>auto simp: kq_slot_ok_def under_way_def\<close>)
  show ?thesis
  proof (cases "ks_state s")
    case (KWaiting w)
    then show ?thesis using s f ok det [of "KDetached d"] take_none [OF s reg] by (simp add: kq_remove_op_def)
  next
    case (KCanceling ob)
    then show ?thesis using s f ok det [of "KCanceling (KDetachedObserver d)"] take_none [OF s reg]
      by (cases ob) (simp_all add: kq_remove_op_def)
  qed (use s f ok t(1) gone in \<open>auto simp: kq_remove_op_def\<close>)
qed

lemma cancel_unregisters:
  assumes "kq_inv F g wk [] [] [] q" "op_get (kq_ops (kq_cancel_op k q)) k = Some s"
  shows "ks_registration s = None"
proof -
  have inv: "kq_inv F g wk [] [] [] (kq_cancel_op k q)" by (rule cancel_inv [OF assms(1)])
  have "\<not> (\<exists>w. ks_state s = KWaiting w)"
  proof (cases "op_get (kq_ops q) k")
    case None
    then show ?thesis using assms(2) by (simp add: kq_cancel_op_def)
  next
    case (Some s0)
    note op = kq_invD(1) [OF assms(1)]
    have set: "op_get (kq_ops (kq_set_state k st v)) k = Some s1 \<Longrightarrow> ks_state s1 = st" if "op_inv (kq_ops v)" for st v s1
      using that ops.upd_some [OF that] ops.upd_none [OF that] by (cases "op_get (kq_ops v) k") (auto simp: kq_set_state_def)
    have tk: "op_inv (kq_ops (snd (take_registration k v)))" if "op_inv (kq_ops v)" for v
      using ops.upd_inv [OF that] by (auto simp: take_registration_def kq_set_def that split: option.splits)
    have tk2: "op_inv (kq_ops v')" if "take_registration k (kq_set_state k KSubmitted q) = (x, v')" for x v'
      using tk [OF kq_set_get(3) [OF op Some, of KSubmitted]] that by simp
    show ?thesis
    proof (cases "ks_state s0")
      case (KWaiting w)
      obtain x v where v: "take_registration k (kq_set_state k KSubmitted q) = (x, v)" by (cases "take_registration k (kq_set_state k KSubmitted q)")
      show ?thesis using assms(2) Some KWaiting v tk2 [OF v] set [of v] set [of "kernel_delete _ v"]
        by (cases x) (auto simp: kq_cancel_op_def Let_def kernel_delete_def)
    qed (use assms(2) Some set [OF op] in \<open>auto simp: kq_cancel_op_def\<close>)
  qed
  then show ?thesis using kq_invD(5) [OF inv, of k] assms(2)
    by (cases "ks_state s") (auto simp: kq_slot_ok_def elim!: kq_state_ok.elims)
qed

lemma kq_drop_inv:
  assumes inv: "kq_inv F g wk [] [] [] q" and f: "F k = Some d"
  shows "\<exists>out q'. kq_op_drop k (Some d) q = Some (out, q') \<and> kq_inv (F(k := None)) g wk [] [] [] q'"
proof -
  obtain c data q' where "kq_remove_op k (Some d) (kq_cancel_op k q) = Some (c, data, q')" "kq_inv (F(k := None)) g wk [] [] [] q'"
    using remove_inv [OF cancel_inv [OF inv, of k] f] cancel_unregisters [OF inv, of k] by blast
  then show ?thesis by (simp add: kq_op_drop_def)
qed

subsection \<open>Jobs\<close>

lemma guard_inv:
  assumes inv: "kq_inv F g wk [] [] [] q"
  shows "kq_inv F g wk [] [] [] (guard_send k c q)"
proof (cases "k \<in> set (kq_jobs q)")
  case True
  have d: "distinct (kq_jobs q)" using kq_invD(2) [OF inv] by (simp add: under_way_def)
  have s: "set (remove1 k (kq_jobs q)) = set (kq_jobs q) - {k}" using d by simp
  have "set (under_way (guard_send k c q) (kq_done (guard_send k c q))) = set (under_way q (kq_done q))"
    "distinct (under_way (guard_send k c q) (kq_done (guard_send k c q)))"
    using True kq_invD(2) [OF inv] s by (auto simp: under_way_def guard_send_def)
  then show ?thesis using inv True by (simp add: kq_inv_def guard_send_def)
qed (use inv in \<open>simp add: guard_send_def\<close>)

section \<open>A turn\<close>

text \<open>What processing completions and events leaves alone.\<close>

definition turn_same :: "('w, 'd) kqueue \<Rightarrow> ('w, 'd) kqueue \<Rightarrow> bool" where
  "turn_same q q' \<longleftrightarrow> kq_ran q' = kq_ran q \<and> kq_done q' = kq_done q \<and> kq_jobs q' = kq_jobs q \<and> kq_events q' = kq_events q \<and>
     kq_shutting_down q' = kq_shutting_down q \<and> kq_filters q' = kq_filters q \<and> kq_interests q' \<subseteq>\<^sub>m kq_interests q"

lemma turn_same_refl [simp]: "turn_same q q"
  by (simp add: turn_same_def)

lemma turn_same_trans: "turn_same p q \<Longrightarrow> turn_same q r \<Longrightarrow> turn_same p r"
  by (auto simp: turn_same_def elim: map_le_trans)

lemma complete_inv:
  assumes inv: "kq_inv F g wk ((k, c) # rest) es ds q" and s: "op_get (kq_ops q) k = Some s"
  shows "\<exists>ds1 q'. finish_slot k (kq_complete c (ks_state s)) q = Some (ds1, q') \<and> kq_inv F g wk rest es (ds @ ds1) q' \<and> turn_same q q'"
proof -
  note i = kq_invD [OF inv]
  have job: "k \<in> set (under_way q (kq_done q @ (k, c) # rest))" "k \<notin> set (under_way q (kq_done q @ rest))"
    "distinct (under_way q (kq_done q @ rest))" using i(2) by (auto simp: under_way_def)
  have other: "j \<noteq> k \<Longrightarrow> (j \<in> set (under_way q (kq_done q @ rest))) = (j \<in> set (under_way q (kq_done q @ (k, c) # rest)))" for j
    by (auto simp: under_way_def)
  have ok: "kq_state_ok (ks_registration s \<noteq> None) True (F k) (g k) (woken (kq_ran q @ ds) (wk k)) (ks_state s)"
    using i(5) [of k] s job(1) by (simp add: kq_slot_ok_def)
  have kept: "kq_inv F g wk rest es (ds @ [KWake w]) (kq_set_state k (KCompleted c) q)"
    if w: "ks_registration s = None" "F k = Some (g k)" "woken (kq_ran q @ ds) (wk k) = Some (w, b)" for w b
  proof -
    obtain n where n: "wk k = Some (w, n)" using w(3) by (auto simp: woken_def)
    show ?thesis
      by (rule kq_update [OF inv kq_set_get(3,4) [OF i(1) s], where extra = "[KWake w]"])
         (use i(3,4) i(6) job other w n regs_state [OF i(3) s] under_way_same in
          \<open>auto simp: kq_slot_ok_def woken_def under_way_def dest: i(6)\<close>)
  qed
  have gone: "\<exists>q'. kq_remove k (kq_set_state k st q) = Some q' \<and> kq_inv F g wk rest es (ds @ X) q' \<and> turn_same q q'"
    if d: "ks_registration s = None" "F k = None" for X st
  proof -
    note g0 = kq_set_get(3,4) [OF i(1) s, of st]
    obtain t where t: "kq_remove k (kq_set_state k st q) = Some ((kq_set_state k st q)\<lparr>kq_ops := t\<rparr>)" "op_inv t" "op_get t = (op_get (kq_ops q))(k := None)"
      using kq_remove_get [OF g0(1), of k] g0(2) by auto
    have "kq_inv F g wk rest es (ds @ X) ((kq_set_state k st q)\<lparr>kq_ops := t\<rparr>)"
      by (rule kq_update [OF inv, of _ k None, where extra = X])
         (use t i(3,4) i(6) job other d s regs_gone [OF i(3), of k] in \<open>auto simp: kq_slot_ok_def under_way_def\<close>)
    then show ?thesis using t(1) by (auto simp: turn_same_def)
  qed
  show ?thesis
  proof (cases "ks_state s")
    case (KWaiting w)
    then show ?thesis using ok kept by (auto simp: finish_slot_def wakes_def turn_same_def)
  next
    case (KDetached d)
    then show ?thesis using ok gone by (auto simp: finish_slot_def wakes_def turn_same_def)
  next
    case (KCanceling ob)
    then show ?thesis using ok kept gone by (cases ob) (auto simp: finish_slot_def wakes_def turn_same_def)
  qed (use ok in auto)
qed

lemma drain_done_inv:
  assumes "kq_inv F g wk dn es ds q"
  shows "\<exists>ds1 q'. drain_done dn q = Some (ds1, q') \<and> kq_inv F g wk [] es (ds @ ds1) q' \<and> turn_same q q'"
  using assms
proof (induction dn arbitrary: q ds)
  case (Cons x rest)
  obtain k c where x: "x = (k, c)" by (cases x)
  have inv: "kq_inv F g wk ((k, c) # rest) es ds q" using Cons.prems x by simp
  have "k \<in> set (under_way q (kq_done q @ (k, c) # rest))" by (simp add: under_way_def)
  then obtain s where s: "op_get (kq_ops q) k = Some s" using kq_invD(5) [OF inv, of k]
    by (cases "op_get (kq_ops q) k") (auto simp: kq_slot_ok_def)
  obtain ds1 q1 where q1: "finish_slot k (kq_complete c (ks_state s)) q = Some (ds1, q1)" "kq_inv F g wk rest es (ds @ ds1) q1" "turn_same q q1"
    using complete_inv [OF inv s] by blast
  obtain ds2 q2 where q2: "drain_done rest q1 = Some (ds2, q2)" "kq_inv F g wk [] es ((ds @ ds1) @ ds2) q2" "turn_same q1 q2"
    using Cons.IH [OF q1(2)] by blast
  show ?case using x s q1(1) q2(1,2) turn_same_trans [OF q1(3) q2(3)] by auto
qed auto

lemma mark_ready_inv:
  assumes inv: "kq_inv F g wk [] es ds q" and s: "op_get (kq_ops q) k = Some s" "ks_registration s = Some r" "rg_interest r = i"
    and es': "armed ((kq_interests q)(i := None)) (kq_filters q) es'"
  shows "\<exists>ds1 q'. mark_ready err k i q = Some (ds1, q') \<and> kq_inv F g wk [] es' (ds @ ds1) q' \<and> turn_same q q'"
proof -
  note i = kq_invD [OF inv]
  let ?q0 = "q\<lparr>kq_interests := (kq_interests q)(i := None)\<rparr>" and ?s = "s\<lparr>ks_registration := None\<rparr>"
  let ?q1 = "kq_set k ?s ?q0"
  have tk: "take_registration k q = (Some r, ?q1)" using take_some [OF i(3) s(1,2)] s(3) by simp
  have g1: "op_inv (kq_ops ?q1)" "op_get (kq_ops ?q1) = (op_get (kq_ops q))(k \<mapsto> ?s)"
    using kq_set_get(1,2) [of ?q0 k s ?s] i(1) s(1) by simp_all
  have ok: "kq_state_ok True (k \<in> set (under_way q (kq_done q))) (F k) (g k) (woken (kq_ran q @ ds) (wk k)) (ks_state s)"
    using i(5) [of k] s by (simp add: kq_slot_ok_def)
  then obtain w where w: "ks_state s = KWaiting w" "k \<notin> set (under_way q (kq_done q))" "F k = Some (g k)"
    by (cases "ks_state s") (auto elim: kq_state_ok.elims)
  obtain n where n: "wk k = Some (w, n)" using ok w(1) by (auto simp: woken_def)
  have kept: "kq_inv F g wk [] es' (ds @ [KWake w]) (kq_set_state k st ?q1)"
    if st: "kq_state_ok False False (Some (g k)) (g k) (Some (w, True)) st" for st
  proof -
    note g2 = kq_set_get(3,4) [OF g1(1), of k ?s st]
    have nle: "n \<le> length (kq_ran q)" using i(6) [OF n] .
    have up: "op_get (kq_ops (kq_set_state k st ?q1)) = (op_get (kq_ops q))(k \<mapsto> ?s\<lparr>ks_state := st\<rparr>)" using g2 g1 by simp
    show ?thesis
      by (rule kq_update [OF inv _ up, where extra = "[KWake w]"])
         (use i(2) nle w n st g1 g2 es' regs_taken(2) [OF i(3) s(1,2)] s(3) in
          \<open>auto simp: kq_slot_ok_def woken_def under_way_def\<close>)
  qed
  have same: "turn_same q (kq_set_state k st ?q1)" for st by (simp add: turn_same_def map_le_def)
  show ?thesis using tk s w(1) g1(2) kept same
    by (cases "rg_on_ready r") (auto simp: mark_ready_def finish_slot_def wakes_def)
qed

lemma current_interest:
  assumes "kq_inv F g wk done es ds q"
  shows "is_current_interest k i q \<longleftrightarrow> kq_interests q i = Some k"
  using kq_invD(3) [OF assms] unfolding is_current_interest_def regs_ok_def by (auto split: option.splits)

lemma mark_interest_inv:
  assumes inv: "kq_inv F g wk [] es ds q" and k: "kq_interests q i = Some k" and es': "armed ((kq_interests q)(i := None)) (kq_filters q) es'"
  shows "\<exists>ds1 q'. mark_ready err k i q = Some (ds1, q') \<and> kq_inv F g wk [] es' (ds @ ds1) q' \<and> turn_same q q'"
proof -
  obtain s r where "op_get (kq_ops q) k = Some s" "ks_registration s = Some r" "rg_interest r = i"
    using kq_invD(3) [OF inv] k unfolding regs_ok_def by blast
  then show ?thesis by (rule mark_ready_inv [OF inv _ _ _ es'])
qed

lemma dispatch_inv:
  assumes "kq_inv F g wk [] es ds q"
  shows "\<exists>ds1 q'. dispatch_events err es q = Some (ds1, q') \<and> kq_inv F g wk [] [] (ds @ ds1) q' \<and> turn_same q q'"
  using assms
proof (induction es arbitrary: q ds)
  case (Cons e es)
  let ?i = "\<lparr>in_fd = ke_fd e, in_dir = ke_dir e\<rparr>" and ?wr = "\<lparr>in_fd = ke_fd e, in_dir = DirWrite\<rparr>"
  note cur = current_interest [OF Cons.prems]
  note i = kq_invD [OF Cons.prems]
  show ?case
  proof (cases "kq_interests q ?i = Some (ke_key e)")
    case False
    then have "armed (kq_interests q) (kq_filters q) es" using i(4) by (fastforce simp: armed_def)
    then have "kq_inv F g wk [] es ds q" using Cons.prems by (simp add: kq_inv_def)
    then show ?thesis using Cons.IH [of ds q] False cur by simp
  next
    case True
    have "armed ((kq_interests q)(?i := None)) (kq_filters q) es" using i(4) by (fastforce simp: armed_def)
    then obtain ds1 q1 where q1: "mark_ready err (ke_key e) ?i q = Some (ds1, q1)" "kq_inv F g wk [] es (ds @ ds1) q1" "turn_same q q1"
      using mark_interest_inv [OF Cons.prems True] by blast
    let ?both = "if ke_readable e \<and> ke_writable e
      then (case kq_interests q1 ?wr of None \<Rightarrow> Some ([], q1) | Some k \<Rightarrow> mark_ready err k ?wr q1) else Some ([], q1)"
    have "\<exists>ds2 q2. ?both = Some (ds2, q2) \<and> kq_inv F g wk [] es ((ds @ ds1) @ ds2) q2 \<and> turn_same q1 q2"
    proof (cases "ke_readable e \<and> ke_writable e \<and> kq_interests q1 ?wr \<noteq> None")
      case True
      then obtain k where k: "kq_interests q1 ?wr = Some k" by auto
      have "armed ((kq_interests q1)(?wr := None)) (kq_filters q1) es" using kq_invD(4) [OF q1(2)] by (rule armed_less)
      then show ?thesis using mark_interest_inv [OF q1(2) k] True k by auto
    qed (use q1(2) in auto)
    then obtain ds2 q2 where q2: "?both = Some (ds2, q2)" "kq_inv F g wk [] es ((ds @ ds1) @ ds2) q2" "turn_same q1 q2" by blast
    obtain ds3 q3 where q3: "dispatch_events err es q2 = Some (ds3, q3)" "kq_inv F g wk [] [] (((ds @ ds1) @ ds2) @ ds3) q3" "turn_same q2 q3"
      using Cons.IH [OF q2(2)] by blast
    have "dispatch_events err (e # es) q = Some (ds1 @ ds2 @ ds3, q3)"
      using True cur q1(1) q2(1) q3(1) by (simp add: Let_def)
    then show ?thesis using q3(2) turn_same_trans [OF turn_same_trans [OF q1(3) q2(3)] q3(3)] by auto
  qed
qed auto

subsection \<open>Fetching events\<close>

lemma fire_inv: "kq_inv F g wk [] (kq_events q) ds q \<Longrightarrow> kq_inv F g wk [] (kq_events (fire x q)) ds (fire x q)"
  by (cases x) (fastforce simp: fire_def kq_inv_def armed_def under_way_def split: option.splits)

lemma kq_wait_inv:
  assumes "kq_inv F g wk [] [] [] q"
  shows "kq_inv F g wk [] (kq_events (kq_wait fs q)) [] (kq_wait fs q)"
proof -
  have "kq_inv F g wk [] (kq_events v) [] v \<Longrightarrow>
    kq_inv F g wk [] (kq_events (foldl (\<lambda>q x. fire x q) v fs)) [] (foldl (\<lambda>q x. fire x q) v fs)" for v
    by (induction fs arbitrary: v) (simp_all add: fire_inv)
  moreover have "kq_inv F g wk [] [] [] (q\<lparr>kq_events := []\<rparr>)" using assms by (simp add: kq_inv_def under_way_def)
  ultimately show ?thesis by (simp add: kq_wait_def)
qed

lemma run_inv:
  assumes "kq_inv F g wk [] es ds q"
  shows "kq_inv F g wk [] es [] (kq_run ds q)"
  using assms by (auto simp: kq_inv_def kq_run_def under_way_def intro: trans_le_add1)

lemma fire_all_same:
  "kq_jobs (foldl (\<lambda>q x. fire x q) v fs) = kq_jobs v" "kq_interests (foldl (\<lambda>q x. fire x q) v fs) = kq_interests v"
  by (induction fs arbitrary: v) (auto simp: fire_def split: option.splits prod.splits)

lemma kq_wait_same: "kq_jobs (kq_wait fs q) = kq_jobs q" "kq_interests (kq_wait fs q) = kq_interests q"
  by (simp_all add: kq_wait_def fire_all_same)

lemma kq_wait_fired: "i \<in> fst ` set fs \<Longrightarrow> kq_filters (kq_wait fs q) i = None"
proof -
  have none: "kq_filters v i = None \<Longrightarrow> kq_filters (foldl (\<lambda>q x. fire x q) v xs) i = None" for v xs
    by (induction xs arbitrary: v) (auto simp: fire_def split: option.splits prod.splits)
  have "i \<in> fst ` set fs \<Longrightarrow> kq_filters (foldl (\<lambda>q x. fire x q) v fs) i = None" for v
  proof (induction fs arbitrary: v)
    case (Cons x fs)
    have "kq_filters (fire x v) i = None" if "fst x = i" using that by (auto simp: fire_def split: option.splits prod.splits)
    then show ?case using Cons none [of "fire x v" fs] by auto
  qed simp
  then show "i \<in> fst ` set fs \<Longrightarrow> kq_filters (kq_wait fs q) i = None" by (simp add: kq_wait_def)
qed

lemma turn_steps:
  assumes inv: "kq_inv F g wk [] [] [] q"
  obtains q' where "kq_turn err (Inr fs) q = Some (Inr (), q')" "kq_inv F g wk [] [] [] q'" "kq_jobs q' = kq_jobs q" "kq_done q' = []"
    "kq_filters q' = kq_filters (kq_wait fs q)" "kq_interests q' \<subseteq>\<^sub>m kq_interests q"
proof -
  let ?q = "kq_wait fs q"
  note w = kq_wait_inv [OF inv, of fs]
  have "kq_inv F g wk (kq_done ?q) (kq_events ?q) [] (?q\<lparr>kq_done := []\<rparr>)" using w by (simp add: kq_inv_def under_way_def)
  then obtain ds1 q1 where q1: "drain_blocking_completions ?q = Some (ds1, q1)" "kq_inv F g wk [] (kq_events ?q) ds1 q1"
      "turn_same (?q\<lparr>kq_done := []\<rparr>) q1"
    using drain_done_inv [of F g wk "kq_done ?q" "kq_events ?q" "[]" "?q\<lparr>kq_done := []\<rparr>"]
    by (auto simp: drain_blocking_completions_def)
  have e1: "kq_events q1 = kq_events ?q" using q1(3) by (simp add: turn_same_def)
  have "kq_inv F g wk [] (kq_events (kq_run ds1 q1)) [] (kq_run ds1 q1)" using run_inv [OF q1(2)] e1 by (simp add: kq_run_def)
  then obtain ds2 q2 where q2: "dispatch_events err (kq_events (kq_run ds1 q1)) (kq_run ds1 q1) = Some (ds2, q2)" "kq_inv F g wk [] [] ds2 q2"
      "turn_same (kq_run ds1 q1) q2"
    using dispatch_inv [of F g wk "kq_events (kq_run ds1 q1)" "[]" "kq_run ds1 q1" err] by auto
  let ?r = "kq_run ds2 (q2\<lparr>kq_events := []\<rparr>)"
  have "kq_inv F g wk [] [] ds2 (q2\<lparr>kq_events := []\<rparr>)" using q2(2) by (simp add: kq_inv_def under_way_def)
  then have "kq_inv F g wk [] [] [] ?r" by (rule run_inv)
  moreover have "kq_turn err (Inr fs) q = Some (Inr (), ?r)" using q1(1) q2(1) by (simp add: kq_turn_def kq_dispatch_def)
  moreover have "kq_jobs ?r = kq_jobs q" "kq_done ?r = []" "kq_filters ?r = kq_filters ?q" "kq_interests ?r \<subseteq>\<^sub>m kq_interests q"
    using q1(3) q2(3) by (auto simp: turn_same_def kq_run_def kq_wait_same elim: map_le_trans)
  ultimately show thesis using that by blast
qed

lemma kq_turn_inv:
  assumes inv: "kq_inv F g wk [] [] [] q"
  shows "\<exists>r q'. kq_turn err fired q = Some (r, q') \<and> kq_inv F g wk [] [] [] q'"
proof (cases fired)
  case (Inr fs)
  then show ?thesis using turn_steps [OF inv, of err fs] by metis
qed (use inv in \<open>simp add: kq_turn_def\<close>)

section \<open>Reachable programs\<close>

abbreviation kq_program_inv :: "('w, 'd) kq_program \<Rightarrow> bool" where
  "kq_program_inv p \<equiv> kq_inv (kp_ops p) (kp_payload p) (kp_waker p) [] [] [] (kp_kq p)"

lemma act_inv:
  assumes inv: "kq_program_inv p"
  shows "\<exists>p'. kq_act a p = Some p' \<and> kq_program_inv p'"
proof (cases a)
  case (KPoll k w att arm pushed)
  show ?thesis
  proof (cases "kp_ops p k")
    case (Some d)
    then show ?thesis using poll_inv [OF inv Some, of att arm pushed w] KPoll by (fastforce split: poll.splits)
  qed (use KPoll inv in simp)
next
  case (KDrop k)
  show ?thesis
  proof (cases "kp_ops p k")
    case (Some d)
    then show ?thesis using kq_drop_inv [OF inv Some] KDrop by auto
  qed (use KDrop inv in simp)
next
  case (KTurn err fired)
  obtain r q' where "kq_turn err fired (kp_kq p) = Some (r, q')" "kq_inv (kp_ops p) (kp_payload p) (kp_waker p) [] [] [] q'"
    using kq_turn_inv [OF inv] by blast
  then show ?thesis using KTurn by simp
qed (use cancel_inv [OF inv] guard_inv [OF inv] in simp_all)

lemma start_inv:
  assumes "kq_new n = Inr q"
  shows "kq_inv (\<lambda>_. None) g (\<lambda>_. None) [] [] [] q"
proof -
  obtain t where t: "op_new n = Inr t" "q = \<lparr>kq_ops = t, kq_interests = (\<lambda>_. None), kq_done = [], kq_shutting_down = False,
    kq_filters = (\<lambda>_. None), kq_events = [], kq_jobs = [], kq_ran = []\<rparr>"
    using assms by (auto simp: kq_new_def split: if_splits sum.splits)
  have "op_inv t" using t(1) op_inv_new by (auto simp: op_new_def split: if_splits)
  moreover have "op_get t k = None" for k
    using t(1) by (auto simp: op_new_def op_new_with_generation_limit_def op_get_def split: if_splits option.splits)
  ultimately show ?thesis using t(2)
    by (auto simp: kq_inv_def under_way_def regs_ok_def armed_def slots_ok_def kq_slot_ok_def)
qed

lemma reach_inv: "kq_reach p \<Longrightarrow> kq_program_inv p"
proof (induction rule: kq_reach.induct)
  case (kq_start n q g)
  then show ?case using start_inv by simp
next
  case (kq_submit p d p')
  then show ?case using submit_inv [of p d] by auto
next
  case (kq_step p a p')
  then show ?case using act_inv [of p a] by auto
qed

section \<open>Properties\<close>

lemma reach_slot:
  assumes "kq_reach p"
  shows "kq_slot_ok (k \<in> set (under_way (kp_kq p) (kq_done (kp_kq p)))) (kp_ops p k) (kp_payload p k)
    (woken (kq_ran (kp_kq p)) (kp_waker p k)) (op_get (kq_ops (kp_kq p)) k)"
  using kq_invD(5) [OF reach_inv [OF assms], of k] by simp

lemma reach_interest:
  assumes "kq_reach p" "kq_interests (kp_kq p) i = Some k"
  shows "kq_filters (kp_kq p) i = Some k \<and> is_current_interest k i (kp_kq p) \<and> kp_ops p k = Some (kp_payload p k)"
proof -
  note i = kq_invD [OF reach_inv [OF assms(1)]]
  obtain s r where s: "op_get (kq_ops (kp_kq p)) k = Some s" "ks_registration s = Some r"
    using i(3) assms(2) unfolding regs_ok_def by blast
  have "kp_ops p k = Some (kp_payload p k)" using reach_slot [OF assms(1), of k] s
    by (cases "ks_state s") (auto simp: kq_slot_ok_def elim: kq_state_ok.elims)
  then show ?thesis using i(4) assms(2) current_interest [OF reach_inv [OF assms(1)]] by (simp add: armed_def)
qed


lemma turn_wakes:
  assumes inv: "kq_inv F g wk [] [] [] q" and wk: "F k = Some d" "wk k = Some (w, n)"
    and s: "op_get (kq_ops q) k = Some s"
    and now: "k \<in> fst ` set (kq_done q) \<or> (\<exists>r. ks_registration s = Some r \<and> rg_interest r \<in> fst ` set fs)"
    and turn: "kq_turn err (Inr fs) q = Some (res, q')"
  shows "KWake w \<in> set (drop n (kq_ran q')) \<and> (\<exists>s'. op_get (kq_ops q') k = Some s' \<and> (ks_state s' = KReady \<or> (\<exists>c. ks_state s' = KCompleted c)))"
proof -
  note i = kq_invD [OF inv]
  have t: "kq_inv F g wk [] [] [] q'" "kq_jobs q' = kq_jobs q" "kq_done q' = []" "kq_filters q' = kq_filters (kq_wait fs q)"
    "kq_interests q' \<subseteq>\<^sub>m kq_interests q"
    by (rule turn_steps [OF inv, of err fs]; use turn in simp)+
  note i' = kq_invD [OF t(1)]
  have ok: "kq_state_ok (ks_registration s \<noteq> None) (k \<in> set (under_way q (kq_done q))) (F k) (g k) (woken (kq_ran q) (wk k)) (ks_state s)"
    using i(5) [of k] s by (simp add: kq_slot_ok_def)
  have job: "k \<notin> set (kq_jobs q)"
  proof (cases "k \<in> fst ` set (kq_done q)")
    case True
    then show ?thesis using i(2) by (auto simp: under_way_def)
  next
    case False
    then show ?thesis using now ok wk(1) by (auto simp: under_way_def elim: kq_state_ok.elims)
  qed
  have free: "kq_interests q' j \<noteq> Some k" for j
  proof
    assume j: "kq_interests q' j = Some k"
    then have "kq_interests q j = Some k" using t(5) by (auto simp: map_le_def dom_def)
    then obtain r where r: "ks_registration s = Some r" "rg_interest r = j" using i(3) s unfolding regs_ok_def by auto
    then have "j \<in> fst ` set fs" using now ok by (auto simp: under_way_def elim!: kq_state_ok.elims)
    then have "kq_filters q' j = None" using kq_wait_fired [of j fs q] t(4) by simp
    then show False using i'(4) j by (simp add: armed_def)
  qed
  obtain s' where s': "op_get (kq_ops q') k = Some s'" using i'(5) [of k] wk(1)
    by (cases "op_get (kq_ops q') k") (auto simp: kq_slot_ok_def)
  have "ks_registration s' = None" using free i'(3) s' unfolding regs_ok_def by (cases "ks_registration s'") auto
  moreover have "k \<notin> set (under_way q' (kq_done q'))" using job t(2,3) by (simp add: under_way_def)
  ultimately have "kq_state_ok False False (F k) (g k) (Some (w, KWake w \<in> set (drop n (kq_ran q')))) (ks_state s')"
    using i'(5) [of k] s' wk(2) by (simp add: kq_slot_ok_def woken_def)
  then show ?thesis using s' by (cases "ks_state s'") (auto elim: kq_state_ok.elims)
qed


text \<open>A program that has submitted one operation and waits for its descriptor to be readable.\<close>

definition demo_interest :: interest where
  "demo_interest = \<lparr>in_fd = 5, in_dir = DirRead\<rparr>"

lemma kq_demo_program:
  obtains p k where "kq_reach (p :: (nat, nat) kq_program)" "kp_ops p k = Some 7" "kp_payload p k = 7" "kp_waker p k = Some (3, 0)"
    "op_get (kq_ops (kp_kq p)) k = Some \<lparr>ks_state = KWaiting 3, ks_registration = Some \<lparr>rg_interest = demo_interest, rg_on_ready = Retry\<rparr>\<rparr>"
    "kq_interests (kp_kq p) demo_interest = Some k" "kq_ran (kp_kq p) = []"
proof -
  let ?s = "\<lparr>ks_state = KSubmitted, ks_registration = None\<rparr> :: (nat, nat) kq_slot"
  let ?t0 = "\<lparr>ot_entries = slab_with_capacity 8, ot_generations = [], ot_generation_limit = GENERATION_MAX, ot_active_len = 0\<rparr> :: (nat, nat) kq_slot op_table"
  let ?q0 = "\<lparr>kq_ops = ?t0, kq_interests = (\<lambda>_. None), kq_done = [], kq_shutting_down = False,
    kq_filters = (\<lambda>_. None), kq_events = [], kq_jobs = [], kq_ran = []\<rparr> :: (nat, nat) kqueue"
  let ?p0 = "\<lparr>kp_kq = ?q0, kp_ops = (\<lambda>_. None), kp_payload = (\<lambda>_. 0), kp_waker = (\<lambda>_. None), kp_outputs = []\<rparr> :: (nat, nat) kq_program"
  have new: "op_new 8 = Inr ?t0" by (simp add: op_new_def op_new_with_generation_limit_def key_consts)
  have r0: "kq_reach ?p0" by (rule kq_start [of 8]) (simp add: kq_new_def new)
  have inv0: "op_inv ?t0" using new op_inv_new by (auto simp: op_new_def split: if_splits)
  have "slab_vacant_key (ot_entries ?t0) \<noteq> MAX_CAPACITY" by (simp add: slab_with_capacity_def slab_vacant_key_def key_consts)
  then obtain k t where t: "op_insert ?t0 ?s = Some (Inr k, t)" "op_inv t" "op_get t k = Some ?s"
    using op_insert_spec [OF inv0, of "\<lambda>_. ?s"] unfolding op_insert_def by fastforce
  let ?p1 = "?p0\<lparr>kp_kq := ?q0\<lparr>kq_ops := t\<rparr>, kp_ops := [k \<mapsto> 7], kp_payload := (\<lambda>_. 0)(k := 7), kp_waker := (\<lambda>_. None)(k := None)\<rparr>"
  have "kq_submit_act 7 ?p0 = Some ?p1" using t(1) by (simp add: kq_submit_act_def kq_submit_op_def)
  then have r1: "kq_reach ?p1" by (rule kq_submit [OF r0])
  let ?r = "\<lparr>rg_interest = demo_interest, rg_on_ready = Retry\<rparr>"
  let ?q1 = "?q0\<lparr>kq_ops := t, kq_filters := [demo_interest \<mapsto> k], kq_interests := [demo_interest \<mapsto> k]\<rparr>"
  let ?q2 = "kq_set_state k (KWaiting 3) (kq_set k (?s\<lparr>ks_registration := Some ?r\<rparr>) ?q1)"
  have g: "op_get (kq_ops ?q2) k = Some (?s\<lparr>ks_registration := Some ?r, ks_state := KWaiting 3\<rparr>)"
    using kq_set_get [of ?q1 k ?s] kq_set_get(4) [of "kq_set k (?s\<lparr>ks_registration := Some ?r\<rparr>) ?q1" k] t(2,3) by simp
  let ?p2 = "?p1\<lparr>kp_kq := ?q2, kp_waker := (\<lambda>_. None)(k \<mapsto> (3, 0))\<rparr>"
  have "kq_act (KPoll k 3 (AttemptRegister demo_interest Retry) (Inr ()) (Inr ())) ?p1 = Some ?p2"
    using t(3) by (simp add: kq_poll_op_def has_interest_def install_registration_def kernel_arm_def Let_def)
  then have "kq_reach ?p2" by (rule kq_step [OF r1])
  then show thesis by (rule that [of ?p2 k]) (use g in simp_all)
qed



end
