(* ===== verification/Kqueue_Wakeup.thy ===== *)
theory Kqueue_Wakeup
  imports Prelude
begin

text \<open>
  Waking the kqueue driver from other threads (\<^verbatim>\<open>KqueueWakeup\<close>, \<^verbatim>\<open>WakeupKind\<close> and \<^verbatim>\<open>Kqueue::wait\<close> in
  \<^verbatim>\<open>karmaio/src/driver/backends/kqueue.rs\<close>), as an interleaving of the driver's thread with any number of wakers.

  A waker loads \<^verbatim>\<open>closed\<close>, exchanges \<^verbatim>\<open>notified\<close> and notifies the kernel: three atomic steps.  The driver waits in \<^verbatim>\<open>kevent\<close>,
  stores \<^verbatim>\<open>notified\<close> and re-registers the wake-up.  Where the kernel has user events the filter stays, is triggered by a
  notification and cleared by its delivery.  On NetBSD and OpenBSD a notification is a byte in a socket pair, whose one-shot read
  filter is delivered while there are bytes; re-registering reads until the socket is empty and adds the filter again.
  \<open>ws_asked\<close> is not a variable of the code: it says that a call of \<^verbatim>\<open>wake\<close> returned after the driver's last
  \<^verbatim>\<open>wait\<close> returned, so the driver may not have seen what the call announced.
\<close>

section \<open>State and operations\<close>

datatype wakeup_kind = UserEvent | SocketPair nat

datatype driver_pc = Waiting | Returned | Draining | Running

record wakeup_state =
  ws_closed :: bool
  ws_notified :: bool
  ws_triggered :: bool
  ws_bytes :: nat
  ws_armed :: bool
  ws_loaded :: nat
  ws_exchanged :: nat
  ws_driver :: driver_pc
  ws_asked :: bool

definition wakeup_new :: wakeup_state where
  "wakeup_new = \<lparr>ws_closed = False, ws_notified = False, ws_triggered = False, ws_bytes = 0, ws_armed = True, ws_loaded = 0,
     ws_exchanged = 0, ws_driver = Waiting, ws_asked = False\<rparr>"

text \<open>\<^verbatim>\<open>WakeupKind::notify\<close>; the write to a full socket fails and is ignored.\<close>

fun notify :: "wakeup_kind \<Rightarrow> wakeup_state \<Rightarrow> wakeup_state" where
  "notify UserEvent s = s\<lparr>ws_triggered := True\<rparr>"
| "notify (SocketPair room) s = s\<lparr>ws_bytes := (if ws_bytes s < room then Suc (ws_bytes s) else ws_bytes s)\<rparr>"

text \<open>Whether \<^verbatim>\<open>kevent\<close> delivers the wake-up, and what delivering it does to the filter.\<close>

fun deliverable :: "wakeup_kind \<Rightarrow> wakeup_state \<Rightarrow> bool" where
  "deliverable UserEvent s = ws_triggered s"
| "deliverable (SocketPair _) s = (ws_armed s \<and> 0 < ws_bytes s)"

fun deliver :: "wakeup_kind \<Rightarrow> wakeup_state \<Rightarrow> wakeup_state" where
  "deliver UserEvent s = s\<lparr>ws_triggered := False\<rparr>"
| "deliver (SocketPair _) s = s\<lparr>ws_armed := False\<rparr>"

definition kevent_returns :: "wakeup_kind \<Rightarrow> wakeup_state \<Rightarrow> wakeup_state" where
  "kevent_returns kind s = (if deliverable kind s then deliver kind s else s)\<lparr>ws_driver := Returned\<rparr>"

text \<open>One read of the loop in \<^verbatim>\<open>WakeupKind::reregister\<close>; on an empty socket it ends and registers, and the wait returns.\<close>

definition reregister :: "wakeup_kind \<Rightarrow> wakeup_state \<Rightarrow> wakeup_state" where
  "reregister kind s =
     (case kind of
        UserEvent \<Rightarrow> s\<lparr>ws_asked := False, ws_driver := Running\<rparr>
      | SocketPair _ \<Rightarrow>
          if ws_bytes s = 0 then s\<lparr>ws_armed := True, ws_asked := False, ws_driver := Running\<rparr> else s\<lparr>ws_bytes := ws_bytes s - 64\<rparr>)"

section \<open>Steps\<close>

text \<open>\<^verbatim>\<open>KqueueWakeup::wake\<close>.\<close>

inductive waker_step :: "wakeup_kind \<Rightarrow> wakeup_state \<Rightarrow> wakeup_state \<Rightarrow> bool" for kind where
  wake_closed: "ws_closed s \<Longrightarrow> waker_step kind s s"
| wake_open: "\<not> ws_closed s \<Longrightarrow> waker_step kind s (s\<lparr>ws_loaded := Suc (ws_loaded s)\<rparr>)"
| wake_exchange: "ws_loaded s = Suc n \<Longrightarrow> \<not> ws_notified s \<Longrightarrow>
    waker_step kind s (s\<lparr>ws_loaded := n, ws_notified := True, ws_exchanged := Suc (ws_exchanged s)\<rparr>)"
| wake_coalesced: "ws_loaded s = Suc n \<Longrightarrow> ws_notified s \<Longrightarrow> waker_step kind s (s\<lparr>ws_loaded := n, ws_asked := True\<rparr>)"
| wake_notify: "ws_exchanged s = Suc n \<Longrightarrow> waker_step kind s ((notify kind s)\<lparr>ws_exchanged := n, ws_asked := True\<rparr>)"

text \<open>
  \<^verbatim>\<open>Kqueue::wait\<close>, which returns for the wake-up, and also for other events and for a timeout; \<^verbatim>\<open>close_wakeup\<close>.
\<close>

inductive driver_step :: "wakeup_kind \<Rightarrow> wakeup_state \<Rightarrow> wakeup_state \<Rightarrow> bool" for kind where
  driver_kevent: "ws_driver s = Waiting \<Longrightarrow> driver_step kind s (kevent_returns kind s)"
| driver_store: "ws_driver s = Returned \<Longrightarrow> driver_step kind s (s\<lparr>ws_notified := False, ws_driver := Draining\<rparr>)"
| driver_reregister: "ws_driver s = Draining \<Longrightarrow> driver_step kind s (reregister kind s)"
| driver_wait: "ws_driver s = Running \<Longrightarrow> driver_step kind s (s\<lparr>ws_driver := Waiting\<rparr>)"
| driver_close: "driver_step kind s (s\<lparr>ws_closed := True\<rparr>)"

inductive wakeup_reach :: "wakeup_kind \<Rightarrow> wakeup_state \<Rightarrow> bool" for kind where
  wakeup_init: "wakeup_reach kind wakeup_new"
| wakeup_waker: "wakeup_reach kind s \<Longrightarrow> waker_step kind s s' \<Longrightarrow> wakeup_reach kind s'"
| wakeup_driver: "wakeup_reach kind s \<Longrightarrow> driver_step kind s s' \<Longrightarrow> wakeup_reach kind s'"

text \<open>\<^verbatim>\<open>kevent\<close> blocks: only another event or a timeout would end the wait.\<close>

definition blocked :: "wakeup_kind \<Rightarrow> wakeup_state \<Rightarrow> bool" where
  "blocked kind s \<longleftrightarrow> ws_driver s = Waiting \<and> \<not> deliverable kind s"

section \<open>User events keep every wake-up\<close>

definition user_inv :: "wakeup_state \<Rightarrow> bool" where
  "user_inv s \<longleftrightarrow>
     (ws_notified s \<longrightarrow> ws_triggered s \<or> 0 < ws_exchanged s \<or> ws_driver s = Returned) \<and>
     (ws_asked s \<longrightarrow> ws_triggered s \<or> 0 < ws_exchanged s \<or> ws_driver s = Returned \<or> ws_driver s = Draining)"

lemma user_waker: "waker_step UserEvent s s' \<Longrightarrow> user_inv s \<Longrightarrow> user_inv s'"
  by (induction rule: waker_step.induct) (auto simp: user_inv_def)

lemma user_driver: "driver_step UserEvent s s' \<Longrightarrow> user_inv s \<Longrightarrow> user_inv s'"
  by (induction rule: driver_step.induct) (auto simp: user_inv_def kevent_returns_def reregister_def)

lemma user_reach: "wakeup_reach UserEvent s \<Longrightarrow> user_inv s"
  by (induction rule: wakeup_reach.induct) (auto simp: user_inv_def wakeup_new_def dest: user_waker user_driver)

text \<open>
  C39. With user events no wake-up of the kqueue driver is lost.  However the driver's wait interleaves with any number of threads
  that call \<^verbatim>\<open>wake\<close>: when a call has returned since the driver's last wait returned, \<^verbatim>\<open>kevent\<close> does not block, unless another
  waker that holds the coalesced notification is between its exchange and its notification, and that waker's next step unblocks it.
\<close>

theorem user_wakeup_not_lost:
  assumes "wakeup_reach UserEvent s" "ws_asked s"
  shows "\<not> blocked UserEvent s \<or>
    (0 < ws_exchanged s \<and>
      (\<exists>s'. waker_step UserEvent s s' \<and> ws_exchanged s' = ws_exchanged s - 1 \<and> \<not> blocked UserEvent s'))"
proof (cases "blocked UserEvent s")
  case True
  then have x: "0 < ws_exchanged s" using user_reach [OF assms(1)] assms(2) by (auto simp: user_inv_def blocked_def)
  then obtain n where "ws_exchanged s = Suc n" using gr0_implies_Suc by blast
  then show ?thesis using wake_notify [of s n UserEvent] x by (fastforce simp: blocked_def)
qed simp

theorem user_wakeup_not_lost_witness:
  "\<exists>s. wakeup_reach UserEvent s \<and> ws_asked s \<and> ws_exchanged s = 0 \<and> \<not> blocked UserEvent s"
proof -
  let ?s1 = "wakeup_new\<lparr>ws_loaded := Suc (ws_loaded wakeup_new)\<rparr>"
  let ?s2 = "?s1\<lparr>ws_loaded := 0, ws_notified := True, ws_exchanged := Suc (ws_exchanged ?s1)\<rparr>"
  let ?s3 = "(notify UserEvent ?s2)\<lparr>ws_exchanged := 0, ws_asked := True\<rparr>"
  have "wakeup_reach UserEvent ?s1" by (rule wakeup_waker [OF wakeup_init wake_open]) (simp add: wakeup_new_def)
  then have "wakeup_reach UserEvent ?s2" by (rule wakeup_waker [OF _ wake_exchange]) (simp_all add: wakeup_new_def)
  then have r: "wakeup_reach UserEvent ?s3" by (rule wakeup_waker [OF _ wake_notify]) (simp add: wakeup_new_def)
  have a: "ws_asked ?s3" "ws_exchanged ?s3 = 0" by simp_all
  show ?thesis using user_wakeup_not_lost [OF r a(1)] r a by auto
qed

section \<open>The socket pair loses one\<close>

text \<open>A waker that finds \<^verbatim>\<open>notified\<close> set does not write, so a drained byte is not replaced.\<close>

definition stuck :: "wakeup_state \<Rightarrow> bool" where
  "stuck s \<longleftrightarrow> ws_driver s = Waiting \<and> ws_notified s \<and> ws_bytes s = 0 \<and> ws_exchanged s = 0"

inductive wakers :: "wakeup_kind \<Rightarrow> wakeup_state \<Rightarrow> wakeup_state \<Rightarrow> bool" for kind where
  no_waker: "wakers kind s s"
| one_waker: "wakers kind s t \<Longrightarrow> waker_step kind t u \<Longrightarrow> wakers kind s u"

lemma stuck_step: "waker_step (SocketPair room) s s' \<Longrightarrow> stuck s \<Longrightarrow> stuck s'"
  by (induction rule: waker_step.induct) (auto simp: stuck_def)

lemma stuck_blocked: "stuck s \<Longrightarrow> blocked (SocketPair room) s"
  by (simp add: stuck_def blocked_def)

lemma stuck_stays: "wakers (SocketPair room) s s' \<Longrightarrow> stuck s \<Longrightarrow> stuck s'"
  by (induction rule: wakers.induct) (auto dest: stuck_step)

lemma pipe_run:
  assumes "0 < room"
  obtains s where "wakeup_reach (SocketPair room) s" "stuck s" "ws_asked s" "\<not> ws_closed s"
proof -
  let ?k = "SocketPair room"
  let ?s0 = "kevent_returns ?k wakeup_new"
  let ?s1 = "?s0\<lparr>ws_notified := False, ws_driver := Draining\<rparr>"
  let ?s2 = "?s1\<lparr>ws_loaded := Suc (ws_loaded ?s1)\<rparr>"
  let ?s3 = "?s2\<lparr>ws_loaded := 0, ws_notified := True, ws_exchanged := Suc (ws_exchanged ?s2)\<rparr>"
  let ?s4 = "(notify ?k ?s3)\<lparr>ws_exchanged := 0, ws_asked := True\<rparr>"
  let ?s5 = "reregister ?k ?s4"
  let ?s6 = "reregister ?k ?s5"
  let ?s7 = "?s6\<lparr>ws_driver := Waiting\<rparr>"
  let ?s8 = "?s7\<lparr>ws_loaded := Suc (ws_loaded ?s7)\<rparr>"
  let ?s9 = "?s8\<lparr>ws_loaded := 0, ws_asked := True\<rparr>"
  note d = kevent_returns_def wakeup_new_def reregister_def
  have "wakeup_reach ?k ?s0" by (rule wakeup_driver [OF wakeup_init driver_kevent]) (simp add: d)
  then have "wakeup_reach ?k ?s1" by (rule wakeup_driver [OF _ driver_store]) (simp add: d)
  then have "wakeup_reach ?k ?s2" by (rule wakeup_waker [OF _ wake_open]) (simp add: d)
  then have "wakeup_reach ?k ?s3" by (rule wakeup_waker [OF _ wake_exchange]) (simp_all add: d)
  then have "wakeup_reach ?k ?s4" by (rule wakeup_waker [OF _ wake_notify]) (simp add: d)
  then have "wakeup_reach ?k ?s5" by (rule wakeup_driver [OF _ driver_reregister]) (simp add: d)
  then have "wakeup_reach ?k ?s6" by (rule wakeup_driver [OF _ driver_reregister]) (use assms in \<open>simp add: d\<close>)
  then have "wakeup_reach ?k ?s7" by (rule wakeup_driver [OF _ driver_wait]) (use assms in \<open>simp add: d\<close>)
  then have "wakeup_reach ?k ?s8" by (rule wakeup_waker [OF _ wake_open]) (use assms in \<open>simp add: d\<close>)
  then have "wakeup_reach ?k ?s9" by (rule wakeup_waker [OF _ wake_coalesced]) (use assms in \<open>simp_all add: d\<close>)
  then show thesis by (rule that) (use assms in \<open>simp_all add: d stuck_def\<close>)
qed

text \<open>
  C40. On NetBSD and OpenBSD a wake-up of the kqueue driver can be lost for good.  A \<^verbatim>\<open>wake\<close> that runs
  after the driver stored \<^verbatim>\<open>notified\<close> and before it drained the socket has its byte drained and leaves \<^verbatim>\<open>notified\<close> set.  Once the driver waits again,
  a call of \<^verbatim>\<open>wake\<close> returns without writing a byte and the driver stays blocked, and so it does however many further calls there are, from any
  threads.
\<close>

theorem pipe_wakeup_lost:
  assumes "0 < room"
  shows "\<exists>s. wakeup_reach (SocketPair room) s \<and> ws_asked s \<and> \<not> ws_closed s \<and>
    (\<forall>s'. wakers (SocketPair room) s s' \<longrightarrow> blocked (SocketPair room) s')"
proof -
  obtain s where "wakeup_reach (SocketPair room) s" "stuck s" "ws_asked s" "\<not> ws_closed s" by (rule pipe_run [OF assms])
  then show ?thesis using stuck_stays stuck_blocked by blast
qed

theorem pipe_wakeup_lost_witness:
  "\<exists>s. wakeup_reach (SocketPair 4096) s \<and> ws_asked s \<and> blocked (SocketPair 4096) s"
  using pipe_wakeup_lost [of 4096] no_waker [of "SocketPair 4096"] by auto

end
