(* ===== verification/Iocp.thy ===== *)
theory Iocp
  imports Uring
begin

text \<open>
  The Windows backend (\<^verbatim>\<open>karmaio/src/driver/backends/iocp.rs\<close>): overlapped requests identified by the address of
  their \<^verbatim>\<open>OVERLAPPED\<close>, jobs of the blocking pool, the dispatch of completion packets, cancellation and shutdown.

  Windows is not part of the program.  \<open>ip_in_flight\<close> are the addresses it holds for requests that are under way, \<open>ip_port\<close> the packets queued on the
  completion port, \<open>ip_cancels\<close> the addresses that \<^verbatim>\<open>CancelIoEx\<close> was called with, which is only a hint to it.  \<open>iocp_world\<close> is what
  happens outside the thread: Windows finishes a request, a job ends, another thread wakes the backend or posts a packet of its own.
  \<open>dos\<close> stands for \<^verbatim>\<open>RtlNtStatusToDosError\<close>.

  \<open>ip_headers\<close> is the heap of live \<^verbatim>\<open>Box<OverlappedHeader>\<close> allocations with the key stamped in each; a header is
  allocated by the operation's \<^verbatim>\<open>submit\<close>, belongs to its slot and is freed with it.  Reading a freed header, like a panic, is \<open>None\<close>.
\<close>

section \<open>Data\<close>

record overlapped =
  ov_address :: nat
  ov_handle :: nat

datatype iocp_submission =
    SubmissionReady completion
  | SubmissionPending overlapped
  | SubmissionBlocking

datatype ('w, 'd) iocp_observer = IPendingObserver | IWaitingObserver 'w | IDetachedObserver "'d ignored"

datatype ('w, 'd) iocp_state =
    ISubmitted
  | IWaiting 'w
  | ICompleted completion
  | IDetached "'d ignored"
  | ICanceling "('w, 'd) iocp_observer"

text \<open>\<^verbatim>\<open>State::complete\<close>: whether the slot is to be removed, the waker, the cleanup, the new state.\<close>

fun iocp_complete ::
  "completion \<Rightarrow> ('w, 'd) iocp_state \<Rightarrow> bool \<times> 'w option \<times> ('w, 'd) deferred option \<times> ('w, 'd) iocp_state" where
  "iocp_complete c ISubmitted = (False, None, None, ICompleted c)"
| "iocp_complete c (IWaiting w) = (False, Some w, None, ICompleted c)"
| "iocp_complete c (IDetached d) = (True, None, Some (RunCleanup d c), ISubmitted)"
| "iocp_complete c (ICanceling IPendingObserver) = (False, None, None, ICompleted c)"
| "iocp_complete c (ICanceling (IWaitingObserver w)) = (False, Some w, None, ICompleted c)"
| "iocp_complete c (ICanceling (IDetachedObserver d)) = (True, None, Some (RunCleanup d c), ISubmitted)"
| "iocp_complete c (ICompleted c0) = (False, None, None, ICompleted c0)"

record ('w, 'd) iocp_slot =
  is_state :: "('w, 'd) iocp_state"
  is_interest :: "overlapped option"
  is_job :: bool

text \<open>\<^verbatim>\<open>OVERLAPPED_ENTRY\<close>; the null address is 0.\<close>

record iocp_packet =
  pk_overlapped :: nat
  pk_internal :: u64
  pk_bytes :: u32

definition null_packet :: iocp_packet where
  "null_packet = \<lparr>pk_overlapped = 0, pk_internal = 0, pk_bytes = 0\<rparr>"

record ('w, 'd) iocp =
  ip_ops :: "('w, 'd) iocp_slot op_table"
  ip_pending :: "nat \<rightharpoonup> op_key"
  ip_entries :: "iocp_packet list"
  ip_capacity :: nat
  ip_done :: "(op_key \<times> completion) list"
  ip_shutting_down :: bool
  ip_closed :: bool
  ip_headers :: "nat \<rightharpoonup> op_key"
  ip_in_flight :: "nat list"
  ip_port :: "iocp_packet list"
  ip_cancels :: "nat list"
  ip_jobs :: "op_key list"
  ip_ran :: "('w, 'd) deferred list"

section \<open>The completion port\<close>

text \<open>Durations are in nanoseconds, at most \<open>DURATION_MAX\<close>.\<close>

definition DURATION_MAX :: nat where
  "DURATION_MAX = (2 ^ 64 - 1) * 1000000000 + 999999999"

definition duration_millis :: "nat option \<Rightarrow> nat" where
  "duration_millis duration =
     (case duration of
        Some d \<Rightarrow>
          let d = (if d + 999999 \<le> DURATION_MAX then d + 999999 else d)
          in min (d div 1000000) u32_max
      | None \<Rightarrow> u32_max)"

text \<open>
  \<^verbatim>\<open>CompletionPort::get_many\<close>: \<open>r\<close> is the outcome of \<^verbatim>\<open>GetQueuedCompletionStatusEx\<close>, an error or the number of packets it
  took off the port, which is at most the buffer's capacity; 258 is \<^verbatim>\<open>WAIT_TIMEOUT\<close>.
\<close>

definition iocp_fetched :: "nat \<Rightarrow> ('w, 'd) iocp \<Rightarrow> iocp_packet list" where
  "iocp_fetched n q = take (min n (min (ip_capacity q) u32_max)) (ip_port q)"

definition get_many :: "nat io_result \<Rightarrow> ('w, 'd) iocp \<Rightarrow> nat io_result \<times> ('w, 'd) iocp" where
  "get_many r q =
     (case r of
        Inl e \<Rightarrow> if e = RawOs 258 then (Inr 0, q) else (Inl e, q)
      | Inr n \<Rightarrow>
          let got = iocp_fetched n q
          in (Inr (length got), q\<lparr>ip_entries := got, ip_port := drop (length got) (ip_port q)\<rparr>))"

definition iocp_wake :: "('w, 'd) iocp \<Rightarrow> ('w, 'd) iocp" where
  "iocp_wake q = (if ip_closed q then q else q\<lparr>ip_port := ip_port q @ [null_packet]\<rparr>)"

text \<open>\<^verbatim>\<open>BlockingCompletionGuard::send\<close>: the completion is queued, then the backend is woken.\<close>

definition iocp_guard_send :: "op_key \<Rightarrow> completion \<Rightarrow> ('w, 'd) iocp \<Rightarrow> ('w, 'd) iocp" where
  "iocp_guard_send key c q =
     (if key \<in> set (ip_jobs q)
      then iocp_wake (q\<lparr>ip_jobs := remove1 key (ip_jobs q), ip_done := ip_done q @ [(key, c)]\<rparr>) else q)"

text \<open>A packet posted by other code has an \<^verbatim>\<open>OVERLAPPED\<close> of its own, not a live header of the backend.\<close>

datatype iocp_world =
    RequestDone nat u64 u32
  | JobDone op_key completion
  | RemoteWake
  | ForeignPacket iocp_packet

fun iocp_world_step :: "iocp_world \<Rightarrow> ('w, 'd) iocp \<Rightarrow> ('w, 'd) iocp" where
  "iocp_world_step (RequestDone a internal n) q =
     (if a \<in> set (ip_in_flight q)
      then q\<lparr>ip_in_flight := remove1 a (ip_in_flight q),
             ip_port := ip_port q @ [\<lparr>pk_overlapped = a, pk_internal = internal, pk_bytes = n\<rparr>]\<rparr> else q)"
| "iocp_world_step (JobDone k c) q = iocp_guard_send k c q"
| "iocp_world_step RemoteWake q = iocp_wake q"
| "iocp_world_step (ForeignPacket p) q =
     (if ip_headers q (pk_overlapped p) = None then q\<lparr>ip_port := ip_port q @ [p]\<rparr> else q)"

section \<open>Slots\<close>

definition iocp_new :: "nat \<Rightarrow> ('w, 'd) iocp io_result" where
  "iocp_new capacity =
     (case op_new capacity of
        Inl e \<Rightarrow> Inl e
      | Inr t \<Rightarrow> Inr \<lparr>ip_ops = t, ip_pending = (\<lambda>_. None), ip_entries = replicate capacity null_packet,
                      ip_capacity = capacity, ip_done = [], ip_shutting_down = False, ip_closed = False,
                      ip_headers = (\<lambda>_. None), ip_in_flight = [], ip_port = [], ip_cancels = [], ip_jobs = [], ip_ran = []\<rparr>)"

definition iocp_set :: "op_key \<Rightarrow> (('w, 'd) iocp_slot \<Rightarrow> ('w, 'd) iocp_slot) \<Rightarrow> ('w, 'd) iocp \<Rightarrow> ('w, 'd) iocp" where
  "iocp_set key f q = q\<lparr>ip_ops := op_get_mut (ip_ops q) key f\<rparr>"

abbreviation iocp_set_state :: "op_key \<Rightarrow> ('w, 'd) iocp_state \<Rightarrow> ('w, 'd) iocp \<Rightarrow> ('w, 'd) iocp" where
  "iocp_set_state key st \<equiv> iocp_set key (\<lambda>s. s\<lparr>is_state := st\<rparr>)"

text \<open>Dropping an \<^verbatim>\<open>Interest\<close> frees its header.\<close>

definition free_interest :: "overlapped option \<Rightarrow> (nat \<rightharpoonup> op_key) \<Rightarrow> nat \<rightharpoonup> op_key" where
  "free_interest ov h = (case ov of None \<Rightarrow> h | Some ov \<Rightarrow> h(ov_address ov := None))"

definition iocp_remove :: "op_key \<Rightarrow> ('w, 'd) iocp \<Rightarrow> ('w, 'd) iocp option" where
  "iocp_remove key q =
     map_option (\<lambda>(slot, t). q\<lparr>ip_ops := t,
         ip_headers := free_interest (case slot of None \<Rightarrow> None | Some s \<Rightarrow> is_interest s) (ip_headers q)\<rparr>)
       (op_remove (ip_ops q) key)"

definition cancel_pending :: "overlapped option \<Rightarrow> ('w, 'd) iocp \<Rightarrow> ('w, 'd) iocp" where
  "cancel_pending ov q = (case ov of None \<Rightarrow> q | Some ov \<Rightarrow> q\<lparr>ip_cancels := ip_cancels q @ [ov_address ov]\<rparr>)"

section \<open>Operations\<close>

text \<open>
  \<^verbatim>\<open>submit_op\<close>: \<open>sub\<close> is what the operation's \<^verbatim>\<open>submit\<close> returned; if it is pending, the request is in flight and its header,
  just allocated, is stamped with the key.
\<close>

definition iocp_submit_op ::
  "iocp_submission \<Rightarrow> ('w, 'd) iocp \<Rightarrow> (op_key io_result \<times> ('w, 'd) iocp) option" where
  "iocp_submit_op sub q =
     (if ip_shutting_down q then Some (Inl BrokenPipe, q)
      else
        (case op_insert (ip_ops q) \<lparr>is_state = ISubmitted, is_interest = None, is_job = False\<rparr> of
           None \<Rightarrow> None
         | Some (Inl e, t) \<Rightarrow> Some (Inl e, q\<lparr>ip_ops := t\<rparr>)
         | Some (Inr key, t) \<Rightarrow>
             (let q = q\<lparr>ip_ops := t\<rparr> in
              case sub of
                SubmissionReady c \<Rightarrow> Some (Inr key, iocp_set_state key (ICompleted c) q)
              | SubmissionPending ov \<Rightarrow>
                  (let known = ip_pending q (ov_address ov);
                       q = q\<lparr>ip_in_flight := ip_in_flight q @ [ov_address ov],
                             ip_headers := (ip_headers q)(ov_address ov \<mapsto> key),
                             ip_pending := (ip_pending q)(ov_address ov \<mapsto> key)\<rparr>
                   in if known \<noteq> None
                      then map_option (\<lambda>q. (Inl OtherError, q\<lparr>ip_headers := free_interest (Some ov) (ip_headers q)\<rparr>)) (iocp_remove key q)
                      else Some (Inr key, iocp_set key (\<lambda>s. s\<lparr>is_interest := Some ov\<rparr>) q))
              | SubmissionBlocking \<Rightarrow> Some (Inr key, iocp_set key (\<lambda>s. s\<lparr>is_job := True\<rparr>) q))))"

text \<open>\<^verbatim>\<open>remove_op\<close>: an unread completion if there is one, the payload left in the future, the backend.\<close>

definition iocp_remove_op ::
  "op_key \<Rightarrow> 'd option \<Rightarrow> ('w, 'd) iocp \<Rightarrow> (completion option \<times> 'd option \<times> ('w, 'd) iocp) option" where
  "iocp_remove_op key data q =
     (case op_get (ip_ops q) key of
        None \<Rightarrow> Some (None, data, q)
      | Some s \<Rightarrow>
          (let detach =
             (if is_job s
              then map_option (\<lambda>q. (None, None, q)) (iocp_remove key (iocp_set key (\<lambda>s. s\<lparr>is_job := False\<rparr>) q))
              else map_option (\<lambda>d. (None, None, iocp_set_state key (IDetached (Payload d)) (cancel_pending (is_interest s) q))) data);
             gone = map_option (\<lambda>d. (None, None, iocp_set_state key (ICanceling (IDetachedObserver (Payload d))) q)) data
           in
             case is_state s of
               ISubmitted \<Rightarrow> detach
             | IWaiting _ \<Rightarrow> detach
             | ICanceling IPendingObserver \<Rightarrow> gone
             | ICanceling (IWaitingObserver _) \<Rightarrow> gone
             | ICompleted c \<Rightarrow> map_option (\<lambda>q. (Some c, data, q)) (iocp_remove key q)
             | IDetached _ \<Rightarrow> None
             | ICanceling (IDetachedObserver _) \<Rightarrow> None))"

text \<open>995 is \<^verbatim>\<open>ERROR_OPERATION_ABORTED\<close>.\<close>

definition aborted_completion :: completion where
  "aborted_completion = completion_new (Inl (RawOs 995))"

definition iocp_cancel_op :: "op_key \<Rightarrow> ('w, 'd) iocp \<Rightarrow> ('w, 'd) iocp" where
  "iocp_cancel_op key q =
     (case op_get (ip_ops q) key of
        None \<Rightarrow> q
      | Some s \<Rightarrow>
          (case is_state s of
             ISubmitted \<Rightarrow>
               if is_job s then iocp_set key (\<lambda>s. s\<lparr>is_job := False, is_state := ICompleted aborted_completion\<rparr>) q
               else iocp_set_state key (ICanceling IPendingObserver) (cancel_pending (is_interest s) q)
           | IWaiting w \<Rightarrow> iocp_set_state key (ICanceling (IWaitingObserver w)) (cancel_pending (is_interest s) q)
           | IDetached d \<Rightarrow> iocp_set_state key (ICanceling (IDetachedObserver d)) (cancel_pending (is_interest s) q)
           | _ \<Rightarrow> q))"

text \<open>\<^verbatim>\<open>poll_op\<close>: \<open>pushed\<close> is the outcome of \<^verbatim>\<open>push_blocking\<close>, whose job is then the pool's.\<close>

definition iocp_poll_op ::
  "unit io_result \<Rightarrow> 'w \<Rightarrow> op_key \<Rightarrow> ('w, 'd) iocp \<Rightarrow> (completion poll \<times> ('w, 'd) iocp) option" where
  "iocp_poll_op pushed w key q =
     (case op_get (ip_ops q) key of
        None \<Rightarrow> None
      | Some s \<Rightarrow>
          if is_job s then
            (let q = iocp_set key (\<lambda>s. s\<lparr>is_job := False, is_state := IWaiting w\<rparr>) q in
             case pushed of
               Inl e \<Rightarrow> map_option (Pair (Ready (completion_new (Inl e)))) (iocp_remove key q)
             | Inr _ \<Rightarrow> Some (Pending, q\<lparr>ip_jobs := ip_jobs q @ [key]\<rparr>))
          else
            (case is_state s of
               ISubmitted \<Rightarrow> Some (Pending, iocp_set_state key (IWaiting w) q)
             | IWaiting _ \<Rightarrow> Some (Pending, iocp_set_state key (IWaiting w) q)
             | ICanceling IPendingObserver \<Rightarrow> Some (Pending, iocp_set_state key (ICanceling (IWaitingObserver w)) q)
             | ICanceling (IWaitingObserver _) \<Rightarrow> Some (Pending, iocp_set_state key (ICanceling (IWaitingObserver w)) q)
             | ICompleted c \<Rightarrow> map_option (Pair (Ready c)) (iocp_remove key q)
             | IDetached _ \<Rightarrow> None
             | ICanceling (IDetachedObserver _) \<Rightarrow> None))"

section \<open>Completions\<close>

definition iocp_actions :: "'w option \<Rightarrow> ('w, 'd) deferred option \<Rightarrow> ('w, 'd) deferred list" where
  "iocp_actions wk cl = (case wk of None \<Rightarrow> [] | Some w \<Rightarrow> [WakeTask w]) @ (case cl of None \<Rightarrow> [] | Some a \<Rightarrow> [a])"

text \<open>Both loops apply a completion to the slot's state and remove the slot if it is detached.\<close>

definition iocp_finish ::
  "op_key \<Rightarrow> completion \<Rightarrow> ('w, 'd) iocp_state \<Rightarrow> ('w, 'd) iocp \<Rightarrow> (('w, 'd) deferred list \<times> ('w, 'd) iocp) option" where
  "iocp_finish key c st q =
     (case iocp_complete c st of (remove, wk, cl, st) \<Rightarrow>
        let q = iocp_set_state key st q in
        if remove then map_option (Pair (iocp_actions wk cl)) (iocp_remove key q) else Some (iocp_actions wk cl, q))"

fun iocp_drain_done ::
  "(op_key \<times> completion) list \<Rightarrow> ('w, 'd) iocp \<Rightarrow> (('w, 'd) deferred list \<times> ('w, 'd) iocp) option" where
  "iocp_drain_done [] q = Some ([], q)"
| "iocp_drain_done ((key, c) # rest) q =
     (case (case op_get (ip_ops q) key of None \<Rightarrow> Some ([], q) | Some s \<Rightarrow> iocp_finish key c (is_state s) q) of
        None \<Rightarrow> None
      | Some (ds, q) \<Rightarrow> map_option (\<lambda>(ds', q). (ds @ ds', q)) (iocp_drain_done rest q))"

definition iocp_drain :: "('w, 'd) iocp \<Rightarrow> (('w, 'd) deferred list \<times> ('w, 'd) iocp) option" where
  "iocp_drain q = iocp_drain_done (ip_done q) (q\<lparr>ip_done := []\<rparr>)"

text \<open>The status is the low half of \<^verbatim>\<open>Internal\<close>, read as a signed integer.\<close>

definition packet_completion :: "(u32 \<Rightarrow> u32) \<Rightarrow> iocp_packet \<Rightarrow> completion" where
  "packet_completion dos e =
     (let status = (ucast (pk_internal e) :: u32)
      in completion_new (if sint status \<ge> 0 then Inr (pk_bytes e) else Inl (RawOs (sint (dos status)))))"

definition iocp_dispatch_one ::
  "(u32 \<Rightarrow> u32) \<Rightarrow> iocp_packet \<Rightarrow> ('w, 'd) iocp \<Rightarrow> (('w, 'd) deferred list \<times> ('w, 'd) iocp) option" where
  "iocp_dispatch_one dos e q =
     (let a = pk_overlapped e in
      if a = 0 then Some ([], q)
      else
        (case ip_pending q a of
           None \<Rightarrow> Some ([], q)
         | Some expected \<Rightarrow>
             (case ip_headers q a of
                None \<Rightarrow> None
              | Some key \<Rightarrow>
                  if key \<noteq> expected then None
                  else
                    (let q = q\<lparr>ip_pending := (ip_pending q)(a := None)\<rparr> in
                     case op_get (ip_ops q) key of
                       None \<Rightarrow> Some ([], q)
                     | Some s \<Rightarrow>
                         iocp_finish key (packet_completion dos e) (is_state s)
                           (iocp_set key (\<lambda>s. s\<lparr>is_interest := None\<rparr>)
                              (q\<lparr>ip_headers := free_interest (is_interest s) (ip_headers q)\<rparr>))))))"

fun iocp_dispatch_all ::
  "(u32 \<Rightarrow> u32) \<Rightarrow> iocp_packet list \<Rightarrow> ('w, 'd) iocp \<Rightarrow> (('w, 'd) deferred list \<times> ('w, 'd) iocp) option" where
  "iocp_dispatch_all dos [] q = Some ([], q)"
| "iocp_dispatch_all dos (e # es) q =
     (case iocp_dispatch_one dos e q of
        None \<Rightarrow> None
      | Some (ds, q) \<Rightarrow> map_option (\<lambda>(ds', q). (ds @ ds', q)) (iocp_dispatch_all dos es q))"

definition iocp_dispatch ::
  "(u32 \<Rightarrow> u32) \<Rightarrow> ('w, 'd) iocp \<Rightarrow> (('w, 'd) deferred list \<times> ('w, 'd) iocp) option" where
  "iocp_dispatch dos q = map_option (\<lambda>(ds, q). (ds, q\<lparr>ip_entries := []\<rparr>)) (iocp_dispatch_all dos (ip_entries q) q)"

definition iocp_run :: "('w, 'd) deferred list \<Rightarrow> ('w, 'd) iocp \<Rightarrow> ('w, 'd) iocp" where
  "iocp_run ds q = q\<lparr>ip_ran := ip_ran q @ ds\<rparr>"

text \<open>What follows a wait, in \<^verbatim>\<open>Driver::turn\<close> and in the loop of \<^verbatim>\<open>shutdown\<close>.\<close>

definition iocp_settle :: "(u32 \<Rightarrow> u32) \<Rightarrow> ('w, 'd) iocp \<Rightarrow> ('w, 'd) iocp option" where
  "iocp_settle dos q =
     (case iocp_drain q of
        None \<Rightarrow> None
      | Some (ds, q) \<Rightarrow> map_option (\<lambda>(ds, q). iocp_run ds q) (iocp_dispatch dos (iocp_run ds q)))"

definition iocp_turn ::
  "(u32 \<Rightarrow> u32) \<Rightarrow> nat io_result \<Rightarrow> ('w, 'd) iocp \<Rightarrow> (nat io_result \<times> ('w, 'd) iocp) option" where
  "iocp_turn dos r q =
     (case get_many r q of
        (Inl e, q) \<Rightarrow> Some (Inl e, q)
      | (Inr n, q) \<Rightarrow> map_option (Pair (Inr n)) (iocp_settle dos q))"

section \<open>Shutdown\<close>

fun is_detached :: "('w, 'd) iocp_state \<Rightarrow> bool" where
  "is_detached (IDetached _) = True"
| "is_detached (ICanceling (IDetachedObserver _)) = True"
| "is_detached _ = False"

definition detach_slot :: "op_key \<Rightarrow> ('w, 'd) iocp_slot \<Rightarrow> ('w, 'd) iocp \<Rightarrow> ('w, 'd) iocp" where
  "detach_slot key s q =
     (case is_state s of
        ISubmitted \<Rightarrow> iocp_set_state key (IDetached Placeholder) (cancel_pending (is_interest s) q)
      | IWaiting _ \<Rightarrow> iocp_set_state key (IDetached Placeholder) (cancel_pending (is_interest s) q)
      | ICanceling IPendingObserver \<Rightarrow> iocp_set_state key (ICanceling (IDetachedObserver Placeholder)) (cancel_pending (is_interest s) q)
      | ICanceling (IWaitingObserver _) \<Rightarrow> iocp_set_state key (ICanceling (IDetachedObserver Placeholder)) (cancel_pending (is_interest s) q)
      | _ \<Rightarrow> q)"

fun detach_all :: "(op_key \<times> ('w, 'd) iocp_slot) list \<Rightarrow> ('w, 'd) iocp \<Rightarrow> ('w, 'd) iocp" where
  "detach_all [] q = q"
| "detach_all ((key, s) # rest) q = detach_all rest (detach_slot key s q)"

text \<open>
  The loop waits with no timeout while a slot is detached.  An event is what happens during one call of \<^verbatim>\<open>wait\<close> and its outcome; a wait that
  fetches nothing has not returned, and the next event is part of the same call.  The flag of the result says whether the loop has ended;
  if not, the script is used up while the thread still waits.
\<close>

fun iocp_drain_loop ::
  "(u32 \<Rightarrow> u32) \<Rightarrow> (iocp_world list \<times> nat io_result) list \<Rightarrow> ('w, 'd) iocp \<Rightarrow> (bool \<times> ('w, 'd) iocp) option" where
  "iocp_drain_loop dos evs q =
     (case op_iter (ip_ops q) of
        None \<Rightarrow> None
      | Some pairs \<Rightarrow>
          if \<not> list_ex (\<lambda>(_, s). is_detached (is_state s)) pairs then Some (True, q)
          else
            (case evs of
               [] \<Rightarrow> Some (False, q)
             | (ws, r) # evs \<Rightarrow>
                 (case get_many r (fold iocp_world_step ws q) of
                    (Inl e, q) \<Rightarrow> iocp_drain_loop dos evs q
                  | (Inr n, q) \<Rightarrow>
                      if n = 0 then iocp_drain_loop dos evs q
                      else (case iocp_settle dos q of None \<Rightarrow> None | Some q \<Rightarrow> iocp_drain_loop dos evs q))))"

declare iocp_drain_loop.simps [simp del]

definition free_all :: "(op_key \<times> ('w, 'd) iocp_slot) list \<Rightarrow> (nat \<rightharpoonup> op_key) \<Rightarrow> nat \<rightharpoonup> op_key" where
  "free_all pairs h = fold (\<lambda>(_, s). free_interest (is_interest s)) pairs h"

definition iocp_clear :: "('w, 'd) iocp \<Rightarrow> ('w, 'd) iocp option" where
  "iocp_clear q =
     (case (op_iter (ip_ops q), op_clear (ip_ops q)) of
        (Some pairs, Some t) \<Rightarrow> Some (q\<lparr>ip_ops := t, ip_headers := free_all pairs (ip_headers q)\<rparr>)
      | _ \<Rightarrow> None)"

definition iocp_shutdown ::
  "(u32 \<Rightarrow> u32) \<Rightarrow> (iocp_world list \<times> nat io_result) list \<Rightarrow> ('w, 'd) iocp \<Rightarrow> (bool \<times> ('w, 'd) iocp) option" where
  "iocp_shutdown dos evs q =
     (if ip_shutting_down q then Some (True, q)
      else
        (case op_iter (ip_ops q) of
           None \<Rightarrow> None
         | Some pairs \<Rightarrow>
             (case iocp_drain_loop dos evs (detach_all pairs (q\<lparr>ip_shutting_down := True, ip_closed := True\<rparr>)) of
                None \<Rightarrow> None
              | Some (False, q) \<Rightarrow> Some (False, q)
              | Some (True, q) \<Rightarrow> map_option (Pair True) (iocp_clear q))))"

text \<open>
  The end of \<^verbatim>\<open>Drop for Runtime\<close>: the pool has been shut down - joined, or given up after \<^verbatim>\<open>shutdown_timeout\<close> - and the driver drains its completions and shuts down.
\<close>

definition iocp_teardown ::
  "(u32 \<Rightarrow> u32) \<Rightarrow> (iocp_world list \<times> nat io_result) list \<Rightarrow> ('w, 'd) iocp \<Rightarrow> (bool \<times> ('w, 'd) iocp) option" where
  "iocp_teardown dos evs q =
     (case iocp_drain q of None \<Rightarrow> None | Some (ds, q) \<Rightarrow> iocp_shutdown dos evs (iocp_run ds q))"

end
