(* ===== verification/Iocp_Safety.thy ===== *)
theory Iocp_Safety
  imports Iocp
begin

text \<open>
  What always holds of the Windows backend: every request that Windows holds, or whose packet is queued, has its header alive and stamped
  with the key of the slot that owns it.  The loops that apply completions are proved once, in a locale, for any assertion about
  slots that survives a completion; it is interpreted for a program of futures here, and for shutdown in the next theory.
\<close>

section \<open>The backend and Windows\<close>

text \<open>The table of pending addresses is the inverse of the slots' interests.\<close>

definition owners_ok :: "(op_key \<rightharpoonup> ('w, 'd) iocp_slot) \<Rightarrow> (nat \<rightharpoonup> op_key) \<Rightarrow> bool" where
  "owners_ok V P \<longleftrightarrow> (\<forall>a k. P a = Some k \<longleftrightarrow> (\<exists>s ov. V k = Some s \<and> is_interest s = Some ov \<and> ov_address ov = a))"

text \<open>A pending request is in flight or has one packet; Windows holds no other address of the backend.\<close>

definition kernel_ok :: "(nat \<rightharpoonup> op_key) \<Rightarrow> nat list \<Rightarrow> iocp_packet list \<Rightarrow> bool" where
  "kernel_ok P fl ps \<longleftrightarrow> P 0 = None \<and> (\<forall>a \<in> set fl. P a \<noteq> None) \<and>
     (\<forall>a. P a \<noteq> None \<longrightarrow> count_list (fl @ map pk_overlapped ps) a = 1)"

definition iocp_running :: "('w, 'd) iocp \<Rightarrow> (op_key \<times> completion) list \<Rightarrow> op_key list" where
  "iocp_running q dn = ip_jobs q @ map fst dn"

text \<open>\<open>dn\<close>, \<open>es\<close> and \<open>ds\<close> are completions, packets and actions that are being processed; \<open>R\<close> is an assertion about each slot, given the actions so far and whether its job is under way.\<close>

definition iocp_inv ::
  "(('w, 'd) deferred list \<Rightarrow> op_key \<Rightarrow> bool \<Rightarrow> ('w, 'd) iocp_slot option \<Rightarrow> bool) \<Rightarrow>
     (op_key \<times> completion) list \<Rightarrow> iocp_packet list \<Rightarrow> ('w, 'd) deferred list \<Rightarrow> ('w, 'd) iocp \<Rightarrow> bool" where
  "iocp_inv R dn es ds q \<longleftrightarrow>
     op_inv (ip_ops q) \<and> distinct (iocp_running q (ip_done q @ dn)) \<and> owners_ok (op_get (ip_ops q)) (ip_pending q) \<and>
     ip_headers q = ip_pending q \<and> kernel_ok (ip_pending q) (ip_in_flight q) (ip_port q @ es) \<and>
     (\<forall>k. R (ip_ran q @ ds) k (k \<in> set (iocp_running q (ip_done q @ dn))) (op_get (ip_ops q) k))"

lemma iocp_invD:
  assumes "iocp_inv R dn es ds q"
  shows "op_inv (ip_ops q)" "distinct (iocp_running q (ip_done q @ dn))" "owners_ok (op_get (ip_ops q)) (ip_pending q)"
    "ip_headers q = ip_pending q" "kernel_ok (ip_pending q) (ip_in_flight q) (ip_port q @ es)"
    "\<And>k. R (ip_ran q @ ds) k (k \<in> set (iocp_running q (ip_done q @ dn))) (op_get (ip_ops q) k)"
  using assms by (simp_all add: iocp_inv_def)

subsection \<open>Interests\<close>

lemma owners_state: "owners_ok V P \<Longrightarrow> V k = Some s \<Longrightarrow> is_interest s' = is_interest s \<Longrightarrow> owners_ok (V(k \<mapsto> s')) P"
  by (auto simp: owners_ok_def)

lemma owners_gone: "owners_ok V P \<Longrightarrow> (\<And>s. V k = Some s \<Longrightarrow> is_interest s = None) \<Longrightarrow> owners_ok (V(k := None)) P"
  by (fastforce simp: owners_ok_def)

lemma owners_fresh: "owners_ok V P \<Longrightarrow> V k = None \<Longrightarrow> is_interest s = None \<Longrightarrow> owners_ok (V(k \<mapsto> s)) P"
  by (auto simp: owners_ok_def)

lemma owners_taken:
  assumes "owners_ok V P" "V k = Some s" "is_interest s = Some ov"
  shows "P (ov_address ov) = Some k" "is_interest s' = None \<Longrightarrow> owners_ok (V(k \<mapsto> s')) (P(ov_address ov := None))"
    "owners_ok (V(k := None)) (P(ov_address ov := None))"
proof -
  have iff: "P a = Some j \<longleftrightarrow> (\<exists>s ov. V j = Some s \<and> is_interest s = Some ov \<and> ov_address ov = a)" for a j
    using assms(1) by (simp add: owners_ok_def)
  show k: "P (ov_address ov) = Some k" unfolding iff using assms(2,3) by auto
  have other: "ov_address ov' \<noteq> ov_address ov" if "V j = Some s'" "is_interest s' = Some ov'" "j \<noteq> k" for j s' ov'
  proof
    assume "ov_address ov' = ov_address ov"
    then have "P (ov_address ov) = Some j" unfolding iff using that by auto
    then show False using k that(3) by simp
  qed
  have own: "a = ov_address ov" if "P a = Some k" for a using that assms(2,3) unfolding iff by auto
  show "owners_ok (V(k \<mapsto> s')) (P(ov_address ov := None))" if "is_interest s' = None"
    using that other own unfolding owners_ok_def by (auto simp: iff)
  show "owners_ok (V(k := None)) (P(ov_address ov := None))"
    using other own unfolding owners_ok_def by (auto simp: iff)
qed

lemma owners_installed:
  assumes "owners_ok V P" "V k = None" "P (ov_address ov) = None" "is_interest s' = Some ov"
  shows "owners_ok (V(k \<mapsto> s')) (P(ov_address ov \<mapsto> k))"
proof -
  have iff: "P a = Some j \<longleftrightarrow> (\<exists>s ov. V j = Some s \<and> is_interest s = Some ov \<and> ov_address ov = a)" for a j
    using assms(1) by (simp add: owners_ok_def)
  have "ov_address ov' \<noteq> ov_address ov" if "V j = Some s0" "is_interest s0 = Some ov'" for j s0 ov'
  proof
    assume "ov_address ov' = ov_address ov"
    then have "P (ov_address ov) = Some j" unfolding iff using that by auto
    then show False using assms(3) by simp
  qed
  moreover have "P a \<noteq> Some k" for a using assms(2) unfolding iff by auto
  ultimately show ?thesis using assms(4) unfolding owners_ok_def by (auto simp: iff)
qed

lemma kernel_done:
  assumes "kernel_ok P fl (ps @ e # es)"
  shows "kernel_ok (P(pk_overlapped e := None)) fl (ps @ es)"
proof -
  have one: "count_list (fl @ map pk_overlapped (ps @ e # es)) a = 1" if "P a \<noteq> None" for a
    using assms that by (simp add: kernel_ok_def)
  have "pk_overlapped e \<notin> set fl"
  proof
    assume a: "pk_overlapped e \<in> set fl"
    then have "P (pk_overlapped e) \<noteq> None" using assms by (simp add: kernel_ok_def)
    from one [OF this] a show False by (auto simp: count_list_0_iff)
  qed
  then have "a \<noteq> pk_overlapped e" if "a \<in> set fl" for a using that by blast
  moreover have "count_list (fl @ map pk_overlapped (ps @ es)) a = 1" if "P a \<noteq> None" "a \<noteq> pk_overlapped e" for a
    using one [OF that(1)] that(2) by simp
  ultimately show ?thesis using assms by (simp add: kernel_ok_def del: count_list_append map_append)
qed

lemma kernel_skip: "kernel_ok P fl (ps @ e # es) \<Longrightarrow> P (pk_overlapped e) = None \<Longrightarrow> kernel_ok P fl (ps @ es)"
  using kernel_done by (metis fun_upd_triv)

lemma kernel_new:
  assumes "kernel_ok P fl ps" "a \<noteq> 0" "P a = None" "a \<notin> pk_overlapped ` set ps"
  shows "kernel_ok (P(a \<mapsto> k)) (fl @ [a]) ps"
proof -
  have "a \<notin> set fl" using assms by (auto simp: kernel_ok_def)
  then have "count_list (fl @ map pk_overlapped ps) a = 0" using assms(4) by (simp add: image_iff)
  then show ?thesis using assms(1-3) by (auto simp: kernel_ok_def)
qed

subsection \<open>Slots\<close>

lemma iocp_set_fields [simp]:
  "ip_pending (iocp_set k f q) = ip_pending q" "ip_entries (iocp_set k f q) = ip_entries q" "ip_capacity (iocp_set k f q) = ip_capacity q"
  "ip_done (iocp_set k f q) = ip_done q" "ip_shutting_down (iocp_set k f q) = ip_shutting_down q" "ip_closed (iocp_set k f q) = ip_closed q"
  "ip_headers (iocp_set k f q) = ip_headers q" "ip_in_flight (iocp_set k f q) = ip_in_flight q" "ip_port (iocp_set k f q) = ip_port q"
  "ip_cancels (iocp_set k f q) = ip_cancels q" "ip_jobs (iocp_set k f q) = ip_jobs q" "ip_ran (iocp_set k f q) = ip_ran q"
  by (simp_all add: iocp_set_def)

lemma cancel_fields [simp]:
  "ip_ops (cancel_pending ov q) = ip_ops q" "ip_pending (cancel_pending ov q) = ip_pending q" "ip_entries (cancel_pending ov q) = ip_entries q"
  "ip_done (cancel_pending ov q) = ip_done q" "ip_headers (cancel_pending ov q) = ip_headers q" "ip_in_flight (cancel_pending ov q) = ip_in_flight q"
  "ip_port (cancel_pending ov q) = ip_port q" "ip_jobs (cancel_pending ov q) = ip_jobs q" "ip_ran (cancel_pending ov q) = ip_ran q"
  "ip_closed (cancel_pending ov q) = ip_closed q" "ip_shutting_down (cancel_pending ov q) = ip_shutting_down q" "ip_capacity (cancel_pending ov q) = ip_capacity q"
  by (simp_all add: cancel_pending_def split: option.splits)

lemma iocp_set_get:
  assumes "op_inv (ip_ops q)" "op_get (ip_ops q) k = Some s"
  shows "op_inv (ip_ops (iocp_set k f q))" "op_get (ip_ops (iocp_set k f q)) = (op_get (ip_ops q))(k \<mapsto> f s)"
  using ops.upd_inv [OF assms(1)] ops.upd_some [OF assms] by (auto simp: iocp_set_def)

lemma iocp_remove_get:
  assumes "op_inv (ip_ops q)" "op_get (ip_ops q) k = Some s" "is_interest s = None"
  obtains t where "iocp_remove k q = Some (q\<lparr>ip_ops := t\<rparr>)" "op_inv t" "op_get t = (op_get (ip_ops q))(k := None)"
proof -
  obtain t where "op_remove (ip_ops q) k = Some (op_get (ip_ops q) k, t)" "op_inv t" "op_get t = (op_get (ip_ops q))(k := None)"
    by (rule ops.remE [OF assms(1)])
  then show thesis using assms(2,3) by (intro that [of t]) (simp_all add: iocp_remove_def free_interest_def)
qed

lemma iocp_running_simps [simp]:
  "iocp_running (iocp_set k f q) dn = iocp_running q dn" "iocp_running (cancel_pending ov q) dn = iocp_running q dn"
  "iocp_running (q\<lparr>ip_ops := t\<rparr>) dn = iocp_running q dn" "iocp_running (q\<lparr>ip_done := x\<rparr>) dn = iocp_running q dn"
  "iocp_running (q\<lparr>ip_headers := h\<rparr>) dn = iocp_running q dn" "iocp_running (q\<lparr>ip_pending := h\<rparr>) dn = iocp_running q dn"
  "iocp_running (q\<lparr>ip_entries := es\<rparr>) dn = iocp_running q dn" "iocp_running (q\<lparr>ip_port := ps\<rparr>) dn = iocp_running q dn"
  "iocp_running (q\<lparr>ip_ran := L\<rparr>) dn = iocp_running q dn" "iocp_running (q\<lparr>ip_in_flight := fl\<rparr>) dn = iocp_running q dn"
  by (simp_all add: iocp_running_def)

section \<open>Applying completions\<close>

text \<open>What processing completions and packets leaves alone.\<close>

definition iocp_same :: "('w, 'd) iocp \<Rightarrow> ('w, 'd) iocp \<Rightarrow> bool" where
  "iocp_same q q' \<longleftrightarrow> ip_ran q' = ip_ran q \<and> ip_done q' = ip_done q \<and> ip_jobs q' = ip_jobs q \<and> ip_entries q' = ip_entries q \<and>
     ip_shutting_down q' = ip_shutting_down q \<and> ip_closed q' = ip_closed q \<and> ip_in_flight q' = ip_in_flight q \<and> ip_port q' = ip_port q \<and>
     ip_capacity q' = ip_capacity q \<and> ip_cancels q' = ip_cancels q \<and> ip_pending q' \<subseteq>\<^sub>m ip_pending q"

lemma iocp_same_refl [simp]: "iocp_same q q"
  by (simp add: iocp_same_def)

lemma iocp_same_trans: "iocp_same p q \<Longrightarrow> iocp_same q r \<Longrightarrow> iocp_same p r"
  by (auto simp: iocp_same_def elim: map_le_trans)

locale slot_contract =
  fixes R :: "('w, 'd) deferred list \<Rightarrow> op_key \<Rightarrow> bool \<Rightarrow> ('w, 'd) iocp_slot option \<Rightarrow> bool"
  assumes more: "R L k run slot \<Longrightarrow> R (L @ X) k run slot"
    and owned: "\<not> R L k True None"
    and exclusive: "R L k True (Some s) \<Longrightarrow> is_interest s = None"
    and completes: "R L k run (Some s) \<Longrightarrow> run \<or> is_interest s \<noteq> None \<Longrightarrow> iocp_complete c (is_state s) = (rm, wk, cl, st) \<Longrightarrow>
      R (L @ iocp_actions wk cl) k False (if rm then None else Some (s\<lparr>is_interest := None, is_state := st\<rparr>))"
begin

lemma update:
  assumes inv: "iocp_inv R dn es ds q" and t: "op_inv (ip_ops q')" "op_get (ip_ops q') = (op_get (ip_ops q))(k := slot)"
    and regs: "owners_ok ((op_get (ip_ops q))(k := slot)) (ip_pending q')" "ip_headers q' = ip_pending q'"
      "kernel_ok (ip_pending q') (ip_in_flight q') (ip_port q' @ es')"
    and jobs: "distinct (iocp_running q' (ip_done q' @ dn'))"
      "\<And>j. j \<noteq> k \<Longrightarrow> (j \<in> set (iocp_running q' (ip_done q' @ dn'))) = (j \<in> set (iocp_running q (ip_done q @ dn)))"
    and slot: "R' (ip_ran q' @ ds') k (k \<in> set (iocp_running q' (ip_done q' @ dn'))) slot"
    and other: "\<And>L j run sl. j \<noteq> k \<Longrightarrow> R L j run sl \<Longrightarrow> R' L j run sl"
    and log: "ip_ran q' @ ds' = (ip_ran q @ ds) @ extra"
  shows "iocp_inv R' dn' es' ds' q'"
proof -
  note i = iocp_invD [OF inv]
  have "R' (ip_ran q' @ ds') j (j \<in> set (iocp_running q' (ip_done q' @ dn'))) (op_get (ip_ops q') j)" for j
  proof (cases "j = k")
    case False
    then show ?thesis using other [OF False more [OF i(6) [of j], of extra]] jobs(2) log t(2) by simp
  qed (use slot t in simp)
  then show ?thesis using t regs jobs(1) by (simp add: iocp_inv_def)
qed

lemma finish:
  assumes inv: "iocp_inv R dn es ds q" and s: "op_get (ip_ops q) k = Some s"
    and v: "op_inv (ip_ops v)" "op_get (ip_ops v) = (op_get (ip_ops q))(k \<mapsto> s\<lparr>is_interest := None\<rparr>)"
    and regs: "owners_ok (op_get (ip_ops v)) (ip_pending v)" "ip_headers v = ip_pending v" "kernel_ok (ip_pending v) (ip_in_flight v) (ip_port v @ es')"
    and same: "iocp_same q v"
    and jobs: "distinct (iocp_running q (ip_done q @ dn'))" "k \<notin> set (iocp_running q (ip_done q @ dn'))"
      "\<And>j. j \<noteq> k \<Longrightarrow> (j \<in> set (iocp_running q (ip_done q @ dn'))) = (j \<in> set (iocp_running q (ip_done q @ dn)))"
    and ends: "k \<in> set (iocp_running q (ip_done q @ dn)) \<or> is_interest s \<noteq> None"
  shows "\<exists>ds1 q'. iocp_finish k c (is_state s) v = Some (ds1, q') \<and> iocp_inv R dn' es' (ds @ ds1) q' \<and> iocp_same q q'"
proof -
  note i = iocp_invD [OF inv]
  obtain rm wk cl st where c: "iocp_complete c (is_state s) = (rm, wk, cl, st)" by (cases "iocp_complete c (is_state s)")
  let ?v = "iocp_set_state k st v" and ?ds = "iocp_actions wk cl"
  have R: "R ((ip_ran q @ ds) @ ?ds) k False (if rm then None else Some (s\<lparr>is_interest := None, is_state := st\<rparr>))"
    using completes [OF i(6) [of k, unfolded s] ends c] .
  have vk: "op_get (ip_ops v) k = Some (s\<lparr>is_interest := None\<rparr>)" using v(2) by simp
  have g: "op_inv (ip_ops ?v)" "op_get (ip_ops ?v) = (op_get (ip_ops q))(k \<mapsto> s\<lparr>is_interest := None, is_state := st\<rparr>)"
    using iocp_set_get [OF v(1) vk, of "\<lambda>s. s\<lparr>is_state := st\<rparr>"] v(2) by simp_all
  have run: "iocp_running v x = iocp_running q x" for x using same by (simp add: iocp_running_def iocp_same_def)
  have eqs: "ip_ran v = ip_ran q" "ip_done v = ip_done q" using same by (simp_all add: iocp_same_def)
  show ?thesis
  proof (cases rm)
    case False
    have own: "owners_ok (op_get (ip_ops ?v)) (ip_pending v)"
      using owners_state [OF regs(1) vk, of "s\<lparr>is_interest := None, is_state := st\<rparr>"] g(2) by (simp add: v(2) del: fun_upd_apply)
    have "iocp_inv R dn' es' (ds @ ?ds) ?v"
      by (rule update [OF inv g, where extra = ?ds])
         (use R False jobs regs own g(2) run eqs in simp_all)
    moreover have "iocp_same q ?v" using same by (simp add: iocp_same_def)
    ultimately show ?thesis using c False by (simp add: iocp_finish_def)
  next
    case True
    have vk': "op_get (ip_ops ?v) k = Some (s\<lparr>is_interest := None, is_state := st\<rparr>)" using g(2) by simp
    obtain t where t: "iocp_remove k ?v = Some (?v\<lparr>ip_ops := t\<rparr>)" "op_inv t" "op_get t = (op_get (ip_ops ?v))(k := None)"
      by (rule iocp_remove_get [OF g(1) vk']) simp_all
    have own: "owners_ok ((op_get (ip_ops q))(k := None)) (ip_pending v)" using owners_gone [OF regs(1), of k] v(2) by simp
    have "iocp_inv R dn' es' (ds @ ?ds) (?v\<lparr>ip_ops := t\<rparr>)"
      by (rule update [OF inv, where k = k and slot = None and extra = ?ds])
         (use R True t g(2) jobs regs own run eqs in simp_all)
    moreover have "iocp_same q (?v\<lparr>ip_ops := t\<rparr>)" using same by (simp add: iocp_same_def)
    ultimately show ?thesis using c True t(1) by (simp add: iocp_finish_def)
  qed
qed

lemma drain_done:
  assumes "iocp_inv R dn es ds q"
  shows "\<exists>ds1 q'. iocp_drain_done dn q = Some (ds1, q') \<and> iocp_inv R [] es (ds @ ds1) q' \<and> iocp_same q q'"
  using assms
proof (induction dn arbitrary: q ds)
  case (Cons x rest)
  obtain k c where x: "x = (k, c)" by (cases x)
  have inv: "iocp_inv R ((k, c) # rest) es ds q" using Cons.prems x by simp
  note i = iocp_invD [OF inv]
  have run: "k \<in> set (iocp_running q (ip_done q @ (k, c) # rest))" by (simp add: iocp_running_def)
  then obtain s where s: "op_get (ip_ops q) k = Some s" using i(6) [of k] owned by (cases "op_get (ip_ops q) k") auto
  have none: "is_interest s = None" using i(6) [of k] run s exclusive by simp
  then have ss: "s\<lparr>is_interest := None\<rparr> = s" by simp
  have "\<exists>ds1 q'. iocp_finish k c (is_state s) q = Some (ds1, q') \<and> iocp_inv R rest es (ds @ ds1) q' \<and> iocp_same q q'"
    by (rule finish [OF inv s]) (use i(1-5) s ss run in \<open>auto simp: iocp_running_def\<close>)
  then obtain ds1 q1 where q1: "iocp_finish k c (is_state s) q = Some (ds1, q1)" "iocp_inv R rest es (ds @ ds1) q1" "iocp_same q q1" by blast
  obtain ds2 q2 where q2: "iocp_drain_done rest q1 = Some (ds2, q2)" "iocp_inv R [] es ((ds @ ds1) @ ds2) q2" "iocp_same q1 q2"
    using Cons.IH [OF q1(2)] by blast
  show ?case using x s q1(1) q2(1,2) iocp_same_trans [OF q1(3) q2(3)] by auto
qed auto

lemma dispatch_one:
  assumes inv: "iocp_inv R [] (e # es) ds q"
  shows "\<exists>ds1 q'. iocp_dispatch_one dos e q = Some (ds1, q') \<and> iocp_inv R [] es (ds @ ds1) q' \<and> iocp_same q q'"
proof -
  note i = iocp_invD [OF inv]
  let ?a = "pk_overlapped e"
  show ?thesis
  proof (cases "ip_pending q ?a")
    case None
    have "iocp_inv R [] es ds q" using inv kernel_skip [OF i(5) None] by (simp add: iocp_inv_def)
    then show ?thesis using None by (auto simp: iocp_dispatch_one_def Let_def)
  next
    case (Some k)
    have a: "?a \<noteq> 0" using i(5) Some by (metis kernel_ok_def option.distinct(1))
    obtain s ov where s: "op_get (ip_ops q) k = Some s" "is_interest s = Some ov" "ov_address ov = ?a"
      using i(3) Some unfolding owners_ok_def by blast
    let ?u = "q\<lparr>ip_pending := (ip_pending q)(?a := None), ip_headers := (ip_headers q)(?a := None)\<rparr>"
    let ?v = "iocp_set k (\<lambda>s. s\<lparr>is_interest := None\<rparr>) ?u"
    have g: "op_inv (ip_ops ?v)" "op_get (ip_ops ?v) = (op_get (ip_ops q))(k \<mapsto> s\<lparr>is_interest := None\<rparr>)"
      using iocp_set_get [of ?u k s "\<lambda>s. s\<lparr>is_interest := None\<rparr>"] i(1) s(1) by simp_all
    have notrun: "k \<notin> set (iocp_running q (ip_done q))" using i(6) [of k] s exclusive by fastforce
    have "\<exists>ds1 q'. iocp_finish k (packet_completion dos e) (is_state s) ?v = Some (ds1, q') \<and> iocp_inv R [] es (ds @ ds1) q' \<and> iocp_same q q'"
      by (rule finish [OF inv s(1) g])
         (use i(2,4) notrun s g(2) owners_taken(2) [OF i(3) s(1,2), of "s\<lparr>is_interest := None\<rparr>"] kernel_done [OF i(5)]
          in \<open>simp_all add: iocp_same_def map_le_def\<close>)
    then show ?thesis using Some a i(4) s by (simp add: iocp_dispatch_one_def free_interest_def Let_def)
  qed
qed

lemma dispatch_all:
  assumes "iocp_inv R [] es ds q"
  shows "\<exists>ds1 q'. iocp_dispatch_all dos es q = Some (ds1, q') \<and> iocp_inv R [] [] (ds @ ds1) q' \<and> iocp_same q q'"
  using assms
proof (induction es arbitrary: q ds)
  case (Cons e es)
  obtain ds1 q1 where q1: "iocp_dispatch_one dos e q = Some (ds1, q1)" "iocp_inv R [] es (ds @ ds1) q1" "iocp_same q q1"
    using dispatch_one [OF Cons.prems] by blast
  obtain ds2 q2 where q2: "iocp_dispatch_all dos es q1 = Some (ds2, q2)" "iocp_inv R [] [] ((ds @ ds1) @ ds2) q2" "iocp_same q1 q2"
    using Cons.IH [OF q1(2)] by blast
  show ?case using q1(1) q2(1,2) iocp_same_trans [OF q1(3) q2(3)] by auto
qed auto

lemma run: "iocp_inv R [] es ds q \<Longrightarrow> iocp_inv R [] es [] (iocp_run ds q)"
  by (simp add: iocp_inv_def iocp_run_def)

lemma settle:
  assumes inv: "iocp_inv R [] (ip_entries q) [] q"
  obtains q' where "iocp_settle dos q = Some q'" "iocp_inv R [] [] [] q'" "ip_jobs q' = ip_jobs q" "ip_done q' = []" "ip_entries q' = []"
    "ip_in_flight q' = ip_in_flight q" "ip_port q' = ip_port q" "ip_closed q' = ip_closed q" "ip_capacity q' = ip_capacity q"
    "ip_cancels q' = ip_cancels q" "ip_pending q' \<subseteq>\<^sub>m ip_pending q"
proof -
  have "iocp_inv R (ip_done q) (ip_entries q) [] (q\<lparr>ip_done := []\<rparr>)" using inv by (simp add: iocp_inv_def)
  then obtain ds1 q1 where q1: "iocp_drain q = Some (ds1, q1)" "iocp_inv R [] (ip_entries q) ds1 q1" "iocp_same (q\<lparr>ip_done := []\<rparr>) q1"
    using drain_done [of "ip_done q" "ip_entries q" "[]" "q\<lparr>ip_done := []\<rparr>"] by (auto simp: iocp_drain_def)
  have e1: "ip_entries (iocp_run ds1 q1) = ip_entries q" using q1(3) by (simp add: iocp_same_def iocp_run_def)
  obtain ds2 q2 where q2: "iocp_dispatch_all dos (ip_entries q) (iocp_run ds1 q1) = Some (ds2, q2)" "iocp_inv R [] [] ds2 q2"
      "iocp_same (iocp_run ds1 q1) q2"
    using dispatch_all [OF run [OF q1(2)], of dos] by auto
  let ?r = "iocp_run ds2 (q2\<lparr>ip_entries := []\<rparr>)"
  have "iocp_inv R [] [] ds2 (q2\<lparr>ip_entries := []\<rparr>)" using q2(2) by (simp add: iocp_inv_def)
  then have "iocp_inv R [] [] [] ?r" by (rule run)
  moreover have "iocp_settle dos q = Some ?r" using q1(1) q2(1) e1 by (simp add: iocp_settle_def iocp_dispatch_def)
  moreover have "ip_jobs ?r = ip_jobs q" "ip_done ?r = []" "ip_entries ?r = []" "ip_in_flight ?r = ip_in_flight q" "ip_port ?r = ip_port q"
    "ip_closed ?r = ip_closed q" "ip_capacity ?r = ip_capacity q" "ip_cancels ?r = ip_cancels q" "ip_pending ?r \<subseteq>\<^sub>m ip_pending q"
    using q1(3) q2(3) by (auto simp: iocp_same_def iocp_run_def elim: map_le_trans)
  ultimately show thesis using that by blast
qed

end

subsection \<open>Windows, jobs and waits\<close>

lemma kernel_more: "kernel_ok P fl (ps @ es) \<Longrightarrow> P (pk_overlapped p) = None \<Longrightarrow> kernel_ok P fl ((ps @ [p]) @ es)"
  unfolding kernel_ok_def by simp

lemma kernel_completed:
  assumes "kernel_ok P fl (ps @ es)" "pk_overlapped p \<in> set fl"
  shows "kernel_ok P (remove1 (pk_overlapped p) fl) ((ps @ [p]) @ es)"
proof -
  have pos: "count_list fl (pk_overlapped p) \<noteq> 0" using assms(2) by (simp add: count_list_0_iff)
  have one: "count_list (fl @ map pk_overlapped (ps @ es)) a = 1" if "P a \<noteq> None" for a using assms(1) that by (simp add: kernel_ok_def)
  have "count_list (remove1 (pk_overlapped p) fl @ map pk_overlapped ((ps @ [p]) @ es)) a = 1" if "P a \<noteq> None" for a
    using one [OF that] pos by (cases "a = pk_overlapped p") auto
  then show ?thesis using assms unfolding kernel_ok_def by (auto dest: notin_set_remove1)
qed

lemma wake_inv:
  assumes "iocp_inv R dn es ds q"
  shows "iocp_inv R dn es ds (iocp_wake q)"
  using assms kernel_more [of "ip_pending q" "ip_in_flight q" "ip_port q" es null_packet] iocp_invD(5) [OF assms]
  by (simp add: iocp_inv_def iocp_wake_def null_packet_def kernel_ok_def)

lemma iocp_guard_inv:
  assumes inv: "iocp_inv R [] es [] q"
  shows "iocp_inv R [] es [] (iocp_guard_send k c q)"
proof (cases "k \<in> set (ip_jobs q)")
  case True
  let ?v = "q\<lparr>ip_jobs := remove1 k (ip_jobs q), ip_done := ip_done q @ [(k, c)]\<rparr>"
  have d: "distinct (ip_jobs q)" using iocp_invD(2) [OF inv] by (simp add: iocp_running_def)
  have s: "set (remove1 k (ip_jobs q)) = set (ip_jobs q) - {k}" using d by simp
  have "set (iocp_running ?v (ip_done ?v)) = set (iocp_running q (ip_done q))" "distinct (iocp_running ?v (ip_done ?v))"
    using True iocp_invD(2) [OF inv] s by (auto simp: iocp_running_def)
  then have "iocp_inv R [] es [] ?v" using inv by (simp add: iocp_inv_def)
  then show ?thesis using True wake_inv by (simp add: iocp_guard_send_def)
qed (use inv in \<open>simp add: iocp_guard_send_def\<close>)

lemma world_inv:
  assumes inv: "iocp_inv R [] es [] q"
  shows "iocp_inv R [] es [] (iocp_world_step x q)"
proof (cases x)
  case (RequestDone a i n)
  then show ?thesis using inv kernel_completed [of "ip_pending q" "ip_in_flight q" "ip_port q" es "\<lparr>pk_overlapped = a, pk_internal = i, pk_bytes = n\<rparr>"]
    by (simp add: iocp_inv_def)
next
  case (ForeignPacket p)
  then show ?thesis using inv kernel_more [of "ip_pending q" "ip_in_flight q" "ip_port q" es p] by (simp add: iocp_inv_def)
qed (use wake_inv [OF inv] iocp_guard_inv [OF inv] in simp_all)

lemma worlds_inv: "iocp_inv R [] es [] q \<Longrightarrow> iocp_inv R [] es [] (fold iocp_world_step ws q)"
  by (induction ws arbitrary: q) (simp_all add: world_inv)

definition entries_null :: "('w, 'd) iocp \<Rightarrow> bool" where
  "entries_null q \<longleftrightarrow> (\<forall>e \<in> set (ip_entries q). pk_overlapped e = 0)"

lemma kernel_null: "kernel_ok P fl ps \<Longrightarrow> (\<forall>e \<in> set es. pk_overlapped e = 0) \<Longrightarrow> kernel_ok P fl (ps @ es)"
proof (induction es arbitrary: ps)
  case (Cons e es)
  then show ?case using kernel_more [of P fl ps "[]" e] Cons.IH [of "ps @ [e]"] by (simp add: kernel_ok_def)
qed simp

lemma get_many_inv:
  assumes inv: "iocp_inv R [] [] [] q" and e: "entries_null q" and m: "get_many r q = (x, q')"
  shows "iocp_inv R [] (ip_entries q') [] q'" "ip_jobs q' = ip_jobs q" "ip_done q' = ip_done q" "ip_ops q' = ip_ops q" "ip_pending q' = ip_pending q"
    "ip_ran q' = ip_ran q" "ip_in_flight q' = ip_in_flight q" "ip_closed q' = ip_closed q" "ip_capacity q' = ip_capacity q" "ip_cancels q' = ip_cancels q"
    "\<And>err. x = Inl err \<Longrightarrow> q' = q" "x = Inr 0 \<Longrightarrow> entries_null q' \<and> ip_port q' = ip_port q"
    "\<And>n. r = Inr n \<Longrightarrow> x = Inr (length (iocp_fetched n q)) \<and> ip_entries q' = iocp_fetched n q \<and> ip_port q = iocp_fetched n q @ ip_port q'"
proof -
  have "iocp_inv R [] (ip_entries q) [] q" using inv kernel_null [of "ip_pending q" "ip_in_flight q" "ip_port q" "ip_entries q"] e
    by (simp add: iocp_inv_def entries_null_def)
  moreover have "kernel_ok (ip_pending q) (ip_in_flight q) (drop (length (iocp_fetched n q)) (ip_port q) @ iocp_fetched n q)" for n
  proof -
    let ?f = "iocp_fetched n q"
    have port: "ip_port q = ?f @ drop (length ?f) (ip_port q)" by (simp add: iocp_fetched_def min_def)
    have "count_list (map pk_overlapped (drop (length ?f) (ip_port q) @ ?f)) a = count_list (map pk_overlapped (ip_port q)) a" for a
      by (subst (2) port) (simp only: map_append count_list_append add.commute)
    then show ?thesis using iocp_invD(5) [OF inv] by (simp add: kernel_ok_def)
  qed
  ultimately show "iocp_inv R [] (ip_entries q') [] q'" using m inv
    by (cases r) (auto simp: get_many_def iocp_inv_def Let_def split: if_splits)
qed (use m e in \<open>auto simp: get_many_def entries_null_def iocp_fetched_def Let_def min_def split: sum.splits if_splits\<close>)

text \<open>A wait is never shorter than asked, and longer by less than a millisecond, unless the duration is one that Windows can only express as no timeout.\<close>

lemma duration_millis_bounds:
  assumes "d \<le> DURATION_MAX"
  shows "duration_millis (Some d) \<le> u32_max"
    "duration_millis (Some d) < u32_max \<Longrightarrow> d \<le> duration_millis (Some d) * 1000000 \<and> duration_millis (Some d) * 1000000 < d + 1000000"
proof -
  show "duration_millis (Some d) \<le> u32_max" by (simp add: duration_millis_def Let_def)
  show "d \<le> duration_millis (Some d) * 1000000 \<and> duration_millis (Some d) * 1000000 < d + 1000000" if lt: "duration_millis (Some d) < u32_max"
  proof (cases "d + 999999 \<le> DURATION_MAX")
    case True
    then have "duration_millis (Some d) = (d + 999999) div 1000000" using lt by (auto simp: duration_millis_def Let_def min_def split: if_splits)
    moreover have "(d + 999999) div 1000000 * 1000000 \<le> d + 999999" by simp
    moreover have "d + 999999 < (d + 999999) div 1000000 * 1000000 + 1000000" using dividend_less_div_times [of 1000000 "d + 999999"] by simp
    ultimately show ?thesis by linarith
  next
    case False
    then have "u32_max * 1000000 \<le> d" by (simp add: DURATION_MAX_def u32_max_def)
    then have "u32_max \<le> d div 1000000" by (metis div_le_mono nonzero_mult_div_cancel_right zero_neq_numeral)
    then show ?thesis using lt False by (simp add: duration_millis_def Let_def min_def split: if_splits)
  qed
qed

section \<open>A program\<close>

text \<open>
  \<open>ia_payload\<close> is the payload each operation was submitted with; \<open>ia_waker\<close> the waker of the operation's last pending poll, with how
  many deferred actions had run by then.  \<open>ia_outputs\<close> logs what \<^verbatim>\<open>complete\<close> was called with.
\<close>

record ('w, 'd) iocp_program =
  ia_iocp :: "('w, 'd) iocp"
  ia_ops :: "op_key \<rightharpoonup> 'd"
  ia_payload :: "op_key \<Rightarrow> 'd"
  ia_waker :: "op_key \<rightharpoonup> 'w \<times> nat"
  ia_outputs :: "(op_key \<times> 'd \<times> completion) list"

datatype 'w iocp_action =
    IPoll op_key 'w "unit io_result"
  | IDrop op_key
  | ICancel op_key
  | IWorld iocp_world
  | ITurn "u32 \<Rightarrow> u32" "nat io_result"

text \<open>\<^verbatim>\<open>Drop for Op\<close>: request cancellation, then detach.\<close>

definition iocp_op_drop ::
  "op_key \<Rightarrow> 'd option \<Rightarrow> ('w, 'd) iocp \<Rightarrow> (('d \<times> completion) option \<times> ('w, 'd) iocp) option" where
  "iocp_op_drop key data q =
     map_option (\<lambda>(c, data, q). (case (c, data) of (Some c, Some d) \<Rightarrow> Some (d, c) | _ \<Rightarrow> None, q))
       (iocp_remove_op key data (iocp_cancel_op key q))"

text \<open>The allocator returns neither a live header nor memory that a queued packet still names.\<close>

definition fresh_submission :: "iocp_submission \<Rightarrow> ('w, 'd) iocp \<Rightarrow> bool" where
  "fresh_submission sub q \<longleftrightarrow>
     (case sub of
        SubmissionPending ov \<Rightarrow> ov_address ov \<noteq> 0 \<and> ip_headers q (ov_address ov) = None \<and> ov_address ov \<notin> pk_overlapped ` set (ip_port q)
      | _ \<Rightarrow> True)"

definition iocp_submit_act :: "iocp_submission \<Rightarrow> 'd \<Rightarrow> ('w, 'd) iocp_program \<Rightarrow> ('w, 'd) iocp_program option" where
  "iocp_submit_act sub d p =
     map_option (\<lambda>(r, q).
       case r of
         Inl _ \<Rightarrow> p\<lparr>ia_iocp := q\<rparr>
       | Inr k \<Rightarrow> p\<lparr>ia_iocp := q, ia_ops := (ia_ops p)(k \<mapsto> d), ia_payload := (ia_payload p)(k := d),
                    ia_waker := (ia_waker p)(k := None)\<rparr>)
       (iocp_submit_op sub (ia_iocp p))"

fun iocp_act :: "'w iocp_action \<Rightarrow> ('w, 'd) iocp_program \<Rightarrow> ('w, 'd) iocp_program option" where
  "iocp_act (IPoll k w pushed) p =
     (case ia_ops p k of
        None \<Rightarrow> Some p
      | Some d \<Rightarrow>
          map_option (\<lambda>(r, q).
            case r of
              Pending \<Rightarrow> p\<lparr>ia_iocp := q, ia_waker := (ia_waker p)(k \<mapsto> (w, length (ip_ran q)))\<rparr>
            | Ready c \<Rightarrow> p\<lparr>ia_iocp := q, ia_ops := (ia_ops p)(k := None), ia_outputs := ia_outputs p @ [(k, d, c)]\<rparr>)
            (iocp_poll_op pushed w k (ia_iocp p)))"
| "iocp_act (IDrop k) p =
     (case ia_ops p k of
        None \<Rightarrow> Some p
      | Some d \<Rightarrow>
          map_option (\<lambda>(out, q).
            p\<lparr>ia_iocp := q, ia_ops := (ia_ops p)(k := None),
              ia_outputs := ia_outputs p @ (case out of None \<Rightarrow> [] | Some x \<Rightarrow> [(k, x)])\<rparr>)
            (iocp_op_drop k (Some d) (ia_iocp p)))"
| "iocp_act (ICancel k) p = Some (p\<lparr>ia_iocp := iocp_cancel_op k (ia_iocp p)\<rparr>)"
| "iocp_act (IWorld x) p = Some (p\<lparr>ia_iocp := iocp_world_step x (ia_iocp p)\<rparr>)"
| "iocp_act (ITurn dos r) p = map_option (\<lambda>(_, q). p\<lparr>ia_iocp := q\<rparr>) (iocp_turn dos r (ia_iocp p))"

inductive iocp_reach :: "('w, 'd) iocp_program \<Rightarrow> bool" where
  iocp_start: "iocp_new capacity = Inr q \<Longrightarrow>
     iocp_reach \<lparr>ia_iocp = q, ia_ops = (\<lambda>_. None), ia_payload = g, ia_waker = (\<lambda>_. None), ia_outputs = []\<rparr>"
| iocp_submit: "iocp_reach p \<Longrightarrow> fresh_submission sub (ia_iocp p) \<Longrightarrow> iocp_submit_act sub d p = Some p' \<Longrightarrow> iocp_reach p'"
| iocp_step: "iocp_reach p \<Longrightarrow> iocp_act a p = Some p' \<Longrightarrow> iocp_reach p'"

subsection \<open>What a slot's state means\<close>

text \<open>Does it have a request, a job not dispatched, a job under way; who owns the payload; was the last waker woken.\<close>

fun iocp_state_ok :: "bool \<Rightarrow> bool \<Rightarrow> bool \<Rightarrow> 'd option \<Rightarrow> 'd \<Rightarrow> ('w \<times> bool) option \<Rightarrow> ('w, 'd) iocp_state \<Rightarrow> bool" where
  "iocp_state_ok req job run f g wk ISubmitted \<longleftrightarrow> req = (\<not> job) \<and> \<not> run \<and> f = Some g \<and> wk = None"
| "iocp_state_ok req job run f g wk (IWaiting w) \<longleftrightarrow> \<not> job \<and> req = (\<not> run) \<and> f = Some g \<and> (\<exists>b. wk = Some (w, b))"
| "iocp_state_ok req job run f g wk (ICompleted c) \<longleftrightarrow> \<not> req \<and> \<not> job \<and> \<not> run \<and> f = Some g \<and> (\<forall>w b. wk = Some (w, b) \<longrightarrow> b)"
| "iocp_state_ok req job run f g wk (IDetached d) \<longleftrightarrow> \<not> job \<and> req = (\<not> run) \<and> f = None \<and> d = Payload g"
| "iocp_state_ok req job run f g wk (ICanceling IPendingObserver) \<longleftrightarrow> \<not> job \<and> req \<and> \<not> run \<and> f = Some g \<and> wk = None"
| "iocp_state_ok req job run f g wk (ICanceling (IWaitingObserver w)) \<longleftrightarrow> \<not> job \<and> req = (\<not> run) \<and> f = Some g \<and> (\<exists>b. wk = Some (w, b))"
| "iocp_state_ok req job run f g wk (ICanceling (IDetachedObserver d)) \<longleftrightarrow> \<not> job \<and> req = (\<not> run) \<and> f = None \<and> d = Payload g"

definition iocp_woken :: "('w, 'd) deferred list \<Rightarrow> ('w \<times> nat) option \<Rightarrow> ('w \<times> bool) option" where
  "iocp_woken L x = map_option (\<lambda>(w, n). (w, WakeTask w \<in> set (drop n L))) x"

definition future_slot ::
  "(op_key \<rightharpoonup> 'd) \<Rightarrow> (op_key \<Rightarrow> 'd) \<Rightarrow> (op_key \<rightharpoonup> 'w \<times> nat) \<Rightarrow>
     ('w, 'd) deferred list \<Rightarrow> op_key \<Rightarrow> bool \<Rightarrow> ('w, 'd) iocp_slot option \<Rightarrow> bool" where
  "future_slot F g wk L k run slot \<longleftrightarrow>
     (case slot of
        None \<Rightarrow> \<not> run \<and> F k = None
      | Some s \<Rightarrow> iocp_state_ok (is_interest s \<noteq> None) (is_job s) run (F k) (g k) (iocp_woken L (wk k)) (is_state s)) \<and>
     (\<forall>w n. wk k = Some (w, n) \<longrightarrow> n \<le> length L)"

lemma iocp_state_ok_more:
  "iocp_state_ok req job run f g (Some (w, b)) st \<Longrightarrow> (b \<longrightarrow> b') \<Longrightarrow> iocp_state_ok req job run f g (Some (w, b')) st"
  by (induction req job run f g "Some (w, b)" st rule: iocp_state_ok.induct) auto

lemma future_slot_more:
  assumes "future_slot F g wk L k run slot"
  shows "future_slot F g wk (L @ X) k run slot"
proof (cases "wk k")
  case (Some wn)
  obtain w n where x: "wk k = Some (w, n)" using Some by (cases wn) auto
  have "WakeTask w \<in> set (drop n L) \<longrightarrow> WakeTask w \<in> set (drop n (L @ X))" by simp
  then show ?thesis using assms x iocp_state_ok_more by (fastforce simp: future_slot_def iocp_woken_def split: option.splits)
qed (use assms in \<open>simp add: future_slot_def iocp_woken_def split: option.splits\<close>)

lemma future_slot_completes:
  assumes "future_slot F g wk L k run (Some s)" "run \<or> is_interest s \<noteq> None" "iocp_complete c (is_state s) = (rm, w, cl, st)"
  shows "future_slot F g wk (L @ iocp_actions w cl) k False (if rm then None else Some (s\<lparr>is_interest := None, is_state := st\<rparr>))"
proof -
  have le: "wk k = Some (v, n) \<Longrightarrow> n \<le> length L" for v n using assms(1) by (simp add: future_slot_def)
  have ok: "iocp_state_ok (is_interest s \<noteq> None) (is_job s) run (F k) (g k) (iocp_woken L (wk k)) (is_state s)"
    using assms(1) by (simp add: future_slot_def)
  show ?thesis
  proof (cases "is_state s")
    case (ICanceling ob)
    then show ?thesis using ok assms(2,3) le
      by (cases ob) (auto simp: future_slot_def iocp_actions_def iocp_woken_def intro: trans_le_add1)
  qed (use ok assms(2,3) le in \<open>auto simp: future_slot_def iocp_actions_def iocp_woken_def intro: trans_le_add1\<close>)
qed

lemma future_slot_exclusive: "future_slot F g wk L k True (Some s) \<Longrightarrow> is_interest s = None"
  by (cases "is_state s") (auto simp: future_slot_def elim!: iocp_state_ok.elims)

interpretation futures: slot_contract "future_slot F g wk" for F g wk
  by unfold_locales
     (erule future_slot_more, simp add: future_slot_def, erule future_slot_exclusive, erule (2) future_slot_completes)

abbreviation future_inv :: "(op_key \<rightharpoonup> 'd) \<Rightarrow> (op_key \<Rightarrow> 'd) \<Rightarrow> (op_key \<rightharpoonup> 'w \<times> nat) \<Rightarrow> ('w, 'd) iocp \<Rightarrow> bool" where
  "future_inv F g wk q \<equiv> iocp_inv (future_slot F g wk) [] [] [] q"

section \<open>Each operation keeps the invariant\<close>

lemma future_slot_other: "F' j = F j \<Longrightarrow> g' j = g j \<Longrightarrow> wk' j = wk j \<Longrightarrow> future_slot F g wk L j run sl \<Longrightarrow> future_slot F' g' wk' L j run sl"
  by (auto simp: future_slot_def split: option.splits)

lemma future_state:
  assumes "future_inv F g wk q" "op_get (ip_ops q) k = Some s"
  shows "iocp_state_ok (is_interest s \<noteq> None) (is_job s) (k \<in> set (iocp_running q (ip_done q))) (F k) (g k) (iocp_woken (ip_ran q) (wk k)) (is_state s)"
    "wk k = Some (w, n) \<Longrightarrow> n \<le> length (ip_ran q)"
  using iocp_invD(6) [OF assms(1), of k] assms(2) by (simp_all add: future_slot_def)

lemma future_live:
  assumes "future_inv F g wk q" "F k = Some d"
  obtains s where "op_get (ip_ops q) k = Some s"
  using iocp_invD(6) [OF assms(1), of k] assms(2) by (cases "op_get (ip_ops q) k") (auto simp: future_slot_def)

text \<open>A slot that changes and keeps its request, and whose job may be handed to the pool.\<close>

lemma future_change:
  assumes inv: "future_inv F g wk q" and s: "op_get (ip_ops q) k = Some s" and keep: "is_interest s' = is_interest s"
    and t: "op_inv (ip_ops q')" "op_get (ip_ops q') = (op_get (ip_ops q))(k \<mapsto> s')"
    and same: "ip_pending q' = ip_pending q" "ip_headers q' = ip_headers q" "ip_in_flight q' = ip_in_flight q" "ip_port q' = ip_port q"
      "ip_done q' = ip_done q" "ip_ran q' = ip_ran q"
    and jobs: "ip_jobs q' = ip_jobs q @ new" "new \<noteq> [] \<Longrightarrow> new = [k] \<and> k \<notin> set (iocp_running q (ip_done q))"
    and slot: "future_slot F' g wk' (ip_ran q) k (k \<in> set (iocp_running q' (ip_done q))) (Some s')"
    and other: "\<And>j. j \<noteq> k \<Longrightarrow> F' j = F j \<and> wk' j = wk j"
  shows "future_inv F' g wk' q'"
proof -
  note i = iocp_invD [OF inv]
  have "distinct (iocp_running q' (ip_done q'))" using i(2) jobs same by (cases "new = []") (auto simp: iocp_running_def)
  moreover have "j \<noteq> k \<Longrightarrow> (j \<in> set (iocp_running q' (ip_done q'))) = (j \<in> set (iocp_running q (ip_done q)))" for j
    using jobs same by (cases "new = []") (auto simp: iocp_running_def)
  ultimately show ?thesis
    by (intro futures.update [OF inv t, where extra = "[]"])
       (use i(4,5) slot same owners_state [OF i(3) s keep] other in \<open>auto intro: future_slot_other\<close>)
qed

lemma future_set:
  assumes inv: "future_inv F g wk q" and s: "op_get (ip_ops q) k = Some s" and keep: "is_interest (f s) = is_interest s"
    and slot: "future_slot F' g wk' (ip_ran q) k (k \<in> set (iocp_running q (ip_done q))) (Some (f s))"
    and other: "\<And>j. j \<noteq> k \<Longrightarrow> F' j = F j \<and> wk' j = wk j"
  shows "future_inv F' g wk' (iocp_set k f q)" "future_inv F' g wk' (iocp_set k f (cancel_pending ov q))"
proof -
  note i = iocp_invD [OF inv]
  show "future_inv F' g wk' (iocp_set k f q)"
    by (rule future_change [OF inv s keep iocp_set_get [OF i(1) s, of f], where new = "[]"]) (use slot other in auto)
  have s': "op_get (ip_ops (cancel_pending ov q)) k = Some s" "op_inv (ip_ops (cancel_pending ov q))" using s i(1) by simp_all
  show "future_inv F' g wk' (iocp_set k f (cancel_pending ov q))"
    by (rule future_change [OF inv s keep, where new = "[]"])
       (use iocp_set_get [OF s'(2,1), of f] slot other in auto)
qed

lemma future_removed:
  assumes inv: "future_inv F g wk q" and s: "op_get (ip_ops q) k = Some s" "is_interest s = None" "k \<notin> set (iocp_running q (ip_done q))"
    and keep: "is_interest (f s) = None"
  shows "\<exists>q'. iocp_remove k (iocp_set k f q) = Some q' \<and> future_inv (F(k := None)) g wk q' \<and> ip_ran q' = ip_ran q \<and> ip_entries q' = ip_entries q"
proof -
  note i = iocp_invD [OF inv]
  let ?v = "iocp_set k f q"
  note g = iocp_set_get [OF i(1) s(1), of f]
  have vk: "op_get (ip_ops ?v) k = Some (f s)" using g(2) by simp
  obtain t where t: "iocp_remove k ?v = Some (?v\<lparr>ip_ops := t\<rparr>)" "op_inv t" "op_get t = (op_get (ip_ops ?v))(k := None)"
    by (rule iocp_remove_get [OF g(1) vk keep])
  have "future_inv (F(k := None)) g wk (?v\<lparr>ip_ops := t\<rparr>)"
    by (rule futures.update [OF inv, where k = k and slot = None and extra = "[]"])
       (use t g(2) i(2,4,5) i(6) [of k] s owners_gone [OF i(3), of k] in
        \<open>auto intro: future_slot_other [of _ _ _ g] simp: future_slot_def [of _ _ _ _ k]\<close>)
  then show ?thesis using t(1) by simp
qed

lemma future_removed_same:
  assumes inv: "future_inv F g wk q" and s: "op_get (ip_ops q) k = Some s" "is_interest s = None" "k \<notin> set (iocp_running q (ip_done q))"
  shows "\<exists>q'. iocp_remove k q = Some q' \<and> future_inv (F(k := None)) g wk q' \<and> ip_ran q' = ip_ran q \<and> ip_entries q' = ip_entries q"
proof -
  note i = iocp_invD [OF inv]
  obtain t where t: "iocp_remove k q = Some (q\<lparr>ip_ops := t\<rparr>)" "op_inv t" "op_get t = (op_get (ip_ops q))(k := None)"
    by (rule iocp_remove_get [OF i(1) s(1,2)])
  have "future_inv (F(k := None)) g wk (q\<lparr>ip_ops := t\<rparr>)"
    by (rule futures.update [OF inv, where k = k and slot = None and extra = "[]"])
       (use t i(2,4,5) i(6) [of k] s owners_gone [OF i(3), of k] in
        \<open>auto intro: future_slot_other [of _ _ _ g] simp: future_slot_def [of _ _ _ _ k]\<close>)
  then show ?thesis using t(1) by simp
qed

lemma iocp_cancel_inv:
  assumes inv: "future_inv F g wk q"
  shows "future_inv F g wk (iocp_cancel_op k q)"
proof (cases "op_get (ip_ops q) k")
  case (Some s)
  note ok = future_state [OF inv Some]
  note set = future_set [OF inv Some, where F' = F and wk' = wk]
  show ?thesis
  proof (cases "is_state s")
    case ISubmitted
    then show ?thesis using Some ok
      set(1) [of "\<lambda>s. s\<lparr>is_job := False, is_state := ICompleted aborted_completion\<rparr>"]
      set(2) [of "\<lambda>s. s\<lparr>is_state := ICanceling IPendingObserver\<rparr>" "is_interest s"]
      by (auto simp: iocp_cancel_op_def future_slot_def)
  next
    case (IWaiting w)
    then show ?thesis using Some ok set(2) [of "\<lambda>s. s\<lparr>is_state := ICanceling (IWaitingObserver w)\<rparr>" "is_interest s"]
      by (auto simp: iocp_cancel_op_def future_slot_def)
  next
    case (IDetached d)
    then show ?thesis using Some ok set(2) [of "\<lambda>s. s\<lparr>is_state := ICanceling (IDetachedObserver d)\<rparr>" "is_interest s"]
      by (auto simp: iocp_cancel_op_def future_slot_def)
  qed (use inv Some in \<open>simp_all add: iocp_cancel_op_def\<close>)
qed (use inv in \<open>simp add: iocp_cancel_op_def\<close>)

lemma iocp_poll_inv:
  assumes inv: "future_inv F g wk q" and f: "F k = Some d"
  shows "\<exists>r q'. iocp_poll_op pushed w k q = Some (r, q') \<and> ip_entries q' = ip_entries q \<and>
    (case r of Pending \<Rightarrow> future_inv F g (wk(k \<mapsto> (w, length (ip_ran q')))) q' | Ready c \<Rightarrow> future_inv (F(k := None)) g wk q')"
proof -
  obtain s where s: "op_get (ip_ops q) k = Some s" by (rule future_live [OF inv f])
  note ok = future_state(1) [OF inv s]
  have set: "future_inv F g (wk(k \<mapsto> (w, length (ip_ran q)))) (iocp_set_state k st q)"
    if "iocp_state_ok (is_interest s \<noteq> None) (is_job s) (k \<in> set (iocp_running q (ip_done q))) (F k) (g k) (Some (w, False)) st" for st
    by (rule future_set(1) [OF inv s]) (use that in \<open>auto simp: future_slot_def iocp_woken_def\<close>)
  show ?thesis
  proof (cases "is_job s")
    case True
    then have free: "is_interest s = None" "k \<notin> set (iocp_running q (ip_done q))" "F k = Some (g k)"
      using ok by (cases "is_state s"; auto elim: iocp_state_ok.elims)+
    let ?f = "\<lambda>s. s\<lparr>is_job := False, is_state := IWaiting w\<rparr>"
    let ?v = "(iocp_set k ?f q)\<lparr>ip_jobs := ip_jobs q @ [k]\<rparr>"
    have "future_inv F g (wk(k \<mapsto> (w, length (ip_ran q)))) ?v"
      by (rule future_change [OF inv s, where new = "[k]" and s' = "?f s"])
         (use free iocp_set_get [OF iocp_invD(1) [OF inv] s, of ?f] in \<open>auto simp: future_slot_def iocp_woken_def iocp_running_def\<close>)
    then show ?thesis using s True future_removed [OF inv s free(1,2), of ?f] free(1)
      by (cases pushed) (auto simp: iocp_poll_op_def)
  next
    case False
    show ?thesis
    proof (cases "is_state s")
      case (ICompleted c)
      then show ?thesis using s False ok future_removed_same [OF inv s] by (auto simp: iocp_poll_op_def)
    next
      case (ICanceling ob)
      then show ?thesis using s False ok f set [of "ICanceling (IWaitingObserver w)"] by (cases ob) (auto simp: iocp_poll_op_def)
    qed (use s False ok f set [of "IWaiting w"] in \<open>auto simp: iocp_poll_op_def\<close>)
  qed
qed

lemma iocp_remove_inv:
  assumes inv: "future_inv F g wk q" and f: "F k = Some d"
  shows "\<exists>c data q'. iocp_remove_op k (Some d) q = Some (c, data, q') \<and> future_inv (F(k := None)) g wk q' \<and> ip_entries q' = ip_entries q"
proof -
  obtain s where s: "op_get (ip_ops q) k = Some s" by (rule future_live [OF inv f])
  note ok = future_state [OF inv s]
  have det: "future_inv (F(k := None)) g wk (iocp_set_state k st (cancel_pending ov q))" "future_inv (F(k := None)) g wk (iocp_set_state k st q)"
    if "iocp_state_ok (is_interest s \<noteq> None) (is_job s) (k \<in> set (iocp_running q (ip_done q))) None (g k) (iocp_woken (ip_ran q) (wk k)) st" for st ov
    by (rule future_set(2,1) [OF inv s]; use that ok(2) in \<open>auto simp: future_slot_def\<close>)+
  have job: "\<exists>q'. iocp_remove k (iocp_set k (\<lambda>s. s\<lparr>is_job := False\<rparr>) q) = Some q' \<and> future_inv (F(k := None)) g wk q' \<and> ip_entries q' = ip_entries q" if "is_job s"
  proof -
    have "is_interest s = None" "k \<notin> set (iocp_running q (ip_done q))"
      using ok(1) that by (cases "is_state s"; auto elim: iocp_state_ok.elims)+
    then show ?thesis using future_removed [OF inv s, of "\<lambda>s. s\<lparr>is_job := False\<rparr>"] by auto
  qed
  show ?thesis
  proof (cases "is_state s")
    case ISubmitted
    then show ?thesis using s f ok(1) job det(1) [of "IDetached (Payload d)" "is_interest s"]
      by (cases "is_job s") (auto simp: iocp_remove_op_def Let_def)
  next
    case (IWaiting w)
    then show ?thesis using s f ok(1) det(1) [of "IDetached (Payload d)" "is_interest s"] by (auto simp: iocp_remove_op_def Let_def)
  next
    case (ICompleted c)
    then show ?thesis using s ok(1) future_removed_same [OF inv s] by (auto simp: iocp_remove_op_def Let_def)
  next
    case (ICanceling ob)
    then show ?thesis using s f ok(1) det(2) [of "ICanceling (IDetachedObserver (Payload d))"] by (cases ob) (auto simp: iocp_remove_op_def Let_def)
  qed (use ok(1) f in auto)
qed

lemma iocp_cancel_entries [simp]: "ip_entries (iocp_cancel_op k q) = ip_entries q"
  by (simp add: iocp_cancel_op_def split: option.splits iocp_state.splits)

lemma iocp_drop_inv:
  assumes inv: "future_inv F g wk q" and f: "F k = Some d"
  shows "\<exists>out q'. iocp_op_drop k (Some d) q = Some (out, q') \<and> future_inv (F(k := None)) g wk q' \<and> ip_entries q' = ip_entries q"
  using iocp_remove_inv [OF iocp_cancel_inv [OF inv, of k] f] by (auto simp: iocp_op_drop_def)

lemma iocp_turn_steps:
  assumes inv: "future_inv F g wk q" "entries_null q" and m: "get_many r q = (Inr n, v)"
  obtains q' where "iocp_turn dos r q = Some (Inr n, q')" "future_inv F g wk q'" "ip_jobs q' = ip_jobs q" "ip_done q' = []" "ip_entries q' = []"
    "ip_in_flight q' = ip_in_flight q" "ip_port q' = ip_port v" "ip_pending q' \<subseteq>\<^sub>m ip_pending q"
proof -
  note v = get_many_inv [OF inv m]
  obtain q' where "iocp_settle dos v = Some q'" "future_inv F g wk q'" "ip_jobs q' = ip_jobs v" "ip_done q' = []" "ip_entries q' = []"
    "ip_in_flight q' = ip_in_flight v" "ip_port q' = ip_port v" "ip_pending q' \<subseteq>\<^sub>m ip_pending v"
    by (rule futures.settle [OF v(1), of dos])
  then show thesis using m v by (intro that [of q']) (simp_all add: iocp_turn_def)
qed

lemma iocp_turn_inv:
  assumes inv: "future_inv F g wk q" "entries_null q"
  shows "\<exists>x q'. iocp_turn dos r q = Some (x, q') \<and> future_inv F g wk q' \<and> entries_null q'"
proof -
  obtain x v where m: "get_many r q = (x, v)" by (cases "get_many r q")
  show ?thesis
  proof (cases x)
    case (Inl e)
    then show ?thesis using m inv get_many_inv(11) [OF inv m] by (simp add: iocp_turn_def)
  next
    case (Inr n)
    obtain q' where "iocp_turn dos r q = Some (Inr n, q')" "future_inv F g wk q'" "ip_entries q' = []"
      by (rule iocp_turn_steps [OF inv m [unfolded Inr], of dos])
    then show ?thesis by (auto simp: entries_null_def)
  qed
qed

lemma iocp_submit_inv:
  assumes inv: "future_inv F g wk q" and fresh: "fresh_submission sub q"
  shows "\<exists>r q'. iocp_submit_op sub q = Some (r, q') \<and> ip_entries q' = ip_entries q \<and>
    (case r of Inl _ \<Rightarrow> future_inv F g wk q' | Inr k \<Rightarrow> future_inv (F(k \<mapsto> d)) (g(k := d)) (wk(k := None)) q')"
proof (cases "ip_shutting_down q")
  case True
  then show ?thesis using inv by (simp add: iocp_submit_op_def)
next
  case False
  let ?s = "\<lparr>is_state = ISubmitted, is_interest = None, is_job = False\<rparr> :: ('a, 'b) iocp_slot"
  note i = iocp_invD [OF inv]
  from i(1) show ?thesis
  proof (cases rule: ops.insE [where v = ?s])
    case (full e)
    then show ?thesis using inv False by (simp add: iocp_submit_op_def)
  next
    case ins: (fresh k t)
    let ?q = "q\<lparr>ip_ops := t\<rparr>" and ?F = "F(k \<mapsto> d)" and ?g = "g(k := d)" and ?wk = "wk(k := None)"
    have tk: "op_inv (ip_ops ?q)" "op_get (ip_ops ?q) k = Some ?s" using ins by simp_all
    have run: "k \<notin> set (iocp_running q (ip_done q))" using i(6) [of k] ins(3) by (simp add: future_slot_def)
    have new: "future_inv ?F ?g ?wk (iocp_set k f ?q)"
      if "is_interest (f ?s) = None" "iocp_state_ok False (is_job (f ?s)) False (Some d) d None (is_state (f ?s))" for f
      by (rule futures.update [OF inv iocp_set_get(1) [OF tk], where k = k and slot = "Some (f ?s)" and extra = "[]"])
         (use that iocp_set_get(2) [OF tk, of f] ins i(2,4,5) run owners_fresh [OF i(3) ins(3), of "f ?s"] in
          \<open>auto intro: future_slot_other [of _ _ _ _ g] simp: future_slot_def [of _ _ _ _ k] iocp_woken_def\<close>)
    show ?thesis
    proof (cases sub)
      case (SubmissionReady c)
      then show ?thesis using False ins(1) new [of "\<lambda>s. s\<lparr>is_state := ICompleted c\<rparr>"] by (simp add: iocp_submit_op_def)
    next
      case SubmissionBlocking
      then show ?thesis using False ins(1) new [of "\<lambda>s. s\<lparr>is_job := True\<rparr>"] by (simp add: iocp_submit_op_def)
    next
      case (SubmissionPending ov)
      let ?a = "ov_address ov" and ?f = "\<lambda>s :: ('a, 'b) iocp_slot. s\<lparr>is_interest := Some ov\<rparr>"
      have a: "?a \<noteq> 0" "ip_pending q ?a = None" "?a \<notin> pk_overlapped ` set (ip_port q @ [])"
        using fresh SubmissionPending i(4) by (auto simp: fresh_submission_def)
      let ?v = "?q\<lparr>ip_in_flight := ip_in_flight q @ [?a], ip_headers := (ip_headers q)(?a \<mapsto> k), ip_pending := (ip_pending q)(?a \<mapsto> k)\<rparr>"
      have vk: "op_inv (ip_ops ?v)" "op_get (ip_ops ?v) k = Some ?s" using tk by simp_all
      have "future_inv ?F ?g ?wk (iocp_set k ?f ?v)"
        by (rule futures.update [OF inv iocp_set_get(1) [OF vk], where k = k and slot = "Some (?f ?s)" and extra = "[]"])
           (use iocp_set_get(2) [OF vk, of ?f] ins i(2,4) run owners_installed [OF i(3) ins(3) a(2), of "?f ?s"] kernel_new [OF i(5) a, of k] in
            \<open>auto intro: future_slot_other [of _ _ _ _ g] simp: future_slot_def [of _ _ _ _ k] iocp_woken_def\<close>)
      then show ?thesis using False ins(1) SubmissionPending a(2) by (simp add: iocp_submit_op_def Let_def)
    qed
  qed
qed

section \<open>Reachable programs\<close>

abbreviation iocp_program_inv :: "('w, 'd) iocp_program \<Rightarrow> bool" where
  "iocp_program_inv p \<equiv> future_inv (ia_ops p) (ia_payload p) (ia_waker p) (ia_iocp p) \<and> entries_null (ia_iocp p)"

lemma wake_entries [simp]: "ip_entries (iocp_wake q) = ip_entries q"
  by (simp add: iocp_wake_def)

lemma world_entries [simp]: "ip_entries (iocp_world_step x q) = ip_entries q"
  by (cases x) (simp_all add: iocp_guard_send_def)

lemma entries_null_same: "ip_entries q' = ip_entries q \<Longrightarrow> entries_null q' = entries_null q"
  by (simp add: entries_null_def)

lemma iocp_act_inv:
  assumes inv: "iocp_program_inv p"
  shows "\<exists>p'. iocp_act a p = Some p' \<and> iocp_program_inv p'"
proof (cases a)
  case (IPoll k w pushed)
  show ?thesis
  proof (cases "ia_ops p k")
    case (Some d)
    obtain r q' where q': "iocp_poll_op pushed w k (ia_iocp p) = Some (r, q')" "ip_entries q' = ip_entries (ia_iocp p)"
      "case r of Pending \<Rightarrow> future_inv (ia_ops p) (ia_payload p) ((ia_waker p)(k \<mapsto> (w, length (ip_ran q')))) q'
       | Ready c \<Rightarrow> future_inv ((ia_ops p)(k := None)) (ia_payload p) (ia_waker p) q'"
      using iocp_poll_inv [OF conjunct1 [OF inv] Some, of pushed w] by blast
    then show ?thesis using IPoll Some inv entries_null_same [OF q'(2)] by (cases r) simp_all
  qed (use IPoll inv in simp)
next
  case (IDrop k)
  show ?thesis
  proof (cases "ia_ops p k")
    case (Some d)
    then show ?thesis using iocp_drop_inv [OF conjunct1 [OF inv] Some] IDrop inv by (auto simp: entries_null_def)
  qed (use IDrop inv in simp)
next
  case (ICancel k)
  then show ?thesis using inv iocp_cancel_inv entries_null_same [of "iocp_cancel_op k (ia_iocp p)" "ia_iocp p"] by auto
next
  case (IWorld x)
  then show ?thesis using inv world_inv entries_null_same [of "iocp_world_step x (ia_iocp p)" "ia_iocp p"] by auto
next
  case (ITurn dos r)
  then show ?thesis using iocp_turn_inv [of "ia_ops p" "ia_payload p" "ia_waker p" "ia_iocp p" dos r] inv by auto
qed

lemma iocp_submit_act_inv:
  assumes inv: "iocp_program_inv p" and fresh: "fresh_submission sub (ia_iocp p)"
  shows "\<exists>p'. iocp_submit_act sub d p = Some p' \<and> iocp_program_inv p'"
proof -
  obtain r q' where q': "iocp_submit_op sub (ia_iocp p) = Some (r, q')" "ip_entries q' = ip_entries (ia_iocp p)"
    "case r of Inl _ \<Rightarrow> future_inv (ia_ops p) (ia_payload p) (ia_waker p) q'
     | Inr k \<Rightarrow> future_inv ((ia_ops p)(k \<mapsto> d)) ((ia_payload p)(k := d)) ((ia_waker p)(k := None)) q'"
    using iocp_submit_inv [OF conjunct1 [OF inv] fresh, of d] by blast
  then show ?thesis using inv entries_null_same [OF q'(2)] by (cases r) (simp_all add: iocp_submit_act_def)
qed

lemma iocp_start_inv:
  assumes "iocp_new n = Inr q"
  shows "future_inv (\<lambda>_. None) g (\<lambda>_. None) q \<and> entries_null q"
proof -
  obtain t where t: "op_new n = Inr t" "q = \<lparr>ip_ops = t, ip_pending = (\<lambda>_. None), ip_entries = replicate n null_packet,
      ip_capacity = n, ip_done = [], ip_shutting_down = False, ip_closed = False,
      ip_headers = (\<lambda>_. None), ip_in_flight = [], ip_port = [], ip_cancels = [], ip_jobs = [], ip_ran = []\<rparr>"
    using assms by (auto simp: iocp_new_def split: sum.splits)
  have "op_inv t" using t(1) op_inv_new by (auto simp: op_new_def split: if_splits)
  moreover have "op_get t k = None" for k
    using t(1) by (auto simp: op_new_def op_new_with_generation_limit_def op_get_def split: if_splits option.splits)
  ultimately show ?thesis using t(2)
    by (auto simp: iocp_inv_def iocp_running_def owners_ok_def kernel_ok_def future_slot_def entries_null_def null_packet_def)
qed

lemma iocp_reach_inv: "iocp_reach p \<Longrightarrow> iocp_program_inv p"
proof (induction rule: iocp_reach.induct)
  case (iocp_start n q g)
  then show ?case using iocp_start_inv by simp
next
  case (iocp_submit p sub d p')
  then show ?case using iocp_submit_act_inv [of p sub d] by auto
next
  case (iocp_step p a p')
  then show ?case using iocp_act_inv [of p a] by auto
qed

section \<open>Properties\<close>

lemma iocp_reach_slot:
  assumes "iocp_reach p"
  shows "future_slot (ia_ops p) (ia_payload p) (ia_waker p) (ip_ran (ia_iocp p)) k (k \<in> set (iocp_running (ia_iocp p) (ip_done (ia_iocp p))))
    (op_get (ip_ops (ia_iocp p)) k)"
  using iocp_invD(6) [OF conjunct1 [OF iocp_reach_inv [OF assms]], of k] by simp

lemma iocp_reach_owner:
  assumes reach: "iocp_reach p" and s: "op_get (ip_ops (ia_iocp p)) k = Some s"
    and own: "is_interest s \<noteq> None \<or> k \<in> set (iocp_running (ia_iocp p) (ip_done (ia_iocp p)))"
  shows "ia_ops p k = Some (ia_payload p k) \<or> ia_ops p k = None \<and>
    (is_state s = IDetached (Payload (ia_payload p k)) \<or> is_state s = ICanceling (IDetachedObserver (Payload (ia_payload p k))))"
  using iocp_reach_slot [OF reach, of k] s own
  by (cases "is_state s") (auto simp: future_slot_def elim!: iocp_state_ok.elims)

lemma iocp_reach_request:
  assumes reach: "iocp_reach p" and a: "a \<in> set (ip_in_flight (ia_iocp p)) \<or> a \<in> pk_overlapped ` set (ip_port (ia_iocp p)) \<and> ip_pending (ia_iocp p) a \<noteq> None"
  shows "\<exists>k s ov. ip_headers (ia_iocp p) a = Some k \<and> ip_pending (ia_iocp p) a = Some k \<and> op_get (ip_ops (ia_iocp p)) k = Some s \<and>
    is_interest s = Some ov \<and> ov_address ov = a \<and> count_list (ip_in_flight (ia_iocp p) @ map pk_overlapped (ip_port (ia_iocp p))) a = 1"
proof -
  note i = iocp_invD [OF conjunct1 [OF iocp_reach_inv [OF reach]]]
  have p: "ip_pending (ia_iocp p) a \<noteq> None" using a i(5) by (auto simp: kernel_ok_def)
  then obtain k where k: "ip_pending (ia_iocp p) a = Some k" by auto
  obtain s ov where "op_get (ip_ops (ia_iocp p)) k = Some s" "is_interest s = Some ov" "ov_address ov = a"
    using i(3) k unfolding owners_ok_def by blast
  then show ?thesis using k i(4,5) by (simp add: kernel_ok_def)
qed


lemma iocp_turn_wakes:
  assumes inv: "future_inv F g wk q" "entries_null q" and wk: "F k = Some d" "wk k = Some (w, n)"
    and s: "op_get (ip_ops q) k = Some s"
    and now: "k \<in> fst ` set (ip_done q) \<or> (\<exists>ov. is_interest s = Some ov \<and> ov_address ov \<in> pk_overlapped ` set (iocp_fetched m q))"
    and turn: "iocp_turn dos (Inr m) q = Some (res, q')"
  shows "WakeTask w \<in> set (drop n (ip_ran q')) \<and> (\<exists>s' c. op_get (ip_ops q') k = Some s' \<and> is_state s' = ICompleted c)"
proof -
  note i = iocp_invD [OF inv(1)]
  obtain x v where m: "get_many (Inr m) q = (x, v)" by (cases "get_many (Inr m) q")
  note v = get_many_inv [OF inv m]
  have x: "x = Inr (length (iocp_fetched m q))" and port: "ip_port q = iocp_fetched m q @ ip_port v" using v(13) by simp_all
  have t: "future_inv F g wk q'" "ip_jobs q' = ip_jobs q" "ip_done q' = []" "ip_in_flight q' = ip_in_flight q" "ip_port q' = ip_port v"
    "ip_pending q' \<subseteq>\<^sub>m ip_pending q"
    by (rule iocp_turn_steps [OF inv m [unfolded x], of dos]; use turn in simp)+
  note i' = iocp_invD [OF t(1)]
  note ok = future_state(1) [OF inv(1) s]
  have job: "k \<notin> set (ip_jobs q)"
  proof (cases "k \<in> fst ` set (ip_done q)")
    case True
    then show ?thesis using i(2) by (auto simp: iocp_running_def)
  next
    case False
    then show ?thesis using now ok wk(1) by (cases "is_state s") (auto simp: iocp_running_def elim!: iocp_state_ok.elims)
  qed
  have free: "ip_pending q' a \<noteq> Some k" for a
  proof
    assume a: "ip_pending q' a = Some k"
    then have q: "ip_pending q a = Some k" using t(6) by (auto simp: map_le_def dom_def)
    then obtain ov where ov: "is_interest s = Some ov" "ov_address ov = a" using i(3) s unfolding owners_ok_def by auto
    have "k \<notin> fst ` set (ip_done q)" using ok ov wk(1) by (cases "is_state s") (auto simp: iocp_running_def elim!: iocp_state_ok.elims)
    then have "a \<in> pk_overlapped ` set (iocp_fetched m q)" using now ov by auto
    then have "count_list (map pk_overlapped (iocp_fetched m q)) a \<noteq> 0" by (auto simp: count_list_0_iff)
    moreover have "count_list (ip_in_flight q @ map pk_overlapped (ip_port q)) a = 1" using i(5) q by (simp add: kernel_ok_def)
    ultimately have "count_list (ip_in_flight q' @ map pk_overlapped (ip_port q')) a = 0" using t(4,5) port by simp
    moreover have "count_list (ip_in_flight q' @ map pk_overlapped (ip_port q')) a = 1" using i'(5) a by (simp add: kernel_ok_def)
    ultimately show False by simp
  qed
  obtain s' where s': "op_get (ip_ops q') k = Some s'" by (rule future_live [OF t(1) wk(1)])
  have "is_interest s' = None"
  proof (cases "is_interest s'")
    case (Some ov)
    then have "ip_pending q' (ov_address ov) = Some k" using i'(3) s' unfolding owners_ok_def by blast
    then show ?thesis using free by simp
  qed
  moreover have "k \<notin> set (iocp_running q' (ip_done q'))" using job t(2,3) by (simp add: iocp_running_def)
  ultimately have "iocp_state_ok False (is_job s') False (F k) (g k) (Some (w, WakeTask w \<in> set (drop n (ip_ran q')))) (is_state s')"
    using future_state(1) [OF t(1) s'] wk(2) by (simp add: iocp_woken_def)
  then show ?thesis using s' by (cases "is_state s'") (auto elim: iocp_state_ok.elims)
qed

text \<open>
  C11. The Windows backend loses no wake-up.  While a future's last poll was pending with waker \<open>w\<close>, \<open>w\<close> was woken since, or the operation waits with
  \<open>w\<close> for a request whose header carries its key and which Windows holds or has queued a packet for, or for
  exactly one job; and a turn that fetches that packet, or before which the job ended - whatever else it fetches, and whether or not the
  operation was cancelled meanwhile - wakes \<open>w\<close> and leaves the completion for the next poll.
\<close>

theorem iocp_wakes:
  assumes "iocp_reach p" "ia_ops p k = Some d" "ia_waker p k = Some (w, n)"
  shows "\<exists>s. op_get (ip_ops (ia_iocp p)) k = Some s \<and>
     (WakeTask w \<in> set (drop n (ip_ran (ia_iocp p))) \<or>
      (is_state s = IWaiting w \<or> is_state s = ICanceling (IWaitingObserver w)) \<and>
        ((\<exists>ov. is_interest s = Some ov \<and> ip_headers (ia_iocp p) (ov_address ov) = Some k \<and>
            (ov_address ov \<in> set (ip_in_flight (ia_iocp p)) \<or> ov_address ov \<in> pk_overlapped ` set (ip_port (ia_iocp p)))) \<or>
         count_list (iocp_running (ia_iocp p) (ip_done (ia_iocp p))) k = 1)) \<and>
     (k \<in> fst ` set (ip_done (ia_iocp p)) \<or> (\<exists>ov. is_interest s = Some ov \<and> ov_address ov \<in> pk_overlapped ` set (iocp_fetched m (ia_iocp p))) \<longrightarrow>
       (\<exists>p'. iocp_act (ITurn dos (Inr m)) p = Some p' \<and> WakeTask w \<in> set (drop n (ip_ran (ia_iocp p'))) \<and>
          (\<exists>s' c. op_get (ip_ops (ia_iocp p')) k = Some s' \<and> is_state s' = ICompleted c)))"
proof -
  let ?q = "ia_iocp p"
  have inv: "future_inv (ia_ops p) (ia_payload p) (ia_waker p) ?q" "entries_null ?q" using iocp_reach_inv [OF assms(1)] by simp_all
  note i = iocp_invD [OF inv(1)]
  obtain s where s: "op_get (ip_ops ?q) k = Some s" by (rule future_live [OF inv(1) assms(2)])
  have one: "count_list (iocp_running ?q (ip_done ?q)) k = 1" if "k \<in> set (iocp_running ?q (ip_done ?q))"
    using i(2) that count_list_one by simp
  have held: "ip_headers ?q (ov_address ov) = Some k \<and> (ov_address ov \<in> set (ip_in_flight ?q) \<or> ov_address ov \<in> pk_overlapped ` set (ip_port ?q))"
    if ov: "is_interest s = Some ov" for ov
  proof -
    have p: "ip_pending ?q (ov_address ov) = Some k" using owners_taken(1) [OF i(3) s ov] .
    then have "count_list (ip_in_flight ?q @ map pk_overlapped (ip_port ?q)) (ov_address ov) \<noteq> 0" using i(5) by (simp add: kernel_ok_def)
    then show ?thesis using p i(4) by (auto simp: count_list_0_iff)
  qed
  have now: "WakeTask w \<in> set (drop n (ip_ran ?q)) \<or>
      (is_state s = IWaiting w \<or> is_state s = ICanceling (IWaitingObserver w)) \<and>
        ((\<exists>ov. is_interest s = Some ov \<and> ip_headers ?q (ov_address ov) = Some k \<and>
            (ov_address ov \<in> set (ip_in_flight ?q) \<or> ov_address ov \<in> pk_overlapped ` set (ip_port ?q))) \<or>
         count_list (iocp_running ?q (ip_done ?q)) k = 1)"
    using future_state(1) [OF inv(1) s] assms(2,3) one held
    by (cases "is_interest s"; cases "is_state s") (auto simp: iocp_woken_def elim!: iocp_state_ok.elims)
  obtain res q' where turn: "iocp_turn dos (Inr m) ?q = Some (res, q')" using iocp_turn_inv [OF inv, of dos "Inr m"] by blast
  show ?thesis using s now turn iocp_turn_wakes [OF inv assms(2,3) s _ turn] by auto
qed

text \<open>Programs that have submitted one operation, with a request that waits or with a job.\<close>

definition demo_overlapped :: overlapped where
  "demo_overlapped = \<lparr>ov_address = 16, ov_handle = 5\<rparr>"

abbreviation demo_case :: "iocp_submission \<Rightarrow> overlapped option \<Rightarrow> nat list \<Rightarrow> bool \<Rightarrow> bool" where
  "demo_case sub ov fl jb \<equiv> sub = SubmissionPending demo_overlapped \<and> ov = Some demo_overlapped \<and> fl = [16] \<and> \<not> jb \<or>
     sub = SubmissionBlocking \<and> ov = None \<and> fl = [] \<and> jb"

lemma demo_cases: "demo_case (SubmissionPending demo_overlapped) (Some demo_overlapped) [16] False" "demo_case SubmissionBlocking None [] True"
  by simp_all

lemma iocp_demo_submit:
  assumes "demo_case sub ov fl jb"
  obtains p k where "iocp_reach (p :: (nat, nat) iocp_program)" "ia_ops p k = Some 7" "ia_waker p k = None"
    "op_get (ip_ops (ia_iocp p)) k = Some \<lparr>is_state = ISubmitted, is_interest = ov, is_job = jb\<rparr>"
    "ip_port (ia_iocp p) = []" "ip_ran (ia_iocp p) = []" "ip_in_flight (ia_iocp p) = fl"
    "ip_jobs (ia_iocp p) = []" "ip_done (ia_iocp p) = []" "ip_capacity (ia_iocp p) = 8" "\<not> ip_shutting_down (ia_iocp p)" "\<forall>j s. op_get (ip_ops (ia_iocp p)) j = Some s \<longrightarrow> j = k"
proof -
  let ?s = "\<lparr>is_state = ISubmitted, is_interest = None, is_job = False\<rparr> :: (nat, nat) iocp_slot"
  let ?t0 = "\<lparr>ot_entries = slab_with_capacity 8, ot_generations = [], ot_generation_limit = GENERATION_MAX, ot_active_len = 0\<rparr> :: (nat, nat) iocp_slot op_table"
  let ?q0 = "\<lparr>ip_ops = ?t0, ip_pending = (\<lambda>_. None), ip_entries = replicate 8 null_packet, ip_capacity = 8, ip_done = [], ip_shutting_down = False,
    ip_closed = False, ip_headers = (\<lambda>_. None), ip_in_flight = [], ip_port = [], ip_cancels = [], ip_jobs = [], ip_ran = []\<rparr> :: (nat, nat) iocp"
  let ?p0 = "\<lparr>ia_iocp = ?q0, ia_ops = (\<lambda>_. None), ia_payload = (\<lambda>_. 0), ia_waker = (\<lambda>_. None), ia_outputs = []\<rparr> :: (nat, nat) iocp_program"
  have new: "op_new 8 = Inr ?t0" by (simp add: op_new_def op_new_with_generation_limit_def key_consts)
  have r0: "iocp_reach ?p0" by (rule iocp_start [of 8]) (simp add: iocp_new_def new)
  have inv0: "op_inv ?t0" using new op_inv_new by (auto simp: op_new_def split: if_splits)
  have "slab_vacant_key (ot_entries ?t0) \<noteq> MAX_CAPACITY" by (simp add: slab_with_capacity_def slab_vacant_key_def key_consts)
  then obtain k t where t: "op_insert ?t0 ?s = Some (Inr k, t)" "op_inv t" "op_get t k = Some ?s"
    using op_insert_spec [OF inv0, of "\<lambda>_. ?s"] unfolding op_insert_def by fastforce
  have fresh: "fresh_submission sub (ia_iocp ?p0)" using assms by (auto simp: fresh_submission_def demo_overlapped_def)
  have inv1: "op_inv (op_get_mut t k f)" "op_get (op_get_mut t k f) k = Some (f ?s)" for f
    using ops.upd_inv [OF t(2)] ops.upd_some [OF t(2,3)] by simp_all
  have "op_get ?t0 j = None" for j by (simp add: op_get_def list_get_def split: option.splits)
  then have only: "op_get t j = None" if "j \<noteq> k" for j using ops.ins_cases [OF inv0, of ?s] t(1) that by auto
  have only1: "j = k" if "op_get (op_get_mut t k f) j = Some s" for j f s
    using that ops.upd_some [OF t(2,3)] only by (cases "j = k") simp_all
  obtain p where p: "iocp_submit_act sub 7 ?p0 = Some p" using iocp_submit_act_inv [OF iocp_reach_inv [OF r0] fresh] by blast
  have "iocp_reach p" by (rule iocp_submit [OF r0 fresh p])
  then show thesis
    by (rule that [of p k])
       (use assms p t(1) inv1 only1 in \<open>auto simp: iocp_submit_act_def iocp_submit_op_def iocp_set_def demo_overlapped_def Let_def split: if_splits\<close>)
qed

lemma iocp_demo_wait:
  obtains p k where "iocp_reach (p :: (nat, nat) iocp_program)" "ia_ops p k = Some 7" "ia_waker p k = Some (3, 0)"
    "op_get (ip_ops (ia_iocp p)) k = Some \<lparr>is_state = IWaiting 3, is_interest = Some demo_overlapped, is_job = False\<rparr>"
    "ip_port (ia_iocp p) = []" "ip_ran (ia_iocp p) = []" "ip_in_flight (ia_iocp p) = [16]" "ip_capacity (ia_iocp p) = 8"
proof -
  obtain p k where p: "iocp_reach (p :: (nat, nat) iocp_program)" "ia_ops p k = Some 7"
    "op_get (ip_ops (ia_iocp p)) k = Some \<lparr>is_state = ISubmitted, is_interest = Some demo_overlapped, is_job = False\<rparr>"
    "ip_port (ia_iocp p) = []" "ip_ran (ia_iocp p) = []" "ip_in_flight (ia_iocp p) = [16]" "ip_capacity (ia_iocp p) = 8"
    by (rule iocp_demo_submit [OF demo_cases(1)])
  have op: "op_inv (ip_ops (ia_iocp p))" using iocp_invD(1) iocp_reach_inv [OF p(1)] by blast
  let ?p = "p\<lparr>ia_iocp := iocp_set_state k (IWaiting 3) (ia_iocp p), ia_waker := (ia_waker p)(k \<mapsto> (3, 0))\<rparr>"
  have "iocp_act (IPoll k 3 (Inr ())) p = Some ?p" using p(2,3,5) by (simp add: iocp_poll_op_def)
  then have "iocp_reach ?p" by (rule iocp_step [OF p(1)])
  then show thesis by (rule that [of ?p k]) (use p iocp_set_get(2) [OF op p(3)] in auto)
qed


theorem iocp_wakes_witness:
  "\<exists>(p :: (nat, nat) iocp_program) p'. iocp_reach p \<and> ip_ran (ia_iocp p) = [] \<and>
     iocp_act (ITurn (\<lambda>x. x) (Inr 4)) p = Some p' \<and> WakeTask 3 \<in> set (ip_ran (ia_iocp p'))"
proof -
  obtain p k where p: "iocp_reach (p :: (nat, nat) iocp_program)" "ia_ops p k = Some 7" "ia_waker p k = Some (3, 0)"
    "op_get (ip_ops (ia_iocp p)) k = Some \<lparr>is_state = IWaiting 3, is_interest = Some demo_overlapped, is_job = False\<rparr>"
    "ip_port (ia_iocp p) = []" "ip_ran (ia_iocp p) = []" "ip_in_flight (ia_iocp p) = [16]" "ip_capacity (ia_iocp p) = 8" by (rule iocp_demo_wait)
  let ?p = "p\<lparr>ia_iocp := iocp_world_step (RequestDone 16 0 9) (ia_iocp p)\<rparr>"
  have "iocp_act (IWorld (RequestDone 16 0 9)) p = Some ?p" by simp
  then have r: "iocp_reach ?p" by (rule iocp_step [OF p(1)])
  have "ia_ops ?p k = Some 7" "ia_waker ?p k = Some (3, 0)" using p by simp_all
  from iocp_wakes [OF r this, of 4 "\<lambda>x. x"] show ?thesis
    using r p by (auto simp: iocp_fetched_def demo_overlapped_def u32_max_def)
qed

end
