(* ===== verification/Iocp_Shutdown.thy ===== *)
theory Iocp_Shutdown
  imports Iocp_Safety
begin

text \<open>
  Shutdown of the Windows backend: it returns once Windows has finished the requests, unless an operation still has a job
  that was never dispatched or that the pool has not finished.
\<close>

section \<open>Slots during shutdown\<close>

text \<open>\<open>H\<close> are the operations whose job was never dispatched; nothing will complete them.\<close>

definition closing_slot ::
  "op_key set \<Rightarrow> ('w, 'd) deferred list \<Rightarrow> op_key \<Rightarrow> bool \<Rightarrow> ('w, 'd) iocp_slot option \<Rightarrow> bool" where
  "closing_slot H L k run slot \<longleftrightarrow>
     (case slot of
        None \<Rightarrow> \<not> run \<and> k \<notin> H
      | Some s \<Rightarrow>
          if k \<in> H then is_detached (is_state s) \<and> \<not> run \<and> is_interest s = None
          else (\<exists>c. is_state s = ICompleted c) \<and> \<not> run \<and> is_interest s = None \<or>
               is_detached (is_state s) \<and> (is_interest s \<noteq> None) = (\<not> run))"

lemma complete_detached: "is_detached st \<Longrightarrow> iocp_complete c st = (rm, wk, cl, st') \<Longrightarrow> rm"
  by (cases "(c, st)" rule: iocp_complete.cases) auto

interpretation closing: slot_contract "closing_slot H" for H
  by unfold_locales (auto simp: closing_slot_def split: option.splits if_splits dest: complete_detached)

abbreviation closing_inv :: "op_key set \<Rightarrow> ('w, 'd) iocp \<Rightarrow> bool" where
  "closing_inv H q \<equiv> iocp_inv (closing_slot H) [] [] [] q \<and> entries_null q \<and> ip_closed q"

subsection \<open>Detaching every slot\<close>

definition detach_state :: "('w, 'd) iocp_state \<Rightarrow> ('w, 'd) iocp_state" where
  "detach_state st =
     (case st of
        ISubmitted \<Rightarrow> IDetached Placeholder
      | IWaiting _ \<Rightarrow> IDetached Placeholder
      | ICanceling IPendingObserver \<Rightarrow> ICanceling (IDetachedObserver Placeholder)
      | ICanceling (IWaitingObserver _) \<Rightarrow> ICanceling (IDetachedObserver Placeholder)
      | st \<Rightarrow> st)"

lemma detach_state_simps [simp]:
  "detach_state (ICompleted c) = ICompleted c" "is_detached (detach_state st) \<longleftrightarrow> (\<forall>c. st \<noteq> ICompleted c)"
  by (auto simp: detach_state_def split: iocp_state.splits iocp_observer.splits)

lemma detach_slot_get:
  assumes "op_inv (ip_ops q)" "op_get (ip_ops q) k = Some s"
  shows "op_inv (ip_ops (detach_slot k s q))"
    "op_get (ip_ops (detach_slot k s q)) = (op_get (ip_ops q))(k \<mapsto> s\<lparr>is_state := detach_state (is_state s)\<rparr>)"
proof -
  have g: "op_inv (ip_ops (iocp_set_state k st (cancel_pending ov q)))"
    "op_get (ip_ops (iocp_set_state k st (cancel_pending ov q))) = (op_get (ip_ops q))(k \<mapsto> s\<lparr>is_state := st\<rparr>)" for st ov
    using iocp_set_get [of "cancel_pending ov q" k s "\<lambda>s. s\<lparr>is_state := st\<rparr>"] assms by simp_all
  show "op_inv (ip_ops (detach_slot k s q))"
    using assms g(1) by (simp add: detach_slot_def split: iocp_state.splits iocp_observer.splits)
  have same: "(op_get (ip_ops q))(k \<mapsto> s\<lparr>is_state := is_state s\<rparr>) = op_get (ip_ops q)" using assms(2) by auto
  show "op_get (ip_ops (detach_slot k s q)) = (op_get (ip_ops q))(k \<mapsto> s\<lparr>is_state := detach_state (is_state s)\<rparr>)"
  proof (cases "is_state s")
    case (ICanceling ob)
    then show ?thesis using g(2) same by (cases ob) (simp_all add: detach_slot_def detach_state_def)
  qed (use g(2) same in \<open>simp_all add: detach_slot_def detach_state_def\<close>)
qed

lemma detach_slot_fields [simp]:
  "ip_pending (detach_slot k s q) = ip_pending q" "ip_entries (detach_slot k s q) = ip_entries q" "ip_capacity (detach_slot k s q) = ip_capacity q"
  "ip_done (detach_slot k s q) = ip_done q" "ip_closed (detach_slot k s q) = ip_closed q" "ip_headers (detach_slot k s q) = ip_headers q"
  "ip_in_flight (detach_slot k s q) = ip_in_flight q" "ip_port (detach_slot k s q) = ip_port q" "ip_jobs (detach_slot k s q) = ip_jobs q"
  "ip_ran (detach_slot k s q) = ip_ran q"
  by (simp_all add: detach_slot_def split: iocp_state.splits iocp_observer.splits)

lemma detach_all_fields [simp]:
  "ip_pending (detach_all ps q) = ip_pending q" "ip_entries (detach_all ps q) = ip_entries q" "ip_capacity (detach_all ps q) = ip_capacity q"
  "ip_done (detach_all ps q) = ip_done q" "ip_closed (detach_all ps q) = ip_closed q" "ip_headers (detach_all ps q) = ip_headers q"
  "ip_in_flight (detach_all ps q) = ip_in_flight q" "ip_port (detach_all ps q) = ip_port q" "ip_jobs (detach_all ps q) = ip_jobs q"
  "ip_ran (detach_all ps q) = ip_ran q"
  by (induction ps q rule: detach_all.induct) simp_all

lemma detach_all_get:
  assumes "op_inv (ip_ops q)" "distinct (map fst ps)" "\<And>k s. (k, s) \<in> set ps \<Longrightarrow> op_get (ip_ops q) k = Some s"
  shows "op_inv (ip_ops (detach_all ps q)) \<and> op_get (ip_ops (detach_all ps q)) k =
    (if k \<in> fst ` set ps then map_option (\<lambda>s. s\<lparr>is_state := detach_state (is_state s)\<rparr>) (op_get (ip_ops q) k) else op_get (ip_ops q) k)"
  using assms
proof (induction ps q rule: detach_all.induct)
  case (2 j s rest q)
  have s: "op_get (ip_ops q) j = Some s" using 2(4) by simp
  note g = detach_slot_get [OF 2(2) s]
  have rest: "op_get (ip_ops (detach_slot j s q)) i = Some x" if "(i, x) \<in> set rest" for i x
    using that 2(3,4) g(2) by (force simp: fun_upd_apply)
  show ?case using 2(1) [OF g(1) _ rest] 2(3) g(2) s by auto
qed simp

lemma detach_inv:
  assumes inv: "future_inv F g wk q" "entries_null q" and it: "op_iter (ip_ops q) = Some ps"
  defines "q' \<equiv> detach_all ps (q\<lparr>ip_shutting_down := True, ip_closed := True\<rparr>)"
  shows "closing_inv {k. \<exists>s. op_get (ip_ops q) k = Some s \<and> is_job s} q'"
    "op_get (ip_ops q') k = map_option (\<lambda>s. s\<lparr>is_state := detach_state (is_state s)\<rparr>) (op_get (ip_ops q) k)"
proof -
  note i = iocp_invD [OF inv(1)]
  have ps: "(k, s) \<in> set ps \<longleftrightarrow> op_get (ip_ops q) k = Some s" "distinct (map fst ps)" for k s
    using ops.iterE [OF i(1)] it by (metis option.inject)+
  have mem: "k \<in> fst ` set ps \<longleftrightarrow> op_get (ip_ops q) k \<noteq> None" for k using ps(1) by force
  have all: "op_inv (ip_ops q') \<and> op_get (ip_ops q') k = (if k \<in> fst ` set ps
     then map_option (\<lambda>s. s\<lparr>is_state := detach_state (is_state s)\<rparr>) (op_get (ip_ops q) k) else op_get (ip_ops q) k)" for k
    unfolding q'_def using detach_all_get [of "q\<lparr>ip_shutting_down := True, ip_closed := True\<rparr>" ps k] i(1) ps by simp
  show get: "op_get (ip_ops q') k = map_option (\<lambda>s. s\<lparr>is_state := detach_state (is_state s)\<rparr>) (op_get (ip_ops q) k)" for k
    using all [of k] mem [of k] by (cases "op_get (ip_ops q) k") auto
  have slot: "closing_slot {k. \<exists>s. op_get (ip_ops q) k = Some s \<and> is_job s} (ip_ran q) k (k \<in> set (iocp_running q (ip_done q))) (op_get (ip_ops q') k)" for k
  proof (cases "op_get (ip_ops q) k")
    case (Some s)
    then show ?thesis using future_state(1) [OF inv(1) Some] get [of k]
      by (cases "is_state s") (auto simp: closing_slot_def elim!: iocp_state_ok.elims)
  qed (use i(6) [of k] get [of k] in \<open>simp add: closing_slot_def future_slot_def\<close>)
  have own: "owners_ok (op_get (ip_ops q')) (ip_pending q)" using i(3) unfolding owners_ok_def get by (auto simp: map_option_case split: option.splits)
  have run: "iocp_running q' x = iocp_running q x" for x by (simp add: q'_def iocp_running_def)
  show "closing_inv {k. \<exists>s. op_get (ip_ops q) k = Some s \<and> is_job s} q'"
    using all i(2,4,5) slot own inv(2) run unfolding iocp_inv_def entries_null_def by (simp add: q'_def)
qed

section \<open>The loop\<close>

lemma iter_detached:
  assumes "op_inv (ip_ops q)" "op_iter (ip_ops q) = Some ps"
  shows "list_ex (\<lambda>(_, s). is_detached (is_state s)) ps \<longleftrightarrow> (\<exists>k s. op_get (ip_ops q) k = Some s \<and> is_detached (is_state s))"
proof -
  have "(k, s) \<in> set ps \<longleftrightarrow> op_get (ip_ops q) k = Some s" for k s using ops.iterE [OF assms(1)] assms(2) by (metis option.inject)
  then show ?thesis by (fastforce simp: list_ex_iff)
qed

abbreviation iocp_waits :: "('w, 'd) iocp \<Rightarrow> bool" where
  "iocp_waits q \<equiv> \<exists>k s. op_get (ip_ops q) k = Some s \<and> is_detached (is_state s)"

lemma loop_unfold:
  assumes "op_inv (ip_ops q)"
  shows "iocp_drain_loop dos evs q =
     (if \<not> iocp_waits q then Some (True, q)
      else
        (case evs of
           [] \<Rightarrow> Some (False, q)
         | (ws, r) # evs \<Rightarrow>
             (case get_many r (fold iocp_world_step ws q) of
                (Inl e, q) \<Rightarrow> iocp_drain_loop dos evs q
              | (Inr n, q) \<Rightarrow>
                  if n = 0 then iocp_drain_loop dos evs q
                  else (case iocp_settle dos q of None \<Rightarrow> None | Some q \<Rightarrow> iocp_drain_loop dos evs q))))"
proof -
  obtain ps where ps: "op_iter (ip_ops q) = Some ps" using ops.iter_total [OF assms] by blast
  show ?thesis using ps iter_detached [OF assms ps] by (subst iocp_drain_loop.simps) simp
qed

lemma world_closed [simp]: "ip_closed (iocp_world_step x q) = ip_closed q" "ip_capacity (iocp_world_step x q) = ip_capacity q"
  "ip_ops (iocp_world_step x q) = ip_ops q"
  by (cases x; simp add: iocp_guard_send_def iocp_wake_def)+

lemma worlds_same [simp]: "ip_closed (fold iocp_world_step ws q) = ip_closed q" "ip_capacity (fold iocp_world_step ws q) = ip_capacity q"
  "ip_ops (fold iocp_world_step ws q) = ip_ops q" "ip_entries (fold iocp_world_step ws q) = ip_entries q"
  by (induction ws arbitrary: q) simp_all

text \<open>One round of the loop.\<close>

lemma loop_round:
  assumes inv: "closing_inv H q" and w: "iocp_waits q" and m: "get_many r (fold iocp_world_step ws q) = (x, v)"
  obtains q' where "\<forall>evs. iocp_drain_loop dos ((ws, r) # evs) q = iocp_drain_loop dos evs q'" "closing_inv H q'" "ip_capacity q' = ip_capacity q"
    "ip_port q' = ip_port v" "ip_in_flight q' = ip_in_flight v" "ip_jobs q' = ip_jobs v" "ip_done v = [] \<longrightarrow> ip_done q' = []"
    "x = Inr 0 \<or> (\<exists>e. x = Inl e) \<longrightarrow> ip_ops q' = ip_ops q"
proof -
  let ?w = "fold iocp_world_step ws q"
  have winv: "iocp_inv (closing_slot H) [] [] [] ?w" "entries_null ?w" "ip_closed ?w"
    using inv worlds_inv [of "closing_slot H" "[]" q ws] by (simp_all add: entries_null_def)
  note v = get_many_inv [OF winv(1,2) m]
  note un = loop_unfold [OF iocp_invD(1) [OF conjunct1 [OF inv]], of dos "(ws, r) # _"]
  show thesis
  proof (cases x)
    case (Inl e)
    then have "v = ?w" using v(11) by simp
    then show thesis using un w m Inl winv by (intro that [of ?w]) simp_all
  next
    case (Inr n)
    show thesis
    proof (cases "n = 0")
      case True
      then have p: "entries_null v" "ip_port v = ip_port ?w" using v(12) Inr by simp_all
      have "iocp_inv (closing_slot H) [] [] [] v"
        using v(1) iocp_invD(5) [OF winv(1)] p(2) v(5,7) by (simp add: iocp_inv_def)
      then show thesis using un w m Inr True v(4,8,9) p(1) winv(3) by (intro that [of v]) simp_all
    next
      case False
      obtain q' where q': "iocp_settle dos v = Some q'" "iocp_inv (closing_slot H) [] [] [] q'" "ip_jobs q' = ip_jobs v" "ip_done q' = []"
        "ip_entries q' = []" "ip_in_flight q' = ip_in_flight v" "ip_port q' = ip_port v" "ip_closed q' = ip_closed v" "ip_capacity q' = ip_capacity v"
        by (rule closing.settle [OF v(1), of dos])
      then show thesis using un w m Inr False v(8,9) winv(3) by (intro that [of q']) (simp_all add: entries_null_def)
    qed
  qed
qed

lemma loop_inv:
  assumes "closing_inv H q"
  shows "\<exists>b q'. iocp_drain_loop dos evs q = Some (b, q') \<and> closing_inv H q' \<and> ip_capacity q' = ip_capacity q \<and> b = (\<not> iocp_waits q')"
  using assms
proof (induction evs arbitrary: q)
  case Nil
  then show ?case using loop_unfold [OF iocp_invD(1) [OF conjunct1 [OF Nil]], of dos "[]"] by auto
next
  case (Cons ev evs)
  obtain ws r where ev: "ev = (ws, r)" by (cases ev)
  show ?case
  proof (cases "iocp_waits q")
    case True
    obtain x v where m: "get_many r (fold iocp_world_step ws q) = (x, v)" by (cases "get_many r (fold iocp_world_step ws q)")
    obtain q' where q': "\<forall>evs. iocp_drain_loop dos ((ws, r) # evs) q = iocp_drain_loop dos evs q'" "closing_inv H q'" "ip_capacity q' = ip_capacity q"
      by (rule loop_round [OF Cons.prems True m, of dos])
    then show ?thesis using Cons.IH [OF q'(2)] ev by auto
  next
    case False
    then show ?thesis using loop_unfold [OF iocp_invD(1) [OF conjunct1 [OF Cons.prems]], of dos "ev # evs"] Cons.prems by auto
  qed
qed

lemma loop_append:
  assumes "closing_inv H q" "iocp_drain_loop dos evs q = Some (False, q')"
  shows "iocp_drain_loop dos (evs @ rest) q = iocp_drain_loop dos rest q'"
  using assms
proof (induction evs arbitrary: q)
  case Nil
  then show ?case using loop_unfold [OF iocp_invD(1) [OF conjunct1 [OF Nil(1)]], of dos "[]"] by (auto split: if_splits)
next
  case (Cons ev evs)
  obtain ws r where ev: "ev = (ws, r)" by (cases ev)
  obtain x v where m: "get_many r (fold iocp_world_step ws q) = (x, v)" by (cases "get_many r (fold iocp_world_step ws q)")
  have w: "iocp_waits q" using loop_unfold [OF iocp_invD(1) [OF conjunct1 [OF Cons.prems(1)]], of dos "ev # evs"] Cons.prems(2) by (auto split: if_splits)
  obtain q1 where q1: "\<forall>es. iocp_drain_loop dos ((ws, r) # es) q = iocp_drain_loop dos es q1" "closing_inv H q1"
    by (rule loop_round [OF Cons.prems(1) w m, of dos])
  show ?case using Cons.IH [OF q1(2)] Cons.prems(2) q1(1) ev by simp
qed

text \<open>With no job left, the loop waits only for requests.\<close>

abbreviation idle_pool :: "('w, 'd) iocp \<Rightarrow> bool" where
  "idle_pool q \<equiv> ip_jobs q = [] \<and> ip_done q = []"

lemma world_idle: "idle_pool q \<Longrightarrow> idle_pool (iocp_world_step x q)"
  by (cases x) (simp_all add: iocp_guard_send_def iocp_wake_def)

lemma worlds_idle: "idle_pool q \<Longrightarrow> idle_pool (fold iocp_world_step ws q)"
  by (induction ws arbitrary: q) (simp_all add: world_idle)

lemma get_many_idle: "get_many r q = (x, v) \<Longrightarrow> ip_jobs v = ip_jobs q \<and> ip_done v = ip_done q"
  by (auto simp: get_many_def Let_def split: sum.splits if_splits)

lemma loop_idle:
  assumes "closing_inv H q" "idle_pool q" "iocp_drain_loop dos evs q = Some (b, q')"
  shows "idle_pool q'"
  using assms
proof (induction evs arbitrary: q)
  case Nil
  then show ?case using loop_unfold [OF iocp_invD(1) [OF conjunct1 [OF Nil(1)]], of dos "[]"] by (auto split: if_splits)
next
  case (Cons ev evs)
  obtain ws r where ev: "ev = (ws, r)" by (cases ev)
  show ?case
  proof (cases "iocp_waits q")
    case True
    obtain x v where m: "get_many r (fold iocp_world_step ws q) = (x, v)" by (cases "get_many r (fold iocp_world_step ws q)")
    have v: "idle_pool v" using get_many_idle [OF m] worlds_idle [OF Cons.prems(2)] by simp
    obtain q1 where q1: "\<forall>es. iocp_drain_loop dos ((ws, r) # es) q = iocp_drain_loop dos es q1" "closing_inv H q1" "ip_jobs q1 = ip_jobs v"
      "ip_done v = [] \<longrightarrow> ip_done q1 = []" by (rule loop_round [OF Cons.prems(1) True m, of dos])
    show ?thesis using Cons.IH [OF q1(2)] Cons.prems(3) q1 v ev by simp
  next
    case False
    then show ?thesis using loop_unfold [OF iocp_invD(1) [OF conjunct1 [OF Cons.prems(1)]], of dos "ev # evs"] Cons.prems by auto
  qed
qed

lemma waits_request:
  assumes inv: "closing_inv {} q" "idle_pool q" "iocp_waits q"
  shows "ip_in_flight q \<noteq> [] \<or> ip_port q \<noteq> []"
proof -
  note i = iocp_invD [OF conjunct1 [OF inv(1)]]
  obtain k s where s: "op_get (ip_ops q) k = Some s" "is_detached (is_state s)" using inv(3) by blast
  obtain ov where ov: "is_interest s = Some ov" using i(6) [of k] s inv(2) by (auto simp: closing_slot_def iocp_running_def)
  have "ip_pending q (ov_address ov) = Some k" by (rule owners_taken(1) [OF i(3) s(1) ov])
  then have "count_list (ip_in_flight q @ map pk_overlapped (ip_port q)) (ov_address ov) = 1" using i(5) by (simp add: kernel_ok_def)
  then show ?thesis by auto
qed

lemma loop_fetch_all:
  assumes "closing_inv {} q" "idle_pool q" "ip_in_flight q = []" "length (ip_port q) \<le> N" "ip_capacity q > 0"
  shows "\<exists>q'. iocp_drain_loop dos (replicate N ([], Inr 1)) q = Some (True, q')"
  using assms
proof (induction N arbitrary: q)
  case 0
  then show ?case using waits_request [OF 0(1,2)] loop_unfold [OF iocp_invD(1) [OF conjunct1 [OF 0(1)]], of dos "[]"] by auto
next
  case (Suc N)
  show ?case
  proof (cases "iocp_waits q")
    case True
    have ne: "ip_port q \<noteq> []" using waits_request [OF Suc.prems(1,2) True] Suc.prems(3) by simp
    obtain x v where m: "get_many (Inr 1) (fold iocp_world_step [] q) = (x, v)" by (cases "get_many (Inr 1) (fold iocp_world_step [] q)")
    have v: "ip_port v = drop 1 (ip_port q)" "ip_in_flight v = []" "idle_pool v"
      using m Suc.prems ne by (auto simp: get_many_def iocp_fetched_def u32_max_def Let_def min_def not_less_eq_eq Suc_le_eq)
    obtain q1 where q1: "\<forall>es. iocp_drain_loop dos (([], Inr 1) # es) q = iocp_drain_loop dos es q1" "closing_inv {} q1" "ip_capacity q1 = ip_capacity q"
      "ip_port q1 = ip_port v" "ip_in_flight q1 = ip_in_flight v" "ip_jobs q1 = ip_jobs v" "ip_done v = [] \<longrightarrow> ip_done q1 = []"
      by (rule loop_round [OF Suc.prems(1) True m, of dos])
    show ?thesis using Suc.IH [OF q1(2)] q1 v Suc.prems(4,5) by simp
  next
    case False
    then show ?thesis using loop_unfold [OF iocp_invD(1) [OF conjunct1 [OF Suc.prems(1)]], of dos "replicate (Suc N) ([], Inr 1)"] by auto
  qed
qed

lemma requests_done:
  assumes "ip_in_flight q = fl"
  shows "ip_in_flight (fold iocp_world_step (map (\<lambda>a. RequestDone a (st a) (n a)) fl) q) = [] \<and>
    length (ip_port (fold iocp_world_step (map (\<lambda>a. RequestDone a (st a) (n a)) fl) q)) = length (ip_port q) + length fl"
  using assms by (induction fl arbitrary: q) auto

lemma loop_returns:
  assumes inv: "closing_inv {} q" "idle_pool q" "ip_capacity q > 0" and N: "length (ip_port q) + length (ip_in_flight q) \<le> N"
  shows "\<exists>q'. iocp_drain_loop dos ((map (\<lambda>a. RequestDone a (st a) (n a)) (ip_in_flight q), Inr 1) # replicate N ([], Inr 1)) q = Some (True, q')"
proof (cases "iocp_waits q")
  case True
  let ?ws = "map (\<lambda>a. RequestDone a (st a) (n a)) (ip_in_flight q)"
  let ?w = "fold iocp_world_step ?ws q"
  have w: "ip_in_flight ?w = []" "length (ip_port ?w) \<le> N" "idle_pool ?w" "ip_capacity ?w = ip_capacity q"
    using requests_done [OF refl, of st n q] N worlds_idle [OF inv(2)] by simp_all
  obtain x v where m: "get_many (Inr 1) ?w = (x, v)" by (cases "get_many (Inr 1) ?w")
  have v: "length (ip_port v) \<le> N" "ip_in_flight v = []" "idle_pool v"
    using m w by (auto simp: get_many_def Let_def)
  obtain q1 where q1: "\<forall>es. iocp_drain_loop dos ((?ws, Inr 1) # es) q = iocp_drain_loop dos es q1" "closing_inv {} q1" "ip_capacity q1 = ip_capacity q"
    "ip_port q1 = ip_port v" "ip_in_flight q1 = ip_in_flight v" "ip_jobs q1 = ip_jobs v" "ip_done v = [] \<longrightarrow> ip_done q1 = []"
    by (rule loop_round [OF inv(1) True m, of dos])
  show ?thesis using loop_fetch_all [OF q1(2), of N dos] q1 v inv(3) by simp
next
  case False
  then show ?thesis using loop_unfold [OF iocp_invD(1) [OF conjunct1 [OF inv(1)]], of dos "_ # _"] by auto
qed

section \<open>Tearing down\<close>

text \<open>Draining the pool's completions touches only their operations, and no job that was not dispatched.\<close>

lemma finish_slots:
  assumes "op_inv (ip_ops q)" "iocp_finish k c st q = Some (ds, q')"
  shows "op_inv (ip_ops q') \<and> (\<forall>j. j \<noteq> k \<longrightarrow> op_get (ip_ops q') j = op_get (ip_ops q) j) \<and>
    (\<forall>j s'. op_get (ip_ops q') j = Some s' \<longrightarrow> (\<exists>s. op_get (ip_ops q) j = Some s \<and> is_job s' = is_job s))"
proof -
  obtain rm wk cl st' where x: "iocp_complete c st = (rm, wk, cl, st')" by (cases "iocp_complete c st")
  let ?t = "op_get_mut (ip_ops q) k (\<lambda>s. s\<lparr>is_state := st'\<rparr>)"
  have t: "op_inv ?t" "op_get ?t = (op_get (ip_ops q))(k := map_option (\<lambda>s. s\<lparr>is_state := st'\<rparr>) (op_get (ip_ops q) k))"
    using ops.upd_inv [OF assms(1)] ops.get_upd [OF assms(1)] by auto
  obtain t' where t': "op_remove ?t k = Some (op_get ?t k, t')" "op_inv t'" "op_get t' = (op_get ?t)(k := None)" by (rule ops.remE [OF t(1)])
  have "ip_ops q' = (if rm then t' else ?t)" using assms(2) x t'(1) by (auto simp: iocp_finish_def iocp_set_def iocp_remove_def split: if_splits)
  then show ?thesis using t t' by auto
qed

lemma drain_slots:
  assumes "op_inv (ip_ops q)" "iocp_drain_done dn q = Some (ds, q')"
  shows "(\<forall>j. j \<notin> fst ` set dn \<longrightarrow> op_get (ip_ops q') j = op_get (ip_ops q) j) \<and>
    (\<forall>j s'. op_get (ip_ops q') j = Some s' \<longrightarrow> (\<exists>s. op_get (ip_ops q) j = Some s \<and> is_job s' = is_job s))"
  using assms
proof (induction dn q arbitrary: ds rule: iocp_drain_done.induct)
  case (2 k c rest q)
  let ?x = "case op_get (ip_ops q) k of None \<Rightarrow> Some ([], q) | Some s \<Rightarrow> iocp_finish k c (is_state s) q"
  obtain ds1 q1 ds2 where x: "?x = Some (ds1, q1)" "iocp_drain_done rest q1 = Some (ds2, q')"
    using 2(3) by (auto split: option.splits)
  have f: "op_inv (ip_ops q1)" "\<And>j. j \<noteq> k \<Longrightarrow> op_get (ip_ops q1) j = op_get (ip_ops q) j"
    "\<And>j s'. op_get (ip_ops q1) j = Some s' \<Longrightarrow> \<exists>s. op_get (ip_ops q) j = Some s \<and> is_job s' = is_job s"
    using x(1) 2(2) finish_slots [OF 2(2), of k c _ ds1 q1] by (auto split: option.splits)
  note ih = 2(1) [OF x(1) refl f(1) x(2)]
  have "op_get (ip_ops q') j = op_get (ip_ops q) j" if "j \<notin> fst ` set ((k, c) # rest)" for j using that ih f(2) by simp
  moreover have "\<exists>s. op_get (ip_ops q) j = Some s \<and> is_job s' = is_job s" if "op_get (ip_ops q') j = Some s'" for j s'
    using that ih f(3) by blast
  ultimately show ?case by blast
qed auto

lemma teardown_steps:
  assumes inv: "future_inv F g wk q" "entries_null q" and new: "\<not> ip_shutting_down q"
  obtains q2 where
    "\<forall>evs. iocp_teardown dos evs q =
       (case iocp_drain_loop dos evs q2 of None \<Rightarrow> None | Some (False, q) \<Rightarrow> Some (False, q) | Some (True, q) \<Rightarrow> map_option (Pair True) (iocp_clear q))"
    "closing_inv {k. \<exists>s. op_get (ip_ops q) k = Some s \<and> is_job s} q2" "ip_jobs q2 = ip_jobs q" "ip_done q2 = []" "ip_port q2 = ip_port q"
    "ip_in_flight q2 = ip_in_flight q" "ip_capacity q2 = ip_capacity q"
proof -
  note i = iocp_invD [OF inv(1)]
  have "iocp_inv (future_slot F g wk) (ip_done q) [] [] (q\<lparr>ip_done := []\<rparr>)" using inv(1) by (simp add: iocp_inv_def)
  then obtain ds q1 where q1: "iocp_drain q = Some (ds, q1)" "iocp_inv (future_slot F g wk) [] [] ds q1" "iocp_same (q\<lparr>ip_done := []\<rparr>) q1"
    using futures.drain_done [of F g wk "ip_done q" "[]" "[]" "q\<lparr>ip_done := []\<rparr>"] by (auto simp: iocp_drain_def)
  let ?r = "iocp_run ds q1"
  have r: "future_inv F g wk ?r" by (rule futures.run [OF q1(2)])
  have same: "ip_entries ?r = ip_entries q" "ip_jobs ?r = ip_jobs q" "ip_done ?r = []" "ip_port ?r = ip_port q" "ip_in_flight ?r = ip_in_flight q"
    "ip_capacity ?r = ip_capacity q" "\<not> ip_shutting_down ?r" using q1(3) new by (simp_all add: iocp_same_def iocp_run_def)
  have sl: "(\<forall>j. j \<notin> fst ` set (ip_done q) \<longrightarrow> op_get (ip_ops ?r) j = op_get (ip_ops q) j) \<and>
    (\<forall>j s'. op_get (ip_ops ?r) j = Some s' \<longrightarrow> (\<exists>s. op_get (ip_ops q) j = Some s \<and> is_job s' = is_job s))"
    using drain_slots [of "q\<lparr>ip_done := []\<rparr>" "ip_done q" ds q1] i(1) q1(1) by (simp add: iocp_drain_def iocp_run_def)
  have job: "k \<notin> fst ` set (ip_done q)" if "op_get (ip_ops q) k = Some s" "is_job s" for k s
    using future_state(1) [OF inv(1) that(1)] that(2) by (cases "is_state s") (auto simp: iocp_running_def elim!: iocp_state_ok.elims)
  have H: "{k. \<exists>s. op_get (ip_ops ?r) k = Some s \<and> is_job s} = {k. \<exists>s. op_get (ip_ops q) k = Some s \<and> is_job s}"
    by (intro Collect_cong iffI; elim exE conjE) (use sl in blast, use sl job in metis)
  obtain ps where it: "op_iter (ip_ops ?r) = Some ps" using ops.iter_total [OF iocp_invD(1) [OF r]] by blast
  let ?q2 = "detach_all ps (?r\<lparr>ip_shutting_down := True, ip_closed := True\<rparr>)"
  have "entries_null ?r" using inv(2) same(1) by (simp add: entries_null_def)
  note d = detach_inv(1) [OF r this it, unfolded H]
  show thesis
    by (rule that [of ?q2]) (use d q1(1) it same in \<open>simp_all add: iocp_teardown_def iocp_shutdown_def\<close>)
qed

lemma clear_returns:
  assumes inv: "closing_inv H q" and w: "\<not> iocp_waits q"
  shows "\<exists>q'. iocp_clear q = Some q' \<and> (\<forall>k. op_get (ip_ops q') k = None) \<and> ip_headers q' = Map.empty \<and> ip_in_flight q' = []"
proof -
  note i = iocp_invD [OF conjunct1 [OF inv]]
  have none: "is_interest s = None" if "op_get (ip_ops q) k = Some s" for k s
    using i(6) [of k] that w by (auto simp: closing_slot_def split: if_splits)
  then have p: "ip_pending q = Map.empty" using i(3) unfolding owners_ok_def by (intro ext) (metis not_None_eq)
  then have fl: "ip_in_flight q = []" using i(5) by (cases "ip_in_flight q") (auto simp: kernel_ok_def)
  obtain ps where it: "op_iter (ip_ops q) = Some ps" "\<And>k s. (k, s) \<in> set ps \<longleftrightarrow> op_get (ip_ops q) k = Some s"
    by (rule ops.iterE [OF i(1)]) blast
  have "(\<forall>(k, s) \<in> set xs. is_interest s = None) \<Longrightarrow> free_all xs h = h" for xs :: "(op_key \<times> ('a, 'b) iocp_slot) list" and h
    by (induction xs arbitrary: h) (auto simp: free_all_def free_interest_def)
  then have free: "free_all ps h = h" for h using it(2) none by blast
  obtain t where t: "op_clear (ip_ops q) = Some t" "op_inv t" "\<And>j. \<not> op_live t j" by (rule op_clear_spec [OF i(1)]) blast
  have "op_get t k = None" for k using t(3) by (auto simp: op_get_def op_live_def split: option.splits if_splits)
  then show ?thesis using it(1) t(1) free p fl i(4) by (simp add: iocp_clear_def)
qed

text \<open>
  C13. Shutdown of the Windows backend returns.  Once the pool has no job left and every submitted job was dispatched, the end of the runtime's drop -
  draining the pool's completions, then shutting the backend down - may wait for requests; but however it has gone so far, as soon as Windows finishes the
  requests that it still holds, with any status and byte count, the loop ends after at most one wait for each packet; and then no operation is left,
  Windows holds no address of the backend, and no header is leaked.
\<close>

theorem iocp_shutdown_returns:
  assumes "iocp_reach p" "\<not> ip_shutting_down (ia_iocp p)" "ip_capacity (ia_iocp p) > 0" "ip_jobs (ia_iocp p) = []"
    and "\<forall>k s. op_get (ip_ops (ia_iocp p)) k = Some s \<longrightarrow> \<not> is_job s"
    and "iocp_teardown dos evs (ia_iocp p) = Some (False, q)" "length (ip_port q) + length (ip_in_flight q) \<le> N"
  shows "\<exists>q'. iocp_teardown dos (evs @ (map (\<lambda>a. RequestDone a (status a) (bytes a)) (ip_in_flight q), Inr 1) # replicate N ([], Inr 1)) (ia_iocp p) = Some (True, q') \<and>
    (\<forall>k. op_get (ip_ops q') k = None) \<and> ip_in_flight q' = [] \<and> ip_headers q' = Map.empty"
proof -
  have inv: "future_inv (ia_ops p) (ia_payload p) (ia_waker p) (ia_iocp p)" "entries_null (ia_iocp p)" using iocp_reach_inv [OF assms(1)] by simp_all
  obtain q2 where q2: "\<forall>evs. iocp_teardown dos evs (ia_iocp p) =
       (case iocp_drain_loop dos evs q2 of None \<Rightarrow> None | Some (False, q) \<Rightarrow> Some (False, q) | Some (True, q) \<Rightarrow> map_option (Pair True) (iocp_clear q))"
    "closing_inv {k. \<exists>s. op_get (ip_ops (ia_iocp p)) k = Some s \<and> is_job s} q2" "ip_jobs q2 = ip_jobs (ia_iocp p)" "ip_done q2 = []"
    "ip_capacity q2 = ip_capacity (ia_iocp p)"
    by (rule teardown_steps [OF inv assms(2), of dos])
  have "{k. \<exists>s. op_get (ip_ops (ia_iocp p)) k = Some s \<and> is_job s} = {}" using assms(5) by blast
  then have c: "closing_inv {} q2" by (rule subst) (rule q2(2))
  have loop: "iocp_drain_loop dos evs q2 = Some (False, q)"
    using assms(6) q2(1) by (auto split: option.splits prod.splits bool.splits)
  have q3: "closing_inv {} q" "ip_capacity q = ip_capacity q2" using loop_inv [OF c, of dos evs] loop by auto
  have idle: "idle_pool q" by (rule loop_idle [OF c _ loop]) (use q2(3,4) assms(4) in simp)
  let ?tail = "(map (\<lambda>a. RequestDone a (status a) (bytes a)) (ip_in_flight q), Inr 1) # replicate N ([], Inr 1)"
  obtain q4 where q4: "iocp_drain_loop dos ?tail q = Some (True, q4)"
    using loop_returns [OF q3(1) idle _ assms(7), of dos status bytes] q3(2) q2(5) assms(3) by auto
  have end': "closing_inv {} q4" "\<not> iocp_waits q4" using loop_inv [OF q3(1), of dos ?tail] q4 by auto
  show ?thesis using q2(1) loop_append [OF c loop, of ?tail] q4 clear_returns [OF end'] by auto
qed

section \<open>Jobs that shutdown does not wait for\<close>

definition is_foreign :: "iocp_world \<Rightarrow> bool" where
  "is_foreign x = (case x of ForeignPacket _ \<Rightarrow> True | _ \<Rightarrow> False)"

lemma world_silent:
  assumes "ip_closed q" "ip_port q = []" "ip_in_flight q = []" "\<not> is_foreign x"
  shows "ip_port (iocp_world_step x q) = [] \<and> ip_in_flight (iocp_world_step x q) = []"
  using assms by (cases x) (auto simp: is_foreign_def iocp_guard_send_def iocp_wake_def)

lemma worlds_silent:
  assumes "ip_closed q" "ip_port q = []" "ip_in_flight q = []" "\<not> list_ex is_foreign ws"
  shows "ip_port (fold iocp_world_step ws q) = [] \<and> ip_in_flight (fold iocp_world_step ws q) = []"
  using assms
proof (induction ws arbitrary: q)
  case (Cons x ws)
  then show ?case using world_silent [of q x] by simp
qed simp

lemma loop_silent:
  assumes "closing_inv H q" "iocp_waits q" "ip_port q = []" "ip_in_flight q = []" "\<not> list_ex (\<lambda>(ws, _). list_ex is_foreign ws) evs"
  shows "\<exists>q'. iocp_drain_loop dos evs q = Some (False, q')"
  using assms
proof (induction evs arbitrary: q)
  case Nil
  then show ?case using loop_unfold [OF iocp_invD(1) [OF conjunct1 [OF Nil(1)]], of dos "[]"] by simp
next
  case (Cons ev evs)
  obtain ws r where ev: "ev = (ws, r)" by (cases ev)
  let ?w = "fold iocp_world_step ws q"
  have w: "ip_port ?w = []" "ip_in_flight ?w = []" using worlds_silent [of q ws] Cons.prems ev by simp_all
  obtain x v where m: "get_many r ?w = (x, v)" by (cases "get_many r ?w")
  have v: "ip_port v = []" "ip_in_flight v = []" "x = Inr 0 \<or> (\<exists>e. x = Inl e)"
    using m w by (auto simp: get_many_def iocp_fetched_def Let_def split: sum.splits if_splits)
  obtain q1 where q1: "\<forall>es. iocp_drain_loop dos ((ws, r) # es) q = iocp_drain_loop dos es q1" "closing_inv H q1"
    "ip_port q1 = ip_port v" "ip_in_flight q1 = ip_in_flight v" "x = Inr 0 \<or> (\<exists>e. x = Inl e) \<longrightarrow> ip_ops q1 = ip_ops q"
    by (rule loop_round [OF Cons.prems(1,2) m, of dos])
  show ?case using Cons.IH [OF q1(2)] q1 v Cons.prems(2,5) ev by simp
qed

text \<open>
  C14. Shutdown of the Windows backend can wait for ever on a job.  If an operation's job was never dispatched - its future is alive and was not polled - then
  the end of the runtime's drop does not return, whatever happens.  It does not return either if the pool still runs a job while nothing else is in flight or queued - as after
  \<^verbatim>\<open>shutdown_timeout\<close> and \<^verbatim>\<open>shutdown_background\<close>, which are documented to leave such jobs behind - even when that job ends: the
  wake-up that its completion guard sends is suppressed because shutdown has closed it, and the loop waits for a packet without a timeout.
\<close>

theorem iocp_shutdown_hangs:
  assumes "iocp_reach p" "\<not> ip_shutting_down (ia_iocp p)"
    and "(\<exists>s. op_get (ip_ops (ia_iocp p)) k = Some s \<and> is_job s) \<or>
       k \<in> set (ip_jobs (ia_iocp p)) \<and> ip_port (ia_iocp p) = [] \<and> ip_in_flight (ia_iocp p) = [] \<and> \<not> list_ex (\<lambda>(ws, _). list_ex is_foreign ws) evs"
  shows "\<exists>q. iocp_teardown dos evs (ia_iocp p) = Some (False, q)"
proof -
  have inv: "future_inv (ia_ops p) (ia_payload p) (ia_waker p) (ia_iocp p)" "entries_null (ia_iocp p)" using iocp_reach_inv [OF assms(1)] by simp_all
  let ?H = "{k. \<exists>s. op_get (ip_ops (ia_iocp p)) k = Some s \<and> is_job s}"
  obtain q2 where q2: "\<forall>evs. iocp_teardown dos evs (ia_iocp p) =
       (case iocp_drain_loop dos evs q2 of None \<Rightarrow> None | Some (False, q) \<Rightarrow> Some (False, q) | Some (True, q) \<Rightarrow> map_option (Pair True) (iocp_clear q))"
    "closing_inv ?H q2" "ip_jobs q2 = ip_jobs (ia_iocp p)" "ip_done q2 = []" "ip_port q2 = ip_port (ia_iocp p)" "ip_in_flight q2 = ip_in_flight (ia_iocp p)"
    by (rule teardown_steps [OF inv assms(2), of dos])
  have stuck: "iocp_waits v" if "closing_inv ?H v" "k \<in> ?H \<or> k \<in> set (iocp_running v (ip_done v))" for v
    using iocp_invD(6) [OF conjunct1 [OF that(1)], of k] that(2)
    by (cases "op_get (ip_ops v) k") (auto simp: closing_slot_def split: if_splits)
  have "\<exists>q. iocp_drain_loop dos evs q2 = Some (False, q)"
  proof (cases "k \<in> ?H")
    case True
    obtain b q where q: "iocp_drain_loop dos evs q2 = Some (b, q)" "closing_inv ?H q" "b = (\<not> iocp_waits q)" using loop_inv [OF q2(2), of dos evs] by blast
    then show ?thesis using stuck [OF q(2)] True by auto
  next
    case False
    then have k: "k \<in> set (ip_jobs q2)" "ip_port q2 = []" "ip_in_flight q2 = []" "\<not> list_ex (\<lambda>(ws, _). list_ex is_foreign ws) evs"
      using assms(3) q2(3,5,6) by auto
    have "iocp_waits q2" using stuck [OF q2(2)] k(1) by (simp add: iocp_running_def)
    then show ?thesis by (rule loop_silent [OF q2(2) _ k(2-4)])
  qed
  then show ?thesis using q2(1) by auto
qed

lemma teardown_starts:
  assumes "iocp_reach p" "\<not> ip_shutting_down (ia_iocp p)" "ip_in_flight (ia_iocp p) \<noteq> []"
  shows "\<exists>q. iocp_teardown dos [] (ia_iocp p) = Some (False, q) \<and> ip_in_flight q = ip_in_flight (ia_iocp p) \<and> ip_port q = ip_port (ia_iocp p)"
proof -
  have inv: "future_inv (ia_ops p) (ia_payload p) (ia_waker p) (ia_iocp p)" "entries_null (ia_iocp p)" using iocp_reach_inv [OF assms(1)] by simp_all
  obtain q2 where q2: "\<forall>evs. iocp_teardown dos evs (ia_iocp p) =
       (case iocp_drain_loop dos evs q2 of None \<Rightarrow> None | Some (False, q) \<Rightarrow> Some (False, q) | Some (True, q) \<Rightarrow> map_option (Pair True) (iocp_clear q))"
    "closing_inv {k. \<exists>s. op_get (ip_ops (ia_iocp p)) k = Some s \<and> is_job s} q2" "ip_port q2 = ip_port (ia_iocp p)" "ip_in_flight q2 = ip_in_flight (ia_iocp p)"
    by (rule teardown_steps [OF inv assms(2), of dos])
  have clear: "ip_in_flight v' = ip_in_flight v" if "iocp_clear v = Some v'" for v v' :: "('a, 'b) iocp"
    using that by (auto simp: iocp_clear_def split: option.splits)
  have "iocp_waits q2"
  proof (rule ccontr)
    assume "\<not> iocp_waits q2"
    then show False using clear_returns [OF q2(2)] clear [of q2] q2(4) assms(3) by auto
  qed
  then show ?thesis using q2 loop_unfold [OF iocp_invD(1) [OF conjunct1 [OF q2(2)]], of dos "[]"] by simp
qed

theorem iocp_shutdown_returns_witness:
  "\<exists>(p :: (nat, nat) iocp_program) q'. iocp_reach p \<and> ip_in_flight (ia_iocp p) = [16] \<and>
     iocp_teardown (\<lambda>x. x) [([RequestDone 16 0 0], Inr 1), ([], Inr 1)] (ia_iocp p) = Some (True, q') \<and> ip_headers q' = Map.empty"
proof -
  obtain p k where p: "iocp_reach (p :: (nat, nat) iocp_program)" "\<not> ip_shutting_down (ia_iocp p)" "ip_in_flight (ia_iocp p) = [16]"
    "op_get (ip_ops (ia_iocp p)) k = Some \<lparr>is_state = ISubmitted, is_interest = Some demo_overlapped, is_job = False\<rparr>"
    "ip_port (ia_iocp p) = []" "ip_jobs (ia_iocp p) = []" "ip_capacity (ia_iocp p) = 8" "\<forall>j s. op_get (ip_ops (ia_iocp p)) j = Some s \<longrightarrow> j = k"
    by (rule iocp_demo_submit [OF demo_cases(1)])
  have nojob: "\<forall>j s. op_get (ip_ops (ia_iocp p)) j = Some s \<longrightarrow> \<not> is_job s" using p(4,8) by fastforce
  obtain q where q: "iocp_teardown (\<lambda>x. x) [] (ia_iocp p) = Some (False, q)" "ip_in_flight q = [16]" "ip_port q = []"
    using teardown_starts [OF p(1,2), of "\<lambda>x. x"] p(3,5) by auto
  have "0 < ip_capacity (ia_iocp p)" "length (ip_port q) + length (ip_in_flight q) \<le> 1" using p(7) q(2,3) by simp_all
  from iocp_shutdown_returns [OF p(1,2) this(1) p(6) nojob q(1) this(2), of "\<lambda>_. 0" "\<lambda>_. 0"] show ?thesis using p(1,3) q(2) by auto
qed

theorem iocp_shutdown_hangs_witness:
  "\<exists>(p :: (nat, nat) iocp_program) q. iocp_reach p \<and>
     iocp_teardown (\<lambda>x. x) [([JobDone (OpKey 1) aborted_completion, RemoteWake], Inr 1)] (ia_iocp p) = Some (False, q)"
proof -
  obtain p k where p: "iocp_reach (p :: (nat, nat) iocp_program)" "\<not> ip_shutting_down (ia_iocp p)"
    "op_get (ip_ops (ia_iocp p)) k = Some \<lparr>is_state = ISubmitted, is_interest = None, is_job = True\<rparr>"
    by (rule iocp_demo_submit [OF demo_cases(2)])
  show ?thesis using iocp_shutdown_hangs [OF p(1,2), of k "[([JobDone (OpKey 1) aborted_completion, RemoteWake], Inr 1)]" "\<lambda>x. x"] p(1,3) by auto
qed

end
