(* ===== verification/Tls.thy ===== *)
theory Tls
  imports Driver_Scopes
begin

text \<open>
  TLS streams (\<^verbatim>\<open>karmaio/src/tls/engine.rs\<close>, \<^verbatim>\<open>tls/error.rs\<close>, \<^verbatim>\<open>tls/buffer.rs\<close>): the engine that moves
  ciphertext between a Rustls connection and a transport, with the failure states of both directions.

  The Rustls connection is not part of the repository: it is the parameter \<open>T\<close> of the definitions, a record of
  the calls the engine makes, over any type of connection states.  The transport is a script of what its
  operations return, in the order they are awaited; where a script ends, the operation never completes, or the
  caller drops the future there, so that the engine stays in the state it has while it waits.  The result of
  an operation is therefore finished, abandoned at an await, or a panic.

  Two fields are not the code's: \<open>ti_wire\<close>, what the peer has received, and \<open>en_emitted\<close>, every byte that Rustls has
  put into an output buffer.
\<close>

section \<open>Failures\<close>

text \<open>\<^verbatim>\<open>Failure\<close> keeps an error's kind; a raw code stands here for the kind that the library gives that code.\<close>

record failure =
  fl_kind :: io_error
  fl_canceled :: bool

definition abandoned_io :: failure where
  "abandoned_io = \<lparr>fl_kind = OtherError, fl_canceled = False\<rparr>"

definition from_error :: "io_error \<Rightarrow> failure" where
  "from_error e = \<lparr>fl_kind = (if e = Canceled then OtherError else e), fl_canceled = is_operation_canceled e\<rparr>"

definition failure_error :: "failure \<Rightarrow> io_error" where
  "failure_error f = (if fl_canceled f then operation_canceled else fl_kind f)"

section \<open>Rustls\<close>

text \<open>
  \<open>into_first_chunk\<close> of the plaintext reader.  \<open>rl_slices\<close> are the slices that \<^verbatim>\<open>write_tls\<close> offers to its writer, in one
  vectored write, and \<open>rl_wrote\<close> what it then does with the count.
\<close>

datatype first_chunk = Chunk "u8 list" | NoChunk io_error

record 'c rustls =
  rl_wants_write :: "'c \<Rightarrow> bool"
  rl_is_handshaking :: "'c \<Rightarrow> bool"
  rl_slices :: "'c \<Rightarrow> u8 list list"
  rl_wrote :: "nat \<Rightarrow> 'c \<Rightarrow> nat io_result \<times> 'c"
  rl_read_tls :: "u8 list \<Rightarrow> 'c \<Rightarrow> nat io_result \<times> 'c"
  rl_process_new_packets :: "'c \<Rightarrow> bool \<times> 'c"
  rl_first_chunk :: "'c \<Rightarrow> first_chunk"
  rl_consume :: "nat \<Rightarrow> 'c \<Rightarrow> 'c"
  rl_write :: "u8 list \<Rightarrow> 'c \<Rightarrow> nat io_result \<times> 'c"
  rl_send_close_notify :: "'c \<Rightarrow> 'c"

text \<open>\<^verbatim>\<open>FixedWriter\<close>: never grows the buffer beyond its capacity.\<close>

definition CIPHERTEXT_CAPACITY :: nat where
  "CIPHERTEXT_CAPACITY = 18 * 1024"

definition fixed_write :: "nat \<Rightarrow> u8 list \<Rightarrow> u8 list \<Rightarrow> nat \<times> u8 list" where
  "fixed_write capacity buffer bytes =
     (let count = min (length bytes) (capacity - length buffer) in (count, buffer @ take count bytes))"

fun fixed_write_vectored :: "nat \<Rightarrow> u8 list \<Rightarrow> nat \<Rightarrow> u8 list list \<Rightarrow> nat \<times> u8 list" where
  "fixed_write_vectored capacity buffer written [] = (written, buffer)"
| "fixed_write_vectored capacity buffer written (b # bs) =
     (if capacity - length buffer = 0 then (written, buffer)
      else (case fixed_write capacity buffer b of (n, buffer) \<Rightarrow> fixed_write_vectored capacity buffer (written + n) bs))"

section \<open>The session\<close>

datatype read_state = ReadOpen | PeerClosed | ReadFailed failure

datatype write_state = WriteOpen | Closing | WriteClosed | AlertPending failure | WriteFailed failure

datatype plain_status = PlainAvailable | PlainPending | PlainPeerClosed

record 'c session =
  se_connection :: 'c
  se_read :: read_state
  se_write :: write_state

definition session_new :: "'c \<Rightarrow> 'c session" where
  "session_new c = \<lparr>se_connection = c, se_read = ReadOpen, se_write = WriteOpen\<rparr>"

definition read_failure :: "'c session \<Rightarrow> io_error option" where
  "read_failure s = (case se_read s of ReadFailed f \<Rightarrow> Some (failure_error f) | _ \<Rightarrow> None)"

definition write_failure :: "'c session \<Rightarrow> io_error option" where
  "write_failure s =
     (case se_write s of AlertPending f \<Rightarrow> Some (failure_error f) | WriteFailed f \<Rightarrow> Some (failure_error f) | _ \<Rightarrow> None)"

definition record_read_failure :: "failure \<Rightarrow> 'c session \<Rightarrow> 'c session" where
  "record_read_failure f s = (case se_read s of ReadFailed _ \<Rightarrow> s | _ \<Rightarrow> s\<lparr>se_read := ReadFailed f\<rparr>)"

definition record_write_failure :: "failure \<Rightarrow> 'c session \<Rightarrow> 'c session" where
  "record_write_failure f s = (case se_write s of WriteClosed \<Rightarrow> s | WriteFailed _ \<Rightarrow> s | _ \<Rightarrow> s\<lparr>se_write := WriteFailed f\<rparr>)"

definition fail_read :: "io_error \<Rightarrow> 'c session \<Rightarrow> 'c session" where
  "fail_read e = record_read_failure (from_error e)"

definition fail_both :: "io_error \<Rightarrow> 'c session \<Rightarrow> 'c session" where
  "fail_both e s = record_write_failure (from_error e) (record_read_failure (from_error e) s)"

definition fail_protocol :: "io_error \<Rightarrow> 'c session \<Rightarrow> 'c session" where
  "fail_protocol e s =
     (let s = record_read_failure (from_error e) s in
      case se_write s of
        WriteClosed \<Rightarrow> s | AlertPending _ \<Rightarrow> s | WriteFailed _ \<Rightarrow> s
      | _ \<Rightarrow> s\<lparr>se_write := AlertPending (from_error e)\<rparr>)"

definition abandon :: "'c session \<Rightarrow> 'c session" where
  "abandon s = record_write_failure abandoned_io (record_read_failure abandoned_io s)"

definition plaintext_state :: "'c rustls \<Rightarrow> 'c session \<Rightarrow> plain_status io_result \<times> 'c session" where
  "plaintext_state T s =
     (case read_failure s of
        Some e \<Rightarrow> (Inl e, s)
      | None \<Rightarrow>
          if se_read s = PeerClosed then (Inr PlainPeerClosed, s)
          else
            (case rl_first_chunk T (se_connection s) of
               Chunk [] \<Rightarrow> (Inr PlainPeerClosed, s\<lparr>se_read := PeerClosed\<rparr>)
             | Chunk _ \<Rightarrow> (Inr PlainAvailable, s)
             | NoChunk WouldBlock \<Rightarrow> (Inr PlainPending, s)
             | NoChunk e \<Rightarrow> (Inl e, fail_read e s)))"

text \<open>\<^verbatim>\<open>copy_plaintext\<close>: the bytes passed to the copying closure, in order.\<close>

function copy_plaintext :: "'c rustls \<Rightarrow> nat \<Rightarrow> u8 list \<Rightarrow> 'c session \<Rightarrow> u8 list io_result \<times> 'c session" where
  "copy_plaintext T capacity copied s =
     (if length copied < capacity then
        (case rl_first_chunk T (se_connection s) of
           Chunk [] \<Rightarrow> (Inr copied, s\<lparr>se_read := PeerClosed\<rparr>)
         | Chunk chunk \<Rightarrow>
             (let consumed = min (length chunk) (capacity - length copied);
                  s = s\<lparr>se_connection := rl_consume T consumed (se_connection s)\<rparr>;
                  copied = copied @ take consumed chunk
              in if consumed < length chunk then (Inr copied, s) else copy_plaintext T capacity copied s)
         | NoChunk e \<Rightarrow> if copied \<noteq> [] then (Inr copied, s) else (Inl e, fail_read e s))
      else (Inr copied, s))"
  by pat_completeness auto
termination
  by (relation "measure (\<lambda>(T, capacity, copied, s). capacity - length copied)") auto

declare copy_plaintext.simps [simp del]

definition write_plaintext :: "'c rustls \<Rightarrow> u8 list \<Rightarrow> 'c session \<Rightarrow> nat io_result \<times> 'c session" where
  "write_plaintext T plaintext s =
     (case rl_write T plaintext (se_connection s) of
        (r, c) \<Rightarrow>
          (let s = s\<lparr>se_connection := c\<rparr>; r = (if r = Inr 0 then Inl WriteZero else r) in
           case r of Inl e \<Rightarrow> (Inl e, fail_both e s) | Inr n \<Rightarrow> (Inr n, s)))"

fun write_buffers :: "'c rustls \<Rightarrow> nat \<Rightarrow> u8 list list \<Rightarrow> 'c session \<Rightarrow> nat io_result \<times> 'c session" where
  "write_buffers T accepted [] s = (Inr accepted, s)"
| "write_buffers T accepted (b # bs) s =
     (if b = [] then write_buffers T accepted bs s
      else
        (case rl_write T b (se_connection s) of
           (r, c) \<Rightarrow>
             (let s = s\<lparr>se_connection := c\<rparr> in
              case r of
                Inl e \<Rightarrow> (Inl e, fail_both e s)
              | Inr n \<Rightarrow>
                  if n = 0 then (Inr accepted, s)
                  else if n < length b then (Inr (accepted + n), s)
                  else write_buffers T (accepted + n) bs s)))"

definition write_vectored_plaintext :: "'c rustls \<Rightarrow> u8 list list \<Rightarrow> 'c session \<Rightarrow> nat io_result \<times> 'c session" where
  "write_vectored_plaintext T buffers s =
     (case write_buffers T 0 buffers s of
        (Inl e, s) \<Rightarrow> (Inl e, s)
      | (Inr accepted, s) \<Rightarrow> if accepted = 0 then (Inl WriteZero, fail_both WriteZero s) else (Inr accepted, s))"

text \<open>\<^verbatim>\<open>begin_transport_io\<close> marks the session abandoned until \<^verbatim>\<open>finish_transport_io\<close> puts its states back.\<close>

definition begin_transport_io :: "'c session \<Rightarrow> (read_state \<times> write_state) \<times> 'c session" where
  "begin_transport_io s =
     ((se_read s, se_write s), record_write_failure abandoned_io (record_read_failure abandoned_io s))"

definition finish_transport_io :: "read_state \<times> write_state \<Rightarrow> 'c session \<Rightarrow> 'c session" where
  "finish_transport_io states s = s\<lparr>se_read := fst states, se_write := snd states\<rparr>"

section \<open>The engine\<close>

datatype read_outcome = DidRead nat "u8 list" | ReadError io_error

datatype write_outcome = DidWrite nat | WriteError io_error

record tls_io =
  ti_reads :: "read_outcome list"
  ti_writes :: "write_outcome list"
  ti_flushes :: "unit io_result list"
  ti_shutdowns :: "unit io_result list"
  ti_wire :: "u8 list"

record 'c engine =
  en_io :: tls_io
  en_session :: "'c session"
  en_input :: "u8 list"
  en_input_start :: nat
  en_output :: "u8 list"
  en_output_start :: nat
  en_eof :: bool
  en_emitted :: "u8 list"

datatype 'a awaited = Finished "'a io_result" | Abandoned | Panicked

type_synonym ('a, 'c) tls_run = "'a awaited \<times> 'c engine"

definition engine_new :: "tls_io \<Rightarrow> 'c \<Rightarrow> 'c engine" where
  "engine_new io c =
     \<lparr>en_io = io, en_session = session_new c, en_input = [], en_input_start = 0, en_output = [], en_output_start = 0,
      en_eof = False, en_emitted = []\<rparr>"

definition into_parts :: "'c engine \<Rightarrow> (tls_io \<times> 'c) io_result" where
  "into_parts e =
     (case se_read (en_session e) of
        ReadFailed f \<Rightarrow> Inl (failure_error f)
      | _ \<Rightarrow>
          (case se_write (en_session e) of
             AlertPending f \<Rightarrow> Inl (failure_error f)
           | WriteFailed f \<Rightarrow> Inl (failure_error f)
           | _ \<Rightarrow> Inr (en_io e, se_connection (en_session e))))"

text \<open>The \<^verbatim>\<open>?\<close> operator after an await.\<close>

definition try_await :: "('a, 'c) tls_run \<Rightarrow> ('a \<Rightarrow> 'c engine \<Rightarrow> ('b, 'c) tls_run) \<Rightarrow> ('b, 'c) tls_run" where
  "try_await m f =
     (case m of
        (Finished (Inr a), e) \<Rightarrow> f a e
      | (Finished (Inl err), e) \<Rightarrow> (Finished (Inl err), e)
      | (Abandoned, e) \<Rightarrow> (Abandoned, e)
      | (Panicked, e) \<Rightarrow> (Panicked, e))"

lemma try_await_cong [fundef_cong]:
  "m = m' \<Longrightarrow> (\<And>a e. m' = (Finished (Inr a), e) \<Longrightarrow> f a e = g a e) \<Longrightarrow> try_await m f = try_await m' g"
  by (auto simp: try_await_def split: prod.splits awaited.splits sum.splits)

text \<open>\<^verbatim>\<open>fill_output\<close>: clears the drained output buffer and takes the next ciphertext.\<close>

definition fill_output :: "'c rustls \<Rightarrow> 'c engine \<Rightarrow> unit io_result \<times> 'c engine" where
  "fill_output T e =
     (if en_output_start e < length (en_output e) \<or> \<not> rl_wants_write T (se_connection (en_session e)) then (Inr (), e)
      else
        (case fixed_write_vectored CIPHERTEXT_CAPACITY [] 0 (rl_slices T (se_connection (en_session e))) of
           (n, output) \<Rightarrow>
             (case rl_wrote T n (se_connection (en_session e)) of
                (r, c) \<Rightarrow>
                  (let e = e\<lparr>en_session := (en_session e)\<lparr>se_connection := c\<rparr>, en_output := output, en_output_start := 0,
                             en_emitted := en_emitted e @ output\<rparr>
                   in case r of
                        Inl err \<Rightarrow> (Inl err, e)
                      | Inr written \<Rightarrow>
                          if written \<noteq> length output then (Inl OtherError, e)
                          else if written = 0 \<and> rl_wants_write T c then (Inl WriteZero, e)
                          else (Inr (), e)))))"

text \<open>The awaited write of the pending output.\<close>

definition write_output :: "'c engine \<Rightarrow> (unit, 'c) tls_run" where
  "write_output e =
     (let start = en_output_start e; end = length (en_output e); data = drop start (en_output e) in
      if start > end then (Panicked, e)
      else
      case begin_transport_io (en_session e) of
        (states, s) \<Rightarrow>
          (case ti_writes (en_io e) of
             [] \<Rightarrow> (Abandoned, e\<lparr>en_session := s, en_output := []\<rparr>)
           | ev # evs \<Rightarrow>
               (let io = (en_io e)\<lparr>ti_writes := evs, ti_wire := ti_wire (en_io e) @ (case ev of DidWrite n \<Rightarrow> take n data | _ \<Rightarrow> [])\<rparr>;
                    e = e\<lparr>en_io := io, en_session := finish_transport_io states s\<rparr>
                in case ev of
                     WriteError err \<Rightarrow> (Finished (Inl err), e)
                   | DidWrite n \<Rightarrow>
                       if n = 0 then (Finished (Inl WriteZero), e)
                       else if n \<le> end - start then
                         (Finished (Inr ()),
                          if start + n = end then e\<lparr>en_output := [], en_output_start := 0\<rparr> else e\<lparr>en_output_start := start + n\<rparr>)
                       else (Finished (Inl OtherError), e))))"

definition wants_drain :: "'c rustls \<Rightarrow> 'c engine \<Rightarrow> bool" where
  "wants_drain T e \<longleftrightarrow> en_output_start e < length (en_output e) \<or> rl_wants_write T (se_connection (en_session e))"

lemma fill_output_stops:
  "fill_output T e = (Inr (), e') \<Longrightarrow> wants_drain T e \<Longrightarrow> en_output_start e' = length (en_output e') \<Longrightarrow> \<not> wants_drain T e'"
  by (auto simp: fill_output_def wants_drain_def Let_def split: if_splits prod.splits sum.splits)

lemma fill_output_io: "fill_output T e = (r, e') \<Longrightarrow> en_io e' = en_io e"
  by (auto simp: fill_output_def Let_def split: if_splits prod.splits sum.splits)

lemma write_output_shrinks: "write_output e = (Finished r, e') \<Longrightarrow> length (ti_writes (en_io e')) < length (ti_writes (en_io e))"
  by (auto simp: write_output_def Let_def split: if_splits prod.splits list.splits write_outcome.splits)

lemma fill_write_shrinks:
  "(r, e1) = fill_output T e \<Longrightarrow> write_output e1 = (Finished r', e2) \<Longrightarrow> length (ti_writes (en_io e2)) < length (ti_writes (en_io e))"
  using fill_output_io [of T e r e1] write_output_shrinks [of e1 r' e2] by simp

function drain_output_raw :: "'c rustls \<Rightarrow> 'c engine \<Rightarrow> (unit, 'c) tls_run" where
  "drain_output_raw T e =
     (if wants_drain T e then
        (case fill_output T e of
           (Inl err, e1) \<Rightarrow> (Finished (Inl err), e1)
         | (Inr _, e1) \<Rightarrow>
             if en_output_start e1 = length (en_output e1) then drain_output_raw T e1
             else try_await (write_output e1) (\<lambda>_ e2. drain_output_raw T e2))
      else (Finished (Inr ()), e))"
  by pat_completeness auto
termination
  by (relation "measures [\<lambda>(T, e). length (ti_writes (en_io e)), \<lambda>(T, e). if wants_drain T e then 1 else 0]")
     (auto dest: fill_output_io [OF sym] fill_output_stops [OF sym] fill_write_shrinks)

declare drain_output_raw.simps [simp del]

definition drain_output :: "'c rustls \<Rightarrow> 'c engine \<Rightarrow> (unit, 'c) tls_run" where
  "drain_output T e =
     (if se_write (en_session e) = WriteClosed then (Finished (Inr ()), e)
      else
        (case drain_output_raw T e of
           (Finished (Inl err), e) \<Rightarrow> (Finished (Inl err), e\<lparr>en_session := fail_both err (en_session e)\<rparr>)
         | r \<Rightarrow> r))"


text \<open>The awaited read of a batch of ciphertext, and its recovery.\<close>

definition set_session :: "('c session \<Rightarrow> 'c session) \<Rightarrow> 'c engine \<Rightarrow> 'c engine" where
  "set_session f e = e\<lparr>en_session := f (en_session e)\<rparr>"

definition read_batch :: "'c engine \<Rightarrow> (unit, 'c) tls_run" where
  "read_batch e =
     (case begin_transport_io (en_session e) of
        (states, s) \<Rightarrow>
          (case ti_reads (en_io e) of
             [] \<Rightarrow> (Abandoned, e\<lparr>en_session := s, en_input := []\<rparr>)
           | ev # evs \<Rightarrow>
               (let e = e\<lparr>en_io := (en_io e)\<lparr>ti_reads := evs\<rparr>, en_session := finish_transport_io states s\<rparr> in
                case ev of
                  ReadError err \<Rightarrow>
                    (Finished (Inl err), set_session (if is_operation_canceled err then fail_both err else fail_read err) e)
                | DidRead n bytes \<Rightarrow>
                    (let e = e\<lparr>en_input := bytes\<rparr> in
                     if n \<noteq> length bytes then (Finished (Inl InvalidData), set_session (fail_read InvalidData) e)
                     else (Finished (Inr ()), if n = 0 then e\<lparr>en_eof := True\<rparr> else e)))))"

text \<open>Feeding the retained input to Rustls; the empty write makes it queue a deferred key update.\<close>

definition feed :: "'c rustls \<Rightarrow> 'c engine \<Rightarrow> (unit, 'c) tls_run" where
  "feed T e =
     (if en_input_start e > length (en_input e) then (Panicked, e)
      else
      let available = drop (en_input_start e) (en_input e) in
      case rl_read_tls T available (se_connection (en_session e)) of
        (r, c) \<Rightarrow>
          (let e = set_session (\<lambda>s. s\<lparr>se_connection := c\<rparr>) e in
           case r of
             Inl err \<Rightarrow> (Finished (Inl err), e)
           | Inr consumed \<Rightarrow>
               if consumed > length available then (Finished (Inl OtherError), set_session (fail_both OtherError) e)
               else
                 (let e = e\<lparr>en_input_start := (if consumed = 0 \<and> available \<noteq> [] then length (en_input e) else en_input_start e + consumed)\<rparr> in
                  case rl_process_new_packets T c of
                    (ok, c) \<Rightarrow>
                      (let e = set_session (\<lambda>s. s\<lparr>se_connection := c\<rparr>) e in
                       if ok then
                         (case rl_write T [] c of
                            (r, c) \<Rightarrow>
                              (let e = set_session (\<lambda>s. s\<lparr>se_connection := c\<rparr>) e in
                               case r of Inl err \<Rightarrow> (Finished (Inl err), e) | Inr _ \<Rightarrow> (Finished (Inr ()), e)))
                       else if se_write (en_session e) = WriteClosed
                       then (Finished (Inl InvalidData), set_session (fail_both InvalidData) e)
                       else
                         (case drain_output_raw T e of
                            (Abandoned, e) \<Rightarrow> (Abandoned, e)
                          | (Panicked, e) \<Rightarrow> (Panicked, e)
                          | (Finished _, e) \<Rightarrow> (Finished (Inl InvalidData), set_session (fail_both InvalidData) e))))))"

definition receive_tls :: "'c rustls \<Rightarrow> 'c engine \<Rightarrow> (unit, 'c) tls_run" where
  "receive_tls T e =
     (if en_input_start e = length (en_input e) then
        (let e = e\<lparr>en_input := [], en_input_start := 0\<rparr> in
         if en_eof e then (Finished (Inr ()), e) else try_await (read_batch e) (\<lambda>_ e. feed T e))
      else feed T e)"

subsection \<open>Loops\<close>

text \<open>Every round of the receiving loops uses up a batch, or some of a batch that was read before.\<close>

definition input_left :: "'c engine \<Rightarrow> nat" where
  "input_left e = length (en_input e) - en_input_start e"

definition reads_left :: "'c engine \<Rightarrow> nat" where
  "reads_left e = length (ti_reads (en_io e))"

text \<open>What has to be shown of the two steps of the draining loop for \<open>P\<close> to hold throughout and \<open>Q\<close> of its result.\<close>

definition drain_steps :: "'c rustls \<Rightarrow> ('c engine \<Rightarrow> bool) \<Rightarrow> (unit awaited \<Rightarrow> 'c engine \<Rightarrow> bool) \<Rightarrow> bool" where
  "drain_steps T P Q \<longleftrightarrow>
     (\<forall>e r e'. P e \<longrightarrow> wants_drain T e \<longrightarrow> fill_output T e = (r, e') \<longrightarrow> (case r of Inr _ \<Rightarrow> P e' | Inl err \<Rightarrow> Q (Finished (Inl err)) e')) \<and>
     (\<forall>e r e'. P e \<longrightarrow> en_output_start e \<noteq> length (en_output e) \<longrightarrow> write_output e = (r, e') \<longrightarrow>
        (if r = Finished (Inr ()) then P e' else Q r e')) \<and>
     (\<forall>e. P e \<longrightarrow> \<not> wants_drain T e \<longrightarrow> Q (Finished (Inr ())) e)"

lemma drain_stepsD:
  assumes "drain_steps T P Q" "P e"
  shows "wants_drain T e \<Longrightarrow> fill_output T e = (Inr u, e') \<Longrightarrow> P e'"
    "wants_drain T e \<Longrightarrow> fill_output T e = (Inl err, e') \<Longrightarrow> Q (Finished (Inl err)) e'"
    "en_output_start e \<noteq> length (en_output e) \<Longrightarrow> write_output e = (Finished (Inr ()), e') \<Longrightarrow> P e'"
    "en_output_start e \<noteq> length (en_output e) \<Longrightarrow> write_output e = (r, e') \<Longrightarrow> r \<noteq> Finished (Inr ()) \<Longrightarrow> Q r e'"
    "\<not> wants_drain T e \<Longrightarrow> Q (Finished (Inr ())) e"
  using assms unfolding drain_steps_def by (force, force, presburger, presburger, blast)

lemma drain_raw_rule: "P e \<Longrightarrow> drain_steps T P Q \<Longrightarrow> drain_output_raw T e = (r, e') \<Longrightarrow> Q r e'"
proof (induction T e arbitrary: r e' rule: drain_output_raw.induct)
  case (1 T e)
  note P = "1.prems"(1) and steps = "1.prems"(2) and run = "1.prems"(3) [unfolded drain_output_raw.simps [of T e]]
  show ?case
  proof (cases "wants_drain T e")
    case True
    note w = this
    obtain x e1 where f: "fill_output T e = (x, e1)" by (cases "fill_output T e")
    show ?thesis
    proof (cases x)
      case (Inl err)
      then show ?thesis using run w f drain_stepsD(2) [OF steps P w] by simp
    next
      case (Inr u)
      note f = f [unfolded Inr]
      have P1: "P e1" by (rule drain_stepsD(1) [OF steps P w f])
      show ?thesis
      proof (cases "en_output_start e1 = length (en_output e1)")
        case True
        then show ?thesis using "1.IH"(1) [OF w f [symmetric] refl True P1 steps] run w f by simp
      next
        case False
        obtain y e2 where wr: "write_output e1 = (y, e2)" by (cases "write_output e1")
        have eq: "try_await (write_output e1) (\<lambda>_ e2. drain_output_raw T e2) = (r, e')" using run w f False by simp
        show ?thesis
        proof (cases "y = Finished (Inr ())")
          case True
          note wr' = wr [unfolded True]
          have P2: "P e2" by (rule drain_stepsD(3) [OF steps P1 False wr'])
          have "drain_output_raw T e2 = (r, e')" using eq wr' by (simp add: try_await_def)
          then show ?thesis using "1.IH"(2) [OF w f [symmetric] refl False wr' P2 steps] by blast
        next
          case bad: False
          then have "r = y \<and> e' = e2" using eq wr by (auto simp: try_await_def split: awaited.splits sum.splits)
          then show ?thesis using drain_stepsD(4) [OF steps P1 False wr bad] by simp
        qed
      qed
    qed
  qed (use run drain_stepsD(5) [OF steps P] in simp)
qed

lemma drain_raw_keeps:
  assumes "\<And>e r e'. fill_output T e = (r, e') \<Longrightarrow> f e' = f e" "\<And>e r e'. write_output e = (r, e') \<Longrightarrow> f e' = f e"
    "drain_output_raw T e = (r, e')"
  shows "f e' = f e"
  by (rule drain_raw_rule [where P = "\<lambda>x. f x = f e" and Q = "\<lambda>_ x. f x = f e", OF refl _ assms(3)])
     (auto simp: drain_steps_def dest: assms(1,2) split: sum.splits)

lemma drain_raw_input:
  "drain_output_raw T e = (r, e') \<Longrightarrow> (reads_left e', input_left e', en_eof e') = (reads_left e, input_left e, en_eof e)"
  by (rule drain_raw_keeps [where f = "\<lambda>e. (reads_left e, input_left e, en_eof e)"])
     (auto simp: fill_output_def write_output_def reads_left_def input_left_def Let_def
       split: if_splits prod.splits sum.splits list.splits write_outcome.splits)

lemma drain_input:
  "drain_output T e = (r, e') \<Longrightarrow> (reads_left e', input_left e', en_eof e') = (reads_left e, input_left e, en_eof e)"
  by (auto simp: drain_output_def reads_left_def input_left_def dest: drain_raw_input split: if_splits prod.splits awaited.splits sum.splits)

lemma feed_decreases:
  "feed T e = (Finished (Inr ()), e') \<Longrightarrow> reads_left e' = reads_left e \<and> (input_left e' < input_left e \<or> en_input_start e = length (en_input e))"
  by (auto simp: feed_def set_session_def reads_left_def input_left_def Let_def
      dest!: drain_raw_input split: if_splits prod.splits sum.splits awaited.splits)

lemma receive_decreases:
  assumes "receive_tls T e = (Finished (Inr ()), e')" "\<not> en_eof e"
  shows "(e', e) \<in> measures [reads_left, input_left]"
proof (cases "en_input_start e = length (en_input e)")
  case True
  let ?e = "e\<lparr>en_input := [], en_input_start := 0\<rparr>"
  obtain e1 where e1: "read_batch ?e = (Finished (Inr ()), e1)" "feed T e1 = (Finished (Inr ()), e')"
    using assms True by (auto simp: receive_tls_def try_await_def split: prod.splits awaited.splits sum.splits)
  have "reads_left e1 < reads_left e" using e1(1)
    by (auto simp: read_batch_def reads_left_def set_session_def Let_def split: if_splits prod.splits list.splits read_outcome.splits)
  then show ?thesis using feed_decreases [OF e1(2)] by simp
next
  case False
  then show ?thesis using assms feed_decreases [of T e e'] by (auto simp: receive_tls_def)
qed

function handshake :: "'c rustls \<Rightarrow> 'c engine \<Rightarrow> (unit, 'c) tls_run" where
  "handshake T e =
     try_await (drain_output T e) (\<lambda>_ e1.
       if \<not> rl_is_handshaking T (se_connection (en_session e1)) \<and> \<not> rl_wants_write T (se_connection (en_session e1))
       then (Finished (Inr ()), e1)
       else if en_eof e1 then (Finished (Inl UnexpectedEof), e1)
       else try_await (receive_tls T e1) (\<lambda>_ e2. handshake T e2))"
  by pat_completeness auto
termination
proof (relation "inv_image (measures [reads_left, input_left]) snd")
  fix T :: "'c rustls" and e a e1 aa e2
  assume d: "drain_output T e = (Finished (Inr a), e1)" "\<not> en_eof e1" "receive_tls T e1 = (Finished (Inr aa), e2)"
  show "((T, e2), T, e) \<in> inv_image (measures [reads_left, input_left]) snd"
    using receive_decreases [of T e1 e2] drain_input [OF d(1)] d by simp
qed simp

declare handshake.simps [simp del]

function wait_for_plaintext :: "'c rustls \<Rightarrow> bool \<Rightarrow> 'c engine \<Rightarrow> (bool, 'c) tls_run" where
  "wait_for_plaintext T processed e =
     try_await (if processed then drain_output T e else (Finished (Inr ()), e)) (\<lambda>_ e1.
       case plaintext_state T (en_session e1) of
         (Inl err, s) \<Rightarrow> (Finished (Inl err), e1\<lparr>en_session := s\<rparr>)
       | (Inr PlainAvailable, s) \<Rightarrow> (Finished (Inr True), e1\<lparr>en_session := s\<rparr>)
       | (Inr PlainPeerClosed, s) \<Rightarrow> (Finished (Inr False), e1\<lparr>en_session := s\<rparr>)
       | (Inr PlainPending, s) \<Rightarrow>
           try_await (if processed then (Finished (Inr ()), e1\<lparr>en_session := s\<rparr>) else drain_output T (e1\<lparr>en_session := s\<rparr>)) (\<lambda>_ e2.
             if en_eof e2 then (Finished (Inl UnexpectedEof), set_session (fail_read UnexpectedEof) e2)
             else try_await (receive_tls T e2) (\<lambda>_ e3. wait_for_plaintext T True e3)))"
  by pat_completeness auto
termination
proof (relation "inv_image (measures [reads_left, input_left]) (snd \<circ> snd)")
  fix T :: "'c rustls" and processed and e a e1 x2 s b e2 aa e3
  assume d: "(if processed then drain_output T e else (Finished (Inr ()), e)) = (Finished (Inr a), e1)"
    "(x2, s) = plaintext_state T (en_session e1)"
    "(if processed then (Finished (Inr ()), e1\<lparr>en_session := s\<rparr>) else drain_output T (e1\<lparr>en_session := s\<rparr>)) = (Finished (Inr b), e2)"
    "\<not> en_eof e2" "receive_tls T e2 = (Finished (Inr aa), e3)"
  have "reads_left e1 = reads_left e \<and> input_left e1 = input_left e"
    using d(1) drain_input [of T e "Finished (Inr a)" e1] by (auto split: if_splits)
  moreover have "reads_left e2 = reads_left e1 \<and> input_left e2 = input_left e1"
    using d(3) drain_input [of T "e1\<lparr>en_session := s\<rparr>" "Finished (Inr b)" e2]
    by (auto simp: reads_left_def input_left_def split: if_splits)
  ultimately show "((T, True, e3), T, processed, e) \<in> inv_image (measures [reads_left, input_left]) (snd \<circ> snd)"
    using receive_decreases [of T e2 e3] d(4,5) by simp
qed simp

declare wait_for_plaintext.simps [simp del]

section \<open>Stream operations\<close>

text \<open>A read of at most \<open>capacity\<close> bytes, with the bytes that it leaves in the buffer.\<close>

definition copy_out :: "'c rustls \<Rightarrow> nat \<Rightarrow> bool \<Rightarrow> 'c engine \<Rightarrow> (u8 list, 'c) tls_run" where
  "copy_out T capacity available e =
     (if available then (case copy_plaintext T capacity [] (en_session e) of (r, s) \<Rightarrow> (Finished r, e\<lparr>en_session := s\<rparr>))
      else (Finished (Inr []), e))"

definition tls_read :: "'c rustls \<Rightarrow> nat \<Rightarrow> 'c engine \<Rightarrow> (u8 list, 'c) tls_run" where
  "tls_read T capacity e =
     (if capacity = 0 then (Finished (Inr []), e) else try_await (wait_for_plaintext T False e) (copy_out T capacity))"

text \<open>
  The closure that \<^verbatim>\<open>read_vectored\<close> copies with: the targets that are full, the bytes in the current one, and the capacities of the
  current and the later ones.
\<close>

type_synonym scatter_state = "u8 list list \<times> u8 list \<times> nat list"

function scatter :: "u8 list \<Rightarrow> scatter_state \<Rightarrow> scatter_state option" where
  "scatter plaintext (full, cur, caps) =
     (if plaintext = [] then Some (full, cur, caps)
      else
        (case caps of
           [] \<Rightarrow> None
         | cap # rest \<Rightarrow>
             if cap < length cur then None
             else
               (let count = min (length plaintext) (cap - length cur); cur' = cur @ take count plaintext in
                if length cur' = cap then scatter (drop count plaintext) (full @ [cur'], [], rest)
                else scatter (drop count plaintext) (full, cur', caps))))"
  by pat_completeness auto
termination
  by (relation "measures [\<lambda>(p, full, cur, caps). length caps, \<lambda>(p, full, cur, caps). length p]") (auto simp: min_def split: if_splits)

declare scatter.simps [simp del]

definition targets :: "scatter_state \<Rightarrow> u8 list list" where
  "targets st = (case st of (full, cur, caps) \<Rightarrow> full @ (case caps of [] \<Rightarrow> [] | _ # rest \<Rightarrow> cur # map (\<lambda>_. []) rest))"

definition tls_read_vectored :: "'c rustls \<Rightarrow> nat list \<Rightarrow> 'c engine \<Rightarrow> (u8 list list, 'c) tls_run" where
  "tls_read_vectored T caps e =
     (if sum_list caps = 0 then (Finished (Inr (map (\<lambda>_. []) caps)), e)
      else
        try_await (try_await (wait_for_plaintext T False e) (copy_out T (sum_list caps))) (\<lambda>bytes e.
          case scatter bytes ([], [], caps) of
            None \<Rightarrow> (Panicked, e)
          | Some st \<Rightarrow> (Finished (Inr (targets st)), e)))"

text \<open>\<^verbatim>\<open>write\<close> and \<^verbatim>\<open>write_vectored\<close> differ in how Rustls is given the plaintext.\<close>

definition write_with :: "'c rustls \<Rightarrow> ('c session \<Rightarrow> nat io_result \<times> 'c session) \<Rightarrow> 'c engine \<Rightarrow> (nat, 'c) tls_run" where
  "write_with T give e =
     (case write_failure (en_session e) of
        Some err \<Rightarrow> (Finished (Inl err), e)
      | None \<Rightarrow>
          if se_write (en_session e) = Closing \<or> se_write (en_session e) = WriteClosed then (Finished (Inl BrokenPipe), e)
          else
            try_await (drain_output T e) (\<lambda>_ e.
              case give (en_session e) of
                (Inl err, s) \<Rightarrow> (Finished (Inl err), e\<lparr>en_session := s\<rparr>)
              | (Inr accepted, s) \<Rightarrow> try_await (drain_output T (e\<lparr>en_session := s\<rparr>)) (\<lambda>_ e. (Finished (Inr accepted), e))))"

definition tls_write :: "'c rustls \<Rightarrow> u8 list \<Rightarrow> 'c engine \<Rightarrow> (nat, 'c) tls_run" where
  "tls_write T buffer e = (if buffer = [] then (Finished (Inr 0), e) else write_with T (write_plaintext T buffer) e)"

definition tls_write_vectored :: "'c rustls \<Rightarrow> u8 list list \<Rightarrow> 'c engine \<Rightarrow> (nat, 'c) tls_run" where
  "tls_write_vectored T buffers e =
     (if list_all (\<lambda>b. b = []) buffers then (Finished (Inr 0), e) else write_with T (write_vectored_plaintext T buffers) e)"

text \<open>An awaited flush or shutdown of the transport.\<close>

definition await_control ::
  "(tls_io \<Rightarrow> unit io_result list) \<Rightarrow> (unit io_result list \<Rightarrow> tls_io \<Rightarrow> tls_io) \<Rightarrow> 'c engine \<Rightarrow> (unit, 'c) tls_run" where
  "await_control events set_events e =
     (case begin_transport_io (en_session e) of
        (states, s) \<Rightarrow>
          (case events (en_io e) of
             [] \<Rightarrow> (Abandoned, e\<lparr>en_session := s\<rparr>)
           | r # rs \<Rightarrow>
               (let e = e\<lparr>en_io := set_events rs (en_io e), en_session := finish_transport_io states s\<rparr> in
                case r of
                  Inl err \<Rightarrow> (Finished (Inl err), set_session (fail_both err) e)
                | Inr _ \<Rightarrow> (Finished (Inr ()), e))))"

definition tls_flush :: "'c rustls \<Rightarrow> 'c engine \<Rightarrow> (unit, 'c) tls_run" where
  "tls_flush T e =
     (case write_failure (en_session e) of
        Some err \<Rightarrow> (Finished (Inl err), e)
      | None \<Rightarrow>
          if se_write (en_session e) = WriteClosed then (Finished (Inr ()), e)
          else try_await (drain_output T e) (\<lambda>_ e. await_control ti_flushes (\<lambda>rs io. io\<lparr>ti_flushes := rs\<rparr>) e))"

definition tls_shutdown :: "'c rustls \<Rightarrow> 'c engine \<Rightarrow> (unit, 'c) tls_run" where
  "tls_shutdown T e =
     (if se_write (en_session e) = WriteClosed then (Finished (Inr ()), e)
      else
        (case write_failure (en_session e) of
           Some err \<Rightarrow> (Finished (Inl err), e)
         | None \<Rightarrow>
             (let e = (if se_write (en_session e) = WriteOpen
                       then set_session (\<lambda>s. s\<lparr>se_write := Closing, se_connection := rl_send_close_notify T (se_connection s)\<rparr>) e else e)
              in try_await (tls_flush T e) (\<lambda>_ e.
                   try_await (await_control ti_shutdowns (\<lambda>rs io. io\<lparr>ti_shutdowns := rs\<rparr>) e) (\<lambda>_ e.
                     (Finished (Inr ()), set_session (\<lambda>s. s\<lparr>se_write := WriteClosed\<rparr>) e))))))"

end
