(* ===== verification/Tls_Safety.thy ===== *)
theory Tls_Safety
  imports Tls
begin

text \<open>
  What holds of every TLS stream: no operation panics, ciphertext reaches the transport in order and once, an operation that is
  abandoned at an await or fails leaves a stream that does nothing more, and plaintext reaches the caller in order and once.
\<close>

section \<open>Any use of a stream\<close>

datatype stream_call =
    CallRead nat
  | CallReadVectored "nat list"
  | CallWrite "u8 list"
  | CallWriteVectored "u8 list list"
  | CallFlush
  | CallShutdown

text \<open>An operation, with the plaintext that it delivers to its caller.\<close>

definition map_run :: "('a \<Rightarrow> 'b) \<Rightarrow> ('a, 'c) tls_run \<Rightarrow> ('b, 'c) tls_run" where
  "map_run f m = try_await m (\<lambda>a e. (Finished (Inr (f a)), e))"

fun tls_call :: "'c rustls \<Rightarrow> stream_call \<Rightarrow> 'c engine \<Rightarrow> (u8 list, 'c) tls_run" where
  "tls_call T (CallRead n) e = tls_read T n e"
| "tls_call T (CallReadVectored ns) e = map_run concat (tls_read_vectored T ns e)"
| "tls_call T (CallWrite bs) e = map_run (\<lambda>_. []) (tls_write T bs e)"
| "tls_call T (CallWriteVectored bss) e = map_run (\<lambda>_. []) (tls_write_vectored T bss e)"
| "tls_call T CallFlush e = map_run (\<lambda>_. []) (tls_flush T e)"
| "tls_call T CallShutdown e = map_run (\<lambda>_. []) (tls_shutdown T e)"

definition delivered :: "u8 list awaited \<Rightarrow> u8 list" where
  "delivered r = (case r of Finished (Inr bs) \<Rightarrow> bs | _ \<Rightarrow> [])"

text \<open>A stream after its handshake and any calls, also after calls that failed or were abandoned; \<open>got\<close> is the plaintext delivered so far.\<close>

inductive tls_reach :: "'c rustls \<Rightarrow> 'c \<Rightarrow> 'c engine \<Rightarrow> u8 list \<Rightarrow> bool" for T c where
  tls_start: "ti_wire io = [] \<Longrightarrow> handshake T (engine_new io c) = (Finished (Inr ()), e) \<Longrightarrow> tls_reach T c e []"
| tls_next: "tls_reach T c e got \<Longrightarrow> tls_call T call e = (r, e') \<Longrightarrow> tls_reach T c e' (got @ delivered r)"

section \<open>The invariant\<close>

abbreviation conn :: "'c engine \<Rightarrow> 'c" where
  "conn e \<equiv> se_connection (en_session e)"

abbreviation wire :: "'c engine \<Rightarrow> u8 list" where
  "wire e \<equiv> ti_wire (en_io e)"

definition read_failed :: "'c engine \<Rightarrow> bool" where
  "read_failed e \<longleftrightarrow> (\<exists>f. se_read (en_session e) = ReadFailed f)"

definition write_failed :: "'c engine \<Rightarrow> bool" where
  "write_failed e \<longleftrightarrow> (\<exists>f. se_write (en_session e) = WriteFailed f)"

definition dead :: "'c engine \<Rightarrow> bool" where
  "dead e \<longleftrightarrow> read_failed e \<and> (write_failed e \<or> se_write (en_session e) = WriteClosed)"

definition wire_exact :: "'c engine \<Rightarrow> bool" where
  "wire_exact e \<longleftrightarrow> en_output_start e \<le> length (en_output e) \<and> wire e @ drop (en_output_start e) (en_output e) = en_emitted e"

definition wire_prefix :: "'c engine \<Rightarrow> bool" where
  "wire_prefix e \<longleftrightarrow> (\<exists>rest. wire e @ rest = en_emitted e)"

definition tls_inv :: "'c engine \<Rightarrow> bool" where
  "tls_inv e \<longleftrightarrow> (\<forall>f. se_write (en_session e) \<noteq> AlertPending f) \<and> (write_failed e \<longrightarrow> read_failed e) \<and>
     en_input_start e \<le> length (en_input e) \<and> (if write_failed e then wire_prefix e else wire_exact e)"

abbreviation usable :: "'c engine \<Rightarrow> bool" where
  "usable e \<equiv> tls_inv e \<and> \<not> read_failed e"

lemma exact_prefix: "wire_exact e \<Longrightarrow> wire_prefix e"
  by (auto simp: wire_exact_def wire_prefix_def)

lemma tls_inv_prefix: "tls_inv e \<Longrightarrow> wire_prefix e"
  by (auto simp: tls_inv_def exact_prefix split: if_splits)

text \<open>What can happen to a connection between two reads of plaintext.\<close>

inductive conn_steps :: "'c rustls \<Rightarrow> 'c \<Rightarrow> 'c \<Rightarrow> bool" for T where
  conn_refl: "conn_steps T c c"
| conn_wrote: "conn_steps T c d \<Longrightarrow> conn_steps T c (snd (rl_wrote T n d))"
| conn_read: "conn_steps T c d \<Longrightarrow> conn_steps T c (snd (rl_read_tls T bs d))"
| conn_process: "conn_steps T c d \<Longrightarrow> conn_steps T c (snd (rl_process_new_packets T d))"
| conn_write: "conn_steps T c d \<Longrightarrow> conn_steps T c (snd (rl_write T bs d))"
| conn_close: "conn_steps T c d \<Longrightarrow> conn_steps T c (rl_send_close_notify T d)"

lemma conn_trans: "conn_steps T d e \<Longrightarrow> conn_steps T c d \<Longrightarrow> conn_steps T c e"
  by (induction rule: conn_steps.induct) (auto intro: conn_steps.intros)

lemma conn_step_eqs:
  "rl_wrote T n d = (r, d') \<Longrightarrow> conn_steps T d d'" "rl_read_tls T bs d = (r, d') \<Longrightarrow> conn_steps T d d'"
  "rl_process_new_packets T d = (ok, d') \<Longrightarrow> conn_steps T d d'" "rl_write T bs d = (r, d') \<Longrightarrow> conn_steps T d d'"
  using conn_wrote [OF conn_refl, of T d n] conn_read [OF conn_refl, of T d bs] conn_process [OF conn_refl, of T d]
    conn_write [OF conn_refl, of T d bs] by simp_all

text \<open>The contract of an operation: \<open>Q\<close> if it succeeds, the invariant if it fails, a dead stream if it is abandoned, and no panic.\<close>

definition run_ok :: "'c rustls \<Rightarrow> 'c \<Rightarrow> ('a \<Rightarrow> 'c engine \<Rightarrow> bool) \<Rightarrow> ('a, 'c) tls_run \<Rightarrow> bool" where
  "run_ok T c Q m \<longleftrightarrow>
     (case m of (r, e) \<Rightarrow> conn_steps T c (conn e) \<and>
        (case r of
           Finished (Inr a) \<Rightarrow> Q a e
         | Finished (Inl _) \<Rightarrow> tls_inv e
         | Abandoned \<Rightarrow> tls_inv e \<and> dead e
         | Panicked \<Rightarrow> False))"

lemma run_ok_simps [simp]:
  "run_ok T c Q (Finished (Inr a), e) \<longleftrightarrow> conn_steps T c (conn e) \<and> Q a e"
  "run_ok T c Q (Finished (Inl err), e) \<longleftrightarrow> conn_steps T c (conn e) \<and> tls_inv e"
  "run_ok T c Q (Abandoned, e) \<longleftrightarrow> conn_steps T c (conn e) \<and> tls_inv e \<and> dead e"
  "\<not> run_ok T c Q (Panicked, e)"
  by (simp_all add: run_ok_def)

lemma run_ok_try:
  assumes "run_ok T c P m" "\<And>a e. P a e \<Longrightarrow> conn_steps T c (conn e) \<Longrightarrow> run_ok T c Q (f a e)"
  shows "run_ok T c Q (try_await m f)"
proof (cases m)
  case (Pair r e)
  show ?thesis
  proof (cases r)
    case (Finished x)
    then show ?thesis using assms Pair by (cases x) (auto simp: try_await_def)
  qed (use assms Pair in \<open>auto simp: try_await_def\<close>)
qed

lemma run_ok_from: "run_ok T d Q m \<Longrightarrow> conn_steps T c d \<Longrightarrow> run_ok T c Q m"
  by (auto simp: run_ok_def intro: conn_trans split: prod.splits awaited.splits sum.splits)

lemma run_ok_mono: "run_ok T c P m \<Longrightarrow> (\<And>a e. P a e \<Longrightarrow> Q a e) \<Longrightarrow> run_ok T c Q m"
  by (auto simp: run_ok_def split: prod.splits awaited.splits sum.splits)

section \<open>Session states\<close>

definition same_states :: "'c engine \<Rightarrow> 'c engine \<Rightarrow> bool" where
  "same_states e e' \<longleftrightarrow> se_read (en_session e') = se_read (en_session e) \<and> se_write (en_session e') = se_write (en_session e)"

lemma begin_finish:
  "begin_transport_io s = (states, s') \<Longrightarrow> finish_transport_io states s' = s"
  by (cases s) (auto simp: begin_transport_io_def finish_transport_io_def record_read_failure_def record_write_failure_def
      split: read_state.splits write_state.splits)

lemma begin_states:
  assumes "begin_transport_io s = (states, s')"
  shows "se_connection s' = se_connection s" "\<exists>f. se_read s' = ReadFailed f"
    "se_write s \<noteq> WriteClosed \<Longrightarrow> \<exists>f. se_write s' = WriteFailed f" "se_write s = WriteClosed \<Longrightarrow> se_write s' = WriteClosed"
  using assms by (auto simp: begin_transport_io_def record_read_failure_def record_write_failure_def
      split: read_state.splits write_state.splits)

lemma fail_states:
  "se_connection (fail_both err s) = se_connection s" "\<exists>f. se_read (fail_both err s) = ReadFailed f"
  "se_write s \<noteq> WriteClosed \<Longrightarrow> \<exists>f. se_write (fail_both err s) = WriteFailed f"
  "se_write s = WriteClosed \<Longrightarrow> se_write (fail_both err s) = WriteClosed"
  "se_connection (fail_read err s) = se_connection s" "\<exists>f. se_read (fail_read err s) = ReadFailed f" "se_write (fail_read err s) = se_write s"
  by (auto simp: fail_both_def fail_read_def record_read_failure_def record_write_failure_def
      split: read_state.splits write_state.splits)

text \<open>A change of session or input that leaves the output alone.\<close>

lemma inv_output:
  assumes "wire_prefix e" "wire e' = wire e" "en_emitted e' = en_emitted e" "en_input_start e' \<le> length (en_input e')" "read_failed e'" "write_failed e'"
  shows "tls_inv e'"
  using assms by (auto simp: tls_inv_def wire_prefix_def write_failed_def)

lemma tls_inv_change:
  assumes "tls_inv e" "wire e' = wire e" "en_emitted e' = en_emitted e" "en_output e' = en_output e" "en_output_start e' = en_output_start e"
    "en_input_start e' \<le> length (en_input e')" "se_write (en_session e') = se_write (en_session e)" "read_failed e \<Longrightarrow> read_failed e'"
  shows "tls_inv e'"
  using assms by (auto simp: tls_inv_def wire_prefix_def wire_exact_def write_failed_def)

lemma inv_dies:
  assumes "tls_inv e" "wire e' = wire e" "en_emitted e' = en_emitted e" "en_output e' = en_output e" "en_output_start e' = en_output_start e"
    "en_input_start e' \<le> length (en_input e')"
    "\<exists>f. se_read (en_session e') = ReadFailed f" "se_write (en_session e) \<noteq> WriteClosed \<Longrightarrow> \<exists>f. se_write (en_session e') = WriteFailed f"
    "se_write (en_session e) = WriteClosed \<Longrightarrow> se_write (en_session e') = WriteClosed"
  shows "tls_inv e'" "dead e'"
proof -
  have p: "wire_prefix e'" using tls_inv_prefix [OF assms(1)] assms(2,3) by (simp add: wire_prefix_def)
  have x: "wire_exact e'" if "se_write (en_session e) = WriteClosed"
    using that assms by (auto simp: tls_inv_def write_failed_def wire_exact_def)
  show "tls_inv e'" using assms(6-9) p x by (cases "se_write (en_session e) = WriteClosed") (auto simp: tls_inv_def write_failed_def read_failed_def)
  show "dead e'" using assms(7-9) by (cases "se_write (en_session e) = WriteClosed") (auto simp: dead_def write_failed_def read_failed_def)
qed

section \<open>Output\<close>

lemma fill_exact:
  assumes "wire_exact e" "fill_output T e = (r, e')"
  shows "wire_exact e'" "same_states e e'" "conn_steps T (conn e) (conn e')" "en_input e' = en_input e" "en_input_start e' = en_input_start e"
  using assms by (auto simp: fill_output_def wire_exact_def same_states_def Let_def intro: conn_refl dest: conn_step_eqs(1)
      split: if_splits prod.splits sum.splits)

lemma write_exact:
  assumes "wire_exact e" "write_output e = (r, e')"
  shows "wire_prefix e'" "conn e' = conn e" "en_input e' = en_input e" "en_input_start e' = en_input_start e" "r \<noteq> Panicked"
    "r = Finished x \<Longrightarrow> same_states e e'" "r = Finished (Inr ()) \<Longrightarrow> wire_exact e'"
    "r = Abandoned \<Longrightarrow> read_failed e' \<and> (se_write (en_session e) \<noteq> WriteClosed \<longrightarrow> write_failed e')"
proof -
  obtain states s where b: "begin_transport_io (en_session e) = (states, s)" by (cases "begin_transport_io (en_session e)")
  note f = begin_finish [OF b] begin_states [OF b]
  have len: "en_output_start e \<le> length (en_output e)" and eq: "wire e @ drop (en_output_start e) (en_output e) = en_emitted e"
    using assms(1) by (simp_all add: wire_exact_def)
  have part: "(wire e @ take n (drop k out)) @ drop (k + n) out = wire e @ drop k out" for n k out
    by (metis add.commute append.assoc append_take_drop_id drop_drop)
  show "conn e' = conn e" "en_input e' = en_input e" "en_input_start e' = en_input_start e" "r \<noteq> Panicked" "r = Finished x \<Longrightarrow> same_states e e'"
    "r = Abandoned \<Longrightarrow> read_failed e' \<and> (se_write (en_session e) \<noteq> WriteClosed \<longrightarrow> write_failed e')"
    using assms(2) b f len by (auto simp: write_output_def same_states_def read_failed_def write_failed_def Let_def
        split: if_splits list.splits write_outcome.splits)
  show "r = Finished (Inr ()) \<Longrightarrow> wire_exact e'"
    using assms(2) b f len eq part [of _ "en_output_start e" "en_output e"]
    by (auto simp: write_output_def wire_exact_def Let_def split: if_splits list.splits write_outcome.splits)
  have "\<exists>rest. wire e @ take n (drop (en_output_start e) (en_output e)) @ rest = en_emitted e" for n
    using part [of n "en_output_start e" "en_output e"] eq by (intro exI [of _ "drop (en_output_start e + n) (en_output e)"]) simp
  then show "wire_prefix e'"
    using assms(2) b f eq
    by (auto simp: write_output_def wire_prefix_def Let_def split: if_splits list.splits write_outcome.splits)
qed

lemma drain_raw_ok:
  assumes "wire_exact e" "drain_output_raw T e = (r, e')"
  shows "conn_steps T (conn e) (conn e') \<and> en_input e' = en_input e \<and> en_input_start e' = en_input_start e \<and> wire_prefix e' \<and>
    (case r of
       Finished x \<Rightarrow> same_states e e' \<and> (x = Inr () \<longrightarrow> wire_exact e' \<and> \<not> wants_drain T e')
     | Abandoned \<Rightarrow> read_failed e' \<and> (se_write (en_session e) \<noteq> WriteClosed \<longrightarrow> write_failed e')
     | Panicked \<Rightarrow> False)" (is "?Q r e'")
proof (rule drain_raw_rule [where P = "\<lambda>x. wire_exact x \<and> same_states e x \<and> conn_steps T (conn e) (conn x) \<and>
      en_input x = en_input e \<and> en_input_start x = en_input_start e" and Q = ?Q, OF _ _ assms(2)])
  let ?P = "\<lambda>x. wire_exact x \<and> same_states e x \<and> conn_steps T (conn e) (conn x) \<and> en_input x = en_input e \<and> en_input_start x = en_input_start e"
  show "?P e" using assms(1) by (simp add: same_states_def conn_refl)
  have "case y of Inr _ \<Rightarrow> ?P x' | Inl err \<Rightarrow> ?Q (Finished (Inl err)) x'" if "?P x" "fill_output T x = (y, x')" for x y x'
    using fill_exact [of x T y x'] that exact_prefix [of x'] conn_trans [of T "conn x" "conn x'" "conn e"]
    by (auto simp: same_states_def split: sum.splits)
  moreover have "if y = Finished (Inr ()) then ?P x' else ?Q y x'" if "?P x" "write_output x = (y, x')" for x y x'
    using write_exact [of x y x'] that by (cases y) (auto simp: same_states_def)
  moreover have "?Q (Finished (Inr ())) x" if "?P x" "\<not> wants_drain T x" for x using that exact_prefix by auto
  ultimately show "drain_steps T ?P ?Q" unfolding drain_steps_def by blast
qed

lemma drain_ok:
  assumes inv: "tls_inv e" and w: "\<not> write_failed e"
  shows "run_ok T (conn e) (\<lambda>_ e'. tls_inv e' \<and> same_states e e' \<and> (se_write (en_session e) = WriteClosed \<or> \<not> wants_drain T e'))
    (drain_output T e)"
proof (cases "se_write (en_session e) = WriteClosed")
  case True
  then show ?thesis using inv by (simp add: drain_output_def same_states_def conn_refl)
next
  case False
  obtain r e' where d: "drain_output_raw T e = (r, e')" by (cases "drain_output_raw T e")
  have exact: "wire_exact e" and start: "en_input_start e \<le> length (en_input e)" and alert: "\<And>f. se_write (en_session e) \<noteq> AlertPending f"
    using inv w by (auto simp: tls_inv_def)
  note ok = drain_raw_ok [OF exact d]
  show ?thesis
  proof (cases r)
    case (Finished x)
    show ?thesis
    proof (cases x)
      case (Inl err)
      let ?e = "e'\<lparr>en_session := fail_both err (en_session e')\<rparr>"
      have "tls_inv ?e"
        by (rule inv_output [of e'])
           (use ok Finished Inl False start fail_states(2,3) [where err = err and s = "en_session e'"]
            in \<open>auto simp: read_failed_def write_failed_def same_states_def\<close>)
      then show ?thesis using d Finished Inl False ok by (simp add: drain_output_def fail_states(1))
    next
      case (Inr u)
      then show ?thesis using d Finished False ok w start alert
        by (auto simp: drain_output_def tls_inv_def write_failed_def same_states_def)
    qed
  next
    case Abandoned
    then have "tls_inv e'" "dead e'" using ok start False inv_output [of e' e'] by (auto simp: dead_def)
    then show ?thesis using d Abandoned False ok by (simp add: drain_output_def)
  qed (use ok in simp)
qed

section \<open>Input\<close>

lemma read_batch_ok:
  assumes inv: "usable e"
  shows "run_ok T (conn e) (\<lambda>_ e'. usable e' \<and> same_states e e') (read_batch (e\<lparr>en_input := [], en_input_start := 0\<rparr>))"
proof -
  let ?e = "e\<lparr>en_input := [], en_input_start := 0\<rparr>"
  have i: "tls_inv ?e" by (rule tls_inv_change [of e]) (use inv in \<open>auto simp: read_failed_def\<close>)
  obtain states s where b: "begin_transport_io (en_session e) = (states, s)" by (cases "begin_transport_io (en_session e)")
  note f = begin_finish [OF b] begin_states [OF b]
  show ?thesis
  proof (cases "ti_reads (en_io e)")
    case Nil
    have "tls_inv (?e\<lparr>en_session := s, en_input := []\<rparr>)" "dead (?e\<lparr>en_session := s, en_input := []\<rparr>)"
      using inv_dies [OF i, of "?e\<lparr>en_session := s, en_input := []\<rparr>"] f by auto
    then show ?thesis using Nil b f by (simp add: read_batch_def conn_refl)
  next
    case (Cons ev evs)
    let ?x = "?e\<lparr>en_io := (en_io e)\<lparr>ti_reads := evs\<rparr>, en_session := en_session e\<rparr>"
    have j: "tls_inv ?x" by (rule tls_inv_change [OF i]) (auto simp: read_failed_def)
    have fb: "tls_inv (set_session (fail_both err) ?x)" for err
      by (rule inv_dies(1) [OF j]) (use fail_states(1-4) [where err = err and s = "en_session e"] in \<open>auto simp: set_session_def\<close>)
    have fr: "tls_inv (set_session (fail_read err) (?x\<lparr>en_input := bs\<rparr>))" for err bs
      by (rule tls_inv_change [OF j]) (use fail_states(5-7) [where err = err and s = "en_session e"] in \<open>auto simp: set_session_def read_failed_def\<close>)
    have fr0: "tls_inv (set_session (fail_read err) ?x)" for err
      by (rule tls_inv_change [OF j]) (use fail_states(5-7) [where err = err and s = "en_session e"] in \<open>auto simp: set_session_def read_failed_def\<close>)
    have got: "tls_inv (?x\<lparr>en_input := bs\<rparr>)" "tls_inv (?x\<lparr>en_input := bs, en_eof := True\<rparr>)" for bs
      by (rule tls_inv_change [OF j]; simp add: read_failed_def)+
    show ?thesis using Cons b f(1) fb fr fr0 got inv
      by (cases ev) (auto simp: read_batch_def Let_def conn_refl set_session_def fail_states same_states_def read_failed_def)
  qed
qed

lemma set_conn [simp]:
  "en_io (set_session f e) = en_io e" "en_input (set_session f e) = en_input e" "en_input_start (set_session f e) = en_input_start e"
  "en_output (set_session f e) = en_output e" "en_output_start (set_session f e) = en_output_start e" "en_emitted (set_session f e) = en_emitted e"
  "en_eof (set_session f e) = en_eof e" "en_session (set_session f e) = f (en_session e)"
  by (simp_all add: set_session_def)

lemma usable_change:
  assumes "usable e" "en_io e' = en_io e" "en_emitted e' = en_emitted e" "en_output e' = en_output e" "en_output_start e' = en_output_start e"
    "en_input_start e' \<le> length (en_input e')" "same_states e e'"
  shows "usable e'"
proof -
  have "tls_inv e'" by (rule tls_inv_change [of e]) (use assms in \<open>auto simp: same_states_def\<close>)
  then show ?thesis using assms by (simp add: read_failed_def same_states_def)
qed

lemma same_states_trans: "same_states a b \<Longrightarrow> same_states b c \<Longrightarrow> same_states a c"
  by (simp add: same_states_def)

text \<open>The failed processing of packets: an alert is sent if the write direction is open, and both directions fail.\<close>

lemma protocol_error_ok:
  assumes inv: "usable e" and c: "conn_steps T c (conn e)"
  shows "run_ok T c Q (if se_write (en_session e) = WriteClosed then (Finished (Inl InvalidData), set_session (fail_both InvalidData) e)
     else (case drain_output_raw T e of (Abandoned, e) \<Rightarrow> (Abandoned, e) | (Panicked, e) \<Rightarrow> (Panicked, e)
           | (Finished _, e) \<Rightarrow> (Finished (Inl InvalidData), set_session (fail_both InvalidData) e)))"
proof (cases "se_write (en_session e) = WriteClosed")
  case True
  have "tls_inv (set_session (fail_both InvalidData) e)"
    by (rule inv_dies(1) [of e]) (use inv True fail_states(1-4) [where err = InvalidData and s = "en_session e"] in \<open>auto simp: tls_inv_def\<close>)
  then show ?thesis using True c by (simp add: fail_states)
next
  case False
  obtain r e' where d: "drain_output_raw T e = (r, e')" by (cases "drain_output_raw T e")
  have w: "\<not> write_failed e" and exact: "wire_exact e" and start: "en_input_start e \<le> length (en_input e)" using inv by (auto simp: tls_inv_def split: if_splits)
  note ok = drain_raw_ok [OF exact d]
  have step: "conn_steps T c (conn e')" using ok c by (blast intro: conn_trans)
  show ?thesis
  proof (cases r)
    case (Finished x)
    have "tls_inv (set_session (fail_both InvalidData) e')"
      by (rule inv_output [of e'])
         (use ok Finished False start fail_states(2,3) [where err = InvalidData and s = "en_session e'"]
          in \<open>auto simp: read_failed_def write_failed_def same_states_def\<close>)
    then show ?thesis using False Finished d step by (simp add: fail_states)
  next
    case Abandoned
    then have "tls_inv e'" "dead e'" using ok start False inv_output [of e' e'] by (auto simp: dead_def)
    then show ?thesis using False Abandoned d step by simp
  qed (use ok in simp)
qed

lemma feed_ok:
  assumes inv: "usable e"
  shows "run_ok T (conn e) (\<lambda>_ e'. usable e' \<and> same_states e e') (feed T e)"
proof -
  let ?av = "drop (en_input_start e) (en_input e)"
  have start: "en_input_start e \<le> length (en_input e)" using inv by (simp add: tls_inv_def)
  obtain r c1 where r: "rl_read_tls T ?av (conn e) = (r, c1)" by (cases "rl_read_tls T ?av (conn e)")
  let ?conn = "\<lambda>c e. set_session (\<lambda>s. s\<lparr>se_connection := c\<rparr>) e"
  have s1: "conn_steps T (conn e) c1" using conn_step_eqs(2) [OF r] .
  have u1: "usable (?conn c1 e)" by (rule usable_change [OF inv]) (use start in \<open>auto simp: same_states_def\<close>)
  show ?thesis
  proof (cases r)
    case (Inl err)
    then show ?thesis using r start u1 s1 by (simp add: feed_def Let_def)
  next
    case (Inr consumed)
    show ?thesis
    proof (cases "consumed > length ?av")
      case True
      have "tls_inv (set_session (fail_both OtherError) (?conn c1 e))"
        by (rule inv_dies(1) [of e]) (use inv start fail_states(1-4) [where err = OtherError and s = "en_session (?conn c1 e)"] in auto)
      then show ?thesis using True Inr r start s1 by (simp add: feed_def Let_def fail_states)
    next
      case False
      let ?e2 = "(?conn c1 e)\<lparr>en_input_start := (if consumed = 0 \<and> ?av \<noteq> [] then length (en_input e) else en_input_start e + consumed)\<rparr>"
      obtain ok c2 where p: "rl_process_new_packets T c1 = (ok, c2)" by (cases "rl_process_new_packets T c1")
      let ?e3 = "?conn c2 ?e2"
      have s2: "conn_steps T (conn e) c2" using conn_step_eqs(3) [OF p] s1 by (rule conn_trans)
      have u3: "usable ?e3" by (rule usable_change [OF u1]) (use start False in \<open>auto simp: same_states_def\<close>)
      obtain r4 c4 where w: "rl_write T [] c2 = (r4, c4)" by (cases "rl_write T [] c2")
      have s4: "conn_steps T (conn e) c4" using conn_step_eqs(4) [OF w] s2 by (rule conn_trans)
      have u4: "usable (?conn c4 ?e3)" by (rule usable_change [OF u3]) (use start False in \<open>auto simp: same_states_def\<close>)
      have bad: "run_ok T (conn e) Q (if se_write (en_session ?e3) = WriteClosed then (Finished (Inl InvalidData), set_session (fail_both InvalidData) ?e3)
         else (case drain_output_raw T ?e3 of (Abandoned, e) \<Rightarrow> (Abandoned, e) | (Panicked, e) \<Rightarrow> (Panicked, e)
           | (Finished _, e) \<Rightarrow> (Finished (Inl InvalidData), set_session (fail_both InvalidData) e)))" for Q :: "unit \<Rightarrow> _"
        by (rule protocol_error_ok [OF u3]) (use s2 in simp)
      have good: "run_ok T (conn e) (\<lambda>_ e'. usable e' \<and> same_states e e')
        (case r4 of Inl err \<Rightarrow> (Finished (Inl err), ?conn c4 ?e3) | Inr _ \<Rightarrow> (Finished (Inr ()), ?conn c4 ?e3))"
        using s4 u4 by (cases r4) (auto simp: same_states_def)
      have "feed T e = (if ok then (case r4 of Inl err \<Rightarrow> (Finished (Inl err), ?conn c4 ?e3) | Inr _ \<Rightarrow> (Finished (Inr ()), ?conn c4 ?e3))
        else (if se_write (en_session ?e3) = WriteClosed then (Finished (Inl InvalidData), set_session (fail_both InvalidData) ?e3)
         else (case drain_output_raw T ?e3 of (Abandoned, e) \<Rightarrow> (Abandoned, e) | (Panicked, e) \<Rightarrow> (Panicked, e)
           | (Finished _, e) \<Rightarrow> (Finished (Inl InvalidData), set_session (fail_both InvalidData) e))))"
        using r Inr False start p w by (cases ok; cases r4; simp add: feed_def Let_def)
      then show ?thesis using good bad by (cases ok) simp_all
    qed
  qed
qed

lemma receive_ok:
  assumes inv: "usable e"
  shows "run_ok T (conn e) (\<lambda>_ e'. usable e' \<and> same_states e e') (receive_tls T e)"
proof (cases "en_input_start e = length (en_input e)")
  case True
  let ?e = "e\<lparr>en_input := [], en_input_start := 0\<rparr>"
  have u: "usable ?e" by (rule usable_change [OF inv]) (auto simp: same_states_def)
  have "run_ok T (conn e) (\<lambda>_ e'. usable e' \<and> same_states e e') (try_await (read_batch ?e) (\<lambda>_ e. feed T e))"
    by (rule run_ok_try [OF read_batch_ok [OF inv]])
       (blast intro: run_ok_mono [OF run_ok_from [OF feed_ok]] same_states_trans)
  then show ?thesis using True u by (simp add: receive_tls_def Let_def conn_refl same_states_def)
next
  case False
  then show ?thesis using feed_ok [OF inv] by (simp add: receive_tls_def)
qed

section \<open>Loops\<close>

lemma handshake_ok: "usable e \<Longrightarrow> run_ok T (conn e) (\<lambda>_ e'. usable e') (handshake T e)"
proof (induction T e rule: handshake.induct)
  case (1 T e)
  have w: "\<not> write_failed e" using "1.prems" by (auto simp: tls_inv_def)
  show ?case unfolding handshake.simps [of T e]
  proof (rule run_ok_try [where P = "\<lambda>_ e1. usable e1 \<and> drain_output T e = (Finished (Inr ()), e1)"])
    show "run_ok T (conn e) (\<lambda>_ e1. usable e1 \<and> drain_output T e = (Finished (Inr ()), e1)) (drain_output T e)"
      using drain_ok [of e T] "1.prems" w
      by (auto simp: run_ok_def same_states_def read_failed_def split: prod.splits awaited.splits sum.splits)
    fix a e1
    assume e1: "usable e1 \<and> drain_output T e = (Finished (Inr ()), e1)" and c1: "conn_steps T (conn e) (conn e1)"
    let ?stop = "\<not> rl_is_handshaking T (conn e1) \<and> \<not> rl_wants_write T (conn e1)"
    have "run_ok T (conn e) (\<lambda>_ e'. usable e') (try_await (receive_tls T e1) (\<lambda>_. handshake T))" if "\<not> ?stop" "\<not> en_eof e1"
    proof (rule run_ok_try [where P = "\<lambda>_ e2. usable e2 \<and> receive_tls T e1 = (Finished (Inr ()), e2)"])
      show "run_ok T (conn e) (\<lambda>_ e2. usable e2 \<and> receive_tls T e1 = (Finished (Inr ()), e2)) (receive_tls T e1)"
        using run_ok_from [OF receive_ok c1] e1 by (auto simp: run_ok_def split: prod.splits awaited.splits sum.splits)
      fix b e2
      assume "usable e2 \<and> receive_tls T e1 = (Finished (Inr ()), e2)" "conn_steps T (conn e) (conn e2)"
      then show "run_ok T (conn e) (\<lambda>_ e'. usable e') (handshake T e2)"
        using run_ok_from [OF "1.IH"] e1 that by blast
    qed
    then show "run_ok T (conn e) (\<lambda>_ e'. usable e') (if ?stop then (Finished (Inr ()), e1)
       else if en_eof e1 then (Finished (Inl UnexpectedEof), e1) else try_await (receive_tls T e1) (\<lambda>_. handshake T))"
      using e1 c1 by simp
  qed
qed

lemma plain_state:
  assumes "tls_inv e" "plaintext_state T (en_session e) = (r, s)"
  shows "tls_inv (e\<lparr>en_session := s\<rparr>)" "se_connection s = conn e"
    "r = Inr PlainPending \<Longrightarrow> s = en_session e \<and> \<not> read_failed e"
    "r = Inr PlainAvailable \<Longrightarrow> s = en_session e \<and> \<not> read_failed e \<and> (\<exists>x xs. rl_first_chunk T (conn e) = Chunk (x # xs))"
    "r = Inr PlainPeerClosed \<Longrightarrow> se_read s = PeerClosed \<and> \<not> read_failed e"
proof -
  have w: "se_write s = se_write (en_session e) \<and> (read_failed e \<longrightarrow> s = en_session e)"
    using assms(2) by (auto simp: plaintext_state_def read_failure_def read_failed_def fail_states(7)
        split: option.splits read_state.splits if_splits first_chunk.splits list.splits io_error.splits)
  show "tls_inv (e\<lparr>en_session := s\<rparr>)"
    by (rule tls_inv_change [OF assms(1)]) (use w assms(1) in \<open>auto simp: tls_inv_def read_failed_def\<close>)
qed (use assms(2) in \<open>auto simp: plaintext_state_def read_failure_def read_failed_def fail_states
    split: option.splits read_state.splits if_splits first_chunk.splits list.splits io_error.splits\<close>)

definition plain_result :: "'c rustls \<Rightarrow> bool \<Rightarrow> 'c engine \<Rightarrow> bool" where
  "plain_result T available e \<longleftrightarrow> usable e \<and>
     (if available then \<exists>x xs. rl_first_chunk T (conn e) = Chunk (x # xs) else se_read (en_session e) = PeerClosed)"

lemma wait_ok:
  "tls_inv e \<Longrightarrow> (processed \<Longrightarrow> \<not> read_failed e) \<Longrightarrow> run_ok T (conn e) (plain_result T) (wait_for_plaintext T processed e)"
proof (induction T processed e rule: wait_for_plaintext.induct)
  case (1 T processed e)
  let ?first = "if processed then drain_output T e else (Finished (Inr ()), e)"
  show ?case unfolding wait_for_plaintext.simps [of T processed e]
  proof (rule run_ok_try [where P = "\<lambda>_ e1. tls_inv e1 \<and> ?first = (Finished (Inr ()), e1)"])
    show "run_ok T (conn e) (\<lambda>_ e1. tls_inv e1 \<and> ?first = (Finished (Inr ()), e1)) ?first"
      using drain_ok [of e T] "1.prems"
      by (auto simp: run_ok_def conn_refl tls_inv_def split: prod.splits awaited.splits sum.splits)
    fix a e1
    assume e1: "tls_inv e1 \<and> ?first = (Finished (Inr ()), e1)" and c1: "conn_steps T (conn e) (conn e1)"
    obtain r s where p: "plaintext_state T (en_session e1) = (r, s)" by (cases "plaintext_state T (en_session e1)")
    note ps = plain_state [OF conjunct1 [OF e1] p]
    have pending: "run_ok T (conn e) (plain_result T)
       (try_await (if processed then (Finished (Inr ()), e1\<lparr>en_session := s\<rparr>) else drain_output T (e1\<lparr>en_session := s\<rparr>)) (\<lambda>_ e2.
          if en_eof e2 then (Finished (Inl UnexpectedEof), set_session (fail_read UnexpectedEof) e2)
          else try_await (receive_tls T e2) (\<lambda>_. wait_for_plaintext T True)))" if r: "r = Inr PlainPending"
    proof -
      let ?second = "if processed then (Finished (Inr ()), e1\<lparr>en_session := s\<rparr>) else drain_output T (e1\<lparr>en_session := s\<rparr>)"
      have s: "e1\<lparr>en_session := s\<rparr> = e1" "\<not> read_failed e1" using ps(3) [OF r] by auto
      have w1: "\<not> write_failed e1" using s e1 by (auto simp: tls_inv_def)
      show ?thesis
      proof (rule run_ok_try [where P = "\<lambda>_ e2. usable e2 \<and> ?second = (Finished (Inr ()), e2)"])
        show "run_ok T (conn e) (\<lambda>_ e2. usable e2 \<and> ?second = (Finished (Inr ()), e2)) ?second"
          using run_ok_from [OF drain_ok [OF conjunct1 [OF e1] w1] c1] e1 s c1
          by (auto simp: run_ok_def same_states_def read_failed_def split: prod.splits awaited.splits sum.splits)
        fix b e2
        assume e2: "usable e2 \<and> ?second = (Finished (Inr ()), e2)" and c2: "conn_steps T (conn e) (conn e2)"
        have eof: "tls_inv (set_session (fail_read UnexpectedEof) e2)"
          by (rule tls_inv_change [of e2]) (use e2 fail_states(6,7) [where err = UnexpectedEof and s = "en_session e2"] in \<open>auto simp: tls_inv_def read_failed_def\<close>)
        have "run_ok T (conn e) (plain_result T) (try_await (receive_tls T e2) (\<lambda>_. wait_for_plaintext T True))" if "\<not> en_eof e2"
        proof (rule run_ok_try [where P = "\<lambda>_ e3. usable e3 \<and> receive_tls T e2 = (Finished (Inr ()), e3)"])
          show "run_ok T (conn e) (\<lambda>_ e3. usable e3 \<and> receive_tls T e2 = (Finished (Inr ()), e3)) (receive_tls T e2)"
            using run_ok_from [OF receive_ok c2] e2 by (auto simp: run_ok_def split: prod.splits awaited.splits sum.splits)
          fix c e3
          assume e3: "usable e3 \<and> receive_tls T e2 = (Finished (Inr ()), e3)" "conn_steps T (conn e) (conn e3)"
          have "run_ok T (conn e3) (plain_result T) (wait_for_plaintext T True e3)"
            by (rule "1.IH" [OF conjunct2 [OF e1] p [symmetric] r refl conjunct2 [OF e2] that]) (use e3 in auto)
          then show "run_ok T (conn e) (plain_result T) (wait_for_plaintext T True e3)" using e3(2) by (rule run_ok_from)
        qed
        then show "run_ok T (conn e) (plain_result T) (if en_eof e2 then (Finished (Inl UnexpectedEof), set_session (fail_read UnexpectedEof) e2)
          else try_await (receive_tls T e2) (\<lambda>_. wait_for_plaintext T True))" using eof c2 by (simp add: fail_states)
      qed
    qed
    show "run_ok T (conn e) (plain_result T) (case plaintext_state T (en_session e1) of
         (Inl err, s) \<Rightarrow> (Finished (Inl err), e1\<lparr>en_session := s\<rparr>)
       | (Inr PlainAvailable, s) \<Rightarrow> (Finished (Inr True), e1\<lparr>en_session := s\<rparr>)
       | (Inr PlainPending, s) \<Rightarrow>
           try_await (if processed then (Finished (Inr ()), e1\<lparr>en_session := s\<rparr>) else drain_output T (e1\<lparr>en_session := s\<rparr>)) (\<lambda>_ e2.
             if en_eof e2 then (Finished (Inl UnexpectedEof), set_session (fail_read UnexpectedEof) e2)
             else try_await (receive_tls T e2) (\<lambda>_. wait_for_plaintext T True))
       | (Inr PlainPeerClosed, s) \<Rightarrow> (Finished (Inr False), e1\<lparr>en_session := s\<rparr>))"
    proof (cases r)
      case (Inr x)
      then show ?thesis using p ps c1 pending by (cases x) (auto simp: plain_result_def read_failed_def)
    qed (use p ps c1 in auto)
  qed
qed

section \<open>Stream operations\<close>

definition copy_steps :: "'c rustls \<Rightarrow> (u8 list \<Rightarrow> 'c \<Rightarrow> bool) \<Rightarrow> bool" where
  "copy_steps T H \<longleftrightarrow> (\<forall>copied c ch n. H copied c \<longrightarrow> rl_first_chunk T c = Chunk ch \<longrightarrow> n \<le> length ch \<longrightarrow> H (copied @ take n ch) (rl_consume T n c))"

lemma copy_spec:
  assumes "copy_plaintext T capacity copied s = (r, s')" "length copied \<le> capacity" "copy_steps T H" "H copied (se_connection s)"
  shows "se_write s' = se_write s \<and>
    (case r of
       Inr bs \<Rightarrow> length bs \<le> capacity \<and> length copied \<le> length bs \<and> (se_read s' = se_read s \<or> se_read s' = PeerClosed) \<and> H bs (se_connection s')
     | Inl _ \<Rightarrow> copied = [] \<and> (\<exists>f. se_read s' = ReadFailed f) \<and> se_connection s' = se_connection s)"
  using assms
proof (induction T capacity copied s arbitrary: r s' rule: copy_plaintext.induct)
  case (1 T capacity copied s)
  note run = "1.prems"(1) [unfolded copy_plaintext.simps [of T capacity copied s]]
  show ?case
  proof (cases "length copied < capacity")
    case True
    show ?thesis
    proof (cases "rl_first_chunk T (se_connection s)")
      case (Chunk ch)
      show ?thesis
      proof (cases ch)
        case Nil
        then show ?thesis using run True Chunk "1.prems"(2,4) by auto
      next
        case (Cons x xs)
        define n where "n = min (length ch) (capacity - length copied)"
        define s1 where "s1 = s\<lparr>se_connection := rl_consume T n (se_connection s)\<rparr>"
        have eq: "(if n < length ch then (Inr (copied @ take n ch), s1) else copy_plaintext T capacity (copied @ take n ch) s1) = (r, s')"
          using run True Chunk unfolding Cons n_def s1_def by (simp add: Let_def split del: if_split cong: if_cong)
        have H: "H (copied @ take n ch) (se_connection s1)"
          using "1.prems"(3,4) Chunk unfolding copy_steps_def n_def s1_def by (simp add: Cons)
        have len: "length (copied @ take n ch) \<le> capacity" "n \<noteq> 0" using True Cons by (auto simp: n_def)
        have s1: "se_read s1 = se_read s" "se_write s1 = se_write s" by (simp_all add: s1_def)
        show ?thesis
        proof (cases "n < length ch")
          case less: True
          then have "r = Inr (copied @ take n ch)" "s' = s1" using eq by auto
          then show ?thesis using H len s1 by simp
        next
          case False
          have rec: "copy_plaintext T capacity (copied @ take n ch) s1 = (r, s')" using eq False by simp
          have ne: "copied @ take n ch \<noteq> []" using len Cons by auto
          have "se_write s' = se_write s1 \<and>
            (case r of
               Inr bs \<Rightarrow> length bs \<le> capacity \<and> length (copied @ take n ch) \<le> length bs \<and>
                 (se_read s' = se_read s1 \<or> se_read s' = PeerClosed) \<and> H bs (se_connection s')
             | Inl _ \<Rightarrow> copied @ take n ch = [] \<and> (\<exists>f. se_read s' = ReadFailed f) \<and> se_connection s' = se_connection s1)"
            using "1.IH" [OF True Chunk Cons n_def [unfolded Cons] s1_def refl _ rec [unfolded Cons] _ "1.prems"(3) H [unfolded Cons]] False len(1)
            unfolding Cons by blast
          then show ?thesis using s1 ne by (auto split: sum.splits)
        qed
      qed
    next
      case (NoChunk e)
      then show ?thesis using run True "1.prems"(2,4) fail_states(5-7) [where err = e and s = s] by (auto split: if_splits)
    qed
  next
    case False
    then show ?thesis using run "1.prems"(2,4) by auto
  qed
qed

lemma copy_out_ok:
  assumes e: "plain_result T available e" and run: "copy_out T capacity available e = (r, e')"
  shows "tls_inv e'" "r \<noteq> Abandoned" "r \<noteq> Panicked" "r = Finished (Inr bs) \<Longrightarrow> length bs \<le> capacity"
    "r = Finished (Inr []) \<Longrightarrow> capacity \<noteq> 0 \<Longrightarrow> se_read (en_session e') = PeerClosed"
proof -
  have trivial: "copy_steps T (\<lambda>_ _. True)" by (simp add: copy_steps_def)
  have u: "usable e" using e by (simp add: plain_result_def)
  obtain x s' where c: "copy_plaintext T capacity [] (en_session e) = (x, s')" by (cases "copy_plaintext T capacity [] (en_session e)")
  note spec = copy_spec [OF c _ trivial]
  have i: "tls_inv (e\<lparr>en_session := s'\<rparr>)"
    by (rule tls_inv_change [of e]) (use u spec in \<open>auto simp: tls_inv_def read_failed_def split: sum.splits\<close>)
  show "tls_inv e'" "r \<noteq> Abandoned" "r \<noteq> Panicked" "r = Finished (Inr bs) \<Longrightarrow> length bs \<le> capacity"
    using run c spec i u by (auto simp: copy_out_def split: if_splits sum.splits)
  assume r: "r = Finished (Inr [])" and "capacity \<noteq> 0"
  show "se_read (en_session e') = PeerClosed"
  proof (cases available)
    case True
    obtain a ch where ch: "rl_first_chunk T (conn e) = Chunk (a # ch)" using e True by (auto simp: plain_result_def)
    define n where "n = min (length (a # ch)) capacity"
    define s1 where "s1 = (en_session e)\<lparr>se_connection := rl_consume T n (conn e)\<rparr>"
    have "n \<noteq> 0" using \<open>capacity \<noteq> 0\<close> by (simp add: n_def)
    have "(if n < length (a # ch) then (Inr (take n (a # ch)), s1) else copy_plaintext T capacity (take n (a # ch)) s1) = (x, s')"
      using c ch \<open>capacity \<noteq> 0\<close> unfolding n_def s1_def copy_plaintext.simps [of T capacity "[]"] by (simp add: Let_def split del: if_split cong: if_cong)
    moreover have "x = Inr []" using r run c True by (auto simp: copy_out_def)
    ultimately show ?thesis using copy_spec [of T capacity "take n (a # ch)" s1 x s', OF _ _ trivial] \<open>n \<noteq> 0\<close>
      by (auto simp: n_def split: if_splits)
  qed (use e run in \<open>auto simp: copy_out_def plain_result_def\<close>)
qed

lemma scatter_total:
  assumes "caps = [] \<Longrightarrow> cur = []" "caps \<noteq> [] \<Longrightarrow> length cur \<le> hd caps" "length p + length cur \<le> sum_list caps"
  shows "\<exists>st. scatter p (full, cur, caps) = Some st \<and> concat (targets st) = concat full @ cur @ p"
  using assms
proof (induction p "(full, cur, caps)" arbitrary: full cur caps rule: scatter.induct)
  case (1 p full cur caps)
  show ?case
  proof (cases "p = []")
    case True
    have "concat (map (\<lambda>_. []) xs) = []" for xs :: "nat list" by (induction xs) auto
    then show ?thesis using True "1.prems"(1) by (subst scatter.simps) (auto simp: targets_def split: list.splits)
  next
    case False
    then obtain cap rest where caps: "caps = cap # rest" using "1.prems" by (cases caps) auto
    define n where "n = min (length p) (cap - length cur)"
    have le: "\<not> cap < length cur" using "1.prems"(2) caps by simp
    show ?thesis
    proof (cases "length (cur @ take n p) = cap")
      case True
      have "\<exists>st. scatter (drop n p) (full @ [cur @ take n p], [], rest) = Some st \<and>
          concat (targets st) = concat (full @ [cur @ take n p]) @ [] @ drop n p"
        using "1.hyps"(1) [OF False caps le n_def refl True] "1.prems"(3) True caps by auto
      then show ?thesis using False caps le True by (subst scatter.simps) (auto simp: Let_def n_def)
    next
      case less: False
      have "\<exists>st. scatter (drop n p) (full, cur @ take n p, caps) = Some st \<and> concat (targets st) = concat full @ (cur @ take n p) @ drop n p"
        by (rule "1.hyps"(2) [OF False caps le n_def refl less]) (use "1.prems"(3) caps le less in \<open>auto simp: n_def\<close>)
      then show ?thesis using False caps le less by (subst scatter.simps) (auto simp: Let_def n_def)
    qed
  qed
qed

lemma map_run_simps [simp]:
  "map_run f (Finished (Inr a), e) = (Finished (Inr (f a)), e)" "map_run f (Finished (Inl err), e) = (Finished (Inl err), e)"
  "map_run f (Abandoned, e) = (Abandoned, e)" "map_run f (Panicked, e) = (Panicked, e)"
  by (simp_all add: map_run_def try_await_def)

lemma run_ok_map: "run_ok T c (\<lambda>_ e. Q e) m \<Longrightarrow> run_ok T c (\<lambda>_ e. Q e) (map_run f m)"
  unfolding map_run_def by (rule run_ok_try [where P = "\<lambda>_ e. Q e"]) auto

definition give_ok :: "'c rustls \<Rightarrow> ('c session \<Rightarrow> nat io_result \<times> 'c session) \<Rightarrow> bool" where
  "give_ok T give \<longleftrightarrow>
     (\<forall>s x s'. give s = (x, s') \<longrightarrow>
        (\<exists>c. conn_steps T (se_connection s) c \<and>
           (case x of Inr _ \<Rightarrow> s' = s\<lparr>se_connection := c\<rparr> | Inl _ \<Rightarrow> \<exists>err. s' = fail_both err (s\<lparr>se_connection := c\<rparr>))))"

lemma write_plaintext_ok: "give_ok T (write_plaintext T bs)"
  unfolding give_ok_def
proof (intro allI impI)
  fix s x s'
  assume run: "write_plaintext T bs s = (x, s')"
  obtain r c where r: "rl_write T bs (se_connection s) = (r, c)" by (cases "rl_write T bs (se_connection s)")
  show "\<exists>c. conn_steps T (se_connection s) c \<and>
           (case x of Inr _ \<Rightarrow> s' = s\<lparr>se_connection := c\<rparr> | Inl _ \<Rightarrow> \<exists>err. s' = fail_both err (s\<lparr>se_connection := c\<rparr>))"
    using run r conn_step_eqs(4) [OF r] by (intro exI [of _ c]) (auto simp: write_plaintext_def Let_def split: sum.splits if_splits)
qed

lemma write_buffers_ok:
  "write_buffers T acc bs s = (x, s') \<Longrightarrow>
     \<exists>c. conn_steps T (se_connection s) c \<and>
        (case x of Inr _ \<Rightarrow> s' = s\<lparr>se_connection := c\<rparr> | Inl _ \<Rightarrow> \<exists>err. s' = fail_both err (s\<lparr>se_connection := c\<rparr>))"
proof (induction T acc bs s rule: write_buffers.induct)
  case (1 T acc s)
  then show ?case by (auto intro: exI [of _ "se_connection s"] conn_refl)
next
  case (2 T acc b bs s)
  show ?case
  proof (cases "b = []")
    case False
    obtain r c where r: "rl_write T b (se_connection s) = (r, c)" by (cases "rl_write T b (se_connection s)")
    note step = conn_step_eqs(4) [OF r]
    show ?thesis
    proof (cases "\<exists>n. r = Inr n \<and> n \<noteq> 0 \<and> \<not> n < length b")
      case True
      then obtain n where n: "r = Inr n" "n \<noteq> 0" "\<not> n < length b" by blast
      then have "write_buffers T (acc + n) bs (s\<lparr>se_connection := c\<rparr>) = (x, s')" using "2.prems" False r by (simp add: Let_def)
      then obtain d where d: "conn_steps T c d" "case x of Inr _ \<Rightarrow> s' = s\<lparr>se_connection := d\<rparr> | Inl _ \<Rightarrow> \<exists>err. s' = fail_both err (s\<lparr>se_connection := d\<rparr>)"
        using "2.IH"(2) [OF False r [symmetric] refl n] by (cases x) auto
      then show ?thesis using conn_trans [OF d(1) step] by blast
    next
      case other: False
      then show ?thesis using "2.prems" False r step by (intro exI [of _ c]) (auto simp: Let_def split: sum.splits if_splits)
    qed
  qed (use 2 in simp)
qed

lemma write_vectored_plaintext_ok: "give_ok T (write_vectored_plaintext T bss)"
  unfolding give_ok_def
proof (intro allI impI)
  fix s x s'
  assume run: "write_vectored_plaintext T bss s = (x, s')"
  obtain y s1 where y: "write_buffers T 0 bss s = (y, s1)" by (cases "write_buffers T 0 bss s")
  then obtain c where "conn_steps T (se_connection s) c" "case y of Inr _ \<Rightarrow> s1 = s\<lparr>se_connection := c\<rparr> | Inl _ \<Rightarrow> \<exists>err. s1 = fail_both err (s\<lparr>se_connection := c\<rparr>)"
    using write_buffers_ok by blast
  then show "\<exists>c. conn_steps T (se_connection s) c \<and>
           (case x of Inr _ \<Rightarrow> s' = s\<lparr>se_connection := c\<rparr> | Inl _ \<Rightarrow> \<exists>err. s' = fail_both err (s\<lparr>se_connection := c\<rparr>))"
    using run y by (intro exI [of _ c]) (auto simp: write_vectored_plaintext_def split: sum.splits if_splits)
qed

lemma write_with_ok:
  assumes inv: "tls_inv e" and give: "give_ok T give"
  shows "run_ok T (conn e) (\<lambda>_ e'. tls_inv e') (write_with T give e)"
proof (cases "write_failure (en_session e) = None \<and> se_write (en_session e) \<noteq> Closing \<and> se_write (en_session e) \<noteq> WriteClosed")
  case True
  then have w: "\<not> write_failed e" by (auto simp: write_failed_def write_failure_def)
  have next_ok: "run_ok T (conn e) (\<lambda>_ e'. tls_inv e')
     (case give (en_session e1) of
        (Inl err, s) \<Rightarrow> (Finished (Inl err), e1\<lparr>en_session := s\<rparr>)
      | (Inr accepted, s) \<Rightarrow> try_await (drain_output T (e1\<lparr>en_session := s\<rparr>)) (\<lambda>_ e. (Finished (Inr accepted), e)))"
    if e1: "tls_inv e1 \<and> \<not> write_failed e1" and c1: "conn_steps T (conn e) (conn e1)" for e1
  proof -
    obtain x s where g: "give (en_session e1) = (x, s)" by (cases "give (en_session e1)")
    then obtain c where c: "conn_steps T (conn e1) c"
      "case x of Inr _ \<Rightarrow> s = (en_session e1)\<lparr>se_connection := c\<rparr> | Inl _ \<Rightarrow> \<exists>err. s = fail_both err ((en_session e1)\<lparr>se_connection := c\<rparr>)"
      using give unfolding give_ok_def by blast
    have c2: "conn_steps T (conn e) c" using c(1) c1 by (rule conn_trans)
    show ?thesis
    proof (cases x)
      case (Inl err)
      then obtain err' where s: "s = fail_both err' ((en_session e1)\<lparr>se_connection := c\<rparr>)" using c(2) by auto
      have "tls_inv (e1\<lparr>en_session := s\<rparr>)"
        by (rule inv_dies(1) [of e1]) (use e1 s fail_states(1-4) [where err = err' and s = "(en_session e1)\<lparr>se_connection := c\<rparr>"] in \<open>auto simp: tls_inv_def\<close>)
      then show ?thesis using g Inl s c2 by (simp add: fail_states)
    next
      case (Inr n)
      then have s: "s = (en_session e1)\<lparr>se_connection := c\<rparr>" using c(2) by simp
      have i: "tls_inv (e1\<lparr>en_session := s\<rparr>)" by (rule tls_inv_change [of e1]) (use e1 s in \<open>auto simp: tls_inv_def read_failed_def\<close>)
      have nw: "\<not> write_failed (e1\<lparr>en_session := s\<rparr>)" using e1 s by (simp add: write_failed_def)
      have "run_ok T (conn e) (\<lambda>_ e'. tls_inv e') (try_await (drain_output T (e1\<lparr>en_session := s\<rparr>)) (\<lambda>_ e. (Finished (Inr n), e)))"
        by (rule run_ok_try [OF run_ok_from [OF drain_ok [OF i nw]]]) (use c2 s in auto)
      then show ?thesis using g Inr by simp
    qed
  qed
  have "run_ok T (conn e) (\<lambda>_ e1. tls_inv e1 \<and> \<not> write_failed e1) (drain_output T e)"
    by (rule run_ok_mono [OF drain_ok [OF inv w]]) (use w in \<open>auto simp: same_states_def write_failed_def\<close>)
  from run_ok_try [OF this next_ok] show ?thesis using True by (simp add: write_with_def)
qed (use inv in \<open>auto simp: write_with_def conn_refl split: option.splits\<close>)

lemma await_control_ok:
  assumes inv: "tls_inv e" and io: "\<And>rs io. ti_wire (set_events rs io) = ti_wire io"
  shows "run_ok T (conn e) (\<lambda>_ e'. tls_inv e' \<and> wire e' = wire e \<and> en_emitted e' = en_emitted e \<and> en_session e' = en_session e) (await_control events set_events e)"
proof -
  obtain states s where b: "begin_transport_io (en_session e) = (states, s)" by (cases "begin_transport_io (en_session e)")
  note f = begin_finish [OF b] begin_states [OF b]
  have start: "en_input_start e \<le> length (en_input e)" using inv by (simp add: tls_inv_def)
  show ?thesis
  proof (cases "events (en_io e)")
    case Nil
    have "tls_inv (e\<lparr>en_session := s\<rparr>)" "dead (e\<lparr>en_session := s\<rparr>)" using inv_dies [OF inv, of "e\<lparr>en_session := s\<rparr>"] f start by auto
    then show ?thesis using Nil b f by (simp add: await_control_def conn_refl)
  next
    case (Cons r rs)
    let ?e = "e\<lparr>en_io := set_events rs (en_io e)\<rparr>"
    have i: "tls_inv ?e" by (rule tls_inv_change [OF inv]) (use io start in \<open>auto simp: read_failed_def\<close>)
    have d: "tls_inv (set_session (fail_both err) ?e)" for err
      by (rule inv_dies(1) [OF i]) (use start fail_states(1-4) [where err = err and s = "en_session e"] in auto)
    show ?thesis using Cons b f(1) i d io by (cases r) (auto simp: await_control_def Let_def conn_refl fail_states)
  qed
qed

definition flushed :: "'c rustls \<Rightarrow> 'c engine \<Rightarrow> 'c engine \<Rightarrow> bool" where
  "flushed T e e' \<longleftrightarrow> tls_inv e' \<and> (se_write (en_session e) \<noteq> WriteClosed \<longrightarrow> wire e' = en_emitted e' \<and> \<not> rl_wants_write T (conn e'))"

lemma flush_ok:
  assumes inv: "tls_inv e"
  shows "run_ok T (conn e) (\<lambda>_ e'. flushed T e e' \<and> same_states e e') (tls_flush T e)"
proof (cases "write_failure (en_session e) = None \<and> se_write (en_session e) \<noteq> WriteClosed")
  case True
  then have w: "\<not> write_failed e" by (auto simp: write_failed_def write_failure_def)
  have "run_ok T (conn e) (\<lambda>_ e'. flushed T e e' \<and> same_states e e')
      (try_await (drain_output T e) (\<lambda>_ e. await_control ti_flushes (\<lambda>rs io. io\<lparr>ti_flushes := rs\<rparr>) e))"
  proof (rule run_ok_try [OF drain_ok [OF inv w]])
    fix a e1
    assume e1: "tls_inv e1 \<and> same_states e e1 \<and> (se_write (en_session e) = WriteClosed \<or> \<not> wants_drain T e1)" and c1: "conn_steps T (conn e) (conn e1)"
    have "\<not> write_failed e1" using e1 w by (simp add: same_states_def write_failed_def)
    then have "wire e1 = en_emitted e1 \<and> \<not> rl_wants_write T (conn e1)"
      using e1 True by (auto simp: tls_inv_def wire_exact_def wants_drain_def)
    then show "run_ok T (conn e) (\<lambda>_ e'. flushed T e e' \<and> same_states e e') (await_control ti_flushes (\<lambda>rs io. io\<lparr>ti_flushes := rs\<rparr>) e1)"
      using run_ok_from [OF await_control_ok [of e1 "\<lambda>rs io. io\<lparr>ti_flushes := rs\<rparr>" T ti_flushes] c1] e1
      by (auto simp: flushed_def same_states_def elim!: run_ok_mono)
  qed
  then show ?thesis using True by (simp add: tls_flush_def)
qed (use inv in \<open>auto simp: tls_flush_def flushed_def same_states_def conn_refl split: option.splits\<close>)

lemma shutdown_ok:
  assumes inv: "tls_inv e"
  shows "run_ok T (conn e) (\<lambda>_ e'. flushed T e e' \<and> se_write (en_session e') = WriteClosed) (tls_shutdown T e)"
proof (cases "se_write (en_session e) = WriteClosed \<or> write_failure (en_session e) \<noteq> None")
  case True
  then show ?thesis using inv by (auto simp: tls_shutdown_def flushed_def conn_refl)
next
  case False
  let ?e = "if se_write (en_session e) = WriteOpen
    then set_session (\<lambda>s. s\<lparr>se_write := Closing, se_connection := rl_send_close_notify T (se_connection s)\<rparr>) e else e"
  have w: "\<not> write_failed e" and start: "en_input_start e \<le> length (en_input e)" using False inv by (auto simp: write_failed_def write_failure_def tls_inv_def)
  have i: "tls_inv ?e" using inv w by (auto simp: tls_inv_def wire_exact_def write_failed_def)
  have c: "conn_steps T (conn e) (conn ?e)" by (auto intro: conn_close conn_refl)
  have nc: "se_write (en_session ?e) \<noteq> WriteClosed" using False by auto
  have "run_ok T (conn e) (\<lambda>_ e'. flushed T e e' \<and> se_write (en_session e') = WriteClosed)
    (try_await (tls_flush T ?e) (\<lambda>_ e. try_await (await_control ti_shutdowns (\<lambda>rs io. io\<lparr>ti_shutdowns := rs\<rparr>) e) (\<lambda>_ e.
        (Finished (Inr ()), set_session (\<lambda>s. s\<lparr>se_write := WriteClosed\<rparr>) e))))"
  proof (rule run_ok_try [OF run_ok_from [OF flush_ok [OF i] c]])
    fix a e1
    assume e1: "flushed T ?e e1 \<and> same_states ?e e1" and c1: "conn_steps T (conn e) (conn e1)"
    have x: "wire e1 = en_emitted e1" "\<not> rl_wants_write T (conn e1)" "tls_inv e1" using e1 nc by (auto simp: flushed_def)
    have nw: "\<not> write_failed e1" using e1 w by (auto simp: same_states_def write_failed_def split: if_splits)
    show "run_ok T (conn e) (\<lambda>_ e'. flushed T e e' \<and> se_write (en_session e') = WriteClosed)
      (try_await (await_control ti_shutdowns (\<lambda>rs io. io\<lparr>ti_shutdowns := rs\<rparr>) e1) (\<lambda>_ e.
        (Finished (Inr ()), set_session (\<lambda>s. s\<lparr>se_write := WriteClosed\<rparr>) e)))"
    proof (rule run_ok_try [OF run_ok_from [OF await_control_ok [OF x(3)] c1]])
      fix b e2
      assume e2: "tls_inv e2 \<and> wire e2 = wire e1 \<and> en_emitted e2 = en_emitted e1 \<and> en_session e2 = en_session e1" and c2: "conn_steps T (conn e) (conn e2)"
      let ?f = "set_session (\<lambda>s. s\<lparr>se_write := WriteClosed\<rparr>) e2"
      have "tls_inv ?f" using e2 nw by (auto simp: tls_inv_def wire_exact_def write_failed_def)
      then show "run_ok T (conn e) (\<lambda>_ e'. flushed T e e' \<and> se_write (en_session e') = WriteClosed)
        (Finished (Inr ()), set_session (\<lambda>s. s\<lparr>se_write := WriteClosed\<rparr>) e2)" using e2 c2 x by (simp add: flushed_def)
    qed simp
  qed
  then show ?thesis using False by (simp add: tls_shutdown_def Let_def)
qed

subsection \<open>Reads\<close>

lemma read_then:
  assumes inv: "tls_inv e" and run: "try_await (wait_for_plaintext T False e) (copy_out T n) = (r, e')"
  obtains (copied) b e1 where "plain_result T b e1" "conn_steps T (conn e) (conn e1)" "copy_out T n b e1 = (r, e')"
  | (stopped) "conn_steps T (conn e) (conn e')" "tls_inv e'" "r \<noteq> Panicked" "r = Abandoned \<Longrightarrow> dead e'" "\<And>bs. r \<noteq> Finished (Inr bs)"
proof -
  obtain x e1 where x: "wait_for_plaintext T False e = (x, e1)" by (cases "wait_for_plaintext T False e")
  have ok: "run_ok T (conn e) (plain_result T) (x, e1)" using wait_ok [OF inv, of False T] x by simp
  show thesis
  proof (cases x)
    case (Finished y)
    then show ?thesis using ok run x copied stopped by (cases y) (auto simp: try_await_def)
  qed (use ok run x stopped in \<open>auto simp: try_await_def\<close>)
qed

lemma read_inv:
  assumes inv: "tls_inv e" and run: "tls_read T n e = (r, e')"
  shows "tls_inv e' \<and> r \<noteq> Panicked \<and> (r = Abandoned \<longrightarrow> dead e') \<and> (r = Finished (Inr []) \<longrightarrow> n \<noteq> 0 \<longrightarrow> se_read (en_session e') = PeerClosed)"
proof (cases "n = 0")
  case False
  then have run': "try_await (wait_for_plaintext T False e) (copy_out T n) = (r, e')" using run by (simp add: tls_read_def)
  show ?thesis
  proof (cases rule: read_then [OF inv run', case_names copied stopped])
    case (copied b e1)
    then show ?thesis using copy_out_ok [OF copied(1,3)] by blast
  qed (use False in auto)
qed (use inv run in \<open>auto simp: tls_read_def\<close>)

lemma read_vectored_bytes:
  assumes inv: "tls_inv e" and ns: "sum_list ns \<noteq> 0"
  shows "map_run concat (tls_read_vectored T ns e) = tls_read T (sum_list ns) e"
proof -
  obtain r e' where run: "tls_read T (sum_list ns) e = (r, e')" by (cases "tls_read T (sum_list ns) e")
  then have run': "try_await (wait_for_plaintext T False e) (copy_out T (sum_list ns)) = (r, e')" using ns by (simp add: tls_read_def del: sum_list_eq_0_iff)
  have len: "length bs \<le> sum_list ns" if "r = Finished (Inr bs)" for bs
  proof (cases rule: read_then [OF inv run', case_names copied stopped])
    case (copied b e1)
    then show ?thesis using copy_out_ok(4) [OF copied(1,3) that] by simp
  qed (use that in blast)
  show ?thesis
  proof (cases r)
    case (Finished x)
    show ?thesis
    proof (cases x)
      case (Inr bs)
      obtain st where st: "scatter bs ([], [], ns) = Some st" "concat (targets st) = bs"
        using scatter_total [of ns "[]" bs "[]"] len [of bs] Finished Inr ns by (cases ns) auto
      then show ?thesis using run run' ns Finished Inr by (simp add: tls_read_vectored_def try_await_def del: sum_list_eq_0_iff)
    qed (use run run' ns Finished in \<open>simp add: tls_read_vectored_def try_await_def del: sum_list_eq_0_iff\<close>)
  qed (use run run' ns in \<open>simp_all add: tls_read_vectored_def try_await_def del: sum_list_eq_0_iff\<close>)
qed

lemma quiet_run:
  assumes "run_ok T c (\<lambda>_ e'. tls_inv e') m" "map_run (\<lambda>_. []) m = (r, e')"
  shows "run_ok T c (\<lambda>_ e'. tls_inv e') (r, e')" "delivered r = []"
proof -
  show "run_ok T c (\<lambda>_ e'. tls_inv e') (r, e')" using run_ok_map [OF assms(1), where f = "\<lambda>_. [] :: u8 list"] assms(2) by simp
  obtain x e1 where m: "m = (x, e1)" by (cases m)
  show "delivered r = []"
  proof (cases x)
    case (Finished y)
    then show ?thesis using assms(2) m by (cases y) (auto simp: delivered_def)
  qed (use assms(2) m in \<open>auto simp: delivered_def\<close>)
qed

lemma call_cases:
  assumes inv: "tls_inv e" and run: "tls_call T call e = (r, e')"
  obtains (reading) n where "n \<noteq> 0" "tls_read T n e = (r, e')"
  | (other) "run_ok T (conn e) (\<lambda>_ e'. tls_inv e') (r, e')" "delivered r = []"
proof (cases call)
  case (CallRead n)
  then show ?thesis using run inv reading other by (cases "n = 0") (auto simp: tls_read_def conn_refl delivered_def)
next
  case (CallReadVectored ns)
  then show ?thesis
  proof (cases "sum_list ns = 0")
    case True
    then have "r = Finished (Inr (concat (map (\<lambda>_. []) ns)))" "e' = e" using run CallReadVectored by (auto simp: tls_read_vectored_def)
    moreover have "concat (map (\<lambda>_. []) ns) = ([] :: u8 list)" by (induction ns) auto
    ultimately show ?thesis using other inv by (simp add: conn_refl delivered_def)
  next
    case False
    then show ?thesis using run CallReadVectored read_vectored_bytes [OF inv False, of T] reading [OF False] by simp
  qed
next
  case (CallWrite bs)
  have "run_ok T (conn e) (\<lambda>_ e'. tls_inv e') (tls_write T bs e)"
    using write_with_ok [OF inv write_plaintext_ok] inv by (simp add: tls_write_def conn_refl)
  from quiet_run [OF this] show ?thesis using run CallWrite other by simp
next
  case (CallWriteVectored bss)
  have "run_ok T (conn e) (\<lambda>_ e'. tls_inv e') (tls_write_vectored T bss e)"
    using write_with_ok [OF inv write_vectored_plaintext_ok] inv by (simp add: tls_write_vectored_def conn_refl)
  from quiet_run [OF this] show ?thesis using run CallWriteVectored other by simp
next
  case CallFlush
  have "run_ok T (conn e) (\<lambda>_ e'. tls_inv e') (tls_flush T e)" by (rule run_ok_mono [OF flush_ok [OF inv]]) (simp add: flushed_def)
  from quiet_run [OF this] show ?thesis using run CallFlush other by simp
next
  case CallShutdown
  have "run_ok T (conn e) (\<lambda>_ e'. tls_inv e') (tls_shutdown T e)" by (rule run_ok_mono [OF shutdown_ok [OF inv]]) (simp add: flushed_def)
  from quiet_run [OF this] show ?thesis using run CallShutdown other by simp
qed

lemma call_inv:
  assumes inv: "tls_inv e" and run: "tls_call T call e = (r, e')"
  shows "tls_inv e' \<and> r \<noteq> Panicked \<and> (r = Abandoned \<longrightarrow> dead e')"
proof (cases rule: call_cases [OF inv run, case_names reading other])
  case (reading n)
  then show ?thesis using read_inv [OF inv] by blast
next
  case other
  then show ?thesis by (auto simp: run_ok_def split: awaited.splits sum.splits)
qed

lemma tls_reach_inv:
  assumes "tls_reach T c e got"
  shows "tls_inv e"
  using assms
proof (induction rule: tls_reach.induct)
  case (tls_start io e)
  have "usable (engine_new io c)" using tls_start
    by (simp add: engine_new_def session_new_def tls_inv_def wire_exact_def read_failed_def write_failed_def)
  then show ?case using handshake_ok [of "engine_new io c" T] tls_start by simp
next
  case (tls_next e got call r e')
  then show ?case using call_inv by blast
qed

section \<open>Properties\<close>

text \<open>
  C20. A TLS stream sends what Rustls produces, in order and once.  Whatever a program calls on the stream after its handshake, whatever the
  transport returns - short, zero, failed, over-reported reads and writes - and wherever calls are dropped while they wait: no call panics; the bytes that reached
  the transport are a prefix of the ciphertext that Rustls produced, and until the write direction has failed, what is missing is exactly the
  unsent part of the output buffer; and when a flush or a shutdown succeeds on a stream that was not closed, nothing is missing and Rustls has nothing more to
  send.
\<close>

theorem tls_wire_in_order:
  assumes "tls_reach T c e got"
  shows "fst (tls_call T call e) \<noteq> Panicked \<and>
    (\<exists>rest. ti_wire (en_io e) @ rest = en_emitted e \<and> (\<not> write_failed e \<longrightarrow> rest = drop (en_output_start e) (en_output e))) \<and>
    (se_write (en_session e) \<noteq> WriteClosed \<and> (tls_flush T e = (Finished (Inr ()), e') \<or> tls_shutdown T e = (Finished (Inr ()), e')) \<longrightarrow>
      ti_wire (en_io e') = en_emitted e' \<and> \<not> rl_wants_write T (se_connection (en_session e')))"
proof -
  note inv = tls_reach_inv [OF assms]
  have "fst (tls_call T call e) \<noteq> Panicked" using call_inv [OF inv, of T call "fst (tls_call T call e)" "snd (tls_call T call e)"] by simp
  moreover have "\<exists>rest. wire e @ rest = en_emitted e \<and> (\<not> write_failed e \<longrightarrow> rest = drop (en_output_start e) (en_output e))"
    using inv by (auto simp: tls_inv_def wire_exact_def wire_prefix_def split: if_splits)
  moreover have "wire e' = en_emitted e' \<and> \<not> rl_wants_write T (conn e')"
    if "se_write (en_session e) \<noteq> WriteClosed" "tls_flush T e = (Finished (Inr ()), e') \<or> tls_shutdown T e = (Finished (Inr ()), e')"
    using flush_ok [OF inv, of T] shutdown_ok [OF inv, of T] that by (auto simp: flushed_def)
  ultimately show ?thesis by blast
qed

lemma snd_map_run: "snd (map_run g m) = snd m"
  by (cases m; cases "fst m"; cases "case fst m of Finished x \<Rightarrow> x") (auto simp: map_run_def try_await_def split: awaited.splits sum.splits)

lemma dead_call:
  assumes d: "dead e" and inv: "tls_inv e"
  shows "snd (tls_call T call e) = e" "0 < n \<Longrightarrow> \<exists>err. tls_call T (CallRead n) e = (Finished (Inl err), e)"
    "bs \<noteq> [] \<Longrightarrow> \<exists>err. tls_call T (CallWrite bs) e = (Finished (Inl err), e)"
proof -
  obtain f where f: "se_read (en_session e) = ReadFailed f" using d by (auto simp: dead_def read_failed_def)
  have p: "plaintext_state T (en_session e) = (Inl (failure_error f), en_session e)" using f by (simp add: plaintext_state_def read_failure_def)
  have w: "wait_for_plaintext T False e = (Finished (Inl (failure_error f)), e)"
    by (subst wait_for_plaintext.simps) (simp add: try_await_def p)
  have wf: "write_failure (en_session e) \<noteq> None \<or> se_write (en_session e) = WriteClosed"
    using d by (auto simp: dead_def write_failed_def write_failure_def)
  have "snd (write_with T give e) = e" for give using wf by (auto simp: write_with_def split: option.splits)
  moreover have "snd (tls_flush T e) = e" "snd (tls_shutdown T e) = e" using wf by (auto simp: tls_flush_def tls_shutdown_def split: option.splits)
  ultimately show "snd (tls_call T call e) = e"
    by (cases call) (auto simp: snd_map_run tls_read_def tls_read_vectored_def tls_write_def tls_write_vectored_def w try_await_def)
  show "0 < n \<Longrightarrow> \<exists>err. tls_call T (CallRead n) e = (Finished (Inl err), e)" by (simp add: tls_read_def w try_await_def)
  have "\<exists>err. write_with T give e = (Finished (Inl err), e)" for give using wf by (auto simp: write_with_def split: option.splits)
  then show "bs \<noteq> [] \<Longrightarrow> \<exists>err. tls_call T (CallWrite bs) e = (Finished (Inl err), e)"
    by (metis map_run_simps(2) tls_call.simps(3) tls_write_def)
qed

text \<open>
  A call that is dropped while it waits for the transport leaves a dead TLS stream, and a dead stream stays dead: every later call, whatever it is, returns
  without touching the transport, the buffers or the connection, and reads and writes of at least one byte return an error.  No ciphertext of an
  interrupted record can be followed by more.
\<close>

theorem tls_abandoned_is_final:
  assumes "tls_reach T c e got" "tls_call T call e = (r, e')"
  shows "(r = Abandoned \<longrightarrow> dead e') \<and>
    (dead e' \<longrightarrow> snd (tls_call T later e') = e' \<and>
      (0 < n \<longrightarrow> (\<exists>err. tls_call T (CallRead n) e' = (Finished (Inl err), e'))) \<and>
      (bs \<noteq> [] \<longrightarrow> (\<exists>err. tls_call T (CallWrite bs) e' = (Finished (Inl err), e'))))"
  using call_inv [OF tls_reach_inv [OF assms(1)] assms(2)] dead_call [of e'] by blast

subsection \<open>Plaintext\<close>

text \<open>
  What Rustls documents of its reader, over the plaintext \<open>decrypted\<close> that it has decrypted so far and the number \<open>taken\<close> of its bytes that
  were consumed: no other call consumes plaintext or changes what was decrypted before, the first chunk is where
  consumption stands, and consuming part of it moves on by that part.
\<close>

definition plaintext_laws :: "'c rustls \<Rightarrow> ('c \<Rightarrow> u8 list) \<Rightarrow> ('c \<Rightarrow> nat) \<Rightarrow> bool" where
  "plaintext_laws T decrypted taken \<longleftrightarrow>
     (\<forall>c d. conn_steps T c d \<longrightarrow> taken d = taken c \<and> (\<exists>more. decrypted d = decrypted c @ more)) \<and>
     (\<forall>c ch n. rl_first_chunk T c = Chunk ch \<longrightarrow> n \<le> length ch \<longrightarrow>
        (\<exists>rest. drop (taken c) (decrypted c) = ch @ rest) \<and> taken (rl_consume T n c) = taken c + n \<and> decrypted (rl_consume T n c) = decrypted c)"

definition in_order :: "('c \<Rightarrow> u8 list) \<Rightarrow> ('c \<Rightarrow> nat) \<Rightarrow> u8 list \<Rightarrow> 'c \<Rightarrow> bool" where
  "in_order decrypted taken got c \<longleftrightarrow> taken c = length got \<and> (\<exists>rest. decrypted c = got @ rest)"

lemma in_order_steps:
  assumes "plaintext_laws T decrypted taken" "conn_steps T c d" "in_order decrypted taken got c"
  shows "in_order decrypted taken got d"
  using assms unfolding plaintext_laws_def in_order_def by (metis append.assoc)

lemma in_order_copy: "plaintext_laws T decrypted taken \<Longrightarrow> copy_steps T (\<lambda>copied c. in_order decrypted taken (got @ copied) c)"
  unfolding copy_steps_def
proof (intro allI impI)
  fix copied c ch n
  assume l: "plaintext_laws T decrypted taken" and o: "in_order decrypted taken (got @ copied) c" and ch: "rl_first_chunk T c = Chunk ch" and n: "n \<le> length ch"
  obtain rest where r: "decrypted c = (got @ copied) @ rest" "taken c = length (got @ copied)" using o by (auto simp: in_order_def)
  have k: "taken (rl_consume T n c) = taken c + n" "decrypted (rl_consume T n c) = decrypted c" "\<exists>x. drop (taken c) (decrypted c) = ch @ x"
    using l ch n unfolding plaintext_laws_def by blast+
  then obtain x where "rest = ch @ x" using r by auto
  then have "decrypted (rl_consume T n c) = (got @ copied @ take n ch) @ drop n ch @ x" using k(2) r(1) by simp
  then show "in_order decrypted taken (got @ copied @ take n ch) (rl_consume T n c)"
    using k(1) r(2) n by (auto simp: in_order_def)
qed

lemma call_in_order:
  assumes inv: "tls_inv e" and laws: "plaintext_laws T decrypted taken" and run: "tls_call T call e = (r, e')" and o: "in_order decrypted taken got (conn e)"
  shows "in_order decrypted taken (got @ delivered r) (conn e')"
proof (cases rule: call_cases [OF inv run, case_names reading other])
  case (reading n)
  then have run': "try_await (wait_for_plaintext T False e) (copy_out T n) = (r, e')" by (simp add: tls_read_def)
  show ?thesis
  proof (cases rule: read_then [OF inv run', case_names copied stopped])
    case (copied b e1)
    have o1: "in_order decrypted taken (got @ []) (conn e1)" using in_order_steps [OF laws copied(2) o] by simp
    obtain x s' where c: "copy_plaintext T n [] (en_session e1) = (x, s')" by (cases "copy_plaintext T n [] (en_session e1)")
    show ?thesis using copied(3) c o1 copy_spec [OF c _ in_order_copy [OF laws] o1]
      by (auto simp: copy_out_def delivered_def split: if_splits sum.splits)
  next
    case stopped
    then have "delivered r = []" by (auto simp: delivered_def split: awaited.splits sum.splits)
    then show ?thesis using in_order_steps [OF laws stopped(1) o] by simp
  qed
next
  case other
  then show ?thesis using in_order_steps [OF laws _ o] by (auto simp: run_ok_def)
qed

lemma tls_reach_in_order:
  assumes "tls_reach T c e got" "plaintext_laws T decrypted taken" "taken c = 0"
  shows "in_order decrypted taken got (conn e)"
  using assms(1)
proof (induction rule: tls_reach.induct)
  case (tls_start io e)
  have u: "usable (engine_new io c)" using tls_start
    by (simp add: engine_new_def session_new_def tls_inv_def wire_exact_def read_failed_def write_failed_def)
  have "conn_steps T c (conn e)" using handshake_ok [OF u, of T] tls_start by (simp add: engine_new_def session_new_def)
  then show ?case by (rule in_order_steps [OF assms(2)]) (simp add: in_order_def assms(3))
next
  case (tls_next e got call r e')
  then show ?case using call_in_order [OF tls_reach_inv assms(2)] by blast
qed


subsection \<open>A concrete connection\<close>

text \<open>A connection without encryption: the bytes queued for the peer, the bytes decrypted and how many were consumed.\<close>

definition plain_rustls :: "(u8 list \<times> u8 list \<times> nat) rustls" where
  "plain_rustls =
     \<lparr>rl_wants_write = (\<lambda>(q, d, t). q \<noteq> []), rl_is_handshaking = (\<lambda>_. False), rl_slices = (\<lambda>(q, d, t). [q]),
      rl_wrote = (\<lambda>n (q, d, t). (Inr n, drop n q, d, t)), rl_read_tls = (\<lambda>bs (q, d, t). (Inr (length bs), q, d @ bs, t)),
      rl_process_new_packets = (\<lambda>c. (True, c)),
      rl_first_chunk = (\<lambda>(q, d, t). if drop t d = [] then NoChunk WouldBlock else Chunk (drop t d)),
      rl_consume = (\<lambda>n (q, d, t). (q, d, t + n)), rl_write = (\<lambda>bs (q, d, t). (Inr (length bs), q @ bs, d, t)),
      rl_send_close_notify = (\<lambda>(q, d, t). (q @ [21], d, t))\<rparr>"

lemma plain_rustls_laws: "plaintext_laws plain_rustls (\<lambda>(q, d, t). d) (\<lambda>(q, d, t). t)"
proof -
  have "snd (snd d) = snd (snd c) \<and> (\<exists>more. fst (snd d) = fst (snd c) @ more)" if "conn_steps plain_rustls c d" for c d
    using that by (induction rule: conn_steps.induct) (auto simp: plain_rustls_def split: prod.splits)
  then show ?thesis by (auto simp: plaintext_laws_def plain_rustls_def split: prod.splits if_splits)
qed

definition demo_io :: tls_io where
  "demo_io = \<lparr>ti_reads = [DidRead 3 [1, 2, 3]], ti_writes = [DidWrite 1, DidWrite 1], ti_flushes = [Inr ()], ti_shutdowns = [], ti_wire = []\<rparr>"

definition demo_engine :: "(u8 list \<times> u8 list \<times> nat) engine" where
  "demo_engine = engine_new demo_io ([], [], 0)"

lemma demo_handshake: "handshake plain_rustls demo_engine = (Finished (Inr ()), demo_engine)"
  by code_simp

lemma demo_reach: "tls_reach plain_rustls ([], [], 0) demo_engine []"
  by (rule tls_start [of demo_io]) (use demo_handshake in \<open>simp_all add: demo_engine_def demo_io_def\<close>)

lemma demo_read:
  "tls_call plain_rustls (CallRead 2) demo_engine =
     (Finished (Inr [1, 2]), demo_engine\<lparr>en_io := demo_io\<lparr>ti_reads := []\<rparr>, en_session := session_new ([], [1, 2, 3], 2), en_input := [1, 2, 3], en_input_start := 3\<rparr>)"
  by code_simp

lemma demo_write:
  "tls_call plain_rustls (CallWrite [7, 8]) demo_engine =
     (Finished (Inr []), demo_engine\<lparr>en_io := demo_io\<lparr>ti_writes := [], ti_wire := [7, 8]\<rparr>, en_emitted := [7, 8]\<rparr>)"
  by code_simp

theorem tls_wire_in_order_witness:
  "\<exists>e e'. tls_reach plain_rustls ([], [], 0) e [] \<and> tls_flush plain_rustls e = (Finished (Inr ()), e') \<and> en_emitted e' = [7, 8] \<and> ti_wire (en_io e') = [7, 8]"
proof -
  let ?e = "demo_engine\<lparr>en_io := demo_io\<lparr>ti_writes := [], ti_wire := [7, 8]\<rparr>, en_emitted := [7, 8]\<rparr>"
  let ?f = "?e\<lparr>en_io := demo_io\<lparr>ti_writes := [], ti_wire := [7, 8], ti_flushes := []\<rparr>\<rparr>"
  have r: "tls_reach plain_rustls ([], [], 0) ?e []" using tls_next [OF demo_reach demo_write] by (simp add: delivered_def)
  have f: "tls_flush plain_rustls ?e = (Finished (Inr ()), ?f)" by code_simp
  have o: "se_write (en_session ?e) \<noteq> WriteClosed" by (simp add: demo_engine_def engine_new_def session_new_def)
  show ?thesis using tls_wire_in_order [OF r, of CallFlush ?f] r f o by auto
qed

theorem tls_abandoned_is_final_witness:
  "\<exists>e. tls_call plain_rustls CallShutdown demo_engine = (Abandoned, e) \<and> dead e \<and> snd (tls_call plain_rustls CallFlush e) = e"
proof -
  let ?e = "demo_engine\<lparr>en_io := demo_io\<lparr>ti_writes := [DidWrite 1], ti_flushes := [], ti_wire := [21]\<rparr>,
    en_session := \<lparr>se_connection = ([], [], 0), se_read = ReadFailed abandoned_io, se_write = WriteFailed abandoned_io\<rparr>, en_emitted := [21]\<rparr>"
  have c: "tls_call plain_rustls CallShutdown demo_engine = (Abandoned, ?e)" by code_simp
  show ?thesis using tls_abandoned_is_final [OF demo_reach c, of CallFlush 1 "[]"] c by blast
qed


end
