(* ===== verification/Tls_Split.thy ===== *)
theory Tls_Split
  imports Tls_Safety
begin

text \<open>
  The two halves of a split TLS stream (\<^verbatim>\<open>karmaio/src/tls/split.rs\<close>), which share one session and are used by different tasks of the thread.

  Code between two awaits runs without interruption, so each half is a machine that stops only where it awaits its transport; whatever the
  other half does meanwhile happens to the shared session.  \<open>'c engine\<close> is the state of both halves together:
  the session, the input of the read half and the output of the write half.  What a transport operation returns comes with the step that resumes
  the half; a step may also drop the waiting call, which runs its \<^verbatim>\<open>AbandonGuard\<close>.
\<close>

section \<open>Splitting and reuniting\<close>

record 'r read_half =
  rh_io :: 'r
  rh_session :: nat
  rh_input :: "u8 list"
  rh_input_start :: nat
  rh_eof :: bool

record 'w write_half =
  wh_io :: 'w
  wh_session :: nat
  wh_output :: "u8 list"
  wh_output_start :: nat

text \<open>An engine over a transport of any type; \<open>store\<close> holds the shared sessions, each with the number of its owners.\<close>

record ('i, 's) whole =
  wo_io :: 'i
  wo_session :: 's
  wo_input :: "u8 list"
  wo_input_start :: nat
  wo_output :: "u8 list"
  wo_output_start :: nat
  wo_eof :: bool

datatype ('r, 'w) reunite_error = Mismatched 'r 'w | NotQuiescent 'r 'w

definition tls_split ::
  "('i \<Rightarrow> 'r \<times> 'w) \<Rightarrow> nat \<Rightarrow> ('i, 's) whole \<Rightarrow> (nat \<rightharpoonup> 's \<times> nat) \<Rightarrow> ('r read_half \<times> 'w write_half) \<times> (nat \<rightharpoonup> 's \<times> nat)" where
  "tls_split into_split fresh e store =
     (case into_split (wo_io e) of
        (r, w) \<Rightarrow>
          ((\<lparr>rh_io = r, rh_session = fresh, rh_input = wo_input e, rh_input_start = wo_input_start e, rh_eof = wo_eof e\<rparr>,
            \<lparr>wh_io = w, wh_session = fresh, wh_output = wo_output e, wh_output_start = wo_output_start e\<rparr>),
           store(fresh \<mapsto> (wo_session e, 2))))"

definition is_pair_of :: "'r read_half \<Rightarrow> 'w write_half \<Rightarrow> bool" where
  "is_pair_of r w \<longleftrightarrow> rh_session r = wh_session w"

text \<open>\<open>None\<close> is the \<^verbatim>\<open>unreachable!\<close> after the owners were counted.\<close>

definition tls_reunite ::
  "('r \<Rightarrow> 'w \<Rightarrow> ('r, 'w) reunite_error + 'i) \<Rightarrow> 'r read_half \<Rightarrow> 'w write_half \<Rightarrow> (nat \<rightharpoonup> 's \<times> nat) \<Rightarrow>
     ((('r read_half, 'w write_half) reunite_error + ('i, 's) whole) \<times> (nat \<rightharpoonup> 's \<times> nat)) option" where
  "tls_reunite rejoin r w store =
     (if \<not> is_pair_of r w then Some (Inl (Mismatched r w), store)
      else
        (case store (rh_session r) of
           None \<Rightarrow> None
         | Some (s, owners) \<Rightarrow>
             if owners \<noteq> 2 then Some (Inl (NotQuiescent r w), store)
             else
               (case rejoin (rh_io r) (wh_io w) of
                  Inr io \<Rightarrow>
                    Some (Inr \<lparr>wo_io = io, wo_session = s, wo_input = rh_input r, wo_input_start = rh_input_start r,
                               wo_output = wh_output w, wo_output_start = wh_output_start w, wo_eof = rh_eof r\<rparr>,
                          store(rh_session r := None))
                | Inl (Mismatched ri wi) \<Rightarrow> Some (Inl (Mismatched (r\<lparr>rh_io := ri\<rparr>) (w\<lparr>wh_io := wi\<rparr>)), store)
                | Inl (NotQuiescent ri wi) \<Rightarrow> Some (Inl (NotQuiescent (r\<lparr>rh_io := ri\<rparr>) (w\<lparr>wh_io := wi\<rparr>)), store))))"

section \<open>The read half\<close>

datatype read_turn = ReadAwaits | ReadReturns "u8 list io_result" | ReadPanics

text \<open>\<^verbatim>\<open>receive_tls\<close> after its await; \<open>None\<close> is the panic of the slice.\<close>

definition split_feed :: "'c rustls \<Rightarrow> 'c engine \<Rightarrow> (unit io_result \<times> 'c engine) option" where
  "split_feed T e =
     (if en_input_start e > length (en_input e) then None
      else
      let available = drop (en_input_start e) (en_input e) in
      case rl_read_tls T available (se_connection (en_session e)) of
        (r, c) \<Rightarrow>
          (let e = set_session (\<lambda>s. s\<lparr>se_connection := c\<rparr>) e in
           case r of
             Inl err \<Rightarrow> Some (Inl err, set_session (fail_both err) e)
           | Inr consumed \<Rightarrow>
               if consumed > length available then Some (Inl OtherError, set_session (fail_both OtherError) e)
               else
                 (let e = e\<lparr>en_input_start := (if consumed = 0 \<and> available \<noteq> [] then length (en_input e) else en_input_start e + consumed)\<rparr> in
                  case rl_process_new_packets T c of
                    (ok, c) \<Rightarrow>
                      (let e = set_session (\<lambda>s. s\<lparr>se_connection := c\<rparr>) e in
                       if \<not> ok then Some (Inl InvalidData, set_session (fail_protocol InvalidData) e)
                       else
                         (case rl_write T [] c of
                            (r, c) \<Rightarrow>
                              (let e = set_session (\<lambda>s. s\<lparr>se_connection := c\<rparr>) e in
                               case r of
                                 Inl err \<Rightarrow> Some (Inl err, set_session (fail_both err) e)
                               | Inr _ \<Rightarrow> Some (Inr (), e)))))))"

lemma split_feed_decreases:
  "split_feed T e = Some (Inr (), e') \<Longrightarrow> en_input_start e \<noteq> length (en_input e) \<Longrightarrow> input_left e' < input_left e"
  by (auto simp: split_feed_def set_session_def input_left_def Let_def split: if_splits prod.splits sum.splits)

text \<open>\<^verbatim>\<open>read\<close> from the start of the loop of \<^verbatim>\<open>wait_for_plaintext\<close> until it returns or awaits the transport.\<close>

function split_read_loop :: "'c rustls \<Rightarrow> nat \<Rightarrow> 'c engine \<Rightarrow> read_turn \<times> 'c engine" where
  "split_read_loop T capacity e =
     (case plaintext_state T (en_session e) of
        (Inl err, s) \<Rightarrow> (ReadReturns (Inl err), e\<lparr>en_session := s\<rparr>)
      | (Inr PlainAvailable, s) \<Rightarrow>
          (case copy_plaintext T capacity [] s of (r, s) \<Rightarrow> (ReadReturns r, e\<lparr>en_session := s\<rparr>))
      | (Inr PlainPeerClosed, s) \<Rightarrow> (ReadReturns (Inr []), e\<lparr>en_session := s\<rparr>)
      | (Inr PlainPending, s) \<Rightarrow>
          (let e1 = e\<lparr>en_session := s\<rparr> in
           if en_eof e1 then (ReadReturns (Inl UnexpectedEof), set_session (fail_read UnexpectedEof) e1)
           else if en_input_start e1 = length (en_input e1) then (ReadAwaits, e1\<lparr>en_input := [], en_input_start := 0\<rparr>)
           else
             (case split_feed T e1 of
                None \<Rightarrow> (ReadPanics, e1)
              | Some (Inl err, e2) \<Rightarrow> (ReadReturns (Inl err), e2)
              | Some (Inr _, e2) \<Rightarrow> split_read_loop T capacity e2)))"
  by pat_completeness auto
termination
proof (relation "measure (\<lambda>(T, capacity, e). input_left e)")
  fix T :: "'c rustls" and capacity and e :: "'c engine" and x y s e1 z w u e2
  assume "e1 = e\<lparr>en_session := s\<rparr>" "en_input_start e1 \<noteq> length (en_input e1)" "split_feed T e1 = Some z" "(w, e2) = z" "w = Inr u"
  then have "input_left e2 < input_left e1" using split_feed_decreases [of T e1 e2] by simp
  then show "((T, capacity, e2), T, capacity, e) \<in> measure (\<lambda>(T, capacity, e). input_left e)"
    using \<open>e1 = e\<lparr>en_session := s\<rparr>\<close> by (simp add: input_left_def)
qed simp

declare split_read_loop.simps [simp del]

definition split_read :: "'c rustls \<Rightarrow> nat \<Rightarrow> 'c engine \<Rightarrow> read_turn \<times> 'c engine" where
  "split_read T capacity e = (if capacity = 0 then (ReadReturns (Inr []), e) else split_read_loop T capacity e)"

text \<open>The await of \<^verbatim>\<open>receive_tls\<close> is over.\<close>

definition split_read_resume :: "'c rustls \<Rightarrow> nat \<Rightarrow> read_outcome \<Rightarrow> 'c engine \<Rightarrow> read_turn \<times> 'c engine" where
  "split_read_resume T capacity ev e =
     (case ev of
        ReadError err \<Rightarrow>
          (ReadReturns (Inl err), set_session (if is_operation_canceled err then fail_both err else fail_read err) e)
      | DidRead n bytes \<Rightarrow>
          (let e = e\<lparr>en_input := bytes\<rparr> in
           if n \<noteq> length bytes then (ReadReturns (Inl InvalidData), set_session (fail_read InvalidData) e)
           else
             (case split_feed T (if n = 0 then e\<lparr>en_eof := True\<rparr> else e) of
                None \<Rightarrow> (ReadPanics, e)
              | Some (Inl err, e) \<Rightarrow> (ReadReturns (Inl err), e)
              | Some (Inr _, e) \<Rightarrow> split_read_loop T capacity e)))"

definition split_read_drop :: "'c engine \<Rightarrow> 'c engine" where
  "split_read_drop e = (set_session abandon e)\<lparr>en_input := []\<rparr>"

text \<open>
  \<^verbatim>\<open>read_vectored\<close> waits and takes plaintext as a read of the total capacity does; its closure spreads the bytes over the buffers.  \<open>None\<close> is the
  panic when the capacities run out.
\<close>

definition split_scatter :: "nat list \<Rightarrow> u8 list \<Rightarrow> u8 list list option" where
  "split_scatter caps bytes =
     (if sum_list caps = 0 then Some (map (\<lambda>_. []) caps) else map_option targets (scatter bytes ([], [], caps)))"

section \<open>The write half\<close>

text \<open>Where the write half may wait, with what it does next.\<close>

datatype flush_next = FlushOnly | FlushThenShutdown

datatype drain_next = DrainThenWrite bool "u8 list list" | DrainThenAccepted nat | DrainThenFlush flush_next | DrainThenClose

datatype write_pc = WriteIdle | AwaitsWrite drain_next | AwaitsFlush flush_next | AwaitsShutdown

datatype write_turn = WriteAwaits write_pc | WriteReturns "nat io_result" | WritePanics

datatype raw_turn = RawAwaits | RawDone "unit io_result" | RawPanics

definition is_write_failed :: "'c session \<Rightarrow> bool" where
  "is_write_failed s = (case se_write s of WriteFailed _ \<Rightarrow> True | _ \<Rightarrow> False)"

lemma fill_output_enough:
  "fill_output T e = (Inr u, e') \<Longrightarrow> en_output_start e = length (en_output e) \<Longrightarrow> en_output_start e' = length (en_output e') \<Longrightarrow>
     \<not> rl_wants_write T (se_connection (en_session e'))"
  by (auto simp: fill_output_def Let_def split: if_splits prod.splits sum.splits)

text \<open>\<^verbatim>\<open>drain_output_raw\<close> until it ends or awaits a write; its \<^verbatim>\<open>continue\<close> is never taken.\<close>

function split_drain_raw :: "'c rustls \<Rightarrow> 'c engine \<Rightarrow> raw_turn \<times> 'c engine" where
  "split_drain_raw T e =
     (if en_output_start e = length (en_output e) \<and> is_write_failed (en_session e) then (RawDone (Inr ()), e)
      else if en_output_start e = length (en_output e) then
        (case fill_output T e of
           (Inl err, e1) \<Rightarrow> (RawDone (Inl err), e1)
         | (Inr _, e1) \<Rightarrow>
             if en_output_start e1 = length (en_output e1)
             then (if \<not> rl_wants_write T (se_connection (en_session e1)) then (RawDone (Inr ()), e1) else split_drain_raw T e1)
             else (RawAwaits, e1))
      else if en_output_start e > length (en_output e) then (RawPanics, e)
      else (RawAwaits, e))"
  by pat_completeness auto
termination by (relation "{}") (auto dest: fill_output_enough [OF sym])

declare split_drain_raw.simps [simp del]

text \<open>A write of the pending output is over.\<close>

definition split_wrote :: "'c rustls \<Rightarrow> write_outcome \<Rightarrow> 'c engine \<Rightarrow> raw_turn \<times> 'c engine" where
  "split_wrote T ev e =
     (let start = en_output_start e; end = length (en_output e); data = drop start (en_output e);
          e = e\<lparr>en_io := (en_io e)\<lparr>ti_wire := ti_wire (en_io e) @ (case ev of DidWrite n \<Rightarrow> take n data | _ \<Rightarrow> [])\<rparr>\<rparr>
      in case ev of
           WriteError err \<Rightarrow> (RawDone (Inl err), e)
         | DidWrite n \<Rightarrow>
             if n = 0 then (RawDone (Inl WriteZero), e)
             else if n \<le> end - start then
               split_drain_raw T (if start + n = end then e\<lparr>en_output := [], en_output_start := 0\<rparr> else e\<lparr>en_output_start := start + n\<rparr>)
             else (RawDone (Inl OtherError), e))"

text \<open>The rest of \<^verbatim>\<open>drain_output\<close> once its loop has stopped; \<open>k\<close> is what its caller does after a success.\<close>

definition drain_end :: "('c engine \<Rightarrow> write_turn \<times> 'c engine) \<Rightarrow> unit io_result \<Rightarrow> 'c engine \<Rightarrow> write_turn \<times> 'c engine" where
  "drain_end k r e =
     (case se_write (en_session e) of
        AlertPending f \<Rightarrow> (WriteReturns (Inl (failure_error f)), set_session (\<lambda>s. s\<lparr>se_write := WriteFailed f\<rparr>) e)
      | WriteFailed f \<Rightarrow> (WriteReturns (Inl (failure_error f)), e)
      | _ \<Rightarrow> (case r of Inr _ \<Rightarrow> k e | Inl err \<Rightarrow> (WriteReturns (Inl err), set_session (fail_both err) e)))"

definition drain_turn :: "drain_next \<Rightarrow> ('c engine \<Rightarrow> write_turn \<times> 'c engine) \<Rightarrow> raw_turn \<times> 'c engine \<Rightarrow> write_turn \<times> 'c engine" where
  "drain_turn next k x =
     (case x of
        (RawAwaits, e) \<Rightarrow> (WriteAwaits (AwaitsWrite next), e)
      | (RawDone r, e) \<Rightarrow> drain_end k r e
      | (RawPanics, e) \<Rightarrow> (WritePanics, e))"

definition split_drain :: "'c rustls \<Rightarrow> drain_next \<Rightarrow> ('c engine \<Rightarrow> write_turn \<times> 'c engine) \<Rightarrow> 'c engine \<Rightarrow> write_turn \<times> 'c engine" where
  "split_drain T next k e =
     (case se_write (en_session e) of
        WriteFailed f \<Rightarrow> (WriteReturns (Inl (failure_error f)), e)
      | _ \<Rightarrow> drain_turn next k (split_drain_raw T e))"

definition check_writable :: "'c session \<Rightarrow> io_error option" where
  "check_writable s =
     (case write_failure s of
        Some err \<Rightarrow> Some err
      | None \<Rightarrow> if se_write s = Closing \<or> se_write s = WriteClosed then Some BrokenPipe else None)"

definition flush_end :: "flush_next \<Rightarrow> 'c engine \<Rightarrow> write_turn \<times> 'c engine" where
  "flush_end next e = (case next of FlushOnly \<Rightarrow> (WriteReturns (Inr 0), e) | FlushThenShutdown \<Rightarrow> (WriteAwaits AwaitsShutdown, e))"

definition split_flush :: "'c rustls \<Rightarrow> flush_next \<Rightarrow> 'c engine \<Rightarrow> write_turn \<times> 'c engine" where
  "split_flush T next e =
     (if se_write (en_session e) = WriteClosed then flush_end next e
      else split_drain T (DrainThenFlush next) (\<lambda>e. (WriteAwaits (AwaitsFlush next), e)) e)"

definition after_drain :: "'c rustls \<Rightarrow> drain_next \<Rightarrow> 'c engine \<Rightarrow> write_turn \<times> 'c engine" where
  "after_drain T next e =
     (case next of
        DrainThenAccepted n \<Rightarrow> (WriteReturns (Inr n), e)
      | DrainThenFlush fl \<Rightarrow> (WriteAwaits (AwaitsFlush fl), e)
      | DrainThenWrite vectored bufs \<Rightarrow>
          (case check_writable (en_session e) of
             Some err \<Rightarrow> (WriteReturns (Inl err), e)
           | None \<Rightarrow>
               (case (if vectored then write_vectored_plaintext T bufs else write_plaintext T (concat bufs)) (en_session e) of
                  (Inl err, s) \<Rightarrow> (WriteReturns (Inl err), e\<lparr>en_session := s\<rparr>)
                | (Inr n, s) \<Rightarrow> split_drain T (DrainThenAccepted n) (\<lambda>e. (WriteReturns (Inr n), e)) (e\<lparr>en_session := s\<rparr>)))
      | DrainThenClose \<Rightarrow>
          split_flush T FlushThenShutdown
            (if se_write (en_session e) = WriteOpen
             then set_session (\<lambda>s. s\<lparr>se_write := Closing, se_connection := rl_send_close_notify T (se_connection s)\<rparr>) e else e))"

text \<open>\<^verbatim>\<open>write\<close> has one buffer, \<^verbatim>\<open>write_vectored\<close> any number.\<close>

definition split_write :: "'c rustls \<Rightarrow> bool \<Rightarrow> u8 list list \<Rightarrow> 'c engine \<Rightarrow> write_turn \<times> 'c engine" where
  "split_write T vectored bufs e =
     (if list_all (\<lambda>b. b = []) bufs then (WriteReturns (Inr 0), e)
      else if se_write (en_session e) = WriteClosed then (WriteReturns (Inl BrokenPipe), e)
      else split_drain T (DrainThenWrite vectored bufs) (after_drain T (DrainThenWrite vectored bufs)) e)"

definition split_shutdown :: "'c rustls \<Rightarrow> 'c engine \<Rightarrow> write_turn \<times> 'c engine" where
  "split_shutdown T e =
     (if se_write (en_session e) = WriteClosed then (WriteReturns (Inr 0), e)
      else split_drain T DrainThenClose (after_drain T DrainThenClose) e)"

text \<open>The three awaits of the write half are over, or their call is dropped.\<close>

definition split_write_resume :: "'c rustls \<Rightarrow> drain_next \<Rightarrow> write_outcome \<Rightarrow> 'c engine \<Rightarrow> write_turn \<times> 'c engine" where
  "split_write_resume T next ev e = drain_turn next (after_drain T next) (split_wrote T ev e)"

definition split_flush_resume :: "flush_next \<Rightarrow> unit io_result \<Rightarrow> 'c engine \<Rightarrow> write_turn \<times> 'c engine" where
  "split_flush_resume next r e =
     (case r of
        Inl err \<Rightarrow> (WriteReturns (Inl err), set_session (fail_both err) e)
      | Inr _ \<Rightarrow> (case write_failure (en_session e) of Some err \<Rightarrow> (WriteReturns (Inl err), e) | None \<Rightarrow> flush_end next e))"

definition split_shutdown_resume :: "unit io_result \<Rightarrow> 'c engine \<Rightarrow> write_turn \<times> 'c engine" where
  "split_shutdown_resume r e =
     (case r of
        Inl err \<Rightarrow> (WriteReturns (Inl err), set_session (fail_both err) e)
      | Inr _ \<Rightarrow> (WriteReturns (Inr 0), set_session (\<lambda>s. s\<lparr>se_write := WriteClosed\<rparr>) e))"

definition split_write_drop :: "write_pc \<Rightarrow> 'c engine \<Rightarrow> 'c engine" where
  "split_write_drop pc e =
     (let e = set_session abandon e in case pc of AwaitsWrite _ \<Rightarrow> e\<lparr>en_output := []\<rparr> | _ \<Rightarrow> e)"

end
