(* ===== verification/Tls_Halves.thy ===== *)
theory Tls_Halves
  imports Tls_Split
begin

text \<open>
  What holds of the halves of a split TLS stream however two tasks use them: nothing panics, ciphertext and plaintext keep their order, and a call dropped
  while it waits ends both directions.
\<close>

section \<open>Two tasks\<close>

text \<open>\<open>ha_read\<close> is the capacity of a read that waits for the transport.\<close>

record 'c halves =
  ha_engine :: "'c engine"
  ha_read :: "nat option"
  ha_write :: write_pc

datatype half_event =
    StartRead nat
  | ReadDone read_outcome
  | DropRead
  | StartWrite bool "u8 list list"
  | StartFlush
  | StartShutdown
  | WriteDone write_outcome
  | FlushDone "unit io_result"
  | ShutdownDone "unit io_result"
  | DropWrite

datatype half_result = NoResult | ReadResult "u8 list io_result" | WriteResult "nat io_result"

definition after_read :: "nat \<Rightarrow> 'c halves \<Rightarrow> read_turn \<times> 'c engine \<Rightarrow> (half_result \<times> 'c halves) option" where
  "after_read capacity h x =
     (case x of
        (ReadAwaits, e) \<Rightarrow> Some (NoResult, h\<lparr>ha_engine := e, ha_read := Some capacity\<rparr>)
      | (ReadReturns r, e) \<Rightarrow> Some (ReadResult r, h\<lparr>ha_engine := e, ha_read := None\<rparr>)
      | (ReadPanics, _) \<Rightarrow> None)"

definition after_write :: "'c halves \<Rightarrow> write_turn \<times> 'c engine \<Rightarrow> (half_result \<times> 'c halves) option" where
  "after_write h x =
     (case x of
        (WriteAwaits pc, e) \<Rightarrow> Some (NoResult, h\<lparr>ha_engine := e, ha_write := pc\<rparr>)
      | (WriteReturns r, e) \<Rightarrow> Some (WriteResult r, h\<lparr>ha_engine := e, ha_write := WriteIdle\<rparr>)
      | (WritePanics, _) \<Rightarrow> None)"

text \<open>An event that does not fit the state of its half does nothing.\<close>

fun half_step :: "'c rustls \<Rightarrow> half_event \<Rightarrow> 'c halves \<Rightarrow> (half_result \<times> 'c halves) option" where
  "half_step T (StartRead n) h =
     (if ha_read h = None then after_read n h (split_read T n (ha_engine h)) else Some (NoResult, h))"
| "half_step T (ReadDone ev) h =
     (case ha_read h of Some n \<Rightarrow> after_read n h (split_read_resume T n ev (ha_engine h)) | None \<Rightarrow> Some (NoResult, h))"
| "half_step T DropRead h =
     (case ha_read h of Some _ \<Rightarrow> Some (NoResult, h\<lparr>ha_engine := split_read_drop (ha_engine h), ha_read := None\<rparr>) | None \<Rightarrow> Some (NoResult, h))"
| "half_step T (StartWrite vectored bufs) h =
     (if ha_write h = WriteIdle then after_write h (split_write T vectored bufs (ha_engine h)) else Some (NoResult, h))"
| "half_step T StartFlush h =
     (if ha_write h = WriteIdle then after_write h (split_flush T FlushOnly (ha_engine h)) else Some (NoResult, h))"
| "half_step T StartShutdown h =
     (if ha_write h = WriteIdle then after_write h (split_shutdown T (ha_engine h)) else Some (NoResult, h))"
| "half_step T (WriteDone ev) h =
     (case ha_write h of AwaitsWrite next \<Rightarrow> after_write h (split_write_resume T next ev (ha_engine h)) | _ \<Rightarrow> Some (NoResult, h))"
| "half_step T (FlushDone r) h =
     (case ha_write h of AwaitsFlush next \<Rightarrow> after_write h (split_flush_resume next r (ha_engine h)) | _ \<Rightarrow> Some (NoResult, h))"
| "half_step T (ShutdownDone r) h =
     (case ha_write h of AwaitsShutdown \<Rightarrow> after_write h (split_shutdown_resume r (ha_engine h)) | _ \<Rightarrow> Some (NoResult, h))"
| "half_step T DropWrite h =
     (if ha_write h = WriteIdle then Some (NoResult, h)
      else Some (NoResult, h\<lparr>ha_engine := split_write_drop (ha_write h) (ha_engine h), ha_write := WriteIdle\<rparr>))"

definition half_delivered :: "half_result \<Rightarrow> u8 list" where
  "half_delivered r = (case r of ReadResult (Inr bs) \<Rightarrow> bs | _ \<Rightarrow> [])"

text \<open>The halves of a stream that was used, then split, then used by two tasks; \<open>got\<close> is the plaintext delivered so far.\<close>

inductive halves_reach :: "'c rustls \<Rightarrow> 'c \<Rightarrow> 'c halves \<Rightarrow> u8 list \<Rightarrow> bool" for T c where
  halves_start: "tls_reach T c e got \<Longrightarrow> halves_reach T c \<lparr>ha_engine = e, ha_read = None, ha_write = WriteIdle\<rparr> got"
| halves_next: "halves_reach T c h got \<Longrightarrow> half_step T ev h = Some (r, h') \<Longrightarrow> halves_reach T c h' (got @ half_delivered r)"

definition half_steps :: "'c rustls \<Rightarrow> 'c halves \<Rightarrow> 'c halves \<Rightarrow> bool" where
  "half_steps T = (\<lambda>h h'. \<exists>ev r. half_step T ev h = Some (r, h'))\<^sup>*\<^sup>*"

section \<open>The read half\<close>

abbreviation write_closed :: "'c engine \<Rightarrow> bool" where
  "write_closed e \<equiv> se_write (en_session e) = WriteClosed"

definition reads_only :: "'c engine \<Rightarrow> 'c engine \<Rightarrow> bool" where
  "reads_only e e' \<longleftrightarrow> wire e' = wire e \<and> en_emitted e' = en_emitted e \<and> en_output e' = en_output e \<and> en_output_start e' = en_output_start e \<and>
     (write_failed e \<longrightarrow> write_failed e') \<and> write_closed e' = write_closed e \<and> (read_failed e \<longrightarrow> read_failed e')"

lemma reads_only_refl: "reads_only e e"
  by (simp add: reads_only_def)

lemma reads_only_trans: "reads_only a b \<Longrightarrow> reads_only b c \<Longrightarrow> reads_only a c"
  by (simp add: reads_only_def)

lemma session_only: "reads_only e (e\<lparr>en_session := s\<rparr>) \<longleftrightarrow>
    (write_failed e \<longrightarrow> (\<exists>f. se_write s = WriteFailed f)) \<and> (se_write s = WriteClosed) = write_closed e \<and> (read_failed e \<longrightarrow> (\<exists>f. se_read s = ReadFailed f))"
  by (simp add: reads_only_def write_failed_def read_failed_def)

lemma fail_reads_only [intro]:
  "reads_only e (set_session (fail_both err) e)" "reads_only e (set_session (fail_read err) e)" "reads_only e (set_session (fail_protocol err) e)"
  by (auto simp: set_session_def session_only fail_both_def fail_read_def fail_protocol_def record_read_failure_def record_write_failure_def
      write_failed_def read_failed_def Let_def split: read_state.splits write_state.splits)

lemma conn_reads_only [intro]: "reads_only e (set_session (\<lambda>s. s\<lparr>se_connection := c\<rparr>) e)"
  by (auto simp: set_session_def session_only write_failed_def read_failed_def)

lemma input_reads_only: "reads_only e (e\<lparr>en_input_start := n\<rparr>)" "reads_only e (e\<lparr>en_input := bs\<rparr>)" "reads_only e (e\<lparr>en_eof := b\<rparr>)"
  by (simp_all add: reads_only_def write_failed_def read_failed_def)

lemma conn_fail [simp]:
  "se_connection (fail_both err s) = se_connection s" "se_connection (fail_read err s) = se_connection s" "se_connection (fail_protocol err s) = se_connection s"
  "conn (set_session (fail_both err) e) = conn e" "conn (set_session (fail_read err) e) = conn e" "conn (set_session (fail_protocol err) e) = conn e"
  by (simp_all add: set_session_def fail_states fail_protocol_def record_read_failure_def Let_def split: read_state.splits write_state.splits)

lemma input_fail [simp]: "en_input (set_session f e) = en_input e" "en_input_start (set_session f e) = en_input_start e" "en_eof (set_session f e) = en_eof e"
  by (simp_all add: set_session_def)

lemma split_feed_ok:
  assumes "en_input_start e \<le> length (en_input e)"
  shows "\<exists>r e'. split_feed T e = Some (r, e') \<and> reads_only e e' \<and> conn_steps T (conn e) (conn e') \<and> en_input_start e' \<le> length (en_input e')"
proof -
  let ?av = "drop (en_input_start e) (en_input e)"
  obtain r1 c1 where r1: "rl_read_tls T ?av (conn e) = (r1, c1)" by (cases "rl_read_tls T ?av (conn e)")
  obtain ok c2 where r2: "rl_process_new_packets T c1 = (ok, c2)" by (cases "rl_process_new_packets T c1")
  obtain r3 c3 where r3: "rl_write T [] c2 = (r3, c3)" by (cases "rl_write T [] c2")
  have c: "conn_steps T (conn e) c1" "conn_steps T (conn e) c2" "conn_steps T (conn e) c3"
    using conn_step_eqs(2) [OF r1] conn_trans [OF conn_step_eqs(3) [OF r2]] conn_trans [OF conn_step_eqs(4) [OF r3]] by blast+
  let ?e1 = "set_session (\<lambda>s. s\<lparr>se_connection := c1\<rparr>) e"
  show ?thesis
  proof (cases r1)
    case (Inl err)
    then show ?thesis using assms r1 c(1) reads_only_trans [OF conn_reads_only [of e c1] fail_reads_only(1)]
      by (simp add: split_feed_def Let_def)
  next
    case (Inr consumed)
    show ?thesis
    proof (cases "consumed > length ?av")
      case True
      then show ?thesis using assms r1 Inr c(1) reads_only_trans [OF conn_reads_only [of e c1] fail_reads_only(1)]
        by (simp add: split_feed_def Let_def)
    next
      case False
      let ?n = "if consumed = 0 \<and> ?av \<noteq> [] then length (en_input e) else en_input_start e + consumed"
      let ?e2 = "set_session (\<lambda>s. s\<lparr>se_connection := c2\<rparr>) (?e1\<lparr>en_input_start := ?n\<rparr>)"
      let ?e3 = "set_session (\<lambda>s. s\<lparr>se_connection := c3\<rparr>) ?e2"
      have n: "?n \<le> length (en_input e)" using False assms by auto
      have e2: "reads_only e ?e2"
        using reads_only_trans [OF reads_only_trans [OF conn_reads_only [of e c1] input_reads_only(1)] conn_reads_only] .
      have e3: "reads_only e ?e3" by (rule reads_only_trans [OF e2 conn_reads_only])
      have "split_feed T e = Some (if \<not> ok then (Inl InvalidData, set_session (fail_protocol InvalidData) ?e2)
          else case r3 of Inl err \<Rightarrow> (Inl err, set_session (fail_both err) ?e3) | Inr _ \<Rightarrow> (Inr (), ?e3))"
        using assms r1 r2 r3 Inr False by (simp add: split_feed_def Let_def split: sum.splits)
      moreover have "reads_only e (set_session (fail_protocol InvalidData) ?e2)" by (rule reads_only_trans [OF e2]) auto
      moreover have "reads_only e (set_session (fail_both err) ?e3)" for err by (rule reads_only_trans [OF e3]) auto
      ultimately show ?thesis using n c e3 by (auto split: sum.splits)
    qed
  qed
qed

definition read_ok :: "'c rustls \<Rightarrow> nat \<Rightarrow> 'c engine \<Rightarrow> read_turn \<times> 'c engine \<Rightarrow> bool" where
  "read_ok T capacity e x \<longleftrightarrow>
     (case x of (t, e') \<Rightarrow> reads_only e e' \<and> en_input_start e' \<le> length (en_input e') \<and> (read_failed e \<longrightarrow> (\<exists>err. t = ReadReturns (Inl err))) \<and>
        (case t of
           ReadAwaits \<Rightarrow> en_input e' = [] \<and> en_input_start e' = 0 \<and> conn_steps T (conn e) (conn e')
         | ReadReturns (Inl _) \<Rightarrow> conn_steps T (conn e) (conn e')
         | ReadReturns (Inr bs) \<Rightarrow>
             bs = [] \<and> conn_steps T (conn e) (conn e') \<or>
             (\<exists>s. conn_steps T (conn e) (se_connection s) \<and> copy_plaintext T capacity [] s = (Inr bs, en_session e'))
         | ReadPanics \<Rightarrow> False))"

lemma read_ok_from:
  assumes "read_ok T capacity e1 x" "reads_only e e1" "conn_steps T (conn e) (conn e1)"
  shows "read_ok T capacity e x"
proof -
  have "read_failed e \<Longrightarrow> read_failed e1" using assms(2) by (simp add: reads_only_def)
  moreover have "conn_steps T (conn e1) d \<Longrightarrow> conn_steps T (conn e) d" for d using conn_trans [OF _ assms(3)] .
  ultimately show ?thesis using assms(1,2) reads_only_trans [OF assms(2)]
    by (cases x) (fastforce simp: read_ok_def split: read_turn.splits sum.splits)
qed

lemma copy_inl: "copy_plaintext T n bs s = (Inl err, s') \<Longrightarrow> length bs \<le> n \<Longrightarrow> se_connection s' = se_connection s \<and> (\<exists>f. se_read s' = ReadFailed f)"
  using copy_spec [of T n bs s "Inl err" s' "\<lambda>_ _. True"] by (simp add: copy_steps_def)

lemma plain_reads_only:
  assumes "plaintext_state T (en_session e) = (r, s)"
  shows "reads_only e (e\<lparr>en_session := s\<rparr>)" "se_connection s = conn e" "read_failed e \<Longrightarrow> \<exists>err. r = Inl err"
    "se_write s = se_write (en_session e)"
  using assms by (auto simp: plaintext_state_def session_only fail_read_def record_read_failure_def read_failure_def read_failed_def write_failed_def
      split: option.splits if_splits first_chunk.splits list.splits io_error.splits read_state.splits)

lemma split_read_loop_ok:
  assumes "en_input_start e \<le> length (en_input e)"
  shows "read_ok T capacity e (split_read_loop T capacity e)"
  using assms
proof (induction T capacity e rule: split_read_loop.induct)
  case (1 T capacity e)
  obtain r s where p: "plaintext_state T (en_session e) = (r, s)" by (cases "plaintext_state T (en_session e)")
  note ps = plain_reads_only [OF p]
  let ?e = "e\<lparr>en_session := s\<rparr>"
  have ce: "conn ?e = conn e" using ps(2) by simp
  note un = split_read_loop.simps [of T capacity e]
  show ?case
  proof (cases r)
    case (Inl err)
    then show ?thesis using un p ps(1,2) "1.prems" by (simp add: read_ok_def conn_refl)
  next
    case (Inr x)
    have nf: "\<not> read_failed e" using ps(3) Inr by auto
    show ?thesis
    proof (cases x)
      case PlainAvailable
      obtain r' s' where c: "copy_plaintext T capacity [] s = (r', s')" by (cases "copy_plaintext T capacity [] s")
      have w: "se_write s' = se_write (en_session e)"
        using copy_spec [OF c, of "\<lambda>_ _. True"] ps(4) by (simp add: copy_steps_def)
      have "reads_only e (e\<lparr>en_session := s'\<rparr>)" using w nf by (simp add: session_only write_failed_def)
      then show ?thesis using un p Inr PlainAvailable c nf "1.prems" ps(2) copy_inl [of T capacity "[]" s _ s'] conn_refl [of T "conn e"]
        by (auto simp: read_ok_def split: sum.splits)
    next
      case PlainPeerClosed
      then show ?thesis using un p Inr ps(1,2) "1.prems" nf by (simp add: read_ok_def conn_refl)
    next
      case PlainPending
      show ?thesis
      proof (cases "en_eof ?e")
        case True
        then show ?thesis using un p Inr PlainPending ps(2) "1.prems" nf reads_only_trans [OF ps(1) fail_reads_only(2)]
          by (simp add: read_ok_def conn_refl)
      next
        case eof: False
        show ?thesis
        proof (cases "en_input_start ?e = length (en_input ?e)")
          case True
          have "reads_only e (?e\<lparr>en_input := [], en_input_start := 0\<rparr>)"
            using reads_only_trans [OF ps(1) reads_only_trans [OF input_reads_only(2) input_reads_only(1)]] .
          then show ?thesis using un p Inr PlainPending eof True ps(2) nf by (simp add: read_ok_def conn_refl)
        next
          case False
          obtain r2 e2 where f: "split_feed T ?e = Some (r2, e2)" "reads_only ?e e2" "conn_steps T (conn ?e) (conn e2)" "en_input_start e2 \<le> length (en_input e2)"
            using split_feed_ok [of ?e T] "1.prems" by auto
          have r: "reads_only e e2" by (rule reads_only_trans [OF ps(1) f(2)])
          have c: "conn_steps T (conn e) (conn e2)" using f(3) ce by simp
          show ?thesis
          proof (cases r2)
            case (Inl err)
            then show ?thesis using un p Inr PlainPending eof False f(1,4) r c nf by (simp add: read_ok_def)
          next
            case (Inr u)
            have "read_ok T capacity e2 (split_read_loop T capacity e2)"
              using "1.IH" [of r s x ?e "(r2, e2)" r2 e2 u] p \<open>r = Inr x\<close> PlainPending eof False f(1,4) Inr by simp
            then have "read_ok T capacity e (split_read_loop T capacity e2)" by (rule read_ok_from [OF _ r c])
            then show ?thesis using un p \<open>r = Inr x\<close> PlainPending eof False f(1) Inr by simp
          qed
        qed
      qed
    qed
  qed
qed

lemma split_read_resume_ok:
  assumes "en_input_start e = 0" "en_input e = []"
  shows "case split_read_resume T capacity ev e of (t, e') \<Rightarrow> reads_only e e' \<and> t \<noteq> ReadPanics"
    "read_ok T capacity e (split_read_resume T capacity ev e)"
proof -
  show "read_ok T capacity e (split_read_resume T capacity ev e)"
  proof (cases ev)
    case (ReadError err)
    then show ?thesis using assms fail_reads_only(1,2) [of e err] by (simp add: split_read_resume_def read_ok_def conn_refl)
  next
    case (DidRead n bytes)
    let ?e = "e\<lparr>en_input := bytes\<rparr>"
    let ?e1 = "if n = 0 then ?e\<lparr>en_eof := True\<rparr> else ?e"
    show ?thesis
    proof (cases "n = length bytes")
      case False
      then show ?thesis using DidRead assms reads_only_trans [OF input_reads_only(2) fail_reads_only(2)]
        by (simp add: split_read_resume_def read_ok_def conn_refl)
    next
      case True
      have e1: "reads_only e ?e1" by (simp add: reads_only_def write_failed_def read_failed_def)
      have c1: "conn ?e1 = conn e" by simp
      obtain r2 e2 where f: "split_feed T ?e1 = Some (r2, e2)" "reads_only ?e1 e2" "conn_steps T (conn ?e1) (conn e2)" "en_input_start e2 \<le> length (en_input e2)"
      proof -
        have "en_input_start ?e1 \<le> length (en_input ?e1)" using assms by simp
        from split_feed_ok [OF this, of T] show thesis using that by blast
      qed
      have r: "reads_only e e2" by (rule reads_only_trans [OF e1 f(2)])
      have c: "conn_steps T (conn e) (conn e2)" using f(3) c1 by simp
      show ?thesis
      proof (cases r2)
        case (Inl err)
        then show ?thesis using DidRead True f(1,4) r c by (simp add: split_read_resume_def read_ok_def)
      next
        case (Inr u)
        have "read_ok T capacity e (split_read_loop T capacity e2)" by (rule read_ok_from [OF split_read_loop_ok [OF f(4)] r c])
        then show ?thesis using DidRead True f(1) Inr by (simp add: split_read_resume_def)
      qed
    qed
  qed
  then show "case split_read_resume T capacity ev e of (t, e') \<Rightarrow> reads_only e e' \<and> t \<noteq> ReadPanics"
    by (auto simp: read_ok_def)
qed

section \<open>The write half\<close>

abbreviation drained :: "'c engine \<Rightarrow> bool" where
  "drained e \<equiv> en_output_start e = length (en_output e)"

definition writes_only :: "'c rustls \<Rightarrow> 'c engine \<Rightarrow> 'c engine \<Rightarrow> bool" where
  "writes_only T e e' \<longleftrightarrow> en_input e' = en_input e \<and> en_input_start e' = en_input_start e \<and> en_eof e' = en_eof e \<and>
     conn_steps T (conn e) (conn e') \<and> (read_failed e \<longrightarrow> read_failed e') \<and>
     (write_failed e \<or> write_closed e \<longrightarrow> write_failed e' \<or> write_closed e')"

lemma writes_only_refl: "writes_only T e e"
  by (simp add: writes_only_def conn_refl)

lemma writes_only_trans: "writes_only T a b \<Longrightarrow> writes_only T b c \<Longrightarrow> writes_only T a c"
  by (auto simp: writes_only_def intro: conn_trans)

text \<open>What a turn of the write half leaves: an exact output if it waits, and if it returns after a failure at least a prefix.\<close>

definition write_ok :: "'c rustls \<Rightarrow> 'c engine \<Rightarrow> write_turn \<times> 'c engine \<Rightarrow> bool" where
  "write_ok T e x \<longleftrightarrow>
     (case x of (t, e') \<Rightarrow> writes_only T e e' \<and>
        (case t of
           WriteAwaits pc \<Rightarrow> wire_exact e' \<and> (case pc of WriteIdle \<Rightarrow> False | AwaitsWrite _ \<Rightarrow> \<not> write_closed e' | _ \<Rightarrow> drained e')
         | WriteReturns r \<Rightarrow> (wire_exact e' \<or> write_failed e' \<and> wire_prefix e') \<and>
             (\<forall>n. r = Inr n \<and> 0 < n \<longrightarrow> wire e' = en_emitted e' \<and> \<not> write_failed e \<and> \<not> write_closed e)
         | WritePanics \<Rightarrow> False))"

lemma write_ok_from:
  assumes "write_ok T e1 x" "writes_only T e e1" "\<not> write_failed e" "\<not> write_closed e"
  shows "write_ok T e x"
  using assms writes_only_trans [OF assms(2)] by (cases x) (auto simp: write_ok_def split: write_turn.splits write_pc.splits)

lemma exact_drained: "wire_exact e \<Longrightarrow> drained e \<Longrightarrow> wire e = en_emitted e"
  by (simp add: wire_exact_def)

lemma write_failed_iff: "write_failed e \<longleftrightarrow> is_write_failed (en_session e)"
  by (simp add: write_failed_def is_write_failed_def split: write_state.splits)

definition raw_ok :: "'c rustls \<Rightarrow> 'c engine \<Rightarrow> raw_turn \<times> 'c engine \<Rightarrow> bool" where
  "raw_ok T e x \<longleftrightarrow>
     (case x of (t, e') \<Rightarrow> conn_steps T (conn e) (conn e') \<and> en_input e' = en_input e \<and> en_input_start e' = en_input_start e \<and> en_eof e' = en_eof e \<and>
        same_states e e' \<and> wire_prefix e' \<and>
        (case t of RawAwaits \<Rightarrow> wire_exact e' | RawDone (Inr _) \<Rightarrow> wire_exact e' \<and> drained e' | RawDone (Inl _) \<Rightarrow> True | RawPanics \<Rightarrow> False))"

lemma fill_eof: "fill_output T e = (r, e') \<Longrightarrow> en_eof e' = en_eof e"
  by (auto simp: fill_output_def Let_def split: if_splits prod.splits sum.splits)

lemma split_drain_raw_ok:
  assumes "wire_exact e"
  shows "raw_ok T e (split_drain_raw T e)"
proof (cases "drained e \<and> \<not> is_write_failed (en_session e)")
  case True
  obtain r e1 where f: "fill_output T e = (r, e1)" by (cases "fill_output T e")
  note x = fill_exact [OF assms f] fill_eof [OF f] exact_prefix [OF fill_exact(1) [OF assms f]]
  have "\<not> rl_wants_write T (conn e1)" if "r = Inr u" "drained e1" for u
    using fill_output_enough [of T e u e1] f that True by simp
  then show ?thesis using True f x by (subst split_drain_raw.simps) (auto simp: raw_ok_def split: sum.splits)
next
  case False
  have "\<not> length (en_output e) < en_output_start e" using assms by (simp add: wire_exact_def)
  then show ?thesis using False assms exact_prefix [OF assms]
    by (subst split_drain_raw.simps) (auto simp: raw_ok_def conn_refl same_states_def)
qed

lemma split_wrote_ok:
  assumes "wire_exact e"
  shows "raw_ok T e (split_wrote T ev e)"
proof -
  have len: "en_output_start e \<le> length (en_output e)" and eq: "wire e @ drop (en_output_start e) (en_output e) = en_emitted e"
    using assms by (simp_all add: wire_exact_def)
  let ?w = "\<lambda>bs. e\<lparr>en_io := (en_io e)\<lparr>ti_wire := wire e @ bs\<rparr>\<rparr>"
  let ?data = "drop (en_output_start e) (en_output e)"
  have pre: "wire_prefix (?w (take n ?data))" for n
  proof -
    have "(wire e @ take n ?data) @ drop n ?data = en_emitted e" using eq by (simp only: append.assoc append_take_drop_id)
    then show ?thesis unfolding wire_prefix_def by (intro exI [of _ "drop n ?data"]) simp
  qed
  have stop: "raw_ok T e (RawDone (Inl err), ?w bs)" if "wire_prefix (?w bs)" for err bs
    using that by (simp add: raw_ok_def conn_refl same_states_def)
  show ?thesis
  proof (cases ev)
    case (WriteError err)
    then show ?thesis using stop [of "[]"] pre [of 0] by (simp add: split_wrote_def Let_def)
  next
    case (DidWrite n)
    show ?thesis
    proof (cases "n \<noteq> 0 \<and> n \<le> length (en_output e) - en_output_start e")
      case False
      then show ?thesis using DidWrite stop [OF pre [of n]] by (auto simp: split_wrote_def Let_def)
    next
      case True
      let ?e1 = "if en_output_start e + n = length (en_output e) then (?w (take n ?data))\<lparr>en_output := [], en_output_start := 0\<rparr>
        else (?w (take n ?data))\<lparr>en_output_start := en_output_start e + n\<rparr>"
      have part: "(wire e @ take n ?data) @ drop (en_output_start e + n) (en_output e) = wire e @ ?data"
        by (metis add.commute append.assoc append_take_drop_id drop_drop)
      have "wire_exact ?e1" using True len eq part by (auto simp: wire_exact_def)
      from split_drain_raw_ok [OF this, of T] have "raw_ok T e (split_drain_raw T ?e1)"
        by (auto simp: raw_ok_def same_states_def split: prod.splits if_splits)
      then show ?thesis using DidWrite True by (simp add: split_wrote_def Let_def)
    qed
  qed
qed

definition ready :: "'c engine \<Rightarrow> bool" where
  "ready e \<longleftrightarrow> wire_exact e \<and> drained e \<and> \<not> write_failed e \<and> \<not> write_closed e"

definition resumable :: "'c engine \<Rightarrow> bool" where
  "resumable e \<longleftrightarrow> wire_exact e \<or> write_failed e \<and> wire_prefix e"

lemma fail_both_failed: "\<not> write_closed e \<Longrightarrow> write_failed (set_session (fail_both err) e)"
  using fail_states(3) by (auto simp: set_session_def write_failed_def)

lemma fail_writes_only: "writes_only T e (set_session (fail_both err) e)"
  using fail_reads_only(1) [of e err] by (auto simp: writes_only_def reads_only_def conn_refl)

lemma wire_session [simp]:
  "wire_prefix (set_session f e) = wire_prefix e" "wire_exact (set_session f e) = wire_exact e" "wire (set_session f e) = wire e"
  "en_emitted (set_session f e) = en_emitted e" "drained (set_session f e) = drained e"
  by (simp_all add: set_session_def wire_prefix_def wire_exact_def)

lemma drain_turn_ok:
  assumes raw: "raw_ok T e x" and open': "\<not> write_closed e" and cont: "\<And>e1. ready e1 \<Longrightarrow> write_ok T e1 (k e1)"
  shows "write_ok T e (drain_turn next k x)"
proof -
  obtain t e1 where x: "x = (t, e1)" by (cases x)
  have same: "same_states e e1" and pre: "wire_prefix e1" using raw x by (simp_all add: raw_ok_def)
  have closed: "\<not> write_closed e1" using same open' by (simp add: same_states_def)
  have only: "writes_only T e e1" using raw x same by (simp add: raw_ok_def writes_only_def same_states_def read_failed_def write_failed_def)
  have failed: "write_failed e1 = write_failed e" using same by (simp add: same_states_def write_failed_def)
  have bad: "write_ok T e (WriteReturns (Inl err'), set_session (fail_both err) e1)" for err err'
    using writes_only_trans [OF only fail_writes_only] fail_both_failed [OF closed] pre by (simp add: write_ok_def)
  show ?thesis
  proof (cases t)
    case RawAwaits
    then show ?thesis using raw x only closed by (simp add: drain_turn_def write_ok_def raw_ok_def)
  next
    case (RawDone r)
    let ?f = "\<lambda>f. set_session (\<lambda>s. s\<lparr>se_write := WriteFailed f\<rparr>) e1"
    have alert: "write_ok T e (WriteReturns (Inl err), ?f f)" for err f
      using only pre by (auto simp: write_ok_def writes_only_def set_session_def write_failed_def read_failed_def wire_prefix_def)
    have old: "write_ok T e (WriteReturns (Inl err), e1)" if "se_write (en_session e1) = WriteFailed f" for err f
      using that only pre by (simp add: write_ok_def write_failed_def)
    have go: "write_ok T e (k e1)" if "r = Inr u" "\<not> write_failed e1" for u
      using write_ok_from [OF cont [of e1] only] that raw x RawDone closed failed open' by (simp add: ready_def raw_ok_def)
    show ?thesis using x RawDone closed alert old go bad
      by (cases "se_write (en_session e1)"; cases r) (simp_all add: drain_turn_def drain_end_def write_failed_def)
  next
    case RawPanics
    then show ?thesis using raw x by (simp add: raw_ok_def)
  qed
qed

lemma split_drain_ok:
  assumes "resumable e" "\<not> write_closed e" "\<And>e1. ready e1 \<Longrightarrow> write_ok T e1 (k e1)"
  shows "write_ok T e (split_drain T next k e)"
proof (cases "write_failed e")
  case True
  then obtain f where "se_write (en_session e) = WriteFailed f" by (auto simp: write_failed_def)
  then show ?thesis using assms(1) True by (auto simp: split_drain_def write_ok_def writes_only_refl resumable_def)
next
  case False
  then have "wire_exact e" using assms(1) by (simp add: resumable_def)
  then have "write_ok T e (drain_turn next k (split_drain_raw T e))" by (intro drain_turn_ok assms(2,3) split_drain_raw_ok)
  then show ?thesis using False by (auto simp: split_drain_def write_failed_def split: write_state.splits)
qed

lemma flush_end_ok: "resumable e \<Longrightarrow> (next = FlushThenShutdown \<longrightarrow> wire_exact e \<and> drained e) \<Longrightarrow> write_ok T e (flush_end next e)"
  by (cases "next") (simp_all add: flush_end_def write_ok_def writes_only_refl resumable_def)

lemma split_flush_ok:
  assumes "resumable e" "write_closed e \<Longrightarrow> next = FlushThenShutdown \<longrightarrow> wire_exact e \<and> drained e"
  shows "write_ok T e (split_flush T next e)"
proof (cases "write_closed e")
  case True
  then show ?thesis using flush_end_ok assms by (simp add: split_flush_def)
next
  case False
  have "write_ok T e1 (WriteAwaits (AwaitsFlush next), e1)" if "ready e1" for e1 :: "'a engine"
    using that by (simp add: write_ok_def writes_only_refl ready_def)
  then show ?thesis using False split_drain_ok [OF assms(1) False] by (simp add: split_flush_def)
qed

lemma after_drain_ok:
  assumes "ready e"
  shows "write_ok T e (after_drain T next e)"
proof -
  note r = assms [unfolded ready_def]
  have res: "resumable e" using r by (simp add: resumable_def)
  show ?thesis
  proof (cases "next")
    case (DrainThenWrite vectored bufs)
    let ?give = "if vectored then write_vectored_plaintext T bufs else write_plaintext T (concat bufs)"
    obtain x s where g: "?give (en_session e) = (x, s)" by (cases "?give (en_session e)")
    have give: "give_ok T ?give" by (auto intro: write_plaintext_ok write_vectored_plaintext_ok)
    show ?thesis
    proof (cases "check_writable (en_session e)")
      case (Some err)
      then show ?thesis using DrainThenWrite r by (simp add: after_drain_def write_ok_def writes_only_refl)
    next
      case None
      obtain c where c: "conn_steps T (conn e) c"
        "case x of Inr _ \<Rightarrow> s = (en_session e)\<lparr>se_connection := c\<rparr> | Inl _ \<Rightarrow> \<exists>err. s = fail_both err ((en_session e)\<lparr>se_connection := c\<rparr>)"
        using give g unfolding give_ok_def by blast
      let ?e = "set_session (\<lambda>s. s\<lparr>se_connection := c\<rparr>) e"
      have only: "writes_only T e ?e" using c(1) by (simp add: writes_only_def set_session_def read_failed_def write_failed_def)
      have e: "resumable ?e" "\<not> write_closed ?e" using r by (simp_all add: resumable_def)
      show ?thesis
      proof (cases x)
        case (Inl err)
        then obtain err' where "e\<lparr>en_session := s\<rparr> = set_session (fail_both err') ?e" using c(2) by (auto simp: set_session_def)
        moreover have "write_ok T e (WriteReturns (Inl err), set_session (fail_both err') ?e)"
          using writes_only_trans [OF only fail_writes_only] fail_both_failed [OF e(2)] r exact_prefix [of e] by (simp add: write_ok_def)
        ultimately show ?thesis using DrainThenWrite None g Inl by (simp add: after_drain_def)
      next
        case (Inr n)
        then have s: "e\<lparr>en_session := s\<rparr> = ?e" using c(2) by (simp add: set_session_def)
        have "write_ok T e1 (WriteReturns (Inr n), e1)" if "ready e1" for e1 :: "'a engine"
          using that exact_drained [of e1] by (simp add: write_ok_def writes_only_refl ready_def)
        then have "write_ok T e (split_drain T (DrainThenAccepted n) (\<lambda>e. (WriteReturns (Inr n), e)) ?e)"
          using write_ok_from [OF split_drain_ok [OF e] only] r by blast
        then show ?thesis using DrainThenWrite None g Inr s by (simp add: after_drain_def)
      qed
    qed
  next
    case (DrainThenAccepted n)
    then show ?thesis using r exact_drained [of e] by (simp add: after_drain_def write_ok_def writes_only_refl)
  next
    case (DrainThenFlush fl)
    then show ?thesis using r by (simp add: after_drain_def write_ok_def writes_only_refl)
  next
    case DrainThenClose
    let ?e = "set_session (\<lambda>s. s\<lparr>se_write := Closing, se_connection := rl_send_close_notify T (se_connection s)\<rparr>) e"
    have only: "writes_only T e ?e" using r conn_close [OF conn_refl, of T "conn e"]
      by (simp add: writes_only_def set_session_def read_failed_def write_failed_def)
    have e: "resumable ?e" using r by (simp add: resumable_def)
    have open': "\<not> write_closed ?e" by (simp add: set_session_def)
    have "write_ok T e (split_flush T FlushThenShutdown ?e)"
      using write_ok_from [OF split_flush_ok [OF e] only] open' r by blast
    moreover have "write_ok T e (split_flush T FlushThenShutdown e)" using split_flush_ok [OF res] r by blast
    ultimately show ?thesis using DrainThenClose by (simp add: after_drain_def)
  qed
qed

section \<open>Any interleaving\<close>

definition halves_inv :: "'c halves \<Rightarrow> bool" where
  "halves_inv h \<longleftrightarrow>
     (let e = ha_engine h in
      en_input_start e \<le> length (en_input e) \<and> (ha_read h \<noteq> None \<longrightarrow> en_input e = [] \<and> en_input_start e = 0) \<and>
      (case ha_write h of
         WriteIdle \<Rightarrow> resumable e
       | AwaitsWrite _ \<Rightarrow> wire_exact e \<and> \<not> write_closed e
       | _ \<Rightarrow> wire_exact e \<and> drained e))"

lemma reads_only_wire: "reads_only e e' \<Longrightarrow> wire_exact e' = wire_exact e \<and> wire_prefix e' = wire_prefix e \<and> drained e' = drained e"
  by (simp add: reads_only_def wire_exact_def wire_prefix_def)

lemma read_turn_inv:
  assumes inv: "halves_inv h" and ok: "read_ok T n (ha_engine h) x"
  obtains r h' where "after_read n h x = Some (r, h')" "halves_inv h'" "ha_engine h' = snd x" "\<not> (\<exists>w. r = WriteResult w)"
    "\<And>bs. r = ReadResult (Inr bs) \<Longrightarrow> fst x = ReadReturns (Inr bs)"
proof -
  obtain t e where x: "x = (t, e)" by (cases x)
  have only: "reads_only (ha_engine h) e" using ok x by (simp add: read_ok_def)
  have w: "case ha_write h of WriteIdle \<Rightarrow> resumable e | AwaitsWrite _ \<Rightarrow> wire_exact e \<and> \<not> write_closed e | _ \<Rightarrow> wire_exact e \<and> drained e"
    using inv only reads_only_wire [OF only] by (auto simp: halves_inv_def resumable_def reads_only_def Let_def split: write_pc.splits)
  show thesis
  proof (cases t)
    case ReadAwaits
    then show thesis using x ok w by (intro that [of NoResult "h\<lparr>ha_engine := e, ha_read := Some n\<rparr>"]) (auto simp: after_read_def halves_inv_def read_ok_def)
  next
    case (ReadReturns r)
    then show thesis using x ok w by (intro that [of "ReadResult r" "h\<lparr>ha_engine := e, ha_read := None\<rparr>"]) (auto simp: after_read_def halves_inv_def read_ok_def)
  next
    case ReadPanics
    then show thesis using x ok by (simp add: read_ok_def)
  qed
qed

lemma write_turn_inv:
  assumes inv: "halves_inv h" and ok: "write_ok T (ha_engine h) x"
  obtains r h' where "after_write h x = Some (r, h')" "halves_inv h'" "ha_engine h' = snd x" "half_delivered r = []"
    "\<And>n. r = WriteResult (Inr n) \<Longrightarrow> fst x = WriteReturns (Inr n)"
proof -
  obtain t e where x: "x = (t, e)" by (cases x)
  have i: "en_input_start e \<le> length (en_input e)" "ha_read h \<noteq> None \<longrightarrow> en_input e = [] \<and> en_input_start e = 0"
    using inv ok x by (simp_all add: halves_inv_def write_ok_def writes_only_def Let_def)
  show thesis
  proof (cases t)
    case (WriteAwaits pc)
    then show thesis using x ok i by (intro that [of NoResult "h\<lparr>ha_engine := e, ha_write := pc\<rparr>"])
        (auto simp: after_write_def halves_inv_def write_ok_def half_delivered_def split: write_pc.splits)
  next
    case (WriteReturns r)
    then show thesis using x ok i by (intro that [of "WriteResult r" "h\<lparr>ha_engine := e, ha_write := WriteIdle\<rparr>"])
        (auto simp: after_write_def halves_inv_def write_ok_def resumable_def half_delivered_def)
  next
    case WritePanics
    then show thesis using x ok by (simp add: write_ok_def)
  qed
qed

lemma split_read_ok: "en_input_start e \<le> length (en_input e) \<Longrightarrow> n \<noteq> 0 \<Longrightarrow> read_ok T n e (split_read T n e)"
  using split_read_loop_ok by (simp add: split_read_def)

lemma returns_ok: "resumable e \<Longrightarrow> write_ok T e (WriteReturns (Inr 0), e)" "resumable e \<Longrightarrow> write_ok T e (WriteReturns (Inl err), e)"
  by (auto simp: write_ok_def writes_only_refl resumable_def)

lemma split_write_ok:
  assumes "resumable e"
  shows "write_ok T e (split_write T vectored bufs e)"
proof -
  have "write_ok T e (split_drain T next (after_drain T next) e)" if "\<not> write_closed e" for "next"
    by (rule split_drain_ok [OF assms that after_drain_ok])
  then show ?thesis using returns_ok [OF assms] by (simp add: split_write_def)
qed

lemma split_shutdown_ok:
  assumes "resumable e"
  shows "write_ok T e (split_shutdown T e)"
proof -
  have "write_ok T e (split_drain T next (after_drain T next) e)" if "\<not> write_closed e" for "next"
    by (rule split_drain_ok [OF assms that after_drain_ok])
  then show ?thesis using returns_ok [OF assms] by (simp add: split_shutdown_def)
qed

lemma split_write_resume_ok: "wire_exact e \<Longrightarrow> \<not> write_closed e \<Longrightarrow> write_ok T e (split_write_resume T next ev e)"
  unfolding split_write_resume_def by (rule drain_turn_ok [OF split_wrote_ok]) (auto intro: after_drain_ok)

lemma split_flush_resume_ok:
  assumes "wire_exact e" "drained e"
  shows "write_ok T e (split_flush_resume next r e)"
proof (cases r)
  case (Inl err)
  then show ?thesis using assms fail_writes_only [of T e err] by (simp add: split_flush_resume_def write_ok_def)
next
  case (Inr u)
  have "resumable e" using assms by (simp add: resumable_def)
  then show ?thesis using Inr assms returns_ok [of e T] flush_end_ok [of e "next" T] by (simp add: split_flush_resume_def split: option.splits)
qed

lemma split_shutdown_resume_ok: "wire_exact e \<Longrightarrow> drained e \<Longrightarrow> write_ok T e (split_shutdown_resume r e)"
  using fail_writes_only [of T e]
  by (auto simp: split_shutdown_resume_def write_ok_def writes_only_def set_session_def read_failed_def wire_exact_def conn_refl split: sum.splits)

lemma abandon_states:
  "se_connection (abandon s) = se_connection s" "\<exists>f. se_read (abandon s) = ReadFailed f" "se_write (abandon s) = WriteClosed \<longleftrightarrow> se_write s = WriteClosed"
  "se_write s \<noteq> WriteClosed \<Longrightarrow> \<exists>f. se_write (abandon s) = WriteFailed f"
  by (auto simp: abandon_def record_read_failure_def record_write_failure_def split: read_state.splits write_state.splits)

lemma abandoned_dead: "dead (set_session abandon e)"
  using abandon_states [of "en_session e"] by (auto simp: dead_def set_session_def read_failed_def write_failed_def)

text \<open>What a step may do, whatever the other half waits for.\<close>

definition step_ok :: "'c rustls \<Rightarrow> 'c halves \<Rightarrow> half_result \<Rightarrow> 'c halves \<Rightarrow> bool" where
  "step_ok T h r h' \<longleftrightarrow> halves_inv h' \<and>
     (\<forall>n. r = WriteResult (Inr n) \<and> 0 < n \<longrightarrow> wire (ha_engine h') = en_emitted (ha_engine h') \<and> \<not> dead (ha_engine h)) \<and>
     (dead (ha_engine h) \<longrightarrow> dead (ha_engine h') \<and> half_delivered r = []) \<and>
     (\<forall>decrypted taken got. plaintext_laws T decrypted taken \<longrightarrow> in_order decrypted taken got (conn (ha_engine h)) \<longrightarrow>
        in_order decrypted taken (got @ half_delivered r) (conn (ha_engine h')))"

lemma same_ok: "halves_inv h \<Longrightarrow> step_ok T h NoResult h"
  by (simp add: step_ok_def half_delivered_def)

lemma read_step_ok:
  assumes inv: "halves_inv h" and ok: "read_ok T n (ha_engine h) x"
  shows "\<exists>r h'. after_read n h x = Some (r, h') \<and> step_ok T h r h'"
proof -
  obtain r h' where a: "after_read n h x = Some (r, h')" "halves_inv h'" "ha_engine h' = snd x" "\<not> (\<exists>w. r = WriteResult w)"
    "\<And>bs. r = ReadResult (Inr bs) \<Longrightarrow> fst x = ReadReturns (Inr bs)" by (rule read_turn_inv [OF inv ok]) blast
  obtain t e where x: "x = (t, e)" by (cases x)
  have e: "ha_engine h' = e" using a(3) x by simp
  have only: "reads_only (ha_engine h) e" using ok x by (simp add: read_ok_def)
  have dead: "dead e" "half_delivered r = []" if "dead (ha_engine h)"
  proof -
    show "dead e" using that only by (auto simp: dead_def reads_only_def)
    have "\<exists>err. t = ReadReturns (Inl err)" using that ok x by (simp add: read_ok_def dead_def)
    then have "r \<noteq> ReadResult (Inr bs)" for bs using a(5) [of bs] x by auto
    then show "half_delivered r = []" by (auto simp: half_delivered_def split: half_result.splits sum.splits)
  qed
  have "in_order decrypted taken (got @ half_delivered r) (conn e)"
    if laws: "plaintext_laws T decrypted taken" and o: "in_order decrypted taken got (conn (ha_engine h))" for decrypted taken got
  proof (cases "\<exists>bs s. r = ReadResult (Inr bs) \<and> conn_steps T (conn (ha_engine h)) (se_connection s) \<and> copy_plaintext T n [] s = (Inr bs, en_session e)")
    case True
    then obtain bs s where s: "r = ReadResult (Inr bs)" "conn_steps T (conn (ha_engine h)) (se_connection s)" "copy_plaintext T n [] s = (Inr bs, en_session e)" by blast
    have "in_order decrypted taken (got @ []) (se_connection s)" using in_order_steps [OF laws s(2) o] by simp
    from copy_spec [OF s(3) _ in_order_copy [OF laws] this] show ?thesis using s(1) by (simp add: half_delivered_def)
  next
    case False
    then have "half_delivered r = [] \<and> conn_steps T (conn (ha_engine h)) (conn e)"
      using a(1,5) ok x by (auto simp: half_delivered_def read_ok_def after_read_def split: half_result.splits sum.splits read_turn.splits)
    then show ?thesis using in_order_steps [OF laws _ o] by simp
  qed
  then show ?thesis using a(1,2,4) e dead by (auto simp: step_ok_def)
qed

lemma write_step_ok:
  assumes inv: "halves_inv h" and ok: "write_ok T (ha_engine h) x"
  shows "\<exists>r h'. after_write h x = Some (r, h') \<and> step_ok T h r h'"
proof -
  obtain r h' where a: "after_write h x = Some (r, h')" "halves_inv h'" "ha_engine h' = snd x" "half_delivered r = []"
    "\<And>n. r = WriteResult (Inr n) \<Longrightarrow> fst x = WriteReturns (Inr n)" by (rule write_turn_inv [OF inv ok]) blast
  obtain t e where x: "x = (t, e)" by (cases x)
  have e: "ha_engine h' = e" using a(3) x by simp
  have only: "writes_only T (ha_engine h) e" using ok x by (simp add: write_ok_def)
  have "dead e" if "dead (ha_engine h)" using that only by (auto simp: dead_def writes_only_def)
  moreover have "wire e = en_emitted e \<and> \<not> dead (ha_engine h)" if "r = WriteResult (Inr n)" "0 < n" for n
    using a(5) [OF that(1)] ok x that(2) by (auto simp: write_ok_def dead_def)
  moreover have "in_order decrypted taken got (conn e)"
    if "plaintext_laws T decrypted taken" "in_order decrypted taken got (conn (ha_engine h))" for decrypted taken got
    using in_order_steps [OF that(1) _ that(2)] only by (simp add: writes_only_def)
  ultimately show ?thesis using a(1,2,4) e unfolding step_ok_def by auto
qed

lemma drop_read_ok:
  assumes inv: "halves_inv h" and waiting: "ha_read h \<noteq> None"
  defines "h' \<equiv> h\<lparr>ha_engine := split_read_drop (ha_engine h), ha_read := None\<rparr>"
  shows "step_ok T h NoResult h'" "dead (ha_engine h')"
proof -
  let ?e = "split_read_drop (ha_engine h)"
  have only: "reads_only (ha_engine h) ?e" using abandon_states [of "en_session (ha_engine h)"]
    by (auto simp: reads_only_def split_read_drop_def set_session_def write_failed_def read_failed_def)
  have w: "case ha_write h of WriteIdle \<Rightarrow> resumable ?e | AwaitsWrite _ \<Rightarrow> wire_exact ?e \<and> \<not> write_closed ?e | _ \<Rightarrow> wire_exact ?e \<and> drained ?e"
    using inv only reads_only_wire [OF only] by (auto simp: halves_inv_def resumable_def reads_only_def Let_def split: write_pc.splits)
  have "en_input_start ?e = 0" using inv waiting by (auto simp: halves_inv_def split_read_drop_def Let_def)
  then have "halves_inv h'" using w by (simp add: halves_inv_def h'_def)
  moreover show d: "dead (ha_engine h')" using abandoned_dead [of "ha_engine h"] by (simp add: h'_def split_read_drop_def dead_def read_failed_def write_failed_def)
  moreover have "conn (ha_engine h') = conn (ha_engine h)" by (simp add: h'_def split_read_drop_def set_session_def abandon_states)
  ultimately show "step_ok T h NoResult h'" by (simp add: step_ok_def half_delivered_def)
qed

lemma drop_write_ok:
  assumes inv: "halves_inv h" and waiting: "ha_write h \<noteq> WriteIdle"
  defines "h' \<equiv> h\<lparr>ha_engine := split_write_drop (ha_write h) (ha_engine h), ha_write := WriteIdle\<rparr>"
  shows "step_ok T h NoResult h'" "dead (ha_engine h')"
proof -
  let ?e = "split_write_drop (ha_write h) (ha_engine h)"
  have e: "wire ?e = wire (ha_engine h)" "en_emitted ?e = en_emitted (ha_engine h)" "en_input ?e = en_input (ha_engine h)"
    "en_input_start ?e = en_input_start (ha_engine h)" "en_session ?e = abandon (en_session (ha_engine h))"
    by (simp_all add: split_write_drop_def set_session_def Let_def split: write_pc.splits)
  have exact: "wire_exact (ha_engine h)" using inv waiting by (auto simp: halves_inv_def Let_def split: write_pc.splits)
  have "resumable ?e"
  proof (cases "\<exists>next. ha_write h = AwaitsWrite next")
    case True
    then have "\<not> write_closed (ha_engine h)" using inv by (auto simp: halves_inv_def Let_def)
    then have "write_failed ?e" using abandon_states(4) e(5) by (simp add: write_failed_def)
    then show ?thesis using exact_prefix [OF exact] e(1,2) by (simp add: resumable_def wire_prefix_def)
  next
    case False
    then have "?e = set_session abandon (ha_engine h)" by (simp add: split_write_drop_def Let_def split: write_pc.splits)
    then show ?thesis using exact by (simp add: resumable_def)
  qed
  then have "halves_inv h'" using inv e(3,4) by (simp add: halves_inv_def h'_def Let_def)
  moreover show d: "dead (ha_engine h')" using abandoned_dead [of "ha_engine h"] e(5) by (simp add: h'_def set_session_def dead_def read_failed_def write_failed_def)
  moreover have "conn (ha_engine h') = conn (ha_engine h)" using e(5) by (simp add: h'_def abandon_states)
  ultimately show "step_ok T h NoResult h'" by (simp add: step_ok_def half_delivered_def)
qed

lemma half_step_ok:
  assumes inv: "halves_inv h"
  shows "\<exists>r h'. half_step T ev h = Some (r, h') \<and> step_ok T h r h'"
proof -
  let ?e = "ha_engine h"
  have idle: "resumable ?e" if "ha_write h = WriteIdle" using inv that by (simp add: halves_inv_def Let_def)
  note same = same_ok [OF inv, of T]
  note wr = write_step_ok [OF inv, of T] and rd = read_step_ok [OF inv, of T]
  show ?thesis
  proof (cases ev)
    case (StartRead n)
    show ?thesis
    proof (cases "n = 0")
      case True
      have "halves_inv (h\<lparr>ha_read := None\<rparr>)" using inv by (auto simp: halves_inv_def Let_def)
      then show ?thesis using StartRead True same
        by (auto simp: split_read_def after_read_def step_ok_def half_delivered_def)
    next
      case False
      then show ?thesis using StartRead same rd [OF split_read_ok] inv by (auto simp: halves_inv_def Let_def)
    qed
  next
    case (ReadDone x)
    show ?thesis
    proof (cases "ha_read h")
      case (Some n)
      then have "en_input_start ?e = 0" "en_input ?e = []" using inv by (auto simp: halves_inv_def Let_def)
      from rd [OF split_read_resume_ok(2) [OF this]] show ?thesis using ReadDone Some by simp
    qed (use ReadDone same in simp)
  next
    case DropRead
    then show ?thesis using same drop_read_ok(1) [OF inv] by (cases "ha_read h") auto
  next
    case (StartWrite vectored bufs)
    then show ?thesis using same wr [OF split_write_ok] idle by simp
  next
    case StartFlush
    then show ?thesis using same wr [OF split_flush_ok] idle by simp
  next
    case StartShutdown
    then show ?thesis using same wr [OF split_shutdown_ok] idle by simp
  next
    case (WriteDone x)
    show ?thesis
    proof (cases "ha_write h")
      case (AwaitsWrite n)
      then have "wire_exact ?e" "\<not> write_closed ?e" using inv by (auto simp: halves_inv_def Let_def)
      from wr [OF split_write_resume_ok [OF this]] show ?thesis using WriteDone AwaitsWrite by simp
    qed (use WriteDone same in simp_all)
  next
    case (FlushDone x)
    show ?thesis
    proof (cases "ha_write h")
      case (AwaitsFlush n)
      then have "wire_exact ?e" "drained ?e" using inv by (auto simp: halves_inv_def Let_def)
      from wr [OF split_flush_resume_ok [OF this]] show ?thesis using FlushDone AwaitsFlush by simp
    qed (use FlushDone same in simp_all)
  next
    case (ShutdownDone x)
    show ?thesis
    proof (cases "ha_write h")
      case AwaitsShutdown
      then have "wire_exact ?e" "drained ?e" using inv by (auto simp: halves_inv_def Let_def)
      from wr [OF split_shutdown_resume_ok [OF this]] show ?thesis using ShutdownDone AwaitsShutdown by simp
    qed (use ShutdownDone same in simp_all)
  next
    case DropWrite
    then show ?thesis using same drop_write_ok(1) [OF inv] by auto
  qed
qed

lemma halves_reach_inv:
  assumes "halves_reach T c h got"
  shows "halves_inv h"
  using assms
proof (induction rule: halves_reach.induct)
  case (halves_start e got)
  then show ?case using tls_reach_inv [OF halves_start(1)] by (auto simp: halves_inv_def tls_inv_def resumable_def split: if_splits)
next
  case (halves_next h got ev r h')
  then show ?case using half_step_ok [of h T ev] by (auto simp: step_ok_def)
qed

section \<open>Properties\<close>


lemma dead_steps:
  assumes "half_steps T h h'" "halves_inv h" "dead (ha_engine h)"
  shows "halves_inv h' \<and> dead (ha_engine h')"
  using assms(1) [unfolded half_steps_def] assms(2,3)
proof (induction rule: rtranclp_induct)
  case (step h1 h2)
  then obtain ev r where "half_step T ev h1 = Some (r, h2)" by blast
  then show ?case using half_step_ok [of h1 T ev] step by (auto simp: step_ok_def)
qed simp

text \<open>
  C22. Dropping a call of one half while it waits for its transport ends the stream for both tasks.  After any further steps of either half, both directions are
  failed (or the write direction is closed); no read delivers plaintext any more and no write accepts a byte, and still no step panics.
\<close>

theorem tls_half_drop_is_final:
  assumes "halves_reach T c h got" "ev = DropRead \<and> ha_read h \<noteq> None \<or> ev = DropWrite \<and> ha_write h \<noteq> WriteIdle"
    and "half_step T ev h = Some (r, h1)" "half_steps T h1 h2"
  shows "dead (ha_engine h2) \<and>
    (\<exists>r' h3. half_step T ev' h2 = Some (r', h3) \<and> half_delivered r' = [] \<and> (\<forall>n. r' = WriteResult (Inr n) \<longrightarrow> n = 0))"
proof -
  have inv: "halves_inv h" by (rule halves_reach_inv [OF assms(1)])
  have "halves_inv h1" using half_step_ok [OF inv, of T ev] assms(3) by (auto simp: step_ok_def)
  moreover have "dead (ha_engine h1)"
    using assms(2,3) drop_read_ok(2) [OF inv] drop_write_ok(2) [OF inv] by (auto split: option.splits)
  ultimately have h2: "halves_inv h2" "dead (ha_engine h2)" using dead_steps [OF assms(4)] by auto
  obtain r' h3 where "half_step T ev' h2 = Some (r', h3)" "step_ok T h2 r' h3" using half_step_ok [OF h2(1), of T ev'] by blast
  then show ?thesis using h2(2) by (auto simp: step_ok_def)
qed

text \<open>
  The read half delivers the decrypted plaintext in order and once, whatever the write half does meanwhile: the bytes that all reads returned, before and after the split, are
  exactly what was consumed of what Rustls decrypted.
\<close>

theorem tls_halves_plaintext_in_order:
  assumes "halves_reach T c h got" "plaintext_laws T decrypted taken" "taken c = 0"
  shows "got = take (taken (se_connection (en_session (ha_engine h)))) (decrypted (se_connection (en_session (ha_engine h))))"
proof -
  have "in_order decrypted taken got (conn (ha_engine h))"
    using assms(1)
  proof (induction rule: halves_reach.induct)
    case (halves_start e got)
    then show ?case using tls_reach_in_order [OF halves_start(1) assms(2,3)] by simp
  next
    case (halves_next h got ev r h')
    then show ?case using half_step_ok [OF halves_reach_inv [OF halves_next(1)], of T ev] assms(2) by (auto simp: step_ok_def)
  qed
  then show ?thesis by (auto simp: in_order_def)
qed

text \<open>
  Reuniting undoes splitting: if the transport reunites its own halves, the engine comes back with its session, its buffers
  and its end-of-file flag, and the shared session is released; halves of two different streams are refused and given back.
\<close>

theorem tls_split_reunite:
  assumes "\<And>i r w. into_split i = (r, w) \<Longrightarrow> rejoin r w = Inr i" "store fresh = None"
  shows "case tls_split into_split fresh e store of
    ((r, w), store') \<Rightarrow> tls_reunite rejoin r w store' = Some (Inr e, store) \<and>
      (\<forall>w'. wh_session w' \<noteq> fresh \<longrightarrow> tls_reunite rejoin r w' store' = Some (Inl (Mismatched r w'), store'))"
proof -
  obtain r w where rw: "into_split (wo_io e) = (r, w)" by (cases "into_split (wo_io e)")
  have "store(fresh := None) = store" using assms(2) by auto
  then show ?thesis using assms(1) [OF rw] by (simp add: tls_split_def tls_reunite_def is_pair_of_def rw)
qed

theorem tls_split_reunite_witness:
  "\<exists>r w. tls_split (\<lambda>i::nat. (i, i)) 0 \<lparr>wo_io = 5, wo_session = True, wo_input = [1], wo_input_start = 0, wo_output = [2, 3], wo_output_start = 1, wo_eof = False\<rparr> Map.empty
      = ((r, w), [0 \<mapsto> (True, 2)]) \<and>
    tls_reunite (\<lambda>r w. if r = w then Inr r else Inl (Mismatched r w)) r w [0 \<mapsto> (True, 2)]
      = Some (Inr \<lparr>wo_io = 5, wo_session = True, wo_input = [1], wo_input_start = 0, wo_output = [2, 3], wo_output_start = 1, wo_eof = False\<rparr>, Map.empty)"
proof -
  let ?e = "\<lparr>wo_io = 5::nat, wo_session = True, wo_input = [1], wo_input_start = 0, wo_output = [2, 3], wo_output_start = 1, wo_eof = False\<rparr>"
  obtain r w where s: "tls_split (\<lambda>i. (i, i)) 0 ?e Map.empty = ((r, w), [0 \<mapsto> (True, 2)])" by (simp add: tls_split_def)
  then show ?thesis
    using tls_split_reunite [of "\<lambda>i. (i, i)" "\<lambda>r w. if r = w then Inr r else Inl (Mismatched r w)" Map.empty 0 ?e] by simp
qed

lemma read_ok_length: "read_ok T n e (ReadReturns (Inr bs), e') \<Longrightarrow> length bs \<le> n"
  using copy_spec [of T n "[]" _ "Inr bs" "en_session e'" "\<lambda>_ _. True"] by (auto simp: read_ok_def copy_steps_def)

lemma split_scatter_total:
  assumes "length bs \<le> sum_list caps"
  shows "\<exists>bufs. split_scatter caps bs = Some bufs \<and> concat bufs = bs"
proof (cases "sum_list caps = 0")
  case True
  then show ?thesis using assms by (simp add: split_scatter_def del: sum_list_eq_0_iff)
next
  case False
  then obtain st where "scatter bs ([], [], caps) = Some st" "concat (targets st) = bs"
    using scatter_total [of caps "[]" bs "[]"] assms by (cases caps) auto
  then show ?thesis using False by (simp add: split_scatter_def del: sum_list_eq_0_iff)
qed

text \<open>A vectored read never runs out of buffers and leaves in them what the read took, in order.\<close>

theorem tls_vectored_read_fits:
  assumes "halves_reach T c h got" "half_step T ev h = Some (ReadResult (Inr bs), h')"
    and "ev = StartRead (sum_list caps) \<or> ha_read h = Some (sum_list caps)"
  shows "\<exists>bufs. split_scatter caps bs = Some bufs \<and> concat bufs = bs"
proof -
  have inv: "halves_inv h" by (rule halves_reach_inv [OF assms(1)])
  have "length bs \<le> sum_list caps"
  proof (cases ev)
    case (StartRead n)
    then have "n = sum_list caps" "split_read T n (ha_engine h) = (ReadReturns (Inr bs), ha_engine h')" using assms(2,3)
      by (auto simp: after_read_def split: if_splits prod.splits read_turn.splits)
    then show ?thesis using read_ok_length [of T n "ha_engine h" bs] split_read_ok [of "ha_engine h" n T] inv
      by (cases "n = 0") (auto simp: split_read_def halves_inv_def Let_def split: if_splits)
  next
    case (ReadDone x)
    then obtain n where n: "ha_read h = Some n" "split_read_resume T n x (ha_engine h) = (ReadReturns (Inr bs), ha_engine h')" using assms(2)
      by (auto simp: after_read_def split: option.splits prod.splits read_turn.splits)
    then have "n = sum_list caps" using assms(3) ReadDone by simp
    moreover have "en_input_start (ha_engine h) = 0" "en_input (ha_engine h) = []" using inv n(1) by (auto simp: halves_inv_def Let_def)
    ultimately show ?thesis using read_ok_length [of T n "ha_engine h" bs] split_read_resume_ok(2) [of "ha_engine h" T n x] n(2) by simp
  qed (use assms(2) in \<open>auto simp: after_write_def split: if_splits prod.splits write_turn.splits write_pc.splits option.splits\<close>)
  then show ?thesis by (rule split_scatter_total)
qed

subsection \<open>Concrete halves\<close>

text \<open>A read waits for the transport while the other task writes two bytes, of which the transport took one.\<close>

definition demo_halves :: "(u8 list \<times> u8 list \<times> nat) halves" where
  "demo_halves = \<lparr>ha_engine = demo_engine, ha_read = None, ha_write = WriteIdle\<rparr>"

definition demo_waiting :: "(u8 list \<times> u8 list \<times> nat) halves" where
  "demo_waiting = demo_halves\<lparr>ha_read := Some 2\<rparr>"

definition demo_unsent :: "(u8 list \<times> u8 list \<times> nat) halves" where
  "demo_unsent = demo_waiting\<lparr>ha_engine := demo_engine\<lparr>en_emitted := [7, 8], en_output := [7, 8]\<rparr>, ha_write := AwaitsWrite (DrainThenAccepted 2)\<rparr>"

definition demo_writing :: "(u8 list \<times> u8 list \<times> nat) halves" where
  "demo_writing = demo_waiting\<lparr>ha_engine := demo_engine\<lparr>en_emitted := [7, 8], en_output := [7, 8], en_output_start := 1, en_io := demo_io\<lparr>ti_wire := [7]\<rparr>\<rparr>,
     ha_write := AwaitsWrite (DrainThenAccepted 2)\<rparr>"

lemma demo_start_read: "half_step plain_rustls (StartRead 2) demo_halves = Some (NoResult, demo_waiting)"
  by code_simp

lemma demo_start_write:
  "half_step plain_rustls (StartWrite False [[7, 8]]) demo_waiting = Some (NoResult, demo_unsent)"
  "half_step plain_rustls (WriteDone (DidWrite 1)) demo_unsent = Some (NoResult, demo_writing)"
  by code_simp+

lemma demo_halves_reach:
  "halves_reach plain_rustls ([], [], 0) demo_waiting []" "halves_reach plain_rustls ([], [], 0) demo_writing []"
proof -
  have "halves_reach plain_rustls ([], [], 0) demo_halves []" unfolding demo_halves_def by (rule halves_start [OF demo_reach])
  from halves_next [OF this demo_start_read] show w: "halves_reach plain_rustls ([], [], 0) demo_waiting []" by (simp add: half_delivered_def)
  from halves_next [OF w demo_start_write(1)] have r: "halves_reach plain_rustls ([], [], 0) demo_unsent []" by (simp add: half_delivered_def)
  from halves_next [OF r demo_start_write(2)] show "halves_reach plain_rustls ([], [], 0) demo_writing []" by (simp add: half_delivered_def)
qed


theorem tls_half_drop_is_final_witness:
  "\<exists>h1 h2 h3. half_step plain_rustls DropRead demo_writing = Some (NoResult, h1) \<and>
     half_step plain_rustls (WriteDone (DidWrite 1)) h1 = Some (WriteResult (Inl OtherError), h2) \<and>
     dead (ha_engine h2) \<and> half_step plain_rustls (StartWrite False [[9]]) h2 = Some (WriteResult (Inl OtherError), h3)"
proof -
  let ?s = "\<lparr>se_connection = ([], [], 0), se_read = ReadFailed abandoned_io, se_write = WriteFailed abandoned_io\<rparr>"
  let ?h1 = "demo_writing\<lparr>ha_engine := (ha_engine demo_writing)\<lparr>en_session := ?s\<rparr>, ha_read := None\<rparr>"
  let ?h2 = "?h1\<lparr>ha_engine := demo_engine\<lparr>en_emitted := [7, 8], en_io := demo_io\<lparr>ti_wire := [7, 8]\<rparr>, en_session := ?s\<rparr>, ha_write := WriteIdle\<rparr>"
  have s: "half_step plain_rustls DropRead demo_writing = Some (NoResult, ?h1)" by code_simp
  have t: "half_step plain_rustls (WriteDone (DidWrite 1)) ?h1 = Some (WriteResult (Inl OtherError), ?h2)" by code_simp
  have u: "half_step plain_rustls (StartWrite False [[9]]) ?h2 = Some (WriteResult (Inl OtherError), ?h2)" by code_simp
  have "ha_read demo_writing \<noteq> None" by code_simp
  moreover have "half_steps plain_rustls ?h1 ?h2" using t unfolding half_steps_def by blast
  ultimately have "dead (ha_engine ?h2)" using tls_half_drop_is_final [OF demo_halves_reach(2) _ s, of ?h2] by blast
  then show ?thesis using s t u by blast
qed

theorem tls_halves_plaintext_in_order_witness:
  "\<exists>h. halves_reach plain_rustls ([], [], 0) h [1, 2] \<and> ha_write h = AwaitsWrite (DrainThenAccepted 2) \<and>
     [1, 2] = take (snd (snd (se_connection (en_session (ha_engine h))))) (fst (snd (se_connection (en_session (ha_engine h)))))"
proof -
  let ?h = "demo_writing\<lparr>ha_engine := (ha_engine demo_writing)\<lparr>en_session := session_new ([], [1, 2, 3], 2), en_input := [1, 2, 3], en_input_start := 3\<rparr>, ha_read := None\<rparr>"
  have s: "half_step plain_rustls (ReadDone (DidRead 3 [1, 2, 3])) demo_writing = Some (ReadResult (Inr [1, 2]), ?h)" by code_simp
  have w: "ha_write ?h = AwaitsWrite (DrainThenAccepted 2)" by code_simp
  from halves_next [OF demo_halves_reach(2) s] have r: "halves_reach plain_rustls ([], [], 0) ?h [1, 2]" by (simp add: half_delivered_def)
  show ?thesis using tls_halves_plaintext_in_order [OF r plain_rustls_laws] r w by (intro exI [of _ ?h]) (simp add: case_prod_beta)
qed
end
