(* ===== verification/Spec2Isabelle.thy ===== *)
theory Spec2Isabelle
  imports Task_System Framed_Write Timer Blocking Buffered_IO Scheduler Half_Lock Signals Io_Handle Uring_Wakes Uring_Shutdown Buffer_Pool Kqueue_Safety Kqueue_Wakeup Iocp_Shutdown Tls_Halves
begin

text \<open>
  Verification library of karmaio, a completion-based asynchronous runtime in Rust.

  \<^bold>\<open>The program.\<close>  A runtime (\<^verbatim>\<open>runtime/local.rs\<close>) owns a current-thread scheduler of tasks, a driver over one platform
  backend, a timer map and a pool of threads for blocking calls.  An I/O call builds an operation, submits it to the
  driver and awaits the operation's future; the backend parks the operation's state in a table of generational keys and wakes the
  task when the kernel, a readiness filter or a pool thread has completed it.  Cancellation scopes group operations.  Above that stand owned buffers, byte streams with
  buffering and framing, TLS and signal handling.  All paths below are under \<^verbatim>\<open>src/karmaio/src/\<close>.

  \<^bold>\<open>Conventions.\<close>  Records and datatypes carry the source's fields and variants, operations are functions on them that return the new state.  A panic is
  \<open>None\<close> (in the io_uring theories the value \<open>Panic\<close>, in the TLS theories \<open>Panicked\<close>), an \<^verbatim>\<open>io::Result\<close> is \<open>io_error + 'a\<close>.  Packed integers are words of their
  width; counters bounded by a collection are natural numbers.  Kernels, transports, clocks, wakers and Rustls are not in the
  repository: what they answer is an argument of the definitions (a script, a choice of a step, or a record of functions) over which the theorems
  quantify.  Threads are interleavings of the atomic accesses the source makes, sequentially consistent.

  \<^bold>\<open>Theories, in the order of their dependencies.\<close>
  \<^item> \<open>Prelude\<close>: widths, errors, lists.  \<open>Generational\<close>: the locale of generational slots that both key tables interpret.
  \<^item> \<open>Slab\<close> (\<^verbatim>\<open>slab.rs\<close>): vacant slots form a chain, occupied ones a finite map; the slab refines a store
    whose fresh keys are those of the chain.  \<open>Op_Table\<close> (\<^verbatim>\<open>driver/op_table.rs\<close>): keys pack slot and generation into 64
    bits, decode to what they were made of, and are never issued twice.  \<open>Op_Map\<close>: the locale that the backends use the table through.
  \<^item> \<open>Scopes\<close> (\<^verbatim>\<open>driver/helpers/scopes.rs\<close>) and \<open>Driver_Scopes\<close> (\<^verbatim>\<open>driver.rs\<close>, \<^verbatim>\<open>runtime/cancel.rs\<close>): the
    table refines a map from active scopes to operations and waiters; a cancelled scope stays cancelled, submission respects the current
    scopes and a waiter of a cancelled scope is woken.
  \<^item> \<open>Task_State\<close> (\<^verbatim>\<open>task/state.rs\<close>), \<open>Task\<close>, \<open>Task_System\<close> (\<^verbatim>\<open>task/*.rs\<close>): every transition of the state word refines an abstract life cycle;
    handles, wakers, scheduler and join handle interleave over one task cell without use after free, leak, double drop, lost notification or lost join waker.
  \<^item> \<open>Buffers\<close> (\<^verbatim>\<open>buf/*.rs\<close>), \<open>Transport\<close> (\<^verbatim>\<open>io/read\<close>, \<^verbatim>\<open>io/write\<close>), \<open>Buffered_IO\<close>: owned buffers, their views, and the loops of exact reads and complete
    writes.  \<open>Framing\<close>, \<open>Framed_Read\<close>, \<open>Framed_Write\<close> (\<^verbatim>\<open>io/framed\<close>): framers invert each other, what a reader decodes does not depend on how the
    bytes were cut into reads, and frames sent through partial writes arrive.
  \<^item> \<open>Timer\<close> (\<^verbatim>\<open>time/*.rs\<close>), \<open>Blocking\<close> (\<^verbatim>\<open>runtime/blocking.rs\<close>), \<open>Scheduler\<close> (\<^verbatim>\<open>runtime/local\<close>), \<open>Half_Lock\<close> (\<^verbatim>\<open>signal/half_lock.rs\<close>),
    \<open>Signals\<close> (\<^verbatim>\<open>signal/unix.rs\<close>), \<open>Io_Handle\<close>
    (\<^verbatim>\<open>driver/helpers/io_handle.rs\<close>), \<open>Buffer_Pool\<close> (\<^verbatim>\<open>buf/pool.rs\<close>): each a state machine with its invariant over reachable states.
  \<^item> \<open>Uring\<close>, \<open>Uring_Safety\<close>, \<open>Uring_Ops\<close>, \<open>Uring_Wakes\<close>, \<open>Uring_Shutdown\<close> (\<^verbatim>\<open>driver/backends/iouring.rs\<close>, \<^verbatim>\<open>driver/ops.rs\<close>): the io_uring backend with
    its queues and nested dispatch, under futures and streams that are submitted, polled, cancelled and dropped in any order.
  \<^item> \<open>Kqueue\<close>, \<open>Kqueue_Safety\<close>, \<open>Kqueue_Wakeup\<close> (\<^verbatim>\<open>driver/backends/kqueue.rs\<close>): the same for readiness filters and blocking jobs, and the wake-up flag
    shared with other threads.
  \<^item> \<open>Iocp\<close>, \<open>Iocp_Safety\<close>, \<open>Iocp_Shutdown\<close> (\<^verbatim>\<open>driver/backends/iocp.rs\<close>): the same for overlapped requests of Windows, whose headers live on an explicit heap.  The loops
    that apply completions are proved in the locale \<open>slot_contract\<close>, interpreted once for programs of futures and once for shutdown.
  \<^item> \<open>Tls\<close>, \<open>Tls_Safety\<close> (\<^verbatim>\<open>tls/engine.rs\<close>, \<^verbatim>\<open>tls/buffer.rs\<close>, \<^verbatim>\<open>tls/error.rs\<close>): the engine between a Rustls connection and a transport.
    \<open>Tls_Split\<close>, \<open>Tls_Halves\<close> (\<^verbatim>\<open>tls/split.rs\<close>): its two halves as machines that stop at their awaits, interleaved by two tasks over the shared session.

  \<^bold>\<open>What the properties show.\<close>  Memory: payloads of operations the kernel or a thread may still touch have one owner, buffers of the pool are at one place, task cells are
  freed once, keys do not alias.  Progress: a pending operation, timer, join handle or cancellation waiter is woken; queued tasks run within a bounded number of passes; shutdowns
  end.  Data: bytes, frames, ciphertext and plaintext arrive in order and once.  Failure: refused, cancelled and abandoned operations leave the states the code
  promises.  The findings are shown by theorems of the same kind where the code does not meet its documentation.

  \<^bold>\<open>Bounds and fuel.\<close>  Loops recurse with proved measures: the script of system-call or transport results, the remaining bytes, or the remaining events.  The
  mutually nested loops of io_uring take fuel; \<open>Uring.submit\<close> and \<open>Uring.push\<close> start with the length of the script of results, and \<open>Uring.ring_loops_terminate\<close> proves that this is
  enough and that more changes nothing; shutdown has the same lemmas.  Capacities are the source's constants.

  \<^bold>\<open>Not modelled.\<close>  The system-call wrappers of single operations
  (\<^verbatim>\<open>driver/ops/*\<close>), files, sockets, processes and Ctrl-C on Windows, which only call the operating system; the builder and the
  procedural macros; memory orderings weaker than sequential consistency.
\<close>

end
